(* ===== verification/Prelude.thy ===== *)
theory Prelude
  imports Main "HOL-Library.Word"
begin

text \<open>
  What every component shares: the JavaScript numbers, arrays and exceptions the source uses, as
  HOL definitions, and the lemmas about list segments that carry the component proofs.

  Numbers. The line numbers, columns, offsets and lengths of the editor are integral JavaScript
  numbers far below \<open>2 ^ 53\<close>, where the arithmetic of doubles is exact; they are modelled as
  \<open>int\<close>. Where the source narrows a number (\<open>v | 0\<close>, a \<open>Uint32Array\<close> cell) the
  narrowing is written out, as \<open>js_or0\<close> or as a \<open>32 word\<close>.

  Exceptions. An operation that may throw returns \<open>js_error + 'a\<close>; \<open>bindE\<close> is
  the sequencing of such operations and \<open>foldE\<close> a loop over an array whose body may throw.
  The message of an exception is not modelled.
\<close>

named_theorems segment_simps \<open>equations on segments of lists\<close>

subsection \<open>Exceptions\<close>

datatype js_error = BugIndicatingError | RangeError | TypeError | CancellationError | Error

definition bindE :: "'e + 'a \<Rightarrow> ('a \<Rightarrow> 'e + 'b) \<Rightarrow> 'e + 'b" where
  "bindE m f = (case m of Inl e \<Rightarrow> Inl e | Inr x \<Rightarrow> f x)"

lemma bindE_simps [simp]:
  "bindE (Inl e) f = Inl e"
  "bindE (Inr x) f = f x"
  by (simp_all add: bindE_def)

lemma bindE_eq_Inr [simp]: "bindE m f = Inr y \<longleftrightarrow> (\<exists>x. m = Inr x \<and> f x = Inr y)"
  by (cases m) simp_all

lemma bindE_cong [fundef_cong]:
  "m = m' \<Longrightarrow> (\<And>x. m' = Inr x \<Longrightarrow> f x = f' x) \<Longrightarrow> bindE m f = bindE m' f'"
  by (cases m') simp_all

fun foldE :: "('s \<Rightarrow> 'a \<Rightarrow> 'e + 's) \<Rightarrow> 's \<Rightarrow> 'a list \<Rightarrow> 'e + 's" where
  "foldE f s [] = Inr s"
| "foldE f s (x # xs) = bindE (f s x) (\<lambda>s'. foldE f s' xs)"

fun mapE :: "('a \<Rightarrow> 'e + 'b) \<Rightarrow> 'a list \<Rightarrow> 'e + 'b list" where
  "mapE f [] = Inr []"
| "mapE f (x # xs) = bindE (f x) (\<lambda>y. bindE (mapE f xs) (\<lambda>ys. Inr (y # ys)))"

lemma mapE_Inr: "(\<And>x. x \<in> set xs \<Longrightarrow> f x = Inr (g x)) \<Longrightarrow> mapE f xs = Inr (map g xs)"
  by (induction xs) auto

lemma length_mapE: "mapE f xs = Inr ys \<Longrightarrow> length ys = length xs"
  by (induction xs arbitrary: ys) auto

subsection \<open>Numbers\<close>

text \<open>\<open>v | 0\<close> reads the low 32 bits of an integral number as a signed integer.\<close>

definition js_or0 :: "int \<Rightarrow> int" where
  "js_or0 v = signed_take_bit 31 v"

lemma js_or0_id: "- (2 ^ 31) \<le> v \<Longrightarrow> v < 2 ^ 31 \<Longrightarrow> js_or0 v = v"
  by (simp add: js_or0_def signed_take_bit_int_eq_self)

text \<open>The remainder \<open>a % b\<close> takes the sign of \<open>a\<close>.\<close>

definition js_rem :: "int \<Rightarrow> int \<Rightarrow> int" where
  "js_rem a b = sgn a * (\<bar>a\<bar> mod \<bar>b\<bar>)"

lemma js_rem_nonneg: "0 \<le> a \<Longrightarrow> 0 < b \<Longrightarrow> js_rem a b = a mod b"
  by (cases "a = 0") (simp_all add: js_rem_def)

subsection \<open>Arrays and strings\<close>

text \<open>\<open>sub s i j\<close> is the segment of \<open>s\<close> between two offsets that are in range.\<close>

definition sub :: "'a list \<Rightarrow> int \<Rightarrow> int \<Rightarrow> 'a list" where
  "sub s i j = take (nat (j - i)) (drop (nat i) s)"

text \<open>\<open>arr.slice(i, j)\<close>: a negative bound counts from the end, bounds are clamped.\<close>

definition js_slice :: "'a list \<Rightarrow> int \<Rightarrow> int \<Rightarrow> 'a list" where
  "js_slice s i j =
     (let n = int (length s);
          lo = (if i < 0 then max (n + i) 0 else min i n);
          hi = (if j < 0 then max (n + j) 0 else min j n)
      in take (nat (hi - lo)) (drop (nat lo) s))"

text \<open>\<open>str.substring(i, j)\<close>: bounds are clamped to the string, then swapped if out of order.\<close>

definition js_substring :: "'a list \<Rightarrow> int \<Rightarrow> int \<Rightarrow> 'a list" where
  "js_substring s i j =
     (let n = int (length s); a = min (max i 0) n; b = min (max j 0) n
      in sub s (min a b) (max a b))"

text \<open>\<open>arr.splice(i, n, ...ys)\<close> for a start and a count that are not negative.\<close>

definition js_splice :: "'a list \<Rightarrow> nat \<Rightarrow> nat \<Rightarrow> 'a list \<Rightarrow> 'a list" where
  "js_splice xs i n ys = take i xs @ ys @ drop (i + n) xs"

lemma sub_self [simp, segment_simps]: "sub s i i = []"
  by (simp add: sub_def)

lemma sub_all [simp, segment_simps]: "sub s 0 (int (length s)) = s"
  by (simp add: sub_def)

lemma sub_empty [simp]: "j \<le> i \<Longrightarrow> sub s i j = []"
  by (simp add: sub_def)

lemma sub_to_end: "0 \<le> i \<Longrightarrow> sub s i (int (length s)) = drop (nat i) s"
  by (cases "i \<le> int (length s)") (simp_all add: sub_def)

lemma length_sub [simp]:
  "0 \<le> i \<Longrightarrow> i \<le> j \<Longrightarrow> j \<le> int (length s) \<Longrightarrow> int (length (sub s i j)) = j - i"
  by (simp add: sub_def)

lemma sub_append_sub [segment_simps]:
  assumes "0 \<le> i" "i \<le> j" "j \<le> k"
  shows "sub s i j @ sub s j k = sub s i k"
proof -
  have "nat (k - i) = nat (j - i) + nat (k - j)" and "nat j = nat (j - i) + nat i"
    using assms by auto
  then show ?thesis by (simp add: sub_def take_add add.commute)
qed

lemma sub_appendL: "0 \<le> i \<Longrightarrow> j \<le> int (length xs) \<Longrightarrow> sub (xs @ ys) i j = sub xs i j"
  by (cases "i \<le> j") (simp_all add: sub_def)

lemma sub_appendR:
  assumes "int (length xs) \<le> i"
  shows "sub (xs @ ys) i j = sub ys (i - int (length xs)) (j - int (length xs))"
proof -
  have "nat (i - int (length xs)) = nat i - length xs" by simp
  with assms show ?thesis by (simp add: sub_def)
qed

lemma sub_sub:
  assumes "0 \<le> i" "0 \<le> a" "b \<le> j - i"
  shows "sub (sub s i j) a b = sub s (i + a) (i + b)"
proof (cases "a \<le> b")
  case True
  have "drop (nat a) (drop (nat i) s) = drop (nat (i + a)) s"
    using assms by (simp add: nat_add_distrib add.commute)
  moreover have "min (nat (b - a)) (nat (j - i) - nat a) = nat (b - a)"
    using assms True by auto
  moreover have "i + b - (i + a) = b - a" by simp
  ultimately show ?thesis
    unfolding sub_def drop_take take_take by (simp only:)
next
  case False
  then show ?thesis by simp
qed

lemma js_slice_sub: "0 \<le> i \<Longrightarrow> i \<le> j \<Longrightarrow> j \<le> int (length s) \<Longrightarrow> js_slice s i j = sub s i j"
  by (simp add: js_slice_def sub_def Let_def)

lemma js_substring_sub:
  "0 \<le> i \<Longrightarrow> i \<le> j \<Longrightarrow> j \<le> int (length s) \<Longrightarrow> js_substring s i j = sub s i j"
  by (simp add: js_substring_def Let_def min_def max_def)

fun opt_list :: "'a option \<Rightarrow> 'a list" where
  "opt_list None = []"
| "opt_list (Some x) = [x]"

subsection \<open>Index loops\<close>

text \<open>\<open>while (i < arr.length && p(arr[i])) { i++; }\<close>\<close>

function scan_while :: "('a \<Rightarrow> bool) \<Rightarrow> 'a list \<Rightarrow> nat \<Rightarrow> nat" where
  "scan_while p xs i = (if i < length xs \<and> p (xs ! i) then scan_while p xs (i + 1) else i)"
  by pat_completeness auto
termination by (relation "measure (\<lambda>(_, xs, i). length xs - i)") auto

declare scan_while.simps [simp del]

lemma scan_while_takeWhile: "scan_while p xs i = i + length (takeWhile p (drop i xs))"
proof (induction p xs i rule: scan_while.induct)
  case (1 p xs i)
  show ?case
  proof (cases "i < length xs \<and> p (xs ! i)")
    case True
    then have "drop i xs = xs ! i # drop (i + 1) xs" by (simp add: Cons_nth_drop_Suc)
    with True 1 show ?thesis by (simp add: scan_while.simps [of p xs i])
  next
    case False
    then have "takeWhile p (drop i xs) = []"
      by (cases "i < length xs") (simp_all add: Cons_nth_drop_Suc [symmetric])
    moreover have "scan_while p xs i = i" using False by (subst scan_while.simps) (simp only: if_False)
    ultimately show ?thesis by simp
  qed
qed

text \<open>
  Two index loops in a row cut an array into three pieces: a prefix that satisfies \<open>p\<close>, the
  elements after it that satisfy \<open>q\<close>, and the rest.
\<close>

lemma scan_while_split:
  assumes "i = scan_while p xs 0" and "j = scan_while q xs i"
  obtains A M B where "xs = A @ M @ B" "i = length A" "j = length A + length M"
    "\<forall>a \<in> set A. p a" "M @ B \<noteq> [] \<longrightarrow> \<not> p (hd (M @ B))" "\<forall>m \<in> set M. q m" "B \<noteq> [] \<longrightarrow> \<not> q (hd B)"
proof -
  let ?A = "takeWhile p xs" and ?R = "dropWhile p xs"
  have i: "i = length ?A" using assms(1) by (simp add: scan_while_takeWhile)
  have R: "drop i xs = ?R" unfolding i by (simp add: dropWhile_eq_drop)
  have j: "j = length ?A + length (takeWhile q ?R)"
    unfolding assms(2) scan_while_takeWhile R by (simp only: i)
  show ?thesis
  proof (rule that [of ?A "takeWhile q ?R" "dropWhile q ?R"])
    show "xs = ?A @ takeWhile q ?R @ dropWhile q ?R" by simp
    show "takeWhile q ?R @ dropWhile q ?R \<noteq> [] \<longrightarrow> \<not> p (hd (takeWhile q ?R @ dropWhile q ?R))"
      by (simp add: hd_dropWhile)
    show "dropWhile q ?R \<noteq> [] \<longrightarrow> \<not> q (hd (dropWhile q ?R))" by (simp add: hd_dropWhile)
  qed (use i j in \<open>auto dest: set_takeWhileD\<close>)
qed

lemma js_splice_append: "js_splice (A @ M @ B) (length A) (length M) ys = A @ ys @ B"
  by (simp add: js_splice_def)

lemma nth_piece_hd: "M \<noteq> [] \<Longrightarrow> (A @ M @ B) ! length A = hd M"
  by (simp add: nth_append hd_conv_nth)

lemma nth_piece_last: "M \<noteq> [] \<Longrightarrow> (A @ M @ B) ! (length A + length M - 1) = last M"
  by (cases M rule: rev_cases) (simp_all add: nth_append)

lemma scan_while_lt: "scan_while p xs 0 < length xs \<longleftrightarrow> dropWhile p xs \<noteq> []"
  using length_append [of "takeWhile p xs" "dropWhile p xs"]
  by (simp only: scan_while_takeWhile takeWhile_dropWhile_id) auto

lemma scan_while_nth: "dropWhile p xs \<noteq> [] \<Longrightarrow> xs ! scan_while p xs 0 = hd (dropWhile p xs)"
  using scan_while_lt [of p xs]
  by (simp add: scan_while_takeWhile dropWhile_eq_drop hd_drop_conv_nth del: dropWhile_eq_Nil_conv)

lemma in_set_dropE:
  assumes "y \<in> set (drop n xs)"
  obtains m where "n \<le> m" "m < length xs" "y = xs ! m"
proof -
  from assms obtain k where "k < length xs - n" "y = drop n xs ! k"
    by (metis in_set_conv_nth length_drop)
  then show ?thesis by (intro that [of "n + k"]) simp_all
qed

end
