(* ===== verification/Arrays_Find.thy ===== *)
theory Arrays_Find
  imports Prelude
begin

text \<open>
  \<open>src/vs/base/common/arraysFind.ts\<close> and the comparators of
  \<open>src/vs/base/common/arrays.ts\<close>.

  The binary searches are the loops of the source over a half-open index interval; array reads stay
  inside the array as long as \<open>endIdxEx\<close> is at most its length. Results that may be \<open>-1\<close>
  are \<open>int\<close>. A comparator is a function into \<open>int\<close>, of which only the sign is used;
  the contract the documentation of \<open>Comparator\<close> states is the locale \<open>comparator\<close>.
\<close>

subsection \<open>Comparators\<close>

type_synonym 'a cmp = "'a \<Rightarrow> 'a \<Rightarrow> int"

definition isLessThan :: "int \<Rightarrow> bool" where
  "isLessThan result \<longleftrightarrow> result < 0"

definition isGreaterThan :: "int \<Rightarrow> bool" where
  "isGreaterThan result \<longleftrightarrow> result > 0"

definition isNeitherLessOrGreaterThan :: "int \<Rightarrow> bool" where
  "isNeitherLessOrGreaterThan result \<longleftrightarrow> result = 0"

definition compareBy :: "('i \<Rightarrow> 'k) \<Rightarrow> 'k cmp \<Rightarrow> 'i cmp" where
  "compareBy selector comparator = (\<lambda>a b. comparator (selector a) (selector b))"

fun tieBreakComparators :: "'a cmp list \<Rightarrow> 'a cmp" where
  "tieBreakComparators [] item1 item2 = 0"
| "tieBreakComparators (c # cs) item1 item2 =
     (let result = c item1 item2
      in if \<not> isNeitherLessOrGreaterThan result then result
         else tieBreakComparators cs item1 item2)"

definition numberComparator :: "int cmp" where
  "numberComparator a b = a - b"

definition booleanComparator :: "bool cmp" where
  "booleanComparator a b = numberComparator (if a then 1 else 0) (if b then 1 else 0)"

definition reverseOrder :: "'a cmp \<Rightarrow> 'a cmp" where
  "reverseOrder comparator = (\<lambda>a b. - comparator a b)"

definition compareUndefinedSmallest :: "'a cmp \<Rightarrow> 'a option cmp" where
  "compareUndefinedSmallest comparator = (\<lambda>a b.
     (case a of
        None \<Rightarrow> (if b = None then 0 else - 1)
      | Some x \<Rightarrow> (case b of None \<Rightarrow> 1 | Some y \<Rightarrow> comparator x y)))"

text \<open>
  What a client may assume of a comparator: swapping the arguments swaps the sign, and
  \<open>c a b \<le> 0\<close> is transitive (so it is a total preorder).
\<close>

locale comparator =
  fixes c :: "'a cmp"
  assumes swap: "0 < c b a \<longleftrightarrow> c a b < 0"
    and trans: "c x y \<le> 0 \<Longrightarrow> c y z \<le> 0 \<Longrightarrow> c x z \<le> 0"
begin

lemma refl [simp]: "c a a = 0"
  using swap [of a a] by linarith

lemma eq_sym: "c a b = 0 \<longleftrightarrow> c b a = 0"
  using swap [of a b] swap [of b a] by linarith

lemma le_iff: "c a b \<le> 0 \<longleftrightarrow> 0 \<le> c b a"
  using swap [of a b] swap [of b a] by linarith

lemma total: "c a b \<le> 0 \<or> c b a \<le> 0"
  using swap [of a b] swap [of b a] by linarith

lemma trans_less_le: "c x y < 0 \<Longrightarrow> c y z \<le> 0 \<Longrightarrow> c x z < 0"
  using trans [of y z x] swap [of y x] swap [of z x] le_iff [of x z] by linarith

lemma trans_le_less: "c x y \<le> 0 \<Longrightarrow> c y z < 0 \<Longrightarrow> c x z < 0"
  using trans [of z x y] swap [of z y] swap [of z x] le_iff [of x z] by linarith

lemma eq_trans: "c x y = 0 \<Longrightarrow> c y z = 0 \<Longrightarrow> c x z = 0"
  using trans [of x y z] trans [of z y x] eq_sym [of x y] eq_sym [of y z] le_iff [of z x]
  by linarith

lemma eq_less_left: "c x y = 0 \<Longrightarrow> c x z < 0 \<longleftrightarrow> c y z < 0"
  using trans_le_less [of x y z] trans_le_less [of y x z] eq_sym [of x y] by linarith

end

lemma comparator_compareBy: "comparator c \<Longrightarrow> comparator (compareBy f c)"
  unfolding compareBy_def
  by unfold_locales (erule comparator.swap, erule (2) comparator.trans)

lemma comparator_reverseOrder: "comparator c \<Longrightarrow> comparator (reverseOrder c)"
  unfolding reverseOrder_def
proof unfold_locales
  assume c: "comparator c"
  fix x y z :: 'a
  show "0 < - c y x \<longleftrightarrow> - c x y < 0"
    using comparator.swap [OF c, of x y] by simp
  assume "- c x y \<le> 0" and "- c y z \<le> 0"
  then show "- c x z \<le> 0"
    using comparator.trans [OF c, of z y x] comparator.le_iff [OF c, of z x]
      comparator.le_iff [OF c, of y x] comparator.le_iff [OF c, of z y] by linarith
qed

lemma comparator_compareUndefinedSmallest:
  assumes "comparator c"
  shows "comparator (compareUndefinedSmallest c)"
proof
  fix a b show "0 < compareUndefinedSmallest c b a \<longleftrightarrow> compareUndefinedSmallest c a b < 0"
    by (auto simp: compareUndefinedSmallest_def comparator.swap [OF assms] split: option.splits)
next
  fix x y z
  assume "compareUndefinedSmallest c x y \<le> 0" and "compareUndefinedSmallest c y z \<le> 0"
  then show "compareUndefinedSmallest c x z \<le> 0"
    by (auto simp: compareUndefinedSmallest_def intro: comparator.trans [OF assms]
        split: option.splits if_splits)
qed

lemma tieBreak_Cons: "tieBreakComparators (d # cs) a b =
  (if d a b = 0 then tieBreakComparators cs a b else d a b)"
  by (simp add: Let_def isNeitherLessOrGreaterThan_def)

lemma comparator_tieBreak_Cons:
  assumes d: "comparator d" and r: "comparator (tieBreakComparators cs)"
  shows "comparator (tieBreakComparators (d # cs))"
proof
  fix a b
  show "0 < tieBreakComparators (d # cs) b a \<longleftrightarrow> tieBreakComparators (d # cs) a b < 0"
    using comparator.swap [OF d, of b a] comparator.swap [OF r, of b a] comparator.eq_sym [OF d, of a b]
    unfolding tieBreak_Cons by simp
next
  fix x y z
  assume "tieBreakComparators (d # cs) x y \<le> 0" and "tieBreakComparators (d # cs) y z \<le> 0"
  then have le: "d x y \<le> 0" "d y z \<le> 0"
    and eq: "d x y = 0 \<Longrightarrow> tieBreakComparators cs x y \<le> 0"
      "d y z = 0 \<Longrightarrow> tieBreakComparators cs y z \<le> 0"
    by (auto simp only: tieBreak_Cons split: if_splits)
  show "tieBreakComparators (d # cs) x z \<le> 0"
  proof (cases "d x y = 0 \<and> d y z = 0")
    case True
    then have "d x z = 0" by (blast intro: comparator.eq_trans [OF d])
    with True eq show ?thesis
      unfolding tieBreak_Cons by (auto intro: comparator.trans [OF r])
  next
    case False
    with le have "d x y < 0 \<or> d y z < 0" by linarith
    then have "d x z < 0"
      using le comparator.trans_less_le [OF d] comparator.trans_le_less [OF d] by blast
    then show ?thesis unfolding tieBreak_Cons by simp
  qed
qed

lemma comparator_tieBreak: "(\<And>c. c \<in> set cs \<Longrightarrow> comparator c) \<Longrightarrow> comparator (tieBreakComparators cs)"
proof (induction cs)
  case Nil
  show ?case by unfold_locales simp_all
next
  case (Cons d cs)
  then show ?case by (intro comparator_tieBreak_Cons) simp_all
qed

interpretation numberCmp: comparator numberComparator
  by unfold_locales (auto simp: numberComparator_def)

interpretation booleanCmp: comparator booleanComparator
  by unfold_locales (auto simp: booleanComparator_def numberComparator_def split: if_splits)

subsection \<open>Linear scans\<close>

fun findLastIdx_loop :: "'a list \<Rightarrow> ('a \<Rightarrow> nat \<Rightarrow> bool) \<Rightarrow> nat \<Rightarrow> int" where
  "findLastIdx_loop xs predicate 0 = - 1"
| "findLastIdx_loop xs predicate (Suc i) =
     (if predicate (xs ! i) i then int i else findLastIdx_loop xs predicate i)"

definition findLastIdx :: "'a list \<Rightarrow> ('a \<Rightarrow> nat \<Rightarrow> bool) \<Rightarrow> int \<Rightarrow> int" where
  "findLastIdx xs predicate fromIndex = findLastIdx_loop xs predicate (nat (fromIndex + 1))"

definition findLast :: "'a list \<Rightarrow> ('a \<Rightarrow> nat \<Rightarrow> bool) \<Rightarrow> int \<Rightarrow> 'a option" where
  "findLast xs predicate fromIndex =
     (let idx = findLastIdx xs predicate fromIndex
      in if idx = - 1 then None else Some (xs ! nat idx))"

function findFirstIdx :: "'a list \<Rightarrow> ('a \<Rightarrow> nat \<Rightarrow> bool) \<Rightarrow> nat \<Rightarrow> int" where
  "findFirstIdx xs predicate i =
     (if i < length xs
      then if predicate (xs ! i) i then int i else findFirstIdx xs predicate (i + 1)
      else - 1)"
  by pat_completeness auto
termination by (relation "measure (\<lambda>(xs, _, i). length xs - i)") auto

declare findFirstIdx.simps [simp del]

definition findFirst :: "'a list \<Rightarrow> ('a \<Rightarrow> nat \<Rightarrow> bool) \<Rightarrow> nat \<Rightarrow> 'a option" where
  "findFirst xs predicate fromIndex =
     (let idx = findFirstIdx xs predicate fromIndex
      in if idx = - 1 then None else Some (xs ! nat idx))"

subsection \<open>Binary searches\<close>

function findLastIdxMonotonous_loop :: "'a list \<Rightarrow> ('a \<Rightarrow> bool) \<Rightarrow> nat \<Rightarrow> nat \<Rightarrow> nat" where
  "findLastIdxMonotonous_loop xs predicate i j =
     (if i < j then
        let k = (i + j) div 2
        in if predicate (xs ! k) then findLastIdxMonotonous_loop xs predicate (k + 1) j
           else findLastIdxMonotonous_loop xs predicate i k
      else i)"
  by pat_completeness auto
termination by (relation "measure (\<lambda>(_, _, i, j). j - i)") auto

declare findLastIdxMonotonous_loop.simps [simp del]

definition findLastIdxMonotonous :: "'a list \<Rightarrow> ('a \<Rightarrow> bool) \<Rightarrow> nat \<Rightarrow> nat \<Rightarrow> int" where
  "findLastIdxMonotonous xs predicate startIdx endIdxEx =
     int (findLastIdxMonotonous_loop xs predicate startIdx endIdxEx) - 1"

definition findLastMonotonous :: "'a list \<Rightarrow> ('a \<Rightarrow> bool) \<Rightarrow> 'a option" where
  "findLastMonotonous xs predicate =
     (let idx = findLastIdxMonotonous xs predicate 0 (length xs)
      in if idx = - 1 then None else Some (xs ! nat idx))"

function findFirstIdxMonotonousOrArrLen ::
    "'a list \<Rightarrow> ('a \<Rightarrow> bool) \<Rightarrow> nat \<Rightarrow> nat \<Rightarrow> nat" where
  "findFirstIdxMonotonousOrArrLen xs predicate i j =
     (if i < j then
        let k = (i + j) div 2
        in if predicate (xs ! k) then findFirstIdxMonotonousOrArrLen xs predicate i k
           else findFirstIdxMonotonousOrArrLen xs predicate (k + 1) j
      else i)"
  by pat_completeness auto
termination by (relation "measure (\<lambda>(_, _, i, j). j - i)") auto

declare findFirstIdxMonotonousOrArrLen.simps [simp del]

definition findFirstMonotonous :: "'a list \<Rightarrow> ('a \<Rightarrow> bool) \<Rightarrow> 'a option" where
  "findFirstMonotonous xs predicate =
     (let idx = findFirstIdxMonotonousOrArrLen xs predicate 0 (length xs)
      in if idx = length xs then None else Some (xs ! idx))"

definition findFirstIdxMonotonous :: "'a list \<Rightarrow> ('a \<Rightarrow> bool) \<Rightarrow> nat \<Rightarrow> nat \<Rightarrow> int" where
  "findFirstIdxMonotonous xs predicate startIdx endIdxEx =
     (let idx = findFirstIdxMonotonousOrArrLen xs predicate startIdx endIdxEx
      in if idx = length xs then - 1 else int idx)"

text \<open>
  The documented precondition: over the searched interval the predicate is true on a prefix
  (\<open>decreasing\<close>), or on a suffix (\<open>increasing\<close>).
\<close>

definition decreasing :: "('a \<Rightarrow> bool) \<Rightarrow> 'a list \<Rightarrow> nat \<Rightarrow> nat \<Rightarrow> bool" where
  "decreasing p xs i j \<longleftrightarrow> (\<forall>a b. i \<le> a \<and> a \<le> b \<and> b < j \<and> p (xs ! b) \<longrightarrow> p (xs ! a))"

definition increasing :: "('a \<Rightarrow> bool) \<Rightarrow> 'a list \<Rightarrow> nat \<Rightarrow> nat \<Rightarrow> bool" where
  "increasing p xs i j \<longleftrightarrow> (\<forall>a b. i \<le> a \<and> a \<le> b \<and> b < j \<and> p (xs ! a) \<longrightarrow> p (xs ! b))"

lemma decreasingD: "decreasing p xs i j \<Longrightarrow> i \<le> a \<Longrightarrow> a \<le> b \<Longrightarrow> b < j \<Longrightarrow> p (xs ! b) \<Longrightarrow> p (xs ! a)"
  unfolding decreasing_def by blast

lemma increasing_not: "increasing (\<lambda>x. \<not> p x) xs i j = decreasing p xs i j"
  unfolding increasing_def decreasing_def by blast

lemma decreasing_sorted:
  assumes "sorted_wrt (\<lambda>a b. p b \<longrightarrow> p a) xs" and "j \<le> length xs"
  shows "decreasing p xs i j"
  using assms unfolding decreasing_def sorted_wrt_iff_nth_less
  by (metis le_neq_implies_less order.strict_trans2)

lemma increasing_sorted:
  assumes "sorted_wrt (\<lambda>a b. p a \<longrightarrow> p b) xs" and "j \<le> length xs"
  shows "increasing p xs i j"
  using assms unfolding increasing_def sorted_wrt_iff_nth_less
  by (metis le_neq_implies_less order.strict_trans2)

text \<open>Both searches are the same loop, with the branches exchanged.\<close>

lemma findFirst_findLast_loop:
  "findFirstIdxMonotonousOrArrLen xs p i j = findLastIdxMonotonous_loop xs (\<lambda>x. \<not> p x) i j"
proof (induction xs p i j rule: findFirstIdxMonotonousOrArrLen.induct)
  case (1 xs p i j)
  then show ?case
    by (simp add: findFirstIdxMonotonousOrArrLen.simps [of xs p i j]
        findLastIdxMonotonous_loop.simps [of xs _ i j] Let_def)
qed

lemma findLastIdxMonotonous_loop_bounds:
  "i \<le> j \<Longrightarrow> i \<le> findLastIdxMonotonous_loop xs p i j \<and> findLastIdxMonotonous_loop xs p i j \<le> j"
proof (induction xs p i j rule: findLastIdxMonotonous_loop.induct)
  case (1 xs p i j)
  show ?case
  proof (cases "i < j")
    case True
    then have "i \<le> (i + j) div 2" "(i + j) div 2 + 1 \<le> j" by auto
    with 1 True show ?thesis
      by (auto simp: findLastIdxMonotonous_loop.simps [of xs p i j] Let_def)
  next
    case False
    then have "findLastIdxMonotonous_loop xs p i j = i"
      by (simp add: findLastIdxMonotonous_loop.simps [of xs p i j])
    with 1 show ?thesis by simp
  qed
qed

text \<open>
  The loop invariant: everything before \<open>i\<close> satisfies the predicate, nothing from
  \<open>j\<close> on does.
\<close>

lemma findLastIdxMonotonous_loop_split:
  assumes "decreasing p xs lo hi" "lo \<le> i" "i \<le> j" "j \<le> hi"
    and "\<And>m. lo \<le> m \<Longrightarrow> m < i \<Longrightarrow> p (xs ! m)"
    and "\<And>m. j \<le> m \<Longrightarrow> m < hi \<Longrightarrow> \<not> p (xs ! m)"
    and "lo \<le> m" "m < hi"
  shows "p (xs ! m) \<longleftrightarrow> m < findLastIdxMonotonous_loop xs p i j"
  using assms(1-6)
proof (induction xs p i j rule: findLastIdxMonotonous_loop.induct)
  case (1 xs p i j)
  let ?k = "(i + j) div 2"
  show ?case
  proof (cases "i < j")
    case False
    then have "findLastIdxMonotonous_loop xs p i j = i"
      by (simp add: findLastIdxMonotonous_loop.simps [of xs p i j])
    moreover have "i = j" using False "1.prems"(3) by simp
    ultimately show ?thesis using "1.prems" assms(7,8) by (cases "m < i") auto
  next
    case True
    then have k: "i \<le> ?k" "?k < j" by auto
    note unfold = findLastIdxMonotonous_loop.simps [of xs p i j]
    show ?thesis
    proof (cases "p (xs ! ?k)")
      case p: True
      have "p (xs ! n)" if "lo \<le> n" "n < ?k + 1" for n
        using decreasingD [OF "1.prems"(1), of n ?k] that p k "1.prems"(4) by simp
      then have "p (xs ! m) \<longleftrightarrow> m < findLastIdxMonotonous_loop xs p (?k + 1) j"
        using True p k "1.prems" by (intro "1.IH"(1)) simp_all
      with True p show ?thesis by (simp add: unfold)
    next
      case p: False
      have "\<not> p (xs ! n)" if "?k \<le> n" "n < hi" for n
        using decreasingD [OF "1.prems"(1), of ?k n] that p k "1.prems"(2) by auto
      then have "p (xs ! m) \<longleftrightarrow> m < findLastIdxMonotonous_loop xs p i ?k"
        using True p k "1.prems" by (intro "1.IH"(2)) simp_all
      with True p show ?thesis by (simp add: unfold)
    qed
  qed
qed

lemma findLastIdxMonotonous_bounds:
  "i \<le> j \<Longrightarrow> int i - 1 \<le> findLastIdxMonotonous xs p i j \<and> findLastIdxMonotonous xs p i j < int j"
  using findLastIdxMonotonous_loop_bounds [of i j xs p] by (auto simp: findLastIdxMonotonous_def)

lemma findLastIdxMonotonous_iff:
  assumes "decreasing p xs i j" "i \<le> m" "m < j"
  shows "p (xs ! m) \<longleftrightarrow> int m \<le> findLastIdxMonotonous xs p i j"
  using findLastIdxMonotonous_loop_split [OF assms(1), of i j m] assms
  by (auto simp: findLastIdxMonotonous_def)

lemma findFirstIdxMonotonousOrArrLen_bounds:
  "i \<le> j \<Longrightarrow> i \<le> findFirstIdxMonotonousOrArrLen xs p i j \<and> findFirstIdxMonotonousOrArrLen xs p i j \<le> j"
  unfolding findFirst_findLast_loop by (rule findLastIdxMonotonous_loop_bounds)

lemma findFirstIdxMonotonousOrArrLen_iff:
  assumes "increasing p xs i j" "i \<le> m" "m < j"
  shows "p (xs ! m) \<longleftrightarrow> findFirstIdxMonotonousOrArrLen xs p i j \<le> m"
proof -
  have "decreasing (\<lambda>x. \<not> p x) xs i j"
    using assms(1) increasing_not [of "\<lambda>x. \<not> p x" xs i j] by simp
  from findLastIdxMonotonous_loop_split [OF this, of i j m] assms(2,3) show ?thesis
    unfolding findFirst_findLast_loop by auto
qed

text \<open>The linear scans, which need no order on the array.\<close>

lemma findLastIdx_loop_spec:
  "findLastIdx_loop xs p n = r \<Longrightarrow>
   (- 1 \<le> r \<and> r < int n \<and> (r \<noteq> - 1 \<longrightarrow> p (xs ! nat r) (nat r)) \<and>
    (\<forall>i. r < int i \<and> i < n \<longrightarrow> \<not> p (xs ! i) i))"
proof (induction n)
  case 0
  then show ?case by simp
next
  case (Suc n)
  then show ?case
    by (cases "p (xs ! n) n") (auto simp: less_Suc_eq)
qed

lemma findFirstIdx_spec:
  "findFirstIdx xs p i = (if \<exists>k. i \<le> k \<and> k < length xs \<and> p (xs ! k) k
     then int (LEAST k. i \<le> k \<and> k < length xs \<and> p (xs ! k) k) else - 1)"
proof (induction xs p i rule: findFirstIdx.induct)
  case (1 xs p i)
  let ?Q = "\<lambda>i k. i \<le> k \<and> k < length xs \<and> p (xs ! k) k"
  note unfold = findFirstIdx.simps [of xs p i]
  consider (out) "\<not> i < length xs" | (hit) "i < length xs" "p (xs ! i) i"
    | (miss) "i < length xs" "\<not> p (xs ! i) i" by blast
  then show ?case
  proof cases
    case out
    then show ?thesis by (auto simp: unfold)
  next
    case hit
    then have "(LEAST k. ?Q i k) = i" by (intro Least_equality) auto
    with hit show ?thesis by (auto simp: unfold)
  next
    case miss
    then have Q: "?Q i k \<longleftrightarrow> ?Q (i + 1) k" for k
      using le_neq_implies_less by fastforce
    have "findFirstIdx xs p i = findFirstIdx xs p (i + 1)" using miss by (simp add: unfold)
    with "1.IH" [OF miss] show ?thesis by (simp only: Q)
  qed
qed

text \<open>
  On an array that meets the precondition the binary search returns what the scan from the end
  returns.
\<close>

lemma findLastIdx_eq_findLastIdxMonotonous:
  assumes "decreasing p xs 0 (length xs)"
  shows "findLastIdxMonotonous xs p 0 (length xs) =
    findLastIdx xs (\<lambda>x _. p x) (int (length xs) - 1)"
proof -
  define b where "b = findLastIdxMonotonous xs p 0 (length xs)"
  define l where "l = findLastIdx_loop xs (\<lambda>x _. p x) (length xs)"
  have l: "- 1 \<le> l" "l < int (length xs)" "l \<noteq> - 1 \<longrightarrow> p (xs ! nat l)"
    "\<forall>i. l < int i \<and> i < length xs \<longrightarrow> \<not> p (xs ! i)"
    using findLastIdx_loop_spec [of xs "\<lambda>x _. p x" "length xs" l] l_def by simp_all
  have b: "- 1 \<le> b" "b < int (length xs)"
    using findLastIdxMonotonous_bounds [of 0 "length xs" xs p] by (simp_all add: b_def)
  have iff: "p (xs ! m) \<longleftrightarrow> int m \<le> b" if "m < length xs" for m
    using findLastIdxMonotonous_iff [OF assms, of m] that by (simp add: b_def)
  have "l \<le> b" using l iff [of "nat l"] b by (cases "l = - 1") auto
  moreover have "b \<le> l"
  proof (rule ccontr)
    assume "\<not> b \<le> l"
    with l(1) b have "l < int (nat b)" "nat b < length xs" "int (nat b) \<le> b" by auto
    with l(4) iff [of "nat b"] show False by auto
  qed
  ultimately show ?thesis by (simp add: b_def l_def findLastIdx_def)
qed

subsection \<open>Repeated searches: MonotonousArray\<close>

record 'a MonotonousArray =
  ma_array :: "'a list"
  ma_findLastMonotonousLastIdx :: nat
  ma_prevFindLastPredicate :: "('a \<Rightarrow> bool) option"

definition MonotonousArray_new :: "'a list \<Rightarrow> 'a MonotonousArray" where
  "MonotonousArray_new xs = \<lparr>ma_array = xs, ma_findLastMonotonousLastIdx = 0,
     ma_prevFindLastPredicate = None\<rparr>"

text \<open>
  The first argument is the static flag \<open>assertInvariants\<close>; the check throws a plain
  \<open>Error\<close>, for which \<open>BugIndicatingError\<close> stands.
\<close>

definition MonotonousArray_findLastMonotonous ::
    "bool \<Rightarrow> 'a MonotonousArray \<Rightarrow> ('a \<Rightarrow> bool) \<Rightarrow> js_error + 'a option \<times> 'a MonotonousArray" where
  "MonotonousArray_findLastMonotonous assertInvariants this predicate =
     (let bad = (case ma_prevFindLastPredicate this of None \<Rightarrow> False
          | Some prev \<Rightarrow> list_ex (\<lambda>item. prev item \<and> \<not> predicate item) (ma_array this))
      in if assertInvariants \<and> bad then Inl BugIndicatingError
         else
           let this1 = (if assertInvariants
                 then this\<lparr>ma_prevFindLastPredicate := Some predicate\<rparr> else this);
               idx = findLastIdxMonotonous (ma_array this1) predicate
                 (ma_findLastMonotonousLastIdx this1) (length (ma_array this1))
           in Inr (if idx = - 1 then None else Some (ma_array this1 ! nat idx),
                   this1\<lparr>ma_findLastMonotonousLastIdx := nat (idx + 1)\<rparr>))"

text \<open>
  The cached index counts the elements that satisfied the last predicate \<open>q\<close>. A weaker
  monotonous predicate gives the same answer as a search of the whole array.
\<close>

definition MonotonousArray_inv :: "('a \<Rightarrow> bool) \<Rightarrow> 'a MonotonousArray \<Rightarrow> bool" where
  "MonotonousArray_inv q this \<longleftrightarrow>
     ma_findLastMonotonousLastIdx this \<le> length (ma_array this) \<and>
     (\<forall>i < ma_findLastMonotonousLastIdx this. q (ma_array this ! i))"

lemma MonotonousArray_findLastMonotonous_step:
  assumes inv: "MonotonousArray_inv q this"
    and dec: "decreasing p (ma_array this) 0 (length (ma_array this))"
    and weaker: "\<And>x. x \<in> set (ma_array this) \<Longrightarrow> q x \<Longrightarrow> p x"
  shows "\<exists>this'. MonotonousArray_findLastMonotonous False this p =
      Inr (findLastMonotonous (ma_array this) p, this') \<and>
    ma_array this' = ma_array this \<and> MonotonousArray_inv p this'"
proof -
  let ?xs = "ma_array this" and ?s = "ma_findLastMonotonousLastIdx this"
  let ?n = "length ?xs"
  define a where "a = findLastIdxMonotonous_loop ?xs p ?s ?n"
  define b where "b = findLastIdxMonotonous_loop ?xs p 0 ?n"
  have s: "?s \<le> ?n" "\<And>i. i < ?s \<Longrightarrow> p (?xs ! i)"
    using inv weaker by (auto simp: MonotonousArray_inv_def)
  have bounds: "?s \<le> a" "a \<le> ?n" "b \<le> ?n"
    using findLastIdxMonotonous_loop_bounds [of ?s ?n ?xs p] s(1)
      findLastIdxMonotonous_loop_bounds [of 0 ?n ?xs p] by (simp_all add: a_def b_def)
  have split_a: "p (?xs ! m) \<longleftrightarrow> m < a" if "m < ?n" for m
    unfolding a_def by (rule findLastIdxMonotonous_loop_split [OF dec]) (use s that in auto)
  have split_b: "p (?xs ! m) \<longleftrightarrow> m < b" if "m < ?n" for m
    unfolding b_def by (rule findLastIdxMonotonous_loop_split [OF dec]) (use that in auto)
  have "a = b"
    using split_a [of a] split_b [of a] split_a [of b] split_b [of b] bounds
    by (metis le_neq_implies_less nat_neq_iff order.strict_trans2)
  then show ?thesis
    using bounds split_b
    by (auto simp: MonotonousArray_findLastMonotonous_def findLastMonotonous_def MonotonousArray_inv_def
        findLastIdxMonotonous_def Let_def nat_diff_distrib simp flip: a_def b_def)
qed

subsection \<open>Maxima\<close>

fun findFirstMax_loop :: "'a cmp \<Rightarrow> 'a \<Rightarrow> 'a list \<Rightarrow> 'a" where
  "findFirstMax_loop compare m [] = m"
| "findFirstMax_loop compare m (item # items) =
     findFirstMax_loop compare (if compare item m > 0 then item else m) items"

definition findFirstMax :: "'a list \<Rightarrow> 'a cmp \<Rightarrow> 'a option" where
  "findFirstMax xs compare =
     (case xs of [] \<Rightarrow> None | x # rest \<Rightarrow> Some (findFirstMax_loop compare x rest))"

fun findLastMax_loop :: "'a cmp \<Rightarrow> 'a \<Rightarrow> 'a list \<Rightarrow> 'a" where
  "findLastMax_loop compare m [] = m"
| "findLastMax_loop compare m (item # items) =
     findLastMax_loop compare (if compare item m \<ge> 0 then item else m) items"

definition findLastMax :: "'a list \<Rightarrow> 'a cmp \<Rightarrow> 'a option" where
  "findLastMax xs compare =
     (case xs of [] \<Rightarrow> None | x # rest \<Rightarrow> Some (findLastMax_loop compare x rest))"

definition findFirstMin :: "'a list \<Rightarrow> 'a cmp \<Rightarrow> 'a option" where
  "findFirstMin xs compare = findFirstMax xs (\<lambda>a b. - compare a b)"

fun findMaxIdx_loop :: "'a list \<Rightarrow> 'a cmp \<Rightarrow> nat \<Rightarrow> nat \<Rightarrow> 'a list \<Rightarrow> nat" where
  "findMaxIdx_loop xs compare maxIdx i [] = maxIdx"
| "findMaxIdx_loop xs compare maxIdx i (item # items) =
     findMaxIdx_loop xs compare (if compare item (xs ! maxIdx) > 0 then i else maxIdx)
       (i + 1) items"

definition findMaxIdx :: "'a list \<Rightarrow> 'a cmp \<Rightarrow> int" where
  "findMaxIdx xs compare =
     (if xs = [] then - 1 else int (findMaxIdx_loop xs compare 0 1 (tl xs)))"

fun mapFindFirst :: "'a list \<Rightarrow> ('a \<Rightarrow> 'b option) \<Rightarrow> 'b option" where
  "mapFindFirst [] mapFn = None"
| "mapFindFirst (v # vs) mapFn =
     (case mapFn v of Some r \<Rightarrow> Some r | None \<Rightarrow> mapFindFirst vs mapFn)"

text \<open>
  The first maximum of an array: everything before it is smaller, nothing after it is larger. The
  last maximum: nothing before it is larger, everything after it is smaller.
\<close>

definition first_max :: "'a cmp \<Rightarrow> 'a list \<Rightarrow> 'a \<Rightarrow> bool" where
  "first_max c xs z \<longleftrightarrow> (\<exists>pre post. xs = pre @ z # post \<and>
     (\<forall>x \<in> set pre. c x z < 0) \<and> (\<forall>x \<in> set post. c x z \<le> 0))"

definition last_max :: "'a cmp \<Rightarrow> 'a list \<Rightarrow> 'a \<Rightarrow> bool" where
  "last_max c xs z \<longleftrightarrow> (\<exists>pre post. xs = pre @ z # post \<and>
     (\<forall>x \<in> set pre. c x z \<le> 0) \<and> (\<forall>x \<in> set post. c x z < 0))"

lemma first_maxI:
  "xs = pre @ z # post \<Longrightarrow> (\<And>x. x \<in> set pre \<Longrightarrow> c x z < 0) \<Longrightarrow>
   (\<And>x. x \<in> set post \<Longrightarrow> c x z \<le> 0) \<Longrightarrow> first_max c xs z"
  unfolding first_max_def by blast

lemma last_maxI:
  "xs = pre @ z # post \<Longrightarrow> (\<And>x. x \<in> set pre \<Longrightarrow> c x z \<le> 0) \<Longrightarrow>
   (\<And>x. x \<in> set post \<Longrightarrow> c x z < 0) \<Longrightarrow> last_max c xs z"
  unfolding last_max_def by blast

context comparator
begin

lemma first_max_keep:
  assumes "first_max c (m # ys) z" and ym: "c y m \<le> 0"
  shows "first_max c (m # y # ys) z"
proof -
  from assms(1) obtain pre post where z: "m # ys = pre @ z # post"
    "\<And>x. x \<in> set pre \<Longrightarrow> c x z < 0" "\<And>x. x \<in> set post \<Longrightarrow> c x z \<le> 0"
    unfolding first_max_def by blast
  show ?thesis
  proof (cases pre)
    case Nil
    with z ym show ?thesis by (intro first_maxI [of _ "[]" z "y # post"]) auto
  next
    case (Cons p pre')
    with z have "c m z < 0" by auto
    with ym have "c y z < 0" by (blast intro: trans_le_less)
    with z Cons show ?thesis by (intro first_maxI [of _ "m # y # pre'" z post]) auto
  qed
qed

lemma first_max_Cons:
  assumes "first_max c (y # ys) z" and my: "c m y < 0"
  shows "first_max c (m # y # ys) z"
proof -
  from assms(1) obtain pre post where z: "y # ys = pre @ z # post"
    "\<And>x. x \<in> set pre \<Longrightarrow> c x z < 0" "\<And>x. x \<in> set post \<Longrightarrow> c x z \<le> 0"
    unfolding first_max_def by blast
  have "y = z \<or> y \<in> set pre" using z(1) by (cases pre) auto
  then have "c y z \<le> 0" using z(2) by fastforce
  with my have "c m z < 0" by (blast intro: trans_less_le)
  with z show ?thesis by (intro first_maxI [of _ "m # pre" z post]) auto
qed

lemma findFirstMax_loop_correct: "first_max c (m # xs) (findFirstMax_loop c m xs)"
proof (induction xs arbitrary: m)
  case Nil
  show ?case by (intro first_maxI [of _ "[]" _ "[]"]) simp_all
next
  case (Cons y ys)
  show ?case
  proof (cases "c y m > 0")
    case True
    with Cons [of y] show ?thesis using swap [of y m] by (simp add: first_max_Cons)
  next
    case False
    with Cons [of m] show ?thesis by (simp add: first_max_keep)
  qed
qed

lemma last_max_drop:
  assumes "last_max c (m # ys) z" and ym: "c y m < 0"
  shows "last_max c (m # y # ys) z"
proof -
  from assms(1) obtain pre post where z: "m # ys = pre @ z # post"
    "\<And>x. x \<in> set pre \<Longrightarrow> c x z \<le> 0" "\<And>x. x \<in> set post \<Longrightarrow> c x z < 0"
    unfolding last_max_def by blast
  show ?thesis
  proof (cases pre)
    case Nil
    with z ym show ?thesis by (intro last_maxI [of _ "[]" z "y # post"]) auto
  next
    case (Cons p pre')
    with z have "c m z \<le> 0" by auto
    with ym have "c y z \<le> 0" using trans_less_le [of y m z] by simp
    with z Cons show ?thesis by (intro last_maxI [of _ "m # y # pre'" z post]) auto
  qed
qed

lemma last_max_Cons:
  assumes "last_max c (y # ys) z" and my: "c m y \<le> 0"
  shows "last_max c (m # y # ys) z"
proof -
  from assms(1) obtain pre post where z: "y # ys = pre @ z # post"
    "\<And>x. x \<in> set pre \<Longrightarrow> c x z \<le> 0" "\<And>x. x \<in> set post \<Longrightarrow> c x z < 0"
    unfolding last_max_def by blast
  have "y = z \<or> y \<in> set pre" using z(1) by (cases pre) auto
  then have "c y z \<le> 0" using z(2) by fastforce
  with my have "c m z \<le> 0" by (blast intro: trans)
  with z show ?thesis by (intro last_maxI [of _ "m # pre" z post]) auto
qed

lemma findLastMax_loop_correct: "last_max c (m # xs) (findLastMax_loop c m xs)"
proof (induction xs arbitrary: m)
  case Nil
  show ?case by (intro last_maxI [of _ "[]" _ "[]"]) simp_all
next
  case (Cons y ys)
  show ?case
  proof (cases "c y m \<ge> 0")
    case True
    with Cons [of y] show ?thesis by (simp add: last_max_Cons le_iff)
  next
    case False
    with Cons [of m] show ?thesis by (simp add: last_max_drop)
  qed
qed

lemma findMaxIdx_loop_findFirstMax_loop:
  "i + length ys = length xs \<Longrightarrow> ys = drop i xs \<Longrightarrow> k < length xs \<Longrightarrow>
   findMaxIdx_loop xs c k i ys < length xs \<and>
   xs ! findMaxIdx_loop xs c k i ys = findFirstMax_loop c (xs ! k) ys"
proof (induction ys arbitrary: i k)
  case Nil
  then show ?case by simp
next
  case (Cons y ys)
  have "i < length xs" using Cons.prems(1) by simp
  moreover have "xs ! i = y" using Cons.prems by (metis calculation hd_drop_conv_nth list.sel(1))
  moreover have "ys = drop (i + 1) xs"
    using Cons.prems(2) by (metis Suc_eq_plus1 drop_Suc list.sel(3) tl_drop)
  ultimately show ?case using Cons.IH [of "i + 1"] Cons.prems(1,3) by simp
qed

end

subsection \<open>Properties\<close>

text \<open>
  The binary search \<open>findLastIdxMonotonous\<close> on an interval where the predicate is true on
  a prefix returns an index in \<open>[startIdx - 1, endIdxEx)\<close>, and the predicate holds exactly at
  the positions of the interval up to that index.
\<close>

theorem findLastIdxMonotonous_correct:
  assumes "decreasing p xs i j" and "i \<le> j"
  shows "int i - 1 \<le> findLastIdxMonotonous xs p i j \<and> findLastIdxMonotonous xs p i j < int j \<and>
    (\<forall>m. i \<le> m \<and> m < j \<longrightarrow> (p (xs ! m) \<longleftrightarrow> int m \<le> findLastIdxMonotonous xs p i j))"
  using findLastIdxMonotonous_bounds [OF assms(2)] findLastIdxMonotonous_iff [OF assms(1)] by blast

theorem findLastIdxMonotonous_correct_witness:
  "let xs = [1, 3, 5, 8 :: int]; p = (\<lambda>x. x < 6); r = findLastIdxMonotonous xs p 0 4
   in decreasing p xs 0 4 \<and> - 1 \<le> r \<and> r < 4 \<and> (\<forall>m < 4. p (xs ! m) \<longleftrightarrow> int m \<le> r)"
proof -
  have "decreasing (\<lambda>x. x < 6) [1, 3, 5, 8 :: int] 0 4" by (rule decreasing_sorted) simp_all
  from this findLastIdxMonotonous_correct [OF this] show ?thesis by simp
qed

text \<open>
  On an array where the predicate is true on a prefix, the binary search
  \<open>findLastMonotonous\<close> finds the same element as the linear scan \<open>findLast\<close>.
\<close>

theorem findLastMonotonous_eq_findLast:
  assumes "decreasing p xs 0 (length xs)"
  shows "findLastMonotonous xs p = findLast xs (\<lambda>x _. p x) (int (length xs) - 1)"
  by (simp add: findLastMonotonous_def findLast_def findLastIdx_eq_findLastIdxMonotonous [OF assms])

theorem findLastMonotonous_eq_findLast_witness:
  "findLastMonotonous [2, 4, 9 :: int] (\<lambda>x. x \<le> 4) = findLast [2, 4, 9] (\<lambda>x _. x \<le> 4) 2"
proof -
  have "decreasing (\<lambda>x. x \<le> 4) [2, 4, 9 :: int] 0 (length [2, 4, 9 :: int])"
    by (rule decreasing_sorted) simp_all
  from findLastMonotonous_eq_findLast [OF this] show ?thesis by simp
qed

text \<open>
  C11. A \<open>MonotonousArray\<close> that is queried with predicates that only get weaker answers each
  query as a fresh binary search over the whole array would, although it restarts from the index of
  the previous answer.
\<close>

fun run_queries :: "'a MonotonousArray \<Rightarrow> ('a \<Rightarrow> bool) list \<Rightarrow> js_error + 'a option list" where
  "run_queries this [] = Inr []"
| "run_queries this (p # ps) =
     bindE (MonotonousArray_findLastMonotonous False this p) (\<lambda>(r, this').
     bindE (run_queries this' ps) (\<lambda>rs. Inr (r # rs)))"

lemma run_queries_correct:
  assumes "MonotonousArray_inv q this"
    and "sorted_wrt (\<lambda>p p'. \<forall>x \<in> set (ma_array this). p x \<longrightarrow> p' x) (q # ps)"
    and "\<And>p. p \<in> set ps \<Longrightarrow> decreasing p (ma_array this) 0 (length (ma_array this))"
  shows "run_queries this ps = Inr (map (findLastMonotonous (ma_array this)) ps)"
  using assms
proof (induction ps arbitrary: this q)
  case Nil
  then show ?case by simp
next
  case (Cons p ps)
  from Cons.prems obtain this' where step:
    "MonotonousArray_findLastMonotonous False this p =
      Inr (findLastMonotonous (ma_array this) p, this')"
    "ma_array this' = ma_array this" "MonotonousArray_inv p this'"
    using MonotonousArray_findLastMonotonous_step [of q this p] by auto
  have "run_queries this' ps = Inr (map (findLastMonotonous (ma_array this')) ps)"
    using Cons.prems step by (intro Cons.IH [of p]) auto
  with step show ?case by simp
qed

theorem MonotonousArray_correct:
  assumes "sorted_wrt (\<lambda>p p'. \<forall>x \<in> set xs. p x \<longrightarrow> p' x) ps"
    and "\<And>p. p \<in> set ps \<Longrightarrow> decreasing p xs 0 (length xs)"
  shows "run_queries (MonotonousArray_new xs) ps = Inr (map (findLastMonotonous xs) ps)"
  using run_queries_correct [of "\<lambda>_. False" "MonotonousArray_new xs" ps] assms
  by (simp add: MonotonousArray_inv_def MonotonousArray_new_def)

theorem MonotonousArray_correct_witness:
  "run_queries (MonotonousArray_new [1, 4, 6 :: int]) [\<lambda>x. x < 2, \<lambda>x. x < 5] =
   Inr (map (findLastMonotonous [1, 4, 6]) [\<lambda>x. x < 2, \<lambda>x. x < 5])"
  by (rule MonotonousArray_correct) (auto intro!: decreasing_sorted)

text \<open>
  For a comparator that meets its contract, \<open>findFirstMax\<close> returns the first maximum and
  \<open>findLastMax\<close> the last one, and \<open>findMaxIdx\<close> the index of an element equal to the
  result of \<open>findFirstMax\<close>.
\<close>

theorem findMax_correct:
  assumes "comparator c" and "xs \<noteq> []"
  shows "(\<exists>z. findFirstMax xs c = Some z \<and> first_max c xs z \<and>
      0 \<le> findMaxIdx xs c \<and> findMaxIdx xs c < int (length xs) \<and> xs ! nat (findMaxIdx xs c) = z) \<and>
    (\<exists>z. findLastMax xs c = Some z \<and> last_max c xs z)"
proof -
  obtain m ys where xs: "xs = m # ys" using assms(2) by (cases xs) auto
  let ?k = "findMaxIdx_loop xs c 0 1 ys"
  have "findFirstMax xs c = Some (findFirstMax_loop c m ys)"
    and "findLastMax xs c = Some (findLastMax_loop c m ys)"
    and "findMaxIdx xs c = int ?k"
    by (simp_all only: xs findFirstMax_def findLastMax_def findMaxIdx_def list.case list.sel list.distinct if_False)
  moreover have "first_max c xs (findFirstMax_loop c m ys)" "last_max c xs (findLastMax_loop c m ys)"
    using comparator.findFirstMax_loop_correct [OF assms(1)]
      comparator.findLastMax_loop_correct [OF assms(1)] by (simp_all only: xs)
  moreover have "?k < length xs \<and> xs ! ?k = findFirstMax_loop c (xs ! 0) ys"
    by (rule comparator.findMaxIdx_loop_findFirstMax_loop [OF assms(1)]) (simp_all add: xs)
  moreover have "xs ! 0 = m" by (simp add: xs)
  ultimately show ?thesis by simp
qed

theorem findMax_correct_witness:
  "let xs = [3, 7, 7 :: int] in
    (\<exists>z. findFirstMax xs numberComparator = Some z \<and> first_max numberComparator xs z \<and>
      0 \<le> findMaxIdx xs numberComparator \<and> findMaxIdx xs numberComparator < int (length xs) \<and>
      xs ! nat (findMaxIdx xs numberComparator) = z) \<and>
    (\<exists>z. findLastMax xs numberComparator = Some z \<and> last_max numberComparator xs z)"
  unfolding Let_def by (rule findMax_correct [OF numberCmp.comparator_axioms]) simp

end
