(* ===== verification/Intervals.thy ===== *)
theory Intervals
  imports Prelude
begin

text \<open>
  Arrays of half-open intervals, for the range sets of \<open>offsetRange.ts\<close> and
  \<open>lineRange.ts\<close>: the numbers such an array covers, the invariant that it is sorted and no
  two of its intervals touch, and what replacing a run of touching intervals by one that spans them
  does to both. The two range types are instances of the locale \<open>interval\<close>.
\<close>

definition points :: "('r \<Rightarrow> int) \<Rightarrow> ('r \<Rightarrow> int) \<Rightarrow> 'r list \<Rightarrow> int set" where
  "points lo hi rs = (\<Union>r \<in> set rs. {lo r..<hi r})"

definition separated :: "('r \<Rightarrow> int) \<Rightarrow> ('r \<Rightarrow> int) \<Rightarrow> 'r list \<Rightarrow> bool" where
  "separated lo hi rs \<longleftrightarrow> sorted_wrt (\<lambda>a b. hi a < lo b) rs \<and> (\<forall>r \<in> set rs. lo r \<le> hi r)"

lemma points_simps [simp]:
  "points lo hi [] = {}"
  "points lo hi (r # rs) = {lo r..<hi r} \<union> points lo hi rs"
  "points lo hi (rs @ rs') = points lo hi rs \<union> points lo hi rs'"
  by (auto simp: points_def)

lemma separated_Nil [simp]: "separated lo hi []"
  by (simp add: separated_def)

lemma separated_Cons [simp]:
  "separated lo hi (r # rs) \<longleftrightarrow> lo r \<le> hi r \<and> (\<forall>x \<in> set rs. hi r < lo x) \<and> separated lo hi rs"
  by (auto simp: separated_def)

lemma separated_append:
  "separated lo hi (xs @ ys) \<longleftrightarrow>
   separated lo hi xs \<and> separated lo hi ys \<and> (\<forall>x \<in> set xs. \<forall>y \<in> set ys. hi x < lo y)"
  by (auto simp: separated_def sorted_wrt_append)

lemma separated_hd_lo: "separated lo hi rs \<Longrightarrow> r \<in> set rs \<Longrightarrow> lo (hd rs) \<le> lo r"
  by (cases rs) (auto intro: order.trans less_imp_le)

lemma separated_hd_hi: "separated lo hi rs \<Longrightarrow> r \<in> set rs \<Longrightarrow> hi (hd rs) \<le> hi r"
  by (cases rs) (fastforce simp: separated_def)+

lemma separated_last_hi: "separated lo hi rs \<Longrightarrow> r \<in> set rs \<Longrightarrow> hi r \<le> hi (last rs)"
proof (cases rs rule: rev_cases)
  case (snoc ys y)
  assume "separated lo hi rs" "r \<in> set rs"
  with snoc show ?thesis by (fastforce simp: separated_append)
qed simp

text \<open>
  The three pieces that the index loops of \<open>addRange\<close> (or its binary searches) cut a
  separated array into.
\<close>

definition cut_at :: "('r \<Rightarrow> int) \<Rightarrow> ('r \<Rightarrow> int) \<Rightarrow> int \<Rightarrow> int \<Rightarrow> 'r list \<Rightarrow> 'r list \<Rightarrow> 'r list \<Rightarrow> bool" where
  "cut_at lo hi s e A M B \<longleftrightarrow> (\<forall>a \<in> set A. hi a < s) \<and>
     (\<forall>m \<in> set M. s \<le> hi m \<and> lo m \<le> e) \<and> (\<forall>b \<in> set B. e < lo b)"

lemma cut_atI:
  assumes sep: "separated lo hi (A @ M @ B)"
    and "\<forall>a \<in> set A. hi a < s" and "M @ B \<noteq> [] \<longrightarrow> s \<le> hi (hd (M @ B))"
    and "\<forall>m \<in> set M. lo m \<le> e" and "B \<noteq> [] \<longrightarrow> e < lo (hd B)"
  shows "cut_at lo hi s e A M B"
proof -
  have "s \<le> hi m" if "m \<in> set M" for m
  proof -
    have "separated lo hi (M @ B)" using sep by (simp add: separated_append)
    then have "hi (hd (M @ B)) \<le> hi m" by (rule separated_hd_hi) (use that in simp)
    moreover have "M @ B \<noteq> []" using that by auto
    ultimately show ?thesis using assms(3) by simp
  qed
  moreover have "e < lo b" if "b \<in> set B" for b
  proof -
    have "separated lo hi B" using sep by (simp add: separated_append)
    then have "lo (hd B) \<le> lo b" by (rule separated_hd_lo) (use that in simp)
    then show ?thesis using assms(5) that by fastforce
  qed
  ultimately show ?thesis using assms(2,4) by (simp add: cut_at_def)
qed

lemma separated_map:
  "(\<And>r. r \<in> set rs \<Longrightarrow> lo' (f r) = lo r + d \<and> hi' (f r) = hi r + d) \<Longrightarrow>
   separated lo' hi' (map f rs) = separated lo hi rs"
  by (induction rs) auto

lemma points_less: "(\<And>r. r \<in> set rs \<Longrightarrow> hi r \<le> b) \<Longrightarrow> points lo hi rs \<subseteq> {..<b}"
  by (force simp: points_def)

lemma points_ge: "(\<And>r. r \<in> set rs \<Longrightarrow> a \<le> lo r) \<Longrightarrow> points lo hi rs \<subseteq> {a..}"
  by (force simp: points_def)

text \<open>A run of intervals that all touch \<open>{s..<e}\<close> covers, together with it, their hull.\<close>

lemma points_hull:
  assumes sep: "separated lo hi M" and ne: "M \<noteq> []" and se: "s \<le> e"
    and touch: "\<forall>m \<in> set M. s \<le> hi m \<and> lo m \<le> e"
  shows "points lo hi M \<union> {s..<e} = {min s (lo (hd M))..<max e (hi (last M))}" (is "_ = ?hull")
proof (intro equalityI subsetI)
  fix x assume "x \<in> points lo hi M \<union> {s..<e}"
  then show "x \<in> ?hull"
  proof
    assume "x \<in> points lo hi M"
    then obtain m where "m \<in> set M" "lo m \<le> x" "x < hi m" by (auto simp: points_def)
    then show ?thesis
      using separated_hd_lo [OF sep, of m] separated_last_hi [OF sep, of m] by auto
  qed auto
next
  fix x assume x: "x \<in> ?hull"
  have hd: "hd M \<in> set M" and last: "last M \<in> set M" using ne by simp_all
  consider "x < s" | "s \<le> x" "x < e" | "e \<le> x" by linarith
  then show "x \<in> points lo hi M \<union> {s..<e}"
  proof cases
    case 1
    then have "x \<in> {lo (hd M)..<hi (hd M)}" using x touch hd by fastforce
    then show ?thesis using hd by (auto simp: points_def)
  next
    case 3
    then have "x \<in> {lo (last M)..<hi (last M)}" using x touch last by fastforce
    then show ?thesis using last by (auto simp: points_def)
  qed simp
qed

locale interval =
  fixes lo hi :: "'r \<Rightarrow> int" and mk :: "int \<Rightarrow> int \<Rightarrow> 'r"
  assumes lo_mk [simp]: "lo (mk a b) = a"
    and hi_mk [simp]: "hi (mk a b) = b"
begin

lemma insert_between:
  assumes "separated lo hi (A @ B)" and "lo r \<le> hi r"
    and "\<forall>a \<in> set A. hi a < lo r" and "\<forall>b \<in> set B. hi r < lo b"
  shows "separated lo hi (A @ r # B)"
    and "points lo hi (A @ r # B) = points lo hi (A @ B) \<union> {lo r..<hi r}"
  using assms by (auto simp: separated_append)

lemma insert_merge:
  assumes sep: "separated lo hi (A @ M @ B)" and ne: "M \<noteq> []" and se: "s \<le> e"
    and cut: "cut_at lo hi s e A M B"
  defines "h \<equiv> mk (min s (lo (hd M))) (max e (hi (last M)))"
  shows "separated lo hi (A @ h # B)"
    and "points lo hi (A @ h # B) = points lo hi (A @ M @ B) \<union> {s..<e}"
proof -
  note A = cut [unfolded cut_at_def, THEN conjunct1]
    and M = cut [unfolded cut_at_def, THEN conjunct2, THEN conjunct1]
    and B = cut [unfolded cut_at_def, THEN conjunct2, THEN conjunct2]
  have "hd M \<in> set M" "last M \<in> set M" using ne by simp_all
  then show "separated lo hi (A @ h # B)"
    using sep A B se by (auto simp: separated_append h_def)
  have "points lo hi M \<union> {s..<e} = {lo h..<hi h}"
    using points_hull [OF _ ne se M] sep by (simp add: separated_append h_def)
  then show "points lo hi (A @ h # B) = points lo hi (A @ M @ B) \<union> {s..<e}" by auto
qed

end

end
