(* ===== verification/Offset_Range.thy ===== *)
theory Offset_Range
  imports Intervals
begin

text \<open>
  \<open>src/vs/editor/common/core/ranges/offsetRange.ts\<close>: the class \<open>OffsetRange\<close> (0-based,
  half-open) and the sorted collection \<open>OffsetRangeSet\<close>. Every \<open>new OffsetRange\<close> is a
  call of \<open>OffsetRange_new\<close>, which throws when the bounds are out of order; \<open>OffsetRange_inv\<close>
  is what it guarantees of the object.
\<close>

record OffsetRange =
  or_start :: int
  or_endExclusive :: int

definition OffsetRange_new :: "int \<Rightarrow> int \<Rightarrow> js_error + OffsetRange" where
  "OffsetRange_new s e =
     (if s > e then Inl BugIndicatingError else Inr \<lparr>or_start = s, or_endExclusive = e\<rparr>)"

definition OffsetRange_inv :: "OffsetRange \<Rightarrow> bool" where
  "OffsetRange_inv r \<longleftrightarrow> or_start r \<le> or_endExclusive r"

lemma OffsetRange_new_Inr [simp]:
  "s \<le> e \<Longrightarrow> OffsetRange_new s e = Inr \<lparr>or_start = s, or_endExclusive = e\<rparr>"
  by (simp add: OffsetRange_new_def)

lemma OffsetRange_new_eq_Inr:
  "OffsetRange_new s e = Inr r \<longleftrightarrow> s \<le> e \<and> r = \<lparr>or_start = s, or_endExclusive = e\<rparr>"
  by (auto simp: OffsetRange_new_def)

subsection \<open>Static constructors\<close>

definition OffsetRange_fromTo :: "int \<Rightarrow> int \<Rightarrow> js_error + OffsetRange" where
  "OffsetRange_fromTo s e = OffsetRange_new s e"

definition OffsetRange_tryCreate :: "int \<Rightarrow> int \<Rightarrow> js_error + OffsetRange option" where
  "OffsetRange_tryCreate s e =
     (if s > e then Inr None else bindE (OffsetRange_new s e) (\<lambda>r. Inr (Some r)))"

definition OffsetRange_ofLength :: "int \<Rightarrow> js_error + OffsetRange" where
  "OffsetRange_ofLength len = OffsetRange_new 0 len"

definition OffsetRange_ofStartAndLength :: "int \<Rightarrow> int \<Rightarrow> js_error + OffsetRange" where
  "OffsetRange_ofStartAndLength s len = OffsetRange_new s (s + len)"

definition OffsetRange_emptyAt :: "int \<Rightarrow> js_error + OffsetRange" where
  "OffsetRange_emptyAt offset = OffsetRange_new offset offset"

subsection \<open>Methods\<close>

definition OffsetRange_isEmpty :: "OffsetRange \<Rightarrow> bool" where
  "OffsetRange_isEmpty r \<longleftrightarrow> or_start r = or_endExclusive r"

definition OffsetRange_delta :: "OffsetRange \<Rightarrow> int \<Rightarrow> js_error + OffsetRange" where
  "OffsetRange_delta r offset = OffsetRange_new (or_start r + offset) (or_endExclusive r + offset)"

definition OffsetRange_deltaStart :: "OffsetRange \<Rightarrow> int \<Rightarrow> js_error + OffsetRange" where
  "OffsetRange_deltaStart r offset = OffsetRange_new (or_start r + offset) (or_endExclusive r)"

definition OffsetRange_deltaEnd :: "OffsetRange \<Rightarrow> int \<Rightarrow> js_error + OffsetRange" where
  "OffsetRange_deltaEnd r offset = OffsetRange_new (or_start r) (or_endExclusive r + offset)"

definition OffsetRange_length :: "OffsetRange \<Rightarrow> int" where
  "OffsetRange_length r = or_endExclusive r - or_start r"

definition OffsetRange_equals :: "OffsetRange \<Rightarrow> OffsetRange \<Rightarrow> bool" where
  "OffsetRange_equals r1 r2 \<longleftrightarrow> or_start r1 = or_start r2 \<and> or_endExclusive r1 = or_endExclusive r2"

definition OffsetRange_containsRange :: "OffsetRange \<Rightarrow> OffsetRange \<Rightarrow> bool" where
  "OffsetRange_containsRange r other \<longleftrightarrow>
     or_start r \<le> or_start other \<and> or_endExclusive other \<le> or_endExclusive r"

definition OffsetRange_contains :: "OffsetRange \<Rightarrow> int \<Rightarrow> bool" where
  "OffsetRange_contains r offset \<longleftrightarrow> or_start r \<le> offset \<and> offset < or_endExclusive r"

definition OffsetRange_join :: "OffsetRange \<Rightarrow> OffsetRange \<Rightarrow> js_error + OffsetRange" where
  "OffsetRange_join r other =
     OffsetRange_new (min (or_start r) (or_start other)) (max (or_endExclusive r) (or_endExclusive other))"

definition OffsetRange_intersect :: "OffsetRange \<Rightarrow> OffsetRange \<Rightarrow> js_error + OffsetRange option" where
  "OffsetRange_intersect r other =
     (let s = max (or_start r) (or_start other);
          e = min (or_endExclusive r) (or_endExclusive other)
      in if s \<le> e then bindE (OffsetRange_new s e) (\<lambda>x. Inr (Some x)) else Inr None)"

definition OffsetRange_intersectionLength :: "OffsetRange \<Rightarrow> OffsetRange \<Rightarrow> int" where
  "OffsetRange_intersectionLength r rng =
     (let s = max (or_start r) (or_start rng);
          e = min (or_endExclusive r) (or_endExclusive rng)
      in max 0 (e - s))"

definition OffsetRange_intersects :: "OffsetRange \<Rightarrow> OffsetRange \<Rightarrow> bool" where
  "OffsetRange_intersects r other =
     (let s = max (or_start r) (or_start other);
          e = min (or_endExclusive r) (or_endExclusive other)
      in s < e)"

definition OffsetRange_intersectsOrTouches :: "OffsetRange \<Rightarrow> OffsetRange \<Rightarrow> bool" where
  "OffsetRange_intersectsOrTouches r other =
     (let s = max (or_start r) (or_start other);
          e = min (or_endExclusive r) (or_endExclusive other)
      in s \<le> e)"

definition OffsetRange_isBefore :: "OffsetRange \<Rightarrow> OffsetRange \<Rightarrow> bool" where
  "OffsetRange_isBefore r other \<longleftrightarrow> or_endExclusive r \<le> or_start other"

definition OffsetRange_isAfter :: "OffsetRange \<Rightarrow> OffsetRange \<Rightarrow> bool" where
  "OffsetRange_isAfter r other \<longleftrightarrow> or_start r \<ge> or_endExclusive other"

definition OffsetRange_slice :: "OffsetRange \<Rightarrow> 'a list \<Rightarrow> 'a list" where
  "OffsetRange_slice r arr = js_slice arr (or_start r) (or_endExclusive r)"

definition OffsetRange_substring :: "OffsetRange \<Rightarrow> 'a list \<Rightarrow> 'a list" where
  "OffsetRange_substring r str = js_substring str (or_start r) (or_endExclusive r)"

definition OffsetRange_clip :: "OffsetRange \<Rightarrow> int \<Rightarrow> js_error + int" where
  "OffsetRange_clip r v =
     (if OffsetRange_isEmpty r then Inl BugIndicatingError
      else Inr (max (or_start r) (min (or_endExclusive r - 1) v)))"

definition OffsetRange_clipCyclic :: "OffsetRange \<Rightarrow> int \<Rightarrow> js_error + int" where
  "OffsetRange_clipCyclic r v =
     (if OffsetRange_isEmpty r then Inl BugIndicatingError
      else if v < or_start r
        then Inr (or_endExclusive r - js_rem (or_start r - v) (OffsetRange_length r))
      else if v \<ge> or_endExclusive r
        then Inr (or_start r + js_rem (v - or_start r) (OffsetRange_length r))
      else Inr v)"

definition OffsetRange_map :: "OffsetRange \<Rightarrow> (int \<Rightarrow> 'b) \<Rightarrow> 'b list" where
  "OffsetRange_map r f = map f [or_start r..or_endExclusive r - 1]"

definition OffsetRange_joinRightTouching :: "OffsetRange \<Rightarrow> OffsetRange \<Rightarrow> js_error + OffsetRange" where
  "OffsetRange_joinRightTouching r rng =
     (if or_endExclusive r \<noteq> or_start rng then Inl BugIndicatingError
      else OffsetRange_new (or_start r) (or_endExclusive rng))"

definition OffsetRange_withMargin :: "OffsetRange \<Rightarrow> int \<Rightarrow> int option \<Rightarrow> js_error + OffsetRange" where
  "OffsetRange_withMargin r marginStart marginEnd =
     (let marginEnd' = (case marginEnd of None \<Rightarrow> marginStart | Some m \<Rightarrow> m)
      in OffsetRange_new (or_start r - marginStart) (or_endExclusive r + marginEnd'))"

subsection \<open>Adding a range to a sorted array of ranges\<close>

definition OffsetRange_addRange :: "OffsetRange \<Rightarrow> OffsetRange list \<Rightarrow> js_error + OffsetRange list" where
  "OffsetRange_addRange rng sortedRanges =
     (let i = scan_while (\<lambda>r. or_endExclusive r < or_start rng) sortedRanges 0;
          j = scan_while (\<lambda>r. or_start r \<le> or_endExclusive rng) sortedRanges i
      in if i = j then Inr (js_splice sortedRanges i 0 [rng])
         else
           let s = min (or_start rng) (or_start (sortedRanges ! i));
               e = max (or_endExclusive rng) (or_endExclusive (sortedRanges ! (j - 1)))
           in bindE (OffsetRange_new s e) (\<lambda>joined. Inr (js_splice sortedRanges i (j - i) [joined])))"

subsection \<open>OffsetRangeSet\<close>

record OffsetRangeSet =
  ors_sortedRanges :: "OffsetRange list"

definition OffsetRangeSet_new :: OffsetRangeSet where
  "OffsetRangeSet_new = \<lparr>ors_sortedRanges = []\<rparr>"

definition OffsetRangeSet_ranges :: "OffsetRangeSet \<Rightarrow> OffsetRange list" where
  "OffsetRangeSet_ranges this = ors_sortedRanges this"

definition OffsetRangeSet_addRange :: "OffsetRangeSet \<Rightarrow> OffsetRange \<Rightarrow> js_error + OffsetRangeSet" where
  "OffsetRangeSet_addRange this rng =
     (let rs = ors_sortedRanges this;
          i = scan_while (\<lambda>r. or_endExclusive r < or_start rng) rs 0;
          j = scan_while (\<lambda>r. or_start r \<le> or_endExclusive rng) rs i
      in if i = j then Inr (this\<lparr>ors_sortedRanges := js_splice rs i 0 [rng]\<rparr>)
         else
           let s = min (or_start rng) (or_start (rs ! i));
               e = max (or_endExclusive rng) (or_endExclusive (rs ! (j - 1)))
           in bindE (OffsetRange_new s e) (\<lambda>joined.
                Inr (this\<lparr>ors_sortedRanges := js_splice rs i (j - i) [joined]\<rparr>)))"

definition OffsetRangeSet_intersectsStrict :: "OffsetRangeSet \<Rightarrow> OffsetRange \<Rightarrow> bool" where
  "OffsetRangeSet_intersectsStrict this other =
     (let rs = ors_sortedRanges this;
          i = scan_while (\<lambda>r. or_endExclusive r \<le> or_start other) rs 0
      in i < length rs \<and> or_start (rs ! i) < or_endExclusive other)"

definition OffsetRangeSet_intersectWithRange ::
    "OffsetRangeSet \<Rightarrow> OffsetRange \<Rightarrow> js_error + OffsetRangeSet" where
  "OffsetRangeSet_intersectWithRange this other =
     foldE (\<lambda>result rng.
        bindE (OffsetRange_intersect rng other) (\<lambda>intersection.
          case intersection of None \<Rightarrow> Inr result
          | Some x \<Rightarrow> OffsetRangeSet_addRange result x))
       OffsetRangeSet_new (ors_sortedRanges this)"

definition OffsetRangeSet_length :: "OffsetRangeSet \<Rightarrow> int" where
  "OffsetRangeSet_length this = foldl (\<lambda>prev cur. prev + OffsetRange_length cur) 0 (ors_sortedRanges this)"

definition OffsetRangeSet_intersectWithRangeLength :: "OffsetRangeSet \<Rightarrow> OffsetRange \<Rightarrow> js_error + int" where
  "OffsetRangeSet_intersectWithRangeLength this other =
     bindE (OffsetRangeSet_intersectWithRange this other) (\<lambda>s. Inr (OffsetRangeSet_length s))"

subsection \<open>Lemmas\<close>

abbreviation or_points :: "OffsetRange list \<Rightarrow> int set" where
  "or_points \<equiv> points or_start or_endExclusive"

abbreviation or_separated :: "OffsetRange list \<Rightarrow> bool" where
  "or_separated \<equiv> separated or_start or_endExclusive"

abbreviation or_set :: "OffsetRange \<Rightarrow> int set" where
  "or_set r \<equiv> {or_start r..<or_endExclusive r}"

interpretation offsetInterval: interval or_start or_endExclusive "OffsetRange.fields"
  by unfold_locales (simp_all add: OffsetRange.defs)

lemma mem_or_set: "x \<in> or_set r \<longleftrightarrow> OffsetRange_contains r x"
  by (auto simp: OffsetRange_contains_def)

lemma OffsetRange_intersect_Inr:
  "OffsetRange_intersect a b = Inr (if OffsetRange_intersectsOrTouches a b
     then Some \<lparr>or_start = max (or_start a) (or_start b),
                 or_endExclusive = min (or_endExclusive a) (or_endExclusive b)\<rparr> else None)"
  by (simp add: OffsetRange_intersect_def OffsetRange_intersectsOrTouches_def Let_def)

lemma addRange_cut:
  assumes sep: "or_separated rs"
    and i: "i = scan_while (\<lambda>r. or_endExclusive r < s) rs 0"
    and j: "j = scan_while (\<lambda>r. or_start r \<le> e) rs i"
  obtains A M B where "rs = A @ M @ B" "i = length A" "j = length A + length M"
    "cut_at or_start or_endExclusive s e A M B"
proof -
  obtain A M B where pieces: "rs = A @ M @ B" "i = length A" "j = length A + length M"
    "\<forall>a \<in> set A. or_endExclusive a < s"
    "M @ B \<noteq> [] \<longrightarrow> \<not> or_endExclusive (hd (M @ B)) < s"
    "\<forall>m \<in> set M. or_start m \<le> e" "B \<noteq> [] \<longrightarrow> \<not> or_start (hd B) \<le> e"
    by (rule scan_while_split [OF i j])
  then have "cut_at or_start or_endExclusive s e A M B"
    using sep by (intro cut_atI) (simp_all add: not_less not_le)
  with pieces show ?thesis by (intro that)
qed

text \<open>The two copies of \<open>addRange\<close> do the same.\<close>

lemma OffsetRangeSet_addRange_eq:
  "OffsetRangeSet_addRange this r =
     bindE (OffsetRange_addRange r (ors_sortedRanges this))
       (\<lambda>rs. Inr (this\<lparr>ors_sortedRanges := rs\<rparr>))"
  by (auto simp: OffsetRangeSet_addRange_def OffsetRange_addRange_def Let_def bindE_def split: sum.splits)

lemma OffsetRange_addRange_spec:
  assumes sep: "or_separated rs" and r: "OffsetRange_inv r"
  obtains rs' where "OffsetRange_addRange r rs = Inr rs'" "or_separated rs'"
    "or_points rs' = or_points rs \<union> or_set r"
proof -
  let ?s = "or_start r" and ?e = "or_endExclusive r"
  define i where "i = scan_while (\<lambda>r. or_endExclusive r < ?s) rs 0"
  define j where "j = scan_while (\<lambda>r. or_start r \<le> ?e) rs i"
  obtain A M B where pieces: "rs = A @ M @ B" "i = length A" "j = length A + length M"
    and cut: "cut_at or_start or_endExclusive ?s ?e A M B"
    by (rule addRange_cut [OF sep i_def j_def])
  have se: "?s \<le> ?e" using r by (simp add: OffsetRange_inv_def)
  have eq: "OffsetRange_addRange r rs = (if i = j then Inr (js_splice rs i 0 [r])
      else bindE (OffsetRange_new (min ?s (or_start (rs ! i))) (max ?e (or_endExclusive (rs ! (j - 1)))))
        (\<lambda>joined. Inr (js_splice rs i (j - i) [joined])))"
    by (simp only: OffsetRange_addRange_def Let_def i_def j_def)
  show ?thesis
  proof (cases "M = []")
    case True
    then have res: "OffsetRange_addRange r rs = Inr (A @ r # B)"
      unfolding eq using pieces js_splice_append [of A "[]" B "[r]"] by simp
    have "or_separated (A @ B)" using sep pieces True by simp
    from offsetInterval.insert_between [OF this, of r] se cut res show ?thesis
      using pieces True by (intro that [of "A @ r # B"]) (auto simp: cut_at_def)
  next
    case False
    define h where "h = OffsetRange.fields (min ?s (or_start (hd M))) (max ?e (or_endExclusive (last M)))"
    have idx: "rs ! i = hd M" "rs ! (j - 1) = last M" "i \<noteq> j" "j - i = length M"
      using False pieces nth_piece_hd [OF False, of A B] nth_piece_last [OF False, of A B]
      by simp_all
    have "min ?s (or_start (hd M)) \<le> max ?e (or_endExclusive (last M))" using se by simp
    then have "OffsetRange_addRange r rs = Inr (A @ h # B)"
      unfolding eq idx using idx(3) pieces js_splice_append [of A M B "[h]"]
      by (simp add: h_def OffsetRange.defs)
    with offsetInterval.insert_merge [OF _ False se cut] sep pieces show ?thesis
      by (intro that [of "A @ h # B"]) (simp_all add: h_def)
  qed
qed

lemma foldE_intersect:
  assumes "or_separated (ors_sortedRanges acc)" and "OffsetRange_inv other"
    and "\<forall>r \<in> set rs. OffsetRange_inv r"
  shows "\<exists>acc'. foldE (\<lambda>result rng.
        bindE (OffsetRange_intersect rng other) (\<lambda>intersection.
          case intersection of None \<Rightarrow> Inr result
          | Some x \<Rightarrow> OffsetRangeSet_addRange result x)) acc rs = Inr acc' \<and>
     or_separated (ors_sortedRanges acc') \<and>
     or_points (ors_sortedRanges acc') =
       or_points (ors_sortedRanges acc) \<union> (or_points rs \<inter> or_set other)"
  using assms
proof (induction rs arbitrary: acc)
  case Nil
  then show ?case by simp
next
  case (Cons r rs)
  show ?case
  proof (cases "OffsetRange_intersectsOrTouches r other")
    case False
    then have "or_set r \<inter> or_set other = {}"
      by (auto simp: OffsetRange_intersectsOrTouches_def Let_def)
    with Cons.IH [of acc] Cons.prems False show ?thesis
      by (auto simp: OffsetRange_intersect_Inr Int_Un_distrib2)
  next
    case True
    let ?x = "\<lparr>or_start = max (or_start r) (or_start other),
      or_endExclusive = min (or_endExclusive r) (or_endExclusive other)\<rparr>"
    have x: "OffsetRange_inv ?x" using True
      by (simp add: OffsetRange_intersectsOrTouches_def OffsetRange_inv_def Let_def)
    have set_x: "or_set ?x = or_set r \<inter> or_set other" by auto
    obtain rs1 where add: "OffsetRange_addRange ?x (ors_sortedRanges acc) = Inr rs1"
      "or_separated rs1" "or_points rs1 = or_points (ors_sortedRanges acc) \<union> or_set ?x"
      by (rule OffsetRange_addRange_spec [OF Cons.prems(1) x])
    with Cons.IH [of "acc\<lparr>ors_sortedRanges := rs1\<rparr>"] Cons.prems True set_x show ?thesis
      by (auto simp: OffsetRange_intersect_Inr OffsetRangeSet_addRange_eq)
  qed
qed

lemma foldl_sum: "foldl (\<lambda>acc x. acc + f x) a xs = a + (\<Sum>x \<leftarrow> xs. f x)" for a :: int
  by (induction xs arbitrary: a) (simp_all add: add.assoc)

text \<open>In a separated array the lengths add up to the number of covered offsets.\<close>

lemma finite_points [simp]: "finite (points lo hi rs)"
  by (simp add: points_def)

lemma card_points:
  "separated lo hi rs \<Longrightarrow> int (card (points lo hi rs)) = (\<Sum>r \<leftarrow> rs. hi r - lo r)"
proof (induction rs)
  case Nil
  then show ?case by simp
next
  case (Cons r rs)
  have "{lo r..<hi r} \<inter> points lo hi rs = {}"
    using Cons.prems by (fastforce simp: points_def)
  with Cons show ?case by (simp add: card_Un_disjoint)
qed

lemma OffsetRangeSet_length_points:
  "or_separated (ors_sortedRanges this) \<Longrightarrow>
   OffsetRangeSet_length this = int (card (or_points (ors_sortedRanges this)))"
  by (simp add: OffsetRangeSet_length_def foldl_sum card_points OffsetRange_length_def)

text \<open>
  The scan of \<open>intersectsStrict\<close> stops at the only range that can decide the answer.
\<close>

lemma OffsetRangeSet_intersectsStrict_iff:
  assumes "or_separated (ors_sortedRanges this)" and "OffsetRange_inv other"
    and "\<not> OffsetRange_isEmpty other" and "\<forall>r \<in> set (ors_sortedRanges this). \<not> OffsetRange_isEmpty r"
  shows "OffsetRangeSet_intersectsStrict this other \<longleftrightarrow>
    or_points (ors_sortedRanges this) \<inter> or_set other \<noteq> {}"
proof -
  let ?rs = "ors_sortedRanges this" and ?s = "or_start other" and ?e = "or_endExclusive other"
  let ?A = "takeWhile (\<lambda>r. or_endExclusive r \<le> ?s) ?rs" and ?R = "dropWhile (\<lambda>r. or_endExclusive r \<le> ?s) ?rs"
  have rs: "?rs = ?A @ ?R" by simp
  have i: "OffsetRangeSet_intersectsStrict this other \<longleftrightarrow> ?R \<noteq> [] \<and> or_start (hd ?R) < ?e"
    using scan_while_nth [of "\<lambda>r. or_endExclusive r \<le> ?s" ?rs]
    by (auto simp: OffsetRangeSet_intersectsStrict_def Let_def scan_while_lt
        simp del: dropWhile_eq_Nil_conv)
  have A: "or_points ?A \<inter> or_set other = {}"
    by (force simp: points_def dest: set_takeWhileD)
  have "or_points ?rs \<inter> or_set other = or_points ?R \<inter> or_set other"
    using A by (subst rs) (auto simp del: takeWhile_dropWhile_id)
  moreover have "or_points ?R \<inter> or_set other \<noteq> {} \<longleftrightarrow> ?R \<noteq> [] \<and> or_start (hd ?R) < ?e"
  proof (cases ?R)
    case (Cons r R)
    have sep: "or_separated (r # R)" using assms(1) rs Cons separated_append by metis
    have r: "?s < or_endExclusive r"
      using hd_dropWhile [of "\<lambda>r. or_endExclusive r \<le> ?s" ?rs] Cons by simp
    have "r \<in> set ?rs" using set_dropWhileD [of r "\<lambda>r. or_endExclusive r \<le> ?s" ?rs] Cons by simp
    with assms(2-4) sep have ne: "or_start r < or_endExclusive r" "?s < ?e"
      by (auto simp: OffsetRange_inv_def OffsetRange_isEmpty_def)
    have "or_start r < ?e \<Longrightarrow> max (or_start r) ?s \<in> or_points (r # R) \<inter> or_set other"
      using r ne by simp
    moreover have "or_points (r # R) \<subseteq> {or_start r..}"
      using separated_hd_lo [OF sep] by (intro points_ge) simp
    ultimately show ?thesis unfolding Cons by fastforce
  next
    case Nil
    show ?thesis unfolding Nil by simp
  qed
  ultimately show ?thesis using i by simp
qed

subsection \<open>Properties\<close>

text \<open>
  C9. Adding any sequence of ranges to an empty \<open>OffsetRangeSet\<close> never throws; the stored
  ranges stay sorted with a gap between any two, cover exactly the union of the added ranges, and
  \<open>length\<close> is the number of covered offsets.
\<close>

theorem OffsetRangeSet_addRange_all:
  assumes "\<forall>r \<in> set rs. OffsetRange_inv r"
  shows "\<exists>s. foldE OffsetRangeSet_addRange OffsetRangeSet_new rs = Inr s \<and>
    or_separated (ors_sortedRanges s) \<and> or_points (ors_sortedRanges s) = or_points rs \<and>
    OffsetRangeSet_length s = int (card (or_points rs))"
proof -
  have "\<exists>s. foldE OffsetRangeSet_addRange acc rs = Inr s \<and> or_separated (ors_sortedRanges s) \<and>
      or_points (ors_sortedRanges s) = or_points (ors_sortedRanges acc) \<union> or_points rs"
    if "or_separated (ors_sortedRanges acc)" for acc
    using assms that
  proof (induction rs arbitrary: acc)
    case (Cons r rs)
    have "OffsetRange_inv r" using Cons.prems(1) by simp
    with Cons.prems(2) obtain rs1 where add: "OffsetRange_addRange r (ors_sortedRanges acc) = Inr rs1"
      "or_separated rs1" "or_points rs1 = or_points (ors_sortedRanges acc) \<union> or_set r"
      by (rule OffsetRange_addRange_spec)
    with Cons.IH [of "acc\<lparr>ors_sortedRanges := rs1\<rparr>"] Cons.prems(1) show ?case
      by (auto simp: OffsetRangeSet_addRange_eq)
  qed simp
  from this [of OffsetRangeSet_new] obtain s where
    s: "foldE OffsetRangeSet_addRange OffsetRangeSet_new rs = Inr s" "or_separated (ors_sortedRanges s)"
      "or_points (ors_sortedRanges s) = or_points rs" by (auto simp: OffsetRangeSet_new_def)
  then show ?thesis using OffsetRangeSet_length_points [of s] by (intro exI [of _ s]) simp
qed

theorem OffsetRangeSet_addRange_all_witness:
  "\<exists>s. foldE OffsetRangeSet_addRange OffsetRangeSet_new
      [OffsetRange.fields 5 9, OffsetRange.fields 0 2, OffsetRange.fields 2 5] = Inr s \<and>
    or_separated (ors_sortedRanges s) \<and>
    or_points (ors_sortedRanges s) = or_points [OffsetRange.fields 5 9, OffsetRange.fields 0 2, OffsetRange.fields 2 5] \<and>
    OffsetRangeSet_length s =
      int (card (or_points [OffsetRange.fields 5 9, OffsetRange.fields 0 2, OffsetRange.fields 2 5]))"
  by (rule OffsetRangeSet_addRange_all) (simp add: OffsetRange_inv_def OffsetRange.defs)

text \<open>
  Intersecting a sorted set with a range never throws and keeps exactly the offsets that both
  cover; \<open>intersectWithRangeLength\<close> counts them, and, when no range involved is empty,
  \<open>intersectsStrict\<close> tells whether there is one.
\<close>

theorem OffsetRangeSet_intersect_correct:
  assumes "or_separated (ors_sortedRanges this)" and "OffsetRange_inv other"
  shows "(\<exists>s. OffsetRangeSet_intersectWithRange this other = Inr s \<and>
      or_separated (ors_sortedRanges s) \<and>
      or_points (ors_sortedRanges s) = or_points (ors_sortedRanges this) \<inter> or_set other) \<and>
    OffsetRangeSet_intersectWithRangeLength this other =
      Inr (int (card (or_points (ors_sortedRanges this) \<inter> or_set other))) \<and>
    (\<not> OffsetRange_isEmpty other \<and> (\<forall>r \<in> set (ors_sortedRanges this). \<not> OffsetRange_isEmpty r) \<longrightarrow>
      (OffsetRangeSet_intersectsStrict this other \<longleftrightarrow>
        or_points (ors_sortedRanges this) \<inter> or_set other \<noteq> {}))"
proof -
  have "\<forall>r \<in> set (ors_sortedRanges this). OffsetRange_inv r"
    using assms(1) by (simp add: separated_def OffsetRange_inv_def)
  from foldE_intersect [OF _ assms(2) this, of OffsetRangeSet_new] obtain s where
    s: "OffsetRangeSet_intersectWithRange this other = Inr s" "or_separated (ors_sortedRanges s)"
      "or_points (ors_sortedRanges s) = or_points (ors_sortedRanges this) \<inter> or_set other"
    by (auto simp: OffsetRangeSet_intersectWithRange_def OffsetRangeSet_new_def)
  then have "OffsetRangeSet_intersectWithRangeLength this other =
      Inr (int (card (or_points (ors_sortedRanges this) \<inter> or_set other)))"
    by (simp add: OffsetRangeSet_intersectWithRangeLength_def OffsetRangeSet_length_points)
  with s OffsetRangeSet_intersectsStrict_iff [OF assms] show ?thesis by blast
qed

theorem OffsetRangeSet_intersect_correct_witness:
  "let this = \<lparr>ors_sortedRanges = [OffsetRange.fields 0 4, OffsetRange.fields 6 9]\<rparr>;
       other = OffsetRange.fields 3 7
   in or_separated (ors_sortedRanges this) \<and> OffsetRange_inv other \<and>
      OffsetRangeSet_intersectWithRangeLength this other =
        Inr (int (card (or_points (ors_sortedRanges this) \<inter> or_set other)))"
proof -
  let ?this = "\<lparr>ors_sortedRanges = [OffsetRange.fields 0 4, OffsetRange.fields 6 9]\<rparr>"
  have "or_separated (ors_sortedRanges ?this)" and "OffsetRange_inv (OffsetRange.fields 3 7)"
    by (simp_all add: OffsetRange_inv_def OffsetRange.defs)
  from this OffsetRangeSet_intersect_correct [OF this] show ?thesis unfolding Let_def by blast
qed

text \<open>
  C10. \<open>clipCyclic\<close> throws on an empty range only. Otherwise its result differs from the value
  by a multiple of the length, and it lies in the range except when the value is before the range by
  an exact multiple of the length: then it is \<open>endExclusive\<close>, one past the range.
\<close>

theorem OffsetRange_clipCyclic_correct:
  assumes "OffsetRange_inv r"
  shows "(OffsetRange_clipCyclic r v = Inl BugIndicatingError \<longleftrightarrow> or_start r = or_endExclusive r) \<and>
    (or_start r < or_endExclusive r \<longrightarrow>
      (\<exists>x. OffsetRange_clipCyclic r v = Inr x \<and> (x - v) mod OffsetRange_length r = 0 \<and>
        (if v < or_start r \<and> (or_start r - v) mod OffsetRange_length r = 0
         then x = or_endExclusive r else OffsetRange_contains r x)))"
proof -
  define n where "n = OffsetRange_length r"
  have n: "or_endExclusive r = or_start r + n" by (simp add: n_def OffsetRange_length_def)
  show ?thesis
  proof (cases "or_start r = or_endExclusive r")
    case True
    then show ?thesis by (simp add: OffsetRange_clipCyclic_def OffsetRange_isEmpty_def)
  next
    case False
    then have pos: "0 < n" using assms n by (simp add: OffsetRange_inv_def)
    consider "v < or_start r" | "or_start r \<le> v" "v < or_endExclusive r" | "or_endExclusive r \<le> v"
      by linarith
    then show ?thesis
    proof cases
      case 1
      let ?m = "(or_start r - v) mod n"
      have "OffsetRange_clipCyclic r v = Inr (or_start r + n - ?m)"
        using 1 False pos n
        by (simp add: OffsetRange_clipCyclic_def OffsetRange_isEmpty_def js_rem_nonneg flip: n_def)
      moreover have "or_start r + n - ?m - v = n * ((or_start r - v) div n + 1)"
        using mult_div_mod_eq [of n "or_start r - v"] by (simp add: algebra_simps)
      then have "(or_start r + n - ?m - v) mod n = 0" by simp
      moreover have "0 \<le> ?m" "?m < n" using pos by simp_all
      ultimately show ?thesis using 1 False n
        by (auto simp: OffsetRange_contains_def simp flip: n_def)
    next
      case 2
      then show ?thesis using False n
        by (auto simp: OffsetRange_clipCyclic_def OffsetRange_isEmpty_def OffsetRange_contains_def)
    next
      case 3
      let ?m = "(v - or_start r) mod n"
      have "OffsetRange_clipCyclic r v = Inr (or_start r + ?m)"
        using 3 False pos n
        by (simp add: OffsetRange_clipCyclic_def OffsetRange_isEmpty_def js_rem_nonneg flip: n_def)
      moreover have "or_start r + ?m - v = n * (- ((v - or_start r) div n))"
        using mult_div_mod_eq [of n "v - or_start r"] by (simp add: algebra_simps)
      then have "(or_start r + ?m - v) mod n = 0" by simp
      moreover have "0 \<le> ?m" "?m < n" using pos by simp_all
      ultimately show ?thesis using 3 False n pos
        by (auto simp: OffsetRange_contains_def simp flip: n_def)
    qed
  qed
qed

theorem OffsetRange_clipCyclic_correct_witness:
  "let r = OffsetRange.fields 5 10 in OffsetRange_inv r \<and>
    OffsetRange_clipCyclic r 0 = Inr 10 \<and> \<not> OffsetRange_contains r 10"
proof -
  let ?r = "OffsetRange.fields 5 10"
  have "OffsetRange_inv ?r" by (simp add: OffsetRange_inv_def OffsetRange.defs)
  from this OffsetRange_clipCyclic_correct [OF this, of 0] show ?thesis
    by (auto simp: OffsetRange.defs OffsetRange_contains_def OffsetRange_length_def)
qed

end
