(* ===== verification/Line_Range.thy ===== *)
theory Line_Range
  imports Arrays_Find Offset_Range
begin

text \<open>
  \<open>src/vs/editor/common/core/ranges/lineRange.ts\<close>: the class \<open>LineRange\<close> (1-based line
  numbers, half-open) and \<open>LineRangeSet\<close>, a set of lines kept as a sorted array of ranges no
  two of which touch. Its operations find their place with the binary searches of
  \<open>Arrays_Find\<close>; the lemmas show that they are the set operations on the covered lines and
  keep the array normalized. The methods that build a \<open>Range\<close> are in \<open>Position_Range\<close>.
\<close>

record LineRange =
  lr_start :: int
  lr_endExclusive :: int

definition LineRange_new :: "int \<Rightarrow> int \<Rightarrow> js_error + LineRange" where
  "LineRange_new s e =
     (if s > e then Inl BugIndicatingError else Inr \<lparr>lr_start = s, lr_endExclusive = e\<rparr>)"

lemma LineRange_new_Inr [simp]:
  "s \<le> e \<Longrightarrow> LineRange_new s e = Inr \<lparr>lr_start = s, lr_endExclusive = e\<rparr>"
  by (simp add: LineRange_new_def)

definition LineRange_inv :: "LineRange \<Rightarrow> bool" where
  "LineRange_inv r \<longleftrightarrow> lr_start r \<le> lr_endExclusive r"

subsection \<open>Static operations\<close>

definition LineRange_ofLength :: "int \<Rightarrow> int \<Rightarrow> js_error + LineRange" where
  "LineRange_ofLength s len = LineRange_new s (s + len)"

definition LineRange_compareByStart :: "LineRange cmp" where
  "LineRange_compareByStart = compareBy lr_start numberComparator"

definition LineRange_subtract :: "LineRange \<Rightarrow> LineRange option \<Rightarrow> js_error + LineRange list" where
  "LineRange_subtract a bo = (case bo of None \<Rightarrow> Inr [a] | Some b \<Rightarrow>
     if lr_start a < lr_start b \<and> lr_endExclusive b < lr_endExclusive a then
       bindE (LineRange_new (lr_start a) (lr_start b)) (\<lambda>l.
       bindE (LineRange_new (lr_endExclusive b) (lr_endExclusive a)) (\<lambda>r. Inr [l, r]))
     else if lr_start b \<le> lr_start a \<and> lr_endExclusive a \<le> lr_endExclusive b then Inr []
     else if lr_endExclusive b < lr_endExclusive a then
       bindE (LineRange_new (max (lr_endExclusive b) (lr_start a)) (lr_endExclusive a)) (\<lambda>r. Inr [r])
     else
       bindE (LineRange_new (lr_start a) (min (lr_start b) (lr_endExclusive a))) (\<lambda>r. Inr [r]))"

definition LineRange_join_all :: "LineRange list \<Rightarrow> js_error + LineRange" where
  "LineRange_join_all lineRanges = (case lineRanges of [] \<Rightarrow> Inl BugIndicatingError
     | r # rs \<Rightarrow>
       (case foldl (\<lambda>(s, e) x. (min s (lr_start x), max e (lr_endExclusive x)))
               (lr_start r, lr_endExclusive r) rs of (s, e) \<Rightarrow> LineRange_new s e))"

definition LineRange_deserialize :: "int \<times> int \<Rightarrow> js_error + LineRange" where
  "LineRange_deserialize lineRange = LineRange_new (fst lineRange) (snd lineRange)"

subsection \<open>Methods\<close>

definition LineRange_contains :: "LineRange \<Rightarrow> int \<Rightarrow> bool" where
  "LineRange_contains r lineNumber \<longleftrightarrow> lr_start r \<le> lineNumber \<and> lineNumber < lr_endExclusive r"

definition LineRange_containsRange :: "LineRange \<Rightarrow> LineRange \<Rightarrow> bool" where
  "LineRange_containsRange r other \<longleftrightarrow>
     lr_start r \<le> lr_start other \<and> lr_endExclusive other \<le> lr_endExclusive r"

definition LineRange_isEmpty :: "LineRange \<Rightarrow> bool" where
  "LineRange_isEmpty r \<longleftrightarrow> lr_start r = lr_endExclusive r"

definition LineRange_delta :: "LineRange \<Rightarrow> int \<Rightarrow> js_error + LineRange" where
  "LineRange_delta r offset = LineRange_new (lr_start r + offset) (lr_endExclusive r + offset)"

definition LineRange_deltaLength :: "LineRange \<Rightarrow> int \<Rightarrow> js_error + LineRange" where
  "LineRange_deltaLength r offset = LineRange_new (lr_start r) (lr_endExclusive r + offset)"

definition LineRange_length :: "LineRange \<Rightarrow> int" where
  "LineRange_length r = lr_endExclusive r - lr_start r"

definition LineRange_join :: "LineRange \<Rightarrow> LineRange \<Rightarrow> js_error + LineRange" where
  "LineRange_join r other =
     LineRange_new (min (lr_start r) (lr_start other)) (max (lr_endExclusive r) (lr_endExclusive other))"

definition LineRange_intersect :: "LineRange \<Rightarrow> LineRange \<Rightarrow> js_error + LineRange option" where
  "LineRange_intersect r other =
     (let s = max (lr_start r) (lr_start other);
          e = min (lr_endExclusive r) (lr_endExclusive other)
      in if s \<le> e then bindE (LineRange_new s e) (\<lambda>x. Inr (Some x)) else Inr None)"

definition LineRange_intersectsStrict :: "LineRange \<Rightarrow> LineRange \<Rightarrow> bool" where
  "LineRange_intersectsStrict r other \<longleftrightarrow>
     lr_start r < lr_endExclusive other \<and> lr_start other < lr_endExclusive r"

definition LineRange_intersectsOrTouches :: "LineRange \<Rightarrow> LineRange \<Rightarrow> bool" where
  "LineRange_intersectsOrTouches r other \<longleftrightarrow>
     lr_start r \<le> lr_endExclusive other \<and> lr_start other \<le> lr_endExclusive r"

definition LineRange_equals :: "LineRange \<Rightarrow> LineRange \<Rightarrow> bool" where
  "LineRange_equals r b \<longleftrightarrow> lr_start r = lr_start b \<and> lr_endExclusive r = lr_endExclusive b"

definition LineRange_mapToLineArray :: "LineRange \<Rightarrow> (int \<Rightarrow> 'b) \<Rightarrow> 'b list" where
  "LineRange_mapToLineArray r f = map f [lr_start r..lr_endExclusive r - 1]"

definition LineRange_serialize :: "LineRange \<Rightarrow> int \<times> int" where
  "LineRange_serialize r = (lr_start r, lr_endExclusive r)"

definition LineRange_toOffsetRange :: "LineRange \<Rightarrow> js_error + OffsetRange" where
  "LineRange_toOffsetRange r = OffsetRange_new (lr_start r - 1) (lr_endExclusive r - 1)"

definition LineRange_distanceToRange :: "LineRange \<Rightarrow> LineRange \<Rightarrow> int" where
  "LineRange_distanceToRange r other =
     (if lr_endExclusive r \<le> lr_start other then lr_start other - lr_endExclusive r
      else if lr_endExclusive other \<le> lr_start r then lr_start r - lr_endExclusive other
      else 0)"

definition LineRange_distanceToLine :: "LineRange \<Rightarrow> int \<Rightarrow> int" where
  "LineRange_distanceToLine r lineNumber =
     (if LineRange_contains r lineNumber then 0
      else if lineNumber < lr_start r then lr_start r - lineNumber
      else lineNumber - lr_endExclusive r)"

definition LineRange_addMargin :: "LineRange \<Rightarrow> int \<Rightarrow> int \<Rightarrow> js_error + LineRange" where
  "LineRange_addMargin r marginTop marginBottom =
     LineRange_new (lr_start r - marginTop) (lr_endExclusive r + marginBottom)"

subsection \<open>LineRangeSet\<close>

text \<open>
  The object is its array. \<open>addRange\<close> changes it in place, which is returning the new set;
  \<open>getUnion\<close> may return one of its arguments itself, and no operation here mutates a set it
  has returned.
\<close>

record LineRangeSet =
  lrs_normalizedRanges :: "LineRange list"

definition LineRangeSet_addRange :: "LineRangeSet \<Rightarrow> LineRange \<Rightarrow> js_error + LineRangeSet" where
  "LineRangeSet_addRange this rng =
     (if LineRange_length rng = 0 then Inr this else
      let rs = lrs_normalizedRanges this;
          joinRangeStartIdx = findFirstIdxMonotonousOrArrLen rs (\<lambda>r. lr_endExclusive r \<ge> lr_start rng) 0 (length rs);
          joinRangeEndIdxExclusive =
            nat (findLastIdxMonotonous rs (\<lambda>r. lr_start r \<le> lr_endExclusive rng) 0 (length rs) + 1)
      in if joinRangeStartIdx = joinRangeEndIdxExclusive then
           Inr (this\<lparr>lrs_normalizedRanges := js_splice rs joinRangeStartIdx 0 [rng]\<rparr>)
         else if int joinRangeStartIdx = int joinRangeEndIdxExclusive - 1 then
           bindE (LineRange_join (rs ! joinRangeStartIdx) rng) (\<lambda>joinRange.
             Inr (this\<lparr>lrs_normalizedRanges := rs[joinRangeStartIdx := joinRange]\<rparr>))
         else
           bindE (LineRange_join (rs ! joinRangeStartIdx) (rs ! (joinRangeEndIdxExclusive - 1))) (\<lambda>j.
           bindE (LineRange_join j rng) (\<lambda>joinRange.
             Inr (this\<lparr>lrs_normalizedRanges :=
               js_splice rs joinRangeStartIdx (joinRangeEndIdxExclusive - joinRangeStartIdx) [joinRange]\<rparr>))))"

definition LineRangeSet_contains :: "LineRangeSet \<Rightarrow> int \<Rightarrow> bool" where
  "LineRangeSet_contains this lineNumber =
     (case findLastMonotonous (lrs_normalizedRanges this) (\<lambda>r. lr_start r \<le> lineNumber) of
        None \<Rightarrow> False
      | Some rangeThatStartsBeforeEnd \<Rightarrow> lr_endExclusive rangeThatStartsBeforeEnd > lineNumber)"

definition LineRangeSet_intersects :: "LineRangeSet \<Rightarrow> LineRange \<Rightarrow> bool" where
  "LineRangeSet_intersects this rng =
     (case findLastMonotonous (lrs_normalizedRanges this) (\<lambda>r. lr_start r < lr_endExclusive rng) of
        None \<Rightarrow> False
      | Some rangeThatStartsBeforeEnd \<Rightarrow> lr_endExclusive rangeThatStartsBeforeEnd > lr_start rng)"

text \<open>The body of the loop of \<open>getUnion\<close> once \<open>next\<close> has been chosen.\<close>

definition getUnion_step ::
    "LineRange option \<Rightarrow> LineRange list \<Rightarrow> LineRange \<Rightarrow> js_error + LineRange option \<times> LineRange list" where
  "getUnion_step current result next = (case current of
      None \<Rightarrow> Inr (Some next, result)
    | Some cur \<Rightarrow>
        if lr_endExclusive cur \<ge> lr_start next then
          bindE (LineRange_new (lr_start cur) (max (lr_endExclusive cur) (lr_endExclusive next)))
            (\<lambda>merged. Inr (Some merged, result))
        else Inr (Some next, result @ [cur]))"

function getUnion_loop ::
    "LineRange list \<Rightarrow> LineRange list \<Rightarrow> nat \<Rightarrow> nat \<Rightarrow> LineRange option \<Rightarrow> LineRange list
     \<Rightarrow> js_error + LineRange list" where
  "getUnion_loop as bs i1 i2 current result =
     (if i1 < length as \<or> i2 < length bs then
        let (next, i1', i2') =
          (if i1 < length as \<and> i2 < length bs then
             (if lr_start (as ! i1) < lr_start (bs ! i2) then (as ! i1, i1 + 1, i2)
              else (bs ! i2, i1, i2 + 1))
           else if i1 < length as then (as ! i1, i1 + 1, i2)
           else (bs ! i2, i1, i2 + 1))
        in bindE (getUnion_step current result next)
             (\<lambda>(current', result'). getUnion_loop as bs i1' i2' current' result')
      else Inr (case current of None \<Rightarrow> result | Some cur \<Rightarrow> result @ [cur]))"
  by pat_completeness auto
termination
  by (relation "measure (\<lambda>(as, bs, i1, i2, _). (length as - i1) + (length bs - i2))")
     (auto split: if_splits)

declare getUnion_loop.simps [simp del]

definition LineRangeSet_getUnion :: "LineRangeSet \<Rightarrow> LineRangeSet \<Rightarrow> js_error + LineRangeSet" where
  "LineRangeSet_getUnion this other =
     (if length (lrs_normalizedRanges this) = 0 then Inr other
      else if length (lrs_normalizedRanges other) = 0 then Inr this
      else bindE (getUnion_loop (lrs_normalizedRanges this) (lrs_normalizedRanges other) 0 0 None [])
             (\<lambda>result. Inr \<lparr>lrs_normalizedRanges = result\<rparr>))"

definition subtractFrom_step :: "int \<times> LineRange list \<Rightarrow> LineRange \<Rightarrow> js_error + int \<times> LineRange list" where
  "subtractFrom_step st r = (case st of (startLineNumber, result) \<Rightarrow>
     bindE (if lr_start r > startLineNumber
            then bindE (LineRange_new startLineNumber (lr_start r)) (\<lambda>x. Inr (result @ [x]))
            else Inr result)
       (\<lambda>result'. Inr (lr_endExclusive r, result')))"

definition LineRangeSet_subtractFrom :: "LineRangeSet \<Rightarrow> LineRange \<Rightarrow> js_error + LineRangeSet" where
  "LineRangeSet_subtractFrom this rng =
     (let rs = lrs_normalizedRanges this;
          joinRangeStartIdx = findFirstIdxMonotonousOrArrLen rs (\<lambda>r. lr_endExclusive r \<ge> lr_start rng) 0 (length rs);
          joinRangeEndIdxExclusive =
            nat (findLastIdxMonotonous rs (\<lambda>r. lr_start r \<le> lr_endExclusive rng) 0 (length rs) + 1)
      in if joinRangeStartIdx = joinRangeEndIdxExclusive then Inr \<lparr>lrs_normalizedRanges = [rng]\<rparr>
         else
           bindE (foldE subtractFrom_step (lr_start rng, [])
                   (map ((!) rs) [joinRangeStartIdx..<joinRangeEndIdxExclusive]))
             (\<lambda>(startLineNumber, result).
               if startLineNumber < lr_endExclusive rng
               then bindE (LineRange_new startLineNumber (lr_endExclusive rng))
                      (\<lambda>x. Inr \<lparr>lrs_normalizedRanges = result @ [x]\<rparr>)
               else Inr \<lparr>lrs_normalizedRanges = result\<rparr>))"

function getIntersection_loop ::
    "LineRange list \<Rightarrow> LineRange list \<Rightarrow> nat \<Rightarrow> nat \<Rightarrow> LineRange list \<Rightarrow> js_error + LineRange list" where
  "getIntersection_loop as bs i1 i2 result =
     (if i1 < length as \<and> i2 < length bs then
        let r1 = as ! i1; r2 = bs ! i2
        in bindE (LineRange_intersect r1 r2) (\<lambda>i.
             let result' = (case i of None \<Rightarrow> result
                   | Some x \<Rightarrow> if \<not> LineRange_isEmpty x then result @ [x] else result)
             in if lr_endExclusive r1 < lr_endExclusive r2
                then getIntersection_loop as bs (i1 + 1) i2 result'
                else getIntersection_loop as bs i1 (i2 + 1) result')
      else Inr result)"
  by pat_completeness auto
termination
  by (relation "measure (\<lambda>(as, bs, i1, i2, _). (length as - i1) + (length bs - i2))") auto

declare getIntersection_loop.simps [simp del]

definition LineRangeSet_getIntersection :: "LineRangeSet \<Rightarrow> LineRangeSet \<Rightarrow> js_error + LineRangeSet" where
  "LineRangeSet_getIntersection this other =
     bindE (getIntersection_loop (lrs_normalizedRanges this) (lrs_normalizedRanges other) 0 0 [])
       (\<lambda>result. Inr \<lparr>lrs_normalizedRanges = result\<rparr>)"

definition LineRangeSet_getWithDelta :: "LineRangeSet \<Rightarrow> int \<Rightarrow> js_error + LineRangeSet" where
  "LineRangeSet_getWithDelta this v =
     bindE (mapE (\<lambda>r. LineRange_delta r v) (lrs_normalizedRanges this))
       (\<lambda>rs. Inr \<lparr>lrs_normalizedRanges = rs\<rparr>)"

definition LineRange_joinMany :: "LineRange list list \<Rightarrow> js_error + LineRange list" where
  "LineRange_joinMany lineRanges = (case lineRanges of [] \<Rightarrow> Inr []
     | rs # rss \<Rightarrow>
       bindE (foldE (\<lambda>result xs. LineRangeSet_getUnion result \<lparr>lrs_normalizedRanges = xs\<rparr>)
                \<lparr>lrs_normalizedRanges = rs\<rparr> rss)
         (\<lambda>result. Inr (lrs_normalizedRanges result)))"

subsection \<open>The covered lines\<close>

abbreviation lines_of :: "LineRange list \<Rightarrow> int set" where
  "lines_of \<equiv> points lr_start lr_endExclusive"

abbreviation lr_separated :: "LineRange list \<Rightarrow> bool" where
  "lr_separated \<equiv> separated lr_start lr_endExclusive"

abbreviation lr_set :: "LineRange \<Rightarrow> int set" where
  "lr_set r \<equiv> {lr_start r..<lr_endExclusive r}"

text \<open>What the comment on \<open>_normalizedRanges\<close> promises; no stored range is empty.\<close>

definition LineRangeSet_inv :: "LineRangeSet \<Rightarrow> bool" where
  "LineRangeSet_inv this \<longleftrightarrow> lr_separated (lrs_normalizedRanges this) \<and>
     (\<forall>r \<in> set (lrs_normalizedRanges this). lr_start r < lr_endExclusive r)"

abbreviation lines :: "LineRangeSet \<Rightarrow> int set" where
  "lines this \<equiv> lines_of (lrs_normalizedRanges this)"

interpretation lineInterval: interval lr_start lr_endExclusive "LineRange.fields"
  by unfold_locales (simp_all add: LineRange.defs)

lemma search_cut:
  assumes sep: "lr_separated rs" and se: "s \<le> e"
    and i: "i = findFirstIdxMonotonousOrArrLen rs (\<lambda>r. lr_endExclusive r \<ge> s) 0 (length rs)"
    and j: "j = nat (findLastIdxMonotonous rs (\<lambda>r. lr_start r \<le> e) 0 (length rs) + 1)"
  obtains A M B where "rs = A @ M @ B" "i = length A" "j = length A + length M"
    "cut_at lr_start lr_endExclusive s e A M B"
proof -
  have hi: "sorted_wrt (\<lambda>a b. lr_endExclusive a < lr_start b) rs"
    and le: "\<forall>r \<in> set rs. lr_start r \<le> lr_endExclusive r"
    using sep by (simp_all add: separated_def)
  have "sorted_wrt (\<lambda>a b. s \<le> lr_endExclusive a \<longrightarrow> s \<le> lr_endExclusive b) rs"
    by (rule sorted_wrt_mono_rel [OF _ hi]) (use le in force)
  then have inc: "increasing (\<lambda>r. lr_endExclusive r \<ge> s) rs 0 (length rs)"
    by (intro increasing_sorted) simp_all
  have "sorted_wrt (\<lambda>a b. lr_start b \<le> e \<longrightarrow> lr_start a \<le> e) rs"
    by (rule sorted_wrt_mono_rel [OF _ hi]) (use le in force)
  then have dec: "decreasing (\<lambda>r. lr_start r \<le> e) rs 0 (length rs)"
    by (intro decreasing_sorted) simp_all
  have I: "s \<le> lr_endExclusive (rs ! m) \<longleftrightarrow> i \<le> m" if "m < length rs" for m
    using findFirstIdxMonotonousOrArrLen_iff [OF inc, of m] that i by simp
  have J: "lr_start (rs ! m) \<le> e \<longleftrightarrow> m < j" if "m < length rs" for m
    using findLastIdxMonotonous_iff [OF dec, of m] that j by auto
  have "i \<le> length rs" "j \<le> length rs"
    using findFirstIdxMonotonousOrArrLen_bounds [of 0 "length rs" rs "\<lambda>r. lr_endExclusive r \<ge> s"]
      findLastIdxMonotonous_bounds [of 0 "length rs" rs "\<lambda>r. lr_start r \<le> e"] i j by auto
  have "i \<le> j"
  proof (rule ccontr)
    assume "\<not> i \<le> j"
    then have "j < length rs" "j < i" using \<open>i \<le> length rs\<close> by simp_all
    then have "lr_endExclusive (rs ! j) < s" "e < lr_start (rs ! j)" using I [of j] J [of j] by simp_all
    moreover have "lr_start (rs ! j) \<le> lr_endExclusive (rs ! j)" using le \<open>j < length rs\<close> by simp
    ultimately show False using se by linarith
  qed
  let ?A = "take i rs" and ?M = "take (j - i) (drop i rs)" and ?B = "drop j rs"
  have "?M @ ?B = drop i rs"
    using append_take_drop_id [of "j - i" "drop i rs"] \<open>i \<le> j\<close> by simp
  then have rs: "rs = ?A @ ?M @ ?B" by simp
  have "cut_at lr_start lr_endExclusive s e ?A ?M ?B"
    unfolding cut_at_def
  proof (intro conjI ballI)
    fix a assume "a \<in> set ?A"
    then obtain m where "m < i" "m < length rs" "a = rs ! m" by (auto simp: in_set_conv_nth)
    then show "lr_endExclusive a < s" using I [of m] by simp
  next
    fix a assume "a \<in> set ?M"
    then obtain m where "m < j - i" "i + m < length rs" "a = rs ! (i + m)"
      by (auto simp: in_set_conv_nth)
    then show "s \<le> lr_endExclusive a" "lr_start a \<le> e" using I [of "i + m"] J [of "i + m"] by auto
  next
    fix b assume "b \<in> set ?B"
    then obtain m where "j \<le> m" "m < length rs" "b = rs ! m" by (rule in_set_dropE)
    then show "e < lr_start b" using J [of m] by simp
  qed
  with rs \<open>i \<le> j\<close> \<open>j \<le> length rs\<close> show ?thesis by (intro that [of ?A ?M ?B]) auto
qed

text \<open>What the linear-time part of the queries sees.\<close>

lemma findLastMonotonous_split:
  assumes "decreasing p xs 0 (length xs)"
  obtains "findLastMonotonous xs p = None" "\<forall>x \<in> set xs. \<not> p x"
  | A x B where "xs = A @ x # B" "findLastMonotonous xs p = Some x" "p x" "\<forall>b \<in> set B. \<not> p b"
proof -
  let ?k = "findLastIdxMonotonous xs p 0 (length xs)"
  note iff = findLastIdxMonotonous_iff [OF assms]
  have b: "- 1 \<le> ?k" "?k < int (length xs)"
    using findLastIdxMonotonous_bounds [of 0 "length xs" xs p] by simp_all
  show ?thesis
  proof (cases "?k = - 1")
    case True
    then have "\<forall>x \<in> set xs. \<not> p x" using iff by (force simp: in_set_conv_nth)
    with True show ?thesis by (intro that(1)) (simp_all add: findLastMonotonous_def)
  next
    case False
    then have k: "nat ?k < length xs" using b by simp
    have "\<not> p y" if y: "y \<in> set (drop (Suc (nat ?k)) xs)" for y
    proof -
      obtain m where m: "Suc (nat ?k) \<le> m" "m < length xs" "y = xs ! m"
        using in_set_dropE [OF y] by blast
      then show ?thesis using iff [of m] b False by simp
    qed
    moreover have "p (xs ! nat ?k)" using iff [of "nat ?k"] k b False by simp
    ultimately show ?thesis using False id_take_nth_drop [OF k]
      by (intro that(2) [of "take (nat ?k) xs" "xs ! nat ?k" "drop (Suc (nat ?k)) xs"])
        (simp_all add: findLastMonotonous_def Let_def)
  qed
qed

subsection \<open>Adding a range\<close>

lemma LineRangeSet_addRange_spec:
  assumes inv: "LineRangeSet_inv this" and r: "LineRange_inv r"
  obtains s where "LineRangeSet_addRange this r = Inr s" "LineRangeSet_inv s"
    "lines s = lines this \<union> lr_set r"
proof (cases "LineRange_length r = 0")
  case True
  with inv show ?thesis
    by (intro that [of this]) (simp_all add: LineRangeSet_addRange_def LineRange_length_def)
next
  case len: False
  let ?rs = "lrs_normalizedRanges this" and ?s = "lr_start r" and ?e = "lr_endExclusive r"
  have se: "?s < ?e" using r len by (simp add: LineRange_inv_def LineRange_length_def)
  have sep: "lr_separated ?rs" and ne: "\<forall>r \<in> set ?rs. lr_start r < lr_endExclusive r"
    using inv by (simp_all add: LineRangeSet_inv_def)
  define i where "i = findFirstIdxMonotonousOrArrLen ?rs (\<lambda>r. lr_endExclusive r \<ge> ?s) 0 (length ?rs)"
  define j where "j = nat (findLastIdxMonotonous ?rs (\<lambda>r. lr_start r \<le> ?e) 0 (length ?rs) + 1)"
  obtain A M B where pieces: "?rs = A @ M @ B" "i = length A" "j = length A + length M"
    and cut: "cut_at lr_start lr_endExclusive ?s ?e A M B"
    by (rule search_cut [OF sep less_imp_le [OF se] i_def j_def])
  define h where "h = LineRange.fields (min ?s (lr_start (hd M))) (max ?e (lr_endExclusive (last M)))"
  have eq: "LineRangeSet_addRange this r =
     (if i = j then Inr (this\<lparr>lrs_normalizedRanges := js_splice ?rs i 0 [r]\<rparr>)
      else if int i = int j - 1 then
        bindE (LineRange_join (?rs ! i) r) (\<lambda>x. Inr (this\<lparr>lrs_normalizedRanges := ?rs[i := x]\<rparr>))
      else bindE (LineRange_join (?rs ! i) (?rs ! (j - 1))) (\<lambda>y. bindE (LineRange_join y r)
        (\<lambda>x. Inr (this\<lparr>lrs_normalizedRanges := js_splice ?rs i (j - i) [x]\<rparr>))))"
    using len by (simp only: LineRangeSet_addRange_def Let_def i_def j_def if_False)
  show ?thesis
  proof (cases "M = []")
    case True
    have res: "LineRangeSet_addRange this r = Inr (this\<lparr>lrs_normalizedRanges := A @ r # B\<rparr>)"
      unfolding eq using pieces True js_splice_append [of A "[]" B "[r]"] by simp
    have "lr_separated (A @ B)" using sep pieces True by simp
    from lineInterval.insert_between [OF this, of r] se cut res ne show ?thesis
      using pieces True by (intro that [OF res]) (auto simp: cut_at_def LineRangeSet_inv_def)
  next
    case False
    have idx: "?rs ! i = hd M" "?rs ! (j - 1) = last M"
      using False pieces nth_piece_hd [OF False, of A B] nth_piece_last [OF False, of A B] by simp_all
    have in_M: "hd M \<in> set M" "last M \<in> set M" using False by simp_all
    have sepM: "lr_separated M" and neM: "\<forall>m \<in> set M. lr_start m < lr_endExclusive m"
      using sep ne pieces by (simp_all add: separated_append)
    have m: "lr_start (hd M) \<le> lr_start (last M)" "lr_endExclusive (hd M) \<le> lr_endExclusive (last M)"
        "lr_start (hd M) < lr_endExclusive (hd M)" "lr_start (last M) < lr_endExclusive (last M)"
      using in_M neM separated_hd_lo [OF sepM] separated_hd_hi [OF sepM] by simp_all
    have res: "LineRangeSet_addRange this r = Inr (this\<lparr>lrs_normalizedRanges := A @ h # B\<rparr>)"
    proof (cases "length M = 1")
      case True
      then have M: "M = [hd M]" "last M = hd M" by (cases M; simp)+
      have "?rs[i := h] = A @ h # B" using pieces(1,2) M(1) by (metis append_Cons append_Nil list_update_length)
      moreover have "LineRange_join (hd M) r = Inr h"
        using m se M(2) by (simp add: LineRange_join_def h_def LineRange.defs min.commute max.commute)
      ultimately show ?thesis unfolding eq idx using pieces True by simp
    next
      case False
      then have "i \<noteq> j" "int i \<noteq> int j - 1" "j - i = length M" using pieces \<open>M \<noteq> []\<close> by simp_all
      moreover obtain y where "LineRange_join (hd M) (last M) = Inr y" "LineRange_join y r = Inr h"
        using m se by (simp add: LineRange_join_def h_def LineRange.defs min_def max_def)
      ultimately show ?thesis
        unfolding eq idx using pieces js_splice_append [of A M B "[h]"] by simp
    qed
    have h: "lr_start h < lr_endExclusive h" using se by (auto simp: h_def LineRange.defs)
    have sep': "lr_separated (A @ M @ B)" using sep pieces by simp
    have "lr_separated (A @ h # B)" "lines_of (A @ h # B) = lines_of (A @ M @ B) \<union> lr_set r"
      using lineInterval.insert_merge [OF sep' False less_imp_le [OF se] cut] unfolding h_def by blast+
    then show ?thesis using ne pieces h
      by (intro that [OF res]) (simp_all add: LineRangeSet_inv_def ball_Un)
  qed
qed

subsection \<open>Queries\<close>

lemma starts_decreasing:
  assumes "lr_separated rs" and "\<And>x y. x \<le> y \<Longrightarrow> p y \<Longrightarrow> p x"
  shows "decreasing (\<lambda>r. p (lr_start r)) rs 0 (length rs)"
proof (rule decreasing_sorted)
  have hi: "sorted_wrt (\<lambda>a b. lr_endExclusive a < lr_start b) rs"
    and le: "\<forall>r \<in> set rs. lr_start r \<le> lr_endExclusive r"
    using assms(1) by (simp_all add: separated_def)
  show "sorted_wrt (\<lambda>a b. p (lr_start b) \<longrightarrow> p (lr_start a)) rs"
  proof (rule sorted_wrt_mono_rel [OF _ hi])
    fix a b assume "a \<in> set rs" "b \<in> set rs" "lr_endExclusive a < lr_start b"
    then have "lr_start a \<le> lr_start b" using le by (meson dual_order.trans less_imp_le)
    then show "p (lr_start b) \<longrightarrow> p (lr_start a)" using assms(2) by blast
  qed
qed simp

lemma LineRangeSet_contains_iff:
  assumes "LineRangeSet_inv this"
  shows "LineRangeSet_contains this n \<longleftrightarrow> n \<in> lines this"
proof -
  have sep: "lr_separated (lrs_normalizedRanges this)" using assms by (simp add: LineRangeSet_inv_def)
  show ?thesis
  proof (rule findLastMonotonous_split [OF starts_decreasing [OF sep, of "\<lambda>x. x \<le> n"]])
    fix A x B assume split: "lrs_normalizedRanges this = A @ x # B" "lr_start x \<le> n"
      "\<forall>b \<in> set B. \<not> lr_start b \<le> n"
      "findLastMonotonous (lrs_normalizedRanges this) (\<lambda>r. lr_start r \<le> n) = Some x"
    have "n \<notin> lines_of A" "n \<notin> lines_of B"
      using sep split(1-3) by (fastforce simp: separated_append points_def)+
    with split show ?thesis by (simp add: LineRangeSet_contains_def not_le)
  qed (auto simp: LineRangeSet_contains_def points_def)
qed

lemma LineRangeSet_intersects_iff:
  assumes "LineRangeSet_inv this" and "lr_start r < lr_endExclusive r"
  shows "LineRangeSet_intersects this r \<longleftrightarrow> lines this \<inter> lr_set r \<noteq> {}"
proof -
  let ?e = "lr_endExclusive r"
  have sep: "lr_separated (lrs_normalizedRanges this)"
    and ne: "\<forall>r \<in> set (lrs_normalizedRanges this). lr_start r < lr_endExclusive r"
    using assms by (simp_all add: LineRangeSet_inv_def)
  show ?thesis
  proof (rule findLastMonotonous_split [OF starts_decreasing [OF sep, of "\<lambda>x. x < ?e"]])
    fix A x B assume split: "lrs_normalizedRanges this = A @ x # B" "lr_start x < ?e"
      "\<forall>b \<in> set B. \<not> lr_start b < ?e"
      "findLastMonotonous (lrs_normalizedRanges this) (\<lambda>r. lr_start r < ?e) = Some x"
    have B: "lines_of B \<inter> lr_set r = {}" using split(3) by (force simp: points_def)
    have A: "lines_of A \<inter> lr_set r = {}" if "lr_endExclusive x \<le> lr_start r"
      using sep split(1) that by (fastforce simp: separated_append points_def)
    have x: "lr_set x \<inter> lr_set r \<noteq> {} \<longleftrightarrow> lr_start r < lr_endExclusive x"
    proof
      assume "lr_start r < lr_endExclusive x"
      then have "max (lr_start x) (lr_start r) \<in> lr_set x \<inter> lr_set r" using assms(2) ne split by simp
      then show "lr_set x \<inter> lr_set r \<noteq> {}" by blast
    qed auto
    have "lines this \<inter> lr_set r = (lines_of A \<inter> lr_set r) \<union> (lr_set x \<inter> lr_set r)"
      using B split(1) by auto
    with A x split(4) show ?thesis
      by (cases "lr_start r < lr_endExclusive x") (auto simp: LineRangeSet_intersects_def)
  qed (force simp: LineRangeSet_intersects_def points_def)+
qed

subsection \<open>Union, intersection and difference\<close>

text \<open>What the loops compute, on the remaining elements of the two arrays.\<close>

fun merge_by_start :: "LineRange list \<Rightarrow> LineRange list \<Rightarrow> LineRange list" where
  "merge_by_start [] ys = ys"
| "merge_by_start xs [] = xs"
| "merge_by_start (x # xs) (y # ys) =
     (if lr_start x < lr_start y then x # merge_by_start xs (y # ys) else y # merge_by_start (x # xs) ys)"

fun coalesce :: "LineRange \<Rightarrow> LineRange list \<Rightarrow> LineRange list" where
  "coalesce c [] = [c]"
| "coalesce c (n # ns) =
     (if lr_endExclusive c \<ge> lr_start n
      then coalesce (LineRange.fields (lr_start c) (max (lr_endExclusive c) (lr_endExclusive n))) ns
      else c # coalesce n ns)"

definition coalesce_opt :: "LineRange option \<Rightarrow> LineRange list \<Rightarrow> LineRange list" where
  "coalesce_opt current ns = (case current of
      Some c \<Rightarrow> coalesce c ns | None \<Rightarrow> (case ns of [] \<Rightarrow> [] | n # ns' \<Rightarrow> coalesce n ns'))"

lemma merge_by_start_Nil2 [simp]: "merge_by_start xs [] = xs"
  by (cases xs) simp_all

lemma set_merge_by_start [simp]: "set (merge_by_start xs ys) = set xs \<union> set ys"
  by (induction xs ys rule: merge_by_start.induct) auto

lemma sorted_merge_by_start:
  "sorted_wrt (\<lambda>a b. lr_start a \<le> lr_start b) xs \<Longrightarrow> sorted_wrt (\<lambda>a b. lr_start a \<le> lr_start b) ys \<Longrightarrow>
   sorted_wrt (\<lambda>a b. lr_start a \<le> lr_start b) (merge_by_start xs ys)"
  by (induction xs ys rule: merge_by_start.induct) fastforce+

lemma separated_sorted_starts:
  assumes "lr_separated rs"
  shows "sorted_wrt (\<lambda>a b. lr_start a \<le> lr_start b) rs"
proof -
  have hi: "sorted_wrt (\<lambda>a b. lr_endExclusive a < lr_start b) rs"
    and le: "\<forall>r \<in> set rs. lr_start r \<le> lr_endExclusive r"
    using assms by (simp_all add: separated_def)
  show ?thesis
    by (rule sorted_wrt_mono_rel [OF _ hi]) (use le in force)
qed

lemma coalesce_spec:
  assumes "sorted_wrt (\<lambda>a b. lr_start a \<le> lr_start b) (c # ns)"
    and "\<forall>r \<in> set (c # ns). lr_start r < lr_endExclusive r"
  shows "lr_separated (coalesce c ns) \<and> (\<forall>r \<in> set (coalesce c ns). lr_start c \<le> lr_start r \<and>
    lr_start r < lr_endExclusive r) \<and> lines_of (coalesce c ns) = lines_of (c # ns)"
  using assms
proof (induction c ns rule: coalesce.induct)
  case (2 c n ns)
  show ?case
  proof (cases "lr_endExclusive c \<ge> lr_start n")
    case True
    let ?m = "LineRange.fields (lr_start c) (max (lr_endExclusive c) (lr_endExclusive n))"
    have le: "lr_start c \<le> lr_start n" "lr_start c < lr_endExclusive c" "lr_start n < lr_endExclusive n"
      using "2.prems" by simp_all
    then have m: "lr_set ?m = lr_set c \<union> lr_set n" using True by (auto simp: LineRange.defs)
    have "sorted_wrt (\<lambda>a b. lr_start a \<le> lr_start b) (?m # ns)"
      using "2.prems"(1) by (simp add: LineRange.defs)
    moreover have "\<forall>r \<in> set (?m # ns). lr_start r < lr_endExclusive r"
      using "2.prems"(2) by (simp add: LineRange.defs less_max_iff_disj)
    ultimately have IH: "lr_separated (coalesce ?m ns)" "lines_of (coalesce ?m ns) = lines_of (?m # ns)"
      "\<forall>r \<in> set (coalesce ?m ns). lr_start ?m \<le> lr_start r \<and> lr_start r < lr_endExclusive r"
      using "2.IH"(1) [OF True] by blast+
    have eq: "coalesce c (n # ns) = coalesce ?m ns" using True by simp
    have "lines_of (?m # ns) = lines_of (c # n # ns)" using m by (simp only: points_simps Un_assoc)
    moreover have "lr_start ?m = lr_start c" by (simp add: LineRange.defs)
    ultimately show ?thesis unfolding eq using IH by simp
  next
    case False
    have IH: "lr_separated (coalesce n ns)" "lines_of (coalesce n ns) = lines_of (n # ns)"
      and ge: "\<forall>r \<in> set (coalesce n ns). lr_start n \<le> lr_start r \<and> lr_start r < lr_endExclusive r"
      using "2.IH"(2) [OF False] "2.prems" by simp_all
    have "\<forall>r \<in> set (coalesce n ns). lr_endExclusive c < lr_start r" using ge False by force
    moreover have "lr_start c \<le> lr_start n" "lr_start c < lr_endExclusive c" using "2.prems" by simp_all
    moreover have "\<forall>r \<in> set (coalesce n ns). lr_start c \<le> lr_start r"
      using ge \<open>lr_start c \<le> lr_start n\<close> by force
    ultimately show ?thesis using False IH ge by simp
  qed
qed simp

lemma getUnion_step_eq:
  assumes "\<forall>c \<in> set_option cur. lr_start c \<le> lr_endExclusive c"
  obtains cur' res' where "getUnion_step cur res n = Inr (Some cur', res')"
    "lr_start n \<le> lr_endExclusive n \<longrightarrow> lr_start cur' \<le> lr_endExclusive cur'"
    "\<And>ns. res' @ coalesce cur' ns = res @ coalesce_opt cur (n # ns)"
proof (cases cur)
  case None
  then show ?thesis by (intro that [of n res]) (simp_all add: getUnion_step_def coalesce_opt_def)
next
  case (Some c)
  let ?m = "LineRange.fields (lr_start c) (max (lr_endExclusive c) (lr_endExclusive n))"
  have c: "lr_start c \<le> lr_endExclusive c" using assms Some by simp
  show ?thesis
  proof (cases "lr_endExclusive c \<ge> lr_start n")
    case True
    with Some c show ?thesis
      by (intro that [of ?m res])
        (simp_all add: getUnion_step_def coalesce_opt_def LineRange.defs le_max_iff_disj)
  next
    case False
    with Some show ?thesis
      by (intro that [of n "res @ [c]"]) (simp_all add: getUnion_step_def coalesce_opt_def)
  qed
qed

lemma getUnion_loop_eq:
  assumes "\<forall>r \<in> set as \<union> set bs. lr_start r \<le> lr_endExclusive r"
    and "\<forall>c \<in> set_option cur. lr_start c \<le> lr_endExclusive c"
  shows "getUnion_loop as bs i1 i2 cur res =
    Inr (res @ coalesce_opt cur (merge_by_start (drop i1 as) (drop i2 bs)))"
  using assms
proof (induction as bs i1 i2 cur res rule: getUnion_loop.induct)
  case (1 as bs i1 i2 cur res)
  let ?pick = "if i1 < length as \<and> i2 < length bs then
             (if lr_start (as ! i1) < lr_start (bs ! i2) then (as ! i1, i1 + 1, i2)
              else (bs ! i2, i1, i2 + 1))
           else if i1 < length as then (as ! i1, i1 + 1, i2)
           else (bs ! i2, i1, i2 + 1)"
  show ?case
  proof (cases "i1 < length as \<or> i2 < length bs")
    case False
    then show ?thesis
      by (simp add: getUnion_loop.simps [of as bs i1] coalesce_opt_def split: option.splits)
  next
    case True
    obtain n i1' i2' where pick: "?pick = (n, i1', i2')" by (cases ?pick) auto
    have rest: "merge_by_start (drop i1 as) (drop i2 bs) = n # merge_by_start (drop i1' as) (drop i2' bs)"
      using pick True by (auto simp: Cons_nth_drop_Suc [symmetric] split: if_splits)
    have n: "lr_start n \<le> lr_endExclusive n"
      using pick True "1.prems"(1) by (auto split: if_splits)
    obtain cur' res' where step: "getUnion_step cur res n = Inr (Some cur', res')"
      "lr_start n \<le> lr_endExclusive n \<longrightarrow> lr_start cur' \<le> lr_endExclusive cur'"
      "\<And>ns. res' @ coalesce cur' ns = res @ coalesce_opt cur (n # ns)"
      using getUnion_step_eq [OF "1.prems"(2), of res n] by blast
    have "getUnion_loop as bs i1 i2 cur res = getUnion_loop as bs i1' i2' (Some cur') res'"
      by (subst getUnion_loop.simps) (simp only: True pick Let_def step(1) prod.case bindE_simps if_True)
    also have "\<dots> = Inr (res' @ coalesce_opt (Some cur') (merge_by_start (drop i1' as) (drop i2' bs)))"
      using step(2) n "1.prems"(1)
      by (intro "1.IH" [OF True refl, unfolded pick, OF refl refl step(1) refl]) simp_all
    finally show ?thesis using step(3) rest by (simp add: coalesce_opt_def)
  qed
qed

lemma LineRangeSet_getUnion_spec:
  assumes "LineRangeSet_inv a" "LineRangeSet_inv b"
  obtains u where "LineRangeSet_getUnion a b = Inr u" "LineRangeSet_inv u" "lines u = lines a \<union> lines b"
proof (cases "lrs_normalizedRanges a = [] \<or> lrs_normalizedRanges b = []")
  case True
  with assms show ?thesis
    by (cases "lrs_normalizedRanges a = []")
      (auto intro: that [of a] that [of b] simp: LineRangeSet_getUnion_def)
next
  case False
  let ?as = "lrs_normalizedRanges a" and ?bs = "lrs_normalizedRanges b"
  let ?u = "\<lparr>lrs_normalizedRanges = coalesce_opt None (merge_by_start ?as ?bs)\<rparr>"
  have pos: "\<forall>r \<in> set ?as \<union> set ?bs. lr_start r < lr_endExclusive r"
    and sep: "lr_separated ?as" "lr_separated ?bs"
    using assms by (auto simp: LineRangeSet_inv_def)
  have "getUnion_loop ?as ?bs 0 0 None [] = Inr (coalesce_opt None (merge_by_start ?as ?bs))"
    using getUnion_loop_eq [of ?as ?bs None 0 0 "[]"] pos by (simp add: less_imp_le)
  then have res: "LineRangeSet_getUnion a b = Inr ?u" using False by (simp add: LineRangeSet_getUnion_def)
  have "set (merge_by_start ?as ?bs) \<noteq> {}" using False by simp
  then obtain n ns where n: "merge_by_start ?as ?bs = n # ns" by (cases "merge_by_start ?as ?bs") auto
  have "sorted_wrt (\<lambda>a b. lr_start a \<le> lr_start b) (n # ns)"
    unfolding n [symmetric] using sep by (intro sorted_merge_by_start separated_sorted_starts)
  moreover have "\<forall>r \<in> set (n # ns). lr_start r < lr_endExclusive r"
    unfolding n [symmetric] set_merge_by_start by (rule pos)
  moreover have "lines_of (n # ns) = lines a \<union> lines b"
    unfolding n [symmetric] by (simp add: points_def)
  ultimately have "lr_separated (coalesce n ns)" "lines_of (coalesce n ns) = lines a \<union> lines b"
      "\<forall>r \<in> set (coalesce n ns). lr_start r < lr_endExclusive r"
    using coalesce_spec [of n ns] by blast+
  then show ?thesis
    by (intro that [OF res]) (simp_all add: LineRangeSet_inv_def coalesce_opt_def n)
qed

fun intersect_sorted :: "LineRange list \<Rightarrow> LineRange list \<Rightarrow> LineRange list" where
  "intersect_sorted (x # xs) (y # ys) =
     (if max (lr_start x) (lr_start y) < min (lr_endExclusive x) (lr_endExclusive y)
      then [LineRange.fields (max (lr_start x) (lr_start y)) (min (lr_endExclusive x) (lr_endExclusive y))]
      else []) @
     (if lr_endExclusive x < lr_endExclusive y then intersect_sorted xs (y # ys)
      else intersect_sorted (x # xs) ys)"
| "intersect_sorted _ _ = []"

lemma LineRange_intersect_Inr:
  "LineRange_intersect a b =
   Inr (if max (lr_start a) (lr_start b) \<le> min (lr_endExclusive a) (lr_endExclusive b)
        then Some (LineRange.fields (max (lr_start a) (lr_start b)) (min (lr_endExclusive a) (lr_endExclusive b)))
        else None)"
  by (simp add: LineRange_intersect_def Let_def LineRange.defs del: max.bounded_iff min.bounded_iff)

lemma push_nonempty:
  "(case (if s \<le> e then Some (LineRange.fields s e) else None) of None \<Rightarrow> res
     | Some x \<Rightarrow> if \<not> LineRange_isEmpty x then res @ [x] else res) =
   res @ (if s < e then [LineRange.fields s e] else [])"
  by (simp add: LineRange_isEmpty_def LineRange.defs)

lemma getIntersection_loop_eq:
  "getIntersection_loop as bs i1 i2 res = Inr (res @ intersect_sorted (drop i1 as) (drop i2 bs))"
proof (induction as bs i1 i2 res rule: getIntersection_loop.induct)
  case (1 as bs i1 i2 res)
  show ?case
  proof (cases "i1 < length as \<and> i2 < length bs")
    case False
    then have "getIntersection_loop as bs i1 i2 res = Inr res"
      by (subst getIntersection_loop.simps) (simp only: if_False)
    moreover have "drop i1 as = [] \<or> drop i2 bs = []" using False by auto
    ultimately show ?thesis by (cases "drop i1 as") auto
  next
    case True
    let ?x = "as ! i1" and ?y = "bs ! i2"
    define res' where "res' = res @
      (if max (lr_start ?x) (lr_start ?y) < min (lr_endExclusive ?x) (lr_endExclusive ?y)
       then [LineRange.fields (max (lr_start ?x) (lr_start ?y)) (min (lr_endExclusive ?x) (lr_endExclusive ?y))]
       else [])"
    obtain i where i: "LineRange_intersect ?x ?y = Inr i"
      and r: "(case i of None \<Rightarrow> res | Some x \<Rightarrow> if \<not> LineRange_isEmpty x then res @ [x] else res) = res'"
      by (rule that [OF LineRange_intersect_Inr, unfolded push_nonempty res'_def [symmetric], OF refl])
    have loop: "getIntersection_loop as bs i1 i2 res =
        (if lr_endExclusive ?x < lr_endExclusive ?y then getIntersection_loop as bs (i1 + 1) i2 res'
         else getIntersection_loop as bs i1 (i2 + 1) res')"
      by (subst getIntersection_loop.simps) (simp only: True Let_def i r bindE_simps if_True simp_thms)
    have "drop i1 as = ?x # drop (i1 + 1) as" "drop i2 bs = ?y # drop (i2 + 1) bs"
      using True by (simp_all add: Cons_nth_drop_Suc)
    then have rest: "res @ intersect_sorted (drop i1 as) (drop i2 bs) =
        res' @ (if lr_endExclusive ?x < lr_endExclusive ?y
          then intersect_sorted (drop (i1 + 1) as) (drop i2 bs)
          else intersect_sorted (drop i1 as) (drop (i2 + 1) bs))"
      by (simp add: res'_def)
    show ?thesis
      unfolding rest loop using "1.IH" [OF True refl refl i refl, unfolded r] by (cases "lr_endExclusive ?x < lr_endExclusive ?y") simp_all
  qed
qed

lemma intersect_sorted_bounds:
  "r \<in> set (intersect_sorted xs ys) \<Longrightarrow>
   lr_start r < lr_endExclusive r \<and> (\<exists>x \<in> set xs. lr_start x \<le> lr_start r) \<and> (\<exists>y \<in> set ys. lr_start y \<le> lr_start r)"
  by (induction xs ys rule: intersect_sorted.induct) (auto simp: LineRange.defs split: if_splits)

lemma intersect_sorted_spec:
  assumes "lr_separated xs" "lr_separated ys"
  shows "lr_separated (intersect_sorted xs ys) \<and> lines_of (intersect_sorted xs ys) = lines_of xs \<inter> lines_of ys"
  using assms
proof (induction xs ys rule: intersect_sorted.induct)
  case (1 x xs y ys)
  let ?p = "if max (lr_start x) (lr_start y) < min (lr_endExclusive x) (lr_endExclusive y)
      then [LineRange.fields (max (lr_start x) (lr_start y)) (min (lr_endExclusive x) (lr_endExclusive y))]
      else []"
  have p: "lines_of ?p = lr_set x \<inter> lr_set y" "lr_separated ?p"
    "\<forall>r \<in> set ?p. lr_endExclusive r \<le> lr_endExclusive x \<and> lr_endExclusive r \<le> lr_endExclusive y"
    by (auto simp: LineRange.defs)
  have sep: "\<forall>r \<in> set xs. lr_endExclusive x < lr_start r" "\<forall>r \<in> set ys. lr_endExclusive y < lr_start r"
    "lr_separated xs" "lr_separated ys"
    using "1.prems" by simp_all
  show ?case
  proof (cases "lr_endExclusive x < lr_endExclusive y")
    case True
    let ?R = "intersect_sorted xs (y # ys)"
    have IH: "lr_separated ?R" "lines_of ?R = lines_of xs \<inter> lines_of (y # ys)"
      using "1.IH"(1) [OF True sep(3) "1.prems"(2)] by simp_all
    have "\<forall>r \<in> set ?R. lr_endExclusive x < lr_start r"
      using intersect_sorted_bounds [of _ xs "y # ys"] sep(1) by (meson less_le_trans)
    then have "\<forall>a \<in> set ?p. \<forall>r \<in> set ?R. lr_endExclusive a < lr_start r" using p(3) by (meson le_less_trans)
    moreover have "lr_set x \<inter> lines_of ys = {}" using True sep(2) by (force simp: points_def)
    moreover have "intersect_sorted (x # xs) (y # ys) = ?p @ ?R" using True by simp
    ultimately show ?thesis using IH p(1,2) by (simp only: separated_append points_simps) blast
  next
    case False
    let ?R = "intersect_sorted (x # xs) ys"
    have IH: "lr_separated ?R" "lines_of ?R = lines_of (x # xs) \<inter> lines_of ys"
      using "1.IH"(2) [OF False "1.prems"(1) sep(4)] by simp_all
    have "\<forall>r \<in> set ?R. lr_endExclusive y < lr_start r"
      using intersect_sorted_bounds [of _ "x # xs" ys] sep(2) by (meson less_le_trans)
    then have "\<forall>a \<in> set ?p. \<forall>r \<in> set ?R. lr_endExclusive a < lr_start r" using p(3) by (meson le_less_trans)
    moreover have "lr_set y \<inter> lines_of xs = {}" using False sep(1) by (force simp: points_def)
    moreover have "intersect_sorted (x # xs) (y # ys) = ?p @ ?R" using False by simp
    ultimately show ?thesis using IH p(1,2) by (simp only: separated_append points_simps) blast
  qed
qed simp_all

lemma LineRangeSet_getIntersection_spec:
  assumes "LineRangeSet_inv a" "LineRangeSet_inv b"
  obtains u where "LineRangeSet_getIntersection a b = Inr u" "LineRangeSet_inv u" "lines u = lines a \<inter> lines b"
proof -
  let ?rs = "intersect_sorted (lrs_normalizedRanges a) (lrs_normalizedRanges b)"
  have "LineRangeSet_getIntersection a b = Inr \<lparr>lrs_normalizedRanges = ?rs\<rparr>"
    by (simp add: LineRangeSet_getIntersection_def getIntersection_loop_eq)
  moreover have "LineRangeSet_inv \<lparr>lrs_normalizedRanges = ?rs\<rparr>"
    using assms intersect_sorted_spec intersect_sorted_bounds by (auto simp: LineRangeSet_inv_def)
  ultimately show ?thesis using assms intersect_sorted_spec by (auto simp: LineRangeSet_inv_def intro: that)
qed

fun gaps :: "int \<Rightarrow> LineRange list \<Rightarrow> int \<Rightarrow> LineRange list" where
  "gaps st [] e = (if st < e then [LineRange.fields st e] else [])"
| "gaps st (m # ms) e =
     (if lr_start m > st then [LineRange.fields st (lr_start m)] else []) @ gaps (lr_endExclusive m) ms e"

lemma subtractFrom_loop_eq:
  "bindE (foldE subtractFrom_step (st, res) ms)
     (\<lambda>(startLineNumber, result).
        if startLineNumber < e
        then bindE (LineRange_new startLineNumber e) (\<lambda>x. Inr \<lparr>lrs_normalizedRanges = result @ [x]\<rparr>)
        else Inr \<lparr>lrs_normalizedRanges = result\<rparr>) = Inr \<lparr>lrs_normalizedRanges = res @ gaps st ms e\<rparr>"
proof (induction ms arbitrary: st res)
  case (Cons m ms)
  have "subtractFrom_step (st, res) m =
      Inr (lr_endExclusive m, res @ (if lr_start m > st then [LineRange.fields st (lr_start m)] else []))"
    by (simp add: subtractFrom_step_def LineRange.defs)
  then show ?case unfolding foldE.simps bindE_simps gaps.simps append_assoc [symmetric]
    by (simp only: bindE_simps Cons.IH)
qed (simp add: LineRange.defs)

lemma gaps_spec:
  assumes "lr_separated ms" and "\<forall>m \<in> set ms. lr_start m < lr_endExclusive m"
    and "\<forall>m \<in> set ms. st \<le> lr_endExclusive m \<and> lr_start m \<le> e"
  shows "lr_separated (gaps st ms e) \<and> (\<forall>r \<in> set (gaps st ms e). st \<le> lr_start r \<and> lr_start r < lr_endExclusive r) \<and>
    lines_of (gaps st ms e) = {st..<e} - lines_of ms"
  using assms
proof (induction ms arbitrary: st)
  case (Cons m ms)
  define P where "P = (if lr_start m > st then [LineRange.fields st (lr_start m)] else [])"
  let ?R = "gaps (lr_endExclusive m) ms e"
  have after: "\<forall>x \<in> set ms. lr_endExclusive m < lr_start x"
    and m: "lr_start m < lr_endExclusive m" "st \<le> lr_endExclusive m" "lr_start m \<le> e"
    using Cons.prems by simp_all
  have "\<forall>x \<in> set ms. lr_endExclusive m \<le> lr_endExclusive x \<and> lr_start x \<le> e"
    using Cons.prems after by fastforce
  then have IH: "lr_separated ?R" "lines_of ?R = {lr_endExclusive m..<e} - lines_of ms"
    and ge: "\<forall>r \<in> set ?R. lr_endExclusive m \<le> lr_start r \<and> lr_start r < lr_endExclusive r"
    using Cons.IH [of "lr_endExclusive m"] Cons.prems by simp_all
  have P: "lines_of P = {st..<lr_start m}" "lr_separated P"
    "\<forall>r \<in> set P. lr_start r = st \<and> lr_endExclusive r = lr_start m \<and> st < lr_start m"
    by (simp_all add: LineRange.defs P_def)
  have "lines_of ms \<subseteq> {lr_endExclusive m..}" using after by (intro points_ge) auto
  then have "lines_of (P @ ?R) = {st..<e} - lines_of (m # ms)"
    using m unfolding points_simps P(1) IH(2) by auto
  moreover have "lr_separated (P @ ?R)" using P IH(1) ge m by (fastforce simp: separated_append)
  moreover have "\<forall>r \<in> set (P @ ?R). st \<le> lr_start r \<and> lr_start r < lr_endExclusive r"
    using P(3) ge m by fastforce
  moreover have "gaps st (m # ms) e = P @ ?R" by (simp add: P_def)
  ultimately show ?case by (simp only: simp_thms)
qed (simp add: LineRange.defs)

lemma LineRangeSet_subtractFrom_spec:
  assumes inv: "LineRangeSet_inv this" and r: "lr_start r < lr_endExclusive r"
  obtains s where "LineRangeSet_subtractFrom this r = Inr s" "LineRangeSet_inv s"
    "lines s = lr_set r - lines this"
proof -
  let ?rs = "lrs_normalizedRanges this" and ?s = "lr_start r" and ?e = "lr_endExclusive r"
  have sep: "lr_separated ?rs" and ne: "\<forall>r \<in> set ?rs. lr_start r < lr_endExclusive r"
    using inv by (simp_all add: LineRangeSet_inv_def)
  define i where "i = findFirstIdxMonotonousOrArrLen ?rs (\<lambda>r. lr_endExclusive r \<ge> ?s) 0 (length ?rs)"
  define j where "j = nat (findLastIdxMonotonous ?rs (\<lambda>r. lr_start r \<le> ?e) 0 (length ?rs) + 1)"
  obtain A M B where pieces: "?rs = A @ M @ B" "i = length A" "j = length A + length M"
    and cut: "cut_at lr_start lr_endExclusive ?s ?e A M B"
    by (rule search_cut [OF sep less_imp_le [OF r] i_def j_def])
  have eq: "LineRangeSet_subtractFrom this r =
    (if i = j then Inr \<lparr>lrs_normalizedRanges = [r]\<rparr>
     else Inr \<lparr>lrs_normalizedRanges = gaps ?s (map ((!) ?rs) [i..<j]) ?e\<rparr>)"
    using subtractFrom_loop_eq [of ?s "[]" _ ?e]
    by (simp only: LineRangeSet_subtractFrom_def Let_def i_def j_def append_Nil)
  have "map ((!) ?rs) [i..<j] = M"
    using pieces by (intro nth_equalityI) (simp_all add: nth_append)
  moreover have M: "lr_separated M" "\<forall>m \<in> set M. lr_start m < lr_endExclusive m"
    "\<forall>m \<in> set M. ?s \<le> lr_endExclusive m \<and> lr_start m \<le> ?e"
    using sep ne pieces cut by (simp_all add: separated_append cut_at_def)
  moreover have "lines_of A \<inter> lr_set r = {}" "lines_of B \<inter> lr_set r = {}"
    using cut by (force simp: points_def cut_at_def)+
  then have "lr_set r - lines this = lr_set r - lines_of M" using pieces by auto
  ultimately show ?thesis
    using eq gaps_spec [OF M] that [of "\<lparr>lrs_normalizedRanges = [r]\<rparr>"]
      that [of "\<lparr>lrs_normalizedRanges = gaps ?s M ?e\<rparr>"] r pieces
    by (cases "M = []") (auto simp: LineRangeSet_inv_def)
qed

subsection \<open>Properties\<close>

text \<open>
  Adding any sequence of ranges to an empty \<open>LineRangeSet\<close> never throws and keeps the
  array normalized; the set then holds exactly the lines of the added ranges, which is what
  \<open>contains\<close> answers for a line and \<open>intersects\<close> for a range that is not empty.
\<close>

lemma LineRangeSet_addRange_all:
  assumes "\<forall>r \<in> set rs. LineRange_inv r"
  shows "\<exists>s. foldE LineRangeSet_addRange \<lparr>lrs_normalizedRanges = []\<rparr> rs = Inr s \<and>
    LineRangeSet_inv s \<and>
    (\<forall>n. LineRangeSet_contains s n = (\<exists>r \<in> set rs. LineRange_contains r n)) \<and>
    (\<forall>q. \<not> LineRange_isEmpty q \<and> LineRange_inv q \<longrightarrow>
      (LineRangeSet_intersects s q \<longleftrightarrow> (\<exists>n. LineRange_contains q n \<and> LineRangeSet_contains s n)))"
proof -
  have "\<exists>s. foldE LineRangeSet_addRange acc rs = Inr s \<and> LineRangeSet_inv s \<and>
      lines s = lines acc \<union> lines_of rs" if "LineRangeSet_inv acc" for acc
    using assms that
  proof (induction rs arbitrary: acc)
    case (Cons r rs)
    have "LineRange_inv r" using Cons.prems(1) by simp
    with Cons.prems(2) obtain acc1 where add: "LineRangeSet_addRange acc r = Inr acc1"
      "LineRangeSet_inv acc1" "lines acc1 = lines acc \<union> lr_set r"
      by (rule LineRangeSet_addRange_spec)
    with Cons.IH [of acc1] Cons.prems(1) show ?case by auto
  qed simp
  from this [of "\<lparr>lrs_normalizedRanges = []\<rparr>"] obtain s where
    s: "foldE LineRangeSet_addRange \<lparr>lrs_normalizedRanges = []\<rparr> rs = Inr s" "LineRangeSet_inv s"
      "lines s = lines_of rs" by (auto simp: LineRangeSet_inv_def)
  have c: "LineRangeSet_contains s n = (\<exists>r \<in> set rs. LineRange_contains r n)" for n
    unfolding LineRangeSet_contains_iff [OF s(2)] s(3) by (auto simp: points_def LineRange_contains_def)
  have i: "LineRangeSet_intersects s q \<longleftrightarrow> (\<exists>n. LineRange_contains q n \<and> LineRangeSet_contains s n)"
    if "\<not> LineRange_isEmpty q \<and> LineRange_inv q" for q
    using LineRangeSet_intersects_iff [OF s(2), of q] LineRangeSet_contains_iff [OF s(2)] that
    by (auto simp: LineRange_isEmpty_def LineRange_inv_def LineRange_contains_def)
  show ?thesis using s(1,2) c i by blast
qed

lemma LineRangeSet_addRange_all_witness:
  "let rs = [LineRange.fields 5 9, LineRange.fields 1 2, LineRange.fields 2 5]
   in (\<forall>r \<in> set rs. LineRange_inv r) \<and>
      (\<exists>s. foldE LineRangeSet_addRange \<lparr>lrs_normalizedRanges = []\<rparr> rs = Inr s \<and> LineRangeSet_inv s)"
proof -
  let ?rs = "[LineRange.fields 5 9, LineRange.fields 1 2, LineRange.fields 2 5]"
  have "\<forall>r \<in> set ?rs. LineRange_inv r" by (simp add: LineRange_inv_def LineRange.defs)
  from this LineRangeSet_addRange_all [OF this] show ?thesis unfolding Let_def by blast
qed

text \<open>
  C8. On normalized sets \<open>getUnion\<close> and \<open>getIntersection\<close>, and \<open>subtractFrom\<close> a range that
  is not empty, never throw, return normalized sets and are the union, the intersection and the
  difference of the covered lines.
\<close>

theorem LineRangeSet_algebra:
  assumes "LineRangeSet_inv a" and "LineRangeSet_inv b" and "LineRange_inv r" and "\<not> LineRange_isEmpty r"
  shows "\<exists>u i d. LineRangeSet_getUnion a b = Inr u \<and> LineRangeSet_getIntersection a b = Inr i \<and>
    LineRangeSet_subtractFrom a r = Inr d \<and>
    LineRangeSet_inv u \<and> LineRangeSet_inv i \<and> LineRangeSet_inv d \<and>
    (\<forall>n. (LineRangeSet_contains u n \<longleftrightarrow> LineRangeSet_contains a n \<or> LineRangeSet_contains b n) \<and>
         (LineRangeSet_contains i n \<longleftrightarrow> LineRangeSet_contains a n \<and> LineRangeSet_contains b n) \<and>
         (LineRangeSet_contains d n \<longleftrightarrow> LineRange_contains r n \<and> \<not> LineRangeSet_contains a n))"
proof -
  obtain u where u: "LineRangeSet_getUnion a b = Inr u" "LineRangeSet_inv u" "lines u = lines a \<union> lines b"
    using LineRangeSet_getUnion_spec [OF assms(1,2)] by blast
  obtain i where i: "LineRangeSet_getIntersection a b = Inr i" "LineRangeSet_inv i" "lines i = lines a \<inter> lines b"
    using LineRangeSet_getIntersection_spec [OF assms(1,2)] by blast
  have "lr_start r < lr_endExclusive r" using assms(3,4) by (simp add: LineRange_inv_def LineRange_isEmpty_def)
  then obtain d where d: "LineRangeSet_subtractFrom a r = Inr d" "LineRangeSet_inv d" "lines d = lr_set r - lines a"
    using LineRangeSet_subtractFrom_spec [OF assms(1)] by blast
  note contains = LineRangeSet_contains_iff [OF assms(1)] LineRangeSet_contains_iff [OF assms(2)]
    LineRangeSet_contains_iff [OF u(2)] LineRangeSet_contains_iff [OF i(2)] LineRangeSet_contains_iff [OF d(2)]
  show ?thesis
    by (intro exI [of _ u] exI [of _ i] exI [of _ d] conjI allI)
      (simp_all only: u i d contains LineRange_contains_def Un_iff Int_iff Diff_iff atLeastLessThan_iff)
qed

theorem LineRangeSet_algebra_witness:
  "let a = \<lparr>lrs_normalizedRanges = [LineRange.fields 1 4, LineRange.fields 6 9]\<rparr>;
       b = \<lparr>lrs_normalizedRanges = [LineRange.fields 3 6]\<rparr>; r = LineRange.fields 2 8
   in LineRangeSet_inv a \<and> LineRangeSet_inv b \<and> LineRange_inv r \<and>
      (\<exists>u i d. LineRangeSet_getUnion a b = Inr u \<and> LineRangeSet_getIntersection a b = Inr i \<and>
        LineRangeSet_subtractFrom a r = Inr d \<and>
        (\<forall>n. LineRangeSet_contains u n \<longleftrightarrow> LineRangeSet_contains a n \<or> LineRangeSet_contains b n))"
proof -
  let ?a = "\<lparr>lrs_normalizedRanges = [LineRange.fields 1 4, LineRange.fields 6 9]\<rparr>"
    and ?b = "\<lparr>lrs_normalizedRanges = [LineRange.fields 3 6]\<rparr>" and ?r = "LineRange.fields 2 8"
  have "LineRangeSet_inv ?a" "LineRangeSet_inv ?b" "LineRange_inv ?r" "\<not> LineRange_isEmpty ?r"
    by (simp_all add: LineRangeSet_inv_def LineRange_inv_def LineRange_isEmpty_def LineRange.defs)
  from this LineRangeSet_algebra [OF this] show ?thesis unfolding Let_def by blast
qed

end
