(* ===== verification/Position_Range.thy ===== *)
theory Position_Range
  imports Line_Range
begin

text \<open>
  \<open>src/vs/editor/common/core/\<close>: \<open>position.ts\<close>, \<open>range.ts\<close> and \<open>selection.ts\<close>. A
  \<open>Range\<close> is the closed interval of positions between its ends, which its constructor puts in
  order; a \<open>Selection\<close> is a record that extends the \<open>Range\<close> it inherits from. Most
  methods forward to a static method of the same name, which is the definition here. Positions are an
  instance of the class \<open>linorder\<close> (line first, then column), so the lemmas can speak of
  \<open>\<le>\<close>, \<open>min\<close> and \<open>max\<close> where the source compares coordinates.
\<close>

subsection \<open>Position\<close>

record Position =
  p_line :: int
  p_col :: int

definition Position_with :: "Position \<Rightarrow> int option \<Rightarrow> int option \<Rightarrow> Position" where
  "Position_with this newLineNumber newColumn =
     (let l = (case newLineNumber of None \<Rightarrow> p_line this | Some l \<Rightarrow> l);
          c = (case newColumn of None \<Rightarrow> p_col this | Some c \<Rightarrow> c)
      in if l = p_line this \<and> c = p_col this then this else \<lparr>p_line = l, p_col = c\<rparr>)"

definition Position_delta :: "Position \<Rightarrow> int \<Rightarrow> int \<Rightarrow> Position" where
  "Position_delta this deltaLineNumber deltaColumn =
     Position_with this (Some (max 1 (p_line this + deltaLineNumber))) (Some (max 1 (p_col this + deltaColumn)))"

definition Position_equals :: "Position option \<Rightarrow> Position option \<Rightarrow> bool" where
  "Position_equals a b = (case (a, b) of
      (None, None) \<Rightarrow> True
    | (Some p, Some q) \<Rightarrow> p_line p = p_line q \<and> p_col p = p_col q
    | _ \<Rightarrow> False)"

definition Position_isBefore :: "Position \<Rightarrow> Position \<Rightarrow> bool" where
  "Position_isBefore a b =
     (if p_line a < p_line b then True else if p_line b < p_line a then False else p_col a < p_col b)"

definition Position_isBeforeOrEqual :: "Position \<Rightarrow> Position \<Rightarrow> bool" where
  "Position_isBeforeOrEqual a b =
     (if p_line a < p_line b then True else if p_line b < p_line a then False else p_col a \<le> p_col b)"

definition Position_compare :: "Position \<Rightarrow> Position \<Rightarrow> int" where
  "Position_compare a b =
     (let aLineNumber = js_or0 (p_line a); bLineNumber = js_or0 (p_line b)
      in if aLineNumber = bLineNumber then
           let aColumn = js_or0 (p_col a); bColumn = js_or0 (p_col b) in aColumn - bColumn
         else aLineNumber - bLineNumber)"

definition Position_clone :: "Position \<Rightarrow> Position" where
  "Position_clone this = \<lparr>p_line = p_line this, p_col = p_col this\<rparr>"

definition Position_lift :: "Position \<Rightarrow> Position" where
  "Position_lift pos = \<lparr>p_line = p_line pos, p_col = p_col pos\<rparr>"

text \<open>The order of positions, as an instance of the library's class.\<close>

instantiation Position_ext :: (linorder) linorder
begin

definition less_eq_Position_ext :: "'a Position_ext \<Rightarrow> 'a Position_ext \<Rightarrow> bool" where
  "less_eq_Position_ext p q \<longleftrightarrow> p_line p < p_line q \<or> (p_line p = p_line q \<and>
     (p_col p < p_col q \<or> (p_col p = p_col q \<and> Position.more p \<le> Position.more q)))"

definition less_Position_ext :: "'a Position_ext \<Rightarrow> 'a Position_ext \<Rightarrow> bool" where
  "less_Position_ext p q \<longleftrightarrow> p \<le> q \<and> \<not> q \<le> p"

instance
  by standard (auto simp: less_eq_Position_ext_def less_Position_ext_def)

end

lemma Position_le_iff:
  "p \<le> q \<longleftrightarrow> p_line p < p_line q \<or> (p_line p = p_line q \<and> p_col p \<le> p_col q)" for p q :: Position
  by (auto simp: less_eq_Position_ext_def)

lemma Position_eq_iff: "p = q \<longleftrightarrow> p_line p = p_line q \<and> p_col p = p_col q" for p q :: Position
  by auto

lemma Position_less_iff:
  "p < q \<longleftrightarrow> p_line p < p_line q \<or> (p_line p = p_line q \<and> p_col p < p_col q)" for p q :: Position
  by (auto simp: less_Position_ext_def Position_le_iff)

lemma Position_le_fields [simp]:
  "\<lparr>p_line = l, p_col = c\<rparr> \<le> \<lparr>p_line = l', p_col = c'\<rparr> \<longleftrightarrow> l < l' \<or> (l = l' \<and> c \<le> c')"
  by (simp add: Position_le_iff)

lemma Position_surj [simp]: "\<lparr>p_line = p_line p, p_col = p_col p\<rparr> = p"
  by (cases p) simp

lemma Position_isBefore_iff: "Position_isBefore p q \<longleftrightarrow> p < q"
  by (auto simp: Position_isBefore_def Position_less_iff)

lemma Position_isBeforeOrEqual_iff: "Position_isBeforeOrEqual p q \<longleftrightarrow> p \<le> q"
  by (auto simp: Position_isBeforeOrEqual_def Position_le_iff)

interpretation positionCmp: comparator Position_compare
  by unfold_locales (auto simp: Position_compare_def Let_def split: if_splits)

definition Position_is32 :: "Position \<Rightarrow> bool" where
  "Position_is32 p \<longleftrightarrow> - (2 ^ 31) \<le> p_line p \<and> p_line p < 2 ^ 31 \<and> - (2 ^ 31) \<le> p_col p \<and> p_col p < 2 ^ 31"

lemma Position_compare_less:
  "Position_is32 a \<Longrightarrow> Position_is32 b \<Longrightarrow> Position_compare a b < 0 \<longleftrightarrow> a < b"
  by (auto simp: Position_compare_def Let_def js_or0_id Position_is32_def Position_less_iff)

subsection \<open>Range\<close>

record Range =
  r_startLine :: int
  r_startCol :: int
  r_endLine :: int
  r_endCol :: int

definition Range_new :: "int \<Rightarrow> int \<Rightarrow> int \<Rightarrow> int \<Rightarrow> Range" where
  "Range_new startLineNumber startColumn endLineNumber endColumn =
     (if startLineNumber > endLineNumber \<or> (startLineNumber = endLineNumber \<and> startColumn > endColumn)
      then \<lparr>r_startLine = endLineNumber, r_startCol = endColumn,
            r_endLine = startLineNumber, r_endCol = startColumn\<rparr>
      else \<lparr>r_startLine = startLineNumber, r_startCol = startColumn,
            r_endLine = endLineNumber, r_endCol = endColumn\<rparr>)"

definition Range_isEmpty :: "'a Range_scheme \<Rightarrow> bool" where
  "Range_isEmpty r \<longleftrightarrow> r_startLine r = r_endLine r \<and> r_startCol r = r_endCol r"

definition Range_containsPosition :: "'a Range_scheme \<Rightarrow> Position \<Rightarrow> bool" where
  "Range_containsPosition r position =
     (if p_line position < r_startLine r \<or> p_line position > r_endLine r then False
      else if p_line position = r_startLine r \<and> p_col position < r_startCol r then False
      else if p_line position = r_endLine r \<and> p_col position > r_endCol r then False
      else True)"

definition Range_strictContainsPosition :: "'a Range_scheme \<Rightarrow> Position \<Rightarrow> bool" where
  "Range_strictContainsPosition r position =
     (if p_line position < r_startLine r \<or> p_line position > r_endLine r then False
      else if p_line position = r_startLine r \<and> p_col position \<le> r_startCol r then False
      else if p_line position = r_endLine r \<and> p_col position \<ge> r_endCol r then False
      else True)"

definition Range_containsRange :: "'a Range_scheme \<Rightarrow> 'b Range_scheme \<Rightarrow> bool" where
  "Range_containsRange r other =
     (if r_startLine other < r_startLine r \<or> r_endLine other < r_startLine r then False
      else if r_startLine other > r_endLine r \<or> r_endLine other > r_endLine r then False
      else if r_startLine other = r_startLine r \<and> r_startCol other < r_startCol r then False
      else if r_endLine other = r_endLine r \<and> r_endCol other > r_endCol r then False
      else True)"

definition Range_strictContainsRange :: "'a Range_scheme \<Rightarrow> 'b Range_scheme \<Rightarrow> bool" where
  "Range_strictContainsRange r other =
     (if r_startLine other < r_startLine r \<or> r_endLine other < r_startLine r then False
      else if r_startLine other > r_endLine r \<or> r_endLine other > r_endLine r then False
      else if r_startLine other = r_startLine r \<and> r_startCol other \<le> r_startCol r then False
      else if r_endLine other = r_endLine r \<and> r_endCol other \<ge> r_endCol r then False
      else True)"

definition Range_plusRange :: "'a Range_scheme \<Rightarrow> 'b Range_scheme \<Rightarrow> Range" where
  "Range_plusRange a b =
     (let (startLineNumber, startColumn) =
            (if r_startLine b < r_startLine a then (r_startLine b, r_startCol b)
             else if r_startLine b = r_startLine a then (r_startLine b, min (r_startCol b) (r_startCol a))
             else (r_startLine a, r_startCol a));
          (endLineNumber, endColumn) =
            (if r_endLine b > r_endLine a then (r_endLine b, r_endCol b)
             else if r_endLine b = r_endLine a then (r_endLine b, max (r_endCol b) (r_endCol a))
             else (r_endLine a, r_endCol a))
      in Range_new startLineNumber startColumn endLineNumber endColumn)"

definition Range_intersectRanges :: "'a Range_scheme \<Rightarrow> 'b Range_scheme \<Rightarrow> Range option" where
  "Range_intersectRanges a b =
     (let (resultStartLineNumber, resultStartColumn) =
            (if r_startLine a < r_startLine b then (r_startLine b, r_startCol b)
             else if r_startLine a = r_startLine b then (r_startLine a, max (r_startCol a) (r_startCol b))
             else (r_startLine a, r_startCol a));
          (resultEndLineNumber, resultEndColumn) =
            (if r_endLine a > r_endLine b then (r_endLine b, r_endCol b)
             else if r_endLine a = r_endLine b then (r_endLine a, min (r_endCol a) (r_endCol b))
             else (r_endLine a, r_endCol a))
      in if resultStartLineNumber > resultEndLineNumber then None
         else if resultStartLineNumber = resultEndLineNumber \<and> resultStartColumn > resultEndColumn then None
         else Some (Range_new resultStartLineNumber resultStartColumn resultEndLineNumber resultEndColumn))"

definition Range_equalsRange :: "'a Range_scheme option \<Rightarrow> 'b Range_scheme option \<Rightarrow> bool" where
  "Range_equalsRange a b = (case (a, b) of
      (None, None) \<Rightarrow> True
    | (Some x, Some y) \<Rightarrow> r_startLine x = r_startLine y \<and> r_startCol x = r_startCol y \<and>
        r_endLine x = r_endLine y \<and> r_endCol x = r_endCol y
    | _ \<Rightarrow> False)"

definition Range_getEndPosition :: "'a Range_scheme \<Rightarrow> Position" where
  "Range_getEndPosition r = \<lparr>p_line = r_endLine r, p_col = r_endCol r\<rparr>"

definition Range_getStartPosition :: "'a Range_scheme \<Rightarrow> Position" where
  "Range_getStartPosition r = \<lparr>p_line = r_startLine r, p_col = r_startCol r\<rparr>"

definition Range_setEndPosition :: "'a Range_scheme \<Rightarrow> int \<Rightarrow> int \<Rightarrow> Range" where
  "Range_setEndPosition this endLineNumber endColumn =
     Range_new (r_startLine this) (r_startCol this) endLineNumber endColumn"

definition Range_setStartPosition :: "'a Range_scheme \<Rightarrow> int \<Rightarrow> int \<Rightarrow> Range" where
  "Range_setStartPosition this startLineNumber startColumn =
     Range_new startLineNumber startColumn (r_endLine this) (r_endCol this)"

definition Range_collapseToStart :: "'a Range_scheme \<Rightarrow> Range" where
  "Range_collapseToStart r = Range_new (r_startLine r) (r_startCol r) (r_startLine r) (r_startCol r)"

definition Range_collapseToEnd :: "'a Range_scheme \<Rightarrow> Range" where
  "Range_collapseToEnd r = Range_new (r_endLine r) (r_endCol r) (r_endLine r) (r_endCol r)"

definition Range_delta :: "'a Range_scheme \<Rightarrow> int \<Rightarrow> Range" where
  "Range_delta this lineCount =
     Range_new (r_startLine this + lineCount) (r_startCol this) (r_endLine this + lineCount) (r_endCol this)"

definition Range_isSingleLine :: "'a Range_scheme \<Rightarrow> bool" where
  "Range_isSingleLine this \<longleftrightarrow> r_startLine this = r_endLine this"

definition Range_fromPositions :: "Position \<Rightarrow> Position option \<Rightarrow> Range" where
  "Range_fromPositions s eo = (let e = (case eo of None \<Rightarrow> s | Some e \<Rightarrow> e)
     in Range_new (p_line s) (p_col s) (p_line e) (p_col e))"

definition Range_lift :: "'a Range_scheme option \<Rightarrow> Range option" where
  "Range_lift ro = (case ro of None \<Rightarrow> None
     | Some r \<Rightarrow> Some (Range_new (r_startLine r) (r_startCol r) (r_endLine r) (r_endCol r)))"

definition Range_areIntersectingOrTouching :: "'a Range_scheme \<Rightarrow> 'b Range_scheme \<Rightarrow> bool" where
  "Range_areIntersectingOrTouching a b =
     (if r_endLine a < r_startLine b \<or> (r_endLine a = r_startLine b \<and> r_endCol a < r_startCol b) then False
      else if r_endLine b < r_startLine a \<or> (r_endLine b = r_startLine a \<and> r_endCol b < r_startCol a) then False
      else True)"

definition Range_areIntersecting :: "'a Range_scheme \<Rightarrow> 'b Range_scheme \<Rightarrow> bool" where
  "Range_areIntersecting a b =
     (if r_endLine a < r_startLine b \<or> (r_endLine a = r_startLine b \<and> r_endCol a \<le> r_startCol b) then False
      else if r_endLine b < r_startLine a \<or> (r_endLine b = r_startLine a \<and> r_endCol b \<le> r_startCol a) then False
      else True)"

definition Range_areOnlyIntersecting :: "'a Range_scheme \<Rightarrow> 'b Range_scheme \<Rightarrow> bool" where
  "Range_areOnlyIntersecting a b =
     (if r_endLine a < r_startLine b - 1 \<or> (r_endLine a = r_startLine b \<and> r_endCol a < r_startCol b - 1) then False
      else if r_endLine b < r_startLine a - 1 \<or> (r_endLine b = r_startLine a \<and> r_endCol b < r_startCol a - 1) then False
      else True)"

definition Range_compareRangesUsingStarts :: "'a Range_scheme option \<Rightarrow> 'b Range_scheme option \<Rightarrow> int" where
  "Range_compareRangesUsingStarts ao bo = (case (ao, bo) of
      (Some a, Some b) \<Rightarrow>
        (let aStartLineNumber = js_or0 (r_startLine a); bStartLineNumber = js_or0 (r_startLine b)
         in if aStartLineNumber = bStartLineNumber then
              let aStartColumn = js_or0 (r_startCol a); bStartColumn = js_or0 (r_startCol b)
              in if aStartColumn = bStartColumn then
                   let aEndLineNumber = js_or0 (r_endLine a); bEndLineNumber = js_or0 (r_endLine b)
                   in if aEndLineNumber = bEndLineNumber then
                        let aEndColumn = js_or0 (r_endCol a); bEndColumn = js_or0 (r_endCol b)
                        in aEndColumn - bEndColumn
                      else aEndLineNumber - bEndLineNumber
                 else aStartColumn - bStartColumn
            else aStartLineNumber - bStartLineNumber)
    | _ \<Rightarrow> (case ao of None \<Rightarrow> 0 | Some _ \<Rightarrow> 1) - (case bo of None \<Rightarrow> 0 | Some _ \<Rightarrow> 1))"

definition Range_compareRangesUsingEnds :: "'a Range_scheme \<Rightarrow> 'b Range_scheme \<Rightarrow> int" where
  "Range_compareRangesUsingEnds a b =
     (if r_endLine a = r_endLine b then
        if r_endCol a = r_endCol b then
          if r_startLine a = r_startLine b then r_startCol a - r_startCol b
          else r_startLine a - r_startLine b
        else r_endCol a - r_endCol b
      else r_endLine a - r_endLine b)"

definition Range_spansMultipleLines :: "'a Range_scheme \<Rightarrow> bool" where
  "Range_spansMultipleLines r \<longleftrightarrow> r_endLine r > r_startLine r"

text \<open>The methods of \<open>LineRange\<close> that go between the two kinds of ranges.\<close>

definition LineRange_fromRange :: "'a Range_scheme \<Rightarrow> js_error + LineRange" where
  "LineRange_fromRange r = LineRange_new (r_startLine r) (r_endLine r)"

definition LineRange_fromRangeInclusive :: "'a Range_scheme \<Rightarrow> js_error + LineRange" where
  "LineRange_fromRangeInclusive r = LineRange_new (r_startLine r) (r_endLine r + 1)"

definition LineRange_toInclusiveRange :: "LineRange \<Rightarrow> Range option" where
  "LineRange_toInclusiveRange this =
     (if LineRange_isEmpty this then None
      else Some (Range_new (lr_start this) 1 (lr_endExclusive this - 1) (2 ^ 53 - 1)))"

definition LineRange_toExclusiveRange :: "LineRange \<Rightarrow> Range" where
  "LineRange_toExclusiveRange this = Range_new (lr_start this) 1 (lr_endExclusive this) 1"

subsection \<open>Ranges as sets of positions\<close>

definition Range_inv :: "'a Range_scheme \<Rightarrow> bool" where
  "Range_inv r \<longleftrightarrow> Range_getStartPosition r \<le> Range_getEndPosition r"

lemmas range_ends = Range_getStartPosition_def Range_getEndPosition_def

lemma Range_new_ends:
  "Range_getStartPosition (Range_new a b c d) = min \<lparr>p_line = a, p_col = b\<rparr> \<lparr>p_line = c, p_col = d\<rparr>"
  "Range_getEndPosition (Range_new a b c d) = max \<lparr>p_line = a, p_col = b\<rparr> \<lparr>p_line = c, p_col = d\<rparr>"
  by (auto simp: Range_new_def range_ends min_def max_def)

lemma Range_new_inv [simp]: "Range_inv (Range_new a b c d)"
  by (simp add: Range_inv_def Range_new_ends min.coboundedI1)

lemma Range_new_id: "Range_inv r \<Longrightarrow> Range_new (r_startLine r) (r_startCol r) (r_endLine r) (r_endCol r) = r"
  for r :: Range
  by (auto simp: Range_new_def Range_inv_def range_ends)

lemma Range_eqI:
  "Range_getStartPosition r = Range_getStartPosition q \<Longrightarrow> Range_getEndPosition r = Range_getEndPosition q \<Longrightarrow> r = q"
  for r q :: Range
  by (simp add: range_ends)

lemma Range_containsPosition_iff:
  "Range_containsPosition r p \<longleftrightarrow> Range_getStartPosition r \<le> p \<and> p \<le> Range_getEndPosition r"
  by (auto simp: Range_containsPosition_def range_ends Position_le_iff)

lemma Range_strictContainsPosition_iff:
  "Range_strictContainsPosition r p \<longleftrightarrow> Range_getStartPosition r < p \<and> p < Range_getEndPosition r"
  by (auto simp: Range_strictContainsPosition_def range_ends Position_less_iff)

lemma Range_containsRange_iff:
  "Range_inv r \<Longrightarrow> Range_inv q \<Longrightarrow> Range_containsRange r q \<longleftrightarrow>
   Range_getStartPosition r \<le> Range_getStartPosition q \<and> Range_getEndPosition q \<le> Range_getEndPosition r"
  by (auto simp: Range_containsRange_def range_ends Position_le_iff Range_inv_def)

text \<open>The branches on line numbers select the smaller or the larger end.\<close>

lemma select_end:
  "(if r_startLine b < r_startLine a then (r_startLine b, r_startCol b)
    else if r_startLine b = r_startLine a then (r_startLine b, min (r_startCol b) (r_startCol a))
    else (r_startLine a, r_startCol a)) =
   (let S = min (Range_getStartPosition a) (Range_getStartPosition b) in (p_line S, p_col S))"
  "(if r_endLine b > r_endLine a then (r_endLine b, r_endCol b)
    else if r_endLine b = r_endLine a then (r_endLine b, max (r_endCol b) (r_endCol a))
    else (r_endLine a, r_endCol a)) =
   (let E = max (Range_getEndPosition a) (Range_getEndPosition b) in (p_line E, p_col E))"
  "(if r_startLine a < r_startLine b then (r_startLine b, r_startCol b)
    else if r_startLine a = r_startLine b then (r_startLine a, max (r_startCol a) (r_startCol b))
    else (r_startLine a, r_startCol a)) =
   (let S = max (Range_getStartPosition a) (Range_getStartPosition b) in (p_line S, p_col S))"
  "(if r_endLine a > r_endLine b then (r_endLine b, r_endCol b)
    else if r_endLine a = r_endLine b then (r_endLine a, min (r_endCol a) (r_endCol b))
    else (r_endLine a, r_endCol a)) =
   (let E = min (Range_getEndPosition a) (Range_getEndPosition b) in (p_line E, p_col E))"
  by (auto simp: range_ends Position_le_iff min_def max_def)

lemma Range_plusRange_eq:
  "Range_plusRange a b =
   (let S = min (Range_getStartPosition a) (Range_getStartPosition b);
        E = max (Range_getEndPosition a) (Range_getEndPosition b)
    in Range_new (p_line S) (p_col S) (p_line E) (p_col E))"
  unfolding Range_plusRange_def select_end Let_def prod.case ..

lemma Range_plusRange_ends:
  assumes "Range_inv a" "Range_inv b"
  shows "Range_getStartPosition (Range_plusRange a b) = min (Range_getStartPosition a) (Range_getStartPosition b)"
    and "Range_getEndPosition (Range_plusRange a b) = max (Range_getEndPosition a) (Range_getEndPosition b)"
proof -
  have "min (Range_getStartPosition a) (Range_getStartPosition b) \<le>
      max (Range_getEndPosition a) (Range_getEndPosition b)"
    using assms by (auto simp: Range_inv_def min_le_iff_disj le_max_iff_disj)
  then show "Range_getStartPosition (Range_plusRange a b) = min (Range_getStartPosition a) (Range_getStartPosition b)"
    and "Range_getEndPosition (Range_plusRange a b) = max (Range_getEndPosition a) (Range_getEndPosition b)"
    unfolding Range_plusRange_eq Let_def Range_new_ends Position_surj
    by (simp_all only: min_absorb1 max_absorb2)
qed

lemma null_if_empty:
  "(if p_line S > p_line E then None
    else if p_line S = p_line E \<and> p_col S > p_col E then None else x) = (if S \<le> E then x else None)"
  for S E :: Position
  by (auto simp: Position_le_iff)

lemma Range_intersectRanges_eq:
  "Range_intersectRanges a b =
   (let S = max (Range_getStartPosition a) (Range_getStartPosition b);
        E = min (Range_getEndPosition a) (Range_getEndPosition b)
    in if S \<le> E then Some (Range_new (p_line S) (p_col S) (p_line E) (p_col E)) else None)"
  unfolding Range_intersectRanges_def select_end Let_def prod.case null_if_empty ..

lemma Range_areIntersectingOrTouching_iff:
  "Range_areIntersectingOrTouching a b \<longleftrightarrow>
   Range_getStartPosition b \<le> Range_getEndPosition a \<and> Range_getStartPosition a \<le> Range_getEndPosition b"
  by (auto simp: Range_areIntersectingOrTouching_def range_ends Position_le_iff)

lemma Range_areIntersecting_iff:
  "Range_areIntersecting a b \<longleftrightarrow>
   Range_getStartPosition b < Range_getEndPosition a \<and> Range_getStartPosition a < Range_getEndPosition b"
  by (auto simp: Range_areIntersecting_def range_ends Position_less_iff)

text \<open>
  On ranges with ordered ends \<open>containsRange\<close> is inclusion of the contained positions,
  \<open>plusRange\<close> is the least range that contains both, and \<open>intersectRanges\<close> is
  \<open>null\<close> exactly when no position is in both (which \<open>areIntersectingOrTouching\<close> tells) and
  otherwise contains exactly the common positions.
\<close>

theorem Range_lattice:
  assumes "Range_inv (a :: Range)" and "Range_inv (b :: Range)"
  shows "(Range_containsRange a b \<longleftrightarrow>
      (\<forall>p. Range_containsPosition b p \<longrightarrow> Range_containsPosition a p)) \<and>
    (\<forall>r :: Range. Range_inv r \<longrightarrow> (Range_containsRange r (Range_plusRange a b) \<longleftrightarrow>
      Range_containsRange r a \<and> Range_containsRange r b)) \<and>
    (case Range_intersectRanges a b of
       None \<Rightarrow> \<not> Range_areIntersectingOrTouching a b \<and>
         (\<nexists>p. Range_containsPosition a p \<and> Range_containsPosition b p)
     | Some r \<Rightarrow> Range_areIntersectingOrTouching a b \<and> Range_inv r \<and>
         (\<forall>p. Range_containsPosition r p \<longleftrightarrow> Range_containsPosition a p \<and> Range_containsPosition b p))"
proof (intro conjI allI impI)
  have ends: "Range_getStartPosition b \<le> Range_getEndPosition b" using assms(2) by (simp add: Range_inv_def)
  show "Range_containsRange a b \<longleftrightarrow> (\<forall>p. Range_containsPosition b p \<longrightarrow> Range_containsPosition a p)"
    unfolding Range_containsRange_iff [OF assms] Range_containsPosition_iff
    using ends by (meson order.refl order.trans)
next
  fix r :: Range
  assume r: "Range_inv r"
  have plus: "Range_inv (Range_plusRange a b)" by (simp add: Range_plusRange_def split: prod.splits)
  show "Range_containsRange r (Range_plusRange a b) \<longleftrightarrow> Range_containsRange r a \<and> Range_containsRange r b"
    unfolding Range_containsRange_iff [OF r plus] Range_containsRange_iff [OF r assms(1)]
      Range_containsRange_iff [OF r assms(2)] Range_plusRange_ends [OF assms] by auto
next
  let ?S = "max (Range_getStartPosition a) (Range_getStartPosition b)"
    and ?E = "min (Range_getEndPosition a) (Range_getEndPosition b)"
  have both: "Range_containsPosition a p \<and> Range_containsPosition b p \<longleftrightarrow> ?S \<le> p \<and> p \<le> ?E" for p
    by (auto simp: Range_containsPosition_iff)
  have touch: "Range_areIntersectingOrTouching a b \<longleftrightarrow> ?S \<le> ?E"
    using assms by (auto simp: Range_areIntersectingOrTouching_iff Range_inv_def)
  show "case Range_intersectRanges a b of
       None \<Rightarrow> \<not> Range_areIntersectingOrTouching a b \<and>
         (\<nexists>p. Range_containsPosition a p \<and> Range_containsPosition b p)
     | Some r \<Rightarrow> Range_areIntersectingOrTouching a b \<and> Range_inv r \<and>
         (\<forall>p. Range_containsPosition r p \<longleftrightarrow> Range_containsPosition a p \<and> Range_containsPosition b p)"
  proof (cases "?S \<le> ?E")
    case True
    then have "Range_containsPosition (Range_new (p_line ?S) (p_col ?S) (p_line ?E) (p_col ?E)) p \<longleftrightarrow>
        ?S \<le> p \<and> p \<le> ?E" for p
      by (simp add: Range_containsPosition_iff Range_new_ends min_absorb1 max_absorb2
          del: max.bounded_iff min.bounded_iff)
    moreover have "Range_intersectRanges a b = Some (Range_new (p_line ?S) (p_col ?S) (p_line ?E) (p_col ?E))"
      unfolding Range_intersectRanges_eq Let_def using True by (simp only: if_True)
    ultimately show ?thesis unfolding both touch using True by (simp only: option.case Range_new_inv simp_thms)
  next
    case False
    then have "Range_intersectRanges a b = None"
      unfolding Range_intersectRanges_eq Let_def by (simp only: if_False)
    moreover have "\<nexists>p. ?S \<le> p \<and> p \<le> ?E" using False order.trans by blast
    ultimately show ?thesis unfolding both touch using False by (simp only: option.case simp_thms)
  qed
qed

theorem Range_lattice_witness:
  "let a = Range.fields 1 5 3 2; b = Range.fields 2 1 4 4
   in Range_inv a \<and> Range_inv b \<and> Range_intersectRanges a b = Some (Range.fields 2 1 3 2) \<and>
      (\<forall>p. Range_containsPosition (Range.fields 2 1 3 2) p \<longleftrightarrow> Range_containsPosition a p \<and> Range_containsPosition b p)"
proof -
  let ?a = "Range.fields 1 5 3 2" and ?b = "Range.fields 2 1 4 4"
  have "Range_inv ?a" "Range_inv ?b" by (simp_all add: Range_inv_def range_ends Range.defs)
  moreover have "Range_intersectRanges ?a ?b = Some (Range.fields 2 1 3 2)"
    by (simp add: Range_intersectRanges_def Range_new_def Range.defs)
  ultimately show ?thesis using Range_lattice [of ?a ?b] unfolding Let_def by auto
qed

text \<open>
  \<open>Position.compare\<close>, which narrows its numbers to 32 bits, orders positions whose
  coordinates fit as \<open>isBefore\<close>, \<open>isBeforeOrEqual\<close> and \<open>equals\<close> do, and
  \<open>compareRangesUsingStarts\<close> orders ranges by their start and then by their end.
\<close>

theorem Position_compare_correct:
  assumes "Position_is32 a" "Position_is32 b" "Position_is32 c" "Position_is32 d"
  shows "(Position_compare a b < 0 \<longleftrightarrow> Position_isBefore a b) \<and>
    (Position_compare a b \<le> 0 \<longleftrightarrow> Position_isBeforeOrEqual a b) \<and>
    (Position_compare a b = 0 \<longleftrightarrow> Position_equals (Some a) (Some b)) \<and>
    (a \<le> c \<and> b \<le> d \<longrightarrow>
      (Range_compareRangesUsingStarts (Some (Range_fromPositions a (Some c))) (Some (Range_fromPositions b (Some d))) < 0
       \<longleftrightarrow> a < b \<or> (a = b \<and> c < d)))"
proof (intro conjI impI)
  have "Position_compare a b = 0 \<longleftrightarrow> \<not> a < b \<and> \<not> b < a"
    using Position_compare_less [OF assms(1,2)] Position_compare_less [OF assms(2,1)]
      positionCmp.swap [of a b] by linarith
  moreover have "\<not> a < b \<and> \<not> b < a \<longleftrightarrow> a = b" by (metis less_linear less_irrefl)
  moreover have "Position_equals (Some a) (Some b) \<longleftrightarrow> a = b"
    by (simp only: Position_equals_def prod.case option.case Position_eq_iff)
  ultimately show "Position_compare a b = 0 \<longleftrightarrow> Position_equals (Some a) (Some b)" by simp
  show "Position_compare a b < 0 \<longleftrightarrow> Position_isBefore a b"
    using Position_compare_less [OF assms(1,2)] by (simp add: Position_isBefore_iff)
  show "Position_compare a b \<le> 0 \<longleftrightarrow> Position_isBeforeOrEqual a b"
    using Position_compare_less [OF assms(2,1)] positionCmp.swap [of a b]
    by (simp add: Position_isBeforeOrEqual_iff linorder_not_less [symmetric])
next
  assume le: "a \<le> c \<and> b \<le> d"
  have ends: "Range_fromPositions a (Some c) = Range.fields (p_line a) (p_col a) (p_line c) (p_col c)"
    "Range_fromPositions b (Some d) = Range.fields (p_line b) (p_col b) (p_line d) (p_col d)"
    using le by (auto simp: Range_fromPositions_def Range_new_def Position_le_iff Range.defs)
  have or0: "js_or0 (p_line x) = p_line x" "js_or0 (p_col x) = p_col x" if "Position_is32 x" for x
    using that by (simp_all add: js_or0_id Position_is32_def)
  have eq: "Range_compareRangesUsingStarts (Some (Range_fromPositions a (Some c)))
       (Some (Range_fromPositions b (Some d))) =
     (if p_line a = p_line b then if p_col a = p_col b then
        if p_line c = p_line d then p_col c - p_col d else p_line c - p_line d
      else p_col a - p_col b else p_line a - p_line b)"
    unfolding ends by (simp only: Range_compareRangesUsingStarts_def Let_def prod.case option.case
        Range.defs Range.select_convs or0 assms)
  show "Range_compareRangesUsingStarts (Some (Range_fromPositions a (Some c)))
       (Some (Range_fromPositions b (Some d))) < 0 \<longleftrightarrow> a < b \<or> (a = b \<and> c < d)"
    unfolding eq Position_less_iff Position_eq_iff by auto
qed

theorem Position_compare_correct_witness:
  "let a = Position.fields 3 7; b = Position.fields 3 9
   in Position_is32 a \<and> Position_is32 b \<and> Position_compare a b < 0 \<and> Position_isBefore a b"
proof -
  let ?a = "Position.fields 3 7" and ?b = "Position.fields 3 9"
  have is32: "Position_is32 ?a" "Position_is32 ?b" by (simp_all add: Position_is32_def Position.defs)
  moreover have "Position_isBefore ?a ?b" by (simp add: Position_isBefore_def Position.defs)
  ultimately show ?thesis
    using Position_compare_correct [OF is32 is32] unfolding Let_def by blast
qed

subsection \<open>Selection\<close>

datatype SelectionDirection = LTR | RTL

record Selection = Range +
  sel_startLine :: int
  sel_startCol :: int
  sel_positionLine :: int
  sel_positionCol :: int

definition Selection_new :: "int \<Rightarrow> int \<Rightarrow> int \<Rightarrow> int \<Rightarrow> Selection" where
  "Selection_new selectionStartLineNumber selectionStartColumn positionLineNumber positionColumn =
     Range.extend (Range_new selectionStartLineNumber selectionStartColumn positionLineNumber positionColumn)
       (Selection.fields selectionStartLineNumber selectionStartColumn positionLineNumber positionColumn)"

definition Selection_selectionsEqual :: "Selection \<Rightarrow> Selection \<Rightarrow> bool" where
  "Selection_selectionsEqual a b \<longleftrightarrow>
     sel_startLine a = sel_startLine b \<and> sel_startCol a = sel_startCol b \<and>
     sel_positionLine a = sel_positionLine b \<and> sel_positionCol a = sel_positionCol b"

definition Selection_getDirection :: "Selection \<Rightarrow> SelectionDirection" where
  "Selection_getDirection this =
     (if sel_startLine this = r_startLine this \<and> sel_startCol this = r_startCol this then LTR else RTL)"

definition Selection_setEndPosition :: "Selection \<Rightarrow> int \<Rightarrow> int \<Rightarrow> Selection" where
  "Selection_setEndPosition this endLineNumber endColumn =
     (if Selection_getDirection this = LTR
      then Selection_new (r_startLine this) (r_startCol this) endLineNumber endColumn
      else Selection_new endLineNumber endColumn (r_startLine this) (r_startCol this))"

definition Selection_getPosition :: "Selection \<Rightarrow> Position" where
  "Selection_getPosition this = \<lparr>p_line = sel_positionLine this, p_col = sel_positionCol this\<rparr>"

definition Selection_getSelectionStart :: "Selection \<Rightarrow> Position" where
  "Selection_getSelectionStart this = \<lparr>p_line = sel_startLine this, p_col = sel_startCol this\<rparr>"

definition Selection_setStartPosition :: "Selection \<Rightarrow> int \<Rightarrow> int \<Rightarrow> Selection" where
  "Selection_setStartPosition this startLineNumber startColumn =
     (if Selection_getDirection this = LTR
      then Selection_new startLineNumber startColumn (r_endLine this) (r_endCol this)
      else Selection_new (r_endLine this) (r_endCol this) startLineNumber startColumn)"

definition Selection_fromPositions :: "Position \<Rightarrow> Position option \<Rightarrow> Selection" where
  "Selection_fromPositions s eo = (let e = (case eo of None \<Rightarrow> s | Some e \<Rightarrow> e)
     in Selection_new (p_line s) (p_col s) (p_line e) (p_col e))"

definition Selection_fromRange :: "'a Range_scheme \<Rightarrow> SelectionDirection \<Rightarrow> Selection" where
  "Selection_fromRange r direction =
     (if direction = LTR then Selection_new (r_startLine r) (r_startCol r) (r_endLine r) (r_endCol r)
      else Selection_new (r_endLine r) (r_endCol r) (r_startLine r) (r_startCol r))"

definition Selection_liftSelection :: "Selection \<Rightarrow> Selection" where
  "Selection_liftSelection sel =
     Selection_new (sel_startLine sel) (sel_startCol sel) (sel_positionLine sel) (sel_positionCol sel)"

text \<open>An argument is \<open>None\<close> where the source tolerates a missing array.\<close>

definition Selection_selectionsArrEqual :: "Selection list option \<Rightarrow> Selection list option \<Rightarrow> bool" where
  "Selection_selectionsArrEqual ao bo = (case (ao, bo) of
      (None, None) \<Rightarrow> True
    | (Some a, Some b) \<Rightarrow>
        (if length a \<noteq> length b then False
         else (\<forall>i \<in> set [0..<length a]. Selection_selectionsEqual (a ! i) (b ! i)))
    | _ \<Rightarrow> False)"

definition Selection_createWithDirection :: "int \<Rightarrow> int \<Rightarrow> int \<Rightarrow> int \<Rightarrow> SelectionDirection \<Rightarrow> Selection" where
  "Selection_createWithDirection startLineNumber startColumn endLineNumber endColumn direction =
     (if direction = LTR then Selection_new startLineNumber startColumn endLineNumber endColumn
      else Selection_new endLineNumber endColumn startLineNumber startColumn)"

text \<open>What the constructor guarantees: the ordered ends are the anchor and the active position.\<close>

definition Selection_inv :: "Selection \<Rightarrow> bool" where
  "Selection_inv s \<longleftrightarrow>
     Range_getStartPosition s = min (Selection_getSelectionStart s) (Selection_getPosition s) \<and>
     Range_getEndPosition s = max (Selection_getSelectionStart s) (Selection_getPosition s)"

lemmas selection_simps = Selection_new_def Selection_getPosition_def Selection_getSelectionStart_def
  Selection_getDirection_def Range_new_def Range.extend_def Selection.fields_def

lemma Selection_new_inv: "Selection_inv (Selection_new a b c d)"
  by (auto simp: Selection_inv_def selection_simps range_ends min_def max_def)

lemma Selection_new_ends [simp]:
  "Selection_getSelectionStart (Selection_new a b c d) = \<lparr>p_line = a, p_col = b\<rparr>"
  "Selection_getPosition (Selection_new a b c d) = \<lparr>p_line = c, p_col = d\<rparr>"
  by (simp_all add: selection_simps)

lemma Selection_range_ends:
  assumes "Selection_inv s"
  shows "Range_getStartPosition s = min (Selection_getSelectionStart s) (Selection_getPosition s)"
    and "Range_getEndPosition s = max (Selection_getSelectionStart s) (Selection_getPosition s)"
  using assms by (simp_all add: Selection_inv_def)

lemma Selection_direction_iff:
  assumes "Selection_inv s"
  shows "Selection_getDirection s = LTR \<longleftrightarrow> Selection_getSelectionStart s \<le> Selection_getPosition s"
proof -
  have "Selection_getDirection s = LTR \<longleftrightarrow> Selection_getSelectionStart s = Range_getStartPosition s"
    by (simp add: Selection_getDirection_def Selection_getSelectionStart_def range_ends)
  then show ?thesis unfolding Selection_range_ends [OF assms] by (auto simp: min_def)
qed

lemma Selection_eqI:
  assumes "Selection_inv s" "Selection_inv t"
    and eq: "Selection_getSelectionStart s = Selection_getSelectionStart t"
      "Selection_getPosition s = Selection_getPosition t"
  shows "s = t"
proof -
  have "Range_getStartPosition s = Range_getStartPosition t" "Range_getEndPosition s = Range_getEndPosition t"
    using Selection_range_ends [OF assms(1)] Selection_range_ends [OF assms(2)] eq by simp_all
  with eq show ?thesis
    unfolding Selection_getSelectionStart_def Selection_getPosition_def range_ends
    by (intro Selection.equality) simp_all
qed

lemma Selection_of_positions:
  "Selection_setEndPosition s (p_line p) (p_col p) =
     (if Selection_getDirection s = LTR then Selection_fromPositions (Range_getStartPosition s) (Some p)
      else Selection_fromPositions p (Some (Range_getStartPosition s)))"
  "Selection_setStartPosition s (p_line p) (p_col p) =
     (if Selection_getDirection s = LTR then Selection_fromPositions p (Some (Range_getEndPosition s))
      else Selection_fromPositions (Range_getEndPosition s) (Some p))"
  "Selection_fromRange r d =
     (if d = LTR then Selection_fromPositions (Range_getStartPosition r) (Some (Range_getEndPosition r))
      else Selection_fromPositions (Range_getEndPosition r) (Some (Range_getStartPosition r)))"
  by (simp_all add: Selection_setEndPosition_def Selection_setStartPosition_def Selection_fromRange_def
      Selection_fromPositions_def range_ends)

lemma Selection_fromPositions_facts:
  "Selection_inv (Selection_fromPositions p (Some q))"
  "Selection_getSelectionStart (Selection_fromPositions p (Some q)) = p"
  "Selection_getPosition (Selection_fromPositions p (Some q)) = q"
  "Range_getStartPosition (Selection_fromPositions p (Some q)) = min p q"
  "Range_getEndPosition (Selection_fromPositions p (Some q)) = max p q"
  "Selection_getDirection (Selection_fromPositions p (Some q)) = (if p \<le> q then LTR else RTL)"
proof -
  show inv: "Selection_inv (Selection_fromPositions p (Some q))"
    by (simp add: Selection_fromPositions_def Selection_new_inv)
  show ends: "Selection_getSelectionStart (Selection_fromPositions p (Some q)) = p"
    "Selection_getPosition (Selection_fromPositions p (Some q)) = q"
    by (simp_all add: Selection_fromPositions_def)
  show "Range_getStartPosition (Selection_fromPositions p (Some q)) = min p q"
    "Range_getEndPosition (Selection_fromPositions p (Some q)) = max p q"
    unfolding Selection_range_ends [OF inv] ends by simp_all
  show "Selection_getDirection (Selection_fromPositions p (Some q)) = (if p \<le> q then LTR else RTL)"
    using Selection_direction_iff [OF inv] unfolding ends
    by (cases "Selection_getDirection (Selection_fromPositions p (Some q))") simp_all
qed

lemma SelectionDirection_not_LTR [simp]: "d \<noteq> LTR \<longleftrightarrow> d = RTL"
  by (cases d) simp_all

text \<open>
  Every selection the constructor builds is recovered from its range and its direction. For a
  range that is not empty and either direction, \<open>fromRange\<close> keeps the range and has that
  direction, and moving the start or the end without crossing the other end keeps the direction and
  that other end.
\<close>

theorem Selection_roundtrip:
  "(Selection_inv s \<longrightarrow> Selection_fromRange s (Selection_getDirection s) = s \<and> Selection_liftSelection s = s) \<and>
   (Range_inv r \<and> \<not> Range_isEmpty (r :: Range) \<longrightarrow>
     Selection_getDirection (Selection_fromRange r d) = d \<and> Range.truncate (Selection_fromRange r d) = r) \<and>
   (Selection_inv s \<and> Range_getStartPosition s < p \<longrightarrow>
     Range_getStartPosition (Selection_setEndPosition s (p_line p) (p_col p)) = Range_getStartPosition s \<and>
     Range_getEndPosition (Selection_setEndPosition s (p_line p) (p_col p)) = p \<and>
     Selection_getDirection (Selection_setEndPosition s (p_line p) (p_col p)) = Selection_getDirection s) \<and>
   (Selection_inv s \<and> p < Range_getEndPosition s \<longrightarrow>
     Range_getEndPosition (Selection_setStartPosition s (p_line p) (p_col p)) = Range_getEndPosition s \<and>
     Range_getStartPosition (Selection_setStartPosition s (p_line p) (p_col p)) = p \<and>
     Selection_getDirection (Selection_setStartPosition s (p_line p) (p_col p)) = Selection_getDirection s)"
proof (intro conjI impI; (elim conjE)?)
  assume inv: "Selection_inv s"
  show "Selection_liftSelection s = s"
    by (rule Selection_eqI [OF _ inv])
      (simp_all add: Selection_liftSelection_def Selection_new_inv Selection_getSelectionStart_def [of s]
        Selection_getPosition_def [of s])
  show "Selection_fromRange s (Selection_getDirection s) = s"
    unfolding Selection_of_positions
    by (rule Selection_eqI [OF _ inv])
      (auto simp: Selection_fromPositions_facts Selection_direction_iff [OF inv] Selection_range_ends [OF inv]
        min_def max_def)
next
  assume r: "Range_inv r" "\<not> Range_isEmpty r"
  then have less: "Range_getStartPosition r < Range_getEndPosition r"
    by (auto simp: Range_inv_def Range_isEmpty_def range_ends Position_less_iff)
  then show "Selection_getDirection (Selection_fromRange r d) = d"
    unfolding Selection_of_positions by (cases d) (simp_all add: Selection_fromPositions_facts less_imp_le not_le)
  have "Range_getStartPosition (Range.truncate s) = Range_getStartPosition s"
    "Range_getEndPosition (Range.truncate s) = Range_getEndPosition s" for s :: Selection
    by (simp_all add: range_ends Range.truncate_def)
  then show "Range.truncate (Selection_fromRange r d) = r"
    using less unfolding Selection_of_positions
    by (intro Range_eqI) (simp_all add: Selection_fromPositions_facts min_absorb1 min_absorb2 max_absorb1 max_absorb2)
next
  assume "Selection_inv s" and less: "Range_getStartPosition s < p"
  show "Range_getStartPosition (Selection_setEndPosition s (p_line p) (p_col p)) = Range_getStartPosition s"
    "Range_getEndPosition (Selection_setEndPosition s (p_line p) (p_col p)) = p"
    "Selection_getDirection (Selection_setEndPosition s (p_line p) (p_col p)) = Selection_getDirection s"
    using less unfolding Selection_of_positions
    by (cases "Selection_getDirection s"; simp add: Selection_fromPositions_facts less_imp_le not_le min_def max_def)+
next
  assume "Selection_inv s" and less: "p < Range_getEndPosition s"
  show "Range_getEndPosition (Selection_setStartPosition s (p_line p) (p_col p)) = Range_getEndPosition s"
    "Range_getStartPosition (Selection_setStartPosition s (p_line p) (p_col p)) = p"
    "Selection_getDirection (Selection_setStartPosition s (p_line p) (p_col p)) = Selection_getDirection s"
    using less unfolding Selection_of_positions
    by (cases "Selection_getDirection s"; simp add: Selection_fromPositions_facts less_imp_le not_le min_def max_def)+
qed

theorem Selection_roundtrip_witness:
  "let r = Range.fields 2 4 5 1; s = Selection_fromRange r RTL; p = Position.fields 7 3
   in Range_inv r \<and> \<not> Range_isEmpty r \<and> Selection_inv s \<and> Range_getStartPosition s < p \<and>
      Selection_getDirection s = RTL \<and> Range.truncate s = r \<and>
      Selection_getDirection (Selection_setEndPosition s (p_line p) (p_col p)) = Selection_getDirection s"
proof -
  let ?r = "Range.fields 2 4 5 1" and ?p = "Position.fields 7 3"
  let ?s = "Selection_fromRange ?r RTL"
  have "Range_inv ?r" "\<not> Range_isEmpty ?r" "Range_getStartPosition ?s < ?p"
    by (simp_all add: Range_inv_def range_ends Range.defs Position.defs Range_isEmpty_def Selection_fromRange_def
        selection_simps Position_less_iff)
  moreover have "Selection_inv ?s" by (simp add: Selection_fromRange_def Selection_new_inv)
  ultimately show ?thesis using Selection_roundtrip [of ?s ?r RTL ?p] unfolding Let_def by blast
qed

end
