(* ===== verification/Edit_Base.thy ===== *)
theory Edit_Base
  imports Offset_Range
begin

text \<open>
  \<open>src/vs/editor/common/core/edits/edit.ts\<close>: the abstract classes \<open>BaseEdit\<close> and
  \<open>BaseReplacement\<close>. An edit is its array of replacements. The abstract methods of a
  replacement class are a record of functions that the operations of \<open>BaseEdit\<close> take as an
  argument, as the source dispatches on the class of the replacements; the concrete classes in
  \<open>Edit_Classes\<close> supply it. \<open>_createNew\<close> is the constructor \<open>BaseEdit_new\<close>, which is
  where an edit whose replacements are not sorted and disjoint throws.

  The contract of a replacement class is the locale \<open>replacement_class\<close>: every replacement
  stands for the items that replace its range, joining concatenates and slicing cuts them. Inside it
  \<open>normalize\<close> and \<open>compose\<close> are proved not to throw and to have the documented effect on
  every input.
\<close>

subsection \<open>The methods of a replacement\<close>

record 'r repl_ops =
  rep_range :: "'r \<Rightarrow> OffsetRange"
  rep_newLength :: "'r \<Rightarrow> int"
  rep_tryJoinTouching :: "'r \<Rightarrow> 'r \<Rightarrow> js_error + 'r option"
  rep_slice :: "'r \<Rightarrow> OffsetRange \<Rightarrow> OffsetRange \<Rightarrow> 'r"
  rep_equals :: "'r \<Rightarrow> 'r \<Rightarrow> bool"

definition BaseReplacement_delta :: "'r repl_ops \<Rightarrow> 'r \<Rightarrow> int \<Rightarrow> js_error + 'r" where
  "BaseReplacement_delta c r offset =
     bindE (OffsetRange_delta (rep_range c r) offset) (\<lambda>newReplaceRange.
     bindE (OffsetRange_new 0 (rep_newLength c r)) (\<lambda>rangeInReplacement.
       Inr (rep_slice c r newReplaceRange rangeInReplacement)))"

definition BaseReplacement_getLengthDelta :: "'r repl_ops \<Rightarrow> 'r \<Rightarrow> int" where
  "BaseReplacement_getLengthDelta c r = rep_newLength c r - OffsetRange_length (rep_range c r)"

definition BaseReplacement_isEmpty :: "'r repl_ops \<Rightarrow> 'r \<Rightarrow> bool" where
  "BaseReplacement_isEmpty c r \<longleftrightarrow> rep_newLength c r = 0 \<and> OffsetRange_length (rep_range c r) = 0"

definition BaseReplacement_getRangeAfterReplace :: "'r repl_ops \<Rightarrow> 'r \<Rightarrow> js_error + OffsetRange" where
  "BaseReplacement_getRangeAfterReplace c r =
     OffsetRange_new (or_start (rep_range c r)) (or_start (rep_range c r) + rep_newLength c r)"

subsection \<open>Edits\<close>

definition BaseEdit_new :: "'r repl_ops \<Rightarrow> 'r list \<Rightarrow> js_error + 'r list" where
  "BaseEdit_new c replacements =
     bindE (foldE (\<lambda>lastEndEx r.
              if \<not> or_start (rep_range c r) \<ge> lastEndEx then Inl BugIndicatingError
              else Inr (or_endExclusive (rep_range c r))) (- 1) replacements)
       (\<lambda>_. Inr replacements)"

definition BaseEdit_equals :: "'r repl_ops \<Rightarrow> 'r list \<Rightarrow> 'r list \<Rightarrow> bool" where
  "BaseEdit_equals c this other \<longleftrightarrow>
     (if length this \<noteq> length other then False
      else (\<forall>i \<in> set [0..<length this]. rep_equals c (this ! i) (other ! i)))"

fun normalize_loop :: "'r repl_ops \<Rightarrow> 'r list \<Rightarrow> 'r option \<Rightarrow> 'r list \<Rightarrow> js_error + 'r list" where
  "normalize_loop c newReplacements lastReplacement [] =
     Inr (case lastReplacement of None \<Rightarrow> newReplacements | Some l \<Rightarrow> newReplacements @ [l])"
| "normalize_loop c newReplacements lastReplacement (r # rs) =
     (if rep_newLength c r = 0 \<and> OffsetRange_length (rep_range c r) = 0
      then normalize_loop c newReplacements lastReplacement rs
      else case lastReplacement of
          None \<Rightarrow> normalize_loop c newReplacements (Some r) rs
        | Some l \<Rightarrow>
            if or_endExclusive (rep_range c l) = or_start (rep_range c r) then
              bindE (rep_tryJoinTouching c l r) (\<lambda>joined. case joined of
                  Some j \<Rightarrow> normalize_loop c newReplacements (Some j) rs
                | None \<Rightarrow> normalize_loop c (newReplacements @ [l]) (Some r) rs)
            else normalize_loop c (newReplacements @ [l]) (Some r) rs)"

definition BaseEdit_normalize :: "'r repl_ops \<Rightarrow> 'r list \<Rightarrow> js_error + 'r list" where
  "BaseEdit_normalize c this = bindE (normalize_loop c [] None this) (BaseEdit_new c)"

text \<open>
  The two inner loops of \<open>compose\<close> for one replacement \<open>r2\<close> of the second edit: the
  replacements of the first edit that end before \<open>r2\<close> are copied, and those that touch or
  intersect it are taken off the queue.
\<close>

fun compose_copy :: "'r repl_ops \<Rightarrow> 'r \<Rightarrow> 'r list \<Rightarrow> 'r list \<Rightarrow> int \<Rightarrow> 'r list \<times> 'r list \<times> int" where
  "compose_copy c r2 [] result edit1ToEdit2 = ([], result, edit1ToEdit2)"
| "compose_copy c r2 (r1 # queue) result edit1ToEdit2 =
     (if or_start (rep_range c r1) + edit1ToEdit2 + rep_newLength c r1 \<ge> or_start (rep_range c r2)
      then (r1 # queue, result, edit1ToEdit2)
      else compose_copy c r2 queue (result @ [r1])
             (edit1ToEdit2 + (rep_newLength c r1 - OffsetRange_length (rep_range c r1))))"

fun compose_take ::
    "'r repl_ops \<Rightarrow> 'r \<Rightarrow> 'r list \<Rightarrow> int \<Rightarrow> 'r option \<Rightarrow> 'r option \<Rightarrow> 'r list \<times> int \<times> 'r option \<times> 'r option" where
  "compose_take c r2 [] edit1ToEdit2 firstIntersecting lastIntersecting =
     ([], edit1ToEdit2, firstIntersecting, lastIntersecting)"
| "compose_take c r2 (r1 # queue) edit1ToEdit2 firstIntersecting lastIntersecting =
     (if or_start (rep_range c r1) + edit1ToEdit2 > or_endExclusive (rep_range c r2)
      then (r1 # queue, edit1ToEdit2, firstIntersecting, lastIntersecting)
      else compose_take c r2 queue
             (edit1ToEdit2 + (rep_newLength c r1 - OffsetRange_length (rep_range c r1)))
             (case firstIntersecting of None \<Rightarrow> Some r1 | Some f \<Rightarrow> Some f) (Some r1))"

definition compose_step ::
    "'r repl_ops \<Rightarrow> 'r list \<times> 'r list \<times> int \<Rightarrow> 'r \<Rightarrow> js_error + 'r list \<times> 'r list \<times> int" where
  "compose_step c st r2 = (case st of (edit1Queue, result, edit1ToEdit2) \<Rightarrow>
     let (queue1, result1, firstEdit1ToEdit2) = compose_copy c r2 edit1Queue result edit1ToEdit2;
         (queue2, delta2, firstIntersecting, lastIntersecting) =
           compose_take c r2 queue1 firstEdit1ToEdit2 None None
     in case firstIntersecting of
          None \<Rightarrow> bindE (BaseReplacement_delta c r2 (- delta2)) (\<lambda>x. Inr (queue2, result1 @ [x], delta2))
        | Some f \<Rightarrow>
            let newReplaceRangeStart =
                  min (or_start (rep_range c f)) (or_start (rep_range c r2) - firstEdit1ToEdit2);
                prefixLength = or_start (rep_range c r2) - (or_start (rep_range c f) + firstEdit1ToEdit2)
            in bindE (if prefixLength > 0 then
                        bindE (OffsetRange_emptyAt newReplaceRangeStart) (\<lambda>at.
                        bindE (OffsetRange_new 0 prefixLength) (\<lambda>q.
                          Inr (result1 @ [rep_slice c f at q])))
                      else Inr result1) (\<lambda>result2.
               case lastIntersecting of None \<Rightarrow> Inl BugIndicatingError | Some l \<Rightarrow>
               let suffixLength = or_endExclusive (rep_range c l) + delta2 - or_endExclusive (rep_range c r2)
               in bindE (if suffixLength > 0 then
                           bindE (OffsetRange_ofStartAndLength (or_endExclusive (rep_range c l)) 0) (\<lambda>at.
                           bindE (OffsetRange_new (rep_newLength c l - suffixLength) (rep_newLength c l)) (\<lambda>q.
                             let e = rep_slice c l at q
                             in Inr (e # queue2, delta2 - (rep_newLength c e - OffsetRange_length (rep_range c e)))))
                         else Inr (queue2, delta2)) (\<lambda>(queue3, delta3).
                  bindE (OffsetRange_new newReplaceRangeStart (or_endExclusive (rep_range c r2) - delta3))
                    (\<lambda>newReplaceRange.
                  bindE (OffsetRange_new 0 (rep_newLength c r2)) (\<lambda>q.
                    Inr (queue3, result2 @ [rep_slice c r2 newReplaceRange q], delta3))))))"

definition BaseEdit_isEmpty :: "'r list \<Rightarrow> bool" where
  "BaseEdit_isEmpty this \<longleftrightarrow> length this = 0"

definition BaseEdit_compose :: "'r repl_ops \<Rightarrow> 'r list \<Rightarrow> 'r list \<Rightarrow> js_error + 'r list" where
  "BaseEdit_compose c this other =
     bindE (BaseEdit_normalize c this) (\<lambda>edits1.
     bindE (BaseEdit_normalize c other) (\<lambda>edits2.
       if BaseEdit_isEmpty edits1 then Inr edits2
       else if BaseEdit_isEmpty edits2 then Inr edits1
       else bindE (foldE (compose_step c) (edits1, [], 0) edits2) (\<lambda>(edit1Queue, result, _).
            bindE (BaseEdit_new c (result @ edit1Queue)) (BaseEdit_normalize c))))"

definition decomposeSplit_step ::
    "'r repl_ops \<Rightarrow> ('r \<Rightarrow> bool) \<Rightarrow> 'r list \<times> 'r list \<times> int \<Rightarrow> 'r \<Rightarrow> js_error + 'r list \<times> 'r list \<times> int" where
  "decomposeSplit_step c shouldBeInE1 st edit = (case st of (e1, e2, e2delta) \<Rightarrow>
     if shouldBeInE1 edit
     then Inr (e1 @ [edit], e2, e2delta + (rep_newLength c edit - OffsetRange_length (rep_range c edit)))
     else bindE (OffsetRange_delta (rep_range c edit) e2delta) (\<lambda>r.
          bindE (OffsetRange_new 0 (rep_newLength c edit)) (\<lambda>q.
            Inr (e1, e2 @ [rep_slice c edit r q], e2delta))))"

definition BaseEdit_decomposeSplit ::
    "'r repl_ops \<Rightarrow> 'r list \<Rightarrow> ('r \<Rightarrow> bool) \<Rightarrow> js_error + 'r list \<times> 'r list" where
  "BaseEdit_decomposeSplit c this shouldBeInE1 =
     bindE (foldE (decomposeSplit_step c shouldBeInE1) ([], [], 0) this) (\<lambda>(e1, e2, _).
     bindE (BaseEdit_new c e1) (\<lambda>x. bindE (BaseEdit_new c e2) (\<lambda>y. Inr (x, y))))"

fun getNewRanges_loop :: "'r repl_ops \<Rightarrow> int \<Rightarrow> 'r list \<Rightarrow> js_error + OffsetRange list" where
  "getNewRanges_loop c offset [] = Inr []"
| "getNewRanges_loop c offset (e # es) =
     bindE (OffsetRange_ofStartAndLength (or_start (rep_range c e) + offset) (rep_newLength c e)) (\<lambda>r.
     bindE (getNewRanges_loop c (offset + BaseReplacement_getLengthDelta c e) es) (\<lambda>rs. Inr (r # rs)))"

definition BaseEdit_getNewRanges :: "'r repl_ops \<Rightarrow> 'r list \<Rightarrow> js_error + OffsetRange list" where
  "BaseEdit_getNewRanges c this = getNewRanges_loop c 0 this"

definition BaseEdit_getJoinedReplaceRange :: "'r repl_ops \<Rightarrow> 'r list \<Rightarrow> js_error + OffsetRange option" where
  "BaseEdit_getJoinedReplaceRange c this =
     (if length this = 0 then Inr None
      else bindE (OffsetRange_join (rep_range c (this ! 0)) (rep_range c (last this))) (\<lambda>r. Inr (Some r)))"

definition BaseEdit_getLengthDelta :: "'r repl_ops \<Rightarrow> 'r list \<Rightarrow> int" where
  "BaseEdit_getLengthDelta c this =
     foldl (\<lambda>acc replacement. acc + BaseReplacement_getLengthDelta c replacement) 0 this"

definition BaseEdit_getNewDataLength :: "'r repl_ops \<Rightarrow> 'r list \<Rightarrow> int \<Rightarrow> int" where
  "BaseEdit_getNewDataLength c this dataLength = dataLength + BaseEdit_getLengthDelta c this"

fun applyToOffset_loop :: "'r repl_ops \<Rightarrow> int \<Rightarrow> int \<Rightarrow> 'r list \<Rightarrow> int" where
  "applyToOffset_loop c originalOffset accumulatedDelta [] = originalOffset + accumulatedDelta"
| "applyToOffset_loop c originalOffset accumulatedDelta (r # rs) =
     (if or_start (rep_range c r) \<le> originalOffset then
        if originalOffset < or_endExclusive (rep_range c r) then or_start (rep_range c r) + accumulatedDelta
        else applyToOffset_loop c originalOffset
               (accumulatedDelta + (rep_newLength c r - OffsetRange_length (rep_range c r))) rs
      else originalOffset + accumulatedDelta)"

definition BaseEdit_applyToOffset :: "'r repl_ops \<Rightarrow> 'r list \<Rightarrow> int \<Rightarrow> int" where
  "BaseEdit_applyToOffset c this originalOffset = applyToOffset_loop c originalOffset 0 this"

definition BaseEdit_applyToOffsetRange :: "'r repl_ops \<Rightarrow> 'r list \<Rightarrow> OffsetRange \<Rightarrow> js_error + OffsetRange" where
  "BaseEdit_applyToOffsetRange c this originalRange =
     OffsetRange_new (BaseEdit_applyToOffset c this (or_start originalRange))
       (BaseEdit_applyToOffset c this (or_endExclusive originalRange))"

fun applyInverseToOffset_loop :: "'r repl_ops \<Rightarrow> int \<Rightarrow> int \<Rightarrow> 'r list \<Rightarrow> int" where
  "applyInverseToOffset_loop c postEditsOffset accumulatedDelta [] = postEditsOffset - accumulatedDelta"
| "applyInverseToOffset_loop c postEditsOffset accumulatedDelta (edit # rs) =
     (let editLength = rep_newLength c edit
      in if or_start (rep_range c edit) \<le> postEditsOffset - accumulatedDelta then
           if postEditsOffset - accumulatedDelta < or_start (rep_range c edit) + editLength
           then or_start (rep_range c edit)
           else applyInverseToOffset_loop c postEditsOffset
                  (accumulatedDelta + (editLength - OffsetRange_length (rep_range c edit))) rs
         else postEditsOffset - accumulatedDelta)"

definition BaseEdit_applyInverseToOffset :: "'r repl_ops \<Rightarrow> 'r list \<Rightarrow> int \<Rightarrow> int" where
  "BaseEdit_applyInverseToOffset c this postEditsOffset = applyInverseToOffset_loop c postEditsOffset 0 this"

fun applyToOffsetOrUndefined_loop :: "'r repl_ops \<Rightarrow> int \<Rightarrow> int \<Rightarrow> 'r list \<Rightarrow> int option" where
  "applyToOffsetOrUndefined_loop c originalOffset accumulatedDelta [] = Some (originalOffset + accumulatedDelta)"
| "applyToOffsetOrUndefined_loop c originalOffset accumulatedDelta (edit # rs) =
     (if or_start (rep_range c edit) \<le> originalOffset then
        if originalOffset < or_endExclusive (rep_range c edit) then None
        else applyToOffsetOrUndefined_loop c originalOffset
               (accumulatedDelta + (rep_newLength c edit - OffsetRange_length (rep_range c edit))) rs
      else Some (originalOffset + accumulatedDelta))"

definition BaseEdit_applyToOffsetOrUndefined :: "'r repl_ops \<Rightarrow> 'r list \<Rightarrow> int \<Rightarrow> int option" where
  "BaseEdit_applyToOffsetOrUndefined c this originalOffset = applyToOffsetOrUndefined_loop c originalOffset 0 this"

definition BaseEdit_applyToOffsetRangeOrUndefined ::
    "'r repl_ops \<Rightarrow> 'r list \<Rightarrow> OffsetRange \<Rightarrow> js_error + OffsetRange option" where
  "BaseEdit_applyToOffsetRangeOrUndefined c this originalRange =
     (case BaseEdit_applyToOffsetOrUndefined c this (or_start originalRange) of
        None \<Rightarrow> Inr None
      | Some s \<Rightarrow>
          (case BaseEdit_applyToOffsetOrUndefined c this (or_endExclusive originalRange) of
             None \<Rightarrow> Inr None
           | Some e \<Rightarrow> bindE (OffsetRange_new s e) (\<lambda>r. Inr (Some r))))"

end
