(* ===== verification/Edit_Compose.thy ===== *)
theory Edit_Compose
  imports Edit_Base
begin

text \<open>
  The effect of an edit and the contract of a replacement class, under which \<open>normalize\<close> and
  \<open>compose\<close> of \<open>edit.ts\<close> never throw and have the effect their comments state. The proof
  of \<open>compose\<close> follows the loop: it keeps a position in the text before the first edit, the
  corresponding position after it, and what is left of the first edit (\<open>compose_inv\<close>).
\<close>

subsection \<open>The effect of an edit\<close>

text \<open>
  \<open>apply_from p rs s\<close> is what the replacements \<open>rs\<close> make of the part of \<open>s\<close> from offset
  \<open>p\<close> on; \<open>edit_from p rs n\<close> says that they are sorted and disjoint and lie between \<open>p\<close> and
  \<open>n\<close>.
\<close>

fun apply_from :: "('r \<Rightarrow> OffsetRange) \<Rightarrow> ('r \<Rightarrow> 'a list) \<Rightarrow> int \<Rightarrow> 'r list \<Rightarrow> 'a list \<Rightarrow> 'a list" where
  "apply_from rg content p [] s = sub s p (int (length s))"
| "apply_from rg content p (r # rs) s =
     sub s p (or_start (rg r)) @ content r @ apply_from rg content (or_endExclusive (rg r)) rs s"

definition repl_ok :: "'r repl_ops \<Rightarrow> 'r \<Rightarrow> bool" where
  "repl_ok c r \<longleftrightarrow> OffsetRange_inv (rep_range c r) \<and> 0 \<le> rep_newLength c r"

fun edit_from :: "'r repl_ops \<Rightarrow> int \<Rightarrow> 'r list \<Rightarrow> int \<Rightarrow> bool" where
  "edit_from c p [] n \<longleftrightarrow> p \<le> n"
| "edit_from c p (r # rs) n \<longleftrightarrow>
     p \<le> or_start (rep_range c r) \<and> repl_ok c r \<and> edit_from c (or_endExclusive (rep_range c r)) rs n"

text \<open>An edit that may be applied to data of length \<open>n\<close>.\<close>

definition edit_ok :: "'r repl_ops \<Rightarrow> 'r list \<Rightarrow> int \<Rightarrow> bool" where
  "edit_ok c rs n \<longleftrightarrow> edit_from c 0 rs n"

lemma repl_ok_le: "repl_ok c r \<Longrightarrow> or_start (rep_range c r) \<le> or_endExclusive (rep_range c r)"
  by (simp add: repl_ok_def OffsetRange_inv_def)

lemma edit_from_le: "edit_from c p rs n \<Longrightarrow> p \<le> n"
proof (induction rs arbitrary: p)
  case (Cons r rs)
  then have "or_endExclusive (rep_range c r) \<le> n" by simp
  moreover have "p \<le> or_endExclusive (rep_range c r)"
    using Cons.prems repl_ok_le [of c r] by auto
  ultimately show ?case by simp
qed simp

lemma edit_from_weaken: "edit_from c q rs n \<Longrightarrow> p \<le> q \<Longrightarrow> edit_from c p rs n"
  by (cases rs) auto

lemma BaseEdit_new_ok:
  assumes "edit_from c p rs n" and "- 1 \<le> p"
  shows "BaseEdit_new c rs = Inr rs"
proof -
  have "\<exists>x. foldE (\<lambda>lastEndEx r. if \<not> or_start (rep_range c r) \<ge> lastEndEx then Inl BugIndicatingError
              else Inr (or_endExclusive (rep_range c r))) e rs = Inr x" if "e \<le> p" for e
    using assms(1) that
  proof (induction rs arbitrary: p e)
    case (Cons r rs)
    then show ?case by auto
  qed simp
  with assms(2) show ?thesis by (fastforce simp: BaseEdit_new_def)
qed

locale replacement_class =
  fixes c :: "'r repl_ops" and content :: "'r \<Rightarrow> 'a list"
  assumes content_length: "repl_ok c r \<Longrightarrow> int (length (content r)) = rep_newLength c r"
    and join: "repl_ok c r \<Longrightarrow> repl_ok c r' \<Longrightarrow> or_endExclusive (rep_range c r) = or_start (rep_range c r') \<Longrightarrow>
      \<exists>jo. rep_tryJoinTouching c r r' = Inr jo \<and> (\<forall>j. jo = Some j \<longrightarrow>
        rep_range c j = OffsetRange.fields (or_start (rep_range c r)) (or_endExclusive (rep_range c r')) \<and>
        rep_newLength c j = rep_newLength c r + rep_newLength c r' \<and> content j = content r @ content r')"
    and slice_range [simp]: "rep_range c (rep_slice c r g q) = g"
    and slice: "repl_ok c r \<Longrightarrow> 0 \<le> or_start q \<Longrightarrow> or_start q \<le> or_endExclusive q \<Longrightarrow>
      or_endExclusive q \<le> rep_newLength c r \<Longrightarrow>
      rep_newLength c (rep_slice c r g q) = or_endExclusive q - or_start q \<and>
      content (rep_slice c r g q) = sub (content r) (or_start q) (or_endExclusive q)"
begin

abbreviation st :: "'r \<Rightarrow> int" where "st r \<equiv> or_start (rep_range c r)"
abbreviation en :: "'r \<Rightarrow> int" where "en r \<equiv> or_endExclusive (rep_range c r)"
abbreviation nl :: "'r \<Rightarrow> int" where "nl r \<equiv> rep_newLength c r"
abbreviation dl :: "'r \<Rightarrow> int" where "dl r \<equiv> nl r - OffsetRange_length (rep_range c r)"
abbreviation app :: "int \<Rightarrow> 'r list \<Rightarrow> 'a list \<Rightarrow> 'a list" where "app \<equiv> apply_from (rep_range c) content"

lemma dl_eq: "dl r = nl r - (en r - st r)"
  by (simp add: OffsetRange_length_def)

lemma slice_all: "repl_ok c r \<Longrightarrow> nl (rep_slice c r g \<lparr>or_start = 0, or_endExclusive = nl r\<rparr>) = nl r \<and>
    content (rep_slice c r g \<lparr>or_start = 0, or_endExclusive = nl r\<rparr>) = content r"
  using slice [of r "\<lparr>or_start = 0, or_endExclusive = nl r\<rparr>" g] content_length [of r]
  by (simp add: repl_ok_def) (metis sub_all)

lemma apply_shift:
  assumes "edit_from c q rs (int (length s))" "0 \<le> p" "p \<le> q"
  shows "app p rs s = sub s p q @ app q rs s"
  using assms edit_from_le [OF assms(1)] by (cases rs) (simp_all add: sub_append_sub flip: append_assoc)

lemma apply_drop:
  assumes "edit_from c q rs (int (length s))" "0 \<le> p" "p \<le> q"
  shows "drop (nat (q - p)) (app p rs s) = app q rs s"
proof -
  have "int (length (sub s p q)) = q - p"
    using assms edit_from_le [OF assms(1)] by simp
  then have "length (sub s p q) = nat (q - p)" by simp
  then show ?thesis unfolding apply_shift [OF assms] by simp
qed

lemma length_apply:
  "edit_from c p rs (int (length s)) \<Longrightarrow> 0 \<le> p \<Longrightarrow>
   int (length (app p rs s)) = int (length s) - p + (\<Sum>r \<leftarrow> rs. dl r)"
proof (induction rs arbitrary: p)
  case (Cons r rs)
  have r: "repl_ok c r" "p \<le> st r" and rs: "edit_from c (en r) rs (int (length s))"
    using Cons.prems by simp_all
  have "int (length (app (en r) rs s)) = int (length s) - en r + (\<Sum>r \<leftarrow> rs. dl r)"
    using Cons.IH [OF rs] Cons.prems r repl_ok_le [OF r(1)] by linarith
  moreover have "int (length (sub s p (st r))) = st r - p"
    using Cons.prems r repl_ok_le [OF r(1)] edit_from_le [OF rs] by simp
  ultimately show ?case using content_length [OF r(1)] by (simp add: dl_eq)
qed (simp)

subsection \<open>normalize\<close>

lemma normalize_loop_spec:
  assumes "edit_from c p (opt_list lst @ rs) (int (length s))" and "0 \<le> p"
  shows "\<exists>res. normalize_loop c acc lst rs = Inr (acc @ res) \<and> edit_from c p res (int (length s)) \<and>
    app p res s = app p (opt_list lst @ rs) s"
  using assms
proof (induction rs arbitrary: acc lst p)
  case Nil
  then show ?case by (cases lst) auto
next
  case (Cons r rs)
  let ?n = "int (length s)"
  show ?case
  proof (cases "nl r = 0 \<and> OffsetRange_length (rep_range c r) = 0")
    case True
    have skip: "app q (r # rs) s = app q rs s" if "edit_from c q (r # rs) ?n" "0 \<le> q" for q
    proof -
      have e: "edit_from c (en r) rs ?n" "q \<le> st r" "repl_ok c r" using that(1) by simp_all
      have "en r = st r" using True by (simp add: OffsetRange_length_def)
      moreover have "content r = []" using True content_length [OF e(3)] by simp
      ultimately show ?thesis using apply_shift [of "en r" rs s q] e(1,2) that(2) by simp
    qed
    have weak: "edit_from c q rs ?n" if "edit_from c q (r # rs) ?n" for q
      using that repl_ok_le [of c r] by (auto intro: edit_from_weaken)
    show ?thesis
    proof (cases lst)
      case None
      with Cons.IH [of p None acc] Cons.prems True skip weak show ?thesis by simp
    next
      case (Some l)
      have "edit_from c (en l) (r # rs) ?n" "0 \<le> en l"
        using Cons.prems Some repl_ok_le [of c l] by auto
      with Cons.IH [of p "Some l" acc] Cons.prems True skip [of "en l"] weak [of "en l"] Some
      show ?thesis by simp
    qed
  next
    case False
    then have unf: "normalize_loop c acc lst (r # rs) = (case lst of
          None \<Rightarrow> normalize_loop c acc (Some r) rs
        | Some l \<Rightarrow>
            if en l = st r then
              bindE (rep_tryJoinTouching c l r) (\<lambda>joined. case joined of
                  Some j \<Rightarrow> normalize_loop c acc (Some j) rs
                | None \<Rightarrow> normalize_loop c (acc @ [l]) (Some r) rs)
            else normalize_loop c (acc @ [l]) (Some r) rs)" by (simp only: normalize_loop.simps if_False)
    show ?thesis
    proof (cases lst)
      case None
      with Cons.IH [of p "Some r" acc] Cons.prems unf show ?thesis by simp
    next
      case (Some l)
      have l: "p \<le> st l" "repl_ok c l" "edit_from c (en l) (r # rs) ?n" "repl_ok c r"
        using Cons.prems Some by simp_all
      have push: ?thesis if "normalize_loop c acc lst (r # rs) = normalize_loop c (acc @ [l]) (Some r) rs"
      proof -
        have "0 \<le> en l" using l repl_ok_le [of c l] Cons.prems(2) by linarith
        with Cons.IH [of "en l" "Some r" "acc @ [l]"] l(3) obtain res where
          res: "normalize_loop c (acc @ [l]) (Some r) rs = Inr ((acc @ [l]) @ res)"
            "edit_from c (en l) res ?n" "app (en l) res s = app (en l) (r # rs) s" by auto
        then show ?thesis using that l Some by (intro exI [of _ "l # res"]) simp
      qed
      show ?thesis
      proof (cases "en l = st r")
        case True
        from join [OF l(2,4) True] obtain jo where jo: "rep_tryJoinTouching c l r = Inr jo"
          "\<forall>j. jo = Some j \<longrightarrow> rep_range c j = OffsetRange.fields (st l) (en r) \<and>
             nl j = nl l + nl r \<and> content j = content l @ content r" by blast
        show ?thesis
        proof (cases jo)
          case None
          with jo(1) True Some unf show ?thesis by (intro push) simp
        next
          case (Some j)
          have j: "rep_range c j = OffsetRange.fields (st l) (en r)" "nl j = nl l + nl r"
            "content j = content l @ content r" using jo(2) Some by simp_all
          have "repl_ok c j" using j(1,2) l(2,4) True
            by (auto simp: repl_ok_def OffsetRange_inv_def OffsetRange.defs)
          then have "edit_from c p (j # rs) ?n" using l j(1) by (simp add: OffsetRange.defs)
          with Cons.IH [of p "Some j" acc] Cons.prems(2) obtain res where
            "normalize_loop c acc (Some j) rs = Inr (acc @ res)" "edit_from c p res ?n"
            "app p res s = app p (j # rs) s" by auto
          then show ?thesis using unf jo(1) Some \<open>lst = Some l\<close> True j
            by (intro exI [of _ res]) (simp add: OffsetRange.defs)
        qed
      next
        case False
        with Some unf show ?thesis by (intro push) simp
      qed
    qed
  qed
qed

lemma normalize_spec:
  assumes "edit_from c 0 rs (int (length s))"
  obtains rs' where "BaseEdit_normalize c rs = Inr rs'" "edit_from c 0 rs' (int (length s))"
    "app 0 rs' s = app 0 rs s"
proof -
  from normalize_loop_spec [of 0 None rs s "[]"] assms obtain res where
    "normalize_loop c [] None rs = Inr res" "edit_from c 0 res (int (length s))" "app 0 res s = app 0 rs s"
    by auto
  with BaseEdit_new_ok [of c 0 res] that show ?thesis by (simp add: BaseEdit_normalize_def)
qed

subsection \<open>compose\<close>

text \<open>The part of the effect up to the end of a run of replacements.\<close>

primrec apply_to :: "int \<Rightarrow> 'r list \<Rightarrow> 'a list \<Rightarrow> 'a list" where
  "apply_to p [] s = []"
| "apply_to p (r # rs) s = sub s p (st r) @ content r @ apply_to (en r) rs s"

primrec end_of :: "int \<Rightarrow> 'r list \<Rightarrow> int" where
  "end_of p [] = p"
| "end_of p (r # rs) = end_of (en r) rs"

lemma apply_append: "app p (T @ q) s = apply_to p T s @ app (end_of p T) q s"
  by (induction T arbitrary: p) simp_all

lemma end_of_append [simp]: "end_of p (T @ T') = end_of (end_of p T) T'"
  by (induction T arbitrary: p) simp_all

lemma edit_from_append: "edit_from c p (T @ q) n \<Longrightarrow> edit_from c (end_of p T) q n"
  by (induction T arbitrary: p) simp_all

lemma edit_from_appendI:
  "edit_from c p (T @ q) n \<Longrightarrow> edit_from c (end_of p T) q' n \<Longrightarrow> edit_from c p (T @ q') n"
  by (induction T arbitrary: p) simp_all

lemma end_of_ge: "edit_from c p (T @ q) n \<Longrightarrow> p \<le> end_of p T"
proof (induction T arbitrary: p)
  case (Cons r T)
  then have "en r \<le> end_of (en r) T" "p \<le> st r" "repl_ok c r" by simp_all
  then show ?case using repl_ok_le [of c r] by simp
qed simp

lemma length_apply_to:
  "edit_from c p (T @ q) (int (length s)) \<Longrightarrow> 0 \<le> p \<Longrightarrow>
   int (length (apply_to p T s)) = end_of p T - p + (\<Sum>r \<leftarrow> T. dl r)"
proof (induction T arbitrary: p)
  case (Cons r T)
  have r: "repl_ok c r" "p \<le> st r" and T: "edit_from c (en r) (T @ q) (int (length s))"
    using Cons.prems(1) by simp_all
  have "int (length (apply_to (en r) T s)) = end_of (en r) T - en r + (\<Sum>r \<leftarrow> T. dl r)"
    using Cons.IH [OF T] Cons.prems(2) r repl_ok_le [OF r(1)] by linarith
  moreover have "int (length (sub s p (st r))) = st r - p"
    using Cons.prems(2) r repl_ok_le [OF r(1)] edit_from_le [OF T] by simp
  ultimately show ?case using content_length [OF r(1)] by (simp add: dl_eq)
qed simp

text \<open>
  The invariant of the loop: \<open>p\<close> is an offset in \<open>s\<close>, \<open>p + d\<close> the corresponding one in
  the text \<open>mid\<close> after the first edit, and the replacements \<open>q\<close> that are left turn the rest of
  \<open>s\<close> into the rest of \<open>mid\<close>.
\<close>

definition compose_inv :: "'a list \<Rightarrow> 'a list \<Rightarrow> int \<Rightarrow> 'r list \<Rightarrow> int \<Rightarrow> bool" where
  "compose_inv s mid p q d \<longleftrightarrow> 0 \<le> p \<and> 0 \<le> p + d \<and> p + d \<le> int (length mid) \<and>
     edit_from c p q (int (length s)) \<and> drop (nat (p + d)) mid = app p q s"

lemma sub_drop: "0 \<le> a \<Longrightarrow> drop (nat a) t = u @ v \<Longrightarrow> b = a + int (length u) \<Longrightarrow> sub t a b = u"
  by (simp add: sub_def)

lemma drop_drop_nat: "0 \<le> a \<Longrightarrow> a \<le> b \<Longrightarrow> drop (nat b) t = drop (nat (b - a)) (drop (nat a) t)"
  by (simp flip: nat_add_distrib)

text \<open>Moving the position past a run of replacements of the queue.\<close>

lemma compose_inv_append:
  assumes "compose_inv s mid p (T @ q) d"
  shows "compose_inv s mid (end_of p T) q (d + (\<Sum>r \<leftarrow> T. dl r))"
    and "sub mid (p + d) (end_of p T + (d + (\<Sum>r \<leftarrow> T. dl r))) = apply_to p T s"
proof -
  let ?p' = "end_of p T" and ?d' = "d + (\<Sum>r \<leftarrow> T. dl r)"
  have inv: "0 \<le> p" "0 \<le> p + d" "p + d \<le> int (length mid)" "edit_from c p (T @ q) (int (length s))"
    "drop (nat (p + d)) mid = apply_to p T s @ app ?p' q s"
    using assms by (simp_all add: compose_inv_def apply_append)
  have len: "int (length (apply_to p T s)) = (?p' + ?d') - (p + d)"
    using length_apply_to [OF inv(4,1)] by simp
  show "sub mid (p + d) (?p' + ?d') = apply_to p T s"
    by (rule sub_drop [OF inv(2,5)]) (use len in simp)
  have "length (drop (nat (p + d)) mid) = length (apply_to p T s) + length (app ?p' q s)"
    unfolding inv(5) by simp
  then have "?p' + ?d' \<le> int (length mid)" using inv(2,3) len by simp
  moreover have "drop (nat (?p' + ?d')) mid = app ?p' q s"
  proof -
    have "nat ((?p' + ?d') - (p + d)) = length (apply_to p T s)" using len by simp
    then show ?thesis
      using drop_drop_nat [of "p + d" "?p' + ?d'" mid] inv(2,5) len by simp
  qed
  ultimately show "compose_inv s mid ?p' q ?d'"
    using inv len edit_from_append [OF inv(4)] end_of_ge [OF inv(4)] by (simp add: compose_inv_def)
qed

text \<open>Moving it inside a part of \<open>s\<close> that the queue does not touch.\<close>

lemma compose_inv_shift:
  assumes inv: "compose_inv s mid p q d" and "p \<le> p'" and "p' + d \<le> int (length mid)"
    and q: "q \<noteq> [] \<longrightarrow> p' \<le> st (hd q)"
  shows "compose_inv s mid p' q d" and "sub mid (p + d) (p' + d) = sub s p p'"
proof -
  have i: "0 \<le> p" "0 \<le> p + d" "edit_from c p q (int (length s))" "drop (nat (p + d)) mid = app p q s"
    using inv by (simp_all add: compose_inv_def)
  have "int (length (drop (nat (p + d)) mid)) = int (length mid) - (p + d)"
    unfolding length_drop using i(1,2) assms(2,3) by simp
  then have "p' \<le> int (length s)" if "q = []" using length_apply [OF i(3,1)] i(4) that assms(3) by simp
  then have e: "edit_from c p' q (int (length s))" using i(3) q by (cases q) auto
  have "drop (nat (p' + d)) mid = drop (nat (p' - p)) (app p q s)"
    using drop_drop_nat [of "p + d" "p' + d" mid] i assms(2) by simp
  also have "\<dots> = app p' q s" by (rule apply_drop [OF e i(1) assms(2)])
  finally show "compose_inv s mid p' q d" using i e assms(2,3) by (simp add: compose_inv_def)
  have "drop (nat (p + d)) mid = sub s p p' @ app p' q s"
    using i(4) apply_shift [OF e i(1) assms(2)] by simp
  moreover have "int (length (sub s p p')) = p' - p" using i(1) assms(2) edit_from_le [OF e] by simp
  ultimately show "sub mid (p + d) (p' + d) = sub s p p'" using i(2) by (intro sub_drop) simp_all
qed

lemma compose_copy_spec:
  "\<exists>T q'. q = T @ q' \<and> compose_copy c r2 q res d = (q', res @ T, d + (\<Sum>r \<leftarrow> T. dl r)) \<and>
     (q' \<noteq> [] \<longrightarrow> st (hd q') + (d + (\<Sum>r \<leftarrow> T. dl r)) + nl (hd q') \<ge> st r2) \<and>
     (\<forall>p. p + d \<le> st r2 \<longrightarrow> end_of p T + (d + (\<Sum>r \<leftarrow> T. dl r)) \<le> st r2)"
proof (induction q arbitrary: res d)
  case (Cons r1 q)
  show ?case
  proof (cases "st r1 + d + nl r1 \<ge> st r2")
    case True
    then show ?thesis by (intro exI [of _ "[]"] exI [of _ "r1 # q"]) simp
  next
    case False
    from Cons.IH [of "res @ [r1]" "d + dl r1"] obtain T q' where IH: "q = T @ q'"
      "compose_copy c r2 q (res @ [r1]) (d + dl r1) = (q', (res @ [r1]) @ T, d + dl r1 + (\<Sum>r \<leftarrow> T. dl r))"
      "q' \<noteq> [] \<longrightarrow> st (hd q') + (d + dl r1 + (\<Sum>r \<leftarrow> T. dl r)) + nl (hd q') \<ge> st r2"
      "\<And>p. p + (d + dl r1) \<le> st r2 \<Longrightarrow> end_of p T + (d + dl r1 + (\<Sum>r \<leftarrow> T. dl r)) \<le> st r2"
      by blast
    have "en r1 + (d + dl r1) \<le> st r2" using False by (simp add: dl_eq)
    then show ?thesis using IH False
      by (intro exI [of _ "r1 # T"] exI [of _ q']) (simp add: add.assoc)
  qed
qed simp

lemma compose_take_spec:
  "\<exists>T q'. q = T @ q' \<and>
     compose_take c r2 q d f l = (q', d + (\<Sum>r \<leftarrow> T. dl r),
       (if f = None \<and> T \<noteq> [] then Some (hd T) else f), (if T \<noteq> [] then Some (last T) else l)) \<and>
     (q' \<noteq> [] \<longrightarrow> st (hd q') + (d + (\<Sum>r \<leftarrow> T. dl r)) > en r2) \<and>
     (T \<noteq> [] \<longrightarrow> st (last T) + (d + (\<Sum>r \<leftarrow> butlast T. dl r)) \<le> en r2)"
proof (induction q arbitrary: d f l)
  case (Cons r1 q)
  show ?case
  proof (cases "st r1 + d > en r2")
    case True
    then show ?thesis by (intro exI [of _ "[]"] exI [of _ "r1 # q"]) simp
  next
    case False
    let ?f = "case f of None \<Rightarrow> Some r1 | Some f \<Rightarrow> Some f"
    from Cons.IH [of "d + dl r1" ?f "Some r1"] obtain T q' where IH: "q = T @ q'"
      "compose_take c r2 q (d + dl r1) ?f (Some r1) = (q', d + dl r1 + (\<Sum>r \<leftarrow> T. dl r),
         (if ?f = None \<and> T \<noteq> [] then Some (hd T) else ?f), (if T \<noteq> [] then Some (last T) else Some r1))"
      "q' \<noteq> [] \<longrightarrow> st (hd q') + (d + dl r1 + (\<Sum>r \<leftarrow> T. dl r)) > en r2"
      "T \<noteq> [] \<longrightarrow> st (last T) + (d + dl r1 + (\<Sum>r \<leftarrow> butlast T. dl r)) \<le> en r2"
      by blast
    then show ?thesis using False
      by (intro exI [of _ "r1 # T"] exI [of _ q']) (cases f; simp add: add.assoc)
  qed
qed simp

text \<open>
  One replacement of the second edit. What the step appends to the result, followed by any
  continuation from the new position, has the effect of the rest of \<open>mid\<close> up to \<open>r2\<close>, then
  \<open>r2\<close>, then the continuation.
\<close>

definition step_effect :: "'a list \<Rightarrow> 'a list \<Rightarrow> int \<Rightarrow> int \<Rightarrow> 'r \<Rightarrow> 'r list \<Rightarrow> int \<Rightarrow> bool" where
  "step_effect s mid p m r2 res p' \<longleftrightarrow>
     (\<forall>out. edit_from c p' out (int (length s)) \<longrightarrow>
        edit_from c p (res @ out) (int (length s)) \<and>
        app p (res @ out) s = sub mid m (st r2) @ content r2 @ app p' out s)"

text \<open>The second case of the step: no replacement of the first edit touches \<open>r2\<close>.\<close>

lemma step_alone:
  assumes inv: "compose_inv s mid p q d" and r2: "repl_ok c r2" "p + d \<le> st r2" "en r2 \<le> int (length mid)"
    and q: "q \<noteq> [] \<longrightarrow> st (hd q) + d > en r2"
  obtains x where "BaseReplacement_delta c r2 (- d) = Inr x" "compose_inv s mid (en r2 - d) q d"
    "step_effect s mid p (p + d) r2 [x] (en r2 - d)"
proof -
  let ?g = "\<lparr>or_start = st r2 - d, or_endExclusive = en r2 - d\<rparr>"
  let ?x = "rep_slice c r2 ?g \<lparr>or_start = 0, or_endExclusive = nl r2\<rparr>"
  note le = repl_ok_le [OF r2(1)]
  have "0 \<le> nl r2" using r2(1) by (simp add: repl_ok_def)
  then have x: "BaseReplacement_delta c r2 (- d) = Inr ?x"
    using le by (simp add: BaseReplacement_delta_def OffsetRange_delta_def)
  have "repl_ok c ?x" using slice_all [OF r2(1)] le \<open>0 \<le> nl r2\<close> by (simp add: repl_ok_def OffsetRange_inv_def)
  moreover have "compose_inv s mid (st r2 - d) q d" "sub mid (p + d) (st r2) = sub s p (st r2 - d)"
    using compose_inv_shift [OF inv, of "st r2 - d"] r2 le q by auto
  moreover have "compose_inv s mid (en r2 - d) q d"
    using compose_inv_shift(1) [OF inv, of "en r2 - d"] r2 le q by auto
  ultimately show ?thesis
    using x slice_all [OF r2(1), of ?g] r2(2) by (intro that [of ?x]) (auto simp: step_effect_def)
qed

text \<open>
  The first part of the other case: the piece of the text before \<open>r2\<close> that the first touching
  replacement \<open>f\<close> contributes.
\<close>

lemma step_prefix:
  assumes inv: "compose_inv s mid p (f # q) D" and m: "p + D \<le> st r2" "st r2 \<le> int (length mid)"
    and reach: "st f + D + nl f \<ge> st r2"
  defines "start \<equiv> min (st f) (st r2 - D)" and "len \<equiv> st r2 - (st f + D)"
  obtains pre where
    "(if len > 0 then bindE (OffsetRange_emptyAt start) (\<lambda>at. bindE (OffsetRange_new 0 len) (\<lambda>q.
        Inr (res @ [rep_slice c f at q]))) else Inr res) = Inr (res @ pre)"
    "\<And>out. edit_from c start out (int (length s)) \<Longrightarrow> edit_from c p (pre @ out) (int (length s))"
    "\<And>r out. st r = start \<Longrightarrow> app p (pre @ r # out) s = sub mid (p + D) (st r2) @ app start (r # out) s"
    "p \<le> start" "start \<le> st f"
proof -
  have f: "p \<le> st f" "repl_ok c f" "edit_from c (en f) q (int (length s))"
    using inv by (simp_all add: compose_inv_def)
  have p: "0 \<le> p" using inv by (simp add: compose_inv_def)
  have bounds: "p \<le> start" "start \<le> st f" using f(1) m(1) by (auto simp: start_def)
  show ?thesis
  proof (cases "len > 0")
    case False
    then have start: "start = st r2 - D" by (simp add: start_def len_def)
    have "sub mid (p + D) (st r2) = sub s p start"
      using compose_inv_shift(2) [OF inv, of start] bounds m by (simp add: start)
    then show ?thesis using False bounds
      by (intro that [of "[]"]) (auto intro: edit_from_weaken)
  next
    case True
    then have start: "start = st f" by (simp add: start_def len_def)
    let ?q = "\<lparr>or_start = 0, or_endExclusive = len\<rparr>" and ?g = "\<lparr>or_start = start, or_endExclusive = start\<rparr>"
    let ?e = "rep_slice c f ?g ?q"
    have e: "nl ?e = len" "content ?e = sub (content f) 0 len"
      using slice [OF f(2), of ?q ?g] True reach by (simp_all add: len_def)
    have ok: "repl_ok c ?e" using e(1) True by (simp add: repl_ok_def OffsetRange_inv_def)
    have "drop (nat (p + D)) mid = (sub s p (st f) @ sub (content f) 0 len) @ (sub (content f) len (nl f) @ app (en f) q s)"
      using inv sub_append_sub [of 0 len "nl f" "content f"] content_length [OF f(2)] True reach
      by (simp add: compose_inv_def len_def) (metis append_assoc sub_all)
    moreover have "int (length (sub s p (st f))) = st f - p"
      using p f(1) repl_ok_le [OF f(2)] edit_from_le [OF f(3)] by simp
    moreover have "int (length (sub (content f) 0 len)) = len"
      using content_length [OF f(2)] True reach by (simp add: len_def)
    ultimately have "sub mid (p + D) (st r2) = sub s p start @ content ?e"
      using inv e(2) start by (subst sub_drop) (auto simp: compose_inv_def len_def)
    then show ?thesis using True ok e bounds start f
      by (intro that [of "[?e]"])
        (simp_all add: OffsetRange_emptyAt_def OffsetRange_new_def bounds)
  qed
qed

text \<open>The other part: what the last touching replacement \<open>l\<close> contributes after \<open>r2\<close> goes back to the queue.\<close>

lemma step_suffix:
  assumes inv: "compose_inv s mid (en l) q d" and l: "repl_ok c l"
    and seg: "0 \<le> en l + d - nl l" "sub mid (en l + d - nl l) (en l + d) = content l"
    and r2: "0 \<le> en r2" "en r2 \<le> int (length mid)"
    and reach: "en l + d - en r2 \<le> nl l" and q: "q \<noteq> [] \<longrightarrow> st (hd q) + d > en r2"
  defines "len \<equiv> en l + d - en r2"
  obtains q' d' where
    "(if len > 0 then bindE (OffsetRange_ofStartAndLength (en l) 0) (\<lambda>at.
        bindE (OffsetRange_new (nl l - len) (nl l)) (\<lambda>g.
          let e = rep_slice c l at g in Inr (e # q, d - dl e)))
      else Inr (q, d)) = Inr (q', d')"
    "compose_inv s mid (en r2 - d') q' d'" "en l \<le> en r2 - d'"
proof (cases "len > 0")
  case False
  have "q \<noteq> [] \<longrightarrow> en r2 - d \<le> st (hd q)" using q by auto
  with False have "compose_inv s mid (en r2 - d) q d"
    using compose_inv_shift(1) [OF inv, of "en r2 - d"] r2(2) by (simp add: len_def)
  with False show ?thesis by (intro that [of q d]) (simp_all add: len_def)
next
  case True
  let ?g = "\<lparr>or_start = nl l - len, or_endExclusive = nl l\<rparr>" and ?at = "\<lparr>or_start = en l, or_endExclusive = en l\<rparr>"
  let ?e = "rep_slice c l ?at ?g" and ?M = "en l + d"
  have e: "nl ?e = len" "content ?e = sub (content l) (nl l - len) (nl l)"
    using slice [OF l, of ?g ?at] True reach by (simp_all add: len_def)
  have i: "0 \<le> en l" "0 \<le> ?M" "?M \<le> int (length mid)" "edit_from c (en l) q (int (length s))"
    "drop (nat ?M) mid = app (en l) q s"
    using inv by (simp_all add: compose_inv_def)
  have "content ?e = sub mid (en r2) ?M"
    unfolding e(2) seg(2) [symmetric] using seg(1) True reach
    by (subst sub_sub) (simp_all add: len_def)
  moreover have "drop (nat (en r2)) mid = sub mid (en r2) ?M @ drop (nat ?M) mid"
  proof -
    have "nat ?M = nat (?M - en r2) + nat (en r2)" using r2(1) True by (simp add: len_def flip: nat_add_distrib)
    then show ?thesis unfolding sub_def by (simp only: drop_drop [symmetric] append_take_drop_id)
  qed
  ultimately have "drop (nat (en r2)) mid = content ?e @ app (en l) q s" using i(5) by simp
  moreover have "repl_ok c ?e" using e(1) True by (simp add: repl_ok_def OffsetRange_inv_def)
  ultimately have "compose_inv s mid (en l) (?e # q) (d - len)"
    using i r2 by (simp add: compose_inv_def len_def)
  moreover have "en r2 - (d - len) = en l" by (simp add: len_def)
  moreover have "dl ?e = len" using e(1) by (simp add: OffsetRange_length_def)
  ultimately show ?thesis using True
    by (intro that [of "?e # q" "d - len"]) (simp_all add: OffsetRange_ofStartAndLength_def Let_def)
qed

lemma step_effect_after:
  assumes "compose_inv s mid p (T @ q) d" and "step_effect s mid (end_of p T) m r2 res p'"
    and "m = end_of p T + (d + (\<Sum>r \<leftarrow> T. dl r))" "m \<le> st r2" "0 \<le> m"
  shows "step_effect s mid p (p + d) r2 (T @ res) p'"
  unfolding step_effect_def
proof (intro allI impI)
  fix out assume out: "edit_from c p' out (int (length s))"
  have X: "edit_from c (end_of p T) (res @ out) (int (length s))"
    "app (end_of p T) (res @ out) s = sub mid m (st r2) @ content r2 @ app p' out s"
    using assms(2) out by (simp_all add: step_effect_def)
  have inv: "0 \<le> p + d" "edit_from c p (T @ q) (int (length s))" "0 \<le> p"
    using assms(1) by (simp_all add: compose_inv_def)
  have "edit_from c p (T @ res @ out) (int (length s))" by (rule edit_from_appendI [OF inv(2) X(1)])
  moreover have "int (length (apply_to p T s)) = m - (p + d)"
    using length_apply_to [OF inv(2,3)] assms(3) by simp
  then have "p + d \<le> m" by linarith
  then have "app p (T @ res @ out) s = sub mid (p + d) (st r2) @ content r2 @ app p' out s"
    unfolding apply_append [of p T "res @ out"] X(2) compose_inv_append(2) [OF assms(1), symmetric] assms(3) [symmetric]
    using sub_append_sub [OF inv(1) _ assms(4), of mid] by (simp flip: append_assoc)
  ultimately show "edit_from c p ((T @ res) @ out) (int (length s)) \<and>
      app p ((T @ res) @ out) s = sub mid (p + d) (st r2) @ content r2 @ app p' out s" by simp
qed

lemma end_of_last: "T \<noteq> [] \<Longrightarrow> end_of p T = en (last T)"
  by (induction T arbitrary: p) auto

text \<open>The text the last of a run of replacements contributes to \<open>mid\<close>.\<close>

lemma run_last_segment:
  assumes inv: "compose_inv s mid p (T @ q) d" and T: "T \<noteq> []"
  defines "M \<equiv> end_of p T + (d + (\<Sum>r \<leftarrow> T. dl r))"
  shows "0 \<le> M - nl (last T)" "sub mid (M - nl (last T)) M = content (last T)"
    "M = st (last T) + (d + (\<Sum>r \<leftarrow> butlast T. dl r)) + nl (last T)"
proof -
  let ?l = "last T" and ?B = "butlast T"
  let ?pB = "end_of p ?B" and ?dB = "d + (\<Sum>r \<leftarrow> butlast T. dl r)"
  have TB: "T = ?B @ [?l]" using T by simp
  have sum: "(\<Sum>r \<leftarrow> T. dl r) = (\<Sum>r \<leftarrow> ?B. dl r) + dl ?l"
    by (subst TB) (simp only: map_append sum_list_append, simp)
  show M: "M = st ?l + ?dB + nl ?l" using sum end_of_last [OF T] by (simp add: M_def dl_eq)
  have "compose_inv s mid p (?B @ ([?l] @ q)) d" using inv TB by (metis append_assoc)
  then have invB: "compose_inv s mid ?pB ([?l] @ q) ?dB" by (rule compose_inv_append(1))
  then have i: "0 \<le> ?pB" "0 \<le> ?pB + ?dB" "?pB \<le> st ?l" "repl_ok c ?l" "edit_from c (en ?l) q (int (length s))"
    by (simp_all add: compose_inv_def)
  have len: "int (length (sub s ?pB (st ?l))) = st ?l - ?pB"
    using i(1,3) repl_ok_le [OF i(4)] edit_from_le [OF i(5)] by simp
  have drop: "drop (nat (?pB + ?dB)) mid = sub s ?pB (st ?l) @ content ?l @ app (en ?l) q s"
    using invB by (simp add: compose_inv_def)
  have nn: "0 \<le> nl ?l" using i(4) by (simp add: repl_ok_def)
  have start: "M - nl ?l = (?pB + ?dB) + int (length (sub s ?pB (st ?l)))" using M len by simp
  then show "0 \<le> M - nl ?l" using i(2) by linarith
  have "drop (nat (M - nl ?l)) mid = drop (length (sub s ?pB (st ?l))) (drop (nat (?pB + ?dB)) mid)"
    unfolding start using i(2) by (simp add: nat_add_distrib add.commute)
  also have "\<dots> = content ?l @ app (en ?l) q s" unfolding drop by simp
  finally show "sub mid (M - nl ?l) M = content ?l"
    using content_length [OF i(4)] \<open>0 \<le> M - nl ?l\<close> by (intro sub_drop) auto
qed

lemma compose_step_spec:
  assumes inv: "compose_inv s mid p q d" and r2: "repl_ok c r2" "p + d \<le> st r2" "en r2 \<le> int (length mid)"
  obtains res' q' d' where "compose_step c (q, res, d) r2 = Inr (q', res @ res', d')"
    "compose_inv s mid (en r2 - d') q' d'" "step_effect s mid p (p + d) r2 res' (en r2 - d')"
proof -
  obtain T q1 where q: "q = T @ q1"
    and copy: "compose_copy c r2 q res d = (q1, res @ T, d + (\<Sum>r \<leftarrow> T. dl r))"
    and reach1: "q1 \<noteq> [] \<longrightarrow> st (hd q1) + (d + (\<Sum>r \<leftarrow> T. dl r)) + nl (hd q1) \<ge> st r2"
    and before: "end_of p T + (d + (\<Sum>r \<leftarrow> T. dl r)) \<le> st r2"
    using compose_copy_spec [of q r2 res d] r2(2) by blast
  define d1 where "d1 = d + (\<Sum>r \<leftarrow> T. dl r)"
  define p1 where "p1 = end_of p T"
  have inv0: "compose_inv s mid p (T @ q1) d" using inv q by simp
  have inv1: "compose_inv s mid p1 q1 d1" unfolding p1_def d1_def by (rule compose_inv_append(1) [OF inv0])
  obtain U q2 where q1: "q1 = U @ q2"
    and take: "compose_take c r2 q1 d1 None None = (q2, d1 + (\<Sum>r \<leftarrow> U. dl r),
       (if U \<noteq> [] then Some (hd U) else None), (if U \<noteq> [] then Some (last U) else None))"
    and stop: "q2 \<noteq> [] \<longrightarrow> st (hd q2) + (d1 + (\<Sum>r \<leftarrow> U. dl r)) > en r2"
    and reach2: "U \<noteq> [] \<longrightarrow> st (last U) + (d1 + (\<Sum>r \<leftarrow> butlast U. dl r)) \<le> en r2"
    using compose_take_spec [of q1 r2 d1 None None] by auto
  have m1: "p1 + d1 \<le> st r2" "0 \<le> p1 + d1" using before inv1 by (simp_all add: p1_def d1_def compose_inv_def)
  note le2 = repl_ok_le [OF r2(1)]
  have nl2: "0 \<le> nl r2" using r2(1) by (simp add: repl_ok_def)
  have after: "step_effect s mid p (p + d) r2 (T @ res') p'" if "step_effect s mid p1 (p1 + d1) r2 res' p'" for res' p'
    using step_effect_after [OF inv0 that [unfolded p1_def d1_def]] m1 by (simp add: p1_def d1_def)
  show ?thesis
  proof (cases "U = []")
    case True
    then have "q2 = q1" "q1 \<noteq> [] \<longrightarrow> st (hd q1) + d1 > en r2" using q1 stop by simp_all
    then obtain x where x: "BaseReplacement_delta c r2 (- d1) = Inr x" "compose_inv s mid (en r2 - d1) q1 d1"
      "step_effect s mid p1 (p1 + d1) r2 [x] (en r2 - d1)"
      using step_alone [OF inv1 r2(1) m1(1) r2(3)] by blast
    have "compose_step c (q, res, d) r2 = Inr (q1, res @ (T @ [x]), d1)"
      unfolding compose_step_def Let_def prod.case copy d1_def [symmetric] take
      using True x(1) \<open>q2 = q1\<close> by simp
    then show ?thesis using x(2) after [OF x(3)] by (rule that)
  next
    case False
    let ?f = "hd U" and ?l = "last U"
    define d2 where "d2 = d1 + (\<Sum>r \<leftarrow> U. dl r)"
    have invU: "compose_inv s mid p1 (U @ q2) d1" using inv1 q1 by simp
    have invf: "compose_inv s mid p1 (?f # (tl U @ q2)) d1" using invU False by (cases U) simp_all
    have reachf: "st ?f + d1 + nl ?f \<ge> st r2" using reach1 q1 False by (simp add: d1_def)
    have st2: "st r2 \<le> int (length mid)" using le2 r2(3) by simp
    define start where "start = min (st ?f) (st r2 - d1)"
    define plen where "plen = st r2 - (st ?f + d1)"
    obtain pre where pre: "(if plen > 0 then bindE (OffsetRange_emptyAt start) (\<lambda>at. bindE (OffsetRange_new 0 plen) (\<lambda>q.
        Inr ((res @ T) @ [rep_slice c ?f at q]))) else Inr (res @ T)) = Inr ((res @ T) @ pre)"
      "\<And>out. edit_from c start out (int (length s)) \<Longrightarrow> edit_from c p1 (pre @ out) (int (length s))"
      "\<And>r out. st r = start \<Longrightarrow> app p1 (pre @ r # out) s = sub mid (p1 + d1) (st r2) @ app start (r # out) s"
      "p1 \<le> start" "start \<le> st ?f"
      using step_prefix [OF invf m1(1) st2 reachf, of "res @ T"] unfolding start_def plen_def by blast
    have endU: "end_of p1 U = en ?l" by (rule end_of_last [OF False])
    have inv2: "compose_inv s mid (en ?l) q2 d2"
      using compose_inv_append(1) [OF invU] unfolding endU d2_def .
    note seg = run_last_segment [OF invU False, unfolded endU d2_def [symmetric]]
    have eU: "edit_from c p1 (U @ q2) (int (length s))" using invU by (simp add: compose_inv_def)
    have okl: "repl_ok c ?l" "st ?f \<le> en ?l"
    proof -
      have "edit_from c p1 (butlast U @ [?l] @ q2) (int (length s))" using eU False by (metis append_assoc append_butlast_last_id)
      from edit_from_append [OF this] show "repl_ok c ?l" by simp
      have "edit_from c (st ?f) (U @ q2) (int (length s))" using eU False by (cases U) auto
      from end_of_ge [OF this] show "st ?f \<le> en ?l" by (simp add: end_of_last [OF False])
    qed
    define slen where "slen = en ?l + d2 - en r2"
    have reachl: "en ?l + d2 - en r2 \<le> nl ?l" using seg(3) reach2 False by simp
    have en2: "0 \<le> en r2" using m1 le2 by linarith
    obtain q3 d3 where suf: "(if slen > 0 then bindE (OffsetRange_ofStartAndLength (en ?l) 0) (\<lambda>at.
        bindE (OffsetRange_new (nl ?l - slen) (nl ?l)) (\<lambda>g.
          let e = rep_slice c ?l at g in Inr (e # q2, d2 - dl e)))
      else Inr (q2, d2)) = Inr (q3, d3)"
      "compose_inv s mid (en r2 - d3) q3 d3" "en ?l \<le> en r2 - d3"
      using step_suffix [OF inv2 okl(1) seg(1,2) en2 r2(3) reachl] stop unfolding slen_def d2_def [symmetric] by blast
    let ?g = "\<lparr>or_start = start, or_endExclusive = en r2 - d3\<rparr>"
    let ?mid = "rep_slice c r2 ?g \<lparr>or_start = 0, or_endExclusive = nl r2\<rparr>"
    have start_le: "start \<le> en r2 - d3" using pre(5) okl(2) suf(3) by linarith
    have ok: "repl_ok c ?mid" "content ?mid = content r2"
      using slice_all [OF r2(1), of ?g] start_le nl2 by (simp_all add: repl_ok_def OffsetRange_inv_def)
    have eff: "step_effect s mid p1 (p1 + d1) r2 (pre @ [?mid]) (en r2 - d3)"
      unfolding step_effect_def
    proof (intro allI impI conjI)
      fix out assume out: "edit_from c (en r2 - d3) out (int (length s))"
      show "edit_from c p1 ((pre @ [?mid]) @ out) (int (length s))"
        using pre(2) [of "?mid # out"] out ok(1) by simp
      show "app p1 ((pre @ [?mid]) @ out) s = sub mid (p1 + d1) (st r2) @ content r2 @ app (en r2 - d3) out s"
        using pre(3) [of ?mid out] ok(2) by simp
    qed
    have "compose_step c (q, res, d) r2 = Inr (q3, ((res @ T) @ pre) @ [?mid], d3)"
      unfolding compose_step_def Let_def prod.case copy d1_def [symmetric] take d2_def [symmetric]
      by (simp only: False not_False_eq_True if_True option.case start_def [symmetric] plen_def [symmetric]
          slen_def [symmetric] pre(1) suf(1) [unfolded Let_def] bindE_simps prod.case
          OffsetRange_new_Inr start_le nl2)
    then have "compose_step c (q, res, d) r2 = Inr (q3, res @ (T @ (pre @ [?mid])), d3)" by simp
    then show ?thesis using suf(2) after [OF eff] by (rule that)
  qed
qed

lemma compose_loop_spec:
  assumes "compose_inv s mid p q d" and "edit_from c (p + d) r2s (int (length mid))"
  shows "\<exists>out q' d'. foldE (compose_step c) (q, res, d) r2s = Inr (q', res @ out, d') \<and>
    edit_from c p (out @ q') (int (length s)) \<and> app p (out @ q') s = app (p + d) r2s mid"
  using assms
proof (induction r2s arbitrary: p q d res)
  case Nil
  then have i: "0 \<le> p + d" "p + d \<le> int (length mid)" "drop (nat (p + d)) mid = app p q s"
    by (simp_all add: compose_inv_def)
  have "app (p + d) [] mid = drop (nat (p + d)) mid" using i(1,2) by (simp add: sub_def)
  with Nil i(3) show ?case
    by (intro exI [of _ "[]"] exI [of _ q] exI [of _ d]) (simp add: compose_inv_def)
next
  case (Cons r2 r2s)
  have r2: "repl_ok c r2" "p + d \<le> st r2" and rest: "edit_from c (en r2) r2s (int (length mid))"
    using Cons.prems(2) by simp_all
  obtain res' q' d' where step: "compose_step c (q, res, d) r2 = Inr (q', res @ res', d')"
    "compose_inv s mid (en r2 - d') q' d'" "step_effect s mid p (p + d) r2 res' (en r2 - d')"
    by (rule compose_step_spec [OF Cons.prems(1) r2 edit_from_le [OF rest]])
  obtain out q'' d'' where IH: "foldE (compose_step c) (q', res @ res', d') r2s = Inr (q'', (res @ res') @ out, d'')"
    "edit_from c (en r2 - d') (out @ q'') (int (length s))" "app (en r2 - d') (out @ q'') s = app (en r2) r2s mid"
    using Cons.IH [OF step(2), of "res @ res'"] rest by auto
  have "edit_from c p (res' @ out @ q'') (int (length s))"
    "app p (res' @ out @ q'') s = app (p + d) (r2 # r2s) mid"
    using step(3) IH(2,3) by (simp_all add: step_effect_def)
  then show ?case using step(1) IH(1) by (intro exI [of _ "res' @ out"] exI [of _ q'']) simp
qed

lemma compose_inv_init:
  "edit_from c 0 rs (int (length s)) \<Longrightarrow> compose_inv s (app 0 rs s) 0 rs 0"
  by (simp add: compose_inv_def)

lemma compose_spec:
  assumes e1: "edit_from c 0 e1 (int (length s))"
    and e2: "edit_from c 0 e2 (int (length (app 0 e1 s)))"
  obtains r where "BaseEdit_compose c e1 e2 = Inr r" "edit_from c 0 r (int (length s))"
    "app 0 r s = app 0 e2 (app 0 e1 s)"
proof -
  obtain n1 where n1: "BaseEdit_normalize c e1 = Inr n1" "edit_from c 0 n1 (int (length s))"
    "app 0 n1 s = app 0 e1 s" by (rule normalize_spec [OF e1])
  obtain n2 where n2: "BaseEdit_normalize c e2 = Inr n2" "edit_from c 0 n2 (int (length (app 0 e1 s)))"
    "app 0 n2 (app 0 e1 s) = app 0 e2 (app 0 e1 s)" by (rule normalize_spec [OF e2])
  consider "n1 = []" | "n1 \<noteq> []" "n2 = []" | "n1 \<noteq> []" "n2 \<noteq> []" by blast
  then show ?thesis
  proof cases
    case 1
    then have "app 0 e1 s = s" using n1(3) by simp
    with 1 n1(1) n2 show ?thesis by (intro that [of n2]) (simp_all add: BaseEdit_compose_def BaseEdit_isEmpty_def)
  next
    case 2
    with n1 n2 show ?thesis by (intro that [of n1]) (simp_all add: BaseEdit_compose_def BaseEdit_isEmpty_def)
  next
    case 3
    let ?mid = "app 0 e1 s"
    have inv: "compose_inv s ?mid 0 n1 0" using compose_inv_init [OF n1(2)] n1(3) by simp
    obtain out q d where loop: "foldE (compose_step c) (n1, [], 0) n2 = Inr (q, out, d)"
      "edit_from c 0 (out @ q) (int (length s))" "app 0 (out @ q) s = app 0 n2 ?mid"
      using compose_loop_spec [OF inv, of n2 "[]"] n2(2) by auto
    obtain r where r: "BaseEdit_normalize c (out @ q) = Inr r" "edit_from c 0 r (int (length s))"
      "app 0 r s = app 0 (out @ q) s" by (rule normalize_spec [OF loop(2)])
    have "BaseEdit_compose c e1 e2 = Inr r"
      using 3 n1(1) n2(1) loop(1) BaseEdit_new_ok [OF loop(2)] r(1)
      by (simp add: BaseEdit_compose_def BaseEdit_isEmpty_def)
    then show ?thesis using r(2,3) loop(3) n2(3) by (intro that) simp_all
  qed
qed

subsection \<open>Offsets, new ranges and inverses\<close>

lemma getNewRanges_loop_spec:
  assumes "compose_inv s t p rs d"
  shows "\<exists>gs. getNewRanges_loop c d rs = Inr gs \<and> map (\<lambda>g. sub t (or_start g) (or_endExclusive g)) gs = map content rs \<and>
    (\<forall>g \<in> set gs. 0 \<le> or_start g \<and> or_start g \<le> or_endExclusive g \<and> or_endExclusive g \<le> int (length t))"
  using assms
proof (induction rs arbitrary: p d)
  case (Cons r rs)
  have r: "repl_ok c r" "0 \<le> st r + d" using Cons.prems by (simp_all add: compose_inv_def)
  have inv: "compose_inv s t p ([r] @ rs) d" using Cons.prems by simp
  have inv': "compose_inv s t (en r) rs (d + dl r)" using compose_inv_append(1) [OF inv] by simp
  from Cons.IH [OF this] obtain gs where gs: "getNewRanges_loop c (d + dl r) rs = Inr gs"
    "map (\<lambda>g. sub t (or_start g) (or_endExclusive g)) gs = map content rs"
    "\<forall>g \<in> set gs. 0 \<le> or_start g \<and> or_start g \<le> or_endExclusive g \<and> or_endExclusive g \<le> int (length t)" by blast
  have "sub t (st r + d) (st r + d + nl r) = content r"
    using run_last_segment(2) [OF inv] by (simp add: dl_eq algebra_simps)
  moreover have "st r + d \<le> st r + d + nl r" using r by (simp add: repl_ok_def)
  moreover have "st r + d + nl r \<le> int (length t)" using inv' by (simp add: compose_inv_def dl_eq)
  ultimately show ?case using gs r(2)
    by (intro exI [of _ "\<lparr>or_start = st r + d, or_endExclusive = st r + d + nl r\<rparr> # gs"])
      (simp add: OffsetRange_ofStartAndLength_def BaseReplacement_getLengthDelta_def)
qed simp

text \<open>A prefix of the text that no replacement touches is copied.\<close>

lemma app_hd:
  assumes "edit_from c p rs (int (length s))" "0 \<le> p" "p < int (length s)"
    and "rs \<noteq> [] \<longrightarrow> p < st (hd rs)"
  shows "app p rs s \<noteq> [] \<and> hd (app p rs s) = s ! nat p"
proof -
  have "p + 1 \<le> int (length s)" using assms(3) by simp
  then have e: "edit_from c (p + 1) rs (int (length s))" using assms(1,4) by (cases rs) auto
  have "sub s p (p + 1) = [s ! nat p]"
    using assms(2,3) by (simp add: sub_def take_Suc_conv_app_nth flip: Cons_nth_drop_Suc)
  with apply_shift [OF e assms(2)] show ?thesis by simp
qed

lemma applyToOffsetOrUndefined_loop_spec:
  assumes "compose_inv s t p rs d" and "p \<le> x" "x < int (length s)"
  shows "case applyToOffsetOrUndefined_loop c x d rs of
      None \<Rightarrow> (\<exists>r \<in> set rs. st r \<le> x \<and> x < en r)
    | Some y \<Rightarrow> (\<forall>r \<in> set rs. \<not> (st r \<le> x \<and> x < en r)) \<and> 0 \<le> y \<and> y < int (length t) \<and> t ! nat y = s ! nat x"
  using assms
proof (induction rs arbitrary: p d)
  case Nil
  then have i: "0 \<le> p" "0 \<le> p + d" "drop (nat (p + d)) t = sub s p (int (length s))" "p + d \<le> int (length t)"
    by (simp_all add: compose_inv_def)
  have "int (length (drop (nat (p + d)) t)) = int (length s) - p"
    unfolding i(3) using i(1) Nil.prems by simp
  then have len: "int (length t) - (p + d) = int (length s) - p" using i(2,4) by simp
  have "t ! nat (x + d) = drop (nat (p + d)) t ! nat (x - p)"
    using i(2) Nil.prems(2) len Nil.prems(3) i(4) by (simp add: add.commute flip: nat_add_distrib)
  also have "\<dots> = s ! nat x"
    unfolding i(3) using i(1) Nil.prems(2,3) by (simp add: sub_def flip: nat_add_distrib)
  finally show ?case using len i(1,2) Nil.prems(2,3) by simp
next
  case (Cons r rs)
  have inv: "compose_inv s t p ([r] @ rs) d" using Cons.prems by simp
  have r: "repl_ok c r" "p \<le> st r" "edit_from c (en r) rs (int (length s))" "0 \<le> p" "0 \<le> p + d"
    using Cons.prems(1) by (simp_all add: compose_inv_def)
  have later: "en r \<le> st r'" if "r' \<in> set rs" for r'
    using r(3) that
  proof (induction rs arbitrary: r)
    case (Cons a rs)
    then have "en r \<le> st a" "repl_ok c a" "edit_from c (en a) rs (int (length s))" by simp_all
    moreover have "en a \<le> st r'" if "r' \<in> set rs" using Cons.IH [of a] that calculation by blast
    ultimately show ?case using Cons.prems(2) repl_ok_le [of c a] by force
  qed simp
  show ?case
  proof (cases "st r \<le> x")
    case False
    then have no: "\<forall>r' \<in> set (r # rs). \<not> (st r' \<le> x \<and> x < en r')"
      using later repl_ok_le [OF r(1)] by fastforce
    have "x + d \<le> int (length t)"
    proof -
      have "int (length (apply_to p [r] s)) = en r - p + dl r"
        using length_apply_to [of p "[r]" rs s] Cons.prems(1) by (simp add: compose_inv_def)
      moreover have "en r + (d + dl r) \<le> int (length t)"
        using compose_inv_append(1) [OF inv] by (simp add: compose_inv_def)
      moreover have "0 \<le> nl r" using r(1) by (simp add: repl_ok_def)
      ultimately show ?thesis using False by (simp add: dl_eq)
    qed
    then have x: "compose_inv s t x (r # rs) d"
      using compose_inv_shift(1) [OF Cons.prems(1), of x] Cons.prems(2) False by simp
    then have "edit_from c x (r # rs) (int (length s))" "drop (nat (x + d)) t = app x (r # rs) s" "0 \<le> x" "0 \<le> x + d"
      by (simp_all add: compose_inv_def del: edit_from.simps apply_from.simps)
    with app_hd [of x "r # rs" s] Cons.prems(3) False have
      "drop (nat (x + d)) t \<noteq> []" "hd (drop (nat (x + d)) t) = s ! nat x" "0 \<le> x + d" by auto
    then have "x + d < int (length t)" "t ! nat (x + d) = s ! nat x" by (simp_all add: hd_drop_conv_nth)
    with no False \<open>0 \<le> x + d\<close> show ?thesis by simp
  next
    case st: True
    show ?thesis
    proof (cases "x < en r")
      case True
      with st show ?thesis by simp
    next
      case False
      have "compose_inv s t (en r) rs (d + dl r)" using compose_inv_append(1) [OF inv] by simp
      from Cons.IH [OF this] False Cons.prems(3) st show ?thesis
        by (auto split: option.splits)
    qed
  qed
qed

text \<open>\<open>applyToOffset\<close> is monotone and stays inside the new text, so ranges are mapped to ranges.\<close>

lemma applyToOffset_loop_ge:
  "edit_from c p rs n \<Longrightarrow> p \<le> x \<Longrightarrow> p + d \<le> applyToOffset_loop c x d rs"
proof (induction rs arbitrary: p d)
  case (Cons r rs)
  have r: "repl_ok c r" "p \<le> st r" "edit_from c (en r) rs n" using Cons.prems(1) by simp_all
  have "p + d \<le> en r + (d + dl r)" using r(1,2) by (simp add: dl_eq repl_ok_def)
  with Cons.IH [OF r(3), of "d + dl r"] r(2) Cons.prems(2) show ?case by auto
qed simp

lemma applyToOffset_loop_mono:
  assumes "edit_from c p rs n" "p \<le> x" "x \<le> y"
  shows "applyToOffset_loop c x d rs \<le> applyToOffset_loop c y d rs"
  using assms
proof (induction rs arbitrary: p d)
  case (Cons r rs)
  have r: "repl_ok c r" "p \<le> st r" "edit_from c (en r) rs n" using Cons.prems(1) by simp_all
  have pos: "st r + d \<le> en r + (d + dl r)" using r(1) by (simp add: dl_eq repl_ok_def)
  have later: "en r + (d + dl r) \<le> applyToOffset_loop c z (d + dl r) rs" if "en r \<le> z" for z
    using applyToOffset_loop_ge [OF r(3) that] .
  consider "y < st r" | "x < st r" "st r \<le> y" "y < en r" | "x < st r" "en r \<le> y" "st r \<le> y"
    | "st r \<le> x" "y < en r" | "st r \<le> x" "x < en r" "en r \<le> y" | "en r \<le> x" "st r \<le> x"
    using Cons.prems(3) by linarith
  then show ?case
  proof cases
    case 3
    then show ?thesis using later [of y] pos Cons.prems(2) by simp
  next
    case 5
    then show ?thesis using later [of y] pos r(2) Cons.prems(3) by simp
  next
    case 6
    then show ?thesis
      using Cons.IH [OF r(3) 6(1) Cons.prems(3), of "d + dl r"] pos r(2) Cons.prems(3) by simp
  qed (use Cons.prems r(2) in simp_all)
qed simp

text \<open>The replacements that undo an edit, as pairs of a range and the items to put there.\<close>

primrec inverse_of :: "int \<Rightarrow> 'r list \<Rightarrow> 'a list \<Rightarrow> (OffsetRange \<times> 'a list) list" where
  "inverse_of d [] s = []"
| "inverse_of d (r # rs) s =
     (OffsetRange.fields (st r + d) (st r + d + nl r), sub s (st r) (en r)) # inverse_of (d + dl r) rs s"

lemma inverse_of_spec:
  assumes "compose_inv s t p rs d"
  shows "apply_from fst snd (p + d) (inverse_of d rs s) t = sub s p (int (length s))"
  using assms
proof (induction rs arbitrary: p d)
  case Nil
  then have i: "0 \<le> p + d" "p + d \<le> int (length t)" "drop (nat (p + d)) t = sub s p (int (length s))"
    by (simp_all add: compose_inv_def)
  have "sub t (p + d) (int (length t)) = drop (nat (p + d)) t" using i(1,2) by (simp add: sub_def)
  then show ?case using i(3) by simp
next
  case (Cons r rs)
  have inv: "compose_inv s t p ([r] @ rs) d" using Cons.prems by simp
  have inv': "compose_inv s t (en r) rs (d + dl r)" using compose_inv_append(1) [OF inv] by simp
  have r: "repl_ok c r" "p \<le> st r" "edit_from c (en r) rs (int (length s))" "0 \<le> p"
    using Cons.prems by (simp_all add: compose_inv_def)
  have "st r + d \<le> int (length t)"
    using inv' r(1) by (simp add: compose_inv_def dl_eq repl_ok_def)
  then have "sub t (p + d) (st r + d) = sub s p (st r)"
    using compose_inv_shift(2) [OF Cons.prems, of "st r"] r(2) by simp
  moreover have e: "st r + d + nl r = en r + (d + dl r)" by (simp add: dl_eq)
  ultimately have "apply_from fst snd (p + d) (inverse_of d (r # rs) s) t =
      sub s p (st r) @ sub s (st r) (en r) @ sub s (en r) (int (length s))"
    unfolding inverse_of.simps apply_from.simps fst_conv snd_conv OffsetRange.defs OffsetRange.select_convs e
      Cons.IH [OF inv'] by simp
  also have "\<dots> = sub s p (int (length s))"
    using r repl_ok_le [OF r(1)] edit_from_le [OF r(3)] by (simp add: sub_append_sub flip: append_assoc)
  finally show ?case .
qed

lemma inverse_of_sorted:
  assumes "edit_from c p rs n"
  shows "sorted_wrt (\<lambda>a b. or_endExclusive (fst a) \<le> or_start (fst b)) (inverse_of d rs s) \<and>
    (\<forall>g \<in> set (inverse_of d rs s). p + d \<le> or_start (fst g) \<and> OffsetRange_inv (fst g))"
  using assms
proof (induction rs arbitrary: p d)
  case (Cons r rs)
  have r: "repl_ok c r" "p \<le> st r" "edit_from c (en r) rs n" using Cons.prems by simp_all
  have "p + d \<le> en r + (d + dl r)" using r(1,2) by (simp add: dl_eq repl_ok_def)
  moreover have "st r + d + nl r = en r + (d + dl r)" by (simp add: dl_eq)
  moreover have "0 \<le> nl r" using r(1) by (simp add: repl_ok_def)
  ultimately show ?case using Cons.IH [OF r(3), of "d + dl r"] r(2)
    by (fastforce simp: OffsetRange.defs OffsetRange_inv_def)
qed simp

lemma inverse_of_edit:
  assumes "compose_inv s t p rs d" and "map (rep_range c') res = map fst (inverse_of d rs s)"
    and "\<forall>r \<in> set res. 0 \<le> rep_newLength c' r"
  shows "edit_from c' (p + d) res (int (length t))"
  using assms
proof (induction rs arbitrary: p d res)
  case (Cons r rs)
  have inv: "compose_inv s t p ([r] @ rs) d" using Cons.prems by simp
  have inv': "compose_inv s t (en r) rs (d + dl r)" using compose_inv_append(1) [OF inv] by simp
  have r: "repl_ok c r" "p \<le> st r" using Cons.prems by (simp_all add: compose_inv_def)
  obtain x res' where res: "res = x # res'" "rep_range c' x = OffsetRange.fields (st r + d) (st r + d + nl r)"
    "map (rep_range c') res' = map fst (inverse_of (d + dl r) rs s)"
    using Cons.prems(2) by (cases res) auto
  have "edit_from c' (en r + (d + dl r)) res' (int (length t))"
    using Cons.IH [OF inv' res(3)] Cons.prems(3) res(1) by simp
  moreover have "en r + (d + dl r) = or_endExclusive (rep_range c' x)"
    unfolding res(2) by (simp add: dl_eq OffsetRange.defs)
  ultimately have "edit_from c' (or_endExclusive (rep_range c' x)) res' (int (length t))" by simp
  then show ?case
    using res(1) r Cons.prems(3) by (simp add: res(2) OffsetRange.defs repl_ok_def OffsetRange_inv_def)
qed (simp add: compose_inv_def)

subsection \<open>Normal forms\<close>

text \<open>
  Every replacement does something and no two of them touch, which is what \<open>normalize\<close> ends
  with when touching replacements can always be joined.
\<close>

primrec gap_from :: "int \<Rightarrow> 'r list \<Rightarrow> bool" where
  "gap_from p [] \<longleftrightarrow> True"
| "gap_from p (r # rs) \<longleftrightarrow> p < st r \<and> \<not> BaseReplacement_isEmpty c r \<and> gap_from (en r) rs"

lemma normalize_loop_normal:
  assumes joinable: "\<And>r r'. rep_tryJoinTouching c r r' \<noteq> Inr None"
    and "edit_from c p (opt_list lst @ rs) n" "0 \<le> p" "\<forall>l. lst = Some l \<longrightarrow> \<not> BaseReplacement_isEmpty c l"
    and "normalize_loop c acc lst rs = Inr (acc @ res)"
  shows "case lst of None \<Rightarrow> gap_from (- 1) res
    | Some l \<Rightarrow> \<exists>l' res'. res = l' # res' \<and> st l' = st l \<and> \<not> BaseReplacement_isEmpty c l' \<and> gap_from (en l') res'"
  using assms(2-)
proof (induction rs arbitrary: acc lst p res)
  case Nil
  then show ?case by (cases lst) auto
next
  case (Cons r rs)
  have ok: "repl_ok c r" "en r \<le> n" using Cons.prems(1) edit_from_le by (cases lst; force)+
  show ?case
  proof (cases "BaseReplacement_isEmpty c r")
    case True
    have e: "edit_from c p (opt_list lst @ rs) n"
      using Cons.prems(1) repl_ok_le [OF ok(1)] by (cases lst) (auto intro: edit_from_weaken)
    have "normalize_loop c acc lst rs = Inr (acc @ res)"
      using Cons.prems(4) True by (simp add: BaseReplacement_isEmpty_def)
    from Cons.IH [OF e Cons.prems(2,3) this] show ?thesis .
  next
    case False
    then have unf: "normalize_loop c acc lst (r # rs) = (case lst of
          None \<Rightarrow> normalize_loop c acc (Some r) rs
        | Some l \<Rightarrow>
            if en l = st r then
              bindE (rep_tryJoinTouching c l r) (\<lambda>joined. case joined of
                  Some j \<Rightarrow> normalize_loop c acc (Some j) rs
                | None \<Rightarrow> normalize_loop c (acc @ [l]) (Some r) rs)
            else normalize_loop c (acc @ [l]) (Some r) rs)"
      by (simp only: BaseReplacement_isEmpty_def normalize_loop.simps if_False)
    show ?thesis
    proof (cases lst)
      case None
      have "normalize_loop c acc (Some r) rs = Inr (acc @ res)" using unf Cons.prems(4) None by simp
      from Cons.IH [OF _ Cons.prems(2) _ this] Cons.prems(1,2) False None show ?thesis by auto
    next
      case (Some l)
      have l: "p \<le> st l" "repl_ok c l" "edit_from c (en l) (r # rs) n" "\<not> BaseReplacement_isEmpty c l"
        using Cons.prems(1,3) Some by simp_all
      have enl: "0 \<le> en l" using l(1) Cons.prems(2) repl_ok_le [OF l(2)] by linarith
      show ?thesis
      proof (cases "en l = st r")
        case True
        from join [OF l(2) ok(1) True] joinable [of l r] obtain j where jo: "rep_tryJoinTouching c l r = Inr (Some j)"
          and j: "rep_range c j = OffsetRange.fields (st l) (en r)" "nl j = nl l + nl r"
          by (metis option.exhaust)
        have "repl_ok c j" using j l(2) ok(1) True by (auto simp: repl_ok_def OffsetRange_inv_def OffsetRange.defs)
        then have e: "edit_from c p (opt_list (Some j) @ rs) n" using l j(1) by (simp add: OffsetRange.defs)
        have ne: "\<not> BaseReplacement_isEmpty c j"
          using l(2,4) ok(1) False j True
          by (auto simp: BaseReplacement_isEmpty_def OffsetRange_length_def OffsetRange.defs repl_ok_def OffsetRange_inv_def)
        have "normalize_loop c acc (Some j) rs = Inr (acc @ res)" using unf Cons.prems(4) Some True jo by simp
        from Cons.IH [OF e Cons.prems(2) _ this] ne Some j(1) show ?thesis by (simp add: OffsetRange.defs)
      next
        case gap: False
        have loop: "normalize_loop c (acc @ [l]) (Some r) rs = Inr (acc @ res)"
          using unf Cons.prems(4) Some gap by simp
        obtain res' where res': "res = l # res'"
        proof -
          have "\<exists>k. normalize_loop c (acc @ [l]) (Some r) rs = Inr ((acc @ [l]) @ k)"
          proof -
            have "edit_from c (en l) (opt_list (Some r) @ rs) (int (length (replicate (nat n) (undefined :: 'a))))"
              using l(3) edit_from_le [OF l(3)] enl by simp
            from normalize_loop_spec [OF this enl, of "acc @ [l]"] show ?thesis by blast
          qed
          then show ?thesis using loop that by auto
        qed
        then have "normalize_loop c (acc @ [l]) (Some r) rs = Inr ((acc @ [l]) @ res')" using loop by simp
        from Cons.IH [OF _ enl _ this] l(3) False have
          "\<exists>l' res''. res' = l' # res'' \<and> st l' = st r \<and> \<not> BaseReplacement_isEmpty c l' \<and> gap_from (en l') res''"
          by simp
        moreover have "en l < st r" using gap l(3) by simp
        ultimately show ?thesis using Some res' l(4) by auto
      qed
    qed
  qed
qed

lemma normalize_normal:
  assumes "\<And>r r'. rep_tryJoinTouching c r r' \<noteq> Inr None"
    and "edit_from c 0 rs n" and "BaseEdit_normalize c rs = Inr rs'"
  shows "gap_from (- 1) rs'"
proof -
  obtain res where "normalize_loop c [] None rs = Inr res" "BaseEdit_new c res = Inr rs'"
    using assms(3) by (auto simp: BaseEdit_normalize_def)
  moreover have "rs' = res" using calculation(2) by (auto simp: BaseEdit_new_def)
  ultimately show ?thesis
    using normalize_loop_normal [OF assms(1), of 0 None rs n "[]" res] assms(2) by simp
qed

text \<open>
  On data whose items are all different and new, the result shows which items were kept and what
  was put between them, so a normal form is determined by its effect.
\<close>

lemma app_gap_start:
  assumes "edit_from c p rs (int (length s))" "gap_from p rs" "0 \<le> p"
  shows "app p rs s = [] \<and> p = int (length s) \<or> p < int (length s) \<and> app p rs s \<noteq> [] \<and> hd (app p rs s) = s ! nat p"
proof (cases "p < int (length s)")
  case True
  with app_hd [OF assms(1,3)] assms(2) show ?thesis by (cases rs) auto
next
  case False
  then have "p = int (length s)" using edit_from_le [OF assms(1)] by simp
  then have "rs = []" using assms(1,2) repl_ok_le edit_from_le by (cases rs) force+
  then show ?thesis using \<open>p = _\<close> by simp
qed

lemma takeWhile_new:
  "set xs \<inter> F = {} \<Longrightarrow> ys = [] \<or> hd ys \<in> F \<Longrightarrow> takeWhile (\<lambda>x. x \<notin> F) (xs @ ys) = xs \<and> dropWhile (\<lambda>x. x \<notin> F) (xs @ ys) = ys"
  by (induction xs) (cases ys; auto)+

text \<open>A replacement cannot start before the first replacement of an edit with the same effect.\<close>

lemma normal_start:
  assumes A: "edit_from c p (r # A) (int (length s))" "gap_from p (r # A) \<or> gap_from q (r # A) \<and> q \<le> p" "0 \<le> p"
    and B: "edit_from c p B (int (length s))" and new: "distinct s" "set (content r) \<inter> set s = {}"
    and eq: "app p (r # A) s = app p B s" and Bst: "B \<noteq> [] \<longrightarrow> st r < st (hd B)"
  shows False
proof -
  have r: "p \<le> st r" "repl_ok c r" "edit_from c (en r) A (int (length s))"
    "\<not> BaseReplacement_isEmpty c r" "gap_from (en r) A" using A(1,2) by auto
  note le = repl_ok_le [OF r(2)]
  have stn: "st r < int (length s)"
  proof (cases "en r = st r")
    case False
    then show ?thesis using le edit_from_le [OF r(3)] by simp
  next
    case True
    show ?thesis
    proof (rule ccontr)
      assume "\<not> st r < int (length s)"
      then have st: "st r = int (length s)" using le edit_from_le [OF r(3)] by simp
      then have "B = []" using Bst B repl_ok_le edit_from_le by (cases B) force+
      then have "sub s p (st r) @ content r @ app (en r) A s = sub s p (st r)" using eq st by simp
      then have "content r = []" by simp
      then show False using r(2,4) True content_length [OF r(2)]
        by (simp add: BaseReplacement_isEmpty_def OffsetRange_length_def)
    qed
  qed
  have "edit_from c (st r) B (int (length s))" using B Bst stn by (cases B) auto
  then have "app p B s = sub s p (st r) @ app (st r) B s" using A(3) r(1) by (intro apply_shift)
  then have tail: "content r @ app (en r) A s = app (st r) B s" using eq by simp
  have hdB: "app (st r) B s \<noteq> []" "hd (app (st r) B s) = s ! nat (st r)"
    using app_hd [of "st r" B s] \<open>edit_from c (st r) B _\<close> A(3) r(1) stn Bst by auto
  have mem: "s ! nat (st r) \<in> set s" using stn A(3) r(1) by (intro nth_mem) simp
  show False
  proof (cases "content r = []")
    case False
    then have "hd (app (st r) B s) = hd (content r)" using tail [symmetric] by simp
    then show False using hdB(2) mem False new(2) by (metis disjoint_iff hd_in_set)
  next
    case True
    then have "st r < en r" using r(2,4) le content_length [OF r(2)]
      by (auto simp: BaseReplacement_isEmpty_def OffsetRange_length_def)
    moreover have "en r < int (length s)" "hd (app (en r) A s) = s ! nat (en r)"
      using app_gap_start [OF r(3,5)] tail True hdB(1) A(3) r(1) le by auto
    ultimately show False using tail True hdB(2) new(1) A(3) r(1)
      by (simp add: nth_eq_iff_index_eq)
  qed
qed

lemma normal_unique:
  assumes "edit_from c p A (int (length s))" "edit_from c p B (int (length s))" "0 \<le> p"
    and "gap_from q A" "gap_from q B" "q \<le> p" and new: "distinct s"
      "\<forall>r \<in> set A \<union> set B. set (content r) \<inter> set s = {}"
    and eq: "app p A s = app p B s"
  shows "map (\<lambda>r. (rep_range c r, content r)) A = map (\<lambda>r. (rep_range c r, content r)) B"
  using assms(1-6,8-)
proof (induction A arbitrary: B p q)
  case Nil
  show ?case
  proof (cases B)
    case (Cons r B')
    have "app p (r # B') s = app p [] s" using Nil Cons by simp
    then show ?thesis using normal_start [of p r B' s q "[]"] Nil Cons new(1) by auto
  qed simp
next
  case (Cons r A)
  obtain r' B' where B: "B = r' # B'"
    using normal_start [of p r A s q B] Cons.prems new(1) by (cases B) auto
  have e: "edit_from c p (r # A) (int (length s))" "edit_from c p (r' # B') (int (length s))"
    "gap_from q (r # A)" "gap_from q (r' # B')" "app p (r # A) s = app p (r' # B') s"
    "set (content r) \<inter> set s = {}" "set (content r') \<inter> set s = {}"
    using Cons.prems B by simp_all
  have st: "st r = st r'"
  proof (rule ccontr)
    assume "st r \<noteq> st r'"
    then have "st r < st r' \<or> st r' < st r" by linarith
    then show False
    proof
      assume "st r < st r'"
      then show False
        using normal_start [OF e(1) disjI2 Cons.prems(3) e(2) new(1) e(6,5), of q] e(3) Cons.prems(6) by simp
    next
      assume "st r' < st r"
      then show False
        using normal_start [OF e(2) disjI2 Cons.prems(3) e(1) new(1) e(7) e(5) [symmetric], of q] e(4) Cons.prems(6)
        by simp
    qed
  qed
  have r: "repl_ok c r" "edit_from c (en r) A (int (length s))" "gap_from (en r) A" "0 \<le> en r"
    and r': "repl_ok c r'" "edit_from c (en r') B' (int (length s))" "gap_from (en r') B'" "0 \<le> en r'"
    using e(1-4) Cons.prems(3) repl_ok_le [of c r] repl_ok_le [of c r'] by auto
  have tail: "content r @ app (en r) A s = content r' @ app (en r') B' s" using e(5) st by simp
  have sA: "app (en r) A s = [] \<and> en r = int (length s) \<or>
      en r < int (length s) \<and> app (en r) A s \<noteq> [] \<and> hd (app (en r) A s) = s ! nat (en r)"
    and sB: "app (en r') B' s = [] \<and> en r' = int (length s) \<or>
      en r' < int (length s) \<and> app (en r') B' s \<noteq> [] \<and> hd (app (en r') B' s) = s ! nat (en r')"
    using app_gap_start [OF r(2-4)] app_gap_start [OF r'(2-4)] .
  have hd: "app (en r) A s = [] \<or> hd (app (en r) A s) \<in> set s" "app (en r') B' s = [] \<or> hd (app (en r') B' s) \<in> set s"
    using sA sB r(4) r'(4) by (metis nat_less_iff nth_mem)+
  have ct: "content r = content r'" "app (en r) A s = app (en r') B' s"
    using takeWhile_new [OF e(6) hd(1)] takeWhile_new [OF e(7) hd(2)] tail by metis+
  then have en: "en r = en r'"
    using sA sB new(1) r(4) r'(4) by (metis distinct_conv_nth int_nat_eq nat_less_iff)
  have "map (\<lambda>r. (rep_range c r, content r)) A = map (\<lambda>r. (rep_range c r, content r)) B'"
    using Cons.IH [of "en r" B' "en r"] r r' ct(2) en Cons.prems(7) B by simp
  moreover have "rep_range c r = rep_range c r'" using st en by (cases "rep_range c r"; cases "rep_range c r'") simp
  ultimately show ?case using B ct(1) by simp
qed

end

end
