(* ===== verification/Js_Strings.thy ===== *)
theory Js_Strings
  imports Prelude
begin

text \<open>
  Strings as JavaScript has them, sequences of 16-bit code units, and the functions of
  \<open>src/vs/base/common/strings.ts\<close> on them.
\<close>

type_synonym js_string = "16 word list"

abbreviation CR :: "16 word" where "CR \<equiv> 13"
abbreviation LF :: "16 word" where "LF \<equiv> 10"

text \<open>\<open>arr.join(sep)\<close>\<close>

fun js_join :: "js_string \<Rightarrow> js_string list \<Rightarrow> js_string" where
  "js_join sep [] = []"
| "js_join sep [s] = s"
| "js_join sep (s # t # rest) = s @ sep @ js_join sep (t # rest)"

subsection \<open>Common prefix and suffix\<close>

text \<open>The loops read both strings below the shorter length; the suffix loop reads from the ends.\<close>

function commonPrefixLength_loop :: "'a list \<Rightarrow> 'a list \<Rightarrow> nat \<Rightarrow> nat \<Rightarrow> nat" where
  "commonPrefixLength_loop a b len i =
     (if i < len then
        if a ! i \<noteq> b ! i then i else commonPrefixLength_loop a b len (i + 1)
      else len)"
  by pat_completeness auto
termination by (relation "measure (\<lambda>(_, _, len, i). len - i)") auto

declare commonPrefixLength_loop.simps [simp del]

definition commonPrefixLength :: "'a list \<Rightarrow> 'a list \<Rightarrow> nat" where
  "commonPrefixLength a b = commonPrefixLength_loop a b (min (length a) (length b)) 0"

function commonSuffixLength_loop :: "'a list \<Rightarrow> 'a list \<Rightarrow> nat \<Rightarrow> nat \<Rightarrow> nat" where
  "commonSuffixLength_loop a b len i =
     (if i < len then
        if a ! (length a - 1 - i) \<noteq> b ! (length b - 1 - i) then i
        else commonSuffixLength_loop a b len (i + 1)
      else len)"
  by pat_completeness auto
termination by (relation "measure (\<lambda>(_, _, len, i). len - i)") auto

declare commonSuffixLength_loop.simps [simp del]

definition commonSuffixLength :: "'a list \<Rightarrow> 'a list \<Rightarrow> nat" where
  "commonSuffixLength a b = commonSuffixLength_loop a b (min (length a) (length b)) 0"

lemma commonPrefixLength_loop_spec:
  assumes "i \<le> len"
  shows "(let k = commonPrefixLength_loop a b len i in i \<le> k \<and> k \<le> len \<and> (\<forall>j. i \<le> j \<and> j < k \<longrightarrow> a ! j = b ! j) \<and>
     (k < len \<longrightarrow> a ! k \<noteq> b ! k))"
  using assms
proof (induction a b len i rule: commonPrefixLength_loop.induct)
  case (1 a b len i)
  note unfold = commonPrefixLength_loop.simps [of a b len i]
  consider "\<not> i < len" | "i < len" "a ! i \<noteq> b ! i" | "i < len" "a ! i = b ! i" by blast
  then show ?case
  proof cases
    case 3
    have "a ! j = b ! j" if "i \<le> j" "\<forall>j. Suc i \<le> j \<and> j < k \<longrightarrow> a ! j = b ! j" "j < k" for j k
      using that 3(2) by (cases "i = j") auto
    with 3 "1.IH" show ?thesis by (auto simp: unfold Let_def)
  qed (use "1.prems" commonPrefixLength_loop.simps [of a b len len] in \<open>auto simp: unfold\<close>)
qed

text \<open>
  Both functions return the length of the longest common part: that many units agree and the next
  pair, where both strings have one, differs.
\<close>

lemma commonPrefixLength_spec:
  "commonPrefixLength a b \<le> length a" "commonPrefixLength a b \<le> length b"
  "take (commonPrefixLength a b) a = take (commonPrefixLength a b) b"
  "commonPrefixLength a b < length a \<Longrightarrow> commonPrefixLength a b < length b \<Longrightarrow>
   a ! commonPrefixLength a b \<noteq> b ! commonPrefixLength a b"
  using commonPrefixLength_loop_spec [of 0 "min (length a) (length b)" a b]
  by (auto simp: commonPrefixLength_def Let_def intro!: nth_equalityI)

lemma commonSuffixLength_rev: "commonSuffixLength a b = commonPrefixLength (rev a) (rev b)"
proof -
  have "commonSuffixLength_loop a b len i = commonPrefixLength_loop (rev a) (rev b) len i"
    if "len \<le> length a" "len \<le> length b" for len i
    using that
  proof (induction a b len i rule: commonSuffixLength_loop.induct)
    case (1 a b len i)
    then show ?case
      by (simp add: commonSuffixLength_loop.simps [of a b len i]
          commonPrefixLength_loop.simps [of "rev a" "rev b" len i] rev_nth)
  qed
  then show ?thesis by (simp add: commonSuffixLength_def commonPrefixLength_def)
qed

lemma commonSuffixLength_spec:
  "commonSuffixLength a b \<le> length a" "commonSuffixLength a b \<le> length b"
  "drop (length a - commonSuffixLength a b) a = drop (length b - commonSuffixLength a b) b"
proof -
  show le: "commonSuffixLength a b \<le> length a" "commonSuffixLength a b \<le> length b"
    using commonPrefixLength_spec(1,2) [of "rev a" "rev b"] by (simp_all add: commonSuffixLength_rev)
  have "rev (drop (length a - commonSuffixLength a b) a) = rev (drop (length b - commonSuffixLength a b) b)"
    using commonPrefixLength_spec(3) [of "rev a" "rev b"] le by (simp add: commonSuffixLength_rev rev_drop)
  then show "drop (length a - commonSuffixLength a b) a = drop (length b - commonSuffixLength a b) b"
    by (simp only: rev_is_rev_conv)
qed

lemma commonPrefixLength_max:
  assumes "take j a = take j b" and "j \<le> length a" and "j \<le> length b"
  shows "j \<le> commonPrefixLength a b"
proof (rule ccontr)
  assume "\<not> j \<le> commonPrefixLength a b"
  moreover from this have "a ! commonPrefixLength a b = b ! commonPrefixLength a b"
    by (metis assms(1) not_le nth_take)
  ultimately show False using commonPrefixLength_spec(4) [of a b] assms(2,3) by linarith
qed

text \<open>
  Taking the common suffix and then the common prefix of the rest leaves the least there is to change: when two
  strings differ in one place, \<open>x\<close> against \<open>y\<close>, no more than \<open>x\<close> and \<open>y\<close> is left.
\<close>

lemma common_suffix_prefix_minimal:
  fixes u w x y :: "'a list"
  defines "s \<equiv> u @ x @ w" and "t \<equiv> u @ y @ w"
  defines "k \<equiv> commonSuffixLength s t"
  defines "p \<equiv> commonPrefixLength (take (length s - k) s) (take (length t - k) t)"
  shows "length s \<le> k + p + length x \<and> length t \<le> k + p + length y"
proof -
  have "length w \<le> k"
    unfolding k_def commonSuffixLength_rev by (rule commonPrefixLength_max) (simp_all add: s_def t_def)
  show ?thesis
  proof (cases "length u \<le> length s - k \<and> length u \<le> length t - k")
    case True
    then have le: "length u \<le> length s - k" "length u \<le> length t - k" by simp_all
    have "take (length u) (take (length s - k) s) = take (length u) (take (length t - k) t)"
      unfolding take_take min_absorb1 [OF le(1)] min_absorb1 [OF le(2)] by (simp add: s_def t_def)
    then have "length u \<le> p" unfolding p_def using le by (intro commonPrefixLength_max) simp_all
    with \<open>length w \<le> k\<close> show ?thesis by (simp add: s_def t_def)
  next
    case False
    let ?m = "min (length s - k) (length t - k)"
    have m: "?m \<le> length u" using False by linarith
    have "take ?m (take (length s - k) s) = take ?m (take (length t - k) t)"
      unfolding take_take min.absorb1 [OF min.cobounded1] min.absorb1 [OF min.cobounded2] using m by (simp add: s_def t_def)
    then have "?m \<le> p" unfolding p_def by (intro commonPrefixLength_max) simp_all
    moreover have "length s + length y = length t + length x" by (simp add: s_def t_def)
    ultimately show ?thesis by linarith
  qed
qed

end
