(* ===== verification/Edit_Classes.thy ===== *)
theory Edit_Classes
  imports Edit_Compose Js_Strings
begin

text \<open>
  The concrete edits of \<open>src/vs/editor/common/core/edits/\<close>: \<open>stringEdit.ts\<close> (string edits
  with and without data), \<open>arrayEdit.ts\<close>, \<open>lengthEdit.ts\<close> and the annotation replacement of
  \<open>edit.ts\<close>. For each class its replacement record, the methods it gives \<open>BaseEdit\<close> as a
  \<open>repl_ops\<close>, and an interpretation of \<open>replacement_class\<close>: a string replacement stands
  for its text, an array replacement for its items, a length replacement for that many copies of a
  fill item and an annotation replacement for that many copies of its annotation.
\<close>

subsection \<open>String replacements\<close>

record BaseStringReplacement =
  bsr_replaceRange :: OffsetRange
  bsr_newText :: js_string

type_synonym StringReplacement = BaseStringReplacement

abbreviation StringReplacement_new :: "OffsetRange \<Rightarrow> js_string \<Rightarrow> StringReplacement" where
  "StringReplacement_new r t \<equiv> \<lparr>bsr_replaceRange = r, bsr_newText = t\<rparr>"

definition BaseStringReplacement_getNewLength :: "'x BaseStringReplacement_scheme \<Rightarrow> int" where
  "BaseStringReplacement_getNewLength this = int (length (bsr_newText this))"

definition BaseStringReplacement_replace :: "'x BaseStringReplacement_scheme \<Rightarrow> js_string \<Rightarrow> js_string" where
  "BaseStringReplacement_replace this str =
     js_substring str 0 (or_start (bsr_replaceRange this)) @ bsr_newText this @
     js_substring str (or_endExclusive (bsr_replaceRange this)) (int (length str))"

definition BaseStringReplacement_isNeutralOn :: "'x BaseStringReplacement_scheme \<Rightarrow> js_string \<Rightarrow> bool" where
  "BaseStringReplacement_isNeutralOn this text \<longleftrightarrow>
     bsr_newText this = js_substring text (or_start (bsr_replaceRange this)) (or_endExclusive (bsr_replaceRange this))"

definition BaseStringReplacement_removeCommonSuffixPrefix ::
    "'x BaseStringReplacement_scheme \<Rightarrow> js_string \<Rightarrow> js_error + StringReplacement" where
  "BaseStringReplacement_removeCommonSuffixPrefix this originalText =
     (let oldText = js_substring originalText (or_start (bsr_replaceRange this)) (or_endExclusive (bsr_replaceRange this));
          prefixLen = int (commonPrefixLength oldText (bsr_newText this));
          suffixLen = min (int (length oldText) - prefixLen)
            (min (int (length (bsr_newText this)) - prefixLen) (int (commonSuffixLength oldText (bsr_newText this))))
      in bindE (OffsetRange_new (or_start (bsr_replaceRange this) + prefixLen)
                  (or_endExclusive (bsr_replaceRange this) - suffixLen)) (\<lambda>replaceRange.
         Inr (StringReplacement_new replaceRange
           (js_substring (bsr_newText this) prefixLen (int (length (bsr_newText this)) - suffixLen)))))"

text \<open>\<open>replace(/\r\n|\n/g, eol)\<close>.\<close>

fun replace_eols :: "js_string \<Rightarrow> js_string \<Rightarrow> js_string" where
  "replace_eols eol [] = []"
| "replace_eols eol [x] = (if x = LF then eol else [x])"
| "replace_eols eol (x # y # xs) =
     (if x = CR \<and> y = LF then eol @ replace_eols eol xs
      else if x = LF then eol @ replace_eols eol (y # xs)
      else x # replace_eols eol (y # xs))"

definition BaseStringReplacement_normalizeEOL :: "'x BaseStringReplacement_scheme \<Rightarrow> js_string \<Rightarrow> StringReplacement" where
  "BaseStringReplacement_normalizeEOL this eol =
     StringReplacement_new (bsr_replaceRange this) (replace_eols eol (bsr_newText this))"

text \<open>These two call the \<open>slice\<close> of the class of the replacement.\<close>

definition BaseStringReplacement_removeCommonPrefix ::
    "'x BaseStringReplacement_scheme repl_ops \<Rightarrow> 'x BaseStringReplacement_scheme \<Rightarrow> js_string
     \<Rightarrow> js_error + 'x BaseStringReplacement_scheme" where
  "BaseStringReplacement_removeCommonPrefix c this source =
     (let oldText = OffsetRange_substring (bsr_replaceRange this) source;
          prefixLen = int (commonPrefixLength oldText (bsr_newText this))
      in if prefixLen = 0 then Inr this
         else bindE (OffsetRange_deltaStart (bsr_replaceRange this) prefixLen) (\<lambda>r.
              bindE (OffsetRange_new prefixLen (int (length (bsr_newText this)))) (\<lambda>q.
                Inr (rep_slice c this r q))))"

definition BaseStringReplacement_removeCommonSuffix ::
    "'x BaseStringReplacement_scheme repl_ops \<Rightarrow> 'x BaseStringReplacement_scheme \<Rightarrow> js_string
     \<Rightarrow> js_error + 'x BaseStringReplacement_scheme" where
  "BaseStringReplacement_removeCommonSuffix c this source =
     (let oldText = OffsetRange_substring (bsr_replaceRange this) source;
          suffixLen = int (commonSuffixLength oldText (bsr_newText this))
      in if suffixLen = 0 then Inr this
         else bindE (OffsetRange_deltaEnd (bsr_replaceRange this) (- suffixLen)) (\<lambda>r.
              bindE (OffsetRange_new 0 (int (length (bsr_newText this)) - suffixLen)) (\<lambda>q.
                Inr (rep_slice c this r q))))"

definition BaseStringReplacement_removeCommonSuffixAndPrefix ::
    "'x BaseStringReplacement_scheme repl_ops \<Rightarrow> 'x BaseStringReplacement_scheme \<Rightarrow> js_string
     \<Rightarrow> js_error + 'x BaseStringReplacement_scheme" where
  "BaseStringReplacement_removeCommonSuffixAndPrefix c this source =
     bindE (BaseStringReplacement_removeCommonSuffix c this source)
       (\<lambda>r. BaseStringReplacement_removeCommonPrefix c r source)"

definition StringReplacement_insert :: "int \<Rightarrow> js_string \<Rightarrow> js_error + StringReplacement" where
  "StringReplacement_insert offset text =
     bindE (OffsetRange_emptyAt offset) (\<lambda>r. Inr (StringReplacement_new r text))"

definition StringReplacement_replace :: "OffsetRange \<Rightarrow> js_string \<Rightarrow> StringReplacement" where
  "StringReplacement_replace rng text = StringReplacement_new rng text"

definition StringReplacement_delete :: "OffsetRange \<Rightarrow> StringReplacement" where
  "StringReplacement_delete rng = StringReplacement_new rng []"

definition StringReplacement_equals :: "StringReplacement \<Rightarrow> StringReplacement \<Rightarrow> bool" where
  "StringReplacement_equals this other \<longleftrightarrow>
     OffsetRange_equals (bsr_replaceRange this) (bsr_replaceRange other) \<and> bsr_newText this = bsr_newText other"

definition StringReplacement_tryJoinTouching ::
    "StringReplacement \<Rightarrow> StringReplacement \<Rightarrow> js_error + StringReplacement option" where
  "StringReplacement_tryJoinTouching this other =
     bindE (OffsetRange_joinRightTouching (bsr_replaceRange this) (bsr_replaceRange other))
       (\<lambda>r. Inr (Some (StringReplacement_new r (bsr_newText this @ bsr_newText other))))"

definition StringReplacement_slice :: "StringReplacement \<Rightarrow> OffsetRange \<Rightarrow> OffsetRange option \<Rightarrow> StringReplacement" where
  "StringReplacement_slice this rng rangeInReplacement =
     StringReplacement_new rng (case rangeInReplacement of
         None \<Rightarrow> bsr_newText this | Some q \<Rightarrow> OffsetRange_substring q (bsr_newText this))"

definition string_class :: "StringReplacement repl_ops" where
  "string_class = \<lparr>rep_range = bsr_replaceRange, rep_newLength = BaseStringReplacement_getNewLength,
     rep_tryJoinTouching = StringReplacement_tryJoinTouching,
     rep_slice = (\<lambda>r g q. StringReplacement_slice r g (Some q)), rep_equals = StringReplacement_equals\<rparr>"

text \<open>The wire format of a replacement.\<close>

record ISerializedStringReplacement =
  ser_txt :: js_string
  ser_pos :: int
  ser_len :: int

definition BaseStringReplacement_toJson :: "'x BaseStringReplacement_scheme \<Rightarrow> ISerializedStringReplacement" where
  "BaseStringReplacement_toJson this =
     \<lparr>ser_txt = bsr_newText this, ser_pos = or_start (bsr_replaceRange this),
      ser_len = OffsetRange_length (bsr_replaceRange this)\<rparr>"

definition StringReplacement_fromJson :: "ISerializedStringReplacement \<Rightarrow> js_error + StringReplacement" where
  "StringReplacement_fromJson data =
     bindE (OffsetRange_ofStartAndLength (ser_pos data) (ser_len data))
       (\<lambda>r. Inr (StringReplacement_new r (ser_txt data)))"

subsection \<open>Replacements with data\<close>

text \<open>
  \<open>IEditData.join\<close> is a method of the data, here the parameter \<open>data_join\<close>;
  \<open>VoidEditData\<close> is the type \<open>unit\<close>.
\<close>

record 't AnnotatedStringReplacement = BaseStringReplacement +
  asr_data :: 't

abbreviation AnnotatedStringReplacement_new :: "OffsetRange \<Rightarrow> js_string \<Rightarrow> 't \<Rightarrow> 't AnnotatedStringReplacement" where
  "AnnotatedStringReplacement_new r t x \<equiv> \<lparr>bsr_replaceRange = r, bsr_newText = t, asr_data = x\<rparr>"

definition VoidEditData_join :: "unit \<Rightarrow> unit \<Rightarrow> unit option" where
  "VoidEditData_join this other = Some this"

definition AnnotatedStringReplacement_equals ::
    "'t AnnotatedStringReplacement \<Rightarrow> 't AnnotatedStringReplacement \<Rightarrow> bool" where
  "AnnotatedStringReplacement_equals this other \<longleftrightarrow>
     OffsetRange_equals (bsr_replaceRange this) (bsr_replaceRange other) \<and>
     bsr_newText this = bsr_newText other \<and> asr_data this = asr_data other"

definition AnnotatedStringReplacement_tryJoinTouching ::
    "('t \<Rightarrow> 't \<Rightarrow> 't option) \<Rightarrow> 't AnnotatedStringReplacement \<Rightarrow> 't AnnotatedStringReplacement
     \<Rightarrow> js_error + 't AnnotatedStringReplacement option" where
  "AnnotatedStringReplacement_tryJoinTouching data_join this other =
     (case data_join (asr_data this) (asr_data other) of
        None \<Rightarrow> Inr None
      | Some joined \<Rightarrow>
          bindE (OffsetRange_joinRightTouching (bsr_replaceRange this) (bsr_replaceRange other))
            (\<lambda>r. Inr (Some (AnnotatedStringReplacement_new r (bsr_newText this @ bsr_newText other) joined))))"

definition AnnotatedStringReplacement_slice ::
    "'t AnnotatedStringReplacement \<Rightarrow> OffsetRange \<Rightarrow> OffsetRange option \<Rightarrow> 't AnnotatedStringReplacement" where
  "AnnotatedStringReplacement_slice this rng rangeInReplacement =
     AnnotatedStringReplacement_new rng (case rangeInReplacement of
         None \<Rightarrow> bsr_newText this | Some q \<Rightarrow> OffsetRange_substring q (bsr_newText this)) (asr_data this)"

definition annotated_class :: "('t \<Rightarrow> 't \<Rightarrow> 't option) \<Rightarrow> 't AnnotatedStringReplacement repl_ops" where
  "annotated_class data_join =
     \<lparr>rep_range = bsr_replaceRange, rep_newLength = BaseStringReplacement_getNewLength,
      rep_tryJoinTouching = AnnotatedStringReplacement_tryJoinTouching data_join,
      rep_slice = (\<lambda>r g q. AnnotatedStringReplacement_slice r g (Some q)),
      rep_equals = AnnotatedStringReplacement_equals\<rparr>"

subsection \<open>Array, length and annotation replacements\<close>

record 'a ArrayReplacement =
  ar_replaceRange :: OffsetRange
  ar_newValue :: "'a list"

definition ArrayReplacement_equals :: "'a ArrayReplacement \<Rightarrow> 'a ArrayReplacement \<Rightarrow> bool" where
  "ArrayReplacement_equals this other \<longleftrightarrow>
     OffsetRange_equals (ar_replaceRange this) (ar_replaceRange other) \<and>
     length (ar_newValue this) = length (ar_newValue other) \<and>
     (\<forall>i \<in> set [0..<length (ar_newValue this)]. ar_newValue this ! i = ar_newValue other ! i)"

definition ArrayReplacement_getNewLength :: "'a ArrayReplacement \<Rightarrow> int" where
  "ArrayReplacement_getNewLength this = int (length (ar_newValue this))"

definition ArrayReplacement_tryJoinTouching ::
    "'a ArrayReplacement \<Rightarrow> 'a ArrayReplacement \<Rightarrow> js_error + 'a ArrayReplacement option" where
  "ArrayReplacement_tryJoinTouching this other =
     bindE (OffsetRange_joinRightTouching (ar_replaceRange this) (ar_replaceRange other))
       (\<lambda>r. Inr (Some \<lparr>ar_replaceRange = r, ar_newValue = ar_newValue this @ ar_newValue other\<rparr>))"

definition ArrayReplacement_slice :: "'a ArrayReplacement \<Rightarrow> OffsetRange \<Rightarrow> OffsetRange \<Rightarrow> 'a ArrayReplacement" where
  "ArrayReplacement_slice this rng rangeInReplacement =
     \<lparr>ar_replaceRange = rng, ar_newValue = OffsetRange_slice rangeInReplacement (ar_newValue this)\<rparr>"

definition array_class :: "'a ArrayReplacement repl_ops" where
  "array_class = \<lparr>rep_range = ar_replaceRange, rep_newLength = ArrayReplacement_getNewLength,
     rep_tryJoinTouching = ArrayReplacement_tryJoinTouching, rep_slice = ArrayReplacement_slice,
     rep_equals = ArrayReplacement_equals\<rparr>"

record LengthReplacement =
  lrep_replaceRange :: OffsetRange
  lrep_newLength :: int

definition LengthReplacement_create :: "int \<Rightarrow> int \<Rightarrow> int \<Rightarrow> js_error + LengthReplacement" where
  "LengthReplacement_create startOffset endOffsetExclusive newLength =
     bindE (OffsetRange_new startOffset endOffsetExclusive)
       (\<lambda>r. Inr \<lparr>lrep_replaceRange = r, lrep_newLength = newLength\<rparr>)"

definition LengthReplacement_equals :: "LengthReplacement \<Rightarrow> LengthReplacement \<Rightarrow> bool" where
  "LengthReplacement_equals this other \<longleftrightarrow>
     OffsetRange_equals (lrep_replaceRange this) (lrep_replaceRange other) \<and> lrep_newLength this = lrep_newLength other"

definition LengthReplacement_tryJoinTouching ::
    "LengthReplacement \<Rightarrow> LengthReplacement \<Rightarrow> js_error + LengthReplacement option" where
  "LengthReplacement_tryJoinTouching this other =
     bindE (OffsetRange_joinRightTouching (lrep_replaceRange this) (lrep_replaceRange other))
       (\<lambda>r. Inr (Some \<lparr>lrep_replaceRange = r, lrep_newLength = lrep_newLength this + lrep_newLength other\<rparr>))"

definition LengthReplacement_slice :: "LengthReplacement \<Rightarrow> OffsetRange \<Rightarrow> OffsetRange \<Rightarrow> LengthReplacement" where
  "LengthReplacement_slice this rng rangeInReplacement =
     \<lparr>lrep_replaceRange = rng, lrep_newLength = OffsetRange_length rangeInReplacement\<rparr>"

definition length_class :: "LengthReplacement repl_ops" where
  "length_class = \<lparr>rep_range = lrep_replaceRange, rep_newLength = lrep_newLength,
     rep_tryJoinTouching = LengthReplacement_tryJoinTouching, rep_slice = LengthReplacement_slice,
     rep_equals = LengthReplacement_equals\<rparr>"

record 't AnnotationReplacement =
  anr_replaceRange :: OffsetRange
  anr_newLength :: int
  anr_annotation :: 't

definition AnnotationReplacement_equals :: "'t AnnotationReplacement \<Rightarrow> 't AnnotationReplacement \<Rightarrow> bool" where
  "AnnotationReplacement_equals this other \<longleftrightarrow>
     OffsetRange_equals (anr_replaceRange this) (anr_replaceRange other) \<and>
     anr_newLength this = anr_newLength other \<and> anr_annotation this = anr_annotation other"

definition AnnotationReplacement_tryJoinTouching ::
    "'t AnnotationReplacement \<Rightarrow> 't AnnotationReplacement \<Rightarrow> js_error + 't AnnotationReplacement option" where
  "AnnotationReplacement_tryJoinTouching this other =
     (if anr_annotation this \<noteq> anr_annotation other then Inr None
      else bindE (OffsetRange_joinRightTouching (anr_replaceRange this) (anr_replaceRange other))
        (\<lambda>r. Inr (Some \<lparr>anr_replaceRange = r, anr_newLength = anr_newLength this + anr_newLength other,
           anr_annotation = anr_annotation this\<rparr>)))"

definition AnnotationReplacement_slice ::
    "'t AnnotationReplacement \<Rightarrow> OffsetRange \<Rightarrow> OffsetRange option \<Rightarrow> 't AnnotationReplacement" where
  "AnnotationReplacement_slice this rng rangeInReplacement =
     \<lparr>anr_replaceRange = rng, anr_newLength = (case rangeInReplacement of
         None \<Rightarrow> anr_newLength this | Some q \<Rightarrow> OffsetRange_length q), anr_annotation = anr_annotation this\<rparr>"

definition annotation_class :: "'t AnnotationReplacement repl_ops" where
  "annotation_class = \<lparr>rep_range = anr_replaceRange, rep_newLength = anr_newLength,
     rep_tryJoinTouching = AnnotationReplacement_tryJoinTouching,
     rep_slice = (\<lambda>r g q. AnnotationReplacement_slice r g (Some q)), rep_equals = AnnotationReplacement_equals\<rparr>"

subsection \<open>The contract holds for every class\<close>

lemma joinRightTouching_Inr:
  "OffsetRange_inv a \<Longrightarrow> OffsetRange_inv b \<Longrightarrow> or_endExclusive a = or_start b \<Longrightarrow>
   OffsetRange_joinRightTouching a b = Inr (OffsetRange.fields (or_start a) (or_endExclusive b))"
  by (simp add: OffsetRange_joinRightTouching_def OffsetRange_inv_def OffsetRange.defs)

lemma substring_eq_sub:
  "0 \<le> or_start q \<Longrightarrow> or_start q \<le> or_endExclusive q \<Longrightarrow> or_endExclusive q \<le> int (length t) \<Longrightarrow>
   OffsetRange_substring q t = sub t (or_start q) (or_endExclusive q) \<and>
   OffsetRange_slice q t = sub t (or_start q) (or_endExclusive q)"
  by (simp add: OffsetRange_substring_def OffsetRange_slice_def js_substring_sub js_slice_sub)

interpretation stringClass: replacement_class string_class bsr_newText
  by unfold_locales
    (simp_all add: string_class_def repl_ok_def BaseStringReplacement_getNewLength_def
      StringReplacement_tryJoinTouching_def joinRightTouching_Inr StringReplacement_slice_def substring_eq_sub)

interpretation annotatedClass: replacement_class "annotated_class data_join" bsr_newText for data_join
  by unfold_locales
    (auto simp: annotated_class_def repl_ok_def BaseStringReplacement_getNewLength_def
      AnnotatedStringReplacement_tryJoinTouching_def joinRightTouching_Inr AnnotatedStringReplacement_slice_def
      substring_eq_sub split: option.splits)

interpretation arrayClass: replacement_class array_class ar_newValue
  by unfold_locales
    (simp_all add: array_class_def repl_ok_def ArrayReplacement_getNewLength_def
      ArrayReplacement_tryJoinTouching_def joinRightTouching_Inr ArrayReplacement_slice_def substring_eq_sub)

lemma sub_replicate:
  "0 \<le> i \<Longrightarrow> i \<le> j \<Longrightarrow> j \<le> n \<Longrightarrow> sub (replicate (nat n) x) i j = replicate (nat (j - i)) x"
  by (simp add: sub_def min_def nat_le_eq_zle flip: nat_diff_distrib)

lemma replicate_nat_add:
  "0 \<le> m \<Longrightarrow> 0 \<le> n \<Longrightarrow> replicate (nat (m + n)) x = replicate (nat m) x @ replicate (nat n) x"
  by (simp add: nat_add_distrib replicate_add)

interpretation lengthClass: replacement_class length_class "\<lambda>r. replicate (nat (lrep_newLength r)) fillItem" for fillItem
  by unfold_locales
    (simp_all add: length_class_def repl_ok_def LengthReplacement_tryJoinTouching_def joinRightTouching_Inr
      LengthReplacement_slice_def OffsetRange_length_def sub_replicate replicate_nat_add)

interpretation annotationClass: replacement_class annotation_class
    "\<lambda>r. replicate (nat (anr_newLength r)) (anr_annotation r)"
  by unfold_locales
    (auto simp: annotation_class_def repl_ok_def AnnotationReplacement_tryJoinTouching_def joinRightTouching_Inr
      AnnotationReplacement_slice_def OffsetRange_length_def sub_replicate replicate_nat_add)

end
