(* ===== verification/String_Edit.thy ===== *)
theory String_Edit
  imports Edit_Classes
begin

text \<open>
  The edits of \<open>stringEdit.ts\<close>, \<open>arrayEdit.ts\<close> and \<open>lengthEdit.ts\<close>: applying, composing,
  inverting and rebasing them. A string edit is the array of its replacements; the operations that
  \<open>BaseStringEdit\<close> shares between the two string classes take the \<open>repl_ops\<close> of the class
  where they call one of its methods.
\<close>

subsection \<open>BaseStringEdit\<close>

definition BaseStringEdit_apply :: "'x BaseStringReplacement_scheme list \<Rightarrow> js_string \<Rightarrow> js_string" where
  "BaseStringEdit_apply this base =
     (let (resultText, pos) =
        foldl (\<lambda>(resultText, pos) edit.
             (resultText @ [js_substring base pos (or_start (bsr_replaceRange edit)), bsr_newText edit],
              or_endExclusive (bsr_replaceRange edit))) ([], 0) this
      in concat (resultText @ [js_substring base pos (int (length base))]))"

definition StringEdit_new :: "StringReplacement list \<Rightarrow> js_error + StringReplacement list" where
  "StringEdit_new = BaseEdit_new string_class"

fun inverseOnSlice_loop ::
    "(int \<Rightarrow> int \<Rightarrow> js_string) \<Rightarrow> int \<Rightarrow> 'x BaseStringReplacement_scheme list \<Rightarrow> js_error + StringReplacement list" where
  "inverseOnSlice_loop getOriginalSlice offset [] = Inr []"
| "inverseOnSlice_loop getOriginalSlice offset (e # es) =
     bindE (OffsetRange_ofStartAndLength (or_start (bsr_replaceRange e) + offset) (int (length (bsr_newText e))))
       (\<lambda>r.
     bindE (inverseOnSlice_loop getOriginalSlice
              (offset + (int (length (bsr_newText e)) - OffsetRange_length (bsr_replaceRange e))) es)
       (\<lambda>edits. Inr (StringReplacement_replace r
            (getOriginalSlice (or_start (bsr_replaceRange e)) (or_endExclusive (bsr_replaceRange e))) # edits)))"

definition BaseStringEdit_inverseOnSlice ::
    "'x BaseStringReplacement_scheme list \<Rightarrow> (int \<Rightarrow> int \<Rightarrow> js_string) \<Rightarrow> js_error + StringReplacement list" where
  "BaseStringEdit_inverseOnSlice this getOriginalSlice =
     bindE (inverseOnSlice_loop getOriginalSlice 0 this) StringEdit_new"

definition BaseStringEdit_inverse ::
    "'x BaseStringReplacement_scheme list \<Rightarrow> js_string \<Rightarrow> js_error + StringReplacement list" where
  "BaseStringEdit_inverse this original = BaseStringEdit_inverseOnSlice this (js_substring original)"

text \<open>The two predicates at the end of \<open>stringEdit.ts\<close>.\<close>

definition areConcurrentInserts :: "OffsetRange \<Rightarrow> OffsetRange \<Rightarrow> bool" where
  "areConcurrentInserts r1 r2 \<longleftrightarrow> OffsetRange_isEmpty r1 \<and> OffsetRange_isEmpty r2 \<and> or_start r1 = or_start r2"

definition isInsertStrictlyInsideRange :: "OffsetRange \<Rightarrow> OffsetRange \<Rightarrow> bool" where
  "isInsertStrictlyInsideRange ins rng \<longleftrightarrow>
     OffsetRange_isEmpty ins \<and> or_start rng < or_start ins \<and> or_start ins < or_endExclusive rng"

definition rebase_conflict :: "OffsetRange \<Rightarrow> OffsetRange \<Rightarrow> bool" where
  "rebase_conflict our base \<longleftrightarrow> OffsetRange_intersects our base \<or> areConcurrentInserts our base \<or>
     isInsertStrictlyInsideRange our base \<or> isInsertStrictlyInsideRange base our"

text \<open>
  The loop walks both arrays by index; here the arguments are the replacements not yet processed.
  The result is \<open>None\<close> where the source returns \<open>undefined\<close>.
\<close>

function tryRebase_loop ::
    "bool \<Rightarrow> 'x BaseStringReplacement_scheme list \<Rightarrow> StringReplacement list \<Rightarrow> int \<Rightarrow> StringReplacement list
     \<Rightarrow> js_error + StringReplacement list option" where
  "tryRebase_loop noOverlap [] base offset newEdits = Inr (Some newEdits)"
| "tryRebase_loop noOverlap (ourEdit # ours) [] offset newEdits =
     bindE (OffsetRange_delta (bsr_replaceRange ourEdit) offset) (\<lambda>transformedRange.
       tryRebase_loop noOverlap ours [] offset
         (newEdits @ [StringReplacement_new transformedRange (bsr_newText ourEdit)]))"
| "tryRebase_loop noOverlap (ourEdit # ours) (baseEdit # bases) offset newEdits =
     (if rebase_conflict (bsr_replaceRange ourEdit) (bsr_replaceRange baseEdit) then
        if noOverlap then Inr None else tryRebase_loop noOverlap ours (baseEdit # bases) offset newEdits
      else if or_start (bsr_replaceRange ourEdit) < or_start (bsr_replaceRange baseEdit) \<or>
          (OffsetRange_isEmpty (bsr_replaceRange ourEdit) \<and>
           or_start (bsr_replaceRange ourEdit) = or_start (bsr_replaceRange baseEdit)) then
        bindE (OffsetRange_delta (bsr_replaceRange ourEdit) offset) (\<lambda>transformedRange.
          tryRebase_loop noOverlap ours (baseEdit # bases) offset
            (newEdits @ [StringReplacement_new transformedRange (bsr_newText ourEdit)]))
      else tryRebase_loop noOverlap (ourEdit # ours) bases
             (offset + (int (length (bsr_newText baseEdit)) - OffsetRange_length (bsr_replaceRange baseEdit))) newEdits)"
  by pat_completeness auto
termination by (relation "measure (\<lambda>(_, our, base, _). length our + length base)") auto

definition BaseStringEdit__tryRebase ::
    "'x BaseStringReplacement_scheme list \<Rightarrow> StringReplacement list \<Rightarrow> bool \<Rightarrow> js_error + StringReplacement list option" where
  "BaseStringEdit__tryRebase this base noOverlap =
     bindE (tryRebase_loop noOverlap this base 0 []) (\<lambda>res. case res of
         None \<Rightarrow> Inr None
       | Some newEdits \<Rightarrow> bindE (StringEdit_new newEdits) (\<lambda>e. Inr (Some e)))"

definition BaseStringEdit_tryRebase ::
    "'x BaseStringReplacement_scheme list \<Rightarrow> StringReplacement list \<Rightarrow> js_error + StringReplacement list option" where
  "BaseStringEdit_tryRebase this base = BaseStringEdit__tryRebase this base True"

text \<open>The non-null assertion \<open>!\<close> has no effect at run time: the result is passed on as it is.\<close>

definition BaseStringEdit_rebaseSkipConflicting ::
    "'x BaseStringReplacement_scheme list \<Rightarrow> StringReplacement list \<Rightarrow> js_error + StringReplacement list option" where
  "BaseStringEdit_rebaseSkipConflicting this base = BaseStringEdit__tryRebase this base False"

definition BaseStringEdit_trySwap ::
    "StringReplacement list \<Rightarrow> StringReplacement list \<Rightarrow> js_error + (StringReplacement list \<times> StringReplacement list) option" where
  "BaseStringEdit_trySwap e1 e2 =
     bindE (BaseStringEdit_inverseOnSlice e1 (\<lambda>start endEx. replicate (nat (endEx - start)) 32)) (\<lambda>e1Inv.
     bindE (BaseStringEdit_tryRebase e2 e1Inv) (\<lambda>e1o. case e1o of None \<Rightarrow> Inr None | Some e1' \<Rightarrow>
     bindE (BaseStringEdit_tryRebase e1 e1') (\<lambda>e2o. case e2o of None \<Rightarrow> Inr None | Some e2' \<Rightarrow>
       Inr (Some (e1', e2')))))"

definition BaseStringEdit_toJson :: "'x BaseStringReplacement_scheme list \<Rightarrow> ISerializedStringReplacement list" where
  "BaseStringEdit_toJson this = map BaseStringReplacement_toJson this"

definition BaseStringEdit_isNeutralOn :: "'x BaseStringReplacement_scheme list \<Rightarrow> js_string \<Rightarrow> bool" where
  "BaseStringEdit_isNeutralOn this text = list_all (\<lambda>e. BaseStringReplacement_isNeutralOn e text) this"

definition BaseStringEdit_removeCommonSuffixPrefix ::
    "'x BaseStringReplacement_scheme list \<Rightarrow> js_string \<Rightarrow> js_error + StringReplacement list" where
  "BaseStringEdit_removeCommonSuffixPrefix this originalText =
     bindE (foldE (\<lambda>edits e.
         bindE (BaseStringReplacement_removeCommonSuffixPrefix e originalText) (\<lambda>edit.
           Inr (if \<not> BaseReplacement_isEmpty string_class edit then edits @ [edit] else edits))) [] this)
       StringEdit_new"

definition BaseStringEdit_normalizeEOL ::
    "'x BaseStringReplacement_scheme list \<Rightarrow> js_string \<Rightarrow> js_error + StringReplacement list" where
  "BaseStringEdit_normalizeEOL this eol =
     StringEdit_new (map (\<lambda>edit. BaseStringReplacement_normalizeEOL edit eol) this)"

definition BaseStringReplacement_toEdit :: "StringReplacement \<Rightarrow> js_error + StringReplacement list" where
  "BaseStringReplacement_toEdit this = StringEdit_new [this]"

definition BaseStringEdit_normalizeOnSource ::
    "'x BaseStringReplacement_scheme list \<Rightarrow> js_string \<Rightarrow> js_error + StringReplacement list" where
  "BaseStringEdit_normalizeOnSource this source =
     (let result = BaseStringEdit_apply this source
      in bindE (OffsetRange_ofLength (int (length source))) (\<lambda>r.
         let edit = StringReplacement_replace r result
         in bindE (BaseStringReplacement_removeCommonSuffixAndPrefix string_class edit source) (\<lambda>e.
              if BaseReplacement_isEmpty string_class e then Inr [] else BaseStringReplacement_toEdit e)))"

definition BaseStringEdit_removeCommonSuffixAndPrefix ::
    "'x BaseStringReplacement_scheme repl_ops \<Rightarrow> 'x BaseStringReplacement_scheme list \<Rightarrow> js_string
     \<Rightarrow> js_error + 'x BaseStringReplacement_scheme list" where
  "BaseStringEdit_removeCommonSuffixAndPrefix c this source =
     bindE (mapE (\<lambda>e. BaseStringReplacement_removeCommonSuffixAndPrefix c e source) this) (\<lambda>rs.
     bindE (BaseEdit_new c rs) (BaseEdit_normalize c))"

definition BaseStringEdit_mapData ::
    "'x BaseStringReplacement_scheme list \<Rightarrow> ('x BaseStringReplacement_scheme \<Rightarrow> 't) \<Rightarrow> ('t \<Rightarrow> 't \<Rightarrow> 't option)
     \<Rightarrow> js_error + 't AnnotatedStringReplacement list" where
  "BaseStringEdit_mapData this f data_join =
     BaseEdit_new (annotated_class data_join)
       (map (\<lambda>e. AnnotatedStringReplacement_new (bsr_replaceRange e) (bsr_newText e) (f e)) this)"

text \<open>\<open>composeOrUndefined\<close> of the base class.\<close>

definition BaseStringEdit_composeOrUndefined ::
    "'x BaseStringReplacement_scheme repl_ops \<Rightarrow> 'x BaseStringReplacement_scheme list list
     \<Rightarrow> js_error + 'x BaseStringReplacement_scheme list option" where
  "BaseStringEdit_composeOrUndefined c edits = (case edits of [] \<Rightarrow> Inr None
     | e # es \<Rightarrow> bindE (foldE (BaseEdit_compose c) e es) (\<lambda>r. Inr (Some r)))"

subsection \<open>StringEdit\<close>

definition StringEdit_create :: "StringReplacement list \<Rightarrow> js_error + StringReplacement list" where
  "StringEdit_create replacements = StringEdit_new replacements"

definition StringEdit_single :: "StringReplacement \<Rightarrow> js_error + StringReplacement list" where
  "StringEdit_single replacement = StringEdit_new [replacement]"

definition StringEdit_replace :: "OffsetRange \<Rightarrow> js_string \<Rightarrow> js_error + StringReplacement list" where
  "StringEdit_replace rng replacement = StringEdit_new [StringReplacement_new rng replacement]"

definition StringEdit_insert :: "int \<Rightarrow> js_string \<Rightarrow> js_error + StringReplacement list" where
  "StringEdit_insert offset replacement =
     bindE (OffsetRange_emptyAt offset) (\<lambda>r. StringEdit_new [StringReplacement_new r replacement])"

definition StringEdit_delete :: "OffsetRange \<Rightarrow> js_error + StringReplacement list" where
  "StringEdit_delete rng = StringEdit_new [StringReplacement_new rng []]"

definition StringEdit_fromJson :: "ISerializedStringReplacement list \<Rightarrow> js_error + StringReplacement list" where
  "StringEdit_fromJson data = bindE (mapE StringReplacement_fromJson data) StringEdit_new"

definition StringEdit_compose :: "StringReplacement list list \<Rightarrow> js_error + StringReplacement list" where
  "StringEdit_compose edits = (case edits of [] \<Rightarrow> Inr []
     | e # es \<Rightarrow> foldE (BaseEdit_compose string_class) e es)"

definition composeSequential_step ::
    "StringReplacement list \<times> StringReplacement list \<Rightarrow> StringReplacement
     \<Rightarrow> js_error + StringReplacement list \<times> StringReplacement list" where
  "composeSequential_step st r = (case st of (edit, curEditReplacements) \<Rightarrow>
     if curEditReplacements = [] \<or>
        OffsetRange_isBefore (bsr_replaceRange r) (bsr_replaceRange (last curEditReplacements))
     then Inr (edit, curEditReplacements @ [r])
     else bindE (StringEdit_create (rev curEditReplacements)) (\<lambda>e.
          bindE (BaseEdit_compose string_class edit e) (\<lambda>edit'. Inr (edit', [r]))))"

definition StringEdit_composeSequentialReplacements :: "StringReplacement list \<Rightarrow> js_error + StringReplacement list" where
  "StringEdit_composeSequentialReplacements replacements =
     bindE (foldE composeSequential_step ([], []) replacements) (\<lambda>(edit, curEditReplacements).
     bindE (StringEdit_create (rev curEditReplacements)) (BaseEdit_compose string_class edit))"

subsection \<open>Applying an edit to ranges\<close>

fun ranges_before :: "OffsetRange \<Rightarrow> int \<Rightarrow> OffsetRange list \<Rightarrow> OffsetRange list
    \<Rightarrow> js_error + OffsetRange list \<times> OffsetRange list" where
  "ranges_before er offset [] result = Inr ([], result)"
| "ranges_before er offset (r # sortedRanges) result =
     (if or_endExclusive r \<ge> or_start er then Inr (r # sortedRanges, result)
      else bindE (OffsetRange_delta r offset) (\<lambda>x. ranges_before er offset sortedRanges (result @ [x])))"

definition shrink_range :: "StringReplacement \<Rightarrow> nat \<Rightarrow> OffsetRange \<Rightarrow> js_error + OffsetRange" where
  "shrink_range e i r0 =
     (let er = bsr_replaceRange e; newLen = int (length (bsr_newText e))
      in bindE (OffsetRange_intersect r0 er) (\<lambda>x. case x of None \<Rightarrow> Inl TypeError | Some y \<Rightarrow>
         let overlap = OffsetRange_length y
         in bindE (OffsetRange_deltaEnd r0 (- overlap + (if i = 0 then newLen else 0))) (\<lambda>r1.
            let rangeAheadOfReplaceRange = or_start r1 - or_start er
            in bindE (if rangeAheadOfReplaceRange > 0 then OffsetRange_delta r1 (- rangeAheadOfReplaceRange)
                      else Inr r1) (\<lambda>r2.
               bindE (if i \<noteq> 0 then OffsetRange_delta r2 newLen else Inr r2) (\<lambda>r3.
                 OffsetRange_delta r3 (- (newLen - OffsetRange_length er)))))))"

fun requeue :: "StringReplacement \<Rightarrow> nat \<Rightarrow> OffsetRange list \<Rightarrow> OffsetRange list \<Rightarrow> js_error + OffsetRange list" where
  "requeue e 0 intersecting sortedRanges = Inr sortedRanges"
| "requeue e (Suc i) intersecting sortedRanges =
     bindE (shrink_range e i (intersecting ! i)) (\<lambda>r. requeue e i intersecting (r # sortedRanges))"

definition applyEditsToRanges_step ::
    "OffsetRange list \<times> OffsetRange list \<times> int \<Rightarrow> StringReplacement
     \<Rightarrow> js_error + OffsetRange list \<times> OffsetRange list \<times> int" where
  "applyEditsToRanges_step st e = (case st of (sortedRanges, result, offset) \<Rightarrow>
     let er = bsr_replaceRange e
     in bindE (ranges_before er offset sortedRanges result) (\<lambda>(sortedRanges1, result1).
        let intersecting = takeWhile (\<lambda>r. OffsetRange_intersectsOrTouches r er) sortedRanges1;
            sortedRanges2 = dropWhile (\<lambda>r. OffsetRange_intersectsOrTouches r er) sortedRanges1
        in bindE (requeue e (length intersecting) intersecting sortedRanges2) (\<lambda>sortedRanges3.
             Inr (sortedRanges3, result1, offset + (int (length (bsr_newText e)) - OffsetRange_length er)))))"

definition applyEditsToRanges :: "OffsetRange list \<Rightarrow> StringReplacement list \<Rightarrow> js_error + OffsetRange list" where
  "applyEditsToRanges sortedRanges edit =
     bindE (foldE applyEditsToRanges_step (sortedRanges, [], 0) edit) (\<lambda>(sortedRanges1, result, offset).
     bindE (mapE (\<lambda>r. OffsetRange_delta r offset) sortedRanges1) (\<lambda>rest. Inr (result @ rest)))"

subsection \<open>AnnotatedStringEdit\<close>

definition AnnotatedStringEdit_compose ::
    "('t \<Rightarrow> 't \<Rightarrow> 't option) \<Rightarrow> 't AnnotatedStringReplacement list list \<Rightarrow> js_error + 't AnnotatedStringReplacement list" where
  "AnnotatedStringEdit_compose data_join edits = (case edits of [] \<Rightarrow> Inr []
     | e # es \<Rightarrow> foldE (BaseEdit_compose (annotated_class data_join)) e es)"

definition AnnotatedStringEdit_toStringEdit ::
    "'t AnnotatedStringReplacement list \<Rightarrow> ('t AnnotatedStringReplacement \<Rightarrow> bool) option \<Rightarrow> js_error + StringReplacement list" where
  "AnnotatedStringEdit_toStringEdit this filtr =
     StringEdit_new (map (\<lambda>r. StringReplacement_new (bsr_replaceRange r) (bsr_newText r))
       (filter (\<lambda>r. case filtr of None \<Rightarrow> True | Some f \<Rightarrow> f r) this))"

subsection \<open>ArrayEdit\<close>

definition ArrayEdit_apply :: "'a ArrayReplacement list \<Rightarrow> 'a list \<Rightarrow> 'a list" where
  "ArrayEdit_apply this data =
     (let (resultData, pos) =
        foldl (\<lambda>(resultData, pos) edit.
             (resultData @ js_slice data pos (or_start (ar_replaceRange edit)) @ ar_newValue edit,
              or_endExclusive (ar_replaceRange edit))) ([], 0) this
      in resultData @ js_slice data pos (int (length data)))"

fun ArrayEdit_inverse_loop :: "'a list \<Rightarrow> int \<Rightarrow> 'a ArrayReplacement list \<Rightarrow> js_error + 'a ArrayReplacement list" where
  "ArrayEdit_inverse_loop baseVal offset [] = Inr []"
| "ArrayEdit_inverse_loop baseVal offset (e # es) =
     bindE (OffsetRange_ofStartAndLength (or_start (ar_replaceRange e) + offset) (int (length (ar_newValue e)))) (\<lambda>r.
     bindE (ArrayEdit_inverse_loop baseVal
              (offset + (int (length (ar_newValue e)) - OffsetRange_length (ar_replaceRange e))) es) (\<lambda>edits.
       Inr (\<lparr>ar_replaceRange = r, ar_newValue =
           js_slice baseVal (or_start (ar_replaceRange e)) (or_endExclusive (ar_replaceRange e))\<rparr> # edits)))"

definition ArrayEdit_inverse :: "'a ArrayReplacement list \<Rightarrow> 'a list \<Rightarrow> js_error + 'a ArrayReplacement list" where
  "ArrayEdit_inverse this baseVal = bindE (ArrayEdit_inverse_loop baseVal 0 this) (BaseEdit_new array_class)"

subsection \<open>LengthEdit\<close>

definition LengthEdit_fromEdit :: "'r repl_ops \<Rightarrow> 'r list \<Rightarrow> js_error + LengthReplacement list" where
  "LengthEdit_fromEdit c edit =
     BaseEdit_new length_class
       (map (\<lambda>r. \<lparr>lrep_replaceRange = rep_range c r, lrep_newLength = rep_newLength c r\<rparr>) edit)"

definition LengthEdit_compose :: "LengthReplacement list list \<Rightarrow> js_error + LengthReplacement list" where
  "LengthEdit_compose edits = foldE (BaseEdit_compose length_class) [] edits"

fun LengthEdit_inverse_loop :: "int \<Rightarrow> LengthReplacement list \<Rightarrow> js_error + LengthReplacement list" where
  "LengthEdit_inverse_loop offset [] = Inr []"
| "LengthEdit_inverse_loop offset (e # es) =
     bindE (OffsetRange_ofStartAndLength (or_start (lrep_replaceRange e) + offset) (lrep_newLength e)) (\<lambda>r.
     bindE (LengthEdit_inverse_loop (offset + (lrep_newLength e - OffsetRange_length (lrep_replaceRange e))) es)
       (\<lambda>edits. Inr (\<lparr>lrep_replaceRange = r, lrep_newLength = OffsetRange_length (lrep_replaceRange e)\<rparr> # edits)))"

definition LengthEdit_inverse :: "LengthReplacement list \<Rightarrow> js_error + LengthReplacement list" where
  "LengthEdit_inverse this = bindE (LengthEdit_inverse_loop 0 this) (BaseEdit_new length_class)"

text \<open>
  \<open>applyArray\<close> allocates an array of the final length (a negative one throws) and fills it from
  the left. It never writes fewer items than that, and an array grows when written past its end, so
  the writes at \<open>dstPos\<close> are appends. A source index past the end reads \<open>undefined\<close>, which is
  \<open>None\<close>.
\<close>

definition js_get :: "'a list \<Rightarrow> int \<Rightarrow> 'a option" where
  "js_get xs i = (if 0 \<le> i \<and> i < int (length xs) then Some (xs ! nat i) else None)"

definition LengthEdit_applyArray :: "LengthReplacement list \<Rightarrow> 'a list \<Rightarrow> 'a \<Rightarrow> js_error + 'a option list" where
  "LengthEdit_applyArray this arr fillItem =
     (if BaseEdit_getNewDataLength length_class this (int (length arr)) < 0 then Inl RangeError else
      let (newArr, srcPos) =
        foldl (\<lambda>(newArr, srcPos) replacement.
             (newArr @ map (js_get arr) [srcPos..or_start (lrep_replaceRange replacement) - 1] @
                replicate (nat (lrep_newLength replacement)) (Some fillItem),
              or_endExclusive (lrep_replaceRange replacement))) ([], 0) this
      in Inr (newArr @ map (js_get arr) [srcPos..int (length arr) - 1]))"

subsection \<open>Applying is the effect of the edit\<close>

lemma string_class_simps [simp]:
  "rep_range string_class = bsr_replaceRange" "rep_newLength string_class = BaseStringReplacement_getNewLength"
  "rep_range (annotated_class j) = bsr_replaceRange"
  "rep_newLength (annotated_class j) = BaseStringReplacement_getNewLength"
  "rep_range array_class = ar_replaceRange" "rep_newLength array_class = ArrayReplacement_getNewLength"
  "rep_range length_class = lrep_replaceRange" "rep_newLength length_class = lrep_newLength"
  "rep_range annotation_class = anr_replaceRange" "rep_newLength annotation_class = anr_newLength"
  by (simp_all add: string_class_def annotated_class_def array_class_def length_class_def annotation_class_def)

lemma string_repl_ok [simp]:
  "repl_ok string_class r \<longleftrightarrow> OffsetRange_inv (bsr_replaceRange r)"
  "repl_ok (annotated_class j) r' \<longleftrightarrow> OffsetRange_inv (bsr_replaceRange r')"
  "repl_ok array_class r'' \<longleftrightarrow> OffsetRange_inv (ar_replaceRange r'')"
  by (simp_all add: repl_ok_def BaseStringReplacement_getNewLength_def ArrayReplacement_getNewLength_def)

text \<open>The applying loops, with the accumulated pieces split off.\<close>

lemma apply_loop_eq:
  assumes sub: "\<And>i j. 0 \<le> i \<Longrightarrow> i \<le> j \<Longrightarrow> j \<le> int (length s) \<Longrightarrow> get i j = sub s i j"
    and rg: "rep_range c = rg" and e: "edit_from c p rs (int (length s))" "0 \<le> p"
  shows "(let (res, pos) = foldl (\<lambda>(res, pos) r. (res @ get pos (or_start (rg r)) @ content r, or_endExclusive (rg r))) (acc, p) rs
     in res @ get pos (int (length s))) = acc @ apply_from rg content p rs s"
  using e
proof (induction rs arbitrary: acc p)
  case Nil
  then show ?case by (simp add: sub)
next
  case (Cons r rs)
  have r: "p \<le> or_start (rg r)" "repl_ok c r" "edit_from c (or_endExclusive (rg r)) rs (int (length s))"
    using Cons.prems(1) rg by simp_all
  have le: "or_start (rg r) \<le> or_endExclusive (rg r)" using repl_ok_le [OF r(2)] rg by simp
  have "get p (or_start (rg r)) = sub s p (or_start (rg r))"
    using sub Cons.prems(2) r(1) le edit_from_le [OF r(3)] by simp
  then show ?case using Cons.IH [OF r(3)] r(1) le Cons.prems(2) by simp
qed

lemma concat_foldl_pieces:
  "(let (res, pos) = foldl (\<lambda>(res, pos) r. (res @ [f pos r, g r], h r)) (acc, p) rs in concat (res @ [k pos])) =
   (let (res, pos) = foldl (\<lambda>(res, pos) r. (res @ f pos r @ g r, h r)) (concat acc, p) rs in res @ k pos)"
  by (induction rs arbitrary: acc p) simp_all

lemma BaseStringEdit_apply_eq:
  assumes "rep_range c = bsr_replaceRange" and "edit_ok c rs (int (length s))"
  shows "BaseStringEdit_apply rs s = apply_from bsr_replaceRange bsr_newText 0 rs s"
proof -
  have "apply_from bsr_replaceRange bsr_newText 0 rs s =
      (let (res, pos) = foldl (\<lambda>(res, pos) r. (res @ js_substring s pos (or_start (bsr_replaceRange r)) @ bsr_newText r,
         or_endExclusive (bsr_replaceRange r))) ([], 0) rs in res @ js_substring s pos (int (length s)))"
    using apply_loop_eq [of s "js_substring s" c bsr_replaceRange 0 rs bsr_newText "[]"] assms
    by (simp add: js_substring_sub edit_ok_def)
  then show ?thesis unfolding BaseStringEdit_apply_def by (subst concat_foldl_pieces) simp
qed

lemma ArrayEdit_apply_eq:
  assumes "edit_ok array_class rs (int (length s))"
  shows "ArrayEdit_apply rs s = apply_from ar_replaceRange ar_newValue 0 rs s"
  using apply_loop_eq [of s "js_slice s" array_class ar_replaceRange 0 rs ar_newValue "[]"] assms
  by (simp add: js_slice_sub edit_ok_def ArrayEdit_apply_def)

lemma apply_from_map: "apply_from rg ct p (map f rs) s = apply_from (\<lambda>r. rg (f r)) (\<lambda>r. ct (f r)) p rs s"
  by (induction rs arbitrary: p) simp_all

text \<open>The three inverting loops build the replacements of \<open>inverse_of\<close>.\<close>

lemma inverseOnSlice_loop_eq:
  "edit_from string_class p rs (int (length s)) \<Longrightarrow> 0 \<le> p \<Longrightarrow>
   \<exists>res. inverseOnSlice_loop (js_substring s) d rs = Inr res \<and>
     map (\<lambda>r. (bsr_replaceRange r, bsr_newText r)) res = stringClass.inverse_of d rs s"
proof (induction rs arbitrary: p d)
  case (Cons e rs)
  then have e: "p \<le> or_start (bsr_replaceRange e)" "OffsetRange_inv (bsr_replaceRange e)"
    "edit_from string_class (or_endExclusive (bsr_replaceRange e)) rs (int (length s))" by simp_all
  then have "0 \<le> or_endExclusive (bsr_replaceRange e)" using Cons.prems(2) by (simp add: OffsetRange_inv_def)
  from Cons.IH [OF e(3) this, of "d + (int (length (bsr_newText e)) - OffsetRange_length (bsr_replaceRange e))"]
  show ?case using e edit_from_le [OF e(3)] Cons.prems(2)
    by (auto simp: OffsetRange_ofStartAndLength_def StringReplacement_replace_def OffsetRange_inv_def
        BaseStringReplacement_getNewLength_def js_substring_sub OffsetRange.defs)
qed simp

lemma ArrayEdit_inverse_loop_eq:
  "edit_from array_class p rs (int (length s)) \<Longrightarrow> 0 \<le> p \<Longrightarrow>
   \<exists>res. ArrayEdit_inverse_loop s d rs = Inr res \<and>
     map (\<lambda>r. (ar_replaceRange r, ar_newValue r)) res = arrayClass.inverse_of d rs s"
proof (induction rs arbitrary: p d)
  case (Cons e rs)
  then have e: "p \<le> or_start (ar_replaceRange e)" "OffsetRange_inv (ar_replaceRange e)"
    "edit_from array_class (or_endExclusive (ar_replaceRange e)) rs (int (length s))" by simp_all
  then have "0 \<le> or_endExclusive (ar_replaceRange e)" using Cons.prems(2) by (simp add: OffsetRange_inv_def)
  from Cons.IH [OF e(3) this, of "d + (int (length (ar_newValue e)) - OffsetRange_length (ar_replaceRange e))"]
  show ?case using e edit_from_le [OF e(3)] Cons.prems(2)
    by (auto simp: OffsetRange_ofStartAndLength_def OffsetRange_inv_def
        ArrayReplacement_getNewLength_def js_slice_sub OffsetRange.defs)
qed simp

lemma map_fst_eq: "map (\<lambda>r. (f r, g r)) xs = ys \<Longrightarrow> map f xs = map fst ys"
  by (induction xs arbitrary: ys) auto

subsection \<open>Properties\<close>

text \<open>
  C1. Composing two string edits, each valid on the text it is applied to, never throws and gives
  an edit that is valid on the first text and has the effect of applying one after the other. The
  same holds of array edits and of string edits with data, however the data joins.
\<close>

theorem StringEdit_compose_correct:
  fixes s :: js_string and xs :: "'a list"
  shows "(edit_ok string_class e1 (int (length s)) \<and>
      edit_ok string_class e2 (int (length (BaseStringEdit_apply e1 s))) \<longrightarrow>
    (\<exists>r. BaseEdit_compose string_class e1 e2 = Inr r \<and> edit_ok string_class r (int (length s)) \<and>
      BaseStringEdit_apply r s = BaseStringEdit_apply e2 (BaseStringEdit_apply e1 s))) \<and>
    (edit_ok (annotated_class j) d1 (int (length s)) \<and>
      edit_ok (annotated_class j) d2 (int (length (BaseStringEdit_apply d1 s))) \<longrightarrow>
    (\<exists>r. BaseEdit_compose (annotated_class j) d1 d2 = Inr r \<and> edit_ok (annotated_class j) r (int (length s)) \<and>
      BaseStringEdit_apply r s = BaseStringEdit_apply d2 (BaseStringEdit_apply d1 s))) \<and>
    (edit_ok array_class a1 (int (length xs)) \<and>
      edit_ok array_class a2 (int (length (ArrayEdit_apply a1 xs))) \<longrightarrow>
    (\<exists>r. BaseEdit_compose array_class a1 a2 = Inr r \<and> edit_ok array_class r (int (length xs)) \<and>
      ArrayEdit_apply r xs = ArrayEdit_apply a2 (ArrayEdit_apply a1 xs)))"
proof (intro conjI impI; elim conjE)
  note eq = BaseStringEdit_apply_eq [of string_class, OF string_class_simps(1)]
  assume e1: "edit_ok string_class e1 (int (length s))"
    and e2: "edit_ok string_class e2 (int (length (BaseStringEdit_apply e1 s)))"
  have "edit_from string_class 0 e2 (int (length (stringClass.app 0 e1 s)))"
    using e2 eq [OF e1] by (simp add: edit_ok_def)
  from stringClass.compose_spec [OF e1 [unfolded edit_ok_def] this] obtain r where
    r: "BaseEdit_compose string_class e1 e2 = Inr r" "edit_ok string_class r (int (length s))"
      "stringClass.app 0 r s = stringClass.app 0 e2 (stringClass.app 0 e1 s)"
    unfolding edit_ok_def by blast
  then show "\<exists>r. BaseEdit_compose string_class e1 e2 = Inr r \<and> edit_ok string_class r (int (length s)) \<and>
      BaseStringEdit_apply r s = BaseStringEdit_apply e2 (BaseStringEdit_apply e1 s)"
    using eq [OF r(2)] eq [OF e2] eq [OF e1] by simp
next
  note eq = BaseStringEdit_apply_eq [of "annotated_class j", OF string_class_simps(3)]
  assume e1: "edit_ok (annotated_class j) d1 (int (length s))"
    and e2: "edit_ok (annotated_class j) d2 (int (length (BaseStringEdit_apply d1 s)))"
  have "edit_from (annotated_class j) 0 d2 (int (length (annotatedClass.app j 0 d1 s)))"
    using e2 eq [OF e1] by (simp add: edit_ok_def)
  from annotatedClass.compose_spec [OF e1 [unfolded edit_ok_def] this] obtain r where
    r: "BaseEdit_compose (annotated_class j) d1 d2 = Inr r" "edit_ok (annotated_class j) r (int (length s))"
      "annotatedClass.app j 0 r s = annotatedClass.app j 0 d2 (annotatedClass.app j 0 d1 s)"
    unfolding edit_ok_def by blast
  then show "\<exists>r. BaseEdit_compose (annotated_class j) d1 d2 = Inr r \<and> edit_ok (annotated_class j) r (int (length s)) \<and>
      BaseStringEdit_apply r s = BaseStringEdit_apply d2 (BaseStringEdit_apply d1 s)"
    using eq [OF r(2)] eq [OF e2] eq [OF e1] by simp
next
  assume e1: "edit_ok array_class a1 (int (length xs))"
    and e2: "edit_ok array_class a2 (int (length (ArrayEdit_apply a1 xs)))"
  have "edit_from array_class 0 a2 (int (length (arrayClass.app 0 a1 xs)))"
    using e2 ArrayEdit_apply_eq [OF e1] by (simp add: edit_ok_def)
  from arrayClass.compose_spec [OF e1 [unfolded edit_ok_def] this] obtain r where
    r: "BaseEdit_compose array_class a1 a2 = Inr r" "edit_ok array_class r (int (length xs))"
      "arrayClass.app 0 r xs = arrayClass.app 0 a2 (arrayClass.app 0 a1 xs)"
    unfolding edit_ok_def by blast
  then show "\<exists>r. BaseEdit_compose array_class a1 a2 = Inr r \<and> edit_ok array_class r (int (length xs)) \<and>
      ArrayEdit_apply r xs = ArrayEdit_apply a2 (ArrayEdit_apply a1 xs)"
    using ArrayEdit_apply_eq [OF r(2)] ArrayEdit_apply_eq [OF e2] ArrayEdit_apply_eq [OF e1] by simp
qed

theorem StringEdit_compose_correct_witness:
  "let s = [97, 98, 99]; e1 = [\<lparr>bsr_replaceRange = OffsetRange.fields 1 2, bsr_newText = [120, 121]\<rparr>];
       e2 = [\<lparr>bsr_replaceRange = OffsetRange.fields 2 4, bsr_newText = [122]\<rparr>]
   in edit_ok string_class e1 (int (length s)) \<and> BaseStringEdit_apply e1 s = [97, 120, 121, 99] \<and>
      (\<exists>r. BaseEdit_compose string_class e1 e2 = Inr r \<and> edit_ok string_class r (int (length s)) \<and>
        BaseStringEdit_apply r s = BaseStringEdit_apply e2 (BaseStringEdit_apply e1 s))"
proof -
  let ?s = "[97, 98, 99] :: js_string"
    and ?e1 = "[\<lparr>bsr_replaceRange = OffsetRange.fields 1 2, bsr_newText = [120, 121]\<rparr>]"
    and ?e2 = "[\<lparr>bsr_replaceRange = OffsetRange.fields 2 4, bsr_newText = [122]\<rparr>]"
  have e1: "edit_ok string_class ?e1 (int (length ?s))"
    by (simp add: edit_ok_def OffsetRange_inv_def OffsetRange.defs)
  have a: "BaseStringEdit_apply ?e1 ?s = [97, 120, 121, 99]"
    by (simp add: BaseStringEdit_apply_def js_substring_def sub_def OffsetRange.defs Let_def numeral_2_eq_2)
  have e2: "edit_ok string_class ?e2 (int (length (BaseStringEdit_apply ?e1 ?s)))"
    unfolding a by (simp add: edit_ok_def OffsetRange_inv_def OffsetRange.defs)
  from StringEdit_compose_correct [of ?e1 ?s ?e2, THEN conjunct1] e1 e2 a show ?thesis
    unfolding Let_def by blast
qed

text \<open>
  C3. Normalizing an array edit keeps its effect, and over a type with infinitely many items two
  edits have equal normal forms exactly when they have the same effect on every array of a length
  they are valid for, as the comment on \<open>normalize\<close> says.
\<close>

lemma fresh_items:
  assumes "infinite (UNIV :: 'a set)" "finite (F :: 'a set)"
  obtains xs :: "'a list" where "length xs = n" "distinct xs" "set xs \<inter> F = {}"
proof -
  have "infinite (UNIV - F)" using assms by simp
  then obtain G where "finite G" "card G = n" "G \<subseteq> UNIV - F"
    using infinite_arbitrarily_large by blast
  moreover then obtain xs where "set xs = G" "distinct xs" using finite_distinct_list by blast
  ultimately show ?thesis by (intro that [of xs]) (auto simp: distinct_card [symmetric])
qed

lemma ArrayReplacement_equals_iff: "ArrayReplacement_equals a b \<longleftrightarrow> a = b"
proof -
  have "OffsetRange_equals g h \<longleftrightarrow> g = h" for g h :: OffsetRange
    by (cases g; cases h) (simp add: OffsetRange_equals_def)
  moreover have "length xs = length ys \<and> (\<forall>i \<in> set [0..<length xs]. xs ! i = ys ! i) \<longleftrightarrow> xs = ys" for xs ys :: "'a list"
    by (auto intro: nth_equalityI)
  ultimately show ?thesis
    unfolding ArrayReplacement_equals_def by (cases a; cases b) (simp only: ArrayReplacement.ext_inject ArrayReplacement.select_convs simp_thms)
qed

lemma ArrayEdit_equals_iff: "BaseEdit_equals array_class m m' \<longleftrightarrow> m = m'"
proof -
  have "rep_equals array_class a b \<longleftrightarrow> a = b" for a b :: "'a ArrayReplacement"
    by (simp add: array_class_def ArrayReplacement_equals_iff)
  then show ?thesis unfolding BaseEdit_equals_def by (auto intro: nth_equalityI)
qed

theorem ArrayEdit_normalize_canonical:
  fixes e e' :: "'a ArrayReplacement list"
  assumes "infinite (UNIV :: 'a set)" and ok: "edit_ok array_class e n" "edit_ok array_class e' n"
  shows "\<exists>m m'. BaseEdit_normalize array_class e = Inr m \<and> BaseEdit_normalize array_class e' = Inr m' \<and>
    (\<forall>xs. int (length xs) = n \<longrightarrow> ArrayEdit_apply m xs = ArrayEdit_apply e xs) \<and>
    ((\<forall>xs. int (length xs) = n \<longrightarrow> ArrayEdit_apply e xs = ArrayEdit_apply e' xs) \<longleftrightarrow>
      BaseEdit_equals array_class m m')"
proof -
  have norm: "\<exists>m. BaseEdit_normalize array_class e = Inr m \<and> edit_ok array_class m n \<and>
      (\<forall>xs. int (length xs) = n \<longrightarrow> ArrayEdit_apply m xs = ArrayEdit_apply e xs) \<and> arrayClass.gap_from (- 1) m"
    if ok: "edit_ok array_class e n" for e :: "'a ArrayReplacement list"
  proof -
    have ex: "\<exists>m. BaseEdit_normalize array_class e = Inr m \<and> edit_ok array_class m n \<and>
        arrayClass.app 0 m xs = arrayClass.app 0 e xs" if "int (length xs) = n" for xs :: "'a list"
      using arrayClass.normalize_spec [of e xs] ok that by (auto simp: edit_ok_def)
    have "0 \<le> n" using ok edit_from_le by (auto simp: edit_ok_def)
    then obtain m where m: "BaseEdit_normalize array_class e = Inr m" "edit_ok array_class m n"
      using ex [of "replicate (nat n) undefined"] by auto
    have "arrayClass.gap_from (- 1) m"
      by (rule arrayClass.normalize_normal [OF _ ok [unfolded edit_ok_def] m(1)])
        (auto simp: array_class_def ArrayReplacement_tryJoinTouching_def bindE_def split: sum.splits)
    moreover have "ArrayEdit_apply m xs = ArrayEdit_apply e xs" if "int (length xs) = n" for xs
      using ex [OF that] m ok ArrayEdit_apply_eq [of m xs] ArrayEdit_apply_eq [of e xs] that by auto
    ultimately show ?thesis using m by blast
  qed
  obtain m where m: "BaseEdit_normalize array_class e = Inr m" "edit_ok array_class m n"
    "\<And>xs. int (length xs) = n \<Longrightarrow> ArrayEdit_apply m xs = ArrayEdit_apply e xs" "arrayClass.gap_from (- 1) m"
    using norm [OF ok(1)] by blast
  obtain m' where m': "BaseEdit_normalize array_class e' = Inr m'" "edit_ok array_class m' n"
    "\<And>xs. int (length xs) = n \<Longrightarrow> ArrayEdit_apply m' xs = ArrayEdit_apply e' xs" "arrayClass.gap_from (- 1) m'"
    using norm [OF ok(2)] by blast
  have "m = m'" if same: "\<And>xs. int (length xs) = n \<Longrightarrow> ArrayEdit_apply e xs = ArrayEdit_apply e' xs"
  proof -
    let ?F = "\<Union>r \<in> set m \<union> set m'. set (ar_newValue r)"
    obtain xs where xs: "length xs = nat n" "distinct xs" "set xs \<inter> ?F = {}"
      using fresh_items [OF assms(1), of ?F] by blast
    have n: "int (length xs) = n" using xs(1) ok edit_from_le [of array_class 0 e n] by (simp add: edit_ok_def)
    have "arrayClass.app 0 m xs = arrayClass.app 0 m' xs"
      using m(2,3) m'(2,3) same [OF n] n ArrayEdit_apply_eq [of m xs] ArrayEdit_apply_eq [of m' xs] by simp
    then have "map (\<lambda>r. (rep_range array_class r, ar_newValue r)) m = map (\<lambda>r. (rep_range array_class r, ar_newValue r)) m'"
      using arrayClass.normal_unique [of 0 m xs m' "- 1"] m(2,4) m'(2,4) xs n by (fastforce simp: edit_ok_def)
    then show ?thesis
      by (rule map_injective [OF _ injI]) (auto intro!: ArrayReplacement.equality)
  qed
  moreover have "ArrayEdit_apply e xs = ArrayEdit_apply e' xs" if "m = m'" "int (length xs) = n" for xs
    using m(3) m'(3) that by metis
  ultimately show ?thesis using m(1,3) m'(1) unfolding ArrayEdit_equals_iff by blast
qed

theorem ArrayEdit_normalize_canonical_witness:
  "let e = [\<lparr>ar_replaceRange = OffsetRange.fields 0 1, ar_newValue = [7 :: nat]\<rparr>,
            \<lparr>ar_replaceRange = OffsetRange.fields 1 2, ar_newValue = [8]\<rparr>]
   in edit_ok array_class e 3 \<and> (\<exists>m. BaseEdit_normalize array_class e = Inr m \<and>
      (\<forall>xs. int (length xs) = 3 \<longrightarrow> ArrayEdit_apply m xs = ArrayEdit_apply e xs))"
proof -
  let ?e = "[\<lparr>ar_replaceRange = OffsetRange.fields 0 1, ar_newValue = [7 :: nat]\<rparr>,
            \<lparr>ar_replaceRange = OffsetRange.fields 1 2, ar_newValue = [8]\<rparr>]"
  have ok: "edit_ok array_class ?e 3" by (simp add: edit_ok_def OffsetRange_inv_def OffsetRange.defs)
  from ArrayEdit_normalize_canonical [OF infinite_UNIV_nat ok ok] ok show ?thesis unfolding Let_def by blast
qed

text \<open>
  C6. For a string edit that is valid on a text: \<open>applyToOffsetOrUndefined\<close> sends the offset of
  a unit that is kept to its offset in the new text and answers \<open>undefined\<close> exactly for the
  replaced ones; \<open>applyToOffset\<close> is monotone, so \<open>applyToOffsetRange\<close> never throws; and the
  ranges of \<open>getNewRanges\<close> hold the new texts.
\<close>

theorem StringEdit_offsets_correct:
  assumes "edit_ok string_class e (int (length s))"
  shows "(\<forall>x. 0 \<le> x \<and> x < int (length s) \<longrightarrow> (case BaseEdit_applyToOffsetOrUndefined string_class e x of
        None \<Rightarrow> (\<exists>r \<in> set e. OffsetRange_contains (bsr_replaceRange r) x)
      | Some y \<Rightarrow> (\<forall>r \<in> set e. \<not> OffsetRange_contains (bsr_replaceRange r) x) \<and>
          0 \<le> y \<and> y < int (length (BaseStringEdit_apply e s)) \<and> BaseStringEdit_apply e s ! nat y = s ! nat x)) \<and>
    (\<forall>r. OffsetRange_inv r \<and> 0 \<le> or_start r \<longrightarrow> (\<exists>r'. BaseEdit_applyToOffsetRange string_class e r = Inr r')) \<and>
    (\<exists>gs. BaseEdit_getNewRanges string_class e = Inr gs \<and>
      map (\<lambda>g. OffsetRange_substring g (BaseStringEdit_apply e s)) gs = map bsr_newText e)"
proof (intro conjI allI impI)
  have e: "edit_from string_class 0 e (int (length s))" using assms by (simp add: edit_ok_def)
  have t: "BaseStringEdit_apply e s = stringClass.app 0 e s"
    using BaseStringEdit_apply_eq [of string_class e s] assms by simp
  have inv: "stringClass.compose_inv s (BaseStringEdit_apply e s) 0 e 0"
    using stringClass.compose_inv_init [OF e] t by simp
  show "case BaseEdit_applyToOffsetOrUndefined string_class e x of
        None \<Rightarrow> (\<exists>r \<in> set e. OffsetRange_contains (bsr_replaceRange r) x)
      | Some y \<Rightarrow> (\<forall>r \<in> set e. \<not> OffsetRange_contains (bsr_replaceRange r) x) \<and>
          0 \<le> y \<and> y < int (length (BaseStringEdit_apply e s)) \<and> BaseStringEdit_apply e s ! nat y = s ! nat x"
    if "0 \<le> x \<and> x < int (length s)" for x
    using stringClass.applyToOffsetOrUndefined_loop_spec [OF inv, of x] that
    unfolding BaseEdit_applyToOffsetOrUndefined_def OffsetRange_contains_def string_class_simps by blast
  show "\<exists>r'. BaseEdit_applyToOffsetRange string_class e r = Inr r'" if "OffsetRange_inv r \<and> 0 \<le> or_start r" for r
    using stringClass.applyToOffset_loop_mono [OF e, of "or_start r" "or_endExclusive r" 0] that
    by (simp add: BaseEdit_applyToOffsetRange_def BaseEdit_applyToOffset_def OffsetRange_inv_def)
  obtain gs where gs: "getNewRanges_loop string_class 0 e = Inr gs"
    "map (\<lambda>g. sub (BaseStringEdit_apply e s) (or_start g) (or_endExclusive g)) gs = map bsr_newText e"
    "\<forall>g \<in> set gs. 0 \<le> or_start g \<and> or_start g \<le> or_endExclusive g \<and>
       or_endExclusive g \<le> int (length (BaseStringEdit_apply e s))"
    using stringClass.getNewRanges_loop_spec [OF inv] by blast
  have "map (\<lambda>g. OffsetRange_substring g (BaseStringEdit_apply e s)) gs =
      map (\<lambda>g. sub (BaseStringEdit_apply e s) (or_start g) (or_endExclusive g)) gs"
    using gs(3) by (intro map_cong refl) (simp add: substring_eq_sub)
  with gs show "\<exists>gs. BaseEdit_getNewRanges string_class e = Inr gs \<and>
      map (\<lambda>g. OffsetRange_substring g (BaseStringEdit_apply e s)) gs = map bsr_newText e"
    by (simp add: BaseEdit_getNewRanges_def)
qed

theorem StringEdit_offsets_correct_witness:
  "let s = [97, 98, 99]; e = [\<lparr>bsr_replaceRange = OffsetRange.fields 1 2, bsr_newText = [120, 121]\<rparr>]
   in edit_ok string_class e (int (length s)) \<and>
      (\<exists>gs. BaseEdit_getNewRanges string_class e = Inr gs \<and>
        map (\<lambda>g. OffsetRange_substring g (BaseStringEdit_apply e s)) gs = map bsr_newText e)"
proof -
  let ?s = "[97, 98, 99] :: js_string"
    and ?e = "[\<lparr>bsr_replaceRange = OffsetRange.fields 1 2, bsr_newText = [120, 121]\<rparr>]"
  have ok: "edit_ok string_class ?e (int (length ?s))"
    by (simp add: edit_ok_def OffsetRange_inv_def OffsetRange.defs)
  from StringEdit_offsets_correct [OF ok] ok show ?thesis unfolding Let_def by blast
qed

text \<open>
  C4. Inverting an edit that is valid on the original never throws; the inverse is valid on the
  edited text and restores the original, for string edits and for array edits.
\<close>

theorem Edit_inverse_roundtrip:
  fixes s :: js_string and xs :: "'a list"
  shows "(edit_ok string_class e (int (length s)) \<longrightarrow>
      (\<exists>i. BaseStringEdit_inverse e s = Inr i \<and> edit_ok string_class i (int (length (BaseStringEdit_apply e s))) \<and>
        BaseStringEdit_apply i (BaseStringEdit_apply e s) = s)) \<and>
    (edit_ok array_class a (int (length xs)) \<longrightarrow>
      (\<exists>i. ArrayEdit_inverse a xs = Inr i \<and> edit_ok array_class i (int (length (ArrayEdit_apply a xs))) \<and>
        ArrayEdit_apply i (ArrayEdit_apply a xs) = xs))"
proof (intro conjI impI)
  assume ok: "edit_ok string_class e (int (length s))"
  let ?t = "BaseStringEdit_apply e s"
  have e: "edit_from string_class 0 e (int (length s))" using ok by (simp add: edit_ok_def)
  have t: "?t = stringClass.app 0 e s" using BaseStringEdit_apply_eq [of string_class e s] ok by simp
  have inv: "stringClass.compose_inv s ?t 0 e 0" using stringClass.compose_inv_init [OF e] t by simp
  obtain i where i: "inverseOnSlice_loop (js_substring s) 0 e = Inr i"
    "map (\<lambda>r. (bsr_replaceRange r, bsr_newText r)) i = stringClass.inverse_of 0 e s"
    using inverseOnSlice_loop_eq [OF e] by auto
  have "edit_from string_class 0 i (int (length ?t))"
    using stringClass.inverse_of_edit [OF inv, of string_class i] map_fst_eq [OF i(2)]
    by (simp add: BaseStringReplacement_getNewLength_def)
  then have iok: "edit_ok string_class i (int (length ?t))" by (simp add: edit_ok_def)
  have "BaseStringEdit_apply i ?t = apply_from fst snd 0 (stringClass.inverse_of 0 e s) ?t"
    using BaseStringEdit_apply_eq [of string_class i ?t] iok unfolding i(2) [symmetric] apply_from_map by simp
  also have "\<dots> = s" using stringClass.inverse_of_spec [OF inv] by simp
  finally show "\<exists>i. BaseStringEdit_inverse e s = Inr i \<and> edit_ok string_class i (int (length ?t)) \<and>
      BaseStringEdit_apply i ?t = s"
    using i(1) iok BaseEdit_new_ok [OF iok [unfolded edit_ok_def]]
    by (simp add: BaseStringEdit_inverse_def BaseStringEdit_inverseOnSlice_def StringEdit_new_def)
next
  assume ok: "edit_ok array_class a (int (length xs))"
  let ?t = "ArrayEdit_apply a xs"
  have e: "edit_from array_class 0 a (int (length xs))" using ok by (simp add: edit_ok_def)
  have inv: "arrayClass.compose_inv xs ?t 0 a 0"
    using arrayClass.compose_inv_init [OF e] ArrayEdit_apply_eq [OF ok] by simp
  obtain i where i: "ArrayEdit_inverse_loop xs 0 a = Inr i"
    "map (\<lambda>r. (ar_replaceRange r, ar_newValue r)) i = arrayClass.inverse_of 0 a xs"
    using ArrayEdit_inverse_loop_eq [OF e] by auto
  have "edit_from array_class 0 i (int (length ?t))"
    using arrayClass.inverse_of_edit [OF inv, of array_class i] map_fst_eq [OF i(2)]
    by (simp add: ArrayReplacement_getNewLength_def)
  then have iok: "edit_ok array_class i (int (length ?t))" by (simp add: edit_ok_def)
  have "ArrayEdit_apply i ?t = apply_from fst snd 0 (arrayClass.inverse_of 0 a xs) ?t"
    unfolding ArrayEdit_apply_eq [OF iok] i(2) [symmetric] apply_from_map by simp
  also have "\<dots> = xs" using arrayClass.inverse_of_spec [OF inv] by simp
  finally show "\<exists>i. ArrayEdit_inverse a xs = Inr i \<and> edit_ok array_class i (int (length ?t)) \<and>
      ArrayEdit_apply i ?t = xs"
    using i(1) iok BaseEdit_new_ok [OF iok [unfolded edit_ok_def]] by (simp add: ArrayEdit_inverse_def)
qed

theorem Edit_inverse_roundtrip_witness:
  "let s = [97, 98, 99]; e = [\<lparr>bsr_replaceRange = OffsetRange.fields 1 2, bsr_newText = [120, 121]\<rparr>]
   in edit_ok string_class e (int (length s)) \<and>
      (\<exists>i. BaseStringEdit_inverse e s = Inr i \<and> BaseStringEdit_apply i (BaseStringEdit_apply e s) = s)"
proof -
  let ?s = "[97, 98, 99] :: js_string"
    and ?e = "[\<lparr>bsr_replaceRange = OffsetRange.fields 1 2, bsr_newText = [120, 121]\<rparr>]"
  have ok: "edit_ok string_class ?e (int (length ?s))"
    by (simp add: edit_ok_def OffsetRange_inv_def OffsetRange.defs)
  from Edit_inverse_roundtrip [of ?e ?s, THEN conjunct1] ok show ?thesis unfolding Let_def by blast
qed

end
