(* ===== verification/Edit_Rebase.thy ===== *)
theory Edit_Rebase
  imports String_Edit
begin

text \<open>
  More of \<open>stringEdit.ts\<close> and \<open>lengthEdit.ts\<close>: rebasing two concurrent edits over each other
  gives the same text in either order, swapping two edits keeps their combined effect, a sequence of
  replacements is composed into one edit, and normalizing on a source gives a minimal edit.
\<close>

subsection \<open>Rebasing\<close>

text \<open>\<open>goes_first a b\<close>: the loop takes \<open>a\<close> before \<open>b\<close> when the two do not conflict.\<close>

definition goes_first :: "OffsetRange \<Rightarrow> OffsetRange \<Rightarrow> bool" where
  "goes_first a b \<longleftrightarrow> or_start a < or_start b \<or> (OffsetRange_isEmpty a \<and> or_start a = or_start b)"

lemma rebase_conflict_sym: "rebase_conflict a b = rebase_conflict b a"
  by (auto simp: rebase_conflict_def OffsetRange_intersects_def areConcurrentInserts_def max.commute min.commute Let_def)

lemma OffsetRange_intersects_iff:
  "OffsetRange_intersects a b \<longleftrightarrow> or_start a < or_endExclusive a \<and> or_start b < or_endExclusive b \<and>
     or_start a < or_endExclusive b \<and> or_start b < or_endExclusive a"
  by (auto simp: OffsetRange_intersects_def Let_def)

lemma no_conflict_order:
  assumes "\<not> rebase_conflict a b" "OffsetRange_inv a" "OffsetRange_inv b"
  shows "goes_first a b \<Longrightarrow> or_endExclusive a \<le> or_start b"
    and "goes_first b a \<longleftrightarrow> \<not> goes_first a b"
proof -
  define sa ea sb eb where vars: "sa = or_start a" "ea = or_endExclusive a" "sb = or_start b" "eb = or_endExclusive b"
  have le: "sa \<le> ea" "sb \<le> eb" using assms(2,3) by (simp_all add: OffsetRange_inv_def vars)
  have no: "\<not> (sa < ea \<and> sb < eb \<and> sa < eb \<and> sb < ea)" "\<not> (sa = ea \<and> sb = eb \<and> sa = sb)"
      "\<not> (sa = ea \<and> sb < sa \<and> sa < eb)" "\<not> (sb = eb \<and> sa < sb \<and> sb < ea)"
    using assms(1) by (simp_all add: rebase_conflict_def OffsetRange_intersects_iff areConcurrentInserts_def
        isInsertStrictlyInsideRange_def OffsetRange_isEmpty_def vars)
  have first: "goes_first a b \<longleftrightarrow> sa < sb \<or> (sa = ea \<and> sa = sb)" "goes_first b a \<longleftrightarrow> sb < sa \<or> (sb = eb \<and> sb = sa)"
    by (simp_all add: goes_first_def OffsetRange_isEmpty_def vars)
  show "or_endExclusive a \<le> or_start b" if "goes_first a b"
  proof -
    have "ea \<le> sb" using that no le unfolding first by arith
    then show ?thesis by (simp add: vars)
  qed
  show "goes_first b a \<longleftrightarrow> \<not> goes_first a b" unfolding first using no le by arith
qed

text \<open>Both edits together, in the order in which the loop visits their replacements.\<close>

fun merge_edits :: "StringReplacement list \<Rightarrow> StringReplacement list \<Rightarrow> StringReplacement list" where
  "merge_edits [] bs = bs"
| "merge_edits as [] = as"
| "merge_edits (a # as) (b # bs) =
     (if goes_first (bsr_replaceRange a) (bsr_replaceRange b) then a # merge_edits as (b # bs)
      else b # merge_edits (a # as) bs)"

fun edits_conflict :: "StringReplacement list \<Rightarrow> StringReplacement list \<Rightarrow> bool" where
  "edits_conflict (a # as) (b # bs) \<longleftrightarrow>
     rebase_conflict (bsr_replaceRange a) (bsr_replaceRange b) \<or>
     (if goes_first (bsr_replaceRange a) (bsr_replaceRange b) then edits_conflict as (b # bs)
      else edits_conflict (a # as) bs)"
| "edits_conflict _ _ \<longleftrightarrow> False"

lemma merge_edits_Nil2 [simp]: "merge_edits as [] = as"
  by (cases as) simp_all

lemma edits_conflict_Nil2 [simp]: "\<not> edits_conflict as []"
  by (cases as) simp_all

lemma merge_edits_sym:
  assumes "\<forall>r \<in> set as \<union> set bs. OffsetRange_inv (bsr_replaceRange r)"
  shows "edits_conflict as bs = edits_conflict bs as \<and> (\<not> edits_conflict as bs \<longrightarrow> merge_edits as bs = merge_edits bs as)"
  using assms
proof (induction as bs rule: merge_edits.induct)
  case (3 a as b bs)
  let ?a = "bsr_replaceRange a" and ?b = "bsr_replaceRange b"
  show ?case
  proof (cases "rebase_conflict ?a ?b")
    case True
    then show ?thesis by (simp add: rebase_conflict_sym [of ?b])
  next
    case False
    have first: "goes_first ?b ?a \<longleftrightarrow> \<not> goes_first ?a ?b"
      using no_conflict_order(2) [OF False] "3.prems" by simp
    show ?thesis
      using 3 False first by (cases "goes_first ?a ?b") (simp_all add: rebase_conflict_sym [of ?b])
  qed
qed simp_all

text \<open>
  The loop against the text \<open>t\<close> that the base edit \<open>bs\<close> makes of \<open>s\<close>, with the invariant of
  \<open>Edit_Compose\<close>.
\<close>

lemma rebase_advance:
  assumes inv: "stringClass.compose_inv s t p bs d" and a: "OffsetRange_inv (bsr_replaceRange a)"
    "p \<le> or_start (bsr_replaceRange a)" "or_endExclusive (bsr_replaceRange a) \<le> int (length s)"
    and before: "bs \<noteq> [] \<longrightarrow> or_endExclusive (bsr_replaceRange a) \<le> or_start (bsr_replaceRange (hd bs))"
  shows "stringClass.compose_inv s t (or_endExclusive (bsr_replaceRange a)) bs d"
    and "sub t (p + d) (or_start (bsr_replaceRange a) + d) = sub s p (or_start (bsr_replaceRange a))"
proof -
  let ?st = "or_start (bsr_replaceRange a)" and ?en = "or_endExclusive (bsr_replaceRange a)"
  have le: "?st \<le> ?en" using a(1) by (simp add: OffsetRange_inv_def)
  have i: "0 \<le> p" "0 \<le> p + d" "p + d \<le> int (length t)" "edit_from string_class p bs (int (length s))"
    "drop (nat (p + d)) t = stringClass.app p bs s"
    using inv by (simp_all add: stringClass.compose_inv_def)
  have "?en + d \<le> int (length t)"
  proof (cases bs)
    case Nil
    have "length (drop (nat (p + d)) t) = length (sub s p (int (length s)))" using i(5) Nil by simp
    moreover have "int (length (sub s p (int (length s)))) = int (length s) - p" using i(1) a(2,3) le by simp
    ultimately show ?thesis using i(2,3) a(3) by simp
  next
    case (Cons b bs')
    have "stringClass.compose_inv s t (or_endExclusive (bsr_replaceRange b)) bs'
        (d + (BaseStringReplacement_getNewLength b - OffsetRange_length (bsr_replaceRange b)))"
      using stringClass.compose_inv_append(1) [of s t p "[b]" bs' d] inv Cons by simp
    then have "or_start (bsr_replaceRange b) + d + BaseStringReplacement_getNewLength b \<le> int (length t)"
      by (simp add: stringClass.compose_inv_def OffsetRange_length_def)
    moreover have "0 \<le> BaseStringReplacement_getNewLength b" by (simp add: BaseStringReplacement_getNewLength_def)
    ultimately show ?thesis using before Cons by simp
  qed
  moreover have "bs \<noteq> [] \<longrightarrow> ?en \<le> or_start (bsr_replaceRange (hd bs))" "bs \<noteq> [] \<longrightarrow> ?st \<le> or_start (bsr_replaceRange (hd bs))"
    using before le by auto
  ultimately show "stringClass.compose_inv s t ?en bs d" "sub t (p + d) (?st + d) = sub s p ?st"
    using stringClass.compose_inv_shift [OF inv, of ?en] stringClass.compose_inv_shift(2) [OF inv, of ?st] a(2) le
    by simp_all
qed

lemma tryRebase_loop_spec:
  assumes "stringClass.compose_inv s t p bs d" and "edit_from string_class p as (int (length s))"
  shows "(edits_conflict as bs \<longrightarrow> tryRebase_loop True as bs d acc = Inr None) \<and>
    (\<not> edits_conflict as bs \<longrightarrow> (\<exists>as'. tryRebase_loop True as bs d acc = Inr (Some (acc @ as')) \<and>
      edit_from string_class (p + d) as' (int (length t)) \<and>
      stringClass.app (p + d) as' t = stringClass.app p (merge_edits as bs) s))"
  using assms
proof (induction as arbitrary: bs p d acc)
  case Nil
  have "0 \<le> p + d" "p + d \<le> int (length t)" "drop (nat (p + d)) t = stringClass.app p bs s"
    using Nil.prems(1) by (simp_all add: stringClass.compose_inv_def)
  then have "stringClass.app (p + d) [] t = stringClass.app p bs s" by (simp add: sub_to_end)
  then show ?case using Nil.prems by (simp add: stringClass.compose_inv_def)
next
  case as: (Cons a as)
  show ?case using as.prems
  proof (induction bs arbitrary: p d acc)
    let ?a = "bsr_replaceRange a"
    let ?a' = "\<lambda>d. StringReplacement_new (OffsetRange.fields (or_start ?a + d) (or_endExclusive ?a + d)) (bsr_newText a)"
    have take_a: "(edits_conflict as bs \<longrightarrow> tryRebase_loop True as bs d (acc @ [?a' d]) = Inr None) \<and>
      (\<not> edits_conflict as bs \<longrightarrow> (\<exists>as'. tryRebase_loop True as bs d (acc @ [?a' d]) = Inr (Some (acc @ as')) \<and>
        edit_from string_class (p + d) as' (int (length t)) \<and>
        stringClass.app (p + d) as' t = stringClass.app p (a # merge_edits as bs) s))"
      if inv: "stringClass.compose_inv s t p bs d" and e: "edit_from string_class p (a # as) (int (length s))"
        and before: "bs \<noteq> [] \<longrightarrow> or_endExclusive ?a \<le> or_start (bsr_replaceRange (hd bs))" for bs p d acc
    proof -
      have a: "OffsetRange_inv ?a" "p \<le> or_start ?a" "edit_from string_class (or_endExclusive ?a) as (int (length s))"
        using e by simp_all
      note adv = rebase_advance [OF inv a(1,2) edit_from_le [OF a(3)] before]
      have ok: "p + d \<le> or_start ?a + d" "OffsetRange_inv (OffsetRange.fields (or_start ?a + d) (or_endExclusive ?a + d))"
        using a by (simp_all add: OffsetRange_inv_def OffsetRange.defs)
      show ?thesis
        using as.IH [OF adv(1) a(3), of "acc @ [?a' d]"] adv(2) ok
        by (auto simp: OffsetRange.defs)
    qed
    have delta: "OffsetRange_delta ?a d = Inr (OffsetRange.fields (or_start ?a + d) (or_endExclusive ?a + d))"
      if "edit_from string_class p (a # as) (int (length s))" for p d
      using that by (simp add: OffsetRange_delta_def OffsetRange_inv_def OffsetRange.defs)
    {
      case Nil
      then show ?case using take_a [of p "[]" d acc] delta [of p d] by simp
    next
      case (Cons b bs)
      let ?b = "bsr_replaceRange b"
      have inv: "OffsetRange_inv ?a" "OffsetRange_inv ?b" "p \<le> or_start ?b"
        using Cons.prems by (simp_all add: stringClass.compose_inv_def)
      show ?case
      proof (cases "rebase_conflict ?a ?b")
        case True
        then show ?thesis by simp
      next
        case False
        note order = no_conflict_order [OF False inv(1,2)]
        show ?thesis
        proof (cases "goes_first ?a ?b")
          case True
          then have "tryRebase_loop True (a # as) (b # bs) d acc = tryRebase_loop True as (b # bs) d (acc @ [?a' d])"
            using False delta [OF Cons.prems(2)] by (simp add: goes_first_def)
          then show ?thesis using take_a [OF Cons.prems] order(1) True False by simp
        next
          case first: False
          let ?d' = "d + (int (length (bsr_newText b)) - OffsetRange_length ?b)"
          have loop: "tryRebase_loop True (a # as) (b # bs) d acc = tryRebase_loop True (a # as) bs ?d' acc"
            using False first unfolding goes_first_def by (simp only: tryRebase_loop.simps if_False)
          have ba: "or_endExclusive ?b \<le> or_start ?a"
            using no_conflict_order(1) [of ?b ?a] False rebase_conflict_sym [of ?a ?b] inv order(2) first by blast
          have invb: "stringClass.compose_inv s t p ([b] @ bs) d" using Cons.prems(1) by simp
          have adv: "stringClass.compose_inv s t (or_endExclusive ?b) bs ?d'"
            "sub t (p + d) (or_endExclusive ?b + ?d') = sub s p (or_start ?b) @ bsr_newText b"
            using stringClass.compose_inv_append [OF invb] by (simp_all add: BaseStringReplacement_getNewLength_def)
          have e: "edit_from string_class (or_endExclusive ?b) (a # as) (int (length s))"
            using Cons.prems(2) ba by simp
          have ge: "p + d \<le> or_endExclusive ?b + ?d'" "0 \<le> p + d"
            using inv Cons.prems(1) by (simp_all add: OffsetRange_length_def stringClass.compose_inv_def)
          have ext: "edit_from string_class (p + d) as' (int (length t)) \<and>
              stringClass.app (p + d) as' t = stringClass.app p (b # merge_edits (a # as) bs) s"
            if "edit_from string_class (or_endExclusive ?b + ?d') as' (int (length t))"
              "stringClass.app (or_endExclusive ?b + ?d') as' t = stringClass.app (or_endExclusive ?b) (merge_edits (a # as) bs) s" for as'
            using that adv(2) stringClass.apply_shift [of "or_endExclusive ?b + ?d'" as' t "p + d"] ge
              edit_from_weaken [OF that(1) ge(1)] by simp
          show ?thesis
            unfolding loop using Cons.IH [OF adv(1) e, of acc] ext False first by auto
        qed
      qed
    }
  qed
qed

lemma tryRebase_spec:
  assumes a: "edit_ok string_class a (int (length s))" and b: "edit_ok string_class b (int (length s))"
  shows "(edits_conflict a b \<longrightarrow> BaseStringEdit_tryRebase a b = Inr None) \<and>
    (\<not> edits_conflict a b \<longrightarrow> (\<exists>a'. BaseStringEdit_tryRebase a b = Inr (Some a') \<and>
      edit_ok string_class a' (int (length (BaseStringEdit_apply b s))) \<and>
      BaseStringEdit_apply a' (BaseStringEdit_apply b s) = stringClass.app 0 (merge_edits a b) s))"
proof -
  let ?t = "BaseStringEdit_apply b s"
  have inv: "stringClass.compose_inv s ?t 0 b 0"
    using stringClass.compose_inv_init [OF b [unfolded edit_ok_def]] BaseStringEdit_apply_eq [of string_class b s] b by simp
  note loop = tryRebase_loop_spec [OF inv a [unfolded edit_ok_def], of "[]"]
  have "\<exists>a'. BaseStringEdit_tryRebase a b = Inr (Some a') \<and> edit_ok string_class a' (int (length ?t)) \<and>
      BaseStringEdit_apply a' ?t = stringClass.app 0 (merge_edits a b) s" if "\<not> edits_conflict a b"
  proof -
    from loop that obtain a' where a': "tryRebase_loop True a b 0 [] = Inr (Some a')"
      "edit_from string_class 0 a' (int (length ?t))" "stringClass.app 0 a' ?t = stringClass.app 0 (merge_edits a b) s"
      by auto
    moreover have "BaseStringEdit_apply a' ?t = stringClass.app 0 a' ?t"
      using BaseStringEdit_apply_eq [of string_class a' ?t] a'(2) by (simp add: edit_ok_def)
    ultimately show ?thesis using BaseEdit_new_ok [OF a'(2)]
      by (simp add: BaseStringEdit_tryRebase_def BaseStringEdit__tryRebase_def StringEdit_new_def edit_ok_def)
  qed
  moreover have "BaseStringEdit_tryRebase a b = Inr None" if "edits_conflict a b"
    using loop that by (simp add: BaseStringEdit_tryRebase_def BaseStringEdit__tryRebase_def)
  ultimately show ?thesis by blast
qed

text \<open>
  C2. For two edits that are valid on the same text, \<open>tryRebase\<close> never throws and succeeds in one
  direction exactly when it does in the other; when it succeeds, both rebased edits are valid where
  they are to be applied, and applying either edit followed by the other one rebased gives the same
  text.
\<close>

theorem StringEdit_tryRebase_converges:
  assumes "edit_ok string_class a (int (length s))" and "edit_ok string_class b (int (length s))"
  shows "(BaseStringEdit_tryRebase a b = Inr None \<and> BaseStringEdit_tryRebase b a = Inr None) \<or>
    (\<exists>a' b'. BaseStringEdit_tryRebase a b = Inr (Some a') \<and> BaseStringEdit_tryRebase b a = Inr (Some b') \<and>
      edit_ok string_class a' (int (length (BaseStringEdit_apply b s))) \<and>
      edit_ok string_class b' (int (length (BaseStringEdit_apply a s))) \<and>
      BaseStringEdit_apply a' (BaseStringEdit_apply b s) = BaseStringEdit_apply b' (BaseStringEdit_apply a s))"
proof -
  have "\<forall>r \<in> set as. OffsetRange_inv (bsr_replaceRange r)" if "edit_from string_class p as n" for as p n
    using that by (induction as arbitrary: p) auto
  then have inv: "\<forall>r \<in> set a \<union> set b. OffsetRange_inv (bsr_replaceRange r)"
    using assms unfolding edit_ok_def by blast
  note sym = merge_edits_sym [OF inv]
  show ?thesis using tryRebase_spec [OF assms] tryRebase_spec [OF assms(2,1)] sym
    by (cases "edits_conflict a b") auto
qed

theorem StringEdit_tryRebase_converges_witness:
  "let s = [97, 98, 99]; a = [\<lparr>bsr_replaceRange = OffsetRange.fields 0 1, bsr_newText = [120, 121]\<rparr>];
       b = [\<lparr>bsr_replaceRange = OffsetRange.fields 1 2, bsr_newText = []\<rparr>]
   in edit_ok string_class a (int (length s)) \<and> edit_ok string_class b (int (length s)) \<and>
      (\<exists>a' b'. BaseStringEdit_tryRebase a b = Inr (Some a') \<and> BaseStringEdit_tryRebase b a = Inr (Some b') \<and>
        BaseStringEdit_apply a' (BaseStringEdit_apply b s) = BaseStringEdit_apply b' (BaseStringEdit_apply a s))"
proof -
  let ?s = "[97, 98, 99] :: js_string"
    and ?a = "[\<lparr>bsr_replaceRange = OffsetRange.fields 0 1, bsr_newText = [120, 121]\<rparr>]"
    and ?b = "[\<lparr>bsr_replaceRange = OffsetRange.fields 1 2, bsr_newText = []\<rparr>]"
  have ok: "edit_ok string_class ?a (int (length ?s))" "edit_ok string_class ?b (int (length ?s))"
    by (simp_all add: edit_ok_def OffsetRange_inv_def OffsetRange.defs)
  have "BaseStringEdit_tryRebase ?a ?b \<noteq> Inr None"
    by (simp add: BaseStringEdit_tryRebase_def BaseStringEdit__tryRebase_def rebase_conflict_def OffsetRange.defs
        OffsetRange_intersects_def areConcurrentInserts_def isInsertStrictlyInsideRange_def OffsetRange_isEmpty_def
        OffsetRange_delta_def StringEdit_new_def BaseEdit_new_def)
  with StringEdit_tryRebase_converges [OF ok] ok show ?thesis unfolding Let_def by blast
qed

subsection \<open>Composing a sequence of replacements\<close>

text \<open>A sequence of replacements, each valid on the text the earlier ones have made.\<close>

fun apply_sequence :: "StringReplacement list \<Rightarrow> js_string \<Rightarrow> js_string" where
  "apply_sequence [] s = s"
| "apply_sequence (r # rs) s = apply_sequence rs (BaseStringReplacement_replace r s)"

fun sequence_ok :: "StringReplacement list \<Rightarrow> js_string \<Rightarrow> bool" where
  "sequence_ok [] s \<longleftrightarrow> True"
| "sequence_ok (r # rs) s \<longleftrightarrow> OffsetRange_inv (bsr_replaceRange r) \<and> 0 \<le> or_start (bsr_replaceRange r) \<and>
     or_endExclusive (bsr_replaceRange r) \<le> int (length s) \<and> sequence_ok rs (BaseStringReplacement_replace r s)"

lemma replace_eq:
  "OffsetRange_inv (bsr_replaceRange r) \<Longrightarrow> 0 \<le> or_start (bsr_replaceRange r) \<Longrightarrow>
   or_endExclusive (bsr_replaceRange r) \<le> int (length s) \<Longrightarrow>
   BaseStringReplacement_replace r s = sub s 0 (or_start (bsr_replaceRange r)) @ bsr_newText r @
     sub s (or_endExclusive (bsr_replaceRange r)) (int (length s))"
  by (simp add: BaseStringReplacement_replace_def js_substring_sub OffsetRange_inv_def)

text \<open>A replacement before all those of an edit can be applied after them or together with them.\<close>

lemma replace_before:
  assumes C: "edit_from string_class 0 C (int (length m))" and t: "t = stringClass.app 0 C m"
    and r: "OffsetRange_inv (bsr_replaceRange r)" "0 \<le> or_start (bsr_replaceRange r)"
      "or_endExclusive (bsr_replaceRange r) \<le> int (length t)"
    and before: "C \<noteq> [] \<longrightarrow> or_endExclusive (bsr_replaceRange r) \<le> or_start (bsr_replaceRange (hd C))"
  shows "edit_from string_class 0 (r # C) (int (length m))"
    and "stringClass.app 0 (r # C) m = BaseStringReplacement_replace r t"
proof -
  let ?st = "or_start (bsr_replaceRange r)" and ?en = "or_endExclusive (bsr_replaceRange r)"
  have le: "?st \<le> ?en" using r(1) by (simp add: OffsetRange_inv_def)
  have inv: "stringClass.compose_inv m t 0 C 0" using stringClass.compose_inv_init [OF C] t by simp
  note en = stringClass.compose_inv_shift [OF inv, of ?en]
  have invE: "stringClass.compose_inv m t ?en C 0" using en(1) r le before by simp
  have "sub t 0 ?st = sub m 0 ?st"
    using stringClass.compose_inv_shift(2) [OF inv, of ?st] r le before by fastforce
  moreover have "sub t ?en (int (length t)) = stringClass.app ?en C m"
    using invE r(2) le by (simp add: stringClass.compose_inv_def sub_to_end)
  ultimately show "stringClass.app 0 (r # C) m = BaseStringReplacement_replace r t"
    using replace_eq [OF r] by simp
  show "edit_from string_class 0 (r # C) (int (length m))"
    using invE r by (simp add: stringClass.compose_inv_def)
qed

lemma composeSequential_loop_spec:
  assumes "edit_ok string_class e (int (length s))"
    and "edit_from string_class 0 (rev C) (int (length (BaseStringEdit_apply e s)))"
    and "sequence_ok rs (stringClass.app 0 (rev C) (BaseStringEdit_apply e s))"
  shows "\<exists>r. bindE (foldE composeSequential_step (e, C) rs) (\<lambda>(edit, cur).
      bindE (StringEdit_create (rev cur)) (BaseEdit_compose string_class edit)) = Inr r \<and>
    edit_ok string_class r (int (length s)) \<and>
    BaseStringEdit_apply r s = apply_sequence rs (stringClass.app 0 (rev C) (BaseStringEdit_apply e s))"
  using assms
proof (induction rs arbitrary: e C)
  have flush: "\<exists>r. bindE (StringEdit_create (rev C)) (BaseEdit_compose string_class e) = Inr r \<and>
      edit_ok string_class r (int (length s)) \<and>
      BaseStringEdit_apply r s = stringClass.app 0 (rev C) (BaseStringEdit_apply e s)"
    if e: "edit_ok string_class e (int (length s))"
      and C: "edit_from string_class 0 (rev C) (int (length (BaseStringEdit_apply e s)))" for e C
  proof -
    have app: "BaseStringEdit_apply e s = stringClass.app 0 e s"
      using BaseStringEdit_apply_eq [of string_class e s] e by simp
    obtain r where r: "BaseEdit_compose string_class e (rev C) = Inr r" "edit_from string_class 0 r (int (length s))"
      "stringClass.app 0 r s = stringClass.app 0 (rev C) (stringClass.app 0 e s)"
      using stringClass.compose_spec [OF e [unfolded edit_ok_def] C [unfolded app]] by auto
    have "BaseStringEdit_apply r s = stringClass.app 0 r s"
      using BaseStringEdit_apply_eq [of string_class r s] r(2) by (simp add: edit_ok_def)
    then show ?thesis using r app BaseEdit_new_ok [OF C]
      by (simp add: StringEdit_create_def StringEdit_new_def edit_ok_def)
  qed
  {
    case Nil
    then show ?case using flush [OF Nil.prems(1,2)] by simp
  next
    case (Cons r rs)
    let ?m = "BaseStringEdit_apply e s"
    let ?t = "stringClass.app 0 (rev C) ?m"
    have r: "OffsetRange_inv (bsr_replaceRange r)" "0 \<le> or_start (bsr_replaceRange r)"
      "or_endExclusive (bsr_replaceRange r) \<le> int (length ?t)" "sequence_ok rs (BaseStringReplacement_replace r ?t)"
      using Cons.prems(3) by simp_all
    show ?case
    proof (cases "C = [] \<or> OffsetRange_isBefore (bsr_replaceRange r) (bsr_replaceRange (last C))")
      case True
      then have "rev C \<noteq> [] \<longrightarrow> or_endExclusive (bsr_replaceRange r) \<le> or_start (bsr_replaceRange (hd (rev C)))"
        by (auto simp: OffsetRange_isBefore_def hd_rev)
      note together = replace_before [OF Cons.prems(2) refl r(1-3) this]
      have "\<exists>r'. bindE (foldE composeSequential_step (e, C @ [r]) rs) (\<lambda>(edit, cur).
          bindE (StringEdit_create (rev cur)) (BaseEdit_compose string_class edit)) = Inr r' \<and>
        edit_ok string_class r' (int (length s)) \<and>
        BaseStringEdit_apply r' s = apply_sequence rs (stringClass.app 0 (rev (C @ [r])) ?m)"
        using Cons.IH [OF Cons.prems(1), of "C @ [r]"] together r(4) by simp
      moreover have "stringClass.app 0 (rev (C @ [r])) ?m = BaseStringReplacement_replace r ?t"
        using together(2) by simp
      moreover have "composeSequential_step (e, C) r = Inr (e, C @ [r])"
        using True by (auto simp: composeSequential_step_def)
      ultimately show ?thesis by (simp only: foldE.simps bindE_simps apply_sequence.simps)
    next
      case False
      obtain e' where e': "bindE (StringEdit_create (rev C)) (BaseEdit_compose string_class e) = Inr e'"
        "edit_ok string_class e' (int (length s))" "BaseStringEdit_apply e' s = ?t"
        using flush [OF Cons.prems(1,2)] by blast
      have one: "edit_from string_class 0 (rev [r]) (int (length ?t))" using r by simp
      have "stringClass.app 0 (rev [r]) ?t = BaseStringReplacement_replace r ?t"
        using replace_eq [OF r(1-3)] by simp
      then have "\<exists>r'. bindE (foldE composeSequential_step (e', [r]) rs) (\<lambda>(edit, cur).
          bindE (StringEdit_create (rev cur)) (BaseEdit_compose string_class edit)) = Inr r' \<and>
        edit_ok string_class r' (int (length s)) \<and>
        BaseStringEdit_apply r' s = apply_sequence rs (BaseStringReplacement_replace r ?t)"
        using Cons.IH [OF e'(2), of "[r]"] one r(4) e'(3) by simp
      moreover have "composeSequential_step (e, C) r = Inr (e', [r])"
        using False e'(1) by (auto simp: composeSequential_step_def)
      ultimately show ?thesis by (simp only: foldE.simps bindE_simps apply_sequence.simps)
    qed
  }
qed

text \<open>
  C5. \<open>composeSequentialReplacements\<close>, which groups runs of replacements from right to left,
  never throws on replacements that are each valid on the text made by the earlier ones, and its
  result has the effect of applying them one by one.
\<close>

theorem StringEdit_composeSequentialReplacements_correct:
  assumes "sequence_ok rs s"
  shows "\<exists>e. StringEdit_composeSequentialReplacements rs = Inr e \<and> edit_ok string_class e (int (length s)) \<and>
    BaseStringEdit_apply e s = apply_sequence rs s"
proof -
  have "edit_ok string_class [] (int (length s))" "BaseStringEdit_apply ([] :: StringReplacement list) s = s"
    by (simp_all add: edit_ok_def BaseStringEdit_apply_def js_substring_sub)
  then show ?thesis
    using composeSequential_loop_spec [of "[]" s "[]" rs] assms
    by (simp add: StringEdit_composeSequentialReplacements_def)
qed

theorem StringEdit_composeSequentialReplacements_correct_witness:
  "let s = [97, 98, 99]; rs = [\<lparr>bsr_replaceRange = OffsetRange.fields 1 2, bsr_newText = [120, 121]\<rparr>,
       \<lparr>bsr_replaceRange = OffsetRange.fields 0 1, bsr_newText = []\<rparr>,
       \<lparr>bsr_replaceRange = OffsetRange.fields 1 2, bsr_newText = [122]\<rparr>]
   in sequence_ok rs s \<and> apply_sequence rs s = [120, 122, 99] \<and>
      (\<exists>e. StringEdit_composeSequentialReplacements rs = Inr e \<and> BaseStringEdit_apply e s = apply_sequence rs s)"
proof -
  let ?s = "[97, 98, 99] :: js_string" and ?rs = "[\<lparr>bsr_replaceRange = OffsetRange.fields 1 2, bsr_newText = [120, 121]\<rparr>,
       \<lparr>bsr_replaceRange = OffsetRange.fields 0 1, bsr_newText = []\<rparr>,
       \<lparr>bsr_replaceRange = OffsetRange.fields 1 2, bsr_newText = [122]\<rparr>]"
  have ok: "sequence_ok ?rs ?s" "apply_sequence ?rs ?s = [120, 122, 99]"
    by (simp_all add: OffsetRange_inv_def OffsetRange.defs BaseStringReplacement_replace_def js_substring_def sub_def
        Let_def numeral_2_eq_2 numeral_3_eq_3)
  from StringEdit_composeSequentialReplacements_correct [OF ok(1)] ok show ?thesis unfolding Let_def by blast
qed

subsection \<open>Normalizing on a source\<close>

lemma take_prefix_sub: "k \<le> length a \<Longrightarrow> k \<le> length b \<Longrightarrow> take k a = take k b \<Longrightarrow> sub a 0 (int k) = sub b 0 (int k)"
  by (simp add: sub_def)

lemma removeCommonSuffix_whole:
  assumes r: "bsr_replaceRange r = OffsetRange.fields 0 (int (length s))" "bsr_newText r = t"
  defines "k \<equiv> int (commonSuffixLength s t)"
  shows "BaseStringReplacement_removeCommonSuffix string_class r s =
    Inr (StringReplacement_new (OffsetRange.fields 0 (int (length s) - k)) (sub t 0 (int (length t) - k)))"
proof -
  have old: "OffsetRange_substring (bsr_replaceRange r) s = s"
    using substring_eq_sub [of "bsr_replaceRange r" s] r(1) by (simp add: OffsetRange.defs)
  have k: "0 \<le> k" "k \<le> int (length s)" "k \<le> int (length t)"
    using commonSuffixLength_spec(1,2) [of s t] by (simp_all add: k_def)
  show ?thesis
  proof (cases "k = 0")
    case True
    then show ?thesis using r old
      by (auto simp: BaseStringReplacement_removeCommonSuffix_def Let_def k_def intro: BaseStringReplacement.equality)
  next
    case False
    have "OffsetRange_substring (OffsetRange.fields 0 (int (length t) - k)) t = sub t 0 (int (length t) - k)"
      using substring_eq_sub [of "OffsetRange.fields 0 (int (length t) - k)" t] k by (simp add: OffsetRange.defs)
    moreover have "commonSuffixLength s t \<noteq> 0" using False by (simp add: k_def)
    ultimately show ?thesis using k r old
      by (simp add: BaseStringReplacement_removeCommonSuffix_def Let_def k_def [symmetric] OffsetRange_deltaEnd_def
          OffsetRange.defs string_class_def StringReplacement_slice_def)
  qed
qed

lemma removeCommonPrefix_spec:
  assumes r: "bsr_replaceRange r = OffsetRange.fields 0 n" "0 \<le> n" "n \<le> int (length s)" "bsr_newText r = t"
  defines "p \<equiv> int (commonPrefixLength (sub s 0 n) t)"
  shows "BaseStringReplacement_removeCommonPrefix string_class r s =
    Inr (StringReplacement_new (OffsetRange.fields p n) (sub t p (int (length t))))"
    and "p \<le> n" "p \<le> int (length t)" "sub s 0 p = sub t 0 p"
proof -
  have old: "OffsetRange_substring (bsr_replaceRange r) s = sub s 0 n"
    using substring_eq_sub [of "bsr_replaceRange r" s] r by (simp add: OffsetRange.defs)
  have len: "int (length (sub s 0 n)) = n" using r by simp
  have p0: "0 \<le> p" by (simp add: p_def)
  show p: "p \<le> n" "p \<le> int (length t)"
    using commonPrefixLength_spec(1,2) [of "sub s 0 n" t] len by (simp_all add: p_def)
  have "sub (sub s 0 n) 0 p = sub t 0 p"
    unfolding p_def
    by (rule take_prefix_sub) (use commonPrefixLength_spec(1-3) [of "sub s 0 n" t] in simp_all)
  then show "sub s 0 p = sub t 0 p" using sub_sub [of 0 0 p n s] p by simp
  show "BaseStringReplacement_removeCommonPrefix string_class r s =
      Inr (StringReplacement_new (OffsetRange.fields p n) (sub t p (int (length t))))"
  proof (cases "p = 0")
    case True
    then show ?thesis using r old p
      by (auto simp: BaseStringReplacement_removeCommonPrefix_def Let_def p_def intro: BaseStringReplacement.equality)
  next
    case False
    have "OffsetRange_substring (OffsetRange.fields p (int (length t))) t = sub t p (int (length t))"
      using substring_eq_sub [of "OffsetRange.fields p (int (length t))" t] p p0 by (simp add: OffsetRange.defs)
    moreover have "commonPrefixLength (sub s 0 n) t \<noteq> 0" using False by (simp add: p_def)
    ultimately show ?thesis using p r old
      by (simp add: BaseStringReplacement_removeCommonPrefix_def Let_def p_def [symmetric] OffsetRange_deltaStart_def
          OffsetRange.defs string_class_def StringReplacement_slice_def)
  qed
qed

lemma removeCommonSuffixAndPrefix_whole:
  assumes "bsr_replaceRange r = OffsetRange.fields 0 (int (length s))" "bsr_newText r = t"
  obtains e where "BaseStringReplacement_removeCommonSuffixAndPrefix string_class r s = Inr e"
    "edit_ok string_class [e] (int (length s))" "stringClass.app 0 [e] s = t"
    "BaseReplacement_isEmpty string_class e \<longrightarrow> t = s" "t = s \<longrightarrow> BaseReplacement_isEmpty string_class e"
    "\<And>u x y w. s = u @ x @ w \<Longrightarrow> t = u @ y @ w \<Longrightarrow>
      OffsetRange_length (bsr_replaceRange e) \<le> int (length x) \<and> length (bsr_newText e) \<le> length y"
proof -
  define k where "k = int (commonSuffixLength s t)"
  let ?n = "int (length s) - k" and ?t = "sub t 0 (int (length t) - k)"
  have k: "0 \<le> k" "k \<le> int (length s)" "k \<le> int (length t)"
    using commonSuffixLength_spec(1,2) [of s t] by (simp_all add: k_def)
  let ?r = "StringReplacement_new (OffsetRange.fields 0 ?n) ?t"
  define p where "p = int (commonPrefixLength (sub s 0 ?n) ?t)"
  let ?e = "StringReplacement_new (OffsetRange.fields p ?n) (sub ?t p (int (length ?t)))"
  have len: "int (length ?t) = int (length t) - k" using k by simp
  have pre: "BaseStringReplacement_removeCommonPrefix string_class ?r s = Inr ?e" "p \<le> ?n" "p \<le> int (length ?t)"
    "sub s 0 p = sub ?t 0 p"
    using removeCommonPrefix_spec [of ?r ?n s ?t] k by (simp_all add: p_def)
  have p0: "0 \<le> p" by (simp add: p_def)
  have res: "BaseStringReplacement_removeCommonSuffixAndPrefix string_class r s = Inr ?e"
    using removeCommonSuffix_whole [OF assms] pre(1)
    by (simp add: BaseStringReplacement_removeCommonSuffixAndPrefix_def k_def)
  have ok: "edit_ok string_class [?e] (int (length s))"
    using p0 pre(2) k by (simp add: edit_ok_def OffsetRange_inv_def OffsetRange.defs)
  have "sub ?t 0 p @ sub ?t p (int (length ?t)) = ?t"
    using sub_append_sub [of 0 p "int (length ?t)" ?t] p0 pre(3) by simp
  moreover have "sub s ?n (int (length s)) = sub t (int (length t) - k) (int (length t))"
    using commonSuffixLength_spec(3) [of s t] k by (simp add: sub_to_end k_def nat_diff_distrib)
  moreover have "?t @ sub t (int (length t) - k) (int (length t)) = t"
    using sub_append_sub [of 0 "int (length t) - k" "int (length t)" t] k by simp
  ultimately have app: "stringClass.app 0 [?e] s = t"
    using pre(4) by (simp add: OffsetRange.defs flip: append_assoc)
  have empty: "BaseReplacement_isEmpty string_class ?e \<longleftrightarrow> p = ?n \<and> p = int (length ?t)"
    using pre(2,3) p0 length_sub [of p "int (length ?t)" ?t]
    by (auto simp: BaseReplacement_isEmpty_def BaseStringReplacement_getNewLength_def OffsetRange_length_def OffsetRange.defs)
  have "t = s" if "BaseReplacement_isEmpty string_class ?e"
    using app that sub_append_sub [of 0 p "int (length s)" s] p0 k unfolding empty by (simp add: OffsetRange.defs)
  moreover have "BaseReplacement_isEmpty string_class ?e" if "t = s"
  proof -
    have "commonSuffixLength s s = length s"
      using commonPrefixLength_spec(1,4) [of "rev s" "rev s"] by (fastforce simp: commonSuffixLength_rev)
    then have "?n = 0" "int (length ?t) = 0" using that by (simp_all add: k_def)
    then show ?thesis unfolding empty using pre(2) p0 by linarith
  qed
  moreover have "OffsetRange_length (bsr_replaceRange ?e) \<le> int (length x) \<and> length (bsr_newText ?e) \<le> length y"
    if st: "s = u @ x @ w" "t = u @ y @ w" for u x y w
  proof -
    have "sub s 0 ?n = take (length s - commonSuffixLength s t) s" "?t = take (length t - commonSuffixLength s t) t"
      using k by (simp_all add: sub_def k_def nat_diff_distrib)
    then have "int (length s) \<le> k + p + int (length x)" "int (length t) \<le> k + p + int (length y)"
      using common_suffix_prefix_minimal [of u x w y, folded st] by (simp_all add: k_def p_def)
    moreover have "int (length (sub ?t p (int (length ?t)))) = int (length t) - k - p"
      using length_sub [of p "int (length ?t)" ?t] pre(3) p0 len by simp
    ultimately show ?thesis using pre(2) by (simp add: OffsetRange_length_def OffsetRange.defs)
  qed
  ultimately show ?thesis using res ok app by (intro that [of ?e]) simp_all
qed

text \<open>A single replacement leaves what is before and what is behind its range.\<close>

lemma single_replacement_parts:
  assumes "edit_ok string_class [r] (int (length s))" and "BaseStringEdit_apply [r] s = t"
  shows "\<exists>u x w. s = u @ x @ w \<and> t = u @ bsr_newText r @ w \<and> int (length x) = OffsetRange_length (bsr_replaceRange r)"
proof -
  let ?a = "or_start (bsr_replaceRange r)" and ?b = "or_endExclusive (bsr_replaceRange r)"
  have r: "0 \<le> ?a" "?a \<le> ?b" "?b \<le> int (length s)"
    using assms(1) by (simp_all add: edit_ok_def OffsetRange_inv_def)
  have "s = sub s 0 ?a @ sub s ?a ?b @ sub s ?b (int (length s))"
    using r sub_append_sub [of ?a ?b "int (length s)" s] sub_append_sub [of 0 ?a "int (length s)" s] by simp
  moreover have "t = sub s 0 ?a @ bsr_newText r @ sub s ?b (int (length s))"
    using assms(2) BaseStringEdit_apply_eq [OF string_class_simps(1) assms(1)] by simp
  moreover have "int (length (sub s ?a ?b)) = OffsetRange_length (bsr_replaceRange r)"
    using r by (simp add: OffsetRange_length_def)
  ultimately show ?thesis by blast
qed

text \<open>
  C7. \<open>normalizeOnSource\<close> never throws on an edit that is valid on the source. Its result, at
  most one replacement, has the effect of the edit on the source, is empty exactly when the edit does
  not change the source, and is the same for any two edits that make the same text of it. It is
  minimal: no single replacement with this effect replaces fewer units or inserts fewer.
\<close>

theorem StringEdit_normalizeOnSource_correct:
  assumes "edit_ok string_class e (int (length s))"
  shows "\<exists>n. BaseStringEdit_normalizeOnSource e s = Inr n \<and> edit_ok string_class n (int (length s)) \<and> length n \<le> 1 \<and>
    BaseStringEdit_apply n s = BaseStringEdit_apply e s \<and> (n = [] \<longleftrightarrow> BaseStringEdit_apply e s = s) \<and>
    (\<forall>e' :: StringReplacement list. BaseStringEdit_apply e' s = BaseStringEdit_apply e s \<longrightarrow>
      BaseStringEdit_normalizeOnSource e' s = Inr n) \<and>
    (\<forall>x \<in> set n. \<forall>r. edit_ok string_class [r] (int (length s)) \<and> BaseStringEdit_apply [r] s = BaseStringEdit_apply e s \<longrightarrow>
      OffsetRange_length (bsr_replaceRange x) \<le> OffsetRange_length (bsr_replaceRange r) \<and>
      length (bsr_newText x) \<le> length (bsr_newText r))"
proof -
  let ?t = "BaseStringEdit_apply e s"
  let ?r = "StringReplacement_replace (OffsetRange.fields 0 (int (length s))) ?t"
  have r: "bsr_replaceRange ?r = OffsetRange.fields 0 (int (length s))" "bsr_newText ?r = ?t"
    by (simp_all add: StringReplacement_replace_def)
  obtain x where x: "BaseStringReplacement_removeCommonSuffixAndPrefix string_class ?r s = Inr x"
    "edit_ok string_class [x] (int (length s))" "stringClass.app 0 [x] s = ?t"
    "BaseReplacement_isEmpty string_class x \<longrightarrow> ?t = s" "?t = s \<longrightarrow> BaseReplacement_isEmpty string_class x"
    "\<And>u y z w. s = u @ y @ w \<Longrightarrow> ?t = u @ z @ w \<Longrightarrow>
      OffsetRange_length (bsr_replaceRange x) \<le> int (length y) \<and> length (bsr_newText x) \<le> length z"
    using removeCommonSuffixAndPrefix_whole [OF r] by blast
  let ?n = "if BaseReplacement_isEmpty string_class x then [] else [x]"
  have "BaseStringReplacement_toEdit x = Inr [x]"
    using BaseEdit_new_ok [OF x(2) [unfolded edit_ok_def]] by (simp add: BaseStringReplacement_toEdit_def StringEdit_new_def)
  then have n: "BaseStringEdit_normalizeOnSource e' s = Inr ?n" if "BaseStringEdit_apply e' s = ?t"
    for e' :: "StringReplacement list"
    using that x(1) by (simp add: BaseStringEdit_normalizeOnSource_def OffsetRange_ofLength_def Let_def OffsetRange.defs)
  have ok: "edit_ok string_class ?n (int (length s))" using x(2) by (simp add: edit_ok_def)
  have "BaseStringEdit_apply ?n s = ?t"
  proof (cases "BaseReplacement_isEmpty string_class x")
    case True
    then show ?thesis using x(4) BaseStringEdit_apply_eq [of string_class ?n s] ok by simp
  next
    case False
    then have "?n = [x]" by simp
    then show ?thesis using x(3) [unfolded string_class_simps] BaseStringEdit_apply_eq [OF string_class_simps(1) ok]
      by (simp only:)
  qed
  moreover have "OffsetRange_length (bsr_replaceRange x) \<le> OffsetRange_length (bsr_replaceRange r) \<and>
      length (bsr_newText x) \<le> length (bsr_newText r)"
    if "edit_ok string_class [r] (int (length s))" "BaseStringEdit_apply [r] s = ?t" for r :: StringReplacement
    using single_replacement_parts [OF that] x(6) by metis
  ultimately show ?thesis using n ok x(4,5) by (intro exI [of _ ?n]) auto
qed

theorem StringEdit_normalizeOnSource_correct_witness:
  "let s = [97, 98, 99]; e = [\<lparr>bsr_replaceRange = OffsetRange.fields 0 2, bsr_newText = [97, 120]\<rparr>]
   in edit_ok string_class e (int (length s)) \<and>
      (\<exists>n. BaseStringEdit_normalizeOnSource e s = Inr n \<and> BaseStringEdit_apply n s = BaseStringEdit_apply e s \<and>
        (\<forall>x \<in> set n. OffsetRange_length (bsr_replaceRange x) \<le> 1 \<and> length (bsr_newText x) \<le> 1))"
proof -
  let ?s = "[97, 98, 99] :: js_string"
    and ?e = "[\<lparr>bsr_replaceRange = OffsetRange.fields 0 2, bsr_newText = [97, 120]\<rparr>] :: StringReplacement list"
  have ok: "edit_ok string_class ?e (int (length ?s))"
    by (simp add: edit_ok_def OffsetRange_inv_def OffsetRange.defs)
  let ?r = "\<lparr>bsr_replaceRange = OffsetRange.fields 1 2, bsr_newText = [120]\<rparr> :: StringReplacement"
  have r: "edit_ok string_class [?r] (int (length ?s))" "BaseStringEdit_apply [?r] ?s = BaseStringEdit_apply ?e ?s"
    by (simp add: edit_ok_def OffsetRange_inv_def OffsetRange.defs) code_simp
  have "OffsetRange_length (bsr_replaceRange ?r) = 1" "length (bsr_newText ?r) = 1"
    by (simp_all add: OffsetRange_length_def OffsetRange.defs)
  with StringEdit_normalizeOnSource_correct [OF ok] ok r show ?thesis unfolding Let_def by metis
qed

subsection \<open>Length edits\<close>

lemma apply_from_map_items:
  "apply_from rg (\<lambda>r. map g (ct r)) p rs (map g s) = map g (apply_from rg ct p rs s)"
  by (induction rs arbitrary: p) (simp_all add: sub_def take_map drop_map)

lemma map_js_get: "0 \<le> i \<Longrightarrow> i \<le> j \<Longrightarrow> j \<le> int (length s) \<Longrightarrow> map (js_get s) [i..j - 1] = sub (map Some s) i j"
  by (intro nth_equalityI) (auto simp: sub_def js_get_def nat_add_distrib)

lemma LengthEdit_applyArray_eq:
  assumes "edit_ok length_class e (int (length s))"
  shows "LengthEdit_applyArray e s f = Inr (map Some (lengthClass.app f 0 e s)) \<and>
    int (length (lengthClass.app f 0 e s)) = BaseEdit_getNewDataLength length_class e (int (length s))"
proof -
  let ?ct = "\<lambda>r. replicate (nat (lrep_newLength r)) f"
  have len: "int (length (lengthClass.app f 0 e s)) = BaseEdit_getNewDataLength length_class e (int (length s))"
    using lengthClass.length_apply [of 0 e s f] assms
    by (simp add: edit_ok_def BaseEdit_getNewDataLength_def BaseEdit_getLengthDelta_def foldl_sum
        BaseReplacement_getLengthDelta_def)
  have "lengthClass.app f 0 e s = apply_from lrep_replaceRange ?ct 0 e s" by simp
  then have "map Some (lengthClass.app f 0 e s) = apply_from lrep_replaceRange (\<lambda>r. map Some (?ct r)) 0 e (map Some s)"
    by (simp only: apply_from_map_items)
  also have "\<dots> = (let (res, pos) = foldl (\<lambda>(res, pos) r. (res @ map (js_get s) [pos..or_start (lrep_replaceRange r) - 1] @ map Some (?ct r),
         or_endExclusive (lrep_replaceRange r))) ([], 0) e in res @ map (js_get s) [pos..int (length s) - 1])"
    using apply_loop_eq [of "map Some s" "\<lambda>i j. map (js_get s) [i..j - 1]" length_class lrep_replaceRange 0 e
        "\<lambda>r. map Some (?ct r)" "[]"] assms
    by (simp add: map_js_get edit_ok_def)
  finally show ?thesis using len by (simp add: LengthEdit_applyArray_def case_prod_beta)
qed

lemma LengthEdit_inverse_loop_eq:
  "edit_from length_class p rs n \<Longrightarrow>
   \<exists>res. LengthEdit_inverse_loop d rs = Inr res \<and> map lrep_replaceRange res = map fst (lengthClass.inverse_of d rs s) \<and>
     (\<forall>r \<in> set res. 0 \<le> lrep_newLength r) \<and>
     (\<Sum>r \<leftarrow> res. lrep_newLength r - OffsetRange_length (lrep_replaceRange r)) =
       - (\<Sum>r \<leftarrow> rs. lrep_newLength r - OffsetRange_length (lrep_replaceRange r))"
proof (induction rs arbitrary: p d)
  case (Cons e rs)
  then have e: "OffsetRange_inv (lrep_replaceRange e)" "0 \<le> lrep_newLength e"
    "edit_from length_class (or_endExclusive (lrep_replaceRange e)) rs n" by (simp_all add: repl_ok_def)
  from Cons.IH [OF e(3), of "d + (lrep_newLength e - OffsetRange_length (lrep_replaceRange e))"] e(1,2)
  show ?case
    by (auto simp: OffsetRange_ofStartAndLength_def OffsetRange_inv_def OffsetRange.defs OffsetRange_length_def)
qed simp

text \<open>
  For length edits that are valid on the lengths they are applied to: applying one to an array
  fills it to the predicted length; composing never throws and fills the array as applying one after
  the other does; and the inverse is valid on the new length and predicts the old one.
\<close>

theorem LengthEdit_correct:
  assumes "edit_ok length_class e1 (int (length xs))"
    and "edit_ok length_class e2 (BaseEdit_getNewDataLength length_class e1 (int (length xs)))"
  shows "\<exists>ys zs r i. LengthEdit_applyArray e1 xs fillItem = Inr (map Some ys) \<and>
    int (length ys) = BaseEdit_getNewDataLength length_class e1 (int (length xs)) \<and>
    LengthEdit_applyArray e2 ys fillItem = Inr (map Some zs) \<and>
    BaseEdit_compose length_class e1 e2 = Inr r \<and> edit_ok length_class r (int (length xs)) \<and>
    LengthEdit_applyArray r xs fillItem = Inr (map Some zs) \<and>
    LengthEdit_inverse e1 = Inr i \<and> edit_ok length_class i (int (length ys)) \<and>
    BaseEdit_getNewDataLength length_class i (int (length ys)) = int (length xs)"
proof -
  let ?ys = "lengthClass.app fillItem 0 e1 xs"
  let ?zs = "lengthClass.app fillItem 0 e2 ?ys"
  have e1: "edit_from length_class 0 e1 (int (length xs))" using assms(1) by (simp add: edit_ok_def)
  have ys: "LengthEdit_applyArray e1 xs fillItem = Inr (map Some ?ys)"
    "int (length ?ys) = BaseEdit_getNewDataLength length_class e1 (int (length xs))"
    using LengthEdit_applyArray_eq [OF assms(1)] by blast+
  have e2: "edit_ok length_class e2 (int (length ?ys))" using assms(2) ys(2) by simp
  have zs: "LengthEdit_applyArray e2 ?ys fillItem = Inr (map Some ?zs)"
    using LengthEdit_applyArray_eq [OF e2] by blast
  obtain r where r: "BaseEdit_compose length_class e1 e2 = Inr r" "edit_ok length_class r (int (length xs))"
    "lengthClass.app fillItem 0 r xs = ?zs"
    using lengthClass.compose_spec [OF e1 e2 [unfolded edit_ok_def]] unfolding edit_ok_def by blast
  have rz: "LengthEdit_applyArray r xs fillItem = Inr (map Some ?zs)"
    using LengthEdit_applyArray_eq [OF r(2), of fillItem] r(3) by simp
  obtain i where i: "LengthEdit_inverse_loop 0 e1 = Inr i"
    "map lrep_replaceRange i = map fst (lengthClass.inverse_of 0 e1 xs)" "\<forall>r \<in> set i. 0 \<le> lrep_newLength r"
    "(\<Sum>r \<leftarrow> i. lrep_newLength r - OffsetRange_length (lrep_replaceRange r)) =
       - (\<Sum>r \<leftarrow> e1. lrep_newLength r - OffsetRange_length (lrep_replaceRange r))"
    using LengthEdit_inverse_loop_eq [OF e1, of 0 xs] by blast
  have inv: "lengthClass.compose_inv fillItem xs ?ys 0 e1 0" by (rule lengthClass.compose_inv_init [OF e1])
  have iok: "edit_ok length_class i (int (length ?ys))"
    using lengthClass.inverse_of_edit [OF inv, of length_class i] i(2,3) by (simp add: edit_ok_def)
  have "LengthEdit_inverse e1 = Inr i"
    using i(1) BaseEdit_new_ok [OF iok [unfolded edit_ok_def]] by (simp add: LengthEdit_inverse_def)
  moreover have "BaseEdit_getNewDataLength length_class i (int (length ?ys)) = int (length xs)"
    using i(4) ys(2) by (simp add: BaseEdit_getNewDataLength_def BaseEdit_getLengthDelta_def foldl_sum
        BaseReplacement_getLengthDelta_def)
  ultimately show ?thesis using ys zs r(1,2) rz iok by blast
qed

theorem LengthEdit_correct_witness:
  "let xs = [7, 8, 9 :: nat]; e1 = [\<lparr>lrep_replaceRange = OffsetRange.fields 1 2, lrep_newLength = 3\<rparr>];
       e2 = [\<lparr>lrep_replaceRange = OffsetRange.fields 0 4, lrep_newLength = 1\<rparr>]
   in edit_ok length_class e1 (int (length xs)) \<and>
      edit_ok length_class e2 (BaseEdit_getNewDataLength length_class e1 (int (length xs))) \<and>
      (\<exists>r. BaseEdit_compose length_class e1 e2 = Inr r \<and> edit_ok length_class r (int (length xs)))"
proof -
  let ?xs = "[7, 8, 9 :: nat]" and ?e1 = "[\<lparr>lrep_replaceRange = OffsetRange.fields 1 2, lrep_newLength = 3\<rparr>]"
    and ?e2 = "[\<lparr>lrep_replaceRange = OffsetRange.fields 0 4, lrep_newLength = 1\<rparr>]"
  have ok: "edit_ok length_class ?e1 (int (length ?xs))"
    "edit_ok length_class ?e2 (BaseEdit_getNewDataLength length_class ?e1 (int (length ?xs)))"
    by (simp_all add: edit_ok_def repl_ok_def OffsetRange_inv_def OffsetRange.defs BaseEdit_getNewDataLength_def
        BaseEdit_getLengthDelta_def BaseReplacement_getLengthDelta_def OffsetRange_length_def)
  from LengthEdit_correct [OF ok, of 0] ok show ?thesis unfolding Let_def by blast
qed

end
