(* ===== verification/Js_Text.thy ===== *)
theory Js_Text
  imports Js_Strings "HOL-Library.Sublist"
begin

text \<open>
  The functions of \<open>src/vs/base/common/strings.ts\<close> that read a string unit by unit:
  code points and their iterator, the splitting of a text into lines, the comparisons, trimming and
  the fuzzy containment test.

  \<open>charCodeAt\<close> gives \<open>NaN\<close> for an offset outside of the string, which is \<open>None\<close>
  here; every comparison with it is false. The locale-independent \<open>toLowerCase\<close> of the
  standard library is an argument of the functions that call it.
\<close>

definition charCodeAt :: "js_string \<Rightarrow> int \<Rightarrow> int option" where
  "charCodeAt s i = (if 0 \<le> i \<and> i < int (length s) then Some (uint (s ! nat i)) else None)"

definition js_between :: "int \<Rightarrow> int option \<Rightarrow> int \<Rightarrow> bool" where
  "js_between lo c hi = (case c of None \<Rightarrow> False | Some c \<Rightarrow> lo \<le> c \<and> c \<le> hi)"

lemma charCodeAt_in [simp]: "0 \<le> i \<Longrightarrow> i < int (length s) \<Longrightarrow> charCodeAt s i = Some (uint (s ! nat i))"
  by (simp add: charCodeAt_def)

lemma charCodeAt_out [simp]: "i < 0 \<or> int (length s) \<le> i \<Longrightarrow> charCodeAt s i = None"
  by (auto simp: charCodeAt_def)

subsection \<open>Code points\<close>

definition isHighSurrogate :: "int option \<Rightarrow> bool" where
  "isHighSurrogate charCode = js_between 0xD800 charCode 0xDBFF"

definition isLowSurrogate :: "int option \<Rightarrow> bool" where
  "isLowSurrogate charCode = js_between 0xDC00 charCode 0xDFFF"

definition js_shl :: "int \<Rightarrow> nat \<Rightarrow> int" where
  "js_shl a n = js_or0 (push_bit n a)"

definition computeCodePoint :: "int \<Rightarrow> int \<Rightarrow> int" where
  "computeCodePoint highSurrogate lowSurrogate =
     js_shl (highSurrogate - 0xD800) 10 + (lowSurrogate - 0xDC00) + 0x10000"

definition getNextCodePoint :: "js_string \<Rightarrow> int \<Rightarrow> int \<Rightarrow> int option" where
  "getNextCodePoint str len offset =
     (let charCode = charCodeAt str offset
      in if isHighSurrogate charCode \<and> offset + 1 < len then
           let nextCharCode = charCodeAt str (offset + 1)
           in if isLowSurrogate nextCharCode then Some (computeCodePoint (the charCode) (the nextCharCode))
              else charCode
         else charCode)"

definition getPrevCodePoint :: "js_string \<Rightarrow> int \<Rightarrow> int option" where
  "getPrevCodePoint str offset =
     (let charCode = charCodeAt str (offset - 1)
      in if isLowSurrogate charCode \<and> offset > 1 then
           let prevCharCode = charCodeAt str (offset - 2)
           in if isHighSurrogate prevCharCode then Some (computeCodePoint (the prevCharCode) (the charCode))
              else charCode
         else charCode)"

record CodePointIterator =
  cpi_str :: js_string
  cpi_len :: int
  cpi_offset :: int

definition CodePointIterator_new :: "js_string \<Rightarrow> int \<Rightarrow> CodePointIterator" where
  "CodePointIterator_new str offset = \<lparr>cpi_str = str, cpi_len = int (length str), cpi_offset = offset\<rparr>"

definition CodePointIterator_setOffset :: "CodePointIterator \<Rightarrow> int \<Rightarrow> CodePointIterator" where
  "CodePointIterator_setOffset this offset = this\<lparr>cpi_offset := offset\<rparr>"

definition codePoint_size :: "int option \<Rightarrow> int" where
  "codePoint_size codePoint = (case codePoint of None \<Rightarrow> 1 | Some c \<Rightarrow> if c \<ge> 0x10000 then 2 else 1)"

definition CodePointIterator_prevCodePoint :: "CodePointIterator \<Rightarrow> int option \<times> CodePointIterator" where
  "CodePointIterator_prevCodePoint this =
     (let codePoint = getPrevCodePoint (cpi_str this) (cpi_offset this)
      in (codePoint, this\<lparr>cpi_offset := cpi_offset this - codePoint_size codePoint\<rparr>))"

definition CodePointIterator_nextCodePoint :: "CodePointIterator \<Rightarrow> int option \<times> CodePointIterator" where
  "CodePointIterator_nextCodePoint this =
     (let codePoint = getNextCodePoint (cpi_str this) (cpi_len this) (cpi_offset this)
      in (codePoint, this\<lparr>cpi_offset := cpi_offset this + codePoint_size codePoint\<rparr>))"

definition CodePointIterator_eol :: "CodePointIterator \<Rightarrow> bool" where
  "CodePointIterator_eol this = (cpi_offset this \<ge> cpi_len this)"

text \<open>
  The iteration of the language itself, \<open>for (const c of text)\<close>: a high surrogate and a low
  surrogate that follows it are one code point, every other unit is one.
\<close>

definition surrogate_code_point :: "int \<Rightarrow> int \<Rightarrow> int" where
  "surrogate_code_point h l = (h - 0xD800) * 0x400 + (l - 0xDC00) + 0x10000"

fun js_codePoints :: "js_string \<Rightarrow> int list" where
  "js_codePoints [] = []"
| "js_codePoints [c] = [uint c]"
| "js_codePoints (h # l # s) =
     (if isHighSurrogate (Some (uint h)) \<and> isLowSurrogate (Some (uint l))
      then surrogate_code_point (uint h) (uint l) # js_codePoints s
      else uint h # js_codePoints (l # s))"

definition utf16_encode :: "int \<Rightarrow> js_string" where
  "utf16_encode c =
     (if c < 0x10000 then [word_of_int c]
      else [word_of_int (0xD800 + (c - 0x10000) div 0x400), word_of_int (0xDC00 + (c - 0x10000) mod 0x400)])"

definition codePoint_offset :: "int list \<Rightarrow> nat \<Rightarrow> int" where
  "codePoint_offset cps k = sum_list (map (\<lambda>c. codePoint_size (Some c)) (take k cps))"

lemmas surrogate_defs = isHighSurrogate_def isLowSurrogate_def js_between_def

lemma computeCodePoint_eq:
  "isHighSurrogate (Some h) \<Longrightarrow> computeCodePoint h l = surrogate_code_point h l"
proof -
  assume "isHighSurrogate (Some h)"
  then have "js_shl (h - 0xD800) 10 = (h - 0xD800) * 0x400"
    by (simp add: js_shl_def surrogate_defs push_bit_eq_mult js_or0_id)
  then show ?thesis by (simp add: computeCodePoint_def surrogate_code_point_def)
qed

lemma uint16_less: "uint (c :: 16 word) < 0x10000"
  using uint_lt2p [of c] by simp

lemma utf16_encode_unit: "utf16_encode (uint (c :: 16 word)) = [c]"
  using uint16_less [of c] by (simp add: utf16_encode_def)

lemma surrogate_code_point_ge:
  "isHighSurrogate (Some h) \<Longrightarrow> isLowSurrogate (Some l) \<Longrightarrow> 0x10000 \<le> surrogate_code_point h l"
  by (simp add: surrogate_defs surrogate_code_point_def)

lemma utf16_encode_pair:
  fixes h l :: "16 word"
  assumes "isHighSurrogate (Some (uint h))" "isLowSurrogate (Some (uint l))"
  shows "utf16_encode (surrogate_code_point (uint h) (uint l)) = [h, l]"
proof -
  define a b where "a = uint h - 0xD800" and "b = uint l - 0xDC00"
  have b: "0 \<le> a" "0 \<le> b" "b < 0x400" using assms by (simp_all add: a_def b_def surrogate_defs)
  then have "(a * 0x400 + b) div 0x400 = a" "(a * 0x400 + b) mod 0x400 = b" by simp_all
  moreover have "\<not> a * 0x400 + b + 0x10000 < 0x10000" using b by simp
  moreover have "surrogate_code_point (uint h) (uint l) = a * 0x400 + b + 0x10000"
    by (simp add: surrogate_code_point_def a_def b_def)
  ultimately show ?thesis by (simp add: utf16_encode_def a_def b_def)
qed

lemma js_codePoints_encode: "concat (map utf16_encode (js_codePoints s)) = s"
  by (induction s rule: js_codePoints.induct) (auto simp: utf16_encode_unit utf16_encode_pair)

definition is_pair :: "16 word \<Rightarrow> 16 word \<Rightarrow> bool" where
  "is_pair h l \<longleftrightarrow> isHighSurrogate (Some (uint h)) \<and> isLowSurrogate (Some (uint l))"

lemma not_pair_low: "isLowSurrogate (Some (uint h)) \<Longrightarrow> \<not> is_pair h l"
  by (simp add: is_pair_def surrogate_defs)

definition code_unit_of :: "js_string \<Rightarrow> int \<Rightarrow> bool" where
  "code_unit_of u c \<longleftrightarrow>
     (\<exists>x. u = [x] \<and> c = uint x) \<or> (\<exists>h l. is_pair h l \<and> u = [h, l] \<and> c = surrogate_code_point (uint h) (uint l))"

text \<open>The \<open>k\<close>-th code point stands in the string between neighbours it does not pair with.\<close>

lemma js_codePoints_split:
  assumes "k < length (js_codePoints s)"
  shows "\<exists>A u B. s = A @ u @ B \<and> int (length A) = codePoint_offset (js_codePoints s) k \<and>
     code_unit_of u (js_codePoints s ! k) \<and>
     (A \<noteq> [] \<longrightarrow> \<not> is_pair (last A) (hd u)) \<and> (B \<noteq> [] \<longrightarrow> \<not> is_pair (last u) (hd B))"
  using assms
proof (induction s arbitrary: k rule: js_codePoints.induct)
  case 1
  then show ?case by simp
next
  case (2 c)
  then have "k = 0" by simp
  show ?case
    by (rule exI [of _ "[]"], rule exI [of _ "[c]"])
       (use \<open>k = 0\<close> in \<open>simp add: codePoint_offset_def code_unit_of_def\<close>)
next
  case (3 h l s)
  show ?case
  proof (cases "is_pair h l")
    case pair: True
    then have cps: "js_codePoints (h # l # s) = surrogate_code_point (uint h) (uint l) # js_codePoints s"
      and low: "isLowSurrogate (Some (uint l))"
      and ge: "0x10000 \<le> surrogate_code_point (uint h) (uint l)"
      by (simp_all add: is_pair_def surrogate_code_point_ge)
    show ?thesis
    proof (cases k)
      case 0
      have "code_unit_of [h, l] (surrogate_code_point (uint h) (uint l))"
        using pair by (auto simp: code_unit_of_def)
      with 0 show ?thesis using not_pair_low [OF low]
        by - (rule exI [of _ "[]"], rule exI [of _ "[h, l]"], rule exI [of _ s], simp add: cps codePoint_offset_def del: js_codePoints.simps)
    next
      case (Suc k')
      with 3(3) cps have "k' < length (js_codePoints s)" by simp
      with 3(1) [of k'] pair obtain A u B where IH: "s = A @ u @ B"
        "int (length A) = codePoint_offset (js_codePoints s) k'" "code_unit_of u (js_codePoints s ! k')"
        "A \<noteq> [] \<longrightarrow> \<not> is_pair (last A) (hd u)" "B \<noteq> [] \<longrightarrow> \<not> is_pair (last u) (hd B)"
        by (auto simp: is_pair_def)
      with not_pair_low [OF low] ge show ?thesis unfolding cps Suc
        by - (rule exI [of _ "h # l # A"], rule exI [of _ u], rule exI [of _ B],
              auto simp: codePoint_offset_def codePoint_size_def)
    qed
  next
    case np: False
    then have cps: "js_codePoints (h # l # s) = uint h # js_codePoints (l # s)" by (auto simp: is_pair_def)
    show ?thesis
    proof (cases k)
      case 0
      with np show ?thesis unfolding cps
        by - (rule exI [of _ "[]"], rule exI [of _ "[h]"], rule exI [of _ "l # s"],
              auto simp: codePoint_offset_def code_unit_of_def)
    next
      case (Suc k')
      with 3(3) cps have k': "k' < length (js_codePoints (l # s))" by simp
      from 3(2) [OF np [unfolded is_pair_def] k'] obtain A u B where IH: "l # s = A @ u @ B"
        "int (length A) = codePoint_offset (js_codePoints (l # s)) k'"
        "code_unit_of u (js_codePoints (l # s) ! k')"
        "A \<noteq> [] \<longrightarrow> \<not> is_pair (last A) (hd u)" "B \<noteq> [] \<longrightarrow> \<not> is_pair (last u) (hd B)"
        by blast
      have "A = [] \<longrightarrow> hd u = l" using IH(1,3) by (auto simp: code_unit_of_def)
      with IH np uint16_less [of h] show ?thesis unfolding cps Suc
        by - (rule exI [of _ "h # A"], rule exI [of _ u], rule exI [of _ B],
              auto simp: codePoint_offset_def codePoint_size_def)
    qed
  qed
qed

lemma codePoint_offset_Suc:
  "k < length cps \<Longrightarrow> codePoint_offset cps (Suc k) = codePoint_offset cps k + codePoint_size (Some (cps ! k))"
  by (simp add: codePoint_offset_def take_Suc_conv_app_nth)

lemma codePoint_offset_encode: "codePoint_offset cs (length cs) = int (length (concat (map utf16_encode cs)))"
proof (induction cs)
  case (Cons c cs)
  have "int (length (utf16_encode c)) = codePoint_size (Some c)"
    by (simp add: utf16_encode_def codePoint_size_def)
  with Cons show ?case by (simp add: codePoint_offset_def)
qed (simp add: codePoint_offset_def)

lemma code_unit_of_cases:
  assumes "code_unit_of u c"
  obtains x where "u = [x]" "c = uint x" "codePoint_size (Some c) = 1"
  | h l where "is_pair h l" "u = [h, l]" "c = surrogate_code_point (uint h) (uint l)" "codePoint_size (Some c) = 2"
  using assms unfolding code_unit_of_def
proof (elim disjE exE conjE)
  fix x assume x: "u = [x]" "c = uint x"
  with uint16_less [of x] have "codePoint_size (Some c) = 1" by (simp add: codePoint_size_def)
  with x show thesis by (rule that(1))
next
  fix h l assume p: "is_pair h l" "u = [h, l]" "c = surrogate_code_point (uint h) (uint l)"
  with surrogate_code_point_ge [of "uint h" "uint l"] have "codePoint_size (Some c) = 2"
    by (simp add: codePoint_size_def is_pair_def)
  with p show thesis by (rule that(2))
qed

lemma getNextCodePoint_at:
  assumes "code_unit_of u c" "B \<noteq> [] \<longrightarrow> \<not> is_pair (last u) (hd B)" "s = A @ u @ B"
  shows "getNextCodePoint s (int (length s)) (int (length A)) = Some c"
  using assms(1)
proof (cases rule: code_unit_of_cases)
  case (1 x)
  have "B \<noteq> [] \<Longrightarrow> s ! nat (int (length A) + 1) = hd B"
    using 1 assms(3) by (cases B) (simp_all add: nth_append nat_add_distrib)
  with 1 assms(2,3) show ?thesis
    by (cases B) (auto simp: getNextCodePoint_def Let_def is_pair_def nth_append)
next
  case (2 h l)
  then have "s ! nat (1 + int (length A)) = l" "s ! length A = h"
    using assms(3) by (simp_all add: nth_append nat_add_distrib)
  with 2 assms(3) show ?thesis
    by (simp add: getNextCodePoint_def Let_def is_pair_def computeCodePoint_eq add.commute)
qed

lemma getPrevCodePoint_at:
  assumes "code_unit_of u c" "A \<noteq> [] \<longrightarrow> \<not> is_pair (last A) (hd u)" "s = A @ u @ B"
  shows "getPrevCodePoint s (int (length A) + codePoint_size (Some c)) = Some c"
  using assms(1)
proof (cases rule: code_unit_of_cases)
  case (1 x)
  have "s ! nat (int (length A) - 1) = last A" if "A \<noteq> []"
    using that 1 assms(3) by (cases A rule: rev_cases) (simp_all add: nth_append)
  with 1 assms(2,3) show ?thesis
    by (cases "A = []") (auto simp: getPrevCodePoint_def Let_def is_pair_def nth_append Suc_leI)
next
  case (2 h l)
  then have "s ! nat (1 + int (length A)) = l" "s ! length A = h"
    using assms(3) by (simp_all add: nth_append nat_add_distrib)
  with 2 assms(3) show ?thesis
    by (simp add: getPrevCodePoint_def Let_def is_pair_def computeCodePoint_eq add.commute)
qed

text \<open>The iterator at the boundary before the \<open>k\<close>-th code point.\<close>

definition iterator_at :: "js_string \<Rightarrow> nat \<Rightarrow> CodePointIterator" where
  "iterator_at str k = CodePointIterator_new str (codePoint_offset (js_codePoints str) k)"

text \<open>
  C12. Reading a string with a \<open>CodePointIterator\<close> visits the code points the language itself
  iterates over, in both directions. Let \<open>cps\<close> be those code points: their UTF-16 encodings
  concatenate to the string. From the boundary before the \<open>k\<close>-th code point,
  \<open>nextCodePoint\<close> returns it and moves to the boundary behind it, and \<open>prevCodePoint\<close>
  from there returns it again and moves back; unpaired surrogates are code points of their own. The
  boundary behind the last code point is the only one at which \<open>eol\<close> holds.
\<close>

theorem CodePointIterator_correct:
  "(let cps = js_codePoints str
    in concat (map utf16_encode cps) = str \<and>
       (\<forall>k < length cps.
          CodePointIterator_nextCodePoint (iterator_at str k) = (Some (cps ! k), iterator_at str (Suc k)) \<and>
          CodePointIterator_prevCodePoint (iterator_at str (Suc k)) = (Some (cps ! k), iterator_at str k)) \<and>
       (\<forall>k \<le> length cps. CodePointIterator_eol (iterator_at str k) \<longleftrightarrow> k = length cps))"
proof -
  let ?cps = "js_codePoints str" and ?at = "iterator_at str"
  have enc: "concat (map utf16_encode ?cps) = str" by (rule js_codePoints_encode)
  have step: "CodePointIterator_nextCodePoint (?at k) = (Some (?cps ! k), ?at (Suc k)) \<and>
      CodePointIterator_prevCodePoint (?at (Suc k)) = (Some (?cps ! k), ?at k) \<and>
      \<not> CodePointIterator_eol (?at k)" if k: "k < length ?cps" for k
  proof -
    from js_codePoints_split [OF k] obtain A u B where u: "str = A @ u @ B"
      "int (length A) = codePoint_offset ?cps k" "code_unit_of u (?cps ! k)"
      "A \<noteq> [] \<longrightarrow> \<not> is_pair (last A) (hd u)" "B \<noteq> [] \<longrightarrow> \<not> is_pair (last u) (hd B)"
      by blast
    have "0 < length u" using u(3) by (auto simp: code_unit_of_def)
    moreover have "int (length str) = int (length A) + int (length u) + int (length B)"
      using u(1) by simp
    ultimately have "codePoint_offset ?cps k < int (length str)" using u(2) by linarith
    with getNextCodePoint_at [OF u(3,5,1)] getPrevCodePoint_at [OF u(3,4,1)] u(2) k show ?thesis
      by (auto simp: iterator_at_def CodePointIterator_new_def CodePointIterator_nextCodePoint_def Let_def
          CodePointIterator_prevCodePoint_def CodePointIterator_eol_def codePoint_offset_Suc)
  qed
  have "int (length str) = codePoint_offset ?cps (length ?cps)"
    using codePoint_offset_encode [of ?cps] by (simp add: enc)
  then have "CodePointIterator_eol (?at (length ?cps))"
    by (simp add: iterator_at_def CodePointIterator_new_def CodePointIterator_eol_def)
  with step have "\<forall>k \<le> length ?cps. CodePointIterator_eol (?at k) \<longleftrightarrow> k = length ?cps"
    by (metis le_neq_implies_less)
  with enc step show ?thesis by (simp add: Let_def)
qed

theorem CodePointIterator_correct_witness:
  "(let str = [0xD83D, 0xDE00, 0x41, 0xDC00]
    in js_codePoints str = [0x1F600, 0x41, 0xDC00] \<and>
       CodePointIterator_nextCodePoint (iterator_at str 0) = (Some 0x1F600, iterator_at str (Suc 0)) \<and>
       CodePointIterator_prevCodePoint (iterator_at str (Suc 0)) = (Some 0x1F600, iterator_at str 0) \<and>
       CodePointIterator_eol (iterator_at str 3))"
proof -
  have "js_codePoints [0xD83D, 0xDE00, 0x41, 0xDC00] = [0x1F600, 0x41, 0xDC00]"
    by (simp add: surrogate_defs surrogate_code_point_def)
  then show ?thesis
    using CodePointIterator_correct [of "[0xD83D, 0xDE00, 0x41, 0xDC00]"] unfolding Let_def by simp
qed

end
