(* ===== verification/Js_Lines.thy ===== *)
theory Js_Lines
  imports Js_Text
begin

text \<open>
  The functions of \<open>src/vs/base/common/strings.ts\<close> about lines and white space:
  \<open>splitLines\<close>, \<open>splitLinesIncludeSeparators\<close>, the indentation of a line, the first lines of
  a text and the byte order mark.
\<close>

subsection \<open>Splitting at line terminators\<close>

text \<open>The length of the match of \<open>/\r\n|\r|\n/\<close> at the start of a string, \<open>0\<close> for no match.\<close>

definition eol_match :: "js_string \<Rightarrow> nat" where
  "eol_match s = (case s of
      [] \<Rightarrow> 0
    | c # t \<Rightarrow> if c = CR then (if t \<noteq> [] \<and> hd t = LF then 2 else 1) else if c = LF then 1 else 0)"

text \<open>
  \<open>str.split(re)\<close> for that expression; with a capturing group (\<open>cap\<close>) the result has the
  separators between the parts. \<open>acc\<close> is the part read so far.
\<close>

function js_split_eol :: "bool \<Rightarrow> js_string \<Rightarrow> js_string \<Rightarrow> js_string list" where
  "js_split_eol cap acc s =
     (if s = [] then [acc]
      else let n = eol_match s
           in if n = 0 then js_split_eol cap (acc @ [hd s]) (tl s)
              else if cap then acc # take n s # js_split_eol cap [] (drop n s)
              else acc # js_split_eol cap [] (drop n s))"
  by pat_completeness auto
termination by (relation "measure (\<lambda>(_, _, s). length s)") auto

declare js_split_eol.simps [simp del]

definition splitLines :: "js_string \<Rightarrow> js_string list" where
  "splitLines str = js_split_eol False [] str"

definition splitLinesIncludeSeparators :: "js_string \<Rightarrow> js_string list" where
  "splitLinesIncludeSeparators str =
     (let splitLinesAndSeparators = js_split_eol True [] str
      in map (\<lambda>i. splitLinesAndSeparators ! (2 * i) @
                 (if 2 * i + 1 < length splitLinesAndSeparators then splitLinesAndSeparators ! (2 * i + 1) else []))
           [0..<(length splitLinesAndSeparators + 1) div 2])"

definition no_eol :: "js_string \<Rightarrow> bool" where
  "no_eol s \<longleftrightarrow> CR \<notin> set s \<and> LF \<notin> set s"

lemma eol_match_cases:
  assumes "s \<noteq> []"
  obtains "eol_match s = 0" "hd s \<noteq> CR" "hd s \<noteq> LF"
  | t where "s = CR # LF # t" "eol_match s = 2"
  | t where "s = CR # t" "\<not> prefix [LF] t" "eol_match s = 1"
  | t where "s = LF # t" "eol_match s = 1"
proof (cases s)
  case (Cons c t)
  show ?thesis
  proof (cases "c = CR")
    case True
    with Cons that(2,3) show ?thesis by (cases t) (auto simp: eol_match_def)
  next
    case False
    with Cons that(1,4) show ?thesis by (cases "c = LF") (auto simp: eol_match_def)
  qed
qed (use assms in simp)

text \<open>
  The splitting of a text: the lines with their separators, the last line, and what makes the
  separators the ones the expression matches.
\<close>

definition line_split :: "js_string \<Rightarrow> (js_string \<times> js_string) list \<Rightarrow> js_string \<Rightarrow> bool" where
  "line_split str ps l \<longleftrightarrow>
     concat (map (\<lambda>(a, b). a @ b) ps) @ l = str \<and>
     (\<forall>(a, b) \<in> set ps. no_eol a \<and> b \<in> {[CR, LF], [CR], [LF]}) \<and> no_eol l \<and>
     (\<forall>i < length ps. snd (ps ! i) = [CR] \<longrightarrow>
        \<not> prefix [LF] (concat (map (\<lambda>(a, b). a @ b) (drop (Suc i) ps)) @ l))"

lemma line_split_Cons:
  assumes "line_split t ps l" "no_eol a" "b \<in> {[CR, LF], [CR], [LF]}" "b = [CR] \<Longrightarrow> \<not> prefix [LF] t"
  shows "line_split (a @ b @ t) ((a, b) # ps) l"
  using assms by (auto simp: line_split_def less_Suc_eq_0_disj)

lemma js_split_eol_split:
  assumes "no_eol acc"
  shows "\<exists>ps l. line_split (acc @ s) ps l \<and> js_split_eol False acc s = map fst ps @ [l] \<and>
     js_split_eol True acc s = concat (map (\<lambda>(a, b). [a, b]) ps) @ [l]"
  using assms
proof (induction "length s" arbitrary: acc s rule: less_induct)
  case less
  show ?case
  proof (cases "s = []")
    case True
    with less.prems show ?thesis
      by (intro exI [of _ "[]"] exI [of _ acc]) (simp add: js_split_eol.simps line_split_def)
  next
    case False
    then obtain c t where s: "s = c # t" by (cases s) auto
    have sep: ?thesis
      if b: "s = b @ u" "eol_match s = length b" "b \<in> {[CR, LF], [CR], [LF]}" "b = [CR] \<longrightarrow> \<not> prefix [LF] u" for b u
    proof -
      have "length u < length s" using b by auto
      from less.hyps [OF this, of "[]"] obtain ps l where ps: "line_split u ps l"
        "js_split_eol False [] u = map fst ps @ [l]"
        "js_split_eol True [] u = concat (map (\<lambda>(a, b). [a, b]) ps) @ [l]"
        by (auto simp: no_eol_def)
      have un: "js_split_eol cap acc s =
          (if cap then acc # b # js_split_eol cap [] u else acc # js_split_eol cap [] u)" for cap
      proof -
        have "take (length b) s = b" "drop (length b) s = u" "length b \<noteq> 0" using b(1,3) by auto
        with False b(2) show ?thesis by (subst js_split_eol.simps) (simp add: Let_def)
      qed
      have "line_split (acc @ s) ((acc, b) # ps) l"
        using line_split_Cons [OF ps(1) less.prems b(3)] b(1,4) by simp
      then show ?thesis
        by (intro exI [of _ "(acc, b) # ps"] exI [of _ l]) (simp add: un ps(2,3))
    qed
    from False show ?thesis
    proof (cases rule: eol_match_cases)
      case 1
      then have un: "js_split_eol cap acc s = js_split_eol cap (acc @ [c]) t" for cap
        by (subst js_split_eol.simps) (simp add: s)
      have "no_eol (acc @ [c])" using less.prems 1 s by (auto simp: no_eol_def)
      with less.hyps [of t "acc @ [c]"] show ?thesis unfolding un by (simp add: s)
    next
      case (2 t)
      then show ?thesis by (intro sep [of "[CR, LF]" t]) auto
    next
      case (3 t)
      then show ?thesis by (intro sep [of "[CR]" t]) auto
    next
      case (4 t)
      then show ?thesis by (intro sep [of "[LF]" t]) auto
    qed
  qed
qed

lemma pairs_by_index:
  defines "at \<equiv> \<lambda>a i. a ! (2 * i) @ (if 2 * i + 1 < length a then a ! (2 * i + 1) else ([] :: js_string))"
  assumes "a = concat (map (\<lambda>(a, b). [a, b]) ps) @ [l]"
  shows "map (at a) [0..<(length a + 1) div 2] = map (\<lambda>(a, b). a @ b) ps @ [l]"
  using assms(2)
proof (induction ps arbitrary: a)
  case Nil
  then show ?case by (simp add: at_def)
next
  case (Cons p ps)
  define b where "b = concat (map (\<lambda>(a, b). [a, b]) ps) @ [l]"
  have a: "a = fst p # snd p # b" using Cons.prems by (cases p) (simp add: b_def)
  have "(length a + 1) div 2 = Suc ((length b + 1) div 2)" by (simp add: a)
  then have "[0..<(length a + 1) div 2] = 0 # map Suc [0..<(length b + 1) div 2]"
    by (simp add: upt_conv_Cons map_Suc_upt del: upt_Suc)
  moreover have "at a 0 = fst p @ snd p" "\<And>i. at a (Suc i) = at b i" by (simp_all add: at_def a)
  ultimately show ?case using Cons.IH [OF b_def] by (simp add: comp_def case_prod_beta)
qed

text \<open>
  \<open>splitLines\<close> and \<open>splitLinesIncludeSeparators\<close> cut a text at its line terminators.
  There is one splitting of the text into lines without a terminator, each but the last followed by
  its terminator \<open>\r\n\<close>, \<open>\r\<close> or \<open>\n\<close>, in which no \<open>\r\n\<close> is split in two; the
  first function returns the lines, the second the lines with their terminators, which concatenate
  to the text.
\<close>

lemma splitLines_correct:
  "\<exists>ps l. splitLines str = map fst ps @ [l] \<and>
     splitLinesIncludeSeparators str = map (\<lambda>(line, sep). line @ sep) ps @ [l] \<and>
     concat (splitLinesIncludeSeparators str) = str \<and>
     (\<forall>line \<in> set (splitLines str). CR \<notin> set line \<and> LF \<notin> set line) \<and>
     (\<forall>(line, sep) \<in> set ps. sep \<in> {[CR, LF], [CR], [LF]}) \<and>
     (\<forall>i < length ps. snd (ps ! i) = [CR] \<longrightarrow>
        \<not> prefix [LF] (concat (drop (Suc i) (splitLinesIncludeSeparators str))))"
proof -
  from js_split_eol_split [of "[]" str] obtain ps l where sp: "line_split str ps l"
    and f: "splitLines str = map fst ps @ [l]"
    and t: "js_split_eol True [] str = concat (map (\<lambda>(a, b). [a, b]) ps) @ [l]"
    by (auto simp: no_eol_def splitLines_def)
  have incl: "splitLinesIncludeSeparators str = map (\<lambda>(a, b). a @ b) ps @ [l]"
    unfolding splitLinesIncludeSeparators_def Let_def by (rule pairs_by_index [OF t])
  show ?thesis
    by (rule exI [of _ ps], rule exI [of _ l])
       (use sp in \<open>fastforce simp: f incl line_split_def no_eol_def drop_map\<close>)
qed

lemma splitLines_correct_witness:
  "\<exists>ps l. splitLines [65, CR, LF, CR, 66, LF] = map fst ps @ [l] \<and>
     splitLinesIncludeSeparators [65, CR, LF, CR, 66, LF] = map (\<lambda>(line, sep). line @ sep) ps @ [l] \<and>
     concat (splitLinesIncludeSeparators [65, CR, LF, CR, 66, LF]) = [65, CR, LF, CR, 66, LF]"
  using splitLines_correct [of "[65, CR, LF, CR, 66, LF]"] by blast

subsection \<open>White space at the ends of a line\<close>

definition is_blank :: "16 word \<Rightarrow> bool" where
  "is_blank chCode \<longleftrightarrow> \<not> (chCode \<noteq> 32 \<and> chCode \<noteq> 9)"

definition firstNonWhitespaceIndex :: "js_string \<Rightarrow> int" where
  "firstNonWhitespaceIndex str =
     (let i = scan_while is_blank str 0 in if i < length str then int i else -1)"

function getLeadingWhitespace_loop :: "js_string \<Rightarrow> int \<Rightarrow> int \<Rightarrow> int \<Rightarrow> js_string" where
  "getLeadingWhitespace_loop str start endIdx i =
     (if i < endIdx then
        let chCode = charCodeAt str i
        in if chCode \<noteq> Some 32 \<and> chCode \<noteq> Some 9 then js_substring str start i
           else getLeadingWhitespace_loop str start endIdx (i + 1)
      else js_substring str start endIdx)"
  by pat_completeness auto
termination by (relation "measure (\<lambda>(_, _, endIdx, i). nat (endIdx - i))") auto

declare getLeadingWhitespace_loop.simps [simp del]

definition getLeadingWhitespace :: "js_string \<Rightarrow> int \<Rightarrow> int \<Rightarrow> js_string" where
  "getLeadingWhitespace str start endIdx = getLeadingWhitespace_loop str start endIdx start"

function lastNonWhitespaceIndex :: "js_string \<Rightarrow> int \<Rightarrow> int" where
  "lastNonWhitespaceIndex str startIndex =
     (if startIndex \<ge> 0 then
        let chCode = charCodeAt str startIndex
        in if chCode \<noteq> Some 32 \<and> chCode \<noteq> Some 9 then startIndex
           else lastNonWhitespaceIndex str (startIndex - 1)
      else -1)"
  by pat_completeness auto
termination by (relation "measure (\<lambda>(_, i). nat (i + 1))") auto

declare lastNonWhitespaceIndex.simps [simp del]

definition getIndentationLength :: "js_string \<Rightarrow> int" where
  "getIndentationLength str =
     (let idx = firstNonWhitespaceIndex str in if idx = -1 then int (length str) else idx)"

lemma is_blank_uint: "is_blank c \<longleftrightarrow> uint c = 32 \<or> uint c = 9"
  by (auto simp: is_blank_def word_uint_eq_iff)

lemma getLeadingWhitespace_loop_spec:
  assumes "0 \<le> start" "start \<le> i" "i \<le> endIdx" "endIdx \<le> int (length str)"
  shows "getLeadingWhitespace_loop str start endIdx i = sub str start i @ takeWhile is_blank (sub str i endIdx)"
  using assms
proof (induction str start endIdx i rule: getLeadingWhitespace_loop.induct)
  case (1 str start endIdx i)
  note unfold = getLeadingWhitespace_loop.simps [of str start endIdx i]
  show ?case
  proof (cases "i < endIdx")
    case lt: True
    have hd: "sub str i endIdx = str ! nat i # sub str (i + 1) endIdx"
      using 1(2-5) lt by (simp add: sub_def Cons_nth_drop_Suc [symmetric] Suc_nat_eq_nat_zadd1
          take_Cons' nat_diff_distrib' add.commute)
    have snoc: "sub str start (i + 1) = sub str start i @ [str ! nat i]"
      using sub_append_sub [of start i "i + 1" str] hd 1(2-5) lt by (simp add: sub_def hd_drop_conv_nth take_Suc)
    show ?thesis
      using 1 lt by (simp add: unfold Let_def is_blank_uint hd snoc js_substring_sub)
  next
    case False
    then have "i = endIdx" using 1(4) by simp
    show ?thesis unfolding unfold using 1(2-5) by (simp add: \<open>i = endIdx\<close> js_substring_sub)
  qed
qed

lemma getLeadingWhitespace_takeWhile:
  "getLeadingWhitespace str 0 (int (length str)) = takeWhile is_blank str"
  using getLeadingWhitespace_loop_spec [of 0 0 "int (length str)" str]
  by (simp add: getLeadingWhitespace_def)

lemma firstNonWhitespaceIndex_takeWhile:
  "firstNonWhitespaceIndex str =
     (if \<forall>c \<in> set str. is_blank c then -1 else int (length (takeWhile is_blank str)))"
  using scan_while_lt [of is_blank str]
  by (auto simp: firstNonWhitespaceIndex_def Let_def scan_while_takeWhile)

lemma lastNonWhitespaceIndex_spec:
  assumes "i < int (length str)"
  shows "(let k = lastNonWhitespaceIndex str i
          in -1 \<le> k \<and> k \<le> max i (-1) \<and> (\<forall>j. k < j \<and> j \<le> i \<longrightarrow> is_blank (str ! nat j)) \<and>
             (0 \<le> k \<longrightarrow> \<not> is_blank (str ! nat k)))"
  using assms
proof (induction str i rule: lastNonWhitespaceIndex.induct)
  case (1 str i)
  note unfold = lastNonWhitespaceIndex.simps [of str i]
  consider "i < 0" | "0 \<le> i" "\<not> is_blank (str ! nat i)" | "0 \<le> i" "is_blank (str ! nat i)" by linarith
  then show ?case
  proof cases
    case 3
    then have rec: "lastNonWhitespaceIndex str i = lastNonWhitespaceIndex str (i - 1)"
      using 1(2) by (auto simp: unfold is_blank_uint)
    have IH: "let k = lastNonWhitespaceIndex str (i - 1)
        in -1 \<le> k \<and> k \<le> max (i - 1) (-1) \<and> (\<forall>j. k < j \<and> j \<le> i - 1 \<longrightarrow> is_blank (str ! nat j)) \<and>
           (0 \<le> k \<longrightarrow> \<not> is_blank (str ! nat k))"
      using 1 3 by (auto simp: is_blank_uint)
    define k where "k = lastNonWhitespaceIndex str (i - 1)"
    from IH have k: "-1 \<le> k" "k \<le> max (i - 1) (-1)" "0 \<le> k \<longrightarrow> \<not> is_blank (str ! nat k)"
      and b: "\<And>j. k < j \<Longrightarrow> j \<le> i - 1 \<Longrightarrow> is_blank (str ! nat j)"
      by (simp_all add: k_def Let_def)
    have "is_blank (str ! nat j)" if "k < j" "j \<le> i" for j
      using b [of j] 3(2) that by (cases "j = i") auto
    with k 3(1) show ?thesis unfolding rec Let_def k_def [symmetric] by auto
  qed (use 1(2) in \<open>auto simp: unfold is_blank_uint\<close>)
qed

end
