(* ===== verification/Js_Compare.thy ===== *)
theory Js_Compare
  imports Js_Text
begin

text \<open>
  The functions of \<open>src/vs/base/common/strings.ts\<close> that compare and search strings:
  the two comparisons of substrings, their variants that ignore the case of ASCII letters, trimming of
  a repeated needle, and the fuzzy containment test.
\<close>

subsection \<open>Comparisons\<close>

text \<open>\<open>a < b\<close> on strings compares code units lexicographically.\<close>

fun js_str_less :: "js_string \<Rightarrow> js_string \<Rightarrow> bool" where
  "js_str_less _ [] = False"
| "js_str_less [] (_ # _) = True"
| "js_str_less (x # xs) (y # ys) = (x < y \<or> x = y \<and> js_str_less xs ys)"

definition js_compare :: "js_string \<Rightarrow> js_string \<Rightarrow> int" where
  "js_compare a b = (if js_str_less a b then -1 else if js_str_less b a then 1 else 0)"

definition js_less :: "int option \<Rightarrow> int option \<Rightarrow> bool" where
  "js_less x y = (case (x, y) of (Some a, Some b) \<Rightarrow> a < b | _ \<Rightarrow> False)"

text \<open>What both comparisons return once one of the two segments is used up.\<close>

definition compare_lengths :: "int \<Rightarrow> int \<Rightarrow> int" where
  "compare_lengths aLen bLen = (if aLen < bLen then -1 else if aLen > bLen then 1 else 0)"

function compareSubstring :: "js_string \<Rightarrow> js_string \<Rightarrow> int \<Rightarrow> int \<Rightarrow> int \<Rightarrow> int \<Rightarrow> int" where
  "compareSubstring a b aStart aEnd bStart bEnd =
     (if aStart < aEnd \<and> bStart < bEnd then
        let codeA = charCodeAt a aStart; codeB = charCodeAt b bStart
        in if js_less codeA codeB then -1
           else if js_less codeB codeA then 1
           else compareSubstring a b (aStart + 1) aEnd (bStart + 1) bEnd
      else compare_lengths (aEnd - aStart) (bEnd - bStart))"
  by pat_completeness auto
termination by (relation "measure (\<lambda>(_, _, aStart, aEnd, _). nat (aEnd - aStart))") auto

declare compareSubstring.simps [simp del]

definition isAsciiDigit :: "int \<Rightarrow> bool" where
  "isAsciiDigit code \<longleftrightarrow> code \<ge> 48 \<and> code \<le> 57"

definition isLowerAsciiLetter :: "int \<Rightarrow> bool" where
  "isLowerAsciiLetter code \<longleftrightarrow> code \<ge> 97 \<and> code \<le> 122"

definition isUpperAsciiLetter :: "int \<Rightarrow> bool" where
  "isUpperAsciiLetter code \<longleftrightarrow> code \<ge> 65 \<and> code \<le> 90"

text \<open>The result \<open>None\<close> is \<open>NaN\<close>, the difference with a unit outside of its string.\<close>

definition js_ge :: "int option \<Rightarrow> int \<Rightarrow> bool" where
  "js_ge x n = (case x of None \<Rightarrow> False | Some a \<Rightarrow> a \<ge> n)"

definition upper_code :: "int \<Rightarrow> int" where
  "upper_code code = (if isLowerAsciiLetter code then code - 32 else code)"

definition upper_diff :: "int option \<Rightarrow> int option \<Rightarrow> int option" where
  "upper_diff codeA codeB = (case (codeA, codeB) of
      (Some x, Some y) \<Rightarrow> Some (upper_code x - upper_code y) | _ \<Rightarrow> None)"

function compareSubstringIgnoreCase ::
  "(js_string \<Rightarrow> js_string) \<Rightarrow> js_string \<Rightarrow> js_string \<Rightarrow> int \<Rightarrow> int \<Rightarrow> int \<Rightarrow> int \<Rightarrow> int option" where
  "compareSubstringIgnoreCase toLowerCase a b aStart aEnd bStart bEnd =
     (if aStart < aEnd \<and> bStart < bEnd then
        let codeA = charCodeAt a aStart; codeB = charCodeAt b bStart
        in if codeA \<noteq> None \<and> codeA = codeB then
             compareSubstringIgnoreCase toLowerCase a b (aStart + 1) aEnd (bStart + 1) bEnd
           else if js_ge codeA 128 \<or> js_ge codeB 128 then
             Some (compareSubstring (toLowerCase a) (toLowerCase b) aStart aEnd bStart bEnd)
           else
             let diff = upper_diff codeA codeB
             in if diff = Some 0 then
                  compareSubstringIgnoreCase toLowerCase a b (aStart + 1) aEnd (bStart + 1) bEnd
                else diff
      else Some (compare_lengths (aEnd - aStart) (bEnd - bStart)))"
  by pat_completeness auto
termination by (relation "measure (\<lambda>(_, _, _, aStart, aEnd, _). nat (aEnd - aStart))") auto

declare compareSubstringIgnoreCase.simps [simp del]

definition compareIgnoreCase :: "(js_string \<Rightarrow> js_string) \<Rightarrow> js_string \<Rightarrow> js_string \<Rightarrow> int option" where
  "compareIgnoreCase toLowerCase a b =
     compareSubstringIgnoreCase toLowerCase a b 0 (int (length a)) 0 (int (length b))"

definition equalsIgnoreCase :: "(js_string \<Rightarrow> js_string) \<Rightarrow> js_string \<Rightarrow> js_string \<Rightarrow> bool" where
  "equalsIgnoreCase toLowerCase a b \<longleftrightarrow>
     length a = length b \<and>
     compareSubstringIgnoreCase toLowerCase a b 0 (int (length a)) 0 (int (length b)) = Some 0"

definition js_equals :: "(js_string \<Rightarrow> js_string) \<Rightarrow> js_string option \<Rightarrow> js_string option \<Rightarrow> bool \<Rightarrow> bool" where
  "js_equals toLowerCase a b ignoreCase \<longleftrightarrow>
     a = b \<or> (ignoreCase \<and> a \<noteq> None \<and> b \<noteq> None \<and> equalsIgnoreCase toLowerCase (the a) (the b))"

definition startsWithIgnoreCase :: "(js_string \<Rightarrow> js_string) \<Rightarrow> js_string \<Rightarrow> js_string \<Rightarrow> bool" where
  "startsWithIgnoreCase toLowerCase str candidate \<longleftrightarrow>
     (let len = int (length candidate)
      in len \<le> int (length str) \<and>
         compareSubstringIgnoreCase toLowerCase str candidate 0 len 0 (int (length candidate)) = Some 0)"

definition endsWithIgnoreCase :: "(js_string \<Rightarrow> js_string) \<Rightarrow> js_string \<Rightarrow> js_string \<Rightarrow> bool" where
  "endsWithIgnoreCase toLowerCase str candidate \<longleftrightarrow>
     (let len = int (length str); start = len - int (length candidate)
      in start \<ge> 0 \<and>
         compareSubstringIgnoreCase toLowerCase str candidate start len 0 (int (length candidate)) = Some 0)"

text \<open>The reference: the lexicographic comparison of two lists of numbers.\<close>

fun lex_sign :: "('a :: linorder) list \<Rightarrow> 'a list \<Rightarrow> int" where
  "lex_sign [] [] = 0"
| "lex_sign [] (_ # _) = -1"
| "lex_sign (_ # _) [] = 1"
| "lex_sign (x # xs) (y # ys) = (if x < y then -1 else if y < x then 1 else lex_sign xs ys)"

lemma lex_sign_zero: "lex_sign xs ys = 0 \<longleftrightarrow> xs = ys"
  by (induction xs ys rule: lex_sign.induct) auto

lemma sub_Cons:
  assumes "0 \<le> i" "i < j" "j \<le> int (length s)"
  shows "sub s i j = s ! nat i # sub s (i + 1) j"
proof -
  have "nat (j - i) = Suc (nat (j - (i + 1)))" "nat (i + 1) = Suc (nat i)" using assms by auto
  moreover have "drop (nat i) s = s ! nat i # drop (Suc (nat i)) s"
    using assms by (intro Cons_nth_drop_Suc [symmetric]) linarith
  ultimately show ?thesis by (simp add: sub_def)
qed

lemma word_less_uint: "(x :: 16 word) < y \<longleftrightarrow> uint x < uint y"
  by (simp add: word_less_def)

definition in_bounds :: "'a list \<Rightarrow> int \<Rightarrow> int \<Rightarrow> bool" where
  "in_bounds s i j \<longleftrightarrow> 0 \<le> i \<and> i \<le> j \<and> j \<le> int (length s)"

lemma in_bounds_step:
  assumes "in_bounds s i j" "i < j"
  shows "in_bounds s (i + 1) j" "charCodeAt s i = Some (uint (s ! nat i))" "sub s i j = s ! nat i # sub s (i + 1) j"
  using assms by (simp_all add: in_bounds_def sub_Cons)

lemma in_bounds_stop: "in_bounds s i j \<Longrightarrow> \<not> i < j \<Longrightarrow> sub s i j = [] \<and> j - i = 0"
  by (simp add: in_bounds_def)

lemma lex_sign_stop:
  fixes a b :: js_string
  assumes "in_bounds a i j" "in_bounds b k l" "\<not> (i < j \<and> k < l)"
  shows "lex_sign (map f (sub a i j)) (map f (sub b k l)) = compare_lengths (j - i) (l - k)"
proof (cases "i < j")
  case True
  with assms have "sub b k l = []" "l - k = 0" using in_bounds_stop [OF assms(2)] by auto
  with in_bounds_step(3) [OF assms(1) True] True show ?thesis by (simp add: compare_lengths_def)
next
  case False
  then have a: "sub a i j = []" "j - i = 0" using in_bounds_stop [OF assms(1)] by auto
  show ?thesis
  proof (cases "k < l")
    case True
    with in_bounds_step(3) [OF assms(2) True] a show ?thesis by (simp add: compare_lengths_def)
  next
    case False
    with in_bounds_stop [OF assms(2)] a show ?thesis by (simp add: compare_lengths_def)
  qed
qed

lemma compareSubstring_lex:
  assumes "in_bounds a i j" "in_bounds b k l"
  shows "compareSubstring a b i j k l = lex_sign (sub a i j) (sub b k l)"
  using assms
proof (induction a b i j k l rule: compareSubstring.induct)
  case (1 a b i j k l)
  note unfold = compareSubstring.simps [of a b i j k l]
  show ?case
  proof (cases "i < j \<and> k < l")
    case True
    note A = in_bounds_step [OF 1(2)] and B = in_bounds_step [OF 1(3)]
    from True have "i < j" "k < l" by auto
    with 1 True A B show ?thesis by (simp add: unfold Let_def js_less_def word_less_uint)
  next
    case False
    with lex_sign_stop [OF 1(2,3) False, of id] show ?thesis by (auto simp: unfold)
  qed
qed

text \<open>Folding the case of the ASCII letters, which is what the loop compares.\<close>

definition ascii_string :: "js_string \<Rightarrow> bool" where
  "ascii_string s \<longleftrightarrow> (\<forall>c \<in> set s. uint c < 128)"

definition ascii_upper :: "js_string \<Rightarrow> int list" where
  "ascii_upper s = map (\<lambda>c. upper_code (uint c)) s"

lemma compareSubstringIgnoreCase_lex:
  assumes "in_bounds a i j" "in_bounds b k l" "ascii_string a" "ascii_string b"
  shows "\<exists>r. compareSubstringIgnoreCase low a b i j k l = Some r \<and>
     sgn r = lex_sign (ascii_upper (sub a i j)) (ascii_upper (sub b k l))"
  using assms
proof (induction low a b i j k l rule: compareSubstringIgnoreCase.induct)
  case (1 low a b i j k l)
  note unfold = compareSubstringIgnoreCase.simps [of low a b i j k l]
  show ?case
  proof (cases "i < j \<and> k < l")
    case True
    note A = in_bounds_step [OF 1(3)] and B = in_bounds_step [OF 1(4)]
    let ?x = "uint (a ! nat i)" and ?y = "uint (b ! nat k)"
    from True have lt: "i < j" "k < l" by auto
    have "a ! nat i \<in> set a" "b ! nat k \<in> set b"
      using 1(3,4) lt by (auto simp: in_bounds_def intro!: nth_mem)
    then have small: "?x < 128" "?y < 128" using 1(5,6) by (auto simp: ascii_string_def)
    have up: "ascii_upper (sub a i j) = upper_code ?x # ascii_upper (sub a (i + 1) j)"
      "ascii_upper (sub b k l) = upper_code ?y # ascii_upper (sub b (k + 1) l)"
      using A(3) B(3) lt by (simp_all add: ascii_upper_def)
    show ?thesis
    proof (cases "?x = ?y \<or> upper_code ?x = upper_code ?y")
      case same: True
      then have "upper_code ?x = upper_code ?y" by auto
      moreover have "\<exists>r. compareSubstringIgnoreCase low a b (i + 1) j (k + 1) l = Some r \<and>
          sgn r = lex_sign (ascii_upper (sub a (i + 1) j)) (ascii_upper (sub b (k + 1) l))"
      proof (cases "?x = ?y")
        case eq: True
        show ?thesis using 1(1) [OF True refl refl] A(1,2) B(1,2) lt 1(5,6) eq by simp
      next
        case neq: False
        show ?thesis
          using 1(2) [OF True refl refl] A(1,2) B(1,2) lt 1(5,6) small same neq
          by (simp add: js_ge_def upper_diff_def)
      qed
      moreover have "compareSubstringIgnoreCase low a b i j k l =
          compareSubstringIgnoreCase low a b (i + 1) j (k + 1) l"
        using lt same small A(2) B(2) by (auto simp: unfold Let_def js_ge_def upper_diff_def)
      ultimately show ?thesis by (simp add: up)
    next
      case False
      then have "compareSubstringIgnoreCase low a b i j k l = Some (upper_code ?x - upper_code ?y)"
        using lt small A(2) B(2) by (simp add: unfold Let_def js_ge_def upper_diff_def)
      with False show ?thesis by (auto simp: up sgn_if)
    qed
  next
    case False
    then show ?thesis using lex_sign_stop [OF 1(3,4) False, of "\<lambda>c. upper_code (uint c)"]
      by (auto simp: unfold ascii_upper_def compare_lengths_def sgn_if)
  qed
qed

lemma sub_whole: "sub s 0 (int (length s)) = s"
  by (simp add: sub_def)

lemma ascii_string_in_bounds: "in_bounds s 0 (int (length s))"
  by (simp add: in_bounds_def)

lemma js_str_less_lex: "js_str_less a b \<longleftrightarrow> lex_sign a b = -1"
proof (induction a b rule: js_str_less.induct)
  case (1 a)
  then show ?case by (cases a) simp_all
qed auto

lemma lex_sign_swap: "lex_sign b a = - lex_sign a b"
  by (induction a b rule: lex_sign.induct) auto

lemma lex_sign_range: "lex_sign a b = -1 \<or> lex_sign a b = 0 \<or> lex_sign a b = 1"
  by (induction a b rule: lex_sign.induct) auto

lemma js_compare_lex: "js_compare a b = lex_sign a b"
  using lex_sign_range [of a b]
  by (auto simp: js_compare_def js_str_less_lex lex_sign_swap [of b a])

lemma IgnoreCase_zero:
  assumes "in_bounds a i j" "in_bounds b k l" "ascii_string a" "ascii_string b"
  shows "compareSubstringIgnoreCase low a b i j k l = Some 0 \<longleftrightarrow>
     ascii_upper (sub a i j) = ascii_upper (sub b k l)"
  using compareSubstringIgnoreCase_lex [OF assms, of low] by (metis lex_sign_zero option.inject sgn_0_0)

lemma ascii_upper_take: "ascii_upper (take n s) = take n (ascii_upper s)"
  and ascii_upper_drop: "ascii_upper (drop n s) = drop n (ascii_upper s)"
  and ascii_upper_length: "length (ascii_upper s) = length s"
  by (simp_all add: ascii_upper_def take_map drop_map)

lemma suffix_drop_iff: "length b \<le> length a \<Longrightarrow> suffix b a \<longleftrightarrow> drop (length a - length b) a = b"
proof
  assume "suffix b a"
  then show "drop (length a - length b) a = b" by (auto simp: suffix_def)
next
  assume "drop (length a - length b) a = b"
  then show "suffix b a" by (metis suffix_drop)
qed

text \<open>
  C13. The comparisons of strings. \<open>compare\<close> and \<open>compareSubstring\<close> over whole strings are
  the lexicographic comparison of code units. On ASCII strings, whatever lower-casing the language
  has, \<open>compareIgnoreCase\<close> has the sign of that comparison after folding letter case,
  \<open>equalsIgnoreCase\<close> is equality up to case, and \<open>startsWithIgnoreCase\<close> and
  \<open>endsWithIgnoreCase\<close> hold exactly for a prefix and a suffix up to case.
\<close>

theorem compareIgnoreCase_correct:
  shows "(js_compare a b = lex_sign a b) \<and>
    (compareSubstring a b 0 (int (length a)) 0 (int (length b)) = lex_sign a b) \<and>
    (ascii_string a \<and> ascii_string b \<longrightarrow>
      (\<exists>r. compareIgnoreCase low a b = Some r \<and> sgn r = lex_sign (ascii_upper a) (ascii_upper b)) \<and>
      (equalsIgnoreCase low a b \<longleftrightarrow> ascii_upper a = ascii_upper b) \<and>
      (startsWithIgnoreCase low a b \<longleftrightarrow> prefix (ascii_upper b) (ascii_upper a)) \<and>
      (endsWithIgnoreCase low a b \<longleftrightarrow> suffix (ascii_upper b) (ascii_upper a)))"
proof -
  have c1: "js_compare a b = lex_sign a b" by (rule js_compare_lex)
  have c2: "compareSubstring a b 0 (int (length a)) 0 (int (length b)) = lex_sign a b"
    using compareSubstring_lex [OF ascii_string_in_bounds ascii_string_in_bounds, of a b]
    by (simp add: sub_whole)
  have c3: "ascii_string a \<and> ascii_string b \<longrightarrow>
      (\<exists>r. compareIgnoreCase low a b = Some r \<and> sgn r = lex_sign (ascii_upper a) (ascii_upper b)) \<and>
      (equalsIgnoreCase low a b \<longleftrightarrow> ascii_upper a = ascii_upper b) \<and>
      (startsWithIgnoreCase low a b \<longleftrightarrow> prefix (ascii_upper b) (ascii_upper a)) \<and>
      (endsWithIgnoreCase low a b \<longleftrightarrow> suffix (ascii_upper b) (ascii_upper a))" (is "_ \<longrightarrow> ?all")
  proof
    assume "ascii_string a \<and> ascii_string b"
    then have asc: "ascii_string a" "ascii_string b" by auto
    note whole = ascii_string_in_bounds
    have 1: "\<exists>r. compareIgnoreCase low a b = Some r \<and> sgn r = lex_sign (ascii_upper a) (ascii_upper b)"
      using compareSubstringIgnoreCase_lex [OF whole whole asc] by (simp add: compareIgnoreCase_def sub_whole)
    have 2: "equalsIgnoreCase low a b \<longleftrightarrow> ascii_upper a = ascii_upper b"
      using IgnoreCase_zero [OF whole whole asc, of low] ascii_upper_length [of a] ascii_upper_length [of b]
      by (simp only: equalsIgnoreCase_def sub_whole) metis
    have 3: "startsWithIgnoreCase low a b \<longleftrightarrow> prefix (ascii_upper b) (ascii_upper a)"
    proof (cases "length b \<le> length a")
      case True
      then have "in_bounds a 0 (int (length b))" by (simp add: in_bounds_def)
      from IgnoreCase_zero [OF this whole asc, of low] True show ?thesis
        by (auto simp: startsWithIgnoreCase_def sub_def ascii_upper_take prefix_def ascii_upper_length
            intro!: exI [of _ "drop (length b) (ascii_upper a)"])
           (metis append_take_drop_id)
    qed (auto simp: startsWithIgnoreCase_def dest: prefix_length_le simp: ascii_upper_length)
    have 4: "endsWithIgnoreCase low a b \<longleftrightarrow> suffix (ascii_upper b) (ascii_upper a)"
    proof (cases "length b \<le> length a")
      case True
      then have "in_bounds a (int (length a) - int (length b)) (int (length a))" by (simp add: in_bounds_def)
      moreover have "sub a (int (length a) - int (length b)) (int (length a)) = drop (length a - length b) a"
        using True by (simp add: sub_def nat_diff_distrib)
      ultimately show ?thesis using IgnoreCase_zero [OF _ whole asc, of _ _ low] True
        by (simp add: endsWithIgnoreCase_def Let_def sub_whole ascii_upper_drop suffix_drop_iff ascii_upper_length)
    qed (auto simp: endsWithIgnoreCase_def Let_def dest: suffix_length_le simp: ascii_upper_length)
    from 1 2 3 4 show ?all by blast
  qed
  show ?thesis by (rule conjI [OF c1 conjI [OF c2 c3]])
qed

theorem compareIgnoreCase_correct_witness:
  "(let a = [72, 105, 33]; b = [104, 73]
    in (\<exists>r. compareIgnoreCase id a b = Some r \<and> sgn r = lex_sign (ascii_upper a) (ascii_upper b)) \<and>
       startsWithIgnoreCase id a b = prefix (ascii_upper b) (ascii_upper a))"
proof -
  have "ascii_string [72, 105, 33]" "ascii_string [104, 73]" by (simp_all add: ascii_string_def)
  with compareIgnoreCase_correct [of "[72, 105, 33]" "[104, 73]" id] show ?thesis
    unfolding Let_def by blast
qed

subsection \<open>Trimming a needle\<close>

text \<open>
  The loops over a needle of several units move by its length, which the callers know is not zero; the
  guard is repeated in the loops.
\<close>

function ltrim_loop :: "js_string \<Rightarrow> js_string \<Rightarrow> nat \<Rightarrow> nat" where
  "ltrim_loop haystack needle offset =
     (if needle \<noteq> [] \<and> prefix needle (drop offset haystack)
      then ltrim_loop haystack needle (offset + length needle) else offset)"
  by pat_completeness auto
termination
proof (relation "measure (\<lambda>(haystack, _, offset). length haystack - offset)")
  fix haystack needle :: js_string and offset
  assume "needle \<noteq> [] \<and> prefix needle (drop offset haystack)"
  then have "0 < length needle" "length needle \<le> length haystack - offset"
    using prefix_length_le [of needle "drop offset haystack"] by auto
  then have "length haystack - (offset + length needle) < length haystack - offset" by linarith
  then show "((haystack, needle, offset + length needle), haystack, needle, offset)
      \<in> measure (\<lambda>(haystack, _, offset). length haystack - offset)" by simp
qed simp

declare ltrim_loop.simps [simp del]

definition ltrim :: "js_string \<Rightarrow> js_string \<Rightarrow> js_string" where
  "ltrim haystack needle =
     (if haystack = [] \<or> needle = [] then haystack
      else let needleLen = length needle
           in drop (if needleLen = 1 then scan_while (\<lambda>c. c = needle ! 0) haystack 0
                    else ltrim_loop haystack needle 0) haystack)"

function rtrim_unit_loop :: "js_string \<Rightarrow> 16 word \<Rightarrow> nat \<Rightarrow> nat" where
  "rtrim_unit_loop haystack ch e =
     (if e > 0 \<and> haystack ! (e - 1) = ch then rtrim_unit_loop haystack ch (e - 1) else e)"
  by pat_completeness auto
termination by (relation "measure (\<lambda>(_, _, e). e)") auto

function rtrim_loop :: "js_string \<Rightarrow> js_string \<Rightarrow> nat \<Rightarrow> nat" where
  "rtrim_loop haystack needle offset =
     (if needle \<noteq> [] \<and> offset > 0 \<and> suffix needle (take offset haystack)
      then rtrim_loop haystack needle (offset - length needle) else offset)"
  by pat_completeness auto
termination by (relation "measure (\<lambda>(_, _, offset). offset)") auto

declare rtrim_unit_loop.simps [simp del] rtrim_loop.simps [simp del]

definition rtrim :: "js_string \<Rightarrow> js_string \<Rightarrow> js_string" where
  "rtrim haystack needle =
     (if haystack = [] \<or> needle = [] then haystack
      else let needleLen = length needle; haystackLen = length haystack
           in if needleLen = 1 then take (rtrim_unit_loop haystack (needle ! 0) haystackLen) haystack
              else take (rtrim_loop haystack needle haystackLen) haystack)"

definition trim :: "js_string \<Rightarrow> js_string \<Rightarrow> js_string" where
  "trim haystack needle = (let trimmed = ltrim haystack needle in rtrim trimmed needle)"

definition copies :: "nat \<Rightarrow> 'a list \<Rightarrow> 'a list" where
  "copies k n = concat (replicate k n)"

lemma copies_snoc: "copies k n @ n = copies (Suc k) n"
  by (induction k) (simp_all add: copies_def)

lemma ltrim_loop_spec:
  assumes "needle \<noteq> []" "take offset h = copies k needle" "offset \<le> length h"
  shows "\<exists>k'. h = copies k' needle @ drop (ltrim_loop h needle offset) h \<and>
     \<not> prefix needle (drop (ltrim_loop h needle offset) h)"
  using assms
proof (induction h needle offset arbitrary: k rule: ltrim_loop.induct)
  case (1 h needle offset)
  note unfold = ltrim_loop.simps [of h needle offset]
  show ?case
  proof (cases "prefix needle (drop offset h)")
    case True
    then obtain u where u: "drop offset h = needle @ u" by (auto simp: prefix_def)
    then have "take (offset + length needle) h = copies (Suc k) needle"
      using 1(3) by (simp add: take_add copies_snoc [symmetric])
    moreover have "offset + length needle \<le> length h"
      using arg_cong [OF u, of length] 1(4) by simp
    ultimately show ?thesis using 1(1) [of "Suc k"] 1(2) True by (simp add: unfold)
  next
    case False
    with 1(3) show ?thesis by (simp add: unfold) (metis append_take_drop_id)
  qed
qed

lemma takeWhile_dropWhile_copies:
  "h = copies (length (takeWhile (\<lambda>x. x = c) h)) [c] @ dropWhile (\<lambda>x. x = c) h"
  by (induction h) (simp_all add: copies_def)

lemma ltrim_spec:
  assumes "needle \<noteq> []"
  shows "\<exists>k. h = copies k needle @ ltrim h needle \<and> \<not> prefix needle (ltrim h needle)"
proof (cases "h = []")
  case True
  with assms show ?thesis by (simp add: ltrim_def) (metis append_Nil copies_def concat.simps(1) replicate_0)
next
  case h: False
  show ?thesis
  proof (cases "length needle = 1")
    case True
    then obtain c where c: "needle = [c]" by (cases needle) auto
    then have l: "ltrim h needle = dropWhile (\<lambda>x. x = c) h"
      using h by (simp add: ltrim_def scan_while_takeWhile dropWhile_eq_drop)
    have "\<not> prefix [c] (dropWhile (\<lambda>x. x = c) h)"
    proof
      assume "prefix [c] (dropWhile (\<lambda>x. x = c) h)"
      then obtain u where "dropWhile (\<lambda>x. x = c) h = c # u" by (auto simp: prefix_def)
      with hd_dropWhile [of "\<lambda>x. x = c" h] show False by simp
    qed
    with takeWhile_dropWhile_copies [of h c] show ?thesis unfolding l [unfolded c] c by blast
  next
    case False
    with h assms ltrim_loop_spec [OF assms, of 0 h 0] show ?thesis by (simp add: ltrim_def copies_def)
  qed
qed

lemma rtrim_unit_loop_spec:
  "e \<le> length h \<Longrightarrow> h = take e h @ copies k [c] \<Longrightarrow>
   \<exists>k'. h = take (rtrim_unit_loop h c e) h @ copies k' [c] \<and> \<not> suffix [c] (take (rtrim_unit_loop h c e) h)"
proof (induction h c e arbitrary: k rule: rtrim_unit_loop.induct)
  case (1 h c e)
  note unfold = rtrim_unit_loop.simps [of h c e]
  show ?case
  proof (cases "e > 0 \<and> h ! (e - 1) = c")
    case True
    then have t: "take e h = take (e - 1) h @ [c]" using 1(2) take_Suc_conv_app_nth [of "e - 1" h] by auto
    have eq: "h = take (e - 1) h @ copies (Suc k) [c]"
    proof -
      have "take (e - 1) h @ copies (Suc k) [c] = take e h @ copies k [c]" unfolding t by (simp add: copies_def)
      with 1(3) show ?thesis by (simp only:)
    qed
    have le: "e - 1 \<le> length h" using 1(2) by simp
    have rec: "rtrim_unit_loop h c e = rtrim_unit_loop h c (e - 1)"
      using True by (simp only: unfold simp_thms if_True)
    from 1(1) [OF True le eq] show ?thesis unfolding rec .
  next
    case False
    then have "\<not> suffix [c] (take e h)"
    proof (cases "e > 0")
      case pos: True
      then have "take e h = take (e - 1) h @ [h ! (e - 1)]"
        using 1(2) take_Suc_conv_app_nth [of "e - 1" h] by simp
      with False pos show ?thesis by (auto simp: suffix_def)
    qed simp
    with False 1(3) show ?thesis by (auto simp: unfold)
  qed
qed

lemma rtrim_loop_spec:
  assumes "needle \<noteq> []" "offset \<le> length h" "h = take offset h @ copies k needle"
  shows "\<exists>k'. h = take (rtrim_loop h needle offset) h @ copies k' needle \<and>
     \<not> suffix needle (take (rtrim_loop h needle offset) h)"
  using assms
proof (induction h needle offset arbitrary: k rule: rtrim_loop.induct)
  case (1 h needle offset)
  note unfold = rtrim_loop.simps [of h needle offset]
  show ?case
  proof (cases "offset > 0 \<and> suffix needle (take offset h)")
    case True
    then obtain u where u: "take offset h = u @ needle" by (auto simp: suffix_def)
    have len: "length u + length needle = offset" using arg_cong [OF u, of length] 1(3) by simp
    then have "take (offset - length needle) h = u"
      using arg_cong [OF u, of "take (length u)"] by (auto simp: min_def split: if_splits)
    moreover have "h = u @ copies (Suc k) needle" using 1(4) u by (simp add: copies_def)
    ultimately have eq: "h = take (offset - length needle) h @ copies (Suc k) needle" by metis
    have le: "offset - length needle \<le> length h" using 1(3) by simp
    have rec: "rtrim_loop h needle offset = rtrim_loop h needle (offset - length needle)"
      using True 1(2) by (simp only: unfold simp_thms if_True)
    from 1(2) True have "needle \<noteq> [] \<and> offset > 0 \<and> suffix needle (take offset h)" by blast
    from 1(1) [OF this 1(2) le eq] show ?thesis unfolding rec .
  next
    case False
    then have "\<not> suffix needle (take offset h)" using 1(2) by (cases "offset > 0") auto
    with False 1(4) show ?thesis by (auto simp: unfold)
  qed
qed

lemma rtrim_spec:
  assumes "needle \<noteq> []"
  shows "\<exists>k. h = rtrim h needle @ copies k needle \<and> \<not> suffix needle (rtrim h needle)"
proof (cases "h = []")
  case True
  with assms show ?thesis by (simp add: rtrim_def) (metis copies_def concat.simps(1) replicate_0)
next
  case h: False
  show ?thesis
  proof (cases "length needle = 1")
    case True
    then obtain c where "needle = [c]" by (cases needle) auto
    with h rtrim_unit_loop_spec [of "length h" h 0 c] show ?thesis by (simp add: rtrim_def copies_def)
  next
    case False
    with h assms rtrim_loop_spec [OF assms, of "length h" h 0] show ?thesis by (simp add: rtrim_def copies_def)
  qed
qed

text \<open>
  \<open>trim\<close> removes the occurrences of the needle at both ends and nothing else: the haystack
  is the result between a number of copies of the needle, and the result neither starts nor ends with
  it. The same holds of \<open>ltrim\<close> and \<open>rtrim\<close> at their end, and the fast path for a needle
  of one unit does what the general loop does. An empty needle changes nothing.
\<close>

theorem trim_correct:
  "ltrim h [] = h \<and> rtrim h [] = h \<and> trim h [] = h \<and>
   (needle \<noteq> [] \<longrightarrow>
     (\<exists>k. h = copies k needle @ ltrim h needle \<and> \<not> prefix needle (ltrim h needle)) \<and>
     (\<exists>k. h = rtrim h needle @ copies k needle \<and> \<not> suffix needle (rtrim h needle)) \<and>
     (\<exists>i j. h = copies i needle @ trim h needle @ copies j needle \<and>
        \<not> prefix needle (trim h needle) \<and> \<not> suffix needle (trim h needle)))"
proof (intro conjI impI)
  assume n: "needle \<noteq> []"
  from ltrim_spec [OF n, of h] obtain i where i: "h = copies i needle @ ltrim h needle"
    "\<not> prefix needle (ltrim h needle)" by blast
  from rtrim_spec [OF n, of "ltrim h needle"] obtain j where
    j: "ltrim h needle = trim h needle @ copies j needle" "\<not> suffix needle (trim h needle)"
    by (auto simp: trim_def)
  have "\<not> prefix needle (trim h needle)" using i(2) j(1) by (metis prefix_prefix)
  with i j show "\<exists>i j. h = copies i needle @ trim h needle @ copies j needle \<and>
      \<not> prefix needle (trim h needle) \<and> \<not> suffix needle (trim h needle)" by metis
  show "\<exists>k. h = copies k needle @ ltrim h needle \<and> \<not> prefix needle (ltrim h needle)"
    by (rule ltrim_spec [OF n])
  show "\<exists>k. h = rtrim h needle @ copies k needle \<and> \<not> suffix needle (rtrim h needle)"
    by (rule rtrim_spec [OF n])
qed (simp_all add: ltrim_def rtrim_def trim_def)

theorem trim_correct_witness:
  "(let h = [97, 98, 97, 98, 99, 97, 98]; n = [97, 98]
    in \<exists>i j. h = copies i n @ trim h n @ copies j n \<and> \<not> prefix n (trim h n) \<and> \<not> suffix n (trim h n))"
  using trim_correct [of "[97, 98, 97, 98, 99, 97, 98]" "[97, 98]"] unfolding Let_def by blast

subsection \<open>Fuzzy containment\<close>

text \<open>\<open>str.indexOf(c, from)\<close> for a single unit.\<close>

definition js_indexOf_unit :: "js_string \<Rightarrow> 16 word \<Rightarrow> int \<Rightarrow> int" where
  "js_indexOf_unit s c from =
     (let k = scan_while (\<lambda>x. x \<noteq> c) s (nat from) in if k < length s then int k else -1)"

function fuzzyContains_loop :: "js_string \<Rightarrow> js_string \<Rightarrow> nat \<Rightarrow> int \<Rightarrow> bool" where
  "fuzzyContains_loop targetLower queryLower index lastIndexOf =
     (if index < length queryLower then
        let indexOf = js_indexOf_unit targetLower (queryLower ! index) (lastIndexOf + 1)
        in if indexOf < 0 then False
           else fuzzyContains_loop targetLower queryLower (index + 1) indexOf
      else True)"
  by pat_completeness auto
termination by (relation "measure (\<lambda>(_, queryLower, index, _). length queryLower - index)") auto

declare fuzzyContains_loop.simps [simp del]

definition fuzzyContains :: "(js_string \<Rightarrow> js_string) \<Rightarrow> js_string \<Rightarrow> js_string \<Rightarrow> bool" where
  "fuzzyContains toLowerCase target query =
     (if target = [] \<or> query = [] then False
      else if length target < length query then False
      else fuzzyContains_loop (toLowerCase target) (toLowerCase query) 0 (-1))"

lemma subseq_greedy:
  "subseq (c # q) t \<longleftrightarrow> dropWhile (\<lambda>x. x \<noteq> c) t \<noteq> [] \<and> subseq q (tl (dropWhile (\<lambda>x. x \<noteq> c) t))"
  by (induction t) auto

lemma fuzzyContains_loop_spec:
  assumes "-1 \<le> lastIndexOf"
  shows "fuzzyContains_loop t q index lastIndexOf \<longleftrightarrow> subseq (drop index q) (drop (nat (lastIndexOf + 1)) t)"
  using assms
proof (induction t q index lastIndexOf rule: fuzzyContains_loop.induct)
  case (1 t q index l)
  note unfold = fuzzyContains_loop.simps [of t q index l]
  show ?case
  proof (cases "index < length q")
    case True
    define r where "r = drop (nat (l + 1)) t"
    define k where "k = scan_while (\<lambda>x. x \<noteq> q ! index) t (nat (l + 1))"
    have k: "k = nat (l + 1) + length (takeWhile (\<lambda>x. x \<noteq> q ! index) r)"
      by (simp add: k_def r_def scan_while_takeWhile)
    have d: "drop k t = dropWhile (\<lambda>x. x \<noteq> q ! index) r"
      unfolding k dropWhile_eq_drop by (simp add: r_def add.commute)
    have q: "drop index q = q ! index # drop (index + 1) q" using True by (simp add: Cons_nth_drop_Suc)
    show ?thesis
    proof (cases "k < length t")
      case lt: True
      then have i: "js_indexOf_unit t (q ! index) (l + 1) = int k" by (simp add: js_indexOf_unit_def k_def)
      have "tl (drop k t) = drop (k + 1) t" by (simp add: drop_Suc drop_tl)
      moreover have "dropWhile (\<lambda>x. x \<noteq> q ! index) r \<noteq> []" using lt by (simp only: d [symmetric]) simp
      ultimately show ?thesis using 1(1) [OF True, OF refl] True
        by (simp add: unfold i q subseq_greedy r_def [symmetric] d nat_add_distrib del: dropWhile_eq_Nil_conv)
    next
      case False
      then have "js_indexOf_unit t (q ! index) (l + 1) = -1" by (simp add: js_indexOf_unit_def k_def)
      moreover have "dropWhile (\<lambda>x. x \<noteq> q ! index) r = []" using False by (simp add: d [symmetric])
      ultimately show ?thesis using True
        by (simp add: unfold q subseq_greedy r_def [symmetric] del: dropWhile_eq_Nil_conv)
    qed
  qed (simp add: unfold)
qed

text \<open>
  \<open>fuzzyContains\<close> tells whether the query is a subsequence of the target: its greedy scan,
  which takes the first occurrence of every unit, finds the query whenever its units stand in the
  target in order, both lower-cased. It refuses an empty query and one longer than the target.
\<close>

theorem fuzzyContains_correct:
  "fuzzyContains toLowerCase target query \<longleftrightarrow>
     query \<noteq> [] \<and> length query \<le> length target \<and> subseq (toLowerCase query) (toLowerCase target)"
  by (auto simp: fuzzyContains_def fuzzyContains_loop_spec)

end
