(* ===== verification/Text_Length.thy ===== *)
theory Text_Length
  imports Position_Range Js_Lines
begin

text \<open>
  \<open>src/vs/editor/common/core/text/textLength.ts\<close>: the length of a text as a number of lines and
  of columns in the last line. The lengths are a monoid under \<open>add\<close>, \<open>ofText\<close> is a
  homomorphism into it, and it acts on positions by \<open>addToPosition\<close>.
\<close>

record TextLength =
  tl_line :: int
  tl_col :: int

definition TextLength_new :: "int \<Rightarrow> int \<Rightarrow> TextLength" where
  "TextLength_new lineCount columnCount = \<lparr>tl_line = lineCount, tl_col = columnCount\<rparr>"

definition TextLength_zero :: TextLength where
  "TextLength_zero = TextLength_new 0 0"

definition TextLength_isLessThan :: "TextLength \<Rightarrow> TextLength \<Rightarrow> bool" where
  "TextLength_isLessThan this other =
     (if tl_line this \<noteq> tl_line other then tl_line this < tl_line other
      else tl_col this < tl_col other)"

definition TextLength_isGreaterThan :: "TextLength \<Rightarrow> TextLength \<Rightarrow> bool" where
  "TextLength_isGreaterThan this other =
     (if tl_line this \<noteq> tl_line other then tl_line this > tl_line other
      else tl_col this > tl_col other)"

definition TextLength_isGreaterThanOrEqualTo :: "TextLength \<Rightarrow> TextLength \<Rightarrow> bool" where
  "TextLength_isGreaterThanOrEqualTo this other =
     (if tl_line this \<noteq> tl_line other then tl_line this > tl_line other
      else tl_col this \<ge> tl_col other)"

definition TextLength_equals :: "TextLength \<Rightarrow> TextLength \<Rightarrow> bool" where
  "TextLength_equals this other \<longleftrightarrow> tl_line this = tl_line other \<and> tl_col this = tl_col other"

definition TextLength_compare :: "TextLength \<Rightarrow> TextLength \<Rightarrow> int" where
  "TextLength_compare this other =
     (if tl_line this \<noteq> tl_line other then tl_line this - tl_line other
      else tl_col this - tl_col other)"

definition TextLength_isZero :: "TextLength \<Rightarrow> bool" where
  "TextLength_isZero this \<longleftrightarrow> tl_line this = 0 \<and> tl_col this = 0"

definition TextLength_lengthDiffNonNegative :: "TextLength \<Rightarrow> TextLength \<Rightarrow> TextLength" where
  "TextLength_lengthDiffNonNegative start stop =
     (if TextLength_isLessThan stop start then TextLength_zero
      else if tl_line start = tl_line stop then TextLength_new 0 (tl_col stop - tl_col start)
      else TextLength_new (tl_line stop - tl_line start) (tl_col stop))"

definition TextLength_betweenPositions :: "Position \<Rightarrow> Position \<Rightarrow> TextLength" where
  "TextLength_betweenPositions position1 position2 =
     (if p_line position1 = p_line position2 then TextLength_new 0 (p_col position2 - p_col position1)
      else TextLength_new (p_line position2 - p_line position1) (p_col position2 - 1))"

definition TextLength_fromPosition :: "Position \<Rightarrow> TextLength" where
  "TextLength_fromPosition pos = TextLength_new (p_line pos - 1) (p_col pos - 1)"

definition TextLength_ofRange :: "'a Range_scheme \<Rightarrow> TextLength" where
  "TextLength_ofRange rng =
     TextLength_betweenPositions (Range_getStartPosition rng) (Range_getEndPosition rng)"

definition TextLength_ofText_step :: "int \<Rightarrow> int \<times> int \<Rightarrow> int \<times> int" where
  "TextLength_ofText_step c lc = (if c = 10 then (fst lc + 1, 0) else (fst lc, snd lc + 1))"

definition TextLength_ofText :: "js_string \<Rightarrow> TextLength" where
  "TextLength_ofText text =
     (let (line, column) = fold TextLength_ofText_step (js_codePoints text) (0, 0)
      in TextLength_new line column)"

definition TextLength_ofSubstr :: "js_string \<Rightarrow> OffsetRange \<Rightarrow> TextLength" where
  "TextLength_ofSubstr str rng = TextLength_ofText (OffsetRange_substring rng str)"

definition TextLength_add :: "TextLength \<Rightarrow> TextLength \<Rightarrow> TextLength" where
  "TextLength_add this other =
     (if tl_line other = 0 then TextLength_new (tl_line this) (tl_col this + tl_col other)
      else TextLength_new (tl_line this + tl_line other) (tl_col other))"

definition TextLength_sum :: "'f list \<Rightarrow> ('f \<Rightarrow> TextLength) \<Rightarrow> TextLength" where
  "TextLength_sum fragments getLength =
     foldl (\<lambda>acc f. TextLength_add acc (getLength f)) TextLength_zero fragments"

definition TextLength_createRange :: "TextLength \<Rightarrow> Position \<Rightarrow> Range" where
  "TextLength_createRange this startPosition =
     (if tl_line this = 0 then
        Range_new (p_line startPosition) (p_col startPosition)
                  (p_line startPosition) (p_col startPosition + tl_col this)
      else
        Range_new (p_line startPosition) (p_col startPosition)
                  (p_line startPosition + tl_line this) (tl_col this + 1))"

definition TextLength_toRange :: "TextLength \<Rightarrow> Range" where
  "TextLength_toRange this = Range_new 1 1 (tl_line this + 1) (tl_col this + 1)"

definition TextLength_toLineRange :: "TextLength \<Rightarrow> js_error + LineRange" where
  "TextLength_toLineRange this = LineRange_ofLength 1 (tl_line this + 1)"

definition TextLength_addToPosition :: "TextLength \<Rightarrow> Position \<Rightarrow> Position" where
  "TextLength_addToPosition this position =
     (if tl_line this = 0 then \<lparr>p_line = p_line position, p_col = p_col position + tl_col this\<rparr>
      else \<lparr>p_line = p_line position + tl_line this, p_col = tl_col this + 1\<rparr>)"

definition TextLength_addToRange :: "TextLength \<Rightarrow> 'a Range_scheme \<Rightarrow> Range" where
  "TextLength_addToRange this rng =
     Range_fromPositions (TextLength_addToPosition this (Range_getStartPosition rng))
       (Some (TextLength_addToPosition this (Range_getEndPosition rng)))"

subsection \<open>The monoid and its action\<close>

definition TextLength_inv :: "TextLength \<Rightarrow> bool" where
  "TextLength_inv l \<longleftrightarrow> 0 \<le> tl_line l \<and> 0 \<le> tl_col l"

named_theorems tl_defs \<open>definitions of the text length operations\<close>

lemmas [tl_defs] = TextLength_new_def TextLength_zero_def TextLength_add_def TextLength_addToPosition_def
  TextLength_betweenPositions_def TextLength_isLessThan_def TextLength_lengthDiffNonNegative_def

lemma TextLength_add_zero [simp]:
  "TextLength_add l TextLength_zero = l" "TextLength_inv l \<Longrightarrow> TextLength_add TextLength_zero l = l"
  by (cases l, simp add: tl_defs)+

lemma TextLength_add_inv: "TextLength_inv a \<Longrightarrow> TextLength_inv b \<Longrightarrow> TextLength_inv (TextLength_add a b)"
  by (simp add: TextLength_inv_def tl_defs)

lemma TextLength_add_assoc:
  assumes "TextLength_inv b" "TextLength_inv c"
  shows "TextLength_add (TextLength_add a b) c = TextLength_add a (TextLength_add b c)"
  using assms by (auto simp: TextLength_inv_def tl_defs)

lemma TextLength_addToPosition_add:
  assumes "TextLength_inv a" "TextLength_inv b"
  shows "TextLength_addToPosition (TextLength_add a b) p = TextLength_addToPosition b (TextLength_addToPosition a p)"
  using assms by (auto simp: TextLength_inv_def tl_defs)

lemma TextLength_sum_append:
  assumes "\<forall>f \<in> set xs \<union> set ys. TextLength_inv (g f)"
  shows "TextLength_sum (xs @ ys) g = TextLength_add (TextLength_sum xs g) (TextLength_sum ys g)"
proof -
  have inv: "TextLength_inv (foldl (\<lambda>acc f. TextLength_add acc (g f)) TextLength_zero zs)"
    if "\<forall>f \<in> set zs. TextLength_inv (g f)" for zs
    using that by (induction zs rule: rev_induct)
      (simp_all add: TextLength_add_inv, simp add: TextLength_inv_def tl_defs)
  from assms show ?thesis unfolding TextLength_sum_def
    by (induction ys rule: rev_induct) (auto simp: TextLength_add_assoc inv)
qed

subsection \<open>Lengths of texts\<close>

definition text_lc :: "int list \<Rightarrow> int \<times> int" where
  "text_lc cs = fold TextLength_ofText_step cs (0, 0)"

lemma text_lc_snoc: "text_lc (cs @ [c]) = TextLength_ofText_step c (text_lc cs)"
  by (simp add: text_lc_def)

lemma text_lc_nonneg: "0 \<le> fst (text_lc cs) \<and> 0 \<le> snd (text_lc cs)"
proof (induction cs rule: rev_induct)
  case Nil
  then show ?case by (simp add: text_lc_def)
next
  case (snoc c cs)
  then show ?case by (simp add: text_lc_snoc TextLength_ofText_step_def)
qed

lemma fold_text_lc:
  "fold TextLength_ofText_step cs lc =
     (if fst (text_lc cs) = 0 then (fst lc, snd lc + snd (text_lc cs))
      else (fst lc + fst (text_lc cs), snd (text_lc cs)))"
proof (induction cs rule: rev_induct)
  case Nil
  then show ?case by (simp add: text_lc_def)
next
  case (snoc c cs)
  then show ?case using text_lc_nonneg [of cs] by (simp add: text_lc_snoc TextLength_ofText_step_def)
qed

lemma TextLength_ofText_lc:
  "TextLength_ofText s = TextLength_new (fst (text_lc (js_codePoints s))) (snd (text_lc (js_codePoints s)))"
  by (simp add: TextLength_ofText_def text_lc_def case_prod_beta)

lemma TextLength_ofText_inv: "TextLength_inv (TextLength_ofText s)"
  using text_lc_nonneg [of "js_codePoints s"]
  by (simp add: TextLength_ofText_lc TextLength_inv_def TextLength_new_def)

text \<open>No surrogate pair lies across the seam of two strings.\<close>

definition seam_ok :: "js_string \<Rightarrow> js_string \<Rightarrow> bool" where
  "seam_ok s t \<longleftrightarrow> \<not> (s \<noteq> [] \<and> t \<noteq> [] \<and> is_pair (last s) (hd t))"

lemma js_codePoints_append: "seam_ok s t \<Longrightarrow> js_codePoints (s @ t) = js_codePoints s @ js_codePoints t"
proof (induction s rule: js_codePoints.induct)
  case (2 c)
  then show ?case by (cases t) (auto simp: seam_ok_def is_pair_def)
next
  case (3 h l s)
  then show ?case by (auto simp: seam_ok_def split: if_splits)
qed simp

lemma TextLength_ofText_append:
  assumes "seam_ok s t"
  shows "TextLength_ofText (s @ t) = TextLength_add (TextLength_ofText s) (TextLength_ofText t)"
proof -
  have "text_lc (js_codePoints (s @ t)) = fold TextLength_ofText_step (js_codePoints t) (text_lc (js_codePoints s))"
    by (simp add: js_codePoints_append [OF assms] text_lc_def)
  then show ?thesis by (simp add: TextLength_ofText_lc fold_text_lc tl_defs)
qed

text \<open>
  The algebra of text lengths. With \<open>add\<close> and \<open>zero\<close> the lengths are a monoid, and the
  length of a concatenation is the sum of the lengths of its parts, when no surrogate pair is cut in
  two. \<open>addToPosition\<close> is an action of the monoid on positions: adding a sum is adding one part
  after the other. \<open>betweenPositions\<close> and \<open>lengthDiffNonNegative\<close> invert the two: the
  length between a position and a later one is the only one that leads from the first to the second,
  and the difference of two lengths is what has to be added to the smaller, or zero.
\<close>

lemma TextLength_algebra:
  assumes "TextLength_inv a" "TextLength_inv b" "TextLength_inv c" "TextLength_inv d"
    "1 \<le> p_col q" "p \<le> q" "seam_ok s t"
  shows "(TextLength_add (TextLength_add a b) c = TextLength_add a (TextLength_add b c)) \<and>
    (TextLength_add TextLength_zero a = a \<and> TextLength_add a TextLength_zero = a) \<and>
    (TextLength_ofText (s @ t) = TextLength_add (TextLength_ofText s) (TextLength_ofText t)) \<and>
    (TextLength_addToPosition (TextLength_add a b) p = TextLength_addToPosition b (TextLength_addToPosition a p)) \<and>
    (TextLength_inv (TextLength_betweenPositions p q)) \<and>
    (TextLength_addToPosition a p = q \<longleftrightarrow> a = TextLength_betweenPositions p q) \<and>
    (if TextLength_compare a b \<le> 0
         then TextLength_inv (TextLength_lengthDiffNonNegative a b) \<and>
              (TextLength_add a d = b \<longleftrightarrow> d = TextLength_lengthDiffNonNegative a b)
         else TextLength_lengthDiffNonNegative a b = TextLength_zero)"
proof -
  have c1: "TextLength_add (TextLength_add a b) c = TextLength_add a (TextLength_add b c)"
    using assms(2,3) by (rule TextLength_add_assoc)
  have c2: "TextLength_add TextLength_zero a = a \<and> TextLength_add a TextLength_zero = a"
    using assms(1) by simp
  have c3: "TextLength_ofText (s @ t) = TextLength_add (TextLength_ofText s) (TextLength_ofText t)"
    using assms(7) by (rule TextLength_ofText_append)
  have c4: "TextLength_addToPosition (TextLength_add a b) p = TextLength_addToPosition b (TextLength_addToPosition a p)"
    using assms(1,2) by (rule TextLength_addToPosition_add)
  have c5: "TextLength_inv (TextLength_betweenPositions p q)"
    using assms(5,6) by (auto simp: TextLength_inv_def tl_defs less_eq_Position_ext_def)
  have c6: "TextLength_addToPosition a p = q \<longleftrightarrow> a = TextLength_betweenPositions p q"
    using assms(1,6) by (cases a, cases q) (auto simp: TextLength_inv_def tl_defs)
  have c7: "if TextLength_compare a b \<le> 0
         then TextLength_inv (TextLength_lengthDiffNonNegative a b) \<and>
              (TextLength_add a d = b \<longleftrightarrow> d = TextLength_lengthDiffNonNegative a b)
         else TextLength_lengthDiffNonNegative a b = TextLength_zero"
    using assms(1,2,4)
    by (cases a, cases b, cases d) (auto simp: TextLength_inv_def tl_defs TextLength_compare_def)
  show ?thesis by (rule conjI [OF c1 conjI [OF c2 conjI [OF c3 conjI [OF c4 conjI [OF c5 conjI [OF c6 c7]]]]]])
qed

lemma TextLength_algebra_witness:
  "(let a = \<lparr>tl_line = 0, tl_col = 4\<rparr>; b = \<lparr>tl_line = 2, tl_col = 1\<rparr>; d = \<lparr>tl_line = 2, tl_col = 1\<rparr>;
        p = \<lparr>p_line = 3, p_col = 5\<rparr>; q = \<lparr>p_line = 3, p_col = 9\<rparr>
    in TextLength_addToPosition a p = q \<and> a = TextLength_betweenPositions p q \<and>
       TextLength_add a d = b \<and> d = TextLength_lengthDiffNonNegative a b \<and>
       TextLength_ofText [65, LF, 0xD83D, 0xDE00] = \<lparr>tl_line = 1, tl_col = 1\<rparr>)"
proof -
  let ?a = "\<lparr>tl_line = 0, tl_col = 4\<rparr>" and ?b = "\<lparr>tl_line = 2, tl_col = 1\<rparr>"
    and ?p = "\<lparr>p_line = 3, p_col = 5\<rparr>" and ?q = "\<lparr>p_line = 3, p_col = 9\<rparr>"
  have prems: "TextLength_inv ?a" "TextLength_inv ?b" "1 \<le> p_col ?q" "?p \<le> ?q" "seam_ok [65, LF] [0xD83D, 0xDE00]"
    by (simp_all add: TextLength_inv_def less_eq_Position_ext_def seam_ok_def is_pair_def surrogate_defs)
  note claim = TextLength_algebra [OF prems(1,2,2,2,3,4,5)]
  show ?thesis using claim
    by (simp add: tl_defs TextLength_compare_def TextLength_ofText_def TextLength_ofText_step_def surrogate_defs
        surrogate_code_point_def)
qed

end
