(* ===== verification/Bracket_Length.thy ===== *)
theory Bracket_Length
  imports Text_Length
begin

text \<open>
  \<open>src/vs/editor/common/model/bracketPairsTextModelPart/bracketPairsTree/length.ts\<close>: the
  lengths of the bracket tree, which pack a line and a column count into one number
  (\<open>line * 2 ^ 26 + column\<close>) so that no object is allocated. The theory proves that the packed
  operations implement those of \<open>TextLength\<close> while columns stay below \<open>2 ^ 26\<close>. Line
  counts below \<open>2 ^ 26\<close> keep the number below \<open>2 ^ 52\<close>, where the arithmetic on it is exact.
\<close>

type_synonym Length = int

definition length_factor :: int where
  "length_factor = 2 ^ 26"

definition lengthZero :: Length where "lengthZero = 0"

definition lengthIsZero :: "Length \<Rightarrow> bool" where
  "lengthIsZero len \<longleftrightarrow> len = 0"

definition toLength :: "int \<Rightarrow> int \<Rightarrow> Length" where
  "toLength lineCount columnCount = lineCount * length_factor + columnCount"

definition lengthDiff :: "int \<Rightarrow> int \<Rightarrow> int \<Rightarrow> int \<Rightarrow> Length" where
  "lengthDiff startLineCount startColumnCount endLineCount endColumnCount =
     (if startLineCount \<noteq> endLineCount then toLength (endLineCount - startLineCount) endColumnCount
      else toLength 0 (endColumnCount - startColumnCount))"

definition lengthToObj :: "Length \<Rightarrow> TextLength" where
  "lengthToObj l =
     (let lineCount = l div length_factor; columnCount = l - lineCount * length_factor
      in TextLength_new lineCount columnCount)"

definition lengthGetLineCount :: "Length \<Rightarrow> int" where
  "lengthGetLineCount len = len div length_factor"

definition lengthGetColumnCountIfZeroLineCount :: "Length \<Rightarrow> int" where
  "lengthGetColumnCountIfZeroLineCount len = len"

definition lengthAdd :: "Length \<Rightarrow> Length \<Rightarrow> Length" where
  "lengthAdd l1 l2 =
     (let r = l1 + l2 in if l2 \<ge> length_factor then r - js_rem l1 length_factor else r)"

definition sumLengths :: "'t list \<Rightarrow> ('t \<Rightarrow> Length) \<Rightarrow> Length" where
  "sumLengths items lengthFn = foldl (\<lambda>a b. lengthAdd a (lengthFn b)) lengthZero items"

definition lengthEquals :: "Length \<Rightarrow> Length \<Rightarrow> bool" where
  "lengthEquals length1 length2 \<longleftrightarrow> length1 = length2"

definition lengthDiffNonNegative :: "Length \<Rightarrow> Length \<Rightarrow> Length" where
  "lengthDiffNonNegative l1 l2 =
     (let diff = l2 - l1
      in if diff \<le> 0 then lengthZero
         else
           let lineCount1 = l1 div length_factor; lineCount2 = l2 div length_factor;
               colCount2 = l2 - lineCount2 * length_factor
           in if lineCount1 = lineCount2 then
                let colCount1 = l1 - lineCount1 * length_factor in toLength 0 (colCount2 - colCount1)
              else toLength (lineCount2 - lineCount1) colCount2)"

definition lengthLessThan :: "Length \<Rightarrow> Length \<Rightarrow> bool" where
  "lengthLessThan length1 length2 \<longleftrightarrow> length1 < length2"

definition lengthLessThanEqual :: "Length \<Rightarrow> Length \<Rightarrow> bool" where
  "lengthLessThanEqual length1 length2 \<longleftrightarrow> length1 \<le> length2"

definition lengthGreaterThanEqual :: "Length \<Rightarrow> Length \<Rightarrow> bool" where
  "lengthGreaterThanEqual length1 length2 \<longleftrightarrow> length1 \<ge> length2"

definition lengthToPosition :: "Length \<Rightarrow> Position" where
  "lengthToPosition l =
     (let lineCount = l div length_factor; colCount = l - lineCount * length_factor
      in \<lparr>p_line = lineCount + 1, p_col = colCount + 1\<rparr>)"

definition positionToLength :: "Position \<Rightarrow> Length" where
  "positionToLength position = toLength (p_line position - 1) (p_col position - 1)"

definition lengthsToRange :: "Length \<Rightarrow> Length \<Rightarrow> Range" where
  "lengthsToRange l l2 =
     (let lineCount = l div length_factor; colCount = l - lineCount * length_factor;
          lineCount2 = l2 div length_factor; colCount2 = l2 - lineCount2 * length_factor
      in Range_new (lineCount + 1) (colCount + 1) (lineCount2 + 1) (colCount2 + 1))"

definition lengthOfRange :: "'a Range_scheme \<Rightarrow> TextLength" where
  "lengthOfRange rng =
     (if r_startLine rng = r_endLine rng then TextLength_new 0 (r_endCol rng - r_startCol rng)
      else TextLength_new (r_endLine rng - r_startLine rng) (r_endCol rng - 1))"

definition lengthCompare :: "Length \<Rightarrow> Length \<Rightarrow> int" where
  "lengthCompare l1 l2 = l1 - l2"

definition lengthOfString :: "js_string \<Rightarrow> Length" where
  "lengthOfString str =
     (let lines = splitLines str
      in toLength (int (length lines) - 1) (int (length (lines ! (length lines - 1)))))"

definition lengthOfStringObj :: "js_string \<Rightarrow> TextLength" where
  "lengthOfStringObj str =
     (let lines = splitLines str
      in TextLength_new (int (length lines) - 1) (int (length (lines ! (length lines - 1)))))"

definition lengthMax :: "Length \<Rightarrow> Length \<Rightarrow> Length" where
  "lengthMax length1 length2 = (if length1 > length2 then length1 else length2)"

subsection \<open>The packing\<close>

definition packable :: "TextLength \<Rightarrow> bool" where
  "packable l \<longleftrightarrow> TextLength_inv l \<and> tl_col l < length_factor"

definition pack :: "TextLength \<Rightarrow> Length" where
  "pack l = toLength (tl_line l) (tl_col l)"

lemma pack_div_mod:
  assumes "packable l"
  shows "pack l div length_factor = tl_line l" "pack l mod length_factor = tl_col l"
  using assms by (simp_all add: pack_def toLength_def packable_def TextLength_inv_def length_factor_def)

lemma pack_minus: "pack l - tl_line l * length_factor = tl_col l"
  by (simp add: pack_def toLength_def)

lemma lengthToObj_pack: "packable l \<Longrightarrow> lengthToObj (pack l) = l"
  using pack_div_mod(1) [of l] by (simp add: lengthToObj_def TextLength_new_def pack_minus)

lemma pack_lengthToObj: "0 \<le> n \<Longrightarrow> packable (lengthToObj n) \<and> pack (lengthToObj n) = n"
  by (simp add: lengthToObj_def packable_def TextLength_inv_def TextLength_new_def pack_def toLength_def
      minus_div_mult_eq_mod length_factor_def pos_imp_zdiv_nonneg_iff)

lemma pack_ge_factor: "packable l \<Longrightarrow> length_factor \<le> pack l \<longleftrightarrow> tl_line l \<noteq> 0"
proof -
  assume l: "packable l"
  then have "length_factor \<le> pack l \<longleftrightarrow> 0 < pack l div length_factor"
    by (simp add: pos_imp_zdiv_pos_iff length_factor_def)
  then show ?thesis using l by (auto simp: pack_div_mod packable_def TextLength_inv_def)
qed

lemma pack_nonneg: "packable l \<Longrightarrow> 0 \<le> pack l"
  by (simp add: pack_def toLength_def packable_def TextLength_inv_def length_factor_def)

lemma lengthAdd_pack:
  assumes "packable a" "packable b"
  shows "lengthAdd (pack a) (pack b) = pack (TextLength_add a b)"
proof (cases "tl_line b = 0")
  case True
  then show ?thesis using pack_ge_factor [OF assms(2)]
    by (simp add: lengthAdd_def pack_def toLength_def tl_defs)
next
  case False
  have "js_rem (pack a) length_factor = tl_col a"
    using pack_nonneg [OF assms(1)] pack_div_mod(2) [OF assms(1)]
    by (simp add: js_rem_nonneg length_factor_def)
  with False show ?thesis using pack_ge_factor [OF assms(2)]
    by (simp add: lengthAdd_def pack_def toLength_def tl_defs algebra_simps)
qed

lemma pack_less:
  assumes "packable a" "packable b"
  shows "pack a < pack b \<longleftrightarrow> TextLength_isLessThan a b"
proof -
  have "x * F + u < y * F + v \<longleftrightarrow> (if x \<noteq> y then x < y else u < v)"
    if "0 \<le> u" "u < F" "0 \<le> v" "v < F" for x y u v F :: int
  proof (cases x y rule: linorder_cases)
    case less
    then have "(x + 1) * F \<le> y * F" using that by (intro mult_right_mono) auto
    with less that show ?thesis by (simp add: distrib_right)
  next
    case greater
    then have "(y + 1) * F \<le> x * F" using that by (intro mult_right_mono) auto
    with greater that show ?thesis by (simp add: distrib_right)
  qed (use that in simp)
  with assms show ?thesis
    by (simp add: pack_def toLength_def TextLength_isLessThan_def packable_def TextLength_inv_def)
qed

lemma pack_eq: "packable a \<Longrightarrow> packable b \<Longrightarrow> pack a = pack b \<longleftrightarrow> a = b"
  by (metis lengthToObj_pack)

lemma lengthDiffNonNegative_pack:
  assumes "packable a" "packable b"
  shows "lengthDiffNonNegative (pack a) (pack b) = pack (TextLength_lengthDiffNonNegative a b)"
proof (cases "pack b - pack a \<le> 0")
  case True
  then have "TextLength_isLessThan b a \<or> a = b"
    using pack_less [OF assms(2,1)] pack_eq [OF assms] by auto
  then have "TextLength_lengthDiffNonNegative a b = TextLength_zero"
    by (auto simp: tl_defs)
  with True show ?thesis by (simp add: lengthDiffNonNegative_def lengthZero_def tl_defs pack_def toLength_def)
next
  case False
  then have "\<not> TextLength_isLessThan b a" using pack_less [OF assms(2,1)] by auto
  with False show ?thesis
    by (simp add: lengthDiffNonNegative_def Let_def pack_div_mod assms pack_minus
        TextLength_lengthDiffNonNegative_def TextLength_new_def)
       (simp add: pack_def toLength_def)
qed

lemma sumLengths_pack:
  assumes "\<forall>k \<le> length xs. packable (TextLength_sum (take k xs) g)" "\<forall>x \<in> set xs. packable (g x)"
  shows "sumLengths xs (\<lambda>x. pack (g x)) = pack (TextLength_sum xs g)"
  using assms
proof (induction xs rule: rev_induct)
  case Nil
  then show ?case by (simp add: sumLengths_def TextLength_sum_def lengthZero_def pack_def tl_defs toLength_def)
next
  case (snoc x xs)
  have "packable (TextLength_sum (take k xs) g)" if "k \<le> length xs" for k
    using snoc.prems(1) that by (metis append_take_drop_id le_SucI length_append_singleton order.trans
        take_append diff_is_0_eq take_0 append_Nil2)
  with snoc have IH: "sumLengths xs (\<lambda>x. pack (g x)) = pack (TextLength_sum xs g)"
    and "packable (TextLength_sum xs g)" by (auto simp: order_refl dest: spec [of _ "length xs"])
  with snoc.prems show ?case
    by (simp add: sumLengths_def TextLength_sum_def lengthAdd_pack)
qed

text \<open>
  C14. The packed lengths of the bracket tree implement text lengths. Packing a length with a column
  count below \<open>2 ^ 26\<close> loses nothing, every number that is not negative unpacks to such a length,
  and \<open>lengthAdd\<close>, \<open>lengthDiffNonNegative\<close>, the comparisons, \<open>lengthMax\<close> and the
  conversions to positions are those of \<open>TextLength\<close> on what is packed.
\<close>

theorem Length_refines_TextLength:
  assumes "packable a" "packable b" "0 \<le> n"
  shows "(lengthToObj (pack a) = a \<and> lengthGetLineCount (pack a) = tl_line a) \<and>
    (packable (lengthToObj n) \<and> pack (lengthToObj n) = n) \<and>
    (lengthAdd (pack a) (pack b) = pack (TextLength_add a b)) \<and>
    (lengthDiffNonNegative (pack a) (pack b) = pack (TextLength_lengthDiffNonNegative a b)) \<and>
    (lengthLessThan (pack a) (pack b) \<longleftrightarrow> TextLength_isLessThan a b) \<and>
    (lengthGreaterThanEqual (pack a) (pack b) \<longleftrightarrow> TextLength_isGreaterThanOrEqualTo a b) \<and>
    (sgn (lengthCompare (pack a) (pack b)) = sgn (TextLength_compare a b)) \<and>
    (lengthMax (pack a) (pack b) = pack (if TextLength_isGreaterThan a b then a else b)) \<and>
    (lengthToPosition (pack a) = TextLength_addToPosition a \<lparr>p_line = 1, p_col = 1\<rparr>) \<and>
    (positionToLength (lengthToPosition (pack a)) = pack a) \<and>
    (lengthsToRange (pack a) (pack b) =
           Range_fromPositions (lengthToPosition (pack a)) (Some (lengthToPosition (pack b))))"
proof -
  note less = pack_less [OF assms(1,2)] pack_less [OF assms(2,1)] and eq = pack_eq [OF assms(1,2)]
  note dm = pack_div_mod [OF assms(1)] pack_div_mod [OF assms(2)]
  have c1: "lengthToObj (pack a) = a \<and> lengthGetLineCount (pack a) = tl_line a"
    using assms(1) by (simp add: lengthToObj_pack lengthGetLineCount_def dm)
  have c2: "packable (lengthToObj n) \<and> pack (lengthToObj n) = n" using assms(3) by (rule pack_lengthToObj)
  have c3: "lengthAdd (pack a) (pack b) = pack (TextLength_add a b)" using assms(1,2) by (rule lengthAdd_pack)
  have c4: "lengthDiffNonNegative (pack a) (pack b) = pack (TextLength_lengthDiffNonNegative a b)"
    using assms(1,2) by (rule lengthDiffNonNegative_pack)
  have c5: "lengthLessThan (pack a) (pack b) \<longleftrightarrow> TextLength_isLessThan a b"
    using less by (simp add: lengthLessThan_def)
  have c6: "lengthGreaterThanEqual (pack a) (pack b) \<longleftrightarrow> TextLength_isGreaterThanOrEqualTo a b"
    using less by (auto simp: lengthGreaterThanEqual_def TextLength_isGreaterThanOrEqualTo_def
        TextLength_isLessThan_def not_less [symmetric] split: if_splits)
  have c7: "sgn (lengthCompare (pack a) (pack b)) = sgn (TextLength_compare a b)"
    using less eq by (cases a, cases b)
      (auto simp: lengthCompare_def TextLength_compare_def TextLength_isLessThan_def sgn_if)
  have c8: "lengthMax (pack a) (pack b) = pack (if TextLength_isGreaterThan a b then a else b)"
    using less(2) by (auto simp: lengthMax_def TextLength_isLessThan_def TextLength_isGreaterThan_def)
  have c9: "lengthToPosition (pack a) = TextLength_addToPosition a \<lparr>p_line = 1, p_col = 1\<rparr>"
    using pack_minus [of a] by (simp add: lengthToPosition_def Let_def dm TextLength_addToPosition_def)
  have c10: "positionToLength (lengthToPosition (pack a)) = pack a"
    by (simp add: lengthToPosition_def positionToLength_def toLength_def Let_def)
  have c11: "lengthsToRange (pack a) (pack b) =
      Range_fromPositions (lengthToPosition (pack a)) (Some (lengthToPosition (pack b)))"
    by (simp add: lengthsToRange_def lengthToPosition_def Range_fromPositions_def Let_def)
  show ?thesis by (rule conjI [OF c1 conjI [OF c2 conjI [OF c3 conjI [OF c4 conjI [OF c5 conjI [OF c6 conjI [OF c7 conjI [OF c8 conjI [OF c9 conjI [OF c10 c11]]]]]]]]]])
qed

theorem Length_refines_TextLength_witness:
  "(let a = \<lparr>tl_line = 10, tl_col = 5\<rparr>; b = \<lparr>tl_line = 20, tl_col = 3\<rparr>
    in lengthAdd (pack a) (pack b) = pack (TextLength_add a b) \<and>
       lengthDiffNonNegative (pack a) (pack b) = pack (TextLength_lengthDiffNonNegative a b) \<and>
       lengthLessThan (pack a) (pack b) = TextLength_isLessThan a b)"
proof -
  have "packable \<lparr>tl_line = 10, tl_col = 5\<rparr>" "packable \<lparr>tl_line = 20, tl_col = 3\<rparr>"
    by (simp_all add: packable_def TextLength_inv_def length_factor_def)
  note claim = Length_refines_TextLength [OF this order_refl]
  show ?thesis unfolding Let_def using claim by blast
qed

subsection \<open>Lengths of strings\<close>

text \<open>No line terminator \<open>\r\n\<close> lies across the seam of two strings.\<close>

definition crlf_seam_ok :: "js_string \<Rightarrow> js_string \<Rightarrow> bool" where
  "crlf_seam_ok s t \<longleftrightarrow> \<not> (s \<noteq> [] \<and> t \<noteq> [] \<and> last s = CR \<and> hd t = LF)"

lemma js_split_eol_acc:
  "js_split_eol False acc s = (acc @ hd (js_split_eol False [] s)) # tl (js_split_eol False [] s)"
proof (induction "length s" arbitrary: acc s rule: less_induct)
  case less
  show ?case
  proof (cases "s = []")
    case False
    show ?thesis
    proof (cases "eol_match s = 0")
      case True
      have un: "js_split_eol False a s = js_split_eol False (a @ [hd s]) (tl s)" for a
        using False True by (subst js_split_eol.simps) simp
      have IH: "js_split_eol False a (tl s) =
          (a @ hd (js_split_eol False [] (tl s))) # tl (js_split_eol False [] (tl s))" for a
        using less [of "tl s" a] False by simp
      show ?thesis unfolding un by (subst (1 2 3) IH) simp
    next
      case nz: False
      have "js_split_eol False a s = a # js_split_eol False [] (drop (eol_match s) s)" for a
        using False nz by (subst js_split_eol.simps) (simp add: Let_def)
      then show ?thesis by (metis append_Nil2 list.sel(1,3))
    qed
  qed (simp add: js_split_eol.simps)
qed

lemma js_split_eol_not_Nil [simp]: "js_split_eol False acc s \<noteq> []"
  by (subst js_split_eol_acc) simp

lemma eol_match_append:
  assumes "s \<noteq> []" "crlf_seam_ok s t"
  shows "eol_match (s @ t) = eol_match s"
  using assms by (cases s; cases "tl s"; cases t) (auto simp: eol_match_def crlf_seam_ok_def)

lemma eol_match_le: "eol_match s \<le> length s"
  by (cases s; cases "tl s") (auto simp: eol_match_def)

lemma js_split_eol_append:
  assumes "crlf_seam_ok s t"
  shows "js_split_eol False acc (s @ t) =
     butlast (js_split_eol False acc s) @ js_split_eol False (last (js_split_eol False acc s)) t"
  using assms
proof (induction "length s" arbitrary: acc s rule: less_induct)
  case less
  show ?case
  proof (cases "s = []")
    case True
    then show ?thesis by (simp add: js_split_eol.simps [of False acc "[]"])
  next
    case False
    note m = eol_match_append [OF False less.prems]
    show ?thesis
    proof (cases "eol_match s = 0")
      case True
      have "crlf_seam_ok (tl s) t" using less.prems False by (cases s) (auto simp: crlf_seam_ok_def split: if_splits)
      moreover have "js_split_eol False acc (s @ t) = js_split_eol False (acc @ [hd s]) (tl s @ t)"
        using False True m by (simp add: js_split_eol.simps [of False acc "s @ t"])
      moreover have "js_split_eol False acc s = js_split_eol False (acc @ [hd s]) (tl s)"
        using False True by (simp add: js_split_eol.simps [of False acc s])
      ultimately show ?thesis using less.hyps [of "tl s" "acc @ [hd s]"] False by simp
    next
      case nz: False
      let ?n = "eol_match s"
      have "crlf_seam_ok (drop ?n s) t" using less.prems by (auto simp: crlf_seam_ok_def)
      moreover have "js_split_eol False acc (s @ t) = acc # js_split_eol False [] (drop ?n s @ t)"
        using False nz m eol_match_le [of s] by (simp add: js_split_eol.simps [of False acc "s @ t"] Let_def)
      moreover have "js_split_eol False acc s = acc # js_split_eol False [] (drop ?n s)"
        using False nz by (simp add: js_split_eol.simps [of False acc s] Let_def)
      ultimately show ?thesis using less.hyps [of "drop ?n s" "[]"] nz False by simp
    qed
  qed
qed

definition lines_length :: "js_string list \<Rightarrow> TextLength" where
  "lines_length ls = TextLength_new (int (length ls) - 1) (int (length (last ls)))"

lemma lengthOfStringObj_lines: "lengthOfStringObj s = lines_length (splitLines s)"
  by (simp add: lengthOfStringObj_def lines_length_def Let_def splitLines_def last_conv_nth)

lemma lengthOfString_pack: "lengthOfString s = pack (lengthOfStringObj s)"
  by (simp add: lengthOfStringObj_def lengthOfString_def Let_def pack_def TextLength_new_def)

lemma lengthOfStringObj_append:
  assumes "crlf_seam_ok s t"
  shows "lengthOfStringObj (s @ t) = TextLength_add (lengthOfStringObj s) (lengthOfStringObj t)"
proof -
  define S T where "S = splitLines s" and "T = splitLines t"
  have ne: "S \<noteq> []" "T \<noteq> []" by (simp_all add: S_def T_def splitLines_def)
  have "splitLines (s @ t) = butlast S @ (last S @ hd T) # tl T"
    unfolding splitLines_def js_split_eol_append [OF assms] js_split_eol_acc [of "last _"]
    by (simp add: S_def T_def splitLines_def)
  moreover have "tl T = [] \<longleftrightarrow> length T = 1" "hd T = last T \<or> tl T \<noteq> []"
    using ne by (cases T; simp)+
  moreover have "tl T \<noteq> [] \<Longrightarrow> last (tl T) = last T" using ne by (cases T) auto
  moreover have "0 < length S" "0 < length T" using ne by simp_all
  ultimately show ?thesis
    by (auto simp: lengthOfStringObj_lines lines_length_def S_def [symmetric] T_def [symmetric] tl_defs
        of_nat_diff Suc_leI)
qed

lemma lengthOfStringObj_unit: "c \<noteq> CR \<Longrightarrow> lengthOfStringObj [c] = TextLength_ofText [c]"
proof -
  assume "c \<noteq> CR"
  then have "eol_match [c] = (if c = LF then 1 else 0)" by (simp add: eol_match_def)
  then have "splitLines [c] = (if c = LF then [[], []] else [[c]])"
    by (simp add: splitLines_def js_split_eol.simps)
  moreover have "uint c = 10 \<longleftrightarrow> c = LF" by (simp add: word_uint_eq_iff)
  ultimately show ?thesis
    by (simp add: lengthOfStringObj_lines lines_length_def TextLength_ofText_def TextLength_ofText_step_def)
qed

lemma lengthOfStringObj_ofText:
  assumes "CR \<notin> set str" "successively (\<lambda>h l. \<not> is_pair h l) str"
  shows "lengthOfStringObj str = TextLength_ofText str"
  using assms
proof (induction str)
  case Nil
  then show ?case
    by (simp add: lengthOfStringObj_lines lines_length_def splitLines_def js_split_eol.simps
        TextLength_ofText_def)
next
  case (Cons c str)
  then have "crlf_seam_ok [c] str" "seam_ok [c] str"
    by (auto simp: crlf_seam_ok_def seam_ok_def successively_Cons)
  moreover have "successively (\<lambda>h l. \<not> is_pair h l) str" using Cons.prems by (auto simp: successively_Cons)
  ultimately show ?case
    using Cons lengthOfStringObj_append [of "[c]" str] TextLength_ofText_append [of "[c]" str]
      lengthOfStringObj_unit [of c] by simp
qed

text \<open>
  The two ways the program measures a text. \<open>lengthOfString\<close>, through \<open>splitLines\<close>, and
  \<open>TextLength.ofText\<close>, through code points, agree on a text without carriage returns and without
  surrogate pairs. \<open>lengthOfString\<close> turns concatenation into \<open>lengthAdd\<close> when no \<open>\r\n\<close>
  is cut in two and the lines are shorter than \<open>2 ^ 26\<close>.
\<close>

lemma lengthOfString_correct:
  assumes "crlf_seam_ok s t" "int (length s) < 2 ^ 26" "int (length t) < 2 ^ 26"
    "CR \<notin> set str" "successively (\<lambda>h l. \<not> is_pair h l) str"
  shows "(lengthOfStringObj (s @ t) = TextLength_add (lengthOfStringObj s) (lengthOfStringObj t)) \<and>
    (lengthOfString (s @ t) = lengthAdd (lengthOfString s) (lengthOfString t)) \<and>
    (lengthToObj (lengthOfString s) = lengthOfStringObj s) \<and>
    (lengthOfStringObj str = TextLength_ofText str)"
proof -
  have packable: "packable (lengthOfStringObj u)" if len: "int (length u) < 2 ^ 26" for u
  proof -
    from splitLines_correct [of u] obtain ps l where sp: "splitLines u = map fst ps @ [l]"
      "splitLinesIncludeSeparators u = map (\<lambda>(line, sep). line @ sep) ps @ [l]"
      "concat (splitLinesIncludeSeparators u) = u" by blast
    then have "length l \<le> length u" by (metis concat_append concat.simps append_Nil2 length_append le_add2)
    with len sp(1) show ?thesis
      by (simp add: lengthOfStringObj_lines lines_length_def packable_def TextLength_inv_def
          TextLength_new_def length_factor_def)
  qed
  have c1: "lengthOfStringObj (s @ t) = TextLength_add (lengthOfStringObj s) (lengthOfStringObj t)"
    using assms(1) by (rule lengthOfStringObj_append)
  have c2: "lengthOfString (s @ t) = lengthAdd (lengthOfString s) (lengthOfString t)"
    using lengthAdd_pack [OF packable packable] assms(2,3) by (simp add: lengthOfString_pack c1)
  have c3: "lengthToObj (lengthOfString s) = lengthOfStringObj s"
    using lengthToObj_pack [OF packable] assms(2) by (simp add: lengthOfString_pack)
  have c4: "lengthOfStringObj str = TextLength_ofText str" using assms(4,5) by (rule lengthOfStringObj_ofText)
  show ?thesis by (rule conjI [OF c1 conjI [OF c2 conjI [OF c3 c4]]])
qed

lemma lengthOfString_correct_witness:
  "(let s = [65, CR, LF, 66]; t = [67, LF, 68, 69]
    in lengthOfString (s @ t) = lengthAdd (lengthOfString s) (lengthOfString t) \<and>
       lengthOfStringObj t = TextLength_ofText t)"
proof -
  have "crlf_seam_ok [65, CR, LF, 66] [67, LF, 68, 69]" "int (length [65, CR, LF, 66 :: 16 word]) < 2 ^ 26"
    "int (length [67, LF, 68, 69 :: 16 word]) < 2 ^ 26" "CR \<notin> set [67, LF, 68, 69]"
    "successively (\<lambda>h l. \<not> is_pair h l) [67, LF, 68, 69]"
    by (simp_all add: crlf_seam_ok_def is_pair_def surrogate_defs)
  note claim = lengthOfString_correct [OF this]
  show ?thesis unfolding Let_def using claim by blast
qed

end
