(* ===== verification/Prefix_Sum_Spec.thy ===== *)
theory Prefix_Sum_Spec
  imports Prelude
begin

text \<open>
  What a prefix sum computer promises, apart from how it caches sums: a sequence of numbers that can be
  edited, and queries about the sums of its prefixes. The operations are a datatype and the contract is
  a step function over plain lists; the locale \<open>psum_machine\<close> states that a stateful class
  implements it, and proves once that whole runs then agree.
\<close>

datatype psum_op =
    PS_insert int "int list"
  | PS_set int int
  | PS_remove int int
  | PS_total
  | PS_prefix int
  | PS_index_of int

datatype psum_result = PS_done | PS_sum int | PS_index int int

definition pre :: "int list \<Rightarrow> int \<Rightarrow> int" where
  "pre vs k = sum_list (take (nat k) vs)"

text \<open>
  Where a sum falls: the first index whose prefix sum exceeds it, the last index when there is none,
  with what is left of the sum.
\<close>

fun index_of :: "int list \<Rightarrow> int \<Rightarrow> int \<times> int" where
  "index_of [] s = (0, s)"
| "index_of [v] s = (0, s)"
| "index_of (v # w # vs) s =
     (if s < v then (0, s) else let (i, r) = index_of (w # vs) (s - v) in (i + 1, r))"

fun psum_spec :: "int list \<Rightarrow> psum_op \<Rightarrow> psum_result \<times> int list" where
  "psum_spec vs (PS_insert i ws) = (PS_done, take (nat i) vs @ ws @ drop (nat i) vs)"
| "psum_spec vs (PS_set i v) = (PS_done, vs[nat i := v])"
| "psum_spec vs (PS_remove i k) = (PS_done, take (nat i) vs @ drop (nat (i + k)) vs)"
| "psum_spec vs PS_total = (PS_sum (sum_list vs), vs)"
| "psum_spec vs (PS_prefix k) = (PS_sum (pre vs k), vs)"
| "psum_spec vs (PS_index_of s) = (PS_index (fst (index_of vs s)) (snd (index_of vs s)), vs)"

text \<open>The operations a client may call: indices in range, sums and numbers not negative.\<close>

fun psum_legal :: "int list \<Rightarrow> psum_op \<Rightarrow> bool" where
  "psum_legal vs (PS_insert i ws) = (0 \<le> i \<and> i \<le> int (length vs) \<and> (\<forall>w \<in> set ws. 0 \<le> w))"
| "psum_legal vs (PS_set i v) = (0 \<le> i \<and> i < int (length vs) \<and> 0 \<le> v)"
| "psum_legal vs (PS_remove i k) = (0 \<le> i \<and> 0 \<le> k \<and> i + k \<le> int (length vs))"
| "psum_legal vs PS_total = True"
| "psum_legal vs (PS_prefix k) = (0 \<le> k \<and> k \<le> int (length vs))"
| "psum_legal vs (PS_index_of s) = (0 \<le> s)"

fun psum_spec_run :: "int list \<Rightarrow> psum_op list \<Rightarrow> psum_result list" where
  "psum_spec_run vs [] = []"
| "psum_spec_run vs (a # ops) = fst (psum_spec vs a) # psum_spec_run (snd (psum_spec vs a)) ops"

text \<open>Every operation of the sequence is legal and the contents stay within the bounds \<open>ok\<close>.\<close>

fun psum_legal_run :: "(int list \<Rightarrow> bool) \<Rightarrow> int list \<Rightarrow> psum_op list \<Rightarrow> bool" where
  "psum_legal_run ok vs [] = True"
| "psum_legal_run ok vs (a # ops) =
     (psum_legal vs a \<and> ok (snd (psum_spec vs a)) \<and> psum_legal_run ok (snd (psum_spec vs a)) ops)"

fun machine_run :: "('s \<Rightarrow> psum_op \<Rightarrow> js_error + psum_result \<times> 's) \<Rightarrow> 's \<Rightarrow> psum_op list \<Rightarrow> js_error + psum_result list" where
  "machine_run step s [] = Inr []"
| "machine_run step s (a # ops) =
     bindE (step s a) (\<lambda>(r, s'). bindE (machine_run step s' ops) (\<lambda>rs. Inr (r # rs)))"

locale psum_machine =
  fixes step :: "'s \<Rightarrow> psum_op \<Rightarrow> js_error + psum_result \<times> 's"
    and inv :: "'s \<Rightarrow> bool"
    and vals :: "'s \<Rightarrow> int list"
    and ok :: "int list \<Rightarrow> bool"
  assumes step_refines:
    "inv s \<Longrightarrow> ok (vals s) \<Longrightarrow> psum_legal (vals s) a \<Longrightarrow> ok (snd (psum_spec (vals s) a)) \<Longrightarrow>
     \<exists>s'. step s a = Inr (fst (psum_spec (vals s) a), s') \<and> inv s' \<and> vals s' = snd (psum_spec (vals s) a)"
begin

lemma run_refines:
  "inv s \<Longrightarrow> ok (vals s) \<Longrightarrow> psum_legal_run ok (vals s) ops \<Longrightarrow>
   machine_run step s ops = Inr (psum_spec_run (vals s) ops)"
proof (induction ops arbitrary: s)
  case (Cons a ops)
  from step_refines [of s a] Cons.prems obtain s' where s':
    "step s a = Inr (fst (psum_spec (vals s) a), s')" "inv s'" "vals s' = snd (psum_spec (vals s) a)"
    by auto
  with Cons show ?case by simp
qed simp

end

subsection \<open>Prefix sums of a list\<close>

definition nonneg :: "int list \<Rightarrow> bool" where
  "nonneg vs \<longleftrightarrow> (\<forall>v \<in> set vs. 0 \<le> v)"

lemma pre_0 [simp]: "k \<le> 0 \<Longrightarrow> pre vs k = 0"
  by (simp add: pre_def)

lemma pre_all: "int (length vs) \<le> k \<Longrightarrow> pre vs k = sum_list vs"
  by (simp add: pre_def)

lemma pre_Suc:
  assumes "0 \<le> k" "k < int (length vs)"
  shows "pre vs (k + 1) = pre vs k + vs ! nat k"
proof -
  have "nat (k + 1) = Suc (nat k)" "nat k < length vs" using assms by auto
  then show ?thesis by (simp add: pre_def take_Suc_conv_app_nth)
qed

lemma pre_Cons: "0 < k \<Longrightarrow> pre (v # vs) k = v + pre vs (k - 1)"
proof -
  assume "0 < k"
  then have "nat k = Suc (nat (k - 1))" by simp
  then show ?thesis by (simp add: pre_def)
qed

lemma nonneg_nth: "nonneg vs \<Longrightarrow> 0 \<le> k \<Longrightarrow> k < int (length vs) \<Longrightarrow> 0 \<le> vs ! nat k"
  by (simp add: nonneg_def)

lemma pre_mono:
  assumes "nonneg vs" "i \<le> j"
  shows "pre vs i \<le> pre vs j"
proof -
  have "nat j = nat i + (nat j - nat i)" using assms by simp
  then have "take (nat j) vs = take (nat i) vs @ take (nat j - nat i) (drop (nat i) vs)"
    using take_add [of "nat i" "nat j - nat i" vs] by simp
  moreover have "0 \<le> sum_list (take (nat j - nat i) (drop (nat i) vs))"
    using assms(1) by (intro sum_list_nonneg) (auto simp: nonneg_def dest: in_set_takeD in_set_dropD)
  ultimately show ?thesis by (simp add: pre_def)
qed

lemma pre_nonneg: "nonneg vs \<Longrightarrow> 0 \<le> pre vs k"
  using pre_mono [of vs 0 k] by (cases "0 \<le> k") simp_all

lemma pre_le_total: "nonneg vs \<Longrightarrow> pre vs k \<le> sum_list vs"
  using pre_mono [of vs k "max k (int (length vs))"] by (simp add: pre_all)

lemma pre_take_eq: "take (nat k) vs = take (nat k) ws \<Longrightarrow> pre vs k = pre ws k"
  by (simp add: pre_def)

text \<open>What determines the answer to \<open>PS_index_of\<close>.\<close>

lemma index_of_unique:
  assumes "nonneg vs" "0 \<le> i" "i < int (length vs)" "pre vs i \<le> s"
    "s < pre vs (i + 1) \<or> i + 1 = int (length vs)"
  shows "index_of vs s = (i, s - pre vs i)"
  using assms
proof (induction vs s arbitrary: i rule: index_of.induct)
  case (3 v w vs s)
  show ?case
  proof (cases "i = 0")
    case True
    with 3 show ?thesis by (auto simp: pre_Cons)
  next
    case False
    then have v: "pre (v # w # vs) i = v + pre (w # vs) (i - 1)" using 3 by (simp add: pre_Cons)
    have nn: "nonneg (w # vs)" using 3(2) by (simp add: nonneg_def)
    from v 3(5) pre_nonneg [OF nn, of "i - 1"] have "\<not> s < v" by linarith
    moreover have "index_of (w # vs) (s - v) = (i - 1, s - v - pre (w # vs) (i - 1))"
    proof (rule 3(1) [OF \<open>\<not> s < v\<close> nn])
      show "s - v < pre (w # vs) (i - 1 + 1) \<or> i - 1 + 1 = int (length (w # vs))"
        using 3(6) False 3(3) by (auto simp: pre_Cons)
    qed (use False 3 v in auto)
    ultimately show ?thesis by (simp add: v)
  qed
qed (auto simp: pre_def)

lemma index_of_bounds:
  assumes "nonneg vs" "0 \<le> s" "vs \<noteq> []"
  obtains i where "index_of vs s = (i, s - pre vs i)" "0 \<le> i" "i < int (length vs)" "pre vs i \<le> s"
    "s < pre vs (i + 1) \<or> i + 1 = int (length vs)"
  using assms
proof (induction vs s arbitrary: thesis rule: index_of.induct)
  case (2 v s)
  show ?case by (rule 2(1) [of 0]) (use 2 in auto)
next
  case (3 v w vs s)
  show ?case
  proof (cases "s < v")
    case True
    show ?thesis by (rule 3(2) [of 0]) (use True 3(3-5) in \<open>auto simp: pre_Cons\<close>)
  next
    case False
    have "nonneg (w # vs)" "0 \<le> s - v" "w # vs \<noteq> []" using 3(3) False by (auto simp: nonneg_def)
    then obtain i where i: "index_of (w # vs) (s - v) = (i, s - v - pre (w # vs) i)" "0 \<le> i"
      "i < int (length (w # vs))" "pre (w # vs) i \<le> s - v"
      "s - v < pre (w # vs) (i + 1) \<or> i + 1 = int (length (w # vs))"
      using 3(1) [OF False] by blast
    show ?thesis by (rule 3(2) [of "i + 1"]) (use i False in \<open>auto simp: pre_Cons\<close>)
  qed
qed simp

end
