(* ===== verification/Prefix_Sum.thy ===== *)
theory Prefix_Sum
  imports Prefix_Sum_Spec
begin

text \<open>
  \<open>src/vs/editor/common/model/prefixSumComputer.ts\<close>, class \<open>PrefixSumComputer\<close>, and
  \<open>toUint8\<close>, \<open>toUint32\<close> of \<open>src/vs/base/common/uint.ts\<close>. The class keeps its numbers
  and a cache of their prefix sums in typed arrays; the cache is valid up to an index that every change
  lowers and every query raises. The theory proves that it implements the contract of
  \<open>Prefix_Sum_Spec\<close> while the numbers add up to less than \<open>2 ^ 32\<close>.

  Typed arrays: a read outside of the bounds gives \<open>undefined\<close> (\<open>None\<close>), a write there is
  ignored, a value is stored modulo \<open>2 ^ 32\<close>, and \<open>set\<close> throws a \<open>RangeError\<close> when
  the source does not fit.
\<close>

definition toUint8 :: "int \<Rightarrow> int" where
  "toUint8 v = (if v < 0 then 0 else if v > 255 then 255 else js_or0 v)"

definition toUint32 :: "int \<Rightarrow> int" where
  "toUint32 v = (if v < 0 then 0 else if v > 4294967295 then 4294967295 else js_or0 v)"

subsection \<open>Typed arrays\<close>

definition u32_get :: "32 word list \<Rightarrow> int \<Rightarrow> int option" where
  "u32_get xs i = (if 0 \<le> i \<and> i < int (length xs) then Some (uint (xs ! nat i)) else None)"

definition u32_put :: "32 word list \<Rightarrow> int \<Rightarrow> int option \<Rightarrow> 32 word list" where
  "u32_put xs i v =
     (if 0 \<le> i \<and> i < int (length xs) then xs[nat i := (case v of None \<Rightarrow> 0 | Some n \<Rightarrow> word_of_int n)] else xs)"

definition u32_set :: "32 word list \<Rightarrow> 32 word list \<Rightarrow> int \<Rightarrow> js_error + 32 word list" where
  "u32_set xs src offset =
     (if offset < 0 \<or> offset + int (length src) > int (length xs) then Inl RangeError
      else Inr (take (nat offset) xs @ src @ drop (nat offset + length src) xs))"

definition u32_new :: "int \<Rightarrow> 32 word list" where
  "u32_new n = replicate (nat n) 0"

definition js_plus :: "int option \<Rightarrow> int option \<Rightarrow> int option" where
  "js_plus x y = (case (x, y) of (Some a, Some b) \<Rightarrow> Some (a + b) | _ \<Rightarrow> None)"

definition js_minus :: "int option \<Rightarrow> int option \<Rightarrow> int option" where
  "js_minus x y = (case (x, y) of (Some a, Some b) \<Rightarrow> Some (a - b) | _ \<Rightarrow> None)"

subsection \<open>The class\<close>

record PrefixSumComputer =
  psc_values :: "32 word list"
  psc_prefixSum :: "32 word list"
  psc_validIndex :: int

definition PrefixSumComputer_new :: "32 word list \<Rightarrow> PrefixSumComputer" where
  "PrefixSumComputer_new values =
     \<lparr>psc_values = values, psc_prefixSum = u32_new (int (length values)), psc_validIndex = -1\<rparr>"

definition PrefixSumComputer_getCount :: "PrefixSumComputer \<Rightarrow> int" where
  "PrefixSumComputer_getCount this = int (length (psc_values this))"

definition PrefixSumComputer_insertValues ::
  "PrefixSumComputer \<Rightarrow> int \<Rightarrow> 32 word list \<Rightarrow> js_error + bool \<times> PrefixSumComputer" where
  "PrefixSumComputer_insertValues this insertIndex0 insertValues =
     (let insertIndex = toUint32 insertIndex0; oldValues = psc_values this; oldPrefixSum = psc_prefixSum this;
          insertValuesLen = int (length insertValues); n = int (length oldValues)
      in if insertValuesLen = 0 then Inr (False, this)
         else
           bindE (u32_set (u32_new (n + insertValuesLen)) (js_slice oldValues 0 insertIndex) 0) (\<lambda>v1.
           bindE (u32_set v1 (js_slice oldValues insertIndex n) (insertIndex + insertValuesLen)) (\<lambda>v2.
           bindE (u32_set v2 insertValues insertIndex) (\<lambda>v3.
           let valid = (if insertIndex - 1 < psc_validIndex this then js_or0 (insertIndex - 1) else psc_validIndex this);
               ps = u32_new (int (length v3))
           in bindE (if valid \<ge> 0 then u32_set ps (js_slice oldPrefixSum 0 (valid + 1)) 0 else Inr ps) (\<lambda>ps'.
              Inr (True, \<lparr>psc_values = v3, psc_prefixSum = ps', psc_validIndex = valid\<rparr>))))))"

definition PrefixSumComputer_setValue :: "PrefixSumComputer \<Rightarrow> int \<Rightarrow> int \<Rightarrow> bool \<times> PrefixSumComputer" where
  "PrefixSumComputer_setValue this index0 value0 =
     (let index = toUint32 index0; v = toUint32 value0
      in if u32_get (psc_values this) index = Some v then (False, this)
         else
           (True, this\<lparr>psc_values := u32_put (psc_values this) index (Some v),
              psc_validIndex := (if index - 1 < psc_validIndex this then js_or0 (index - 1) else psc_validIndex this)\<rparr>))"

definition PrefixSumComputer_removeValues ::
  "PrefixSumComputer \<Rightarrow> int \<Rightarrow> int \<Rightarrow> js_error + bool \<times> PrefixSumComputer" where
  "PrefixSumComputer_removeValues this startIndex0 count0 =
     (let startIndex = toUint32 startIndex0; count1 = toUint32 count0;
          oldValues = psc_values this; oldPrefixSum = psc_prefixSum this; n = int (length oldValues)
      in if startIndex \<ge> n then Inr (False, this)
         else
           let maxCount = n - startIndex; count = (if count1 \<ge> maxCount then maxCount else count1)
           in if count = 0 then Inr (False, this)
              else
                bindE (u32_set (u32_new (n - count)) (js_slice oldValues 0 startIndex) 0) (\<lambda>v1.
                bindE (u32_set v1 (js_slice oldValues (startIndex + count) n) startIndex) (\<lambda>v2.
                let ps = u32_new (int (length v2));
                    valid = (if startIndex - 1 < psc_validIndex this then js_or0 (startIndex - 1) else psc_validIndex this)
                in bindE (if valid \<ge> 0 then u32_set ps (js_slice oldPrefixSum 0 (valid + 1)) 0 else Inr ps) (\<lambda>ps'.
                   Inr (True, \<lparr>psc_values = v2, psc_prefixSum = ps', psc_validIndex = valid\<rparr>)))))"

text \<open>\<open>for (let i = startIndex; i <= index; i++)\<close>\<close>

function psc_fill :: "32 word list \<Rightarrow> 32 word list \<Rightarrow> int \<Rightarrow> int \<Rightarrow> 32 word list" where
  "psc_fill values prefixSum i index =
     (if i \<le> index then
        psc_fill values (u32_put prefixSum i (js_plus (u32_get prefixSum (i - 1)) (u32_get values i))) (i + 1) index
      else prefixSum)"
  by pat_completeness auto
termination by (relation "measure (\<lambda>(_, _, i, index). nat (index + 1 - i))") auto

declare psc_fill.simps [simp del]

definition PrefixSumComputer_getPrefixSum' :: "PrefixSumComputer \<Rightarrow> int \<Rightarrow> int option \<times> PrefixSumComputer" where
  "PrefixSumComputer_getPrefixSum' this index0 =
     (if index0 \<le> psc_validIndex this then (u32_get (psc_prefixSum this) index0, this)
      else
        let startIndex0 = psc_validIndex this + 1;
            ps0 = (if startIndex0 = 0 then u32_put (psc_prefixSum this) 0 (u32_get (psc_values this) 0)
                   else psc_prefixSum this);
            startIndex = (if startIndex0 = 0 then startIndex0 + 1 else startIndex0);
            n = int (length (psc_values this));
            index = (if index0 \<ge> n then n - 1 else index0);
            ps = psc_fill (psc_values this) ps0 startIndex index
        in (u32_get ps index,
            this\<lparr>psc_prefixSum := ps, psc_validIndex := js_or0 (max (psc_validIndex this) index)\<rparr>))"

definition PrefixSumComputer_getTotalSum :: "PrefixSumComputer \<Rightarrow> int option \<times> PrefixSumComputer" where
  "PrefixSumComputer_getTotalSum this =
     (if length (psc_values this) = 0 then (Some 0, this)
      else PrefixSumComputer_getPrefixSum' this (int (length (psc_values this)) - 1))"

definition PrefixSumComputer_getPrefixSum :: "PrefixSumComputer \<Rightarrow> int \<Rightarrow> int option \<times> PrefixSumComputer" where
  "PrefixSumComputer_getPrefixSum this index =
     (if index < 0 then (Some 0, this) else PrefixSumComputer_getPrefixSum' this (toUint32 index))"

text \<open>
  The binary search of \<open>getIndexOf\<close>. \<open>low + ((high - low) / 2) | 0\<close> truncates the whole
  sum, which is below \<open>2 ^ 31\<close> for the index of an array. A comparison with \<open>undefined\<close> or
  \<open>NaN\<close> is false.
\<close>

definition js_lt :: "int \<Rightarrow> int option \<Rightarrow> bool" where
  "js_lt s x = (case x of None \<Rightarrow> False | Some a \<Rightarrow> s < a)"

definition js_geq :: "int \<Rightarrow> int option \<Rightarrow> bool" where
  "js_geq s x = (case x of None \<Rightarrow> False | Some a \<Rightarrow> s \<ge> a)"

function psc_search ::
  "32 word list \<Rightarrow> 32 word list \<Rightarrow> int \<Rightarrow> int \<Rightarrow> int \<Rightarrow> int \<Rightarrow> int option \<Rightarrow> int \<times> int option" where
  "psc_search values prefixSum s low high mid0 midStart0 =
     (if low \<le> high then
        let mid = (low + high) div 2;
            midStop = u32_get prefixSum mid;
            midStart = js_minus midStop (u32_get values mid)
        in if js_lt s midStart then psc_search values prefixSum s low (mid - 1) mid midStart
           else if js_geq s midStop then psc_search values prefixSum s (mid + 1) high mid midStart
           else (mid, midStart)
      else (mid0, midStart0))"
  by pat_completeness auto
termination by (relation "measure (\<lambda>(_, _, _, low, high, _). nat (high + 1 - low))") auto

declare psc_search.simps [simp del]

definition PrefixSumComputer_getIndexOf :: "PrefixSumComputer \<Rightarrow> int \<Rightarrow> (int \<times> int option) \<times> PrefixSumComputer" where
  "PrefixSumComputer_getIndexOf this s =
     (let this1 = snd (PrefixSumComputer_getTotalSum this);
          (mid, midStart) = psc_search (psc_values this1) (psc_prefixSum this1) s 0
             (int (length (psc_values this1)) - 1) 0 (Some 0)
      in ((mid, js_minus (Some s) midStart), this1))"

subsection \<open>Typed array lemmas\<close>

lemma toUint32_id: "0 \<le> v \<Longrightarrow> v < 2 ^ 31 \<Longrightarrow> toUint32 v = v"
  by (simp add: toUint32_def js_or0_id)

text \<open>A value from \<open>2 ^ 31\<close> on is turned into a negative number, which a cell stores as the same word.\<close>

lemma toUint32_word: "0 \<le> v \<Longrightarrow> v < 2 ^ 32 \<Longrightarrow> (word_of_int (toUint32 v) :: 32 word) = word_of_int v"
proof -
  assume v: "0 \<le> v" "v < 2 ^ 32"
  then have "toUint32 v = signed_take_bit 31 v" by (simp add: toUint32_def js_or0_def)
  moreover have "(word_of_int (signed_take_bit 31 v) :: 32 word) = word_of_int v"
  proof (rule bit_word_eqI)
    fix n assume "n < LENGTH(32)"
    then have "n < 31 \<or> n = 31" by auto
    then show "bit (word_of_int (signed_take_bit 31 v) :: 32 word) n \<longleftrightarrow> bit (word_of_int v :: 32 word) n"
      by (auto simp: bit_word_of_int_iff bit_signed_take_bit_iff)
  qed
  ultimately show ?thesis by simp
qed

lemma u32_get_in [simp]: "0 \<le> i \<Longrightarrow> i < int (length xs) \<Longrightarrow> u32_get xs i = Some (uint (xs ! nat i))"
  by (simp add: u32_get_def)

lemma length_u32_put [simp]: "length (u32_put xs i v) = length xs"
  by (simp add: u32_put_def)

lemma u32_put_nth:
  "0 \<le> i \<Longrightarrow> i < int (length xs) \<Longrightarrow>
   u32_put xs i (Some n) ! k = (if k = nat i then word_of_int n else xs ! k)"
  by (auto simp: u32_put_def nth_list_update)

lemma u32_set_at:
  assumes "int (length A) = offset" "length B = length src"
  shows "u32_set (A @ B @ C) src offset = Inr (A @ src @ C)"
proof -
  have "nat offset = length A" "0 \<le> offset" using assms(1) by auto
  with assms show ?thesis by (simp add: u32_set_def)
qed

lemma u32_new_add: "0 \<le> a \<Longrightarrow> 0 \<le> b \<Longrightarrow> u32_new (a + b) = u32_new a @ u32_new b"
  by (simp add: u32_new_def nat_add_distrib replicate_add)

lemma length_u32_new [simp]: "length (u32_new n) = nat n"
  by (simp add: u32_new_def)

lemma js_slice_take: "0 \<le> i \<Longrightarrow> i \<le> int (length s) \<Longrightarrow> js_slice s 0 i = take (nat i) s"
  by (simp add: js_slice_def Let_def)

lemma js_slice_drop: "0 \<le> i \<Longrightarrow> i \<le> int (length s) \<Longrightarrow> js_slice s i (int (length s)) = drop (nat i) s"
  by (simp add: js_slice_def Let_def)

subsection \<open>The cache invariant\<close>

definition psc_vals :: "PrefixSumComputer \<Rightarrow> int list" where
  "psc_vals s = map uint (psc_values s)"

definition psc_ok :: "int list \<Rightarrow> bool" where
  "psc_ok vs \<longleftrightarrow> nonneg vs \<and> sum_list vs < 2 ^ 32 \<and> int (length vs) < 2 ^ 31"

definition psc_inv :: "PrefixSumComputer \<Rightarrow> bool" where
  "psc_inv s \<longleftrightarrow>
     length (psc_prefixSum s) = length (psc_values s) \<and>
     -1 \<le> psc_validIndex s \<and> psc_validIndex s < int (length (psc_values s)) \<and>
     (\<forall>k. 0 \<le> k \<and> k \<le> psc_validIndex s \<longrightarrow> uint (psc_prefixSum s ! nat k) = pre (psc_vals s) (k + 1))"

lemma length_psc_vals [simp]: "length (psc_vals s) = length (psc_values s)"
  by (simp add: psc_vals_def)

lemma psc_vals_nth: "0 \<le> k \<Longrightarrow> k < int (length (psc_values s)) \<Longrightarrow> uint (psc_values s ! nat k) = psc_vals s ! nat k"
  by (simp add: psc_vals_def)

lemma psc_ok_nonneg: "psc_ok vs \<Longrightarrow> nonneg vs"
  by (simp add: psc_ok_def)

lemma psc_ok_pre: "psc_ok vs \<Longrightarrow> 0 \<le> pre vs k \<and> pre vs k < 2 ^ 32"
  using pre_nonneg [of vs k] pre_le_total [of vs k] by (auto simp: psc_ok_def)

lemma psc_new_inv: "psc_inv (PrefixSumComputer_new values)"
  by (simp add: psc_inv_def PrefixSumComputer_new_def)

text \<open>
  A change at an index keeps the sums below it: this is what lowering the valid index to the one before
  the change, and copying the cache up to it, relies on.
\<close>

lemma psc_inv_change:
  assumes inv: "psc_inv s" and i: "0 \<le> i" "i \<le> int (length (psc_values s))"
    and same: "take (nat i) vs' = take (nat i) (psc_values s)" "i \<le> int (length vs')"
    and bound: "int (length (psc_values s)) < 2 ^ 31"
  defines "valid \<equiv> (if i - 1 < psc_validIndex s then js_or0 (i - 1) else psc_validIndex s)"
  shows "(if valid \<ge> 0 then u32_set (u32_new (int (length vs'))) (js_slice (psc_prefixSum s) 0 (valid + 1)) 0
          else Inr (u32_new (int (length vs')))) =
       Inr (take (nat (valid + 1)) (psc_prefixSum s) @ u32_new (int (length vs') - (valid + 1)))"
    and "psc_inv \<lparr>psc_values = vs',
       psc_prefixSum = take (nat (valid + 1)) (psc_prefixSum s) @ u32_new (int (length vs') - (valid + 1)),
       psc_validIndex = valid\<rparr>"
proof -
  have valid: "valid = min (i - 1) (psc_validIndex s)"
    using i inv bound by (auto simp: valid_def js_or0_id psc_inv_def)
  have v: "-1 \<le> valid" "valid + 1 \<le> i" "valid + 1 \<le> int (length (psc_prefixSum s))" "valid \<le> psc_validIndex s"
    using valid i inv by (auto simp: psc_inv_def)
  have len: "length (take (nat (valid + 1)) (psc_prefixSum s)) = nat (valid + 1)" using v by simp
  have "u32_new (int (length vs')) = u32_new (valid + 1) @ u32_new (int (length vs') - (valid + 1))"
    using v same(2) u32_new_add [of "valid + 1" "int (length vs') - (valid + 1)"] by simp
  moreover have "\<not> 0 \<le> valid \<Longrightarrow> u32_new (valid + 1) = []" by (simp add: u32_new_def)
  ultimately show "(if valid \<ge> 0 then u32_set (u32_new (int (length vs'))) (js_slice (psc_prefixSum s) 0 (valid + 1)) 0
          else Inr (u32_new (int (length vs')))) =
       Inr (take (nat (valid + 1)) (psc_prefixSum s) @ u32_new (int (length vs') - (valid + 1)))"
    using v len u32_set_at [of "[]" 0 "u32_new (valid + 1)" "take (nat (valid + 1)) (psc_prefixSum s)"
        "u32_new (int (length vs') - (valid + 1))"]
    by (auto simp: js_slice_take)
  have "pre (map uint vs') (k + 1) = pre (psc_vals s) (k + 1)" if "k \<le> valid" for k
  proof (rule pre_take_eq)
    have "take (nat (k + 1)) vs' = take (nat (k + 1)) (take (nat i) vs')"
      "take (nat (k + 1)) (psc_values s) = take (nat (k + 1)) (take (nat i) (psc_values s))"
      using that v by (simp_all add: min_def)
    with same(1) show "take (nat (k + 1)) (map uint vs') = take (nat (k + 1)) (psc_vals s)"
      by (simp add: psc_vals_def take_map)
  qed
  moreover have "nat k < nat (valid + 1)" if "0 \<le> k" "k \<le> valid" for k
    using that by linarith
  ultimately show "psc_inv \<lparr>psc_values = vs',
       psc_prefixSum = take (nat (valid + 1)) (psc_prefixSum s) @ u32_new (int (length vs') - (valid + 1)),
       psc_validIndex = valid\<rparr>"
    using v len same(2) inv by (auto simp: psc_inv_def psc_vals_def nth_append)
qed

lemma psc_insertValues_spec:
  assumes "psc_inv s" "0 \<le> i" "i \<le> int (length (psc_values s))" "int (length (psc_values s)) < 2 ^ 31"
  shows "\<exists>b s'. PrefixSumComputer_insertValues s i ws = Inr (b, s') \<and> psc_inv s' \<and>
     psc_values s' = take (nat i) (psc_values s) @ ws @ drop (nat i) (psc_values s)"
proof (cases "ws = []")
  case True
  with assms(1) show ?thesis by (auto simp: PrefixSumComputer_insertValues_def)
next
  case False
  let ?old = "psc_values s" and ?k = "int (length ws)" and ?n = "int (length (psc_values s))"
  let ?A = "take (nat i) ?old" and ?B = "drop (nat i) ?old"
  let ?vs' = "?A @ ws @ ?B"
  have i: "toUint32 i = i" using assms by (simp add: toUint32_id)
  have lA: "int (length ?A) = i" "int (length ?B) = ?n - i" using assms by (auto simp: of_nat_diff)
  have zeros: "u32_new (?n + ?k) = u32_new i @ u32_new ?k @ u32_new (?n - i)"
    using u32_new_add [of i "?k + (?n - i)"] u32_new_add [of ?k "?n - i"] assms by (simp add: algebra_simps)
  have s1: "u32_set (u32_new (?n + ?k)) (js_slice ?old 0 i) 0 = Inr (?A @ u32_new ?k @ u32_new (?n - i))"
    using u32_set_at [of "[]" 0 "u32_new i" ?A "u32_new ?k @ u32_new (?n - i)"] lA assms
    by (simp add: zeros js_slice_take)
  have s2: "u32_set (?A @ u32_new ?k @ u32_new (?n - i)) (js_slice ?old i ?n) (i + ?k) = Inr (?A @ u32_new ?k @ ?B)"
    using u32_set_at [of "?A @ u32_new ?k" "i + ?k" "u32_new (?n - i)" ?B "[]"] lA assms
    by (simp add: js_slice_drop)
  have s3: "u32_set (?A @ u32_new ?k @ ?B) ws i = Inr ?vs'"
    using u32_set_at [of ?A i "u32_new ?k" ws ?B] lA by simp
  have same: "take (nat i) ?vs' = ?A" "i \<le> int (length ?vs')" using lA assms by auto
  note change = psc_inv_change [OF assms(1,2,3) same assms(4)]
  show ?thesis using False
    by (simp only: PrefixSumComputer_insertValues_def Let_def i s1 s2 s3 bindE_simps change(1))
       (use change(2) in auto)
qed

lemma psc_removeValues_spec:
  assumes "psc_inv s" "0 \<le> i" "0 \<le> k" "i + k \<le> int (length (psc_values s))" "int (length (psc_values s)) < 2 ^ 31"
  shows "\<exists>b s'. PrefixSumComputer_removeValues s i k = Inr (b, s') \<and> psc_inv s' \<and>
     psc_values s' = take (nat i) (psc_values s) @ drop (nat (i + k)) (psc_values s)"
proof (cases "k = 0")
  case True
  with assms show ?thesis by (auto simp: PrefixSumComputer_removeValues_def toUint32_id Let_def)
next
  case False
  let ?old = "psc_values s" and ?n = "int (length (psc_values s))"
  let ?A = "take (nat i) ?old" and ?B = "drop (nat (i + k)) ?old"
  have u: "toUint32 i = i" "toUint32 k = k" using assms by (auto simp: toUint32_id)
  have lA: "int (length ?A) = i" "int (length ?B) = ?n - (i + k)" using assms by (auto simp: of_nat_diff)
  have zeros: "u32_new (?n - k) = u32_new i @ u32_new (?n - (i + k))"
    using u32_new_add [of i "?n - (i + k)"] assms by (simp add: algebra_simps)
  have s1: "u32_set (u32_new (?n - k)) (js_slice ?old 0 i) 0 = Inr (?A @ u32_new (?n - (i + k)))"
    using u32_set_at [of "[]" 0 "u32_new i" ?A "u32_new (?n - (i + k))"] lA assms
    by (simp add: zeros js_slice_take)
  have s2: "u32_set (?A @ u32_new (?n - (i + k))) (js_slice ?old (i + k) ?n) i = Inr (?A @ ?B)"
    using u32_set_at [of ?A i "u32_new (?n - (i + k))" ?B "[]"] lA assms by (simp add: js_slice_drop)
  have same: "take (nat i) (?A @ ?B) = ?A" "i \<le> int (length (?A @ ?B))" using lA assms by auto
  have count: "(if k \<ge> ?n - i then ?n - i else k) = k" "\<not> i \<ge> ?n" using assms False by auto
  have le: "i \<le> ?n" using assms by simp
  note change = psc_inv_change [OF assms(1,2) le same assms(5)]
  show ?thesis using False
    by (simp only: PrefixSumComputer_removeValues_def Let_def u count s1 s2 bindE_simps change(1) if_False)
       (use change(2) in auto)
qed

lemma psc_setValue_spec:
  assumes "psc_inv s" "0 \<le> i" "i < int (length (psc_values s))" "int (length (psc_values s)) < 2 ^ 31"
    "0 \<le> v" "v < 2 ^ 32"
  shows "\<exists>b s'. PrefixSumComputer_setValue s i v = (b, s') \<and> psc_inv s' \<and>
     psc_values s' = (psc_values s)[nat i := word_of_int v]"
proof (cases "u32_get (psc_values s) i = Some (toUint32 v)")
  case True
  then have "uint (psc_values s ! nat i) = toUint32 v" using assms by simp
  then have "psc_values s ! nat i = word_of_int v"
    using toUint32_word [OF assms(5,6)] by (metis word_of_int_uint)
  then have "(psc_values s)[nat i := word_of_int v] = psc_values s" by (metis list_update_id)
  with True assms show ?thesis by (auto simp: PrefixSumComputer_setValue_def toUint32_id Let_def)
next
  case False
  let ?vs' = "(psc_values s)[nat i := word_of_int v]"
  define valid where "valid = (if i - 1 < psc_validIndex s then js_or0 (i - 1) else psc_validIndex s)"
  have put: "u32_put (psc_values s) i (Some (toUint32 v)) = ?vs'"
    using assms toUint32_word [OF assms(5,6)] by (simp add: u32_put_def)
  have valid: "valid = min (i - 1) (psc_validIndex s)"
    using assms by (auto simp: valid_def js_or0_id psc_inv_def)
  have "pre (map uint ?vs') (k + 1) = pre (psc_vals s) (k + 1)" if "k \<le> valid" for k
  proof (rule pre_take_eq)
    from that valid assms(2) have "nat (k + 1) \<le> nat i" by auto
    then show "take (nat (k + 1)) (map uint ?vs') = take (nat (k + 1)) (psc_vals s)"
      by (simp add: psc_vals_def take_map take_update_cancel)
  qed
  then have "psc_inv (s\<lparr>psc_values := ?vs', psc_validIndex := valid\<rparr>)"
    using assms valid by (auto simp: psc_inv_def psc_vals_def)
  with False assms(2,3,4) put show ?thesis
    by (auto simp: PrefixSumComputer_setValue_def toUint32_id Let_def valid_def)
qed

subsection \<open>Queries\<close>

definition psc_cached :: "32 word list \<Rightarrow> int list \<Rightarrow> int \<Rightarrow> bool" where
  "psc_cached ps vs n \<longleftrightarrow> (\<forall>k. 0 \<le> k \<and> k < n \<longrightarrow> uint (ps ! nat k) = pre vs (k + 1))"

lemma uint_word_of_int32: "0 \<le> n \<Longrightarrow> n < 2 ^ 32 \<Longrightarrow> uint (word_of_int n :: 32 word) = n"
  by (simp add: uint_word_of_int_eq take_bit_int_eq_self)

lemma psc_cached_put:
  assumes "psc_cached ps vs i" "0 \<le> i" "i < int (length ps)" "length vs = length ps" "psc_ok vs"
  shows "psc_cached (u32_put ps i (Some (pre vs (i + 1)))) vs (i + 1)"
  unfolding psc_cached_def
proof (intro allI impI)
  fix k assume k: "0 \<le> k \<and> k < i + 1"
  show "uint (u32_put ps i (Some (pre vs (i + 1))) ! nat k) = pre vs (k + 1)"
  proof (cases "k = i")
    case True
    with assms psc_ok_pre [OF assms(5), of "i + 1"] show ?thesis
      by (simp add: u32_put_nth uint_word_of_int32)
  next
    case False
    then have "nat k \<noteq> nat i" "k < i" using k assms(2) by auto
    with assms k show ?thesis by (simp add: u32_put_nth psc_cached_def)
  qed
qed

lemma psc_fill_spec:
  assumes "psc_cached ps vs i" "1 \<le> i" "i \<le> index + 1" "index < int (length ps)"
    "length cells = length ps" "vs = map uint cells" "psc_ok vs"
  shows "length (psc_fill cells ps i index) = length ps \<and> psc_cached (psc_fill cells ps i index) vs (index + 1)"
  using assms
proof (induction cells ps i index rule: psc_fill.induct)
  case (1 cells ps i index)
  note unfold = psc_fill.simps [of cells ps i index]
  show ?case
  proof (cases "i \<le> index")
    case True
    have "u32_get ps (i - 1) = Some (pre vs i)"
      using 1(2-5) True by (simp add: psc_cached_def)
    moreover have "u32_get cells i = Some (vs ! nat i)" using 1(2-7) True by simp
    moreover have "pre vs (i + 1) = pre vs i + vs ! nat i" using 1(2-7) True by (simp add: pre_Suc)
    ultimately have plus: "js_plus (u32_get ps (i - 1)) (u32_get cells i) = Some (pre vs (i + 1))"
      by (simp add: js_plus_def)
    have "psc_cached (u32_put ps i (Some (pre vs (i + 1)))) vs (i + 1)"
      using 1(2-8) True by (intro psc_cached_put) auto
    moreover have "i \<le> index" "1 \<le> i + 1" "i + 1 \<le> index + 1" using True 1(3) by auto
    ultimately have "length (psc_fill cells (u32_put ps i (Some (pre vs (i + 1)))) (i + 1) index) = length ps \<and>
        psc_cached (psc_fill cells (u32_put ps i (Some (pre vs (i + 1)))) (i + 1) index) vs (index + 1)"
      using 1(1) [OF True, unfolded plus] 1(5-8) by simp
    then show ?thesis using True by (simp only: unfold plus if_True)
  next
    case False
    with 1(4) have "i = index + 1" by simp
    with 1(2) show ?thesis by (simp add: psc_fill.simps)
  qed
qed

lemma psc_getPrefixSum'_spec:
  assumes "psc_inv s" "psc_ok (psc_vals s)" "0 \<le> index" "index < int (length (psc_values s))"
  shows "\<exists>s'. PrefixSumComputer_getPrefixSum' s index = (Some (pre (psc_vals s) (index + 1)), s') \<and> psc_inv s' \<and>
     psc_values s' = psc_values s \<and> index \<le> psc_validIndex s'"
proof (cases "index \<le> psc_validIndex s")
  case True
  with assms show ?thesis by (simp add: PrefixSumComputer_getPrefixSum'_def psc_inv_def)
next
  case False
  let ?vs = "psc_vals s" and ?start0 = "psc_validIndex s + 1"
  define ps0 where "ps0 = (if ?start0 = 0 then u32_put (psc_prefixSum s) 0 (u32_get (psc_values s) 0) else psc_prefixSum s)"
  define start where "start = (if ?start0 = 0 then ?start0 + 1 else ?start0)"
  define ps where "ps = psc_fill (psc_values s) ps0 start index"
  have len: "length ps0 = length (psc_values s)" using assms(1) by (simp add: ps0_def psc_inv_def)
  have cached: "psc_cached (psc_prefixSum s) ?vs ?start0"
    using assms(1) by (auto simp: psc_inv_def psc_cached_def)
  have "psc_cached ps0 ?vs start"
  proof (cases "?start0 = 0")
    case True
    have "u32_get (psc_values s) 0 = Some (pre ?vs (0 + 1))"
      using assms(3,4) pre_Suc [of 0 ?vs] psc_vals_nth [of 0 s] by (auto simp: u32_get_def)
    moreover have "0 < length (psc_prefixSum s)" using assms by (auto simp: psc_inv_def)
    ultimately show ?thesis
      using psc_cached_put [of "psc_prefixSum s" ?vs 0] cached True assms
      by (simp add: ps0_def start_def psc_inv_def)
  next
    case False
    with cached show ?thesis by (simp add: ps0_def start_def)
  qed
  moreover have "1 \<le> start" "start \<le> index + 1" using False assms by (auto simp: start_def psc_inv_def)
  moreover have "index < int (length ps0)" "length (psc_values s) = length ps0" using assms(4) len by auto
  ultimately have "length ps = length ps0 \<and> psc_cached ps ?vs (index + 1)"
    unfolding ps_def using assms(2) by (intro psc_fill_spec) (auto simp only: psc_vals_def)
  then have ps: "length ps = length (psc_values s)" "psc_cached ps ?vs (index + 1)"
    using len by auto
  have valid: "js_or0 (max (psc_validIndex s) index) = index"
    using False assms by (simp add: js_or0_id psc_ok_def)
  have eq: "PrefixSumComputer_getPrefixSum' s index =
      (u32_get ps index, s\<lparr>psc_prefixSum := ps, psc_validIndex := index\<rparr>)"
  proof -
    have "(index \<le> psc_validIndex s) = False"
      "(if int (length (psc_values s)) \<le> index then int (length (psc_values s)) - 1 else index) = index"
      using False assms(4) by auto
    then show ?thesis
      by (simp only: PrefixSumComputer_getPrefixSum'_def Let_def if_False valid ps_def start_def ps0_def)
  qed
  have "u32_get ps index = Some (pre ?vs (index + 1))"
    using ps assms(3,4) by (simp add: psc_cached_def)
  moreover have "psc_inv (s\<lparr>psc_prefixSum := ps, psc_validIndex := index\<rparr>)"
    using ps assms(3,4) by (auto simp: psc_inv_def psc_cached_def psc_vals_def)
  ultimately show ?thesis unfolding eq by auto
qed

lemma psc_getTotalSum_spec:
  assumes "psc_inv s" "psc_ok (psc_vals s)"
  shows "\<exists>s'. PrefixSumComputer_getTotalSum s = (Some (sum_list (psc_vals s)), s') \<and> psc_inv s' \<and>
     psc_values s' = psc_values s \<and> psc_validIndex s' = int (length (psc_values s)) - 1"
proof (cases "psc_values s = []")
  case True
  with assms show ?thesis by (simp add: PrefixSumComputer_getTotalSum_def psc_vals_def psc_inv_def)
next
  case False
  let ?n = "int (length (psc_values s))"
  from False have n: "0 \<le> ?n - 1" "?n - 1 < ?n" by (auto simp: Suc_leI)
  from psc_getPrefixSum'_spec [OF assms n] obtain s' where s':
    "PrefixSumComputer_getPrefixSum' s (?n - 1) = (Some (pre (psc_vals s) (?n - 1 + 1)), s')" "psc_inv s'"
    "psc_values s' = psc_values s" "?n - 1 \<le> psc_validIndex s'" by blast
  moreover have "pre (psc_vals s) (?n - 1 + 1) = sum_list (psc_vals s)" by (simp add: pre_all)
  moreover have "psc_validIndex s' = ?n - 1" using s'(2-4) by (simp add: psc_inv_def)
  ultimately show ?thesis using False by (simp add: PrefixSumComputer_getTotalSum_def)
qed

lemma psc_search_spec:
  assumes "psc_cached ps vs (int (length vs))" "length ps = length vs" "vs = map uint cells" "psc_ok vs"
    "0 \<le> low" "low \<le> high" "high < int (length vs)" "pre vs low \<le> x"
    "high = int (length vs) - 1 \<or> x < pre vs (high + 1)"
  shows "\<exists>m. psc_search cells ps x low high mid0 start0 = (m, Some (pre vs m)) \<and>
     0 \<le> m \<and> m < int (length vs) \<and> pre vs m \<le> x \<and> (x < pre vs (m + 1) \<or> m + 1 = int (length vs))"
  using assms
proof (induction cells ps x low high mid0 start0 rule: psc_search.induct)
  case (1 cells ps x low high mid0 start0)
  note unfold = psc_search.simps [of cells ps x low high mid0 start0]
  define mid where "mid = (low + high) div 2"
  have mid: "low \<le> mid" "mid \<le> high" using 1(8) by (auto simp: mid_def)
  then have in_range: "0 \<le> mid" "mid < int (length vs)" using 1(7-9) by auto
  have stop: "u32_get ps mid = Some (pre vs (mid + 1))"
    using 1(3,4) in_range by (simp add: psc_cached_def)
  have val: "u32_get cells mid = Some (vs ! nat mid)" using 1(5) in_range by simp
  have start: "js_minus (u32_get ps mid) (u32_get cells mid) = Some (pre vs mid)"
    using in_range by (simp add: stop val js_minus_def pre_Suc)
  have nn: "nonneg vs" using 1(6) by (rule psc_ok_nonneg)
  let ?ok = "\<lambda>m. 0 \<le> m \<and> m < int (length vs) \<and> pre vs m \<le> x \<and> (x < pre vs (m + 1) \<or> m + 1 = int (length vs))"
  have IH1: "\<exists>m. psc_search cells ps x low (mid - 1) mid (Some (pre vs mid)) = (m, Some (pre vs m)) \<and> ?ok m"
    if "x < pre vs mid" "low \<le> mid - 1"
    using 1(1) [OF 1(8) mid_def refl refl, unfolded start] that 1(3-8,10) in_range by (simp add: js_lt_def)
  have IH2: "\<exists>m. psc_search cells ps x (mid + 1) high mid (Some (pre vs mid)) = (m, Some (pre vs m)) \<and> ?ok m"
    if "pre vs mid \<le> x" "pre vs (mid + 1) \<le> x" "mid + 1 \<le> high"
  proof (rule 1(2) [OF 1(8) mid_def refl refl, unfolded start])
    show "\<not> js_lt x (Some (pre vs mid))" using that by (simp add: js_lt_def)
    show "js_geq x (u32_get ps mid)" using that by (simp add: stop js_geq_def)
  qed (use that 1(3-11) in_range in auto)
  have eq: "psc_search cells ps x low high mid0 start0 =
      (if x < pre vs mid then psc_search cells ps x low (mid - 1) mid (Some (pre vs mid))
       else if x \<ge> pre vs (mid + 1) then psc_search cells ps x (mid + 1) high mid (Some (pre vs mid))
       else (mid, Some (pre vs mid)))"
    using 1(8) by (simp only: unfold if_True Let_def mid_def [symmetric] start)
      (simp add: stop js_lt_def js_geq_def)
  consider "x < pre vs mid" | "pre vs mid \<le> x" "pre vs (mid + 1) \<le> x" | "pre vs mid \<le> x" "x < pre vs (mid + 1)"
    by linarith
  then show ?case
  proof cases
    case c: 1
    then have "low \<noteq> mid" using 1(10) by auto
    with mid have "low \<le> mid - 1" by simp
    from IH1 [OF c this] c show ?thesis by (simp only: eq if_True)
  next
    case c: 2
    show ?thesis
    proof (cases "mid = high")
      case True
      with c 1(11) have "high = int (length vs) - 1" by auto
      moreover have "psc_search cells ps x (mid + 1) high mid (Some (pre vs mid)) = (mid, Some (pre vs mid))"
        using True by (simp add: psc_search.simps)
      ultimately have "psc_search cells ps x low high mid0 start0 = (mid, Some (pre vs mid))"
        unfolding eq using c by simp
      with c(1) True in_range \<open>high = int (length vs) - 1\<close> show ?thesis by auto
    next
      case False
      with mid have "mid + 1 \<le> high" by simp
      have "psc_search cells ps x low high mid0 start0 = psc_search cells ps x (mid + 1) high mid (Some (pre vs mid))"
        unfolding eq using c by simp
      with IH2 [OF c \<open>mid + 1 \<le> high\<close>] show ?thesis by (simp only:)
    qed
  next
    case c: 3
    with in_range show ?thesis by (auto simp: eq)
  qed
qed

lemma psc_getIndexOf_spec:
  assumes "psc_inv s" "psc_ok (psc_vals s)" "0 \<le> x"
  shows "\<exists>s'. PrefixSumComputer_getIndexOf s x =
       ((fst (index_of (psc_vals s) x), Some (snd (index_of (psc_vals s) x))), s') \<and> psc_inv s' \<and>
     psc_values s' = psc_values s"
proof -
  from psc_getTotalSum_spec [OF assms(1,2)] obtain s' where s':
    "PrefixSumComputer_getTotalSum s = (Some (sum_list (psc_vals s)), s')" "psc_inv s'"
    "psc_values s' = psc_values s" "psc_validIndex s' = int (length (psc_values s)) - 1" by blast
  have vals: "psc_vals s' = psc_vals s" using s'(3) by (simp add: psc_vals_def)
  show ?thesis
  proof (cases "psc_values s = []")
    case True
    with s' show ?thesis
      by (simp add: PrefixSumComputer_getIndexOf_def psc_search.simps psc_vals_def js_minus_def)
  next
    case False
    let ?n = "int (length (psc_vals s))"
    have cached: "psc_cached (psc_prefixSum s') (psc_vals s) ?n"
      using s'(2-4) vals by (auto simp: psc_inv_def psc_cached_def)
    have "\<exists>m. psc_search (psc_values s') (psc_prefixSum s') x 0 (?n - 1) 0 (Some 0) = (m, Some (pre (psc_vals s) m)) \<and>
       0 \<le> m \<and> m < ?n \<and> pre (psc_vals s) m \<le> x \<and> (x < pre (psc_vals s) (m + 1) \<or> m + 1 = ?n)"
      by (rule psc_search_spec)
         (use False s' assms cached in \<open>auto simp: psc_inv_def psc_vals_def Suc_leI\<close>)
    then obtain m where m: "psc_search (psc_values s') (psc_prefixSum s') x 0 (?n - 1) 0 (Some 0) =
        (m, Some (pre (psc_vals s) m))" "0 \<le> m" "m < ?n" "pre (psc_vals s) m \<le> x"
      "x < pre (psc_vals s) (m + 1) \<or> m + 1 = ?n" by blast
    from index_of_unique [OF psc_ok_nonneg [OF assms(2)] m(2-5)]
    have "index_of (psc_vals s) x = (m, x - pre (psc_vals s) m)" .
    with m(1) s' show ?thesis by (simp add: PrefixSumComputer_getIndexOf_def js_minus_def)
  qed
qed

subsection \<open>The contract\<close>

text \<open>An \<open>undefined\<close> answer stands for an error; the refinement shows there is none.\<close>

fun psum_answer :: "int option \<times> 's \<Rightarrow> js_error + psum_result \<times> 's" where
  "psum_answer (Some r, s) = Inr (PS_sum r, s)"
| "psum_answer (None, s) = Inl TypeError"

fun psum_index_answer :: "(int \<times> int option) \<times> 's \<Rightarrow> js_error + psum_result \<times> 's" where
  "psum_index_answer ((i, Some r), s) = Inr (PS_index i r, s)"
| "psum_index_answer ((i, None), s) = Inl TypeError"

fun psc_step :: "PrefixSumComputer \<Rightarrow> psum_op \<Rightarrow> js_error + psum_result \<times> PrefixSumComputer" where
  "psc_step s (PS_insert i ws) =
     bindE (PrefixSumComputer_insertValues s i (map word_of_int ws)) (\<lambda>(_, s'). Inr (PS_done, s'))"
| "psc_step s (PS_set i v) = Inr (PS_done, snd (PrefixSumComputer_setValue s i v))"
| "psc_step s (PS_remove i k) = bindE (PrefixSumComputer_removeValues s i k) (\<lambda>(_, s'). Inr (PS_done, s'))"
| "psc_step s PS_total = psum_answer (PrefixSumComputer_getTotalSum s)"
| "psc_step s (PS_prefix k) = psum_answer (PrefixSumComputer_getPrefixSum s (k - 1))"
| "psc_step s (PS_index_of x) = psum_index_answer (PrefixSumComputer_getIndexOf s x)"

lemma nonneg_member_le: "nonneg vs \<Longrightarrow> v \<in> set vs \<Longrightarrow> v \<le> sum_list vs"
proof (induction vs)
  case (Cons w vs)
  then have "nonneg vs" "0 \<le> w" "0 \<le> sum_list vs" by (auto simp: nonneg_def intro: sum_list_nonneg)
  with Cons show ?case by auto
qed simp

lemma psc_ok_bound: "psc_ok vs \<Longrightarrow> v \<in> set vs \<Longrightarrow> 0 \<le> v \<and> v < 2 ^ 32"
  using nonneg_member_le [of vs v] by (auto simp: psc_ok_def nonneg_def)

lemma map_uint_word_of_int:
  "(\<And>w. w \<in> set ws \<Longrightarrow> 0 \<le> w \<and> w < 2 ^ 32) \<Longrightarrow> map uint (map (word_of_int :: int \<Rightarrow> 32 word) ws) = ws"
  by (simp add: uint_word_of_int32 map_idI)

lemma psc_step_refines:
  assumes "psc_inv s" "psc_ok (psc_vals s)" "psum_legal (psc_vals s) a" "psc_ok (snd (psum_spec (psc_vals s) a))"
  shows "\<exists>s'. psc_step s a = Inr (fst (psum_spec (psc_vals s) a), s') \<and> psc_inv s' \<and>
     psc_vals s' = snd (psum_spec (psc_vals s) a)"
proof (cases a)
  case (PS_insert i ws)
  let ?ws = "map word_of_int ws :: 32 word list"
  from assms(3) PS_insert have i: "0 \<le> i" "i \<le> int (length (psc_values s))" by simp_all
  have "int (length (psc_values s)) < 2 ^ 31" using assms(2) by (simp add: psc_ok_def)
  from psc_insertValues_spec [OF assms(1) i this, of ?ws] obtain b s' where s':
    "PrefixSumComputer_insertValues s i ?ws = Inr (b, s')" "psc_inv s'"
    "psc_values s' = take (nat i) (psc_values s) @ ?ws @ drop (nat i) (psc_values s)" by blast
  have ws: "map uint ?ws = ws"
    by (rule map_uint_word_of_int) (use psc_ok_bound [OF assms(4)] PS_insert in auto)
  have "psc_vals s' = take (nat i) (psc_vals s) @ map uint ?ws @ drop (nat i) (psc_vals s)"
    unfolding psc_vals_def s'(3) map_append take_map drop_map ..
  with s' PS_insert show ?thesis unfolding ws by simp
next
  case (PS_set i v)
  from assms(3) PS_set have i: "0 \<le> i" "i < int (length (psc_values s))" and "0 \<le> v" by simp_all
  have len: "int (length (psc_values s)) < 2 ^ 31" using assms(2) by (simp add: psc_ok_def)
  have v: "v < 2 ^ 32"
    using psc_ok_bound [OF assms(4), of v] PS_set i by (simp add: set_update_memI)
  from psc_setValue_spec [OF assms(1) i len \<open>0 \<le> v\<close> v] obtain b s' where s':
    "PrefixSumComputer_setValue s i v = (b, s')" "psc_inv s'"
    "psc_values s' = (psc_values s)[nat i := word_of_int v]" by blast
  have "uint (word_of_int v :: 32 word) = v" using \<open>0 \<le> v\<close> v by (rule uint_word_of_int32)
  then have "psc_vals s' = (psc_vals s)[nat i := v]" by (simp add: psc_vals_def s'(3) map_update)
  with s' PS_set show ?thesis by simp
next
  case (PS_remove i k)
  from assms(3) PS_remove have i: "0 \<le> i" "0 \<le> k" "i + k \<le> int (length (psc_values s))" by simp_all
  have "int (length (psc_values s)) < 2 ^ 31" using assms(2) by (simp add: psc_ok_def)
  from psc_removeValues_spec [OF assms(1) i this] obtain b s' where s':
    "PrefixSumComputer_removeValues s i k = Inr (b, s')" "psc_inv s'"
    "psc_values s' = take (nat i) (psc_values s) @ drop (nat (i + k)) (psc_values s)" by blast
  then have "psc_vals s' = take (nat i) (psc_vals s) @ drop (nat (i + k)) (psc_vals s)"
    by (simp add: psc_vals_def take_map drop_map)
  with s' PS_remove show ?thesis by simp
next
  case PS_total
  with psc_getTotalSum_spec [OF assms(1,2)] show ?thesis by (auto simp: psc_vals_def)
next
  case (PS_prefix k)
  show ?thesis
  proof (cases "k = 0")
    case True
    with assms(1) PS_prefix show ?thesis by (simp add: PrefixSumComputer_getPrefixSum_def)
  next
    case False
    with assms(3) PS_prefix have k: "0 \<le> k - 1" "k - 1 < int (length (psc_values s))" by simp_all
    moreover have "k - 1 < 2 ^ 31" using k assms(2) by (simp add: psc_ok_def)
    ultimately show ?thesis using psc_getPrefixSum'_spec [OF assms(1,2) k] PS_prefix
      by (auto simp: PrefixSumComputer_getPrefixSum_def toUint32_id psc_vals_def)
  qed
next
  case (PS_index_of x)
  with assms(3) have "0 \<le> x" by simp
  from psc_getIndexOf_spec [OF assms(1,2) this] PS_index_of show ?thesis by (auto simp: psc_vals_def)
qed

interpretation psc: psum_machine psc_step psc_inv psc_vals psc_ok
  by unfold_locales (rule psc_step_refines)

text \<open>
  C16. \<open>PrefixSumComputer\<close> implements its contract. From a new computer over any numbers, any
  sequence of insertions, assignments, removals and queries with indices in range gets the answers that
  plain sums over the current list of numbers give, and no step throws: the cached sums are never
  stale. The numbers have to add up to less than \<open>2 ^ 32\<close>, the capacity of a cell of the cache.
\<close>

theorem PrefixSumComputer_refines:
  assumes "psc_ok (map uint numbers)" "psum_legal_run psc_ok (map uint numbers) ops"
  shows "machine_run psc_step (PrefixSumComputer_new numbers) ops = Inr (psum_spec_run (map uint numbers) ops)"
proof -
  have "psc_vals (PrefixSumComputer_new numbers) = map uint numbers"
    by (simp add: psc_vals_def PrefixSumComputer_new_def)
  with psc.run_refines [OF psc_new_inv, of numbers ops] assms show ?thesis by simp
qed

theorem PrefixSumComputer_refines_witness:
  "(let ops = [PS_prefix 2, PS_insert 1 [5], PS_index_of 9, PS_remove 0 2, PS_total, PS_set 1 0, PS_total]
    in machine_run psc_step (PrefixSumComputer_new [4, 2, 7]) ops =
         Inr [PS_sum 6, PS_done, PS_index 2 0, PS_done, PS_sum 9, PS_done, PS_sum 2])"
proof -
  let ?ops = "[PS_prefix 2, PS_insert 1 [5], PS_index_of 9, PS_remove 0 2, PS_total, PS_set 1 0, PS_total]"
  have vs: "map uint [4, 2, 7 :: 32 word] = [4, 2, 7]" by simp
  have "psc_ok (map uint [4, 2, 7 :: 32 word])" "psum_legal_run psc_ok (map uint [4, 2, 7 :: 32 word]) ?ops"
    unfolding vs by (simp_all add: psc_ok_def nonneg_def)
  note claim = PrefixSumComputer_refines [OF this]
  show ?thesis unfolding Let_def claim unfolding vs by (simp add: pre_def)
qed

end
