(* ===== verification/Constant_Prefix_Sum.thy ===== *)
theory Constant_Prefix_Sum
  imports Prefix_Sum
begin

text \<open>
  \<open>src/vs/editor/common/model/prefixSumComputer.ts\<close>, class
  \<open>ConstantTimePrefixSumComputer\<close>: besides the prefix sums it keeps a table from every sum to the
  index it falls on, which answers \<open>getIndexOf\<close> with one read. Both caches are brought up to date
  from the first invalid index on when a query needs them. The theory proves that it implements the same
  contract as \<open>PrefixSumComputer\<close>.

  The three arrays are ordinary ones: a read outside of the bounds gives \<open>undefined\<close>
  (\<open>None\<close>), a write behind the end extends the array and leaves holes, a write at an index that is negative or not below
  \<open>2 ^ 32 - 1\<close> does not change the elements, and the assignment of \<open>length\<close> cuts or extends, or throws when it
  is not an integer from \<open>0\<close> to \<open>2 ^ 32 - 1\<close>.
\<close>

subsection \<open>Arrays\<close>

definition js_get :: "'a option list \<Rightarrow> int \<Rightarrow> 'a option" where
  "js_get xs i = (if 0 \<le> i \<and> i < int (length xs) then xs ! nat i else None)"

definition js_put :: "'a option list \<Rightarrow> int \<Rightarrow> 'a option \<Rightarrow> 'a option list" where
  "js_put xs i v =
     (if i < 0 \<or> 2 ^ 32 - 1 \<le> i then xs
      else if i < int (length xs) then xs[nat i := v]
      else xs @ replicate (nat i - length xs) None @ [v])"

definition js_set_length :: "'a option list \<Rightarrow> int option \<Rightarrow> js_error + 'a option list" where
  "js_set_length xs n = (case n of
      None \<Rightarrow> Inl RangeError
    | Some n \<Rightarrow> if n < 0 \<or> 2 ^ 32 \<le> n then Inl RangeError
                else Inr (take (nat n) xs @ replicate (nat n - length xs) None))"

text \<open>\<open>arr.splice(start, deleteCount)\<close>\<close>

definition js_splice_delete :: "'a list \<Rightarrow> int \<Rightarrow> int \<Rightarrow> 'a list" where
  "js_splice_delete xs start deleteCount =
     (let n = int (length xs);
          i = (if start < 0 then max (n + start) 0 else min start n);
          k = max 0 (min deleteCount (n - i))
      in take (nat i) xs @ drop (nat (i + k)) xs)"

text \<open>\<open>arrayInsert\<close> of \<open>src/vs/base/common/arrays.ts\<close>\<close>

definition arrayInsert :: "'a list \<Rightarrow> int \<Rightarrow> 'a list \<Rightarrow> 'a list" where
  "arrayInsert target insertIndex insertArr =
     (let before = js_slice target 0 insertIndex; after = js_slice target insertIndex (int (length target))
      in before @ insertArr @ after)"

subsection \<open>The class\<close>

record ConstantTimePrefixSumComputer =
  ct_values :: "int option list"
  ct_isValid :: bool
  ct_validEndIndex :: int
  ct_prefixSum :: "int option list"
  ct_indexBySum :: "int option list"

definition ConstantTimePrefixSumComputer_new :: "int option list \<Rightarrow> ConstantTimePrefixSumComputer" where
  "ConstantTimePrefixSumComputer_new values =
     \<lparr>ct_values = values, ct_isValid = False, ct_validEndIndex = -1, ct_prefixSum = [], ct_indexBySum = []\<rparr>"

text \<open>\<open>for (let j = 0; j < value; j++)\<close>\<close>

function ct_fill_index :: "int option list \<Rightarrow> int option \<Rightarrow> int \<Rightarrow> int option \<Rightarrow> int \<Rightarrow> int option list" where
  "ct_fill_index indexBySum sumAbove i cell j =
     (if js_lt j cell then
        ct_fill_index
          (case js_plus sumAbove (Some j) of None \<Rightarrow> indexBySum | Some s \<Rightarrow> js_put indexBySum s (Some i))
          sumAbove i cell (j + 1)
      else indexBySum)"
  by pat_completeness auto
termination
  by (relation "measure (\<lambda>(_, _, _, cell, j). case cell of None \<Rightarrow> 0 | Some v \<Rightarrow> nat (v - j))")
     (auto simp: js_lt_def split: option.splits)

declare ct_fill_index.simps [simp del]

function ct_fill ::
  "int option list \<Rightarrow> int option list \<Rightarrow> int option list \<Rightarrow> int \<Rightarrow> int option list \<times> int option list" where
  "ct_fill values prefixSum indexBySum i =
     (if i < int (length values) then
        let cell = js_get values i;
            sumAbove = (if i > 0 then js_get prefixSum (i - 1) else Some 0)
        in ct_fill values (js_put prefixSum i (js_plus sumAbove cell))
             (ct_fill_index indexBySum sumAbove i cell 0) (i + 1)
      else (prefixSum, indexBySum))"
  by pat_completeness auto
termination by (relation "measure (\<lambda>(values, _, _, i). nat (int (length values) - i))") auto

declare ct_fill.simps [simp del]

definition ConstantTimePrefixSumComputer_ensureValid ::
  "ConstantTimePrefixSumComputer \<Rightarrow> js_error + ConstantTimePrefixSumComputer" where
  "ConstantTimePrefixSumComputer_ensureValid this =
     (if ct_isValid this then Inr this
      else
        let n = int (length (ct_values this));
            (ps, ib) = ct_fill (ct_values this) (ct_prefixSum this) (ct_indexBySum this) (ct_validEndIndex this + 1)
        in bindE (js_set_length ps (Some n)) (\<lambda>ps'.
           bindE (js_set_length ib (if n > 0 then js_get ps' (n - 1) else Some 0)) (\<lambda>ib'.
           Inr (this\<lparr>ct_prefixSum := ps', ct_indexBySum := ib', ct_isValid := True, ct_validEndIndex := n - 1\<rparr>))))"

definition ConstantTimePrefixSumComputer_getTotalSum ::
  "ConstantTimePrefixSumComputer \<Rightarrow> js_error + int \<times> ConstantTimePrefixSumComputer" where
  "ConstantTimePrefixSumComputer_getTotalSum this =
     bindE (ConstantTimePrefixSumComputer_ensureValid this) (\<lambda>this1.
     Inr (int (length (ct_indexBySum this1)), this1))"

definition ConstantTimePrefixSumComputer_getPrefixSum ::
  "ConstantTimePrefixSumComputer \<Rightarrow> int \<Rightarrow> js_error + int option \<times> ConstantTimePrefixSumComputer" where
  "ConstantTimePrefixSumComputer_getPrefixSum this count =
     bindE (ConstantTimePrefixSumComputer_ensureValid this) (\<lambda>this1.
     Inr (if count = 0 then Some 0 else js_get (ct_prefixSum this1) (count - 1), this1))"

definition ConstantTimePrefixSumComputer_getIndexOf ::
  "ConstantTimePrefixSumComputer \<Rightarrow> int \<Rightarrow> js_error + (int \<times> int option) \<times> ConstantTimePrefixSumComputer" where
  "ConstantTimePrefixSumComputer_getIndexOf this s =
     bindE (ConstantTimePrefixSumComputer_ensureValid this) (\<lambda>this1.
     case js_get (ct_indexBySum this1) s of
       None \<Rightarrow>
         let lastIdx = max 0 (int (length (ct_values this1)) - 1);
             lastPrefixSum = (if lastIdx > 0 then js_get (ct_prefixSum this1) (lastIdx - 1) else Some 0)
         in Inr ((lastIdx, js_minus (Some s) lastPrefixSum), this1)
     | Some idx \<Rightarrow>
         let viewLinesAbove = (if idx > 0 then js_get (ct_prefixSum this1) (idx - 1) else Some 0)
         in Inr ((idx, js_minus (Some s) viewLinesAbove), this1))"

definition ConstantTimePrefixSumComputer_invalidate ::
  "ConstantTimePrefixSumComputer \<Rightarrow> int \<Rightarrow> ConstantTimePrefixSumComputer" where
  "ConstantTimePrefixSumComputer_invalidate this index =
     this\<lparr>ct_isValid := False, ct_validEndIndex := min (ct_validEndIndex this) (index - 1)\<rparr>"

definition ConstantTimePrefixSumComputer_removeValues ::
  "ConstantTimePrefixSumComputer \<Rightarrow> int \<Rightarrow> int \<Rightarrow> ConstantTimePrefixSumComputer" where
  "ConstantTimePrefixSumComputer_removeValues this start deleteCount =
     ConstantTimePrefixSumComputer_invalidate
       (this\<lparr>ct_values := js_splice_delete (ct_values this) start deleteCount\<rparr>) start"

definition ConstantTimePrefixSumComputer_insertValues ::
  "ConstantTimePrefixSumComputer \<Rightarrow> int \<Rightarrow> int option list \<Rightarrow> ConstantTimePrefixSumComputer" where
  "ConstantTimePrefixSumComputer_insertValues this insertIndex insertArr =
     ConstantTimePrefixSumComputer_invalidate
       (this\<lparr>ct_values := arrayInsert (ct_values this) insertIndex insertArr\<rparr>) insertIndex"

definition ConstantTimePrefixSumComputer_setValue ::
  "ConstantTimePrefixSumComputer \<Rightarrow> int \<Rightarrow> int \<Rightarrow> ConstantTimePrefixSumComputer" where
  "ConstantTimePrefixSumComputer_setValue this index v =
     (if js_get (ct_values this) index = Some v then this
      else ConstantTimePrefixSumComputer_invalidate
             (this\<lparr>ct_values := js_put (ct_values this) index (Some v)\<rparr>) index)"

subsection \<open>Array lemmas\<close>

lemma js_get_append:
  "js_get (xs @ ys) k = (if k < int (length xs) then js_get xs k else js_get ys (k - int (length xs)))"
proof (cases "k < int (length xs)")
  case False
  then have "nat k - length xs = nat (k - int (length xs))" by simp
  with False show ?thesis by (auto simp: js_get_def nth_append)
qed (auto simp: js_get_def nth_append)

lemma js_get_replicate [simp]: "js_get (replicate n None) k = None"
  by (auto simp: js_get_def)

lemma js_get_take: "js_get (take m xs) k = (if k < int m then js_get xs k else None)"
  by (auto simp: js_get_def)

lemma js_get_single: "js_get [v] k = (if k = 0 then v else None)"
  by (auto simp: js_get_def)

lemma js_get_outside: "int (length xs) \<le> k \<Longrightarrow> js_get xs k = None"
  by (simp add: js_get_def)

lemma js_get_put:
  assumes "i < 2 ^ 32 - 1"
  shows "js_get (js_put xs i v) k = (if 0 \<le> i \<and> k = i then v else js_get xs k)"
proof (cases "0 \<le> i \<and> int (length xs) \<le> i")
  case True
  with assms show ?thesis by (auto simp: js_put_def js_get_append js_get_single js_get_outside)
next
  case False
  with assms show ?thesis by (auto simp: js_get_def js_put_def)
qed

lemma js_get_set_length:
  assumes "js_set_length xs (Some n) = Inr ys"
  shows "js_get ys k = (if k < n then js_get xs k else None)"
proof -
  from assms have n: "0 \<le> n" "ys = take (nat n) xs @ replicate (nat n - length xs) None"
    by (auto simp: js_set_length_def split: if_splits)
  show ?thesis unfolding n(2) js_get_append js_get_replicate js_get_take
    using n(1) by (auto simp: js_get_outside)
qed

lemma js_set_length_ok: "0 \<le> n \<Longrightarrow> n < 2 ^ 32 \<Longrightarrow> \<exists>ys. js_set_length xs (Some n) = Inr ys \<and> int (length ys) = n"
  by (auto simp: js_set_length_def)

subsection \<open>The cache invariant\<close>

text \<open>The bounds of the arrays: as many numbers as an array can have, with a sum that can be the length of one.\<close>

definition ct_ok :: "int list \<Rightarrow> bool" where
  "ct_ok vs \<longleftrightarrow> nonneg vs \<and> sum_list vs < 2 ^ 32 \<and> int (length vs) < 2 ^ 32"

lemma ct_ok_nonneg: "ct_ok vs \<Longrightarrow> nonneg vs"
  by (simp add: ct_ok_def)

text \<open>
  Up to an index the prefix sums are right, and every sum below the last of them leads to its index.
\<close>

definition ct_cached :: "int list \<Rightarrow> int option list \<Rightarrow> int option list \<Rightarrow> int \<Rightarrow> bool" where
  "ct_cached vs ps ib n \<longleftrightarrow>
     (\<forall>k. 0 \<le> k \<and> k < n \<longrightarrow> js_get ps k = Some (pre vs (k + 1))) \<and>
     (\<forall>k j. 0 \<le> k \<and> k < n \<and> 0 \<le> j \<and> j < vs ! nat k \<longrightarrow> js_get ib (pre vs k + j) = Some k)"

definition ct_vals :: "ConstantTimePrefixSumComputer \<Rightarrow> int list" where
  "ct_vals s = map the (ct_values s)"

definition ct_inv :: "ConstantTimePrefixSumComputer \<Rightarrow> bool" where
  "ct_inv s \<longleftrightarrow>
     None \<notin> set (ct_values s) \<and> -1 \<le> ct_validEndIndex s \<and> ct_validEndIndex s < int (length (ct_values s)) \<and>
     ct_cached (ct_vals s) (ct_prefixSum s) (ct_indexBySum s) (ct_validEndIndex s + 1) \<and>
     (ct_isValid s \<longrightarrow> ct_validEndIndex s = int (length (ct_values s)) - 1 \<and>
        int (length (ct_indexBySum s)) = sum_list (ct_vals s))"

lemma length_ct_vals [simp]: "length (ct_vals s) = length (ct_values s)"
  by (simp add: ct_vals_def)

lemma ct_get_values:
  "None \<notin> set xs \<Longrightarrow> 0 \<le> k \<Longrightarrow> k < int (length xs) \<Longrightarrow> js_get xs k = Some (map the xs ! nat k)"
  by (simp add: js_get_def) (metis nat_less_iff nth_mem option.exhaust_sel)

lemma ct_fill_index_spec:
  assumes "0 \<le> j" "0 \<le> a" "a + v < 2 ^ 32"
  shows "js_get (ct_fill_index ib (Some a) i (Some v) j) k =
     (if a + j \<le> k \<and> k < a + v then Some i else js_get ib k)"
  using assms
proof (induction ib "Some a" i "Some v" j rule: ct_fill_index.induct)
  case (1 ib i j)
  note unfold = ct_fill_index.simps [of ib "Some a" i "Some v" j]
  show ?case
  proof (cases "j < v")
    case True
    then have "js_get (ct_fill_index (js_put ib (a + j) (Some i)) (Some a) i (Some v) (j + 1)) k =
        (if a + (j + 1) \<le> k \<and> k < a + v then Some i else js_get (js_put ib (a + j) (Some i)) k)"
      using 1 by (simp add: js_lt_def js_plus_def)
    with True 1(2-4) show ?thesis by (auto simp: unfold js_lt_def js_plus_def js_get_put)
  qed (auto simp: unfold js_lt_def)
qed

lemma ct_fill_spec:
  assumes "None \<notin> set cells" "vs = map the cells" "ct_ok vs" "ct_cached vs ps ib i" "0 \<le> i"
    "i \<le> int (length cells)" "ct_fill cells ps ib i = (ps', ib')"
  shows "ct_cached vs ps' ib' (int (length cells))"
  using assms
proof (induction cells ps ib i rule: ct_fill.induct)
  case (1 cells ps ib i)
  note unfold = ct_fill.simps [of cells ps ib i]
  show ?case
  proof (cases "i < int (length cells)")
    case True
    have cell: "js_get cells i = Some (vs ! nat i)" using ct_get_values [OF 1(2,6) True] 1(3) by simp
    have above: "(if i > 0 then js_get ps (i - 1) else Some 0) = Some (pre vs i)"
      using 1(5,6) by (auto simp: ct_cached_def)
    note nn = ct_ok_nonneg [OF 1(4)]
    have pre: "pre vs (i + 1) = pre vs i + vs ! nat i" using 1(3,6) True by (simp add: pre_Suc)
    have v: "0 \<le> vs ! nat i" "0 \<le> pre vs i" "pre vs i + vs ! nat i < 2 ^ 32" "i < 2 ^ 32 - 1"
      using nonneg_nth [OF nn 1(6)] pre_nonneg [OF nn] pre_le_total [OF nn, of "i + 1"] 1(3,4) True pre
      by (simp_all add: ct_ok_def)
    let ?ps = "js_put ps i (Some (pre vs (i + 1)))"
    let ?ib = "ct_fill_index ib (Some (pre vs i)) i (Some (vs ! nat i)) 0"
    have eq: "ct_fill cells ps ib i = ct_fill cells ?ps ?ib (i + 1)"
      using True by (subst unfold) (simp add: Let_def cell above js_plus_def pre)
    have low: "pre vs k + j < pre vs i" if "0 \<le> k" "k < i" "j < vs ! nat k" for k j
      using that pre_mono [OF nn, of "k + 1" i] pre_Suc [of k vs] True 1(3) by simp
    have "ct_cached vs ?ps ?ib (i + 1)"
      unfolding ct_cached_def
    proof (intro conjI allI impI)
      fix k assume "0 \<le> k \<and> k < i + 1"
      then show "js_get ?ps k = Some (pre vs (k + 1))"
        using 1(5,6) v(4) by (cases "k = i") (auto simp: js_get_put ct_cached_def)
    next
      fix k j assume k: "0 \<le> k \<and> k < i + 1 \<and> 0 \<le> j \<and> j < vs ! nat k"
      show "js_get ?ib (pre vs k + j) = Some k"
      proof (cases "k = i")
        case True
        with k v show ?thesis by (simp add: ct_fill_index_spec)
      next
        case False
        with k low [of k j] 1(5) v show ?thesis by (simp add: ct_fill_index_spec ct_cached_def)
      qed
    qed
    moreover have "ct_fill cells ?ps ?ib (i + 1) = (ps', ib')" using 1(8) eq by simp
    moreover have "js_plus (Some (pre vs i)) (Some (vs ! nat i)) = Some (pre vs (i + 1))"
      by (simp add: js_plus_def pre)
    moreover have "0 \<le> i + 1" "i + 1 \<le> int (length cells)" using 1(6) True by auto
    ultimately show ?thesis using 1(1) [OF True refl refl, unfolded cell above] 1(2-4) by metis
  next
    case False
    with 1(7) have "i = int (length cells)" by simp
    with 1(5,8) show ?thesis by (simp add: ct_fill.simps)
  qed
qed

lemma ct_ensureValid_spec:
  assumes "ct_inv s" "ct_ok (ct_vals s)"
  shows "\<exists>s'. ConstantTimePrefixSumComputer_ensureValid s = Inr s' \<and> ct_inv s' \<and> ct_isValid s' \<and>
     ct_values s' = ct_values s"
proof (cases "ct_isValid s")
  case True
  with assms show ?thesis by (simp add: ConstantTimePrefixSumComputer_ensureValid_def)
next
  case False
  let ?n = "int (length (ct_values s))" and ?vs = "ct_vals s"
  obtain ps ib where fill: "ct_fill (ct_values s) (ct_prefixSum s) (ct_indexBySum s) (ct_validEndIndex s + 1) = (ps, ib)"
    by (cases "ct_fill (ct_values s) (ct_prefixSum s) (ct_indexBySum s) (ct_validEndIndex s + 1)") simp
  have cached: "ct_cached ?vs ps ib ?n"
    by (rule ct_fill_spec [OF _ _ _ _ _ _ fill]) (use assms in \<open>auto simp: ct_inv_def ct_vals_def\<close>)
  obtain ps' where ps': "js_set_length ps (Some ?n) = Inr ps'"
    using js_set_length_ok [of ?n ps] assms(2) by (auto simp: ct_ok_def)
  have get_ps: "js_get ps' k = Some (pre ?vs (k + 1))" if "0 \<le> k" "k < ?n" for k
    using that cached js_get_set_length [OF ps'] by (simp add: ct_cached_def)
  have total: "(if ?n > 0 then js_get ps' (?n - 1) else Some 0) = Some (sum_list ?vs)"
    using get_ps [of "?n - 1"] by (auto simp: pre_all ct_vals_def)
  note nn = ct_ok_nonneg [OF assms(2)]
  have "0 \<le> sum_list ?vs" "sum_list ?vs < 2 ^ 32"
    using assms(2) by (auto simp: ct_ok_def nonneg_def intro: sum_list_nonneg)
  then obtain ib' where ib': "js_set_length ib (Some (sum_list ?vs)) = Inr ib'" "int (length ib') = sum_list ?vs"
    using js_set_length_ok [of "sum_list ?vs" ib] by auto
  have "pre ?vs k + j < sum_list ?vs" if "0 \<le> k" "k < ?n" "j < ?vs ! nat k" for k j
    using that pre_Suc [of k ?vs] pre_le_total [OF nn, of "k + 1"] by simp
  with cached have "ct_cached ?vs ps' ib' ?n"
    using get_ps js_get_set_length [OF ib'(1)] by (auto simp: ct_cached_def)
  moreover have "ConstantTimePrefixSumComputer_ensureValid s = Inr (s\<lparr>ct_prefixSum := ps', ct_indexBySum := ib',
      ct_isValid := True, ct_validEndIndex := ?n - 1\<rparr>)"
    unfolding ConstantTimePrefixSumComputer_ensureValid_def Let_def fill case_prod_conv ps' bindE_simps total ib'(1)
    using False by simp
  ultimately show ?thesis using ib'(2) assms(1) by (auto simp: ct_inv_def ct_vals_def)
qed

lemma ct_inv_change:
  assumes inv: "ct_inv s" and some: "None \<notin> set vs'" and i: "0 \<le> i" "i \<le> int (length vs')" "i \<le> int (length (ct_values s))"
    and same: "take (nat i) vs' = take (nat i) (ct_values s)"
  shows "ct_inv (ConstantTimePrefixSumComputer_invalidate (s\<lparr>ct_values := vs'\<rparr>) i)"
proof -
  let ?v = "min (ct_validEndIndex s) (i - 1)"
  have pre: "pre (map the vs') k = pre (ct_vals s) k" if "k \<le> i" for k
  proof (rule pre_take_eq)
    have "take (nat k) vs' = take (nat k) (take (nat i) vs')"
      "take (nat k) (ct_values s) = take (nat k) (take (nat i) (ct_values s))"
      using that by (simp_all add: min_def)
    with same show "take (nat k) (map the vs') = take (nat k) (ct_vals s)" by (simp add: ct_vals_def take_map)
  qed
  have nth: "map the vs' ! nat k = ct_vals s ! nat k" if "0 \<le> k" "k < i" for k
    using arg_cong [OF same, of "\<lambda>xs. xs ! nat k"] that i by (simp add: ct_vals_def)
  have "ct_cached (ct_vals s) (ct_prefixSum s) (ct_indexBySum s) (ct_validEndIndex s + 1)"
    using inv by (simp add: ct_inv_def)
  then have "ct_cached (map the vs') (ct_prefixSum s) (ct_indexBySum s) (?v + 1)"
    unfolding ct_cached_def using pre nth by auto
  with inv some i show ?thesis
    by (auto simp: ct_inv_def ct_vals_def ConstantTimePrefixSumComputer_invalidate_def)
qed

lemma ct_prefix_read:
  assumes "ct_inv s" "ct_isValid s" "0 \<le> k" "k \<le> int (length (ct_values s))"
  shows "(if k > 0 then js_get (ct_prefixSum s) (k - 1) else Some 0) = Some (pre (ct_vals s) k)"
  using assms by (auto simp: ct_inv_def ct_cached_def)

lemma ct_getIndexOf_spec:
  assumes "ct_inv s" "ct_ok (ct_vals s)" "0 \<le> x"
  shows "\<exists>s'. ConstantTimePrefixSumComputer_getIndexOf s x =
       Inr ((fst (index_of (ct_vals s) x), Some (snd (index_of (ct_vals s) x))), s') \<and> ct_inv s' \<and>
     ct_values s' = ct_values s"
proof -
  from ct_ensureValid_spec [OF assms(1,2)] obtain s' where s':
    "ConstantTimePrefixSumComputer_ensureValid s = Inr s'" "ct_inv s'" "ct_isValid s'" "ct_values s' = ct_values s" by blast
  let ?n = "int (length (ct_values s))" and ?vs = "ct_vals s"
  have vals: "ct_vals s' = ?vs" using s'(4) by (simp add: ct_vals_def)
  have cached: "ct_cached ?vs (ct_prefixSum s') (ct_indexBySum s') ?n"
    and len: "int (length (ct_indexBySum s')) = sum_list ?vs"
    using s' vals by (auto simp: ct_inv_def)
  show ?thesis
  proof (cases "ct_values s = []")
    case True
    then have "js_get (ct_indexBySum s') x = None" using len by (intro js_get_outside) (simp add: ct_vals_def assms(3))
    with True s' show ?thesis
      by (simp add: ConstantTimePrefixSumComputer_getIndexOf_def ct_vals_def js_minus_def)
  next
    case False
    then have "?vs \<noteq> []" by (simp add: ct_vals_def)
    from index_of_bounds [OF ct_ok_nonneg [OF assms(2)] assms(3) this] obtain i where i: "index_of ?vs x = (i, x - pre ?vs i)"
      "0 \<le> i" "i < int (length ?vs)" "pre ?vs i \<le> x" "x < pre ?vs (i + 1) \<or> i + 1 = int (length ?vs)" by blast
    have read: "(if i > 0 then js_get (ct_prefixSum s') (i - 1) else Some 0) = Some (pre ?vs i)"
      using ct_prefix_read [OF s'(2,3), of i] i(2,3) vals s'(4) by simp
    show ?thesis
    proof (cases "x < pre ?vs (i + 1)")
      case True
      then have "x - pre ?vs i < ?vs ! nat i" using i(2,3) pre_Suc [of i ?vs] by simp
      moreover have "0 \<le> x - pre ?vs i" "i < ?n" using i(3,4) by simp_all
      ultimately have "js_get (ct_indexBySum s') (pre ?vs i + (x - pre ?vs i)) = Some i"
        using cached i(2) unfolding ct_cached_def by blast
      then have "js_get (ct_indexBySum s') x = Some i" by simp
      with s' read i(1) show ?thesis
        by (simp add: ConstantTimePrefixSumComputer_getIndexOf_def Let_def js_minus_def del: if_splits)
    next
      case False
      with i(5) have n: "i + 1 = ?n" by simp
      with False have "sum_list ?vs \<le> x" by (simp add: pre_all)
      then have "js_get (ct_indexBySum s') x = None" using len by (intro js_get_outside) simp
      moreover have "max 0 (int (length (ct_values s')) - 1) = i" using n i(2) s'(4) by simp
      ultimately show ?thesis using s' read i(1)
        by (simp only: ConstantTimePrefixSumComputer_getIndexOf_def Let_def bindE_simps option.case)
           (simp add: js_minus_def)
    qed
  qed
qed

subsection \<open>The contract\<close>

fun ct_step :: "ConstantTimePrefixSumComputer \<Rightarrow> psum_op \<Rightarrow> js_error + psum_result \<times> ConstantTimePrefixSumComputer" where
  "ct_step s (PS_insert i ws) = Inr (PS_done, ConstantTimePrefixSumComputer_insertValues s i (map Some ws))"
| "ct_step s (PS_set i v) = Inr (PS_done, ConstantTimePrefixSumComputer_setValue s i v)"
| "ct_step s (PS_remove i k) = Inr (PS_done, ConstantTimePrefixSumComputer_removeValues s i k)"
| "ct_step s PS_total =
     bindE (ConstantTimePrefixSumComputer_getTotalSum s) (\<lambda>(r, s'). psum_answer (Some r, s'))"
| "ct_step s (PS_prefix k) = bindE (ConstantTimePrefixSumComputer_getPrefixSum s k) psum_answer"
| "ct_step s (PS_index_of x) = bindE (ConstantTimePrefixSumComputer_getIndexOf s x) psum_index_answer"

lemma ct_step_refines:
  assumes "ct_inv s" "ct_ok (ct_vals s)" "psum_legal (ct_vals s) a" "ct_ok (snd (psum_spec (ct_vals s) a))"
  shows "\<exists>s'. ct_step s a = Inr (fst (psum_spec (ct_vals s) a), s') \<and> ct_inv s' \<and>
     ct_vals s' = snd (psum_spec (ct_vals s) a)"
proof (cases a)
  case (PS_insert i ws)
  let ?vs' = "take (nat i) (ct_values s) @ map Some ws @ drop (nat i) (ct_values s)"
  from assms(3) PS_insert have i: "0 \<le> i" "i \<le> int (length (ct_values s))" by simp_all
  have "arrayInsert (ct_values s) i (map Some ws) = ?vs'"
    using i by (simp add: arrayInsert_def js_slice_take js_slice_drop)
  then have eq: "ConstantTimePrefixSumComputer_insertValues s i (map Some ws) =
      ConstantTimePrefixSumComputer_invalidate (s\<lparr>ct_values := ?vs'\<rparr>) i"
    by (simp add: ConstantTimePrefixSumComputer_insertValues_def)
  have "None \<notin> set ?vs'" using assms(1) by (auto simp: ct_inv_def dest: in_set_takeD in_set_dropD)
  then have "ct_inv (ConstantTimePrefixSumComputer_invalidate (s\<lparr>ct_values := ?vs'\<rparr>) i)"
    using i by (intro ct_inv_change [OF assms(1)]) auto
  moreover have "map (the \<circ> Some) ws = ws" by (simp add: comp_def)
  ultimately show ?thesis using PS_insert
    by (simp add: eq ConstantTimePrefixSumComputer_invalidate_def ct_vals_def take_map drop_map)
next
  case (PS_set i v)
  from assms(3) PS_set have i: "0 \<le> i" "i < int (length (ct_values s))" by simp_all
  show ?thesis
  proof (cases "js_get (ct_values s) i = Some v")
    case True
    then have "ct_vals s ! nat i = v" using i by (simp add: js_get_def ct_vals_def)
    then have "(ct_vals s)[nat i := v] = ct_vals s" by (metis list_update_id)
    with True assms(1) PS_set show ?thesis by (simp add: ConstantTimePrefixSumComputer_setValue_def)
  next
    case False
    let ?vs' = "(ct_values s)[nat i := Some v]"
    have put: "js_put (ct_values s) i (Some v) = ?vs'" using i assms(2) by (simp add: js_put_def ct_ok_def)
    have "None \<notin> set ?vs'" using assms(1) set_update_subset_insert [of "ct_values s" "nat i" "Some v"]
      by (auto simp: ct_inv_def)
    then have "ct_inv (ConstantTimePrefixSumComputer_invalidate (s\<lparr>ct_values := ?vs'\<rparr>) i)"
      using i by (intro ct_inv_change [OF assms(1)]) auto
    then show ?thesis using PS_set False
      by (simp add: ConstantTimePrefixSumComputer_setValue_def put ConstantTimePrefixSumComputer_invalidate_def
          ct_vals_def map_update)
  qed
next
  case (PS_remove i k)
  let ?vs' = "take (nat i) (ct_values s) @ drop (nat (i + k)) (ct_values s)"
  from assms(3) PS_remove have i: "0 \<le> i" "0 \<le> k" "i + k \<le> int (length (ct_values s))" by simp_all
  then have del: "js_splice_delete (ct_values s) i k = ?vs'" by (simp add: js_splice_delete_def Let_def)
  have "None \<notin> set ?vs'" using assms(1) by (auto simp: ct_inv_def dest: in_set_takeD in_set_dropD)
  then have "ct_inv (ConstantTimePrefixSumComputer_invalidate (s\<lparr>ct_values := ?vs'\<rparr>) i)"
    using i by (intro ct_inv_change [OF assms(1)]) auto
  with PS_remove show ?thesis
    by (simp add: ConstantTimePrefixSumComputer_removeValues_def del ConstantTimePrefixSumComputer_invalidate_def
        ct_vals_def take_map drop_map)
next
  case PS_total
  from ct_ensureValid_spec [OF assms(1,2)] PS_total show ?thesis
    by (auto simp: ConstantTimePrefixSumComputer_getTotalSum_def ct_inv_def ct_vals_def)
next
  case (PS_prefix k)
  with assms(3) have k: "0 \<le> k" "k \<le> int (length (ct_values s))" by simp_all
  from ct_ensureValid_spec [OF assms(1,2)] obtain s' where s':
    "ConstantTimePrefixSumComputer_ensureValid s = Inr s'" "ct_inv s'" "ct_isValid s'" "ct_values s' = ct_values s" by blast
  moreover have "(if k = 0 then Some 0 else js_get (ct_prefixSum s') (k - 1)) = Some (pre (ct_vals s') k)"
    using ct_prefix_read [OF s'(2,3), of k] k s'(4) by auto
  ultimately show ?thesis using PS_prefix
    by (simp add: ConstantTimePrefixSumComputer_getPrefixSum_def ct_vals_def)
next
  case (PS_index_of x)
  with assms(3) have "0 \<le> x" by simp
  from ct_getIndexOf_spec [OF assms(1,2) this] PS_index_of show ?thesis by (auto simp: ct_vals_def)
qed

interpretation ctp: psum_machine ct_step ct_inv ct_vals ct_ok
  by unfold_locales (rule ct_step_refines)

lemma ct_new_inv: "ct_inv (ConstantTimePrefixSumComputer_new (map Some numbers))"
  by (auto simp: ct_inv_def ConstantTimePrefixSumComputer_new_def ct_cached_def)

text \<open>
  C17. \<open>ConstantTimePrefixSumComputer\<close> implements the contract of the prefix sum computers. From any
  list of numbers that are not negative, every sequence of insertions, assignments, removals and
  queries with indices in range gets the answers that plain sums give, no step throws, and its table
  never answers for numbers that have changed, as long as the sums are below \<open>2 ^ 32\<close>: the table has an
  element for each unit of the sum, and an array has less than \<open>2 ^ 32\<close>. It is interchangeable with
  \<open>PrefixSumComputer\<close>: the same operations give the same answers (there are less than \<open>2 ^ 31\<close> numbers then).
\<close>

theorem ConstantTimePrefixSumComputer_refines:
  assumes "ct_ok numbers" "psum_legal_run ct_ok numbers ops"
  shows "(machine_run ct_step (ConstantTimePrefixSumComputer_new (map Some numbers)) ops = Inr (psum_spec_run numbers ops)) \<and>
    (psc_ok numbers \<and> psum_legal_run psc_ok numbers ops \<longrightarrow>
         machine_run ct_step (ConstantTimePrefixSumComputer_new (map Some numbers)) ops =
         machine_run psc_step (PrefixSumComputer_new (map word_of_int numbers)) ops)"
proof -
  have "ct_vals (ConstantTimePrefixSumComputer_new (map Some numbers)) = numbers"
    by (simp add: ct_vals_def ConstantTimePrefixSumComputer_new_def comp_def)
  with ctp.run_refines [OF ct_new_inv, of numbers ops] assms
  have c1: "machine_run ct_step (ConstantTimePrefixSumComputer_new (map Some numbers)) ops = Inr (psum_spec_run numbers ops)"
    by simp
  have c2: "psc_ok numbers \<and> psum_legal_run psc_ok numbers ops \<longrightarrow>
         machine_run ct_step (ConstantTimePrefixSumComputer_new (map Some numbers)) ops =
         machine_run psc_step (PrefixSumComputer_new (map word_of_int numbers)) ops"
  proof
    assume ok: "psc_ok numbers \<and> psum_legal_run psc_ok numbers ops"
    let ?w = "map word_of_int numbers :: 32 word list"
    have w: "map uint ?w = numbers"
      by (rule map_uint_word_of_int) (use ok psc_ok_bound in blast)
    then have "psc_vals (PrefixSumComputer_new ?w) = numbers"
      by (simp add: psc_vals_def PrefixSumComputer_new_def)
    with psc.run_refines [OF psc_new_inv, of ?w ops] ok c1 show
      "machine_run ct_step (ConstantTimePrefixSumComputer_new (map Some numbers)) ops =
       machine_run psc_step (PrefixSumComputer_new ?w) ops" by simp
  qed
  show ?thesis by (rule conjI [OF c1 c2])
qed

theorem ConstantTimePrefixSumComputer_refines_witness:
  "(let ops = [PS_index_of 5, PS_set 0 0, PS_index_of 0, PS_insert 3 [1, 1], PS_total, PS_remove 1 1, PS_prefix 3]
    in machine_run ct_step (ConstantTimePrefixSumComputer_new (map Some [4, 2, 7])) ops =
       Inr [PS_index 1 1, PS_done, PS_index 1 0, PS_done, PS_sum 11, PS_done, PS_sum 8])"
proof -
  let ?ops = "[PS_index_of 5, PS_set 0 0, PS_index_of 0, PS_insert 3 [1, 1], PS_total, PS_remove 1 1, PS_prefix 3]"
  have "ct_ok [4, 2, 7]" "psum_legal_run ct_ok [4, 2, 7] ?ops" by (simp_all add: ct_ok_def nonneg_def)
  note claim = ConstantTimePrefixSumComputer_refines [OF this, THEN conjunct1]
  show ?thesis unfolding Let_def claim by (simp add: pre_def)
qed

end
