(* ===== verification/Sorted_Diff.thy ===== *)
theory Sorted_Diff
  imports Arrays_Find
begin

text \<open>
  \<open>sortedDiff\<close> and \<open>delta\<close> of \<open>src/vs/base/common/arrays.ts\<close>: the splices that turn
  one sorted array into another.
\<close>

record 'a ISplice =
  sp_start :: nat
  sp_deleteCount :: nat
  sp_toInsert :: "'a list"

definition pushSplice :: "'a ISplice list \<Rightarrow> nat \<Rightarrow> nat \<Rightarrow> 'a list \<Rightarrow> 'a ISplice list" where
  "pushSplice result start deleteCount toInsert =
     (if deleteCount = 0 \<and> length toInsert = 0 then result
      else if result \<noteq> [] \<and> sp_start (last result) + sp_deleteCount (last result) = start then
        let latest = last result
        in butlast result @ [latest\<lparr>sp_deleteCount := sp_deleteCount latest + deleteCount,
                                    sp_toInsert := sp_toInsert latest @ toInsert\<rparr>]
      else result @ [\<lparr>sp_start = start, sp_deleteCount = deleteCount, sp_toInsert = toInsert\<rparr>])"

text \<open>
  A comparison is \<open>None\<close> when it is not a number. None of the tests of the loop holds of it, so the loop goes on
  with the same indices, for ever: the result is \<open>None\<close>.
\<close>

type_synonym 'a nan_cmp = "'a \<Rightarrow> 'a \<Rightarrow> int option"

partial_function (option) sortedDiff_loop ::
    "'a list \<Rightarrow> 'a list \<Rightarrow> 'a nan_cmp \<Rightarrow> nat \<Rightarrow> nat \<Rightarrow> 'a ISplice list \<Rightarrow> 'a ISplice list option" where
  "sortedDiff_loop before after compare beforeIdx afterIdx result =
     (if beforeIdx \<ge> length before then Some (pushSplice result beforeIdx 0 (drop afterIdx after))
      else if afterIdx \<ge> length after then
        Some (pushSplice result beforeIdx (length before - beforeIdx) [])
      else
        let beforeElement = before ! beforeIdx; afterElement = after ! afterIdx
        in case compare beforeElement afterElement of
             None \<Rightarrow> sortedDiff_loop before after compare beforeIdx afterIdx result
           | Some n \<Rightarrow>
               if n = 0 then sortedDiff_loop before after compare (beforeIdx + 1) (afterIdx + 1) result
               else if n < 0 then
                 sortedDiff_loop before after compare (beforeIdx + 1) afterIdx (pushSplice result beforeIdx 1 [])
               else
                 sortedDiff_loop before after compare beforeIdx (afterIdx + 1)
                   (pushSplice result beforeIdx 0 [afterElement]))"

definition sortedDiff :: "'a list \<Rightarrow> 'a list \<Rightarrow> 'a nan_cmp \<Rightarrow> 'a ISplice list option" where
  "sortedDiff before after compare = sortedDiff_loop before after compare 0 0 []"

definition delta :: "'a list \<Rightarrow> 'a list \<Rightarrow> 'a nan_cmp \<Rightarrow> ('a list \<times> 'a list) option" where
  "delta before after compare =
     map_option (foldl (\<lambda>(removed, added) splice.
        (removed @ js_slice before (int (sp_start splice)) (int (sp_start splice + sp_deleteCount splice)),
         added @ sp_toInsert splice))
       ([], [])) (sortedDiff before after compare)"

subsection \<open>Applying splices\<close>

text \<open>
  The starts of the splices refer to the original array, so they are applied from the last one to the
  first. They are in order, keep an element between two of them, and none is without effect.
\<close>

definition patched :: "'a list \<Rightarrow> 'a ISplice list \<Rightarrow> 'a list" where
  "patched xs ss = foldr (\<lambda>s ys. js_splice ys (sp_start s) (sp_deleteCount s) (sp_toInsert s)) ss xs"

definition splices_ok :: "nat \<Rightarrow> 'a ISplice list \<Rightarrow> bool" where
  "splices_ok n ss \<longleftrightarrow>
     sorted_wrt (\<lambda>s t. sp_start s + sp_deleteCount s < sp_start t) ss \<and>
     (\<forall>s \<in> set ss. (sp_deleteCount s \<noteq> 0 \<or> sp_toInsert s \<noteq> []) \<and> sp_start s + sp_deleteCount s \<le> n)"

lemma splices_ok_mono: "splices_ok n ss \<Longrightarrow> n \<le> m \<Longrightarrow> splices_ok m ss"
  by (auto simp: splices_ok_def)

lemma splices_ok_snoc:
  "splices_ok n (ss @ [s]) \<longleftrightarrow>
     splices_ok (sp_start s) ss \<and> (\<forall>t \<in> set ss. sp_start t + sp_deleteCount t < sp_start s) \<and>
     (sp_deleteCount s \<noteq> 0 \<or> sp_toInsert s \<noteq> []) \<and> sp_start s + sp_deleteCount s \<le> n"
  by (fastforce simp: splices_ok_def sorted_wrt_append)

lemma patched_snoc:
  "patched xs (ss @ [s]) = patched (js_splice xs (sp_start s) (sp_deleteCount s) (sp_toInsert s)) ss"
  by (simp add: patched_def)

lemma patched_append:
  "splices_ok (length ys) ss \<Longrightarrow> patched (ys @ zs) ss = patched ys ss @ zs"
proof (induction ss arbitrary: ys zs rule: rev_induct)
  case Nil
  then show ?case by (simp add: patched_def)
next
  case (snoc s ss)
  let ?ys = "take (sp_start s) ys @ sp_toInsert s @ drop (sp_start s + sp_deleteCount s) ys"
  from snoc.prems have ok: "splices_ok (sp_start s) ss" "sp_start s + sp_deleteCount s \<le> length ys"
    by (simp_all add: splices_ok_snoc)
  then have "splices_ok (length ?ys) ss" by (auto intro: splices_ok_mono)
  with snoc.IH [of ?ys zs] ok(2) show ?case by (simp add: patched_snoc js_splice_def)
qed

lemma pushSplice_merge:
  "ss = ss' @ [s] \<Longrightarrow> sp_start s + sp_deleteCount s = i \<Longrightarrow> \<not> (d = 0 \<and> ins = []) \<Longrightarrow>
   pushSplice ss i d ins =
     ss' @ [s\<lparr>sp_deleteCount := sp_deleteCount s + d, sp_toInsert := sp_toInsert s @ ins\<rparr>]"
  by (simp add: pushSplice_def Let_def)

lemma pushSplice_cases:
  assumes "splices_ok i ss"
  obtains "d = 0" "ins = []" "pushSplice ss i d ins = ss"
  | ss' s where "ss = ss' @ [s]" "sp_start s + sp_deleteCount s = i" "d \<noteq> 0 \<or> ins \<noteq> []"
      "pushSplice ss i d ins =
         ss' @ [s\<lparr>sp_deleteCount := sp_deleteCount s + d, sp_toInsert := sp_toInsert s @ ins\<rparr>]"
  | "d \<noteq> 0 \<or> ins \<noteq> []" "\<forall>t \<in> set ss. sp_start t + sp_deleteCount t < i"
      "pushSplice ss i d ins = ss @ [\<lparr>sp_start = i, sp_deleteCount = d, sp_toInsert = ins\<rparr>]"
proof (cases "d = 0 \<and> ins = []")
  case True
  then show ?thesis by (intro that(1)) (simp_all add: pushSplice_def)
next
  case nz: False
  show ?thesis
  proof (cases ss rule: rev_cases)
    case Nil
    with nz show ?thesis by (intro that(3)) (auto simp: pushSplice_def)
  next
    case (snoc ss' s)
    show ?thesis
    proof (cases "sp_start s + sp_deleteCount s = i")
      case True
      with nz snoc show ?thesis by (intro that(2) [OF snoc]) (auto simp: pushSplice_merge)
    next
      case False
      have "sp_start s + sp_deleteCount s < i" "\<forall>t \<in> set ss'. sp_start t + sp_deleteCount t < sp_start s"
        using assms False unfolding snoc splices_ok_snoc by auto
      then have "\<forall>t \<in> set ss. sp_start t + sp_deleteCount t < i" unfolding snoc by auto
      with nz False snoc show ?thesis by (intro that(3)) (auto simp: pushSplice_def)
    qed
  qed
qed

lemma pushSplice_ok:
  assumes "splices_ok i ss"
  shows "splices_ok (i + d) (pushSplice ss i d ins)"
  using assms
proof (cases rule: pushSplice_cases [where d = d and ins = ins])
  case 1
  with assms show ?thesis by simp
next
  case (2 ss' s)
  with assms show ?thesis by (auto simp: splices_ok_snoc)
next
  case 3
  with assms show ?thesis by (auto simp: splices_ok_snoc)
qed

lemma pushSplice_patched:
  assumes "splices_ok (length xs) ss"
  shows "patched (xs @ ds) (pushSplice ss (length xs) (length ds) ins) = patched xs ss @ ins"
  using assms
proof (cases rule: pushSplice_cases [where d = "length ds" and ins = ins])
  case 1
  then show ?thesis by simp
next
  case (2 ss' s)
  have s: "splices_ok (sp_start s) ss'" "sp_start s \<le> length xs"
    using assms 2(1,2) by (auto simp: splices_ok_snoc)
  have e: "drop (sp_start s + sp_deleteCount s) xs = []" using 2(2) by simp
  have "splices_ok (length (take (sp_start s) xs @ sp_toInsert s)) ss'"
    using s by (auto intro: splices_ok_mono)
  from patched_append [OF this, of ins]
  have "patched (take (sp_start s) xs @ sp_toInsert s @ ins) ss' = patched (take (sp_start s) xs @ sp_toInsert s) ss' @ ins"
    by simp
  moreover have "js_splice (xs @ ds) (sp_start s) (sp_deleteCount s + length ds) (sp_toInsert s @ ins) =
      take (sp_start s) xs @ sp_toInsert s @ ins"
    using s(2) 2(2) by (simp add: js_splice_def)
  moreover have "patched xs ss = patched (take (sp_start s) xs @ sp_toInsert s) ss'"
    unfolding 2(1) patched_snoc by (simp add: js_splice_def e)
  ultimately show ?thesis unfolding 2(4) patched_snoc by simp
next
  case 3
  have "js_splice (xs @ ds) (length xs) (length ds) ins = xs @ ins" by (simp add: js_splice_def)
  then show ?thesis unfolding 3(3) patched_snoc using patched_append [OF assms, of ins] by simp
qed

subsection \<open>The loop\<close>

definition diff_inv :: "'a list \<Rightarrow> 'a list \<Rightarrow> 'a nan_cmp \<Rightarrow> nat \<Rightarrow> nat \<Rightarrow> 'a ISplice list \<Rightarrow> bool" where
  "diff_inv before after c i j ss \<longleftrightarrow>
     i \<le> length before \<and> j \<le> length after \<and> splices_ok i ss \<and>
     list_all2 (\<lambda>x y. x = y \<or> c x y = Some 0) (patched (take i before) ss) (take j after)"

lemma diff_inv_push:
  assumes "diff_inv before after c i j ss" "i + d \<le> length before" "j + k \<le> length after"
  shows "diff_inv before after c (i + d) (j + k) (pushSplice ss i d (take k (drop j after)))"
proof -
  let ?ins = "take k (drop j after)"
  have i: "length (take i before) = i" "splices_ok (length (take i before)) ss"
    using assms(1) by (simp_all add: diff_inv_def)
  have "take (i + d) before = take i before @ take d (drop i before)" by (rule take_add)
  moreover have "length (take d (drop i before)) = d" using assms(2) by simp
  ultimately have "patched (take (i + d) before) (pushSplice ss i d ?ins) = patched (take i before) ss @ ?ins"
    using pushSplice_patched [OF i(2), of "take d (drop i before)" ?ins] i(1) by simp
  moreover have "take (j + k) after = take j after @ ?ins" by (rule take_add)
  ultimately show ?thesis using assms pushSplice_ok [of i ss d ?ins]
    by (auto simp: diff_inv_def intro!: list_all2_appendI list_all2_refl)
qed

lemma diff_inv_keep:
  assumes "diff_inv before after c i j ss" "i < length before" "j < length after" "c (before ! i) (after ! j) = Some 0"
  shows "diff_inv before after c (i + 1) (j + 1) ss"
proof -
  have "splices_ok (length (take i before)) ss" using assms(1) by (simp add: diff_inv_def)
  from patched_append [OF this, of "[before ! i]"] assms show ?thesis
    by (auto simp: diff_inv_def take_Suc_conv_app_nth intro!: list_all2_appendI intro: splices_ok_mono)
qed

lemma diff_inv_ends:
  assumes "diff_inv before after c i j ss"
  shows "i \<ge> length before \<Longrightarrow> diff_inv before after c (length before) (length after) (pushSplice ss i 0 (drop j after))"
    and "j \<ge> length after \<Longrightarrow> diff_inv before after c (length before) (length after) (pushSplice ss i (length before - i) [])"
proof -
  from assms have le: "i \<le> length before" "j \<le> length after" by (simp_all add: diff_inv_def)
  show "diff_inv before after c (length before) (length after) (pushSplice ss i 0 (drop j after))" if "i \<ge> length before"
    using diff_inv_push [OF assms, of 0 "length after - j"] le that by simp
  show "diff_inv before after c (length before) (length after) (pushSplice ss i (length before - i) [])" if "j \<ge> length after"
    using diff_inv_push [OF assms, of "length before - i" 0] le that by simp
qed

lemma diff_inv_insert:
  "diff_inv before after c i j ss \<Longrightarrow> i < length before \<Longrightarrow> j < length after \<Longrightarrow>
   diff_inv before after c i (j + 1) (pushSplice ss i 0 [after ! j])"
  using diff_inv_push [of before after c i j ss 0 1] by (simp add: take_Suc hd_drop_conv_nth)

lemma sortedDiff_loop_inv:
  assumes "sortedDiff_loop before after c i j ss = Some ss'" and "diff_inv before after c i j ss"
  shows "diff_inv before after c (length before) (length after) ss'"
proof -
  let ?P = "\<lambda>before after c i j ss ss'. diff_inv before after c i j ss \<longrightarrow> diff_inv before after c (length before) (length after) ss'"
  have "?P before after c i j ss ss'"
  proof (rule sortedDiff_loop.raw_induct [where P = ?P, OF _ assms(1)], intro impI)
    fix loop before after c i j ss ss'
    assume IH: "\<And>before after c i j ss ss'. loop before after c i j ss = Some ss' \<Longrightarrow>
        diff_inv before after c i j ss \<longrightarrow> diff_inv before after c (length before) (length after) ss'"
      and body: "(if length before \<le> i then Some (pushSplice ss i 0 (drop j after))
        else if length after \<le> j then Some (pushSplice ss i (length before - i) [])
        else let beforeElement = before ! i; afterElement = after ! j
             in case c beforeElement afterElement of None \<Rightarrow> loop before after c i j ss
                | Some n \<Rightarrow> if n = 0 then loop before after c (i + 1) (j + 1) ss
                    else if n < 0 then loop before after c (i + 1) j (pushSplice ss i 1 [])
                    else loop before after c i (j + 1) (pushSplice ss i 0 [afterElement])) = Some ss'"
      and inv: "diff_inv before after c i j ss"
    consider "length before \<le> i" | "i < length before" "length after \<le> j" | "i < length before" "j < length after" by linarith
    then show "diff_inv before after c (length before) (length after) ss'"
    proof cases
      case 3
      have 4: "diff_inv before after c (i + 1) j (pushSplice ss i 1 [])" using diff_inv_push [OF inv, of 1 0] 3 by simp
      note next_inv = inv diff_inv_keep [OF inv 3] 4 diff_inv_insert [OF inv 3]
      from body 3 show ?thesis using IH next_inv by (auto simp: Let_def split: option.splits if_splits)
    qed (use body diff_inv_ends [OF inv] in auto)
  qed
  with assms(2) show ?thesis by blast
qed

text \<open>When all comparisons are numbers, the loop ends.\<close>

lemma sortedDiff_loop_returns:
  assumes "\<forall>x \<in> set before. \<forall>y \<in> set after. c x y \<noteq> None"
  shows "\<exists>ss'. sortedDiff_loop before after c i j ss = Some ss'"
proof (induction "(length before - i) + (length after - j)" arbitrary: i j ss rule: less_induct)
  case less
  note unfold = sortedDiff_loop.simps [of before after c i j ss]
  show ?case
  proof (cases "i < length before \<and> j < length after")
    case True
    with assms obtain n where "c (before ! i) (after ! j) = Some n" by fastforce
    moreover have "(length before - (i + 1)) + (length after - (j + 1)) < (length before - i) + (length after - j)"
      "(length before - (i + 1)) + (length after - j) < (length before - i) + (length after - j)"
      "(length before - i) + (length after - (j + 1)) < (length before - i) + (length after - j)"
      using True by linarith+
    note this [THEN less]
    ultimately show ?thesis using True by (simp add: unfold)
  next
    case False
    then show ?thesis by (auto simp: unfold)
  qed
qed

text \<open>
  C18. \<open>sortedDiff\<close> returns when every comparison of an element of the first array with one of the second is a
  number. Whenever it returns, whatever the comparator, the splices are in order, inside the first array, never empty and never
  adjacent, and applying them, last first, with the \<open>splice\<close> of the language gives an array of
  the length of the second in which every element is the one of the second array or compares equal to
  it; if only equal elements compare equal it is the second array.
\<close>

theorem sortedDiff_correct:
  "((\<forall>x \<in> set before. \<forall>y \<in> set after. compare x y \<noteq> None) \<longrightarrow> sortedDiff before after compare \<noteq> None) \<and>
   (\<forall>ss. sortedDiff before after compare = Some ss \<longrightarrow>
      splices_ok (length before) ss \<and>
      list_all2 (\<lambda>x y. x = y \<or> compare x y = Some 0) (patched before ss) after \<and>
      ((\<forall>x \<in> set (patched before ss). \<forall>y \<in> set after. compare x y = Some 0 \<longrightarrow> x = y) \<longrightarrow> patched before ss = after))"
proof -
  have inv: "splices_ok (length before) ss" "list_all2 (\<lambda>x y. x = y \<or> compare x y = Some 0) (patched before ss) after"
    if "sortedDiff before after compare = Some ss" for ss
  proof -
    have "diff_inv before after compare 0 0 []" by (simp add: diff_inv_def splices_ok_def patched_def)
    from sortedDiff_loop_inv [OF that [unfolded sortedDiff_def] this] show "splices_ok (length before) ss"
      "list_all2 (\<lambda>x y. x = y \<or> compare x y = Some 0) (patched before ss) after" by (simp_all add: diff_inv_def)
  qed
  have same: "xs = ys" if "list_all2 (\<lambda>x y. x = y \<or> compare x y = Some 0) xs ys"
    "\<forall>x \<in> set xs. \<forall>y \<in> set ys. compare x y = Some 0 \<longrightarrow> x = y" for xs ys
    using that by (induction rule: list_all2_induct) auto
  have "sortedDiff before after compare \<noteq> None" if "\<forall>x \<in> set before. \<forall>y \<in> set after. compare x y \<noteq> None"
    using sortedDiff_loop_returns [OF that, of 0 0 "[]"] by (auto simp: sortedDiff_def)
  then show ?thesis using inv same by blast
qed

theorem sortedDiff_correct_witness:
  "\<exists>ss. sortedDiff [1, 2, 4, 7] [2, 3, 4, 8, 9] (\<lambda>x y. Some (numberComparator x y)) = Some ss \<and>
     patched [1, 2, 4, 7] ss = [2, 3, 4, 8, 9]"
proof -
  let ?c = "\<lambda>x y. Some (numberComparator x y)"
  note claim = sortedDiff_correct [of "[1, 2, 4, 7]" "[2, 3, 4, 8, 9]" ?c]
  then obtain ss where ss: "sortedDiff [1, 2, 4, 7] [2, 3, 4, 8, 9] ?c = Some ss" by auto
  have "\<forall>x \<in> set result. \<forall>y \<in> set after. ?c x y = Some 0 \<longrightarrow> x = y" for result after
    by (simp add: numberComparator_def)
  with claim ss show ?thesis by blast
qed

text \<open>A comparison that is not a number is repeated for ever.\<close>

lemma sortedDiff_nan:
  fixes c :: "'a nan_cmp"
  assumes nan: "c x y = None"
  shows "sortedDiff (x # xs) (y # ys) c = None"
proof -
  let ?P = "\<lambda>before after d (i :: nat) (j :: nat) (ss :: 'a ISplice list) (ss' :: 'a ISplice list).
    \<not> (before = x # xs \<and> after = y # ys \<and> d = c \<and> i = 0 \<and> j = 0)"
  have "False" if "sortedDiff_loop (x # xs) (y # ys) c 0 0 ss = Some ss'" for ss ss'
  proof -
    have "?P (x # xs) (y # ys) c 0 0 ss ss'"
    proof (rule sortedDiff_loop.raw_induct [where P = ?P, OF _ that], rule notI, goal_cases)
      case (1 f before after d i j ss ss')
      then have "f before after d i j ss = Some ss'" using nan by simp
      with 1(1,3) show False by blast
    qed
    then show False by simp
  qed
  then show ?thesis unfolding sortedDiff_def by (metis option.exhaust)
qed

end
