(* ===== verification/Array_Select.thy ===== *)
theory Array_Select
  imports Arrays_Find "HOL-Library.Multiset"
begin

text \<open>
  Selection and search in the arrays of \<open>src/vs/base/common/arrays.ts\<close>: \<open>binarySearch\<close>,
  \<open>quickSelect\<close>, \<open>groupBy\<close>, \<open>top\<close> and \<open>topAsync\<close>.

  Three of the loops need not end for every argument (a comparator for which an element differs from
  itself, a negative rank, a batch size of 0), so they are \<open>partial_function (option)\<close>: \<open>None\<close>
  is a call that does not return. \<open>Math.floor(n * Math.random())\<close> is the parameter \<open>random n\<close>: the
  calls of one run are on arrays of different lengths, so one index per length covers every run.
\<close>

subsection \<open>Sorting in the language\<close>

text \<open>\<open>Array.prototype.sort\<close> is stable: an element goes behind the equal ones before it.\<close>

definition sort_insert :: "'a cmp \<Rightarrow> 'a \<Rightarrow> 'a list \<Rightarrow> 'a list" where
  "sort_insert compare x xs =
     takeWhile (\<lambda>y. compare y x \<le> 0) xs @ x # dropWhile (\<lambda>y. compare y x \<le> 0) xs"

definition js_sort :: "'a cmp \<Rightarrow> 'a list \<Rightarrow> 'a list" where
  "js_sort compare xs = foldl (\<lambda>ys x. sort_insert compare x ys) [] xs"

lemma js_sort_simps [simp]:
  "js_sort c [] = []"
  "js_sort c (xs @ [x]) = sort_insert c x (js_sort c xs)"
  by (simp_all add: js_sort_def)

lemma mset_sort_insert [simp]: "mset (sort_insert c x xs) = add_mset x (mset xs)"
proof -
  have "mset xs = mset (takeWhile (\<lambda>y. c y x \<le> 0) xs) + mset (dropWhile (\<lambda>y. c y x \<le> 0) xs)"
    by (metis mset_append takeWhile_dropWhile_id)
  then show ?thesis by (simp add: sort_insert_def)
qed

lemma mset_js_sort [simp]: "mset (js_sort c xs) = mset xs"
  by (induction xs rule: rev_induct) simp_all

lemma length_js_sort [simp]: "length (js_sort c xs) = length xs"
  by (rule mset_eq_length) simp

lemma set_js_sort [simp]: "set (js_sort c xs) = set xs"
  by (rule mset_eq_setD) simp

definition sorted_by :: "'a cmp \<Rightarrow> 'a list \<Rightarrow> bool" where
  "sorted_by c xs \<longleftrightarrow> sorted_wrt (\<lambda>x y. c x y \<le> 0) xs"

lemma sorted_by_append:
  "sorted_by c (xs @ ys) \<longleftrightarrow> sorted_by c xs \<and> sorted_by c ys \<and> (\<forall>x \<in> set xs. \<forall>y \<in> set ys. c x y \<le> 0)"
  by (simp add: sorted_by_def sorted_wrt_append)

lemma sorted_by_take: "sorted_by c xs \<Longrightarrow> sorted_by c (take n xs)"
  by (simp add: sorted_by_def sorted_wrt_take)

context comparator
begin

lemma sorted_dropWhile:
  assumes "sorted_by c xs" and "y \<in> set (dropWhile (\<lambda>y. c y x \<le> 0) xs)"
  shows "0 < c y x"
  using assms
proof (induction xs)
  case (Cons z zs)
  show ?case
  proof (cases "c z x \<le> 0")
    case True
    with Cons show ?thesis by (simp add: sorted_by_def)
  next
    case False
    then have "c x z < 0" using swap [of z x] by simp
    moreover have "y = z \<or> c z y \<le> 0" using Cons.prems False by (auto simp: sorted_by_def)
    ultimately have "c x y < 0" using trans_less_le by blast
    then show ?thesis by (simp add: swap)
  qed
qed simp

lemma sorted_sort_insert: "sorted_by c xs \<Longrightarrow> sorted_by c (sort_insert c x xs)"
proof -
  assume s: "sorted_by c xs"
  let ?A = "takeWhile (\<lambda>y. c y x \<le> 0) xs" and ?B = "dropWhile (\<lambda>y. c y x \<le> 0) xs"
  have "sorted_by c (?A @ ?B)" using s by simp
  then have parts: "sorted_by c ?A" "sorted_by c ?B" "\<forall>y \<in> set ?A. \<forall>z \<in> set ?B. c y z \<le> 0"
    unfolding sorted_by_append by blast+
  have B: "\<forall>y \<in> set ?B. c x y \<le> 0"
  proof
    fix y
    assume "y \<in> set ?B"
    from sorted_dropWhile [OF s this] show "c x y \<le> 0" using le_iff [of x y] by simp
  qed
  have A: "\<forall>y \<in> set ?A. c y x \<le> 0" by (auto dest: set_takeWhileD)
  have xB: "sorted_by c (x # ?B)" using B parts(2) by (simp add: sorted_by_def)
  have "\<forall>y \<in> set ?A. \<forall>z \<in> set (x # ?B). c y z \<le> 0"
  proof (intro ballI)
    fix y z
    assume y: "y \<in> set ?A" and "z \<in> set (x # ?B)"
    then consider "z = x" | "z \<in> set ?B" by auto
    then show "c y z \<le> 0" using y parts(3) A by cases blast+
  qed
  then show ?thesis
    unfolding sort_insert_def sorted_by_append by (intro conjI parts(1) xB)
qed

lemma sorted_js_sort: "sorted_by c (js_sort c xs)"
  by (induction xs rule: rev_induct) (simp_all add: sorted_sort_insert, simp add: sorted_by_def)

end

subsection \<open>\<open>binarySearch\<close>\<close>

partial_function (option) binarySearch2_loop :: "(int \<Rightarrow> int) \<Rightarrow> int \<Rightarrow> int \<Rightarrow> int option" where
  "binarySearch2_loop compareToKey low high =
     (if low \<le> high then
        let mid = js_or0 ((low + high) div 2);
            comp = compareToKey mid
        in if comp < 0 then binarySearch2_loop compareToKey (mid + 1) high
           else if comp > 0 then binarySearch2_loop compareToKey low (mid - 1)
           else Some mid
      else Some (- (low + 1)))"

definition binarySearch2 :: "int \<Rightarrow> (int \<Rightarrow> int) \<Rightarrow> int option" where
  "binarySearch2 n compareToKey = binarySearch2_loop compareToKey 0 (n - 1)"

definition binarySearch :: "'a list \<Rightarrow> 'a \<Rightarrow> 'a cmp \<Rightarrow> int option" where
  "binarySearch xs key compare =
     binarySearch2 (int (length xs)) (\<lambda>i. compare (xs ! nat i) key)"

text \<open>What the documentation of \<open>binarySearch2\<close> promises of its result.\<close>

definition search_result :: "int \<Rightarrow> (int \<Rightarrow> int) \<Rightarrow> int \<Rightarrow> bool" where
  "search_result n f r \<longleftrightarrow>
     (if 0 \<le> r then r < n \<and> f r = 0
      else - (r + 1) \<le> n \<and> (\<forall>i. 0 \<le> i \<and> i < - (r + 1) \<longrightarrow> f i < 0) \<and>
        (\<forall>i. - (r + 1) \<le> i \<and> i < n \<longrightarrow> 0 < f i))"

lemma binarySearch2_loop_spec:
  assumes "n \<le> 2 ^ 31" "0 \<le> low" "low \<le> high + 1" "high < n"
    and mono: "\<And>i j. 0 \<le> i \<Longrightarrow> i \<le> j \<Longrightarrow> j < n \<Longrightarrow> (f j < 0 \<longrightarrow> f i < 0) \<and> (0 < f i \<longrightarrow> 0 < f j)"
    and below: "\<And>i. 0 \<le> i \<Longrightarrow> i < low \<Longrightarrow> f i < 0" and above: "\<And>i. high < i \<Longrightarrow> i < n \<Longrightarrow> 0 < f i"
  shows "\<exists>r. binarySearch2_loop f low high = Some r \<and> search_result n f r"
  using assms(2-4) below above
proof (induction "nat (high + 1 - low)" arbitrary: low high rule: less_induct)
  case less
  show ?case
  proof (cases "low \<le> high")
    case False
    with less.prems have "search_result n f (- (low + 1))"
      by (auto simp: search_result_def)
    with False show ?thesis by (simp add: binarySearch2_loop.simps [of f low high])
  next
    case True
    let ?m = "(low + high) div 2"
    have m: "low \<le> ?m" "?m \<le> high" using True by auto
    then have m': "js_or0 ?m = ?m" "0 \<le> ?m" "?m < n"
      using less.prems assms(1) by (auto intro: js_or0_id)
    note unfold = binarySearch2_loop.simps [of f low high] m'(1) Let_def
    consider "f ?m < 0" | "0 < f ?m" | "f ?m = 0" by linarith
    then show ?thesis
    proof cases
      case 1
      have "\<exists>r. binarySearch2_loop f (?m + 1) high = Some r \<and> search_result n f r"
      proof (rule less.hyps)
        show "nat (high + 1 - (?m + 1)) < nat (high + 1 - low)" using m by linarith
        show "f i < 0" if "0 \<le> i" "i < ?m + 1" for i using mono [of i ?m] that m'(3) 1 by linarith
      qed (use less.prems m in auto)
      with True 1 show ?thesis by (simp add: unfold)
    next
      case 2
      have "\<exists>r. binarySearch2_loop f low (?m - 1) = Some r \<and> search_result n f r"
      proof (rule less.hyps)
        show "nat (?m - 1 + 1 - low) < nat (high + 1 - low)" using m by linarith
        show "0 < f i" if "?m - 1 < i" "i < n" for i using mono [of ?m i] that m'(2) 2 by linarith
      qed (use less.prems m in auto)
      with True 2 show ?thesis by (simp add: unfold)
    next
      case 3
      with True m' show ?thesis by (auto simp: unfold search_result_def)
    qed
  qed
qed

lemma binarySearch2_spec:
  assumes "0 \<le> n" "n \<le> 2 ^ 31"
    and "\<And>i j. 0 \<le> i \<Longrightarrow> i \<le> j \<Longrightarrow> j < n \<Longrightarrow> (f j < 0 \<longrightarrow> f i < 0) \<and> (0 < f i \<longrightarrow> 0 < f j)"
  shows "\<exists>r. binarySearch2 n f = Some r \<and> search_result n f r"
  unfolding binarySearch2_def
  by (rule binarySearch2_loop_spec [OF assms(2) _ _ _ assms(3)]) (use assms(1) in auto)

subsection \<open>\<open>quickSelect\<close>\<close>

fun quickSelect_split :: "'a cmp \<Rightarrow> 'a \<Rightarrow> 'a list \<Rightarrow> 'a list \<times> 'a list \<times> 'a list \<Rightarrow> 'a list \<times> 'a list \<times> 'a list" where
  "quickSelect_split compare pivotValue [] (lower, higher, pivots) = (lower, higher, pivots)"
| "quickSelect_split compare pivotValue (value # data) (lower, higher, pivots) =
     (let val = compare value pivotValue
      in quickSelect_split compare pivotValue data
           (if val < 0 then (lower @ [value], higher, pivots)
            else if val > 0 then (lower, higher @ [value], pivots)
            else (lower, higher, pivots @ [value])))"

lemma quickSelect_split_filter:
  "quickSelect_split c p data (lower, higher, pivots) =
     (lower @ filter (\<lambda>v. c v p < 0) data, higher @ filter (\<lambda>v. c v p > 0) data,
      pivots @ filter (\<lambda>v. c v p = 0) data)"
  by (induction data arbitrary: lower higher pivots) (auto simp: Let_def)

partial_function (option) quickSelect :: "(nat \<Rightarrow> nat) \<Rightarrow> int \<Rightarrow> 'a list \<Rightarrow> 'a cmp \<Rightarrow> (js_error + 'a) option" where
  "quickSelect random nth' data compare =
     (let n = js_or0 nth'
      in if n \<ge> int (length data) then Some (Inl TypeError)
         else
           let pivotValue = data ! random (length data);
               r = quickSelect_split compare pivotValue data ([], [], []);
               lower = fst r; higher = fst (snd r); pivots = snd (snd r)
           in if n < int (length lower) then quickSelect random n lower compare
              else if n < int (length lower + length pivots) then Some (Inr (pivots ! 0))
              else quickSelect random (n - int (length lower + length pivots)) higher compare)"

text \<open>\<open>x\<close> is the element with index \<open>n\<close> of the array in sorted order.\<close>

definition nth_smallest :: "'a cmp \<Rightarrow> 'a list \<Rightarrow> int \<Rightarrow> 'a \<Rightarrow> bool" where
  "nth_smallest c xs n x \<longleftrightarrow> x \<in> set xs \<and>
     int (length (filter (\<lambda>v. c v x < 0) xs)) \<le> n \<and> n < int (length (filter (\<lambda>v. c v x \<le> 0) xs))"

lemma length_filter3:
  "length xs = length (filter (\<lambda>v. f v < (0::int)) xs) + length (filter (\<lambda>v. f v = 0) xs)
     + length (filter (\<lambda>v. f v > 0) xs)"
  by (induction xs) auto

lemma length_filter_remove: "x \<in> set xs \<Longrightarrow> \<not> P x \<Longrightarrow> length (filter P xs) < length xs"
  by (rule length_filter_less)

context comparator
begin

lemma nth_smallest_lower:
  assumes "nth_smallest c (filter (\<lambda>v. c v p < 0) xs) n x"
  shows "nth_smallest c xs n x"
proof -
  have x: "c x p < 0" "x \<in> set xs" using assms by (auto simp: nth_smallest_def)
  have "c v p < 0" if "c v x \<le> 0" for v using trans_le_less that x(1) by blast
  then have "filter (\<lambda>v. c v x < 0) (filter (\<lambda>v. c v p < 0) xs) = filter (\<lambda>v. c v x < 0) xs"
    "filter (\<lambda>v. c v x \<le> 0) (filter (\<lambda>v. c v p < 0) xs) = filter (\<lambda>v. c v x \<le> 0) xs"
    by (auto intro!: filter_cong)
  with assms x show ?thesis by (simp add: nth_smallest_def)
qed

lemma nth_smallest_higher:
  assumes "nth_smallest c (filter (\<lambda>v. c v p > 0) xs) n x"
  shows "nth_smallest c xs
    (n + int (length (filter (\<lambda>v. c v p < 0) xs) + length (filter (\<lambda>v. c v p = 0) xs))) x"
proof -
  have x: "0 < c x p" "x \<in> set xs" using assms by (auto simp: nth_smallest_def)
  then have px: "c p x < 0" using swap by blast
  have count: "length (filter P xs) = length (filter P (filter (\<lambda>v. c v p > 0) xs))
      + (length (filter (\<lambda>v. c v p < 0) xs) + length (filter (\<lambda>v. c v p = 0) xs))"
    if "\<And>v. c v p \<le> 0 \<Longrightarrow> P v" for P
  proof (induction xs)
    case (Cons v vs)
    then show ?case using that [of v] by auto
  qed simp
  have "c v x < 0" if "c v p \<le> 0" for v using trans_le_less that px by blast
  with count [of "\<lambda>v. c v x < 0"] count [of "\<lambda>v. c v x \<le> 0"] assms x show ?thesis
    by (simp add: nth_smallest_def less_imp_le)
qed

lemma nth_smallest_pivot:
  assumes "p \<in> set xs" "int (length (filter (\<lambda>v. c v p < 0) xs)) \<le> n"
    "n < int (length (filter (\<lambda>v. c v p < 0) xs) + length (filter (\<lambda>v. c v p = 0) xs))"
    "x \<in> set xs" "c x p = 0"
  shows "nth_smallest c xs n x"
proof -
  have px: "c p x = 0" using assms(5) eq_sym by blast
  have "c v x < 0 \<longleftrightarrow> c v p < 0" for v
    using trans_less_le [of v x p] trans_less_le [of v p x] assms(5) px by auto
  moreover have "c v x \<le> 0 \<longleftrightarrow> c v p \<le> 0" for v
    using trans [of v x p] trans [of v p x] assms(5) px by auto
  moreover have "length (filter (\<lambda>v. c v p \<le> 0) xs) =
      length (filter (\<lambda>v. c v p < 0) xs) + length (filter (\<lambda>v. c v p = 0) xs)"
    by (induction xs) auto
  ultimately show ?thesis using assms by (simp add: nth_smallest_def)
qed

end

lemma quickSelect_unfold:
  assumes "0 \<le> n" "n < 2 ^ 31" "n < int (length data)"
    and p: "p = data ! random (length data)"
  shows "quickSelect random n data c =
    (let lower = filter (\<lambda>v. c v p < 0) data; higher = filter (\<lambda>v. c v p > 0) data;
         pivots = filter (\<lambda>v. c v p = 0) data
     in if n < int (length lower) then quickSelect random n lower c
        else if n < int (length lower + length pivots) then Some (Inr (pivots ! 0))
        else quickSelect random (n - int (length lower + length pivots)) higher c)"
  using assms(1-3) unfolding quickSelect.simps [of random n data c]
  by (simp only: js_or0_id Let_def p quickSelect_split_filter fst_conv snd_conv append_Nil) simp

lemma quickSelect_range: "0 \<le> n \<Longrightarrow> n < 2 ^ 31 \<Longrightarrow> int (length data) \<le> n \<Longrightarrow>
    quickSelect random n data c = Some (Inl TypeError)"
  by (subst quickSelect.simps) (simp add: js_or0_id)

lemma quickSelect_returns:
  assumes "\<forall>k > 0. random k < k" "\<And>x. c x x = 0" "0 \<le> n" "n < 2 ^ 31" "n < int (length data)"
  shows "\<exists>x \<in> set data. quickSelect random n data c = Some (Inr x) \<and>
    (comparator c \<longrightarrow> nth_smallest c data n x)"
  using assms(3-)
proof (induction "length data" arbitrary: data n rule: less_induct)
  case less
  let ?p = "data ! random (length data)"
  let ?L = "filter (\<lambda>v. c v ?p < 0) data" and ?E = "filter (\<lambda>v. c v ?p = 0) data"
    and ?H = "filter (\<lambda>v. c v ?p > 0) data"
  have "0 < length data" using less.prems by linarith
  then have p: "?p \<in> set data" using assms(1) by (intro nth_mem) blast
  have shorter: "length ?L < length data" "length ?H < length data"
    using p assms(2) [of ?p] by (auto intro!: length_filter_remove)
  have len: "length data = length ?L + length ?E + length ?H" by (rule length_filter3)
  note unfold = quickSelect_unfold [OF less.prems refl, of random c] Let_def
  consider "n < int (length ?L)"
    | "int (length ?L) \<le> n" "n < int (length ?L + length ?E)" | "int (length ?L + length ?E) \<le> n"
    by linarith
  then show ?case
  proof cases
    case 1
    from less.hyps [OF shorter(1) less.prems(1,2) 1] obtain x where
      "x \<in> set ?L" "quickSelect random n ?L c = Some (Inr x)" "comparator c \<longrightarrow> nth_smallest c ?L n x"
      by blast
    with 1 show ?thesis
      by (intro bexI [of _ x]) (auto simp: unfold intro: comparator.nth_smallest_lower)
  next
    case 2
    then have "?E \<noteq> []" by auto
    then have e: "?E ! 0 \<in> set ?E" by (intro nth_mem) simp
    with 2 have "quickSelect random n data c = Some (Inr (?E ! 0))" by (simp add: unfold)
    moreover have "nth_smallest c data n (?E ! 0)" if "comparator c"
      using comparator.nth_smallest_pivot [OF that p 2] e by simp
    ultimately show ?thesis using e by (intro bexI [of _ "?E ! 0"]) auto
  next
    case 3
    let ?n = "n - int (length ?L + length ?E)"
    have "0 \<le> ?n" "?n < 2 ^ 31" "?n < int (length ?H)" using 3 less.prems len by auto
    from less.hyps [OF shorter(2) this] obtain x where x:
      "x \<in> set ?H" "quickSelect random ?n ?H c = Some (Inr x)" "comparator c \<longrightarrow> nth_smallest c ?H ?n x"
      by blast
    moreover have "nth_smallest c data n x" if "comparator c"
      using comparator.nth_smallest_higher [OF that, of ?p data ?n x] x that by simp
    ultimately show ?thesis using 3 by (intro bexI [of _ x]) (auto simp: unfold)
  qed
qed

lemma quickSelect_diverges: "- (2 ^ 31) \<le> n \<Longrightarrow> n < 0 \<Longrightarrow> quickSelect random n data c = None"
proof -
  assume n: "- (2 ^ 31) \<le> n" "n < 0"
  have "\<not> (- (2 ^ 31) \<le> n \<and> n < 0)" if "quickSelect random n data c = Some y" for y
  proof (rule quickSelect.raw_induct [where P = "\<lambda>_ n _ _ _. \<not> (- (2 ^ 31) \<le> n \<and> n < 0)", OF _ that])
    fix f random n' data c y
    assume IH: "\<And>random n data c y. f random n data c = Some y \<Longrightarrow> \<not> (- (2 ^ 31) \<le> n \<and> n < 0)"
      and body: "(let n = js_or0 n'
        in if n \<ge> int (length data) then Some (Inl TypeError)
           else
             let pivotValue = data ! random (length data);
                 r = quickSelect_split c pivotValue data ([], [], []);
                 lower = fst r; higher = fst (snd r); pivots = snd (snd r)
             in if n < int (length lower) then f random n lower c
                else if n < int (length lower + length pivots) then Some (Inr (pivots ! 0))
                else f random (n - int (length lower + length pivots)) higher c) = Some y"
    show "\<not> (- (2 ^ 31) \<le> n' \<and> n' < 0)"
    proof
      assume n: "- (2 ^ 31) \<le> n' \<and> n' < 0"
      then have "js_or0 n' = n'" by (simp add: js_or0_id)
      with body n obtain data' where "f random n' data' c = Some y" by (auto simp: Let_def)
      from IH [OF this] n show False by simp
    qed
  qed
  with n show ?thesis by (cases "quickSelect random n data c") auto
qed

text \<open>
  C19. \<open>quickSelect\<close> ends and finds the element with the given index in sorted order, whatever
  random pivots it draws. For an index that is not negative and below \<open>2 ^ 31\<close> the call returns as
  soon as no element is different from itself for the comparator: a \<open>TypeError\<close> if the index is
  not below the length, and otherwise an element of the array, which for a comparator that is a total
  preorder has at most that many elements strictly below it and more that are not above it. For a
  negative index the call never returns.
\<close>

theorem quickSelect_correct:
  assumes "\<forall>k > 0. random k < k" and "\<forall>x. c x x = 0" and "- (2 ^ 31) \<le> n" "n < 2 ^ 31"
  shows "case quickSelect random n data c of
      None \<Rightarrow> n < 0
    | Some (Inl e) \<Rightarrow> e = TypeError \<and> int (length data) \<le> n
    | Some (Inr x) \<Rightarrow> 0 \<le> n \<and> n < int (length data) \<and> x \<in> set data \<and>
        (comparator c \<longrightarrow> nth_smallest c data n x)"
proof -
  consider "n < 0" | "0 \<le> n" "n < int (length data)" | "int (length data) \<le> n" by linarith
  then show ?thesis
  proof cases
    case 1
    with quickSelect_diverges [OF assms(3), of random data c] show ?thesis by simp
  next
    case 2
    with quickSelect_returns [of random c n data] assms show ?thesis by auto
  next
    case 3
    with quickSelect_range [of n data random c] assms(4) show ?thesis by simp
  qed
qed

theorem quickSelect_correct_witness:
  "case quickSelect (\<lambda>k. k div 2) 2 [5, 3, 9, 1, 3, 7] numberComparator of
      Some (Inr x) \<Rightarrow> nth_smallest numberComparator [5, 3, 9, 1, 3, 7] 2 x
    | _ \<Rightarrow> False"
proof -
  have "\<forall>k > 0. k div 2 < (k::nat)" "\<forall>x. numberComparator x x = 0"
    by (auto simp: numberComparator_def)
  from quickSelect_correct [where random = "\<lambda>k. k div 2" and c = numberComparator and n = 2
      and data = "[5, 3, 9, 1, 3, 7]", OF this] numberCmp.comparator_axioms
  show ?thesis by (simp split: option.splits sum.splits)
qed

end
