(* ===== verification/Array_Top.thy ===== *)
theory Array_Top
  imports Array_Select
begin

text \<open>
  \<open>top\<close>, \<open>topAsync\<close>, \<open>groupBy\<close> and \<open>groupAdjacentBy\<close> of
  \<open>src/vs/base/common/arrays.ts\<close>.
\<close>

subsection \<open>\<open>top\<close> and \<open>topAsync\<close>\<close>

function topStep_loop :: "'a list \<Rightarrow> 'a cmp \<Rightarrow> nat \<Rightarrow> 'a list \<Rightarrow> nat \<Rightarrow> nat \<Rightarrow> 'a list" where
  "topStep_loop xs compare n result i m =
     (if i < m then
        let element = xs ! i
        in topStep_loop xs compare n
             (if compare element (result ! (n - 1)) < 0 then
                let popped = butlast result;
                    j = findFirstIdxMonotonousOrArrLen popped (\<lambda>e. compare element e < 0) 0 (length popped)
                in js_splice popped j 0 [element]
              else result)
             (i + 1) m
      else result)"
  by pat_completeness auto
termination by (relation "measure (\<lambda>(_, _, _, _, i, m). m - i)") auto

declare topStep_loop.simps [simp del]

definition topStep :: "'a list \<Rightarrow> 'a cmp \<Rightarrow> 'a list \<Rightarrow> nat \<Rightarrow> nat \<Rightarrow> 'a list" where
  "topStep xs compare result i m = topStep_loop xs compare (length result) result i m"

definition top :: "'a list \<Rightarrow> 'a cmp \<Rightarrow> nat \<Rightarrow> 'a list" where
  "top xs compare n =
     (if n = 0 then []
      else
        let result = js_sort compare (take n xs)
        in topStep xs compare result n (length xs))"

text \<open>
  \<open>cancelled k\<close> is what the cancellation token says when the loop asks it for the \<open>k\<close>-th time
  (never, if there is no token).
\<close>

partial_function (option) topAsync_loop ::
    "'a list \<Rightarrow> 'a cmp \<Rightarrow> nat \<Rightarrow> (nat \<Rightarrow> bool) \<Rightarrow> nat \<Rightarrow> 'a list \<Rightarrow> nat \<Rightarrow> nat \<Rightarrow> (js_error + 'a list) option" where
  "topAsync_loop xs compare batch cancelled k result i m =
     (if i < length xs then
        if cancelled k then Some (Inl CancellationError)
        else topAsync_loop xs compare batch cancelled (k + 1) (topStep xs compare result i m)
               m (min (m + batch) (length xs))
      else Some (Inr result))"

definition topAsync :: "'a list \<Rightarrow> 'a cmp \<Rightarrow> nat \<Rightarrow> nat \<Rightarrow> (nat \<Rightarrow> bool) \<Rightarrow> (js_error + 'a list) option" where
  "topAsync xs compare n batch cancelled =
     (if n = 0 then Some (Inr [])
      else
        let result = js_sort compare (take n xs)
        in topAsync_loop xs compare batch cancelled 0 result n (min (n + batch) (length xs)))"

lemma takeWhile_until: "\<not> p l \<Longrightarrow> takeWhile p (R @ l # T) = takeWhile p R"
  by (induction R) auto

lemma dropWhile_until: "\<not> p l \<Longrightarrow> dropWhile p (R @ l # T) = dropWhile p R @ l # T"
  by (induction R) auto

context comparator
begin

lemma le_not_less: "c y x \<le> 0 \<longleftrightarrow> \<not> c x y < 0"
  using swap [of y x] by linarith

lemma splice_sort_insert:
  assumes "sorted_by c xs"
  shows "js_splice xs (findFirstIdxMonotonousOrArrLen xs (\<lambda>e. c x e < 0) 0 (length xs)) 0 [x] = sort_insert c x xs"
proof -
  let ?p = "\<lambda>e. c x e < 0"
  let ?j = "findFirstIdxMonotonousOrArrLen xs ?p 0 (length xs)"
  have "sorted_wrt (\<lambda>a b. ?p a \<longrightarrow> ?p b) xs"
    using assms unfolding sorted_by_def by (rule sorted_wrt_mono_rel [rotated]) (use trans_less_le in blast)
  then have inc: "increasing ?p xs 0 (length xs)" by (rule increasing_sorted) simp
  have "takeWhile (\<lambda>y. c y x \<le> 0) xs = take ?j xs"
  proof (rule takeWhile_eq_take_P_nth)
    show "c (xs ! i) x \<le> 0" if "i < ?j" "i < length xs" for i
      using findFirstIdxMonotonousOrArrLen_iff [OF inc, of i] that by (simp add: le_not_less)
    show "\<not> c (xs ! ?j) x \<le> 0" if "?j < length xs"
      using findFirstIdxMonotonousOrArrLen_iff [OF inc, of ?j] that by (simp add: le_not_less)
  qed
  moreover from this have "dropWhile (\<lambda>y. c y x \<le> 0) xs = drop ?j xs"
    by (metis append_eq_conv_conj append_take_drop_id length_takeWhile_le takeWhile_dropWhile_id length_take min.absorb2 same_append_eq)
  ultimately show ?thesis by (simp add: js_splice_def sort_insert_def)
qed

lemma take_sort_insert:
  assumes s: "sorted_by c S" and n: "0 < n" "n \<le> length S"
  shows "take n (sort_insert c x S) =
    (if c x (take n S ! (n - 1)) < 0 then sort_insert c x (butlast (take n S)) else take n S)"
proof -
  let ?p = "\<lambda>y. c y x \<le> 0"
  obtain R l where R: "take n S = R @ [l]" using n by (metis rev_exhaust take_eq_Nil not_gr0 list.size(3) le_zero_eq)
  then have len: "length R = n - 1" using n by (metis length_append_singleton length_take min.absorb2 diff_Suc_1)
  have S: "S = R @ l # drop n S" using append_take_drop_id [of n S] R by simp
  have l: "take n S ! (n - 1) = l" using R len by (simp add: nth_append)
  show ?thesis
  proof (cases "c x l < 0")
    case True
    then have "\<not> ?p l" by (simp add: le_not_less)
    then have "takeWhile ?p S = takeWhile ?p R"
      by (subst S) (rule takeWhile_until)
    moreover have "dropWhile ?p S = dropWhile ?p R @ l # drop n S"
      using \<open>\<not> ?p l\<close> by (subst S) (rule dropWhile_until)
    moreover have "length (takeWhile ?p R) + length (dropWhile ?p R) = n - 1"
      using len by (metis length_append takeWhile_dropWhile_id)
    then have "n - length (takeWhile ?p R) = Suc (length (dropWhile ?p R))" using n by linarith
    ultimately show ?thesis using True l R n by (simp add: sort_insert_def)
  next
    case False
    have sorted: "sorted_by c (R @ l # drop n S)" using s by (simp only: S [symmetric])
    have "?p y" if "y \<in> set (R @ [l])" for y
    proof -
      have "c y l \<le> 0" using sorted that by (auto simp: sorted_by_append)
      moreover have "c l x \<le> 0" using False by (simp add: le_not_less)
      ultimately show ?thesis by (rule trans)
    qed
    then have "takeWhile ?p ((R @ [l]) @ drop n S) = (R @ [l]) @ takeWhile ?p (drop n S)"
      by (rule takeWhile_append2)
    then have "takeWhile ?p S = take n S @ takeWhile ?p (drop n S)"
      unfolding R using S by simp
    with False l n show ?thesis by (simp add: sort_insert_def)
  qed
qed

lemma topStep_loop_sort:
  "0 < n \<Longrightarrow> n \<le> i \<Longrightarrow> i \<le> m \<Longrightarrow> m \<le> length xs \<Longrightarrow>
   topStep_loop xs c n (take n (js_sort c (take i xs))) i m = take n (js_sort c (take m xs))"
proof (induction "m - i" arbitrary: i)
  case 0
  then show ?case by (subst topStep_loop.simps) simp
next
  case (Suc k)
  then have i: "i < m" "i < length xs" by auto
  let ?S = "js_sort c (take i xs)" and ?x = "xs ! i"
  have s: "sorted_by c ?S" by (rule sorted_js_sort)
  have "js_sort c (take (i + 1) xs) = sort_insert c ?x ?S"
    using i by (simp add: take_Suc_conv_app_nth)
  moreover have "n \<le> length ?S" using Suc.prems i by simp
  note take_sort_insert [OF s Suc.prems(1) this, of ?x]
  moreover have "sorted_by c (butlast (take n ?S))"
    unfolding butlast_conv_take using s by (intro sorted_by_take)
  note splice_sort_insert [OF this, of ?x]
  ultimately have "take n (js_sort c (take (i + 1) xs)) =
     (if c ?x (take n ?S ! (n - 1)) < 0 then
        let popped = butlast (take n ?S);
            j = findFirstIdxMonotonousOrArrLen popped (\<lambda>e. c ?x e < 0) 0 (length popped)
        in js_splice popped j 0 [?x]
      else take n ?S)" by (simp add: Let_def)
  moreover have "topStep_loop xs c n (take n (js_sort c (take (i + 1) xs))) (i + 1) m = take n (js_sort c (take m xs))"
    using Suc by (intro Suc.hyps) auto
  ultimately show ?case using i by (subst topStep_loop.simps) (simp add: Let_def)
qed

lemma top_eq: "top xs c n = take n (js_sort c xs)"
proof (cases "n = 0 \<or> length xs \<le> n")
  case True
  have "topStep_loop xs c k r n (length xs) = r" if "length xs \<le> n" for k r
    using that by (subst topStep_loop.simps) simp
  with True show ?thesis by (auto simp: top_def topStep_def Let_def)
next
  case False
  then have "js_sort c (take n xs) = take n (js_sort c (take n xs))" by simp
  with False topStep_loop_sort [of n n "length xs" xs] show ?thesis
    by (simp add: top_def topStep_def Let_def)
qed

lemma topAsync_loop_sort:
  assumes "0 < n" "n \<le> length xs" "0 < batch"
  shows "n \<le> i \<Longrightarrow> i \<le> length xs \<Longrightarrow> m = min (i + batch) (length xs) \<Longrightarrow>
    \<exists>r. topAsync_loop xs c batch cancelled k (take n (js_sort c (take i xs))) i m = Some r \<and>
      (r = Inr (take n (js_sort c xs)) \<or> r = Inl CancellationError \<and> (\<exists>l \<ge> k. cancelled l))"
proof (induction "length xs - i" arbitrary: i k m rule: less_induct)
  case less
  let ?R = "take n (js_sort c (take i xs))"
  note unfold = topAsync_loop.simps [of xs c batch cancelled k ?R i m]
  consider "i = length xs" | "i < length xs" "cancelled k" | "i < length xs" "\<not> cancelled k"
    using less.prems by linarith
  then show ?case
  proof cases
    case 1
    then show ?thesis by (subst unfold) simp
  next
    case 2
    then show ?thesis by (subst unfold) auto
  next
    case 3
    have m: "i < m" "m \<le> length xs" using less.prems 3 assms(3) by auto
    have "length ?R = n" using less.prems assms by simp
    then have step: "topStep xs c ?R i m = take n (js_sort c (take m xs))"
      unfolding topStep_def using topStep_loop_sort [of n i m xs] assms less.prems m by simp
    have "\<exists>r. topAsync_loop xs c batch cancelled (k + 1) (take n (js_sort c (take m xs))) m
        (min (m + batch) (length xs)) = Some r \<and>
      (r = Inr (take n (js_sort c xs)) \<or> r = Inl CancellationError \<and> (\<exists>l \<ge> k + 1. cancelled l))"
      using less.prems m by (intro less.hyps) auto
    moreover have "topAsync_loop xs c batch cancelled k ?R i m =
        topAsync_loop xs c batch cancelled (k + 1) (take n (js_sort c (take m xs))) m (min (m + batch) (length xs))"
      using 3 by (subst unfold) (simp add: step)
    ultimately show ?thesis by (metis add_leD1)
  qed
qed

lemma topAsync_returns:
  assumes "0 < batch"
  shows "\<exists>r. topAsync xs c n batch cancelled = Some r \<and>
    (r = Inr (top xs c n) \<or> r = Inl CancellationError \<and> (\<exists>k. cancelled k))"
proof (cases "n = 0 \<or> length xs \<le> n")
  case True
  have "topAsync_loop xs c batch cancelled k r n m = Some (Inr r)" if "length xs \<le> n" for k r m
    using that by (subst topAsync_loop.simps) simp
  with True show ?thesis by (auto simp: topAsync_def top_eq Let_def)
next
  case False
  then have "js_sort c (take n xs) = take n (js_sort c (take n xs))" by simp
  with False topAsync_loop_sort [of n xs batch n _ cancelled 0] assms show ?thesis
    by (fastforce simp: topAsync_def top_eq Let_def)
qed

end

subsection \<open>\<open>groupBy\<close> and \<open>groupAdjacentBy\<close>\<close>

text \<open>\<open>currentGroup\<close> is the last array of \<open>result\<close>, so a push to it is a change of \<open>result\<close>.\<close>

definition groupBy_step :: "'a cmp \<Rightarrow> 'a list list \<Rightarrow> 'a \<Rightarrow> 'a list list" where
  "groupBy_step compare result element =
     (if result = [] \<or> compare (last result ! 0) element \<noteq> 0 then result @ [[element]]
      else butlast result @ [last result @ [element]])"

definition groupBy :: "'a list \<Rightarrow> 'a cmp \<Rightarrow> 'a list list" where
  "groupBy data compare = foldl (groupBy_step compare) [] (js_sort compare data)"

text \<open>The generator yields a group when the next one starts, and the last one at the end.\<close>

fun groupAdjacentBy_loop :: "('a \<Rightarrow> 'a \<Rightarrow> bool) \<Rightarrow> 'a list option \<Rightarrow> 'a option \<Rightarrow> 'a list \<Rightarrow> 'a list list" where
  "groupAdjacentBy_loop shouldBeGrouped currentGroup lastItem [] = opt_list currentGroup"
| "groupAdjacentBy_loop shouldBeGrouped currentGroup lastItem (item # items) =
     (if (case lastItem of Some l \<Rightarrow> shouldBeGrouped l item | None \<Rightarrow> False) then
        groupAdjacentBy_loop shouldBeGrouped (map_option (\<lambda>g. g @ [item]) currentGroup) (Some item) items
      else opt_list currentGroup @ groupAdjacentBy_loop shouldBeGrouped (Some [item]) (Some item) items)"

definition groupAdjacentBy :: "'a list \<Rightarrow> ('a \<Rightarrow> 'a \<Rightarrow> bool) \<Rightarrow> 'a list list" where
  "groupAdjacentBy items shouldBeGrouped = groupAdjacentBy_loop shouldBeGrouped None None items"

text \<open>Groups of consecutive items: inside a group neighbours belong together, between groups they do not.\<close>

definition adjacent_groups :: "('a \<Rightarrow> 'a \<Rightarrow> bool) \<Rightarrow> 'a list list \<Rightarrow> bool" where
  "adjacent_groups R gs \<longleftrightarrow> (\<forall>g \<in> set gs. g \<noteq> [] \<and> successively R g) \<and>
     successively (\<lambda>g h. \<not> R (last g) (hd h)) gs"

lemma groupAdjacentBy_loop_spec:
  assumes "g \<noteq> []" "successively R g"
  shows "concat (groupAdjacentBy_loop R (Some g) (Some (last g)) items) = g @ items \<and>
    adjacent_groups R (groupAdjacentBy_loop R (Some g) (Some (last g)) items) \<and>
    (\<exists>h hs. groupAdjacentBy_loop R (Some g) (Some (last g)) items = (g @ h) # hs)"
  using assms
proof (induction items arbitrary: g)
  case Nil
  then show ?case by (auto simp: adjacent_groups_def)
next
  case (Cons item items)
  show ?case
  proof (cases "R (last g) item")
    case True
    with Cons.prems have "successively R (g @ [item])" by (simp add: successively_append_iff)
    with Cons.IH [of "g @ [item]"] True show ?thesis by auto
  next
    case False
    from Cons.IH [of "[item]"] obtain h hs where
      "groupAdjacentBy_loop R (Some [item]) (Some item) items = (item # h) # hs" by auto
    with Cons.IH [of "[item]"] Cons.prems False show ?thesis
      by (auto simp: adjacent_groups_def)
  qed
qed

lemma groupAdjacentBy_spec:
  "concat (groupAdjacentBy items R) = items \<and> adjacent_groups R (groupAdjacentBy items R)"
proof (cases items)
  case Nil
  then show ?thesis by (simp add: groupAdjacentBy_def adjacent_groups_def)
next
  case (Cons item rest)
  with groupAdjacentBy_loop_spec [of "[item]" R rest] show ?thesis by (simp add: groupAdjacentBy_def)
qed

definition ordered_groups :: "'a cmp \<Rightarrow> 'a list list \<Rightarrow> bool" where
  "ordered_groups c gs \<longleftrightarrow> (\<forall>g \<in> set gs. g \<noteq> [] \<and> (\<forall>x \<in> set g. \<forall>y \<in> set g. c x y = 0)) \<and>
     sorted_wrt (\<lambda>g h. \<forall>x \<in> set g. \<forall>y \<in> set h. c x y < 0) gs"

context comparator
begin

lemma groupBy_step_groups:
  assumes "ordered_groups c gs" "\<forall>y \<in> set (concat gs). c y x \<le> 0"
  shows "ordered_groups c (groupBy_step c gs x)"
proof (cases gs rule: rev_cases)
  case Nil
  then show ?thesis by (simp add: groupBy_step_def ordered_groups_def)
next
  case (snoc hs g)
  with assms(1) have g: "g \<noteq> []" "\<forall>y \<in> set g. \<forall>z \<in> set g. c y z = 0"
    and hs: "\<forall>h \<in> set hs. \<forall>y \<in> set h. \<forall>z \<in> set g. c y z < 0"
    by (auto simp: ordered_groups_def sorted_wrt_append)
  have g0: "g ! 0 \<in> set g" using g(1) by simp
  have before: "c y x < 0" if "h \<in> set hs" "y \<in> set h" for h y
    using hs that g0 assms(2) snoc by (intro trans_less_le [of y "g ! 0" x]) auto
  show ?thesis
  proof (cases "c (g ! 0) x = 0")
    case True
    then have "c y x = 0" if "y \<in> set g" for y using eq_trans [of y "g ! 0" x] g that g0 by blast
    moreover from this have "c x y = 0" if "y \<in> set g" for y using eq_sym that by blast
    ultimately have "ordered_groups c (hs @ [g @ [x]])"
      using assms(1) before snoc by (auto simp: ordered_groups_def sorted_wrt_append)
    with True snoc show ?thesis by (simp add: groupBy_step_def)
  next
    case False
    with assms(2) g0 snoc have less: "c (g ! 0) x < 0" by force
    have "c y x < 0" if "y \<in> set g" for y
      using g(2) g0 that less by (intro trans_le_less [of y "g ! 0" x]) auto
    then have "ordered_groups c (gs @ [[x]])"
      using assms(1) before snoc by (auto simp: ordered_groups_def sorted_wrt_append)
    with False snoc show ?thesis by (simp add: groupBy_step_def)
  qed
qed

lemma groupBy_fold:
  "sorted_by c xs \<Longrightarrow> ordered_groups c (foldl (groupBy_step c) [] xs) \<and> concat (foldl (groupBy_step c) [] xs) = xs"
proof (induction xs rule: rev_induct)
  case (snoc x xs)
  then have IH: "ordered_groups c (foldl (groupBy_step c) [] xs)" "concat (foldl (groupBy_step c) [] xs) = xs"
    and le: "\<forall>y \<in> set xs. c y x \<le> 0" by (simp_all add: sorted_by_append)
  have "concat (groupBy_step c gs x) = concat gs @ [x]" for gs
    by (cases gs rule: rev_cases) (simp_all add: groupBy_step_def)
  with IH groupBy_step_groups [OF IH(1), of x] le show ?case by simp
qed (simp add: ordered_groups_def)

lemma groupBy_spec: "ordered_groups c (groupBy xs c) \<and> concat (groupBy xs c) = js_sort c xs"
  unfolding groupBy_def by (rule groupBy_fold) (rule sorted_js_sort)

end

text \<open>
  \<open>top\<close> finds the first elements of the sorted array without sorting it. For a comparator that
  is a total preorder \<open>top\<close> returns exactly what sorting the whole array and keeping its first
  \<open>n\<close> elements would, equal elements in their original order. \<open>topAsync\<close> with a batch size
  above 0 returns too: the same array, or a \<open>CancellationError\<close>, and that only if the token was
  cancelled at a check. \<open>groupBy\<close> splits the sorted array into its classes of equal elements.
\<close>

theorem top_correct:
  assumes "comparator c"
  shows "top xs c n = take n (js_sort c xs) \<and>
    (0 < batch \<longrightarrow> (\<exists>r. topAsync xs c n batch cancelled = Some r \<and>
       (r = Inr (top xs c n) \<or> r = Inl CancellationError \<and> (\<exists>k. cancelled k)))) \<and>
    ordered_groups c (groupBy xs c) \<and> concat (groupBy xs c) = js_sort c xs"
  using comparator.top_eq [OF assms] comparator.topAsync_returns [OF assms] comparator.groupBy_spec [OF assms]
  by blast

theorem top_correct_witness:
  "top [5, 3, 9, 1, 3, 7] numberComparator 3 = take 3 (js_sort numberComparator [5, 3, 9, 1, 3, 7]) \<and>
   topAsync [5, 3, 9, 1, 3, 7] numberComparator 3 2 (\<lambda>_. False) = Some (Inr (top [5, 3, 9, 1, 3, 7] numberComparator 3))"
  using top_correct [OF numberCmp.comparator_axioms, of "[5, 3, 9, 1, 3, 7]" 3 2 "\<lambda>_. False"] by simp

end
