(* ===== verification/Object_Refinement.thy ===== *)
theory Object_Refinement
  imports Prelude
begin

text \<open>
  The contract of a stateful class, apart from what the class is: every operation on an object answers
  and changes the object as a plain specification says. The locale \<open>object_refinement\<close> proves once
  that sequences of operations then answer alike and that the invariant of the object is kept; the
  classes of the source interpret it. How an operation can fail is the type \<open>'e\<close>: an exception, or,
  where a loop may not end, an exception or no return (\<open>returns\<close>).
\<close>

definition throws :: "js_error + 'a \<Rightarrow> js_error option + 'a" where
  "throws m = (case m of Inl e \<Rightarrow> Inl (Some e) | Inr x \<Rightarrow> Inr x)"

definition returns :: "(js_error + 'a) option \<Rightarrow> js_error option + 'a" where
  "returns m = (case m of None \<Rightarrow> Inl None | Some m' \<Rightarrow> throws m')"

lemma throws_Inr [simp]: "throws (Inr x) = Inr x"
  by (simp add: throws_def)

lemma returns_Some_Inr [simp]: "returns (Some (Inr x)) = Inr x"
  by (simp add: returns_def)

fun run_object :: "('s \<Rightarrow> 'op \<Rightarrow> 'e + 'r \<times> 's) \<Rightarrow> 's \<Rightarrow> 'op list \<Rightarrow> 'e + 'r list \<times> 's" where
  "run_object step s [] = Inr ([], s)"
| "run_object step s (a # ops) =
     bindE (step s a) (\<lambda>(r, s'). bindE (run_object step s' ops) (\<lambda>(rs, s''). Inr (r # rs, s'')))"

fun run_spec :: "('a \<Rightarrow> 'op \<Rightarrow> 'r \<times> 'a) \<Rightarrow> 'a \<Rightarrow> 'op list \<Rightarrow> 'r list \<times> 'a" where
  "run_spec spec a [] = ([], a)"
| "run_spec spec a (p # ops) =
     (let (r, a') = spec a p; (rs, a'') = run_spec spec a' ops in (r # rs, a''))"

fun legal_run :: "('a \<Rightarrow> 'op \<Rightarrow> bool) \<Rightarrow> ('a \<Rightarrow> 'op \<Rightarrow> 'r \<times> 'a) \<Rightarrow> 'a \<Rightarrow> 'op list \<Rightarrow> bool" where
  "legal_run legal spec a [] = True"
| "legal_run legal spec a (p # ops) = (legal a p \<and> legal_run legal spec (snd (spec a p)) ops)"

lemma legal_run_all: "(\<And>a p. legal a p) \<Longrightarrow> legal_run legal spec a ops"
  by (induction ops arbitrary: a) simp_all

locale object_refinement =
  fixes step :: "'s \<Rightarrow> 'op \<Rightarrow> 'e + 'r \<times> 's"
    and inv :: "'s \<Rightarrow> bool"
    and contents :: "'s \<Rightarrow> 'a"
    and spec :: "'a \<Rightarrow> 'op \<Rightarrow> 'r \<times> 'a"
    and legal :: "'a \<Rightarrow> 'op \<Rightarrow> bool"
  assumes step_refines:
    "inv s \<Longrightarrow> legal (contents s) p \<Longrightarrow>
     \<exists>s'. step s p = Inr (fst (spec (contents s) p), s') \<and> inv s' \<and> contents s' = snd (spec (contents s) p)"
begin

lemma run_refines:
  "inv s \<Longrightarrow> legal_run legal spec (contents s) ops \<Longrightarrow>
   \<exists>s'. run_object step s ops = Inr (fst (run_spec spec (contents s) ops), s') \<and> inv s' \<and>
     contents s' = snd (run_spec spec (contents s) ops)"
proof (induction ops arbitrary: s)
  case (Cons p ops)
  then obtain s' where s': "step s p = Inr (fst (spec (contents s) p), s')" "inv s'"
    "contents s' = snd (spec (contents s) p)"
    using step_refines [of s p] by auto
  with Cons.IH [of s'] Cons.prems show ?case
    by (auto simp: Let_def split: prod.splits)
qed simp

end

end
