(* ===== verification/Array_Ops.thy ===== *)
theory Array_Ops
  imports Array_Select Object_Refinement
begin

text \<open>
  Further operations on arrays of \<open>src/vs/base/common/arrays.ts\<close>: removing, filtering, inserting
  and splicing, the class \<open>ArrayQueue\<close>, which consumes an array from both ends, and the class
  \<open>Permutation\<close>.
\<close>

subsection \<open>Small operations\<close>

definition tail :: "'a list \<Rightarrow> js_error + 'a list \<times> 'a" where
  "tail arr =
     (if length arr = 0 then Inl Error
      else Inr (js_slice arr 0 (int (length arr) - 1), arr ! (length arr - 1)))"

fun js_equals_loop :: "('a \<Rightarrow> 'a \<Rightarrow> bool) \<Rightarrow> 'a list \<Rightarrow> 'a list \<Rightarrow> bool" where
  "js_equals_loop itemEquals (x # xs) (y # ys) = (if \<not> itemEquals x y then False else js_equals_loop itemEquals xs ys)"
| "js_equals_loop itemEquals _ _ = True"

text \<open>\<open>same\<close> is the comparison \<open>one === other\<close> of the references.\<close>

definition js_array_equals :: "bool \<Rightarrow> 'a list option \<Rightarrow> 'a list option \<Rightarrow> ('a \<Rightarrow> 'a \<Rightarrow> bool) \<Rightarrow> bool" where
  "js_array_equals same one other itemEquals =
     (if same then True
      else case (one, other) of
        (Some xs, Some ys) \<Rightarrow> if length xs \<noteq> length ys then False else js_equals_loop itemEquals xs ys
      | _ \<Rightarrow> False)"

definition removeFastWithoutKeepingOrder :: "'a list \<Rightarrow> nat \<Rightarrow> 'a list" where
  "removeFastWithoutKeepingOrder arr i =
     (let lastIdx = int (length arr) - 1
      in butlast (if int i < lastIdx then arr[i := arr ! nat lastIdx] else arr))"

definition coalesce :: "('a \<Rightarrow> bool) \<Rightarrow> 'a list \<Rightarrow> 'a list" where
  "coalesce truthy arr = filter truthy arr"

function coalesceInPlace_loop :: "('a \<Rightarrow> bool) \<Rightarrow> 'a list \<Rightarrow> nat \<Rightarrow> nat \<Rightarrow> 'a list" where
  "coalesceInPlace_loop truthy arr i to =
     (if i < length arr then
        if truthy (arr ! i) then coalesceInPlace_loop truthy (arr[to := arr ! i]) (i + 1) (to + 1)
        else coalesceInPlace_loop truthy arr (i + 1) to
      else take to arr)"
  by pat_completeness auto
termination by (relation "measure (\<lambda>(_, arr, i, _). length arr - i)") auto

declare coalesceInPlace_loop.simps [simp del]

definition coalesceInPlace :: "('a \<Rightarrow> bool) \<Rightarrow> 'a list \<Rightarrow> 'a list" where
  "coalesceInPlace truthy arr = coalesceInPlace_loop truthy arr 0 0"

fun distinct_loop :: "('a \<Rightarrow> 'k) \<Rightarrow> 'k set \<Rightarrow> 'a list \<Rightarrow> 'a list" where
  "distinct_loop keyFn seen [] = []"
| "distinct_loop keyFn seen (element # rest) =
     (let key = keyFn element
      in if key \<in> seen then distinct_loop keyFn seen rest
         else element # distinct_loop keyFn (insert key seen) rest)"

definition js_distinct :: "'a list \<Rightarrow> ('a \<Rightarrow> 'k) \<Rightarrow> 'a list" where
  "js_distinct arr keyFn = distinct_loop keyFn {} arr"

definition withoutDuplicates :: "'a list \<Rightarrow> 'a list" where
  "withoutDuplicates arr = distinct_loop (\<lambda>x. x) {} arr"

function commonPrefixLength_loop :: "'a list \<Rightarrow> 'a list \<Rightarrow> ('a \<Rightarrow> 'a \<Rightarrow> bool) \<Rightarrow> nat \<Rightarrow> nat \<Rightarrow> nat" where
  "commonPrefixLength_loop one other eq i result =
     (if i < min (length one) (length other) \<and> eq (one ! i) (other ! i) then
        commonPrefixLength_loop one other eq (i + 1) (result + 1)
      else result)"
  by pat_completeness auto
termination by (relation "measure (\<lambda>(one, other, _, i, _). min (length one) (length other) - i)") auto

declare commonPrefixLength_loop.simps [simp del]

definition arrays_commonPrefixLength :: "'a list \<Rightarrow> 'a list \<Rightarrow> ('a \<Rightarrow> 'a \<Rightarrow> bool) \<Rightarrow> nat" where
  "arrays_commonPrefixLength one other eq = commonPrefixLength_loop one other eq 0 0"

function range_up :: "int \<Rightarrow> int \<Rightarrow> int list \<Rightarrow> int list" where
  "range_up i to result = (if i < to then range_up (i + 1) to (result @ [i]) else result)"
  by pat_completeness auto
termination by (relation "measure (\<lambda>(i, to, _). nat (to - i))") auto

function range_down :: "int \<Rightarrow> int \<Rightarrow> int list \<Rightarrow> int list" where
  "range_down i to result = (if i > to then range_down (i - 1) to (result @ [i]) else result)"
  by pat_completeness auto
termination by (relation "measure (\<lambda>(i, to, _). nat (i - to))") auto

declare range_up.simps [simp del] range_down.simps [simp del]

definition js_range :: "int \<Rightarrow> int option \<Rightarrow> int list" where
  "js_range arg to =
     (let (from, to) = (case to of Some t \<Rightarrow> (arg, t) | None \<Rightarrow> (0, arg))
      in if from \<le> to then range_up from to [] else range_down from to [])"

definition indexOf :: "'a list \<Rightarrow> 'a \<Rightarrow> int" where
  "indexOf arr value = findFirstIdx arr (\<lambda>x _. x = value) 0"

definition arrays_remove :: "'a list \<Rightarrow> 'a \<Rightarrow> 'a option \<times> 'a list" where
  "arrays_remove arr element =
     (let index = indexOf arr element
      in if index > - 1 then (Some element, js_splice arr (nat index) 1 []) else (None, arr))"

definition pushToStart :: "'a list \<Rightarrow> 'a \<Rightarrow> 'a list" where
  "pushToStart arr value =
     (let index = indexOf arr value
      in if index > - 1 then value # js_splice arr (nat index) 1 [] else arr)"

definition pushToEnd :: "'a list \<Rightarrow> 'a \<Rightarrow> 'a list" where
  "pushToEnd arr value =
     (let index = indexOf arr value
      in if index > - 1 then js_splice arr (nat index) 1 [] @ [value] else arr)"

fun mapFilter :: "'a list \<Rightarrow> ('a \<Rightarrow> 'b option) \<Rightarrow> 'b list" where
  "mapFilter [] fn = []"
| "mapFilter (item # rest) fn = opt_list (fn item) @ mapFilter rest fn"

text \<open>
  The shuffle of Fisher and Yates; \<open>rand i\<close> is \<open>Math.floor(rand() * (i + 1))\<close> in the round with
  index \<open>i\<close>.
\<close>

fun shuffle_loop :: "(nat \<Rightarrow> nat) \<Rightarrow> 'a list \<Rightarrow> nat \<Rightarrow> 'a list" where
  "shuffle_loop rand arr 0 = arr"
| "shuffle_loop rand arr (Suc i) =
     (let j = rand (Suc i); temp = arr ! Suc i
      in shuffle_loop rand ((arr[Suc i := arr ! j])[j := temp]) i)"

definition shuffle :: "(nat \<Rightarrow> nat) \<Rightarrow> 'a list \<Rightarrow> 'a list" where
  "shuffle rand arr = shuffle_loop rand arr (length arr - 1)"

fun js_sum :: "int \<Rightarrow> int list \<Rightarrow> int" where
  "js_sum acc [] = acc"
| "js_sum acc (value # rest) = js_sum (acc + value) rest"

definition sumBy :: "'a list \<Rightarrow> ('a \<Rightarrow> int) \<Rightarrow> int" where
  "sumBy arr selector = foldl (\<lambda>acc value. acc + selector value) 0 arr"

text \<open>What the loops compute.\<close>

lemma coalesceInPlace_loop_eq:
  "to \<le> i \<Longrightarrow> i \<le> length arr \<Longrightarrow>
   coalesceInPlace_loop truthy arr i to = take to arr @ filter truthy (drop i arr)"
proof (induction truthy arr i to rule: coalesceInPlace_loop.induct)
  case (1 truthy arr i to)
  show ?case
  proof (cases "i < length arr")
    case False
    then show ?thesis by (subst coalesceInPlace_loop.simps) simp
  next
    case True
    then have drop: "drop i arr = arr ! i # drop (i + 1) arr" by (simp add: Cons_nth_drop_Suc)
    have "take (to + 1) (arr[to := arr ! i]) = take to arr @ [arr ! i]"
      using "1.prems" True by (simp add: take_Suc_conv_app_nth)
    with 1 True drop show ?thesis
      by (subst coalesceInPlace_loop.simps) (simp add: drop_update_cancel)
  qed
qed

lemma coalesceInPlace_eq: "coalesceInPlace truthy arr = coalesce truthy arr"
  by (simp add: coalesceInPlace_def coalesce_def coalesceInPlace_loop_eq)

lemma distinct_loop_spec:
  "distinct (map f (distinct_loop f seen xs)) \<and> f ` set (distinct_loop f seen xs) = f ` set xs - seen"
  by (induction xs arbitrary: seen) (auto simp: Let_def)

lemma mset_shuffle_loop:
  "(\<And>i. rand i \<le> i) \<Longrightarrow> n < length arr \<Longrightarrow> mset (shuffle_loop rand arr n) = mset arr"
proof (induction n arbitrary: arr)
  case (Suc n)
  then have "rand (Suc n) < length arr" by (meson le_less_trans)
  with Suc show ?case by (simp add: Let_def mset_swap)
qed simp

lemma mset_shuffle: "(\<And>i. rand i \<le> i) \<Longrightarrow> mset (shuffle rand arr) = mset arr"
  by (cases arr) (simp_all add: shuffle_def mset_shuffle_loop)

lemma commonPrefixLength_loop_eq:
  "i \<le> length xs \<Longrightarrow> i \<le> length ys \<Longrightarrow>
   commonPrefixLength_loop xs ys eq i r =
     r + length (takeWhile (\<lambda>(x, y). eq x y) (zip (drop i xs) (drop i ys)))"
proof (induction xs ys eq i r rule: commonPrefixLength_loop.induct)
  case (1 xs ys eq i r)
  show ?case
  proof (cases "i < length xs \<and> i < length ys")
    case True
    then have "drop i xs = xs ! i # drop (i + 1) xs" "drop i ys = ys ! i # drop (i + 1) ys"
      by (simp_all add: Cons_nth_drop_Suc)
    with True 1 show ?thesis by (subst commonPrefixLength_loop.simps) simp
  next
    case False
    then show ?thesis by (subst commonPrefixLength_loop.simps) auto
  qed
qed

lemma range_up_eq: "range_up i to result = result @ [i..to - 1]"
proof (induction i to result rule: range_up.induct)
  case (1 i to result)
  then show ?case by (subst range_up.simps) (simp add: upto.simps [of i])
qed

lemma range_down_eq: "range_down i to result = result @ rev [to + 1..i]"
proof (induction i to result rule: range_down.induct)
  case (1 i to result)
  then show ?case by (subst range_down.simps) (simp add: upto_rec2)
qed

lemma js_range_eq:
  "js_range arg None = (if 0 \<le> arg then [0..arg - 1] else rev [arg + 1..0])"
  "js_range arg (Some to) = (if arg \<le> to then [arg..to - 1] else rev [to + 1..arg])"
  by (simp_all add: js_range_def range_up_eq range_down_eq)

subsection \<open>Insertion in place\<close>

definition getActualStartIndex :: "'a list \<Rightarrow> int \<Rightarrow> int" where
  "getActualStartIndex arr start =
     (if start < 0 then max (start + int (length arr)) 0 else min start (int (length arr)))"

text \<open>
  The array is first extended; the cells behind the old end are written before they are read, so their
  contents are the parameter \<open>hole\<close>.
\<close>

fun insertInto_move :: "'a list \<Rightarrow> nat \<Rightarrow> nat \<Rightarrow> nat \<Rightarrow> 'a list" where
  "insertInto_move arr newItemsLength startIdx 0 = arr"
| "insertInto_move arr newItemsLength startIdx (Suc i) =
     (if startIdx \<le> i then insertInto_move (arr[i + newItemsLength := arr ! i]) newItemsLength startIdx i
      else arr)"

fun insertInto_fill :: "'a list \<Rightarrow> nat \<Rightarrow> nat \<Rightarrow> 'a list \<Rightarrow> 'a list" where
  "insertInto_fill arr startIdx i [] = arr"
| "insertInto_fill arr startIdx i (item # items) = insertInto_fill (arr[i + startIdx := item]) startIdx (i + 1) items"

definition insertInto :: "'a \<Rightarrow> 'a list \<Rightarrow> int \<Rightarrow> 'a list \<Rightarrow> 'a list" where
  "insertInto hole arr start newItems =
     (let startIdx = nat (getActualStartIndex arr start);
          originalLength = length arr;
          newItemsLength = length newItems;
          extended = arr @ replicate newItemsLength hole;
          moved = insertInto_move extended newItemsLength startIdx originalLength
      in insertInto_fill moved startIdx 0 newItems)"

text \<open>The \<open>splice\<close> of the language for every start and count: the removed elements and the array.\<close>

definition native_splice :: "'a list \<Rightarrow> int \<Rightarrow> int \<Rightarrow> 'a list \<Rightarrow> 'a list \<times> 'a list" where
  "native_splice arr start deleteCount newItems =
     (let n = int (length arr);
          i = (if start < 0 then max (n + start) 0 else min start n);
          k = max 0 (min deleteCount (n - i))
      in (take (nat k) (drop (nat i) arr), js_splice arr (nat i) (nat k) newItems))"

definition arrays_splice :: "'a \<Rightarrow> 'a list \<Rightarrow> int \<Rightarrow> int \<Rightarrow> 'a list \<Rightarrow> 'a list \<times> 'a list" where
  "arrays_splice hole arr start deleteCount newItems =
     (let index = getActualStartIndex arr start;
          (result, arr') = native_splice arr index deleteCount []
      in (result, insertInto hole arr' index newItems))"

lemma insertInto_move_spec:
  assumes "length A = s" "length N = n"
  shows "insertInto_move (A @ B @ N) n s (s + length B) = A @ take n (B @ N) @ B"
  using assms
proof (induction B arbitrary: N rule: rev_induct)
  case Nil
  then show ?case by (cases s) simp_all
next
  case (snoc b B)
  have "(A @ (B @ [b]) @ N)[s + length B + n := b] = A @ B @ (b # N)[n := b]"
    using snoc.prems by (simp add: list_update_append)
  also have "(b # N)[n := b] = take n (b # N) @ [b]"
    using snoc.prems by (cases N rule: rev_cases) (auto simp: list_update_append nth_append split: nat.splits)
  finally have upd: "(A @ (B @ [b]) @ N)[s + length B + n := b] = (A @ B @ take n (b # N)) @ [b]" by simp
  have move: "insertInto_move (xs @ [b]) n s k = insertInto_move xs n s k @ [b]" if "k + n \<le> length xs" for xs k
    using that by (induction k arbitrary: xs) (simp_all add: nth_append list_update_append)
  have "insertInto_move (A @ (B @ [b]) @ N) n s (s + length (B @ [b])) =
      insertInto_move ((A @ B @ take n (b # N)) @ [b]) n s (s + length B)"
    using snoc.prems by (simp add: nth_append upd [simplified])
  also have "\<dots> = insertInto_move (A @ B @ take n (b # N)) n s (s + length B) @ [b]"
    using snoc.prems by (intro move) simp
  also have "\<dots> = A @ take n (B @ take n (b # N)) @ B @ [b]"
    using snoc.IH [of "take n (b # N)"] snoc.prems by simp
  also have "take n (B @ take n (b # N)) = take n ((B @ [b]) @ N)"
    by (simp add: take_Cons' min_def)
  finally show ?case by simp
qed

lemma insertInto_fill_spec:
  "length A = s + i \<Longrightarrow> length M = length items \<Longrightarrow>
   insertInto_fill (A @ M @ B) s i items = A @ items @ B"
proof (induction items arbitrary: A M i)
  case (Cons x xs)
  then obtain m M' where M: "M = m # M'" by (cases M) auto
  with Cons.prems Cons.IH [of "A @ [x]" "i + 1" M'] show ?case
    by (simp add: list_update_append add.commute [of i])
qed simp

lemma insertInto_eq:
  "insertInto hole arr start newItems =
     (let i = nat (getActualStartIndex arr start) in take i arr @ newItems @ drop i arr)"
proof -
  let ?i = "nat (getActualStartIndex arr start)" and ?n = "length newItems"
  have i: "?i \<le> length arr" by (auto simp: getActualStartIndex_def)
  then have A: "length (take ?i arr) = ?i" by simp
  let ?M = "take ?n (drop ?i arr @ replicate ?n hole)"
  have "insertInto_move ((take ?i arr @ drop ?i arr) @ replicate ?n hole) ?n ?i (?i + length (drop ?i arr)) =
      take ?i arr @ ?M @ drop ?i arr"
    using insertInto_move_spec [OF A length_replicate, where B = "drop ?i arr"] by (simp only: append_assoc)
  moreover have "?i + length (drop ?i arr) = length arr" using i by simp
  ultimately have "insertInto_move (arr @ replicate ?n hole) ?n ?i (length arr) = take ?i arr @ ?M @ drop ?i arr"
    by (simp only: append_take_drop_id)
  moreover have "insertInto_fill (take ?i arr @ ?M @ drop ?i arr) ?i 0 newItems = take ?i arr @ newItems @ drop ?i arr"
    using A by (intro insertInto_fill_spec) simp_all
  ultimately show ?thesis by (simp add: insertInto_def Let_def)
qed

lemma getActualStartIndex_range: "0 \<le> getActualStartIndex arr start" "getActualStartIndex arr start \<le> int (length arr)"
  by (auto simp: getActualStartIndex_def)

lemma getActualStartIndex_id: "0 \<le> i \<Longrightarrow> i \<le> int (length arr) \<Longrightarrow> getActualStartIndex arr i = i"
  by (simp add: getActualStartIndex_def)

lemma native_splice_start:
  "native_splice arr start d items =
     (let i = getActualStartIndex arr start; k = max 0 (min d (int (length arr) - i))
      in (take (nat k) (drop (nat i) arr), js_splice arr (nat i) (nat k) items))"
  unfolding native_splice_def getActualStartIndex_def Let_def add.commute [of start] by (rule refl)

lemma insertInto_splice:
  assumes "0 \<le> i" "i \<le> int (length arr)"
  shows "insertInto hole (js_splice arr (nat i) k []) i newItems = js_splice arr (nat i) k newItems"
proof -
  let ?arr = "js_splice arr (nat i) k []"
  have "nat i \<le> length ?arr" using assms by (simp add: js_splice_def)
  then have "getActualStartIndex ?arr i = i"
    using assms by (intro getActualStartIndex_id) linarith+
  then show ?thesis using assms by (simp add: insertInto_eq Let_def) (simp add: js_splice_def)
qed

lemma arrays_splice_eq: "arrays_splice hole arr start deleteCount newItems = native_splice arr start deleteCount newItems"
  using insertInto_splice [OF getActualStartIndex_range, of hole arr start _ newItems]
  by (simp only: arrays_splice_def native_splice_start [of arr] getActualStartIndex_id [OF getActualStartIndex_range]
      Let_def prod.case)

subsection \<open>\<open>ArrayQueue\<close>\<close>

record 'a ArrayQueue =
  aq_items :: "'a list"
  aq_firstIdx :: int
  aq_lastIdx :: int

definition ArrayQueue_new :: "'a list \<Rightarrow> 'a ArrayQueue" where
  "ArrayQueue_new items = \<lparr>aq_items = items, aq_firstIdx = 0, aq_lastIdx = int (length items) - 1\<rparr>"

definition ArrayQueue_length :: "'a ArrayQueue \<Rightarrow> int" where
  "ArrayQueue_length this = aq_lastIdx this - aq_firstIdx this + 1"

text \<open>The read \<open>this.items[i]\<close>.\<close>

definition item_at :: "'a list \<Rightarrow> int \<Rightarrow> 'a option" where
  "item_at items i = (if 0 \<le> i \<and> i < int (length items) then Some (items ! nat i) else None)"

text \<open>No operation moves the two indices out of the array, so the two loops read inside of it.\<close>

function aq_scan_up :: "'a list \<Rightarrow> int \<Rightarrow> ('a \<Rightarrow> bool) \<Rightarrow> int \<Rightarrow> int" where
  "aq_scan_up items lastIdx predicate startIdx =
     (if startIdx \<le> lastIdx \<and> predicate (items ! nat startIdx)
      then aq_scan_up items lastIdx predicate (startIdx + 1) else startIdx)"
  by pat_completeness auto
termination by (relation "measure (\<lambda>(_, j, _, i). nat (j + 1 - i))") auto

function aq_scan_down :: "'a list \<Rightarrow> int \<Rightarrow> ('a \<Rightarrow> bool) \<Rightarrow> int \<Rightarrow> int" where
  "aq_scan_down items firstIdx predicate endIdx =
     (if endIdx \<ge> firstIdx \<and> predicate (items ! nat endIdx)
      then aq_scan_down items firstIdx predicate (endIdx - 1) else endIdx)"
  by pat_completeness auto
termination by (relation "measure (\<lambda>(_, i, _, j). nat (j + 1 - i))") auto

declare aq_scan_up.simps [simp del] aq_scan_down.simps [simp del]

definition ArrayQueue_takeWhile :: "'a ArrayQueue \<Rightarrow> ('a \<Rightarrow> bool) \<Rightarrow> 'a list option \<times> 'a ArrayQueue" where
  "ArrayQueue_takeWhile this predicate =
     (let startIdx = aq_scan_up (aq_items this) (aq_lastIdx this) predicate (aq_firstIdx this);
          result = (if startIdx = aq_firstIdx this then None
                    else Some (js_slice (aq_items this) (aq_firstIdx this) startIdx))
      in (result, this\<lparr>aq_firstIdx := startIdx\<rparr>))"

definition ArrayQueue_takeFromEndWhile :: "'a ArrayQueue \<Rightarrow> ('a \<Rightarrow> bool) \<Rightarrow> 'a list option \<times> 'a ArrayQueue" where
  "ArrayQueue_takeFromEndWhile this predicate =
     (let endIdx = aq_scan_down (aq_items this) (aq_firstIdx this) predicate (aq_lastIdx this);
          result = (if endIdx = aq_lastIdx this then None
                    else Some (js_slice (aq_items this) (endIdx + 1) (aq_lastIdx this + 1)))
      in (result, this\<lparr>aq_lastIdx := endIdx\<rparr>))"

definition ArrayQueue_peek :: "'a ArrayQueue \<Rightarrow> 'a option" where
  "ArrayQueue_peek this =
     (if ArrayQueue_length this = 0 then None else item_at (aq_items this) (aq_firstIdx this))"

definition ArrayQueue_peekLast :: "'a ArrayQueue \<Rightarrow> 'a option" where
  "ArrayQueue_peekLast this =
     (if ArrayQueue_length this = 0 then None else item_at (aq_items this) (aq_lastIdx this))"

definition ArrayQueue_dequeue :: "'a ArrayQueue \<Rightarrow> 'a option \<times> 'a ArrayQueue" where
  "ArrayQueue_dequeue this =
     (item_at (aq_items this) (aq_firstIdx this), this\<lparr>aq_firstIdx := aq_firstIdx this + 1\<rparr>)"

definition ArrayQueue_removeLast :: "'a ArrayQueue \<Rightarrow> 'a option \<times> 'a ArrayQueue" where
  "ArrayQueue_removeLast this =
     (item_at (aq_items this) (aq_lastIdx this), this\<lparr>aq_lastIdx := aq_lastIdx this - 1\<rparr>)"

definition ArrayQueue_takeCount :: "'a ArrayQueue \<Rightarrow> int \<Rightarrow> 'a list \<times> 'a ArrayQueue" where
  "ArrayQueue_takeCount this k =
     (js_slice (aq_items this) (aq_firstIdx this) (aq_firstIdx this + k),
      this\<lparr>aq_firstIdx := aq_firstIdx this + k\<rparr>)"

text \<open>The operations as data, what they do to the list of the elements still in the queue, and how the
  class carries them out.\<close>

datatype 'a queue_op = Length | TakeWhile "'a \<Rightarrow> bool" | TakeFromEndWhile "'a \<Rightarrow> bool" | Peek | PeekLast
  | Dequeue | RemoveLast | TakeCount int

datatype 'a queue_result = Number int | Item "'a option" | Items "'a list option"

definition nonempty_list :: "'a list \<Rightarrow> 'a list option" where
  "nonempty_list xs = (if xs = [] then None else Some xs)"

fun queue_spec :: "'a list \<Rightarrow> 'a queue_op \<Rightarrow> 'a queue_result \<times> 'a list" where
  "queue_spec xs Length = (Number (int (length xs)), xs)"
| "queue_spec xs (TakeWhile p) = (Items (nonempty_list (takeWhile p xs)), dropWhile p xs)"
| "queue_spec xs (TakeFromEndWhile p) =
     (Items (nonempty_list (rev (takeWhile p (rev xs)))), rev (dropWhile p (rev xs)))"
| "queue_spec xs Peek = (Item (if xs = [] then None else Some (hd xs)), xs)"
| "queue_spec xs PeekLast = (Item (if xs = [] then None else Some (last xs)), xs)"
| "queue_spec xs Dequeue = (Item (Some (hd xs)), tl xs)"
| "queue_spec xs RemoveLast = (Item (Some (last xs)), butlast xs)"
| "queue_spec xs (TakeCount k) = (Items (Some (take (nat k) xs)), drop (nat k) xs)"

text \<open>The last three do not check that the elements they take are there.\<close>

fun queue_legal :: "'a list \<Rightarrow> 'a queue_op \<Rightarrow> bool" where
  "queue_legal xs Dequeue = (xs \<noteq> [])"
| "queue_legal xs RemoveLast = (xs \<noteq> [])"
| "queue_legal xs (TakeCount k) = (0 \<le> k \<and> k \<le> int (length xs))"
| "queue_legal xs _ = True"

fun ArrayQueue_step :: "'a ArrayQueue \<Rightarrow> 'a queue_op \<Rightarrow> js_error + 'a queue_result \<times> 'a ArrayQueue" where
  "ArrayQueue_step this Length = Inr (Number (ArrayQueue_length this), this)"
| "ArrayQueue_step this (TakeWhile p) = Inr (map_prod Items id (ArrayQueue_takeWhile this p))"
| "ArrayQueue_step this (TakeFromEndWhile p) = Inr (map_prod Items id (ArrayQueue_takeFromEndWhile this p))"
| "ArrayQueue_step this Peek = Inr (Item (ArrayQueue_peek this), this)"
| "ArrayQueue_step this PeekLast = Inr (Item (ArrayQueue_peekLast this), this)"
| "ArrayQueue_step this Dequeue = Inr (map_prod Item id (ArrayQueue_dequeue this))"
| "ArrayQueue_step this RemoveLast = Inr (map_prod Item id (ArrayQueue_removeLast this))"
| "ArrayQueue_step this (TakeCount k) = Inr (map_prod (Items \<circ> Some) id (ArrayQueue_takeCount this k))"

definition aq_contents :: "'a ArrayQueue \<Rightarrow> 'a list" where
  "aq_contents this = sub (aq_items this) (aq_firstIdx this) (aq_lastIdx this + 1)"

definition aq_inv :: "'a ArrayQueue \<Rightarrow> bool" where
  "aq_inv this \<longleftrightarrow> 0 \<le> aq_firstIdx this \<and> aq_firstIdx this \<le> aq_lastIdx this + 1 \<and>
     aq_lastIdx this < int (length (aq_items this))"

lemma aq_pieces:
  assumes "aq_inv this"
  obtains A B where "aq_items this = A @ aq_contents this @ B" "aq_firstIdx this = int (length A)"
    "aq_lastIdx this = int (length A) + int (length (aq_contents this)) - 1"
proof -
  let ?i = "nat (aq_firstIdx this)" and ?j = "nat (aq_lastIdx this + 1)"
  have ij: "nat (aq_lastIdx this + 1 - aq_firstIdx this) = ?j - ?i" "?i \<le> ?j" "?j \<le> length (aq_items this)"
    using assms by (auto simp: aq_inv_def)
  then have "?j - ?i \<le> length (aq_items this) - ?i" by (intro diff_le_mono)
  with ij have c: "aq_contents this = take (?j - ?i) (drop ?i (aq_items this))" "length (aq_contents this) = ?j - ?i"
    by (simp_all add: aq_contents_def sub_def min_absorb2)
  have "aq_items this = take ?i (aq_items this) @ aq_contents this @ drop ?j (aq_items this)"
    using ij(2) unfolding c(1)
    by (metis append_assoc append_take_drop_id drop_drop le_add_diff_inverse2 take_add le_add_diff_inverse)
  then show ?thesis using assms c(2) ij(2,3)
    by (intro that [of "take ?i (aq_items this)" "drop ?j (aq_items this)"]) (auto simp: aq_inv_def)
qed

text \<open>A queue whose array is cut in three has the middle as contents.\<close>

lemma aq_contentsI:
  assumes "aq_items this = A @ xs @ B" "aq_firstIdx this = int (length A)"
    "aq_lastIdx this = int (length A) + int (length xs) - 1"
  shows "aq_inv this \<and> aq_contents this = xs"
  using assms by (simp add: aq_inv_def aq_contents_def sub_def nat_add_distrib)

lemma aq_scan_up_spec:
  "lastIdx = int (length A) + int (length xs) - 1 \<Longrightarrow> i = int (length A) \<Longrightarrow>
   aq_scan_up (A @ xs @ B) lastIdx p i = i + int (length (takeWhile p xs))"
proof (induction xs arbitrary: A i)
  case Nil
  then show ?case by (subst aq_scan_up.simps) simp
next
  case (Cons x xs)
  from Cons.IH [of "A @ [x]" "i + 1"] Cons.prems show ?case
    by (subst aq_scan_up.simps) (simp add: nth_append)
qed

lemma aq_scan_down_spec:
  "firstIdx = int (length A) \<Longrightarrow> j = int (length A) + int (length xs) - 1 \<Longrightarrow>
   aq_scan_down (A @ xs @ B) firstIdx p j = j - int (length (takeWhile p (rev xs)))"
proof (induction xs arbitrary: B j rule: rev_induct)
  case Nil
  then show ?case by (subst aq_scan_down.simps) simp
next
  case (snoc x xs)
  have "nat j = length A + length xs" using snoc.prems by simp
  then have "(A @ (xs @ [x]) @ B) ! nat j = x" by (simp add: nth_append)
  with snoc.IH [of "j - 1" "x # B"] snoc.prems show ?case
    by (subst aq_scan_down.simps) simp
qed

lemma js_slice_piece:
  "i = int (length A) \<Longrightarrow> j = int (length A) + int (length xs) \<Longrightarrow> js_slice (A @ xs @ B) i j = xs"
  by (simp add: js_slice_def)

lemma item_at_piece:
  "i = int (length A) \<Longrightarrow> item_at (A @ x # B) i = Some x"
  by (simp add: item_at_def nth_append)

lemma ArrayQueue_takeWhile_spec:
  assumes "aq_items this = A @ xs @ B" "aq_firstIdx this = int (length A)"
    "aq_lastIdx this = int (length A) + int (length xs) - 1"
  shows "\<exists>q. ArrayQueue_takeWhile this p = (nonempty_list (takeWhile p xs), q) \<and> aq_inv q \<and>
    aq_contents q = dropWhile p xs"
proof -
  let ?t = "takeWhile p xs" and ?d = "dropWhile p xs"
  have scan: "aq_scan_up (aq_items this) (aq_lastIdx this) p (aq_firstIdx this) = int (length A) + int (length ?t)"
    using assms aq_scan_up_spec [of "aq_lastIdx this" A xs "aq_firstIdx this" B p] by simp
  have items: "aq_items this = A @ ?t @ ?d @ B" using assms(1) by simp
  then have slice: "js_slice (aq_items this) (aq_firstIdx this) (int (length A) + int (length ?t)) = ?t"
    using assms(2) js_slice_piece by metis
  let ?q = "this\<lparr>aq_firstIdx := int (length A) + int (length ?t)\<rparr>"
  have "length xs = length ?t + length ?d" by (metis length_append takeWhile_dropWhile_id)
  then have "aq_inv ?q \<and> aq_contents ?q = ?d"
    using items assms(3) by (intro aq_contentsI [of _ "A @ ?t" _ B]) simp_all
  then show ?thesis
    unfolding ArrayQueue_takeWhile_def Let_def scan slice nonempty_list_def using assms(2) by simp
qed

lemma ArrayQueue_takeFromEndWhile_spec:
  assumes "aq_items this = A @ xs @ B" "aq_firstIdx this = int (length A)"
    "aq_lastIdx this = int (length A) + int (length xs) - 1"
  shows "\<exists>q. ArrayQueue_takeFromEndWhile this p = (nonempty_list (rev (takeWhile p (rev xs))), q) \<and> aq_inv q \<and>
    aq_contents q = rev (dropWhile p (rev xs))"
proof -
  let ?t = "rev (takeWhile p (rev xs))" and ?d = "rev (dropWhile p (rev xs))"
  have xs: "xs = ?d @ ?t" by (metis rev_append rev_rev_ident takeWhile_dropWhile_id)
  then have len: "length xs = length ?d + length ?t" by (metis length_append)
  have scan: "aq_scan_down (aq_items this) (aq_firstIdx this) p (aq_lastIdx this) = aq_lastIdx this - int (length ?t)"
    using assms aq_scan_down_spec [of "aq_firstIdx this" A "aq_lastIdx this" xs B p] by simp
  have items: "aq_items this = (A @ ?d) @ ?t @ B" using assms(1) by (subst (asm) xs) simp
  have "js_slice ((A @ ?d) @ ?t @ B) (aq_lastIdx this - int (length ?t) + 1) (aq_lastIdx this + 1) = ?t"
    using assms(3) len by (intro js_slice_piece) simp_all
  then have slice: "js_slice (aq_items this) (aq_lastIdx this - int (length ?t) + 1) (aq_lastIdx this + 1) = ?t"
    by (simp only: items)
  let ?q = "this\<lparr>aq_lastIdx := aq_lastIdx this - int (length ?t)\<rparr>"
  have "aq_inv ?q \<and> aq_contents ?q = ?d"
    using items assms(2,3) len by (intro aq_contentsI [of _ A _ "?t @ B"]) simp_all
  then show ?thesis
    unfolding ArrayQueue_takeFromEndWhile_def Let_def scan slice nonempty_list_def by simp
qed

lemma ArrayQueue_step_refines:
  assumes "aq_inv this" "queue_legal (aq_contents this) a"
  shows "\<exists>q. ArrayQueue_step this a = Inr (fst (queue_spec (aq_contents this) a), q) \<and> aq_inv q \<and>
    aq_contents q = snd (queue_spec (aq_contents this) a)"
proof -
  obtain A B where q: "aq_items this = A @ aq_contents this @ B" "aq_firstIdx this = int (length A)"
    "aq_lastIdx this = int (length A) + int (length (aq_contents this)) - 1"
    using aq_pieces [OF assms(1)] .
  let ?xs = "aq_contents this"
  have len: "ArrayQueue_length this = int (length ?xs)" using q by (simp add: ArrayQueue_length_def)
  have first: "item_at (aq_items this) (aq_firstIdx this) = Some (hd ?xs)" if "?xs \<noteq> []"
  proof -
    have "?xs = hd ?xs # tl ?xs" using that by simp
    then have "aq_items this = A @ hd ?xs # tl ?xs @ B" using q(1) by (metis append_Cons)
    then show ?thesis using q(2) by (simp only: item_at_piece)
  qed
  have last: "item_at (aq_items this) (aq_lastIdx this) = Some (last ?xs)" if "?xs \<noteq> []"
  proof -
    have "item_at ((A @ butlast ?xs) @ last ?xs # B) (aq_lastIdx this) = Some (last ?xs)"
      using q(3) that by (intro item_at_piece) (simp add: of_nat_diff Suc_leI)
    moreover have "aq_items this = (A @ butlast ?xs) @ last ?xs # B"
      using q(1) append_butlast_last_id [OF that] by (metis append.assoc append_Cons append_Nil)
    ultimately show ?thesis by simp
  qed
  show ?thesis
  proof (cases a)
    case (TakeWhile p)
    with ArrayQueue_takeWhile_spec [OF q, of p] show ?thesis by auto
  next
    case (TakeFromEndWhile p)
    with ArrayQueue_takeFromEndWhile_spec [OF q, of p] show ?thesis by auto
  next
    case Dequeue
    with assms(2) have ne: "?xs \<noteq> []" by simp
    let ?q = "this\<lparr>aq_firstIdx := aq_firstIdx this + 1\<rparr>"
    have "aq_inv ?q \<and> aq_contents ?q = tl ?xs"
      using q ne by (intro aq_contentsI [of _ "A @ [hd ?xs]" _ B]) (auto simp: of_nat_diff Suc_leI)
    with Dequeue first [OF ne] show ?thesis by (simp add: ArrayQueue_dequeue_def)
  next
    case RemoveLast
    with assms(2) have ne: "?xs \<noteq> []" by simp
    let ?q = "this\<lparr>aq_lastIdx := aq_lastIdx this - 1\<rparr>"
    have "aq_items this = A @ butlast ?xs @ last ?xs # B"
      using q(1) append_butlast_last_id [OF ne] by (metis append.assoc append_Cons append_Nil)
    then have "aq_inv ?q \<and> aq_contents ?q = butlast ?xs"
      using q ne by (intro aq_contentsI [of _ A _ "last ?xs # B"]) (auto simp: of_nat_diff Suc_leI)
    with RemoveLast last [OF ne] show ?thesis by (simp add: ArrayQueue_removeLast_def)
  next
    case (TakeCount k)
    with assms(2) have k: "0 \<le> k" "k \<le> int (length ?xs)" by simp_all
    let ?q = "this\<lparr>aq_firstIdx := aq_firstIdx this + k\<rparr>"
    have items: "aq_items this = A @ take (nat k) ?xs @ drop (nat k) ?xs @ B" using q(1) by simp
    have "js_slice (A @ take (nat k) ?xs @ drop (nat k) ?xs @ B) (aq_firstIdx this) (aq_firstIdx this + k) = take (nat k) ?xs"
      using q(2) k by (intro js_slice_piece) simp_all
    moreover have "aq_inv ?q \<and> aq_contents ?q = drop (nat k) ?xs"
      using q k items by (intro aq_contentsI [of _ "A @ take (nat k) ?xs" _ B]) (simp_all add: of_nat_diff)
    ultimately show ?thesis using TakeCount items by (simp add: ArrayQueue_takeCount_def)
  qed (use assms(1) len first last in \<open>auto simp: ArrayQueue_peek_def ArrayQueue_peekLast_def\<close>)
qed

interpretation array_queue: object_refinement ArrayQueue_step aq_inv aq_contents queue_spec queue_legal
  by unfold_locales (rule ArrayQueue_step_refines)

lemma ArrayQueue_new_ok: "aq_inv (ArrayQueue_new items)" "aq_contents (ArrayQueue_new items) = items"
  using aq_contentsI [of "ArrayQueue_new items" "[]" items "[]"] by (simp_all add: ArrayQueue_new_def)

text \<open>
  C20. An \<open>ArrayQueue\<close>, which never copies or changes its array but moves two indices, answers any
  sequence of operations like the list of the elements not yet taken: \<open>takeWhile\<close> and
  \<open>takeFromEndWhile\<close> return the longest prefix or suffix that satisfies the predicate (\<open>null\<close> if
  there is none), in the order of the array, and leave the rest. Hypothesis: \<open>dequeue\<close>,
  \<open>removeLast\<close> and \<open>takeCount\<close> are called only while the elements they take are there.
\<close>

theorem ArrayQueue_refines:
  assumes "legal_run queue_legal queue_spec items ops"
  shows "\<exists>q. run_object ArrayQueue_step (ArrayQueue_new items) ops = Inr (fst (run_spec queue_spec items ops), q) \<and>
    aq_contents q = snd (run_spec queue_spec items ops) \<and>
    ArrayQueue_length q = int (length (snd (run_spec queue_spec items ops)))"
proof -
  from array_queue.run_refines [of "ArrayQueue_new items" ops] assms obtain q where q:
    "run_object ArrayQueue_step (ArrayQueue_new items) ops = Inr (fst (run_spec queue_spec items ops), q)"
    "aq_inv q" "aq_contents q = snd (run_spec queue_spec items ops)"
    by (auto simp: ArrayQueue_new_ok)
  obtain A B where "aq_items q = A @ aq_contents q @ B" and idx: "aq_firstIdx q = int (length A)"
    "aq_lastIdx q = int (length A) + int (length (aq_contents q)) - 1"
    using aq_pieces [OF q(2)] .
  from idx have len: "ArrayQueue_length q = int (length (aq_contents q))"
    unfolding ArrayQueue_length_def by linarith
  show ?thesis by (intro exI [of _ q] conjI q(1) q(3)) (simp only: len q(3))
qed

theorem ArrayQueue_refines_witness:
  "\<exists>q. run_object ArrayQueue_step (ArrayQueue_new [1, 2, 8, 9, 3, 4])
     [TakeWhile (\<lambda>x. x < 5), TakeFromEndWhile (\<lambda>x. x < (4::int)), PeekLast, RemoveLast, TakeCount 1, Length] =
       Inr ([Items (Some [1, 2]), Items None, Item (Some 4), Item (Some 4), Items (Some [8]), Number 2], q) \<and>
     aq_contents q = [9, 3]"
proof -
  let ?ops = "[TakeWhile (\<lambda>x. x < 5), TakeFromEndWhile (\<lambda>x. x < (4::int)), PeekLast, RemoveLast, TakeCount 1, Length]"
  have "legal_run queue_legal queue_spec [1, 2, 8, 9, 3, 4] ?ops"
    by simp
  from ArrayQueue_refines [OF this] obtain q where
    "run_object ArrayQueue_step (ArrayQueue_new [1, 2, 8, 9, 3, 4]) ?ops =
       Inr (fst (run_spec queue_spec [1, 2, 8, 9, 3, 4] ?ops), q)"
    "aq_contents q = snd (run_spec queue_spec [1, 2, 8, 9, 3, 4] ?ops)"
    by blast
  moreover have "run_spec queue_spec [1, 2, 8, 9, 3, 4] ?ops =
      ([Items (Some [1, 2]), Items None, Item (Some 4), Item (Some 4), Items (Some [8]), Number 2], [9, 3])"
    by (simp add: nonempty_list_def)
  ultimately show ?thesis by (intro exI [of _ q]) (simp only: fst_conv snd_conv simp_thms)
qed

subsection \<open>\<open>Permutation\<close>\<close>

record Permutation =
  perm_indexMap :: "int list"

definition createSortPermutation :: "'a list \<Rightarrow> 'a cmp \<Rightarrow> Permutation" where
  "createSortPermutation arr compareFn =
     \<lparr>perm_indexMap = map int (js_sort (\<lambda>index1 index2. compareFn (arr ! index1) (arr ! index2)) [0..<length arr])\<rparr>"

definition Permutation_apply :: "Permutation \<Rightarrow> 'a list \<Rightarrow> 'a option list" where
  "Permutation_apply this arr =
     map (\<lambda>index. Option.bind (item_at (perm_indexMap this) (int index)) (item_at arr)) [0..<length arr]"

definition inverse_step :: "int list \<Rightarrow> int list \<Rightarrow> nat \<Rightarrow> int list" where
  "inverse_step indexMap inverseIndexMap i = inverseIndexMap[nat (indexMap ! i) := int i]"

definition Permutation_inverse :: "Permutation \<Rightarrow> Permutation" where
  "Permutation_inverse this =
     \<lparr>perm_indexMap = foldl (inverse_step (perm_indexMap this)) (perm_indexMap this) [0..<length (perm_indexMap this)]\<rparr>"

text \<open>The index maps of re-arrangements of \<open>n\<close> items.\<close>

definition is_permutation :: "Permutation \<Rightarrow> nat \<Rightarrow> bool" where
  "is_permutation p n \<longleftrightarrow> distinct (perm_indexMap p) \<and> set (perm_indexMap p) = int ` {..<n}"

lemma is_permutation_length: "is_permutation p n \<Longrightarrow> length (perm_indexMap p) = n"
  unfolding is_permutation_def by (metis card_image card_lessThan distinct_card inj_on_of_nat)

lemma inverse_fold_length: "length (foldl (inverse_step m) v is) = length v"
  by (induction "is" arbitrary: v) (simp_all add: inverse_step_def)

lemma inverse_fold:
  assumes "distinct m" "set m \<subseteq> int ` {..<length v}"
  shows "k \<le> length m \<Longrightarrow> i < k \<Longrightarrow> foldl (inverse_step m) v [0..<k] ! nat (m ! i) = int i"
proof (induction k)
  case (Suc k)
  have range: "m ! j \<in> int ` {..<length v}" if "j < length m" for j
    using assms(2) that by (meson nth_mem subsetD)
  show ?case
  proof (cases "i = k")
    case True
    with range [of k] Suc.prems show ?thesis
      by (auto simp: inverse_step_def [where i = k] inverse_fold_length)
  next
    case False
    with Suc.prems have ik: "i < k" "k < length m" by auto
    then have "m ! i \<noteq> m ! k" using assms(1) by (simp add: nth_eq_iff_index_eq)
    then have "nat (m ! i) \<noteq> nat (m ! k)" using range [of i] range [of k] ik by auto
    with Suc.IH ik show ?thesis by (simp add: inverse_step_def [where i = k])
  qed
qed simp

lemma Permutation_inverse_nth:
  assumes "is_permutation p n" "i < n"
  shows "perm_indexMap (Permutation_inverse p) ! nat (perm_indexMap p ! i) = int i"
  using assms is_permutation_length [OF assms(1)]
  by (simp add: Permutation_inverse_def is_permutation_def inverse_fold)

lemma is_permutation_onto:
  assumes "is_permutation p n" "k < n"
  obtains i where "i < n" "perm_indexMap p ! i = int k"
proof -
  have "int k \<in> set (perm_indexMap p)" using assms by (simp add: is_permutation_def)
  then show ?thesis using that is_permutation_length [OF assms(1)] by (auto simp: in_set_conv_nth)
qed

lemma is_permutation_nth:
  assumes "is_permutation p n" "i < n"
  obtains k where "k < n" "perm_indexMap p ! i = int k"
proof -
  have "perm_indexMap p ! i \<in> int ` {..<n}"
    using assms is_permutation_length [OF assms(1)] nth_mem unfolding is_permutation_def by blast
  then show ?thesis using that by auto
qed

lemma Permutation_apply_nth:
  assumes "is_permutation p (length arr)" "i < length arr"
  shows "Permutation_apply p arr ! i = Some (arr ! nat (perm_indexMap p ! i))"
  using assms is_permutation_length [OF assms(1)]
  by (auto simp: Permutation_apply_def item_at_def elim: is_permutation_nth)

lemma Permutation_inverse_apply:
  assumes p: "is_permutation p (length arr)"
  shows "Permutation_apply (Permutation_inverse p) (map the (Permutation_apply p arr)) = map Some arr"
proof (rule nth_equalityI)
  let ?arr = "map the (Permutation_apply p arr)"
  have len: "length ?arr = length arr" by (simp add: Permutation_apply_def)
  then show "length (Permutation_apply (Permutation_inverse p) ?arr) = length (map Some arr)"
    by (simp add: Permutation_apply_def)
  fix k
  assume "k < length (Permutation_apply (Permutation_inverse p) ?arr)"
  then have k: "k < length arr" using len by (simp add: Permutation_apply_def)
  obtain i where i: "i < length arr" "perm_indexMap p ! i = int k" using is_permutation_onto [OF p k] .
  from Permutation_inverse_nth [OF p i(1)] i(2) have inv: "perm_indexMap (Permutation_inverse p) ! k = int i" by simp
  have "length (perm_indexMap (Permutation_inverse p)) = length arr"
    using is_permutation_length [OF p] by (simp add: Permutation_inverse_def inverse_fold_length)
  then have "Permutation_apply (Permutation_inverse p) ?arr ! k = Some (?arr ! i)"
    using inv i(1) k len unfolding Permutation_apply_def [of "Permutation_inverse p"] by (simp add: item_at_def)
  also have "?arr ! i = arr ! k"
    using Permutation_apply_nth [OF p i(1)] i len by (simp add: Permutation_apply_def)
  finally show "Permutation_apply (Permutation_inverse p) ?arr ! k = map Some arr ! k" using k by simp
qed

lemma sort_insert_map: "map f (sort_insert (\<lambda>i j. c (f i) (f j)) x xs) = sort_insert c (f x) (map f xs)"
  by (simp add: sort_insert_def takeWhile_map dropWhile_map comp_def)

lemma js_sort_map: "map f (js_sort (\<lambda>i j. c (f i) (f j)) xs) = js_sort c (map f xs)"
  by (induction xs rule: rev_induct) (simp_all add: sort_insert_map)

lemma createSortPermutation_ok: "is_permutation (createSortPermutation arr c) (length arr)"
proof -
  let ?is = "js_sort (\<lambda>i j. c (arr ! i) (arr ! j)) [0..<length arr]"
  have "distinct ?is" using mset_eq_imp_distinct_iff [of ?is "[0..<length arr]"] by simp
  then show ?thesis
    by (auto simp: is_permutation_def createSortPermutation_def distinct_map lessThan_atLeast0)
qed

lemma createSortPermutation_sorts: "Permutation_apply (createSortPermutation arr c) arr = map Some (js_sort c arr)"
proof (rule nth_equalityI)
  let ?p = "createSortPermutation arr c"
  show "length (Permutation_apply ?p arr) = length (map Some (js_sort c arr))" by (simp add: Permutation_apply_def)
  fix i
  assume "i < length (Permutation_apply ?p arr)"
  then have i: "i < length arr" by (simp add: Permutation_apply_def)
  have "js_sort c arr = map ((!) arr) (js_sort (\<lambda>i j. c (arr ! i) (arr ! j)) [0..<length arr])"
    using js_sort_map [of "(!) arr" c "[0..<length arr]"] by (simp add: map_nth)
  then have "js_sort c arr ! i = arr ! nat (perm_indexMap ?p ! i)"
    using i by (simp add: createSortPermutation_def)
  with Permutation_apply_nth [OF createSortPermutation_ok i] i show "Permutation_apply ?p arr ! i = map Some (js_sort c arr) ! i"
    by simp
qed

text \<open>
  A \<open>Permutation\<close> re-arranges and its inverse puts back. For every array and comparator
  \<open>createSortPermutation\<close> followed by \<open>apply\<close> sorts the array as the sort of the language does,
  reading inside of the array only; and for every index map that is a re-arrangement of the indices of
  the array, applying the inverse to the re-arranged array gives the array.
\<close>

theorem Permutation_roundtrip:
  assumes "is_permutation p (length arr)"
  shows "Permutation_apply (Permutation_inverse p) (map the (Permutation_apply p arr)) = map Some arr \<and>
    None \<notin> set (Permutation_apply p arr) \<and>
    is_permutation (createSortPermutation arr compareFn) (length arr) \<and>
    Permutation_apply (createSortPermutation arr compareFn) arr = map Some (js_sort compareFn arr)"
proof -
  have "None \<notin> set (Permutation_apply p arr)"
    using Permutation_apply_nth [OF assms]
    by (auto simp: in_set_conv_nth) (simp add: Permutation_apply_def)
  then show ?thesis
    using Permutation_inverse_apply [OF assms] createSortPermutation_ok createSortPermutation_sorts by blast
qed

theorem Permutation_roundtrip_witness:
  "Permutation_apply (Permutation_inverse (createSortPermutation [4, 9, 2, 4] numberComparator)) [2, 4, 4, 9 :: int] =
     map Some [4, 9, 2, 4]"
proof -
  have p: "is_permutation (createSortPermutation [4, 9, 2, 4] numberComparator) (length [4, 9, 2, 4 :: int])"
    by (rule createSortPermutation_ok)
  have "js_sort numberComparator [4, 9, 2, 4] = [2, 4, 4, 9]"
    by (simp add: js_sort_def sort_insert_def numberComparator_def)
  with Permutation_roundtrip [OF p] createSortPermutation_sorts [of "[4, 9, 2, 4]" numberComparator]
  show ?thesis by simp
qed

end
