(* ===== verification/Sequence_Diff.thy ===== *)
theory Sequence_Diff
  imports Offset_Range
begin

text \<open>
  \<open>src/vs/editor/common/diff/defaultLinesDiffComputer/algorithms/diffAlgorithm.ts\<close>: the result
  of a diff algorithm, a list of \<open>SequenceDiff\<close>s that say which range of the first sequence is
  replaced by which range of the second. A sequence is a list: \<open>getElement\<close> is its element at an
  offset, \<open>length\<close> its length.

  The theory defines what every diff algorithm of the editor has to deliver, a \<^emph>\<open>valid\<close> diff: the
  ranges are in order and inside of the sequences, and what lies between two diffs is the same in both
  sequences. Replacing the ranges of a valid diff turns one sequence into the other.
\<close>

record OffsetPair =
  op_offset1 :: int
  op_offset2 :: int

definition OffsetPair_zero :: OffsetPair where
  "OffsetPair_zero = \<lparr>op_offset1 = 0, op_offset2 = 0\<rparr>"

definition OffsetPair_max :: OffsetPair where
  "OffsetPair_max = \<lparr>op_offset1 = 9007199254740991, op_offset2 = 9007199254740991\<rparr>"

definition OffsetPair_delta :: "OffsetPair \<Rightarrow> int \<Rightarrow> OffsetPair" where
  "OffsetPair_delta this offset =
     (if offset = 0 then this
      else \<lparr>op_offset1 = op_offset1 this + offset, op_offset2 = op_offset2 this + offset\<rparr>)"

definition OffsetPair_equals :: "OffsetPair \<Rightarrow> OffsetPair \<Rightarrow> bool" where
  "OffsetPair_equals this other \<longleftrightarrow>
     op_offset1 this = op_offset1 other \<and> op_offset2 this = op_offset2 other"

record SequenceDiff =
  sd_seq1Range :: OffsetRange
  sd_seq2Range :: OffsetRange

definition SequenceDiff_new :: "OffsetRange \<Rightarrow> OffsetRange \<Rightarrow> SequenceDiff" where
  "SequenceDiff_new r1 r2 = \<lparr>sd_seq1Range = r1, sd_seq2Range = r2\<rparr>"

text \<open>Two ranges are constructed one after the other, and either construction may throw.\<close>

definition SequenceDiff_both :: "js_error + OffsetRange \<Rightarrow> js_error + OffsetRange \<Rightarrow> js_error + SequenceDiff" where
  "SequenceDiff_both m1 m2 = bindE m1 (\<lambda>r1. bindE m2 (\<lambda>r2. Inr (SequenceDiff_new r1 r2)))"

definition SequenceDiff_fromOffsetPairs :: "OffsetPair \<Rightarrow> OffsetPair \<Rightarrow> js_error + SequenceDiff" where
  "SequenceDiff_fromOffsetPairs start endExclusive =
     SequenceDiff_both (OffsetRange_new (op_offset1 start) (op_offset1 endExclusive))
       (OffsetRange_new (op_offset2 start) (op_offset2 endExclusive))"

definition SequenceDiff_swap :: "SequenceDiff \<Rightarrow> SequenceDiff" where
  "SequenceDiff_swap this = SequenceDiff_new (sd_seq2Range this) (sd_seq1Range this)"

definition SequenceDiff_join :: "SequenceDiff \<Rightarrow> SequenceDiff \<Rightarrow> js_error + SequenceDiff" where
  "SequenceDiff_join this other =
     SequenceDiff_both (OffsetRange_join (sd_seq1Range this) (sd_seq1Range other))
       (OffsetRange_join (sd_seq2Range this) (sd_seq2Range other))"

definition SequenceDiff_delta :: "SequenceDiff \<Rightarrow> int \<Rightarrow> js_error + SequenceDiff" where
  "SequenceDiff_delta this offset =
     (if offset = 0 then Inr this
      else SequenceDiff_both (OffsetRange_delta (sd_seq1Range this) offset)
        (OffsetRange_delta (sd_seq2Range this) offset))"

definition SequenceDiff_deltaStart :: "SequenceDiff \<Rightarrow> int \<Rightarrow> js_error + SequenceDiff" where
  "SequenceDiff_deltaStart this offset =
     (if offset = 0 then Inr this
      else SequenceDiff_both (OffsetRange_deltaStart (sd_seq1Range this) offset)
        (OffsetRange_deltaStart (sd_seq2Range this) offset))"

definition SequenceDiff_deltaEnd :: "SequenceDiff \<Rightarrow> int \<Rightarrow> js_error + SequenceDiff" where
  "SequenceDiff_deltaEnd this offset =
     (if offset = 0 then Inr this
      else SequenceDiff_both (OffsetRange_deltaEnd (sd_seq1Range this) offset)
        (OffsetRange_deltaEnd (sd_seq2Range this) offset))"

definition SequenceDiff_intersectsOrTouches :: "SequenceDiff \<Rightarrow> SequenceDiff \<Rightarrow> bool" where
  "SequenceDiff_intersectsOrTouches this other \<longleftrightarrow>
     OffsetRange_intersectsOrTouches (sd_seq1Range this) (sd_seq1Range other) \<or>
     OffsetRange_intersectsOrTouches (sd_seq2Range this) (sd_seq2Range other)"

definition SequenceDiff_intersect :: "SequenceDiff \<Rightarrow> SequenceDiff \<Rightarrow> js_error + SequenceDiff option" where
  "SequenceDiff_intersect this other =
     bindE (OffsetRange_intersect (sd_seq1Range this) (sd_seq1Range other)) (\<lambda>i1.
     bindE (OffsetRange_intersect (sd_seq2Range this) (sd_seq2Range other)) (\<lambda>i2.
       Inr (case (i1, i2) of (Some r1, Some r2) \<Rightarrow> Some (SequenceDiff_new r1 r2) | _ \<Rightarrow> None)))"

definition SequenceDiff_getStarts :: "SequenceDiff \<Rightarrow> OffsetPair" where
  "SequenceDiff_getStarts this =
     \<lparr>op_offset1 = or_start (sd_seq1Range this), op_offset2 = or_start (sd_seq2Range this)\<rparr>"

definition SequenceDiff_getEndExclusives :: "SequenceDiff \<Rightarrow> OffsetPair" where
  "SequenceDiff_getEndExclusives this =
     \<lparr>op_offset1 = or_endExclusive (sd_seq1Range this), op_offset2 = or_endExclusive (sd_seq2Range this)\<rparr>"

text \<open>The round of \<open>invert\<close> for two neighbours, and \<open>forEachAdjacent\<close> over the diffs.\<close>

definition invert_step :: "int \<Rightarrow> SequenceDiff option \<Rightarrow> SequenceDiff option \<Rightarrow> js_error + SequenceDiff" where
  "invert_step doc1Length a b =
     SequenceDiff_fromOffsetPairs
       (case a of Some a \<Rightarrow> SequenceDiff_getEndExclusives a | None \<Rightarrow> OffsetPair_zero)
       (case b of Some b \<Rightarrow> SequenceDiff_getStarts b
        | None \<Rightarrow> \<lparr>op_offset1 = doc1Length,
            op_offset2 = (case a of
              Some a \<Rightarrow> or_endExclusive (sd_seq2Range a) - or_endExclusive (sd_seq1Range a)
            | None \<Rightarrow> 0) + doc1Length\<rparr>)"

fun invert_loop :: "int \<Rightarrow> SequenceDiff option \<Rightarrow> SequenceDiff list \<Rightarrow> js_error + SequenceDiff list" where
  "invert_loop doc1Length a [] = bindE (invert_step doc1Length a None) (\<lambda>d. Inr [d])"
| "invert_loop doc1Length a (b # ds) =
     bindE (invert_step doc1Length a (Some b)) (\<lambda>d.
     bindE (invert_loop doc1Length (Some b) ds) (\<lambda>result. Inr (d # result)))"

definition SequenceDiff_invert :: "SequenceDiff list \<Rightarrow> int \<Rightarrow> js_error + SequenceDiff list" where
  "SequenceDiff_invert sequenceDiffs doc1Length = invert_loop doc1Length None sequenceDiffs"

fun assertSorted_loop :: "SequenceDiff option \<Rightarrow> SequenceDiff list \<Rightarrow> js_error + unit" where
  "assertSorted_loop lastDiff [] = Inr ()"
| "assertSorted_loop lastDiff (cur # ds) =
     (if (case lastDiff of
            Some l \<Rightarrow> \<not> (or_endExclusive (sd_seq1Range l) \<le> or_start (sd_seq1Range cur) \<and>
                         or_endExclusive (sd_seq2Range l) \<le> or_start (sd_seq2Range cur))
          | None \<Rightarrow> False)
      then Inl BugIndicatingError else assertSorted_loop (Some cur) ds)"

definition SequenceDiff_assertSorted :: "SequenceDiff list \<Rightarrow> js_error + unit" where
  "SequenceDiff_assertSorted sequenceDiffs = assertSorted_loop None sequenceDiffs"

record DiffAlgorithmResult =
  dr_diffs :: "SequenceDiff list"
  dr_hitTimeout :: bool

definition DiffAlgorithmResult_trivial_with :: "bool \<Rightarrow> 'a list \<Rightarrow> 'a list \<Rightarrow> js_error + DiffAlgorithmResult" where
  "DiffAlgorithmResult_trivial_with hitTimeout seq1 seq2 =
     bindE (SequenceDiff_both (OffsetRange_ofLength (int (length seq1))) (OffsetRange_ofLength (int (length seq2))))
       (\<lambda>d. Inr \<lparr>dr_diffs = [d], dr_hitTimeout = hitTimeout\<rparr>)"

definition DiffAlgorithmResult_trivial :: "'a list \<Rightarrow> 'a list \<Rightarrow> js_error + DiffAlgorithmResult" where
  "DiffAlgorithmResult_trivial = DiffAlgorithmResult_trivial_with False"

definition DiffAlgorithmResult_trivialTimedOut :: "'a list \<Rightarrow> 'a list \<Rightarrow> js_error + DiffAlgorithmResult" where
  "DiffAlgorithmResult_trivialTimedOut = DiffAlgorithmResult_trivial_with True"

subsection \<open>Valid diffs\<close>

abbreviation start1 :: "SequenceDiff \<Rightarrow> int" where "start1 d \<equiv> or_start (sd_seq1Range d)"
abbreviation end1 :: "SequenceDiff \<Rightarrow> int" where "end1 d \<equiv> or_endExclusive (sd_seq1Range d)"
abbreviation start2 :: "SequenceDiff \<Rightarrow> int" where "start2 d \<equiv> or_start (sd_seq2Range d)"
abbreviation end2 :: "SequenceDiff \<Rightarrow> int" where "end2 d \<equiv> or_endExclusive (sd_seq2Range d)"

text \<open>The sequences agree on the \<open>n\<close> elements from two offsets on.\<close>

definition agree :: "'a list \<Rightarrow> 'a list \<Rightarrow> int \<Rightarrow> int \<Rightarrow> int \<Rightarrow> bool" where
  "agree xs ys i j n \<longleftrightarrow> 0 \<le> i \<and> 0 \<le> j \<and> 0 \<le> n \<and> i + n \<le> int (length xs) \<and> j + n \<le> int (length ys) \<and>
     (\<forall>k. 0 \<le> k \<and> k < n \<longrightarrow> xs ! nat (i + k) = ys ! nat (j + k))"

fun valid_from :: "'a list \<Rightarrow> 'a list \<Rightarrow> int \<Rightarrow> int \<Rightarrow> SequenceDiff list \<Rightarrow> bool" where
  "valid_from xs ys i j [] \<longleftrightarrow>
     int (length xs) - i = int (length ys) - j \<and> agree xs ys i j (int (length xs) - i)"
| "valid_from xs ys i j (d # ds) \<longleftrightarrow>
     start1 d - i = start2 d - j \<and> agree xs ys i j (start1 d - i) \<and>
     start1 d \<le> end1 d \<and> start2 d \<le> end2 d \<and> valid_from xs ys (end1 d) (end2 d) ds"

definition valid_diff :: "'a list \<Rightarrow> 'a list \<Rightarrow> SequenceDiff list \<Rightarrow> bool" where
  "valid_diff xs ys ds = valid_from xs ys 0 0 ds"

text \<open>Each diff changes something, and two diffs have an element in common between them.\<close>

definition effective :: "SequenceDiff \<Rightarrow> bool" where
  "effective d \<longleftrightarrow> start1 d < end1 d \<or> start2 d < end2 d"

definition proper_diff :: "SequenceDiff list \<Rightarrow> bool" where
  "proper_diff ds \<longleftrightarrow> (\<forall>d \<in> set ds. effective d) \<and>
     successively (\<lambda>d e. end1 d < start1 e \<and> end2 d < start2 e) ds"

text \<open>Replacing the ranges of the first sequence.\<close>

fun apply_from :: "'a list \<Rightarrow> 'a list \<Rightarrow> int \<Rightarrow> SequenceDiff list \<Rightarrow> 'a list" where
  "apply_from xs ys i [] = sub xs i (int (length xs))"
| "apply_from xs ys i (d # ds) = sub xs i (start1 d) @ sub ys (start2 d) (end2 d) @ apply_from xs ys (end1 d) ds"

lemma agree_sub:
  assumes "agree xs ys i j n"
  shows "sub xs i (i + n) = sub ys j (j + n)"
proof (rule nth_equalityI)
  have len: "length (sub xs i (i + n)) = nat n" "length (sub ys j (j + n)) = nat n"
    using assms by (auto simp: agree_def sub_def)
  then show "length (sub xs i (i + n)) = length (sub ys j (j + n))" by simp
  fix k
  assume "k < length (sub xs i (i + n))"
  then have k: "int k < n" "k < nat n" using len assms by (auto simp: agree_def)
  moreover have "nat i + k = nat (i + int k)" "nat j + k = nat (j + int k)"
    using assms by (auto simp: agree_def nat_add_distrib)
  moreover have "nat i \<le> length xs" "nat j \<le> length ys" "xs ! nat (i + int k) = ys ! nat (j + int k)"
    using assms k(1) by (auto simp: agree_def)
  ultimately show "sub xs i (i + n) ! k = sub ys j (j + n) ! k"
    by (simp add: sub_def)
qed

lemma agree_append:
  assumes "agree xs ys i j n" "agree xs ys (i + n) (j + n) m"
  shows "agree xs ys i j (n + m)"
  unfolding agree_def
proof (intro conjI allI impI)
  fix k
  assume k: "0 \<le> k \<and> k < n + m"
  show "xs ! nat (i + k) = ys ! nat (j + k)"
  proof (cases "k < n")
    case True
    with assms(1) k show ?thesis by (simp add: agree_def)
  next
    case False
    moreover have "\<forall>l. 0 \<le> l \<and> l < m \<longrightarrow> xs ! nat (i + n + l) = ys ! nat (j + n + l)"
      using assms(2) by (simp add: agree_def)
    ultimately have "xs ! nat (i + n + (k - n)) = ys ! nat (j + n + (k - n))" using k by (auto dest: spec [of _ "k - n"])
    then show ?thesis by (simp add: algebra_simps)
  qed
qed (use assms in \<open>auto simp: agree_def\<close>)

lemma agree_part:
  assumes "agree xs ys i j n" "0 \<le> k" "0 \<le> m" "k + m \<le> n"
  shows "agree xs ys (i + k) (j + k) m"
proof -
  have "xs ! nat (i + k + l) = ys ! nat (j + k + l)" if "0 \<le> l" "l < m" for l
    using assms(1) [unfolded agree_def] that assms(2,4) by (auto simp: add.assoc dest: spec [of _ "k + l"])
  then show ?thesis using assms by (auto simp: agree_def)
qed

lemma agree_0: "agree xs ys i j 0 \<longleftrightarrow> 0 \<le> i \<and> 0 \<le> j \<and> i \<le> int (length xs) \<and> j \<le> int (length ys)"
  by (auto simp: agree_def)

lemma agree_1:
  "0 \<le> i \<Longrightarrow> 0 \<le> j \<Longrightarrow> i < int (length xs) \<Longrightarrow> j < int (length ys) \<Longrightarrow>
   agree xs ys i j 1 \<longleftrightarrow> xs ! nat i = ys ! nat j"
  by (auto simp: agree_def dest: spec [of _ 0])
    (metis add.commute add_0 int_one_le_iff_zero_less linorder_not_less order_antisym_conv zless_iff_Suc_zadd)

lemma valid_from_le: "valid_from xs ys i j ds \<Longrightarrow> 0 \<le> i \<and> 0 \<le> j \<and> i \<le> int (length xs) \<and> j \<le> int (length ys)"
  by (cases ds) (auto simp: agree_def)

lemma valid_from_extend:
  assumes "agree xs ys i j n" "valid_from xs ys (i + n) (j + n) ds"
  shows "valid_from xs ys i j ds"
proof (cases ds)
  case Nil
  with assms(2) have "agree xs ys (i + n) (j + n) (int (length xs) - (i + n))" by simp
  from agree_append [OF assms(1) this] assms(2) Nil show ?thesis by (simp add: algebra_simps)
next
  case (Cons d ds')
  with assms(2) have "agree xs ys (i + n) (j + n) (start1 d - (i + n))" by simp
  from agree_append [OF assms(1) this] assms(2) Cons show ?thesis by (simp add: algebra_simps)
qed

lemma apply_from_valid: "valid_from xs ys i j ds \<Longrightarrow> apply_from xs ys i ds = sub ys j (int (length ys))"
proof (induction ds arbitrary: i j)
  case Nil
  then show ?case using agree_sub [of xs ys i j "int (length xs) - i"] by (simp add: algebra_simps)
next
  case (Cons d ds)
  have eq: "sub xs i (start1 d) = sub ys j (start2 d)"
    using Cons.prems agree_sub [of xs ys i j "start1 d - i"] by (simp add: algebra_simps)
  have le: "0 \<le> j" "j \<le> start2 d" "start2 d \<le> end2 d" "end2 d \<le> int (length ys)"
    using Cons.prems valid_from_le [of xs ys "end1 d" "end2 d" ds] by (auto simp: agree_def)
  have IH: "apply_from xs ys (end1 d) ds = sub ys (end2 d) (int (length ys))"
    using Cons.prems by (intro Cons.IH) simp
  have "sub ys j (start2 d) @ sub ys (start2 d) (end2 d) = sub ys j (end2 d)"
    using le by (intro sub_append_sub) auto
  moreover have "sub ys j (end2 d) @ sub ys (end2 d) (int (length ys)) = sub ys j (int (length ys))"
    using le by (intro sub_append_sub) auto
  ultimately show ?case by (simp add: eq IH flip: append_assoc)
qed

lemma valid_diff_apply: "valid_diff xs ys ds \<Longrightarrow> apply_from xs ys 0 ds = ys"
  using apply_from_valid [of xs ys 0 0 ds] by (simp add: valid_diff_def)

lemma agree_sym: "agree xs ys i j n \<longleftrightarrow> agree ys xs j i n"
  by (auto simp: agree_def)

lemma valid_from_swap: "valid_from xs ys i j ds \<longleftrightarrow> valid_from ys xs j i (map SequenceDiff_swap ds)"
  by (induction ds arbitrary: i j) (auto simp: agree_sym [of xs] SequenceDiff_swap_def SequenceDiff_new_def)

subsection \<open>The unchanged parts\<close>

text \<open>The ranges between the diffs, from two offsets on to the ends of the sequences.\<close>

fun between :: "'a list \<Rightarrow> 'a list \<Rightarrow> int \<Rightarrow> int \<Rightarrow> SequenceDiff list \<Rightarrow> SequenceDiff list" where
  "between xs ys i j [] =
     [\<lparr>sd_seq1Range = \<lparr>or_start = i, or_endExclusive = int (length xs)\<rparr>,
       sd_seq2Range = \<lparr>or_start = j, or_endExclusive = int (length ys)\<rparr>\<rparr>]"
| "between xs ys i j (d # ds) =
     \<lparr>sd_seq1Range = \<lparr>or_start = i, or_endExclusive = start1 d\<rparr>,
      sd_seq2Range = \<lparr>or_start = j, or_endExclusive = start2 d\<rparr>\<rparr> # between xs ys (end1 d) (end2 d) ds"

lemma invert_loop_between:
  assumes "valid_from xs ys i j ds"
    and "i = (case a of Some a \<Rightarrow> end1 a | None \<Rightarrow> 0)" "j = (case a of Some a \<Rightarrow> end2 a | None \<Rightarrow> 0)"
  shows "invert_loop (int (length xs)) a ds = Inr (between xs ys i j ds)"
  using assms
proof (induction ds arbitrary: i j a)
  case Nil
  then have "j + (int (length xs) - i) = int (length ys)" "i \<le> int (length xs)" by (auto simp: agree_def)
  with Nil.prems(2,3) show ?case
    by (auto simp: invert_step_def SequenceDiff_fromOffsetPairs_def SequenceDiff_both_def SequenceDiff_new_def
        OffsetRange_new_def OffsetPair_zero_def SequenceDiff_getEndExclusives_def split: option.splits)
next
  case (Cons d ds)
  then have "i \<le> start1 d" "j \<le> start2 d" by (auto simp: agree_def)
  with Cons.prems(2,3) have "invert_step (int (length xs)) a (Some d) =
      Inr \<lparr>sd_seq1Range = \<lparr>or_start = i, or_endExclusive = start1 d\<rparr>,
           sd_seq2Range = \<lparr>or_start = j, or_endExclusive = start2 d\<rparr>\<rparr>"
    by (auto simp: invert_step_def SequenceDiff_fromOffsetPairs_def SequenceDiff_both_def SequenceDiff_new_def
        OffsetRange_new_def OffsetPair_zero_def SequenceDiff_getEndExclusives_def SequenceDiff_getStarts_def
        split: option.splits)
  moreover have "invert_loop (int (length xs)) (Some d) ds = Inr (between xs ys (end1 d) (end2 d) ds)"
    using Cons.prems(1) by (intro Cons.IH) simp_all
  ultimately show ?case by simp
qed

lemma between_agree:
  "valid_from xs ys i j ds \<Longrightarrow> d \<in> set (between xs ys i j ds) \<Longrightarrow>
   end1 d - start1 d = end2 d - start2 d \<and> agree xs ys (start1 d) (start2 d) (end1 d - start1 d)"
  by (induction ds arbitrary: i j) auto

lemma SequenceDiff_invert_spec:
  "valid_diff xs ys ds \<Longrightarrow> SequenceDiff_invert ds (int (length xs)) = Inr (between xs ys 0 0 ds)"
  using invert_loop_between [of xs ys 0 0 ds None] by (simp add: valid_diff_def SequenceDiff_invert_def)

text \<open>A trivial diff replaces everything.\<close>

lemma DiffAlgorithmResult_trivial_valid:
  "\<exists>r. DiffAlgorithmResult_trivial_with h xs ys = Inr r \<and> valid_diff xs ys (dr_diffs r) \<and> dr_hitTimeout r = h \<and>
     (xs \<noteq> [] \<or> ys \<noteq> [] \<longrightarrow> proper_diff (dr_diffs r)) \<and> length (dr_diffs r) = 1"
  by (auto simp: DiffAlgorithmResult_trivial_with_def SequenceDiff_both_def SequenceDiff_new_def
      OffsetRange_ofLength_def OffsetRange_new_def valid_diff_def agree_def proper_diff_def effective_def)

end
