(* ===== verification/Dp_Diff.thy ===== *)
theory Dp_Diff
  imports Sequence_Diff
begin

text \<open>
  \<open>src/vs/editor/common/diff/defaultLinesDiffComputer/algorithms/dynamicProgrammingDiffing.ts\<close>, the
  quadratic diff algorithm for short sequences, and \<open>Array2D\<close> of \<open>utils.ts\<close>.

  \<open>timeout.isValid()\<close> is asked once per cell; \<open>valid k\<close> is its answer to the \<open>k\<close>-th question.
  The cells of a new array are holes, which the algorithm does not read before it writes them; their
  contents are the parameters \<open>hole\<close>. Scores are not integral in the editor: the type of scores is
  any linear order with the operations the code uses, and no law of addition is assumed, so doubles with
  their rounding are an instance (without \<open>NaN\<close>).
\<close>

subsection \<open>\<open>Array2D\<close>\<close>

record 'v Array2D =
  a2_width :: nat
  a2_array :: "'v list"

definition Array2D_new :: "'v \<Rightarrow> nat \<Rightarrow> nat \<Rightarrow> 'v Array2D" where
  "Array2D_new hole width height = \<lparr>a2_width = width, a2_array = replicate (width * height) hole\<rparr>"

definition Array2D_get :: "'v Array2D \<Rightarrow> nat \<Rightarrow> nat \<Rightarrow> 'v" where
  "Array2D_get this x y = a2_array this ! (x + y * a2_width this)"

definition Array2D_set :: "'v Array2D \<Rightarrow> nat \<Rightarrow> nat \<Rightarrow> 'v \<Rightarrow> 'v Array2D" where
  "Array2D_set this x y v = this\<lparr>a2_array := (a2_array this)[x + y * a2_width this := v]\<rparr>"

definition has_size :: "'v Array2D \<Rightarrow> nat \<Rightarrow> nat \<Rightarrow> bool" where
  "has_size a w h \<longleftrightarrow> a2_width a = w \<and> length (a2_array a) = w * h"

lemma has_size_new: "has_size (Array2D_new hole w h) w h"
  by (simp add: has_size_def Array2D_new_def)

lemma has_size_set: "has_size a w h \<Longrightarrow> has_size (Array2D_set a x y v) w h"
  by (simp add: has_size_def Array2D_set_def)

lemma index_inj:
  assumes "x < w" "x' < (w::nat)" "x + y * w = x' + y' * w"
  shows "x = x' \<and> y = y'"
proof -
  have "(x + y * w) mod w = x" "(x' + y' * w) mod w = x'" "(x + y * w) div w = y" "(x' + y' * w) div w = y'"
    using assms(1,2) by simp_all
  with assms(3) show ?thesis by metis
qed

lemma index_bound: "x < w \<Longrightarrow> y < (h::nat) \<Longrightarrow> x + y * w < w * h"
proof -
  assume "x < w" "y < h"
  then have "x + y * w < w + y * w" by simp
  also have "\<dots> = Suc y * w" by simp
  also have "\<dots> \<le> h * w" using \<open>y < h\<close> by (intro mult_right_mono) simp_all
  finally show ?thesis by (simp add: mult.commute)
qed

lemma Array2D_get_set:
  assumes "has_size a w h" "x < w" "y < h" "x' < w" "y' < h"
  shows "Array2D_get (Array2D_set a x y v) x' y' = (if x' = x \<and> y' = y then v else Array2D_get a x' y')"
  using assms index_inj [of x w x' y y'] index_bound [of x w y h]
  by (auto simp: Array2D_get_def Array2D_set_def has_size_def nth_list_update)

subsection \<open>The algorithm\<close>

record 'n dp_state =
  dp_lcsLengths :: "'n Array2D"
  dp_directions :: "int Array2D"
  dp_lengths :: "'n Array2D"

definition dp_horizontalLen :: "('n :: {linorder, zero, one, plus, uminus}) dp_state \<Rightarrow> nat \<Rightarrow> nat \<Rightarrow> 'n" where
  "dp_horizontalLen st s1 s2 = (if s1 = 0 then 0 else Array2D_get (dp_lcsLengths st) (s1 - 1) s2)"

definition dp_verticalLen :: "('n :: {linorder, zero, one, plus, uminus}) dp_state \<Rightarrow> nat \<Rightarrow> nat \<Rightarrow> 'n" where
  "dp_verticalLen st s1 s2 = (if s2 = 0 then 0 else Array2D_get (dp_lcsLengths st) s1 (s2 - 1))"

definition dp_extendedSeqScore ::
    "'a list \<Rightarrow> 'a list \<Rightarrow> (nat \<Rightarrow> nat \<Rightarrow> 'n :: {linorder, zero, one, plus, uminus}) option \<Rightarrow> 'n dp_state \<Rightarrow> nat \<Rightarrow> nat \<Rightarrow> 'n" where
  "dp_extendedSeqScore sequence1 sequence2 equalityScore st s1 s2 =
     (if sequence1 ! s1 = sequence2 ! s2 then
        (if s1 = 0 \<or> s2 = 0 then 0 else Array2D_get (dp_lcsLengths st) (s1 - 1) (s2 - 1)) +
        (if s1 > 0 \<and> s2 > 0 \<and> Array2D_get (dp_directions st) (s1 - 1) (s2 - 1) = 3
         then Array2D_get (dp_lengths st) (s1 - 1) (s2 - 1) else 0) +
        (case equalityScore of Some score \<Rightarrow> score s1 s2 | None \<Rightarrow> 1)
      else - 1)"

definition dp_mark :: "'n dp_state \<Rightarrow> nat \<Rightarrow> nat \<Rightarrow> 'n \<Rightarrow> int \<Rightarrow> 'n dp_state" where
  "dp_mark st s1 s2 len direction =
     st\<lparr>dp_lengths := Array2D_set (dp_lengths st) s1 s2 len,
        dp_directions := Array2D_set (dp_directions st) s1 s2 direction\<rparr>"

text \<open>The body of the inner loop.\<close>

definition dp_cell ::
    "'a list \<Rightarrow> 'a list \<Rightarrow> (nat \<Rightarrow> nat \<Rightarrow> 'n :: {linorder, zero, one, plus, uminus}) option \<Rightarrow> 'n dp_state \<Rightarrow> nat \<Rightarrow> nat \<Rightarrow> 'n dp_state" where
  "dp_cell sequence1 sequence2 equalityScore st s1 s2 =
     (let horizontalLen = dp_horizontalLen st s1 s2;
          verticalLen = dp_verticalLen st s1 s2;
          extendedSeqScore = dp_extendedSeqScore sequence1 sequence2 equalityScore st s1 s2;
          newValue = max (max horizontalLen verticalLen) extendedSeqScore;
          st' =
            (if newValue = extendedSeqScore then
               let prevLen = (if s1 > 0 \<and> s2 > 0 then Array2D_get (dp_lengths st) (s1 - 1) (s2 - 1) else 0)
               in dp_mark st s1 s2 (prevLen + 1) 3
             else if newValue = horizontalLen then dp_mark st s1 s2 0 1
             else if newValue = verticalLen then dp_mark st s1 s2 0 2
             else st)
      in st'\<lparr>dp_lcsLengths := Array2D_set (dp_lcsLengths st') s1 s2 newValue\<rparr>)"

text \<open>The two nested loops; \<open>None\<close> is the return after a timeout.\<close>

function dp_fill ::
    "(nat \<Rightarrow> bool) \<Rightarrow> 'a list \<Rightarrow> 'a list \<Rightarrow> (nat \<Rightarrow> nat \<Rightarrow> 'n :: {linorder, zero, one, plus, uminus}) option \<Rightarrow>
     'n dp_state \<Rightarrow> nat \<Rightarrow> nat \<Rightarrow> 'n dp_state option" where
  "dp_fill valid sequence1 sequence2 equalityScore st s1 s2 =
     (if s1 < length sequence1 then
        if s2 < length sequence2 then
          if \<not> valid (s1 * length sequence2 + s2) then None
          else dp_fill valid sequence1 sequence2 equalityScore
                 (dp_cell sequence1 sequence2 equalityScore st s1 s2) s1 (s2 + 1)
        else dp_fill valid sequence1 sequence2 equalityScore st (s1 + 1) 0
      else Some st)"
  by pat_completeness auto
termination
  by (relation "measures [\<lambda>(_, xs, _, _, _, s1, _). length xs - s1, \<lambda>(_, _, ys, _, _, _, s2). length ys - s2]") auto

declare dp_fill.simps [simp del]

text \<open>The diffs so far, newest last, and the last aligning position.\<close>

definition reportDecreasingAligningPositions ::
    "int \<Rightarrow> int \<Rightarrow> SequenceDiff list \<times> int \<times> int \<Rightarrow> js_error + SequenceDiff list \<times> int \<times> int" where
  "reportDecreasingAligningPositions s1 s2 r =
     (case r of (result, lastS1, lastS2) \<Rightarrow>
        if s1 + 1 \<noteq> lastS1 \<or> s2 + 1 \<noteq> lastS2 then
          bindE (SequenceDiff_both (OffsetRange_new (s1 + 1) lastS1) (OffsetRange_new (s2 + 1) lastS2))
            (\<lambda>d. Inr (result @ [d], s1, s2))
        else Inr (result, s1, s2))"

function dp_backtrack :: "int Array2D \<Rightarrow> int \<Rightarrow> int \<Rightarrow> SequenceDiff list \<times> int \<times> int \<Rightarrow> js_error + SequenceDiff list \<times> int \<times> int" where
  "dp_backtrack directions s1 s2 r =
     (if s1 \<ge> 0 \<and> s2 \<ge> 0 then
        if Array2D_get directions (nat s1) (nat s2) = 3 then
          bindE (reportDecreasingAligningPositions s1 s2 r)
            (\<lambda>r'. dp_backtrack directions (s1 - 1) (s2 - 1) r')
        else if Array2D_get directions (nat s1) (nat s2) = 1 then dp_backtrack directions (s1 - 1) s2 r
        else dp_backtrack directions s1 (s2 - 1) r
      else Inr r)"
  by pat_completeness auto
termination by (relation "measure (\<lambda>(_, s1, s2, _). nat (s1 + 1) + nat (s2 + 1))") auto

declare dp_backtrack.simps [simp del]

definition DynamicProgrammingDiffing_compute ::
    "'n \<Rightarrow> int \<Rightarrow> 'a list \<Rightarrow> 'a list \<Rightarrow> (nat \<Rightarrow> bool) \<Rightarrow>
     (nat \<Rightarrow> nat \<Rightarrow> 'n :: {linorder, zero, one, plus, uminus}) option \<Rightarrow> js_error + DiffAlgorithmResult" where
  "DynamicProgrammingDiffing_compute hole hole' sequence1 sequence2 valid equalityScore =
     (if length sequence1 = 0 \<or> length sequence2 = 0 then DiffAlgorithmResult_trivial sequence1 sequence2
      else
        let new = Array2D_new hole (length sequence1) (length sequence2);
            new' = Array2D_new hole' (length sequence1) (length sequence2)
        in case dp_fill valid sequence1 sequence2 equalityScore
                  \<lparr>dp_lcsLengths = new, dp_directions = new', dp_lengths = new\<rparr> 0 0 of
             None \<Rightarrow> DiffAlgorithmResult_trivialTimedOut sequence1 sequence2
           | Some st \<Rightarrow>
               bindE (dp_backtrack (dp_directions st) (int (length sequence1) - 1) (int (length sequence2) - 1)
                        ([], int (length sequence1), int (length sequence2)))
                 (\<lambda>r. bindE (reportDecreasingAligningPositions (- 1) (- 1) r)
                   (\<lambda>r'. Inr \<lparr>dr_diffs = rev (fst r'), dr_hitTimeout = False\<rparr>)))"

subsection \<open>Filling the tables\<close>

definition dp_ok :: "'a list \<Rightarrow> 'a list \<Rightarrow> ('n :: {linorder, zero}) dp_state \<Rightarrow> nat \<Rightarrow> nat \<Rightarrow> bool" where
  "dp_ok xs ys st s1 s2 \<longleftrightarrow>
     has_size (dp_lcsLengths st) (length xs) (length ys) \<and> has_size (dp_directions st) (length xs) (length ys) \<and>
     (\<forall>a b. a < length xs \<and> b < length ys \<and> (a < s1 \<or> a = s1 \<and> b < s2) \<longrightarrow>
        0 \<le> Array2D_get (dp_lcsLengths st) a b \<and>
        (Array2D_get (dp_directions st) a b = 3 \<longrightarrow> xs ! a = ys ! b))"

lemma dp_ok_write:
  assumes "dp_ok xs ys (st :: 'n :: {linorder, zero} dp_state) s1 s2" "s1 < length xs" "s2 < length ys"
    and "0 \<le> v" "dir = 3 \<longrightarrow> ys ! s2 = xs ! s1"
  shows "dp_ok xs ys ((dp_mark st s1 s2 len dir)\<lparr>dp_lcsLengths := Array2D_set (dp_lcsLengths st) s1 s2 v\<rparr>) s1 (s2 + 1)"
  using assms by (auto simp: dp_ok_def dp_mark_def has_size_set Array2D_get_set less_Suc_eq split: if_splits)

lemma dp_cell_ok:
  fixes st :: "'n :: {linorder, zero, one, plus, uminus} dp_state"
  assumes ok: "dp_ok xs ys st s1 s2" and s: "s1 < length xs" "s2 < length ys" and minus1: "(- 1 :: 'n) < 0"
  shows "dp_ok xs ys (dp_cell xs ys score st s1 s2) s1 (s2 + 1)"
proof -
  let ?h = "dp_horizontalLen st s1 s2" and ?v = "dp_verticalLen st s1 s2"
    and ?e = "dp_extendedSeqScore xs ys score st s1 s2"
  let ?n = "max (max ?h ?v) ?e"
  have nonneg: "0 \<le> ?h" "0 \<le> ?v"
    using ok s by (auto simp: dp_ok_def dp_horizontalLen_def dp_verticalLen_def)
  have e: "?e = - 1" if "xs ! s1 \<noteq> ys ! s2" using that by (simp add: dp_extendedSeqScore_def)
  have n: "0 \<le> ?n" using nonneg by (simp add: max.coboundedI1)
  have same: "dp_lcsLengths (dp_mark st s1 s2 l dir) = dp_lcsLengths st" for l dir by (simp add: dp_mark_def)
  have "max (max a b) c = c \<or> max (max a b) c = a \<or> max (max a b) c = b" for a b c :: 'n
    by (simp add: max_def)
  then consider "?n = ?e" | "?n \<noteq> ?e" "?n = ?h" | "?n \<noteq> ?e" "?n \<noteq> ?h" "?n = ?v" by metis
  then show ?thesis
  proof cases
    case 1
    have "ys ! s2 = xs ! s1"
    proof (rule ccontr)
      assume "\<not> ?thesis"
      with e 1 n minus1 show False by simp
    qed
    with 1 n dp_ok_write [OF ok s n] show ?thesis unfolding dp_cell_def Let_def by (simp only: same if_True simp_thms)
  next
    case 2
    with n dp_ok_write [OF ok s n, of 1] show ?thesis unfolding dp_cell_def Let_def by (simp add: same)
  next
    case 3
    with n dp_ok_write [OF ok s n, of 2] show ?thesis unfolding dp_cell_def Let_def by (simp add: same)
  qed
qed

lemma dp_fill_ok:
  "dp_ok xs ys st s1 s2 \<Longrightarrow> (- 1 :: 'n :: {linorder, zero, one, plus, uminus}) < 0 \<Longrightarrow>
   case dp_fill valid xs ys (score :: (nat \<Rightarrow> nat \<Rightarrow> 'n) option) st s1 s2 of
     None \<Rightarrow> \<exists>k. \<not> valid k
   | Some st' \<Rightarrow> dp_ok xs ys st' (length xs) 0"
proof (induction valid xs ys score st s1 s2 rule: dp_fill.induct)
  case (1 valid xs ys score st s1 s2)
  consider "length xs \<le> s1" | "s1 < length xs" "length ys \<le> s2"
    | "s1 < length xs" "s2 < length ys" "\<not> valid (s1 * length ys + s2)"
    | "s1 < length xs" "s2 < length ys" "valid (s1 * length ys + s2)" by linarith
  then show ?case
  proof cases
    case 1
    with "1.prems"(1) have "dp_ok xs ys st (length xs) 0" by (auto simp: dp_ok_def)
    with 1 show ?thesis by (subst dp_fill.simps) simp
  next
    case 2
    with "1.prems"(1) have "dp_ok xs ys st (s1 + 1) 0" by (auto simp: dp_ok_def less_Suc_eq)
    with 2 "1.IH"(2) "1.prems"(2) show ?thesis by (subst dp_fill.simps) simp
  next
    case 3
    then show ?thesis by (subst dp_fill.simps) auto
  next
    case 4
    with dp_cell_ok [OF "1.prems"(1) _ _ "1.prems"(2)] "1.IH"(1) "1.prems"(2) show ?thesis by (subst dp_fill.simps) simp
  qed
qed

subsection \<open>Backtracking\<close>

definition bt_ok :: "'a list \<Rightarrow> 'a list \<Rightarrow> SequenceDiff list \<times> int \<times> int \<Rightarrow> bool" where
  "bt_ok xs ys r \<longleftrightarrow> (case r of (result, i, j) \<Rightarrow>
     valid_from xs ys i j (rev result) \<and> proper_diff (rev result) \<and>
     (result \<noteq> [] \<longrightarrow> i < start1 (last result) \<and> j < start2 (last result)))"

text \<open>Reporting a pair of equal elements keeps the diffs valid; so does the end, before both sequences.\<close>

lemma report_diff:
  assumes ok: "bt_ok xs ys (result, i, j)" and le: "a \<le> i" "b \<le> j" and ne: "a \<noteq> i \<or> b \<noteq> j" and nn: "0 \<le> a" "0 \<le> b"
  shows "\<exists>d. SequenceDiff_both (OffsetRange_new a i) (OffsetRange_new b j) = Inr d \<and>
    start1 d = a \<and> start2 d = b \<and> valid_from xs ys a b (d # rev result) \<and> proper_diff (d # rev result)"
proof -
  let ?d = "SequenceDiff_new \<lparr>or_start = a, or_endExclusive = i\<rparr> \<lparr>or_start = b, or_endExclusive = j\<rparr>"
  from ok have v: "valid_from xs ys i j (rev result)" by (simp add: bt_ok_def)
  have "SequenceDiff_both (OffsetRange_new a i) (OffsetRange_new b j) = Inr ?d"
    using le by (simp add: SequenceDiff_both_def OffsetRange_new_def)
  moreover have "valid_from xs ys a b (?d # rev result)"
    using v le nn valid_from_le [OF v] by (simp add: SequenceDiff_new_def agree_0)
  moreover have "proper_diff (?d # rev result)"
    using ok ne le
    by (auto simp: bt_ok_def proper_diff_def effective_def SequenceDiff_new_def successively_Cons hd_rev
        simp del: successively_rev)
  ultimately show ?thesis by (auto simp: SequenceDiff_new_def)
qed

lemma report_aligned:
  assumes ok: "bt_ok xs ys (result, i, j)" and lt: "s1 < i" "s2 < j" and nn: "0 \<le> s1" "0 \<le> s2"
    and eq: "xs ! nat s1 = ys ! nat s2"
  shows "\<exists>result'. reportDecreasingAligningPositions s1 s2 (result, i, j) = Inr (result', s1, s2) \<and>
    bt_ok xs ys (result', s1, s2)"
proof -
  from ok have v: "valid_from xs ys i j (rev result)" by (simp add: bt_ok_def)
  have ag: "agree xs ys s1 s2 1" using lt nn eq valid_from_le [OF v] by (simp add: agree_1)
  show ?thesis
  proof (cases "s1 + 1 = i \<and> s2 + 1 = j")
    case True
    with v ag have "valid_from xs ys s1 s2 (rev result)" by (intro valid_from_extend [OF ag]) simp
    with True ok lt show ?thesis by (auto simp: reportDecreasingAligningPositions_def bt_ok_def)
  next
    case False
    have le: "s1 + 1 \<le> i" "s2 + 1 \<le> j" "0 \<le> s1 + 1" "0 \<le> s2 + 1" using lt nn by auto
    from False obtain d where d: "SequenceDiff_both (OffsetRange_new (s1 + 1) i) (OffsetRange_new (s2 + 1) j) = Inr d"
      "start1 d = s1 + 1" "start2 d = s2 + 1"
      "valid_from xs ys (s1 + 1) (s2 + 1) (d # rev result)" "proper_diff (d # rev result)"
      using report_diff [OF ok le(1,2) _ le(3,4)] by blast
    moreover have "valid_from xs ys s1 s2 (d # rev result)" by (rule valid_from_extend [OF ag d(4)])
    ultimately show ?thesis using False
      by (intro exI [of _ "result @ [d]"]) (auto simp: reportDecreasingAligningPositions_def bt_ok_def)
  qed
qed

lemma dp_backtrack_ok:
  assumes dirs: "\<forall>a b. a < length xs \<and> b < length ys \<and> Array2D_get dirs a b = 3 \<longrightarrow> xs ! a = ys ! b"
  shows "bt_ok xs ys (result, i, j) \<Longrightarrow> s1 < i \<Longrightarrow> s2 < j \<Longrightarrow> 
    \<exists>r. dp_backtrack dirs s1 s2 (result, i, j) = Inr r \<and> bt_ok xs ys r"
proof (induction "nat (s1 + 1) + nat (s2 + 1)" arbitrary: s1 s2 result i j rule: less_induct)
  case less
  note unfold = dp_backtrack.simps [of dirs s1 s2 "(result, i, j)"]
  from less.prems(1) have v: "valid_from xs ys i j (rev result)" by (simp add: bt_ok_def)
  show ?case
  proof (cases "s1 \<ge> 0 \<and> s2 \<ge> 0")
    case False
    with less.prems(1) show ?thesis by (subst unfold) auto
  next
    case nn: True
    show ?thesis
    proof (cases "Array2D_get dirs (nat s1) (nat s2) = 3")
      case True
      have "nat s1 < length xs" "nat s2 < length ys" using valid_from_le [OF v] less.prems nn by auto
      with dirs True have "xs ! nat s1 = ys ! nat s2" by blast
      from report_aligned [OF less.prems] nn this obtain result' where
        r: "reportDecreasingAligningPositions s1 s2 (result, i, j) = Inr (result', s1, s2)" "bt_ok xs ys (result', s1, s2)"
        by blast
      have "\<exists>r. dp_backtrack dirs (s1 - 1) (s2 - 1) (result', s1, s2) = Inr r \<and> bt_ok xs ys r"
        using nn r(2) by (intro less.hyps) auto
      with nn True r(1) show ?thesis by (subst unfold) simp
    next
      case False
      have "\<exists>r. dp_backtrack dirs (s1 - 1) s2 (result, i, j) = Inr r \<and> bt_ok xs ys r"
        using nn less.prems by (intro less.hyps) auto
      moreover have "\<exists>r. dp_backtrack dirs s1 (s2 - 1) (result, i, j) = Inr r \<and> bt_ok xs ys r"
        using nn less.prems by (intro less.hyps) auto
      ultimately show ?thesis using nn False by (subst unfold) auto
    qed
  qed
qed

lemma DynamicProgrammingDiffing_compute_valid:
  fixes equalityScore :: "(nat \<Rightarrow> nat \<Rightarrow> 'n :: {linorder, zero, one, plus, uminus}) option"
  assumes minus1: "(- 1 :: 'n) < 0"
  shows "\<exists>r. DynamicProgrammingDiffing_compute hole hole' xs ys valid equalityScore = Inr r \<and>
     valid_diff xs ys (dr_diffs r) \<and>
     (xs = [] \<and> ys = [] \<and> length (dr_diffs r) = 1 \<or> proper_diff (dr_diffs r)) \<and>
     (dr_hitTimeout r \<longrightarrow> (\<exists>k. \<not> valid k))"
proof (cases "xs = [] \<or> ys = []")
  case True
  with DiffAlgorithmResult_trivial_valid [of False xs ys] show ?thesis
    by (auto simp: DynamicProgrammingDiffing_compute_def DiffAlgorithmResult_trivial_def)
next
  case False
  let ?new = "Array2D_new hole (length xs) (length ys)"
  let ?st = "\<lparr>dp_lcsLengths = ?new, dp_directions = Array2D_new hole' (length xs) (length ys), dp_lengths = ?new\<rparr>"
  have "dp_ok xs ys ?st 0 0" by (simp add: dp_ok_def has_size_new)
  note fill = dp_fill_ok [OF this minus1, of valid equalityScore]
  show ?thesis
  proof (cases "dp_fill valid xs ys equalityScore ?st 0 0")
    case None
    with fill False DiffAlgorithmResult_trivial_valid [of True xs ys] show ?thesis
      by (auto simp: DynamicProgrammingDiffing_compute_def DiffAlgorithmResult_trivialTimedOut_def Let_def)
  next
    case (Some st)
    with fill have dirs: "\<forall>a b. a < length xs \<and> b < length ys \<and> Array2D_get (dp_directions st) a b = 3 \<longrightarrow> xs ! a = ys ! b"
      by (auto simp: dp_ok_def)
    have start: "bt_ok xs ys ([], int (length xs), int (length ys))"
      by (simp add: bt_ok_def agree_0 proper_diff_def)
    from dp_backtrack_ok [OF dirs start, of "int (length xs) - 1" "int (length ys) - 1"]
    obtain result i j where bt: "dp_backtrack (dp_directions st) (int (length xs) - 1) (int (length ys) - 1)
        ([], int (length xs), int (length ys)) = Inr (result, i, j)" "bt_ok xs ys (result, i, j)"
      by auto
    then have v: "valid_from xs ys i j (rev result)" by (simp add: bt_ok_def)
    have "\<exists>result'. reportDecreasingAligningPositions (- 1) (- 1) (result, i, j) = Inr (result', - 1, - 1) \<and>
        valid_diff xs ys (rev result') \<and> proper_diff (rev result')"
    proof (cases "i = 0 \<and> j = 0")
      case True
      with bt(2) show ?thesis by (auto simp: reportDecreasingAligningPositions_def bt_ok_def valid_diff_def)
    next
      case False
      then obtain d where "SequenceDiff_both (OffsetRange_new 0 i) (OffsetRange_new 0 j) = Inr d"
        "valid_from xs ys 0 0 (d # rev result)" "proper_diff (d # rev result)"
        using report_diff [OF bt(2), of 0 0] valid_from_le [OF v] by auto
      with False show ?thesis
        by (intro exI [of _ "result @ [d]"]) (auto simp: reportDecreasingAligningPositions_def valid_diff_def)
    qed
    with bt(1) Some False show ?thesis
      by (auto simp: DynamicProgrammingDiffing_compute_def Let_def)
  qed
qed

text \<open>
  C22. The dynamic programming diff is a valid diff. For any two sequences, any timeout and any score of
  equal elements (of a number type with \<open>- 1 < 0\<close>) \<open>compute\<close> returns without an exception a list of ordered pairs of ranges such that
  everything between two of them is the same in both sequences, so replacing the ranges turns the first
  sequence into the second and the other way round. If the timeout is not hit, no two diffs touch
  and each of them changes something (unless both sequences are empty); if it is reported as hit, it was.
\<close>

theorem DynamicProgrammingDiffing_compute_correct:
  fixes equalityScore :: "(nat \<Rightarrow> nat \<Rightarrow> 'n :: {linorder, zero, one, plus, uminus}) option"
  assumes minus1: "(- 1 :: 'n) < 0"
  shows "\<exists>r. DynamicProgrammingDiffing_compute hole hole' xs ys valid equalityScore = Inr r \<and>
     valid_diff xs ys (dr_diffs r) \<and>
     apply_from xs ys 0 (dr_diffs r) = ys \<and> apply_from ys xs 0 (map SequenceDiff_swap (dr_diffs r)) = xs \<and>
     (xs = [] \<and> ys = [] \<or> proper_diff (dr_diffs r)) \<and>
     (dr_hitTimeout r \<longrightarrow> (\<exists>k. \<not> valid k))"
proof -
  obtain r where r: "DynamicProgrammingDiffing_compute hole hole' xs ys valid equalityScore = Inr r"
    "valid_diff xs ys (dr_diffs r)" "xs = [] \<and> ys = [] \<or> proper_diff (dr_diffs r)"
    "dr_hitTimeout r \<longrightarrow> (\<exists>k. \<not> valid k)"
    using DynamicProgrammingDiffing_compute_valid [OF minus1] by blast
  moreover have "valid_diff ys xs (map SequenceDiff_swap (dr_diffs r))"
    using r(2) by (simp add: valid_diff_def flip: valid_from_swap)
  ultimately show ?thesis using valid_diff_apply by blast
qed

theorem DynamicProgrammingDiffing_compute_correct_witness:
  "case DynamicProgrammingDiffing_compute (0 :: int) 0 [1, 2, 3, 4] [1, 3, 5, 4 :: int] (\<lambda>_. True) None of
     Inl _ \<Rightarrow> False | Inr r \<Rightarrow> valid_diff [1, 2, 3, 4 :: int] [1, 3, 5, 4] (dr_diffs r) \<and> \<not> dr_hitTimeout r"
  using DynamicProgrammingDiffing_compute_correct [of "0 :: int" 0 "[1, 2, 3, 4]" "[1, 3, 5, 4 :: int]" "\<lambda>_. True" None]
  by auto

end
