(* ===== verification/Diff_Shifting.thy ===== *)
theory Diff_Shifting
  imports Sequence_Diff
begin

text \<open>
  \<open>src/vs/editor/common/diff/defaultLinesDiffComputer/heuristicSequenceOptimizations.ts\<close>, the part
  that moves diffs: \<open>joinSequenceDiffsByShifting\<close>, \<open>shiftSequenceDiffs\<close> and
  \<open>optimizeSequenceDiffs\<close>, which calls them. A diff may be moved to the left or right when the
  elements that leave it on one side are equal to those that enter it on the other.
\<close>

record 'a Sequence =
  seq_elements :: "'a list"
  seq_isStronglyEqual :: "int \<Rightarrow> int \<Rightarrow> bool"
  seq_getBoundaryScore :: "(int \<Rightarrow> int) option"

definition getElement :: "'a Sequence \<Rightarrow> int \<Rightarrow> 'a" where
  "getElement s offset = seq_elements s ! nat offset"

definition seq_length :: "'a Sequence \<Rightarrow> int" where
  "seq_length s = int (length (seq_elements s))"

subsection \<open>\<open>joinSequenceDiffsByShifting\<close>\<close>

text \<open>The first loops: how far \<open>cur\<close> can move to the left, at most \<open>n\<close> elements.\<close>

function shift_left_loop :: "'a Sequence \<Rightarrow> 'a Sequence \<Rightarrow> SequenceDiff \<Rightarrow> int \<Rightarrow> int \<Rightarrow> int" where
  "shift_left_loop sequence1 sequence2 cur n d =
     (if d \<le> n then
        if getElement sequence1 (start1 cur - d) \<noteq> getElement sequence1 (end1 cur - d) \<or>
           getElement sequence2 (start2 cur - d) \<noteq> getElement sequence2 (end2 cur - d)
        then d
        else shift_left_loop sequence1 sequence2 cur n (d + 1)
      else d)"
  by pat_completeness auto
termination by (relation "measure (\<lambda>(_, _, _, n, d). nat (n + 1 - d))") auto

function shift_right_loop :: "'a Sequence \<Rightarrow> 'a Sequence \<Rightarrow> SequenceDiff \<Rightarrow> int \<Rightarrow> int \<Rightarrow> int" where
  "shift_right_loop sequence1 sequence2 cur n d =
     (if d < n then
        if \<not> seq_isStronglyEqual sequence1 (start1 cur + d) (end1 cur + d) \<or>
           \<not> seq_isStronglyEqual sequence2 (start2 cur + d) (end2 cur + d)
        then d
        else shift_right_loop sequence1 sequence2 cur n (d + 1)
      else d)"
  by pat_completeness auto
termination by (relation "measure (\<lambda>(_, _, _, n, d). nat (n - d))") auto

declare shift_left_loop.simps [simp del] shift_right_loop.simps [simp del]

definition one_sided :: "SequenceDiff \<Rightarrow> bool" where
  "one_sided d \<longleftrightarrow> OffsetRange_isEmpty (sd_seq1Range d) \<or> OffsetRange_isEmpty (sd_seq2Range d)"

text \<open>A round of the first pass: \<open>result\<close> is not empty, its last diff is \<open>prevResult\<close>.\<close>

definition join_left_step :: "'a Sequence \<Rightarrow> 'a Sequence \<Rightarrow> SequenceDiff list \<Rightarrow> SequenceDiff \<Rightarrow> js_error + SequenceDiff list" where
  "join_left_step sequence1 sequence2 result cur =
     (let prevResult = last result
      in if one_sided cur then
           let n = start1 cur - end1 prevResult;
               d = shift_left_loop sequence1 sequence2 cur n 1 - 1
           in if d = n then
                bindE (SequenceDiff_both (OffsetRange_new (start1 prevResult) (end1 cur - n))
                         (OffsetRange_new (start2 prevResult) (end2 cur - n)))
                  (\<lambda>merged. Inr (butlast result @ [merged]))
              else bindE (SequenceDiff_delta cur (- d)) (\<lambda>cur'. Inr (result @ [cur']))
         else Inr (result @ [cur]))"

text \<open>
  A round of the second pass: what it pushes to \<open>result2\<close>, if anything, and the next cell of the
  array, which a merge overwrites before the next round reads it.
\<close>

definition join_right_step ::
    "'a Sequence \<Rightarrow> 'a Sequence \<Rightarrow> SequenceDiff \<Rightarrow> SequenceDiff \<Rightarrow> js_error + SequenceDiff list \<times> SequenceDiff" where
  "join_right_step sequence1 sequence2 cur nextResult =
     (if one_sided cur then
        let n = start1 nextResult - end1 cur;
            d = shift_right_loop sequence1 sequence2 cur n 0
        in if d = n then
             bindE (SequenceDiff_both (OffsetRange_new (start1 cur + n) (end1 nextResult))
                      (OffsetRange_new (start2 cur + n) (end2 nextResult)))
               (\<lambda>merged. Inr ([], merged))
           else bindE (if d > 0 then SequenceDiff_delta cur d else Inr cur) (\<lambda>cur'. Inr ([cur'], nextResult))
      else Inr ([cur], nextResult))"

fun join_right :: "'a Sequence \<Rightarrow> 'a Sequence \<Rightarrow> SequenceDiff \<Rightarrow> SequenceDiff list \<Rightarrow> js_error + SequenceDiff list" where
  "join_right sequence1 sequence2 cur [] = Inr [cur]"
| "join_right sequence1 sequence2 cur (nextResult # rest) =
     bindE (join_right_step sequence1 sequence2 cur nextResult) (\<lambda>(pushed, nextResult').
     bindE (join_right sequence1 sequence2 nextResult' rest) (\<lambda>result2. Inr (pushed @ result2)))"

definition joinSequenceDiffsByShifting ::
    "'a Sequence \<Rightarrow> 'a Sequence \<Rightarrow> SequenceDiff list \<Rightarrow> js_error + SequenceDiff list" where
  "joinSequenceDiffsByShifting sequence1 sequence2 sequenceDiffs =
     (case sequenceDiffs of
        [] \<Rightarrow> Inr []
      | d # ds \<Rightarrow>
          bindE (foldE (join_left_step sequence1 sequence2) [d] ds)
            (\<lambda>result. join_right sequence1 sequence2 (hd result) (tl result)))"

subsection \<open>\<open>shiftSequenceDiffs\<close>\<close>

definition maxShiftLimit :: int where
  "maxShiftLimit = 100"

function shift_before_loop :: "'a Sequence \<Rightarrow> SequenceDiff \<Rightarrow> OffsetRange \<Rightarrow> OffsetRange \<Rightarrow> int \<Rightarrow> int" where
  "shift_before_loop sequence2 diff seq1ValidRange seq2ValidRange deltaBefore =
     (if start1 diff - deltaBefore \<ge> or_start seq1ValidRange \<and>
         start2 diff - deltaBefore \<ge> or_start seq2ValidRange \<and>
         seq_isStronglyEqual sequence2 (start2 diff - deltaBefore) (end2 diff - deltaBefore) \<and>
         deltaBefore < maxShiftLimit
      then shift_before_loop sequence2 diff seq1ValidRange seq2ValidRange (deltaBefore + 1)
      else deltaBefore)"
  by pat_completeness auto
termination by (relation "measure (\<lambda>(_, _, _, _, k). nat (maxShiftLimit - k))") auto

function shift_after_loop :: "'a Sequence \<Rightarrow> SequenceDiff \<Rightarrow> OffsetRange \<Rightarrow> OffsetRange \<Rightarrow> int \<Rightarrow> int" where
  "shift_after_loop sequence2 diff seq1ValidRange seq2ValidRange deltaAfter =
     (if start1 diff + deltaAfter < or_endExclusive seq1ValidRange \<and>
         end2 diff + deltaAfter < or_endExclusive seq2ValidRange \<and>
         seq_isStronglyEqual sequence2 (start2 diff + deltaAfter) (end2 diff + deltaAfter) \<and>
         deltaAfter < maxShiftLimit
      then shift_after_loop sequence2 diff seq1ValidRange seq2ValidRange (deltaAfter + 1)
      else deltaAfter)"
  by pat_completeness auto
termination by (relation "measure (\<lambda>(_, _, _, _, k). nat (maxShiftLimit - k))") auto

declare shift_before_loop.simps [simp del] shift_after_loop.simps [simp del]

text \<open>The best score among the deltas from \<open>delta\<close> to \<open>deltaAfter\<close>.\<close>

function best_delta_loop :: "(int \<Rightarrow> int) \<Rightarrow> int \<Rightarrow> int \<Rightarrow> int \<Rightarrow> int \<Rightarrow> int" where
  "best_delta_loop score deltaAfter delta bestDelta bestScore =
     (if delta \<le> deltaAfter then
        if score delta > bestScore then best_delta_loop score deltaAfter (delta + 1) delta (score delta)
        else best_delta_loop score deltaAfter (delta + 1) bestDelta bestScore
      else bestDelta)"
  by pat_completeness auto
termination by (relation "measure (\<lambda>(_, n, d, _, _). nat (n + 1 - d))") auto

declare best_delta_loop.simps [simp del]

text \<open>\<open>score1\<close> and \<open>score2\<close> are the two \<open>getBoundaryScore\<close>.\<close>

definition shiftDiffToBetterPosition ::
    "SequenceDiff \<Rightarrow> (int \<Rightarrow> int) \<Rightarrow> 'a Sequence \<Rightarrow> (int \<Rightarrow> int) \<Rightarrow> OffsetRange \<Rightarrow> OffsetRange \<Rightarrow> js_error + SequenceDiff" where
  "shiftDiffToBetterPosition diff score1 sequence2 score2 seq1ValidRange seq2ValidRange =
     (let deltaBefore = shift_before_loop sequence2 diff seq1ValidRange seq2ValidRange 1 - 1;
          deltaAfter = shift_after_loop sequence2 diff seq1ValidRange seq2ValidRange 0
      in if deltaBefore = 0 \<and> deltaAfter = 0 then Inr diff
         else
           let score = (\<lambda>delta. score1 (start1 diff + delta) + score2 (start2 diff + delta) + score2 (end2 diff + delta))
           in SequenceDiff_delta diff (best_delta_loop score deltaAfter (- deltaBefore) 0 (- 1)))"

definition shiftSequenceDiff ::
    "'a Sequence \<Rightarrow> 'a Sequence \<Rightarrow> (int \<Rightarrow> int) \<Rightarrow> (int \<Rightarrow> int) \<Rightarrow>
     SequenceDiff option \<Rightarrow> SequenceDiff \<Rightarrow> SequenceDiff option \<Rightarrow> js_error + SequenceDiff" where
  "shiftSequenceDiff sequence1 sequence2 score1 score2 prevDiff diff nextDiff =
     bindE (OffsetRange_new (case prevDiff of Some p \<Rightarrow> end1 p + 1 | None \<Rightarrow> 0)
              (case nextDiff of Some n \<Rightarrow> start1 n - 1 | None \<Rightarrow> seq_length sequence1)) (\<lambda>seq1ValidRange.
     bindE (OffsetRange_new (case prevDiff of Some p \<Rightarrow> end2 p + 1 | None \<Rightarrow> 0)
              (case nextDiff of Some n \<Rightarrow> start2 n - 1 | None \<Rightarrow> seq_length sequence2)) (\<lambda>seq2ValidRange.
       if OffsetRange_isEmpty (sd_seq1Range diff) then
         shiftDiffToBetterPosition diff score1 sequence2 score2 seq1ValidRange seq2ValidRange
       else if OffsetRange_isEmpty (sd_seq2Range diff) then
         bindE (shiftDiffToBetterPosition (SequenceDiff_swap diff) score2 sequence1 score1 seq2ValidRange seq1ValidRange)
           (\<lambda>d. Inr (SequenceDiff_swap d))
       else Inr diff))"

fun shift_diffs_loop ::
    "'a Sequence \<Rightarrow> 'a Sequence \<Rightarrow> (int \<Rightarrow> int) \<Rightarrow> (int \<Rightarrow> int) \<Rightarrow>
     SequenceDiff option \<Rightarrow> SequenceDiff list \<Rightarrow> js_error + SequenceDiff list" where
  "shift_diffs_loop sequence1 sequence2 score1 score2 prevDiff [] = Inr []"
| "shift_diffs_loop sequence1 sequence2 score1 score2 prevDiff (diff # rest) =
     bindE (shiftSequenceDiff sequence1 sequence2 score1 score2 prevDiff diff
              (case rest of [] \<Rightarrow> None | n # _ \<Rightarrow> Some n)) (\<lambda>d.
     bindE (shift_diffs_loop sequence1 sequence2 score1 score2 (Some d) rest) (\<lambda>ds. Inr (d # ds)))"

definition shiftSequenceDiffs :: "'a Sequence \<Rightarrow> 'a Sequence \<Rightarrow> SequenceDiff list \<Rightarrow> js_error + SequenceDiff list" where
  "shiftSequenceDiffs sequence1 sequence2 sequenceDiffs =
     (case (seq_getBoundaryScore sequence1, seq_getBoundaryScore sequence2) of
        (Some score1, Some score2) \<Rightarrow> shift_diffs_loop sequence1 sequence2 score1 score2 None sequenceDiffs
      | _ \<Rightarrow> Inr sequenceDiffs)"

definition optimizeSequenceDiffs :: "'a Sequence \<Rightarrow> 'a Sequence \<Rightarrow> SequenceDiff list \<Rightarrow> js_error + SequenceDiff list" where
  "optimizeSequenceDiffs sequence1 sequence2 sequenceDiffs =
     bindE (joinSequenceDiffsByShifting sequence1 sequence2 sequenceDiffs) (\<lambda>result.
     bindE (joinSequenceDiffsByShifting sequence1 sequence2 result) (\<lambda>result.
       shiftSequenceDiffs sequence1 sequence2 result))"

subsection \<open>Moving a diff\<close>

definition moved :: "SequenceDiff \<Rightarrow> int \<Rightarrow> SequenceDiff" where
  "moved c d =
     \<lparr>sd_seq1Range = \<lparr>or_start = start1 c + d, or_endExclusive = end1 c + d\<rparr>,
      sd_seq2Range = \<lparr>or_start = start2 c + d, or_endExclusive = end2 c + d\<rparr>\<rparr>"

lemma moved_sel [simp]:
  "start1 (moved c d) = start1 c + d" "end1 (moved c d) = end1 c + d"
  "start2 (moved c d) = start2 c + d" "end2 (moved c d) = end2 c + d"
  by (simp_all add: moved_def)

lemma SequenceDiff_delta_moved:
  "start1 c \<le> end1 c \<Longrightarrow> start2 c \<le> end2 c \<Longrightarrow> SequenceDiff_delta c d = Inr (moved c d)"
  by (simp add: SequenceDiff_delta_def SequenceDiff_both_def SequenceDiff_new_def OffsetRange_delta_def
      OffsetRange_new_def moved_def)

lemma SequenceDiff_both_Inr:
  "a \<le> b \<Longrightarrow> c \<le> d \<Longrightarrow> SequenceDiff_both (OffsetRange_new a b) (OffsetRange_new c d) =
     Inr \<lparr>sd_seq1Range = \<lparr>or_start = a, or_endExclusive = b\<rparr>, sd_seq2Range = \<lparr>or_start = c, or_endExclusive = d\<rparr>\<rparr>"
  by (simp add: SequenceDiff_both_def SequenceDiff_new_def OffsetRange_new_def)

text \<open>The number of common elements before the next diff.\<close>

fun gap :: "'a list \<Rightarrow> int \<Rightarrow> SequenceDiff list \<Rightarrow> int" where
  "gap xs i [] = int (length xs) - i"
| "gap xs i (e # _) = start1 e - i"

lemma valid_from_gap: "valid_from xs ys i j ds \<Longrightarrow> agree xs ys i j (gap xs i ds) \<and> 0 \<le> gap xs i ds"
  by (cases ds) (auto simp: agree_def)

lemma valid_from_shrink:
  assumes "valid_from xs ys i j ds" "0 \<le> d" "d \<le> gap xs i ds"
  shows "valid_from xs ys (i + d) (j + d) ds"
proof (cases ds)
  case Nil
  with assms have "agree xs ys (i + d) (j + d) (int (length xs) - i - d)"
    by (intro agree_part [of xs ys i j "int (length xs) - i"]) auto
  with assms Nil show ?thesis by (simp add: algebra_simps)
next
  case (Cons e es)
  with assms have "agree xs ys (i + d) (j + d) (start1 e - i - d)"
    by (intro agree_part [of xs ys i j "start1 e - i"]) auto
  with assms Cons show ?thesis by (simp add: algebra_simps)
qed

lemma valid_from_ConsI:
  "start1 d - i = start2 d - j \<Longrightarrow> agree xs ys i j (start1 d - i) \<Longrightarrow> start1 d \<le> end1 d \<Longrightarrow> start2 d \<le> end2 d \<Longrightarrow>
   valid_from xs ys (end1 d) (end2 d) ds \<Longrightarrow> valid_from xs ys i j (d # ds)"
  by simp

lemma valid_from_replace_tl:
  "valid_from xs ys i j (d # ds) \<Longrightarrow> valid_from xs ys (end1 d) (end2 d) es \<Longrightarrow> valid_from xs ys i j (d # es)"
  unfolding valid_from.simps by blast

lemma moved_left_valid:
  assumes v: "valid_from xs ys i j (c # rest)" and d: "0 \<le> d" "d \<le> start1 c - i"
    and eq: "\<And>l. 1 \<le> l \<Longrightarrow> l \<le> d \<Longrightarrow> xs ! nat (start1 c - l) = xs ! nat (end1 c - l) \<and>
      ys ! nat (start2 c - l) = ys ! nat (end2 c - l)"
  shows "valid_from xs ys i j (moved c (- d) # rest)"
proof -
  have ag: "agree xs ys i j (start1 c - i)" and s: "start1 c - i = start2 c - j"
    and le: "start1 c \<le> end1 c" "start2 c \<le> end2 c" and rest: "valid_from xs ys (end1 c) (end2 c) rest"
    using v by auto
  note bounds = valid_from_le [OF rest] ag [unfolded agree_def]
  have entering: "agree xs ys (start1 c - d) (start2 c - d) d"
  proof -
    have "i + (start1 c - i - d) = start1 c - d" "j + (start1 c - i - d) = start2 c - d" using s by simp_all
    with agree_part [OF ag, of "start1 c - i - d" d] d show ?thesis by simp
  qed
  have "xs ! nat (end1 c - d + k) = ys ! nat (end2 c - d + k)" if "0 \<le> k" "k < d" for k
  proof -
    have "xs ! nat (start1 c - d + k) = ys ! nat (start2 c - d + k)"
      using entering that by (simp add: agree_def)
    with eq [of "d - k"] that show ?thesis by (simp add: algebra_simps)
  qed
  then have "agree xs ys (end1 c - d) (end2 c - d) d"
    using bounds le d s by (auto simp: agree_def)
  then have v': "valid_from xs ys (end1 c - d) (end2 c - d) rest"
    using rest valid_from_extend [of xs ys "end1 c - d" "end2 c - d" d rest] by simp
  have ag': "agree xs ys i j (start1 c - d - i)"
    using agree_part [OF ag, of 0 "start1 c - d - i"] d by simp
  show ?thesis by (rule valid_from_ConsI) (use s le ag' v' in simp_all)
qed

lemma moved_right_valid:
  assumes v: "valid_from xs ys i j (c # rest)" and d: "0 \<le> d" "d \<le> gap xs (end1 c) rest"
    and eq: "\<And>l. 0 \<le> l \<Longrightarrow> l < d \<Longrightarrow> xs ! nat (start1 c + l) = xs ! nat (end1 c + l) \<and>
      ys ! nat (start2 c + l) = ys ! nat (end2 c + l)"
  shows "valid_from xs ys i j (moved c d # rest)"
proof -
  have ag: "agree xs ys i j (start1 c - i)" and s: "start1 c - i = start2 c - j"
    and le: "start1 c \<le> end1 c" "start2 c \<le> end2 c" and rest: "valid_from xs ys (end1 c) (end2 c) rest"
    using v by auto
  have leaving: "agree xs ys (end1 c) (end2 c) d"
    using agree_part [of xs ys "end1 c" "end2 c" "gap xs (end1 c) rest" 0 d] valid_from_gap [OF rest] d by simp
  have "xs ! nat (start1 c + k) = ys ! nat (start2 c + k)" if "0 \<le> k" "k < d" for k
    using leaving eq [of k] that by (simp add: agree_def)
  then have "agree xs ys (start1 c) (start2 c) d"
    using leaving le ag s d by (auto simp: agree_def)
  moreover have "i + (start1 c - i) = start1 c" "j + (start1 c - i) = start2 c" using s by simp_all
  ultimately have "agree xs ys i j (start1 c - i + d)"
    using agree_append [OF ag, of d] by simp
  moreover have "start1 c - i + d = start1 (moved c d) - i" by simp
  ultimately have ag': "agree xs ys i j (start1 (moved c d) - i)" by (simp only:)
  have v': "valid_from xs ys (end1 c + d) (end2 c + d) rest" by (rule valid_from_shrink [OF rest d])
  show ?thesis by (rule valid_from_ConsI [OF _ ag']) (use s le v' in simp_all)
qed

lemma join_touching_valid:
  "valid_from xs ys i j (p # c # rest) \<Longrightarrow> start1 c = end1 p \<Longrightarrow>
   valid_from xs ys i j
     (\<lparr>sd_seq1Range = \<lparr>or_start = start1 p, or_endExclusive = end1 c\<rparr>,
       sd_seq2Range = \<lparr>or_start = start2 p, or_endExclusive = end2 c\<rparr>\<rparr> # rest)"
  by auto

subsection \<open>What is kept\<close>

definition separated :: "SequenceDiff list \<Rightarrow> bool" where
  "separated ds \<longleftrightarrow> successively (\<lambda>d e. end1 d < start1 e) ds"

definition ok_from :: "'a list \<Rightarrow> 'a list \<Rightarrow> int \<Rightarrow> int \<Rightarrow> SequenceDiff list \<Rightarrow> bool" where
  "ok_from xs ys i j ds \<longleftrightarrow> valid_from xs ys i j ds \<and> separated ds"

definition total1 :: "SequenceDiff list \<Rightarrow> int" where
  "total1 ds = (\<Sum>d \<leftarrow> ds. end1 d - start1 d)"

definition total2 :: "SequenceDiff list \<Rightarrow> int" where
  "total2 ds = (\<Sum>d \<leftarrow> ds. end2 d - start2 d)"

text \<open>The same number of elements is removed and inserted, and no diff loses its effect.\<close>

definition same_change :: "SequenceDiff list \<Rightarrow> SequenceDiff list \<Rightarrow> bool" where
  "same_change ds es \<longleftrightarrow> total1 es = total1 ds \<and> total2 es = total2 ds \<and>
     ((\<forall>d \<in> set ds. effective d) \<longrightarrow> (\<forall>d \<in> set es. effective d)) \<and> length es \<le> length ds"

lemma same_change_refl: "same_change ds ds"
  by (simp add: same_change_def)

lemma same_change_trans: "same_change ds es \<Longrightarrow> same_change es fs \<Longrightarrow> same_change ds fs"
  by (auto simp: same_change_def)

lemma total_append: "total1 (ds @ es) = total1 ds + total1 es" "total2 (ds @ es) = total2 ds + total2 es"
  by (simp_all add: total1_def total2_def)

lemma same_change_append:
  assumes "same_change ds es" "same_change ds' es'"
  shows "same_change (ds @ ds') (es @ es')"
  using assms unfolding same_change_def total_append set_append ball_Un length_append by linarith

lemma same_change_moved: "same_change [c] [moved c d]"
  by (simp add: same_change_def total1_def total2_def effective_def)

lemma ok_from_Cons:
  "ok_from xs ys i j (d # ds) \<longleftrightarrow>
     start1 d - i = start2 d - j \<and> agree xs ys i j (start1 d - i) \<and> start1 d \<le> end1 d \<and> start2 d \<le> end2 d \<and>
     ok_from xs ys (end1 d) (end2 d) ds \<and> (ds \<noteq> [] \<longrightarrow> end1 d < start1 (hd ds))"
  by (auto simp: ok_from_def separated_def successively_Cons)

lemma ok_from_tl: "ok_from xs ys i j (d # ds) \<Longrightarrow> ok_from xs ys (end1 d) (end2 d) ds"
  by (simp add: ok_from_Cons)

lemma ok_from_valid: "ok_from xs ys i j ds \<Longrightarrow> valid_from xs ys i j ds"
  by (simp add: ok_from_def)

lemma ok_from_tail:
  assumes "ok_from xs ys i j (pre @ t)" "t \<noteq> []" "t' \<noteq> []" "start1 (hd t') = start1 (hd t)"
    and "\<And>i j. ok_from xs ys i j t \<Longrightarrow> ok_from xs ys i j t'"
  shows "ok_from xs ys i j (pre @ t')"
  using assms(1)
proof (induction pre arbitrary: i j)
  case Nil
  with assms(5) show ?case by simp
next
  case (Cons p pre)
  then have "ok_from xs ys (end1 p) (end2 p) (pre @ t')" by (simp add: ok_from_Cons)
  moreover have "start1 (hd (pre @ t')) = start1 (hd (pre @ t))" using assms(2-4) by (cases pre) simp_all
  ultimately show ?case using Cons.prems assms(2,3) by (auto simp: ok_from_Cons)
qed

lemma ok_from_proper:
  assumes "ok_from xs ys i j ds" "\<forall>d \<in> set ds. effective d"
  shows "proper_diff ds"
proof -
  have "successively (\<lambda>d e. end1 d < start1 e \<and> end2 d < start2 e) ds"
    using assms(1)
  proof (induction ds arbitrary: i j)
    case (Cons d ds)
    then have "ok_from xs ys (end1 d) (end2 d) ds" by (simp add: ok_from_Cons)
    with Cons show ?case by (cases ds) (auto simp: ok_from_Cons)
  qed simp
  with assms(2) show ?thesis by (simp add: proper_diff_def)
qed

lemma proper_ok_from: "valid_from xs ys i j ds \<Longrightarrow> proper_diff ds \<Longrightarrow> ok_from xs ys i j ds"
  unfolding ok_from_def separated_def proper_diff_def by (auto elim: successively_mono)

subsection \<open>The first pass\<close>

lemma shift_left_loop_spec:
  "d \<le> n + 1 \<Longrightarrow> d \<le> shift_left_loop s1 s2 cur n d \<and> shift_left_loop s1 s2 cur n d \<le> n + 1 \<and>
   (\<forall>l. d \<le> l \<and> l < shift_left_loop s1 s2 cur n d \<longrightarrow>
      getElement s1 (start1 cur - l) = getElement s1 (end1 cur - l) \<and>
      getElement s2 (start2 cur - l) = getElement s2 (end2 cur - l))"
proof (induction s1 s2 cur n d rule: shift_left_loop.induct)
  case (1 s1 s2 cur n d)
  show ?case
  proof (cases "d \<le> n \<and> getElement s1 (start1 cur - d) = getElement s1 (end1 cur - d) \<and>
      getElement s2 (start2 cur - d) = getElement s2 (end2 cur - d)")
    case True
    then have "shift_left_loop s1 s2 cur n d = shift_left_loop s1 s2 cur n (d + 1)"
      by (subst shift_left_loop.simps) simp
    with 1 True show ?thesis by (smt (verit, best))
  next
    case False
    then have "shift_left_loop s1 s2 cur n d = d" by (subst shift_left_loop.simps) auto
    with "1.prems" show ?thesis by auto
  qed
qed

lemma join_left_step_ok:
  assumes ok: "ok_from (seq_elements s1) (seq_elements s2) i j (result @ cur # rest)" and ne: "result \<noteq> []"
  shows "\<exists>result'. join_left_step s1 s2 result cur = Inr result' \<and> result' \<noteq> [] \<and>
    ok_from (seq_elements s1) (seq_elements s2) i j (result' @ rest) \<and> same_change (result @ [cur]) result'"
proof (cases "one_sided cur")
  case False
  with ok show ?thesis by (simp add: join_left_step_def same_change_refl)
next
  case one: True
  obtain pre p where result: "result = pre @ [p]" using ne by (metis rev_exhaust)
  let ?X = "seq_elements s1" and ?Y = "seq_elements s2"
  let ?n = "start1 cur - end1 p"
  let ?d = "shift_left_loop s1 s2 cur ?n 1 - 1"
  have tail: "\<exists>i j. ok_from ?X ?Y i j (p # cur # rest)"
    using ok unfolding result
  proof (induction pre arbitrary: i j)
    case Nil
    then show ?case by (intro exI) simp
  next
    case (Cons q pre)
    then have "ok_from ?X ?Y (end1 q) (end2 q) ((pre @ [p]) @ cur # rest)" by (simp add: ok_from_Cons)
    then show ?case by (rule Cons.IH)
  qed
  then have n: "1 \<le> ?n" "start1 cur - end1 p = start2 cur - end2 p"
    and le: "start1 p \<le> end1 p" "start2 p \<le> end2 p" "start1 cur \<le> end1 cur" "start2 cur \<le> end2 cur"
    by (auto simp: ok_from_Cons)
  have d: "0 \<le> ?d" "?d \<le> ?n" and eq: "\<And>l. 1 \<le> l \<Longrightarrow> l \<le> ?d \<Longrightarrow>
      ?X ! nat (start1 cur - l) = ?X ! nat (end1 cur - l) \<and> ?Y ! nat (start2 cur - l) = ?Y ! nat (end2 cur - l)"
    using shift_left_loop_spec [of 1 ?n s1 s2 cur] n(1) by (auto simp: getElement_def)
  have left: "ok_from ?X ?Y i j (p # cur # rest) \<Longrightarrow> ?d < ?n \<Longrightarrow> ok_from ?X ?Y i j (p # moved cur (- ?d) # rest)"
    and merge: "ok_from ?X ?Y i j (p # cur # rest) \<Longrightarrow> ?d = ?n \<Longrightarrow> ok_from ?X ?Y i j
      (\<lparr>sd_seq1Range = \<lparr>or_start = start1 p, or_endExclusive = end1 cur - ?n\<rparr>,
        sd_seq2Range = \<lparr>or_start = start2 p, or_endExclusive = end2 cur - ?n\<rparr>\<rparr> # rest)" for i j
  proof -
    assume o: "ok_from ?X ?Y i j (p # cur # rest)"
    then have "valid_from ?X ?Y (end1 p) (end2 p) (cur # rest)" by (intro ok_from_valid ok_from_tl)
    then have "valid_from ?X ?Y (end1 p) (end2 p) (moved cur (- ?d) # rest)"
      by (rule moved_left_valid) (use d eq in blast)+
    with ok_from_valid [OF o] have v: "valid_from ?X ?Y i j (p # moved cur (- ?d) # rest)"
      by (rule valid_from_replace_tl)
    {
      assume "?d < ?n"
      with v o d show "ok_from ?X ?Y i j (p # moved cur (- ?d) # rest)"
        by (cases rest) (auto simp: ok_from_def separated_def)
    next
      assume dn: "?d = ?n"
      from v have v': "valid_from ?X ?Y i j (p # moved cur (- ?n) # rest)" by (simp only: dn)
      have t: "start1 (moved cur (- ?n)) = end1 p" by simp
      have e: "end1 (moved cur (- ?n)) = end1 cur - ?n" "end2 (moved cur (- ?n)) = end2 cur - ?n" by simp_all
      have s: "separated (p # cur # rest)" using o by (simp add: ok_from_def)
      have "separated (\<lparr>sd_seq1Range = \<lparr>or_start = start1 p, or_endExclusive = end1 cur - ?n\<rparr>,
        sd_seq2Range = \<lparr>or_start = start2 p, or_endExclusive = end2 cur - ?n\<rparr>\<rparr> # rest)"
        using s n(1) by (cases rest) (auto simp: separated_def)
      with join_touching_valid [OF v' t]
      show "ok_from ?X ?Y i j (\<lparr>sd_seq1Range = \<lparr>or_start = start1 p, or_endExclusive = end1 cur - ?n\<rparr>,
        sd_seq2Range = \<lparr>or_start = start2 p, or_endExclusive = end2 cur - ?n\<rparr>\<rparr> # rest)"
        unfolding e ok_from_def by blast
    }
  qed
  have ok': "ok_from ?X ?Y i j (pre @ p # cur # rest)" using ok unfolding result by simp
  show ?thesis
  proof (cases "?d = ?n")
    case True
    let ?m = "\<lparr>sd_seq1Range = \<lparr>or_start = start1 p, or_endExclusive = end1 cur - ?n\<rparr>,
        sd_seq2Range = \<lparr>or_start = start2 p, or_endExclusive = end2 cur - ?n\<rparr>\<rparr>"
    have "SequenceDiff_both (OffsetRange_new (start1 p) (end1 cur - ?n)) (OffsetRange_new (start2 p) (end2 cur - ?n)) = Inr ?m"
      using le n by (intro SequenceDiff_both_Inr) auto
    then have "join_left_step s1 s2 result cur = Inr (pre @ [?m])"
      using one True unfolding join_left_step_def Let_def result last_snoc butlast_snoc by simp
    moreover have "ok_from ?X ?Y i j (pre @ ?m # rest)"
    proof (rule ok_from_tail [OF ok'])
      show "ok_from ?X ?Y i j (?m # rest)" if "ok_from ?X ?Y i j (p # cur # rest)" for i j
        using merge [OF that True] .
    qed simp_all
    moreover have "same_change ([p] @ [cur]) [?m]"
      using n le by (auto simp: same_change_def total1_def total2_def effective_def)
    ultimately show ?thesis unfolding result
      using same_change_append [OF same_change_refl [of pre], of "[p, cur]" "[?m]"] by simp
  next
    case False
    with d(2) have dn: "?d < ?n" by simp
    have "join_left_step s1 s2 result cur = Inr (result @ [moved cur (- ?d)])"
      using one False le SequenceDiff_delta_moved [of cur "- ?d"]
      unfolding join_left_step_def Let_def result last_snoc butlast_snoc by simp
    moreover have "ok_from ?X ?Y i j (pre @ p # moved cur (- ?d) # rest)"
    proof (rule ok_from_tail [OF ok'])
      show "ok_from ?X ?Y i j (p # moved cur (- ?d) # rest)" if "ok_from ?X ?Y i j (p # cur # rest)" for i j
        using left [OF that dn] .
    qed simp_all
    ultimately show ?thesis unfolding result
      using same_change_append [OF same_change_refl [of "pre @ [p]"] same_change_moved [of cur "- ?d"]] by simp
  qed
qed

lemma join_left_ok:
  "ok_from (seq_elements s1) (seq_elements s2) i j (result @ ds) \<Longrightarrow> result \<noteq> [] \<Longrightarrow>
   \<exists>result'. foldE (join_left_step s1 s2) result ds = Inr result' \<and> result' \<noteq> [] \<and>
     ok_from (seq_elements s1) (seq_elements s2) i j result' \<and> same_change (result @ ds) result'"
proof (induction ds arbitrary: result)
  case Nil
  then show ?case by (simp add: same_change_refl)
next
  case (Cons cur ds)
  from join_left_step_ok [OF Cons.prems] obtain r where r: "join_left_step s1 s2 result cur = Inr r" "r \<noteq> []"
    "ok_from (seq_elements s1) (seq_elements s2) i j (r @ ds)" "same_change (result @ [cur]) r" by blast
  from Cons.IH [OF r(3,2)] obtain r' where r': "foldE (join_left_step s1 s2) r ds = Inr r'" "r' \<noteq> []"
    "ok_from (seq_elements s1) (seq_elements s2) i j r'" "same_change (r @ ds) r'" by blast
  have "same_change (result @ cur # ds) (r @ ds)"
    using same_change_append [OF r(4) same_change_refl [of ds]] by simp
  with r r' show ?case by (auto intro: same_change_trans)
qed

subsection \<open>The second pass\<close>

text \<open>
  What \<open>ISequence\<close> documents of \<open>isStronglyEqual\<close>: it compares the original lines where
  \<open>getElement\<close> compares the trimmed ones.
\<close>

definition strong_ok :: "'a Sequence \<Rightarrow> bool" where
  "strong_ok s \<longleftrightarrow> (\<forall>a b. 0 \<le> a \<and> a < seq_length s \<and> 0 \<le> b \<and> b < seq_length s \<and>
     seq_isStronglyEqual s a b \<longrightarrow> getElement s a = getElement s b)"

lemma strong_okD:
  "strong_ok s \<Longrightarrow> seq_isStronglyEqual s a b \<Longrightarrow> 0 \<le> a \<Longrightarrow> a \<le> b \<Longrightarrow> b < int (length (seq_elements s)) \<Longrightarrow>
   seq_elements s ! nat a = seq_elements s ! nat b"
  by (auto simp: strong_ok_def getElement_def seq_length_def)

lemma moved_0: "moved c 0 = c"
  by (simp add: moved_def)

lemma shift_right_loop_spec:
  "d \<le> n \<Longrightarrow> d \<le> shift_right_loop s1 s2 cur n d \<and> shift_right_loop s1 s2 cur n d \<le> n \<and>
   (\<forall>l. d \<le> l \<and> l < shift_right_loop s1 s2 cur n d \<longrightarrow>
      seq_isStronglyEqual s1 (start1 cur + l) (end1 cur + l) \<and> seq_isStronglyEqual s2 (start2 cur + l) (end2 cur + l))"
proof (induction s1 s2 cur n d rule: shift_right_loop.induct)
  case (1 s1 s2 cur n d)
  show ?case
  proof (cases "d < n \<and> seq_isStronglyEqual s1 (start1 cur + d) (end1 cur + d) \<and>
      seq_isStronglyEqual s2 (start2 cur + d) (end2 cur + d)")
    case True
    then have "shift_right_loop s1 s2 cur n d = shift_right_loop s1 s2 cur n (d + 1)"
      by (subst shift_right_loop.simps) simp
    with 1 True show ?thesis by (smt (verit, best))
  next
    case False
    then have "shift_right_loop s1 s2 cur n d = d" by (subst shift_right_loop.simps) auto
    with "1.prems" show ?thesis by auto
  qed
qed

lemma join_right_step_ok:
  assumes ok: "ok_from (seq_elements s1) (seq_elements s2) i j (cur # nxt # rest)"
    and strong: "strong_ok s1" "strong_ok s2"
  shows "(\<exists>m. join_right_step s1 s2 cur nxt = Inr ([], m) \<and> ok_from (seq_elements s1) (seq_elements s2) i j (m # rest) \<and>
      same_change [cur, nxt] [m] \<and> start1 cur \<le> start1 m) \<or>
    (\<exists>c. join_right_step s1 s2 cur nxt = Inr ([c], nxt) \<and>
      ok_from (seq_elements s1) (seq_elements s2) i j (c # nxt # rest) \<and> same_change [cur] [c] \<and> start1 cur \<le> start1 c)"
proof (cases "one_sided cur")
  case False
  with ok show ?thesis by (simp add: join_right_step_def same_change_refl)
next
  case one: True
  let ?X = "seq_elements s1" and ?Y = "seq_elements s2"
  let ?n = "start1 nxt - end1 cur"
  let ?d = "shift_right_loop s1 s2 cur ?n 0"
  have v: "valid_from ?X ?Y i j (cur # nxt # rest)" by (rule ok_from_valid [OF ok])
  have n: "1 \<le> ?n" "?n = start2 nxt - end2 cur"
    and le: "start1 cur \<le> end1 cur" "start2 cur \<le> end2 cur" "start1 nxt \<le> end1 nxt" "start2 nxt \<le> end2 nxt"
    and ij: "0 \<le> i" "0 \<le> j" "i \<le> start1 cur" "j \<le> start2 cur"
    using ok by (auto simp: ok_from_Cons agree_def)
  have bounds: "end1 nxt \<le> int (length ?X)" "end2 nxt \<le> int (length ?Y)"
    using valid_from_le [OF ok_from_valid [OF ok_from_tl [OF ok_from_tl [OF ok]]]] by auto
  have d: "0 \<le> ?d" "?d \<le> ?n"
    and strongly: "\<And>l. 0 \<le> l \<Longrightarrow> l < ?d \<Longrightarrow> seq_isStronglyEqual s1 (start1 cur + l) (end1 cur + l) \<and>
      seq_isStronglyEqual s2 (start2 cur + l) (end2 cur + l)"
    using shift_right_loop_spec [of 0 ?n s1 s2 cur] n(1) by auto
  have eq: "?X ! nat (start1 cur + l) = ?X ! nat (end1 cur + l) \<and> ?Y ! nat (start2 cur + l) = ?Y ! nat (end2 cur + l)"
    if "0 \<le> l" "l < ?d" for l
    using strong_okD [OF strong(1), of "start1 cur + l" "end1 cur + l"]
      strong_okD [OF strong(2), of "start2 cur + l" "end2 cur + l"] strongly [OF that] that d(2) n le ij bounds
    by linarith
  have "valid_from ?X ?Y i j (moved cur ?d # nxt # rest)"
    by (rule moved_right_valid [OF v d(1) _ eq]) (use d(2) in simp_all)
  note vm = this
  have sep: "separated (cur # nxt # rest)" using ok by (simp add: ok_from_def)
  show ?thesis
  proof (cases "?d = ?n")
    case True
    let ?m = "\<lparr>sd_seq1Range = \<lparr>or_start = start1 cur + ?n, or_endExclusive = end1 nxt\<rparr>,
        sd_seq2Range = \<lparr>or_start = start2 cur + ?n, or_endExclusive = end2 nxt\<rparr>\<rparr>"
    have "SequenceDiff_both (OffsetRange_new (start1 cur + ?n) (end1 nxt)) (OffsetRange_new (start2 cur + ?n) (end2 nxt)) = Inr ?m"
      using le n by (intro SequenceDiff_both_Inr) auto
    then have "join_right_step s1 s2 cur nxt = Inr ([], ?m)"
      using one True by (simp add: join_right_step_def Let_def)
    moreover have "ok_from ?X ?Y i j (?m # rest)"
    proof -
      have t: "start1 nxt = end1 (moved cur ?d)" using True by simp
      have e: "start1 (moved cur ?d) = start1 cur + ?n" "start2 (moved cur ?d) = start2 cur + ?n"
        using True by simp_all
      have "separated (?m # rest)" using sep by (cases rest) (auto simp: separated_def)
      with join_touching_valid [OF vm t] show ?thesis unfolding e ok_from_def by blast
    qed
    moreover have "same_change [cur, nxt] [?m]"
      using n le by (auto simp: same_change_def total1_def total2_def effective_def)
    moreover have "start1 cur \<le> start1 ?m" using n(1) by simp
    ultimately show ?thesis by blast
  next
    case False
    have "(if ?d > 0 then SequenceDiff_delta cur ?d else Inr cur) = Inr (moved cur ?d)"
      using d(1) le by (auto simp: SequenceDiff_delta_moved moved_0)
    then have "join_right_step s1 s2 cur nxt = Inr ([moved cur ?d], nxt)"
      using one False unfolding join_right_step_def Let_def by simp
    moreover have "ok_from ?X ?Y i j (moved cur ?d # nxt # rest)"
      using vm sep d(2) False by (auto simp only: ok_from_def) (simp add: separated_def)
    ultimately show ?thesis using same_change_moved [of cur ?d] d(1) by auto
  qed
qed

lemma join_right_ok:
  assumes strong: "strong_ok s1" "strong_ok s2"
  shows "ok_from (seq_elements s1) (seq_elements s2) i j (cur # rest) \<Longrightarrow>
    \<exists>r. join_right s1 s2 cur rest = Inr r \<and> r \<noteq> [] \<and> ok_from (seq_elements s1) (seq_elements s2) i j r \<and>
      same_change (cur # rest) r \<and> start1 cur \<le> start1 (hd r)"
proof (induction rest arbitrary: cur i j)
  case Nil
  then show ?case by (simp add: same_change_refl)
next
  case (Cons nxt rest)
  from join_right_step_ok [OF Cons.prems strong] show ?case
  proof (elim disjE exE conjE)
    fix m
    assume m: "join_right_step s1 s2 cur nxt = Inr ([], m)" "ok_from (seq_elements s1) (seq_elements s2) i j (m # rest)"
      "same_change [cur, nxt] [m]" "start1 cur \<le> start1 m"
    from Cons.IH [OF m(2)] obtain r where r: "join_right s1 s2 m rest = Inr r" "r \<noteq> []"
      "ok_from (seq_elements s1) (seq_elements s2) i j r" "same_change (m # rest) r" "start1 m \<le> start1 (hd r)" by blast
    have "same_change (cur # nxt # rest) (m # rest)"
      using same_change_append [OF m(3) same_change_refl [of rest]] by simp
    with m r show ?case by (auto intro: same_change_trans)
  next
    fix c
    assume c: "join_right_step s1 s2 cur nxt = Inr ([c], nxt)"
      "ok_from (seq_elements s1) (seq_elements s2) i j (c # nxt # rest)" "same_change [cur] [c]" "start1 cur \<le> start1 c"
    from Cons.IH [OF ok_from_tl [OF c(2)]] obtain r where r: "join_right s1 s2 nxt rest = Inr r" "r \<noteq> []"
      "ok_from (seq_elements s1) (seq_elements s2) (end1 c) (end2 c) r" "same_change (nxt # rest) r"
      "start1 nxt \<le> start1 (hd r)" by blast
    have "ok_from (seq_elements s1) (seq_elements s2) i j (c # r)"
      using c(2) r(3,5) unfolding ok_from_Cons [of _ _ _ _ c] by auto
    moreover have "same_change (cur # nxt # rest) (c # r)"
      using same_change_append [OF c(3) r(4)] by simp
    ultimately show ?case using c r by simp
  qed
qed

lemma joinSequenceDiffsByShifting_ok:
  assumes "ok_from (seq_elements s1) (seq_elements s2) i j ds" "strong_ok s1" "strong_ok s2"
  shows "\<exists>r. joinSequenceDiffsByShifting s1 s2 ds = Inr r \<and> ok_from (seq_elements s1) (seq_elements s2) i j r \<and>
    same_change ds r"
proof (cases ds)
  case Nil
  with assms(1) show ?thesis by (simp add: joinSequenceDiffsByShifting_def same_change_refl)
next
  case (Cons d rest)
  with assms(1) join_left_ok [of s1 s2 i j "[d]" rest] obtain r where r:
    "foldE (join_left_step s1 s2) [d] rest = Inr r" "r \<noteq> []" "ok_from (seq_elements s1) (seq_elements s2) i j r"
    "same_change ds r" by auto
  from join_right_ok [OF assms(2,3), of i j "hd r" "tl r"] r obtain r' where
    "join_right s1 s2 (hd r) (tl r) = Inr r'" "ok_from (seq_elements s1) (seq_elements s2) i j r'" "same_change r r'"
    by auto
  with r Cons show ?thesis by (auto simp: joinSequenceDiffsByShifting_def intro: same_change_trans)
qed

subsection \<open>Shifting to better positions\<close>

lemma best_delta_loop_range:
  "best_delta_loop score n d b s = b \<or> d \<le> best_delta_loop score n d b s \<and> best_delta_loop score n d b s \<le> n"
proof (induction score n d b s rule: best_delta_loop.induct)
  case (1 score n d b s)
  show ?case
  proof (cases "d \<le> n")
    case True
    with 1 show ?thesis by (subst (1 2 3) best_delta_loop.simps) auto
  next
    case False
    then show ?thesis by (subst best_delta_loop.simps) simp
  qed
qed

lemma shift_before_loop_spec:
  "k \<le> shift_before_loop s diff v1 v2 k \<and>
   (\<forall>l. k \<le> l \<and> l < shift_before_loop s diff v1 v2 k \<longrightarrow>
      or_start v1 \<le> start1 diff - l \<and> seq_isStronglyEqual s (start2 diff - l) (end2 diff - l))"
proof (induction s diff v1 v2 k rule: shift_before_loop.induct)
  case (1 s diff v1 v2 k)
  let ?c = "start1 diff - k \<ge> or_start v1 \<and> start2 diff - k \<ge> or_start v2 \<and>
    seq_isStronglyEqual s (start2 diff - k) (end2 diff - k) \<and> k < maxShiftLimit"
  show ?case
  proof (cases ?c)
    case True
    then have "shift_before_loop s diff v1 v2 k = shift_before_loop s diff v1 v2 (k + 1)"
      by (subst shift_before_loop.simps) simp
    with 1 True show ?thesis by (smt (verit, best))
  next
    case False
    then have "shift_before_loop s diff v1 v2 k = k" by (subst shift_before_loop.simps) auto
    then show ?thesis by auto
  qed
qed

lemma shift_after_loop_spec:
  "k \<le> shift_after_loop s diff v1 v2 k \<and>
   (\<forall>l. k \<le> l \<and> l < shift_after_loop s diff v1 v2 k \<longrightarrow>
      start1 diff + l < or_endExclusive v1 \<and> end2 diff + l < or_endExclusive v2 \<and>
      seq_isStronglyEqual s (start2 diff + l) (end2 diff + l))"
proof (induction s diff v1 v2 k rule: shift_after_loop.induct)
  case (1 s diff v1 v2 k)
  let ?c = "start1 diff + k < or_endExclusive v1 \<and> end2 diff + k < or_endExclusive v2 \<and>
    seq_isStronglyEqual s (start2 diff + k) (end2 diff + k) \<and> k < maxShiftLimit"
  show ?case
  proof (cases ?c)
    case True
    then have "shift_after_loop s diff v1 v2 k = shift_after_loop s diff v1 v2 (k + 1)"
      by (subst shift_after_loop.simps) simp
    with 1 True show ?thesis by (smt (verit, best))
  next
    case False
    then have "shift_after_loop s diff v1 v2 k = k" by (subst shift_after_loop.simps) auto
    then show ?thesis by auto
  qed
qed

lemma shiftDiffToBetterPosition_ok:
  assumes v: "valid_from X (seq_elements s2) i j (diff # rest)" and e: "start1 diff = end1 diff"
    and strong: "strong_ok s2"
    and lo: "i \<le> or_start v1" and hi: "or_endExclusive v1 \<le> end1 diff + gap X (end1 diff) rest"
      "or_endExclusive v2 \<le> int (length (seq_elements s2))"
  shows "\<exists>\<delta>. shiftDiffToBetterPosition diff sc1 s2 sc2 v1 v2 = Inr (moved diff \<delta>) \<and>
    valid_from X (seq_elements s2) i j (moved diff \<delta> # rest) \<and>
    (\<delta> < 0 \<longrightarrow> or_start v1 \<le> start1 diff + \<delta>) \<and> (0 < \<delta> \<longrightarrow> start1 diff + \<delta> \<le> or_endExclusive v1)"
proof -
  let ?Y = "seq_elements s2"
  define b where "b = shift_before_loop s2 diff v1 v2 1 - 1"
  define a where "a = shift_after_loop s2 diff v1 v2 0"
  have b: "0 \<le> b" "\<And>l. 1 \<le> l \<Longrightarrow> l \<le> b \<Longrightarrow>
      or_start v1 \<le> start1 diff - l \<and> seq_isStronglyEqual s2 (start2 diff - l) (end2 diff - l)"
    using shift_before_loop_spec [of 1 s2 diff v1 v2] by (auto simp: b_def)
  have a: "0 \<le> a" "\<And>l. 0 \<le> l \<Longrightarrow> l < a \<Longrightarrow>
      start1 diff + l < or_endExclusive v1 \<and> end2 diff + l < or_endExclusive v2 \<and>
      seq_isStronglyEqual s2 (start2 diff + l) (end2 diff + l)"
    using shift_after_loop_spec [of 0 s2 diff v1 v2] by (auto simp: a_def)
  have le: "start2 diff \<le> end2 diff" "0 \<le> i" "0 \<le> j" "i \<le> start1 diff" "start1 diff - i = start2 diff - j"
    using v by (auto simp: agree_def)
  have end2: "end2 diff \<le> int (length ?Y)" using v valid_from_le [of X ?Y "end1 diff" "end2 diff" rest] by simp
  obtain \<delta> where d: "shiftDiffToBetterPosition diff sc1 s2 sc2 v1 v2 = Inr (moved diff \<delta>)" "- b \<le> \<delta>" "\<delta> \<le> a"
  proof (cases "b = 0 \<and> a = 0")
    case True
    then have "shiftDiffToBetterPosition diff sc1 s2 sc2 v1 v2 = Inr (moved diff 0)"
      by (simp add: shiftDiffToBetterPosition_def Let_def a_def b_def moved_0)
    then show ?thesis using that [of 0] a(1) b(1) by simp
  next
    case False
    let ?sc = "\<lambda>\<delta>. sc1 (start1 diff + \<delta>) + sc2 (start2 diff + \<delta>) + sc2 (end2 diff + \<delta>)"
    have "shiftDiffToBetterPosition diff sc1 s2 sc2 v1 v2 =
        Inr (moved diff (best_delta_loop ?sc a (- b) 0 (- 1)))"
      using False e le(1) unfolding shiftDiffToBetterPosition_def Let_def a_def [symmetric] b_def [symmetric]
      by (auto simp: SequenceDiff_delta_moved)
    then show ?thesis using that best_delta_loop_range [of ?sc a "- b" 0 "- 1"] a(1) b(1) by auto
  qed
  consider "\<delta> < 0" | "0 \<le> \<delta>" by linarith
  then show ?thesis
  proof cases
    case 1
    have lo': "or_start v1 \<le> start1 diff + \<delta>" using b(2) [of "- \<delta>"] d(2) 1 by simp
    have "?Y ! nat (start2 diff - l) = ?Y ! nat (end2 diff - l)" if "1 \<le> l" "l \<le> - \<delta>" for l
      using strong_okD [OF strong, of "start2 diff - l" "end2 diff - l"] b(2) [of l] that d(2) le end2 lo lo' by linarith
    then have "valid_from X ?Y i j (moved diff (- (- \<delta>)) # rest)"
      using 1 lo lo' e by (intro moved_left_valid [OF v]) auto
    with d(1) lo' 1 show ?thesis by auto
  next
    case 2
    have hi': "\<delta> > 0 \<Longrightarrow> start1 diff + \<delta> \<le> or_endExclusive v1" using a(2) [of "\<delta> - 1"] d(3) by simp
    have "?Y ! nat (start2 diff + l) = ?Y ! nat (end2 diff + l)" if "0 \<le> l" "l < \<delta>" for l
      using strong_okD [OF strong, of "start2 diff + l" "end2 diff + l"] a(2) [of l] that d(3) le hi(2) by linarith
    moreover have "\<delta> \<le> gap X (end1 diff) rest"
      using hi' hi(1) e 2 v valid_from_gap [of X ?Y "end1 diff" "end2 diff" rest] by (cases "\<delta> = 0") auto
    ultimately have "valid_from X ?Y i j (moved diff \<delta> # rest)"
      using 2 e by (intro moved_right_valid [OF v]) auto
    with d(1) hi' 2 show ?thesis by auto
  qed
qed

definition prev_ok :: "SequenceDiff option \<Rightarrow> int \<Rightarrow> int \<Rightarrow> SequenceDiff \<Rightarrow> bool" where
  "prev_ok prev i j diff \<longleftrightarrow> (case prev of
      None \<Rightarrow> i = 0 \<and> j = 0
    | Some p \<Rightarrow> i = end1 p \<and> j = end2 p \<and> end1 p < start1 diff)"

lemma moved_ok_from:
  assumes "ok_from xs ys i j (diff # rest)" "valid_from xs ys i j (moved diff \<delta> # rest)" "prev_ok prev i j diff"
    and "\<delta> < 0 \<longrightarrow> prev \<noteq> None \<longrightarrow> i + 1 \<le> start1 diff + \<delta>"
    and "0 < \<delta> \<longrightarrow> rest \<noteq> [] \<longrightarrow> end1 diff + \<delta> \<le> start1 (hd rest) - 1"
  shows "ok_from xs ys i j (moved diff \<delta> # rest) \<and> prev_ok prev i j (moved diff \<delta>)"
  using assms
  by (cases rest; cases prev; cases "\<delta> < 0"; cases "\<delta> = 0")
    (auto simp: ok_from_def separated_def prev_ok_def)

lemma shiftSequenceDiff_ok:
  assumes ok: "ok_from (seq_elements s1) (seq_elements s2) i j (diff # rest)" and prev: "prev_ok prev i j diff"
    and strong: "strong_ok s1" "strong_ok s2"
  shows "\<exists>\<delta>. shiftSequenceDiff s1 s2 sc1 sc2 prev diff (case rest of [] \<Rightarrow> None | n # _ \<Rightarrow> Some n) = Inr (moved diff \<delta>) \<and>
    ok_from (seq_elements s1) (seq_elements s2) i j (moved diff \<delta> # rest) \<and> prev_ok prev i j (moved diff \<delta>)"
proof -
  let ?X = "seq_elements s1" and ?Y = "seq_elements s2"
  have v: "valid_from ?X ?Y i j (diff # rest)" by (rule ok_from_valid [OF ok])
  have rest: "valid_from ?X ?Y (end1 diff) (end2 diff) rest" using v by simp
  have le: "start1 diff \<le> end1 diff" "start2 diff \<le> end2 diff" "start1 diff - i = start2 diff - j" "0 \<le> i" "0 \<le> j"
    using v by (auto simp: agree_def)
  define lo1 where "lo1 = (case prev of Some p \<Rightarrow> end1 p + 1 | None \<Rightarrow> 0)"
  define lo2 where "lo2 = (case prev of Some p \<Rightarrow> end2 p + 1 | None \<Rightarrow> 0)"
  define hi1 where "hi1 = (case rest of [] \<Rightarrow> seq_length s1 | n # _ \<Rightarrow> start1 n - 1)"
  define hi2 where "hi2 = (case rest of [] \<Rightarrow> seq_length s2 | n # _ \<Rightarrow> start2 n - 1)"
  have lo: "i \<le> lo1" "j \<le> lo2" "lo1 \<le> start1 diff" "lo2 \<le> start2 diff" "prev \<noteq> None \<longrightarrow> lo1 = i + 1 \<and> lo2 = j + 1"
    using prev v le by (auto simp: lo1_def lo2_def prev_ok_def agree_def split: option.splits)
  have hi: "end1 diff \<le> hi1" "end2 diff \<le> hi2"
    "hi1 \<le> end1 diff + gap ?X (end1 diff) rest" "hi2 \<le> end2 diff + gap ?Y (end2 diff) (map SequenceDiff_swap rest)"
    "hi1 \<le> int (length ?X)" "hi2 \<le> int (length ?Y)"
    "rest \<noteq> [] \<longrightarrow> hi1 = start1 (hd rest) - 1 \<and> hi2 = start2 (hd rest) - 1"
    "rest \<noteq> [] \<longrightarrow> start1 (hd rest) - end1 diff = start2 (hd rest) - end2 diff"
    using ok rest valid_from_le [OF rest] le
    by (cases rest; force simp: hi1_def hi2_def seq_length_def ok_from_Cons agree_def SequenceDiff_swap_def
        SequenceDiff_new_def)+
  have unfold: "shiftSequenceDiff s1 s2 sc1 sc2 prev diff (case rest of [] \<Rightarrow> None | n # _ \<Rightarrow> Some n) =
     (if OffsetRange_isEmpty (sd_seq1Range diff) then
         shiftDiffToBetterPosition diff sc1 s2 sc2 \<lparr>or_start = lo1, or_endExclusive = hi1\<rparr> \<lparr>or_start = lo2, or_endExclusive = hi2\<rparr>
       else if OffsetRange_isEmpty (sd_seq2Range diff) then
         bindE (shiftDiffToBetterPosition (SequenceDiff_swap diff) sc2 s1 sc1 \<lparr>or_start = lo2, or_endExclusive = hi2\<rparr> \<lparr>or_start = lo1, or_endExclusive = hi1\<rparr>)
           (\<lambda>d. Inr (SequenceDiff_swap d))
       else Inr diff)"
  proof -
    have "(case (case rest of [] \<Rightarrow> None | n # _ \<Rightarrow> Some n) of Some n \<Rightarrow> start1 n - 1 | None \<Rightarrow> seq_length s1) = hi1"
      "(case (case rest of [] \<Rightarrow> None | n # _ \<Rightarrow> Some n) of Some n \<Rightarrow> start2 n - 1 | None \<Rightarrow> seq_length s2) = hi2"
      by (cases rest; simp add: hi1_def hi2_def)+
    with lo hi le show ?thesis
      by (simp add: shiftSequenceDiff_def lo1_def [symmetric] lo2_def [symmetric] OffsetRange_new_def)
  qed
  show ?thesis
  proof (cases "start1 diff = end1 diff")
    case True
    have "\<exists>\<delta>. shiftDiffToBetterPosition diff sc1 s2 sc2 \<lparr>or_start = lo1, or_endExclusive = hi1\<rparr> \<lparr>or_start = lo2, or_endExclusive = hi2\<rparr> =
        Inr (moved diff \<delta>) \<and> valid_from ?X ?Y i j (moved diff \<delta> # rest) \<and>
        (\<delta> < 0 \<longrightarrow> lo1 \<le> start1 diff + \<delta>) \<and> (0 < \<delta> \<longrightarrow> start1 diff + \<delta> \<le> hi1)"
      using shiftDiffToBetterPosition_ok [OF v True strong(2), of "\<lparr>or_start = lo1, or_endExclusive = hi1\<rparr>"
          "\<lparr>or_start = lo2, or_endExclusive = hi2\<rparr>" sc1 sc2] lo hi by simp
    then obtain \<delta> where d: "shiftDiffToBetterPosition diff sc1 s2 sc2 \<lparr>or_start = lo1, or_endExclusive = hi1\<rparr> \<lparr>or_start = lo2, or_endExclusive = hi2\<rparr> =
        Inr (moved diff \<delta>)" "valid_from ?X ?Y i j (moved diff \<delta> # rest)"
        "\<delta> < 0 \<longrightarrow> lo1 \<le> start1 diff + \<delta>" "0 < \<delta> \<longrightarrow> start1 diff + \<delta> \<le> hi1" by blast
    have "\<delta> < 0 \<longrightarrow> prev \<noteq> None \<longrightarrow> i + 1 \<le> start1 diff + \<delta>" using d(3) lo(5) by auto
    moreover have "0 < \<delta> \<longrightarrow> rest \<noteq> [] \<longrightarrow> end1 diff + \<delta> \<le> start1 (hd rest) - 1"
      using d(4) hi(7) True by auto
    ultimately have "ok_from ?X ?Y i j (moved diff \<delta> # rest) \<and> prev_ok prev i j (moved diff \<delta>)"
      by (rule moved_ok_from [OF ok d(2) prev])
    with d(1) True show ?thesis by (intro exI [of _ \<delta>]) (simp add: unfold OffsetRange_isEmpty_def)
  next
    case ne: False
    show ?thesis
    proof (cases "start2 diff = end2 diff")
      case True
      have v': "valid_from ?Y ?X j i (SequenceDiff_swap diff # map SequenceDiff_swap rest)"
        using v by (simp only: valid_from_swap [of ?X ?Y i j "diff # rest"] list.map)
      have sw: "start1 (SequenceDiff_swap c) = start2 c" "end1 (SequenceDiff_swap c) = end2 c"
        "start2 (SequenceDiff_swap c) = start1 c" "end2 (SequenceDiff_swap c) = end1 c" for c
        by (simp_all add: SequenceDiff_swap_def SequenceDiff_new_def)
      have mv: "SequenceDiff_swap (moved (SequenceDiff_swap c) \<delta>) = moved c \<delta>" for c \<delta>
        by (simp add: moved_def SequenceDiff_swap_def SequenceDiff_new_def)
      have "\<exists>\<delta>. shiftDiffToBetterPosition (SequenceDiff_swap diff) sc2 s1 sc1 \<lparr>or_start = lo2, or_endExclusive = hi2\<rparr> \<lparr>or_start = lo1, or_endExclusive = hi1\<rparr> =
          Inr (moved (SequenceDiff_swap diff) \<delta>) \<and>
          valid_from ?Y ?X j i (moved (SequenceDiff_swap diff) \<delta> # map SequenceDiff_swap rest) \<and>
          (\<delta> < 0 \<longrightarrow> lo2 \<le> start2 diff + \<delta>) \<and> (0 < \<delta> \<longrightarrow> start2 diff + \<delta> \<le> hi2)"
        using shiftDiffToBetterPosition_ok [OF v' _ strong(1), of "\<lparr>or_start = lo2, or_endExclusive = hi2\<rparr>"
          "\<lparr>or_start = lo1, or_endExclusive = hi1\<rparr>" sc2 sc1] lo hi True by (simp add: sw)
      then obtain \<delta> where d: "shiftDiffToBetterPosition (SequenceDiff_swap diff) sc2 s1 sc1 \<lparr>or_start = lo2, or_endExclusive = hi2\<rparr> \<lparr>or_start = lo1, or_endExclusive = hi1\<rparr> =
          Inr (moved (SequenceDiff_swap diff) \<delta>)"
          "valid_from ?Y ?X j i (moved (SequenceDiff_swap diff) \<delta> # map SequenceDiff_swap rest)"
          "\<delta> < 0 \<longrightarrow> lo2 \<le> start2 diff + \<delta>" "0 < \<delta> \<longrightarrow> start2 diff + \<delta> \<le> hi2" by blast
      have "map SequenceDiff_swap (moved diff \<delta> # rest) = moved (SequenceDiff_swap diff) \<delta> # map SequenceDiff_swap rest"
        by (simp add: moved_def SequenceDiff_swap_def SequenceDiff_new_def)
      with d(2) have vm: "valid_from ?X ?Y i j (moved diff \<delta> # rest)"
        by (simp only: valid_from_swap [of ?X ?Y i j "moved diff \<delta> # rest"])
      have "\<delta> < 0 \<longrightarrow> prev \<noteq> None \<longrightarrow> i + 1 \<le> start1 diff + \<delta>" using d(3) lo(5) le(3) by auto
      moreover have "0 < \<delta> \<longrightarrow> rest \<noteq> [] \<longrightarrow> end1 diff + \<delta> \<le> start1 (hd rest) - 1"
        using d(4) hi(7,8) True by auto
      ultimately show ?thesis using moved_ok_from [OF ok vm prev] ne d(1) True
        by (auto simp: unfold OffsetRange_isEmpty_def mv)
    next
      case False
      with ne ok prev show ?thesis
        by (intro exI [of _ 0]) (simp add: unfold OffsetRange_isEmpty_def moved_0)
    qed
  qed
qed

lemma shift_diffs_loop_ok:
  assumes strong: "strong_ok s1" "strong_ok s2"
  shows "ok_from (seq_elements s1) (seq_elements s2) i j ds \<Longrightarrow> (ds \<noteq> [] \<longrightarrow> prev_ok prev i j (hd ds)) \<Longrightarrow>
    \<exists>r. shift_diffs_loop s1 s2 sc1 sc2 prev ds = Inr r \<and> ok_from (seq_elements s1) (seq_elements s2) i j r \<and>
      same_change ds r \<and> (ds \<noteq> [] \<longrightarrow> r \<noteq> [] \<and> prev_ok prev i j (hd r))"
proof (induction ds arbitrary: prev i j)
  case Nil
  then show ?case by (simp add: same_change_refl)
next
  case (Cons diff rest)
  let ?X = "seq_elements s1" and ?Y = "seq_elements s2"
  from shiftSequenceDiff_ok [OF Cons.prems(1) _ strong, of prev sc1 sc2] Cons.prems(2) obtain \<delta> where d:
    "shiftSequenceDiff s1 s2 sc1 sc2 prev diff (case rest of [] \<Rightarrow> None | n # _ \<Rightarrow> Some n) = Inr (moved diff \<delta>)"
    "ok_from ?X ?Y i j (moved diff \<delta> # rest)" "prev_ok prev i j (moved diff \<delta>)" by auto
  have nxt: "rest \<noteq> [] \<longrightarrow> prev_ok (Some (moved diff \<delta>)) (end1 (moved diff \<delta>)) (end2 (moved diff \<delta>)) (hd rest)"
    using d(2) unfolding ok_from_Cons by (auto simp: prev_ok_def)
  from Cons.IH [OF ok_from_tl [OF d(2)] nxt] obtain r where r:
    "shift_diffs_loop s1 s2 sc1 sc2 (Some (moved diff \<delta>)) rest = Inr r"
    "ok_from ?X ?Y (end1 (moved diff \<delta>)) (end2 (moved diff \<delta>)) r" "same_change rest r"
    "rest \<noteq> [] \<longrightarrow> r \<noteq> [] \<and> prev_ok (Some (moved diff \<delta>)) (end1 (moved diff \<delta>)) (end2 (moved diff \<delta>)) (hd r)" by blast
  have "r = []" if "rest = []" using r(1) that by simp
  then have "r \<noteq> [] \<longrightarrow> end1 (moved diff \<delta>) < start1 (hd r)" using r(4) by (auto simp: prev_ok_def)
  with d(2) r(2) have "ok_from ?X ?Y i j (moved diff \<delta> # r)" unfolding ok_from_Cons [of _ _ i j] by blast
  moreover have "same_change (diff # rest) (moved diff \<delta> # r)"
    using same_change_append [OF same_change_moved [of diff \<delta>] r(3)] by simp
  ultimately show ?case using d r(1) by simp
qed

lemma shiftSequenceDiffs_ok:
  assumes "ok_from (seq_elements s1) (seq_elements s2) 0 0 ds" "strong_ok s1" "strong_ok s2"
  shows "\<exists>r. shiftSequenceDiffs s1 s2 ds = Inr r \<and> ok_from (seq_elements s1) (seq_elements s2) 0 0 r \<and> same_change ds r"
proof -
  have "ds \<noteq> [] \<longrightarrow> prev_ok None 0 0 (hd ds)" by (simp add: prev_ok_def)
  with shift_diffs_loop_ok [OF assms(2,3,1)] assms(1) show ?thesis
    by (auto simp: shiftSequenceDiffs_def same_change_refl split: option.splits) blast
qed

text \<open>
  C23. \<open>optimizeSequenceDiffs\<close>, which moves and joins diffs to make them more readable, keeps a diff
  valid. Given a valid diff with at least one common element between two diffs it returns without an
  exception a valid diff of that kind again, with at most as many diffs, which removes and inserts exactly
  as many elements; diffs that change something stay so. So applying it still turns the first sequence
  into the second. Hypotheses: the two sequences answer \<open>isStronglyEqual\<close> only for equal elements;
  nothing is assumed of the boundary scores.
\<close>

theorem optimizeSequenceDiffs_correct:
  assumes "valid_diff (seq_elements s1) (seq_elements s2) ds" "separated ds" "strong_ok s1" "strong_ok s2"
  shows "\<exists>r. optimizeSequenceDiffs s1 s2 ds = Inr r \<and> valid_diff (seq_elements s1) (seq_elements s2) r \<and>
    separated r \<and> apply_from (seq_elements s1) (seq_elements s2) 0 r = seq_elements s2 \<and>
    total1 r = total1 ds \<and> total2 r = total2 ds \<and> length r \<le> length ds \<and>
    ((\<forall>d \<in> set ds. effective d) \<longrightarrow> proper_diff r)"
proof -
  let ?ok = "ok_from (seq_elements s1) (seq_elements s2) 0 0"
  have ok: "?ok ds" using assms(1,2) by (simp add: ok_from_def valid_diff_def)
  obtain r1 where r1: "joinSequenceDiffsByShifting s1 s2 ds = Inr r1" "?ok r1" "same_change ds r1"
    using joinSequenceDiffsByShifting_ok [OF ok assms(3,4)] by blast
  obtain r2 where r2: "joinSequenceDiffsByShifting s1 s2 r1 = Inr r2" "?ok r2" "same_change r1 r2"
    using joinSequenceDiffsByShifting_ok [OF r1(2) assms(3,4)] by blast
  obtain r where r: "shiftSequenceDiffs s1 s2 r2 = Inr r" "?ok r" "same_change r2 r"
    using shiftSequenceDiffs_ok [OF r2(2) assms(3,4)] by blast
  have "same_change ds r" using r1(3) r2(3) r(3) by (blast intro: same_change_trans)
  moreover have "optimizeSequenceDiffs s1 s2 ds = Inr r"
    by (simp add: optimizeSequenceDiffs_def r1(1) r2(1) r(1))
  moreover have v: "valid_diff (seq_elements s1) (seq_elements s2) r" "separated r"
    using r(2) by (simp_all add: ok_from_def valid_diff_def)
  ultimately show ?thesis
    using valid_diff_apply [OF v(1)] ok_from_proper [OF r(2)] by (auto simp: same_change_def)
qed

theorem optimizeSequenceDiffs_correct_witness:
  "\<exists>r. optimizeSequenceDiffs
      \<lparr>seq_elements = [1, 2, 3 :: int], seq_isStronglyEqual = (=), seq_getBoundaryScore = None\<rparr>
      \<lparr>seq_elements = [1, 2, 1, 2, 3], seq_isStronglyEqual = (=), seq_getBoundaryScore = None\<rparr>
      [\<lparr>sd_seq1Range = \<lparr>or_start = 1, or_endExclusive = 1\<rparr>, sd_seq2Range = \<lparr>or_start = 1, or_endExclusive = 3\<rparr>\<rparr>] = Inr r \<and>
    valid_diff [1, 2, 3 :: int] [1, 2, 1, 2, 3] r \<and> total2 r = 2"
proof -
  let ?s1 = "\<lparr>seq_elements = [1, 2, 3 :: int], seq_isStronglyEqual = (=), seq_getBoundaryScore = None\<rparr>"
  let ?s2 = "\<lparr>seq_elements = [1, 2, 1, 2, 3 :: int], seq_isStronglyEqual = (=), seq_getBoundaryScore = None\<rparr>"
  let ?ds = "[\<lparr>sd_seq1Range = \<lparr>or_start = 1, or_endExclusive = 1\<rparr>, sd_seq2Range = \<lparr>or_start = 1, or_endExclusive = 3\<rparr>\<rparr>]"
  have split: "k = 0 \<or> k = 1" if "0 \<le> k" "k < 2" for k :: int using that by linarith
  have "agree [1, 2, 3] [1, 2, 1, 2, 3 :: int] 0 0 1" "agree [1, 2, 3] [1, 2, 1, 2, 3 :: int] 1 3 2"
    unfolding agree_def by (auto dest!: split)
  then have "valid_diff (seq_elements ?s1) (seq_elements ?s2) ?ds" by (simp add: valid_diff_def)
  moreover have "separated ?ds" by (simp add: separated_def)
  moreover have "strong_ok ?s1" "strong_ok ?s2" by (simp_all add: strong_ok_def)
  ultimately show ?thesis
    using optimizeSequenceDiffs_correct [of ?s1 ?s2 ?ds] by (auto simp: total1_def total2_def)
qed

end
