(* ===== verification/Diff_Joining.thy ===== *)
theory Diff_Joining
  imports Diff_Shifting Js_Strings
begin

text \<open>
  \<open>removeShortMatches\<close> and \<open>removeVeryShortMatchingLinesBetweenDiffs\<close> of
  \<open>src/vs/editor/common/diff/defaultLinesDiffComputer/heuristicSequenceOptimizations.ts\<close>, which join
  diffs that have little in common between them, and \<open>lineSequence.ts\<close>, the sequence of the lines of
  a text.
\<close>

subsection \<open>\<open>LineSequence\<close>\<close>

text \<open>The white space of the language: \<open>\s\<close> in a regular expression, and what \<open>trim\<close> removes.\<close>

definition js_white_space :: "16 word \<Rightarrow> bool" where
  "js_white_space c \<longleftrightarrow> (9 \<le> c \<and> c \<le> 13) \<or> c = 0x20 \<or> c = 0xA0 \<or> c = 0x1680 \<or> (0x2000 \<le> c \<and> c \<le> 0x200A) \<or>
     c = 0x2028 \<or> c = 0x2029 \<or> c = 0x202F \<or> c = 0x205F \<or> c = 0x3000 \<or> c = 0xFEFF"

definition js_trim :: "js_string \<Rightarrow> js_string" where
  "js_trim s = rev (dropWhile js_white_space (rev (dropWhile js_white_space s)))"

record LineSequence =
  ls_trimmedHash :: "int list"
  ls_lines :: "js_string list"

definition line_at :: "js_string list \<Rightarrow> int \<Rightarrow> js_string option" where
  "line_at lines i = (if 0 \<le> i \<and> i < int (length lines) then Some (lines ! nat i) else None)"

text \<open>The count of leading blanks; a line that is not there would throw.\<close>

definition getIndentation :: "js_string \<Rightarrow> int" where
  "getIndentation str = int (scan_while (\<lambda>c. c = 0x20 \<or> c = 9) str 0)"

definition LineSequence_getBoundaryScore :: "LineSequence \<Rightarrow> int \<Rightarrow> int" where
  "LineSequence_getBoundaryScore this n =
     (let indentationBefore = (if n = 0 then 0 else getIndentation (ls_lines this ! nat (n - 1)));
          indentationAfter = (if n = int (length (ls_lines this)) then 0 else getIndentation (ls_lines this ! nat n))
      in 1000 - (indentationBefore + indentationAfter))"

definition LineSequence_getText :: "LineSequence \<Rightarrow> OffsetRange \<Rightarrow> js_string" where
  "LineSequence_getText this rng = js_join [LF] (js_slice (ls_lines this) (or_start rng) (or_endExclusive rng))"

definition LineSequence_isStronglyEqual :: "LineSequence \<Rightarrow> int \<Rightarrow> int \<Rightarrow> bool" where
  "LineSequence_isStronglyEqual this offset1 offset2 \<longleftrightarrow> line_at (ls_lines this) offset1 = line_at (ls_lines this) offset2"

text \<open>The class as an \<open>ISequence\<close>.\<close>

definition LineSequence_ISequence :: "LineSequence \<Rightarrow> int Sequence" where
  "LineSequence_ISequence this =
     \<lparr>seq_elements = ls_trimmedHash this, seq_isStronglyEqual = LineSequence_isStronglyEqual this,
      seq_getBoundaryScore = Some (LineSequence_getBoundaryScore this)\<rparr>"

subsection \<open>Joining\<close>

definition removeShortMatches_step :: "SequenceDiff list \<Rightarrow> SequenceDiff \<Rightarrow> js_error + SequenceDiff list" where
  "removeShortMatches_step result s =
     (if result = [] then Inr [s]
      else
        let l = last result
        in if start1 s - end1 l \<le> 2 \<or> start2 s - end2 l \<le> 2 then
             bindE (SequenceDiff_both (OffsetRange_join (sd_seq1Range l) (sd_seq1Range s))
                      (OffsetRange_join (sd_seq2Range l) (sd_seq2Range s)))
               (\<lambda>d. Inr (butlast result @ [d]))
           else Inr (result @ [s]))"

definition removeShortMatches :: "SequenceDiff list \<Rightarrow> js_error + SequenceDiff list" where
  "removeShortMatches sequenceDiffs = foldE removeShortMatches_step [] sequenceDiffs"

definition shouldJoinDiffs :: "LineSequence \<Rightarrow> SequenceDiff \<Rightarrow> SequenceDiff \<Rightarrow> js_error + bool" where
  "shouldJoinDiffs sequence1 before after =
     bindE (OffsetRange_new (end1 before) (start1 after)) (\<lambda>unchangedRange.
       let unchangedText = LineSequence_getText sequence1 unchangedRange;
           unchangedTextWithoutWs = filter (\<lambda>c. \<not> js_white_space c) unchangedText
       in Inr (length unchangedTextWithoutWs \<le> 4 \<and>
            (OffsetRange_length (sd_seq1Range before) + OffsetRange_length (sd_seq2Range before) > 5 \<or>
             OffsetRange_length (sd_seq1Range after) + OffsetRange_length (sd_seq2Range after) > 5)))"

text \<open>A round of the loop over the diffs: the flag \<open>shouldRepeat\<close> and the result.\<close>

definition joinLines_step ::
    "LineSequence \<Rightarrow> bool \<times> SequenceDiff list \<Rightarrow> SequenceDiff \<Rightarrow> js_error + bool \<times> SequenceDiff list" where
  "joinLines_step sequence1 r cur =
     (let lastResult = last (snd r)
      in bindE (shouldJoinDiffs sequence1 lastResult cur) (\<lambda>shouldJoin.
           if shouldJoin then
             bindE (SequenceDiff_join lastResult cur) (\<lambda>d. Inr (True, butlast (snd r) @ [d]))
           else Inr (fst r, snd r @ [cur])))"

text \<open>The \<open>do ... while\<close> loop, with at most eleven rounds.\<close>

function joinLines_loop :: "LineSequence \<Rightarrow> nat \<Rightarrow> SequenceDiff list \<Rightarrow> js_error + SequenceDiff list" where
  "joinLines_loop sequence1 counter diffs =
     bindE (foldE (joinLines_step sequence1) (False, [hd diffs]) (tl diffs)) (\<lambda>r.
       if counter < 10 \<and> fst r then joinLines_loop sequence1 (counter + 1) (snd r) else Inr (snd r))"
  by pat_completeness auto
termination by (relation "measure (\<lambda>(_, counter, _). 10 - counter)") auto

declare joinLines_loop.simps [simp del]

definition removeVeryShortMatchingLinesBetweenDiffs :: "LineSequence \<Rightarrow> SequenceDiff list \<Rightarrow> js_error + SequenceDiff list" where
  "removeVeryShortMatchingLinesBetweenDiffs sequence1 sequenceDiffs =
     (if length sequenceDiffs = 0 then Inr sequenceDiffs else joinLines_loop sequence1 0 sequenceDiffs)"

subsection \<open>What joining keeps\<close>

lemma SequenceDiff_join_Inr:
  assumes "start1 p \<le> end1 p" "start2 p \<le> end2 p" "end1 p \<le> start1 c" "end2 p \<le> start2 c"
    "start1 c \<le> end1 c" "start2 c \<le> end2 c"
  shows "SequenceDiff_join p c = Inr
    \<lparr>sd_seq1Range = \<lparr>or_start = start1 p, or_endExclusive = end1 c\<rparr>,
     sd_seq2Range = \<lparr>or_start = start2 p, or_endExclusive = end2 c\<rparr>\<rparr>"
  using assms by (simp add: SequenceDiff_join_def SequenceDiff_both_def SequenceDiff_new_def OffsetRange_join_def
      OffsetRange_new_def)

abbreviation joined :: "SequenceDiff \<Rightarrow> SequenceDiff \<Rightarrow> SequenceDiff" where
  "joined p c \<equiv> \<lparr>sd_seq1Range = \<lparr>or_start = start1 p, or_endExclusive = end1 c\<rparr>,
     sd_seq2Range = \<lparr>or_start = start2 p, or_endExclusive = end2 c\<rparr>\<rparr>"

lemma ok_from_end:
  "ok_from xs ys i j (pre @ p # c # rest) \<Longrightarrow>
   start1 p \<le> end1 p \<and> start2 p \<le> end2 p \<and> end1 p < start1 c \<and> end2 p < start2 c \<and>
   start1 c \<le> end1 c \<and> start2 c \<le> end2 c \<and> start1 c - end1 p = start2 c - end2 p"
proof (induction pre arbitrary: i j)
  case Nil
  then show ?case by (auto simp: ok_from_Cons)
next
  case (Cons q pre)
  then have "ok_from xs ys (end1 q) (end2 q) (pre @ p # c # rest)" by (simp add: ok_from_Cons)
  then show ?case by (rule Cons.IH)
qed

lemma ok_from_joined:
  assumes "ok_from xs ys i j (pre @ p # c # rest)"
  shows "ok_from xs ys i j (pre @ joined p c # rest)"
proof (rule ok_from_tail [OF assms])
  show "ok_from xs ys i j (joined p c # rest)" if ok: "ok_from xs ys i j (p # c # rest)" for i j
  proof -
    have "start1 p \<le> end1 c" "start2 p \<le> end2 c" using ok_from_end [of xs ys i j "[]" p c rest] ok by auto
    moreover have "ok_from xs ys (end1 c) (end2 c) rest" "rest \<noteq> [] \<longrightarrow> end1 c < start1 (hd rest)"
      using ok_from_tl [OF ok] unfolding ok_from_Cons [of _ _ _ _ c] by blast+
    ultimately show ?thesis using ok unfolding ok_from_Cons [of _ _ i j] by auto
  qed
qed simp_all

text \<open>
  What a joining step may do to the diffs before and at the current one: append it, or join it to the
  last one.
\<close>

definition joins :: "SequenceDiff list \<Rightarrow> SequenceDiff \<Rightarrow> SequenceDiff list \<Rightarrow> bool" where
  "joins result cur result' \<longleftrightarrow>
     result' = result @ [cur] \<or> (result \<noteq> [] \<and> result' = butlast result @ [joined (last result) cur])"

lemma joins_ok:
  assumes "joins result cur result'" "ok_from xs ys i j (result @ cur # rest)"
  shows "result' \<noteq> [] \<and> ok_from xs ys i j (result' @ rest) \<and> length result' \<le> length result + 1"
proof (cases "result' = result @ [cur]")
  case True
  with assms(2) show ?thesis by simp
next
  case False
  with assms(1) have r: "result \<noteq> []" "result' = butlast result @ [joined (last result) cur]" by (auto simp: joins_def)
  then have "ok_from xs ys i j (butlast result @ last result # cur # rest)"
    using assms(2) append_butlast_last_id [OF r(1)] by (metis append.assoc append_Cons append_Nil)
  from ok_from_joined [OF this] r show ?thesis by simp
qed

lemma removeShortMatches_step_joins:
  assumes "ok_from xs ys i j (result @ s # rest)"
  shows "\<exists>result'. removeShortMatches_step result s = Inr result' \<and> joins result s result' \<and>
    (result' = result @ [s] \<longrightarrow> result \<noteq> [] \<longrightarrow> 2 < start1 s - end1 (last result))"
proof (cases "result = []")
  case True
  then show ?thesis by (simp add: removeShortMatches_step_def joins_def)
next
  case False
  then have "ok_from xs ys i j (butlast result @ last result # s # rest)"
    using assms append_butlast_last_id [OF False] by (metis append.assoc append_Cons append_Nil)
  note le = ok_from_end [OF this]
  let ?l = "last result"
  have join: "SequenceDiff_both (OffsetRange_join (sd_seq1Range ?l) (sd_seq1Range s))
      (OffsetRange_join (sd_seq2Range ?l) (sd_seq2Range s)) = Inr (joined ?l s)"
    using SequenceDiff_join_Inr [of ?l s] le unfolding SequenceDiff_join_def by auto
  show ?thesis
  proof (cases "start1 s - end1 ?l \<le> 2 \<or> start2 s - end2 ?l \<le> 2")
    case True
    then have "removeShortMatches_step result s = Inr (butlast result @ [joined ?l s])"
      using False join by (simp add: removeShortMatches_step_def Let_def)
    moreover have "butlast result @ [joined ?l s] \<noteq> result @ [s]"
    proof
      assume "butlast result @ [joined ?l s] = result @ [s]"
      then have "length (butlast result @ [joined ?l s]) = length (result @ [s])" by (rule arg_cong)
      with False show False by (cases result rule: rev_cases) simp_all
    qed
    ultimately show ?thesis using False unfolding joins_def by blast
  next
    case gt: False
    with False show ?thesis by (simp add: removeShortMatches_step_def Let_def joins_def)
  qed
qed

definition wide :: "SequenceDiff list \<Rightarrow> bool" where
  "wide ds \<longleftrightarrow> successively (\<lambda>d e. 2 < start1 e - end1 d) ds"

lemma joins_wide:
  assumes "joins result cur result'" "wide result"
    and "result' = result @ [cur] \<longrightarrow> result \<noteq> [] \<longrightarrow> 2 < start1 cur - end1 (last result)"
  shows "wide result'"
proof (cases "result' = result @ [cur]")
  case True
  with assms(2,3) show ?thesis by (auto simp: wide_def successively_append_iff)
next
  case False
  with assms(1) have r: "result \<noteq> []" "result' = butlast result @ [joined (last result) cur]" by (auto simp: joins_def)
  obtain pre l where "result = pre @ [l]" using r(1) by (metis rev_exhaust)
  with assms(2) r show ?thesis by (auto simp: wide_def successively_append_iff)
qed

lemma removeShortMatches_fold:
  "ok_from xs ys i j (result @ ds) \<Longrightarrow> wide result \<Longrightarrow>
   \<exists>r. foldE removeShortMatches_step result ds = Inr r \<and> ok_from xs ys i j r \<and> wide r \<and>
     length r \<le> length result + length ds"
proof (induction ds arbitrary: result)
  case (Cons s ds)
  from removeShortMatches_step_joins [OF Cons.prems(1)] obtain r where r:
    "removeShortMatches_step result s = Inr r" "joins result s r"
    "r = result @ [s] \<longrightarrow> result \<noteq> [] \<longrightarrow> 2 < start1 s - end1 (last result)" by blast
  have ok: "ok_from xs ys i j (r @ ds)" "length r \<le> length result + 1" using joins_ok [OF r(2) Cons.prems(1)] by auto
  from Cons.IH [OF ok(1) joins_wide [OF r(2) Cons.prems(2) r(3)]] obtain r' where
    "foldE removeShortMatches_step r ds = Inr r'" "ok_from xs ys i j r'" "wide r'" "length r' \<le> length r + length ds" by blast
  with r(1) ok(2) show ?case by auto
qed simp

lemma shouldJoinDiffs_Inr: "end1 p \<le> start1 c \<Longrightarrow> \<exists>b. shouldJoinDiffs s1 p c = Inr b"
  by (simp add: shouldJoinDiffs_def OffsetRange_new_def Let_def)

lemma joinLines_step_joins:
  assumes "ok_from xs ys i j (snd r @ c # rest)" "snd r \<noteq> []"
  shows "\<exists>r'. joinLines_step s1 r c = Inr r' \<and> joins (snd r) c (snd r')"
proof -
  have "ok_from xs ys i j (butlast (snd r) @ last (snd r) # c # rest)"
    using assms(1) append_butlast_last_id [OF assms(2)] by (metis append.assoc append_Cons append_Nil)
  note le = ok_from_end [OF this]
  then obtain b where b: "shouldJoinDiffs s1 (last (snd r)) c = Inr b" using shouldJoinDiffs_Inr by (meson less_imp_le)
  have "SequenceDiff_join (last (snd r)) c = Inr (joined (last (snd r)) c)"
    using le by (intro SequenceDiff_join_Inr) auto
  with b assms(2) show ?thesis by (cases b) (simp_all add: joinLines_step_def joins_def Let_def)
qed

lemma joinLines_fold:
  "ok_from xs ys i j (snd r @ ds) \<Longrightarrow> snd r \<noteq> [] \<Longrightarrow>
   \<exists>r'. foldE (joinLines_step s1) r ds = Inr r' \<and> snd r' \<noteq> [] \<and> ok_from xs ys i j (snd r') \<and>
     length (snd r') \<le> length (snd r) + length ds"
proof (induction ds arbitrary: r)
  case (Cons c ds)
  from joinLines_step_joins [OF Cons.prems] obtain r1 where r1: "joinLines_step s1 r c = Inr r1" "joins (snd r) c (snd r1)" by blast
  have ok: "snd r1 \<noteq> []" "ok_from xs ys i j (snd r1 @ ds)" "length (snd r1) \<le> length (snd r) + 1"
    using joins_ok [OF r1(2) Cons.prems(1)] by auto
  from Cons.IH [OF ok(2,1)] obtain r' where "foldE (joinLines_step s1) r1 ds = Inr r'" "snd r' \<noteq> []"
    "ok_from xs ys i j (snd r')" "length (snd r') \<le> length (snd r1) + length ds" by blast
  with r1(1) ok(3) show ?case by auto
qed simp

lemma joinLines_loop_ok:
  "ok_from xs ys i j ds \<Longrightarrow> ds \<noteq> [] \<Longrightarrow>
   \<exists>r. joinLines_loop s1 counter ds = Inr r \<and> ok_from xs ys i j r \<and> length r \<le> length ds"
proof (induction s1 counter ds rule: joinLines_loop.induct)
  case (1 s1 counter ds)
  from joinLines_fold [of xs ys i j "(False, [hd ds])" "tl ds" s1] "1.prems" obtain r where r:
    "foldE (joinLines_step s1) (False, [hd ds]) (tl ds) = Inr r" "snd r \<noteq> []" "ok_from xs ys i j (snd r)"
    "length (snd r) \<le> length ds" by (cases ds) auto
  show ?case
  proof (cases "counter < 10 \<and> fst r")
    case True
    from "1.IH" [OF r(1) True r(3,2)] obtain r' where
      "joinLines_loop s1 (counter + 1) (snd r) = Inr r'" "ok_from xs ys i j r'" "length r' \<le> length (snd r)" by blast
    with True r show ?thesis by (subst joinLines_loop.simps) auto
  next
    case False
    with r show ?thesis by (subst joinLines_loop.simps) auto
  qed
qed

lemma removeVeryShortMatchingLinesBetweenDiffs_ok:
  assumes "ok_from xs ys i j ds"
  shows "\<exists>r. removeVeryShortMatchingLinesBetweenDiffs s1 ds = Inr r \<and> ok_from xs ys i j r \<and> length r \<le> length ds"
  using assms joinLines_loop_ok [OF assms, of s1 0]
  by (cases "ds = []") (simp_all add: removeVeryShortMatchingLinesBetweenDiffs_def)

text \<open>
  C24. \<open>removeShortMatches\<close> and \<open>removeVeryShortMatchingLinesBetweenDiffs\<close> keep a diff valid.
  Given a valid diff with at least one common element between two diffs, both return without an exception
  a valid diff of that kind with at most as many diffs (the second after at most eleven rounds of its
  loop), and after the first one more than two common elements are left between any two diffs.
\<close>

theorem removeMatches_correct:
  assumes "valid_diff xs ys ds" "separated ds"
  shows "\<exists>r r'. removeShortMatches ds = Inr r \<and> valid_diff xs ys r \<and> wide r \<and> length r \<le> length ds \<and>
    removeVeryShortMatchingLinesBetweenDiffs s1 ds = Inr r' \<and> valid_diff xs ys r' \<and> separated r' \<and>
    length r' \<le> length ds"
proof -
  have ok: "ok_from xs ys 0 0 ([] @ ds)" using assms by (simp add: ok_from_def valid_diff_def)
  from removeShortMatches_fold [OF ok] removeVeryShortMatchingLinesBetweenDiffs_ok [OF ok, of s1] show ?thesis
    by (auto simp: removeShortMatches_def valid_diff_def ok_from_def wide_def)
qed

theorem removeMatches_correct_witness:
  "\<exists>r. removeShortMatches
      [\<lparr>sd_seq1Range = \<lparr>or_start = 0, or_endExclusive = 1\<rparr>, sd_seq2Range = \<lparr>or_start = 0, or_endExclusive = 1\<rparr>\<rparr>,
       \<lparr>sd_seq1Range = \<lparr>or_start = 2, or_endExclusive = 3\<rparr>, sd_seq2Range = \<lparr>or_start = 2, or_endExclusive = 2\<rparr>\<rparr>] = Inr r \<and>
    valid_diff [1, 2, 3 :: int] [4, 2] r \<and> wide r"
proof -
  let ?ds = "[\<lparr>sd_seq1Range = \<lparr>or_start = 0, or_endExclusive = 1\<rparr>, sd_seq2Range = \<lparr>or_start = 0, or_endExclusive = 1\<rparr>\<rparr>,
       \<lparr>sd_seq1Range = \<lparr>or_start = 2, or_endExclusive = 3\<rparr>, sd_seq2Range = \<lparr>or_start = 2, or_endExclusive = 2\<rparr>\<rparr>]"
  have "agree [1, 2, 3] [4, 2 :: int] 1 1 1" by (simp add: agree_1)
  then have "valid_diff [1, 2, 3] [4, 2 :: int] ?ds" by (simp add: valid_diff_def agree_0)
  moreover have "separated ?ds" by (simp add: separated_def)
  ultimately show ?thesis using removeMatches_correct [of "[1, 2, 3]" "[4, 2 :: int]" ?ds] by blast
qed

end
