(* ===== verification/Line_Alignment.thy ===== *)
theory Line_Alignment
  imports Complex_Main Dp_Diff Diff_Joining
begin

text \<open>
  The first stage of \<open>DefaultLinesDiffComputer.computeDiff\<close> in
  \<open>src/vs/editor/common/diff/defaultLinesDiffComputer/defaultLinesDiffComputer.ts\<close>, for files of
  together fewer than 1700 lines: the lines get numbers such that lines that are equal up to white space at
  their ends have the same one, the sequences of numbers are diffed, and the diffs are moved and joined.

  The locale \<open>diff_algorithm\<close> is what this stage relies on of the interface
  \<open>IDiffAlgorithm\<close>; \<open>DynamicProgrammingDiffing\<close> interprets it.
\<close>

locale diff_algorithm =
  fixes compute :: "int list \<Rightarrow> int list \<Rightarrow> (nat \<Rightarrow> bool) \<Rightarrow> js_error + DiffAlgorithmResult"
  assumes compute_valid: "\<exists>r. compute xs ys valid = Inr r \<and> valid_diff xs ys (dr_diffs r) \<and>
    separated (dr_diffs r) \<and> (dr_hitTimeout r \<longrightarrow> (\<exists>k. \<not> valid k))"
begin

lemma optimized_valid:
  assumes "strong_ok s1" "strong_ok s2"
  shows "\<exists>r ds. compute (seq_elements s1) (seq_elements s2) valid = Inr r \<and>
    bindE (optimizeSequenceDiffs s1 s2 (dr_diffs r)) (removeVeryShortMatchingLinesBetweenDiffs l1) = Inr ds \<and>
    valid_diff (seq_elements s1) (seq_elements s2) ds \<and> separated ds \<and>
    (dr_hitTimeout r \<longrightarrow> (\<exists>k. \<not> valid k))"
proof -
  obtain r where r: "compute (seq_elements s1) (seq_elements s2) valid = Inr r"
    "valid_diff (seq_elements s1) (seq_elements s2) (dr_diffs r)" "separated (dr_diffs r)"
    "dr_hitTimeout r \<longrightarrow> (\<exists>k. \<not> valid k)"
    using compute_valid by blast
  have "ok_from (seq_elements s1) (seq_elements s2) 0 0 (dr_diffs r)" using r(2,3) by (simp add: ok_from_def valid_diff_def)
  from joinSequenceDiffsByShifting_ok [OF this assms] obtain a where
    a: "joinSequenceDiffsByShifting s1 s2 (dr_diffs r) = Inr a" "ok_from (seq_elements s1) (seq_elements s2) 0 0 a" by blast
  from joinSequenceDiffsByShifting_ok [OF a(2) assms] obtain b where
    b: "joinSequenceDiffsByShifting s1 s2 a = Inr b" "ok_from (seq_elements s1) (seq_elements s2) 0 0 b" by blast
  from shiftSequenceDiffs_ok [OF b(2) assms] obtain d where
    d: "shiftSequenceDiffs s1 s2 b = Inr d" "ok_from (seq_elements s1) (seq_elements s2) 0 0 d" by blast
  from removeVeryShortMatchingLinesBetweenDiffs_ok [OF d(2), of l1] obtain ds where
    ds: "removeVeryShortMatchingLinesBetweenDiffs l1 d = Inr ds" "ok_from (seq_elements s1) (seq_elements s2) 0 0 ds" by blast
  have "bindE (optimizeSequenceDiffs s1 s2 (dr_diffs r)) (removeVeryShortMatchingLinesBetweenDiffs l1) = Inr ds"
    by (simp add: optimizeSequenceDiffs_def a(1) b(1) d(1) ds(1))
  with r ds(2) show ?thesis by (auto simp: ok_from_def valid_diff_def)
qed

end

subsection \<open>The code\<close>

text \<open>The map \<open>perfectHashes\<close> in insertion order.\<close>

definition getOrCreateHash :: "(js_string \<times> int) list \<Rightarrow> js_string \<Rightarrow> int \<times> (js_string \<times> int) list" where
  "getOrCreateHash perfectHashes str =
     (case map_of perfectHashes str of
        Some hash \<Rightarrow> (hash, perfectHashes)
      | None \<Rightarrow> let hash = int (length perfectHashes) in (hash, perfectHashes @ [(str, hash)]))"

fun lines_hashes :: "(js_string \<times> int) list \<Rightarrow> js_string list \<Rightarrow> int list \<times> (js_string \<times> int) list" where
  "lines_hashes perfectHashes [] = ([], perfectHashes)"
| "lines_hashes perfectHashes (l # ls) =
     (let (hash, perfectHashes) = getOrCreateHash perfectHashes (js_trim l);
          (hashes, perfectHashes) = lines_hashes perfectHashes ls
      in (hash # hashes, perfectHashes))"

definition line_equalityScore :: "js_string list \<Rightarrow> js_string list \<Rightarrow> nat \<Rightarrow> nat \<Rightarrow> real" where
  "line_equalityScore originalLines modifiedLines offset1 offset2 =
     (if originalLines ! offset1 = modifiedLines ! offset2 then
        if length (modifiedLines ! offset2) = 0 then 1 / 10
        else 1 + ln (1 + real (length (modifiedLines ! offset2)))
      else 99 / 100)"

definition lineAlignments ::
    "real \<Rightarrow> int \<Rightarrow> js_string list \<Rightarrow> js_string list \<Rightarrow> (nat \<Rightarrow> bool) \<Rightarrow> js_error + SequenceDiff list \<times> bool" where
  "lineAlignments hole hole' originalLines modifiedLines valid =
     (let (originalLinesHashes, perfectHashes) = lines_hashes [] originalLines;
          (modifiedLinesHashes, perfectHashes) = lines_hashes perfectHashes modifiedLines;
          line1 = \<lparr>ls_trimmedHash = originalLinesHashes, ls_lines = originalLines\<rparr>;
          line2 = \<lparr>ls_trimmedHash = modifiedLinesHashes, ls_lines = modifiedLines\<rparr>;
          sequence1 = LineSequence_ISequence line1;
          sequence2 = LineSequence_ISequence line2
      in bindE (DynamicProgrammingDiffing_compute hole hole' (seq_elements sequence1) (seq_elements sequence2) valid
                  (Some (line_equalityScore originalLines modifiedLines))) (\<lambda>lineAlignmentResult.
         bindE (optimizeSequenceDiffs sequence1 sequence2 (dr_diffs lineAlignmentResult)) (\<lambda>alignments.
         bindE (removeVeryShortMatchingLinesBetweenDiffs line1 alignments) (\<lambda>alignments.
           Inr (alignments, dr_hitTimeout lineAlignmentResult)))))"

subsection \<open>The interface\<close>

lemma proper_separated: "proper_diff ds \<Longrightarrow> separated ds"
  unfolding proper_diff_def separated_def by (auto elim: successively_mono)

lemma single_separated: "length ds = 1 \<Longrightarrow> separated ds"
  by (auto simp: separated_def length_Suc_conv)

interpretation dp: diff_algorithm "\<lambda>xs ys valid. DynamicProgrammingDiffing_compute hole hole' xs ys valid
    (equalityScore :: (nat \<Rightarrow> nat \<Rightarrow> real) option)" for hole hole' equalityScore
proof
  fix xs ys :: "int list" and valid
  have "(- 1 :: real) < 0" by simp
  from DynamicProgrammingDiffing_compute_valid [OF this, of hole hole' xs ys valid equalityScore]
  show "\<exists>r. DynamicProgrammingDiffing_compute hole hole' xs ys valid equalityScore = Inr r \<and>
      valid_diff xs ys (dr_diffs r) \<and> separated (dr_diffs r) \<and> (dr_hitTimeout r \<longrightarrow> (\<exists>k. \<not> valid k))"
    using proper_separated single_separated by blast
qed

subsection \<open>The numbers of the lines\<close>

definition hashes_ok :: "(js_string \<times> int) list \<Rightarrow> bool" where
  "hashes_ok m \<longleftrightarrow> distinct (map fst m) \<and> map snd m = map int [0..<length m]"

lemma hashes_ok_inj:
  assumes "hashes_ok m" "map_of m a = Some h" "map_of m b = Some h"
  shows "a = b"
proof -
  from assms(2,3) obtain i j where ij: "i < length m" "m ! i = (a, h)" "j < length m" "m ! j = (b, h)"
    by (meson in_set_conv_nth map_of_SomeD)
  have "map snd m ! i = int i" "map snd m ! j = int j" using assms(1) ij by (simp_all only: hashes_ok_def) simp_all
  with ij have "i = j" by simp
  with ij show ?thesis by simp
qed

lemma getOrCreateHash_ok:
  assumes "hashes_ok m" "getOrCreateHash m str = (h, m')"
  shows "hashes_ok m' \<and> map_of m' str = Some h \<and> (\<forall>k v. map_of m k = Some v \<longrightarrow> map_of m' k = Some v)"
proof (cases "map_of m str")
  case None
  then have "str \<notin> fst ` set m" by (simp add: map_of_eq_None_iff)
  with assms None show ?thesis
    by (auto simp: getOrCreateHash_def hashes_ok_def Let_def map_add_def split: option.splits)
next
  case (Some v)
  with assms show ?thesis by (auto simp: getOrCreateHash_def)
qed

lemma lines_hashes_ok:
  "hashes_ok m \<Longrightarrow> lines_hashes m ls = (hs, m') \<Longrightarrow>
   hashes_ok m' \<and> (\<forall>k v. map_of m k = Some v \<longrightarrow> map_of m' k = Some v) \<and>
   list_all2 (\<lambda>l h. map_of m' (js_trim l) = Some h) ls hs"
proof (induction ls arbitrary: m hs m')
  case Nil
  then show ?case by simp
next
  case (Cons l ls)
  obtain h m1 where h: "getOrCreateHash m (js_trim l) = (h, m1)" by fastforce
  obtain hs2 m2 where hs2: "lines_hashes m1 ls = (hs2, m2)" by fastforce
  with Cons.prems(2) h have eq: "hs = h # hs2" "m' = m2" by simp_all
  from getOrCreateHash_ok [OF Cons.prems(1) h] have m1: "hashes_ok m1" "map_of m1 (js_trim l) = Some h"
    "\<forall>k v. map_of m k = Some v \<longrightarrow> map_of m1 k = Some v" by auto
  from Cons.IH [OF m1(1) hs2] m1 eq show ?case by auto
qed

text \<open>Only which elements are equal matters for a diff.\<close>

lemma valid_from_cong:
  assumes "length xs = length xs'" "length ys = length ys'"
    and "\<And>a b. a < length xs \<Longrightarrow> b < length ys \<Longrightarrow> xs ! a = ys ! b \<longleftrightarrow> xs' ! a = ys' ! b"
  shows "valid_from xs ys i j ds \<longleftrightarrow> valid_from xs' ys' i j ds"
proof -
  have ag: "agree xs ys i j n \<longleftrightarrow> agree xs' ys' i j n" for i j n
  proof (cases "0 \<le> i \<and> 0 \<le> j \<and> 0 \<le> n \<and> i + n \<le> int (length xs) \<and> j + n \<le> int (length ys)")
    case True
    have "xs ! nat (i + k) = ys ! nat (j + k) \<longleftrightarrow> xs' ! nat (i + k) = ys' ! nat (j + k)" if "0 \<le> k" "k < n" for k
      using assms(3) [of "nat (i + k)" "nat (j + k)"] True that by auto
    with True show ?thesis using assms(1,2) by (auto simp: agree_def)
  next
    case False
    with assms(1,2) show ?thesis by (auto simp: agree_def)
  qed
  show ?thesis by (induction ds arbitrary: i j) (simp_all add: ag assms(1,2))
qed

lemma strong_ok_lines:
  assumes "list_all2 (\<lambda>l h. map_of m (js_trim l) = Some h) ls hs"
  shows "strong_ok (LineSequence_ISequence \<lparr>ls_trimmedHash = hs, ls_lines = ls\<rparr>)"
  unfolding strong_ok_def
proof (intro allI impI)
  fix a b
  assume "0 \<le> a \<and> a < seq_length (LineSequence_ISequence \<lparr>ls_trimmedHash = hs, ls_lines = ls\<rparr>) \<and>
    0 \<le> b \<and> b < seq_length (LineSequence_ISequence \<lparr>ls_trimmedHash = hs, ls_lines = ls\<rparr>) \<and>
    seq_isStronglyEqual (LineSequence_ISequence \<lparr>ls_trimmedHash = hs, ls_lines = ls\<rparr>) a b"
  then have "nat a < length ls" "nat b < length ls" "ls ! nat a = ls ! nat b"
    using list_all2_lengthD [OF assms]
    by (auto simp: LineSequence_ISequence_def seq_length_def LineSequence_isStronglyEqual_def line_at_def)
  with list_all2_nthD [OF assms, of "nat a"] list_all2_nthD [OF assms, of "nat b"]
  show "getElement (LineSequence_ISequence \<lparr>ls_trimmedHash = hs, ls_lines = ls\<rparr>) a =
      getElement (LineSequence_ISequence \<lparr>ls_trimmedHash = hs, ls_lines = ls\<rparr>) b"
    by (simp add: getElement_def LineSequence_ISequence_def)
qed

text \<open>
  C21. The alignment of the lines of two texts is right. For any two arrays of lines and any timeout
  \<open>computeDiff\<close>, in the branch for short files, finds without an exception a list of line ranges
  such that all lines outside of them are equal in the two texts up to white space at their ends, in
  order and with at least one such line between two ranges; replacing the ranges turns the trimmed
  original lines into the trimmed modified lines. A timeout is reported only if it was hit.
\<close>

theorem lineAlignments_correct:
  "\<exists>ds hitTimeout. lineAlignments hole hole' originalLines modifiedLines valid = Inr (ds, hitTimeout) \<and>
     valid_diff (map js_trim originalLines) (map js_trim modifiedLines) ds \<and> separated ds \<and>
     apply_from (map js_trim originalLines) (map js_trim modifiedLines) 0 ds = map js_trim modifiedLines \<and>
     (hitTimeout \<longrightarrow> (\<exists>k. \<not> valid k))"
proof -
  obtain hs1 m1 where h1: "lines_hashes [] originalLines = (hs1, m1)" by fastforce
  obtain hs2 m2 where h2: "lines_hashes m1 modifiedLines = (hs2, m2)" by fastforce
  have "hashes_ok []" by (simp add: hashes_ok_def)
  from lines_hashes_ok [OF this h1] have m1: "hashes_ok m1"
    "list_all2 (\<lambda>l h. map_of m1 (js_trim l) = Some h) originalLines hs1" by auto
  from lines_hashes_ok [OF m1(1) h2] have m2: "hashes_ok m2" "\<forall>k v. map_of m1 k = Some v \<longrightarrow> map_of m2 k = Some v"
    "list_all2 (\<lambda>l h. map_of m2 (js_trim l) = Some h) modifiedLines hs2" by auto
  have l1: "list_all2 (\<lambda>l h. map_of m2 (js_trim l) = Some h) originalLines hs1"
    using m1(2) m2(2) by (auto elim: list_all2_mono)
  let ?l1 = "\<lparr>ls_trimmedHash = hs1, ls_lines = originalLines\<rparr>"
    and ?l2 = "\<lparr>ls_trimmedHash = hs2, ls_lines = modifiedLines\<rparr>"
  let ?s1 = "LineSequence_ISequence ?l1" and ?s2 = "LineSequence_ISequence ?l2"
  from dp.optimized_valid [where hole = hole and hole' = hole' and valid = valid
      and equalityScore = "Some (line_equalityScore originalLines modifiedLines)",
      OF strong_ok_lines [OF l1] strong_ok_lines [OF m2(3)]]
  obtain r ds where r: "DynamicProgrammingDiffing_compute hole hole' (seq_elements ?s1) (seq_elements ?s2) valid
      (Some (line_equalityScore originalLines modifiedLines)) = Inr r"
    "bindE (optimizeSequenceDiffs ?s1 ?s2 (dr_diffs r)) (removeVeryShortMatchingLinesBetweenDiffs ?l1) = Inr ds"
    "valid_diff (seq_elements ?s1) (seq_elements ?s2) ds" "separated ds" "dr_hitTimeout r \<longrightarrow> (\<exists>k. \<not> valid k)" by blast
  have run: "lineAlignments hole hole' originalLines modifiedLines valid = Inr (ds, dr_hitTimeout r)"
    using r(1,2) by (auto simp: lineAlignments_def h1 h2 Let_def)
  have "hs1 ! a = hs2 ! b \<longleftrightarrow> map js_trim originalLines ! a = map js_trim modifiedLines ! b"
    if "a < length hs1" "b < length hs2" for a b
  proof -
    have ab: "a < length originalLines" "b < length modifiedLines"
      using that list_all2_lengthD [OF l1] list_all2_lengthD [OF m2(3)] by simp_all
    have "map_of m2 (js_trim (originalLines ! a)) = Some (hs1 ! a)" "map_of m2 (js_trim (modifiedLines ! b)) = Some (hs2 ! b)"
      using list_all2_nthD [OF l1 ab(1)] list_all2_nthD [OF m2(3) ab(2)] by simp_all
    with hashes_ok_inj [OF m2(1)] ab show ?thesis by auto
  qed
  then have "valid_from hs1 hs2 0 0 ds \<longleftrightarrow>
      valid_from (map js_trim originalLines) (map js_trim modifiedLines) 0 0 ds"
    using list_all2_lengthD [OF l1] list_all2_lengthD [OF m2(3)] by (intro valid_from_cong) simp_all
  with r(3) have v: "valid_diff (map js_trim originalLines) (map js_trim modifiedLines) ds"
    by (simp add: valid_diff_def LineSequence_ISequence_def)
  with run r(4,5) valid_diff_apply [OF v] show ?thesis by blast
qed

theorem lineAlignments_correct_witness:
  "case lineAlignments 0 0 [[0x61], [0x62]] [[0x20, 0x61]] (\<lambda>_. True) of
     Inl _ \<Rightarrow> False | Inr (ds, hitTimeout) \<Rightarrow> apply_from [[0x61], [0x62]] [[0x61]] 0 ds = [[0x61 :: 16 word]] \<and> \<not> hitTimeout"
proof -
  have "map js_trim [[0x61], [0x62]] = [[0x61], [0x62]]" "map js_trim [[0x20, 0x61]] = [[0x61]]"
    by (simp_all add: js_trim_def js_white_space_def)
  with lineAlignments_correct [of 0 0 "[[0x61], [0x62]]" "[[0x20, 0x61]]" "\<lambda>_. True"] show ?thesis
    by (auto simp only: simp_thms) simp
qed

end
