(* ===== verification/Mirror_Text_Model.thy ===== *)
theory Mirror_Text_Model
  imports Position_Range Js_Lines Prefix_Sum
begin

text \<open>
  The copy of a text that follows the changes of an editor in another thread:
  \<open>src/vs/editor/common/model/mirrorTextModel.ts\<close>, and the queries that \<open>MirrorModel\<close> of
  \<open>src/vs/editor/common/services/textModelSync/textModelSync.impl.ts\<close> adds to it.

  A read of a line that does not exist gives \<open>undefined\<close>, of which every method throws a
  \<open>TypeError\<close>. The line starts are computed on demand and then updated with every change.
\<close>

subsection \<open>The model\<close>

record IModelContentChange =
  cc_range :: Range
  cc_rangeOffset :: int
  cc_rangeLength :: int
  cc_text :: js_string

record IModelChangedEvent =
  ce_changes :: "IModelContentChange list"
  ce_eol :: js_string
  ce_versionId :: int
  ce_isUndoing :: bool
  ce_isRedoing :: bool

record MirrorTextModel =
  mm_lines :: "js_string list"
  mm_eol :: js_string
  mm_versionId :: int
  mm_lineStarts :: "PrefixSumComputer option"
  mm_cachedTextValue :: "js_string option"

definition MirrorTextModel_new :: "js_string list \<Rightarrow> js_string \<Rightarrow> int \<Rightarrow> MirrorTextModel" where
  "MirrorTextModel_new ls eol versionId =
     \<lparr>mm_lines = ls, mm_eol = eol, mm_versionId = versionId, mm_lineStarts = None, mm_cachedTextValue = None\<rparr>"

definition MirrorTextModel_dispose :: "MirrorTextModel \<Rightarrow> MirrorTextModel" where
  "MirrorTextModel_dispose this = this\<lparr>mm_lines := []\<rparr>"

definition MirrorTextModel_getText :: "MirrorTextModel \<Rightarrow> js_string \<times> MirrorTextModel" where
  "MirrorTextModel_getText this =
     (case mm_cachedTextValue this of
        Some t \<Rightarrow> (t, this)
      | None \<Rightarrow> let t = js_join (mm_eol this) (mm_lines this) in (t, this\<lparr>mm_cachedTextValue := Some t\<rparr>))"

definition line_at :: "js_string list \<Rightarrow> int \<Rightarrow> js_error + js_string" where
  "line_at ls i = (if 0 \<le> i \<and> i < int (length ls) then Inr (ls ! nat i) else Inl TypeError)"

text \<open>\<open>str.substring(i)\<close>\<close>

definition js_substring_from :: "js_string \<Rightarrow> int \<Rightarrow> js_string" where
  "js_substring_from s i = js_substring s i (int (length s))"

text \<open>The value of a line in the prefix sums, a cell of a \<open>Uint32Array\<close>.\<close>

definition line_start_value :: "js_string \<Rightarrow> js_string \<Rightarrow> 32 word" where
  "line_start_value eol l = word_of_int (int (length l) + int (length eol))"

definition ensureLineStarts :: "MirrorTextModel \<Rightarrow> MirrorTextModel" where
  "ensureLineStarts this =
     (case mm_lineStarts this of
        Some _ \<Rightarrow> this
      | None \<Rightarrow> this\<lparr>mm_lineStarts := Some (PrefixSumComputer_new (map (line_start_value (mm_eol this)) (mm_lines this)))\<rparr>)"

definition setLineText :: "int \<Rightarrow> js_string \<Rightarrow> MirrorTextModel \<Rightarrow> MirrorTextModel" where
  "setLineText lineIndex newValue this =
     this\<lparr>mm_lines := (mm_lines this)[nat lineIndex := newValue],
       mm_lineStarts := map_option (\<lambda>starts.
         snd (PrefixSumComputer_setValue starts lineIndex (int (length newValue) + int (length (mm_eol this))))) (mm_lineStarts this)\<rparr>"

definition change_starts :: "(PrefixSumComputer \<Rightarrow> js_error + bool \<times> PrefixSumComputer) \<Rightarrow> MirrorTextModel \<Rightarrow> js_error + MirrorTextModel" where
  "change_starts f this =
     (case mm_lineStarts this of
        None \<Rightarrow> Inr this
      | Some starts \<Rightarrow> bindE (f starts) (\<lambda>(_, starts'). Inr (this\<lparr>mm_lineStarts := Some starts'\<rparr>)))"

definition acceptDeleteRange :: "Range \<Rightarrow> MirrorTextModel \<Rightarrow> js_error + MirrorTextModel" where
  "acceptDeleteRange r this =
     (if r_startLine r = r_endLine r then
        if r_startCol r = r_endCol r then Inr this
        else
          bindE (line_at (mm_lines this) (r_startLine r - 1)) (\<lambda>l.
            Inr (setLineText (r_startLine r - 1)
              (js_substring l 0 (r_startCol r - 1) @ js_substring_from l (r_endCol r - 1)) this))
      else
        bindE (line_at (mm_lines this) (r_startLine r - 1)) (\<lambda>first.
        bindE (line_at (mm_lines this) (r_endLine r - 1)) (\<lambda>final.
          let this = setLineText (r_startLine r - 1)
                (js_substring first 0 (r_startCol r - 1) @ js_substring_from final (r_endCol r - 1)) this;
              count = r_endLine r - r_startLine r;
              this = this\<lparr>mm_lines := js_splice (mm_lines this) (nat (r_startLine r)) (nat count) []\<rparr>
          in change_starts (\<lambda>starts. PrefixSumComputer_removeValues starts (r_startLine r) count) this)))"

text \<open>The loop that inserts the lines after the first, each behind the one before.\<close>

fun insert_lines :: "int \<Rightarrow> js_string list \<Rightarrow> js_string list \<Rightarrow> js_string list" where
  "insert_lines at [] ls = ls"
| "insert_lines at (l # rest) ls = insert_lines (at + 1) rest (js_splice ls (nat at) 0 [l])"

definition acceptInsertText :: "Position \<Rightarrow> js_string \<Rightarrow> MirrorTextModel \<Rightarrow> js_error + MirrorTextModel" where
  "acceptInsertText position insertText this =
     (if insertText = [] then Inr this
      else
        let insertLines = splitLines insertText; lineIndex = p_line position - 1
        in if length insertLines = 1 then
             bindE (line_at (mm_lines this) lineIndex) (\<lambda>l.
               Inr (setLineText lineIndex
                 (js_substring l 0 (p_col position - 1) @ insertLines ! 0 @ js_substring_from l (p_col position - 1)) this))
           else
             bindE (line_at (mm_lines this) lineIndex) (\<lambda>l.
               let insertLines = insertLines[length insertLines - 1 := last insertLines @ js_substring_from l (p_col position - 1)];
                   this = setLineText lineIndex (js_substring l 0 (p_col position - 1) @ insertLines ! 0) this;
                   newLengths = map (line_start_value (mm_eol this)) (tl insertLines);
                   this = this\<lparr>mm_lines := insert_lines (p_line position) (tl insertLines) (mm_lines this)\<rparr>
               in change_starts (\<lambda>starts. PrefixSumComputer_insertValues starts (p_line position) newLengths) this))"

definition accept_change :: "MirrorTextModel \<Rightarrow> IModelContentChange \<Rightarrow> js_error + MirrorTextModel" where
  "accept_change this change =
     bindE (acceptDeleteRange (cc_range change) this) (\<lambda>this.
       acceptInsertText \<lparr>p_line = r_startLine (cc_range change), p_col = r_startCol (cc_range change)\<rparr> (cc_text change) this)"

definition MirrorTextModel_onEvents :: "IModelChangedEvent \<Rightarrow> MirrorTextModel \<Rightarrow> js_error + MirrorTextModel" where
  "MirrorTextModel_onEvents e this =
     (let this = (if ce_eol e \<noteq> [] \<and> ce_eol e \<noteq> mm_eol this then this\<lparr>mm_eol := ce_eol e, mm_lineStarts := None\<rparr> else this)
      in bindE (foldE accept_change this (ce_changes e)) (\<lambda>this.
           Inr (this\<lparr>mm_versionId := ce_versionId e, mm_cachedTextValue := None\<rparr>)))"

subsection \<open>Queries\<close>

definition MirrorModel_getLineCount :: "MirrorTextModel \<Rightarrow> int" where
  "MirrorModel_getLineCount this = int (length (mm_lines this))"

definition MirrorModel_getLineContent :: "int \<Rightarrow> MirrorTextModel \<Rightarrow> js_string option" where
  "MirrorModel_getLineContent lineNumber this =
     (if 1 \<le> lineNumber \<and> lineNumber \<le> int (length (mm_lines this)) then Some (mm_lines this ! nat (lineNumber - 1)) else None)"

definition validatePosition :: "Position \<Rightarrow> MirrorTextModel \<Rightarrow> js_error + Position" where
  "validatePosition position this =
     (let lineNumber = p_line position; column = p_col position; n = int (length (mm_lines this))
      in if lineNumber < 1 then Inr \<lparr>p_line = 1, p_col = 1\<rparr>
         else if lineNumber > n then
           bindE (line_at (mm_lines this) (n - 1)) (\<lambda>l. Inr \<lparr>p_line = n, p_col = int (length l) + 1\<rparr>)
         else
           bindE (line_at (mm_lines this) (lineNumber - 1)) (\<lambda>l.
             let maxCharacter = int (length l) + 1
             in if column < 1 then Inr \<lparr>p_line = lineNumber, p_col = 1\<rparr>
                else if column > maxCharacter then Inr \<lparr>p_line = lineNumber, p_col = maxCharacter\<rparr>
                else Inr position))"

definition validateRange :: "Range \<Rightarrow> MirrorTextModel \<Rightarrow> js_error + Range" where
  "validateRange r this =
     bindE (validatePosition \<lparr>p_line = r_startLine r, p_col = r_startCol r\<rparr> this) (\<lambda>start.
     bindE (validatePosition \<lparr>p_line = r_endLine r, p_col = r_endCol r\<rparr> this) (\<lambda>stop.
       Inr (if p_line start \<noteq> r_startLine r \<or> p_col start \<noteq> r_startCol r \<or> p_line stop \<noteq> r_endLine r \<or> p_col stop \<noteq> r_endCol r
            then \<lparr>r_startLine = p_line start, r_startCol = p_col start, r_endLine = p_line stop, r_endCol = p_col stop\<rparr>
            else r)))"

definition MirrorModel_getValueInRange :: "Range \<Rightarrow> MirrorTextModel \<Rightarrow> js_error + js_string" where
  "MirrorModel_getValueInRange r0 this =
     bindE (validateRange r0 this) (\<lambda>r.
       if r_startLine r = r_endLine r then
         bindE (line_at (mm_lines this) (r_startLine r - 1)) (\<lambda>l. Inr (js_substring l (r_startCol r - 1) (r_endCol r - 1)))
       else
         let startLineIndex = r_startLine r - 1; endLineIndex = r_endLine r - 1
         in bindE (line_at (mm_lines this) startLineIndex) (\<lambda>first.
            bindE (line_at (mm_lines this) endLineIndex) (\<lambda>final.
              Inr (js_join (mm_eol this)
                (js_substring_from first (r_startCol r - 1)
                 # map (\<lambda>i. mm_lines this ! nat i) [startLineIndex + 1 .. endLineIndex - 1]
                 @ [js_substring final 0 (r_endCol r - 1)])))))"

text \<open>The answers are \<open>None\<close> for a sum that is not a number.\<close>

definition MirrorModel_offsetAt :: "Position \<Rightarrow> MirrorTextModel \<Rightarrow> js_error + int option \<times> MirrorTextModel" where
  "MirrorModel_offsetAt position0 this =
     bindE (validatePosition position0 this) (\<lambda>position.
       let this = ensureLineStarts this
       in case mm_lineStarts this of
            None \<Rightarrow> Inl TypeError
          | Some starts \<Rightarrow>
              let (x, starts') = PrefixSumComputer_getPrefixSum starts (p_line position - 2)
              in Inr (js_plus x (Some (p_col position - 1)), this\<lparr>mm_lineStarts := Some starts'\<rparr>))"

definition MirrorModel_positionAt :: "int \<Rightarrow> MirrorTextModel \<Rightarrow> js_error + Position option \<times> MirrorTextModel" where
  "MirrorModel_positionAt offset0 this =
     (let offset = max 0 offset0; this = ensureLineStarts this
      in case mm_lineStarts this of
           None \<Rightarrow> Inl TypeError
         | Some starts \<Rightarrow>
             let ((index, remainder), starts') = PrefixSumComputer_getIndexOf starts offset
             in bindE (line_at (mm_lines this) index) (\<lambda>l.
                  Inr (map_option (\<lambda>r. \<lparr>p_line = 1 + index, p_col = 1 + min r (int (length l))\<rparr>) remainder,
                       this\<lparr>mm_lineStarts := Some starts'\<rparr>)))"

end
