(* ===== verification/Line_Documents.thy ===== *)
theory Line_Documents
  imports Js_Lines
begin

text \<open>
  Texts as lists of lines. Documents are put together by gluing the last line of one to the first line of
  the next, which is concatenation of the texts whatever the line terminator, and splitting at line
  terminators is the inverse of joining.
\<close>

subsection \<open>Gluing\<close>

type_synonym document = "js_string list"

definition glue :: "document \<Rightarrow> document \<Rightarrow> document" where
  "glue xs ys = butlast xs @ (last xs @ hd ys) # tl ys"

lemma glue_snoc_Cons [simp]: "glue (xs @ [x]) (y # ys) = xs @ (x @ y) # ys"
  by (simp add: glue_def)

lemma glue_not_Nil [simp]: "glue xs ys \<noteq> []"
  by (simp add: glue_def)

lemma glue_assoc: "xs \<noteq> [] \<Longrightarrow> ys \<noteq> [] \<Longrightarrow> zs \<noteq> [] \<Longrightarrow> glue (glue xs ys) zs = glue xs (glue ys zs)"
  by (cases xs rule: rev_cases; cases ys; cases zs; cases "tl ys" rule: rev_cases) (auto simp: glue_def butlast_append)

lemma glue_empty [simp]: "ys \<noteq> [] \<Longrightarrow> glue [[]] ys = ys" "xs \<noteq> [] \<Longrightarrow> glue xs [[]] = xs"
  by (simp_all add: glue_def)

lemma js_join_Cons: "js_join e (x # xs) = x @ (if xs = [] then [] else e @ js_join e xs)"
  by (cases xs) simp_all

lemma js_join_snoc: "js_join e (xs @ [x]) = concat (map (\<lambda>l. l @ e) xs) @ x"
  by (induction xs) (auto simp: js_join_Cons)

lemma js_join_snoc_Cons: "js_join e (xs @ y # ys) = concat (map (\<lambda>l. l @ e) xs) @ js_join e (y # ys)"
  by (induction xs) (auto simp: js_join_Cons)

lemma js_join_glue:
  assumes "xs \<noteq> []" and "ys \<noteq> []"
  shows "js_join e (glue xs ys) = js_join e xs @ js_join e ys"
proof -
  from assms obtain us x y vs where "xs = us @ [x]" "ys = y # vs"
    by (metis append_butlast_last_id list.exhaust_sel)
  then show ?thesis by (simp add: js_join_snoc js_join_snoc_Cons) (simp add: js_join_Cons)
qed

subsection \<open>Cutting\<close>

text \<open>A line and an offset in the line, both from 0 on, cut a document in two; two such places in three.\<close>

definition before :: "document \<Rightarrow> nat \<Rightarrow> nat \<Rightarrow> document" where
  "before ls k j = take k ls @ [take j (ls ! k)]"

definition after :: "document \<Rightarrow> nat \<Rightarrow> nat \<Rightarrow> document" where
  "after ls k j = drop j (ls ! k) # drop (Suc k) ls"

definition between :: "document \<Rightarrow> nat \<Rightarrow> nat \<Rightarrow> nat \<Rightarrow> nat \<Rightarrow> document" where
  "between ls k j k' j' =
     (if k = k' then [take (j' - j) (drop j (ls ! k))]
      else drop j (ls ! k) # take (k' - Suc k) (drop (Suc k) ls) @ [take j' (ls ! k')])"

lemma cut_not_Nil [simp]: "before ls k j \<noteq> []" "after ls k j \<noteq> []" "between ls k j k' j' \<noteq> []"
  by (simp_all add: before_def after_def between_def)

lemma glue_cut: "k < length ls \<Longrightarrow> glue (before ls k j) (after ls k j) = ls"
  by (simp add: before_def after_def id_take_nth_drop [symmetric])

lemma glue_between:
  assumes "k \<le> k'" "k' < length ls" and "k = k' \<Longrightarrow> j \<le> j'"
  shows "glue (between ls k j k' j') (after ls k' j') = after ls k j"
proof (cases "k = k'")
  case True
  then have "take (j' - j) (drop j (ls ! k)) @ drop j' (ls ! k) = drop j (ls ! k)"
    using assms(3) by (metis append_take_drop_id drop_drop le_add_diff_inverse2)
  with True show ?thesis by (simp add: glue_def between_def after_def)
next
  case False
  with assms have k: "Suc k \<le> k'" by simp
  have "take (k' - Suc k) (drop (Suc k) ls) @ ls ! k' # drop (Suc k') ls = drop (Suc k) ls"
    using k assms(2) by (metis Cons_nth_drop_Suc append_take_drop_id drop_drop le_add_diff_inverse2)
  moreover have "between ls k j k' j' = (drop j (ls ! k) # take (k' - Suc k) (drop (Suc k) ls)) @ [take j' (ls ! k')]"
    using False by (simp add: between_def)
  ultimately show ?thesis by (simp only: after_def glue_snoc_Cons append_take_drop_id) simp
qed

lemma before_glue:
  assumes "k < length ls" and "j \<le> length (ls ! k)" and "ys \<noteq> []"
  shows "before (glue (before ls k j) ys) k j = before ls k j" and "after (glue (before ls k j) ys) k j = ys"
    and "k < length (glue (before ls k j) ys)"
  using assms by (cases ys; simp add: before_def after_def nth_append)+

text \<open>Texts before and after a place, and between two.\<close>

lemma join_cut:
  assumes "k < length ls"
  shows "js_join e (before ls k j) = take (length (js_join e (before ls k j))) (js_join e ls)"
    and "js_join e (after ls k j) = drop (length (js_join e (before ls k j))) (js_join e ls)"
  using js_join_glue [of "before ls k j" "after ls k j" e] by (simp_all add: glue_cut [OF assms])

lemma join_between:
  assumes "k \<le> k'" "k' < length ls" and "k = k' \<Longrightarrow> j \<le> j'"
  shows "js_join e (before ls k' j') = js_join e (before ls k j) @ js_join e (between ls k j k' j')"
proof -
  have "js_join e (before ls k j) @ js_join e (between ls k j k' j') @ js_join e (after ls k' j') = js_join e ls"
    using assms by (simp add: js_join_glue [symmetric] glue_between glue_cut)
  also have "\<dots> = js_join e (before ls k' j') @ js_join e (after ls k' j')"
    using assms by (simp add: js_join_glue [symmetric] glue_cut)
  finally show ?thesis by simp
qed

subsection \<open>Sizes\<close>

text \<open>The size of a line with its terminator. The last line counts one as well.\<close>

definition line_size :: "js_string \<Rightarrow> js_string \<Rightarrow> int" where
  "line_size e l = int (length l) + int (length e)"

lemma line_size_nonneg [simp]: "0 \<le> line_size e l"
  by (simp add: line_size_def)

lemma join_size: "ls \<noteq> [] \<Longrightarrow> sum_list (map (line_size e) ls) = int (length (js_join e ls)) + int (length e)"
  by (induction ls) (auto simp: js_join_Cons line_size_def)

lemma offset_before:
  "k < length ls \<Longrightarrow> j \<le> length (ls ! k) \<Longrightarrow>
   int (length (js_join e (before ls k j))) = sum_list (map (line_size e) (take k ls)) + int j"
proof -
  have "int (length (concat (map (\<lambda>l. l @ e) xs))) = sum_list (map (line_size e) xs)" for xs
    by (induction xs) (simp_all add: line_size_def)
  moreover assume "k < length ls" "j \<le> length (ls ! k)"
  ultimately show ?thesis by (simp add: before_def js_join_snoc)
qed

lemma line_size_le: "l \<in> set ls \<Longrightarrow> line_size e l \<le> int (length (js_join e ls)) + int (length e)"
proof -
  assume "l \<in> set ls"
  then have "line_size e l \<le> sum_list (map (line_size e) ls)" by (intro member_le_sum_list) auto
  moreover have "ls \<noteq> []" using \<open>l \<in> set ls\<close> by auto
  ultimately show ?thesis by (simp add: join_size)
qed

lemma line_count_le: "e \<noteq> [] \<Longrightarrow> ls \<noteq> [] \<Longrightarrow> int (length ls) \<le> int (length (js_join e ls)) + int (length e)"
proof -
  assume e: "e \<noteq> []" and "ls \<noteq> []"
  have "1 \<le> line_size e l" for l using e by (cases e) (simp_all add: line_size_def)
  then have "int (length ls) \<le> sum_list (map (line_size e) ls)"
    by (induction ls) (simp, smt (verit) int_ops(4) length_Cons list.simps(9) sum_list.Cons of_nat_Suc)
  with join_size [OF \<open>ls \<noteq> []\<close>] show ?thesis by simp
qed

subsection \<open>Splitting\<close>

definition is_eol :: "js_string \<Rightarrow> bool" where
  "is_eol e \<longleftrightarrow> e = [LF] \<or> e = [CR, LF]"

definition proper :: "document \<Rightarrow> bool" where
  "proper ls \<longleftrightarrow> ls \<noteq> [] \<and> list_all no_eol ls"

lemma js_split_line: "no_eol l \<Longrightarrow> js_split_eol False acc (l @ s) = js_split_eol False (acc @ l) s"
proof (induction l arbitrary: acc)
  case (Cons c l)
  then have "eol_match ((c # l) @ s) = 0" by (simp add: eol_match_def no_eol_def)
  with Cons show ?case by (simp add: js_split_eol.simps [of False acc "c # _"] no_eol_def)
qed simp

lemma js_split_join:
  assumes "is_eol e" and "proper ls"
  shows "js_split_eol False [] (js_join e ls) = ls"
  using assms(2)
proof (induction ls)
  case (Cons l ls)
  then have l: "no_eol l" by (simp add: proper_def)
  have eol: "js_split_eol False acc (e @ s) = acc # js_split_eol False [] s" for acc s
    using assms(1) by (auto simp: is_eol_def js_split_eol.simps [of False acc "_ # _"] eol_match_def)
  show ?case
  proof (cases "ls = []")
    case True
    with js_split_line [OF l, of "[]" "[]"] show ?thesis by (simp add: js_split_eol.simps)
  next
    case False
    with Cons have "js_split_eol False [] (js_join e ls) = ls" by (simp add: proper_def)
    with False js_split_line [OF l, of "[]"] eol show ?thesis by (simp add: js_join_Cons)
  qed
qed (simp add: proper_def)

lemma splitLines_join: "is_eol e \<Longrightarrow> proper ls \<Longrightarrow> splitLines (js_join e ls) = ls"
  by (simp add: splitLines_def js_split_join)

lemma proper_splitLines: "proper (splitLines s)"
proof -
  from js_split_eol_split [of "[]" s] obtain ps l where
    "line_split s ps l" "splitLines s = map fst ps @ [l]" by (auto simp: splitLines_def no_eol_def)
  then show ?thesis by (auto simp: proper_def line_split_def list_all_iff)
qed

lemma splitLines_not_Nil [simp]: "splitLines s \<noteq> []"
  using proper_splitLines [of s] by (simp add: proper_def)

lemma no_eol_take [intro]: "no_eol l \<Longrightarrow> no_eol (take j l)"
  by (auto simp: no_eol_def dest: in_set_takeD)

lemma no_eol_drop [intro]: "no_eol l \<Longrightarrow> no_eol (drop j l)"
  by (auto simp: no_eol_def dest: in_set_dropD)

lemma proper_glue: "proper xs \<Longrightarrow> proper ys \<Longrightarrow> proper (glue xs ys)"
  by (cases xs rule: rev_cases; cases ys) (auto simp: proper_def no_eol_def)

lemma proper_cut:
  assumes "proper ls" and "k < length ls"
  shows "proper (before ls k j)" "proper (after ls k j)"
  using assms by (auto simp: proper_def before_def after_def list_all_iff dest: in_set_takeD in_set_dropD)

lemma is_eol_not_Nil: "is_eol e \<Longrightarrow> e \<noteq> []"
  by (auto simp: is_eol_def)

end
