(* ===== verification/Mirror_Text.thy ===== *)
theory Mirror_Text
  imports Mirror_Text_Model Line_Documents Object_Refinement
begin

text \<open>
  A mirror model is its text: after any sequence of events it answers every query as the text that the
  events give, whether its line starts were computed before the changes or after them.
\<close>

subsection \<open>The line starts\<close>

definition starts_fit :: "MirrorTextModel \<Rightarrow> bool" where
  "starts_fit m \<longleftrightarrow> (\<forall>s. mm_lineStarts m = Some s \<longrightarrow>
     psc_inv s \<and> psc_values s = map (line_start_value (mm_eol m)) (mm_lines m))"

lemma starts_fit_None [simp]: "mm_lineStarts m = None \<Longrightarrow> starts_fit m"
  by (simp add: starts_fit_def)

text \<open>The model with other lines.\<close>

definition becomes :: "MirrorTextModel \<Rightarrow> document \<Rightarrow> MirrorTextModel \<Rightarrow> bool" where
  "becomes m ls m' \<longleftrightarrow> mm_lines m' = ls \<and> mm_eol m' = mm_eol m \<and> mm_versionId m' = mm_versionId m \<and>
     mm_cachedTextValue m' = mm_cachedTextValue m \<and> starts_fit m'"

lemma mirror_becomes_trans: "becomes m ls m' \<Longrightarrow> becomes m' ls' m'' \<Longrightarrow> becomes m ls' m''"
  by (simp add: becomes_def)

lemma mirror_becomes_refl: "starts_fit m \<Longrightarrow> becomes m (mm_lines m) m"
  by (simp add: becomes_def)

lemma setLineText_spec:
  assumes "starts_fit m" and "0 \<le> i" "i < int (length (mm_lines m))" and "int (length (mm_lines m)) < 2 ^ 31"
    and "line_size (mm_eol m) v < 2 ^ 32"
  shows "becomes m ((mm_lines m)[nat i := v]) (setLineText i v m)"
proof (cases "mm_lineStarts m")
  case None
  then show ?thesis by (simp add: setLineText_def becomes_def)
next
  case (Some p)
  with assms(1) have p: "psc_inv p" "psc_values p = map (line_start_value (mm_eol m)) (mm_lines m)" by (auto simp: starts_fit_def)
  have "0 \<le> int (length v) + int (length (mm_eol m))" "int (length v) + int (length (mm_eol m)) < 2 ^ 32"
    using assms(5) by (simp_all add: line_size_def)
  from psc_setValue_spec [OF p(1) assms(2) _ _ this] p(2) assms(3,4) obtain b s where
    "PrefixSumComputer_setValue p i (int (length v) + int (length (mm_eol m))) = (b, s)" "psc_inv s"
    "psc_values s = (psc_values p)[nat i := word_of_int (int (length v) + int (length (mm_eol m)))]" by auto
  with Some p(2) show ?thesis
    by (simp add: setLineText_def becomes_def starts_fit_def map_update line_start_value_def)
qed

lemma change_starts_spec:
  assumes "starts_fit m" and "\<And>p. psc_inv p \<Longrightarrow> psc_values p = map (line_start_value (mm_eol m)) (mm_lines m) \<Longrightarrow>
      \<exists>b p'. f p = Inr (b, p') \<and> psc_inv p' \<and> psc_values p' = map (line_start_value (mm_eol m)) ls"
  shows "\<exists>m'. change_starts f (m\<lparr>mm_lines := ls\<rparr>) = Inr m' \<and> becomes m ls m'"
proof (cases "mm_lineStarts m")
  case None
  then show ?thesis by (simp add: change_starts_def becomes_def)
next
  case (Some p)
  with assms(1) have "psc_inv p" "psc_values p = map (line_start_value (mm_eol m)) (mm_lines m)" by (simp_all add: starts_fit_def)
  from assms(2) [OF this] obtain b p' where "f p = Inr (b, p')" "psc_inv p'" "psc_values p' = map (line_start_value (mm_eol m)) ls"
    by blast
  with Some show ?thesis by (simp add: change_starts_def becomes_def starts_fit_def)
qed

text \<open>A text that is small enough for the numbers of lines and the line starts.\<close>

definition small :: "js_string \<Rightarrow> js_string \<Rightarrow> bool" where
  "small e t \<longleftrightarrow> int (length t) + int (length e) < 2 ^ 31"

lemma small_lines:
  assumes "small e (js_join e ls)" and "e \<noteq> []"
  shows "int (length ls) < 2 ^ 31" and "l \<in> set ls \<Longrightarrow> line_size e l < 2 ^ 31"
  using assms line_count_le [of e ls] line_size_le [of l ls e] by (cases "ls = []"; force simp: small_def)+

subsection \<open>Changes\<close>

lemma line_at_in: "k < length ls \<Longrightarrow> line_at ls (int k) = Inr (ls ! k)"
  by (simp add: line_at_def)

lemma js_substring_upto: "j \<le> length l \<Longrightarrow> js_substring l 0 (int j) = take j l"
  by (simp add: js_substring_sub sub_def)

lemma js_substring_from_drop: "j \<le> length l \<Longrightarrow> js_substring_from l (int j) = drop j l"
  by (simp add: js_substring_from_def js_substring_sub sub_to_end)

text \<open>A range as two places, lines and columns from 0 on, in order and inside the document.\<close>

definition places :: "document \<Rightarrow> Range \<Rightarrow> nat \<Rightarrow> nat \<Rightarrow> nat \<Rightarrow> nat \<Rightarrow> bool" where
  "places ls r k j k' j' \<longleftrightarrow> r_startLine r = int k + 1 \<and> r_startCol r = int j + 1 \<and> r_endLine r = int k' + 1 \<and> r_endCol r = int j' + 1 \<and>
     k \<le> k' \<and> k' < length ls \<and> j \<le> length (ls ! k) \<and> j' \<le> length (ls ! k') \<and> (k = k' \<longrightarrow> j \<le> j')"

lemma join_delete_le:
  assumes "k \<le> k'" "k' < length ls" and "k = k' \<Longrightarrow> j \<le> j'"
  shows "length (js_join e (glue (before ls k j) (after ls k' j'))) \<le> length (js_join e ls)"
proof -
  have "js_join e ls = js_join e (before ls k' j') @ js_join e (after ls k' j')"
    using assms by (simp add: js_join_glue [symmetric] glue_cut)
  with join_between [OF assms, of e] show ?thesis by (simp add: js_join_glue)
qed

lemma acceptDeleteRange_spec:
  assumes fit: "starts_fit m" and ne: "mm_eol m \<noteq> []" and small: "small (mm_eol m) (js_join (mm_eol m) (mm_lines m))"
    and r: "places (mm_lines m) r k j k' j'"
  defines "ls \<equiv> glue (before (mm_lines m) k j) (after (mm_lines m) k' j')"
  shows "\<exists>m'. acceptDeleteRange r m = Inr m' \<and> becomes m ls m'"
proof -
  let ?L = "mm_lines m" and ?e = "mm_eol m"
  note r = r [unfolded places_def]
  then have k: "k < length ?L" "k' < length ?L" by simp_all
  let ?v = "take j (?L ! k) @ drop j' (?L ! k')"
  have ls: "ls = take k ?L @ ?v # drop (Suc k') ?L" by (simp add: ls_def before_def after_def)
  note count = small_lines(1) [OF small ne]
  have "small ?e (js_join ?e ls)"
    using small join_delete_le [of k k' ?L j j' ?e] r by (simp add: small_def ls_def)
  from small_lines(2) [OF this ne, of ?v] have v: "line_size ?e ?v < 2 ^ 32" by (simp add: ls)
  have "0 \<le> int k" "int k < int (length ?L)" using k by simp_all
  from setLineText_spec [OF fit this count v] have set: "becomes m (?L[k := ?v]) (setLineText (int k) ?v m)" by simp
  show ?thesis
  proof (cases "k = k'")
    case True
    with k have "?L[k := ?v] = ls" by (simp add: ls upd_conv_take_nth_drop)
    moreover have "acceptDeleteRange r m = Inr (setLineText (int k) ?v m)" if "j \<noteq> j'"
      using r that True k by (simp add: acceptDeleteRange_def line_at_in js_substring_upto js_substring_from_drop)
    moreover have "acceptDeleteRange r m = Inr m \<and> ls = ?L" if "j = j'"
      using r that True k by (simp add: acceptDeleteRange_def ls_def glue_cut)
    ultimately show ?thesis using set mirror_becomes_refl [OF fit] by (cases "j = j'") simp_all
  next
    case False
    with r have lt: "k < k'" by simp
    define n where "n = setLineText (int k) ?v m"
    with set have n: "mm_lines n = ?L[k := ?v]" "mm_eol n = ?e" "starts_fit n" by (simp_all add: becomes_def)
    have splice: "js_splice (mm_lines n) (Suc k) (k' - k) [] = ls" "take (Suc k) (mm_lines n) @ drop (Suc k') (mm_lines n) = ls"
      using lt k by (simp_all add: n js_splice_def ls take_Suc_conv_app_nth)
    have step: "acceptDeleteRange r m =
        change_starts (\<lambda>starts. PrefixSumComputer_removeValues starts (int k + 1) (int k' - int k)) (n\<lparr>mm_lines := ls\<rparr>)"
      using r lt k splice(1)
      by (simp add: acceptDeleteRange_def line_at_in js_substring_upto js_substring_from_drop Let_def nat_diff_distrib
        nat_add_distrib flip: n_def)
    have "\<exists>b p'. PrefixSumComputer_removeValues p (int k + 1) (int k' - int k) = Inr (b, p') \<and> psc_inv p' \<and>
        psc_values p' = map (line_start_value (mm_eol n)) ls"
      if p: "psc_inv p" "psc_values p = map (line_start_value (mm_eol n)) (mm_lines n)" for p
    proof -
      have "map (line_start_value (mm_eol n)) ls = take (Suc k) (psc_values p) @ drop (Suc k') (psc_values p)"
        unfolding p(2) splice(2) [symmetric] by (simp add: take_map drop_map)
      moreover have "nat (int k + 1) = Suc k" "nat (int k + 1 + (int k' - int k)) = Suc k'" by simp_all
      ultimately show ?thesis
        using psc_removeValues_spec [OF p(1), of "int k + 1" "int k' - int k"] p(2) lt k count by (simp add: n)
    qed
    from change_starts_spec [where f = "\<lambda>starts. PrefixSumComputer_removeValues starts (int k + 1) (int k' - int k)",
        OF n(3) this] obtain m' where "acceptDeleteRange r m = Inr m'" "becomes n ls m'"
      unfolding step by blast
    with mirror_becomes_trans [OF set] show ?thesis by (auto simp: n_def)
  qed
qed

lemma insert_lines_at:
  "at \<le> length ls \<Longrightarrow> insert_lines (int at) rest ls = take at ls @ rest @ drop at ls"
proof (induction rest arbitrary: at ls)
  case (Cons l rest)
  have "insert_lines (int (Suc at)) rest (js_splice ls at 0 [l]) =
      take (Suc at) (js_splice ls at 0 [l]) @ rest @ drop (Suc at) (js_splice ls at 0 [l])"
    by (rule Cons.IH) (use Cons.prems in \<open>simp add: js_splice_def\<close>)
  with Cons.prems show ?case by (simp add: js_splice_def add.commute)
qed simp

text \<open>A place as a position.\<close>

definition place :: "document \<Rightarrow> Position \<Rightarrow> nat \<Rightarrow> nat \<Rightarrow> bool" where
  "place ls p k j \<longleftrightarrow> p_line p = int k + 1 \<and> p_col p = int j + 1 \<and> k < length ls \<and> j \<le> length (ls ! k)"

lemma acceptInsertText_spec:
  assumes fit: "starts_fit m" and ne: "mm_eol m \<noteq> []" and count: "int (length (mm_lines m)) < 2 ^ 31"
    and p: "place (mm_lines m) p k j"
    and ls_def: "ls = glue (before (mm_lines m) k j) (glue (splitLines t) (after (mm_lines m) k j))"
    and small: "small (mm_eol m) (js_join (mm_eol m) ls)"
  shows "\<exists>m'. acceptInsertText p t m = Inr m' \<and> becomes m ls m'"
proof -
  let ?L = "mm_lines m" and ?e = "mm_eol m"
  note p = p [unfolded place_def]
  have line: "line_at ?L (int k) = Inr (?L ! k)" using p by (simp add: line_at_in)
  have sub: "js_substring (?L ! k) 0 (int j) = take j (?L ! k)" "js_substring_from (?L ! k) (int j) = drop j (?L ! k)"
    using p by (simp_all add: js_substring_upto js_substring_from_drop)
  have set: "becomes m (?L[k := v]) (setLineText (int k) v m)" if "v \<in> set ls" for v
    using setLineText_spec [OF fit _ _ count, of "int k" v] small_lines(2) [OF small ne that] p by simp
  obtain h rest where split: "splitLines t = h # rest" by (cases "splitLines t") auto
  consider "t = []" | "t \<noteq> []" "rest = []" | "t \<noteq> []" "rest \<noteq> []" by blast
  then show ?thesis
  proof cases
    case 1
    then have "splitLines t = [[]]" by (simp add: splitLines_def js_split_eol.simps)
    with 1 p have "acceptInsertText p t m = Inr m" "ls = ?L" by (simp_all add: acceptInsertText_def ls_def glue_cut)
    with mirror_becomes_refl [OF fit] show ?thesis by simp
  next
    case 2
    let ?v = "take j (?L ! k) @ h @ drop j (?L ! k)"
    have ls: "ls = take k ?L @ ?v # drop (Suc k) ?L"
      using 2 split by (simp add: ls_def glue_def before_def after_def)
    with p have "?L[k := ?v] = ls" by (simp add: upd_conv_take_nth_drop)
    moreover have "acceptInsertText p t m = Inr (setLineText (int k) ?v m)"
      using 2 p split line sub by (simp add: acceptInsertText_def)
    ultimately show ?thesis using set [of ?v] by (simp add: ls)
  next
    case 3
    let ?v = "take j (?L ! k) @ h" and ?tail = "butlast rest @ [last rest @ drop j (?L ! k)]"
    have glue: "glue (h # rest) (after ?L k j) = h # ?tail @ drop (Suc k) ?L"
      using 3 by (simp add: glue_def after_def)
    have ls: "ls = take k ?L @ ?v # ?tail @ drop (Suc k) ?L"
      unfolding ls_def split glue by (simp add: before_def)
    define n where "n = setLineText (int k) ?v m"
    from set [of ?v] have n: "becomes m (?L[k := ?v]) n" by (simp add: ls n_def)
    then have n': "mm_lines n = ?L[k := ?v]" "mm_eol n = ?e" "starts_fit n" by (simp_all add: becomes_def)
    have cut: "take (Suc k) (mm_lines n) = take k ?L @ [?v]" "drop (Suc k) (mm_lines n) = drop (Suc k) ?L"
      using p by (simp_all add: n' take_Suc_conv_app_nth)
    have ins: "insert_lines (int k + 1) ?tail (mm_lines n) = ls"
      using insert_lines_at [of "Suc k" "mm_lines n" ?tail] p by (simp add: n'(1) ls cut [unfolded n'(1)] add.commute)
    have update: "(h # rest)[length (h # rest) - 1 := last (h # rest) @ drop j (?L ! k)] = h # ?tail"
      using 3 by (cases rest rule: rev_cases) simp_all
    have step: "acceptInsertText p t m = change_starts (\<lambda>starts. PrefixSumComputer_insertValues starts (int k + 1)
        (map (line_start_value (mm_eol n)) ?tail)) (n\<lparr>mm_lines := ls\<rparr>)"
      using 3 p split line sub ins update by (simp add: acceptInsertText_def Let_def n_def [symmetric] del: list_update.simps)
    have "\<exists>b c'. PrefixSumComputer_insertValues c (int k + 1) (map (line_start_value (mm_eol n)) ?tail) = Inr (b, c') \<and> psc_inv c' \<and>
        psc_values c' = map (line_start_value (mm_eol n)) ls"
      if q: "psc_inv c" "psc_values c = map (line_start_value (mm_eol n)) (mm_lines n)" for c
    proof -
      have "map (line_start_value (mm_eol n)) ls =
          take (Suc k) (psc_values c) @ map (line_start_value (mm_eol n)) ?tail @ drop (Suc k) (psc_values c)"
        unfolding q(2) take_map drop_map cut by (simp add: ls)
      moreover have "nat (int k + 1) = Suc k" by simp
      ultimately show ?thesis
        using psc_insertValues_spec [OF q(1), of "int k + 1" "map (line_start_value (mm_eol n)) ?tail"] q(2) p count
        by (simp add: n'(1))
    qed
    from change_starts_spec [where f = "\<lambda>starts. PrefixSumComputer_insertValues starts (int k + 1)
        (map (line_start_value (mm_eol n)) ?tail)", OF n'(3) this] obtain m' where "acceptInsertText p t m = Inr m'" "becomes n ls m'"
      unfolding step by blast
    with mirror_becomes_trans [OF n] show ?thesis by blast
  qed
qed

lemma accept_change_spec:
  assumes fit: "starts_fit m" and ne: "mm_eol m \<noteq> []" and small: "small (mm_eol m) (js_join (mm_eol m) (mm_lines m))"
    and r: "places (mm_lines m) (cc_range c) k j k' j'"
    and ls_def: "ls = glue (before (mm_lines m) k j) (glue (splitLines (cc_text c)) (after (mm_lines m) k' j'))"
    and small': "small (mm_eol m) (js_join (mm_eol m) ls)"
  shows "\<exists>m'. accept_change m c = Inr m' \<and> becomes m ls m'"
proof -
  let ?L = "mm_lines m"
  let ?d = "glue (before ?L k j) (after ?L k' j')"
  from acceptDeleteRange_spec [OF fit ne small r] obtain m1
    where m1: "acceptDeleteRange (cc_range c) m = Inr m1" "becomes m ?d m1" by blast
  then have m1': "mm_lines m1 = ?d" "mm_eol m1 = mm_eol m" "starts_fit m1" by (simp_all add: becomes_def)
  have cut: "before ?d k j = before ?L k j" "after ?d k j = after ?L k' j'" "k < length ?d" "j \<le> length (?d ! k)"
    using r before_glue [of k ?L j "after ?L k' j'"]
    by (auto simp: places_def before_def nth_append min_def glue_def after_def)
  have "small (mm_eol m) (js_join (mm_eol m) ?d)"
    using small join_delete_le [of k k' ?L j j' "mm_eol m"] r by (simp add: small_def places_def)
  note count = small_lines(1) [OF this ne]
  have "place (mm_lines m1) \<lparr>p_line = r_startLine (cc_range c), p_col = r_startCol (cc_range c)\<rparr> k j"
    using r cut by (simp add: place_def places_def m1')
  from acceptInsertText_spec [OF m1'(3) _ _ this, of ls "cc_text c"] obtain m2 where
    "acceptInsertText \<lparr>p_line = r_startLine (cc_range c), p_col = r_startCol (cc_range c)\<rparr> (cc_text c) m1 = Inr m2" "becomes m1 ls m2"
    using ne count small' cut by (auto simp: m1' ls_def)
  with m1 mirror_becomes_trans show ?thesis by (auto simp: accept_change_def)
qed

subsection \<open>Texts and positions\<close>

definition clamp_position :: "js_string \<Rightarrow> Position \<Rightarrow> Position" where
  "clamp_position t p =
     (let ls = splitLines t; n = int (length ls)
      in if p_line p < 1 then \<lparr>p_line = 1, p_col = 1\<rparr>
         else if p_line p > n then \<lparr>p_line = n, p_col = int (length (last ls)) + 1\<rparr>
         else \<lparr>p_line = p_line p, p_col = max 1 (min (p_col p) (int (length (ls ! nat (p_line p - 1))) + 1))\<rparr>)"

definition text_offset :: "js_string \<Rightarrow> js_string \<Rightarrow> Position \<Rightarrow> int" where
  "text_offset e t p = sum_list (map (line_size e) (take (nat (p_line p - 1)) (splitLines t))) + p_col p - 1"

text \<open>The position of an offset; offsets inside a line terminator count as the end of the line.\<close>

fun position_in :: "js_string \<Rightarrow> document \<Rightarrow> int \<Rightarrow> Position" where
  "position_in e [] x = \<lparr>p_line = 1, p_col = 1\<rparr>"
| "position_in e [l] x = \<lparr>p_line = 1, p_col = 1 + min x (int (length l))\<rparr>"
| "position_in e (l # m # ls) x =
     (if x < line_size e l then \<lparr>p_line = 1, p_col = 1 + min x (int (length l))\<rparr>
      else let p = position_in e (m # ls) (x - line_size e l) in \<lparr>p_line = p_line p + 1, p_col = p_col p\<rparr>)"

lemma clamp_place:
  "\<exists>k j. place (splitLines t) (clamp_position t p) k j"
proof -
  have ne: "0 < length (splitLines t)" by simp
  consider "p_line p < 1" | "p_line p > int (length (splitLines t))" | "1 \<le> p_line p" "p_line p \<le> int (length (splitLines t))"
    by linarith
  then show ?thesis
  proof cases
    case 1
    then have "place (splitLines t) (clamp_position t p) 0 0" using ne by (simp add: place_def clamp_position_def Let_def)
    then show ?thesis by blast
  next
    case 2
    then have "place (splitLines t) (clamp_position t p) (length (splitLines t) - 1) (length (last (splitLines t)))"
      using ne by (cases "length (splitLines t)") (simp_all add: place_def clamp_position_def Let_def last_conv_nth)
    then show ?thesis by blast
  next
    case 3
    let ?c = "max 1 (min (p_col p) (int (length (splitLines t ! nat (p_line p - 1))) + 1))"
    have "place (splitLines t) (clamp_position t p) (nat (p_line p - 1)) (nat (?c - 1))"
      using 3 by (auto simp: place_def clamp_position_def Let_def)
    then show ?thesis by blast
  qed
qed

lemma place_valid: "place (splitLines t) p k j \<Longrightarrow> clamp_position t p = p"
  by (auto simp: place_def clamp_position_def Let_def)

lemma place_offset:
  "place (splitLines t) p k j \<Longrightarrow> text_offset e t p = int (length (js_join e (before (splitLines t) k j)))"
  by (simp add: place_def text_offset_def offset_before)

lemma place_unique: "place ls p k j \<Longrightarrow> place ls p k' j' \<Longrightarrow> k' = k \<and> j' = j"
  by (auto simp: place_def)

lemma position_in_index:
  assumes "ls \<noteq> []" and "0 \<le> x"
  shows "0 \<le> fst (index_of (map (line_size e) ls) x) \<and>
    position_in e ls x = \<lparr>p_line = 1 + fst (index_of (map (line_size e) ls) x),
      p_col = 1 + min (snd (index_of (map (line_size e) ls) x)) (int (length (ls ! nat (fst (index_of (map (line_size e) ls) x)))))\<rparr>"
  using assms
proof (induction e ls x rule: position_in.induct)
  case (3 e l m ls x)
  show ?case
  proof (cases "x < line_size e l")
    case False
    let ?i = "index_of (map (line_size e) (m # ls)) (x - line_size e l)"
    from 3(1) [OF False] False have IH: "0 \<le> fst ?i" "position_in e (m # ls) (x - line_size e l) =
      \<lparr>p_line = 1 + fst ?i, p_col = 1 + min (snd ?i) (int (length ((m # ls) ! nat (fst ?i))))\<rparr>" by simp_all
    have i: "index_of (map (line_size e) (l # m # ls)) x = (fst ?i + 1, snd ?i)"
      using False by (simp add: Let_def case_prod_beta)
    have "nat (fst ?i + 1) = Suc (nat (fst ?i))" using IH(1) by simp
    with IH False show ?thesis unfolding i by (simp add: Let_def)
  qed simp
qed simp_all

end
