(* ===== verification/Mirror_Refinement.thy ===== *)
theory Mirror_Refinement
  imports Mirror_Text
begin

text \<open>
  The mirror model refines a text: an interpretation of \<open>object_refinement\<close>, with the events and the
  queries as operations. The properties of the mirror model.
\<close>

subsection \<open>The text that events give\<close>

text \<open>The state of the specification: the text, its line terminator and its version.\<close>

type_synonym mirror_text = "js_string \<times> js_string \<times> int"

definition text_change :: "js_string \<Rightarrow> js_string \<Rightarrow> IModelContentChange \<Rightarrow> js_string" where
  "text_change e t c =
     take (nat (cc_rangeOffset c)) t @ js_join e (splitLines (cc_text c)) @ drop (nat (cc_rangeOffset c + cc_rangeLength c)) t"

definition event_eol :: "js_string \<Rightarrow> IModelChangedEvent \<Rightarrow> js_string" where
  "event_eol e ev = (if ce_eol ev \<noteq> [] then ce_eol ev else e)"

fun text_event :: "mirror_text \<Rightarrow> IModelChangedEvent \<Rightarrow> mirror_text" where
  "text_event (t, e, v) ev =
     (let e' = event_eol e ev
      in (foldl (text_change e') (js_join e' (splitLines t)) (ce_changes ev), e', ce_versionId ev))"

text \<open>The ends of a range as positions.\<close>

definition range_start :: "Range \<Rightarrow> Position" where
  "range_start r = \<lparr>p_line = r_startLine r, p_col = r_startCol r\<rparr>"

definition range_end :: "Range \<Rightarrow> Position" where
  "range_end r = \<lparr>p_line = r_endLine r, p_col = r_endCol r\<rparr>"

text \<open>The range of a change lies in the text, and its offset and length are those of the range.\<close>

definition legal_change :: "js_string \<Rightarrow> js_string \<Rightarrow> IModelContentChange \<Rightarrow> bool" where
  "legal_change e t c \<longleftrightarrow>
     (let start = range_start (cc_range c); stop = range_end (cc_range c)
      in clamp_position t start = start \<and> clamp_position t stop = stop \<and> start \<le> stop \<and>
         cc_rangeOffset c = text_offset e t start \<and> cc_rangeLength c = text_offset e t stop - text_offset e t start \<and>
         small e (text_change e t c))"

fun legal_changes :: "js_string \<Rightarrow> js_string \<Rightarrow> IModelContentChange list \<Rightarrow> bool" where
  "legal_changes e t [] = True"
| "legal_changes e t (c # cs) = (legal_change e t c \<and> legal_changes e (text_change e t c) cs)"

fun legal_event :: "mirror_text \<Rightarrow> IModelChangedEvent \<Rightarrow> bool" where
  "legal_event (t, e, v) ev =
     (let e' = event_eol e ev; t' = js_join e' (splitLines t)
      in is_eol e' \<and> small e' t' \<and> legal_changes e' t' (ce_changes ev))"

datatype mirror_op =
    MM_event IModelChangedEvent
  | MM_text
  | MM_line_count
  | MM_line int
  | MM_offset Position
  | MM_position int
  | MM_value Range

datatype mirror_result =
    MR_done
  | MR_text js_string
  | MR_count int
  | MR_line "js_string option"
  | MR_offset "int option"
  | MR_position "Position option"

fun MirrorModel_step :: "MirrorTextModel \<Rightarrow> mirror_op \<Rightarrow> js_error + mirror_result \<times> MirrorTextModel" where
  "MirrorModel_step m (MM_event ev) = bindE (MirrorTextModel_onEvents ev m) (\<lambda>m'. Inr (MR_done, m'))"
| "MirrorModel_step m MM_text = (let (t, m') = MirrorTextModel_getText m in Inr (MR_text t, m'))"
| "MirrorModel_step m MM_line_count = Inr (MR_count (MirrorModel_getLineCount m), m)"
| "MirrorModel_step m (MM_line i) = Inr (MR_line (MirrorModel_getLineContent i m), m)"
| "MirrorModel_step m (MM_offset p) = bindE (MirrorModel_offsetAt p m) (\<lambda>(x, m'). Inr (MR_offset x, m'))"
| "MirrorModel_step m (MM_position x) = bindE (MirrorModel_positionAt x m) (\<lambda>(p, m'). Inr (MR_position p, m'))"
| "MirrorModel_step m (MM_value r) = bindE (MirrorModel_getValueInRange r m) (\<lambda>t. Inr (MR_text t, m))"

fun mirror_spec :: "mirror_text \<Rightarrow> mirror_op \<Rightarrow> mirror_result \<times> mirror_text" where
  "mirror_spec s (MM_event ev) = (MR_done, text_event s ev)"
| "mirror_spec (t, e, v) MM_text = (MR_text t, (t, e, v))"
| "mirror_spec (t, e, v) MM_line_count = (MR_count (int (length (splitLines t))), (t, e, v))"
| "mirror_spec (t, e, v) (MM_line i) =
     (MR_line (if 1 \<le> i \<and> i \<le> int (length (splitLines t)) then Some (splitLines t ! nat (i - 1)) else None), (t, e, v))"
| "mirror_spec (t, e, v) (MM_offset p) = (MR_offset (Some (text_offset e t (clamp_position t p))), (t, e, v))"
| "mirror_spec (t, e, v) (MM_position x) = (MR_position (Some (position_in e (splitLines t) (max 0 x))), (t, e, v))"
| "mirror_spec (t, e, v) (MM_value r) =
     (MR_text (sub t (text_offset e t (clamp_position t (range_start r))) (text_offset e t (clamp_position t (range_end r)))), (t, e, v))"

fun mirror_legal :: "mirror_text \<Rightarrow> mirror_op \<Rightarrow> bool" where
  "mirror_legal s (MM_event ev) = legal_event s ev"
| "mirror_legal (t, e, v) (MM_value r) = (clamp_position t (range_start r) \<le> clamp_position t (range_end r))"
| "mirror_legal s p = True"

definition mirror_inv :: "MirrorTextModel \<Rightarrow> bool" where
  "mirror_inv m \<longleftrightarrow> proper (mm_lines m) \<and> is_eol (mm_eol m) \<and> small (mm_eol m) (js_join (mm_eol m) (mm_lines m)) \<and>
     starts_fit m \<and> (\<forall>t. mm_cachedTextValue m = Some t \<longrightarrow> t = js_join (mm_eol m) (mm_lines m))"

definition mirror_contents :: "MirrorTextModel \<Rightarrow> mirror_text" where
  "mirror_contents m = (js_join (mm_eol m) (mm_lines m), mm_eol m, mm_versionId m)"

subsection \<open>Events\<close>

lemma range_places:
  assumes "place ls (range_start r) k j" and "place ls (range_end r) k' j'" and "range_start r \<le> range_end r"
  shows "places ls r k j k' j'"
  using assms by (auto simp: place_def places_def range_start_def range_end_def Position_le_iff)

lemma text_change_join:
  assumes e: "is_eol e" and ls: "proper ls" and c: "legal_change e (js_join e ls) c"
  shows "\<exists>k j k' j' new. places ls (cc_range c) k j k' j' \<and>
    new = glue (before ls k j) (glue (splitLines (cc_text c)) (after ls k' j')) \<and> proper new \<and>
    js_join e new = text_change e (js_join e ls) c"
proof -
  let ?t = "js_join e ls" and ?start = "range_start (cc_range c)" and ?stop = "range_end (cc_range c)"
  have split: "splitLines ?t = ls" by (rule splitLines_join [OF e ls])
  from c have c': "clamp_position ?t ?start = ?start" "clamp_position ?t ?stop = ?stop" "?start \<le> ?stop"
    "cc_rangeOffset c = text_offset e ?t ?start" "cc_rangeLength c = text_offset e ?t ?stop - text_offset e ?t ?start"
    by (simp_all add: legal_change_def Let_def)
  from clamp_place [of ?t ?start] c'(1) obtain k j where p: "place (splitLines ?t) ?start k j" by auto
  from clamp_place [of ?t ?stop] c'(2) obtain k' j' where q: "place (splitLines ?t) ?stop k' j'" by auto
  from range_places [OF p q c'(3)] have r: "places ls (cc_range c) k j k' j'" by (simp add: split)
  then have k: "k < length ls" "k' < length ls" by (auto simp: places_def)
  let ?new = "glue (before ls k j) (glue (splitLines (cc_text c)) (after ls k' j'))"
  have "js_join e ?new = js_join e (before ls k j) @ js_join e (splitLines (cc_text c)) @ js_join e (after ls k' j')"
    by (simp add: js_join_glue)
  also have "js_join e (before ls k j) = take (nat (cc_rangeOffset c)) ?t"
    using join_cut(1) [OF k(1)] place_offset [OF p] c'(4) by (simp add: split)
  also have "js_join e (after ls k' j') = drop (nat (cc_rangeOffset c + cc_rangeLength c)) ?t"
    using join_cut(2) [OF k(2)] place_offset [OF q] c'(4,5) by (simp add: split)
  finally have "js_join e ?new = text_change e ?t c" by (simp add: text_change_def)
  moreover have "proper ?new" by (intro proper_glue proper_cut [OF ls] k proper_splitLines)
  ultimately show ?thesis using r by blast
qed

lemma changes_spec:
  assumes "is_eol (mm_eol m)" and "proper (mm_lines m)" and "starts_fit m"
    and "small (mm_eol m) (js_join (mm_eol m) (mm_lines m))"
    and "legal_changes (mm_eol m) (js_join (mm_eol m) (mm_lines m)) cs"
  shows "\<exists>m'. foldE accept_change m cs = Inr m' \<and> proper (mm_lines m') \<and> mm_eol m' = mm_eol m \<and> starts_fit m' \<and>
    small (mm_eol m) (js_join (mm_eol m) (mm_lines m')) \<and>
    js_join (mm_eol m) (mm_lines m') = foldl (text_change (mm_eol m)) (js_join (mm_eol m) (mm_lines m)) cs"
  using assms
proof (induction cs arbitrary: m)
  case (Cons c cs)
  let ?e = "mm_eol m"
  from Cons.prems(5) have c: "legal_change ?e (js_join ?e (mm_lines m)) c" by simp
  from text_change_join [OF Cons.prems(1,2) c] obtain k j k' j' new where
    new: "places (mm_lines m) (cc_range c) k j k' j'"
      "new = glue (before (mm_lines m) k j) (glue (splitLines (cc_text c)) (after (mm_lines m) k' j'))"
      "proper new" "js_join ?e new = text_change ?e (js_join ?e (mm_lines m)) c" by blast
  from c have small: "small ?e (js_join ?e new)" by (simp add: new(4) legal_change_def Let_def)
  from accept_change_spec [OF Cons.prems(3) is_eol_not_Nil [OF Cons.prems(1)] Cons.prems(4) new(1,2) small]
  obtain m1 where m1: "accept_change m c = Inr m1" "becomes m new m1" by blast
  then have m1': "mm_lines m1 = new" "mm_eol m1 = ?e" "starts_fit m1" by (simp_all add: becomes_def)
  have "\<exists>m'. foldE accept_change m1 cs = Inr m' \<and> proper (mm_lines m') \<and> mm_eol m' = mm_eol m1 \<and> starts_fit m' \<and>
    small (mm_eol m1) (js_join (mm_eol m1) (mm_lines m')) \<and>
    js_join (mm_eol m1) (mm_lines m') = foldl (text_change (mm_eol m1)) (js_join (mm_eol m1) (mm_lines m1)) cs"
    by (rule Cons.IH) (use Cons.prems new small in \<open>simp_all add: m1'\<close>)
  with m1 show ?case by (simp add: m1' new(4))
qed simp

lemma onEvents_spec:
  assumes "mirror_inv m" and "legal_event (mirror_contents m) ev"
  shows "\<exists>m'. MirrorTextModel_onEvents ev m = Inr m' \<and> mirror_inv m' \<and> mirror_contents m' = text_event (mirror_contents m) ev"
proof -
  let ?e = "event_eol (mm_eol m) ev"
  define m0 where "m0 = (if ce_eol ev \<noteq> [] \<and> ce_eol ev \<noteq> mm_eol m then m\<lparr>mm_eol := ce_eol ev, mm_lineStarts := None\<rparr> else m)"
  have m0: "mm_eol m0 = ?e" "mm_lines m0 = mm_lines m" "starts_fit m0"
    using assms(1) by (auto simp: m0_def event_eol_def mirror_inv_def)
  have split: "splitLines (js_join (mm_eol m) (mm_lines m)) = mm_lines m"
    using assms(1) by (simp add: mirror_inv_def splitLines_join)
  from assms(2) have ev: "is_eol ?e" "small ?e (js_join ?e (mm_lines m))" "legal_changes ?e (js_join ?e (mm_lines m)) (ce_changes ev)"
    by (simp_all add: mirror_contents_def Let_def split)
  have "proper (mm_lines m0)" using assms(1) by (simp add: m0 mirror_inv_def)
  from changes_spec [of m0 "ce_changes ev", unfolded m0(1,2)] ev this m0(3) obtain m1
    where m1: "foldE accept_change m0 (ce_changes ev) = Inr m1" "proper (mm_lines m1)" "mm_eol m1 = ?e" "starts_fit m1"
      "small ?e (js_join ?e (mm_lines m1))"
      "js_join ?e (mm_lines m1) = foldl (text_change ?e) (js_join ?e (mm_lines m)) (ce_changes ev)"
    by (auto simp: m0)
  let ?m = "m1\<lparr>mm_versionId := ce_versionId ev, mm_cachedTextValue := None\<rparr>"
  have "MirrorTextModel_onEvents ev m = Inr ?m" using m1(1) by (simp add: MirrorTextModel_onEvents_def m0_def [symmetric])
  moreover have "mirror_inv ?m" using m1 ev(1) by (simp add: mirror_inv_def starts_fit_def)
  moreover have "mirror_contents ?m = text_event (mirror_contents m) ev"
    using m1 by (simp add: mirror_contents_def Let_def split)
  ultimately show ?thesis by blast
qed

subsection \<open>Queries\<close>

text \<open>The model with other line starts that fit is the same text.\<close>

lemma mirror_inv_lines:
  assumes "mirror_inv m"
  shows "splitLines (js_join (mm_eol m) (mm_lines m)) = mm_lines m" and "mm_lines m \<noteq> []"
    and "int (length (mm_lines m)) < 2 ^ 31" and "l \<in> set (mm_lines m) \<Longrightarrow> line_size (mm_eol m) l < 2 ^ 31"
  using assms small_lines [of "mm_eol m" "mm_lines m"] is_eol_not_Nil
  by (auto simp: mirror_inv_def splitLines_join proper_def)

lemma line_values:
  assumes "mirror_inv m" and "psc_values s = map (line_start_value (mm_eol m)) (mm_lines m)"
  shows "psc_vals s = map (line_size (mm_eol m)) (mm_lines m)" and "psc_ok (psc_vals s)"
proof -
  have "uint (line_start_value (mm_eol m) l) = line_size (mm_eol m) l" if "l \<in> set (mm_lines m)" for l
    using mirror_inv_lines(4) [OF assms(1) that] line_size_nonneg [of "mm_eol m" l]
    unfolding line_start_value_def line_size_def by (intro uint_word_of_int32) simp_all
  then show vals: "psc_vals s = map (line_size (mm_eol m)) (mm_lines m)" by (simp add: psc_vals_def assms(2))
  show "psc_ok (psc_vals s)"
    using join_size [OF mirror_inv_lines(2) [OF assms(1)], of "mm_eol m"] mirror_inv_lines(3) [OF assms(1)] assms(1)
    by (auto simp: psc_ok_def nonneg_def vals mirror_inv_def small_def)
qed

lemma ensureLineStarts_spec:
  assumes "mirror_inv m"
  shows "\<exists>s. ensureLineStarts m = m\<lparr>mm_lineStarts := Some s\<rparr> \<and> psc_inv s \<and>
    psc_values s = map (line_start_value (mm_eol m)) (mm_lines m)"
proof (cases "mm_lineStarts m")
  case None
  let ?s = "PrefixSumComputer_new (map (line_start_value (mm_eol m)) (mm_lines m))"
  have "psc_values ?s = map (line_start_value (mm_eol m)) (mm_lines m)" by (simp add: PrefixSumComputer_new_def)
  with None psc_new_inv show ?thesis unfolding ensureLineStarts_def by (intro exI [of _ ?s]) simp
next
  case (Some s)
  moreover have "m\<lparr>mm_lineStarts := Some s\<rparr> = m" using Some by (cases m) simp
  ultimately show ?thesis using assms by (intro exI [of _ s]) (auto simp: ensureLineStarts_def mirror_inv_def starts_fit_def)
qed

lemma mirror_starts:
  assumes "mirror_inv m" and "psc_inv s" and "psc_values s = map (line_start_value (mm_eol m)) (mm_lines m)"
  shows "mirror_inv (m\<lparr>mm_lineStarts := Some s\<rparr>)" and "mirror_contents (m\<lparr>mm_lineStarts := Some s\<rparr>) = mirror_contents m"
  using assms by (simp_all add: mirror_inv_def starts_fit_def mirror_contents_def)

lemma validatePosition_spec:
  assumes "mirror_inv m"
  shows "validatePosition p m = Inr (clamp_position (js_join (mm_eol m) (mm_lines m)) p)"
proof -
  note inv = mirror_inv_lines(1,2) [OF assms]
  let ?L = "mm_lines m"
  have at: "line_at ?L i = Inr (?L ! nat i)" if "0 \<le> i" "i < int (length ?L)" for i
    using that by (simp add: line_at_def)
  have last: "line_at ?L (int (length ?L) - 1) = Inr (last ?L)"
    using inv(2) by (cases "length ?L") (simp_all add: at last_conv_nth)
  consider "p_line p < 1" | "p_line p > int (length ?L)" | "1 \<le> p_line p" "p_line p \<le> int (length ?L)" by linarith
  then show ?thesis
  proof cases
    case 2
    then show ?thesis by (simp add: validatePosition_def clamp_position_def Let_def inv last)
  next
    case 3
    let ?max = "int (length (?L ! nat (p_line p - 1))) + 1"
    have "line_at ?L (p_line p - 1) = Inr (?L ! nat (p_line p - 1))" using 3 by (simp add: at)
    moreover have "p = \<lparr>p_line = p_line p, p_col = p_col p\<rparr>" by (cases p) simp
    moreover consider "p_col p < 1" | "p_col p > ?max" | "1 \<le> p_col p" "p_col p \<le> ?max" by linarith
    ultimately show ?thesis using 3
      by cases (simp_all add: validatePosition_def clamp_position_def Let_def inv min_def max_def)
  qed (simp add: validatePosition_def clamp_position_def Let_def inv)
qed

lemma text_offset_pre: "text_offset e t p = pre (map (line_size e) (splitLines t)) (p_line p - 1) + p_col p - 1"
  by (simp add: text_offset_def pre_def take_map)

lemma prefix_sum_spec:
  assumes "psc_inv s" and "psc_ok (psc_vals s)" and "0 \<le> k" "k \<le> int (length (psc_values s))"
  shows "\<exists>s'. PrefixSumComputer_getPrefixSum s (k - 1) = (Some (pre (psc_vals s) k), s') \<and> psc_inv s' \<and> psc_values s' = psc_values s"
proof (cases "k = 0")
  case True
  with assms(1) show ?thesis by (simp add: PrefixSumComputer_getPrefixSum_def)
next
  case False
  with assms have "toUint32 (k - 1) = k - 1" "0 \<le> k - 1" "k - 1 < int (length (psc_values s))"
    by (simp_all add: toUint32_id psc_ok_def)
  with psc_getPrefixSum'_spec [OF assms(1,2), of "k - 1"] show ?thesis
    by (auto simp: PrefixSumComputer_getPrefixSum_def)
qed

lemma offsetAt_spec:
  assumes m: "mirror_inv m"
  defines "t \<equiv> js_join (mm_eol m) (mm_lines m)"
  shows "\<exists>m'. MirrorModel_offsetAt p m = Inr (Some (text_offset (mm_eol m) t (clamp_position t p)), m') \<and>
    mirror_inv m' \<and> mirror_contents m' = mirror_contents m"
proof -
  let ?p = "clamp_position t p"
  from ensureLineStarts_spec [OF m] obtain s where s: "ensureLineStarts m = m\<lparr>mm_lineStarts := Some s\<rparr>" "psc_inv s"
    "psc_values s = map (line_start_value (mm_eol m)) (mm_lines m)" by blast
  note vals = line_values [OF m s(3)]
  have split: "splitLines t = mm_lines m" using mirror_inv_lines(1) [OF m] by (simp add: t_def)
  from clamp_place [of t p] obtain k j where "place (splitLines t) ?p k j" by blast
  then have "0 \<le> p_line ?p - 1" "p_line ?p - 1 \<le> int (length (psc_values s))" by (simp_all add: place_def split s(3))
  from prefix_sum_spec [OF s(2) vals(2) this] obtain s' where s':
    "PrefixSumComputer_getPrefixSum s (p_line ?p - 2) = (Some (pre (psc_vals s) (p_line ?p - 1)), s')" "psc_inv s'"
    "psc_values s' = psc_values s" by (auto simp: algebra_simps)
  have "MirrorModel_offsetAt p m = Inr (Some (text_offset (mm_eol m) t ?p), m\<lparr>mm_lineStarts := Some s'\<rparr>)"
    by (simp add: MirrorModel_offsetAt_def validatePosition_spec [OF m] t_def [symmetric] Let_def s(1) s'(1) js_plus_def
      text_offset_pre split vals(1))
  with mirror_starts [OF m s'(2)] s(3) s'(3) show ?thesis by simp
qed

lemma positionAt_spec:
  assumes m: "mirror_inv m"
  shows "\<exists>m'. MirrorModel_positionAt x m = Inr (Some (position_in (mm_eol m) (mm_lines m) (max 0 x)), m') \<and>
    mirror_inv m' \<and> mirror_contents m' = mirror_contents m"
proof -
  from ensureLineStarts_spec [OF m] obtain s where s: "ensureLineStarts m = m\<lparr>mm_lineStarts := Some s\<rparr>" "psc_inv s"
    "psc_values s = map (line_start_value (mm_eol m)) (mm_lines m)" by blast
  note vals = line_values [OF m s(3)]
  define y where "y = max 0 x"
  then have y: "0 \<le> y" by simp
  obtain i r where i: "index_of (map (line_size (mm_eol m)) (mm_lines m)) y = (i, r)" by fastforce
  from psc_getIndexOf_spec [OF s(2) vals(2) y, unfolded vals(1) i] obtain s' where s':
    "PrefixSumComputer_getIndexOf s y = ((i, Some r), s')" "psc_inv s'" "psc_values s' = psc_values s" by auto
  note ne = mirror_inv_lines(2) [OF m]
  have "nonneg (map (line_size (mm_eol m)) (mm_lines m))" by (simp add: nonneg_def)
  from index_of_bounds [OF this y] ne i have "0 \<le> i" "i < int (length (mm_lines m))" by auto
  then have "line_at (mm_lines m) i = Inr (mm_lines m ! nat i)" by (simp add: line_at_def)
  moreover have "position_in (mm_eol m) (mm_lines m) y = \<lparr>p_line = 1 + i, p_col = 1 + min r (int (length (mm_lines m ! nat i)))\<rparr>"
    using position_in_index [OF ne y, of "mm_eol m"] by (simp add: i)
  ultimately have "MirrorModel_positionAt x m = Inr (Some (position_in (mm_eol m) (mm_lines m) y), m\<lparr>mm_lineStarts := Some s'\<rparr>)"
    by (simp add: MirrorModel_positionAt_def Let_def s(1) s'(1) flip: y_def)
  with mirror_starts [OF m s'(2)] s(3) s'(3) show ?thesis unfolding y_def by simp
qed

lemma validateRange_spec:
  assumes "mirror_inv m"
  shows "\<exists>r'. validateRange r m = Inr r' \<and>
    range_start r' = clamp_position (js_join (mm_eol m) (mm_lines m)) (range_start r) \<and>
    range_end r' = clamp_position (js_join (mm_eol m) (mm_lines m)) (range_end r)"
  unfolding validateRange_def validatePosition_spec [OF assms] bindE_simps range_start_def [symmetric] range_end_def [symmetric]
  by (auto simp: range_start_def range_end_def intro: Position.equality)

lemma getValueInRange_spec:
  assumes m: "mirror_inv m"
  defines "t \<equiv> js_join (mm_eol m) (mm_lines m)"
  assumes le: "clamp_position t (range_start r) \<le> clamp_position t (range_end r)"
  shows "MirrorModel_getValueInRange r m = Inr (sub t (text_offset (mm_eol m) t (clamp_position t (range_start r)))
    (text_offset (mm_eol m) t (clamp_position t (range_end r))))"
proof -
  let ?e = "mm_eol m" and ?L = "mm_lines m"
  have split: "splitLines t = ?L" using mirror_inv_lines(1) [OF m] by (simp add: t_def)
  from validateRange_spec [OF m, of r] obtain r' where r': "validateRange r m = Inr r'"
    "range_start r' = clamp_position t (range_start r)" "range_end r' = clamp_position t (range_end r)"
    unfolding t_def by blast
  from clamp_place [of t "range_start r"] obtain k j where p: "place ?L (range_start r') k j" unfolding r' split by blast
  from clamp_place [of t "range_end r"] obtain k' j' where q: "place ?L (range_end r') k' j'" unfolding r' split by blast
  have "places ?L r' k j k' j'" by (rule range_places [OF p q]) (simp add: r' le)
  then have b: "k \<le> k'" "k' < length ?L" "k = k' \<Longrightarrow> j \<le> j'" "j \<le> length (?L ! k)" "j' \<le> length (?L ! k')"
    and ends: "r_startLine r' = int k + 1" "r_startCol r' = int j + 1" "r_endLine r' = int k' + 1" "r_endCol r' = int j' + 1"
    by (simp_all add: places_def)
  have middle: "map (\<lambda>i. ?L ! nat i) [int k + 1 .. int k' - 1] = take (k' - Suc k) (drop (Suc k) ?L)" if "k < k'"
    using that b(2) by (intro nth_equalityI) (auto simp: nat_add_distrib)
  have "MirrorModel_getValueInRange r m = Inr (js_join ?e (between ?L k j k' j'))"
  proof (cases "k = k'")
    case True
    then have "js_substring (?L ! k) (int j) (int j') = take (j' - j) (drop j (?L ! k))"
      using b by (simp add: js_substring_sub sub_def nat_diff_distrib')
    with True b(2) show ?thesis by (simp add: MirrorModel_getValueInRange_def r'(1) ends line_at_in between_def)
  next
    case False
    with b(1) have "k < k'" by simp
    with b(2) show ?thesis
      by (simp add: MirrorModel_getValueInRange_def r'(1) ends line_at_in between_def middle js_substring_upto [OF b(5)]
        js_substring_from_drop [OF b(4)])
  qed
  moreover have "js_join ?e (between ?L k j k' j') = sub t (text_offset ?e t (range_start r')) (text_offset ?e t (range_end r'))"
  proof -
    have "js_join ?e (before ?L k' j') = take (length (js_join ?e (before ?L k' j'))) t"
      using join_cut(1) [OF b(2)] by (simp add: t_def)
    then have "js_join ?e (between ?L k j k' j') =
        drop (length (js_join ?e (before ?L k j))) (take (length (js_join ?e (before ?L k' j'))) t)"
      using join_between [OF b(1-3), of ?e] by (metis append_eq_conv_conj)
    with p q show ?thesis by (simp add: place_offset split sub_def drop_take nat_diff_distrib')
  qed
  ultimately show ?thesis by (simp add: r')
qed

lemma MirrorModel_step_refines:
  assumes m: "mirror_inv m" and legal: "mirror_legal (mirror_contents m) a"
  shows "\<exists>m'. MirrorModel_step m a = Inr (fst (mirror_spec (mirror_contents m) a), m') \<and> mirror_inv m' \<and>
    mirror_contents m' = snd (mirror_spec (mirror_contents m) a)"
proof (cases a)
  case (MM_event ev)
  with onEvents_spec [OF m, of ev] legal show ?thesis by (cases "mirror_contents m") auto
next
  case MM_text
  let ?t = "js_join (mm_eol m) (mm_lines m)"
  have "MirrorTextModel_getText m = (?t, m\<lparr>mm_cachedTextValue := Some ?t\<rparr>)"
    using m by (cases m) (auto simp: MirrorTextModel_getText_def mirror_inv_def Let_def split: option.split)
  with MM_text m show ?thesis by (simp add: mirror_inv_def mirror_contents_def starts_fit_def)
next
  case MM_line_count
  with m mirror_inv_lines(1) [OF m] show ?thesis by (simp add: MirrorModel_getLineCount_def mirror_contents_def)
next
  case (MM_line i)
  with m mirror_inv_lines(1) [OF m] show ?thesis by (simp add: MirrorModel_getLineContent_def mirror_contents_def)
next
  case (MM_offset p)
  with offsetAt_spec [OF m, of p] show ?thesis by (auto simp: mirror_contents_def)
next
  case (MM_position x)
  with positionAt_spec [OF m, of x] mirror_inv_lines(1) [OF m] show ?thesis by (auto simp: mirror_contents_def)
next
  case (MM_value r)
  with getValueInRange_spec [OF m, of r] legal m show ?thesis by (simp add: mirror_contents_def)
qed

interpretation mirror_model: object_refinement MirrorModel_step mirror_inv mirror_contents mirror_spec mirror_legal
  by unfold_locales (rule MirrorModel_step_refines)

lemma MirrorTextModel_new_inv:
  assumes "is_eol e" and "small e (js_join e (splitLines t))"
  shows "mirror_inv (MirrorTextModel_new (splitLines t) e v)"
    and "mirror_contents (MirrorTextModel_new (splitLines t) e v) = (js_join e (splitLines t), e, v)"
  using assms proper_splitLines by (simp_all add: MirrorTextModel_new_def mirror_inv_def mirror_contents_def)

subsection \<open>Positions and offsets\<close>

lemma position_in_offset:
  assumes p: "place ls p k j" and e: "e \<noteq> []"
  shows "position_in e ls (pre (map (line_size e) ls) (p_line p - 1) + p_col p - 1) = p"
proof -
  let ?vs = "map (line_size e) ls"
  note p = p [unfolded place_def]
  have nonneg: "nonneg ?vs" by (simp add: nonneg_def)
  have "pre ?vs (int k + 1) = pre ?vs (int k) + line_size e (ls ! k)" using p by (simp add: pre_Suc)
  moreover have "int j < line_size e (ls ! k)" using p e by (cases e) (simp_all add: line_size_def)
  ultimately have i: "index_of ?vs (pre ?vs (int k) + int j) = (int k, int j)"
    using index_of_unique [OF nonneg, of "int k" "pre ?vs (int k) + int j"] p by simp
  have "ls \<noteq> []" "0 \<le> pre ?vs (int k) + int j" using p pre_nonneg [OF nonneg] by auto
  from position_in_index [OF this, of e] p show ?thesis by (simp add: i add_diff_eq [symmetric])
qed

lemma offset_position_in:
  assumes ls: "ls \<noteq> []" and e: "e \<noteq> []" and x: "0 \<le> x" "x \<le> int (length (js_join e ls))"
  defines "p \<equiv> position_in e ls x"
  shows "\<exists>k j. place ls p k j \<and> pre (map (line_size e) ls) (p_line p - 1) + p_col p - 1 \<le> x \<and>
    x - (pre (map (line_size e) ls) (p_line p - 1) + p_col p - 1) < int (length e)"
proof -
  let ?vs = "map (line_size e) ls"
  have "nonneg ?vs" by (simp add: nonneg_def)
  from index_of_bounds [OF this x(1)] ls obtain i where i: "index_of ?vs x = (i, x - pre ?vs i)" "0 \<le> i" "i < int (length ls)"
    "pre ?vs i \<le> x" "x < pre ?vs (i + 1) \<or> i + 1 = int (length ls)" by auto
  let ?l = "ls ! nat i" and ?r = "x - pre ?vs i"
  have p: "p = \<lparr>p_line = 1 + i, p_col = 1 + min ?r (int (length ?l))\<rparr>"
    using position_in_index [OF ls x(1), of e] by (simp add: p_def i(1))
  have step: "pre ?vs (i + 1) = pre ?vs i + line_size e ?l" using i(2,3) by (simp add: pre_Suc)
  have "?r < int (length ?l) + int (length e)"
  proof (cases "x < pre ?vs (i + 1)")
    case True
    with step show ?thesis by (simp add: line_size_def)
  next
    case False
    with i(5) have "pre ?vs (i + 1) = int (length (js_join e ls)) + int (length e)" by (simp add: pre_all join_size ls)
    with step x(2) e show ?thesis by (cases e) (simp_all add: line_size_def)
  qed
  moreover have "place ls p (nat i) (nat (min ?r (int (length ?l))))"
    using i(2-4) by (auto simp: place_def p nat_less_iff)
  moreover have "0 < length e" using e by simp
  ultimately have "place ls p (nat i) (nat (min ?r (int (length ?l)))) \<and> pre ?vs (p_line p - 1) + p_col p - 1 \<le> x \<and>
      x - (pre ?vs (p_line p - 1) + p_col p - 1) < int (length e)"
    by (simp add: p min_def)
  then show ?thesis by blast
qed

subsection \<open>The properties\<close>

text \<open>
  C15. A mirror model made of the lines of a text answers any sequence of events and queries like the
  plain text, and no call throws: an event replaces for each of its changes the given number of units at its
  offset by the new text with the line terminators of the model, after a change of the terminator in the whole text.
  Hypotheses: terminators are \<open>\n\<close> or \<open>\r\n\<close>, the range of a change lies in the text and agrees with its
  offset and length, the end of a range whose value is asked for is not before its start once both are moved into the text, and
  texts stay below \<open>2 ^ 31\<close> units.
\<close>

theorem MirrorModel_refines:
  assumes "is_eol e" and "small e (js_join e (splitLines t))"
    and "legal_run mirror_legal mirror_spec (js_join e (splitLines t), e, v) ops"
  shows "\<exists>m. run_object MirrorModel_step (MirrorTextModel_new (splitLines t) e v) ops =
      Inr (fst (run_spec mirror_spec (js_join e (splitLines t), e, v) ops), m) \<and>
    (js_join (mm_eol m) (mm_lines m), mm_eol m, mm_versionId m) = snd (run_spec mirror_spec (js_join e (splitLines t), e, v) ops)"
  using mirror_model.run_refines [OF MirrorTextModel_new_inv(1) [OF assms(1,2), of v], of ops] assms(3)
  unfolding MirrorTextModel_new_inv(2) [OF assms(1,2)] by (auto simp: mirror_contents_def)

definition example_event :: IModelChangedEvent where
  "example_event =
     \<lparr>ce_changes = [\<lparr>cc_range = \<lparr>r_startLine = 1, r_startCol = 2, r_endLine = 2, r_endCol = 1\<rparr>, cc_rangeOffset = 1,
          cc_rangeLength = 2, cc_text = [65, LF, 66, LF]\<rparr>],
        ce_eol = [CR, LF], ce_versionId = 2, ce_isUndoing = False, ce_isRedoing = False\<rparr>"

definition example_ops :: "mirror_op list" where
  "example_ops = [MM_offset \<lparr>p_line = 2, p_col = 2\<rparr>, MM_event example_event, MM_position 6, MM_text,
     MM_value \<lparr>r_startLine = 0, r_startCol = 5, r_endLine = 2, r_endCol = 9\<rparr>]"

lemma MirrorModel_refines_witness:
  "\<exists>m. run_object MirrorModel_step (MirrorTextModel_new (splitLines [97, LF, 98]) [LF] 1) example_ops =
      Inr ([MR_offset (Some 3), MR_done, MR_position (Some \<lparr>p_line = 2, p_col = 2\<rparr>),
        MR_text [97, 65, CR, LF, 66, CR, LF, 98], MR_text [97, 65, CR, LF, 66]], m)"
proof -
  have "is_eol [LF]" "small [LF] (js_join [LF] (splitLines [97, LF, 98]))"
    "legal_run mirror_legal mirror_spec (js_join [LF] (splitLines [97, LF, 98]), [LF], 1) example_ops"
    "fst (run_spec mirror_spec (js_join [LF] (splitLines [97, LF, 98]), [LF], 1) example_ops) =
      [MR_offset (Some 3), MR_done, MR_position (Some \<lparr>p_line = 2, p_col = 2\<rparr>),
        MR_text [97, 65, CR, LF, 66, CR, LF, 98], MR_text [97, 65, CR, LF, 66]]"
    by code_simp+
  with MirrorModel_refines [of "[LF]" "[97, LF, 98]" 1 example_ops] show ?thesis by auto
qed

text \<open>
  In every mirror model the offset of a position of the text leads back to the position, and the
  position of an offset leads back to the offset, or to the end of the line when the offset is inside of a line
  terminator.
\<close>

lemma MirrorModel_positions:
  assumes "mirror_inv m"
  shows "(\<forall>p. clamp_position (js_join (mm_eol m) (mm_lines m)) p = p \<longrightarrow>
      (\<exists>x m1 m2. MirrorModel_offsetAt p m = Inr (Some x, m1) \<and> MirrorModel_positionAt x m1 = Inr (Some p, m2))) \<and>
    (\<forall>x. 0 \<le> x \<and> x \<le> int (length (js_join (mm_eol m) (mm_lines m))) \<longrightarrow>
      (\<exists>p y m1 m2. MirrorModel_positionAt x m = Inr (Some p, m1) \<and> MirrorModel_offsetAt p m1 = Inr (Some y, m2) \<and>
        clamp_position (js_join (mm_eol m) (mm_lines m)) p = p \<and> y \<le> x \<and> x - y < int (length (mm_eol m))))"
proof -
  let ?t = "js_join (mm_eol m) (mm_lines m)"
  note lines = mirror_inv_lines(1,2) [OF assms]
  have e: "mm_eol m \<noteq> []" using assms by (auto simp: mirror_inv_def is_eol_def)
  have same: "mirror_contents m1 = mirror_contents m \<Longrightarrow> mm_eol m1 = mm_eol m \<and> js_join (mm_eol m) (mm_lines m1) = ?t" for m1
    by (auto simp: mirror_contents_def)
  have "\<exists>x m1 m2. MirrorModel_offsetAt p m = Inr (Some x, m1) \<and> MirrorModel_positionAt x m1 = Inr (Some p, m2)"
    if p: "clamp_position ?t p = p" for p
  proof -
    let ?x = "text_offset (mm_eol m) ?t p"
    from offsetAt_spec [OF assms, of p] p obtain m1 where
      m1: "MirrorModel_offsetAt p m = Inr (Some ?x, m1)" "mirror_inv m1" "mirror_contents m1 = mirror_contents m" by auto
    from clamp_place [of ?t p] p lines obtain k j where place: "place (mm_lines m) p k j" by auto
    have "0 \<le> ?x" using place by (auto simp: text_offset_def place_def intro!: add_nonneg_nonneg sum_list_nonneg)
    moreover have "mm_lines m1 = mm_lines m"
      using same [OF m1(3)] lines(1) mirror_inv_lines(1) [OF m1(2)] by simp
    ultimately have "position_in (mm_eol m1) (mm_lines m1) (max 0 ?x) = p"
      using position_in_offset [OF place e] same [OF m1(3)] by (simp add: text_offset_pre lines(1) max_def)
    with positionAt_spec [OF m1(2), of ?x] m1(1) show ?thesis by auto
  qed
  moreover have "\<exists>p y m1 m2. MirrorModel_positionAt x m = Inr (Some p, m1) \<and> MirrorModel_offsetAt p m1 = Inr (Some y, m2) \<and>
      clamp_position ?t p = p \<and> y \<le> x \<and> x - y < int (length (mm_eol m))"
    if x: "0 \<le> x" "x \<le> int (length ?t)" for x
  proof -
    let ?p = "position_in (mm_eol m) (mm_lines m) x"
    from positionAt_spec [OF assms, of x] x obtain m1 where
      m1: "MirrorModel_positionAt x m = Inr (Some ?p, m1)" "mirror_inv m1" "mirror_contents m1 = mirror_contents m" by auto
    from offset_position_in [OF lines(2) e x] obtain k j where p: "place (mm_lines m) ?p k j"
      "text_offset (mm_eol m) ?t ?p \<le> x" "x - text_offset (mm_eol m) ?t ?p < int (length (mm_eol m))"
      by (auto simp: text_offset_pre lines(1))
    from place_valid [of ?t ?p k j] p(1) have "clamp_position ?t ?p = ?p" by (simp add: lines(1))
    moreover from offsetAt_spec [OF m1(2), of ?p] same [OF m1(3)] this obtain m2 where
      "MirrorModel_offsetAt ?p m1 = Inr (Some (text_offset (mm_eol m) ?t ?p), m2)" by auto
    ultimately show ?thesis using m1(1) p(2,3) by blast
  qed
  ultimately show ?thesis by blast
qed

lemma MirrorModel_positions_witness:
  "\<exists>p y m1 m2. MirrorModel_positionAt 2 (MirrorTextModel_new [[97], [98]] [CR, LF] 1) = Inr (Some p, m1) \<and>
     MirrorModel_offsetAt p m1 = Inr (Some y, m2) \<and> y \<le> 2 \<and> 2 - y < 2"
proof -
  let ?m = "MirrorTextModel_new [[97], [98]] [CR, LF] 1"
  have "mirror_inv ?m"
    by (simp add: mirror_inv_def MirrorTextModel_new_def proper_def no_eol_def is_eol_def small_def)
  from MirrorModel_positions [OF this] have "0 \<le> (2::int) \<and> 2 \<le> int (length (js_join (mm_eol ?m) (mm_lines ?m))) \<longrightarrow>
      (\<exists>p y m1 m2. MirrorModel_positionAt 2 ?m = Inr (Some p, m1) \<and> MirrorModel_offsetAt p m1 = Inr (Some y, m2) \<and>
        clamp_position (js_join (mm_eol ?m) (mm_lines ?m)) p = p \<and> y \<le> 2 \<and> 2 - y < int (length (mm_eol ?m)))" by blast
  then show ?thesis by (auto simp: MirrorTextModel_new_def)
qed

end
