(* ===== verification/Linked_Chains.thy ===== *)
theory Linked_Chains
  imports Main
begin

text \<open>
  Doubly linked nodes in a store. A reference is a \<open>nat option\<close>: an address, or \<open>None\<close> for the
  language's \<open>undefined\<close>. \<open>fwd nx xs e\<close>: following \<open>nx\<close> through the addresses \<open>xs\<close> ends in
  \<open>e\<close>; \<open>bwd pv b xs\<close>: following \<open>pv\<close> backwards through them ends in \<open>b\<close>. The linked list and
  the linked map of the source use different ends, so the ends are arguments.
\<close>

fun head_ref :: "'n list \<Rightarrow> 'n option \<Rightarrow> 'n option" where
  "head_ref [] e = e"
| "head_ref (x # xs) e = Some x"

fun last_ref :: "'n option \<Rightarrow> 'n list \<Rightarrow> 'n option" where
  "last_ref b [] = b"
| "last_ref b (x # xs) = last_ref (Some x) xs"

fun fwd :: "('n \<Rightarrow> 'n option) \<Rightarrow> 'n list \<Rightarrow> 'n option \<Rightarrow> bool" where
  "fwd nx [] e = True"
| "fwd nx (x # xs) e = (nx x = head_ref xs e \<and> fwd nx xs e)"

fun bwd :: "('n \<Rightarrow> 'n option) \<Rightarrow> 'n option \<Rightarrow> 'n list \<Rightarrow> bool" where
  "bwd pv b [] = True"
| "bwd pv b (x # xs) = (pv x = b \<and> bwd pv (Some x) xs)"

lemma head_ref_append [simp]: "head_ref (xs @ ys) e = head_ref xs (head_ref ys e)"
  by (cases xs) simp_all

lemma last_ref_append [simp]: "last_ref b (xs @ ys) = last_ref (last_ref b xs) ys"
  by (induction xs arbitrary: b) simp_all

lemma fwd_append [simp]: "fwd nx (xs @ ys) e \<longleftrightarrow> fwd nx xs (head_ref ys e) \<and> fwd nx ys e"
  by (induction xs) simp_all

lemma bwd_append [simp]: "bwd pv b (xs @ ys) \<longleftrightarrow> bwd pv b xs \<and> bwd pv (last_ref b xs) ys"
  by (induction xs arbitrary: b) simp_all

lemma head_ref_Some_iff: "head_ref xs e = Some x \<longleftrightarrow> (xs = [] \<and> e = Some x) \<or> (\<exists>ys. xs = x # ys)"
  by (cases xs) auto

lemma last_ref_Some_iff: "last_ref b xs = Some x \<longleftrightarrow> (xs = [] \<and> b = Some x) \<or> (\<exists>ys. xs = ys @ [x])"
  by (cases xs rule: rev_cases) auto

lemma head_ref_None [simp]: "head_ref xs None = None \<longleftrightarrow> xs = []"
  by (cases xs) simp_all

lemma last_ref_None [simp]: "last_ref None xs = None \<longleftrightarrow> xs = []"
  by (cases xs rule: rev_cases) simp_all

lemma refs_Some [simp]: "\<exists>y. head_ref xs (Some a) = Some y" "\<exists>y. last_ref (Some a) xs = Some y"
  by (cases xs; auto) (cases xs rule: rev_cases; auto)

text \<open>Nodes outside of a chain may change, and the two ends may be redirected.\<close>

lemma fwd_upd [simp]: "x \<notin> set xs \<Longrightarrow> fwd (nx(x := v)) xs e = fwd nx xs e"
  by (induction xs) auto

lemma bwd_upd [simp]: "x \<notin> set xs \<Longrightarrow> bwd (pv(x := v)) b xs = bwd pv b xs"
  by (induction xs arbitrary: b) auto

lemma fwd_cong: "(\<And>x. x \<in> set xs \<Longrightarrow> nx x = nx' x) \<Longrightarrow> fwd nx xs e = fwd nx' xs e"
  by (induction xs) simp_all

lemma bwd_cong: "(\<And>x. x \<in> set xs \<Longrightarrow> pv x = pv' x) \<Longrightarrow> bwd pv b xs = bwd pv' b xs"
  by (induction xs arbitrary: b) simp_all

lemma fwd_redirect [simp]:
  "x \<notin> set xs \<Longrightarrow> fwd nx (xs @ [x]) e \<Longrightarrow> fwd (nx(x := e')) (xs @ [x]) e'"
  by simp

lemma bwd_redirect [simp]:
  "x \<notin> set xs \<Longrightarrow> bwd pv b (x # xs) \<Longrightarrow> bwd (pv(x := b')) b' (x # xs)"
  by simp

lemma head_ref_other [simp]:
  "x \<notin> set xs \<Longrightarrow> e \<noteq> Some x \<Longrightarrow> head_ref xs e \<noteq> Some x"
  "x \<notin> set xs \<Longrightarrow> e \<noteq> Some x \<Longrightarrow> Some x \<noteq> head_ref xs e"
  by (cases xs; auto)+

lemma last_ref_other [simp]:
  "x \<notin> set xs \<Longrightarrow> b \<noteq> Some x \<Longrightarrow> last_ref b xs \<noteq> Some x"
  "x \<notin> set xs \<Longrightarrow> b \<noteq> Some x \<Longrightarrow> Some x \<noteq> last_ref b xs"
  by (cases xs rule: rev_cases; auto)+

lemma nth_list_update_if: "xs[a := x] ! b = (if a = b \<and> a < length xs then x else xs ! b)"
  by (cases "a < length xs") (auto simp: nth_list_update list_update_beyond)

text \<open>The addresses of a chain are found by following \<open>nx\<close>.\<close>

fun walk :: "('n \<Rightarrow> 'n option) \<Rightarrow> nat \<Rightarrow> 'n option \<Rightarrow> 'n list" where
  "walk nx 0 cur = []"
| "walk nx (Suc n) None = []"
| "walk nx (Suc n) (Some x) = x # walk nx n (nx x)"

lemma walk_fwd: "fwd nx xs e \<Longrightarrow> walk nx (length xs) (head_ref xs e) = xs"
  by (induction xs) simp_all

end
