(* ===== verification/Linked_List.thy ===== *)
theory Linked_List
  imports Linked_Chains Object_Refinement
begin

text \<open>
  \<open>base/common/linkedList.ts\<close>. The nodes are in a store, a list indexed by address; address 0 is
  the node \<open>Node.Undefined\<close>, which marks the ends, and whose own links are the language's
  \<open>undefined\<close> (\<open>None\<close>), as it is created before \<open>Node.Undefined\<close> is assigned. Reading or
  writing a field of \<open>undefined\<close> throws a \<open>TypeError\<close>. The functions that \<open>push\<close> and
  \<open>unshift\<close> return are records of what they close over; the theorem is about lists together with
  these functions, which a client may call at any time.
\<close>

subsection \<open>Nodes and lists\<close>

record 'e Node =
  nd_element :: "'e option"
  nd_next :: "nat option"
  nd_prev :: "nat option"

abbreviation Undefined :: "nat option" where
  "Undefined \<equiv> Some 0"

record 'e LinkedList =
  ll_nodes :: "'e Node list"
  ll_first :: "nat option"
  ll_last :: "nat option"
  ll_size :: int

definition LinkedList_new :: "'e LinkedList" where
  "LinkedList_new =
     \<lparr>ll_nodes = [\<lparr>nd_element = None, nd_next = None, nd_prev = None\<rparr>],
      ll_first = Undefined, ll_last = Undefined, ll_size = 0\<rparr>"

definition deref :: "'e LinkedList \<Rightarrow> nat option \<Rightarrow> js_error + nat" where
  "deref this r =
     (case r of Some a \<Rightarrow> if a < length (ll_nodes this) then Inr a else Inl TypeError | None \<Rightarrow> Inl TypeError)"

definition read_next :: "'e LinkedList \<Rightarrow> nat option \<Rightarrow> js_error + nat option" where
  "read_next this r = bindE (deref this r) (\<lambda>a. Inr (nd_next (ll_nodes this ! a)))"

definition read_prev :: "'e LinkedList \<Rightarrow> nat option \<Rightarrow> js_error + nat option" where
  "read_prev this r = bindE (deref this r) (\<lambda>a. Inr (nd_prev (ll_nodes this ! a)))"

definition read_element :: "'e LinkedList \<Rightarrow> nat option \<Rightarrow> js_error + 'e option" where
  "read_element this r = bindE (deref this r) (\<lambda>a. Inr (nd_element (ll_nodes this ! a)))"

definition assign_next :: "nat option \<Rightarrow> nat option \<Rightarrow> 'e LinkedList \<Rightarrow> js_error + 'e LinkedList" where
  "assign_next r v this = bindE (deref this r) (\<lambda>a.
     Inr (this\<lparr>ll_nodes := (ll_nodes this)[a := (ll_nodes this ! a)\<lparr>nd_next := v\<rparr>]\<rparr>))"

definition assign_prev :: "nat option \<Rightarrow> nat option \<Rightarrow> 'e LinkedList \<Rightarrow> js_error + 'e LinkedList" where
  "assign_prev r v this = bindE (deref this r) (\<lambda>a.
     Inr (this\<lparr>ll_nodes := (ll_nodes this)[a := (ll_nodes this ! a)\<lparr>nd_prev := v\<rparr>]\<rparr>))"

subsection \<open>The operations\<close>

definition LinkedList_isEmpty :: "'e LinkedList \<Rightarrow> bool" where
  "LinkedList_isEmpty this \<longleftrightarrow> ll_first this = Undefined"

text \<open>Both this loop and the iterator end only when they meet \<open>Node.Undefined\<close>.\<close>

partial_function (option) clear_loop :: "'e LinkedList \<Rightarrow> nat option \<Rightarrow> (js_error + 'e LinkedList) option" where
  "clear_loop this node =
     (if node = Undefined then Some (Inr this)
      else case bindE (read_next this node) (\<lambda>n.
                bindE (assign_prev node Undefined this) (\<lambda>t.
                bindE (assign_next node Undefined t) (\<lambda>t'. Inr (n, t')))) of
             Inl e \<Rightarrow> Some (Inl e)
           | Inr (n, t') \<Rightarrow> clear_loop t' n)"

definition LinkedList_clear :: "'e LinkedList \<Rightarrow> (js_error + 'e LinkedList) option" where
  "LinkedList_clear this =
     map_option (\<lambda>m. bindE m (\<lambda>t. Inr (t\<lparr>ll_first := Undefined, ll_last := Undefined, ll_size := 0\<rparr>)))
       (clear_loop this (ll_first this))"

definition LinkedList_remove :: "'e LinkedList \<Rightarrow> nat option \<Rightarrow> js_error + 'e LinkedList" where
  "LinkedList_remove this node =
     bindE (read_prev this node) (\<lambda>nodePrev.
     bindE (read_next this node) (\<lambda>nodeNext.
     bindE
       (if nodePrev \<noteq> Undefined \<and> nodeNext \<noteq> Undefined then
          bindE (assign_next nodePrev nodeNext this) (\<lambda>t.
          bindE (read_next t node) (\<lambda>n. assign_prev n nodePrev t))
        else if nodePrev = Undefined \<and> nodeNext = Undefined then
          Inr (this\<lparr>ll_first := Undefined, ll_last := Undefined\<rparr>)
        else if nodeNext = Undefined then
          bindE (read_prev this (ll_last this)) (\<lambda>l. assign_next l Undefined (this\<lparr>ll_last := l\<rparr>))
        else
          bindE (read_next this (ll_first this)) (\<lambda>f. assign_prev f Undefined (this\<lparr>ll_first := f\<rparr>)))
       (\<lambda>t. Inr (t\<lparr>ll_size := ll_size t - 1\<rparr>))))"

text \<open>The function that \<open>push\<close> and \<open>unshift\<close> return closes over its node and a flag.\<close>

record Remover =
  rm_newNode :: nat
  rm_didRemove :: bool

definition Remover_call :: "'e LinkedList \<Rightarrow> Remover \<Rightarrow> js_error + Remover \<times> 'e LinkedList" where
  "Remover_call this r =
     (if \<not> rm_didRemove r then
        bindE (LinkedList_remove this (Some (rm_newNode r))) (\<lambda>t. Inr (r\<lparr>rm_didRemove := True\<rparr>, t))
      else Inr (r, this))"

definition LinkedList_insert :: "'e LinkedList \<Rightarrow> 'e \<Rightarrow> bool \<Rightarrow> js_error + Remover \<times> 'e LinkedList" where
  "LinkedList_insert this element atTheEnd =
     (let newNode = length (ll_nodes this);
          this = this\<lparr>ll_nodes := ll_nodes this @ [\<lparr>nd_element = Some element, nd_next = Undefined, nd_prev = Undefined\<rparr>]\<rparr>
      in bindE
           (if ll_first this = Undefined then Inr (this\<lparr>ll_first := Some newNode, ll_last := Some newNode\<rparr>)
            else if atTheEnd then
              let oldLast = ll_last this
              in bindE (assign_prev (Some newNode) oldLast (this\<lparr>ll_last := Some newNode\<rparr>)) (\<lambda>t.
                   assign_next oldLast (Some newNode) t)
            else
              let oldFirst = ll_first this
              in bindE (assign_next (Some newNode) oldFirst (this\<lparr>ll_first := Some newNode\<rparr>)) (\<lambda>t.
                   assign_prev oldFirst (Some newNode) t))
           (\<lambda>t. Inr (\<lparr>rm_newNode = newNode, rm_didRemove = False\<rparr>, t\<lparr>ll_size := ll_size t + 1\<rparr>)))"

definition LinkedList_unshift :: "'e LinkedList \<Rightarrow> 'e \<Rightarrow> js_error + Remover \<times> 'e LinkedList" where
  "LinkedList_unshift this element = LinkedList_insert this element False"

definition LinkedList_push :: "'e LinkedList \<Rightarrow> 'e \<Rightarrow> js_error + Remover \<times> 'e LinkedList" where
  "LinkedList_push this element = LinkedList_insert this element True"

definition LinkedList_shift :: "'e LinkedList \<Rightarrow> js_error + 'e option \<times> 'e LinkedList" where
  "LinkedList_shift this =
     (if ll_first this = Undefined then Inr (None, this)
      else bindE (read_element this (ll_first this)) (\<lambda>res.
           bindE (LinkedList_remove this (ll_first this)) (\<lambda>t. Inr (res, t))))"

definition LinkedList_pop :: "'e LinkedList \<Rightarrow> js_error + 'e option \<times> 'e LinkedList" where
  "LinkedList_pop this =
     (if ll_last this = Undefined then Inr (None, this)
      else bindE (read_element this (ll_last this)) (\<lambda>res.
           bindE (LinkedList_remove this (ll_last this)) (\<lambda>t. Inr (res, t))))"

definition LinkedList_peek :: "'e LinkedList \<Rightarrow> js_error + 'e option" where
  "LinkedList_peek this =
     (if ll_last this = Undefined then Inr None else read_element this (ll_last this))"

text \<open>\<open>[...list]\<close>: the iterator run to its end.\<close>

partial_function (option) LinkedList_iterate :: "'e LinkedList \<Rightarrow> nat option \<Rightarrow> (js_error + 'e option list) option" where
  "LinkedList_iterate this node =
     (if node = Undefined then Some (Inr [])
      else case bindE (read_element this node) (\<lambda>e. bindE (read_next this node) (\<lambda>n. Inr (e, n))) of
             Inl e \<Rightarrow> Some (Inl e)
           | Inr (e, n) \<Rightarrow>
               Option.bind (LinkedList_iterate this n) (\<lambda>m. Some (bindE m (\<lambda>es. Inr (e # es)))))"

subsection \<open>Lists of nodes\<close>

definition nx :: "'e LinkedList \<Rightarrow> nat \<Rightarrow> nat option" where
  "nx this a = nd_next (ll_nodes this ! a)"

definition pv :: "'e LinkedList \<Rightarrow> nat \<Rightarrow> nat option" where
  "pv this a = nd_prev (ll_nodes this ! a)"

definition elt :: "'e LinkedList \<Rightarrow> nat \<Rightarrow> 'e option" where
  "elt this a = nd_element (ll_nodes this ! a)"

definition ll_chain :: "'e LinkedList \<Rightarrow> nat list \<Rightarrow> bool" where
  "ll_chain this xs \<longleftrightarrow> distinct xs \<and> set xs \<subseteq> {1..<length (ll_nodes this)} \<and> ll_nodes this \<noteq> [] \<and>
     fwd (nx this) xs Undefined \<and> bwd (pv this) Undefined xs \<and>
     ll_first this = head_ref xs Undefined \<and> ll_last this = last_ref Undefined xs \<and>
     ll_size this = int (length xs)"

definition ll_addrs :: "'e LinkedList \<Rightarrow> nat list" where
  "ll_addrs this = walk (nx this) (nat (ll_size this)) (ll_first this)"

lemma ll_addrs_chain: "ll_chain this xs \<Longrightarrow> ll_addrs this = xs"
  by (simp add: ll_chain_def ll_addrs_def walk_fwd)

text \<open>What the assignments do to the links and the elements.\<close>

lemma deref_Some [simp]: "a < length (ll_nodes this) \<Longrightarrow> deref this (Some a) = Inr a"
  by (simp add: deref_def)

lemma read_Some [simp]:
  "a < length (ll_nodes this) \<Longrightarrow> read_next this (Some a) = Inr (nx this a)"
  "a < length (ll_nodes this) \<Longrightarrow> read_prev this (Some a) = Inr (pv this a)"
  "a < length (ll_nodes this) \<Longrightarrow> read_element this (Some a) = Inr (elt this a)"
  by (simp_all add: read_next_def read_prev_def read_element_def nx_def pv_def elt_def)

definition set_next :: "nat \<Rightarrow> nat option \<Rightarrow> 'e LinkedList \<Rightarrow> 'e LinkedList" where
  "set_next a v this = this\<lparr>ll_nodes := (ll_nodes this)[a := (ll_nodes this ! a)\<lparr>nd_next := v\<rparr>]\<rparr>"

definition set_prev :: "nat \<Rightarrow> nat option \<Rightarrow> 'e LinkedList \<Rightarrow> 'e LinkedList" where
  "set_prev a v this = this\<lparr>ll_nodes := (ll_nodes this)[a := (ll_nodes this ! a)\<lparr>nd_prev := v\<rparr>]\<rparr>"

lemma assign_Some [simp]:
  "a < length (ll_nodes this) \<Longrightarrow> assign_next (Some a) v this = Inr (set_next a v this)"
  "a < length (ll_nodes this) \<Longrightarrow> assign_prev (Some a) v this = Inr (set_prev a v this)"
  by (simp_all add: assign_next_def assign_prev_def set_next_def set_prev_def)

lemma nth_set:
  "nd_next (xs[a := (xs ! a)\<lparr>nd_prev := v\<rparr>] ! b) = nd_next (xs ! b)"
  "nd_prev (xs[a := (xs ! a)\<lparr>nd_next := v\<rparr>] ! b) = nd_prev (xs ! b)"
  "nd_element (xs[a := (xs ! a)\<lparr>nd_next := v\<rparr>] ! b) = nd_element (xs ! b)"
  "nd_element (xs[a := (xs ! a)\<lparr>nd_prev := v\<rparr>] ! b) = nd_element (xs ! b)"
  by (simp_all add: nth_list_update_if)

lemma set_sel [simp]:
  "length (ll_nodes (set_next a v this)) = length (ll_nodes this)"
  "length (ll_nodes (set_prev a v this)) = length (ll_nodes this)"
  "ll_first (set_next a v this) = ll_first this" "ll_first (set_prev a v this) = ll_first this"
  "ll_last (set_next a v this) = ll_last this" "ll_last (set_prev a v this) = ll_last this"
  "ll_size (set_next a v this) = ll_size this" "ll_size (set_prev a v this) = ll_size this"
  by (simp_all add: set_next_def set_prev_def)

lemma set_links [simp]:
  "a < length (ll_nodes this) \<Longrightarrow> nx (set_next a v this) = (nx this)(a := v)"
  "a < length (ll_nodes this) \<Longrightarrow> pv (set_prev a v this) = (pv this)(a := v)"
  "pv (set_next a v this) = pv this" "nx (set_prev a v this) = nx this"
  "elt (set_next a v this) = elt this" "elt (set_prev a v this) = elt this"
  by (auto simp: set_next_def set_prev_def nx_def pv_def elt_def fun_eq_iff nth_list_update nth_set)

lemma ends_links [simp]:
  "nx (this\<lparr>ll_first := r\<rparr>) = nx this" "nx (this\<lparr>ll_last := r\<rparr>) = nx this" "nx (this\<lparr>ll_size := n\<rparr>) = nx this"
  "pv (this\<lparr>ll_first := r\<rparr>) = pv this" "pv (this\<lparr>ll_last := r\<rparr>) = pv this" "pv (this\<lparr>ll_size := n\<rparr>) = pv this"
  "elt (this\<lparr>ll_first := r\<rparr>) = elt this" "elt (this\<lparr>ll_last := r\<rparr>) = elt this" "elt (this\<lparr>ll_size := n\<rparr>) = elt this"
  by (simp_all add: nx_def pv_def elt_def fun_eq_iff)

lemma nodes_set_Nil [simp]:
  "ll_nodes (set_next a v this) = [] \<longleftrightarrow> ll_nodes this = []" "ll_nodes (set_prev a v this) = [] \<longleftrightarrow> ll_nodes this = []"
  by (simp_all add: set_next_def set_prev_def)

text \<open>A node taken out of the middle, and its neighbours.\<close>

lemma LinkedList_remove_chain:
  assumes "ll_chain this (A @ x # B)"
  shows "\<exists>t. LinkedList_remove this (Some x) = Inr t \<and> ll_chain t (A @ B) \<and>
    length (ll_nodes t) = length (ll_nodes this) \<and> elt t = elt this"
proof (cases A rule: rev_cases)
  case Nil
  show ?thesis
  proof (cases B)
    case Nil
    with \<open>A = []\<close> assms show ?thesis by (auto simp: LinkedList_remove_def ll_chain_def)
  next
    case (Cons b B')
    with \<open>A = []\<close> assms show ?thesis by (auto simp: LinkedList_remove_def ll_chain_def)
  qed
next
  case (snoc A' a)
  show ?thesis
  proof (cases B)
    case Nil
    with snoc assms show ?thesis by (auto simp: LinkedList_remove_def ll_chain_def)
  next
    case (Cons b B')
    with snoc assms show ?thesis by (auto simp: LinkedList_remove_def ll_chain_def)
  qed
qed

text \<open>A new node, linked in at one of the ends.\<close>

definition alloc :: "'e \<Rightarrow> 'e LinkedList \<Rightarrow> 'e LinkedList" where
  "alloc e this = this\<lparr>ll_nodes := ll_nodes this @ [\<lparr>nd_element = Some e, nd_next = Undefined, nd_prev = Undefined\<rparr>]\<rparr>"

lemma alloc_sel [simp]:
  "length (ll_nodes (alloc e this)) = Suc (length (ll_nodes this))"
  "ll_first (alloc e this) = ll_first this" "ll_last (alloc e this) = ll_last this"
  "ll_size (alloc e this) = ll_size this"
  "a < length (ll_nodes this) \<Longrightarrow> nx (alloc e this) a = nx this a"
  "a < length (ll_nodes this) \<Longrightarrow> pv (alloc e this) a = pv this a"
  "a < length (ll_nodes this) \<Longrightarrow> elt (alloc e this) a = elt this a"
  "nx (alloc e this) (length (ll_nodes this)) = Undefined"
  "pv (alloc e this) (length (ll_nodes this)) = Undefined"
  "elt (alloc e this) (length (ll_nodes this)) = Some e"
  "ll_nodes (alloc e this) \<noteq> []"
  by (simp_all add: alloc_def nx_def pv_def elt_def nth_append)

lemma alloc_links:
  assumes "set xs \<subseteq> {1..<length (ll_nodes this)}"
  shows "fwd (nx (alloc e this)) xs r = fwd (nx this) xs r" "bwd (pv (alloc e this)) b xs = bwd (pv this) b xs"
proof -
  have "nx (alloc e this) a = nx this a" "pv (alloc e this) a = pv this a" if "a \<in> set xs" for a
    using that assms by (auto simp: subset_iff)
  then show "fwd (nx (alloc e this)) xs r = fwd (nx this) xs r" "bwd (pv (alloc e this)) b xs = bwd (pv this) b xs"
    by (intro fwd_cong bwd_cong; simp)+
qed

lemma LinkedList_insert_chain:
  assumes "ll_chain this xs"
  shows "\<exists>t. LinkedList_insert this e atEnd = Inr (\<lparr>rm_newNode = length (ll_nodes this), rm_didRemove = False\<rparr>, t) \<and>
    ll_chain t (if atEnd then xs @ [length (ll_nodes this)] else length (ll_nodes this) # xs) \<and>
    length (ll_nodes t) = Suc (length (ll_nodes this)) \<and> elt t = elt (alloc e this)"
proof -
  let ?n = "length (ll_nodes this)"
  have xs: "set xs \<subseteq> {1..<?n}" and n: "?n \<notin> set xs" "0 < ?n" using assms by (auto simp: ll_chain_def)
  have ins: "LinkedList_insert this e b = (let t = alloc e this in bindE
      (if ll_first t = Undefined then Inr (t\<lparr>ll_first := Some ?n, ll_last := Some ?n\<rparr>)
       else if b then bindE (assign_prev (Some ?n) (ll_last t) (t\<lparr>ll_last := Some ?n\<rparr>)) (assign_next (ll_last t) (Some ?n))
       else bindE (assign_next (Some ?n) (ll_first t) (t\<lparr>ll_first := Some ?n\<rparr>)) (assign_prev (ll_first t) (Some ?n)))
      (\<lambda>t. Inr (\<lparr>rm_newNode = ?n, rm_didRemove = False\<rparr>, t\<lparr>ll_size := ll_size t + 1\<rparr>)))" for b
    by (simp add: LinkedList_insert_def alloc_def Let_def)
  show ?thesis
  proof (cases xs)
    case Nil
    with assms n show ?thesis by (auto simp: ins Let_def ll_chain_def Suc_le_eq)
  next
    case (Cons x ys)
    obtain zs z where z: "xs = zs @ [z]" using Cons by (metis list.distinct(1) rev_exhaust)
    show ?thesis
    proof (cases atEnd)
      case True
      with z assms n show ?thesis by (auto simp: ins Let_def ll_chain_def alloc_links head_ref_Some_iff)
    next
      case False
      with Cons assms n show ?thesis by (auto simp: ins Let_def ll_chain_def alloc_links)
    qed
  qed
qed

text \<open>Emptying the list unlinks its nodes one by one.\<close>

lemma clear_loop_chain:
  assumes "set xs \<subseteq> {1..<length (ll_nodes this)}" "distinct xs" "fwd (nx this) xs Undefined"
  shows "\<exists>t. clear_loop this (head_ref xs Undefined) = Some (Inr t) \<and> length (ll_nodes t) = length (ll_nodes this) \<and> elt t = elt this"
  using assms
proof (induction xs arbitrary: this)
  case Nil
  then show ?case by (simp add: clear_loop.simps)
next
  case (Cons x xs)
  let ?t = "set_next x Undefined (set_prev x Undefined this)"
  have "fwd (nx ?t) xs Undefined" using Cons.prems by simp
  with Cons.IH [of ?t] Cons.prems obtain t where
    "clear_loop ?t (head_ref xs Undefined) = Some (Inr t)" "length (ll_nodes t) = length (ll_nodes this)" "elt t = elt this"
    by auto
  moreover have "clear_loop this (head_ref (x # xs) Undefined) = clear_loop ?t (head_ref xs Undefined)"
    using Cons.prems by (subst clear_loop.simps) simp
  ultimately show ?case by simp
qed

lemma LinkedList_clear_chain:
  assumes "ll_chain this xs"
  shows "\<exists>t. LinkedList_clear this = Some (Inr t) \<and> ll_chain t [] \<and> length (ll_nodes t) = length (ll_nodes this) \<and> elt t = elt this"
proof -
  obtain t where "clear_loop this (ll_first this) = Some (Inr t)" "length (ll_nodes t) = length (ll_nodes this)" "elt t = elt this"
    using clear_loop_chain [of xs this] assms by (auto simp: ll_chain_def)
  with assms show ?thesis by (auto simp: LinkedList_clear_def ll_chain_def)
qed

lemma LinkedList_iterate_chain:
  assumes "set xs \<subseteq> {1..<length (ll_nodes this)}" "fwd (nx this) xs Undefined"
  shows "LinkedList_iterate this (head_ref xs Undefined) = Some (Inr (map (elt this) xs))"
  using assms by (induction xs) (simp_all add: LinkedList_iterate.simps)

subsection \<open>A list and the functions its clients hold\<close>

text \<open>
  The state: the list and, for every element ever inserted, the function returned for it. The
  specification: the elements with their numbers of insertion, the functions already called, and how
  many there are.
\<close>

datatype 'e list_op = Size | IsEmpty | Clear | Unshift 'e | Push 'e | Shift | Pop | Peek | Elements | CallRemover nat

datatype 'e list_result = Num int | Flag bool | Elem "'e option" | Elems "'e option list" | Done

type_synonym 'e list_state = "'e LinkedList \<times> Remover list"

type_synonym 'e list_contents = "(nat \<times> 'e) list \<times> nat set \<times> nat"

fun list_spec :: "'e list_contents \<Rightarrow> 'e list_op \<Rightarrow> 'e list_result \<times> 'e list_contents" where
  "list_spec (es, called, n) Size = (Num (int (length es)), (es, called, n))"
| "list_spec (es, called, n) IsEmpty = (Flag (es = []), (es, called, n))"
| "list_spec (es, called, n) Clear = (Done, ([], called, n))"
| "list_spec (es, called, n) (Unshift e) = (Done, ((n, e) # es, called, Suc n))"
| "list_spec (es, called, n) (Push e) = (Done, (es @ [(n, e)], called, Suc n))"
| "list_spec (es, called, n) Shift = (Elem (if es = [] then None else Some (snd (hd es))), (tl es, called, n))"
| "list_spec (es, called, n) Pop = (Elem (if es = [] then None else Some (snd (last es))), (butlast es, called, n))"
| "list_spec (es, called, n) Peek = (Elem (if es = [] then None else Some (snd (last es))), (es, called, n))"
| "list_spec (es, called, n) Elements = (Elems (map (Some \<circ> snd) es), (es, called, n))"
| "list_spec (es, called, n) (CallRemover i) = (Done, (filter (\<lambda>p. fst p \<noteq> i) es, insert i called, n))"

text \<open>
  A function of an element that left the list otherwise (\<open>shift\<close>, \<open>pop\<close>, \<open>clear\<close>) must not be
  called any more.
\<close>

fun list_legal :: "'e list_contents \<Rightarrow> 'e list_op \<Rightarrow> bool" where
  "list_legal (es, called, n) (CallRemover i) \<longleftrightarrow> i < n \<and> (i \<in> called \<or> i \<in> fst ` set es)"
| "list_legal _ _ \<longleftrightarrow> True"

fun LinkedList_step :: "'e list_state \<Rightarrow> 'e list_op \<Rightarrow> js_error option + 'e list_result \<times> 'e list_state" where
  "LinkedList_step (this, rs) Size = Inr (Num (ll_size this), (this, rs))"
| "LinkedList_step (this, rs) IsEmpty = Inr (Flag (LinkedList_isEmpty this), (this, rs))"
| "LinkedList_step (this, rs) Clear = bindE (returns (LinkedList_clear this)) (\<lambda>t. Inr (Done, (t, rs)))"
| "LinkedList_step (this, rs) (Unshift e) = bindE (throws (LinkedList_unshift this e)) (\<lambda>(r, t). Inr (Done, (t, rs @ [r])))"
| "LinkedList_step (this, rs) (Push e) = bindE (throws (LinkedList_push this e)) (\<lambda>(r, t). Inr (Done, (t, rs @ [r])))"
| "LinkedList_step (this, rs) Shift = bindE (throws (LinkedList_shift this)) (\<lambda>(e, t). Inr (Elem e, (t, rs)))"
| "LinkedList_step (this, rs) Pop = bindE (throws (LinkedList_pop this)) (\<lambda>(e, t). Inr (Elem e, (t, rs)))"
| "LinkedList_step (this, rs) Peek = bindE (throws (LinkedList_peek this)) (\<lambda>e. Inr (Elem e, (this, rs)))"
| "LinkedList_step (this, rs) Elements =
     bindE (returns (LinkedList_iterate this (ll_first this))) (\<lambda>es. Inr (Elems es, (this, rs)))"
| "LinkedList_step (this, rs) (CallRemover i) =
     bindE (throws (Remover_call this (rs ! i))) (\<lambda>(r, t). Inr (Done, (t, rs[i := r])))"

definition removers_ok :: "'e LinkedList \<Rightarrow> Remover list \<Rightarrow> nat list \<Rightarrow> bool" where
  "removers_ok this rs xs \<longleftrightarrow> length (ll_nodes this) = Suc (length rs) \<and>
     (\<forall>i < length rs. rm_newNode (rs ! i) = Suc i \<and> elt this (Suc i) \<noteq> None \<and>
        (rm_didRemove (rs ! i) \<longrightarrow> Suc i \<notin> set xs))"

fun list_inv :: "'e list_state \<Rightarrow> bool" where
  "list_inv (this, rs) \<longleftrightarrow> ll_chain this (ll_addrs this) \<and> removers_ok this rs (ll_addrs this)"

abbreviation entry :: "'e LinkedList \<Rightarrow> nat \<Rightarrow> nat \<times> 'e" where
  "entry this a \<equiv> (a - 1, the (elt this a))"

fun list_contents :: "'e list_state \<Rightarrow> 'e list_contents" where
  "list_contents (this, rs) =
     (map (entry this) (ll_addrs this), {i. i < length rs \<and> rm_didRemove (rs ! i)}, length rs)"

declare list_inv.simps [simp del] list_contents.simps [simp del]

lemma list_stateI:
  assumes "ll_chain t xs" "removers_ok t rs xs" "es = map (entry t) xs"
    "called = {i. i < length rs \<and> rm_didRemove (rs ! i)}" "n = length rs"
  shows "list_inv (t, rs) \<and> list_contents (t, rs) = (es, called, n)"
  using assms ll_addrs_chain [OF assms(1)] by (simp add: list_inv.simps list_contents.simps)

lemma LinkedList_step_refines:
  assumes "list_inv s" "list_legal (list_contents s) p"
  shows "\<exists>s'. LinkedList_step s p = Inr (fst (list_spec (list_contents s) p), s') \<and> list_inv s' \<and>
    list_contents s' = snd (list_spec (list_contents s) p)"
proof -
  obtain this rs where s: "s = (this, rs)" by force
  obtain xs where xs: "ll_addrs this = xs" "ll_chain this xs" "removers_ok this rs xs" using assms(1) s by (auto simp: list_inv.simps)
  let ?es = "map (entry this) xs" and ?called = "{i. i < length rs \<and> rm_didRemove (rs ! i)}"
  have cont: "list_contents s = (?es, ?called, length rs)" using s xs(1) by (simp add: list_contents.simps)
  have first: "ll_first this = head_ref xs Undefined" "ll_last this = last_ref Undefined xs" "ll_size this = int (length xs)"
    and pos: "set xs \<subseteq> {1..<Suc (length rs)}" "length (ll_nodes this) = Suc (length rs)"
    and elts: "\<And>i. i < length rs \<Longrightarrow> elt this (Suc i) \<noteq> None"
    using xs(2,3) by (auto simp: ll_chain_def removers_ok_def)
  have elt: "elt this a = Some (the (elt this a))" if "a \<in> set xs" for a
  proof -
    have "a - 1 < length rs" "Suc (a - 1) = a" using subsetD [OF pos(1) that] by auto
    with elts [of "a - 1"] show ?thesis by auto
  qed
  have id: "list_inv (this, rs) \<and> list_contents (this, rs) = (?es, ?called, length rs)"
    by (rule list_stateI) (use xs in simp_all)
  have ins: "\<exists>r t. LinkedList_insert this e b = Inr (r, t) \<and> list_inv (t, rs @ [r]) \<and> list_contents (t, rs @ [r]) =
      (if b then ?es @ [(length rs, e)] else (length rs, e) # ?es, ?called, Suc (length rs))" for e b
  proof -
    let ?n = "Suc (length rs)" and ?xs' = "if b then xs @ [Suc (length rs)] else Suc (length rs) # xs"
    obtain t where t: "LinkedList_insert this e b = Inr (\<lparr>rm_newNode = ?n, rm_didRemove = False\<rparr>, t)" "ll_chain t ?xs'"
      "length (ll_nodes t) = Suc ?n" "elt t = elt (alloc e this)"
      using LinkedList_insert_chain [OF xs(2), of e b] unfolding pos(2) by blast
    have elt_n: "elt t ?n = Some e" using t(4) pos(2) alloc_sel(10) [of e this] by simp
    have elt_old: "elt t a = elt this a" if "a < ?n" for a using that t(4) pos(2) by simp
    then have elt_Suc: "elt t (Suc i) = elt this (Suc i)" if "i < length rs" for i using that by simp
    have "list_inv (t, rs @ [\<lparr>rm_newNode = ?n, rm_didRemove = False\<rparr>]) \<and> list_contents (t, rs @ [\<lparr>rm_newNode = ?n, rm_didRemove = False\<rparr>]) =
        (if b then ?es @ [(length rs, e)] else (length rs, e) # ?es, ?called, Suc (length rs))"
    proof (rule list_stateI [OF t(2)])
      show "removers_ok t (rs @ [\<lparr>rm_newNode = ?n, rm_didRemove = False\<rparr>]) ?xs'"
        using xs(3) t(3) elt_n elt_Suc by (auto simp: removers_ok_def nth_append less_Suc_eq)
      have "map (entry t) xs = ?es" using pos(1) elt_old by (intro map_cong) auto
      then show "(if b then ?es @ [(length rs, e)] else (length rs, e) # ?es) = map (entry t) ?xs'"
        using elt_n by simp
      show "?called = {i. i < length (rs @ [\<lparr>rm_newNode = ?n, rm_didRemove = False\<rparr>]) \<and>
          rm_didRemove ((rs @ [\<lparr>rm_newNode = ?n, rm_didRemove = False\<rparr>]) ! i)}"
        by (auto simp: nth_append less_Suc_eq)
    qed simp
    with t(1) show ?thesis by blast
  qed
  have rem: "\<exists>t. LinkedList_remove this (Some a) = Inr t \<and> list_inv (t, rs) \<and>
      list_contents (t, rs) = (map (entry this) (A @ B), ?called, length rs)" if split: "xs = A @ a # B" for A a B
  proof -
    obtain t where t: "LinkedList_remove this (Some a) = Inr t" "ll_chain t (A @ B)"
      "length (ll_nodes t) = length (ll_nodes this)" "elt t = elt this"
      using LinkedList_remove_chain [of this A a B] xs(2) split by blast
    have "list_inv (t, rs) \<and> list_contents (t, rs) = (map (entry this) (A @ B), ?called, length rs)"
      by (rule list_stateI [OF t(2)]) (use xs(3) t split in \<open>auto simp: removers_ok_def\<close>)
    with t(1) show ?thesis by blast
  qed
  show ?thesis
  proof (cases p)
    case Size
    then show ?thesis using id cont s first by simp
  next
    case IsEmpty
    then show ?thesis using id cont s first xs(2) by (cases xs) (auto simp: LinkedList_isEmpty_def ll_chain_def)
  next
    case Clear
    obtain t where t: "LinkedList_clear this = Some (Inr t)" "ll_chain t []" "length (ll_nodes t) = length (ll_nodes this)" "elt t = elt this"
      using LinkedList_clear_chain [OF xs(2)] by blast
    have "list_inv (t, rs) \<and> list_contents (t, rs) = ([], ?called, length rs)"
      by (rule list_stateI [OF t(2)]) (use xs(3) t in \<open>auto simp: removers_ok_def\<close>)
    with t(1) Clear s cont show ?thesis by simp
  next
    case (Unshift e)
    with ins [of e False] cont s show ?thesis by (auto simp: LinkedList_unshift_def)
  next
    case (Push e)
    with ins [of e True] cont s show ?thesis by (auto simp: LinkedList_push_def)
  next
    case Shift
    show ?thesis
    proof (cases xs)
      case Nil
      with Shift id cont s first show ?thesis by (simp add: LinkedList_shift_def)
    next
      case (Cons a ys)
      then have "xs = [] @ a # ys" by simp
      from rem [OF this] obtain t where "LinkedList_remove this (Some a) = Inr t"
        "list_inv (t, rs) \<and> list_contents (t, rs) = (map (entry this) ys, ?called, length rs)" by auto
      with Shift Cons cont s first elt pos show ?thesis by (auto simp: LinkedList_shift_def)
    qed
  next
    case Pop
    show ?thesis
    proof (cases xs rule: rev_cases)
      case Nil
      with Pop id cont s first show ?thesis by (simp add: LinkedList_pop_def)
    next
      case (snoc ys a)
      then have "xs = ys @ a # []" by simp
      from rem [OF this] obtain t where "LinkedList_remove this (Some a) = Inr t"
        "list_inv (t, rs) \<and> list_contents (t, rs) = (map (entry this) ys, ?called, length rs)" by auto
      with Pop snoc cont s first elt pos show ?thesis by (auto simp: LinkedList_pop_def)
    qed
  next
    case Peek
    with id cont s first elt pos show ?thesis
      by (cases xs rule: rev_cases) (auto simp: LinkedList_peek_def)
  next
    case Elements
    have "map (elt this) xs = map (Some \<circ> snd) ?es" using elt by simp
    with LinkedList_iterate_chain [of xs this] xs(2) Elements s cont id first show ?thesis
      by (simp add: ll_chain_def)
  next
    case (CallRemover i)
    let ?r = "rs ! i"
    from CallRemover assms(2) cont have i: "i < length rs" and mem: "rm_didRemove ?r \<or> i \<in> fst ` set ?es" by auto
    have new: "rm_newNode ?r = Suc i" "rm_didRemove ?r \<Longrightarrow> Suc i \<notin> set xs" using xs(3) i by (auto simp: removers_ok_def)
    have ids: "i = a - 1 \<longleftrightarrow> a = Suc i" if "a \<in> set xs" for a using subsetD [OF pos(1) that] by auto
    show ?thesis
    proof (cases "rm_didRemove ?r")
      case True
      with new(2) ids have "filter (\<lambda>p. fst p \<noteq> i) ?es = ?es" by (force intro: filter_True)
      moreover have "insert i ?called = ?called" using True i by auto
      moreover have "Remover_call this ?r = Inr (?r, this)" using True by (simp add: Remover_call_def)
      ultimately show ?thesis using CallRemover cont id s by simp
    next
      case False
      with mem ids have "Suc i \<in> set xs" by (auto simp: image_iff)
      then obtain A B where AB: "xs = A @ Suc i # B" by (auto dest: split_list)
      obtain t where t: "LinkedList_remove this (Some (Suc i)) = Inr t" "ll_chain t (A @ B)"
        "length (ll_nodes t) = length (ll_nodes this)" "elt t = elt this"
        using LinkedList_remove_chain [of this A "Suc i" B] xs(2) AB by blast
      let ?rs = "rs[i := ?r\<lparr>rm_didRemove := True\<rparr>]"
      have "distinct xs" using xs(2) by (simp add: ll_chain_def)
      with AB have notin: "Suc i \<notin> set (A @ B)" by simp
      have "list_inv (t, ?rs) \<and> list_contents (t, ?rs) = (map (entry this) (A @ B), insert i ?called, length rs)"
      proof (rule list_stateI [OF t(2)])
        show "removers_ok t ?rs (A @ B)"
          using xs(3) t(3,4) notin AB by (auto simp: removers_ok_def nth_list_update_if split: if_splits)
        show "insert i ?called = {j. j < length ?rs \<and> rm_didRemove (?rs ! j)}"
          using i by (auto simp: nth_list_update_if)
      qed (simp_all add: t(4))
      moreover have "filter (\<lambda>p. fst p \<noteq> i) ?es = map (entry this) (A @ B)"
      proof -
        have "filter (\<lambda>p. fst p \<noteq> i) ?es = map (entry this) (filter (\<lambda>a. a - 1 \<noteq> i) xs)"
          by (simp add: filter_map o_def)
        also have "filter (\<lambda>a. a - 1 \<noteq> i) xs = filter (\<lambda>a. a \<noteq> Suc i) xs"
          using ids by (intro filter_cong refl) metis
        also have "\<dots> = filter (\<lambda>a. a \<noteq> Suc i) (A @ B)" by (simp add: AB)
        also have "\<dots> = A @ B" using notin by (intro filter_True) metis
        finally show ?thesis .
      qed
      moreover have "LinkedList_step s p = Inr (Done, (t, ?rs))"
        using False CallRemover s t(1) new(1) by (simp add: Remover_call_def)
      ultimately show ?thesis using CallRemover cont by simp
    qed
  qed
qed

interpretation linked_list: object_refinement LinkedList_step list_inv list_contents list_spec list_legal
  by unfold_locales (rule LinkedList_step_refines)

lemma LinkedList_new_ok: "list_inv (LinkedList_new, [])" "list_contents (LinkedList_new, []) = ([], {}, 0)"
  by (simp_all add: LinkedList_new_def ll_chain_def ll_addrs_def removers_ok_def list_inv.simps list_contents.simps)

text \<open>
  C27. A \<open>LinkedList\<close> and the functions that \<open>push\<close> and \<open>unshift\<close> return answer any sequence of
  operations like a plain list of numbered elements: no operation throws, the loops of \<open>clear\<close> and of
  the iterator end, a returned function removes just its element, once. Hypothesis: the function of an
  element that left the list by \<open>shift\<close>, \<open>pop\<close> or \<open>clear\<close> is not called any more.
\<close>

theorem LinkedList_refines:
  assumes "legal_run list_legal list_spec ([], {}, 0) ops"
  shows "\<exists>t rs. run_object LinkedList_step (LinkedList_new, []) ops =
      Inr (fst (run_spec list_spec ([], {}, 0) ops), (t, rs)) \<and>
    list_contents (t, rs) = snd (run_spec list_spec ([], {}, 0) ops)"
proof -
  from linked_list.run_refines [of "(LinkedList_new, [])" ops] assms show ?thesis
    unfolding LinkedList_new_ok by (auto simp: LinkedList_new_ok)
qed

theorem LinkedList_refines_witness:
  "\<exists>t rs. run_object LinkedList_step (LinkedList_new, [])
      [Push (1::int), Push 2, Unshift 0, CallRemover 0, CallRemover 0, Elements, Pop, Clear, Size] =
    Inr ([Done, Done, Done, Done, Done, Elems [Some 0, Some 2], Elem (Some 2), Done, Num 0], (t, rs))"
proof -
  let ?ops = "[Push (1::int), Push 2, Unshift 0, CallRemover 0, CallRemover 0, Elements, Pop, Clear, Size]"
  have "legal_run list_legal list_spec ([], {}, 0) ?ops" by simp
  from LinkedList_refines [OF this] show ?thesis by auto
qed

text \<open>
  The hypothesis is needed: \<open>shift\<close> does not unlink the node it removes, so calling its function
  afterwards removes the element that is first by then.
\<close>

lemma stale_remover_removes_other:
  "map_sum id fst (run_object LinkedList_step (LinkedList_new, [])
      [Push (1::int), Push 2, Push 3, Shift, CallRemover 0, Elements]) =
    Inr [Done, Done, Done, Elem (Some 1), Done, Elems [Some 3]]"
  by (simp add: LinkedList_new_def LinkedList_push_def LinkedList_insert_def LinkedList_shift_def LinkedList_remove_def
      Remover_call_def assign_next_def assign_prev_def read_next_def read_prev_def read_element_def deref_def
      LinkedList_iterate.simps Let_def del: bindE_eq_Inr)

end
