(* ===== verification/Linked_Map.thy ===== *)
theory Linked_Map
  imports Linked_Chains Object_Refinement
begin

text \<open>
  \<open>LinkedMap\<close> of \<open>base/common/map.ts\<close>: a hash map whose items are also linked in the order of their
  insertion, or of their last use. Items are in a store, a list indexed by address; the language's
  \<open>Map\<close> from keys to items is a HOL map to addresses. An item that leaves the map stays in the store
  and keeps its links, as in the program, where only the garbage collector takes it away.
\<close>

subsection \<open>Items and maps\<close>

datatype Touch = TouchNone | AsOld | AsNew

record ('k, 'v) Item =
  it_previous :: "nat option"
  it_next :: "nat option"
  it_key :: 'k
  it_value :: 'v

record ('k, 'v) LinkedMap =
  lm_map :: "'k \<rightharpoonup> nat"
  lm_head :: "nat option"
  lm_tail :: "nat option"
  lm_size :: int
  lm_state :: int
  lm_items :: "('k, 'v) Item list"

definition LinkedMap_new :: "('k, 'v) LinkedMap" where
  "LinkedMap_new =
     \<lparr>lm_map = Map.empty, lm_head = None, lm_tail = None, lm_size = 0, lm_state = 0, lm_items = []\<rparr>"

definition nx :: "('k, 'v, 'z) LinkedMap_scheme \<Rightarrow> nat \<Rightarrow> nat option" where
  "nx this a = it_next (lm_items this ! a)"

definition pv :: "('k, 'v, 'z) LinkedMap_scheme \<Rightarrow> nat \<Rightarrow> nat option" where
  "pv this a = it_previous (lm_items this ! a)"

definition key :: "('k, 'v, 'z) LinkedMap_scheme \<Rightarrow> nat \<Rightarrow> 'k" where
  "key this a = it_key (lm_items this ! a)"

definition val :: "('k, 'v, 'z) LinkedMap_scheme \<Rightarrow> nat \<Rightarrow> 'v" where
  "val this a = it_value (lm_items this ! a)"

definition set_item :: "nat \<Rightarrow> (('k, 'v) Item \<Rightarrow> ('k, 'v) Item) \<Rightarrow> ('k, 'v, 'z) LinkedMap_scheme \<Rightarrow> ('k, 'v, 'z) LinkedMap_scheme" where
  "set_item a f this = this\<lparr>lm_items := (lm_items this)[a := f (lm_items this ! a)]\<rparr>"

definition set_next :: "nat \<Rightarrow> nat option \<Rightarrow> ('k, 'v, 'z) LinkedMap_scheme \<Rightarrow> ('k, 'v, 'z) LinkedMap_scheme" where
  "set_next a v = set_item a (\<lambda>i. i\<lparr>it_next := v\<rparr>)"

definition set_previous :: "nat \<Rightarrow> nat option \<Rightarrow> ('k, 'v, 'z) LinkedMap_scheme \<Rightarrow> ('k, 'v, 'z) LinkedMap_scheme" where
  "set_previous a v = set_item a (\<lambda>i. i\<lparr>it_previous := v\<rparr>)"

definition set_value :: "nat \<Rightarrow> 'v \<Rightarrow> ('k, 'v, 'z) LinkedMap_scheme \<Rightarrow> ('k, 'v, 'z) LinkedMap_scheme" where
  "set_value a v = set_item a (\<lambda>i. i\<lparr>it_value := v\<rparr>)"

text \<open>\<open>r.f = v\<close> for a reference that may be \<open>undefined\<close>.\<close>

definition at_ref :: "nat option \<Rightarrow> (nat \<Rightarrow> 's \<Rightarrow> 's) \<Rightarrow> 's \<Rightarrow> js_error + 's" where
  "at_ref r f this = (case r of None \<Rightarrow> Inl TypeError | Some a \<Rightarrow> Inr (f a this))"

abbreviation inc_state :: "('k, 'v, 'z) LinkedMap_scheme \<Rightarrow> ('k, 'v, 'z) LinkedMap_scheme" where
  "inc_state this \<equiv> this\<lparr>lm_state := lm_state this + 1\<rparr>"

subsection \<open>Linking\<close>

definition addItemFirst :: "('k, 'v, 'z) LinkedMap_scheme \<Rightarrow> nat \<Rightarrow> js_error + ('k, 'v, 'z) LinkedMap_scheme" where
  "addItemFirst this item =
     bindE
       (if lm_head this = None \<and> lm_tail this = None then Inr (this\<lparr>lm_tail := Some item\<rparr>)
        else case lm_head this of
          None \<Rightarrow> Inl Error
        | Some head \<Rightarrow> Inr (set_previous head (Some item) (set_next item (Some head) this)))
       (\<lambda>t. Inr (inc_state (t\<lparr>lm_head := Some item\<rparr>)))"

definition addItemLast :: "('k, 'v, 'z) LinkedMap_scheme \<Rightarrow> nat \<Rightarrow> js_error + ('k, 'v, 'z) LinkedMap_scheme" where
  "addItemLast this item =
     bindE
       (if lm_head this = None \<and> lm_tail this = None then Inr (this\<lparr>lm_head := Some item\<rparr>)
        else case lm_tail this of
          None \<Rightarrow> Inl Error
        | Some tail \<Rightarrow> Inr (set_next tail (Some item) (set_previous item (Some tail) this)))
       (\<lambda>t. Inr (inc_state (t\<lparr>lm_tail := Some item\<rparr>)))"

definition removeItem :: "('k, 'v, 'z) LinkedMap_scheme \<Rightarrow> nat \<Rightarrow> js_error + ('k, 'v, 'z) LinkedMap_scheme" where
  "removeItem this item =
     bindE
       (if Some item = lm_head this \<and> Some item = lm_tail this then
          Inr (this\<lparr>lm_head := None, lm_tail := None\<rparr>)
        else if Some item = lm_head this then
          case nx this item of
            None \<Rightarrow> Inl Error
          | Some n \<Rightarrow> let t = set_previous n None this in Inr (t\<lparr>lm_head := nx t item\<rparr>)
        else if Some item = lm_tail this then
          case pv this item of
            None \<Rightarrow> Inl Error
          | Some p \<Rightarrow> let t = set_next p None this in Inr (t\<lparr>lm_tail := pv t item\<rparr>)
        else
          case (nx this item, pv this item) of
            (Some n, Some p) \<Rightarrow> Inr (set_next p (Some n) (set_previous n (Some p) this))
          | _ \<Rightarrow> Inl Error)
       (\<lambda>t. Inr (inc_state (set_previous item None (set_next item None t))))"

definition LinkedMap_touch :: "('k, 'v, 'z) LinkedMap_scheme \<Rightarrow> nat \<Rightarrow> Touch \<Rightarrow> js_error + ('k, 'v, 'z) LinkedMap_scheme" where
  "LinkedMap_touch this item touch =
     (if lm_head this = None \<or> lm_tail this = None then Inl Error
      else case touch of
        TouchNone \<Rightarrow> Inr this
      | AsOld \<Rightarrow>
          if Some item = lm_head this then Inr this
          else
            let n = nx this item; p = pv this item
            in bindE
                 (if Some item = lm_tail this then
                    bindE (at_ref p (\<lambda>a. set_next a None) this) (\<lambda>t. Inr (t\<lparr>lm_tail := p\<rparr>))
                  else bindE (at_ref n (\<lambda>a. set_previous a p) this) (at_ref p (\<lambda>a. set_next a n)))
                 (\<lambda>t. let t = set_next item (lm_head t) (set_previous item None t)
                      in bindE (at_ref (lm_head t) (\<lambda>a. set_previous a (Some item)) t)
                           (\<lambda>t. Inr (inc_state (t\<lparr>lm_head := Some item\<rparr>))))
      | AsNew \<Rightarrow>
          if Some item = lm_tail this then Inr this
          else
            let n = nx this item; p = pv this item
            in bindE
                 (if Some item = lm_head this then
                    bindE (at_ref n (\<lambda>a. set_previous a None) this) (\<lambda>t. Inr (t\<lparr>lm_head := n\<rparr>))
                  else bindE (at_ref n (\<lambda>a. set_previous a p) this) (at_ref p (\<lambda>a. set_next a n)))
                 (\<lambda>t. let t = set_previous item (lm_tail t) (set_next item None t)
                      in bindE (at_ref (lm_tail t) (\<lambda>a. set_next a (Some item)) t)
                           (\<lambda>t. Inr (inc_state (t\<lparr>lm_tail := Some item\<rparr>)))))"

subsection \<open>The operations\<close>

definition LinkedMap_clear :: "('k, 'v, 'z) LinkedMap_scheme \<Rightarrow> ('k, 'v, 'z) LinkedMap_scheme" where
  "LinkedMap_clear this =
     inc_state (this\<lparr>lm_map := Map.empty, lm_head := None, lm_tail := None, lm_size := 0\<rparr>)"

definition LinkedMap_isEmpty :: "('k, 'v, 'z) LinkedMap_scheme \<Rightarrow> bool" where
  "LinkedMap_isEmpty this \<longleftrightarrow> lm_head this = None \<and> lm_tail this = None"

definition LinkedMap_first :: "('k, 'v, 'z) LinkedMap_scheme \<Rightarrow> 'v option" where
  "LinkedMap_first this = map_option (val this) (lm_head this)"

definition LinkedMap_last :: "('k, 'v, 'z) LinkedMap_scheme \<Rightarrow> 'v option" where
  "LinkedMap_last this = map_option (val this) (lm_tail this)"

definition LinkedMap_has :: "('k, 'v, 'z) LinkedMap_scheme \<Rightarrow> 'k \<Rightarrow> bool" where
  "LinkedMap_has this k \<longleftrightarrow> lm_map this k \<noteq> None"

definition LinkedMap_get :: "('k, 'v, 'z) LinkedMap_scheme \<Rightarrow> 'k \<Rightarrow> Touch \<Rightarrow> js_error + 'v option \<times> ('k, 'v, 'z) LinkedMap_scheme" where
  "LinkedMap_get this k touch =
     (case lm_map this k of
        None \<Rightarrow> Inr (None, this)
      | Some item \<Rightarrow>
          bindE (if touch \<noteq> TouchNone then LinkedMap_touch this item touch else Inr this)
            (\<lambda>t. Inr (Some (val t item), t)))"

definition LinkedMap_set :: "('k, 'v, 'z) LinkedMap_scheme \<Rightarrow> 'k \<Rightarrow> 'v \<Rightarrow> Touch \<Rightarrow> js_error + ('k, 'v, 'z) LinkedMap_scheme" where
  "LinkedMap_set this k v touch =
     (case lm_map this k of
        Some item \<Rightarrow>
          let t = set_value item v this
          in if touch \<noteq> TouchNone then LinkedMap_touch t item touch else Inr t
      | None \<Rightarrow>
          let item = length (lm_items this);
              t = this\<lparr>lm_items := lm_items this @ [\<lparr>it_previous = None, it_next = None, it_key = k, it_value = v\<rparr>]\<rparr>
          in bindE (case touch of AsOld \<Rightarrow> addItemFirst t item | _ \<Rightarrow> addItemLast t item)
               (\<lambda>t. Inr (t\<lparr>lm_map := (lm_map t)(k \<mapsto> item), lm_size := lm_size t + 1\<rparr>)))"

definition LinkedMap_remove :: "('k, 'v, 'z) LinkedMap_scheme \<Rightarrow> 'k \<Rightarrow> js_error + 'v option \<times> ('k, 'v, 'z) LinkedMap_scheme" where
  "LinkedMap_remove this k =
     (case lm_map this k of
        None \<Rightarrow> Inr (None, this)
      | Some item \<Rightarrow>
          bindE (removeItem (this\<lparr>lm_map := (lm_map this)(k := None)\<rparr>) item)
            (\<lambda>t. Inr (Some (val t item), t\<lparr>lm_size := lm_size t - 1\<rparr>)))"

text \<open>\<open>!!this.remove(key)\<close>: which values count as true is the argument \<open>truthy\<close>.\<close>

definition LinkedMap_delete :: "('v \<Rightarrow> bool) \<Rightarrow> ('k, 'v, 'z) LinkedMap_scheme \<Rightarrow> 'k \<Rightarrow> js_error + bool \<times> ('k, 'v, 'z) LinkedMap_scheme" where
  "LinkedMap_delete truthy this k =
     bindE (LinkedMap_remove this k) (\<lambda>(r, t). Inr (case r of None \<Rightarrow> False | Some v \<Rightarrow> truthy v, t))"

definition LinkedMap_shift :: "('k, 'v, 'z) LinkedMap_scheme \<Rightarrow> js_error + 'v option \<times> ('k, 'v, 'z) LinkedMap_scheme" where
  "LinkedMap_shift this =
     (if lm_head this = None \<and> lm_tail this = None then Inr (None, this)
      else case (lm_head this, lm_tail this) of
        (Some item, Some _) \<Rightarrow>
          bindE (removeItem (this\<lparr>lm_map := (lm_map this)(key this item := None)\<rparr>) item)
            (\<lambda>t. Inr (Some (val t item), t\<lparr>lm_size := lm_size t - 1\<rparr>))
      | _ \<Rightarrow> Inl Error)"

function trimOld_loop :: "int \<Rightarrow> ('k, 'v, 'z) LinkedMap_scheme \<Rightarrow> nat option \<Rightarrow> int \<Rightarrow> ('k, 'v, 'z) LinkedMap_scheme \<times> nat option \<times> int" where
  "trimOld_loop newSize this current currentSize =
     (case current of
        Some a \<Rightarrow>
          if currentSize > newSize then
            let t = this\<lparr>lm_map := (lm_map this)(key this a := None)\<rparr>
            in trimOld_loop newSize t (nx t a) (currentSize - 1)
          else (this, current, currentSize)
      | None \<Rightarrow> (this, current, currentSize))"
  by pat_completeness auto
termination by (relation "measure (\<lambda>(newSize, _, _, currentSize). nat (currentSize - newSize))") auto

declare trimOld_loop.simps [simp del]

definition LinkedMap_trimOld :: "('k, 'v, 'z) LinkedMap_scheme \<Rightarrow> int \<Rightarrow> ('k, 'v, 'z) LinkedMap_scheme" where
  "LinkedMap_trimOld this newSize =
     (if newSize \<ge> lm_size this then this
      else if newSize = 0 then LinkedMap_clear this
      else case trimOld_loop newSize this (lm_head this) (lm_size this) of (t, current, currentSize) \<Rightarrow>
        let t = t\<lparr>lm_head := current, lm_size := currentSize\<rparr>
        in inc_state (case current of Some a \<Rightarrow> set_previous a None t | None \<Rightarrow> t))"

function trimNew_loop :: "int \<Rightarrow> ('k, 'v, 'z) LinkedMap_scheme \<Rightarrow> nat option \<Rightarrow> int \<Rightarrow> ('k, 'v, 'z) LinkedMap_scheme \<times> nat option \<times> int" where
  "trimNew_loop newSize this current currentSize =
     (case current of
        Some a \<Rightarrow>
          if currentSize > newSize then
            let t = this\<lparr>lm_map := (lm_map this)(key this a := None)\<rparr>
            in trimNew_loop newSize t (pv t a) (currentSize - 1)
          else (this, current, currentSize)
      | None \<Rightarrow> (this, current, currentSize))"
  by pat_completeness auto
termination by (relation "measure (\<lambda>(newSize, _, _, currentSize). nat (currentSize - newSize))") auto

declare trimNew_loop.simps [simp del]

definition LinkedMap_trimNew :: "('k, 'v, 'z) LinkedMap_scheme \<Rightarrow> int \<Rightarrow> ('k, 'v, 'z) LinkedMap_scheme" where
  "LinkedMap_trimNew this newSize =
     (if newSize \<ge> lm_size this then this
      else if newSize = 0 then LinkedMap_clear this
      else case trimNew_loop newSize this (lm_tail this) (lm_size this) of (t, current, currentSize) \<Rightarrow>
        let t = t\<lparr>lm_tail := current, lm_size := currentSize\<rparr>
        in inc_state (case current of Some a \<Rightarrow> set_next a None t | None \<Rightarrow> t))"

subsection \<open>Iterating\<close>

text \<open>
  The callback of \<open>forEach\<close> may change the map and a state \<open>'s\<close> of its own, and may throw. The loop
  ends if the callback lets it.
\<close>

partial_function (option) forEach_loop ::
    "('v \<Rightarrow> 'k \<Rightarrow> ('k, 'v, 'z) LinkedMap_scheme \<times> 's \<Rightarrow> js_error + ('k, 'v, 'z) LinkedMap_scheme \<times> 's) \<Rightarrow> int \<Rightarrow>
     nat option \<Rightarrow> ('k, 'v, 'z) LinkedMap_scheme \<times> 's \<Rightarrow> (js_error + ('k, 'v, 'z) LinkedMap_scheme \<times> 's) option" where
  "forEach_loop callbackfn state current s =
     (case current of
        None \<Rightarrow> Some (Inr s)
      | Some a \<Rightarrow>
          (case callbackfn (val (fst s) a) (key (fst s) a) s of
             Inl e \<Rightarrow> Some (Inl e)
           | Inr s' \<Rightarrow>
               if lm_state (fst s') \<noteq> state then Some (Inl Error)
               else forEach_loop callbackfn state (nx (fst s') a) s'))"

definition LinkedMap_forEach ::
    "('v \<Rightarrow> 'k \<Rightarrow> ('k, 'v, 'z) LinkedMap_scheme \<times> 's \<Rightarrow> js_error + ('k, 'v, 'z) LinkedMap_scheme \<times> 's) \<Rightarrow>
     ('k, 'v, 'z) LinkedMap_scheme \<times> 's \<Rightarrow> (js_error + ('k, 'v, 'z) LinkedMap_scheme \<times> 's) option" where
  "LinkedMap_forEach callbackfn s = forEach_loop callbackfn (lm_state (fst s)) (lm_head (fst s)) s"

definition LinkedMap_toJSON :: "('k, 'v, 'z) LinkedMap_scheme \<Rightarrow> (js_error + ('k \<times> 'v) list) option" where
  "LinkedMap_toJSON this =
     map_option (\<lambda>m. bindE m (\<lambda>s. Inr (snd s)))
       (LinkedMap_forEach (\<lambda>v k s. Inr (fst s, snd s @ [(k, v)])) (this, []))"

definition LinkedMap_fromJSON :: "('k, 'v, 'z) LinkedMap_scheme \<Rightarrow> ('k \<times> 'v) list \<Rightarrow> js_error + ('k, 'v, 'z) LinkedMap_scheme" where
  "LinkedMap_fromJSON this data =
     foldE (\<lambda>t (k, v). LinkedMap_set t k v TouchNone) (LinkedMap_clear this) data"

text \<open>The iterators of \<open>keys\<close>, \<open>values\<close> and \<open>entries\<close> close over the same two variables.\<close>

record MapIterator =
  mi_state :: int
  mi_current :: "nat option"

definition LinkedMap_iterator :: "('k, 'v, 'z) LinkedMap_scheme \<Rightarrow> MapIterator" where
  "LinkedMap_iterator this = \<lparr>mi_state = lm_state this, mi_current = lm_head this\<rparr>"

definition iterator_next :: "('k \<Rightarrow> 'v \<Rightarrow> 'r) \<Rightarrow> ('k, 'v, 'z) LinkedMap_scheme \<Rightarrow> MapIterator \<Rightarrow> js_error + 'r option \<times> MapIterator" where
  "iterator_next result this it =
     (if lm_state this \<noteq> mi_state it then Inl Error
      else case mi_current it of
        Some a \<Rightarrow> Inr (Some (result (key this a) (val this a)), it\<lparr>mi_current := nx this a\<rparr>)
      | None \<Rightarrow> Inr (None, it))"

definition keys_next :: "('k, 'v, 'z) LinkedMap_scheme \<Rightarrow> MapIterator \<Rightarrow> js_error + 'k option \<times> MapIterator" where
  "keys_next = iterator_next (\<lambda>k v. k)"

definition values_next :: "('k, 'v, 'z) LinkedMap_scheme \<Rightarrow> MapIterator \<Rightarrow> js_error + 'v option \<times> MapIterator" where
  "values_next = iterator_next (\<lambda>k v. v)"

definition entries_next :: "('k, 'v, 'z) LinkedMap_scheme \<Rightarrow> MapIterator \<Rightarrow> js_error + ('k \<times> 'v) option \<times> MapIterator" where
  "entries_next = iterator_next (\<lambda>k v. (k, v))"

subsection \<open>The links\<close>

lemma items_upd [simp]:
  "length (lm_items (set_item a f this)) = length (lm_items this)"
  "lm_head (set_item a f this) = lm_head this" "lm_tail (set_item a f this) = lm_tail this"
  "lm_map (set_item a f this) = lm_map this" "lm_size (set_item a f this) = lm_size this"
  "lm_state (set_item a f this) = lm_state this"
  "LinkedMap.more (set_item a f this) = LinkedMap.more this"
  by (simp_all add: set_item_def)

lemma fields_upd [simp]:
  "a < length (lm_items this) \<Longrightarrow> nx (set_next a r this) = (nx this)(a := r)"
  "a < length (lm_items this) \<Longrightarrow> pv (set_previous a r this) = (pv this)(a := r)"
  "a < length (lm_items this) \<Longrightarrow> val (set_value a v this) = (val this)(a := v)"
  "nx (set_previous a r this) = nx this" "nx (set_value a v this) = nx this"
  "pv (set_next a r this) = pv this" "pv (set_value a v this) = pv this"
  "val (set_next a r this) = val this" "val (set_previous a r this) = val this"
  "key (set_next a r this) = key this" "key (set_previous a r this) = key this" "key (set_value a v this) = key this"
  by (auto simp: set_next_def set_previous_def set_value_def set_item_def nx_def pv_def val_def key_def fun_eq_iff
      nth_list_update_if)

lemma sels_upd [simp]:
  "length (lm_items (set_next a r this)) = length (lm_items this)" "lm_head (set_next a r this) = lm_head this"
  "lm_tail (set_next a r this) = lm_tail this" "lm_map (set_next a r this) = lm_map this"
  "lm_size (set_next a r this) = lm_size this" "lm_state (set_next a r this) = lm_state this"
  "length (lm_items (set_previous a r this)) = length (lm_items this)" "lm_head (set_previous a r this) = lm_head this"
  "lm_tail (set_previous a r this) = lm_tail this" "lm_map (set_previous a r this) = lm_map this"
  "lm_size (set_previous a r this) = lm_size this" "lm_state (set_previous a r this) = lm_state this"
  "length (lm_items (set_value a v this)) = length (lm_items this)" "lm_head (set_value a v this) = lm_head this"
  "lm_tail (set_value a v this) = lm_tail this" "lm_map (set_value a v this) = lm_map this"
  "lm_size (set_value a v this) = lm_size this" "lm_state (set_value a v this) = lm_state this"
  "LinkedMap.more (set_next a r this) = LinkedMap.more this" "LinkedMap.more (set_previous a r this) = LinkedMap.more this"
  "LinkedMap.more (set_value a v this) = LinkedMap.more this"
  by (simp_all add: set_next_def set_previous_def set_value_def)

lemma nx_rest [simp]:
  "nx (this\<lparr>lm_map := m\<rparr>) = nx this" "nx (this\<lparr>lm_head := r\<rparr>) = nx this" "nx (this\<lparr>lm_tail := r\<rparr>) = nx this"
  "nx (this\<lparr>lm_size := n\<rparr>) = nx this" "nx (this\<lparr>lm_state := n\<rparr>) = nx this"
  "pv (this\<lparr>lm_map := m\<rparr>) = pv this" "pv (this\<lparr>lm_head := r\<rparr>) = pv this" "pv (this\<lparr>lm_tail := r\<rparr>) = pv this"
  "pv (this\<lparr>lm_size := n\<rparr>) = pv this" "pv (this\<lparr>lm_state := n\<rparr>) = pv this"
  "key (this\<lparr>lm_map := m\<rparr>) = key this" "key (this\<lparr>lm_head := r\<rparr>) = key this" "key (this\<lparr>lm_tail := r\<rparr>) = key this"
  "key (this\<lparr>lm_size := n\<rparr>) = key this" "key (this\<lparr>lm_state := n\<rparr>) = key this"
  "val (this\<lparr>lm_map := m\<rparr>) = val this" "val (this\<lparr>lm_head := r\<rparr>) = val this" "val (this\<lparr>lm_tail := r\<rparr>) = val this"
  "val (this\<lparr>lm_size := n\<rparr>) = val this" "val (this\<lparr>lm_state := n\<rparr>) = val this"
  by (simp_all add: nx_def pv_def key_def val_def fun_eq_iff)

lemma at_ref_simps [simp]: "at_ref None f this = Inl TypeError" "at_ref (Some a) f this = Inr (f a this)"
  by (simp_all add: at_ref_def)

definition linked :: "('k, 'v, 'z) LinkedMap_scheme \<Rightarrow> nat list \<Rightarrow> bool" where
  "linked this xs \<longleftrightarrow> distinct xs \<and> set xs \<subseteq> {..<length (lm_items this)} \<and>
     fwd (nx this) xs None \<and> bwd (pv this) None xs \<and>
     lm_head this = head_ref xs None \<and> lm_tail this = last_ref None xs"

definition indexed :: "('k, 'v, 'z) LinkedMap_scheme \<Rightarrow> nat list \<Rightarrow> bool" where
  "indexed this xs \<longleftrightarrow> distinct (map (key this) xs) \<and>
     lm_map this = map_of (map (\<lambda>a. (key this a, a)) xs) \<and> lm_size this = int (length xs)"

text \<open>What linking leaves alone.\<close>

definition frame :: "('k, 'v, 'z) LinkedMap_scheme \<Rightarrow> ('k, 'v, 'z) LinkedMap_scheme \<Rightarrow> bool" where
  "frame this t \<longleftrightarrow> length (lm_items t) = length (lm_items this) \<and> key t = key this \<and> val t = val this \<and>
     lm_map t = lm_map this \<and> lm_size t = lm_size this \<and> LinkedMap.more t = LinkedMap.more this"

lemma addItemFirst_linked:
  assumes "linked this xs" "item \<notin> set xs" "item < length (lm_items this)" "nx this item = None" "pv this item = None"
  shows "\<exists>t. addItemFirst this item = Inr t \<and> linked t (item # xs) \<and> frame this t \<and> lm_state t = lm_state this + 1"
  using assms by (cases xs) (auto simp: addItemFirst_def linked_def frame_def)

lemma addItemLast_linked:
  assumes "linked this xs" "item \<notin> set xs" "item < length (lm_items this)" "nx this item = None" "pv this item = None"
  shows "\<exists>t. addItemLast this item = Inr t \<and> linked t (xs @ [item]) \<and> frame this t \<and> lm_state t = lm_state this + 1"
  using assms by (cases xs rule: rev_cases) (auto simp: addItemLast_def linked_def frame_def)

text \<open>An item with its neighbours in a chain.\<close>

lemma linked_split:
  assumes "linked this (A @ x # B)"
  shows "(A = [] \<and> B = []) \<or> (\<exists>b B'. A = [] \<and> B = b # B') \<or> (\<exists>A' a. A = A' @ [a] \<and> B = []) \<or>
    (\<exists>A' a b B'. A = A' @ [a] \<and> B = b # B')"
  by (cases A rule: rev_cases; cases B) auto

lemma removeItem_linked:
  assumes "linked this (A @ x # B)"
  shows "\<exists>t. removeItem this x = Inr t \<and> linked t (A @ B) \<and> frame this t \<and> lm_state t = lm_state this + 1"
  using linked_split [OF assms] assms
  by (elim disjE exE conjE) (auto simp: removeItem_def linked_def frame_def Let_def)

definition touched :: "Touch \<Rightarrow> 'a \<Rightarrow> 'a list \<Rightarrow> 'a list \<Rightarrow> 'a list" where
  "touched touch x A B = (case touch of TouchNone \<Rightarrow> A @ x # B | AsOld \<Rightarrow> x # A @ B | AsNew \<Rightarrow> A @ B @ [x])"

text \<open>The state counts the changes of the order.\<close>

definition counts :: "('k, 'v, 'z) LinkedMap_scheme \<Rightarrow> bool \<Rightarrow> ('k, 'v, 'z) LinkedMap_scheme \<Rightarrow> bool" where
  "counts this changed t \<longleftrightarrow> (if changed then lm_state this < lm_state t else lm_state t = lm_state this)"

lemma LinkedMap_touch_linked:
  assumes "linked this (A @ x # B)"
  shows "\<exists>t. LinkedMap_touch this x touch = Inr t \<and> linked t (touched touch x A B) \<and> frame this t \<and>
    counts this (touched touch x A B \<noteq> A @ x # B) t"
proof (cases touch)
  case TouchNone
  with linked_split [OF assms] assms show ?thesis
    by (elim disjE exE conjE) (auto simp: LinkedMap_touch_def linked_def frame_def touched_def counts_def)
next
  case AsOld
  have "A = [] \<or> (\<exists>a. A = [a]) \<or> (\<exists>c C a. A = c # C @ [a])"
    by (cases A) (auto, metis rev_exhaust)
  with AsOld assms show ?thesis
    by (cases B; elim disjE exE)
      (auto simp: LinkedMap_touch_def linked_def frame_def touched_def counts_def Let_def)
next
  case AsNew
  have "B = [] \<or> (\<exists>b. B = [b]) \<or> (\<exists>b C c. B = b # C @ [c])"
    by (cases B) (auto, metis rev_exhaust)
  with AsNew assms show ?thesis
    by (cases A rule: rev_cases; elim disjE exE)
      (auto simp: LinkedMap_touch_def linked_def frame_def touched_def counts_def Let_def)
qed

subsection \<open>The map as a list of pairs\<close>

definition pairs :: "('k, 'v, 'z) LinkedMap_scheme \<Rightarrow> nat list \<Rightarrow> ('k \<times> 'v) list" where
  "pairs this xs = map (\<lambda>a. (key this a, val this a)) xs"

definition lm_rep :: "('k, 'v, 'z) LinkedMap_scheme \<Rightarrow> nat list \<Rightarrow> bool" where
  "lm_rep this xs \<longleftrightarrow> linked this xs \<and> indexed this xs"

definition lm_addrs :: "('k, 'v, 'z) LinkedMap_scheme \<Rightarrow> nat list" where
  "lm_addrs this = walk (nx this) (nat (lm_size this)) (lm_head this)"

lemma lm_addrs_rep: "lm_rep this xs \<Longrightarrow> lm_addrs this = xs"
  by (simp add: lm_rep_def linked_def indexed_def lm_addrs_def walk_fwd)

lemma pairs_simps [simp]:
  "pairs this [] = []" "pairs this (x # xs) = (key this x, val this x) # pairs this xs"
  "pairs this (xs @ ys) = pairs this xs @ pairs this ys" "length (pairs this xs) = length xs"
  "map fst (pairs this xs) = map (key this) xs" "fst ` set (pairs this xs) = key this ` set xs"
  by (simp_all add: pairs_def o_def image_image)

lemma pairs_cong: "(\<And>a. a \<in> set xs \<Longrightarrow> key t a = key this a \<and> val t a = val this a) \<Longrightarrow> pairs t xs = pairs this xs"
  by (simp add: pairs_def)

definition without :: "'k \<Rightarrow> ('k \<times> 'v) list \<Rightarrow> ('k \<times> 'v) list" where
  "without k es = filter (\<lambda>p. fst p \<noteq> k) es"

definition touch_pairs :: "Touch \<Rightarrow> 'k \<Rightarrow> ('k \<times> 'v) list \<Rightarrow> ('k \<times> 'v) list" where
  "touch_pairs touch k es =
     (let here = filter (\<lambda>p. fst p = k) es
      in case touch of TouchNone \<Rightarrow> es | AsOld \<Rightarrow> here @ without k es | AsNew \<Rightarrow> without k es @ here)"

definition set_pairs :: "'k \<Rightarrow> 'v \<Rightarrow> ('k \<times> 'v) list \<Rightarrow> ('k \<times> 'v) list" where
  "set_pairs k v es =
     (if k \<in> fst ` set es then map (\<lambda>p. if fst p = k then (k, v) else p) es else es @ [(k, v)])"

lemma without_id [simp]: "k \<notin> fst ` set es \<Longrightarrow> without k es = es"
  by (force simp: without_def intro: filter_True)

lemma without_append [simp]: "without k (xs @ ys) = without k xs @ without k ys"
  by (simp add: without_def)

lemma without_Cons [simp]: "without k (p # ys) = (if fst p = k then without k ys else p # without k ys)"
  by (simp add: without_def)

lemma here_Nil [simp]: "k \<notin> fst ` set es \<Longrightarrow> filter (\<lambda>p. fst p = k) es = []"
  by (force intro: filter_False)

lemma touch_pairs_touched:
  assumes "k \<notin> key this ` set A" "k \<notin> key this ` set B" "key this x = k"
  shows "touch_pairs touch k (pairs this (A @ x # B)) = pairs this (touched touch x A B)"
  using assms by (simp add: touch_pairs_def touched_def split: Touch.splits)

text \<open>
  An operation on a map that represents the pairs at \<open>xs\<close> gives one that represents \<open>es'\<close>; the state
  counts up if the operation counts as a change.
\<close>

definition becomes :: "('k, 'v, 'z) LinkedMap_scheme \<Rightarrow> nat list \<Rightarrow> ('k \<times> 'v) list \<Rightarrow> bool \<Rightarrow> ('k, 'v, 'z) LinkedMap_scheme \<Rightarrow> bool" where
  "becomes this xs es' changed t \<longleftrightarrow>
     (\<exists>xs'. lm_rep t xs' \<and> pairs t xs' = es' \<and> (\<not> changed \<longrightarrow> xs' = xs)) \<and> counts this changed t \<and>
     LinkedMap.more t = LinkedMap.more this"

lemma becomesI:
  "lm_rep t xs' \<Longrightarrow> pairs t xs' = es' \<Longrightarrow> (\<not> changed \<Longrightarrow> xs' = xs) \<Longrightarrow> counts this changed t \<Longrightarrow>
   LinkedMap.more t = LinkedMap.more this \<Longrightarrow> becomes this xs es' changed t"
  by (auto simp: becomes_def)

lemma becomes_refl: "lm_rep this xs \<Longrightarrow> becomes this xs (pairs this xs) False this"
  by (auto simp: becomes_def counts_def)

lemma lookup_None: "lm_rep this xs \<Longrightarrow> lm_map this k = None \<longleftrightarrow> k \<notin> key this ` set xs"
  by (auto simp: lm_rep_def indexed_def map_of_eq_None_iff image_image)

lemma lookup_Some:
  assumes "lm_rep this xs" "lm_map this k = Some a"
  obtains A B where "xs = A @ a # B" "key this a = k" "k \<notin> key this ` set A" "k \<notin> key this ` set B"
proof -
  have "(k, a) \<in> set (map (\<lambda>a. (key this a, a)) xs)"
    using assms by (auto simp: lm_rep_def indexed_def dest: map_of_SomeD)
  then have a: "a \<in> set xs" "key this a = k" by auto
  then obtain A B where "xs = A @ a # B" by (auto dest: split_list)
  moreover have "distinct (map (key this) xs)" using assms(1) by (simp add: lm_rep_def indexed_def)
  ultimately show ?thesis using a by (intro that [of A B]) auto
qed

lemma map_of_pairs: "k \<notin> key this ` set A \<Longrightarrow> key this a = k \<Longrightarrow> map_of (pairs this (A @ a # B)) k = Some (val this a)"
  by (simp add: map_add_def map_of_eq_None_iff [THEN iffD2])

lemma map_of_pairs_None: "k \<notin> key this ` set xs \<Longrightarrow> map_of (pairs this xs) k = None"
  by (simp add: map_of_eq_None_iff)

lemma set_touched [simp]: "set (touched touch x A B) = set (A @ x # B)" "length (touched touch x A B) = length (A @ x # B)"
  by (auto simp: touched_def split: Touch.splits)

lemma distinct_touched [simp]: "distinct (touched touch x A B) \<longleftrightarrow> distinct (A @ x # B)"
  by (auto simp: touched_def split: Touch.splits)

lemma map_of_keys_eq:
  assumes "distinct (map f xs)" "set ys = set xs" "distinct ys"
  shows "map_of (map (\<lambda>a. (f a, a)) ys) = map_of (map (\<lambda>a. (f a, a)) xs)" "distinct (map f ys)"
proof -
  show d: "distinct (map f ys)" using assms by (simp add: distinct_map)
  show "map_of (map (\<lambda>a. (f a, a)) ys) = map_of (map (\<lambda>a. (f a, a)) xs)"
    using assms d by (subst map_of_inject_set) (auto simp: o_def)
qed

lemma indexed_permute:
  assumes "indexed this xs" "frame this t" "set ys = set xs" "distinct ys" "length ys = length xs"
  shows "indexed t ys"
  using assms map_of_keys_eq [of "key this" xs ys] by (simp add: indexed_def frame_def)

lemma LinkedMap_touch_rep:
  assumes "lm_rep this (A @ x # B)" "key this x = k" "k \<notin> key this ` set A" "k \<notin> key this ` set B"
  shows "\<exists>t. LinkedMap_touch this x touch = Inr t \<and> frame this t \<and>
    becomes this (A @ x # B) (touch_pairs touch k (pairs this (A @ x # B)))
      (map fst (touch_pairs touch k (pairs this (A @ x # B))) \<noteq> map (key this) (A @ x # B)) t"
proof -
  let ?xs = "A @ x # B" and ?ys = "touched touch x A B"
  obtain t where t: "LinkedMap_touch this x touch = Inr t" "linked t ?ys" "frame this t" "counts this (?ys \<noteq> ?xs) t"
    using LinkedMap_touch_linked [of this A x B touch] assms(1) by (auto simp: lm_rep_def)
  have ix: "indexed this ?xs" and d: "distinct ?xs" using assms(1) by (simp_all add: lm_rep_def linked_def)
  have "indexed t ?ys" by (rule indexed_permute [OF ix t(3)]) (use d in simp_all)
  with t(2) have rep: "lm_rep t ?ys" by (simp add: lm_rep_def)
  have tp: "touch_pairs touch k (pairs this ?xs) = pairs this ?ys"
    using assms by (intro touch_pairs_touched) simp_all
  have "inj_on (key this) (set ?ys \<union> set ?xs)"
    unfolding set_touched Un_absorb using ix by (simp only: indexed_def distinct_map)
  then have ch: "map (key this) ?ys = map (key this) ?xs \<longleftrightarrow> ?ys = ?xs" by (rule inj_on_map_eq_map)
  have "pairs t ?ys = pairs this ?ys" using t(3) by (intro pairs_cong) (simp add: frame_def)
  then have "becomes this ?xs (pairs this ?ys) (?ys \<noteq> ?xs) t"
    using rep t(3,4) by (intro becomesI [of t ?ys]) (simp_all add: frame_def)
  with t(1,3) show ?thesis by (simp only: tp ch pairs_simps(5) not_False_eq_True) blast
qed

lemma LinkedMap_get_rep:
  assumes "lm_rep this xs"
  shows "\<exists>t. LinkedMap_get this k touch = Inr (map_of (pairs this xs) k, t) \<and>
    becomes this xs (touch_pairs touch k (pairs this xs)) (map fst (touch_pairs touch k (pairs this xs)) \<noteq> map (key this) xs) t"
proof (cases "lm_map this k")
  case None
  then have k: "k \<notin> fst ` set (pairs this xs)" using lookup_None [OF assms] by simp
  then have "touch_pairs touch k (pairs this xs) = pairs this xs"
    by (simp add: touch_pairs_def split: Touch.splits)
  with None assms k becomes_refl [OF assms] show ?thesis
    by (simp add: LinkedMap_get_def map_of_pairs_None)
next
  case (Some x)
  obtain A B where AB: "xs = A @ x # B" "key this x = k" "k \<notin> key this ` set A" "k \<notin> key this ` set B"
    using lookup_Some [OF assms Some] .
  obtain t where t: "LinkedMap_touch this x touch = Inr t" "frame this t"
    "becomes this (A @ x # B) (touch_pairs touch k (pairs this (A @ x # B)))
      (map fst (touch_pairs touch k (pairs this (A @ x # B))) \<noteq> map (key this) (A @ x # B)) t"
    using LinkedMap_touch_rep [OF _ AB(2-4)] assms AB(1) by blast
  have v: "map_of (pairs this xs) k = Some (val this x)" unfolding AB(1) by (rule map_of_pairs [OF AB(3,2)])
  show ?thesis
  proof (cases "touch = TouchNone")
    case True
    then show ?thesis using Some v becomes_refl [OF assms] by (simp add: LinkedMap_get_def touch_pairs_def)
  next
    case False
    then have "LinkedMap_get this k touch = Inr (map_of (pairs this xs) k, t)"
      using Some t(1,2) v by (simp add: LinkedMap_get_def frame_def)
    with t(3) AB(1) show ?thesis by blast
  qed
qed

lemma frame_more: "frame this t \<Longrightarrow> LinkedMap.more t = LinkedMap.more this"
  by (simp add: frame_def)

text \<open>A value is replaced in its item.\<close>

lemma set_value_rep:
  assumes "lm_rep this (A @ x # B)" "key this x = k" "k \<notin> key this ` set A" "k \<notin> key this ` set B"
  shows "lm_rep (set_value x v this) (A @ x # B)"
    "pairs (set_value x v this) (A @ x # B) = set_pairs k v (pairs this (A @ x # B))"
    "counts this False (set_value x v this)" "LinkedMap.more (set_value x v this) = LinkedMap.more this"
proof -
  have x: "x < length (lm_items this)" "x \<notin> set A" "x \<notin> set B"
    using assms(1) by (auto simp: lm_rep_def linked_def)
  then show "lm_rep (set_value x v this) (A @ x # B)"
    using assms(1) by (auto simp: lm_rep_def linked_def indexed_def)
  have same: "map (\<lambda>p. if fst p = k then (k, v) else p) (pairs this C) = pairs (set_value x v this) C"
    if "k \<notin> key this ` set C" "x \<notin> set C" for C
    using that x(1) by (auto simp: pairs_def)
  show "pairs (set_value x v this) (A @ x # B) = set_pairs k v (pairs this (A @ x # B))"
    using assms(2) x same [OF assms(3) x(2)] same [OF assms(4) x(3)] by (simp add: set_pairs_def)
qed (simp_all add: counts_def)

text \<open>A new item.\<close>

definition newItem :: "'k \<Rightarrow> 'v \<Rightarrow> ('k, 'v, 'z) LinkedMap_scheme \<Rightarrow> ('k, 'v, 'z) LinkedMap_scheme" where
  "newItem k v this =
     this\<lparr>lm_items := lm_items this @ [\<lparr>it_previous = None, it_next = None, it_key = k, it_value = v\<rparr>]\<rparr>"

lemma item_sel [simp]:
  "length (lm_items (newItem k v this)) = Suc (length (lm_items this))"
  "lm_head (newItem k v this) = lm_head this" "lm_tail (newItem k v this) = lm_tail this"
  "lm_map (newItem k v this) = lm_map this" "lm_size (newItem k v this) = lm_size this"
  "lm_state (newItem k v this) = lm_state this" "LinkedMap.more (newItem k v this) = LinkedMap.more this"
  by (simp_all add: newItem_def)

lemma item_new [simp]:
  "nx (newItem k v this) (length (lm_items this)) = None" "pv (newItem k v this) (length (lm_items this)) = None"
  "key (newItem k v this) (length (lm_items this)) = k" "val (newItem k v this) (length (lm_items this)) = v"
  by (simp_all add: newItem_def nx_def pv_def key_def val_def)

lemma item_old [simp]:
  "a < length (lm_items this) \<Longrightarrow> nx (newItem k v this) a = nx this a"
  "a < length (lm_items this) \<Longrightarrow> pv (newItem k v this) a = pv this a"
  "a < length (lm_items this) \<Longrightarrow> key (newItem k v this) a = key this a"
  "a < length (lm_items this) \<Longrightarrow> val (newItem k v this) a = val this a"
  by (simp_all add: newItem_def nx_def pv_def key_def val_def nth_append)

lemma item_rep:
  assumes "lm_rep this xs"
  shows "lm_rep (newItem k v this) xs" "pairs (newItem k v this) xs = pairs this xs"
proof -
  have xs: "a < length (lm_items this)" if "a \<in> set xs" for a
    using that assms by (auto simp: lm_rep_def linked_def)
  have links: "fwd (nx (newItem k v this)) xs None = fwd (nx this) xs None" "bwd (pv (newItem k v this)) None xs = bwd (pv this) None xs"
    by (rule fwd_cong, simp add: xs) (rule bwd_cong, simp add: xs)
  have keys: "map (key (newItem k v this)) xs = map (key this) xs"
    "map (\<lambda>a. (key (newItem k v this) a, a)) xs = map (\<lambda>a. (key this a, a)) xs"
    by (simp_all add: xs)
  show "lm_rep (newItem k v this) xs"
    using assms xs unfolding lm_rep_def linked_def indexed_def links keys by (auto simp: less_Suc_eq subset_iff)
  show "pairs (newItem k v this) xs = pairs this xs" by (rule pairs_cong) (simp add: xs)
qed

lemma LinkedMap_set_rep:
  assumes "lm_rep this xs"
  shows "\<exists>t. LinkedMap_set this k v touch = Inr t \<and>
    becomes this xs (touch_pairs touch k (set_pairs k v (pairs this xs)))
      (map fst (touch_pairs touch k (set_pairs k v (pairs this xs))) \<noteq> map (key this) xs) t"
proof (cases "lm_map this k")
  case (Some x)
  obtain A B where AB: "xs = A @ x # B" "key this x = k" "k \<notin> key this ` set A" "k \<notin> key this ` set B"
    using lookup_Some [OF assms Some] .
  let ?t = "set_value x v this"
  note sv = set_value_rep [OF assms [unfolded AB(1)] AB(2-4), of v]
  obtain t where t: "LinkedMap_touch ?t x touch = Inr t" "frame ?t t"
    "becomes ?t xs (touch_pairs touch k (set_pairs k v (pairs this xs)))
      (map fst (touch_pairs touch k (set_pairs k v (pairs this xs))) \<noteq> map (key this) xs) t"
    using LinkedMap_touch_rep [OF sv(1), of k touch] AB sv(2) by auto
  have lift: "becomes ?t xs es ch t' \<Longrightarrow> becomes this xs es ch t'" for es ch t'
    by (auto simp: becomes_def counts_def split: if_splits)
  show ?thesis
  proof (cases "touch = TouchNone")
    case True
    then have "LinkedMap_set this k v touch = Inr ?t" using Some by (simp add: LinkedMap_set_def)
    moreover have "becomes this xs (pairs ?t xs) False ?t" using lift becomes_refl [OF sv(1)] AB(1) by simp
    moreover have "map fst (set_pairs k v (pairs this xs)) = map (key this) xs"
      using sv(2) AB(1) pairs_simps(5) [of ?t xs] by simp
    ultimately show ?thesis using True sv(2) AB(1) by (simp add: touch_pairs_def)
  next
    case False
    then have "LinkedMap_set this k v touch = Inr t" using Some t(1) by (simp add: LinkedMap_set_def)
    with lift [OF t(3)] show ?thesis by blast
  qed
next
  case None
  let ?n = "length (lm_items this)" and ?t = "newItem k v this"
  have k: "k \<notin> key this ` set xs" using lookup_None [OF assms, of k] None by simp
  have set: "set_pairs k v (pairs this xs) = pairs this xs @ [(k, v)]" using k by (simp add: set_pairs_def)
  let ?ys = "case touch of AsOld \<Rightarrow> ?n # xs | _ \<Rightarrow> xs @ [?n]"
  have xs: "?n \<notin> set xs" using assms by (auto simp: lm_rep_def linked_def)
  have "linked ?t xs" using item_rep(1) [OF assms] by (simp add: lm_rep_def)
  then have "\<exists>t. (case touch of AsOld \<Rightarrow> addItemFirst ?t ?n | _ \<Rightarrow> addItemLast ?t ?n) = Inr t \<and>
      linked t ?ys \<and> frame ?t t \<and> lm_state t = lm_state ?t + 1"
    using xs addItemFirst_linked [of ?t xs ?n] addItemLast_linked [of ?t xs ?n] by (cases touch) simp_all
  then obtain t where t: "(case touch of AsOld \<Rightarrow> addItemFirst ?t ?n | _ \<Rightarrow> addItemLast ?t ?n) = Inr t"
    "linked t ?ys" "frame ?t t" "lm_state t = lm_state this + 1" by auto
  let ?t' = "t\<lparr>lm_map := (lm_map t)(k \<mapsto> ?n), lm_size := lm_size t + 1\<rparr>"
  have "LinkedMap_set this k v touch =
      bindE (case touch of AsOld \<Rightarrow> addItemFirst ?t ?n | _ \<Rightarrow> addItemLast ?t ?n)
        (\<lambda>t. Inr (t\<lparr>lm_map := (lm_map t)(k \<mapsto> ?n), lm_size := lm_size t + 1\<rparr>))"
    using None by (cases touch) (simp_all add: LinkedMap_set_def newItem_def Let_def)
  then have "LinkedMap_set this k v touch = Inr ?t'" by (simp only: t(1) bindE_simps)
  moreover have "becomes this xs (touch_pairs touch k (pairs this xs @ [(k, v)]))
      (map fst (touch_pairs touch k (pairs this xs @ [(k, v)])) \<noteq> map (key this) xs) ?t'"
  proof (rule becomesI [of _ ?ys])
    have old: "key ?t a = key this a" "val ?t a = val this a" if "a \<in> set xs" for a
      using that assms by (auto simp: lm_rep_def linked_def)
    have fr: "key t = key ?t" "val t = val ?t" "lm_map t = lm_map this" "lm_size t = lm_size this"
      using t(3) by (simp_all add: frame_def)
    have keys: "map (key ?t) xs = map (key this) xs" "map (\<lambda>a. (key ?t a, a)) xs = map (\<lambda>a. (key this a, a)) xs"
      using old by simp_all
    have "indexed ?t' (?n # xs)"
      using assms k unfolding lm_rep_def indexed_def by (simp add: fr keys)
    then have "indexed ?t' ?ys"
      by (rule indexed_permute [where t = ?t']) (use xs assms in \<open>auto simp: frame_def lm_rep_def linked_def split: Touch.splits\<close>)
    moreover have "linked ?t' ?ys" using t(2) by (simp add: linked_def)
    ultimately show "lm_rep ?t' ?ys" by (simp add: lm_rep_def)
    have "pairs ?t' xs = pairs this xs" by (rule pairs_cong) (simp add: fr old)
    then show "pairs ?t' ?ys = touch_pairs touch k (pairs this xs @ [(k, v)])"
      using k by (simp add: touch_pairs_def fr split: Touch.splits)
    have "length (touch_pairs touch k (pairs this xs @ [(k, v)])) = Suc (length xs)"
      using k by (simp add: touch_pairs_def Let_def split: Touch.splits)
    then have ch: "map fst (touch_pairs touch k (pairs this xs @ [(k, v)])) \<noteq> map (key this) xs"
      by (metis length_map n_not_Suc_n)
    then show "\<not> map fst (touch_pairs touch k (pairs this xs @ [(k, v)])) \<noteq> map (key this) xs \<Longrightarrow> ?ys = xs" by blast
    show "counts this (map fst (touch_pairs touch k (pairs this xs @ [(k, v)])) \<noteq> map (key this) xs) ?t'"
      using ch t(4) by (simp add: counts_def)
    show "LinkedMap.more ?t' = LinkedMap.more this" using frame_more [OF t(3)] by simp
  qed
  ultimately show ?thesis unfolding set by blast
qed

text \<open>Taking an item out of the index and the list.\<close>

lemma unlink_rep:
  assumes "lm_rep this (A @ x # B)" "key this x = k"
  shows "\<exists>t. removeItem (this\<lparr>lm_map := (lm_map this)(k := None)\<rparr>) x = Inr t \<and> val t x = val this x \<and>
    becomes this (A @ x # B) (without k (pairs this (A @ x # B))) True (t\<lparr>lm_size := lm_size t - 1\<rparr>)"
proof -
  let ?u = "this\<lparr>lm_map := (lm_map this)(k := None)\<rparr>"
  have "linked ?u (A @ x # B)" using assms(1) by (simp add: lm_rep_def linked_def)
  from removeItem_linked [OF this] obtain t where t: "removeItem ?u x = Inr t" "linked t (A @ B)" "frame ?u t"
    "lm_state t = lm_state this + 1" by auto
  let ?t = "t\<lparr>lm_size := lm_size t - 1\<rparr>"
  have d: "distinct (map (key this) (A @ x # B))" and ix: "lm_map this = map_of (map (\<lambda>a. (key this a, a)) (A @ x # B))"
    "lm_size this = int (length (A @ x # B))"
    using assms(1) by (simp_all add: lm_rep_def indexed_def)
  have k: "k \<notin> key this ` set A" "k \<notin> key this ` set B" using d assms(2) by auto
  have fr: "key t = key this" "val t = val this" "lm_size t = lm_size this" "lm_map t = (lm_map this)(k := None)"
    using t(3) by (simp_all add: frame_def)
  have none: "map_of (map (\<lambda>a. (key this a, a)) C) k = None" if "k \<notin> key this ` set C" for C
    using that by (force simp: map_of_eq_None_iff)
  have "(map_of (map (\<lambda>a. (key this a, a)) (A @ x # B)))(k := None) = map_of (map (\<lambda>a. (key this a, a)) (A @ B))"
  proof
    fix c
    show "((map_of (map (\<lambda>a. (key this a, a)) (A @ x # B)))(k := None)) c = map_of (map (\<lambda>a. (key this a, a)) (A @ B)) c"
      using none [OF k(1)] none [OF k(2)] assms(2) by (cases "c = k") (simp_all add: map_add_def split: option.splits)
  qed
  then have "indexed ?t (A @ B)" using d ix fr by (simp add: indexed_def)
  then have "lm_rep ?t (A @ B)" using t(2) by (simp add: lm_rep_def linked_def)
  moreover have "pairs ?t (A @ B) = without k (pairs this (A @ x # B))"
    using k assms(2) fr pairs_cong [of A ?t this] pairs_cong [of B ?t this] by simp
  ultimately have "becomes this (A @ x # B) (without k (pairs this (A @ x # B))) True ?t"
    using t(4) frame_more [OF t(3)] by (intro becomesI [of _ "A @ B"]) (simp_all add: counts_def)
  with t(1) fr(2) show ?thesis by auto
qed

lemma LinkedMap_remove_rep:
  assumes "lm_rep this xs"
  shows "\<exists>t. LinkedMap_remove this k = Inr (map_of (pairs this xs) k, t) \<and>
    becomes this xs (without k (pairs this xs)) (map fst (without k (pairs this xs)) \<noteq> map (key this) xs) t"
proof (cases "lm_map this k")
  case None
  then have k: "k \<notin> key this ` set xs" using lookup_None [OF assms] by simp
  with None becomes_refl [OF assms] show ?thesis by (simp add: LinkedMap_remove_def map_of_pairs_None)
next
  case (Some x)
  obtain A B where AB: "xs = A @ x # B" "key this x = k" "k \<notin> key this ` set A" "k \<notin> key this ` set B"
    using lookup_Some [OF assms Some] .
  obtain t where t: "removeItem (this\<lparr>lm_map := (lm_map this)(k := None)\<rparr>) x = Inr t" "val t x = val this x"
    "becomes this xs (without k (pairs this xs)) True (t\<lparr>lm_size := lm_size t - 1\<rparr>)"
    using unlink_rep [of this A x B k] assms AB(1,2) by blast
  have "length (without k (pairs this xs)) < length xs" using AB by simp
  then have "map fst (without k (pairs this xs)) \<noteq> map (key this) xs" by (metis length_map less_irrefl)
  moreover have "map_of (pairs this xs) k = Some (val this x)" unfolding AB(1) by (rule map_of_pairs [OF AB(3,2)])
  ultimately show ?thesis using Some t by (simp add: LinkedMap_remove_def)
qed

lemma LinkedMap_shift_rep:
  assumes "lm_rep this xs"
  shows "\<exists>t. LinkedMap_shift this = Inr (if xs = [] then None else Some (val this (hd xs)), t) \<and>
    becomes this xs (tl (pairs this xs)) (xs \<noteq> []) t"
proof (cases xs)
  case Nil
  with assms becomes_refl [OF assms] show ?thesis by (auto simp: LinkedMap_shift_def lm_rep_def linked_def)
next
  case (Cons x ys)
  obtain y where "last_ref (Some x) ys = Some y" using refs_Some(2) [of x ys] by blast
  then have ends: "lm_head this = Some x" "lm_tail this = Some y"
    using assms Cons by (auto simp: lm_rep_def linked_def)
  have k: "key this x \<notin> key this ` set ys" using assms Cons by (auto simp: lm_rep_def indexed_def)
  obtain t where t: "removeItem (this\<lparr>lm_map := (lm_map this)(key this x := None)\<rparr>) x = Inr t" "val t x = val this x"
    "becomes this xs (without (key this x) (pairs this xs)) True (t\<lparr>lm_size := lm_size t - 1\<rparr>)"
    using unlink_rep [of this "[]" x ys "key this x"] assms Cons by auto
  have "without (key this x) (pairs this xs) = tl (pairs this xs)" using Cons k by simp
  with t ends Cons show ?thesis by (simp add: LinkedMap_shift_def)
qed

text \<open>Cutting off one end.\<close>

lemma restrict_UNIV [simp]: "m |` UNIV = m"
  by (simp add: restrict_map_def)

lemma restrict_step [simp]: "(\<lambda>a. if a = k then None else m a) |` (- S) = m |` (- insert k S)"
  by (auto simp: restrict_map_def fun_eq_iff)

lemma trimOld_loop_eq:
  assumes "fwd (nx this) (A @ B) None"
  shows "trimOld_loop (int (length B)) this (head_ref (A @ B) None) (int (length (A @ B))) =
    (this\<lparr>lm_map := lm_map this |` (- key this ` set A)\<rparr>, head_ref B None, int (length B))"
  using assms
proof (induction A arbitrary: this)
  case Nil
  then show ?case by (subst trimOld_loop.simps) (simp split: option.splits)
next
  case (Cons x A)
  let ?t = "this\<lparr>lm_map := (lm_map this)(key this x := None)\<rparr>"
  from Cons.IH [of ?t] Cons.prems show ?case by (subst trimOld_loop.simps) (simp add: Let_def)
qed

lemma trimNew_loop_eq:
  assumes "bwd (pv this) None (A @ B)"
  shows "trimNew_loop (int (length A)) this (last_ref None (A @ B)) (int (length (A @ B))) =
    (this\<lparr>lm_map := lm_map this |` (- key this ` set B)\<rparr>, last_ref None A, int (length A))"
  using assms
proof (induction B arbitrary: this rule: rev_induct)
  case Nil
  then show ?case by (subst trimNew_loop.simps) (simp split: option.splits)
next
  case (snoc x B)
  let ?t = "this\<lparr>lm_map := (lm_map this)(key this x := None)\<rparr>"
  from snoc.IH [of ?t] snoc.prems show ?case by (subst trimNew_loop.simps) (simp add: Let_def)
qed

lemma map_of_restrict:
  assumes "distinct (map f (A @ B))"
  shows "map_of (map (\<lambda>a. (f a, a)) (A @ B)) |` (- f ` set A) = map_of (map (\<lambda>a. (f a, a)) B)"
    "map_of (map (\<lambda>a. (f a, a)) (A @ B)) |` (- f ` set B) = map_of (map (\<lambda>a. (f a, a)) A)"
proof -
  have none: "map_of (map (\<lambda>a. (f a, a)) C) k = None \<longleftrightarrow> k \<notin> f ` set C" for C k
    by (force simp: map_of_eq_None_iff)
  have "f ` set A \<inter> f ` set B = {}" using assms by auto
  then have dis: "k \<notin> f ` set A \<or> k \<notin> f ` set B" for k by blast
  show "map_of (map (\<lambda>a. (f a, a)) (A @ B)) |` (- f ` set A) = map_of (map (\<lambda>a. (f a, a)) B)"
  proof
    fix k
    show "(map_of (map (\<lambda>a. (f a, a)) (A @ B)) |` (- f ` set A)) k = map_of (map (\<lambda>a. (f a, a)) B) k"
      using none [of A k] none [of B k] dis [of k] by (cases "k \<in> f ` set A") (simp_all add: restrict_map_def map_add_def)
  qed
  show "map_of (map (\<lambda>a. (f a, a)) (A @ B)) |` (- f ` set B) = map_of (map (\<lambda>a. (f a, a)) A)"
  proof
    fix k
    show "(map_of (map (\<lambda>a. (f a, a)) (A @ B)) |` (- f ` set B)) k = map_of (map (\<lambda>a. (f a, a)) A) k"
      using none [of A k] none [of B k] dis [of k]
      by (cases "k \<in> f ` set B") (auto simp: restrict_map_def map_add_def split: option.splits)
  qed
qed

lemma LinkedMap_clear_rep: "becomes this xs [] True (LinkedMap_clear this)"
  by (rule becomesI [of _ "[]"]) (simp_all add: LinkedMap_clear_def lm_rep_def linked_def indexed_def counts_def)

lemma LinkedMap_trimOld_rep:
  assumes "lm_rep this xs" "0 \<le> newSize"
  shows "becomes this xs (drop (length xs - nat newSize) (pairs this xs)) (newSize < int (length xs)) (LinkedMap_trimOld this newSize)"
proof -
  let ?n = "length xs - nat newSize"
  have size: "lm_size this = int (length xs)" using assms(1) by (simp add: lm_rep_def indexed_def)
  consider "newSize \<ge> int (length xs)" | "newSize < int (length xs)" "newSize = 0" | "newSize < int (length xs)" "0 < newSize"
    using assms(2) by linarith
  then show ?thesis
  proof cases
    case 1
    with becomes_refl [OF assms(1)] size show ?thesis by (simp add: LinkedMap_trimOld_def)
  next
    case 2
    with LinkedMap_clear_rep [of this xs] size show ?thesis by (simp add: LinkedMap_trimOld_def)
  next
    case 3
    let ?A = "take ?n xs" and ?B = "drop ?n xs"
    have B: "int (length ?B) = newSize" "?B \<noteq> []" using 3 by auto
    then obtain b B' where b: "?B = b # B'" by (cases ?B) auto
    have e: "head_ref ?B None = Some b" by (simp only: b) simp
    have lk: "linked this (?A @ ?B)" "indexed this (?A @ ?B)" using assms(1) by (simp_all add: lm_rep_def)
    let ?u = "this\<lparr>lm_map := lm_map this |` (- key this ` set ?A)\<rparr>"
    let ?t = "inc_state (set_previous b None (?u\<lparr>lm_head := Some b, lm_size := newSize\<rparr>))"
    have "trimOld_loop newSize this (lm_head this) (lm_size this) = (?u, Some b, newSize)"
      using trimOld_loop_eq [of this ?A ?B] lk(1) B(1) e size 3 by (simp add: linked_def del: head_ref_append length_append)
    then have t: "LinkedMap_trimOld this newSize = ?t" using 3 size by (simp add: LinkedMap_trimOld_def)
    have "b < length (lm_items this)" "distinct (?A @ ?B)" using lk(1) b by (auto simp: linked_def)
    then have "linked ?t ?B" using lk(1) b by (auto simp: linked_def)
    moreover have "distinct (map (key this) ?B)" using lk(2) unfolding indexed_def by (metis distinct_append map_append)
    then have "indexed ?t ?B" using lk(2) B(1) map_of_restrict(1) [of "key this" ?A ?B] by (simp add: indexed_def)
    ultimately have "lm_rep ?t ?B" by (simp add: lm_rep_def)
    moreover have "pairs ?t ?B = drop ?n (pairs this xs)" by (simp add: pairs_def drop_map)
    ultimately show ?thesis using 3 unfolding t by (intro becomesI [of _ ?B]) (simp_all add: counts_def)
  qed
qed

lemma LinkedMap_trimNew_rep:
  assumes "lm_rep this xs" "0 \<le> newSize"
  shows "becomes this xs (take (nat newSize) (pairs this xs)) (newSize < int (length xs)) (LinkedMap_trimNew this newSize)"
proof -
  let ?n = "nat newSize"
  have size: "lm_size this = int (length xs)" using assms(1) by (simp add: lm_rep_def indexed_def)
  consider "newSize \<ge> int (length xs)" | "newSize < int (length xs)" "newSize = 0" | "newSize < int (length xs)" "0 < newSize"
    using assms(2) by linarith
  then show ?thesis
  proof cases
    case 1
    with becomes_refl [OF assms(1)] size show ?thesis by (simp add: LinkedMap_trimNew_def)
  next
    case 2
    with LinkedMap_clear_rep [of this xs] size show ?thesis by (simp add: LinkedMap_trimNew_def)
  next
    case 3
    let ?A = "take ?n xs" and ?B = "drop ?n xs"
    have A: "int (length ?A) = newSize" "?A \<noteq> []" using 3 by auto
    then obtain a A' where a: "?A = A' @ [a]" using rev_exhaust by blast
    have e: "last_ref None ?A = Some a" by (simp only: a) simp
    have lk: "linked this (?A @ ?B)" "indexed this (?A @ ?B)" using assms(1) by (simp_all add: lm_rep_def)
    let ?u = "this\<lparr>lm_map := lm_map this |` (- key this ` set ?B)\<rparr>"
    let ?t = "inc_state (set_next a None (?u\<lparr>lm_tail := Some a, lm_size := newSize\<rparr>))"
    have "trimNew_loop newSize this (lm_tail this) (lm_size this) = (?u, Some a, newSize)"
      using trimNew_loop_eq [of this ?A ?B] lk(1) A(1) e size 3 by (simp add: linked_def del: last_ref_append length_append)
    then have t: "LinkedMap_trimNew this newSize = ?t" using 3 size by (simp add: LinkedMap_trimNew_def)
    have "a < length (lm_items this)" "distinct (?A @ ?B)" using lk(1) a by (auto simp: linked_def)
    then have "linked ?t ?A" using lk(1) a by (auto simp: linked_def)
    moreover have "distinct (map (key this) ?A)" using lk(2) unfolding indexed_def by (metis distinct_append map_append)
    then have "indexed ?t ?A" using lk(2) A(1) map_of_restrict(2) [of "key this" ?A ?B] by (simp add: indexed_def)
    ultimately have "lm_rep ?t ?A" by (simp add: lm_rep_def)
    moreover have "pairs ?t ?A = take ?n (pairs this xs)" by (simp add: pairs_def take_map)
    ultimately show ?thesis using 3 unfolding t by (intro becomesI [of _ ?A]) (simp_all add: counts_def)
  qed
qed

text \<open>Visiting the pairs in order.\<close>

lemma forEach_loop_quiet:
  assumes "fwd (nx this) xs None"
    "\<And>k v e. callbackfn v k (this, e) = Inr (this, f e (k, v))"
  shows "forEach_loop callbackfn (lm_state this) (head_ref xs None) (this, e) = Some (Inr (this, foldl f e (pairs this xs)))"
  using assms(1)
proof (induction xs arbitrary: e)
  case Nil
  then show ?case by (subst forEach_loop.simps) simp
next
  case (Cons x xs)
  then show ?case using assms(2) by (subst forEach_loop.simps) simp
qed

lemma LinkedMap_forEach_rep:
  assumes "lm_rep this xs" "\<And>k v e. callbackfn v k (this, e) = Inr (this, f e (k, v))"
  shows "LinkedMap_forEach callbackfn (this, e) = Some (Inr (this, foldl f e (pairs this xs)))"
  using forEach_loop_quiet [of this xs callbackfn f e] assms
  by (simp add: LinkedMap_forEach_def lm_rep_def linked_def)

lemma LinkedMap_toJSON_rep: "lm_rep this xs \<Longrightarrow> LinkedMap_toJSON this = Some (Inr (pairs this xs))"
proof -
  have "foldl (\<lambda>es p. es @ [p]) es ps = es @ ps" for es ps :: "('a \<times> 'b) list"
    by (induction ps arbitrary: es) simp_all
  moreover assume "lm_rep this xs"
  then have "LinkedMap_forEach (\<lambda>v k s. Inr (fst s, snd s @ [(k, v)])) (this, []) =
      Some (Inr (this, foldl (\<lambda>es p. es @ [p]) [] (pairs this xs)))"
    by (rule LinkedMap_forEach_rep) simp
  ultimately show ?thesis by (simp add: LinkedMap_toJSON_def)
qed

definition of_pairs :: "('k \<times> 'v) list \<Rightarrow> ('k \<times> 'v) list" where
  "of_pairs data = foldl (\<lambda>es (k, v). set_pairs k v es) [] data"

lemma touch_pairs_none [simp]: "touch_pairs TouchNone k es = es"
  by (simp add: touch_pairs_def)

lemma sets_rep:
  assumes "lm_rep this xs"
  shows "\<exists>t xs'. foldE (\<lambda>t (k, v). LinkedMap_set t k v TouchNone) this data = Inr t \<and> lm_rep t xs' \<and>
    pairs t xs' = foldl (\<lambda>es (k, v). set_pairs k v es) (pairs this xs) data \<and> lm_state this \<le> lm_state t \<and>
    LinkedMap.more t = LinkedMap.more this"
  using assms
proof (induction data arbitrary: this xs)
  case Nil
  then show ?case by auto
next
  case (Cons p data)
  obtain k v where p: "p = (k, v)" by force
  obtain t xs' where t: "LinkedMap_set this k v TouchNone = Inr t" "lm_rep t xs'" "pairs t xs' = set_pairs k v (pairs this xs)"
    "lm_state this \<le> lm_state t" "LinkedMap.more t = LinkedMap.more this"
    using LinkedMap_set_rep [OF Cons.prems, of k v TouchNone] by (auto simp: becomes_def counts_def split: if_splits)
  from Cons.IH [OF t(2)] t p show ?case by auto
qed

lemma LinkedMap_fromJSON_rep: "\<exists>t. LinkedMap_fromJSON this data = Inr t \<and> becomes this xs (of_pairs data) True t"
proof -
  let ?c = "LinkedMap_clear this"
  have c: "lm_rep ?c []" "lm_state this < lm_state ?c" "LinkedMap.more ?c = LinkedMap.more this"
    by (simp_all add: LinkedMap_clear_def lm_rep_def linked_def indexed_def)
  from sets_rep [OF c(1), of data] c(2,3) show ?thesis
    by (auto simp: LinkedMap_fromJSON_def becomes_def counts_def of_pairs_def)
qed

end
