(* ===== verification/Map_Refinement.thy ===== *)
theory Map_Refinement
  imports Linked_Map
begin

text \<open>
  The contract of \<open>LinkedMap\<close>: a map with the iterators handed out so far answers every sequence of
  operations like a list of pairs with distinct keys, on which an iterator is a position that is lost
  when the order changes.
\<close>

datatype ('k, 'v) map_op = Clear | IsEmpty | Size | First | Last | Has 'k | Get 'k Touch | Set 'k 'v Touch
  | Delete 'k | Remove 'k | Shift | TrimOld int | TrimNew int | ToJSON | FromJSON "('k \<times> 'v) list"
  | Iterate | NextKey nat | NextValue nat | NextEntry nat

datatype ('k, 'v) map_result = Done | Flag bool | Num int | Val "'v option" | Pairs "('k \<times> 'v) list"
  | Key "'k option" | Entry "('k \<times> 'v) option" | Threw js_error

type_synonym ('k, 'v) map_contents = "('k \<times> 'v) list \<times> nat option list"

text \<open>The operations on the pairs.\<close>

fun pairs_spec :: "('v \<Rightarrow> bool) \<Rightarrow> ('k \<times> 'v) list \<Rightarrow> ('k, 'v) map_op \<Rightarrow> ('k, 'v) map_result \<times> ('k \<times> 'v) list" where
  "pairs_spec truthy es Clear = (Done, [])"
| "pairs_spec truthy es IsEmpty = (Flag (es = []), es)"
| "pairs_spec truthy es Size = (Num (int (length es)), es)"
| "pairs_spec truthy es First = (Val (if es = [] then None else Some (snd (hd es))), es)"
| "pairs_spec truthy es Last = (Val (if es = [] then None else Some (snd (last es))), es)"
| "pairs_spec truthy es (Has k) = (Flag (k \<in> fst ` set es), es)"
| "pairs_spec truthy es (Get k touch) = (Val (map_of es k), touch_pairs touch k es)"
| "pairs_spec truthy es (Set k v touch) = (Done, touch_pairs touch k (set_pairs k v es))"
| "pairs_spec truthy es (Delete k) = (Flag (case map_of es k of None \<Rightarrow> False | Some v \<Rightarrow> truthy v), without k es)"
| "pairs_spec truthy es (Remove k) = (Val (map_of es k), without k es)"
| "pairs_spec truthy es Shift = (Val (if es = [] then None else Some (snd (hd es))), tl es)"
| "pairs_spec truthy es (TrimOld n) = (Done, drop (length es - nat n) es)"
| "pairs_spec truthy es (TrimNew n) = (Done, take (nat n) es)"
| "pairs_spec truthy es ToJSON = (Pairs es, es)"
| "pairs_spec truthy es (FromJSON data) = (Done, of_pairs data)"
| "pairs_spec truthy es _ = (Done, es)"

text \<open>An operation invalidates the iterators if it changes the keys or their order, or empties the map.\<close>

definition invalidates :: "('k \<times> 'v) list \<Rightarrow> ('k, 'v) map_op \<Rightarrow> ('k \<times> 'v) list \<Rightarrow> bool" where
  "invalidates es p es' \<longleftrightarrow> map fst es' \<noteq> map fst es \<or> p = Clear \<or> (\<exists>data. p = FromJSON data)"

definition next_spec :: "(('k \<times> 'v) option \<Rightarrow> ('k, 'v) map_result) \<Rightarrow> nat \<Rightarrow> ('k, 'v) map_contents \<Rightarrow> ('k, 'v) map_result \<times> ('k, 'v) map_contents" where
  "next_spec result i c =
     (case c of (es, its) \<Rightarrow>
        (case its ! i of
           None \<Rightarrow> (Threw Error, c)
         | Some j \<Rightarrow> if j < length es then (result (Some (es ! j)), (es, its[i := Some (Suc j)])) else (result None, c)))"

definition map_spec :: "('v \<Rightarrow> bool) \<Rightarrow> ('k, 'v) map_contents \<Rightarrow> ('k, 'v) map_op \<Rightarrow> ('k, 'v) map_result \<times> ('k, 'v) map_contents" where
  "map_spec truthy c p =
     (case p of
        Iterate \<Rightarrow> (Done, (fst c, snd c @ [Some 0]))
      | NextKey i \<Rightarrow> next_spec (\<lambda>e. Key (map_option fst e)) i c
      | NextValue i \<Rightarrow> next_spec (\<lambda>e. Val (map_option snd e)) i c
      | NextEntry i \<Rightarrow> next_spec Entry i c
      | _ \<Rightarrow> (case pairs_spec truthy (fst c) p of (r, es') \<Rightarrow>
               (r, (es', if invalidates (fst c) p es' then map (\<lambda>_. None) (snd c) else snd c))))"

fun map_legal :: "('k, 'v) map_contents \<Rightarrow> ('k, 'v) map_op \<Rightarrow> bool" where
  "map_legal c (TrimOld n) \<longleftrightarrow> 0 \<le> n"
| "map_legal c (TrimNew n) \<longleftrightarrow> 0 \<le> n"
| "map_legal c (NextKey i) \<longleftrightarrow> i < length (snd c)"
| "map_legal c (NextValue i) \<longleftrightarrow> i < length (snd c)"
| "map_legal c (NextEntry i) \<longleftrightarrow> i < length (snd c)"
| "map_legal c _ \<longleftrightarrow> True"

text \<open>How the class carries the operations out. A thrown exception of an iterator is an answer.\<close>

definition next_step :: "('r option \<Rightarrow> ('k, 'v) map_result) \<Rightarrow>
    (('k, 'v) LinkedMap \<Rightarrow> MapIterator \<Rightarrow> js_error + 'r option \<times> MapIterator) \<Rightarrow> nat \<Rightarrow>
    ('k, 'v) LinkedMap \<times> MapIterator list \<Rightarrow> ('k, 'v) map_result \<times> ('k, 'v) LinkedMap \<times> MapIterator list" where
  "next_step result nextItem i s =
     (case nextItem (fst s) (snd s ! i) of
        Inl e \<Rightarrow> (Threw e, s)
      | Inr (r, it) \<Rightarrow> (result r, (fst s, (snd s)[i := it])))"

fun LinkedMap_step :: "('v \<Rightarrow> bool) \<Rightarrow> ('k, 'v) LinkedMap \<times> MapIterator list \<Rightarrow> ('k, 'v) map_op \<Rightarrow>
    js_error option + ('k, 'v) map_result \<times> ('k, 'v) LinkedMap \<times> MapIterator list" where
  "LinkedMap_step truthy (this, its) Clear = Inr (Done, (LinkedMap_clear this, its))"
| "LinkedMap_step truthy (this, its) IsEmpty = Inr (Flag (LinkedMap_isEmpty this), (this, its))"
| "LinkedMap_step truthy (this, its) Size = Inr (Num (lm_size this), (this, its))"
| "LinkedMap_step truthy (this, its) First = Inr (Val (LinkedMap_first this), (this, its))"
| "LinkedMap_step truthy (this, its) Last = Inr (Val (LinkedMap_last this), (this, its))"
| "LinkedMap_step truthy (this, its) (Has k) = Inr (Flag (LinkedMap_has this k), (this, its))"
| "LinkedMap_step truthy (this, its) (Get k touch) =
     bindE (throws (LinkedMap_get this k touch)) (\<lambda>(r, t). Inr (Val r, (t, its)))"
| "LinkedMap_step truthy (this, its) (Set k v touch) =
     bindE (throws (LinkedMap_set this k v touch)) (\<lambda>t. Inr (Done, (t, its)))"
| "LinkedMap_step truthy (this, its) (Delete k) =
     bindE (throws (LinkedMap_delete truthy this k)) (\<lambda>(r, t). Inr (Flag r, (t, its)))"
| "LinkedMap_step truthy (this, its) (Remove k) =
     bindE (throws (LinkedMap_remove this k)) (\<lambda>(r, t). Inr (Val r, (t, its)))"
| "LinkedMap_step truthy (this, its) Shift =
     bindE (throws (LinkedMap_shift this)) (\<lambda>(r, t). Inr (Val r, (t, its)))"
| "LinkedMap_step truthy (this, its) (TrimOld n) = Inr (Done, (LinkedMap_trimOld this n, its))"
| "LinkedMap_step truthy (this, its) (TrimNew n) = Inr (Done, (LinkedMap_trimNew this n, its))"
| "LinkedMap_step truthy (this, its) ToJSON =
     bindE (returns (LinkedMap_toJSON this)) (\<lambda>es. Inr (Pairs es, (this, its)))"
| "LinkedMap_step truthy (this, its) (FromJSON data) =
     bindE (throws (LinkedMap_fromJSON this data)) (\<lambda>t. Inr (Done, (t, its)))"
| "LinkedMap_step truthy (this, its) Iterate = Inr (Done, (this, its @ [LinkedMap_iterator this]))"
| "LinkedMap_step truthy s (NextKey i) = Inr (next_step Key keys_next i s)"
| "LinkedMap_step truthy s (NextValue i) = Inr (next_step Val values_next i s)"
| "LinkedMap_step truthy s (NextEntry i) = Inr (next_step Entry entries_next i s)"

text \<open>What the state of the class stands for.\<close>

definition position :: "('k, 'v) LinkedMap \<Rightarrow> nat list \<Rightarrow> MapIterator \<Rightarrow> nat option" where
  "position this xs it =
     (if mi_state it \<noteq> lm_state this then None
      else Some (case mi_current it of None \<Rightarrow> length xs | Some a \<Rightarrow> length (takeWhile (\<lambda>x. x \<noteq> a) xs)))"

definition iterator_ok :: "('k, 'v) LinkedMap \<Rightarrow> nat list \<Rightarrow> MapIterator \<Rightarrow> bool" where
  "iterator_ok this xs it \<longleftrightarrow> mi_state it \<le> lm_state this \<and>
     (mi_state it = lm_state this \<longrightarrow> (\<forall>a. mi_current it = Some a \<longrightarrow> a \<in> set xs))"

definition map_inv :: "('k, 'v) LinkedMap \<times> MapIterator list \<Rightarrow> bool" where
  "map_inv s \<longleftrightarrow> lm_rep (fst s) (lm_addrs (fst s)) \<and> (\<forall>it \<in> set (snd s). iterator_ok (fst s) (lm_addrs (fst s)) it)"

definition map_contents :: "('k, 'v) LinkedMap \<times> MapIterator list \<Rightarrow> ('k, 'v) map_contents" where
  "map_contents s =
     (pairs (fst s) (lm_addrs (fst s)), map (position (fst s) (lm_addrs (fst s))) (snd s))"

text \<open>An operation on the pairs, seen by the iterators.\<close>

lemma becomes_state:
  assumes "lm_rep this xs" "\<forall>it \<in> set its. iterator_ok this xs it" "becomes this xs es' ch t"
  shows "map_inv (t, its) \<and> map_contents (t, its) =
    (es', if ch then map (\<lambda>_. None) its else map (position this xs) its)"
proof -
  obtain xs' where t: "lm_rep t xs'" "pairs t xs' = es'" "\<not> ch \<longrightarrow> xs' = xs" "counts this ch t"
    using assms(3) by (auto simp: becomes_def)
  have "iterator_ok t xs' it \<and> position t xs' it = (if ch then None else position this xs it)" if "it \<in> set its" for it
    using assms(2) that t(3,4) by (auto simp: iterator_ok_def position_def counts_def split: if_splits option.splits)
  with t show ?thesis by (auto simp: map_inv_def map_contents_def lm_addrs_rep)
qed

text \<open>An iterator at an address is the position of the address.\<close>

lemma takeWhile_position: "distinct xs \<Longrightarrow> xs = A @ a # B \<Longrightarrow> length (takeWhile (\<lambda>x. x \<noteq> a) xs) = length A"
  by (induction A arbitrary: xs) auto

lemma iterator_next_rep:
  assumes "lm_rep this xs" "iterator_ok this xs it"
  shows "case position this xs it of
      None \<Rightarrow> iterator_next result this it = Inl Error
    | Some j \<Rightarrow> j \<le> length xs \<and>
        (if j < length xs then
           \<exists>it'. iterator_next result this it = Inr (Some (result (key this (xs ! j)) (val this (xs ! j))), it') \<and>
             iterator_ok this xs it' \<and> position this xs it' = Some (Suc j)
         else iterator_next result this it = Inr (None, it))"
proof (cases "mi_state it = lm_state this")
  case False
  then show ?thesis by (simp add: position_def iterator_next_def)
next
  case True
  show ?thesis
  proof (cases "mi_current it")
    case None
    with True show ?thesis by (simp add: position_def iterator_next_def)
  next
    case (Some a)
    with assms(2) True have "a \<in> set xs" by (simp add: iterator_ok_def)
    then obtain A B where AB: "xs = A @ a # B" by (auto dest: split_list)
    have lk: "distinct xs" "fwd (nx this) xs None" using assms(1) by (simp_all add: lm_rep_def linked_def)
    have pos: "position this xs it = Some (length A)"
      using True Some takeWhile_position [OF lk(1) AB] by (simp add: position_def)
    let ?it = "it\<lparr>mi_current := nx this a\<rparr>"
    have next_a: "nx this a = head_ref B None" using lk(2) AB by simp
    have "position this xs ?it = Some (Suc (length A))"
    proof (cases B)
      case Nil
      with True next_a AB show ?thesis by (simp add: position_def)
    next
      case (Cons b B')
      then have "xs = (A @ [a]) @ b # B'" using AB by simp
      from takeWhile_position [OF lk(1) this] True next_a Cons show ?thesis by (simp add: position_def)
    qed
    moreover have "iterator_ok this xs ?it"
      using True next_a AB by (cases B) (auto simp: iterator_ok_def)
    ultimately show ?thesis using True Some AB pos by (simp add: iterator_next_def nth_append)
  qed
qed

lemma next_step_refines:
  assumes "map_inv s" "i < length (snd s)"
    "\<And>this it. nextItem this it = iterator_next item this it"
    "\<And>e. result' e = result (map_option (\<lambda>(k, v). item k v) e)"
  shows "\<exists>s'. Inr (next_step result nextItem i s) = (Inr (fst (next_spec result' i (map_contents s)), s') :: js_error option + _) \<and>
    map_inv s' \<and> map_contents s' = snd (next_spec result' i (map_contents s))"
proof -
  obtain this its where s: "s = (this, its)" by force
  let ?xs = "lm_addrs this"
  have rep: "lm_rep this ?xs" and oks: "\<forall>it \<in> set its. iterator_ok this ?xs it" using assms(1) s by (simp_all add: map_inv_def)
  have i: "i < length its" using assms(2) s by simp
  have cont: "map_contents s = (pairs this ?xs, map (position this ?xs) its)" using s by (simp add: map_contents_def)
  have at: "pairs this ?xs ! j = (key this (?xs ! j), val this (?xs ! j))" if "j < length ?xs" for j
    using that by (simp add: pairs_def)
  from iterator_next_rep [OF rep, of "its ! i" item] oks i
  have next_i: "case position this ?xs (its ! i) of
      None \<Rightarrow> iterator_next item this (its ! i) = Inl Error
    | Some j \<Rightarrow> j \<le> length ?xs \<and>
        (if j < length ?xs then
           \<exists>it'. iterator_next item this (its ! i) = Inr (Some (item (key this (?xs ! j)) (val this (?xs ! j))), it') \<and>
             iterator_ok this ?xs it' \<and> position this ?xs it' = Some (Suc j)
         else iterator_next item this (its ! i) = Inr (None, its ! i))" by simp
  show ?thesis
  proof (cases "position this ?xs (its ! i)")
    case None
    then have "next_step result nextItem i s = (Threw Error, s)"
      using next_i s assms(3) by (simp add: next_step_def)
    moreover have "next_spec result' i (map_contents s) = (Threw Error, map_contents s)"
      using None i cont by (simp add: next_spec_def)
    ultimately show ?thesis using assms(1) by (intro exI [of _ s]) simp
  next
    case (Some j)
    show ?thesis
    proof (cases "j < length ?xs")
      case True
      with next_i Some obtain it' where it': "iterator_next item this (its ! i) =
          Inr (Some (item (key this (?xs ! j)) (val this (?xs ! j))), it')"
        "iterator_ok this ?xs it'" "position this ?xs it' = Some (Suc j)" by auto
      let ?s = "(this, its[i := it'])"
      have "next_step result nextItem i s = (result (Some (item (key this (?xs ! j)) (val this (?xs ! j)))), ?s)"
        using it'(1) s assms(3) by (simp add: next_step_def)
      moreover have "next_spec result' i (map_contents s) =
          (result' (Some (pairs this ?xs ! j)), (pairs this ?xs, (map (position this ?xs) its)[i := Some (Suc j)]))"
        using True Some i cont by (simp add: next_spec_def)
      moreover have "map_inv ?s"
        using rep oks it'(2) by (auto simp: map_inv_def dest!: set_update_subset_insert [THEN subsetD])
      moreover have "map_contents ?s = (pairs this ?xs, (map (position this ?xs) its)[i := Some (Suc j)])"
        using it'(3) by (simp add: map_contents_def map_update)
      ultimately show ?thesis using at [OF True] assms(4) by (intro exI [of _ ?s]) simp
    next
      case False
      with next_i Some have "iterator_next item this (its ! i) = Inr (None, its ! i)" by simp
      then have "next_step result nextItem i s = (result None, s)"
        using s assms(3) by (simp add: next_step_def)
      moreover have "next_spec result' i (map_contents s) = (result' None, map_contents s)"
        using False Some i cont by (simp add: next_spec_def)
      ultimately show ?thesis using assms(1,4) by (intro exI [of _ s]) simp
    qed
  qed
qed

lemma pairs_Nil [simp]: "pairs this xs = [] \<longleftrightarrow> xs = []"
  by (cases xs) simp_all

lemma drop_keys: "map fst (drop n es) \<noteq> map fst es \<longleftrightarrow> 0 < n \<and> es \<noteq> []"
proof -
  have "map fst (drop n es) \<noteq> map fst es" if "0 < n" "es \<noteq> []"
  proof -
    have "length (drop n es) < length es" using that by simp
    then show ?thesis by (metis length_map less_irrefl)
  qed
  then show ?thesis by (cases n) auto
qed

lemma take_keys: "map fst (take n es) \<noteq> map fst es \<longleftrightarrow> n < length es"
proof -
  have "map fst (take n es) \<noteq> map fst es" if "n < length es"
    using that by (metis length_map length_take less_irrefl min.absorb_iff2 min.strict_coboundedI2 order.strict_implies_order min_def)
  then show ?thesis by (cases "n < length es") auto
qed

lemma LinkedMap_step_refines:
  assumes "map_inv s" "map_legal (map_contents s) p"
  shows "\<exists>s'. LinkedMap_step truthy s p = Inr (fst (map_spec truthy (map_contents s) p), s') \<and> map_inv s' \<and>
    map_contents s' = snd (map_spec truthy (map_contents s) p)"
proof -
  obtain this its where s: "s = (this, its)" by force
  define xs where "xs = lm_addrs this"
  have rep: "lm_rep this xs" and oks: "\<forall>it \<in> set its. iterator_ok this xs it"
    using assms(1) s by (simp_all add: map_inv_def xs_def)
  let ?es = "pairs this xs" and ?is = "map (position this xs) its"
  have cont: "map_contents s = (?es, ?is)" using s by (simp add: map_contents_def xs_def)
  have keys: "map fst ?es = map (key this) xs" by simp
  have nones: "map (\<lambda>_. None) ?is = map (\<lambda>_. None) its" by simp
  have ends: "lm_head this = head_ref xs None" "lm_tail this = last_ref None xs" "lm_size this = int (length xs)"
    using rep by (simp_all add: lm_rep_def linked_def indexed_def)
  have upd: "map_inv (t, its) \<and> map_contents (t, its) = (es', if invalidates ?es p es' then map (\<lambda>_. None) ?is else ?is)"
    if "becomes this xs es' ch t" "ch \<longleftrightarrow> invalidates ?es p es'" for es' ch t
    using becomes_state [OF rep oks that(1)] that(2) by (simp add: nones)
  have same: "map_inv (this, its) \<and> map_contents (this, its) = (?es, ?is)"
    using becomes_state [OF rep oks becomes_refl [OF rep]] by simp
  show ?thesis
  proof (cases p)
    case Clear
    from upd [OF LinkedMap_clear_rep] Clear s cont show ?thesis by (simp add: map_spec_def invalidates_def)
  next
    case IsEmpty
    with same s cont ends show ?thesis by (auto simp: map_spec_def invalidates_def LinkedMap_isEmpty_def)
  next
    case Size
    with same s cont ends show ?thesis by (simp add: map_spec_def invalidates_def)
  next
    case First
    with same s cont ends show ?thesis by (cases xs) (simp_all add: map_spec_def invalidates_def LinkedMap_first_def)
  next
    case Last
    with same s cont ends show ?thesis
      by (cases xs rule: rev_cases) (simp_all add: map_spec_def invalidates_def LinkedMap_last_def)
  next
    case (Has k)
    with same s cont lookup_None [OF rep, of k] show ?thesis by (simp add: map_spec_def invalidates_def LinkedMap_has_def)
  next
    case (Get k touch)
    obtain t where t: "LinkedMap_get this k touch = Inr (map_of ?es k, t)"
      "becomes this xs (touch_pairs touch k ?es) (map fst (touch_pairs touch k ?es) \<noteq> map (key this) xs) t"
      using LinkedMap_get_rep [OF rep] by blast
    from upd [OF t(2)] t(1) Get s cont show ?thesis by (simp add: map_spec_def invalidates_def)
  next
    case (Set k v touch)
    obtain t where t: "LinkedMap_set this k v touch = Inr t"
      "becomes this xs (touch_pairs touch k (set_pairs k v ?es)) (map fst (touch_pairs touch k (set_pairs k v ?es)) \<noteq> map (key this) xs) t"
      using LinkedMap_set_rep [OF rep] by blast
    from upd [OF t(2)] t(1) Set s cont show ?thesis by (simp add: map_spec_def invalidates_def)
  next
    case (Delete k)
    obtain t where t: "LinkedMap_remove this k = Inr (map_of ?es k, t)"
      "becomes this xs (without k ?es) (map fst (without k ?es) \<noteq> map (key this) xs) t"
      using LinkedMap_remove_rep [OF rep] by blast
    from upd [OF t(2)] t(1) Delete s cont show ?thesis
      by (simp add: map_spec_def invalidates_def LinkedMap_delete_def)
  next
    case (Remove k)
    obtain t where t: "LinkedMap_remove this k = Inr (map_of ?es k, t)"
      "becomes this xs (without k ?es) (map fst (without k ?es) \<noteq> map (key this) xs) t"
      using LinkedMap_remove_rep [OF rep] by blast
    from upd [OF t(2)] t(1) Remove s cont show ?thesis by (simp add: map_spec_def invalidates_def)
  next
    case Shift
    obtain t where t: "LinkedMap_shift this = Inr (if xs = [] then None else Some (val this (hd xs)), t)"
      "becomes this xs (tl ?es) (xs \<noteq> []) t"
      using LinkedMap_shift_rep [OF rep] by blast
    have "xs \<noteq> [] \<longleftrightarrow> invalidates ?es p (tl ?es)"
      using drop_keys [of 1 ?es] Shift by (cases xs) (auto simp: invalidates_def)
    from upd [OF t(2) this] t(1) Shift s cont show ?thesis by (cases xs) (simp_all add: map_spec_def)
  next
    case (TrimOld n)
    with assms(2) have n: "0 \<le> n" by simp
    have "n < int (length xs) \<longleftrightarrow> invalidates ?es p (drop (length xs - nat n) ?es)"
      using drop_keys [of "length xs - nat n" ?es] TrimOld n by (cases xs) (auto simp: invalidates_def)
    from upd [OF LinkedMap_trimOld_rep [OF rep n] this] TrimOld s cont show ?thesis by (simp add: map_spec_def)
  next
    case (TrimNew n)
    with assms(2) have n: "0 \<le> n" by simp
    have "n < int (length xs) \<longleftrightarrow> invalidates ?es p (take (nat n) ?es)"
      using take_keys [of "nat n" ?es] TrimNew n by (auto simp: invalidates_def)
    from upd [OF LinkedMap_trimNew_rep [OF rep n] this] TrimNew s cont show ?thesis by (simp add: map_spec_def)
  next
    case ToJSON
    with same s cont LinkedMap_toJSON_rep [OF rep] show ?thesis by (simp add: map_spec_def invalidates_def)
  next
    case (FromJSON data)
    obtain t where t: "LinkedMap_fromJSON this data = Inr t" "becomes this xs (of_pairs data) True t"
      using LinkedMap_fromJSON_rep by blast
    from upd [OF t(2)] t(1) FromJSON s cont show ?thesis by (simp add: map_spec_def invalidates_def)
  next
    case Iterate
    have "iterator_ok this xs (LinkedMap_iterator this) \<and> position this xs (LinkedMap_iterator this) = Some 0"
      using ends by (cases xs) (simp_all add: iterator_ok_def position_def LinkedMap_iterator_def)
    with rep oks Iterate s cont show ?thesis by (auto simp: map_spec_def map_inv_def map_contents_def xs_def)
  next
    case (NextKey i)
    with assms cont next_step_refines [of s i keys_next "\<lambda>k v. k" "\<lambda>e. Key (map_option fst e)" Key] s show ?thesis
      by (simp add: map_spec_def keys_next_def case_prod_unfold)
  next
    case (NextValue i)
    with assms cont next_step_refines [of s i values_next "\<lambda>k v. v" "\<lambda>e. Val (map_option snd e)" Val] s show ?thesis
      by (simp add: map_spec_def values_next_def case_prod_unfold)
  next
    case (NextEntry i)
    with assms cont next_step_refines [of s i entries_next Pair Entry Entry] s show ?thesis
      by (simp add: map_spec_def entries_next_def option.map_id)
  qed
qed

interpretation linked_map: object_refinement "LinkedMap_step truthy" map_inv map_contents "map_spec truthy" map_legal
  for truthy by unfold_locales (rule LinkedMap_step_refines)

lemma LinkedMap_new_ok: "map_inv (LinkedMap_new, [])" "map_contents (LinkedMap_new, []) = ([], [])"
  by (simp_all add: map_inv_def map_contents_def LinkedMap_new_def lm_addrs_def lm_rep_def linked_def indexed_def)

text \<open>
  C25. A \<open>LinkedMap\<close> answers any sequence of operations like a list of pairs with distinct keys, in
  which a new key goes to the end, \<open>touch\<close> moves a pair to an end and \<open>remove\<close> takes it out: no
  operation throws \<open>Invalid list\<close>, the loops end, hash map and links agree. An iterator goes through
  the pairs as they are by then and throws exactly if the keys or their order changed since it was
  made. \<open>delete\<close> says whether the value removed counts as true. Hypothesis: the sizes to trim to are
  not negative, the iterators used exist.
\<close>

theorem LinkedMap_refines:
  assumes "legal_run map_legal (map_spec truthy) ([], []) ops"
  shows "\<exists>s. run_object (LinkedMap_step truthy) (LinkedMap_new, []) ops =
      Inr (fst (run_spec (map_spec truthy) ([], []) ops), s) \<and>
    map_contents s = snd (run_spec (map_spec truthy) ([], []) ops)"
  using linked_map.run_refines [of "(LinkedMap_new, [])" truthy ops] assms
  unfolding LinkedMap_new_ok by (auto simp: LinkedMap_new_ok)

theorem LinkedMap_refines_witness:
  "\<exists>s. run_object (LinkedMap_step (\<lambda>v. v \<noteq> 0)) (LinkedMap_new, [])
      [Set CHR ''a'' (1::int) TouchNone, Set CHR ''b'' 0 AsNew, Iterate, Set CHR ''a'' 5 TouchNone, NextEntry 0,
       Get CHR ''a'' AsNew, NextEntry 0, ToJSON, Delete CHR ''b'', Has CHR ''b''] =
    Inr ([Done, Done, Done, Done, Entry (Some (CHR ''a'', 5)), Val (Some 5), Threw Error,
      Pairs [(CHR ''b'', 0), (CHR ''a'', 5)], Flag False, Flag False], s)"
proof -
  let ?ops = "[Set CHR ''a'' (1::int) TouchNone, Set CHR ''b'' 0 AsNew, Iterate, Set CHR ''a'' 5 TouchNone, NextEntry 0,
       Get CHR ''a'' AsNew, NextEntry 0, ToJSON, Delete CHR ''b'', Has CHR ''b'']"
  note defs = map_spec_def next_spec_def invalidates_def touch_pairs_def set_pairs_def
  have "legal_run map_legal (map_spec (\<lambda>v. v \<noteq> 0)) ([], []) ?ops"
    by (simp add: defs)
  from LinkedMap_refines [OF this] show ?thesis by (simp add: defs) blast
qed

text \<open>
  A key can be present and yet \<open>delete\<close> answers \<open>false\<close>: the value it had does not count as true.
\<close>

lemma LinkedMap_delete_falsy:
  "map_sum id fst (run_object (LinkedMap_step (\<lambda>v. v \<noteq> 0)) (LinkedMap_new, [])
      [Set CHR ''a'' (0::int) TouchNone, Has CHR ''a'', Delete CHR ''a'', Has CHR ''a'']) =
    Inr [Done, Flag True, Flag False, Flag False]"
  by (simp add: LinkedMap_set_def LinkedMap_new_def addItemLast_def LinkedMap_has_def LinkedMap_delete_def
      LinkedMap_remove_def removeItem_def set_item_def set_next_def set_previous_def val_def Let_def del: bindE_eq_Inr)

end
