(* ===== verification/Lru_Cache.thy ===== *)
theory Lru_Cache
  imports Complex_Main Linked_Map
begin

text \<open>
  \<open>Cache\<close>, \<open>LRUCache\<close> and \<open>MRUCache\<close> of \<open>base/common/map.ts\<close>: linked maps of bounded size, which drop
  the pairs used longest ago, or most recently. The ratio is a rational number. The abstract method
  \<open>trim\<close> of \<open>Cache\<close> is an argument of the methods that call it.
\<close>

subsection \<open>The classes\<close>

record ('k, 'v) Cache = "('k, 'v) LinkedMap" +
  ca_limit :: int
  ca_ratio :: rat

text \<open>\<open>Math.round\<close>\<close>

definition js_round :: "rat \<Rightarrow> int" where
  "js_round x = \<lfloor>x + 1 / 2\<rfloor>"

definition Cache_new :: "int \<Rightarrow> rat \<Rightarrow> ('k, 'v) Cache" where
  "Cache_new limit ratio =
     LinkedMap.extend LinkedMap_new (Cache.fields limit (min (max 0 ratio) 1))"

type_synonym ('k, 'v) trim = "('k, 'v) Cache \<Rightarrow> int \<Rightarrow> ('k, 'v) Cache"

definition Cache_newSize :: "('k, 'v) Cache \<Rightarrow> int" where
  "Cache_newSize this = js_round (of_int (ca_limit this) * ca_ratio this)"

definition Cache_checkTrim :: "('k, 'v) trim \<Rightarrow> ('k, 'v) Cache \<Rightarrow> ('k, 'v) Cache" where
  "Cache_checkTrim trim this =
     (if lm_size this > ca_limit this then trim this (Cache_newSize this) else this)"

definition Cache_set_limit :: "('k, 'v) trim \<Rightarrow> ('k, 'v) Cache \<Rightarrow> int \<Rightarrow> ('k, 'v) Cache" where
  "Cache_set_limit trim this limit = Cache_checkTrim trim (this\<lparr>ca_limit := limit\<rparr>)"

definition Cache_set_ratio :: "('k, 'v) trim \<Rightarrow> ('k, 'v) Cache \<Rightarrow> rat \<Rightarrow> ('k, 'v) Cache" where
  "Cache_set_ratio trim this ratio = Cache_checkTrim trim (this\<lparr>ca_ratio := min (max 0 ratio) 1\<rparr>)"

definition Cache_get :: "('k, 'v) Cache \<Rightarrow> 'k \<Rightarrow> Touch \<Rightarrow> js_error + 'v option \<times> ('k, 'v) Cache" where
  "Cache_get this k touch = LinkedMap_get this k touch"

definition Cache_peek :: "('k, 'v) Cache \<Rightarrow> 'k \<Rightarrow> js_error + 'v option \<times> ('k, 'v) Cache" where
  "Cache_peek this k = LinkedMap_get this k TouchNone"

definition Cache_set :: "('k, 'v) Cache \<Rightarrow> 'k \<Rightarrow> 'v \<Rightarrow> js_error + ('k, 'v) Cache" where
  "Cache_set this k v = LinkedMap_set this k v AsNew"

definition LRUCache_trim :: "('k, 'v) trim" where
  "LRUCache_trim this newSize = LinkedMap_trimOld this newSize"

definition LRUCache_set :: "('k, 'v) Cache \<Rightarrow> 'k \<Rightarrow> 'v \<Rightarrow> js_error + ('k, 'v) Cache" where
  "LRUCache_set this k v = bindE (Cache_set this k v) (\<lambda>t. Inr (Cache_checkTrim LRUCache_trim t))"

definition MRUCache_trim :: "('k, 'v) trim" where
  "MRUCache_trim this newSize = LinkedMap_trimNew this newSize"

definition MRUCache_set :: "('k, 'v) Cache \<Rightarrow> 'k \<Rightarrow> 'v \<Rightarrow> js_error + ('k, 'v) Cache" where
  "MRUCache_set this k v =
     Cache_set
       (if ca_limit this \<le> lm_size this \<and> \<not> LinkedMap_has this k
        then MRUCache_trim this (Cache_newSize this - 1) else this) k v"

subsection \<open>The contract\<close>

datatype ('k, 'v) cache_op = Get 'k Touch | Peek 'k | Set 'k 'v | Has 'k | Remove 'k | Size
  | SetLimit int | SetRatio rat | ToJSON

datatype ('k, 'v) cache_result = Done | Flag bool | Num int | Val "'v option" | Pairs "('k \<times> 'v) list"

record ('k, 'v) cache_contents =
  cc_pairs :: "('k \<times> 'v) list"
  cc_limit :: int
  cc_ratio :: rat

definition cc_newSize :: "('k, 'v) cache_contents \<Rightarrow> nat" where
  "cc_newSize c = nat (js_round (of_int (cc_limit c) * cc_ratio c))"

text \<open>What the two classes leave of too many pairs.\<close>

definition keep_new :: "nat \<Rightarrow> 'a list \<Rightarrow> 'a list" where
  "keep_new n es = drop (length es - n) es"

definition cc_trim :: "(nat \<Rightarrow> ('k \<times> 'v) list \<Rightarrow> ('k \<times> 'v) list) \<Rightarrow> ('k, 'v) cache_contents \<Rightarrow> ('k, 'v) cache_contents" where
  "cc_trim keep c =
     (if int (length (cc_pairs c)) > cc_limit c then c\<lparr>cc_pairs := keep (cc_newSize c) (cc_pairs c)\<rparr> else c)"

definition used :: "'k \<Rightarrow> 'v \<Rightarrow> ('k, 'v) cache_contents \<Rightarrow> ('k, 'v) cache_contents" where
  "used k v c = c\<lparr>cc_pairs := without k (cc_pairs c) @ [(k, v)]\<rparr>"

definition lru_set :: "'k \<Rightarrow> 'v \<Rightarrow> ('k, 'v) cache_contents \<Rightarrow> ('k, 'v) cache_contents" where
  "lru_set k v c = cc_trim keep_new (used k v c)"

definition mru_set :: "'k \<Rightarrow> 'v \<Rightarrow> ('k, 'v) cache_contents \<Rightarrow> ('k, 'v) cache_contents" where
  "mru_set k v c =
     used k v (if cc_limit c \<le> int (length (cc_pairs c)) \<and> k \<notin> fst ` set (cc_pairs c)
       then c\<lparr>cc_pairs := take (cc_newSize c - 1) (cc_pairs c)\<rparr> else c)"

fun cache_spec :: "(nat \<Rightarrow> ('k \<times> 'v) list \<Rightarrow> ('k \<times> 'v) list) \<Rightarrow> ('k \<Rightarrow> 'v \<Rightarrow> ('k, 'v) cache_contents \<Rightarrow> ('k, 'v) cache_contents) \<Rightarrow>
    ('k, 'v) cache_contents \<Rightarrow> ('k, 'v) cache_op \<Rightarrow> ('k, 'v) cache_result \<times> ('k, 'v) cache_contents" where
  "cache_spec keep set_op c (Get k touch) = (Val (map_of (cc_pairs c) k), c\<lparr>cc_pairs := touch_pairs touch k (cc_pairs c)\<rparr>)"
| "cache_spec keep set_op c (Peek k) = (Val (map_of (cc_pairs c) k), c)"
| "cache_spec keep set_op c (Set k v) = (Done, set_op k v c)"
| "cache_spec keep set_op c (Has k) = (Flag (k \<in> fst ` set (cc_pairs c)), c)"
| "cache_spec keep set_op c (Remove k) = (Val (map_of (cc_pairs c) k), c\<lparr>cc_pairs := without k (cc_pairs c)\<rparr>)"
| "cache_spec keep set_op c Size = (Num (int (length (cc_pairs c))), c)"
| "cache_spec keep set_op c (SetLimit n) = (Done, cc_trim keep (c\<lparr>cc_limit := n\<rparr>))"
| "cache_spec keep set_op c (SetRatio r) = (Done, cc_trim keep (c\<lparr>cc_ratio := min (max 0 r) 1\<rparr>))"
| "cache_spec keep set_op c ToJSON = (Pairs (cc_pairs c), c)"

definition lru_spec :: "('k, 'v) cache_contents \<Rightarrow> ('k, 'v) cache_op \<Rightarrow> ('k, 'v) cache_result \<times> ('k, 'v) cache_contents" where
  "lru_spec = cache_spec keep_new lru_set"

definition mru_spec :: "('k, 'v) cache_contents \<Rightarrow> ('k, 'v) cache_op \<Rightarrow> ('k, 'v) cache_result \<times> ('k, 'v) cache_contents" where
  "mru_spec = cache_spec take mru_set"

text \<open>
  A negative limit breaks the links. So does, in \<open>MRUCache.set\<close>, a limit and a ratio whose rounded
  product is 0: it trims to \<open>-1\<close> pairs.
\<close>

fun lru_legal :: "('k, 'v) cache_contents \<Rightarrow> ('k, 'v) cache_op \<Rightarrow> bool" where
  "lru_legal c (SetLimit n) \<longleftrightarrow> 0 \<le> n"
| "lru_legal c _ \<longleftrightarrow> True"

fun mru_legal :: "('k, 'v) cache_contents \<Rightarrow> ('k, 'v) cache_op \<Rightarrow> bool" where
  "mru_legal c (SetLimit n) \<longleftrightarrow> 0 \<le> n"
| "mru_legal c (Set k v) \<longleftrightarrow>
     0 < cc_newSize c \<or> int (length (cc_pairs c)) < cc_limit c \<or> k \<in> fst ` set (cc_pairs c)"
| "mru_legal c _ \<longleftrightarrow> True"

fun cache_step :: "('k, 'v) trim \<Rightarrow> (('k, 'v) Cache \<Rightarrow> 'k \<Rightarrow> 'v \<Rightarrow> js_error + ('k, 'v) Cache) \<Rightarrow>
    ('k, 'v) Cache \<Rightarrow> ('k, 'v) cache_op \<Rightarrow> js_error option + ('k, 'v) cache_result \<times> ('k, 'v) Cache" where
  "cache_step trim set_op this (Get k touch) = bindE (throws (Cache_get this k touch)) (\<lambda>(r, t). Inr (Val r, t))"
| "cache_step trim set_op this (Peek k) = bindE (throws (Cache_peek this k)) (\<lambda>(r, t). Inr (Val r, t))"
| "cache_step trim set_op this (Set k v) = bindE (throws (set_op this k v)) (\<lambda>t. Inr (Done, t))"
| "cache_step trim set_op this (Has k) = Inr (Flag (LinkedMap_has this k), this)"
| "cache_step trim set_op this (Remove k) = bindE (throws (LinkedMap_remove this k)) (\<lambda>(r, t). Inr (Val r, t))"
| "cache_step trim set_op this Size = Inr (Num (lm_size this), this)"
| "cache_step trim set_op this (SetLimit n) = Inr (Done, Cache_set_limit trim this n)"
| "cache_step trim set_op this (SetRatio r) = Inr (Done, Cache_set_ratio trim this r)"
| "cache_step trim set_op this ToJSON = bindE (returns (LinkedMap_toJSON this)) (\<lambda>es. Inr (Pairs es, this))"

definition LRUCache_step :: "('k, 'v) Cache \<Rightarrow> ('k, 'v) cache_op \<Rightarrow> js_error option + ('k, 'v) cache_result \<times> ('k, 'v) Cache" where
  "LRUCache_step = cache_step LRUCache_trim LRUCache_set"

definition MRUCache_step :: "('k, 'v) Cache \<Rightarrow> ('k, 'v) cache_op \<Rightarrow> js_error option + ('k, 'v) cache_result \<times> ('k, 'v) Cache" where
  "MRUCache_step = cache_step MRUCache_trim MRUCache_set"

definition cache_inv :: "('k, 'v) Cache \<Rightarrow> bool" where
  "cache_inv this \<longleftrightarrow> lm_rep this (lm_addrs this) \<and> 0 \<le> ca_limit this \<and> 0 \<le> ca_ratio this \<and> ca_ratio this \<le> 1"

definition cache_contents :: "('k, 'v) Cache \<Rightarrow> ('k, 'v) cache_contents" where
  "cache_contents this =
     \<lparr>cc_pairs = pairs this (lm_addrs this), cc_limit = ca_limit this, cc_ratio = ca_ratio this\<rparr>"

subsection \<open>Refinement\<close>

lemma cache_more:
  "LinkedMap.more t = LinkedMap.more this \<Longrightarrow> ca_limit t = ca_limit this \<and> ca_ratio t = ca_ratio this"
  by (cases t; cases this) simp

lemma becomes_cache:
  assumes "becomes this xs es' ch t" "0 \<le> ca_limit this" "0 \<le> ca_ratio this" "ca_ratio this \<le> 1"
  shows "cache_inv t \<and> cache_contents t = \<lparr>cc_pairs = es', cc_limit = ca_limit this, cc_ratio = ca_ratio this\<rparr>"
  using assms cache_more [of t this] by (auto simp: becomes_def cache_inv_def cache_contents_def lm_addrs_rep)

lemma touch_set_pairs:
  "distinct (map fst es) \<Longrightarrow> touch_pairs AsNew k (set_pairs k v es) = without k es @ [(k, v)]"
proof (induction es)
  case Nil
  then show ?case by (simp add: touch_pairs_def set_pairs_def without_def)
next
  case (Cons p es)
  show ?case
  proof (cases "fst p = k")
    case True
    then have "k \<notin> fst ` set es" using Cons.prems by auto
    then have "map (\<lambda>q. if fst q = k then (k, v) else q) es = es" by (induction es) auto
    with True \<open>k \<notin> fst ` set es\<close> show ?thesis by (simp add: touch_pairs_def set_pairs_def)
  next
    case False
    then have "set_pairs k v (p # es) = p # set_pairs k v es" by (simp add: set_pairs_def)
    moreover have "touch_pairs AsNew k (p # set_pairs k v es) = p # touch_pairs AsNew k (set_pairs k v es)"
      using False by (simp add: touch_pairs_def Let_def)
    ultimately show ?thesis using Cons False by simp
  qed
qed

lemma js_round_bounds:
  assumes "0 \<le> n" "0 \<le> r" "r \<le> 1"
  shows "0 \<le> js_round (of_int n * r)" "js_round (of_int n * r) \<le> n"
proof -
  have "0 \<le> of_int n * r" using assms by simp
  then show "0 \<le> js_round (of_int n * r)" by (simp add: js_round_def)
  have "of_int n * r \<le> of_int n * 1" using assms by (intro mult_left_mono) simp_all
  then have "of_int n * r + 1 / 2 < of_int (n + 1)" by simp
  then show "js_round (of_int n * r) \<le> n" by (simp add: js_round_def floor_le_iff)
qed

lemma js_round_int [simp]: "js_round (of_int n) = n" "js_round 0 = 0" "js_round 1 = 1" "js_round (numeral m) = numeral m"
  by (simp_all add: js_round_def floor_eq_iff)

lemma trim_becomes:
  assumes "lm_rep this xs" "0 \<le> n"
  shows "becomes this xs (keep_new (nat n) (pairs this xs)) (n < int (length xs)) (LRUCache_trim this n)"
    "becomes this xs (take (nat n) (pairs this xs)) (n < int (length xs)) (MRUCache_trim this n)"
  using LinkedMap_trimOld_rep [OF assms] LinkedMap_trimNew_rep [OF assms]
  by (simp_all add: LRUCache_trim_def MRUCache_trim_def keep_new_def)

text \<open>\<open>checkTrim\<close> after the limit or the ratio was changed, and what a trimming method promises.\<close>

definition trims :: "('k, 'v) trim \<Rightarrow> (nat \<Rightarrow> ('k \<times> 'v) list \<Rightarrow> ('k \<times> 'v) list) \<Rightarrow> bool" where
  "trims trim keep \<longleftrightarrow> (\<forall>this xs n. lm_rep this xs \<longrightarrow> 0 \<le> n \<longrightarrow>
     becomes this xs (keep (nat n) (pairs this xs)) (n < int (length xs)) (trim this n))"

lemma trims_classes: "trims LRUCache_trim keep_new" "trims MRUCache_trim take"
  by (simp_all add: trims_def trim_becomes)

lemma checkTrim_cache:
  assumes "cache_inv this" "trims trim keep"
  shows "cache_inv (Cache_checkTrim trim this) \<and> cache_contents (Cache_checkTrim trim this) = cc_trim keep (cache_contents this)"
proof -
  let ?xs = "lm_addrs this"
  have rep: "lm_rep this ?xs" and lim: "0 \<le> ca_limit this" "0 \<le> ca_ratio this" "ca_ratio this \<le> 1"
    using assms(1) by (simp_all add: cache_inv_def)
  have size: "lm_size this = int (length ?xs)" using rep by (simp add: lm_rep_def indexed_def)
  show ?thesis
  proof (cases "lm_size this > ca_limit this")
    case True
    have "0 \<le> Cache_newSize this" using js_round_bounds [OF lim] by (simp add: Cache_newSize_def)
    then have "becomes this ?xs (keep (nat (Cache_newSize this)) (pairs this ?xs)) (Cache_newSize this < int (length ?xs))
        (trim this (Cache_newSize this))"
      using assms(2) rep by (simp add: trims_def)
    from becomes_cache [OF this lim] True size show ?thesis
      by (simp add: Cache_checkTrim_def cc_trim_def cache_contents_def cc_newSize_def Cache_newSize_def)
  next
    case False
    with assms(1) size show ?thesis by (simp add: Cache_checkTrim_def cc_trim_def cache_contents_def)
  qed
qed

lemma cache_inv_upd:
  assumes "cache_inv this"
  shows "0 \<le> n \<Longrightarrow> cache_inv (this\<lparr>ca_limit := n\<rparr>) \<and> cache_contents (this\<lparr>ca_limit := n\<rparr>) = cache_contents this\<lparr>cc_limit := n\<rparr>"
    "0 \<le> r \<Longrightarrow> r \<le> 1 \<Longrightarrow> cache_inv (this\<lparr>ca_ratio := r\<rparr>) \<and> cache_contents (this\<lparr>ca_ratio := r\<rparr>) = cache_contents this\<lparr>cc_ratio := r\<rparr>"
proof -
  have f: "nx (this\<lparr>ca_limit := n\<rparr>) = nx this" "pv (this\<lparr>ca_limit := n\<rparr>) = pv this" "key (this\<lparr>ca_limit := n\<rparr>) = key this"
    "val (this\<lparr>ca_limit := n\<rparr>) = val this" "nx (this\<lparr>ca_ratio := r\<rparr>) = nx this" "pv (this\<lparr>ca_ratio := r\<rparr>) = pv this"
    "key (this\<lparr>ca_ratio := r\<rparr>) = key this" "val (this\<lparr>ca_ratio := r\<rparr>) = val this"
    by (simp_all add: fun_eq_iff nx_def pv_def key_def val_def)
  show "0 \<le> n \<Longrightarrow> cache_inv (this\<lparr>ca_limit := n\<rparr>) \<and> cache_contents (this\<lparr>ca_limit := n\<rparr>) = cache_contents this\<lparr>cc_limit := n\<rparr>"
    "0 \<le> r \<Longrightarrow> r \<le> 1 \<Longrightarrow> cache_inv (this\<lparr>ca_ratio := r\<rparr>) \<and> cache_contents (this\<lparr>ca_ratio := r\<rparr>) = cache_contents this\<lparr>cc_ratio := r\<rparr>"
    using assms by (simp_all add: cache_inv_def cache_contents_def lm_addrs_def lm_rep_def linked_def indexed_def pairs_def f)
qed

text \<open>The operations the two classes share; how they set a pair is a parameter.\<close>

lemma cache_step_refines:
  assumes inv: "cache_inv this" and trim: "trims trim keep"
    and limit: "\<And>n. p = SetLimit n \<Longrightarrow> 0 \<le> n"
    and set_op: "\<And>k v. p = Set k v \<Longrightarrow> \<exists>t. set_op this k v = Inr t \<and> cache_inv t \<and> cache_contents t = set_spec k v (cache_contents this)"
  shows "\<exists>t. cache_step trim set_op this p = Inr (fst (cache_spec keep set_spec (cache_contents this) p), t) \<and> cache_inv t \<and>
    cache_contents t = snd (cache_spec keep set_spec (cache_contents this) p)"
proof -
  let ?xs = "lm_addrs this"
  have rep: "lm_rep this ?xs" and lim: "0 \<le> ca_limit this" "0 \<le> ca_ratio this" "ca_ratio this \<le> 1"
    using inv by (simp_all add: cache_inv_def)
  have ix: "lm_size this = int (length ?xs)" using rep by (simp add: lm_rep_def indexed_def)
  have get: "\<exists>t. LinkedMap_get this k touch = Inr (map_of (pairs this ?xs) k, t) \<and> cache_inv t \<and>
      cache_contents t = cache_contents this\<lparr>cc_pairs := touch_pairs touch k (pairs this ?xs)\<rparr>" for k touch
  proof -
    obtain t where t: "LinkedMap_get this k touch = Inr (map_of (pairs this ?xs) k, t)"
      "becomes this ?xs (touch_pairs touch k (pairs this ?xs)) (map fst (touch_pairs touch k (pairs this ?xs)) \<noteq> map (key this) ?xs) t"
      using LinkedMap_get_rep [OF rep] by blast
    from becomes_cache [OF t(2) lim] t(1) show ?thesis by (simp add: cache_contents_def)
  qed
  show ?thesis
  proof (cases p)
    case (Get k touch)
    with get [of k touch] show ?thesis by (auto simp: Cache_get_def cache_contents_def)
  next
    case (Peek k)
    with get [of k TouchNone] show ?thesis by (auto simp: Cache_peek_def cache_contents_def)
  next
    case (Set k v)
    with set_op [OF Set] show ?thesis by auto
  next
    case (Has k)
    with inv lookup_None [OF rep, of k] show ?thesis by (simp add: LinkedMap_has_def cache_contents_def)
  next
    case (Remove k)
    obtain t where t: "LinkedMap_remove this k = Inr (map_of (pairs this ?xs) k, t)"
      "becomes this ?xs (without k (pairs this ?xs)) (map fst (without k (pairs this ?xs)) \<noteq> map (key this) ?xs) t"
      using LinkedMap_remove_rep [OF rep] by blast
    from becomes_cache [OF t(2) lim] t(1) Remove show ?thesis by (simp add: cache_contents_def)
  next
    case Size
    with inv ix show ?thesis by (simp add: cache_contents_def)
  next
    case (SetLimit n)
    from limit [OF this] cache_inv_upd(1) [OF inv] checkTrim_cache [OF _ trim] SetLimit show ?thesis
      by (simp add: Cache_set_limit_def)
  next
    case (SetRatio r)
    have "0 \<le> min (max 0 r) 1" "min (max 0 r) 1 \<le> 1" by simp_all
    from cache_inv_upd(2) [OF inv this] checkTrim_cache [OF _ trim] SetRatio show ?thesis
      by (simp add: Cache_set_ratio_def)
  next
    case ToJSON
    with inv LinkedMap_toJSON_rep [OF rep] show ?thesis by (simp add: cache_contents_def)
  qed
qed

lemma Cache_set_cache:
  assumes "cache_inv this"
  shows "\<exists>t. Cache_set this k v = Inr t \<and> cache_inv t \<and> cache_contents t = used k v (cache_contents this)"
proof -
  let ?xs = "lm_addrs this"
  have rep: "lm_rep this ?xs" and lim: "0 \<le> ca_limit this" "0 \<le> ca_ratio this" "ca_ratio this \<le> 1"
    using assms by (simp_all add: cache_inv_def)
  obtain t where t: "LinkedMap_set this k v AsNew = Inr t"
    "becomes this ?xs (touch_pairs AsNew k (set_pairs k v (pairs this ?xs)))
      (map fst (touch_pairs AsNew k (set_pairs k v (pairs this ?xs))) \<noteq> map (key this) ?xs) t"
    using LinkedMap_set_rep [OF rep] by blast
  have "distinct (map fst (pairs this ?xs))" using rep by (simp add: lm_rep_def indexed_def)
  from becomes_cache [OF t(2) lim] t(1) touch_set_pairs [OF this] show ?thesis
    by (simp add: Cache_set_def used_def cache_contents_def)
qed

lemma LRUCache_step_refines:
  assumes "cache_inv this" "lru_legal (cache_contents this) p"
  shows "\<exists>t. LRUCache_step this p = Inr (fst (lru_spec (cache_contents this) p), t) \<and> cache_inv t \<and>
    cache_contents t = snd (lru_spec (cache_contents this) p)"
  unfolding LRUCache_step_def lru_spec_def
proof (rule cache_step_refines [OF assms(1) trims_classes(1)])
  fix k v assume "p = Set k v"
  obtain t where "Cache_set this k v = Inr t" "cache_inv t" "cache_contents t = used k v (cache_contents this)"
    using Cache_set_cache [OF assms(1)] by blast
  with checkTrim_cache [OF this(2) trims_classes(1)]
  show "\<exists>t. LRUCache_set this k v = Inr t \<and> cache_inv t \<and> cache_contents t = lru_set k v (cache_contents this)"
    by (simp add: LRUCache_set_def lru_set_def)
qed (use assms(2) in auto)

lemma MRUCache_step_refines:
  assumes "cache_inv this" "mru_legal (cache_contents this) p"
  shows "\<exists>t. MRUCache_step this p = Inr (fst (mru_spec (cache_contents this) p), t) \<and> cache_inv t \<and>
    cache_contents t = snd (mru_spec (cache_contents this) p)"
  unfolding MRUCache_step_def mru_spec_def
proof (rule cache_step_refines [OF assms(1) trims_classes(2)])
  fix k v assume p: "p = Set k v"
  let ?c = "cache_contents this" and ?xs = "lm_addrs this"
  let ?full = "cc_limit ?c \<le> int (length (cc_pairs ?c)) \<and> k \<notin> fst ` set (cc_pairs ?c)"
  let ?u = "if ca_limit this \<le> lm_size this \<and> \<not> LinkedMap_has this k then MRUCache_trim this (Cache_newSize this - 1) else this"
  have rep: "lm_rep this ?xs" and lim: "0 \<le> ca_limit this" "0 \<le> ca_ratio this" "ca_ratio this \<le> 1"
    using assms(1) by (simp_all add: cache_inv_def)
  have full: "ca_limit this \<le> lm_size this \<and> \<not> LinkedMap_has this k \<longleftrightarrow> ?full"
    using rep lookup_None [OF rep, of k] by (auto simp: cache_contents_def LinkedMap_has_def lm_rep_def indexed_def)
  have "cache_inv ?u \<and> cache_contents ?u = (if ?full then ?c\<lparr>cc_pairs := take (cc_newSize ?c - 1) (cc_pairs ?c)\<rparr> else ?c)"
  proof (cases ?full)
    case True
    then have "0 < cc_newSize ?c" using assms(2) p by auto
    then have n: "0 \<le> Cache_newSize this - 1" "nat (Cache_newSize this - 1) = cc_newSize ?c - 1"
      by (auto simp: cc_newSize_def cache_contents_def Cache_newSize_def)
    have "becomes this ?xs (take (cc_newSize ?c - 1) (pairs this ?xs)) (Cache_newSize this - 1 < int (length ?xs))
        (MRUCache_trim this (Cache_newSize this - 1))"
      using trim_becomes(2) [OF rep n(1)] n(2) by simp
    from becomes_cache [OF this lim] True full show ?thesis by (simp add: cache_contents_def)
  next
    case False
    show ?thesis unfolding full if_not_P [OF False] using assms(1) by simp
  qed
  with Cache_set_cache [of ?u k v]
  show "\<exists>t. MRUCache_set this k v = Inr t \<and> cache_inv t \<and> cache_contents t = mru_set k v (cache_contents this)"
    by (simp add: MRUCache_set_def mru_set_def)
qed (use assms(2) in auto)

interpretation lru: object_refinement LRUCache_step cache_inv cache_contents lru_spec lru_legal
  by unfold_locales (rule LRUCache_step_refines)

interpretation mru: object_refinement MRUCache_step cache_inv cache_contents mru_spec mru_legal
  by unfold_locales (rule MRUCache_step_refines)

lemma Cache_new_ok:
  assumes "0 \<le> limit"
  shows "cache_inv (Cache_new limit ratio)"
    "cache_contents (Cache_new limit ratio) = \<lparr>cc_pairs = [], cc_limit = limit, cc_ratio = min (max 0 ratio) 1\<rparr>"
  using assms
  by (simp_all add: cache_inv_def cache_contents_def Cache_new_def LinkedMap_new_def LinkedMap.extend_def Cache.fields_def
      lm_addrs_def lm_rep_def linked_def indexed_def)

subsection \<open>Bounds and recency\<close>

definition bounded :: "('k, 'v) cache_contents \<Rightarrow> bool" where
  "bounded c \<longleftrightarrow> distinct (map fst (cc_pairs c)) \<and> int (length (cc_pairs c)) \<le> cc_limit c \<and>
     0 \<le> cc_ratio c \<and> cc_ratio c \<le> 1"

lemma fst_without: "fst ` set (without k es) = fst ` set es - {k}"
  by (auto simp: without_def)

lemma distinct_without: "distinct (map fst es) \<Longrightarrow> distinct (map fst (without k es))"
  by (simp add: without_def distinct_map_filter)

lemma length_without: "length (without k es) \<le> length es"
  by (simp add: without_def)

lemma distinct_touch_pairs:
  assumes "distinct (map fst es)"
  shows "distinct (map fst (touch_pairs touch k es))" "length (touch_pairs touch k es) = length es"
    "set (touch_pairs touch k es) = set es"
proof -
  have "length (filter (\<lambda>p. fst p = k) es) + length (without k es) = length es"
    unfolding without_def by (rule sum_length_filter_compl)
  then show "length (touch_pairs touch k es) = length es"
    by (simp add: touch_pairs_def Let_def split: Touch.splits)
  show "distinct (map fst (touch_pairs touch k es))" "set (touch_pairs touch k es) = set es"
    using assms by (auto simp: touch_pairs_def Let_def without_def distinct_map_filter split: Touch.splits)
qed

lemma bounded_trim:
  assumes "distinct (map fst (cc_pairs c))" "0 \<le> cc_limit c" "0 \<le> cc_ratio c" "cc_ratio c \<le> 1"
  shows "bounded (cc_trim keep_new c)"
proof -
  have "distinct (map fst (keep_new n (cc_pairs c)))" for n
    using assms(1) by (simp add: keep_new_def flip: drop_map)
  moreover have "int (cc_newSize c) \<le> cc_limit c"
    using js_round_bounds [OF assms(2-4)] by (simp add: cc_newSize_def)
  ultimately show ?thesis using assms by (auto simp: cc_trim_def bounded_def keep_new_def)
qed

lemma lru_spec_bounded: "bounded c \<Longrightarrow> lru_legal c p \<Longrightarrow> bounded (snd (lru_spec c p))"
proof (cases p)
  case (Set k v)
  assume c: "bounded c"
  have "distinct (map fst (cc_pairs (used k v c)))"
    using c fst_without [of k "cc_pairs c"] by (auto simp: used_def bounded_def distinct_without)
  moreover have "0 \<le> cc_limit c" using c by (simp add: bounded_def)
  ultimately show ?thesis using Set c bounded_trim [of "used k v c"]
    by (simp add: lru_spec_def lru_set_def bounded_def used_def)
next
  case (Remove k)
  assume "bounded c"
  with Remove length_without [of k "cc_pairs c"] show ?thesis by (simp add: lru_spec_def bounded_def distinct_without)
next
  case (SetLimit n)
  assume "bounded c" "lru_legal c p"
  with SetLimit bounded_trim [of "c\<lparr>cc_limit := n\<rparr>"] show ?thesis by (simp add: lru_spec_def bounded_def)
next
  case (SetRatio r)
  assume c: "bounded c"
  then have "0 \<le> cc_limit c" by (simp add: bounded_def)
  with SetRatio c bounded_trim [of "c\<lparr>cc_ratio := min (max 0 r) 1\<rparr>"] show ?thesis by (simp add: lru_spec_def bounded_def)
qed (auto simp: lru_spec_def bounded_def distinct_touch_pairs)

lemma lru_run_bounded:
  "bounded c \<Longrightarrow> legal_run lru_legal lru_spec c ops \<Longrightarrow> bounded (snd (run_spec lru_spec c ops))"
proof (induction ops arbitrary: c)
  case (Cons p ops)
  then have "bounded (snd (run_spec lru_spec (snd (lru_spec c p)) ops))" using lru_spec_bounded by auto
  then show ?case by (simp add: Let_def case_prod_unfold)
qed simp

text \<open>
  An \<open>LRUCache\<close> answers any sequence of operations like a list of pairs in the order of their last
  use, of which \<open>set\<close> keeps the newest \<open>round (limit * ratio)\<close> when there are more than \<open>limit\<close>; it
  never throws, and it never holds more than \<open>limit\<close> pairs after an operation. Hypothesis: limits are
  not negative.
\<close>

theorem LRUCache_refines:
  assumes "0 \<le> limit"
    and "legal_run lru_legal lru_spec \<lparr>cc_pairs = [], cc_limit = limit, cc_ratio = min (max 0 ratio) 1\<rparr> ops"
  shows "\<exists>t. run_object LRUCache_step (Cache_new limit ratio) ops =
      Inr (fst (run_spec lru_spec \<lparr>cc_pairs = [], cc_limit = limit, cc_ratio = min (max 0 ratio) 1\<rparr> ops), t) \<and>
    cache_contents t = snd (run_spec lru_spec \<lparr>cc_pairs = [], cc_limit = limit, cc_ratio = min (max 0 ratio) 1\<rparr> ops) \<and>
    int (length (cc_pairs (cache_contents t))) \<le> ca_limit t"
proof -
  let ?c = "\<lparr>cc_pairs = [], cc_limit = limit, cc_ratio = min (max 0 ratio) 1\<rparr>"
  note new = Cache_new_ok [OF assms(1), of ratio]
  obtain t where t: "run_object LRUCache_step (Cache_new limit ratio) ops = Inr (fst (run_spec lru_spec ?c ops), t)"
    "cache_contents t = snd (run_spec lru_spec ?c ops)"
    using lru.run_refines [OF new(1)] assms(2) unfolding new(2) by blast
  have "bounded ?c" using assms(1) by (simp add: bounded_def)
  from lru_run_bounded [OF this assms(2)] have "bounded (cache_contents t)" by (simp only: t(2))
  then have "int (length (cc_pairs (cache_contents t))) \<le> ca_limit t" by (simp add: bounded_def cache_contents_def)
  with t show ?thesis by blast
qed

theorem LRUCache_refines_witness:
  "\<exists>t. run_object LRUCache_step (Cache_new 2 1)
      [Set CHR ''a'' (1::int), Set CHR ''b'' 2, Get CHR ''a'' AsNew, Set CHR ''c'' 3, ToJSON, SetLimit 1, Peek CHR ''a''] =
    Inr ([Done, Done, Val (Some 1), Done, Pairs [(CHR ''a'', 1), (CHR ''c'', 3)], Done, Val None], t)"
proof -
  let ?ops = "[Set CHR ''a'' (1::int), Set CHR ''b'' 2, Get CHR ''a'' AsNew, Set CHR ''c'' 3, ToJSON, SetLimit 1, Peek CHR ''a'']"
  let ?c = "\<lparr>cc_pairs = [], cc_limit = 2, cc_ratio = min (max 0 1) 1\<rparr>"
  note defs = lru_spec_def lru_set_def cc_trim_def used_def keep_new_def cc_newSize_def touch_pairs_def
  have "legal_run lru_legal lru_spec ?c ?ops"
    by (simp add: defs)
  with LRUCache_refines [of 2 1 ?ops] obtain t where
    "run_object LRUCache_step (Cache_new 2 1) ?ops = Inr (fst (run_spec lru_spec ?c ?ops), t)" by auto
  moreover have "run_spec lru_spec ?c ?ops =
      ([Done, Done, Val (Some 1), Done, Pairs [(CHR ''a'', 1), (CHR ''c'', 3)], Done, Val None],
       \<lparr>cc_pairs = [(CHR ''c'', 3)], cc_limit = 1, cc_ratio = 1\<rparr>)"
    by code_simp
  ultimately show ?thesis by (intro exI [of _ t]) (simp only: fst_conv)
qed

text \<open>The keys used last, the most recent one at the end: the specification of the cache by its history.\<close>

definition recent :: "nat \<Rightarrow> 'k list \<Rightarrow> 'k list" where
  "recent n h = keep_new n (remdups h)"

fun uses :: "nat \<Rightarrow> 'k list \<Rightarrow> ('k, 'v) cache_op list \<Rightarrow> 'k list" where
  "uses n h [] = h"
| "uses n h (Set k v # ops) = uses n (h @ [k]) ops"
| "uses n h (Get k touch # ops) = uses n (if k \<in> set (recent n h) then h @ [k] else h) ops"
| "uses n h (_ # ops) = uses n h ops"

fun last_set :: "('k \<rightharpoonup> 'v) \<Rightarrow> ('k, 'v) cache_op list \<Rightarrow> 'k \<rightharpoonup> 'v" where
  "last_set m [] = m"
| "last_set m (Set k v # ops) = last_set (m(k \<mapsto> v)) ops"
| "last_set m (_ # ops) = last_set m ops"

text \<open>The calls that neither remove nor resize, and that touch what they get, as \<open>get\<close> does by default.\<close>

fun ordinary :: "('k, 'v) cache_op \<Rightarrow> bool" where
  "ordinary (Get k touch) \<longleftrightarrow> touch = AsNew"
| "ordinary (Remove k) \<longleftrightarrow> False"
| "ordinary (SetLimit n) \<longleftrightarrow> False"
| "ordinary (SetRatio r) \<longleftrightarrow> False"
| "ordinary _ \<longleftrightarrow> True"

lemma keep_new_rev: "keep_new n xs = rev (take n (rev xs))"
  by (simp add: keep_new_def rev_take)

lemma take_filter_take:
  "distinct S \<Longrightarrow> take m (filter (\<lambda>x. x \<noteq> k) (take (Suc m) S)) = take m (filter (\<lambda>x. x \<noteq> k) S)"
proof (induction S arbitrary: m)
  case (Cons x S)
  show ?case
  proof (cases "x = k")
    case True
    with Cons.prems have "filter (\<lambda>y. y \<noteq> k) S = S" "filter (\<lambda>y. y \<noteq> k) (take m S) = take m S"
      by (auto intro!: filter_True dest: in_set_takeD)
    with True show ?thesis by simp
  next
    case False
    with Cons show ?thesis by (cases m) auto
  qed
qed simp

lemma keep_new_use:
  assumes "distinct R"
  shows "keep_new n (filter (\<lambda>x. x \<noteq> k) (keep_new n R) @ [k]) = keep_new n (filter (\<lambda>x. x \<noteq> k) R @ [k])"
  using assms take_filter_take [of "rev R"] by (cases n) (simp_all add: keep_new_rev rev_filter [symmetric])

lemma remdups_snoc: "remdups (xs @ [k]) = filter (\<lambda>x. x \<noteq> k) (remdups xs) @ [k]"
  by (induction xs) auto

lemma recent_use: "keep_new n (filter (\<lambda>x. x \<noteq> k) (recent n h) @ [k]) = recent n (h @ [k])"
  unfolding recent_def remdups_snoc by (rule keep_new_use) simp

lemma fst_without_map: "map fst (without k es) = filter (\<lambda>x. x \<noteq> k) (map fst es)"
  by (simp add: without_def filter_map o_def)

lemma keep_new_short: "length xs \<le> n \<Longrightarrow> keep_new n xs = xs"
  by (simp add: keep_new_def)

lemma length_recent: "length (recent n h) \<le> n"
  by (simp add: recent_def keep_new_def)

lemma set_keep_new: "set (keep_new n es) \<subseteq> set es"
  by (simp add: keep_new_def set_drop_subset)

definition recency :: "nat \<Rightarrow> 'k list \<Rightarrow> ('k \<rightharpoonup> 'v) \<Rightarrow> ('k, 'v) cache_contents \<Rightarrow> bool" where
  "recency n h m c \<longleftrightarrow> cc_limit c = int n \<and> cc_ratio c = 1 \<and> map fst (cc_pairs c) = recent n h \<and>
     (\<forall>p \<in> set (cc_pairs c). m (fst p) = Some (snd p))"

lemma lru_set_recency:
  assumes "recency n h m c"
  shows "recency n (h @ [k]) (m(k \<mapsto> v)) (lru_set k v c)"
proof -
  let ?es = "without k (cc_pairs c) @ [(k, v)]"
  have round: "cc_newSize c = n" using assms js_round_int(1) [of "int n"] by (simp add: cc_newSize_def recency_def)
  have set: "cc_pairs (lru_set k v c) = keep_new n ?es" "cc_limit (lru_set k v c) = int n" "cc_ratio (lru_set k v c) = 1"
    using assms round keep_new_short [of ?es n]
    by (auto simp: lru_set_def cc_trim_def used_def recency_def cc_newSize_def)
  have "map fst (keep_new n ?es) = keep_new n (map fst ?es)" unfolding keep_new_def by (simp only: drop_map length_map)
  also have "map fst ?es = filter (\<lambda>x. x \<noteq> k) (recent n h) @ [k]"
    using assms by (simp add: fst_without_map recency_def)
  finally have "map fst (keep_new n ?es) = recent n (h @ [k])" by (simp only: recent_use)
  moreover have "(m(k \<mapsto> v)) (fst p) = Some (snd p)" if "p \<in> set (keep_new n ?es)" for p
    using subsetD [OF set_keep_new that] assms by (auto simp: without_def recency_def)
  ultimately show ?thesis by (simp add: recency_def set)
qed

lemma get_recency:
  assumes "recency n h m c"
  shows "recency n (if k \<in> set (recent n h) then h @ [k] else h) m (c\<lparr>cc_pairs := touch_pairs AsNew k (cc_pairs c)\<rparr>)"
proof (cases "k \<in> set (recent n h)")
  case False
  with assms have "k \<notin> fst ` set (cc_pairs c)" by (metis recency_def set_map)
  then have "touch_pairs AsNew k (cc_pairs c) = cc_pairs c" by (simp add: touch_pairs_def)
  with False assms show ?thesis by simp
next
  case True
  have keys: "map fst (cc_pairs c) = recent n h" and d: "distinct (map fst (cc_pairs c))"
    using assms by (simp_all add: recency_def recent_def keep_new_def)
  have one: "map fst (filter (\<lambda>p. fst p = k) es) = [k]" if "distinct (map fst es)" "k \<in> fst ` set es" for es :: "('a \<times> 'b) list"
    using that by (induction es) (auto simp: here_Nil)
  have touch: "map fst (touch_pairs AsNew k (cc_pairs c)) = filter (\<lambda>x. x \<noteq> k) (recent n h) @ [k]"
    unfolding keys [symmetric] using one [OF d] True keys
    by (simp add: touch_pairs_def fst_without_map) (metis set_map)
  have "length (touch_pairs AsNew k (cc_pairs c)) \<le> n"
    using distinct_touch_pairs(2) [OF d, of AsNew k] length_recent [of n h] by (metis keys length_map)
  then have "keep_new n (filter (\<lambda>x. x \<noteq> k) (recent n h) @ [k]) = filter (\<lambda>x. x \<noteq> k) (recent n h) @ [k]"
    using touch by (intro keep_new_short) (metis length_map)
  with touch have "map fst (touch_pairs AsNew k (cc_pairs c)) = recent n (h @ [k])" by (simp only: recent_use)
  with True assms distinct_touch_pairs(3) [OF d, of AsNew k] show ?thesis by (simp add: recency_def)
qed

lemma run_recency:
  "recency n h m c \<Longrightarrow> list_all ordinary ops \<Longrightarrow> recency n (uses n h ops) (last_set m ops) (snd (run_spec lru_spec c ops))"
proof (induction ops arbitrary: h m c)
  case (Cons p ops)
  from Cons.prems(2) have ops: "list_all ordinary ops" by simp
  have run: "snd (run_spec lru_spec c (p # ops)) = snd (run_spec lru_spec (snd (lru_spec c p)) ops)"
    by (simp add: Let_def case_prod_unfold)
  show ?case
  proof (cases p)
    case (Set k v)
    then have "snd (lru_spec c p) = lru_set k v c" by (simp add: lru_spec_def)
    with Cons.IH [OF lru_set_recency [OF Cons.prems(1), of k v] ops] show ?thesis
      unfolding run by (simp only: Set uses.simps last_set.simps)
  next
    case (Get k touch)
    then have "snd (lru_spec c p) = c\<lparr>cc_pairs := touch_pairs AsNew k (cc_pairs c)\<rparr>"
      using Cons.prems(2) by (simp add: lru_spec_def)
    with Cons.IH [OF get_recency [OF Cons.prems(1), of k] ops] show ?thesis
      unfolding run by (simp only: Get uses.simps last_set.simps)
  qed (use Cons in \<open>simp_all add: run lru_spec_def case_prod_unfold Let_def\<close>)
qed simp

lemma lru_legal_ordinary: "list_all ordinary ops \<Longrightarrow> legal_run lru_legal lru_spec c ops"
proof (induction ops arbitrary: c)
  case (Cons p ops)
  then show ?case by (cases p) simp_all
qed simp

text \<open>
  C26. Under \<open>set\<close>, \<open>get\<close>, \<open>peek\<close> and the queries, an \<open>LRUCache\<close> of ratio 1 holds exactly the \<open>limit\<close>
  keys used last, in the order of their last use, with the values last set for them. A use is a call
  of \<open>set\<close>, or a call of \<open>get\<close> for a key that is held.
\<close>

theorem LRUCache_recency:
  assumes "list_all ordinary ops"
  shows "\<exists>rs t. run_object LRUCache_step (Cache_new (int n) 1) ops = Inr (rs, t) \<and>
    map fst (cc_pairs (cache_contents t)) = recent n (uses n [] ops) \<and>
    (\<forall>k v. (k, v) \<in> set (cc_pairs (cache_contents t)) \<longrightarrow> last_set Map.empty ops k = Some v)"
proof -
  let ?c = "\<lparr>cc_pairs = [], cc_limit = int n, cc_ratio = 1\<rparr>"
  have new: "cache_inv (Cache_new (int n) 1)" "cache_contents (Cache_new (int n) 1) = ?c"
    using Cache_new_ok [of "int n" 1] by simp_all
  obtain t where t: "run_object LRUCache_step (Cache_new (int n) 1) ops = Inr (fst (run_spec lru_spec ?c ops), t)"
    "cache_contents t = snd (run_spec lru_spec ?c ops)"
    using lru.run_refines [OF new(1), of ops] lru_legal_ordinary [OF assms] unfolding new(2) by blast
  have "recency n [] Map.empty ?c" by (simp add: recency_def recent_def keep_new_def)
  from run_recency [OF this assms] t(2) have "recency n (uses n [] ops) (last_set Map.empty ops) (cache_contents t)" by simp
  then show ?thesis using t(1) by (auto simp: recency_def)
qed

theorem LRUCache_recency_witness:
  "\<exists>rs t. run_object LRUCache_step (Cache_new 2 1)
      [Set CHR ''a'' (1::int), Set CHR ''b'' 2, Get CHR ''a'' AsNew, Set CHR ''c'' 3, Get CHR ''b'' AsNew] = Inr (rs, t) \<and>
    map fst (cc_pairs (cache_contents t)) = [CHR ''a'', CHR ''c'']"
proof -
  let ?ops = "[Set CHR ''a'' (1::int), Set CHR ''b'' 2, Get CHR ''a'' AsNew, Set CHR ''c'' 3, Get CHR ''b'' AsNew]"
  have "list_all ordinary ?ops" by simp
  from LRUCache_recency [OF this, of 2] show ?thesis by (auto simp: recent_def keep_new_def)
qed

text \<open>The same for the cache that drops the pairs used most recently.\<close>

lemma MRUCache_refines:
  assumes "0 \<le> limit"
    and "legal_run mru_legal mru_spec \<lparr>cc_pairs = [], cc_limit = limit, cc_ratio = min (max 0 ratio) 1\<rparr> ops"
  shows "\<exists>t. run_object MRUCache_step (Cache_new limit ratio) ops =
      Inr (fst (run_spec mru_spec \<lparr>cc_pairs = [], cc_limit = limit, cc_ratio = min (max 0 ratio) 1\<rparr> ops), t)"
  using mru.run_refines [OF Cache_new_ok(1) [OF assms(1)]] assms(2) unfolding Cache_new_ok(2) [OF assms(1)] by blast

text \<open>
  Its hypothesis is needed: with limit 1 and ratio 0 the second \<open>set\<close> trims to \<open>-1\<close> pairs, which
  leaves a head without a tail, and throws.
\<close>

lemma MRUCache_small_ratio_throws:
  "run_object MRUCache_step (Cache_new 1 0) [Set CHR ''a'' (1::int), Set CHR ''b'' 2] = Inl (Some Error)"
  by (simp add: MRUCache_step_def MRUCache_set_def Cache_set_def Cache_new_def LinkedMap_new_def LinkedMap.extend_def
      Cache.fields_def LinkedMap_set_def addItemLast_def MRUCache_trim_def LinkedMap_trimNew_def trimNew_loop.simps
      Cache_newSize_def LinkedMap_has_def throws_def key_def pv_def Let_def del: bindE_eq_Inr)

end
