(* ===== verification/Task_Runner.thy ===== *)
theory Task_Runner
  imports "HOL-Library.Multiset" Prelude
begin

text \<open>
  The classes of \<open>base/common/async.ts\<close> that decide when to start the tasks queued at them. A task is a
  factory: calling it returns a promise, which settles when the environment says so, or throws. Which
  tasks throw is a parameter, and calling a factory does not call back into the class. A state is the
  object, the promises that have not settled, and the list of the factories called so far; the events
  come from outside: a client queues a task, clears or disposes the object, a promise settles.
\<close>

datatype 't event = Queue 't | Settle 't | Clear | Dispose

inductive run_events :: "('s \<Rightarrow> 'e \<Rightarrow> 's \<Rightarrow> bool) \<Rightarrow> 's \<Rightarrow> 'e list \<Rightarrow> 's \<Rightarrow> bool" for step where
  no_events: "run_events step s [] s"
| more_events: "step s e s' \<Longrightarrow> run_events step s' es s'' \<Longrightarrow> run_events step s (e # es) s''"

inductive_cases run_events_NilE: "run_events step s [] s'"
inductive_cases run_events_ConsE: "run_events step s (e # es) s'"
inductive_simps run_events_Nil [simp]: "run_events step s [] s'"
inductive_simps run_events_Cons: "run_events step s (e # es) s'"

lemma run_events_append:
  "run_events step s (es @ es') s' \<longleftrightarrow> (\<exists>s1. run_events step s es s1 \<and> run_events step s1 es' s')"
  by (induction es arbitrary: s) (auto simp: run_events_Cons)

definition settles :: "'t event list \<Rightarrow> bool" where
  "settles es \<longleftrightarrow> (\<forall>e \<in> set es. \<exists>t. e = Settle t)"

text \<open>
  What such a class promises. \<open>called\<close> are the tasks called so far, \<open>pending\<close> those it will call, in
  order; \<open>able\<close> says that it is not stuck.
\<close>

locale task_runner =
  fixes step :: "'s \<Rightarrow> 't event \<Rightarrow> 's \<Rightarrow> bool"
    and inv :: "'s \<Rightarrow> bool"
    and able :: "'s \<Rightarrow> bool"
    and active :: "'s \<Rightarrow> 't multiset"
    and limit :: "'s \<Rightarrow> nat"
    and called :: "'s \<Rightarrow> 't list"
    and pending :: "'s \<Rightarrow> 't list"
  assumes inv_step: "inv s \<Longrightarrow> step s e s' \<Longrightarrow> inv s'"
    and active_limit: "inv s \<Longrightarrow> size (active s) \<le> limit s"
    and settle_calls: "inv s \<Longrightarrow> step s (Settle t) s' \<Longrightarrow>
      called s' = called s @ take 1 (pending s) \<and> pending s' = drop 1 (pending s)"
    and settle_enabled: "inv s \<Longrightarrow> able s \<Longrightarrow> pending s \<noteq> [] \<Longrightarrow> \<exists>t s'. step s (Settle t) s' \<and> (pending s' \<noteq> [] \<longrightarrow> able s')"
begin

lemma inv_run: "run_events step s es s' \<Longrightarrow> inv s \<Longrightarrow> inv s'"
  by (induction rule: run_events.induct) (auto intro: inv_step)

lemma active_run: "run_events step s es s' \<Longrightarrow> inv s \<Longrightarrow> size (active s') \<le> limit s'"
  by (blast intro: inv_run active_limit)

text \<open>Settling promises calls the pending tasks in order, one for each.\<close>

lemma settles_call:
  "run_events step s es s' \<Longrightarrow> inv s \<Longrightarrow> settles es \<Longrightarrow>
   called s' = called s @ take (length es) (pending s) \<and> pending s' = drop (length es) (pending s)"
proof (induction rule: run_events.induct)
  case (more_events s e s' es s'')
  then obtain t where "e = Settle t" by (auto simp: settles_def)
  with more_events have "called s' = called s @ take 1 (pending s)" "pending s' = drop 1 (pending s)" "inv s'"
    using settle_calls [of s t s'] inv_step [of s e s'] by auto
  with more_events show ?case by (cases "pending s") (simp_all add: settles_def)
qed simp

text \<open>While a task is pending, a promise can settle: after as many settlements all are called.\<close>

lemma drains:
  assumes "inv s" "able s"
  shows "\<exists>es s'. run_events step s es s' \<and> settles es \<and> length es = length (pending s) \<and>
    called s' = called s @ pending s \<and> pending s' = []"
  using assms
proof (induction "length (pending s)" arbitrary: s)
  case 0
  then show ?case by (intro exI [of _ "[]"] exI [of _ s]) (simp add: settles_def)
next
  case (Suc n)
  then have ne: "pending s \<noteq> []" by auto
  with settle_enabled [of s] Suc.prems obtain t s' where s': "step s (Settle t) s'" "pending s' \<noteq> [] \<longrightarrow> able s'" by blast
  have c: "called s' = called s @ take 1 (pending s)" "pending s' = drop 1 (pending s)" "inv s'"
    using settle_calls [OF Suc.prems(1) s'(1)] inv_step [OF Suc.prems(1) s'(1)] by auto
  show ?case
  proof (cases "pending s' = []")
    case True
    with c ne have "length (pending s) = 1" "take 1 (pending s) = pending s" by (cases "pending s"; simp)+
    with c(1) True s'(1) show ?thesis
      by (intro exI [of _ "[Settle t]"] exI [of _ s']) (auto simp: settles_def run_events_Cons)
  next
    case False
    have "n = length (pending s')" using Suc.hyps(2) c(2) by simp
    with Suc.hyps(1) [of s'] c(3) s'(2) False obtain es s'' where es: "run_events step s' es s''" "settles es"
      "length es = length (pending s')" "called s'' = called s' @ pending s'" "pending s'' = []" by blast
    have "take 1 (pending s) @ pending s' = pending s" unfolding c(2) by (rule append_take_drop_id)
    with es c(1) have "called s'' = called s @ pending s" by simp
    moreover have "length (Settle t # es) = length (pending s)" using es(3) c(2) ne by (cases "pending s") simp_all
    ultimately show ?thesis using es s'(1)
      by (intro exI [of _ "Settle t # es"] exI [of _ s'']) (auto simp: settles_def run_events_Cons)
  qed
qed

end

end
