(* ===== verification/Task_Limiter.thy ===== *)
theory Task_Limiter
  imports Task_Runner
begin

text \<open>
  \<open>Limiter\<close> of \<open>base/common/async.ts\<close>, and \<open>Queue\<close>, the limiter of one task at a time.
\<close>

subsection \<open>The class\<close>

record 't Limiter =
  li_size :: int
  li_isDisposed :: bool
  li_runningPromises :: int
  li_maxDegreeOfParalellism :: int
  li_outstandingPromises :: "'t list"

definition Limiter_new :: "int \<Rightarrow> 't Limiter" where
  "Limiter_new maxDegreeOfParalellism =
     \<lparr>li_size = 0, li_isDisposed = False, li_runningPromises = 0,
      li_maxDegreeOfParalellism = maxDegreeOfParalellism, li_outstandingPromises = []\<rparr>"

text \<open>The factories called, the object, and whether the last of them threw, which ends the loop.\<close>

function Limiter_consume :: "('t \<Rightarrow> bool) \<Rightarrow> 't Limiter \<Rightarrow> 't list \<times> 't Limiter \<times> bool" where
  "Limiter_consume throws this =
     (case li_outstandingPromises this of
        factory # rest \<Rightarrow>
          if li_runningPromises this < li_maxDegreeOfParalellism this then
            let t = this\<lparr>li_outstandingPromises := rest, li_runningPromises := li_runningPromises this + 1\<rparr>
            in if throws factory then ([factory], t, True)
               else case Limiter_consume throws t of (fs, t', b) \<Rightarrow> (factory # fs, t', b)
          else ([], this, False)
      | [] \<Rightarrow> ([], this, False))"
  by pat_completeness auto
termination by (relation "measure (\<lambda>(_, this). length (li_outstandingPromises this))") auto

declare Limiter_consume.simps [simp del]

definition Limiter_queue :: "('t \<Rightarrow> bool) \<Rightarrow> 't Limiter \<Rightarrow> 't \<Rightarrow> js_error + 't list \<times> 't Limiter \<times> bool" where
  "Limiter_queue throws this factory =
     (if li_isDisposed this then Inl Error
      else Inr (Limiter_consume throws (this\<lparr>li_size := li_size this + 1,
             li_outstandingPromises := li_outstandingPromises this @ [factory]\<rparr>)))"

text \<open>A promise settled; the last component says whether \<open>onDrained\<close> fires.\<close>

definition Limiter_consumed :: "('t \<Rightarrow> bool) \<Rightarrow> 't Limiter \<Rightarrow> ('t list \<times> 't Limiter \<times> bool) \<times> bool" where
  "Limiter_consumed throws this =
     (if li_isDisposed this then (([], this, False), False)
      else
        let t = this\<lparr>li_runningPromises := li_runningPromises this - 1, li_size := li_size this - 1\<rparr>
        in (if li_outstandingPromises t \<noteq> [] then Limiter_consume throws t else ([], t, False), li_size t = 0))"

definition Limiter_clear :: "'t Limiter \<Rightarrow> js_error + 't Limiter" where
  "Limiter_clear this =
     (if li_isDisposed this then Inl Error
      else Inr (this\<lparr>li_outstandingPromises := [], li_size := li_runningPromises this\<rparr>))"

definition Limiter_dispose :: "'t Limiter \<Rightarrow> 't Limiter" where
  "Limiter_dispose this = this\<lparr>li_isDisposed := True, li_outstandingPromises := [], li_size := 0\<rparr>"

definition Queue_new :: "'t Limiter" where
  "Queue_new = Limiter_new 1"

subsection \<open>The limiter and its promises\<close>

record 't limiter_state =
  ls_limiter :: "'t Limiter"
  ls_active :: "'t multiset"
  ls_called :: "'t list"
  ls_failed :: nat
  ls_drained :: nat

definition limiter_init :: "nat \<Rightarrow> 't limiter_state" where
  "limiter_init n = \<lparr>ls_limiter = Limiter_new (int n), ls_active = {#}, ls_called = [], ls_failed = 0, ls_drained = 0\<rparr>"

text \<open>The factories called return promises, except for the last one if it threw.\<close>

definition after_calls :: "'t limiter_state \<Rightarrow> 't list \<times> 't Limiter \<times> bool \<Rightarrow> 't limiter_state" where
  "after_calls s c =
     (case c of (fs, l, threw) \<Rightarrow>
        s\<lparr>ls_limiter := l, ls_called := ls_called s @ fs,
          ls_active := ls_active s + mset (if threw then butlast fs else fs),
          ls_failed := ls_failed s + (if threw then 1 else 0)\<rparr>)"

inductive limiter_step :: "('t \<Rightarrow> bool) \<Rightarrow> 't limiter_state \<Rightarrow> 't event \<Rightarrow> 't limiter_state \<Rightarrow> bool" for throws where
  queue: "Limiter_queue throws (ls_limiter s) t = Inr c \<Longrightarrow> limiter_step throws s (Queue t) (after_calls s c)"
| queue_throws: "Limiter_queue throws (ls_limiter s) t = Inl e \<Longrightarrow> limiter_step throws s (Queue t) s"
| settle: "t \<in># ls_active s \<Longrightarrow> Limiter_consumed throws (ls_limiter s) = (c, drained) \<Longrightarrow>
    limiter_step throws s (Settle t)
      (after_calls (s\<lparr>ls_active := ls_active s - {#t#}, ls_drained := ls_drained s + (if drained then 1 else 0)\<rparr>) c)"
| clear: "Limiter_clear (ls_limiter s) = Inr l \<Longrightarrow> limiter_step throws s Clear (s\<lparr>ls_limiter := l\<rparr>)"
| clear_throws: "Limiter_clear (ls_limiter s) = Inl e \<Longrightarrow> limiter_step throws s Clear s"
| dispose: "limiter_step throws s Dispose (s\<lparr>ls_limiter := Limiter_dispose (ls_limiter s)\<rparr>)"

inductive_cases limiter_queueE: "limiter_step throws s (Queue t) s'"
inductive_cases limiter_settleE: "limiter_step throws s (Settle t) s'"
inductive_cases limiter_clearE: "limiter_step throws s Clear s'"
inductive_cases limiter_disposeE: "limiter_step throws s Dispose s'"

text \<open>
  A factory that threw holds its place for ever: the running promises are those that have not settled
  and the failed calls. While tasks wait, all places are taken.
\<close>

definition limiter_inv :: "'t limiter_state \<Rightarrow> bool" where
  "limiter_inv s \<longleftrightarrow>
     (let l = ls_limiter s in
        size (ls_active s) \<le> nat (li_maxDegreeOfParalellism l) \<and>
        (if li_isDisposed l then li_outstandingPromises l = []
         else li_runningPromises l = int (size (ls_active s)) + int (ls_failed s) \<and>
           li_runningPromises l \<le> li_maxDegreeOfParalellism l \<and>
           li_size l = li_runningPromises l + int (length (li_outstandingPromises l)) \<and>
           (li_outstandingPromises l \<noteq> [] \<longrightarrow> li_runningPromises l = li_maxDegreeOfParalellism l)))"

lemma consume_full:
  "li_runningPromises this \<ge> li_maxDegreeOfParalellism this \<Longrightarrow> Limiter_consume throws this = ([], this, False)"
  by (subst Limiter_consume.simps) (simp split: list.splits)

lemma consume_one:
  assumes "li_outstandingPromises this = f # fs" "li_runningPromises this < li_maxDegreeOfParalellism this"
    "fs \<noteq> [] \<Longrightarrow> li_runningPromises this + 1 = li_maxDegreeOfParalellism this"
  shows "Limiter_consume throws this =
    ([f], this\<lparr>li_outstandingPromises := fs, li_runningPromises := li_runningPromises this + 1\<rparr>, throws f)"
proof -
  let ?t = "this\<lparr>li_outstandingPromises := fs, li_runningPromises := li_runningPromises this + 1\<rparr>"
  have "Limiter_consume throws ?t = ([], ?t, False)"
  proof (cases fs)
    case Nil
    then show ?thesis by (subst Limiter_consume.simps) simp
  next
    case Cons
    with assms(3) show ?thesis by (intro consume_full) simp
  qed
  with assms(1,2) show ?thesis by (subst Limiter_consume.simps) (simp add: Let_def)
qed

lemma limiter_queue_cases:
  assumes "limiter_inv s" "\<not> li_isDisposed (ls_limiter s)"
  shows "\<exists>c. Limiter_queue throws (ls_limiter s) t = Inr c \<and> limiter_inv (after_calls s c) \<and>
    ls_called (after_calls s c) @ li_outstandingPromises (ls_limiter (after_calls s c)) =
      ls_called s @ li_outstandingPromises (ls_limiter s) @ [t]"
proof -
  let ?l = "ls_limiter s"
  let ?u = "?l\<lparr>li_size := li_size ?l + 1, li_outstandingPromises := li_outstandingPromises ?l @ [t]\<rparr>"
  have inv: "li_runningPromises ?l = int (size (ls_active s)) + int (ls_failed s)"
    "li_runningPromises ?l \<le> li_maxDegreeOfParalellism ?l"
    "li_size ?l = li_runningPromises ?l + int (length (li_outstandingPromises ?l))"
    "li_outstandingPromises ?l \<noteq> [] \<longrightarrow> li_runningPromises ?l = li_maxDegreeOfParalellism ?l"
    "size (ls_active s) \<le> nat (li_maxDegreeOfParalellism ?l)"
    using assms by (auto simp: limiter_inv_def Let_def)
  show ?thesis
  proof (cases "li_runningPromises ?l < li_maxDegreeOfParalellism ?l")
    case True
    with inv(4) have e: "li_outstandingPromises ?l = []" by auto
    with True have "Limiter_consume throws ?u =
        ([t], ?u\<lparr>li_outstandingPromises := [], li_runningPromises := li_runningPromises ?u + 1\<rparr>, throws t)"
      by (intro consume_one) simp_all
    with True inv e assms(2) show ?thesis
      by (auto simp: Limiter_queue_def after_calls_def limiter_inv_def Let_def)
  next
    case False
    then have "Limiter_consume throws ?u = ([], ?u, False)" by (intro consume_full) simp
    with False inv assms(2) show ?thesis
      by (auto simp: Limiter_queue_def after_calls_def limiter_inv_def Let_def)
  qed
qed

lemma limiter_settle_cases:
  assumes inv: "limiter_inv s" and t: "t \<in># ls_active s" and c: "Limiter_consumed throws (ls_limiter s) = (c, drained)"
  defines "s' \<equiv> after_calls (s\<lparr>ls_active := ls_active s - {#t#}, ls_drained := ls_drained s + (if drained then 1 else 0)\<rparr>) c"
  shows "limiter_inv s' \<and> ls_called s' = ls_called s @ take 1 (li_outstandingPromises (ls_limiter s)) \<and>
    li_outstandingPromises (ls_limiter s') = drop 1 (li_outstandingPromises (ls_limiter s))"
proof -
  let ?l = "ls_limiter s"
  have size: "int (size (ls_active s - {#t#})) = int (size (ls_active s)) - 1" "0 < size (ls_active s)"
    using t by (auto simp: size_Diff_singleton of_nat_diff Suc_le_eq nonempty_has_size dest: multi_member_split)
  show ?thesis
  proof (cases "li_isDisposed ?l")
    case True
    then have "c = ([], ?l, False)" "drained = False" using c by (simp_all add: Limiter_consumed_def)
    with True inv size show ?thesis by (auto simp: s'_def after_calls_def limiter_inv_def Let_def)
  next
    case False
    let ?u = "?l\<lparr>li_runningPromises := li_runningPromises ?l - 1, li_size := li_size ?l - 1\<rparr>"
    have eqs: "li_runningPromises ?l = int (size (ls_active s)) + int (ls_failed s)"
      "li_runningPromises ?l \<le> li_maxDegreeOfParalellism ?l"
      "li_size ?l = li_runningPromises ?l + int (length (li_outstandingPromises ?l))"
      "li_outstandingPromises ?l \<noteq> [] \<longrightarrow> li_runningPromises ?l = li_maxDegreeOfParalellism ?l"
      "size (ls_active s) \<le> nat (li_maxDegreeOfParalellism ?l)"
      using inv False by (auto simp: limiter_inv_def Let_def)
    show ?thesis
    proof (cases "li_outstandingPromises ?l")
      case Nil
      then have "c = ([], ?u, False)" using c False by (simp add: Limiter_consumed_def Let_def)
      with Nil False eqs size show ?thesis by (auto simp: s'_def after_calls_def limiter_inv_def Let_def)
    next
      case (Cons f fs)
      with eqs have "Limiter_consume throws ?u =
          ([f], ?u\<lparr>li_outstandingPromises := fs, li_runningPromises := li_runningPromises ?u + 1\<rparr>, throws f)"
        by (intro consume_one) simp_all
      then have "c = ([f], ?u\<lparr>li_outstandingPromises := fs, li_runningPromises := li_runningPromises ?l\<rparr>, throws f)"
        using c False Cons by (simp add: Limiter_consumed_def Let_def)
      with Cons False eqs size show ?thesis by (auto simp: s'_def after_calls_def limiter_inv_def Let_def)
    qed
  qed
qed

lemma limiter_inv_step:
  assumes "limiter_inv s" "limiter_step throws s e s'"
  shows "limiter_inv s'"
  using assms(2,1)
proof cases
  case (queue t c)
  with assms(1) limiter_queue_cases [OF assms(1), of throws t] show ?thesis
    by (cases "li_isDisposed (ls_limiter s)") (auto simp: Limiter_queue_def)
next
  case (settle t c drained)
  with limiter_settle_cases [OF assms(1)] show ?thesis by blast
qed (auto simp: limiter_inv_def Let_def Limiter_clear_def Limiter_dispose_def split: if_splits)

text \<open>The limiter can go on while the calls that threw have not taken all places.\<close>

definition limiter_able :: "('t \<Rightarrow> bool) \<Rightarrow> 't limiter_state \<Rightarrow> bool" where
  "limiter_able throws s \<longleftrightarrow> int (ls_failed s) < li_maxDegreeOfParalellism (ls_limiter s) \<and>
     (\<forall>t \<in> set (li_outstandingPromises (ls_limiter s)). \<not> throws t)"

lemma limiter_settle_enabled:
  assumes "limiter_inv s" "limiter_able throws s" "li_outstandingPromises (ls_limiter s) \<noteq> []"
  shows "\<exists>t s'. limiter_step throws s (Settle t) s' \<and> limiter_able throws s'"
proof -
  let ?l = "ls_limiter s"
  have dis: "\<not> li_isDisposed ?l" using assms(1,3) by (auto simp: limiter_inv_def Let_def)
  with assms have full: "li_runningPromises ?l = li_maxDegreeOfParalellism ?l"
    and "int (size (ls_active s)) = li_runningPromises ?l - int (ls_failed s)"
    by (auto simp: limiter_inv_def Let_def)
  with assms(2) have "0 < size (ls_active s)" by (simp add: limiter_able_def)
  then obtain t where t: "t \<in># ls_active s" by (metis multiset_nonemptyE nonempty_has_size)
  obtain c drained where c: "Limiter_consumed throws ?l = (c, drained)" by (meson surj_pair)
  obtain f fs where out: "li_outstandingPromises ?l = f # fs" using assms(3) by (cases "li_outstandingPromises ?l") auto
  let ?u = "?l\<lparr>li_runningPromises := li_runningPromises ?l - 1, li_size := li_size ?l - 1\<rparr>"
  have "Limiter_consume throws ?u =
      ([f], ?u\<lparr>li_outstandingPromises := fs, li_runningPromises := li_runningPromises ?u + 1\<rparr>, throws f)"
    using out full by (intro consume_one) simp_all
  then have "c = ([f], ?u\<lparr>li_outstandingPromises := fs, li_runningPromises := li_runningPromises ?l\<rparr>, False)"
    using c dis out assms(2) by (simp add: Limiter_consumed_def limiter_able_def Let_def)
  with assms(2) out have "limiter_able throws
      (after_calls (s\<lparr>ls_active := ls_active s - {#t#}, ls_drained := ls_drained s + (if drained then 1 else 0)\<rparr>) c)"
    by (simp add: limiter_able_def after_calls_def)
  with limiter_step.settle [OF t c] show ?thesis by blast
qed

interpretation limiter: task_runner "limiter_step throws" limiter_inv "limiter_able throws" ls_active
  "\<lambda>s. nat (li_maxDegreeOfParalellism (ls_limiter s))" ls_called "\<lambda>s. li_outstandingPromises (ls_limiter s)" for throws
proof unfold_locales
  fix s s' :: "'a limiter_state" and t e
  show "limiter_inv s \<Longrightarrow> limiter_step throws s e s' \<Longrightarrow> limiter_inv s'" by (rule limiter_inv_step)
  show "limiter_inv s \<Longrightarrow> size (ls_active s) \<le> nat (li_maxDegreeOfParalellism (ls_limiter s))"
    by (simp add: limiter_inv_def Let_def)
  show "limiter_inv s \<Longrightarrow> limiter_step throws s (Settle t) s' \<Longrightarrow>
      ls_called s' = ls_called s @ take 1 (li_outstandingPromises (ls_limiter s)) \<and>
      li_outstandingPromises (ls_limiter s') = drop 1 (li_outstandingPromises (ls_limiter s))"
    by (erule limiter_settleE) (use limiter_settle_cases [of s t throws] in blast)
  show "limiter_inv s \<Longrightarrow> limiter_able throws s \<Longrightarrow> li_outstandingPromises (ls_limiter s) \<noteq> [] \<Longrightarrow>
      \<exists>t s'. limiter_step throws s (Settle t) s' \<and> (li_outstandingPromises (ls_limiter s') \<noteq> [] \<longrightarrow> limiter_able throws s')"
    using limiter_settle_enabled by blast
qed

fun queued :: "'t event list \<Rightarrow> 't list" where
  "queued [] = []"
| "queued (Queue t # es) = t # queued es"
| "queued (_ # es) = queued es"

lemma consume_frame:
  "Limiter_consume throws l = (fs, l', b) \<Longrightarrow>
   li_maxDegreeOfParalellism l' = li_maxDegreeOfParalellism l \<and> li_isDisposed l' = li_isDisposed l"
proof (induction throws l arbitrary: fs l' b rule: Limiter_consume.induct)
  case (1 throws l)
  from "1.prems" show ?case
    by (subst (asm) Limiter_consume.simps) (auto simp: Let_def dest: "1.IH" split: list.splits if_splits prod.splits)
qed

lemma limiter_frame:
  assumes "limiter_step throws s e s'"
  shows "li_maxDegreeOfParalellism (ls_limiter s') = li_maxDegreeOfParalellism (ls_limiter s) \<and>
    (e \<noteq> Dispose \<longrightarrow> li_isDisposed (ls_limiter s') = li_isDisposed (ls_limiter s))"
  using assms
  by cases (auto simp: after_calls_def Limiter_queue_def Limiter_consumed_def Limiter_clear_def Limiter_dispose_def Let_def
      dest: consume_frame split: if_splits prod.splits)

lemma limiter_max: "run_events (limiter_step throws) s es s' \<Longrightarrow>
  li_maxDegreeOfParalellism (ls_limiter s') = li_maxDegreeOfParalellism (ls_limiter s)"
  by (induction rule: run_events.induct) (auto dest: limiter_frame)

lemma limiter_order:
  "run_events (limiter_step throws) s es s' \<Longrightarrow> limiter_inv s \<Longrightarrow> \<not> li_isDisposed (ls_limiter s) \<Longrightarrow>
   Clear \<notin> set es \<Longrightarrow> Dispose \<notin> set es \<Longrightarrow>
   \<not> li_isDisposed (ls_limiter s') \<and>
   ls_called s' @ li_outstandingPromises (ls_limiter s') = ls_called s @ li_outstandingPromises (ls_limiter s) @ queued es"
proof (induction rule: run_events.induct)
  case (more_events s e s' es s'')
  have inv: "limiter_inv s'" using more_events by (blast intro: limiter_inv_step)
  have dis: "\<not> li_isDisposed (ls_limiter s')" using more_events limiter_frame by fastforce
  have "ls_called s' @ li_outstandingPromises (ls_limiter s') = ls_called s @ li_outstandingPromises (ls_limiter s) @ queued [e]"
    using more_events.hyps(1)
  proof cases
    case (queue t c)
    with limiter_queue_cases [OF more_events.prems(1,2), of throws t] show ?thesis by auto
  next
    case (queue_throws t)
    with more_events.prems(2) show ?thesis by (simp add: Limiter_queue_def)
  next
    case (settle t c drained)
    with limiter_settle_cases [OF more_events.prems(1) settle(3,4)]
    show ?thesis by (metis append.assoc append_Nil2 append_take_drop_id queued.simps(1,3))
  qed (use more_events.prems in auto)
  moreover have "queued (e # es) = queued [e] @ queued es" by (cases e) simp_all
  ultimately show ?case using more_events.IH [OF inv dis] more_events.prems(3,4) by simp
qed simp

lemma limiter_init_inv: "limiter_inv (limiter_init n)"
  by (simp add: limiter_inv_def limiter_init_def Limiter_new_def)

text \<open>
  C28. In every state that a limiter of \<open>n\<close> places can reach, whatever tasks are queued, settle and
  throw, at most \<open>n\<close> tasks run at a time; until it is cleared or disposed the tasks are called in the
  order in which they were queued, each once, \<open>size\<close> is the number of tasks that run, wait or threw,
  and a task waits only while all places are taken.
\<close>

theorem Limiter_safe:
  assumes "run_events (limiter_step throws) (limiter_init n) es s"
  shows "size (ls_active s) \<le> n \<and>
    (Clear \<notin> set es \<and> Dispose \<notin> set es \<longrightarrow>
       ls_called s @ li_outstandingPromises (ls_limiter s) = queued es \<and>
       li_size (ls_limiter s) = int (size (ls_active s)) + int (ls_failed s) + int (length (li_outstandingPromises (ls_limiter s))) \<and>
       (li_outstandingPromises (ls_limiter s) \<noteq> [] \<longrightarrow> size (ls_active s) + ls_failed s = n))"
proof -
  have max: "li_maxDegreeOfParalellism (ls_limiter s) = int n"
    using limiter_max [OF assms] by (simp add: limiter_init_def Limiter_new_def)
  have inv: "limiter_inv s" using limiter.inv_run [OF assms limiter_init_inv] .
  have new: "\<not> li_isDisposed (ls_limiter (limiter_init n))" by (simp add: limiter_init_def Limiter_new_def)
  have "ls_called s @ li_outstandingPromises (ls_limiter s) = queued es \<and> \<not> li_isDisposed (ls_limiter s)"
    if "Clear \<notin> set es" "Dispose \<notin> set es"
    using limiter_order [OF assms limiter_init_inv new that] by (simp add: limiter_init_def Limiter_new_def)
  then show ?thesis using inv max by (auto simp: limiter_inv_def Let_def)
qed

text \<open>
  C29. No task waits for ever: from every reachable state in which fewer than \<open>n\<close> calls threw, and
  whose waiting tasks do not throw, promises can settle until every waiting task has been called, in
  order; each settlement calls one. A task that throws keeps its place: with one place, no task behind
  a waiting task that throws is ever called.
\<close>

theorem Limiter_live:
  assumes "run_events (limiter_step throws) (limiter_init n) es s" "ls_failed s < n"
    "list_all (\<lambda>t. \<not> throws t) (li_outstandingPromises (ls_limiter s))"
  shows "(\<exists>es' s'. run_events (limiter_step throws) s es' s' \<and> settles es' \<and>
      length es' = length (li_outstandingPromises (ls_limiter s)) \<and>
      ls_called s' = ls_called s @ li_outstandingPromises (ls_limiter s) \<and> li_outstandingPromises (ls_limiter s') = []) \<and>
    (\<forall>es' s'. run_events (limiter_step throws) s es' s' \<and> settles es' \<longrightarrow>
      ls_called s' = ls_called s @ take (length es') (li_outstandingPromises (ls_limiter s)))"
proof -
  have inv: "limiter_inv s" using limiter.inv_run [OF assms(1) limiter_init_inv] .
  have "limiter_able throws s"
    using assms(2,3) limiter_max [OF assms(1)]
    by (simp add: limiter_able_def limiter_init_def Limiter_new_def list_all_iff)
  from limiter.drains [OF inv this] limiter.settles_call [OF _ inv] show ?thesis by blast
qed

text \<open>A limiter of one place, at which two tasks were queued: the first runs, the second waits.\<close>

definition example_state :: "nat limiter_state" where
  "example_state =
     \<lparr>ls_limiter = \<lparr>li_size = 2, li_isDisposed = False, li_runningPromises = 1, li_maxDegreeOfParalellism = 1,
        li_outstandingPromises = [8]\<rparr>, ls_active = {#7#}, ls_called = [7], ls_failed = 0, ls_drained = 0\<rparr>"

lemma example_run: "run_events (limiter_step (\<lambda>_. False)) (limiter_init 1) [Queue 7, Queue 8] example_state"
proof -
  let ?l = "\<lparr>li_size = 1, li_isDisposed = False, li_runningPromises = 1, li_maxDegreeOfParalellism = 1, li_outstandingPromises = []\<rparr>"
  let ?s = "\<lparr>ls_limiter = ?l, ls_active = {#7#}, ls_called = [7 :: nat], ls_failed = 0, ls_drained = 0\<rparr>"
  have c1: "Limiter_queue (\<lambda>_. False) (ls_limiter (limiter_init 1)) 7 = Inr ([7], ?l, False)"
    by (simp add: Limiter_queue_def limiter_init_def Limiter_new_def Limiter_consume.simps)
  have c2: "Limiter_queue (\<lambda>_. False) (ls_limiter ?s) 8 = Inr ([], ls_limiter example_state, False)"
    by (simp add: Limiter_queue_def example_state_def Limiter_consume.simps)
  have "after_calls (limiter_init 1) ([7], ?l, False) = ?s" "after_calls ?s ([], ls_limiter example_state, False) = example_state"
    by (simp_all add: after_calls_def limiter_init_def example_state_def)
  then show ?thesis
    using limiter_step.queue [OF c1] limiter_step.queue [OF c2] by (auto intro!: run_events.intros)
qed

theorem Limiter_safe_witness:
  "ls_called example_state @ li_outstandingPromises (ls_limiter example_state) = [7, 8] \<and> size (ls_active example_state) \<le> 1"
  using Limiter_safe [OF example_run] by simp

theorem Limiter_live_witness:
  "\<exists>es s. run_events (limiter_step (\<lambda>_. False)) example_state es s \<and> length es = 1 \<and> ls_called s = [7, 8]"
proof -
  have "ls_failed example_state < 1" "list_all (\<lambda>t. \<not> False) (li_outstandingPromises (ls_limiter example_state))"
    by (simp_all add: example_state_def)
  from Limiter_live [OF example_run this] show ?thesis by (auto simp: example_state_def)
qed

end
