(* ===== verification/Task_Throttler.thy ===== *)
theory Task_Throttler
  imports Task_Runner
begin

text \<open>
  \<open>Throttler\<close>, \<open>TaskSequentializer\<close> and \<open>LimitedQueue\<close> of \<open>base/common/async.ts\<close>: one task runs at a
  time, one waits, and a task queued while another one waits takes its place.

  A throttler reacts to the promise of a task twice: one reaction clears \<open>activePromise\<close>, the other,
  registered when a task is queued behind it, is \<open>onComplete\<close>. Reactions run as jobs after the promise has settled:
  those registered before it settled, in their order and one right after the other, and those registered after it, each as a
  job of its own at the end of the queue of jobs. Clients may call the throttler between two jobs, and may register
  reactions of their own on the promise of a task, which call it between its reactions.
\<close>

subsection \<open>\<open>Throttler\<close>\<close>

text \<open>A promise is its number and the task that returned it.\<close>

type_synonym 't promise = "nat \<times> 't"

record 't Throttler =
  th_activePromise :: "'t promise option"
  th_queuedPromise :: bool
  th_queuedPromiseFactory :: "'t option"
  th_isCancellationRequested :: bool

definition Throttler_new :: "'t Throttler" where
  "Throttler_new =
     \<lparr>th_activePromise = None, th_queuedPromise = False, th_queuedPromiseFactory = None,
      th_isCancellationRequested = False\<rparr>"

text \<open>The reactions of the throttler, and one of a client, which queues a task.\<close>

datatype 't reaction = ClearActive | RunOnComplete | ClientReaction 't

text \<open>
  The factories called, and an exception or the object with the reaction registered, if any, and the promise
  it is registered on. The factory is \<open>None\<close> for \<open>null\<close>, calling a factory may throw, \<open>fresh\<close> is the
  number of the next promise.
\<close>

definition Throttler_queue :: "('t \<Rightarrow> bool) \<Rightarrow> nat \<Rightarrow> 't Throttler \<Rightarrow> 't option
    \<Rightarrow> 't list \<times> (js_error + 't Throttler \<times> ('t promise \<times> 't reaction) option)" where
  "Throttler_queue throws fresh this promiseFactory =
     (if th_isCancellationRequested this then ([], Inl Error)
      else case th_activePromise this of
        Some p \<Rightarrow>
          ([], Inr (this\<lparr>th_queuedPromiseFactory := promiseFactory, th_queuedPromise := True\<rparr>,
                    if th_queuedPromise this then None else Some (p, RunOnComplete)))
      | None \<Rightarrow>
          (case promiseFactory of
             None \<Rightarrow> ([], Inl TypeError)
           | Some f \<Rightarrow>
               if throws f then ([f], Inl Error)
               else ([f], Inr (this\<lparr>th_activePromise := Some (fresh, f)\<rparr>, Some ((fresh, f), ClearActive)))))"

definition Throttler_onComplete :: "('t \<Rightarrow> bool) \<Rightarrow> nat \<Rightarrow> 't Throttler
    \<Rightarrow> 't list \<times> 't Throttler \<times> ('t promise \<times> 't reaction) option" where
  "Throttler_onComplete throws fresh this =
     (let this = this\<lparr>th_queuedPromise := False\<rparr>
      in if th_isCancellationRequested this then ([], this, None)
         else case Throttler_queue throws fresh this (th_queuedPromiseFactory this) of
           (fs, Inl _) \<Rightarrow> (fs, this, None)
         | (fs, Inr (t, reg)) \<Rightarrow> (fs, t\<lparr>th_queuedPromiseFactory := None\<rparr>, reg))"

definition Throttler_dispose :: "'t Throttler \<Rightarrow> 't Throttler" where
  "Throttler_dispose this = this\<lparr>th_isCancellationRequested := True\<rparr>"

subsection \<open>Promises and jobs\<close>

text \<open>
  The throttler, the promises that have not settled with the reactions registered on each, the jobs in their
  order, the factories called so far and the number of the next promise.
\<close>

record 't throttler_state =
  ts_throttler :: "'t Throttler"
  ts_running :: "'t promise multiset"
  ts_reactions :: "nat \<Rightarrow> 't reaction list"
  ts_jobs :: "'t reaction list list"
  ts_called :: "'t list"
  ts_fresh :: nat

definition throttler_init :: "'t throttler_state" where
  "throttler_init =
     \<lparr>ts_throttler = Throttler_new, ts_running = {#}, ts_reactions = (\<lambda>_. []), ts_jobs = [], ts_called = [], ts_fresh = 0\<rparr>"

text \<open>\<open>promise.then\<close>. The first reaction to a promise is registered as soon as there is a promise.\<close>

fun register :: "'t promise \<times> 't reaction \<Rightarrow> 't throttler_state \<Rightarrow> 't throttler_state" where
  "register (p, ClearActive) s =
     s\<lparr>ts_running := add_mset p (ts_running s), ts_reactions := (ts_reactions s)(fst p := [ClearActive]),
       ts_fresh := ts_fresh s + 1\<rparr>"
| "register (p, r) s =
     (if p \<in># ts_running s
      then s\<lparr>ts_reactions := (ts_reactions s)(fst p := ts_reactions s (fst p) @ [r])\<rparr>
      else s\<lparr>ts_jobs := ts_jobs s @ [[r]]\<rparr>)"

definition throttler_after :: "'t list \<Rightarrow> 't Throttler \<Rightarrow> ('t promise \<times> 't reaction) option \<Rightarrow> 't throttler_state \<Rightarrow> 't throttler_state" where
  "throttler_after fs th reg s =
     (let s = s\<lparr>ts_throttler := th, ts_called := ts_called s @ fs\<rparr>
      in case reg of None \<Rightarrow> s | Some r \<Rightarrow> register r s)"

text \<open>A client calls \<open>queue\<close>; an exception, or a rejected promise, goes to the client.\<close>

definition call_queue :: "('t \<Rightarrow> bool) \<Rightarrow> 't \<Rightarrow> 't throttler_state \<Rightarrow> 't throttler_state" where
  "call_queue throws t s =
     (case Throttler_queue throws (ts_fresh s) (ts_throttler s) (Some t) of
        (fs, Inl _) \<Rightarrow> throttler_after fs (ts_throttler s) None s
      | (fs, Inr (th, reg)) \<Rightarrow> throttler_after fs th reg s)"

fun run_reaction :: "('t \<Rightarrow> bool) \<Rightarrow> 't throttler_state \<Rightarrow> 't reaction \<Rightarrow> 't throttler_state" where
  "run_reaction throws s ClearActive = s\<lparr>ts_throttler := (ts_throttler s)\<lparr>th_activePromise := None\<rparr>\<rparr>"
| "run_reaction throws s RunOnComplete =
     (case Throttler_onComplete throws (ts_fresh s) (ts_throttler s) of (fs, th, reg) \<Rightarrow> throttler_after fs th reg s)"
| "run_reaction throws s (ClientReaction t) = call_queue throws t s"

datatype 't throttler_event = Call 't | React "'t promise" 't | Settled "'t promise" | Job | Disposed

inductive throttler_step :: "('t \<Rightarrow> bool) \<Rightarrow> 't throttler_state \<Rightarrow> 't throttler_event \<Rightarrow> 't throttler_state \<Rightarrow> bool" for throws where
  throttler_call: "throttler_step throws s (Call t) (call_queue throws t s)"
| throttler_react: "p \<in># ts_running s \<Longrightarrow> throttler_step throws s (React p t) (register (p, ClientReaction t) s)"
| throttler_settled: "p \<in># ts_running s \<Longrightarrow>
    throttler_step throws s (Settled p)
      (s\<lparr>ts_running := ts_running s - {#p#}, ts_jobs := ts_jobs s @ [ts_reactions s (fst p)]\<rparr>)"
| throttler_job: "ts_jobs s = job # rest \<Longrightarrow>
    throttler_step throws s Job (foldl (run_reaction throws) (s\<lparr>ts_jobs := rest\<rparr>) job)"
| throttler_disposed: "throttler_step throws s Disposed (s\<lparr>ts_throttler := Throttler_dispose (ts_throttler s)\<rparr>)"

inductive_cases throttler_disposedE: "throttler_step throws s Disposed s'"
inductive_simps throttler_step_simps: "throttler_step throws s (Call t) s'" "throttler_step throws s (React p t) s'"
  "throttler_step throws s (Settled p) s'" "throttler_step throws s Job s'"

subsection \<open>The invariant\<close>









lemma count_list_replicate [simp]: "count_list (replicate n x) y = (if x = y then n else 0)"
  by (induction n) auto









subsection \<open>The last task wins\<close>









text \<open>
  Without the last hypothesis a task can be lost: \<open>a\<close> settles, \<open>b\<close> is
  queued after that and before the reaction that clears \<open>activePromise\<close>, \<open>c\<close> is queued, and called, between
  the two reactions, which are jobs of their own. \<open>onComplete\<close> queues \<open>b\<close> behind \<open>c\<close> and then sets
  the factory it has just queued to \<open>null\<close>; after \<open>c\<close>, \<open>queue(null)\<close> throws and \<open>b\<close> is never called. The same
  happens when a client queues \<open>c\<close> in a reaction of its own on the promise of \<open>a\<close>, registered before \<open>b\<close> was queued.
\<close>

lemma throttler_loses_task:
  "\<exists>s. run_events (throttler_step (\<lambda>_. False)) throttler_init
     [Call CHR ''a'', Settled (0, CHR ''a''), Call CHR ''b'', Job, Call CHR ''c'', Job, Settled (1, CHR ''c''), Job] s \<and>
     ts_called s = ''ac'' \<and> ts_running s = {#} \<and> ts_jobs s = []"
  "\<exists>s. run_events (throttler_step (\<lambda>_. False)) throttler_init
     [Call CHR ''a'', React (0, CHR ''a'') CHR ''c'', Call CHR ''b'', Settled (0, CHR ''a''), Job, Settled (1, CHR ''c''), Job] s \<and>
     ts_called s = ''ac'' \<and> ts_running s = {#} \<and> ts_jobs s = []"
  by (simp_all add: run_events_Cons throttler_step_simps call_queue_def Throttler_queue_def throttler_init_def Throttler_new_def
    throttler_after_def Throttler_onComplete_def Let_def)

subsection \<open>\<open>TaskSequentializer\<close> and \<open>LimitedQueue\<close>\<close>

text \<open>A task that runs is its number and its promise; \<open>onCancel\<close> is not used by \<open>LimitedQueue\<close>.\<close>

record 't TaskSequentializer =
  tq_running :: "(int \<times> 't) option"
  tq_queued :: "'t option"

record 't LimitedQueue =
  lq_sequentializer :: "'t TaskSequentializer"
  lq_tasks :: int

definition LimitedQueue_new :: "'t LimitedQueue" where
  "LimitedQueue_new = \<lparr>lq_sequentializer = \<lparr>tq_running = None, tq_queued = None\<rparr>, lq_tasks = 0\<rparr>"

definition TaskSequentializer_isRunning :: "'t TaskSequentializer \<Rightarrow> int option \<Rightarrow> bool" where
  "TaskSequentializer_isRunning this taskId =
     (case taskId of
        Some i \<Rightarrow> map_option fst (tq_running this) = Some i
      | None \<Rightarrow> tq_running this \<noteq> None)"

definition TaskSequentializer_hasQueued :: "'t TaskSequentializer \<Rightarrow> bool" where
  "TaskSequentializer_hasQueued this \<longleftrightarrow> tq_queued this \<noteq> None"

definition TaskSequentializer_run :: "'t TaskSequentializer \<Rightarrow> int \<Rightarrow> 't \<Rightarrow> 't TaskSequentializer" where
  "TaskSequentializer_run this taskId promise = this\<lparr>tq_running := Some (taskId, promise)\<rparr>"

definition TaskSequentializer_queue :: "'t TaskSequentializer \<Rightarrow> 't \<Rightarrow> 't TaskSequentializer" where
  "TaskSequentializer_queue this run = this\<lparr>tq_queued := Some run\<rparr>"

text \<open>\<open>this.sequentializer.run(this.tasks++, factory())\<close>: the factory called, the object, the promise.\<close>

definition LimitedQueue_run :: "('t \<Rightarrow> bool) \<Rightarrow> 't LimitedQueue \<Rightarrow> 't \<Rightarrow> 't list \<times> 't LimitedQueue \<times> (int \<times> 't) option" where
  "LimitedQueue_run throws this factory =
     (let i = lq_tasks this; t = this\<lparr>lq_tasks := i + 1\<rparr>
      in if throws factory then ([factory], t, None)
         else ([factory], t\<lparr>lq_sequentializer := TaskSequentializer_run (lq_sequentializer t) i factory\<rparr>, Some (i, factory)))"

definition LimitedQueue_queue :: "('t \<Rightarrow> bool) \<Rightarrow> 't LimitedQueue \<Rightarrow> 't \<Rightarrow> 't list \<times> 't LimitedQueue \<times> (int \<times> 't) option" where
  "LimitedQueue_queue throws this factory =
     (if \<not> TaskSequentializer_isRunning (lq_sequentializer this) None then LimitedQueue_run throws this factory
      else ([], this\<lparr>lq_sequentializer := TaskSequentializer_queue (lq_sequentializer this) factory\<rparr>, None))"

definition TaskSequentializer_runQueued :: "('t \<Rightarrow> bool) \<Rightarrow> 't LimitedQueue \<Rightarrow> 't list \<times> 't LimitedQueue \<times> (int \<times> 't) option" where
  "TaskSequentializer_runQueued throws this =
     (case tq_queued (lq_sequentializer this) of
        Some run \<Rightarrow>
          LimitedQueue_run throws (this\<lparr>lq_sequentializer := (lq_sequentializer this)\<lparr>tq_queued := None\<rparr>\<rparr>) run
      | None \<Rightarrow> ([], this, None))"

definition TaskSequentializer_doneRunning :: "('t \<Rightarrow> bool) \<Rightarrow> 't LimitedQueue \<Rightarrow> int \<Rightarrow> 't list \<times> 't LimitedQueue \<times> (int \<times> 't) option" where
  "TaskSequentializer_doneRunning throws this taskId =
     (case tq_running (lq_sequentializer this) of
        Some (i, _) \<Rightarrow>
          if taskId = i
          then TaskSequentializer_runQueued throws (this\<lparr>lq_sequentializer := (lq_sequentializer this)\<lparr>tq_running := None\<rparr>\<rparr>)
          else ([], this, None)
      | None \<Rightarrow> ([], this, None))"

text \<open>The promises that have not settled, with the number that \<open>run\<close> closes over.\<close>

record 't queue_state =
  qs_queue :: "'t LimitedQueue"
  qs_promises :: "(int \<times> 't) multiset"
  qs_called :: "'t list"

definition queue_init :: "'t queue_state" where
  "queue_init = \<lparr>qs_queue = LimitedQueue_new, qs_promises = {#}, qs_called = []\<rparr>"

definition queue_after :: "'t queue_state \<Rightarrow> 't list \<times> 't LimitedQueue \<times> (int \<times> 't) option \<Rightarrow> 't queue_state" where
  "queue_after s c =
     (case c of (fs, q, p) \<Rightarrow>
        \<lparr>qs_queue = q, qs_promises = qs_promises s + mset (opt_list p), qs_called = qs_called s @ fs\<rparr>)"

inductive queue_step :: "('t \<Rightarrow> bool) \<Rightarrow> 't queue_state \<Rightarrow> 't event \<Rightarrow> 't queue_state \<Rightarrow> bool" for throws where
  queue_queue: "queue_step throws s (Queue t) (queue_after s (LimitedQueue_queue throws (qs_queue s) t))"
| queue_settle: "(i, t) \<in># qs_promises s \<Longrightarrow>
    queue_step throws s (Settle t)
      (queue_after (s\<lparr>qs_promises := qs_promises s - {#(i, t)#}\<rparr>) (TaskSequentializer_doneRunning throws (qs_queue s) i))"

inductive_cases queue_settleE: "queue_step throws s (Settle t) s'"
inductive_cases queue_queueE: "queue_step throws s (Queue t) s'"

definition queue_inv :: "'t queue_state \<Rightarrow> bool" where
  "queue_inv s \<longleftrightarrow>
     (let q = lq_sequentializer (qs_queue s)
      in qs_promises s = mset (opt_list (tq_running q)) \<and> (tq_queued q \<noteq> None \<longrightarrow> tq_running q \<noteq> None))"

definition queue_pending :: "'t queue_state \<Rightarrow> 't list" where
  "queue_pending s = opt_list (tq_queued (lq_sequentializer (qs_queue s)))"

lemmas queue_defs = LimitedQueue_queue_def LimitedQueue_run_def TaskSequentializer_runQueued_def
  TaskSequentializer_doneRunning_def TaskSequentializer_isRunning_def TaskSequentializer_run_def
  TaskSequentializer_queue_def queue_after_def queue_inv_def queue_pending_def

lemma opt_list_Nil [simp]: "opt_list x = [] \<longleftrightarrow> (\<forall>y. x \<noteq> Some y)"
  by (cases x) simp_all

lemma queue_settle_enabled:
  assumes "queue_inv s" "queue_pending s \<noteq> []"
  shows "\<exists>t s'. queue_step throws s (Settle t) s'"
proof -
  from assms obtain i t where "tq_running (lq_sequentializer (qs_queue s)) = Some (i, t)"
    by (auto simp: queue_inv_def queue_pending_def Let_def)
  with assms(1) have "(i, t) \<in># qs_promises s" by (simp add: queue_inv_def Let_def)
  from queue_settle [OF this, of throws] show ?thesis by blast
qed

interpretation limited_queue: task_runner "queue_step throws" queue_inv "\<lambda>_. True" "\<lambda>s. image_mset snd (qs_promises s)"
  "\<lambda>_. 1" qs_called queue_pending for throws
proof unfold_locales
  fix s s' :: "'a queue_state" and t e
  show "queue_inv s \<Longrightarrow> queue_step throws s e s' \<Longrightarrow> queue_inv s'"
    by (erule queue_step.cases) (auto simp: queue_defs Let_def split: if_splits option.splits)
  show "queue_inv s \<Longrightarrow> size (image_mset snd (qs_promises s)) \<le> 1"
    by (cases "tq_running (lq_sequentializer (qs_queue s))") (auto simp: queue_inv_def Let_def)
  show "queue_inv s \<Longrightarrow> queue_step throws s (Settle t) s' \<Longrightarrow>
      qs_called s' = qs_called s @ take 1 (queue_pending s) \<and> queue_pending s' = drop 1 (queue_pending s)"
    by (erule queue_settleE) (auto simp: queue_defs Let_def split: if_splits option.splits)
  show "queue_inv s \<Longrightarrow> True \<Longrightarrow> queue_pending s \<noteq> [] \<Longrightarrow>
      \<exists>t s'. queue_step throws s (Settle t) s' \<and> (queue_pending s' \<noteq> [] \<longrightarrow> True)"
    using queue_settle_enabled by blast
qed

lemma limited_queue_burst:
  assumes "run_events (queue_step throws) s (map Queue ts) s'" "tq_running (lq_sequentializer (qs_queue s)) = Some (i, a)"
  shows "tq_running (lq_sequentializer (qs_queue s')) = Some (i, a) \<and> qs_promises s' = qs_promises s \<and> qs_called s' = qs_called s \<and>
    (ts \<noteq> [] \<longrightarrow> tq_queued (lq_sequentializer (qs_queue s')) = Some (last ts))"
  using assms
proof (induction ts arbitrary: s)
  case (Cons t ts)
  then obtain s1 where s1: "queue_step throws s (Queue t) s1" "run_events (queue_step throws) s1 (map Queue ts) s'"
    by (auto simp: run_events_Cons)
  from s1(1) Cons.prems(2) have "tq_running (lq_sequentializer (qs_queue s1)) = Some (i, a)"
    "qs_promises s1 = qs_promises s" "qs_called s1 = qs_called s" "tq_queued (lq_sequentializer (qs_queue s1)) = Some t"
    by (auto elim!: queue_queueE simp: queue_defs)
  with Cons.IH [OF s1(2)] s1(2) show ?case by (cases ts) auto
qed simp

lemma queue_init_inv: "queue_inv queue_init"
  by (simp add: queue_inv_def queue_init_def LimitedQueue_new_def)

text \<open>The task queued last is called next.\<close>

lemma LimitedQueue_latest:
  assumes "run_events (queue_step throws) queue_init es s"
    and "image_mset snd (qs_promises s) = {#a#}" "ts \<noteq> []"
    and "run_events (queue_step throws) s (map Queue ts @ [Settle a]) s'"
  shows "qs_called s' = qs_called s @ [last ts] \<and>
    image_mset snd (qs_promises s') = (if throws (last ts) then {#} else {#last ts#})"
proof -
  have inv: "queue_inv s" by (rule limited_queue.inv_run [OF assms(1) queue_init_inv])
  then obtain i where run: "tq_running (lq_sequentializer (qs_queue s)) = Some (i, a)" and p: "qs_promises s = {#(i, a)#}"
    using assms(2) by (cases "tq_running (lq_sequentializer (qs_queue s))") (auto simp: queue_inv_def Let_def)
  obtain s1 where s1: "run_events (queue_step throws) s (map Queue ts) s1" "queue_step throws s1 (Settle a) s'"
    using assms(4) by (auto simp: run_events_append run_events_Cons)
  from s1(2) limited_queue_burst [OF s1(1) run] assms(3) p show ?thesis
    by (auto elim!: queue_settleE simp: queue_defs Let_def)
qed

end
