(* ===== verification/Js_Value.thy ===== *)
theory Js_Value
  imports Prelude Complex_Main
begin

text \<open>
  The JavaScript values that context keys and the expressions over them hold, with the operations of
  the language the source applies to them: truthiness, the three equalities, \<open><\<close>,
  \<open>Number(s)\<close>, \<open>parseFloat\<close> and \<open>String(v)\<close>.

  A number is \<open>NaN\<close>, an infinity or an exact rational: what a numeral denotes, without its
  rounding to a double. An array and an object carry their identity beside their contents. Strings are
  lists of characters. How a number is printed is a parameter \<open>num_str\<close> of \<open>to_string\<close>.
\<close>

datatype js_number = NaN | PosInfinity | NegInfinity | Finite rat

datatype js_value =
    JUndefined
  | JNull
  | JBool bool
  | JNumber js_number
  | JString string
  | JArray nat "js_value list"
  | JObject nat "(string \<times> js_value) list"

subsection \<open>Numbers\<close>

fun num_eq :: "js_number \<Rightarrow> js_number \<Rightarrow> bool" where
  "num_eq NaN _ = False"
| "num_eq m n = (m = n)"

fun num_less :: "js_number \<Rightarrow> js_number \<Rightarrow> bool" where
  "num_less NaN _ = False"
| "num_less _ NaN = False"
| "num_less PosInfinity _ = False"
| "num_less _ NegInfinity = False"
| "num_less NegInfinity _ = True"
| "num_less _ PosInfinity = True"
| "num_less (Finite a) (Finite b) = (a < b)"

definition num_less_eq :: "js_number \<Rightarrow> js_number \<Rightarrow> bool" where
  "num_less_eq m n \<longleftrightarrow> num_less m n \<or> num_eq m n"

lemma num_eq_iff: "num_eq m n \<longleftrightarrow> m = n \<and> m \<noteq> NaN"
  by (cases m) auto

lemma num_less_irrefl [simp]: "\<not> num_less m m"
  by (cases m) simp_all

lemma num_less_NaN [simp]: "\<not> num_less m NaN"
  by (cases m) simp_all

lemma num_not_less: "m \<noteq> NaN \<Longrightarrow> n \<noteq> NaN \<Longrightarrow> (\<not> num_less m n) = num_less_eq n m"
  by (cases m; cases n) (auto simp: num_less_eq_def)

lemma num_total: "m \<noteq> NaN \<Longrightarrow> n \<noteq> NaN \<Longrightarrow> \<not> num_less m n \<Longrightarrow> \<not> num_less n m \<Longrightarrow> m = n"
  by (cases m; cases n) auto

subsection \<open>Strings\<close>

text \<open>\<open>a < b\<close> compares code units lexicographically.\<close>

fun str_less :: "string \<Rightarrow> string \<Rightarrow> bool" where
  "str_less _ [] = False"
| "str_less [] (_ # _) = True"
| "str_less (x # xs) (y # ys) =
     ((of_char x :: nat) < of_char y \<or> x = y \<and> str_less xs ys)"

lemma str_total: "\<not> str_less a b \<Longrightarrow> \<not> str_less b a \<Longrightarrow> a = b"
proof (induction a b rule: str_less.induct)
  case (1 a)
  then show ?case by (cases a) simp_all
next
  case (3 x xs y ys)
  then have "(of_char x :: nat) = of_char y" by auto
  then have "x = y" by simp
  with 3 show ?case by auto
qed simp

lemma str_less_irrefl [simp]: "\<not> str_less a a"
  by (induction a) simp_all

text \<open>The white space \<open>parseFloat\<close> and \<open>Number\<close> skip.\<close>

definition is_js_space :: "char \<Rightarrow> bool" where
  "is_js_space ch \<longleftrightarrow> (of_char ch :: nat) \<in> set [9, 10, 11, 12, 13, 32, 160]"

definition is_digit :: "char \<Rightarrow> bool" where
  "is_digit ch \<longleftrightarrow> 48 \<le> (of_char ch :: nat) \<and> (of_char ch :: nat) \<le> 57"

definition digits_value :: "string \<Rightarrow> nat" where
  "digits_value s = foldl (\<lambda>n ch. 10 * n + (of_char ch - 48)) 0 s"

text \<open>The exponent part at the start of a string, if it is complete, with what follows it.\<close>

definition exponent_prefix :: "string \<Rightarrow> rat \<times> string" where
  "exponent_prefix s =
     (case s of
        ch # t \<Rightarrow>
          if ch = CHR ''e'' \<or> ch = CHR ''E'' then
            let negative = (t \<noteq> [] \<and> hd t = CHR ''-'');
                u = (if t \<noteq> [] \<and> (hd t = CHR ''-'' \<or> hd t = CHR ''+'') then tl t else t);
                ds = takeWhile is_digit u
            in if ds = [] then (1, s)
               else (if negative then 1 / 10 ^ digits_value ds else 10 ^ digits_value ds, dropWhile is_digit u)
          else (1, s)
      | [] \<Rightarrow> (1, s))"

text \<open>The longest unsigned decimal literal at the start of a string, with what follows it.\<close>

definition decimal_prefix :: "string \<Rightarrow> (js_number \<times> string) option" where
  "decimal_prefix s =
     (if take 8 s = ''Infinity'' then Some (PosInfinity, drop 8 s)
      else
        let ip = takeWhile is_digit s;
            r = dropWhile is_digit s;
            dot = (r \<noteq> [] \<and> hd r = CHR ''.'');
            fp = (if dot then takeWhile is_digit (tl r) else []);
            rest = (if dot then dropWhile is_digit (tl r) else r)
        in if ip = [] \<and> fp = [] then None
           else let (factor, rest') = exponent_prefix rest
                in Some (Finite (of_nat (digits_value (ip @ fp)) / 10 ^ length fp * factor), rest'))"

fun num_uminus :: "js_number \<Rightarrow> js_number" where
  "num_uminus NaN = NaN"
| "num_uminus PosInfinity = NegInfinity"
| "num_uminus NegInfinity = PosInfinity"
| "num_uminus (Finite a) = Finite (- a)"

definition signed_prefix :: "string \<Rightarrow> (js_number \<times> string) option" where
  "signed_prefix s =
     (case s of
        ch # t \<Rightarrow>
          if ch = CHR ''-'' then map_option (\<lambda>(n, r). (num_uminus n, r)) (decimal_prefix t)
          else if ch = CHR ''+'' then decimal_prefix t
          else decimal_prefix s
      | [] \<Rightarrow> None)"

text \<open>\<open>parseFloat(s)\<close> reads the longest numeral at the start of the string.\<close>

definition parse_float :: "string \<Rightarrow> js_number" where
  "parse_float s = (case signed_prefix (dropWhile is_js_space s) of None \<Rightarrow> NaN | Some (n, _) \<Rightarrow> n)"

definition radix_digit :: "char \<Rightarrow> nat" where
  "radix_digit ch =
     (let n = of_char ch
      in if 48 \<le> n \<and> n \<le> 57 then n - 48
         else if 97 \<le> n \<and> n \<le> 122 then n - 87
         else if 65 \<le> n \<and> n \<le> 90 then n - 55
         else 36)"

definition radix_number :: "nat \<Rightarrow> string \<Rightarrow> js_number" where
  "radix_number base s =
     (if s = [] \<or> (\<exists>ch \<in> set s. base \<le> radix_digit ch) then NaN
      else Finite (of_nat (foldl (\<lambda>n ch. base * n + radix_digit ch) 0 s)))"

text \<open>\<open>Number(s)\<close>: the whole string is a numeral; an empty one is 0.\<close>

definition string_to_number :: "string \<Rightarrow> js_number" where
  "string_to_number s =
     (let t = rev (dropWhile is_js_space (rev (dropWhile is_js_space s)))
      in if t = [] then Finite 0
         else if take 2 t = ''0x'' \<or> take 2 t = ''0X'' then radix_number 16 (drop 2 t)
         else if take 2 t = ''0o'' \<or> take 2 t = ''0O'' then radix_number 8 (drop 2 t)
         else if take 2 t = ''0b'' \<or> take 2 t = ''0B'' then radix_number 2 (drop 2 t)
         else (case signed_prefix t of Some (n, []) \<Rightarrow> n | _ \<Rightarrow> NaN))"

subsection \<open>Conversions\<close>

definition truthy :: "js_value \<Rightarrow> bool" where
  "truthy v =
     (case v of
        JUndefined \<Rightarrow> False
      | JNull \<Rightarrow> False
      | JBool b \<Rightarrow> b
      | JNumber n \<Rightarrow> n \<noteq> NaN \<and> n \<noteq> Finite 0
      | JString s \<Rightarrow> s \<noteq> []
      | _ \<Rightarrow> True)"

fun str_join :: "string \<Rightarrow> string list \<Rightarrow> string" where
  "str_join sep [] = []"
| "str_join sep [s] = s"
| "str_join sep (s # t # ss) = s @ sep @ str_join sep (t # ss)"

text \<open>\<open>String(v)\<close>: an array joins its elements, its empty ones as empty strings.\<close>

fun to_string :: "(js_number \<Rightarrow> string) \<Rightarrow> js_value \<Rightarrow> string" where
  "to_string num_str JUndefined = ''undefined''"
| "to_string num_str JNull = ''null''"
| "to_string num_str (JBool b) = (if b then ''true'' else ''false'')"
| "to_string num_str (JNumber n) = num_str n"
| "to_string num_str (JString s) = s"
| "to_string num_str (JArray a vs) =
     str_join '','' (map (\<lambda>v. if v = JUndefined \<or> v = JNull then [] else to_string num_str v) vs)"
| "to_string num_str (JObject a fs) = ''[object Object]''"

definition is_object :: "js_value \<Rightarrow> bool" where
  "is_object v = (case v of JArray _ _ \<Rightarrow> True | JObject _ _ \<Rightarrow> True | _ \<Rightarrow> False)"

definition to_primitive :: "(js_number \<Rightarrow> string) \<Rightarrow> js_value \<Rightarrow> js_value" where
  "to_primitive num_str v = (if is_object v then JString (to_string num_str v) else v)"

text \<open>\<open>Number(v)\<close> of a value that is not an object.\<close>

fun to_number :: "js_value \<Rightarrow> js_number" where
  "to_number JUndefined = NaN"
| "to_number JNull = Finite 0"
| "to_number (JBool b) = Finite (if b then 1 else 0)"
| "to_number (JNumber n) = n"
| "to_number (JString s) = string_to_number s"
| "to_number (JArray a vs) = NaN"
| "to_number (JObject a fs) = NaN"

subsection \<open>Comparisons\<close>

text \<open>\<open>===\<close>, and the equality of \<open>Array.includes\<close>, for which \<open>NaN\<close> equals itself.\<close>

definition strict_eq :: "js_value \<Rightarrow> js_value \<Rightarrow> bool" where
  "strict_eq v w \<longleftrightarrow> v = w \<and> v \<noteq> JNumber NaN"

definition same_value_zero :: "js_value \<Rightarrow> js_value \<Rightarrow> bool" where
  "same_value_zero v w \<longleftrightarrow> v = w"

definition nullish :: "js_value \<Rightarrow> bool" where
  "nullish v \<longleftrightarrow> v = JUndefined \<or> v = JNull"

text \<open>\<open>==\<close>: values of different types are compared as numbers.\<close>

definition loose_eq :: "(js_number \<Rightarrow> string) \<Rightarrow> js_value \<Rightarrow> js_value \<Rightarrow> bool" where
  "loose_eq num_str v w =
     (if nullish v \<or> nullish w then nullish v \<and> nullish w
      else if is_object v \<and> is_object w then v = w
      else (case (to_primitive num_str v, to_primitive num_str w) of
              (JString s, JString t) \<Rightarrow> s = t
            | (a, b) \<Rightarrow> num_eq (to_number a) (to_number b)))"

text \<open>\<open>v < w\<close>: two strings are compared as strings, everything else as numbers.\<close>

definition js_value_less :: "(js_number \<Rightarrow> string) \<Rightarrow> js_value \<Rightarrow> js_value \<Rightarrow> bool" where
  "js_value_less num_str v w =
     (case (to_primitive num_str v, to_primitive num_str w) of
        (JString s, JString t) \<Rightarrow> str_less s t
      | (a, b) \<Rightarrow> num_less (to_number a) (to_number b))"

lemma js_value_less_string [simp]: "js_value_less ns (JString s) (JString t) = str_less s t"
  by (simp add: js_value_less_def to_primitive_def is_object_def)

lemma js_value_less_number [simp]: "js_value_less ns (JNumber m) (JNumber n) = num_less m n"
  by (simp add: js_value_less_def to_primitive_def is_object_def)

end
