(* ===== verification/Context_Expr.thy ===== *)
theory Context_Expr
  imports Js_Value Array_Select
begin

text \<open>
  The expressions over context keys of \<open>src/vs/platform/contextkey/common/contextkey.ts\<close>: the
  classes behind \<open>ContextKeyExpression\<close> with their factories \<open>create\<close>, and the methods
  \<open>cmp\<close>, \<open>equals\<close>, \<open>evaluate\<close>, \<open>serialize\<close>, \<open>keys\<close> and \<open>map\<close>.

  The field \<open>negated\<close> that remembers the negation of an expression is the second component of
  \<open>AndExpr\<close> and \<open>OrExpr\<close>: what it holds when the object is constructed. What it
  receives later is what \<open>negate\<close> computes. For the single tests the field holds what
  computing the negation again would give, and is left out. \<open>ContextKeyNotRegexExpr\<close> and
  \<open>ContextKeyNotInExpr\<close> hold the fields of the expression they negate.

  The parameters are collected in a record: how numbers are printed, the regular expressions of the
  language (which the parser strips of the flags that make \<open>test\<close> stateful),
  \<open>toLowerCase\<close>, the platform, and the table of constants at the time of the call.
\<close>

record RegExp =
  re_source :: string
  re_flags :: string

record env =
  num_str :: "js_number \<Rightarrow> string"
  re_test :: "RegExp \<Rightarrow> string \<Rightarrow> bool"
  lowercase :: "string \<Rightarrow> string"
  isWindows :: bool
  constants :: "string \<rightharpoonup> bool"

datatype ContextKeyExpression =
    FalseExpr
  | TrueExpr
  | DefinedExpr string
  | NotExpr string
  | EqualsExpr string js_value
  | NotEqualsExpr string js_value
  | AndExpr "ContextKeyExpression list" "ContextKeyExpression option"
  | RegexExpr string "RegExp option"
  | NotRegexExpr string "RegExp option"
  | OrExpr "ContextKeyExpression list" "ContextKeyExpression option"
  | InExpr string string
  | NotInExpr string string
  | GreaterExpr string js_value
  | GreaterEqualsExpr string js_value
  | SmallerExpr string js_value
  | SmallerEqualsExpr string js_value

type_synonym IContext = "string \<Rightarrow> js_value"

fun expr_type :: "ContextKeyExpression \<Rightarrow> int" where
  "expr_type FalseExpr = 0"
| "expr_type TrueExpr = 1"
| "expr_type (DefinedExpr _) = 2"
| "expr_type (NotExpr _) = 3"
| "expr_type (EqualsExpr _ _) = 4"
| "expr_type (NotEqualsExpr _ _) = 5"
| "expr_type (AndExpr _ _) = 6"
| "expr_type (RegexExpr _ _) = 7"
| "expr_type (NotRegexExpr _ _) = 8"
| "expr_type (OrExpr _ _) = 9"
| "expr_type (InExpr _ _) = 10"
| "expr_type (NotInExpr _ _) = 11"
| "expr_type (GreaterExpr _ _) = 12"
| "expr_type (GreaterEqualsExpr _ _) = 13"
| "expr_type (SmallerExpr _ _) = 14"
| "expr_type (SmallerEqualsExpr _ _) = 15"

subsection \<open>Constants\<close>

definition setConstant :: "env \<Rightarrow> string \<Rightarrow> bool \<Rightarrow> js_error + env" where
  "setConstant E k v =
     (if constants E k \<noteq> None then Inl Error else Inr (E\<lparr>constants := (constants E)(k \<mapsto> v)\<rparr>))"

abbreviation constant_expr :: "bool \<Rightarrow> ContextKeyExpression" where
  "constant_expr b \<equiv> (if b then TrueExpr else FalseExpr)"

definition bool_string :: "bool \<Rightarrow> js_value" where
  "bool_string b = JString (if b then ''true'' else ''false'')"

subsection \<open>Factories\<close>

definition Defined_create :: "env \<Rightarrow> string \<Rightarrow> ContextKeyExpression" where
  "Defined_create E key =
     (case constants E key of Some b \<Rightarrow> constant_expr b | None \<Rightarrow> DefinedExpr key)"

definition Not_create :: "env \<Rightarrow> string \<Rightarrow> ContextKeyExpression" where
  "Not_create E key =
     (case constants E key of Some b \<Rightarrow> (if b then FalseExpr else TrueExpr) | None \<Rightarrow> NotExpr key)"

definition Equals_create :: "env \<Rightarrow> string \<Rightarrow> js_value \<Rightarrow> ContextKeyExpression" where
  "Equals_create E key v =
     (case v of
        JBool b \<Rightarrow> (if b then Defined_create E key else Not_create E key)
      | _ \<Rightarrow>
          (case constants E key of
             Some b \<Rightarrow> (if strict_eq v (bool_string b) then TrueExpr else FalseExpr)
           | None \<Rightarrow> EqualsExpr key v))"

definition NotEquals_create :: "env \<Rightarrow> string \<Rightarrow> js_value \<Rightarrow> ContextKeyExpression" where
  "NotEquals_create E key v =
     (case v of
        JBool b \<Rightarrow> (if b then Not_create E key else Defined_create E key)
      | _ \<Rightarrow>
          (case constants E key of
             Some b \<Rightarrow> (if strict_eq v (bool_string b) then FalseExpr else TrueExpr)
           | None \<Rightarrow> NotEqualsExpr key v))"

definition withFloatOrStr :: "js_value \<Rightarrow> (js_value \<Rightarrow> ContextKeyExpression) \<Rightarrow> ContextKeyExpression" where
  "withFloatOrStr v callback =
     (let v' = (case v of
                  JString s \<Rightarrow> (let n = parse_float s in if n \<noteq> NaN then JNumber n else v)
                | _ \<Rightarrow> v)
      in case v' of
           JString _ \<Rightarrow> callback v'
         | JNumber _ \<Rightarrow> callback v'
         | _ \<Rightarrow> FalseExpr)"

definition Greater_create :: "string \<Rightarrow> js_value \<Rightarrow> ContextKeyExpression" where
  "Greater_create key v = withFloatOrStr v (GreaterExpr key)"

definition GreaterEquals_create :: "string \<Rightarrow> js_value \<Rightarrow> ContextKeyExpression" where
  "GreaterEquals_create key v = withFloatOrStr v (GreaterEqualsExpr key)"

definition Smaller_create :: "string \<Rightarrow> js_value \<Rightarrow> ContextKeyExpression" where
  "Smaller_create key v = withFloatOrStr v (SmallerExpr key)"

definition SmallerEquals_create :: "string \<Rightarrow> js_value \<Rightarrow> ContextKeyExpression" where
  "SmallerEquals_create key v = withFloatOrStr v (SmallerEqualsExpr key)"

subsection \<open>Comparison and equality\<close>

definition cmp1 :: "string \<Rightarrow> string \<Rightarrow> int" where
  "cmp1 key1 key2 = (if str_less key1 key2 then -1 else if str_less key2 key1 then 1 else 0)"

definition cmp2 :: "env \<Rightarrow> string \<Rightarrow> js_value \<Rightarrow> string \<Rightarrow> js_value \<Rightarrow> int" where
  "cmp2 E key1 value1 key2 value2 =
     (if str_less key1 key2 then -1
      else if str_less key2 key1 then 1
      else if js_value_less (num_str E) value1 value2 then -1
      else if js_value_less (num_str E) value2 value1 then 1
      else 0)"

definition regexp_source :: "RegExp option \<Rightarrow> string" where
  "regexp_source r = (case r of Some re \<Rightarrow> re_source re | None \<Rightarrow> [])"

definition cmp_regex :: "string \<Rightarrow> RegExp option \<Rightarrow> string \<Rightarrow> RegExp option \<Rightarrow> int" where
  "cmp_regex key1 r1 key2 r2 =
     (if str_less key1 key2 then -1
      else if str_less key2 key1 then 1
      else let thisSource = regexp_source r1; otherSource = regexp_source r2
           in if str_less thisSource otherSource then -1
              else if str_less otherSource thisSource then 1
              else 0)"

text \<open>The loop over two arrays of the same length, up to the first elements that differ.\<close>

fun cmp_elems :: "('a \<Rightarrow> 'a \<Rightarrow> int) \<Rightarrow> 'a list \<Rightarrow> 'a list \<Rightarrow> int" where
  "cmp_elems c (x # xs) (y # ys) = (let r = c x y in if r \<noteq> 0 then r else cmp_elems c xs ys)"
| "cmp_elems c _ _ = 0"

lemma cmp_elems_cong [fundef_cong]:
  "xs = xs' \<Longrightarrow> ys = ys' \<Longrightarrow> (\<And>x y. x \<in> set xs' \<Longrightarrow> y \<in> set ys' \<Longrightarrow> c x y = c' x y) \<Longrightarrow>
     cmp_elems c xs ys = cmp_elems c' xs' ys'"
  by (induction c xs ys arbitrary: xs' ys' rule: cmp_elems.induct) (auto simp: Let_def)

definition cmp_arrays :: "('a \<Rightarrow> 'a \<Rightarrow> int) \<Rightarrow> 'a list \<Rightarrow> 'a list \<Rightarrow> int" where
  "cmp_arrays c xs ys =
     (if length xs < length ys then -1 else if length xs > length ys then 1 else cmp_elems c xs ys)"

lemma cmp_arrays_cong [fundef_cong]:
  "xs = xs' \<Longrightarrow> ys = ys' \<Longrightarrow> (\<And>x y. x \<in> set xs' \<Longrightarrow> y \<in> set ys' \<Longrightarrow> c x y = c' x y) \<Longrightarrow>
     cmp_arrays c xs ys = cmp_arrays c' xs' ys'"
  by (simp add: cmp_arrays_def cong: cmp_elems_cong)

fun cmp :: "env \<Rightarrow> ContextKeyExpression \<Rightarrow> ContextKeyExpression \<Rightarrow> int" where
  "cmp E this other =
     (if expr_type other \<noteq> expr_type this then expr_type this - expr_type other
      else case (this, other) of
        (DefinedExpr k, DefinedExpr k') \<Rightarrow> cmp1 k k'
      | (NotExpr k, NotExpr k') \<Rightarrow> cmp1 k k'
      | (EqualsExpr k v, EqualsExpr k' v') \<Rightarrow> cmp2 E k v k' v'
      | (NotEqualsExpr k v, NotEqualsExpr k' v') \<Rightarrow> cmp2 E k v k' v'
      | (AndExpr es _, AndExpr es' _) \<Rightarrow> cmp_arrays (cmp E) es es'
      | (RegexExpr k r, RegexExpr k' r') \<Rightarrow> cmp_regex k r k' r'
      | (NotRegexExpr k r, NotRegexExpr k' r') \<Rightarrow> cmp_regex k r k' r'
      | (OrExpr es _, OrExpr es' _) \<Rightarrow> cmp_arrays (cmp E) es es'
      | (InExpr k v, InExpr k' v') \<Rightarrow> cmp2 E k (JString v) k' (JString v')
      | (NotInExpr k v, NotInExpr k' v') \<Rightarrow> cmp2 E k (JString v) k' (JString v')
      | (GreaterExpr k v, GreaterExpr k' v') \<Rightarrow> cmp2 E k v k' v'
      | (GreaterEqualsExpr k v, GreaterEqualsExpr k' v') \<Rightarrow> cmp2 E k v k' v'
      | (SmallerExpr k v, SmallerExpr k' v') \<Rightarrow> cmp2 E k v k' v'
      | (SmallerEqualsExpr k v, SmallerEqualsExpr k' v') \<Rightarrow> cmp2 E k v k' v'
      | _ \<Rightarrow> 0)"

declare cmp.simps [simp del]

definition equal_arrays :: "('a \<Rightarrow> 'a \<Rightarrow> bool) \<Rightarrow> 'a list \<Rightarrow> 'a list \<Rightarrow> bool" where
  "equal_arrays eq xs ys \<longleftrightarrow> length xs = length ys \<and> list_all (\<lambda>(x, y). eq x y) (zip xs ys)"

lemma equal_arrays_iff: "equal_arrays eq xs ys = list_all2 eq xs ys"
  by (simp add: equal_arrays_def list_all2_iff list_all_iff)

lemma equal_arrays_cong [fundef_cong]:
  "xs = xs' \<Longrightarrow> ys = ys' \<Longrightarrow> (\<And>x y. x \<in> set xs' \<Longrightarrow> y \<in> set ys' \<Longrightarrow> eq x y = eq' x y) \<Longrightarrow>
     equal_arrays eq xs ys = equal_arrays eq' xs' ys'"
  unfolding equal_arrays_iff by (rule list.rel_cong) auto

lemma equal_arrays_simps [simp]:
  "equal_arrays eq [] ys \<longleftrightarrow> ys = []"
  "equal_arrays eq (x # xs) (y # ys) \<longleftrightarrow> eq x y \<and> equal_arrays eq xs ys"
  "\<not> equal_arrays eq (x # xs) []"
  by (auto simp: equal_arrays_def)

fun expr_equals :: "ContextKeyExpression \<Rightarrow> ContextKeyExpression \<Rightarrow> bool" where
  "expr_equals this other =
     (case (this, other) of
        (FalseExpr, FalseExpr) \<Rightarrow> True
      | (TrueExpr, TrueExpr) \<Rightarrow> True
      | (DefinedExpr k, DefinedExpr k') \<Rightarrow> k = k'
      | (NotExpr k, NotExpr k') \<Rightarrow> k = k'
      | (EqualsExpr k v, EqualsExpr k' v') \<Rightarrow> k = k' \<and> strict_eq v v'
      | (NotEqualsExpr k v, NotEqualsExpr k' v') \<Rightarrow> k = k' \<and> strict_eq v v'
      | (AndExpr es _, AndExpr es' _) \<Rightarrow> equal_arrays expr_equals es es'
      | (RegexExpr k r, RegexExpr k' r') \<Rightarrow> k = k' \<and> regexp_source r = regexp_source r'
      | (NotRegexExpr k r, NotRegexExpr k' r') \<Rightarrow> k = k' \<and> regexp_source r = regexp_source r'
      | (OrExpr es _, OrExpr es' _) \<Rightarrow> equal_arrays expr_equals es es'
      | (InExpr k v, InExpr k' v') \<Rightarrow> k = k' \<and> v = v'
      | (NotInExpr k v, NotInExpr k' v') \<Rightarrow> k = k' \<and> v = v'
      | (GreaterExpr k v, GreaterExpr k' v') \<Rightarrow> k = k' \<and> strict_eq v v'
      | (GreaterEqualsExpr k v, GreaterEqualsExpr k' v') \<Rightarrow> k = k' \<and> strict_eq v v'
      | (SmallerExpr k v, SmallerExpr k' v') \<Rightarrow> k = k' \<and> strict_eq v v'
      | (SmallerEqualsExpr k v, SmallerEqualsExpr k' v') \<Rightarrow> k = k' \<and> strict_eq v v'
      | _ \<Rightarrow> False)"

declare expr_equals.simps [simp del]

subsection \<open>Evaluation\<close>

text \<open>\<open>item.startsWith('file:///')\<close>\<close>

definition is_file_uri :: "string \<Rightarrow> bool" where
  "is_file_uri s \<longleftrightarrow> take 8 s = ''file:///''"

definition In_evaluate :: "env \<Rightarrow> IContext \<Rightarrow> string \<Rightarrow> string \<Rightarrow> bool" where
  "In_evaluate E context key valueKey =
     (let source = context valueKey; item = context key
      in case source of
           JArray _ vs \<Rightarrow>
             if list_ex (same_value_zero item) vs then True
             else (case item of
                     JString s \<Rightarrow>
                       if isWindows E \<and> is_file_uri s
                       then list_ex (\<lambda>v. case v of JString t \<Rightarrow> lowercase E t = lowercase E s | _ \<Rightarrow> False) vs
                       else False
                   | _ \<Rightarrow> False)
         | JObject _ fs \<Rightarrow>
             (case item of
                JString s \<Rightarrow>
                  if list_ex (\<lambda>(k, _). k = s) fs then True
                  else if isWindows E \<and> is_file_uri s
                  then list_ex (\<lambda>(k, _). lowercase E k = lowercase E s) fs
                  else False
              | _ \<Rightarrow> False)
         | _ \<Rightarrow> False)"

definition context_float :: "env \<Rightarrow> IContext \<Rightarrow> string \<Rightarrow> js_number" where
  "context_float E context key = parse_float (to_string (num_str E) (context key))"

text \<open>A comparison with a string that is not a numeral is false.\<close>

definition compare_number :: "(js_number \<Rightarrow> js_number \<Rightarrow> bool) \<Rightarrow> js_number \<Rightarrow> js_value \<Rightarrow> bool" where
  "compare_number rel n v = (case v of JNumber m \<Rightarrow> rel n m | _ \<Rightarrow> False)"

definition Regex_evaluate :: "env \<Rightarrow> IContext \<Rightarrow> string \<Rightarrow> RegExp option \<Rightarrow> bool" where
  "Regex_evaluate E context key r =
     (case r of Some re \<Rightarrow> re_test E re (to_string (num_str E) (context key)) | None \<Rightarrow> False)"

fun evaluate :: "env \<Rightarrow> IContext \<Rightarrow> ContextKeyExpression \<Rightarrow> bool" where
  "evaluate E context FalseExpr = False"
| "evaluate E context TrueExpr = True"
| "evaluate E context (DefinedExpr key) = truthy (context key)"
| "evaluate E context (NotExpr key) = (\<not> truthy (context key))"
| "evaluate E context (EqualsExpr key v) = loose_eq (num_str E) (context key) v"
| "evaluate E context (NotEqualsExpr key v) = (\<not> loose_eq (num_str E) (context key) v)"
| "evaluate E context (AndExpr es _) = list_all (evaluate E context) es"
| "evaluate E context (RegexExpr key r) = Regex_evaluate E context key r"
| "evaluate E context (NotRegexExpr key r) = (\<not> Regex_evaluate E context key r)"
| "evaluate E context (OrExpr es _) = list_ex (evaluate E context) es"
| "evaluate E context (InExpr key valueKey) = In_evaluate E context key valueKey"
| "evaluate E context (NotInExpr key valueKey) = (\<not> In_evaluate E context key valueKey)"
| "evaluate E context (GreaterExpr key v) = compare_number (\<lambda>a b. num_less b a) (context_float E context key) v"
| "evaluate E context (GreaterEqualsExpr key v) = compare_number (\<lambda>a b. num_less_eq b a) (context_float E context key) v"
| "evaluate E context (SmallerExpr key v) = compare_number num_less (context_float E context key) v"
| "evaluate E context (SmallerEqualsExpr key v) = compare_number num_less_eq (context_float E context key) v"

subsection \<open>Keys, text and mapping\<close>

fun keys :: "ContextKeyExpression \<Rightarrow> string list" where
  "keys FalseExpr = []"
| "keys TrueExpr = []"
| "keys (DefinedExpr key) = [key]"
| "keys (NotExpr key) = [key]"
| "keys (EqualsExpr key _) = [key]"
| "keys (NotEqualsExpr key _) = [key]"
| "keys (AndExpr es _) = concat (map keys es)"
| "keys (RegexExpr key _) = [key]"
| "keys (NotRegexExpr key _) = [key]"
| "keys (OrExpr es _) = concat (map keys es)"
| "keys (InExpr key valueKey) = [key, valueKey]"
| "keys (NotInExpr key valueKey) = [key, valueKey]"
| "keys (GreaterExpr key _) = [key]"
| "keys (GreaterEqualsExpr key _) = [key]"
| "keys (SmallerExpr key _) = [key]"
| "keys (SmallerEqualsExpr key _) = [key]"

definition regex_text :: "RegExp option \<Rightarrow> string" where
  "regex_text r =
     (case r of Some re \<Rightarrow> ''/'' @ re_source re @ ''/'' @ re_flags re | None \<Rightarrow> ''/invalid/'')"

fun serialize :: "env \<Rightarrow> ContextKeyExpression \<Rightarrow> string" where
  "serialize E FalseExpr = ''false''"
| "serialize E TrueExpr = ''true''"
| "serialize E (DefinedExpr key) = key"
| "serialize E (NotExpr key) = ''!'' @ key"
| "serialize E (EqualsExpr key v) = key @ '' == '' @ [CHR 0x27] @ to_string (num_str E) v @ [CHR 0x27]"
| "serialize E (NotEqualsExpr key v) = key @ '' != '' @ [CHR 0x27] @ to_string (num_str E) v @ [CHR 0x27]"
| "serialize E (AndExpr es _) = str_join '' && '' (map (serialize E) es)"
| "serialize E (RegexExpr key r) = key @ '' =~ '' @ regex_text r"
| "serialize E (NotRegexExpr key r) = ''!('' @ key @ '' =~ '' @ regex_text r @ '')''"
| "serialize E (OrExpr es _) = str_join '' || '' (map (serialize E) es)"
| "serialize E (InExpr key valueKey) = key @ '' in '' @ [CHR 0x27] @ valueKey @ [CHR 0x27]"
| "serialize E (NotInExpr key valueKey) = key @ '' not in '' @ [CHR 0x27] @ valueKey @ [CHR 0x27]"
| "serialize E (GreaterExpr key v) = key @ '' > '' @ to_string (num_str E) v"
| "serialize E (GreaterEqualsExpr key v) = key @ '' >= '' @ to_string (num_str E) v"
| "serialize E (SmallerExpr key v) = key @ '' < '' @ to_string (num_str E) v"
| "serialize E (SmallerEqualsExpr key v) = key @ '' <= '' @ to_string (num_str E) v"

text \<open>A mapping of a regular expression or of a membership gives the fields of the new expression.\<close>

record IContextKeyExprMapper =
  mapDefined :: "string \<Rightarrow> ContextKeyExpression"
  mapNot :: "string \<Rightarrow> ContextKeyExpression"
  mapEquals :: "string \<Rightarrow> js_value \<Rightarrow> ContextKeyExpression"
  mapNotEquals :: "string \<Rightarrow> js_value \<Rightarrow> ContextKeyExpression"
  mapGreater :: "string \<Rightarrow> js_value \<Rightarrow> ContextKeyExpression"
  mapGreaterEquals :: "string \<Rightarrow> js_value \<Rightarrow> ContextKeyExpression"
  mapSmaller :: "string \<Rightarrow> js_value \<Rightarrow> ContextKeyExpression"
  mapSmallerEquals :: "string \<Rightarrow> js_value \<Rightarrow> ContextKeyExpression"
  mapRegex :: "string \<Rightarrow> RegExp option \<Rightarrow> string \<times> RegExp option"
  mapIn :: "string \<Rightarrow> string \<Rightarrow> string \<times> string"
  mapNotIn :: "string \<Rightarrow> string \<Rightarrow> string \<times> string"

fun map_expr :: "IContextKeyExprMapper \<Rightarrow> ContextKeyExpression \<Rightarrow> ContextKeyExpression" where
  "map_expr F FalseExpr = FalseExpr"
| "map_expr F TrueExpr = TrueExpr"
| "map_expr F (DefinedExpr key) = mapDefined F key"
| "map_expr F (NotExpr key) = mapNot F key"
| "map_expr F (EqualsExpr key v) = mapEquals F key v"
| "map_expr F (NotEqualsExpr key v) = mapNotEquals F key v"
| "map_expr F (AndExpr es _) = AndExpr (map (map_expr F) es) None"
| "map_expr F (RegexExpr key r) = (case mapRegex F key r of (k, r') \<Rightarrow> RegexExpr k r')"
| "map_expr F (NotRegexExpr key r) = (case mapRegex F key r of (k, r') \<Rightarrow> NotRegexExpr k r')"
| "map_expr F (OrExpr es _) = OrExpr (map (map_expr F) es) None"
| "map_expr F (InExpr key valueKey) = (case mapIn F key valueKey of (k, v) \<Rightarrow> InExpr k v)"
| "map_expr F (NotInExpr key valueKey) = (case mapNotIn F key valueKey of (k, v) \<Rightarrow> NotInExpr k v)"
| "map_expr F (GreaterExpr key v) = mapGreater F key v"
| "map_expr F (GreaterEqualsExpr key v) = mapGreaterEquals F key v"
| "map_expr F (SmallerExpr key v) = mapSmaller F key v"
| "map_expr F (SmallerEqualsExpr key v) = mapSmallerEquals F key v"

end
