(* ===== verification/Context_Normalize.thy ===== *)
theory Context_Normalize
  imports Context_Expr
begin

text \<open>
  The normalising operations of \<open>src/vs/platform/contextkey/common/contextkey.ts\<close>:
  \<open>ContextKeyAndExpr.create\<close>, \<open>ContextKeyOrExpr.create\<close>, \<open>negate\<close>,
  \<open>substituteConstants\<close>, and the test \<open>implies\<close>.

  The three first call each other. They take a bound \<open>n\<close> on the depth of these calls:
  \<open>Inl None\<close> is a computation that did not end within the bound, \<open>Inl (Some e)\<close> one that
  throws. An operation that may answer \<open>undefined\<close> has an option as result.
\<close>

type_synonym 'a outcome = "js_error option + 'a"

lemma mapE_cong [fundef_cong]:
  "xs = ys \<Longrightarrow> (\<And>x. x \<in> set ys \<Longrightarrow> f x = g x) \<Longrightarrow> mapE f xs = mapE g ys"
  by (induction ys arbitrary: xs) (auto intro!: bindE_cong)

text \<open>The members of an array of expressions, those that are not \<open>undefined\<close>.\<close>

definition members :: "ContextKeyExpression option list \<Rightarrow> ContextKeyExpression list" where
  "members arr = concat (map opt_list arr)"

lemma members_simps [simp]:
  "members [] = []"
  "members (None # arr) = members arr"
  "members (Some e # arr) = e # members arr"
  "members (map Some es) = es"
  by (simp_all add: members_def) (induction es, simp_all)

subsection \<open>Conjunctions and disjunctions\<close>

text \<open>
  The first loop of the two \<open>_normalizeArr\<close>: drop what is missing or neutral, give up
  (\<open>None\<close>) at an absorbing constant, flatten.
\<close>

fun and_flatten :: "ContextKeyExpression option list \<Rightarrow> ContextKeyExpression list \<Rightarrow> bool
    \<Rightarrow> (ContextKeyExpression list \<times> bool) option" where
  "and_flatten [] expr hasTrue = Some (expr, hasTrue)"
| "and_flatten (None # arr) expr hasTrue = and_flatten arr expr hasTrue"
| "and_flatten (Some e # arr) expr hasTrue =
     (case e of
        TrueExpr \<Rightarrow> and_flatten arr expr True
      | FalseExpr \<Rightarrow> None
      | AndExpr es _ \<Rightarrow> and_flatten arr (expr @ es) hasTrue
      | _ \<Rightarrow> and_flatten arr (expr @ [e]) hasTrue)"

fun or_flatten :: "ContextKeyExpression option list \<Rightarrow> ContextKeyExpression list \<Rightarrow> bool
    \<Rightarrow> (ContextKeyExpression list \<times> bool) option" where
  "or_flatten [] expr hasFalse = Some (expr, hasFalse)"
| "or_flatten (None # arr) expr hasFalse = or_flatten arr expr hasFalse"
| "or_flatten (Some e # arr) expr hasFalse =
     (case e of
        FalseExpr \<Rightarrow> or_flatten arr expr True
      | TrueExpr \<Rightarrow> None
      | OrExpr es _ \<Rightarrow> or_flatten arr (expr @ es) hasFalse
      | _ \<Rightarrow> or_flatten arr (expr @ [e]) hasFalse)"

text \<open>The loop that eliminates duplicate terms of a sorted array.\<close>

fun eliminate_duplicates :: "ContextKeyExpression list \<Rightarrow> ContextKeyExpression list" where
  "eliminate_duplicates (x # y # xs) =
     (if expr_equals x y then eliminate_duplicates (x # xs) else x # eliminate_duplicates (y # xs))"
| "eliminate_duplicates xs = xs"

text \<open>The two nested loops that look for \<open>A && !A\<close> or \<open>A || !A\<close>.\<close>

fun complement_among :: "ContextKeyExpression option outcome \<Rightarrow> ContextKeyExpression list \<Rightarrow> bool outcome" where
  "complement_among negated [] = Inr False"
| "complement_among negated (y # ys) =
     bindE negated (\<lambda>m. case m of
         None \<Rightarrow> Inl (Some TypeError)
       | Some x \<Rightarrow> if expr_equals x y then Inr True else complement_among negated ys)"

fun has_complement :: "(ContextKeyExpression \<Rightarrow> ContextKeyExpression option outcome)
    \<Rightarrow> ContextKeyExpression list \<Rightarrow> bool outcome" where
  "has_complement neg [] = Inr False"
| "has_complement neg (x # xs) =
     bindE (complement_among (neg x) xs) (\<lambda>b. if b then Inr True else has_complement neg xs)"

text \<open>The tests of \<open>type\<close> against \<open>Or\<close> and \<open>And\<close>, with the field \<open>expr\<close>.\<close>

fun or_terms :: "ContextKeyExpression \<Rightarrow> ContextKeyExpression list option" where
  "or_terms (OrExpr es _) = Some es"
| "or_terms _ = None"

fun and_terms :: "ContextKeyExpression \<Rightarrow> ContextKeyExpression list option" where
  "and_terms (AndExpr es _) = Some es"
| "and_terms _ = None"

lemma or_terms_Some: "or_terms e = Some es \<longleftrightarrow> (\<exists>m. e = OrExpr es m)"
  by (cases e) auto

lemma and_terms_Some: "and_terms e = Some es \<longleftrightarrow> (\<exists>m. e = AndExpr es m)"
  by (cases e) auto

lemma size_terms:
  "or_terms e = Some es \<Longrightarrow> x \<in> set es \<Longrightarrow> size x < size e"
  "and_terms e = Some es \<Longrightarrow> x \<in> set es \<Longrightarrow> size x < size e"
  by (auto simp: or_terms_Some and_terms_Some less_Suc_eq_le
      intro: trans_le_add1 dest: size_list_estimation' [OF _ order_refl, where f = size])

text \<open>
  The loop that distributes the disjunction at the end of a sorted array over the element before it.
  \<open>and2\<close> and \<open>or_create\<close> are the calls of the two factories.
\<close>

function distribute :: "env
    \<Rightarrow> (ContextKeyExpression \<Rightarrow> ContextKeyExpression \<Rightarrow> ContextKeyExpression option outcome)
    \<Rightarrow> (ContextKeyExpression option list \<Rightarrow> bool \<Rightarrow> ContextKeyExpression option outcome)
    \<Rightarrow> ContextKeyExpression list \<Rightarrow> ContextKeyExpression list outcome" where
  "distribute E and2 or_create expr =
     (if length expr > 1 then
        (case or_terms (last expr) of
           Some es \<Rightarrow>
             (let popped = butlast expr;
                  secondToLastElement = last popped;
                  rest = butlast popped;
                  isFinished = (rest = [])
              in bindE (mapE (\<lambda>el. and2 el secondToLastElement) es) (\<lambda>terms.
                 bindE (or_create terms isFinished) (\<lambda>resultElement.
                   case resultElement of
                     Some r \<Rightarrow> distribute E and2 or_create (js_sort (cmp E) (rest @ [r]))
                   | None \<Rightarrow> distribute E and2 or_create rest)))
         | None \<Rightarrow> Inr expr)
      else Inr expr)"
  by pat_completeness auto
termination by (relation "measure (\<lambda>(_, _, _, expr). length expr)") (auto simp del: js_sort_simps)

declare distribute.simps [simp del]

definition and_normalizeArr :: "env
    \<Rightarrow> (ContextKeyExpression \<Rightarrow> ContextKeyExpression option outcome)
    \<Rightarrow> (ContextKeyExpression option list \<Rightarrow> bool \<Rightarrow> ContextKeyExpression option outcome)
    \<Rightarrow> (ContextKeyExpression option list \<Rightarrow> bool \<Rightarrow> ContextKeyExpression option outcome)
    \<Rightarrow> ContextKeyExpression option list \<Rightarrow> ContextKeyExpression option \<Rightarrow> bool
    \<Rightarrow> ContextKeyExpression option outcome" where
  "and_normalizeArr E neg and_create or_create arr negated extraRedundantCheck =
     (case and_flatten arr [] False of
        None \<Rightarrow> Inr (Some FalseExpr)
      | Some (expr, hasTrue) \<Rightarrow>
          if expr = [] then Inr (if hasTrue then Some TrueExpr else None)
          else if length expr = 1 then Inr (Some (hd expr))
          else let expr = eliminate_duplicates (js_sort (cmp E) expr)
          in if length expr = 1 then Inr (Some (hd expr))
          else bindE (distribute E (\<lambda>el second. and_create [Some el, Some second] extraRedundantCheck) or_create expr) (\<lambda>expr.
            if length expr = 1 then Inr (Some (hd expr))
            else bindE (if extraRedundantCheck then has_complement neg expr else Inr False) (\<lambda>redundant.
              if redundant then Inr (Some FalseExpr) else Inr (Some (AndExpr expr negated)))))"

definition or_normalizeArr :: "env
    \<Rightarrow> (ContextKeyExpression \<Rightarrow> ContextKeyExpression option outcome)
    \<Rightarrow> ContextKeyExpression option list \<Rightarrow> ContextKeyExpression option \<Rightarrow> bool
    \<Rightarrow> ContextKeyExpression option outcome" where
  "or_normalizeArr E neg arr negated extraRedundantCheck =
     (case or_flatten arr [] False of
        None \<Rightarrow> Inr (Some TrueExpr)
      | Some (expr, hasFalse) \<Rightarrow>
          if expr = [] then Inr (if hasFalse then Some FalseExpr else None)
          else let expr = js_sort (cmp E) expr
          in if length expr = 1 then Inr (Some (hd expr))
          else let expr = eliminate_duplicates expr
          in if length expr = 1 then Inr (Some (hd expr))
          else bindE (if extraRedundantCheck then has_complement neg expr else Inr False) (\<lambda>redundant.
            if redundant then Inr (Some TrueExpr) else Inr (Some (OrExpr expr negated))))"

definition getTerminals :: "ContextKeyExpression \<Rightarrow> ContextKeyExpression list" where
  "getTerminals node = (case or_terms node of Some es \<Rightarrow> es | None \<Rightarrow> [node])"

text \<open>The loop of \<open>ContextKeyOrExpr.negate\<close>, which multiplies out its first two elements.\<close>

function negate_distribute :: "(ContextKeyExpression \<Rightarrow> ContextKeyExpression \<Rightarrow> ContextKeyExpression option outcome)
    \<Rightarrow> (ContextKeyExpression option list \<Rightarrow> ContextKeyExpression option outcome)
    \<Rightarrow> ContextKeyExpression option list \<Rightarrow> ContextKeyExpression option list outcome" where
  "negate_distribute and2 or_create result =
     (case result of
        LEFT # RIGHT # rest \<Rightarrow>
          (case (LEFT, RIGHT) of
             (Some l, Some r) \<Rightarrow>
               bindE (mapE (\<lambda>(left, right). and2 left right) (List.product (getTerminals l) (getTerminals r))) (\<lambda>terms.
               bindE (or_create terms) (\<lambda>d. negate_distribute and2 or_create (d # rest)))
           | _ \<Rightarrow> Inl (Some TypeError))
      | _ \<Rightarrow> Inr result)"
  by pat_completeness auto
termination by (relation "measure (\<lambda>(_, _, result). length result)") auto

declare negate_distribute.simps [simp del]

fun negate :: "env \<Rightarrow> nat \<Rightarrow> ContextKeyExpression \<Rightarrow> ContextKeyExpression option outcome"
  and And_create :: "env \<Rightarrow> nat \<Rightarrow> ContextKeyExpression option list \<Rightarrow> ContextKeyExpression option
        \<Rightarrow> bool \<Rightarrow> ContextKeyExpression option outcome"
  and Or_create :: "env \<Rightarrow> nat \<Rightarrow> ContextKeyExpression option list \<Rightarrow> ContextKeyExpression option
        \<Rightarrow> bool \<Rightarrow> ContextKeyExpression option outcome" where
  "negate E 0 e = Inl None"
| "negate E (Suc n) e =
     (case e of
        FalseExpr \<Rightarrow> Inr (Some TrueExpr)
      | TrueExpr \<Rightarrow> Inr (Some FalseExpr)
      | DefinedExpr key \<Rightarrow> Inr (Some (Not_create E key))
      | NotExpr key \<Rightarrow> Inr (Some (Defined_create E key))
      | EqualsExpr key v \<Rightarrow> Inr (Some (NotEquals_create E key v))
      | NotEqualsExpr key v \<Rightarrow> Inr (Some (Equals_create E key v))
      | AndExpr es negated \<Rightarrow>
          (case negated of
             Some x \<Rightarrow> Inr (Some x)
           | None \<Rightarrow> bindE (mapE (\<lambda>x. negate E n x) es) (\<lambda>result. Or_create E n result (Some e) True))
      | RegexExpr key r \<Rightarrow> Inr (Some (NotRegexExpr key r))
      | NotRegexExpr key r \<Rightarrow> Inr (Some (RegexExpr key r))
      | OrExpr es negated \<Rightarrow>
          (case negated of
             Some x \<Rightarrow> Inr (Some x)
           | None \<Rightarrow>
               bindE (mapE (\<lambda>x. negate E n x) es) (\<lambda>result.
               bindE (negate_distribute (\<lambda>left right. And_create E n [Some left, Some right] None False)
                        (\<lambda>terms. Or_create E n terms None False) result) (\<lambda>result.
                 Or_create E n result (Some e) True)))
      | InExpr key valueKey \<Rightarrow> Inr (Some (NotInExpr key valueKey))
      | NotInExpr key valueKey \<Rightarrow> Inr (Some (InExpr key valueKey))
      | GreaterExpr key v \<Rightarrow> Inr (Some (SmallerEquals_create key v))
      | GreaterEqualsExpr key v \<Rightarrow> Inr (Some (Smaller_create key v))
      | SmallerExpr key v \<Rightarrow> Inr (Some (GreaterEquals_create key v))
      | SmallerEqualsExpr key v \<Rightarrow> Inr (Some (Greater_create key v)))"
| "And_create E 0 arr negated extraRedundantCheck = Inl None"
| "And_create E (Suc n) arr negated extraRedundantCheck =
     and_normalizeArr E (\<lambda>x. negate E n x) (\<lambda>xs b. And_create E n xs None b) (\<lambda>xs b. Or_create E n xs None b)
       arr negated extraRedundantCheck"
| "Or_create E 0 arr negated extraRedundantCheck = Inl None"
| "Or_create E (Suc n) arr negated extraRedundantCheck =
     or_normalizeArr E (\<lambda>x. negate E n x) arr negated extraRedundantCheck"

definition ContextKeyExpr_and :: "env \<Rightarrow> nat \<Rightarrow> ContextKeyExpression option list \<Rightarrow> ContextKeyExpression option outcome" where
  "ContextKeyExpr_and E n expr = And_create E n expr None True"

definition ContextKeyExpr_or :: "env \<Rightarrow> nat \<Rightarrow> ContextKeyExpression option list \<Rightarrow> ContextKeyExpression option outcome" where
  "ContextKeyExpr_or E n expr = Or_create E n expr None True"

subsection \<open>Constants\<close>

text \<open>
  \<open>substituteConstants\<close> gives \<open>None\<close> when it returns the same instance. \<open>eliminate_loop\<close>
  is the loop of \<open>eliminateConstantsInArray\<close> over the elements and what became of them: it
  allocates a copy at the first difference.
\<close>

fun eliminate_loop :: "ContextKeyExpression list \<Rightarrow> ContextKeyExpression option option list \<Rightarrow> nat
    \<Rightarrow> ContextKeyExpression option list option \<Rightarrow> ContextKeyExpression option list option" where
  "eliminate_loop arr [] i newArr = newArr"
| "eliminate_loop arr (newExpr # rest) i newArr =
     (let newArr' = (if newExpr \<noteq> None \<and> newArr = None then Some (map Some (take i arr)) else newArr);
          value = (case newExpr of Some e \<Rightarrow> e | None \<Rightarrow> Some (arr ! i))
      in eliminate_loop arr rest (i + 1)
           (case newArr' of Some a \<Rightarrow> Some (a @ [value]) | None \<Rightarrow> None))"

definition eliminateConstantsInArray :: "ContextKeyExpression list \<Rightarrow> ContextKeyExpression option option list
    \<Rightarrow> ContextKeyExpression option list option" where
  "eliminateConstantsInArray arr substituted = eliminate_loop arr substituted 0 None"

text \<open>
  A conjunction or disjunction hands its remembered negation on. Which of them have computed it by
  then is the parameter \<open>memo\<close>: the value of the field \<open>negated\<close> of each object.
\<close>

fun substituteConstants :: "env \<Rightarrow> nat \<Rightarrow> (ContextKeyExpression \<Rightarrow> ContextKeyExpression option)
    \<Rightarrow> ContextKeyExpression \<Rightarrow> ContextKeyExpression option option outcome" where
  "substituteConstants E n memo e =
     (case e of
        DefinedExpr key \<Rightarrow> Inr (map_option (\<lambda>b. Some (constant_expr b)) (constants E key))
      | NotExpr key \<Rightarrow> Inr (map_option (\<lambda>b. Some (constant_expr (\<not> b))) (constants E key))
      | EqualsExpr key v \<Rightarrow>
          Inr (map_option (\<lambda>b. Some (constant_expr (strict_eq v (bool_string b)))) (constants E key))
      | NotEqualsExpr key v \<Rightarrow>
          Inr (map_option (\<lambda>b. Some (constant_expr (\<not> strict_eq v (bool_string b)))) (constants E key))
      | AndExpr es _ \<Rightarrow>
          bindE (mapE (substituteConstants E n memo) es) (\<lambda>substituted.
            case eliminateConstantsInArray es substituted of
              None \<Rightarrow> Inr None
            | Some exprArr \<Rightarrow> bindE (And_create E n exprArr (memo e) False) (\<lambda>r. Inr (Some r)))
      | OrExpr es _ \<Rightarrow>
          bindE (mapE (substituteConstants E n memo) es) (\<lambda>substituted.
            case eliminateConstantsInArray es substituted of
              None \<Rightarrow> Inr None
            | Some exprArr \<Rightarrow> bindE (Or_create E n exprArr (memo e) False) (\<lambda>r. Inr (Some r)))
      | _ \<Rightarrow> Inr None)"

declare substituteConstants.simps [simp del]

text \<open>What \<open>substituteConstants\<close> returns, an object or \<open>undefined\<close>.\<close>

definition substituted :: "env \<Rightarrow> nat \<Rightarrow> (ContextKeyExpression \<Rightarrow> ContextKeyExpression option)
    \<Rightarrow> ContextKeyExpression \<Rightarrow> ContextKeyExpression option outcome" where
  "substituted E n memo e =
     bindE (substituteConstants E n memo e) (\<lambda>r. Inr (case r of Some x \<Rightarrow> x | None \<Rightarrow> Some e))"

definition expressionsAreEqualWithConstantSubstitution :: "env \<Rightarrow> nat \<Rightarrow> (ContextKeyExpression \<Rightarrow> ContextKeyExpression option)
    \<Rightarrow> ContextKeyExpression option \<Rightarrow> ContextKeyExpression option \<Rightarrow> bool outcome" where
  "expressionsAreEqualWithConstantSubstitution E n memo a b =
     bindE (case a of Some e \<Rightarrow> substituted E n memo e | None \<Rightarrow> Inr None) (\<lambda>aExpr.
     bindE (case b of Some e \<Rightarrow> substituted E n memo e | None \<Rightarrow> Inr None) (\<lambda>bExpr.
       case (aExpr, bExpr) of
         (None, None) \<Rightarrow> Inr True
       | (Some x, Some y) \<Rightarrow> Inr (expr_equals x y)
       | _ \<Rightarrow> Inr False))"

subsection \<open>Implication\<close>

function allElementsIncluded_loop :: "env \<Rightarrow> ContextKeyExpression list \<Rightarrow> ContextKeyExpression list \<Rightarrow> nat \<Rightarrow> nat \<Rightarrow> bool" where
  "allElementsIncluded_loop E p q pIndex qIndex =
     (if pIndex < length p \<and> qIndex < length q then
        let r = cmp E (p ! pIndex) (q ! qIndex)
        in if r < 0 then False
           else if r = 0 then allElementsIncluded_loop E p q (pIndex + 1) (qIndex + 1)
           else allElementsIncluded_loop E p q pIndex (qIndex + 1)
      else pIndex = length p)"
  by pat_completeness auto
termination by (relation "measure (\<lambda>(_, _, q, _, qIndex). length q - qIndex)") auto

declare allElementsIncluded_loop.simps [simp del]

definition allElementsIncluded :: "env \<Rightarrow> ContextKeyExpression list \<Rightarrow> ContextKeyExpression list \<Rightarrow> bool" where
  "allElementsIncluded E p q = allElementsIncluded_loop E p q 0 0"

function implies :: "env \<Rightarrow> ContextKeyExpression \<Rightarrow> ContextKeyExpression \<Rightarrow> bool" where
  "implies E p q =
     (if p = FalseExpr \<or> q = TrueExpr then True
      else case or_terms p of
        Some ps \<Rightarrow> (case or_terms q of Some qs \<Rightarrow> allElementsIncluded E ps qs | None \<Rightarrow> False)
      | None \<Rightarrow>
          (case or_terms q of
             Some qs \<Rightarrow> list_ex (\<lambda>element. implies E p element) qs
           | None \<Rightarrow>
               (case and_terms p of
                  Some ps \<Rightarrow>
                    (case and_terms q of
                       Some qs \<Rightarrow> allElementsIncluded E qs ps
                     | None \<Rightarrow> list_ex (\<lambda>element. implies E element q) ps)
                | None \<Rightarrow> expr_equals p q)))"
  by pat_completeness auto
termination by (relation "measure (\<lambda>(_, p, q). size p + size q)") (auto dest: size_terms)

declare implies.simps [simp del]

end
