(* ===== verification/Context_Semantics.thy ===== *)
theory Context_Semantics
  imports Context_Normalize
begin

text \<open>
  The normalising operations of context key expressions keep what the expressions evaluate to.
\<close>

subsection \<open>Equality by constructor\<close>

lemma expr_equals_simps [simp]:
  "expr_equals FalseExpr y \<longleftrightarrow> y = FalseExpr"
  "expr_equals TrueExpr y \<longleftrightarrow> y = TrueExpr"
  "expr_equals (DefinedExpr k) y \<longleftrightarrow> y = DefinedExpr k"
  "expr_equals (NotExpr k) y \<longleftrightarrow> y = NotExpr k"
  "expr_equals (EqualsExpr k v) y \<longleftrightarrow> (\<exists>w. y = EqualsExpr k w \<and> strict_eq v w)"
  "expr_equals (NotEqualsExpr k v) y \<longleftrightarrow> (\<exists>w. y = NotEqualsExpr k w \<and> strict_eq v w)"
  "expr_equals (AndExpr es m) y \<longleftrightarrow> (\<exists>fs m'. y = AndExpr fs m' \<and> equal_arrays expr_equals es fs)"
  "expr_equals (RegexExpr k r) y \<longleftrightarrow> (\<exists>r'. y = RegexExpr k r' \<and> regexp_source r = regexp_source r')"
  "expr_equals (NotRegexExpr k r) y \<longleftrightarrow> (\<exists>r'. y = NotRegexExpr k r' \<and> regexp_source r = regexp_source r')"
  "expr_equals (OrExpr es m) y \<longleftrightarrow> (\<exists>fs m'. y = OrExpr fs m' \<and> equal_arrays expr_equals es fs)"
  "expr_equals (InExpr k w) y \<longleftrightarrow> y = InExpr k w"
  "expr_equals (NotInExpr k w) y \<longleftrightarrow> y = NotInExpr k w"
  "expr_equals (GreaterExpr k v) y \<longleftrightarrow> (\<exists>w. y = GreaterExpr k w \<and> strict_eq v w)"
  "expr_equals (GreaterEqualsExpr k v) y \<longleftrightarrow> (\<exists>w. y = GreaterEqualsExpr k w \<and> strict_eq v w)"
  "expr_equals (SmallerExpr k v) y \<longleftrightarrow> (\<exists>w. y = SmallerExpr k w \<and> strict_eq v w)"
  "expr_equals (SmallerEqualsExpr k v) y \<longleftrightarrow> (\<exists>w. y = SmallerEqualsExpr k w \<and> strict_eq v w)"
  by (cases y; auto simp: expr_equals.simps)+

subsection \<open>Expressions that behave\<close>

text \<open>
  An expression behaves in a context when a key that is a constant has the value of the constant (an
  equality on such a key, the value the code gives to it), an equality is with a value that is not a
  boolean, a comparison is between numbers, and a conjunction or disjunction is not empty and remembers
  its negation. The set \<open>R\<close> holds the regular expressions.
\<close>

definition agrees :: "env \<Rightarrow> IContext \<Rightarrow> string \<Rightarrow> bool" where
  "agrees E c k = (case constants E k of Some b \<Rightarrow> truthy (c k) = b | None \<Rightarrow> True)"

definition plain_value :: "env \<Rightarrow> IContext \<Rightarrow> string \<Rightarrow> js_value \<Rightarrow> bool" where
  "plain_value E c k v \<longleftrightarrow> (case v of JBool _ \<Rightarrow> False | _ \<Rightarrow> True) \<and>
     (case constants E k of
        Some b \<Rightarrow> loose_eq (num_str E) (c k) v = strict_eq v (bool_string b)
      | None \<Rightarrow> True)"

definition numeric :: "env \<Rightarrow> IContext \<Rightarrow> string \<Rightarrow> js_value \<Rightarrow> bool" where
  "numeric E c k v \<longleftrightarrow> (case v of JNumber n \<Rightarrow> n \<noteq> NaN | _ \<Rightarrow> False) \<and> context_float E c k \<noteq> NaN"

fun behaves :: "env \<Rightarrow> IContext \<Rightarrow> RegExp option set \<Rightarrow> ContextKeyExpression \<Rightarrow> bool" where
  "behaves E c R FalseExpr = True"
| "behaves E c R TrueExpr = True"
| "behaves E c R (DefinedExpr k) = agrees E c k"
| "behaves E c R (NotExpr k) = agrees E c k"
| "behaves E c R (EqualsExpr k v) = plain_value E c k v"
| "behaves E c R (NotEqualsExpr k v) = plain_value E c k v"
| "behaves E c R (AndExpr es negated) =
     (es \<noteq> [] \<and> list_all (behaves E c R) es \<and>
      (case negated of Some x \<Rightarrow> behaves E c R x \<and> evaluate E c x = (\<not> list_all (evaluate E c) es) | None \<Rightarrow> True))"
| "behaves E c R (RegexExpr k r) = (r \<in> R)"
| "behaves E c R (NotRegexExpr k r) = (r \<in> R)"
| "behaves E c R (OrExpr es negated) =
     (es \<noteq> [] \<and> list_all (behaves E c R) es \<and>
      (case negated of Some x \<Rightarrow> behaves E c R x \<and> evaluate E c x = (\<not> list_ex (evaluate E c) es) | None \<Rightarrow> True))"
| "behaves E c R (InExpr k v) = True"
| "behaves E c R (NotInExpr k v) = True"
| "behaves E c R (GreaterExpr k v) = numeric E c k v"
| "behaves E c R (GreaterEqualsExpr k v) = numeric E c k v"
| "behaves E c R (SmallerExpr k v) = numeric E c k v"
| "behaves E c R (SmallerEqualsExpr k v) = numeric E c k v"

lemma list_all2_same:
  assumes "list_all2 P xs ys" and "\<And>x y. x \<in> set xs \<Longrightarrow> y \<in> set ys \<Longrightarrow> P x y \<Longrightarrow> f x = f y"
  shows "list_all f xs = list_all f ys" and "list_ex f xs = list_ex f ys"
  using assms by (induction rule: list_all2_induct) auto

lemma equals_evaluate:
  assumes "inj_on regexp_source R"
  shows "behaves E c R x \<Longrightarrow> behaves E c R y \<Longrightarrow> expr_equals x y \<Longrightarrow> evaluate E c x = evaluate E c y"
proof (induction x arbitrary: y)
  case (AndExpr es m)
  then obtain fs m' where y: "y = AndExpr fs m'" and eq: "list_all2 expr_equals es fs"
    by (auto simp: equal_arrays_iff)
  have "evaluate E c a = evaluate E c b" if "a \<in> set es" "b \<in> set fs" "expr_equals a b" for a b
    using AndExpr.IH(1) [OF that(1)] AndExpr.prems(1,2) that unfolding y by (simp add: list_all_iff)
  from list_all2_same(1) [OF eq this] show ?case by (simp add: y)
next
  case (OrExpr es m)
  then obtain fs m' where y: "y = OrExpr fs m'" and eq: "list_all2 expr_equals es fs"
    by (auto simp: equal_arrays_iff)
  have "evaluate E c a = evaluate E c b" if "a \<in> set es" "b \<in> set fs" "expr_equals a b" for a b
    using OrExpr.IH(1) [OF that(1)] OrExpr.prems(1,2) that unfolding y by (simp add: list_all_iff)
  from list_all2_same(2) [OF eq this] show ?case by (simp add: y)
next
  case (RegexExpr k r)
  then obtain r' where "y = RegexExpr k r'" "regexp_source r = regexp_source r'" by auto
  with RegexExpr.prems have "r = r'" by (intro inj_onD [OF assms]) simp_all
  with \<open>y = RegexExpr k r'\<close> show ?case by simp
next
  case (NotRegexExpr k r)
  then obtain r' where "y = NotRegexExpr k r'" "regexp_source r = regexp_source r'" by auto
  with NotRegexExpr.prems have "r = r'" by (intro inj_onD [OF assms]) simp_all
  with \<open>y = NotRegexExpr k r'\<close> show ?case by simp
qed (auto simp: strict_eq_def)

subsection \<open>Results\<close>

definition conjunction_of :: "env \<Rightarrow> IContext \<Rightarrow> RegExp option set \<Rightarrow> ContextKeyExpression list
    \<Rightarrow> ContextKeyExpression option \<Rightarrow> bool" where
  "conjunction_of E c R es r =
     (case r of None \<Rightarrow> es = [] | Some e \<Rightarrow> behaves E c R e \<and> evaluate E c e = list_all (evaluate E c) es)"

definition disjunction_of :: "env \<Rightarrow> IContext \<Rightarrow> RegExp option set \<Rightarrow> ContextKeyExpression list
    \<Rightarrow> ContextKeyExpression option \<Rightarrow> bool" where
  "disjunction_of E c R es r =
     (case r of None \<Rightarrow> es = [] | Some e \<Rightarrow> behaves E c R e \<and> evaluate E c e = list_ex (evaluate E c) es)"

definition negation_of :: "env \<Rightarrow> IContext \<Rightarrow> RegExp option set \<Rightarrow> ContextKeyExpression
    \<Rightarrow> ContextKeyExpression option \<Rightarrow> bool" where
  "negation_of E c R e r =
     (case r of None \<Rightarrow> False | Some x \<Rightarrow> behaves E c R x \<and> evaluate E c x = (\<not> evaluate E c e))"

text \<open>What may be remembered as the negation of a conjunction or a disjunction of \<open>es\<close>.\<close>

definition remembers :: "env \<Rightarrow> IContext \<Rightarrow> RegExp option set \<Rightarrow> bool \<Rightarrow> ContextKeyExpression option \<Rightarrow> bool" where
  "remembers E c R b negated =
     (case negated of None \<Rightarrow> True | Some x \<Rightarrow> behaves E c R x \<and> evaluate E c x = (\<not> b))"

subsection \<open>The loops\<close>

lemma and_flatten_sem:
  assumes "list_all (behaves E c R) (members arr)" and "list_all (behaves E c R) acc"
  shows "case and_flatten arr acc h of
      None \<Rightarrow> \<not> list_all (evaluate E c) (members arr)
    | Some (expr, h') \<Rightarrow>
        list_all (behaves E c R) expr
        \<and> list_all (evaluate E c) expr = (list_all (evaluate E c) acc \<and> list_all (evaluate E c) (members arr))
        \<and> (expr = [] \<longrightarrow> acc = [] \<and> (h' \<or> members arr = [])) \<and> (h \<longrightarrow> h')"
  using assms
proof (induction arr acc h rule: and_flatten.induct)
  case (3 e arr expr h)
  show ?case
  proof (cases e)
    case (AndExpr es m)
    with 3 have "es \<noteq> []" by simp
    with 3 AndExpr show ?thesis by (auto split: option.splits)
  qed (use 3 in \<open>auto split: option.splits\<close>)
qed (auto split: option.splits)

lemma or_flatten_sem:
  assumes "list_all (behaves E c R) (members arr)" and "list_all (behaves E c R) acc"
  shows "case or_flatten arr acc h of
      None \<Rightarrow> list_ex (evaluate E c) (members arr)
    | Some (expr, h') \<Rightarrow>
        list_all (behaves E c R) expr
        \<and> list_ex (evaluate E c) expr = (list_ex (evaluate E c) acc \<or> list_ex (evaluate E c) (members arr))
        \<and> (expr = [] \<longrightarrow> acc = [] \<and> (h' \<or> members arr = [])) \<and> (h \<longrightarrow> h')"
  using assms
proof (induction arr acc h rule: or_flatten.induct)
  case (3 e arr expr h)
  show ?case
  proof (cases e)
    case (OrExpr es m)
    with 3 have "es \<noteq> []" by simp
    with 3 OrExpr show ?thesis by (auto split: option.splits)
  qed (use 3 in \<open>auto split: option.splits\<close>)
qed (auto split: option.splits)

lemma eliminate_duplicates_sem:
  assumes "inj_on regexp_source R" and "list_all (behaves E c R) xs"
  shows "list_all (evaluate E c) (eliminate_duplicates xs) = list_all (evaluate E c) xs"
    and "list_ex (evaluate E c) (eliminate_duplicates xs) = list_ex (evaluate E c) xs"
    and "list_all (behaves E c R) (eliminate_duplicates xs)"
    and "eliminate_duplicates xs = [] \<longleftrightarrow> xs = []"
  using assms(2)
  by (induction xs rule: eliminate_duplicates.induct) (auto dest: equals_evaluate [OF assms(1)])

lemma complement_among_sem:
  assumes "inj_on regexp_source R" and "behaves E c R x" and "list_all (behaves E c R) ys"
    and "\<And>r. negated = Inr r \<Longrightarrow> negation_of E c R x r"
    and "complement_among negated ys = Inr True"
  obtains y where "y \<in> set ys" "evaluate E c y = (\<not> evaluate E c x)"
  using assms(3,5) that
proof (induction ys)
  case (Cons y ys)
  then obtain x' where x': "negated = Inr (Some x')"
    by (cases negated) (auto split: option.splits)
  with assms(4) have "behaves E c R x'" "evaluate E c x' = (\<not> evaluate E c x)"
    by (auto simp: negation_of_def)
  with Cons x' equals_evaluate [OF assms(1), of E c x' y] show ?case
    by (auto split: if_splits)
qed simp

lemma has_complement_sem:
  assumes "inj_on regexp_source R" and "list_all (behaves E c R) xs"
    and "\<And>x r. behaves E c R x \<Longrightarrow> neg x = Inr r \<Longrightarrow> negation_of E c R x r"
    and "has_complement neg xs = Inr True"
  shows "\<not> list_all (evaluate E c) xs \<and> list_ex (evaluate E c) xs"
  using assms(2,4)
proof (induction xs)
  case (Cons x xs)
  from Cons.prems obtain b where b: "complement_among (neg x) xs = Inr b"
    and "b \<or> has_complement neg xs = Inr True"
    by (auto split: if_splits)
  show ?case
  proof (cases b)
    case True
    with b obtain y where "y \<in> set xs" "evaluate E c y = (\<not> evaluate E c x)"
      using complement_among_sem [OF assms(1), of E c x xs "neg x"] Cons.prems assms(3) by auto
    then show ?thesis by (auto simp: list_all_iff list_ex_iff)
  next
    case False
    with \<open>b \<or> _\<close> Cons show ?thesis by auto
  qed
qed simp

text \<open>A loop whose body gives expressions with known values.\<close>

lemma mapE_values:
  assumes "mapE f xs = Inr ys"
    and "\<And>x r. x \<in> set xs \<Longrightarrow> f x = Inr r \<Longrightarrow> \<exists>t. r = Some t \<and> P t \<and> ev t = g x"
  obtains ts where "ys = map Some ts" "list_all P ts" "map ev ts = map g xs"
  using assms
proof (induction xs arbitrary: ys thesis)
  case (Cons x xs)
  from Cons.prems(2) obtain y zs where y: "f x = Inr y" and zs: "mapE f xs = Inr zs" "ys = y # zs" by auto
  from Cons.prems(3) [OF _ y] obtain t where t: "y = Some t" "P t" "ev t = g x" by auto
  from Cons.IH [OF _ zs(1) Cons.prems(3)] obtain ts
    where "zs = map Some ts" "list_all P ts" "map ev ts = map g xs" by auto
  with t zs(2) show ?case by (intro Cons.prems(1) [of "t # ts"]) simp_all
qed simp

lemma list_ex_of_map: "map f xs = map g ys \<Longrightarrow> list_ex f xs = list_ex g ys"
proof -
  assume "map f xs = map g ys"
  then have "list_ex id (map f xs) = list_ex id (map g ys)" by simp
  then show ?thesis by (simp add: list_ex_iff)
qed

lemma list_all_of_map: "map f xs = map g ys \<Longrightarrow> list_all f xs = list_all g ys"
proof -
  assume "map f xs = map g ys"
  then have "list_all id (map f xs) = list_all id (map g ys)" by simp
  then show ?thesis by (simp add: list_all_iff)
qed

lemma conjunction_pair: "conjunction_of E c R [a, b] r \<Longrightarrow>
    \<exists>t. r = Some t \<and> behaves E c R t \<and> evaluate E c t = (evaluate E c a \<and> evaluate E c b)"
  by (auto simp: conjunction_of_def split: option.splits)

lemma distribute_sem:
  assumes "\<And>a b r. behaves E c R a \<Longrightarrow> behaves E c R b \<Longrightarrow> and2 a b = Inr r \<Longrightarrow> conjunction_of E c R [a, b] r"
    and "\<And>es b r. list_all (behaves E c R) (members es) \<Longrightarrow> or_c es b = Inr r \<Longrightarrow> disjunction_of E c R (members es) r"
    and "list_all (behaves E c R) expr" and "distribute E and2 or_c expr = Inr expr'"
  shows "list_all (behaves E c R) expr' \<and> list_all (evaluate E c) expr' = list_all (evaluate E c) expr
    \<and> (expr' = [] \<longleftrightarrow> expr = [])"
  using assms(3,4)
proof (induction "length expr" arbitrary: expr rule: less_induct)
  case less
  show ?case
  proof (cases "length expr > 1 \<and> or_terms (last expr) \<noteq> None")
    case False
    with less.prems show ?thesis by (auto simp: distribute.simps [of E and2 or_c expr] split: if_splits)
  next
    case True
    then obtain rest s l where expr: "expr = rest @ [s, l]"
      by (cases expr rule: rev_cases; cases "butlast expr" rule: rev_cases) auto
    from True obtain es m where l: "l = OrExpr es m" by (auto simp: expr or_terms_Some)
    with less.prems(1) have b: "list_all (behaves E c R) es" "es \<noteq> []" "behaves E c R s"
      "list_all (behaves E c R) rest" by (simp_all add: expr)
    from less.prems(2) obtain terms r where terms: "mapE (\<lambda>el. and2 el s) es = Inr terms"
      and r: "or_c terms (rest = []) = Inr r"
      and d: "(case r of None \<Rightarrow> distribute E and2 or_c rest
          | Some r \<Rightarrow> distribute E and2 or_c (js_sort (cmp E) (rest @ [r]))) = Inr expr'"
      unfolding distribute.simps [of E and2 or_c expr] by (auto simp: expr l butlast_append simp del: js_sort_simps)
    obtain ts where ts: "terms = map Some ts" "list_all (behaves E c R) ts"
      "map (evaluate E c) ts = map (\<lambda>el. evaluate E c el \<and> evaluate E c s) es"
      by (rule mapE_values [OF terms, of "behaves E c R" "evaluate E c" "\<lambda>el. evaluate E c el \<and> evaluate E c s"])
        (use b in \<open>auto simp: list_all_iff intro: conjunction_pair assms(1)\<close>)
    have "list_ex (evaluate E c) ts = (list_ex (evaluate E c) es \<and> evaluate E c s)"
      using list_ex_of_map [OF ts(3)] by (auto simp: list_ex_iff)
    moreover have "ts \<noteq> []" using ts(3) b(2) by auto
    ultimately obtain e where e: "r = Some e" "behaves E c R e"
      "evaluate E c e = (list_ex (evaluate E c) es \<and> evaluate E c s)"
      using assms(2) [OF _ r] ts by (auto simp: disjunction_of_def split: option.splits)
    have "list_all (behaves E c R) expr' \<and>
        list_all (evaluate E c) expr' = list_all (evaluate E c) (js_sort (cmp E) (rest @ [e])) \<and>
        (expr' = [] \<longleftrightarrow> js_sort (cmp E) (rest @ [e]) = [])"
      using less.hyps [of "js_sort (cmp E) (rest @ [e])"] d b e
      by (simp add: expr list_all_iff del: js_sort_simps)
    moreover have "js_sort (cmp E) (rest @ [e]) \<noteq> []"
      using length_js_sort [of "cmp E" "rest @ [e]"] by (metis length_0_conv snoc_eq_iff_butlast)
    ultimately show ?thesis using e by (auto simp: expr l list_all_iff simp del: js_sort_simps)
  qed
qed

subsection \<open>The factories\<close>

lemma js_sort_lists [simp]:
  "list_all P (js_sort c xs) = list_all P xs"
  "list_ex P (js_sort c xs) = list_ex P xs"
  by (simp_all add: list_all_iff list_ex_iff)

lemma js_sort_Nil [simp]: "js_sort c xs = [] \<longleftrightarrow> xs = []"
  by (metis length_0_conv length_js_sort)

lemma conjunction_hd:
  "length xs = 1 \<Longrightarrow> list_all (behaves E c R) xs \<Longrightarrow> list_all (evaluate E c) es = list_all (evaluate E c) xs \<Longrightarrow>
     conjunction_of E c R es (Some (hd xs))"
  by (cases xs) (auto simp: conjunction_of_def)

lemma disjunction_hd:
  "length xs = 1 \<Longrightarrow> list_all (behaves E c R) xs \<Longrightarrow> list_ex (evaluate E c) es = list_ex (evaluate E c) xs \<Longrightarrow>
     disjunction_of E c R es (Some (hd xs))"
  by (cases xs) (auto simp: disjunction_of_def)

lemma and_normalizeArr_sem:
  assumes inj: "inj_on regexp_source R"
    and neg: "\<And>x r. behaves E c R x \<Longrightarrow> neg x = Inr r \<Longrightarrow> negation_of E c R x r"
    and and_c: "\<And>es b r. list_all (behaves E c R) (members es) \<Longrightarrow> and_c es b = Inr r \<Longrightarrow> conjunction_of E c R (members es) r"
    and or_c: "\<And>es b r. list_all (behaves E c R) (members es) \<Longrightarrow> or_c es b = Inr r \<Longrightarrow> disjunction_of E c R (members es) r"
    and arr: "list_all (behaves E c R) (members arr)"
    and memo: "remembers E c R (list_all (evaluate E c) (members arr)) negated"
    and r: "and_normalizeArr E neg and_c or_c arr negated extra = Inr r"
  shows "conjunction_of E c R (members arr) r"
proof (cases "and_flatten arr [] False")
  case None
  with r and_flatten_sem [OF arr, of "[]" False] show ?thesis
    by (auto simp: and_normalizeArr_def conjunction_of_def)
next
  case (Some p)
  obtain expr h where p: "p = (expr, h)" by (cases p)
  with Some and_flatten_sem [OF arr, of "[]" False]
  have expr: "list_all (behaves E c R) expr"
    "list_all (evaluate E c) (members arr) = list_all (evaluate E c) expr" "expr = [] \<longrightarrow> h \<or> members arr = []"
    by simp_all
  let ?s = "js_sort (cmp E) expr"
  let ?d = "eliminate_duplicates ?s"
  have s: "list_all (behaves E c R) ?s" using expr by simp
  note d = eliminate_duplicates_sem [OF inj s]
  show ?thesis
  proof (cases "length expr \<le> 1 \<or> length ?d = 1")
    case True
    consider "expr = []" | "length expr = 1" | "expr \<noteq> []" "length expr \<noteq> 1" "length ?d = 1"
      using True by (cases expr; cases "length expr = 1") auto
    then show ?thesis
    proof cases
      case 1
      with r expr show ?thesis by (auto simp: and_normalizeArr_def Some p conjunction_of_def split: if_splits)
    next
      case 2
      then have "expr \<noteq> []" by auto
      with 2 r have "r = Some (hd expr)" by (simp add: and_normalizeArr_def Some p)
      with 2 expr show ?thesis by (simp only: conjunction_hd)
    next
      case 3
      with r have "r = Some (hd ?d)" by (simp add: and_normalizeArr_def Some p)
      with 3 d expr show ?thesis by (simp add: conjunction_hd)
    qed
  next
    case False
    then have "expr \<noteq> []" "length expr \<noteq> 1" "length ?d \<noteq> 1" by auto
    with r obtain expr' where e': "distribute E (\<lambda>el second. and_c [Some el, Some second] extra) or_c ?d = Inr expr'"
      and r': "(if length expr' = 1 then Inr (Some (hd expr'))
            else bindE (if extra then has_complement neg expr' else Inr False) (\<lambda>redundant.
              if redundant then Inr (Some FalseExpr) else Inr (Some (AndExpr expr' negated)))) = Inr r"
      by (auto simp: and_normalizeArr_def Some p simp del: One_nat_def)
    have D: "list_all (behaves E c R) expr'" "list_all (evaluate E c) expr' = list_all (evaluate E c) expr" "expr' \<noteq> []"
      using distribute_sem [OF _ or_c d(3) e'] and_c [of "[Some _, Some _]"] d \<open>expr \<noteq> []\<close> by auto
    show ?thesis
    proof (cases "length expr' = 1")
      case True
      with r' D expr show ?thesis by (auto intro: conjunction_hd)
    next
      case False
      with r' obtain b where b: "(if extra then has_complement neg expr' else Inr False) = Inr b"
        and r: "r = Some (if b then FalseExpr else AndExpr expr' negated)"
        by (auto split: if_splits)
      have "\<not> list_all (evaluate E c) expr'" if b
        using has_complement_sem [OF inj D(1) neg] b that by (auto split: if_splits)
      with r D memo expr show ?thesis
        by (auto simp: conjunction_of_def remembers_def split: option.splits)
    qed
  qed
qed

lemma or_normalizeArr_sem:
  assumes inj: "inj_on regexp_source R"
    and neg: "\<And>x r. behaves E c R x \<Longrightarrow> neg x = Inr r \<Longrightarrow> negation_of E c R x r"
    and arr: "list_all (behaves E c R) (members arr)"
    and memo: "remembers E c R (list_ex (evaluate E c) (members arr)) negated"
    and r: "or_normalizeArr E neg arr negated extra = Inr r"
  shows "disjunction_of E c R (members arr) r"
proof (cases "or_flatten arr [] False")
  case None
  with r or_flatten_sem [OF arr, of "[]" False] show ?thesis
    by (auto simp: or_normalizeArr_def disjunction_of_def)
next
  case (Some p)
  obtain expr h where p: "p = (expr, h)" by (cases p)
  with Some or_flatten_sem [OF arr, of "[]" False]
  have expr: "list_all (behaves E c R) expr"
    "list_ex (evaluate E c) (members arr) = list_ex (evaluate E c) expr" "expr = [] \<longrightarrow> h \<or> members arr = []"
    by simp_all
  let ?s = "js_sort (cmp E) expr"
  let ?d = "eliminate_duplicates ?s"
  have s: "list_all (behaves E c R) ?s" using expr by simp
  note d = eliminate_duplicates_sem [OF inj s]
  consider "expr = []" | "expr \<noteq> []" "length ?s = 1" | "expr \<noteq> []" "length ?s \<noteq> 1" "length ?d = 1"
    | "expr \<noteq> []" "length ?s \<noteq> 1" "length ?d \<noteq> 1"
    by argo
  then show ?thesis
  proof cases
    case 1
    with r expr show ?thesis by (auto simp: or_normalizeArr_def Some p disjunction_of_def split: if_splits)
  next
    case 2
    with r have "r = Some (hd ?s)" by (simp add: or_normalizeArr_def Some p)
    moreover have "disjunction_of E c R (members arr) (Some (hd ?s))"
      using 2 s expr by (intro disjunction_hd) simp_all
    ultimately show ?thesis by simp
  next
    case 3
    with r have "r = Some (hd ?d)" by (simp add: or_normalizeArr_def Some p)
    moreover have "disjunction_of E c R (members arr) (Some (hd ?d))"
      using 3 d expr by (intro disjunction_hd) simp_all
    ultimately show ?thesis by simp
  next
    case 4
    with r obtain b where b: "(if extra then has_complement neg ?d else Inr False) = Inr b"
      and r: "r = Some (if b then TrueExpr else OrExpr ?d negated)"
      by (auto simp: or_normalizeArr_def Some p Let_def split: if_splits)
    have "list_ex (evaluate E c) ?d" if b
      using has_complement_sem [OF inj d(3) neg] b that by (auto split: if_splits)
    with r d memo expr 4 show ?thesis
      by (auto simp: disjunction_of_def remembers_def split: option.splits)
  qed
qed

lemma terminals_sem:
  "behaves E c R e \<Longrightarrow> list_all (behaves E c R) (getTerminals e)"
  "list_ex (evaluate E c) (getTerminals e) = evaluate E c e"
  "behaves E c R e \<Longrightarrow> getTerminals e \<noteq> []"
  by (cases e; simp add: getTerminals_def)+

lemma negate_distribute_sem:
  assumes and2: "\<And>a b r. behaves E c R a \<Longrightarrow> behaves E c R b \<Longrightarrow> and2 a b = Inr r \<Longrightarrow> conjunction_of E c R [a, b] r"
    and or_c: "\<And>es r. list_all (behaves E c R) (members es) \<Longrightarrow> or_c es = Inr r \<Longrightarrow> disjunction_of E c R (members es) r"
    and "list_all (behaves E c R) xs" "xs \<noteq> []" "negate_distribute and2 or_c (map Some xs) = Inr ys"
  obtains y where "ys = [Some y]" "behaves E c R y" "evaluate E c y = list_all (evaluate E c) xs"
  using assms(3-5)
proof (induction "length xs" arbitrary: xs thesis rule: less_induct)
  case less
  show ?case
  proof (cases "length xs = 1")
    case True
    then obtain x where "xs = [x]" by (cases xs) auto
    with less.prems(2,3,4) show ?thesis by (intro less.prems(1) [of x]) (simp_all add: negate_distribute.simps)
  next
    case False
    with less.prems(3) obtain l r rest where xs: "xs = l # r # rest"
      by (cases xs; cases "tl xs") auto
    with less.prems(2) have b: "behaves E c R l" "behaves E c R r" "list_all (behaves E c R) rest" by simp_all
    let ?ps = "List.product (getTerminals l) (getTerminals r)"
    let ?g = "\<lambda>(a, b). evaluate E c a \<and> evaluate E c b"
    from less.prems(4) obtain terms d where terms: "mapE (\<lambda>(left, right). and2 left right) ?ps = Inr terms"
      and d: "or_c terms = Inr d" and n: "negate_distribute and2 or_c (d # map Some rest) = Inr ys"
      unfolding xs negate_distribute.simps [of and2 or_c "map Some (l # r # rest)"] by auto
    have ps: "behaves E c R a \<and> behaves E c R b" if "(a, b) \<in> set ?ps" for a b
      using that terminals_sem(1) [OF b(1)] terminals_sem(1) [OF b(2)] by (auto simp: list_all_iff)
    obtain ts where ts: "terms = map Some ts" "list_all (behaves E c R) ts" "map (evaluate E c) ts = map ?g ?ps"
    proof (rule mapE_values [OF terms, of "behaves E c R" "evaluate E c" ?g])
      fix p t assume p: "p \<in> set ?ps" and t: "(case p of (left, right) \<Rightarrow> and2 left right) = Inr t"
      obtain a b where ab: "p = (a, b)" by (cases p)
      with t have "and2 a b = Inr t" by simp
      from conjunction_pair [OF and2 [OF _ _ this]] ps [of a b] p
      show "\<exists>u. t = Some u \<and> behaves E c R u \<and> evaluate E c u = ?g p" by (simp add: ab)
    qed
    have "list_ex (evaluate E c) ts = (evaluate E c l \<and> evaluate E c r)"
      unfolding list_ex_of_map [OF ts(3)] using terminals_sem(2) [of E c l] terminals_sem(2) [of E c r]
      by (auto simp: list_ex_iff)
    moreover have "?ps \<noteq> []" using terminals_sem(3) b by (metis length_0_conv length_product mult_eq_0_iff)
    with ts(3) have "ts \<noteq> []" by auto
    ultimately obtain e where e: "d = Some e" "behaves E c R e" "evaluate E c e = (evaluate E c l \<and> evaluate E c r)"
      using or_c [OF _ d] ts by (auto simp: disjunction_of_def split: option.splits)
    show ?thesis
      by (rule less.hyps [of "e # rest"]) (use less.prems(1) n e b in \<open>simp_all add: xs\<close>)
  qed
qed

subsection \<open>Negation\<close>

lemma negated_comparison:
  assumes "numeric E c k v"
  shows "SmallerEquals_create k v = SmallerEqualsExpr k v" "Smaller_create k v = SmallerExpr k v"
    "GreaterEquals_create k v = GreaterEqualsExpr k v" "Greater_create k v = GreaterExpr k v"
    "compare_number num_less_eq (context_float E c k) v = (\<not> compare_number (\<lambda>a b. num_less b a) (context_float E c k) v)"
    "compare_number (\<lambda>a b. num_less_eq b a) (context_float E c k) v = (\<not> compare_number num_less (context_float E c k) v)"
  using assms
  by (auto simp: numeric_def withFloatOrStr_def SmallerEquals_create_def Smaller_create_def
      GreaterEquals_create_def Greater_create_def compare_number_def num_not_less split: js_value.splits)

lemma negated_equality:
  assumes "plain_value E c k v"
  shows "behaves E c R (NotEquals_create E k v)" "behaves E c R (Equals_create E k v)"
    "evaluate E c (NotEquals_create E k v) = (\<not> loose_eq (num_str E) (c k) v)"
    "evaluate E c (Equals_create E k v) = loose_eq (num_str E) (c k) v"
  using assms
  by (auto simp: plain_value_def NotEquals_create_def Equals_create_def split: js_value.splits option.splits)

lemma negated_key:
  assumes "agrees E c k"
  shows "behaves E c R (Not_create E k)" "behaves E c R (Defined_create E k)"
    "evaluate E c (Not_create E k) = (\<not> truthy (c k))" "evaluate E c (Defined_create E k) = truthy (c k)"
  using assms by (auto simp: agrees_def Not_create_def Defined_create_def split: option.splits)

lemma normalize_sem:
  assumes inj: "inj_on regexp_source R"
  shows negate_sem: "\<And>e r. behaves E c R e \<Longrightarrow> negate E n e = Inr r \<Longrightarrow> negation_of E c R e r"
    and And_create_sem: "\<And>arr negated extra r. list_all (behaves E c R) (members arr) \<Longrightarrow>
      remembers E c R (list_all (evaluate E c) (members arr)) negated \<Longrightarrow>
      And_create E n arr negated extra = Inr r \<Longrightarrow> conjunction_of E c R (members arr) r"
    and Or_create_sem: "\<And>arr negated extra r. list_all (behaves E c R) (members arr) \<Longrightarrow>
      remembers E c R (list_ex (evaluate E c) (members arr)) negated \<Longrightarrow>
      Or_create E n arr negated extra = Inr r \<Longrightarrow> disjunction_of E c R (members arr) r"
proof (induction n)
  case (Suc n)
  note neg = Suc.IH(1) and and_c = Suc.IH(2) and or_c = Suc.IH(3)
  have none: "remembers E c R b None" for b by (simp add: remembers_def)
  have negs: "\<exists>ts. result = map Some ts \<and> list_all (behaves E c R) ts \<and>
      map (evaluate E c) ts = map (\<lambda>x. \<not> evaluate E c x) es"
    if "list_all (behaves E c R) es" "mapE (\<lambda>x. negate E n x) es = Inr result" for es result
  proof (rule mapE_values [OF that(2), of "behaves E c R" "evaluate E c" "\<lambda>x. \<not> evaluate E c x"])
    fix x r assume "x \<in> set es" "negate E n x = Inr r"
    then have "negation_of E c R x r" using neg that(1) by (auto simp: list_all_iff)
    then show "\<exists>t. r = Some t \<and> behaves E c R t \<and> evaluate E c t = (\<not> evaluate E c x)"
      by (auto simp: negation_of_def split: option.splits)
  qed blast
  {
    case (1 e r)
    show ?case
    proof (cases e)
      case (AndExpr es m)
      show ?thesis
      proof (cases m)
        case None
        with 1 AndExpr obtain result where result: "mapE (\<lambda>x. negate E n x) es = Inr result"
          and r: "Or_create E n result (Some e) True = Inr r" by auto
        from 1 AndExpr negs [OF _ result] obtain ts where ts: "result = map Some ts"
          "list_all (behaves E c R) ts" "map (evaluate E c) ts = map (\<lambda>x. \<not> evaluate E c x) es" by auto
        have ex: "list_ex (evaluate E c) ts = (\<not> list_all (evaluate E c) es)"
          unfolding list_ex_of_map [OF ts(3)] by (auto simp: list_ex_iff list_all_iff)
        have "disjunction_of E c R (members result) r"
          by (rule or_c [OF _ _ r]) (use 1 ts ex AndExpr in \<open>simp_all add: remembers_def\<close>)
        moreover have "ts \<noteq> []" using ts(3) 1 AndExpr by auto
        ultimately show ?thesis using ts(1) ex AndExpr
          by (auto simp: disjunction_of_def negation_of_def split: option.splits)
      qed (use 1 AndExpr in \<open>auto simp: negation_of_def\<close>)
    next
      case (OrExpr es m)
      show ?thesis
      proof (cases m)
        case None
        let ?and2 = "\<lambda>left right. And_create E n [Some left, Some right] None False"
        let ?or = "\<lambda>terms. Or_create E n terms None False"
        from None 1 OrExpr obtain result rs where result: "mapE (\<lambda>x. negate E n x) es = Inr result"
          and rs: "negate_distribute ?and2 ?or result = Inr rs" and r: "Or_create E n rs (Some e) True = Inr r" by auto
        from 1 OrExpr negs [OF _ result] obtain ts where ts: "result = map Some ts"
          "list_all (behaves E c R) ts" "map (evaluate E c) ts = map (\<lambda>x. \<not> evaluate E c x) es" by auto
        have all: "list_all (evaluate E c) ts = (\<not> list_ex (evaluate E c) es)"
          unfolding list_all_of_map [OF ts(3)] by (auto simp: list_ex_iff list_all_iff)
        have "ts \<noteq> []" using ts(3) 1 OrExpr by auto
        obtain y where y: "rs = [Some y]" "behaves E c R y" "evaluate E c y = list_all (evaluate E c) ts"
        proof (rule negate_distribute_sem [of E c R ?and2 ?or ts rs])
          show "list_all (behaves E c R) ts" "ts \<noteq> []" by fact+
          show "negate_distribute ?and2 ?or (map Some ts) = Inr rs" using rs by (simp only: ts(1))
          show "conjunction_of E c R [a, b] t" if "behaves E c R a" "behaves E c R b" "?and2 a b = Inr t" for a b t
            using and_c [OF _ none that(3)] that by simp
          show "disjunction_of E c R (members ws) t" if "list_all (behaves E c R) (members ws)" "?or ws = Inr t" for ws t
            by (rule or_c [OF that(1) none that(2)])
        qed blast
        have "disjunction_of E c R (members rs) r"
          by (rule or_c [OF _ _ r]) (use 1 y all OrExpr in \<open>simp_all add: remembers_def\<close>)
        with y all OrExpr show ?thesis
          by (auto simp: disjunction_of_def negation_of_def split: option.splits)
      qed (use 1 OrExpr in \<open>auto simp: negation_of_def\<close>)
    qed (use 1 in \<open>auto simp: negation_of_def negated_comparison negated_equality negated_key\<close>)
  next
    case (2 arr negated extra r)
    then show ?case
      by (intro and_normalizeArr_sem [OF inj neg and_c [OF _ none] or_c [OF _ none]]) auto
  next
    case (3 arr negated extra r)
    then show ?case by (intro or_normalizeArr_sem [OF inj neg]) auto
  }
qed simp_all

subsection \<open>Substitution of the constants\<close>

lemma eliminate_loop_Some:
  assumes "length a = i" and "length arr = i + length subs"
  shows "eliminate_loop arr subs i (Some a) =
    Some (a @ map2 (\<lambda>e s. case s of Some x \<Rightarrow> x | None \<Rightarrow> Some e) (drop i arr) subs)"
  using assms
proof (induction subs arbitrary: i a)
  case (Cons s ss)
  then have "drop i arr = arr ! i # drop (Suc i) arr" by (simp add: Cons_nth_drop_Suc)
  moreover have "eliminate_loop arr ss (Suc i) (Some (a @ [v])) =
      Some ((a @ [v]) @ map2 (\<lambda>e s. case s of Some x \<Rightarrow> x | None \<Rightarrow> Some e) (drop (Suc i) arr) ss)" for v
    using Cons.prems by (intro Cons.IH) simp_all
  ultimately show ?case by (simp add: Let_def)
qed simp

lemma eliminate_loop_None:
  assumes "length arr = i + length subs"
  shows "eliminate_loop arr subs i None =
    (if list_all (\<lambda>s. s = None) subs then None
     else Some (map Some (take i arr)
       @ map2 (\<lambda>e s. case s of Some x \<Rightarrow> x | None \<Rightarrow> Some e) (drop i arr) subs))"
  using assms
proof (induction subs arbitrary: i)
  case (Cons s ss)
  then have d: "drop i arr = arr ! i # drop (Suc i) arr" by (simp add: Cons_nth_drop_Suc)
  show ?case
  proof (cases s)
    case None
    with Cons d show ?thesis by (auto simp: Let_def take_Suc_conv_app_nth)
  next
    case (Some x)
    with Cons d show ?thesis by (simp add: Let_def eliminate_loop_Some)
  qed
qed simp

lemma eliminateConstantsInArray_eq:
  "length arr = length subs \<Longrightarrow>
    eliminateConstantsInArray arr subs =
      (if list_all (\<lambda>s. s = None) subs then None
       else Some (map2 (\<lambda>e s. case s of Some x \<Rightarrow> x | None \<Rightarrow> Some e) arr subs))"
  by (simp add: eliminateConstantsInArray_def eliminate_loop_None)

text \<open>What \<open>substituteConstants\<close> answers stands for the same value.\<close>

definition same_value_as :: "env \<Rightarrow> IContext \<Rightarrow> RegExp option set \<Rightarrow> ContextKeyExpression
    \<Rightarrow> ContextKeyExpression option option \<Rightarrow> bool" where
  "same_value_as E c R e s =
     (case s of None \<Rightarrow> True | Some None \<Rightarrow> False | Some (Some x) \<Rightarrow> behaves E c R x \<and> evaluate E c x = evaluate E c e)"

lemma replaced_sem:
  assumes "mapE f es = Inr ss" and "list_all (behaves E c R) es"
    and "\<And>e s. e \<in> set es \<Longrightarrow> f e = Inr s \<Longrightarrow> same_value_as E c R e s"
  obtains ts where "map2 (\<lambda>e s. case s of Some x \<Rightarrow> x | None \<Rightarrow> Some e) es ss = map Some ts"
    "list_all (behaves E c R) ts" "map (evaluate E c) ts = map (evaluate E c) es"
  using assms
proof (induction es arbitrary: ss thesis)
  case (Cons e es)
  from Cons.prems(2) obtain s ss' where s: "f e = Inr s" and ss': "mapE f es = Inr ss'" "ss = s # ss'" by auto
  obtain t where t: "(case s of Some x \<Rightarrow> x | None \<Rightarrow> Some e) = Some t" "behaves E c R t"
    "evaluate E c t = evaluate E c e"
    using Cons.prems(3) Cons.prems(4) [OF _ s] by (auto simp: same_value_as_def split: option.splits)
  obtain ts where "map2 (\<lambda>e s. case s of Some x \<Rightarrow> x | None \<Rightarrow> Some e) es ss' = map Some ts"
    "list_all (behaves E c R) ts" "map (evaluate E c) ts = map (evaluate E c) es"
    using Cons.IH [OF _ ss'(1)] Cons.prems(3,4) by auto
  with t ss'(2) show ?case by (intro Cons.prems(1) [of "t # ts"]) simp_all
qed simp

lemma substituteConstants_sem:
  assumes inj: "inj_on regexp_source R"
    and memo: "\<And>x. remembers E c R (evaluate E c x) (memo x)"
  shows "behaves E c R e \<Longrightarrow> substituteConstants E n memo e = Inr s \<Longrightarrow> same_value_as E c R e s"
proof (induction e arbitrary: s)
  case (AndExpr es m)
  from AndExpr.prems obtain ss where ss: "mapE (substituteConstants E n memo) es = Inr ss"
    by (auto simp: substituteConstants.simps [of E n memo "AndExpr es m"])
  obtain ts where ts: "map2 (\<lambda>e s. case s of Some x \<Rightarrow> x | None \<Rightarrow> Some e) es ss = map Some ts"
    "list_all (behaves E c R) ts" "map (evaluate E c) ts = map (evaluate E c) es"
    by (rule replaced_sem [OF ss]) (use AndExpr in \<open>auto simp: list_all_iff\<close>)
  show ?case
  proof (cases "list_all (\<lambda>s. s = None) ss")
    case True
    with AndExpr.prems ss length_mapE [OF ss] show ?thesis
      by (simp add: substituteConstants.simps [of E n memo "AndExpr es m"] eliminateConstantsInArray_eq same_value_as_def)
  next
    case False
    with AndExpr.prems ss length_mapE [OF ss] ts(1) obtain r
      where r: "And_create E n (map Some ts) (memo (AndExpr es m)) False = Inr r" "s = Some r"
      by (auto simp: substituteConstants.simps [of E n memo "AndExpr es m"] eliminateConstantsInArray_eq)
    have "conjunction_of E c R (members (map Some ts)) r"
      by (rule And_create_sem [OF inj _ _ r(1)])
        (use ts memo [of "AndExpr es m"] in \<open>simp_all add: list_all_of_map [OF ts(3)]\<close>)
    moreover have "ts \<noteq> []" using ts(3) AndExpr.prems by auto
    ultimately show ?thesis using r(2) list_all_of_map [OF ts(3)]
      by (auto simp: conjunction_of_def same_value_as_def split: option.splits)
  qed
next
  case (OrExpr es m)
  from OrExpr.prems obtain ss where ss: "mapE (substituteConstants E n memo) es = Inr ss"
    by (auto simp: substituteConstants.simps [of E n memo "OrExpr es m"])
  obtain ts where ts: "map2 (\<lambda>e s. case s of Some x \<Rightarrow> x | None \<Rightarrow> Some e) es ss = map Some ts"
    "list_all (behaves E c R) ts" "map (evaluate E c) ts = map (evaluate E c) es"
    by (rule replaced_sem [OF ss]) (use OrExpr in \<open>auto simp: list_all_iff\<close>)
  show ?case
  proof (cases "list_all (\<lambda>s. s = None) ss")
    case True
    with OrExpr.prems ss length_mapE [OF ss] show ?thesis
      by (simp add: substituteConstants.simps [of E n memo "OrExpr es m"] eliminateConstantsInArray_eq same_value_as_def)
  next
    case False
    with OrExpr.prems ss length_mapE [OF ss] ts(1) obtain r
      where r: "Or_create E n (map Some ts) (memo (OrExpr es m)) False = Inr r" "s = Some r"
      by (auto simp: substituteConstants.simps [of E n memo "OrExpr es m"] eliminateConstantsInArray_eq)
    have "disjunction_of E c R (members (map Some ts)) r"
      by (rule Or_create_sem [OF inj _ _ r(1)])
        (use ts memo [of "OrExpr es m"] in \<open>simp_all add: list_ex_of_map [OF ts(3)]\<close>)
    moreover have "ts \<noteq> []" using ts(3) OrExpr.prems by auto
    ultimately show ?thesis using r(2) list_ex_of_map [OF ts(3)]
      by (auto simp: disjunction_of_def same_value_as_def split: option.splits)
  qed
qed (auto simp: substituteConstants.simps same_value_as_def agrees_def plain_value_def
    split: option.splits if_splits)

end
