(* ===== verification/Context_Implies.thy ===== *)
theory Context_Implies
  imports Context_Semantics
begin

text \<open>
  \<open>implies\<close> of \<open>src/vs/platform/contextkey/common/contextkey.ts\<close> is sound on expressions
  whose values \<open>cmp\<close> can tell apart.

  \<open>allElementsIncluded\<close> takes two elements for the same when \<open>cmp\<close> gives 0. That is
  also its answer on two values of which neither is less than the other, a number and a word or the number
  5 and the string \<open>5\<close>.
\<close>

fun comparable :: "ContextKeyExpression \<Rightarrow> bool" where
  "comparable (EqualsExpr k v) = (case v of JString _ \<Rightarrow> True | _ \<Rightarrow> False)"
| "comparable (NotEqualsExpr k v) = (case v of JString _ \<Rightarrow> True | _ \<Rightarrow> False)"
| "comparable (AndExpr es m) = list_all comparable es"
| "comparable (OrExpr es m) = list_all comparable es"
| "comparable (GreaterExpr k v) = (case v of JNumber n \<Rightarrow> n \<noteq> NaN | _ \<Rightarrow> False)"
| "comparable (GreaterEqualsExpr k v) = (case v of JNumber n \<Rightarrow> n \<noteq> NaN | _ \<Rightarrow> False)"
| "comparable (SmallerExpr k v) = (case v of JNumber n \<Rightarrow> n \<noteq> NaN | _ \<Rightarrow> False)"
| "comparable (SmallerEqualsExpr k v) = (case v of JNumber n \<Rightarrow> n \<noteq> NaN | _ \<Rightarrow> False)"
| "comparable e = True"

lemma cmp1_zero: "cmp1 k k' = 0 \<Longrightarrow> k = k'"
  using str_total [of k k'] by (auto simp: cmp1_def split: if_splits)

lemma cmp_regex_zero: "cmp_regex k r k' r' = 0 \<Longrightarrow> k = k' \<and> regexp_source r = regexp_source r'"
  using str_total [of k k'] str_total [of "regexp_source r" "regexp_source r'"]
  by (auto simp: cmp_regex_def Let_def split: if_splits)

lemma cmp2_strings_zero: "cmp2 E k (JString s) k' (JString t) = 0 \<Longrightarrow> k = k' \<and> s = t"
  using str_total [of k k'] str_total [of s t] by (auto simp: cmp2_def split: if_splits)

lemma cmp2_numbers_zero:
  "cmp2 E k (JNumber m) k' (JNumber n) = 0 \<Longrightarrow> m \<noteq> NaN \<Longrightarrow> n \<noteq> NaN \<Longrightarrow> k = k' \<and> m = n"
  using str_total [of k k'] num_total [of m n] by (auto simp: cmp2_def split: if_splits)

lemma cmp_arrays_zero:
  "cmp_arrays f xs ys = 0 \<Longrightarrow> list_all2 (\<lambda>x y. f x y = 0) xs ys"
proof -
  have "length xs = length ys \<Longrightarrow> cmp_elems f xs ys = 0 \<Longrightarrow> list_all2 (\<lambda>x y. f x y = 0) xs ys"
    by (induction f xs ys rule: cmp_elems.induct) (auto simp: Let_def split: if_splits)
  then show "cmp_arrays f xs ys = 0 \<Longrightarrow> ?thesis" by (simp add: cmp_arrays_def split: if_splits)
qed

lemmas cmp_zeroD = cmp1_zero cmp_regex_zero cmp2_strings_zero cmp2_numbers_zero cmp_arrays_zero

lemma cmp_zero_type: "cmp E x y = 0 \<Longrightarrow> expr_type y = expr_type x"
  by (simp add: cmp.simps [of E x y] split: if_splits)

lemma cmp_zero_equals: "comparable x \<Longrightarrow> comparable y \<Longrightarrow> cmp E x y = 0 \<Longrightarrow> expr_equals x y"
proof (induction x arbitrary: y)
  case (AndExpr es m)
  then obtain fs m' where y: "y = AndExpr fs m'" using cmp_zero_type [OF AndExpr.prems(3)] by (cases y) auto
  with AndExpr.prems(3) have "list_all2 (\<lambda>a b. cmp E a b = 0) es fs"
    by (simp add: cmp.simps [of E "AndExpr es m"] cmp_arrays_zero)
  then have "list_all2 expr_equals es fs"
    by (rule list.rel_mono_strong) (use AndExpr y in \<open>simp add: list_all_iff\<close>)
  with y show ?case by (simp add: equal_arrays_iff)
next
  case (OrExpr es m)
  then obtain fs m' where y: "y = OrExpr fs m'" using cmp_zero_type [OF OrExpr.prems(3)] by (cases y) auto
  with OrExpr.prems(3) have "list_all2 (\<lambda>a b. cmp E a b = 0) es fs"
    by (simp add: cmp.simps [of E "OrExpr es m"] cmp_arrays_zero)
  then have "list_all2 expr_equals es fs"
    by (rule list.rel_mono_strong) (use OrExpr y in \<open>simp add: list_all_iff\<close>)
  with y show ?case by (simp add: equal_arrays_iff)
next
  case (EqualsExpr k v)
  then show ?case using cmp_zero_type [OF EqualsExpr.prems(3)]
    by (cases y) (auto simp: cmp.simps strict_eq_def dest: cmp_zeroD split: js_value.splits)
next
  case (NotEqualsExpr k v)
  then show ?case using cmp_zero_type [OF NotEqualsExpr.prems(3)]
    by (cases y) (auto simp: cmp.simps strict_eq_def dest: cmp_zeroD split: js_value.splits)
next
  case (GreaterExpr k v)
  then show ?case using cmp_zero_type [OF GreaterExpr.prems(3)]
    by (cases y) (auto simp: cmp.simps strict_eq_def dest: cmp_zeroD split: js_value.splits)
next
  case (GreaterEqualsExpr k v)
  then show ?case using cmp_zero_type [OF GreaterEqualsExpr.prems(3)]
    by (cases y) (auto simp: cmp.simps strict_eq_def dest: cmp_zeroD split: js_value.splits)
next
  case (SmallerExpr k v)
  then show ?case using cmp_zero_type [OF SmallerExpr.prems(3)]
    by (cases y) (auto simp: cmp.simps strict_eq_def dest: cmp_zeroD split: js_value.splits)
next
  case (SmallerEqualsExpr k v)
  then show ?case using cmp_zero_type [OF SmallerEqualsExpr.prems(3)]
    by (cases y) (auto simp: cmp.simps strict_eq_def dest: cmp_zeroD split: js_value.splits)
next
  case (RegexExpr k r)
  then show ?case using cmp_zero_type [OF RegexExpr.prems(3)]
    by (cases y) (auto simp: cmp.simps dest: cmp_zeroD)
next
  case (NotRegexExpr k r)
  then show ?case using cmp_zero_type [OF NotRegexExpr.prems(3)]
    by (cases y) (auto simp: cmp.simps dest: cmp_zeroD)
next
  case FalseExpr
  then show ?case using cmp_zero_type [OF FalseExpr.prems(3)] by (cases y) simp_all
next
  case TrueExpr
  then show ?case using cmp_zero_type [OF TrueExpr.prems(3)] by (cases y) simp_all
next
  case (DefinedExpr k)
  then show ?case using cmp_zero_type [OF DefinedExpr.prems(3)] by (cases y) (auto simp: cmp.simps dest: cmp_zeroD)
next
  case (NotExpr k)
  then show ?case using cmp_zero_type [OF NotExpr.prems(3)] by (cases y) (auto simp: cmp.simps dest: cmp_zeroD)
next
  case (InExpr k v)
  then show ?case using cmp_zero_type [OF InExpr.prems(3)] by (cases y) (auto simp: cmp.simps dest: cmp_zeroD)
next
  case (NotInExpr k v)
  then show ?case using cmp_zero_type [OF NotInExpr.prems(3)] by (cases y) (auto simp: cmp.simps dest: cmp_zeroD)
qed

lemma allElementsIncluded_loop_sound:
  "allElementsIncluded_loop E p q i j \<Longrightarrow> i \<le> length p \<Longrightarrow> \<forall>x \<in> set (drop i p). \<exists>y \<in> set q. cmp E x y = 0"
proof (induction E p q i j rule: allElementsIncluded_loop.induct)
  case (1 E p q i j)
  show ?case
  proof (cases "i < length p \<and> j < length q")
    case False
    with 1(3,4) show ?thesis by (auto simp: allElementsIncluded_loop.simps [of E p q i j])
  next
    case True
    then have d: "drop i p = p ! i # drop (Suc i) p" by (simp add: Cons_nth_drop_Suc)
    let ?r = "cmp E (p ! i) (q ! j)"
    have "\<not> ?r < 0" using 1(3) True by (auto simp: allElementsIncluded_loop.simps [of E p q i j] Let_def)
    then consider "?r = 0" | "\<not> ?r < 0" "?r \<noteq> 0" by blast
    then show ?thesis
    proof cases
      case 1
      with "1.prems" True have "allElementsIncluded_loop E p q (i + 1) (j + 1)"
        by (simp add: allElementsIncluded_loop.simps [of E p q i j] Let_def)
      from "1.IH"(1) [OF True refl _ _ this] 1 True
      have "\<forall>x \<in> set (drop (i + 1) p). \<exists>y \<in> set q. cmp E x y = 0" by simp
      moreover have "q ! j \<in> set q" using True by simp
      ultimately show ?thesis using 1 by (auto simp: d)
    next
      case 2
      with "1.prems" True have "allElementsIncluded_loop E p q i (j + 1)"
        by (simp add: allElementsIncluded_loop.simps [of E p q i j] Let_def)
      from "1.IH"(2) [OF True refl _ _ this] 2 True show ?thesis by simp
    qed
  qed
qed

lemma allElementsIncluded_sound:
  assumes "allElementsIncluded E p q" and "list_all comparable p" "list_all comparable q" and "x \<in> set p"
  obtains y where "y \<in> set q" "expr_equals x y"
proof -
  from allElementsIncluded_loop_sound [of E p q 0 0] assms obtain y where "y \<in> set q" "cmp E x y = 0"
    by (auto simp: allElementsIncluded_def)
  with assms cmp_zero_equals [of x y E] that show ?thesis by (auto simp: list_all_iff)
qed

lemma implies_evaluate:
  assumes inj: "inj_on regexp_source R"
  shows "implies E p q \<Longrightarrow> comparable p \<Longrightarrow> comparable q \<Longrightarrow> behaves E c R p \<Longrightarrow> behaves E c R q \<Longrightarrow>
    evaluate E c p \<Longrightarrow> evaluate E c q"
proof (induction E p q rule: implies.induct)
  case (1 E p q)
  note same = equals_evaluate [OF inj, of E c]
  show ?case
  proof (cases "p = FalseExpr \<or> q = TrueExpr")
    case True
    with "1.prems" show ?thesis by auto
  next
    case False
    note imp = "1.prems"(1) [unfolded implies.simps [of E p q]]
    consider (oo) ps m qs m' where "p = OrExpr ps m" "q = OrExpr qs m'"
      | (po) ps m where "p = OrExpr ps m" "or_terms q = None"
      | (qo) qs m where "or_terms p = None" "q = OrExpr qs m"
      | (aa) ps m qs m' where "p = AndExpr ps m" "q = AndExpr qs m'"
      | (pa) ps m where "p = AndExpr ps m" "or_terms q = None" "and_terms q = None"
      | (eq) "or_terms p = None" "or_terms q = None" "and_terms p = None"
      by (cases p; cases q) auto
    then show ?thesis
    proof cases
      case oo
      with imp False have inc: "allElementsIncluded E ps qs" by simp
      from oo "1.prems" obtain x where x: "x \<in> set ps" "evaluate E c x" by (auto simp: list_ex_iff)
      obtain y where "y \<in> set qs" "expr_equals x y"
        by (rule allElementsIncluded_sound [OF inc _ _ x(1)]) (use oo "1.prems" in simp_all)
      with same [of x y] oo "1.prems" x show ?thesis by (auto simp: list_all_iff list_ex_iff)
    next
      case po
      with imp False show ?thesis by simp
    next
      case qo
      with imp False obtain y where y: "y \<in> set qs" "implies E p y" by (auto simp: list_ex_iff)
      have "comparable y" "behaves E c R y" using qo y "1.prems" by (auto simp: list_all_iff)
      with "1.IH"(2) [OF False qo(1), of qs y] qo y "1.prems" have "evaluate E c y" by simp
      with qo y show ?thesis by (auto simp: list_ex_iff)
    next
      case aa
      with imp False have inc: "allElementsIncluded E qs ps" by simp
      have "evaluate E c x" if x: "x \<in> set qs" for x
      proof -
        obtain y where "y \<in> set ps" "expr_equals x y"
          by (rule allElementsIncluded_sound [OF inc _ _ x]) (use aa "1.prems" in simp_all)
        with same [of x y] aa "1.prems" x show ?thesis by (auto simp: list_all_iff)
      qed
      with aa show ?thesis by (simp add: list_all_iff)
    next
      case pa
      with imp False obtain x where x: "x \<in> set ps" "implies E x q" by (auto simp: list_ex_iff)
      have "comparable x" "behaves E c R x" "evaluate E c x" using pa x "1.prems" by (auto simp: list_all_iff)
      moreover have "or_terms p = None" "and_terms p = Some ps" using pa by simp_all
      ultimately show ?thesis using "1.IH"(1) [OF False _ pa(2) _ pa(3), of ps x] x "1.prems" by blast
    next
      case eq
      with imp False have "expr_equals p q" by simp
      with same "1.prems" show ?thesis by blast
    qed
  qed
qed

end
