(* ===== verification/Context_Termination.thy ===== *)
theory Context_Termination
  imports Context_Normalize
begin

text \<open>
  The normalising operations of \<open>src/vs/platform/contextkey/common/contextkey.ts\<close> return: from
  some bound on the depth of their calls on, they give a result and the result does not change.

  The locale \<open>negatable\<close> collects what is asked of a class of terms for the disjunctions over
  it to be built. It is instantiated for the single tests, for conjunctions of them, and for all
  well-formed expressions.
\<close>

subsection \<open>Computations that settle\<close>

definition settles :: "(nat \<Rightarrow> 'a outcome) \<Rightarrow> 'a \<Rightarrow> bool" where
  "settles f r \<longleftrightarrow> (\<exists>N. \<forall>n \<ge> N. f n = Inr r)"

lemma settles_const [simp, intro]: "settles (\<lambda>n. Inr r) r"
  by (simp add: settles_def)

lemma settles_Suc: "settles (\<lambda>n. f (Suc n)) r \<longleftrightarrow> settles f r"
proof
  assume "settles (\<lambda>n. f (Suc n)) r"
  then obtain N where "\<forall>n \<ge> N. f (Suc n) = Inr r" by (auto simp: settles_def)
  then have "\<forall>n \<ge> Suc N. f n = Inr r" by (metis Suc_le_D Suc_le_mono)
  then show "settles f r" by (auto simp: settles_def)
next
  assume "settles f r"
  then obtain N where "\<forall>n \<ge> N. f n = Inr r" by (auto simp: settles_def)
  then have "\<forall>n \<ge> N. f (Suc n) = Inr r" by simp
  then show "settles (\<lambda>n. f (Suc n)) r" by (auto simp: settles_def)
qed

lemma settles_bind:
  assumes "settles f x" and "settles (\<lambda>n. g n x) y"
  shows "settles (\<lambda>n. bindE (f n) (g n)) y"
proof -
  from assms obtain N M where "\<forall>n \<ge> N. f n = Inr x" "\<forall>n \<ge> M. g n x = Inr y"
    by (auto simp: settles_def)
  then have "\<forall>n \<ge> max N M. bindE (f n) (g n) = Inr y" by simp
  then show ?thesis unfolding settles_def by blast
qed

lemma settles_mapE:
  assumes "\<And>x. x \<in> set xs \<Longrightarrow> \<exists>t. settles (\<lambda>n. f n x) (Some t) \<and> P x t"
  shows "\<exists>ts. settles (\<lambda>n. mapE (f n) xs) (map Some ts) \<and> list_all2 P xs ts"
  using assms
proof (induction xs)
  case (Cons x xs)
  from Cons.prems obtain t where t: "settles (\<lambda>n. f n x) (Some t)" "P x t" by auto
  from Cons obtain ts where ts: "settles (\<lambda>n. mapE (f n) xs) (map Some ts)" "list_all2 P xs ts" by auto
  have "settles (\<lambda>n. mapE (f n) (x # xs)) (map Some (t # ts))"
    by (auto intro!: settles_bind [OF t(1)] settles_bind [OF ts(1)])
  with t ts show ?case by blast
qed auto

lemma settles_complement_among:
  assumes "settles negated (Some z)"
  shows "\<exists>b. settles (\<lambda>n. complement_among (negated n) ys) b"
proof (induction ys)
  case (Cons y ys)
  then obtain b where b: "settles (\<lambda>n. complement_among (negated n) ys) b" by blast
  have "settles (\<lambda>n. complement_among (negated n) (y # ys)) (if expr_equals z y then True else b)"
    using b by (auto intro!: settles_bind [OF assms])
  then show ?case by blast
qed auto

lemma settles_has_complement:
  assumes "\<And>x. x \<in> set xs \<Longrightarrow> \<exists>z. settles (\<lambda>n. neg n x) (Some z)"
  shows "\<exists>b. settles (\<lambda>n. has_complement (neg n) xs) b"
  using assms
proof (induction xs)
  case (Cons x xs)
  from Cons.prems obtain z where "settles (\<lambda>n. neg n x) (Some z)" by auto
  from settles_complement_among [OF this] obtain a
    where a: "settles (\<lambda>n. complement_among (neg n x) xs) a" by blast
  from Cons obtain b where b: "settles (\<lambda>n. has_complement (neg n) xs) b" by auto
  have "settles (\<lambda>n. has_complement (neg n) (x # xs)) (if a then True else b)"
    using b by (auto intro!: settles_bind [OF a])
  then show ?case by blast
qed auto

subsection \<open>Weights\<close>

text \<open>The number of conjunctions that an expression multiplies out to.\<close>

fun weight :: "ContextKeyExpression \<Rightarrow> nat" where
  "weight (AndExpr es _) = prod_list (map weight es)"
| "weight (OrExpr es _) = sum_list (map weight es)"
| "weight _ = 1"

abbreviation sum_weight :: "ContextKeyExpression list \<Rightarrow> nat" where
  "sum_weight es \<equiv> sum_list (map weight es)"

abbreviation prod_weight :: "ContextKeyExpression list \<Rightarrow> nat" where
  "prod_weight es \<equiv> prod_list (map weight es)"

lemma total_sort [simp]: "sum_weight (js_sort c es) = sum_weight es"
  by (metis mset_js_sort mset_map sum_mset_sum_list)

lemma product_sort [simp]: "prod_weight (js_sort c es) = prod_weight es"
  by (metis mset_js_sort mset_map prod_mset_prod_list)

lemma eliminate_duplicates_weights:
  assumes "list_all (\<lambda>x. 1 \<le> weight x) xs"
  shows "sum_weight (eliminate_duplicates xs) \<le> sum_weight xs" and "prod_weight (eliminate_duplicates xs) \<le> prod_weight xs"
  using assms
proof (induction xs rule: eliminate_duplicates.induct)
  case (1 x y xs)
  {
    case 1
    then show ?case using "1.IH" by auto
  next
    case 2
    have "weight x * prod_weight xs \<le> weight x * (weight y * prod_weight xs)" using 2 by simp
    then show ?case using 2 "1.IH" by (auto intro: order_trans)
  }
qed simp_all

lemma eliminate_duplicates_all:
  "list_all P xs \<Longrightarrow> list_all P (eliminate_duplicates xs)" "eliminate_duplicates xs = [] \<longleftrightarrow> xs = []"
  by (induction xs rule: eliminate_duplicates.induct) auto

subsection \<open>Disjunctions\<close>

definition disjunction :: "(ContextKeyExpression \<Rightarrow> bool) \<Rightarrow> ContextKeyExpression \<Rightarrow> bool" where
  "disjunction F x \<longleftrightarrow> getTerminals x \<noteq> [] \<and> list_all F (getTerminals x)"

lemma disjunction_simps [simp]:
  "disjunction F (OrExpr es m) \<longleftrightarrow> es \<noteq> [] \<and> list_all F es"
  "or_terms x = None \<Longrightarrow> disjunction F x = F x"
  by (simp_all add: disjunction_def getTerminals_def)

locale negatable =
  fixes E :: env and F :: "ContextKeyExpression \<Rightarrow> bool"
  assumes constants_in: "F TrueExpr" "F FalseExpr"
    and weight_pos: "F x \<Longrightarrow> 1 \<le> weight x"
    and terminals_in: "F x \<Longrightarrow> disjunction F x"
    and negation_settles: "F x \<Longrightarrow> \<exists>z. settles (\<lambda>n. negate E n x) (Some z)"
begin

lemma weight_disjunction: "disjunction F x \<Longrightarrow> 1 \<le> weight x"
proof (cases "or_terms x")
  case (Some es)
  moreover assume "disjunction F x"
  ultimately show ?thesis
    by (cases es) (fastforce simp: or_terms_Some dest: weight_pos)+
qed (auto dest: weight_pos)

lemma total_pos: "list_all (disjunction F) xs \<Longrightarrow> xs \<noteq> [] \<Longrightarrow> 1 \<le> sum_weight xs"
  using weight_disjunction by (cases xs) (auto intro: trans_le_add1)

lemma or_flatten_in:
  assumes "list_all (disjunction F) (members arr)" and "list_all F acc"
  shows "case or_flatten arr acc h of
      None \<Rightarrow> members arr \<noteq> []
    | Some (expr, h') \<Rightarrow> list_all F expr \<and> sum_weight expr \<le> sum_weight acc + sum_weight (members arr)
        \<and> (expr = [] \<longrightarrow> acc = [] \<and> (h' \<or> members arr = [])) \<and> (h' \<longrightarrow> h \<or> members arr \<noteq> []) \<and> (h \<longrightarrow> h')"
  using assms
proof (induction arr acc h rule: or_flatten.induct)
  case (3 e arr expr h)
  show ?case by (cases e) (use 3 in \<open>auto simp del: sum_list_eq_0_iff split: option.splits\<close>)
qed (auto split: option.splits)

lemma Or_create_settles:
  assumes arr: "list_all (disjunction F) (members arr)"
  shows "\<exists>r. settles (\<lambda>n. Or_create E n arr negated extra) r \<and>
    (case r of None \<Rightarrow> members arr = []
     | Some x \<Rightarrow> (F x \<or> (\<exists>es. x = OrExpr es negated \<and> 2 \<le> length es \<and> list_all F es))
         \<and> weight x \<le> sum_weight (members arr))"
proof -
  have *: ?thesis if "settles (\<lambda>n. or_normalizeArr E (\<lambda>x. negate E n x) arr negated extra) r"
    and "case r of None \<Rightarrow> members arr = []
     | Some x \<Rightarrow> (F x \<or> (\<exists>es. x = OrExpr es negated \<and> 2 \<le> length es \<and> list_all F es))
         \<and> weight x \<le> sum_weight (members arr)" for r
    using that settles_Suc [of "\<lambda>n. Or_create E n arr negated extra" r] by auto
  show ?thesis
  proof (cases "or_flatten arr [] False")
    case None
    with or_flatten_in [OF arr, of "[]" False] total_pos [OF arr] show ?thesis
      by (intro * [of "Some TrueExpr"]) (auto simp: or_normalizeArr_def constants_in)
  next
    case (Some p)
    obtain expr h where p: "p = (expr, h)" by (cases p)
    with Some or_flatten_in [OF arr, of "[]" False]
    have expr: "list_all F expr" "sum_weight expr \<le> sum_weight (members arr)" "expr = [] \<longrightarrow> h \<or> members arr = []"
      "h \<longrightarrow> members arr \<noteq> []"
      by simp_all
    let ?s = "js_sort (cmp E) expr"
    let ?d = "eliminate_duplicates ?s"
    have s: "list_all F ?s" "sum_weight ?s = sum_weight expr" using expr by (simp_all add: list_all_iff)
    then have "list_all (\<lambda>x. 1 \<le> weight x) ?s" using weight_pos by (auto simp: list_all_iff)
    with s eliminate_duplicates_all(1) [OF s(1)] eliminate_duplicates_weights(1) [of ?s]
    have d: "list_all F ?d" "sum_weight ?d \<le> sum_weight expr" by simp_all
    have hd: "F (hd xs) \<and> weight (hd xs) \<le> sum_weight xs" if "list_all F xs" "length xs = 1" for xs
      using that by (cases xs) auto
    consider "expr = []" | "expr \<noteq> []" "length ?s = 1" | "expr \<noteq> []" "length ?s \<noteq> 1" "length ?d = 1"
      | "expr \<noteq> []" "length ?s \<noteq> 1" "length ?d \<noteq> 1"
      by argo
    then show ?thesis
    proof cases
      case 1
      with expr total_pos [OF arr] show ?thesis
        by (intro * [of "if h then Some FalseExpr else None"])
          (auto simp: or_normalizeArr_def Some p constants_in)
    next
      case 2
      with hd [OF s(1)] s expr show ?thesis
        by (intro * [of "Some (hd ?s)"]) (auto simp: or_normalizeArr_def Some p)
    next
      case 3
      with hd [OF d(1)] d expr show ?thesis
        by (intro * [of "Some (hd ?d)"]) (auto simp: or_normalizeArr_def Some p)
    next
      case 4
      have "\<exists>b. settles (\<lambda>n. if extra then has_complement (\<lambda>x. negate E n x) ?d else Inr False) b"
        using settles_has_complement [of ?d "negate E"] negation_settles d(1)
        by (cases extra) (auto simp: list_all_iff)
      then obtain b where b: "settles (\<lambda>n. if extra then has_complement (\<lambda>x. negate E n x) ?d else Inr False) b"
        by blast
      have "settles (\<lambda>n. or_normalizeArr E (\<lambda>x. negate E n x) arr negated extra)
          (Some (if b then TrueExpr else OrExpr ?d negated))"
        using 4 by (auto simp: or_normalizeArr_def Some p Let_def intro!: settles_bind [OF b])
      moreover have "?d \<noteq> []" using 4(1) eliminate_duplicates_all(2) [of ?s] length_js_sort [of "cmp E" expr]
        by (metis length_0_conv)
      then have "2 \<le> length ?d" using 4 by (cases ?d; cases "tl ?d") auto
      moreover have "1 \<le> sum_weight expr" using 4(1) expr(1) by (cases expr) (fastforce dest: weight_pos)+
      ultimately show ?thesis using d expr by (intro *) (auto simp: constants_in simp del: sum_list_eq_0_iff)
    qed
  qed
qed

end

subsection \<open>Negations\<close>

fun simple :: "ContextKeyExpression \<Rightarrow> bool" where
  "simple (AndExpr _ _) = False"
| "simple (OrExpr _ _) = False"
| "simple _ = True"

lemma simple_terms: "simple x \<Longrightarrow> or_terms x = None \<and> and_terms x = None"
  by (cases x) simp_all

lemma simple_created [simp]:
  "simple (Defined_create E k)" "simple (Not_create E k)"
  "simple (Equals_create E k v)" "simple (NotEquals_create E k v)"
  "simple (Greater_create k v)" "simple (GreaterEquals_create k v)"
  "simple (Smaller_create k v)" "simple (SmallerEquals_create k v)"
  by (auto simp: Defined_create_def Not_create_def Equals_create_def NotEquals_create_def Greater_create_def
      GreaterEquals_create_def Smaller_create_def SmallerEquals_create_def withFloatOrStr_def Let_def
      split: option.splits js_value.splits)

lemma negate_simple: "simple x \<Longrightarrow> \<exists>z. settles (\<lambda>n. negate E n x) (Some z) \<and> simple z"
  unfolding settles_Suc [of "\<lambda>n. negate E n x", symmetric] by (cases x) auto

lemma negate_distribute_pair:
  "negate_distribute and2 or_c (Some l # Some r # rest) =
     bindE (mapE (\<lambda>(left, right). and2 left right) (List.product (getTerminals l) (getTerminals r))) (\<lambda>terms.
     bindE (or_c terms) (\<lambda>d. negate_distribute and2 or_c (d # rest)))"
  by (subst negate_distribute.simps) simp

text \<open>
  A class of terms whose pairwise conjunctions are disjunctions over it again. The negation of an
  expression is a disjunction over the class if what the expression remembers is one.
\<close>

locale pairable = negatable +
  assumes simple_in: "simple x \<Longrightarrow> F x"
    and pair_settles: "F a \<Longrightarrow> F b \<Longrightarrow>
      \<exists>t. settles (\<lambda>n. And_create E n [Some a, Some b] None False) (Some t) \<and> disjunction F t"
begin

lemma Or_create_disjunction:
  assumes "list_all (disjunction F) ts" and "ts \<noteq> []"
  shows "\<exists>r. settles (\<lambda>n. Or_create E n (map Some ts) negated b) (Some r) \<and> disjunction F r \<and>
    (F r \<or> (\<exists>es. r = OrExpr es negated \<and> 2 \<le> length es \<and> list_all F es))"
proof -
  from Or_create_settles [of "map Some ts" negated b] assms obtain r
    where r: "settles (\<lambda>n. Or_create E n (map Some ts) negated b) r"
    "case r of None \<Rightarrow> members (map Some ts) = []
     | Some x \<Rightarrow> (F x \<or> (\<exists>es. x = OrExpr es negated \<and> 2 \<le> length es \<and> list_all F es))
         \<and> weight x \<le> sum_weight (members (map Some ts))" by auto
  with assms(2) obtain x where x: "r = Some x"
    "F x \<or> (\<exists>es. x = OrExpr es negated \<and> 2 \<le> length es \<and> list_all F es)" by (cases r) auto
  moreover from x(2) have "disjunction F x" by (auto dest: terminals_in)
  ultimately show ?thesis using r(1) by blast
qed

lemma negate_distribute_settles:
  assumes "list_all (disjunction F) xs" and "xs \<noteq> []"
  shows "\<exists>y. settles (\<lambda>n. negate_distribute (\<lambda>left right. And_create E n [Some left, Some right] None False)
    (\<lambda>terms. Or_create E n terms None False) (map Some xs)) [Some y] \<and> disjunction F y"
  using assms
proof (induction "length xs" arbitrary: xs rule: less_induct)
  case less
  let ?nd = "\<lambda>n. negate_distribute (\<lambda>left right. And_create E n [Some left, Some right] None False)
    (\<lambda>terms. Or_create E n terms None False)"
  show ?case
  proof (cases "length xs = 1")
    case True
    then obtain x where "xs = [x]" by (cases xs) auto
    with less.prems show ?thesis by (auto simp: negate_distribute.simps)
  next
    case False
    with less.prems(2) obtain l r rest where xs: "xs = l # r # rest"
      by (cases xs; cases "tl xs") auto
    with less.prems(1) have F: "disjunction F l" "disjunction F r" "list_all (disjunction F) rest" by simp_all
    let ?ps = "List.product (getTerminals l) (getTerminals r)"
    have "\<exists>ts. settles (\<lambda>n. mapE (\<lambda>(left, right). And_create E n [Some left, Some right] None False) ?ps) (map Some ts)
        \<and> list_all2 (\<lambda>p t. disjunction F t) ?ps ts"
      by (rule settles_mapE) (use F pair_settles in \<open>auto simp: disjunction_def list_all_iff\<close>)
    then obtain ts where ts: "settles (\<lambda>n. mapE (\<lambda>(left, right). And_create E n [Some left, Some right] None False) ?ps) (map Some ts)"
      "list_all2 (\<lambda>p t. disjunction F t) ?ps ts" by blast
    have "?ps \<noteq> []" using F by (metis disjunction_def length_0_conv length_product mult_eq_0_iff)
    with list_all2_lengthD [OF ts(2)] have "ts \<noteq> []" by (metis length_0_conv)
    moreover have "list_all (disjunction F) ts" using ts(2) by (simp add: list_all2_conv_all_nth list_all_length)
    ultimately obtain d
      where d: "settles (\<lambda>n. Or_create E n (map Some ts) None False) (Some d)" "disjunction F d"
      using Or_create_disjunction [of ts None False] by auto
    from less.hyps [of "d # rest"] d(2) F(3) obtain y
      where y: "settles (\<lambda>n. ?nd n (map Some (d # rest))) [Some y]" "disjunction F y" by (auto simp: xs)
    have "?nd n (map Some xs) =
        bindE (mapE (\<lambda>(left, right). And_create E n [Some left, Some right] None False) ?ps) (\<lambda>terms.
        bindE (Or_create E n terms None False) (\<lambda>d. ?nd n (d # map Some rest)))" for n
      by (simp add: xs negate_distribute_pair)
    then have "settles (\<lambda>n. ?nd n (map Some xs)) [Some y]"
      using y(1) by (auto intro!: settles_bind [OF ts(1)] settles_bind [OF d(1)])
    with y(2) show ?thesis by blast
  qed
qed

definition negation :: "ContextKeyExpression \<Rightarrow> ContextKeyExpression \<Rightarrow> bool" where
  "negation e z \<longleftrightarrow> disjunction F z \<and> (F z \<or> (\<exists>es. z = OrExpr es (Some e) \<and> 2 \<le> length es \<and> list_all F es))"

lemma negate_compound:
  assumes es: "\<And>x. x \<in> set es \<Longrightarrow> \<exists>z. settles (\<lambda>n. negate E n x) (Some z) \<and> disjunction F z" and "es \<noteq> []"
  shows "\<exists>z. settles (\<lambda>n. negate E n (AndExpr es None)) (Some z) \<and> negation (AndExpr es None) z"
    and "\<exists>z. settles (\<lambda>n. negate E n (OrExpr es None)) (Some z) \<and> negation (OrExpr es None) z"
proof -
  from settles_mapE [of es "negate E" "\<lambda>_. disjunction F"] es obtain ts
    where ts: "settles (\<lambda>n. mapE (negate E n) es) (map Some ts)" and "list_all2 (\<lambda>_. disjunction F) es ts" by auto
  with assms(2) have F: "list_all (disjunction F) ts" "ts \<noteq> []" by (auto simp: list_all2_conv_all_nth list_all_length)
  let ?a = "AndExpr es None" and ?o = "OrExpr es None"
  from Or_create_disjunction [OF F, of "Some ?a" True] obtain z
    where z: "settles (\<lambda>n. Or_create E n (map Some ts) (Some ?a) True) (Some z)" "negation ?a z"
    by (auto simp: negation_def)
  have "settles (\<lambda>n. negate E (Suc n) ?a) (Some z)" by (auto intro!: settles_bind [OF ts] z(1))
  then have "settles (\<lambda>n. negate E n ?a) (Some z)" by (rule settles_Suc [THEN iffD1])
  with z(2) show "\<exists>z. settles (\<lambda>n. negate E n ?a) (Some z) \<and> negation ?a z" by blast
  from negate_distribute_settles [OF F] obtain y
    where y: "settles (\<lambda>n. negate_distribute (\<lambda>left right. And_create E n [Some left, Some right] None False)
      (\<lambda>terms. Or_create E n terms None False) (map Some ts)) [Some y]" "disjunction F y" by blast
  from Or_create_disjunction [of "[y]" "Some ?o" True] y(2) obtain z
    where z: "settles (\<lambda>n. Or_create E n [Some y] (Some ?o) True) (Some z)" "negation ?o z"
    by (auto simp: negation_def)
  have "settles (\<lambda>n. negate E (Suc n) ?o) (Some z)"
    by (auto intro!: settles_bind [OF ts] settles_bind [OF y(1)] z(1))
  then have "settles (\<lambda>n. negate E n ?o) (Some z)" by (rule settles_Suc [THEN iffD1])
  with z(2) show "\<exists>z. settles (\<lambda>n. negate E n ?o) (Some z) \<and> negation ?o z" by blast
qed

end

subsection \<open>Conjunctions\<close>

text \<open>
  The weights bound the distribution: a term of a disjunction weighs less than the disjunction.
\<close>

locale closed_class = negatable +
  assumes conj_in: "list_all F es \<Longrightarrow> 2 \<le> length es \<Longrightarrow> F (AndExpr es None)"
    and disj_in: "list_all F es \<Longrightarrow> 2 \<le> length es \<Longrightarrow> F (OrExpr es None)"
    and conj_out: "F (AndExpr es m) \<Longrightarrow> es \<noteq> [] \<and> list_all F es"
    and disj_out: "F (OrExpr es m) \<Longrightarrow> 2 \<le> length es"
begin

lemma total_gt:
  assumes F: "list_all F es" and l: "2 \<le> length es" and x: "x \<in> set es"
  shows "weight x < sum_weight es"
proof -
  from x obtain as bs where es: "es = as @ x # bs" by (meson split_list)
  with l have "as @ bs \<noteq> []" by auto
  then obtain y where y: "y \<in> set (as @ bs)" by (cases "as @ bs") auto
  with F es have "F y" by (auto simp: list_all_iff)
  then have "1 \<le> weight y" by (rule weight_pos)
  moreover have "weight y \<le> sum_weight (as @ bs)" using y by (intro member_le_sum_list) auto
  ultimately have "1 \<le> sum_weight (as @ bs)" by (rule order_trans)
  then have "0 < sum_weight as + sum_weight bs" by (simp del: add_gr_0)
  then show ?thesis unfolding es map_append list.map sum_list.append sum_list.Cons by linarith
qed

lemma product_pos: "list_all F es \<Longrightarrow> 1 \<le> prod_weight es"
  by (induction es) (auto dest: weight_pos simp: Suc_le_eq)

lemma and_flatten_in:
  assumes "list_all F (members arr)" and "list_all F acc"
  shows "case and_flatten arr acc h of
      None \<Rightarrow> members arr \<noteq> []
    | Some (expr, h') \<Rightarrow> list_all F expr \<and> prod_weight expr = prod_weight acc * prod_weight (members arr)
        \<and> (expr = [] \<longrightarrow> acc = [] \<and> (h' \<or> members arr = [])) \<and> (h' \<longrightarrow> h \<or> members arr \<noteq> []) \<and> (h \<longrightarrow> h')"
  using assms
proof (induction arr acc h rule: and_flatten.induct)
  case (3 e arr expr h)
  show ?case
    by (cases e) (use 3 conj_out in \<open>auto simp del: prod_list_zero_iff split: option.splits\<close>)
qed (auto split: option.splits)

lemma distribute_settles:
  assumes and2: "\<And>a b. F a \<Longrightarrow> F b \<Longrightarrow> weight a * weight b < B \<Longrightarrow>
      \<exists>t. settles (\<lambda>n. and2 n a b) (Some t) \<and> F t \<and> weight t \<le> weight a * weight b"
    and or_c: "\<And>ts b. list_all F ts \<Longrightarrow> ts \<noteq> [] \<Longrightarrow>
      \<exists>r. settles (\<lambda>n. or_c n (map Some ts) b) (Some r) \<and> F r \<and> weight r \<le> sum_weight ts"
    and "list_all F expr" "expr \<noteq> []" "prod_weight expr \<le> B"
  shows "\<exists>expr'. settles (\<lambda>n. distribute E (and2 n) (or_c n) expr) expr' \<and> list_all F expr'
    \<and> expr' \<noteq> [] \<and> prod_weight expr' \<le> prod_weight expr"
  using assms(3-5)
proof (induction "length expr" arbitrary: expr rule: less_induct)
  case less
  show ?case
  proof (cases "length expr > 1 \<and> or_terms (last expr) \<noteq> None")
    case False
    then have "distribute E (and2 n) (or_c n) expr = Inr expr" for n
      by (auto simp: distribute.simps [of E "and2 n" "or_c n" expr])
    with less.prems show ?thesis by auto
  next
    case True
    then obtain rest s l where expr: "expr = rest @ [s, l]"
      by (cases expr rule: rev_cases; cases "butlast expr" rule: rev_cases) auto
    from True obtain es m where l: "l = OrExpr es m" by (auto simp: expr or_terms_Some)
    with less.prems(1) have F: "F (OrExpr es m)" "F s" "list_all F rest" by (simp_all add: expr)
    from terminals_in [OF F(1)] disj_out [OF F(1)] have es: "list_all F es" "2 \<le> length es" by simp_all
    have B: "prod_weight rest * (weight s * sum_weight es) \<le> B" using less.prems(3) by (simp add: expr l mult.assoc)
    have pos: "1 \<le> prod_weight rest" "1 \<le> weight s" using product_pos [OF F(3)] weight_pos [OF F(2)] by simp_all
    have small: "weight x * weight s < B" if "x \<in> set es" for x
    proof -
      have "weight x * weight s < sum_weight es * weight s" using total_gt [OF es that] pos by simp
      also have "\<dots> \<le> prod_weight rest * (weight s * sum_weight es)" using pos by (simp add: mult.commute)
      finally show ?thesis using B by (rule less_le_trans)
    qed
    have "\<exists>ts. settles (\<lambda>n. mapE (\<lambda>el. and2 n el s) es) (map Some ts) \<and>
        list_all2 (\<lambda>x t. F t \<and> weight t \<le> weight x * weight s) es ts"
      by (rule settles_mapE) (use and2 small F es in \<open>auto simp: list_all_iff\<close>)
    then obtain ts where ts: "settles (\<lambda>n. mapE (\<lambda>el. and2 n el s) es) (map Some ts)"
      "list_all2 (\<lambda>x t. F t \<and> weight t \<le> weight x * weight s) es ts" by blast
    from ts(2) have tsF: "list_all F ts" "sum_weight ts \<le> sum_weight es * weight s"
      by (induction rule: list_all2_induct) (auto simp: add_mult_distrib)
    have "ts \<noteq> []" using ts(2) es(2) by auto
    from or_c [OF tsF(1) this, of "rest = []"] obtain r
      where r: "settles (\<lambda>n. or_c n (map Some ts) (rest = [])) (Some r)" "F r" "weight r \<le> sum_weight ts" by blast
    let ?next = "js_sort (cmp E) (rest @ [r])"
    have next_F: "list_all F ?next" using F r by (simp add: list_all_iff del: js_sort_simps)
    have le: "prod_weight ?next \<le> prod_weight expr"
    proof -
      have "weight r \<le> weight s * sum_weight es" using r(3) tsF(2) by (simp add: mult.commute)
      then show ?thesis by (simp add: expr l mult.assoc del: js_sort_simps)
    qed
    have "?next \<noteq> []" by (metis append_is_Nil_conv length_0_conv length_js_sort not_Cons_self2)
    with less.hyps [OF _ next_F _ order_trans [OF le less.prems(3)]] obtain expr'
      where e': "settles (\<lambda>n. distribute E (and2 n) (or_c n) ?next) expr'"
        "list_all F expr'" "expr' \<noteq> []" "prod_weight expr' \<le> prod_weight ?next"
      by (auto simp: expr simp del: js_sort_simps prod_list.append)
    have "distribute E (and2 n) (or_c n) expr =
        bindE (mapE (\<lambda>el. and2 n el s) es) (\<lambda>terms. bindE (or_c n terms (rest = [])) (\<lambda>resultElement.
          case resultElement of Some r \<Rightarrow> distribute E (and2 n) (or_c n) (js_sort (cmp E) (rest @ [r]))
          | None \<Rightarrow> distribute E (and2 n) (or_c n) rest))" for n
      unfolding distribute.simps [of E "and2 n" "or_c n" expr]
      by (simp add: expr l butlast_append Let_def del: js_sort_simps)
    then have "settles (\<lambda>n. distribute E (and2 n) (or_c n) expr) expr'"
      using e'(1) by (auto intro!: settles_bind [OF ts(1)] settles_bind [OF r(1)] simp del: js_sort_simps)
    with e' le show ?thesis by (meson order_trans)
  qed
qed

lemma Or_create_in:
  assumes "list_all F (members arr)" and "members arr \<noteq> []"
  shows "\<exists>r. settles (\<lambda>n. Or_create E n arr None b) (Some r) \<and> F r \<and> weight r \<le> sum_weight (members arr)"
proof -
  have "list_all (disjunction F) (members arr)" using assms terminals_in by (simp add: list_all_iff)
  from Or_create_settles [OF this, of None b] obtain r where r: "settles (\<lambda>n. Or_create E n arr None b) r"
    "case r of None \<Rightarrow> members arr = []
     | Some x \<Rightarrow> (F x \<or> (\<exists>es. x = OrExpr es None \<and> 2 \<le> length es \<and> list_all F es)) \<and> weight x \<le> sum_weight (members arr)"
    by blast
  with assms disj_in show ?thesis by (cases r) auto
qed

lemma And_create_settles:
  assumes "list_all F (members arr)"
  shows "\<exists>r. settles (\<lambda>n. And_create E n arr negated extra) r \<and>
    (case r of None \<Rightarrow> members arr = []
     | Some x \<Rightarrow> (F x \<or> (\<exists>es. x = AndExpr es negated \<and> 2 \<le> length es \<and> list_all F es))
         \<and> weight x \<le> prod_weight (members arr))"
  using assms
proof (induction "prod_weight (members arr)" arbitrary: arr negated extra rule: less_induct)
  case less
  note arr = less.prems
  let ?ok = "\<lambda>r. case r of None \<Rightarrow> members arr = []
     | Some x \<Rightarrow> (F x \<or> (\<exists>es. x = AndExpr es negated \<and> 2 \<le> length es \<and> list_all F es))
         \<and> weight x \<le> prod_weight (members arr)"
  let ?and = "\<lambda>n xs b. And_create E n xs None b" and ?or = "\<lambda>n xs b. Or_create E n xs None b"
  let ?run = "\<lambda>n. and_normalizeArr E (\<lambda>x. negate E n x) (?and n) (?or n) arr negated extra"
  have *: ?case if "settles ?run r" "?ok r" for r
    using that settles_Suc [of "\<lambda>n. And_create E n arr negated extra" r] by auto
  have pos: "1 \<le> prod_weight (members arr)" by (rule product_pos [OF arr])
  show ?case
  proof (cases "and_flatten arr [] False")
    case None
    with pos show ?thesis by (intro * [of "Some FalseExpr"]) (auto simp: and_normalizeArr_def constants_in)
  next
    case (Some p)
    obtain expr h where p: "p = (expr, h)" by (cases p)
    with Some and_flatten_in [OF arr, of "[]" False]
    have expr: "list_all F expr" "prod_weight expr = prod_weight (members arr)" "expr = [] \<longrightarrow> h \<or> members arr = []"
      by simp_all
    let ?s = "js_sort (cmp E) expr"
    let ?d = "eliminate_duplicates ?s"
    have s: "list_all F ?s" "prod_weight ?s = prod_weight expr" using expr by (simp_all add: list_all_iff)
    then have "list_all (\<lambda>x. 1 \<le> weight x) ?s" using weight_pos by (auto simp: list_all_iff)
    with s eliminate_duplicates_all(1) [OF s(1)] eliminate_duplicates_weights(2) [of ?s]
    have d: "list_all F ?d" "prod_weight ?d \<le> prod_weight expr" by simp_all
    have hd: "F (hd xs) \<and> weight (hd xs) \<le> prod_weight xs" if "list_all F xs" "length xs = 1" for xs
      using that by (cases xs) auto
    consider "expr = []" | "expr \<noteq> []" "length expr = 1" | "expr \<noteq> []" "length expr \<noteq> 1" "length ?d = 1"
      | "expr \<noteq> []" "length expr \<noteq> 1" "length ?d \<noteq> 1"
      by argo
    then show ?thesis
    proof cases
      case 1
      with expr pos show ?thesis
        by (intro * [of "if h then Some TrueExpr else None"])
          (auto simp: and_normalizeArr_def Some p constants_in)
    next
      case 2
      with hd [OF expr(1)] expr show ?thesis
        by (intro * [of "Some (hd expr)"]) (auto simp: and_normalizeArr_def Some p)
    next
      case 3
      with hd [OF d(1)] d expr show ?thesis
        by (intro * [of "Some (hd ?d)"]) (auto simp: and_normalizeArr_def Some p)
    next
      case 4
      have "?d \<noteq> []" using 4(1) eliminate_duplicates_all(2) [of ?s] length_js_sort [of "cmp E" expr]
        by (metis length_0_conv)
      have "\<exists>t. settles (\<lambda>n. ?and n [Some a, Some b] extra) (Some t) \<and> F t \<and> weight t \<le> weight a * weight b"
        if "F a" "F b" "weight a * weight b < prod_weight (members arr)" for a b
      proof -
        from less.hyps [of "[Some a, Some b]" None extra] that obtain r
          where "settles (\<lambda>n. ?and n [Some a, Some b] extra) r"
          "case r of None \<Rightarrow> members [Some a, Some b] = []
           | Some x \<Rightarrow> (F x \<or> (\<exists>es. x = AndExpr es None \<and> 2 \<le> length es \<and> list_all F es))
              \<and> weight x \<le> prod_weight (members [Some a, Some b])" by auto
        with conj_in show ?thesis by (cases r) auto
      qed
      moreover have "\<exists>r. settles (\<lambda>n. ?or n (map Some ts) b) (Some r) \<and> F r \<and> weight r \<le> sum_weight ts"
        if "list_all F ts" "ts \<noteq> []" for ts b
        using Or_create_in [of "map Some ts" b] that by simp
      ultimately obtain e' where e': "settles (\<lambda>n. distribute E (\<lambda>el second. ?and n [Some el, Some second] extra) (?or n) ?d) e'"
        "list_all F e'" "e' \<noteq> []" "prod_weight e' \<le> prod_weight ?d"
        using distribute_settles [of "prod_weight (members arr)" "\<lambda>n el second. ?and n [Some el, Some second] extra" ?or ?d]
          d expr \<open>?d \<noteq> []\<close> by auto
      have "\<exists>b. settles (\<lambda>n. if extra then has_complement (\<lambda>x. negate E n x) e' else Inr False) b"
        using settles_has_complement [of e' "negate E"] negation_settles e'(2)
        by (cases extra) (auto simp: list_all_iff)
      then obtain b where b: "settles (\<lambda>n. if extra then has_complement (\<lambda>x. negate E n x) e' else Inr False) b"
        by blast
      let ?r = "if length e' = 1 then hd e' else if b then FalseExpr else AndExpr e' negated"
      have "settles ?run (Some ?r)"
        using 4 by (auto simp: and_normalizeArr_def Some p Let_def intro!: settles_bind [OF e'(1)] settles_bind [OF b])
      moreover have "2 \<le> length e'" if "length e' \<noteq> 1" using that e'(3) by (cases e'; cases "tl e'") auto
      ultimately show ?thesis using e' d expr pos hd [OF e'(2)]
        by (intro * [of "Some ?r"]) (auto simp: constants_in)
    qed
  qed
qed

end

subsection \<open>Single tests and their conjunctions\<close>

interpretation simple: negatable E simple for E
proof
  show "disjunction simple x" if "simple x" for x using that simple_terms [OF that] by simp
  show "1 \<le> weight x" if "simple x" for x using that by (cases x) simp_all
  show "\<exists>z. settles (\<lambda>n. negate E n x) (Some z)" if "simple x" for x using negate_simple [OF that] by blast
qed simp_all

fun flat :: "ContextKeyExpression \<Rightarrow> bool" where
  "flat (AndExpr es m) \<longleftrightarrow> es \<noteq> [] \<and> m = None \<and> list_all simple es"
| "flat (OrExpr _ _) = False"
| "flat _ = True"

lemma flat_cases: "flat x \<Longrightarrow> simple x \<or> (\<exists>es. x = AndExpr es None \<and> es \<noteq> [] \<and> list_all simple es)"
  by (cases x) auto

lemma simple_flat: "simple x \<Longrightarrow> flat x"
  by (cases x) simp_all

lemma flat_terms: "flat x \<Longrightarrow> or_terms x = None"
  by (cases x) simp_all

lemma weight_flat: "flat x \<Longrightarrow> weight x = 1"
proof -
  have "prod_weight es = 1" if "list_all simple es" for es
    using that by (induction es) (auto dest: simple.weight_pos simple_terms elim: simple.elims)
  then show "flat x \<Longrightarrow> weight x = 1" by (cases x) auto
qed

lemma negate_flat: "flat x \<Longrightarrow> \<exists>z. settles (\<lambda>n. negate E n x) (Some z)"
proof (cases "simple x")
  case True
  then show ?thesis using negate_simple by blast
next
  case False
  assume "flat x"
  with False flat_cases obtain es where x: "x = AndExpr es None" "es \<noteq> []" "list_all simple es" by blast
  have "\<exists>t. settles (\<lambda>n. negate E n y) (Some t) \<and> disjunction simple t" if "y \<in> set es" for y
    using that x(3) negate_simple [of y E] simple.terminals_in by (auto simp: list_all_iff)
  then obtain ts where ts: "settles (\<lambda>n. mapE (negate E n) es) (map Some ts)"
    "list_all2 (\<lambda>_. disjunction simple) es ts"
    using settles_mapE [of es "negate E" "\<lambda>_. disjunction simple"] by auto
  have "list_all (disjunction simple) (members (map Some ts))" "ts \<noteq> []"
    using ts(2) x(2) by (auto simp: list_all2_conv_all_nth list_all_length)
  with simple.Or_create_settles [of "map Some ts" E "Some x" True] obtain z
    where "settles (\<lambda>n. Or_create E n (map Some ts) (Some x) True) (Some z)" by (auto split: option.splits)
  then have "settles (\<lambda>n. negate E (Suc n) x) (Some z)"
    using x by (auto intro!: settles_bind [OF ts(1)])
  then have "settles (\<lambda>n. negate E n x) (Some z)" by (rule settles_Suc [THEN iffD1])
  then show ?thesis by blast
qed

lemma and_flatten_flat:
  assumes "list_all flat (members arr)" and "list_all simple acc"
  shows "case and_flatten arr acc h of
      None \<Rightarrow> True
    | Some (expr, h') \<Rightarrow> list_all simple expr \<and> (expr = [] \<longrightarrow> acc = [] \<and> (h' \<or> members arr = [])) \<and> (h \<longrightarrow> h')"
  using assms
proof (induction arr acc h rule: and_flatten.induct)
  case (3 e arr expr h)
  show ?case by (cases e) (use 3 in \<open>auto split: option.splits\<close>)
qed (auto split: option.splits)

lemma distribute_simple: "list_all simple xs \<Longrightarrow> distribute E and2 or_c xs = Inr xs"
proof -
  assume "list_all simple xs"
  then have "or_terms (last xs) = None" if "1 < length xs"
    using that simple_terms [of "last xs"] by (cases xs) (auto simp: list_all_iff)
  then show ?thesis by (subst distribute.simps) auto
qed

lemma pair_flat:
  assumes "flat a" "flat b"
  shows "\<exists>t. settles (\<lambda>n. And_create E n [Some a, Some b] None False) (Some t) \<and> flat t"
proof -
  let ?run = "\<lambda>n. and_normalizeArr E (\<lambda>x. negate E n x) (\<lambda>xs b. And_create E n xs None b)
    (\<lambda>xs b. Or_create E n xs None b) [Some a, Some b] None False"
  have *: ?thesis if "\<And>n. ?run n = Inr (Some t)" "flat t" for t
  proof -
    have "settles (\<lambda>n. And_create E (Suc n) [Some a, Some b] None False) (Some t)" by (simp add: that)
    then have "settles (\<lambda>n. And_create E n [Some a, Some b] None False) (Some t)" by (rule settles_Suc [THEN iffD1])
    with that(2) show ?thesis by blast
  qed
  show ?thesis
  proof (cases "and_flatten [Some a, Some b] [] False")
    case None
    then show ?thesis by (intro * [of FalseExpr]) (simp_all add: and_normalizeArr_def del: and_flatten.simps)
  next
    case (Some p)
    obtain expr h where p: "p = (expr, h)" by (cases p)
    with Some and_flatten_flat [of "[Some a, Some b]" "[]" False] assms
    have expr: "list_all simple expr" "expr = [] \<longrightarrow> h" by simp_all
    let ?d = "eliminate_duplicates (js_sort (cmp E) expr)"
    have d: "list_all simple ?d" using expr by (intro eliminate_duplicates_all(1)) (simp add: list_all_iff)
    have hd: "flat (hd xs)" if "list_all simple xs" "length xs = 1" for xs
      using that by (cases xs) (auto dest: simple_flat)
    consider "expr = []" | "expr \<noteq> []" "length expr = 1" | "expr \<noteq> []" "length expr \<noteq> 1" "length ?d = 1"
      | "expr \<noteq> []" "length expr \<noteq> 1" "length ?d \<noteq> 1"
      by argo
    then show ?thesis
    proof cases
      case 1
      with expr show ?thesis by (intro * [of TrueExpr]) (simp_all add: and_normalizeArr_def Some p del: and_flatten.simps)
    next
      case 2
      with hd [OF expr(1)] show ?thesis by (intro * [of "hd expr"]) (simp_all add: and_normalizeArr_def Some p del: and_flatten.simps)
    next
      case 3
      with hd [OF d] show ?thesis by (intro * [of "hd ?d"]) (simp_all add: and_normalizeArr_def Some p del: and_flatten.simps)
    next
      case 4
      have "?d \<noteq> []" using 4(1) eliminate_duplicates_all(2) length_js_sort [of "cmp E" expr]
        by (metis length_0_conv)
      with 4 d show ?thesis
        by (intro * [of "AndExpr ?d None"]) (simp_all add: and_normalizeArr_def Some p Let_def distribute_simple
          del: and_flatten.simps)
    qed
  qed
qed

interpretation flat: pairable E flat for E
proof
  show "disjunction flat x" if "flat x" for x using that flat_terms [OF that] by simp
  show "1 \<le> weight x" if "flat x" for x by (simp add: weight_flat [OF that])
  show "\<exists>z. settles (\<lambda>n. negate E n x) (Some z)" if "flat x" for x using that by (rule negate_flat)
  show "flat x" if "simple x" for x using that by (rule simple_flat)
  show "\<exists>t. settles (\<lambda>n. And_create E n [Some a, Some b] None False) (Some t) \<and> disjunction flat t"
    if "flat a" "flat b" for a b
    using pair_flat [OF that] flat_terms by fastforce
qed simp_all

subsection \<open>Well-formed expressions\<close>

text \<open>
  A conjunction is not empty and a disjunction has two elements. \<open>wf_depth d\<close> bounds how deeply
  remembered negations are nested.
\<close>

fun well_formed :: "ContextKeyExpression \<Rightarrow> bool" where
  "well_formed (AndExpr es negated) \<longleftrightarrow> es \<noteq> [] \<and> list_all well_formed es \<and>
     (case negated of Some x \<Rightarrow> well_formed x | None \<Rightarrow> True)"
| "well_formed (OrExpr es negated) \<longleftrightarrow> 2 \<le> length es \<and> list_all well_formed es \<and>
     (case negated of Some x \<Rightarrow> well_formed x | None \<Rightarrow> True)"
| "well_formed _ = True"

fun wf_depth :: "nat \<Rightarrow> ContextKeyExpression \<Rightarrow> bool" where
  "wf_depth d (AndExpr es negated) \<longleftrightarrow> es \<noteq> [] \<and> list_all (wf_depth d) es \<and>
     (case negated of Some x \<Rightarrow> (case d of 0 \<Rightarrow> False | Suc d' \<Rightarrow> wf_depth d' x) | None \<Rightarrow> True)"
| "wf_depth d (OrExpr es negated) \<longleftrightarrow> 2 \<le> length es \<and> list_all (wf_depth d) es \<and>
     (case negated of Some x \<Rightarrow> (case d of 0 \<Rightarrow> False | Suc d' \<Rightarrow> wf_depth d' x) | None \<Rightarrow> True)"
| "wf_depth d _ = True"

lemma wf_mono: "wf_depth d e \<Longrightarrow> d \<le> d' \<Longrightarrow> wf_depth d' e"
proof (induction d e arbitrary: d' rule: wf_depth.induct)
  case (1 d es negated)
  have "list_all (wf_depth d') es" using "1.IH"(1) "1.prems" by (simp add: list_all_iff)
  moreover have "\<exists>k'. d' = Suc k' \<and> wf_depth k' x" if "negated = Some x" for x
    using "1.IH"(2) [OF that] "1.prems" that by (cases d; cases d') auto
  ultimately show ?case using "1.prems" by (auto split: option.splits)
next
  case (2 d es negated)
  have "list_all (wf_depth d') es" using "2.IH"(1) "2.prems" by (simp add: list_all_iff)
  moreover have "\<exists>k'. d' = Suc k' \<and> wf_depth k' x" if "negated = Some x" for x
    using "2.IH"(2) [OF that] "2.prems" that by (cases d; cases d') auto
  ultimately show ?case using "2.prems" by (auto split: option.splits)
qed simp_all

lemma wf_list_mono: "list_all (wf_depth d) es \<Longrightarrow> d \<le> d' \<Longrightarrow> list_all (wf_depth d') es"
  by (erule list.pred_mono_strong) (rule wf_mono)

lemma wf_well_formed: "wf_depth d e \<Longrightarrow> well_formed e"
  by (induction d e rule: wf_depth.induct) (auto simp: list_all_iff split: option.splits nat.splits)

lemma wf_list: "list_all (wf_depth d) es \<Longrightarrow> list_all well_formed es"
  by (erule list.pred_mono_strong) (rule wf_well_formed)

lemma wf_bounded_list: "\<forall>x \<in> set es. \<exists>d. wf_depth d x \<Longrightarrow> \<exists>d. list_all (wf_depth d) es"
proof (induction es)
  case (Cons x es)
  then obtain a b where "wf_depth a x" "list_all (wf_depth b) es" by auto
  then have "list_all (wf_depth (max a b)) (x # es)"
    using wf_mono [of a x "max a b"] wf_list_mono [of b es "max a b"] by simp
  then show ?case by blast
qed simp

lemma well_formed_wf: "well_formed e \<Longrightarrow> \<exists>d. wf_depth d e"
proof (induction e)
  case (AndExpr es m)
  have "\<forall>x \<in> set es. \<exists>d. wf_depth d x" using AndExpr.IH(1) AndExpr.prems by (simp add: list_all_iff)
  then obtain a where a: "list_all (wf_depth a) es" using wf_bounded_list by blast
  show ?case
  proof (cases m)
    case None
    with AndExpr.prems a have "wf_depth a (AndExpr es m)" by simp
    then show ?thesis by blast
  next
    case (Some x)
    with AndExpr.IH(2) [of x] AndExpr.prems obtain b where b: "wf_depth b x" by auto
    have "wf_depth (Suc (max a b)) (AndExpr es m)"
      using AndExpr.prems Some wf_mono [OF b, of "max a b"] wf_list_mono [OF a, of "Suc (max a b)"] by simp
    then show ?thesis by blast
  qed
next
  case (OrExpr es m)
  have "\<forall>x \<in> set es. \<exists>d. wf_depth d x" using OrExpr.IH(1) OrExpr.prems by (simp add: list_all_iff)
  then obtain a where a: "list_all (wf_depth a) es" using wf_bounded_list by blast
  show ?case
  proof (cases m)
    case None
    with OrExpr.prems a have "wf_depth a (OrExpr es m)" by simp
    then show ?thesis by blast
  next
    case (Some x)
    with OrExpr.IH(2) [of x] OrExpr.prems obtain b where b: "wf_depth b x" by auto
    have "wf_depth (Suc (max a b)) (OrExpr es m)"
      using OrExpr.prems Some wf_mono [OF b, of "max a b"] wf_list_mono [OF a, of "Suc (max a b)"] by simp
    then show ?thesis by blast
  qed
qed simp_all

lemma disjunction_mono: "disjunction F x \<Longrightarrow> (\<And>y. F y \<Longrightarrow> G y) \<Longrightarrow> disjunction G x"
  by (auto simp: disjunction_def list_all_iff)

lemma wf_terminals: "wf_depth d x \<Longrightarrow> disjunction (wf_depth d) x"
  by (cases x) auto

lemma wf_weight: "wf_depth d x \<Longrightarrow> 1 \<le> weight x"
proof (induction d x rule: wf_depth.induct)
  case (1 d es m)
  then have "\<forall>x \<in> set es. 1 \<le> weight x" by (simp add: list_all_iff)
  then have "1 \<le> prod_weight es" by (induction es) (auto simp: Suc_le_eq)
  then show ?case by simp
next
  case (2 d es m)
  then have "1 \<le> weight (hd es)" "hd es \<in> set es" by (cases es; simp)+
  moreover have "weight (hd es) \<le> sum_weight es" using calculation(2) by (intro member_le_sum_list) auto
  ultimately have "1 \<le> sum_weight es" by (rule_tac order_trans)
  then show ?case by simp
qed simp_all

lemma flat_wf: "flat x \<Longrightarrow> wf_depth d x"
proof -
  have "list_all (wf_depth d) es" if "list_all simple es" for es
    using that by (induction es) (auto elim: simple.elims)
  then show "flat x \<Longrightarrow> wf_depth d x" by (cases x) auto
qed

context pairable
begin

lemma negation_wf:
  assumes "negation e z" and "wf_depth d e" and F_wf: "\<And>x. F x \<Longrightarrow> wf_depth d x"
  shows "wf_depth (Suc d) z"
proof (cases "F z")
  case True
  then show ?thesis using F_wf wf_mono [of d z "Suc d"] by simp
next
  case False
  with assms(1) obtain es where z: "z = OrExpr es (Some e)" "2 \<le> length es" "list_all F es"
    by (auto simp: negation_def)
  then have "list_all (wf_depth d) es" using F_wf by (simp add: list_all_iff)
  then have "list_all (wf_depth (Suc d)) es" by (rule wf_list_mono) simp
  with z assms(2) show ?thesis by simp
qed

lemma negate_wf_simple:
  assumes "simple e"
  shows "\<exists>z. settles (\<lambda>n. negate E n e) (Some z) \<and> disjunction F z \<and> wf_depth (Suc d) z"
proof -
  from negate_simple [OF assms] obtain z where z: "settles (\<lambda>n. negate E n e) (Some z)" "simple z" by blast
  then have "disjunction F z" "wf_depth (Suc d) z"
    using simple_in terminals_in flat_wf [OF simple_flat] by blast+
  with z show ?thesis by blast
qed

lemma negate_wf:
  assumes F_wf: "\<And>x. F x \<Longrightarrow> wf_depth d x"
    and memo: "\<And>d' x. d = Suc d' \<Longrightarrow> wf_depth d' x \<Longrightarrow> disjunction F x"
  shows "wf_depth d e \<Longrightarrow> \<exists>z. settles (\<lambda>n. negate E n e) (Some z) \<and> disjunction F z \<and> wf_depth (Suc d) z"
proof (induction e)
  case (AndExpr es m)
  show ?case
  proof (cases m)
    case None
    have "\<exists>z. settles (\<lambda>n. negate E n x) (Some z) \<and> disjunction F z" if "x \<in> set es" for x
      using AndExpr.IH(1) [OF that] AndExpr.prems that by (fastforce simp: list_all_iff)
    with negate_compound(1) [of es] AndExpr.prems None obtain z
      where "settles (\<lambda>n. negate E n (AndExpr es None)) (Some z)" "negation (AndExpr es None) z" by auto
    moreover have "wf_depth (Suc d) z"
      using \<open>negation _ z\<close> AndExpr.prems None by (intro negation_wf [OF _ _ F_wf]) auto
    ultimately show ?thesis using None by (auto simp: negation_def)
  next
    case (Some x)
    with AndExpr.prems obtain d' where "d = Suc d'" "wf_depth d' x" by (cases d) auto
    moreover have "settles (\<lambda>n. negate E (Suc n) (AndExpr es m)) (Some x)" by (simp add: Some)
    then have "settles (\<lambda>n. negate E n (AndExpr es m)) (Some x)" by (rule settles_Suc [THEN iffD1])
    ultimately show ?thesis using memo wf_mono [of d' x "Suc d"] by auto
  qed
next
  case (OrExpr es m)
  show ?case
  proof (cases m)
    case None
    have "\<exists>z. settles (\<lambda>n. negate E n x) (Some z) \<and> disjunction F z" if "x \<in> set es" for x
      using OrExpr.IH(1) [OF that] OrExpr.prems that by (fastforce simp: list_all_iff)
    moreover have "es \<noteq> []" using OrExpr.prems by auto
    ultimately obtain z
      where "settles (\<lambda>n. negate E n (OrExpr es None)) (Some z)" "negation (OrExpr es None) z"
      using negate_compound(2) [of es] by blast
    moreover have "wf_depth (Suc d) z"
      using \<open>negation _ z\<close> OrExpr.prems None by (intro negation_wf [OF _ _ F_wf]) auto
    ultimately show ?thesis using None by (auto simp: negation_def)
  next
    case (Some x)
    with OrExpr.prems obtain d' where "d = Suc d'" "wf_depth d' x" by (cases d) auto
    moreover have "settles (\<lambda>n. negate E (Suc n) (OrExpr es m)) (Some x)" by (simp add: Some)
    then have "settles (\<lambda>n. negate E n (OrExpr es m)) (Some x)" by (rule settles_Suc [THEN iffD1])
    ultimately show ?thesis using memo wf_mono [of d' x "Suc d"] by auto
  qed
qed (rule negate_wf_simple, simp)+

end

context closed_class
begin

lemma closed_pairable:
  assumes "\<And>x. simple x \<Longrightarrow> F x"
  shows "pairable E F"
proof
  show "F x" if "simple x" for x using that by (rule assms)
  fix a b assume F: "F a" "F b"
  from And_create_settles [of "[Some a, Some b]" None False] F obtain r
    where r: "settles (\<lambda>n. And_create E n [Some a, Some b] None False) r"
      "case r of None \<Rightarrow> members [Some a, Some b] = []
       | Some x \<Rightarrow> (F x \<or> (\<exists>es. x = AndExpr es None \<and> 2 \<le> length es \<and> list_all F es))
          \<and> weight x \<le> prod_weight (members [Some a, Some b])" by auto
  then obtain x where "r = Some x" "F x" using conj_in by (cases r) auto
  with r(1) terminals_in show "\<exists>t. settles (\<lambda>n. And_create E n [Some a, Some b] None False) (Some t) \<and> disjunction F t"
    by blast
qed

end

lemma closed_class_wf: "closed_class E (wf_depth d)"
proof -
  have closed: "closed_class E (wf_depth d)"
    if "\<And>x. wf_depth d x \<Longrightarrow> \<exists>z. settles (\<lambda>n. negate E n x) (Some z)" for d
    by unfold_locales (use that in \<open>auto dest: wf_weight wf_terminals\<close>)
  show ?thesis
  proof (induction d)
    case 0
    show ?case using flat.negate_wf [of 0 _ E] flat_wf by (intro closed) blast
  next
    case (Suc d)
    have p: "pairable E (wf_depth d)"
      by (rule closed_class.closed_pairable [OF Suc]) (rule flat_wf [OF simple_flat])
    have "\<exists>z. settles (\<lambda>n. negate E n x) (Some z)" if "wf_depth (Suc d) x" for x
    proof -
      have "wf_depth (Suc d) y" if "wf_depth d y" for y using wf_mono [OF that] by simp
      moreover have "disjunction (wf_depth d) y" if "Suc d = Suc d'" "wf_depth d' y" for d' y
        using that by (simp add: wf_terminals)
      ultimately show ?thesis using pairable.negate_wf [OF p _ _ that] by blast
    qed
    then show ?case by (rule closed)
  qed
qed

lemma negate_wf_depth: "wf_depth d e \<Longrightarrow> \<exists>z. settles (\<lambda>n. negate E n e) (Some z) \<and> wf_depth (Suc d) z"
proof -
  assume e: "wf_depth d e"
  have p: "pairable E (wf_depth d)"
    by (rule closed_class.closed_pairable [OF closed_class_wf]) (rule flat_wf [OF simple_flat])
  have "disjunction (wf_depth d) y" if "d = Suc d'" "wf_depth d' y" for d' y
    using that wf_terminals [OF wf_mono [OF that(2), of d]] by simp
  with pairable.negate_wf [OF p _ _ e] show ?thesis by blast
qed

interpretation bounded: closed_class E "wf_depth d" for E d
  by (rule closed_class_wf)

subsection \<open>The operations return\<close>

lemma negate_returns:
  assumes "well_formed e"
  shows "\<exists>N z. well_formed z \<and> (\<forall>n \<ge> N. negate E n e = Inr (Some z))"
proof -
  from well_formed_wf [OF assms] obtain d where "wf_depth d e" by blast
  from negate_wf_depth [OF this, of E] show ?thesis
    by (auto simp: settles_def dest: wf_well_formed)
qed

lemma And_create_returns:
  assumes "list_all well_formed (members arr)"
  shows "\<exists>N r. (case r of None \<Rightarrow> members arr = [] | Some z \<Rightarrow> well_formed z) \<and>
    (\<forall>n \<ge> N. And_create E n arr None extra = Inr r)"
proof -
  from assms wf_bounded_list [of "members arr"] well_formed_wf obtain d
    where d: "list_all (wf_depth d) (members arr)" by (auto simp: list_all_iff)
  from bounded.And_create_settles [OF d, of E None extra] obtain r N
    where "\<forall>n \<ge> N. And_create E n arr None extra = Inr r"
      and r: "case r of None \<Rightarrow> members arr = []
        | Some x \<Rightarrow> (wf_depth d x \<or> (\<exists>es. x = AndExpr es None \<and> 2 \<le> length es \<and> list_all (wf_depth d) es))
          \<and> weight x \<le> prod_weight (members arr)"
    by (auto simp: settles_def)
  moreover from r have "case r of None \<Rightarrow> members arr = [] | Some z \<Rightarrow> well_formed z"
    by (auto split: option.splits dest: wf_well_formed wf_list)
  ultimately show ?thesis by blast
qed

lemma Or_create_returns:
  assumes "list_all well_formed (members arr)"
  shows "\<exists>N r. (case r of None \<Rightarrow> members arr = [] | Some z \<Rightarrow> well_formed z) \<and>
    (\<forall>n \<ge> N. Or_create E n arr None extra = Inr r)"
proof -
  from assms wf_bounded_list [of "members arr"] well_formed_wf obtain d
    where d: "list_all (wf_depth d) (members arr)" by (auto simp: list_all_iff)
  then have t: "list_all (disjunction (wf_depth d)) (members arr)" by (simp add: list_all_iff wf_terminals)
  from bounded.Or_create_settles [OF t, of E None extra] obtain r N
    where "\<forall>n \<ge> N. Or_create E n arr None extra = Inr r"
      and r: "case r of None \<Rightarrow> members arr = []
        | Some x \<Rightarrow> (wf_depth d x \<or> (\<exists>es. x = OrExpr es None \<and> 2 \<le> length es \<and> list_all (wf_depth d) es))
          \<and> weight x \<le> sum_weight (members arr)"
    by (auto simp: settles_def)
  moreover from r have "case r of None \<Rightarrow> members arr = [] | Some z \<Rightarrow> well_formed z"
    by (auto split: option.splits dest: wf_well_formed wf_list)
  ultimately show ?thesis by blast
qed

lemma mapE_outcomes:
  fixes f :: "nat \<Rightarrow> 'a \<Rightarrow> 'e + 'b"
  assumes "\<And>x. x \<in> set xs \<Longrightarrow> \<exists>N y. P x y \<and> (\<forall>n \<ge> N. f n x = Inr y)"
  shows "\<exists>N ys. list_all2 P xs ys \<and> (\<forall>n \<ge> N. mapE (f n) xs = Inr ys)"
  using assms
proof (induction xs)
  case (Cons x xs)
  from Cons.prems [of x] obtain N y where y: "P x y" "\<forall>n \<ge> N. f n x = Inr y" by auto
  from Cons obtain M ys where ys: "list_all2 P xs ys" "\<forall>n \<ge> M. mapE (f n) xs = Inr ys" by auto
  have "\<forall>n \<ge> max N M. mapE (f n) (x # xs) = Inr (y # ys)" using y ys by auto
  with y ys show ?case by blast
qed simp

text \<open>What \<open>substituteConstants\<close> answers is well-formed, if what is remembered is.\<close>

abbreviation well_formed_answer :: "ContextKeyExpression option option \<Rightarrow> bool" where
  "well_formed_answer s \<equiv> (case s of None \<Rightarrow> True | Some None \<Rightarrow> False | Some (Some x) \<Rightarrow> well_formed x)"

lemma replaced_well_formed:
  assumes "list_all2 (\<lambda>_. well_formed_answer) es ss" and "list_all well_formed es"
  shows "\<exists>ts. map2 (\<lambda>e s. case s of Some x \<Rightarrow> x | None \<Rightarrow> Some e) es ss = map Some ts \<and>
    list_all well_formed ts \<and> length ts = length es"
  using assms
proof (induction rule: list_all2_induct)
  case (Cons e es s ss)
  then obtain ts where "map2 (\<lambda>e s. case s of Some x \<Rightarrow> x | None \<Rightarrow> Some e) es ss = map Some ts"
    "list_all well_formed ts" "length ts = length es" by auto
  moreover obtain t where "(case s of Some x \<Rightarrow> x | None \<Rightarrow> Some e) = Some t" "well_formed t"
    using Cons by (auto split: option.splits)
  ultimately show ?case by (intro exI [of _ "t # ts"]) simp
qed simp

lemma two_elements: "2 \<le> length es \<Longrightarrow> es \<noteq> []"
  by auto

lemma compound_returns:
  assumes "list_all well_formed ts" "ts \<noteq> []" "\<And>m. negated = Some m \<Longrightarrow> well_formed m"
  shows "\<exists>N z. well_formed z \<and> (\<forall>n \<ge> N. And_create E n (map Some ts) negated extra = Inr (Some z))"
    and "\<exists>N z. well_formed z \<and> (\<forall>n \<ge> N. Or_create E n (map Some ts) negated extra = Inr (Some z))"
proof -
  from assms(1) wf_bounded_list [of ts] well_formed_wf obtain d
    where d: "list_all (wf_depth d) ts" by (auto simp: list_all_iff)
  then have t: "list_all (disjunction (wf_depth d)) ts" by (simp add: list_all_iff wf_terminals)
  from bounded.And_create_settles [of d "map Some ts" E negated extra, unfolded members_simps(4), OF d] obtain r
    where r: "settles (\<lambda>n. And_create E n (map Some ts) negated extra) r"
      "case r of None \<Rightarrow> ts = []
       | Some x \<Rightarrow> (wf_depth d x \<or> (\<exists>es. x = AndExpr es negated \<and> 2 \<le> length es \<and> list_all (wf_depth d) es))
          \<and> weight x \<le> prod_weight ts" by auto
  with assms(2) have "\<exists>z. r = Some z \<and> well_formed z"
    by (cases r; cases negated) (auto dest: wf_well_formed wf_list two_elements simp: assms(3))
  then obtain z where "r = Some z" "well_formed z" by blast
  with r(1) show "\<exists>N z. well_formed z \<and> (\<forall>n \<ge> N. And_create E n (map Some ts) negated extra = Inr (Some z))"
    by (auto simp: settles_def)
  from bounded.Or_create_settles [of d "map Some ts" E negated extra, unfolded members_simps(4), OF t] obtain r
    where r: "settles (\<lambda>n. Or_create E n (map Some ts) negated extra) r"
      "case r of None \<Rightarrow> ts = []
       | Some x \<Rightarrow> (wf_depth d x \<or> (\<exists>es. x = OrExpr es negated \<and> 2 \<le> length es \<and> list_all (wf_depth d) es))
          \<and> weight x \<le> sum_weight ts" by auto
  with assms(2) have "\<exists>z. r = Some z \<and> well_formed z"
    by (cases r; cases negated) (auto dest: wf_well_formed wf_list two_elements simp: assms(3))
  then obtain z where "r = Some z" "well_formed z" by blast
  with r(1) show "\<exists>N z. well_formed z \<and> (\<forall>n \<ge> N. Or_create E n (map Some ts) negated extra = Inr (Some z))"
    by (auto simp: settles_def)
qed

end
