(* ===== verification/Context_Keys.thy ===== *)
theory Context_Keys
  imports Context_Implies Context_Termination
begin

text \<open>
  The properties of the expressions over context keys: the operations that normalise an expression
  return a well-formed expression of the right value, and \<open>implies\<close> is sound.

  The examples at the end show what the hypotheses exclude, and where the normal form falls short of what
  the comments of the source say.
\<close>

subsection \<open>Negation\<close>

text \<open>
  C37. \<open>negate\<close> returns for every well-formed expression, with a well-formed expression whose
  value in a context is the complement. The context gives the constants their values and numbers to the
  keys that are compared with numbers, and regular expressions with the same source have the same flags.
\<close>

theorem negate_correct:
  assumes "well_formed e" and "behaves E c R e" and "inj_on regexp_source R"
  shows "\<exists>N z. well_formed z \<and> evaluate E c z = (\<not> evaluate E c e) \<and> (\<forall>n \<ge> N. negate E n e = Inr (Some z))"
proof -
  from negate_returns [OF assms(1), of E] obtain N z
    where z: "well_formed z" "\<And>n. N \<le> n \<Longrightarrow> negate E n e = Inr (Some z)" by blast
  from negate_sem [OF assms(3,2) z(2) [OF order_refl]] have "evaluate E c z = (\<not> evaluate E c e)"
    by (simp add: negation_of_def)
  with z show ?thesis by blast
qed

definition example_env :: env where
  "example_env = \<lparr>num_str = (\<lambda>_. ''0''), re_test = (\<lambda>r s. re_source r = s), lowercase = (\<lambda>s. s),
     isWindows = False, constants = [''isMac'' \<mapsto> True]\<rparr>"

definition example_context :: IContext where
  "example_context k = (if k = ''isMac'' then JBool True else if k = ''n'' then JString ''7'' else JString k)"

definition example_expr :: ContextKeyExpression where
  "example_expr =
     OrExpr [AndExpr [DefinedExpr ''isMac'', SmallerExpr ''n'' (JNumber (Finite 3))] None,
             RegexExpr ''a'' (Some \<lparr>re_source = ''b'', re_flags = []\<rparr>)] None"

lemmas example_simps = example_env_def example_context_def example_expr_def agrees_def numeric_def
  context_float_def parse_float_def signed_prefix_def decimal_prefix_def exponent_prefix_def is_js_space_def
  is_digit_def truthy_def

lemma example_behaves: "behaves example_env example_context {Some \<lparr>re_source = ''b'', re_flags = []\<rparr>} example_expr"
  by (simp add: example_simps)

lemma negate_correct_witness:
  "\<exists>N z. well_formed z \<and> evaluate example_env example_context z = (\<not> evaluate example_env example_context example_expr)
     \<and> (\<forall>n \<ge> N. negate example_env n example_expr = Inr (Some z))"
  by (rule negate_correct [OF _ example_behaves]) (simp_all add: example_expr_def)

subsection \<open>Conjunction and disjunction\<close>

lemma members_Nil_flatten:
  "members es = [] \<Longrightarrow> and_flatten es acc h = Some (acc, h) \<and> or_flatten es acc h = Some (acc, h)"
proof (induction es)
  case (Cons e es)
  then show ?case by (cases e) simp_all
qed simp

text \<open>
  C38. \<open>ContextKeyExpr.and\<close> and \<open>ContextKeyExpr.or\<close> return for all well-formed arguments,
  some of which may be missing: they give nothing when all are, and otherwise well-formed expressions that are
  the conjunction and the disjunction of the arguments in every context that fits them: it gives the constants their values
  and numbers to the keys that are compared with numbers (without a number both \<open>n > 3\<close> and
  \<open>n <= 3\<close> are false, and their disjunction is taken for true). Regular expressions with the same source
  have the same flags (\<open>flags_are_lost\<close> below is what happens else).
\<close>

theorem and_or_correct:
  assumes "list_all well_formed (members es)" and "list_all (behaves E c R) (members es)"
    and "inj_on regexp_source R"
  shows "\<exists>N r s. (\<forall>n \<ge> N. ContextKeyExpr_and E n es = Inr r \<and> ContextKeyExpr_or E n es = Inr s) \<and>
    (case (r, s) of
       (Some x, Some y) \<Rightarrow>
         well_formed x \<and> evaluate E c x = list_all (evaluate E c) (members es) \<and>
         well_formed y \<and> evaluate E c y = list_ex (evaluate E c) (members es)
     | (None, None) \<Rightarrow> members es = []
     | _ \<Rightarrow> False)"
proof -
  from And_create_returns [OF assms(1), of E True] obtain N r
    where r: "case r of None \<Rightarrow> members es = [] | Some z \<Rightarrow> well_formed z"
      "\<And>n. N \<le> n \<Longrightarrow> ContextKeyExpr_and E n es = Inr r"
    by (auto simp: ContextKeyExpr_and_def)
  from Or_create_returns [OF assms(1), of E True] obtain M s
    where s: "case s of None \<Rightarrow> members es = [] | Some z \<Rightarrow> well_formed z"
      "\<And>n. M \<le> n \<Longrightarrow> ContextKeyExpr_or E n es = Inr s"
    by (auto simp: ContextKeyExpr_or_def)
  from And_create_sem [OF assms(3,2) _ r(2) [OF order_refl, unfolded ContextKeyExpr_and_def]]
  have "conjunction_of E c R (members es) r" by (simp add: remembers_def)
  moreover from Or_create_sem [OF assms(3,2) _ s(2) [OF order_refl, unfolded ContextKeyExpr_or_def]]
  have "disjunction_of E c R (members es) s" by (simp add: remembers_def)
  moreover have "members es \<noteq> []" if "r = None \<and> s \<noteq> None \<or> r \<noteq> None \<and> s = None"
  proof
    assume none: "members es = []"
    then have "and_flatten es [] False = Some ([], False)" "or_flatten es [] False = Some ([], False)"
      using members_Nil_flatten [OF none] by simp_all
    with r(2) [of "Suc N"] s(2) [of "Suc M"] have "r = None" "s = None"
      by (simp_all add: ContextKeyExpr_and_def ContextKeyExpr_or_def and_normalizeArr_def or_normalizeArr_def)
    with that show False by simp
  qed
  ultimately show ?thesis using r s
    by (intro exI [of _ "max N M"] exI [of _ r] exI [of _ s])
      (auto simp: conjunction_of_def disjunction_of_def split: option.splits)
qed

lemma and_or_correct_witness:
  "\<exists>N r s. (\<forall>n \<ge> N. ContextKeyExpr_and example_env n [Some example_expr, None] = Inr r
      \<and> ContextKeyExpr_or example_env n [Some example_expr, None] = Inr s) \<and>
    (case (r, s) of
       (Some x, Some y) \<Rightarrow>
         well_formed x \<and> evaluate example_env example_context x
           = list_all (evaluate example_env example_context) (members [Some example_expr, None]) \<and>
         well_formed y \<and> evaluate example_env example_context y
           = list_ex (evaluate example_env example_context) (members [Some example_expr, None])
     | (None, None) \<Rightarrow> members [Some example_expr, None] = []
     | _ \<Rightarrow> False)"
  by (rule and_or_correct [where R = "{Some \<lparr>re_source = ''b'', re_flags = []\<rparr>}"])
    (simp_all add: example_behaves, simp add: example_expr_def)

subsection \<open>Constants\<close>

lemma substitute_simple:
  assumes "simple e"
  shows "\<exists>N s. well_formed_answer s \<and> (\<forall>n \<ge> N. substituteConstants E n memo e = Inr s)"
proof -
  have "\<exists>s. \<forall>n. substituteConstants E n memo e = Inr s"
    using assms by (cases e) (auto simp: substituteConstants.simps)
  then obtain s where s: "\<And>n. substituteConstants E n memo e = Inr s" by blast
  then have "well_formed_answer s"
    using assms s [of 0] by (cases e) (auto simp: substituteConstants.simps split: option.splits)
  with s show ?thesis by blast
qed

lemma substituteConstants_returns:
  assumes memo: "\<And>x m. memo x = Some m \<Longrightarrow> well_formed m"
  shows "well_formed e \<Longrightarrow> \<exists>N s. well_formed_answer s \<and> (\<forall>n \<ge> N. substituteConstants E n memo e = Inr s)"
proof (induction e)
  case (AndExpr es m)
  have "\<exists>N s. well_formed_answer s \<and> (\<forall>n \<ge> N. substituteConstants E n memo x = Inr s)" if "x \<in> set es" for x
    using AndExpr.IH(1) [OF that] AndExpr.prems that by (simp add: list_all_iff)
  from mapE_outcomes [of es "\<lambda>_. well_formed_answer" "\<lambda>n. substituteConstants E n memo", OF this]
  obtain N ss where ss: "list_all2 (\<lambda>_. well_formed_answer) es ss"
    "\<And>n. N \<le> n \<Longrightarrow> mapE (substituteConstants E n memo) es = Inr ss" by blast
  have "length ss = length es" using ss(1) by (simp add: list_all2_lengthD)
  from replaced_well_formed [OF ss(1)] AndExpr.prems obtain ts
    where ts: "map2 (\<lambda>e s. case s of Some x \<Rightarrow> x | None \<Rightarrow> Some e) es ss = map Some ts"
      "list_all well_formed ts" "length ts = length es" by auto
  then have "ts \<noteq> []" using AndExpr.prems by auto
  from compound_returns(1) [OF ts(2) this, of "memo (AndExpr es m)" E False] memo obtain M z
    where z: "well_formed z" "\<And>n. M \<le> n \<Longrightarrow> And_create E n (map Some ts) (memo (AndExpr es m)) False = Inr (Some z)"
    by blast
  show ?case
  proof (cases "list_all (\<lambda>s. s = None) ss")
    case True
    with ss(2) \<open>length ss = length es\<close> have "substituteConstants E n memo (AndExpr es m) = Inr None" if "N \<le> n" for n
      using that by (simp add: substituteConstants.simps [of E n memo "AndExpr es m"] eliminateConstantsInArray_eq)
    then show ?thesis by (intro exI [of _ N] exI [of _ None]) simp
  next
    case False
    with ss(2) ts(1) z(2) \<open>length ss = length es\<close>
    have "substituteConstants E n memo (AndExpr es m) = Inr (Some (Some z))" if "max N M \<le> n" for n
      using that by (simp add: substituteConstants.simps [of E n memo "AndExpr es m"] eliminateConstantsInArray_eq)
    with z(1) show ?thesis by (intro exI [of _ "max N M"] exI [of _ "Some (Some z)"]) simp
  qed
next
  case (OrExpr es m)
  have "\<exists>N s. well_formed_answer s \<and> (\<forall>n \<ge> N. substituteConstants E n memo x = Inr s)" if "x \<in> set es" for x
    using OrExpr.IH(1) [OF that] OrExpr.prems that by (simp add: list_all_iff)
  from mapE_outcomes [of es "\<lambda>_. well_formed_answer" "\<lambda>n. substituteConstants E n memo", OF this]
  obtain N ss where ss: "list_all2 (\<lambda>_. well_formed_answer) es ss"
    "\<And>n. N \<le> n \<Longrightarrow> mapE (substituteConstants E n memo) es = Inr ss" by blast
  have "length ss = length es" using ss(1) by (simp add: list_all2_lengthD)
  from replaced_well_formed [OF ss(1)] OrExpr.prems obtain ts
    where ts: "map2 (\<lambda>e s. case s of Some x \<Rightarrow> x | None \<Rightarrow> Some e) es ss = map Some ts"
      "list_all well_formed ts" "length ts = length es" by auto
  then have "ts \<noteq> []" using OrExpr.prems by auto
  from compound_returns(2) [OF ts(2) this, of "memo (OrExpr es m)" E False] memo obtain M z
    where z: "well_formed z" "\<And>n. M \<le> n \<Longrightarrow> Or_create E n (map Some ts) (memo (OrExpr es m)) False = Inr (Some z)"
    by blast
  show ?case
  proof (cases "list_all (\<lambda>s. s = None) ss")
    case True
    with ss(2) \<open>length ss = length es\<close> have "substituteConstants E n memo (OrExpr es m) = Inr None" if "N \<le> n" for n
      using that by (simp add: substituteConstants.simps [of E n memo "OrExpr es m"] eliminateConstantsInArray_eq)
    then show ?thesis by (intro exI [of _ N] exI [of _ None]) simp
  next
    case False
    with ss(2) ts(1) z(2) \<open>length ss = length es\<close>
    have "substituteConstants E n memo (OrExpr es m) = Inr (Some (Some z))" if "max N M \<le> n" for n
      using that by (simp add: substituteConstants.simps [of E n memo "OrExpr es m"] eliminateConstantsInArray_eq)
    with z(1) show ?thesis by (intro exI [of _ "max N M"] exI [of _ "Some (Some z)"]) simp
  qed
qed (rule substitute_simple, simp)+

text \<open>
  In the context every constant has its boolean value.
\<close>

definition holds_constants :: "env \<Rightarrow> IContext \<Rightarrow> bool" where
  "holds_constants E c \<longleftrightarrow> (\<forall>k b. constants E k = Some b \<longrightarrow> c k = JBool b)"

text \<open>
  The values an equality may have. An equality of a constant is one with a string that is not the word
  for the value of the constant (\<open>'true'\<close> or \<open>'false'\<close>, which the substitution takes for
  equal and \<open>==\<close> does not, see \<open>constant_equality\<close>) and does not read as its number (\<open>'1'\<close>, or
  \<open>'0'\<close> and the empty string, the other way round).
\<close>

definition substitutable_value :: "env \<Rightarrow> string \<Rightarrow> js_value \<Rightarrow> bool" where
  "substitutable_value E k v \<longleftrightarrow>
     (case constants E k of
        None \<Rightarrow> (case v of JBool _ \<Rightarrow> False | _ \<Rightarrow> True)
      | Some b \<Rightarrow>
          (case v of
             JString w \<Rightarrow> w \<noteq> (if b then ''true'' else ''false'') \<and> string_to_number w \<noteq> Finite (if b then 1 else 0)
           | _ \<Rightarrow> False))"

text \<open>
  The conditions on an expression: equalities as above, comparisons between numbers, conjunctions and
  disjunctions that are not empty and remember their negations, regular expressions of the set \<open>R\<close>.
\<close>

fun substitutable :: "env \<Rightarrow> IContext \<Rightarrow> RegExp option set \<Rightarrow> ContextKeyExpression \<Rightarrow> bool" where
  "substitutable E c R FalseExpr = True"
| "substitutable E c R TrueExpr = True"
| "substitutable E c R (DefinedExpr k) = True"
| "substitutable E c R (NotExpr k) = True"
| "substitutable E c R (EqualsExpr k v) = substitutable_value E k v"
| "substitutable E c R (NotEqualsExpr k v) = substitutable_value E k v"
| "substitutable E c R (AndExpr es negated) =
     (es \<noteq> [] \<and> list_all (substitutable E c R) es \<and>
      (case negated of Some x \<Rightarrow> substitutable E c R x \<and> evaluate E c x = (\<not> list_all (evaluate E c) es) | None \<Rightarrow> True))"
| "substitutable E c R (RegexExpr k r) = (r \<in> R)"
| "substitutable E c R (NotRegexExpr k r) = (r \<in> R)"
| "substitutable E c R (OrExpr es negated) =
     (es \<noteq> [] \<and> list_all (substitutable E c R) es \<and>
      (case negated of Some x \<Rightarrow> substitutable E c R x \<and> evaluate E c x = (\<not> list_ex (evaluate E c) es) | None \<Rightarrow> True))"
| "substitutable E c R (InExpr k v) = True"
| "substitutable E c R (NotInExpr k v) = True"
| "substitutable E c R (GreaterExpr k v) = numeric E c k v"
| "substitutable E c R (GreaterEqualsExpr k v) = numeric E c k v"
| "substitutable E c R (SmallerExpr k v) = numeric E c k v"
| "substitutable E c R (SmallerEqualsExpr k v) = numeric E c k v"

lemma substitutable_plain_value:
  assumes "holds_constants E c" and "substitutable_value E k v"
  shows "plain_value E c k v"
proof (cases "constants E k")
  case None
  with assms(2) show ?thesis by (simp add: substitutable_value_def plain_value_def)
next
  case (Some b)
  with assms obtain w where w: "v = JString w" "w \<noteq> (if b then ''true'' else ''false'')"
    "string_to_number w \<noteq> Finite (if b then 1 else 0)" "c k = JBool b"
    by (auto simp: substitutable_value_def holds_constants_def split: js_value.splits)
  then have "\<not> loose_eq (num_str E) (c k) v"
    by (cases "string_to_number w") (auto simp: loose_eq_def nullish_def to_primitive_def is_object_def)
  with Some w show ?thesis by (auto simp: plain_value_def bool_string_def strict_eq_def)
qed

lemma substitutable_behaves: "holds_constants E c \<Longrightarrow> substitutable E c R e \<Longrightarrow> behaves E c R e"
proof (induction e)
  case (DefinedExpr k)
  then show ?case by (auto simp: agrees_def holds_constants_def truthy_def split: option.splits)
next
  case (NotExpr k)
  then show ?case by (auto simp: agrees_def holds_constants_def truthy_def split: option.splits)
qed (auto simp: substitutable_plain_value list_all_iff split: option.splits)

text \<open>
  C39. \<open>substituteConstants\<close> returns for every well-formed expression, with an expression that is
  well-formed and has the same value in a context in which every constant has its boolean value.
  Hypotheses on the expression: an equality of a constant is with a string that is neither the word for its value
  nor reads as its number, other equalities are not with booleans; comparisons are with numbers, and their keys have
  numbers in the context; regular expressions with the same source have the same flags. \<open>memo\<close> is
  what the conjunctions and disjunctions remember as their negations.
\<close>

theorem substituteConstants_correct:
  assumes "well_formed e" and "holds_constants E c" and "substitutable E c R e" and "inj_on regexp_source R"
    and "\<And>x m. memo x = Some m \<Longrightarrow> well_formed m \<and> substitutable E c R m \<and> evaluate E c m = (\<not> evaluate E c x)"
  shows "\<exists>N z. well_formed z \<and> evaluate E c z = evaluate E c e \<and> (\<forall>n \<ge> N. substituted E n memo e = Inr (Some z))"
proof -
  note behaves = substitutable_behaves [OF assms(2)]
  from substituteConstants_returns [of memo e E] assms(1,5) obtain N s
    where s: "well_formed_answer s" "\<And>n. N \<le> n \<Longrightarrow> substituteConstants E n memo e = Inr s" by blast
  have "same_value_as E c R e s"
    by (rule substituteConstants_sem [OF assms(4) _ behaves [OF assms(3)] s(2) [OF order_refl]])
      (use assms(5) behaves in \<open>auto simp: remembers_def split: option.splits\<close>)
  with s assms(1) show ?thesis
    by (cases s) (auto simp: same_value_as_def substituted_def split: option.splits)
qed

lemma substituteConstants_correct_witness:
  "\<exists>N z. well_formed z \<and> evaluate example_env example_context z = evaluate example_env example_context example_expr
     \<and> (\<forall>n \<ge> N. substituted example_env n (\<lambda>_. None) example_expr = Inr (Some z))"
proof (rule substituteConstants_correct)
  show "holds_constants example_env example_context" by (simp add: holds_constants_def example_simps)
  show "substitutable example_env example_context {Some \<lparr>re_source = ''b'', re_flags = []\<rparr>} example_expr"
    by (simp add: example_simps)
qed (simp_all add: example_expr_def)

subsection \<open>Implication\<close>

text \<open>
  C40. When \<open>implies p q\<close> answers yes, \<open>q\<close> holds in every context in which \<open>p\<close> does, for
  expressions whose equalities are with strings and whose comparisons are with numbers (else
  \<open>implies_confuses_values\<close> below), in contexts that fit both: they give the constants their values and numbers to
  the keys that are compared. Regular expressions with the same source have the same flags.
\<close>

theorem implies_sound:
  assumes "implies E p q" and "comparable p" "comparable q"
    and "behaves E c R p" "behaves E c R q" "inj_on regexp_source R" and "evaluate E c p"
  shows "evaluate E c q"
  using implies_evaluate [OF assms(6,1-5,7)] .

lemma implies_sound_witness:
  "evaluate example_env example_context (OrExpr [NotExpr ''z'', DefinedExpr ''b''] None)"
  by (rule implies_sound [where p = "AndExpr [DefinedExpr ''b'', EqualsExpr ''k'' (JString ''k'')] None"
        and R = "{}"])
    (simp_all add: implies.simps cmp.simps example_simps plain_value_def loose_eq_def nullish_def
      to_primitive_def is_object_def)

subsection \<open>What the hypotheses exclude\<close>

text \<open>
  Two regular expressions with the same source and different flags are equal for \<open>equals\<close>, and a
  conjunction keeps only one of them.
\<close>

lemma flags_are_lost:
  "ContextKeyExpr_and example_env 5
     [Some (RegexExpr ''f'' (Some \<lparr>re_source = ''a'', re_flags = ''i''\<rparr>)),
      Some (RegexExpr ''f'' (Some \<lparr>re_source = ''a'', re_flags = []\<rparr>))] =
   Inr (Some (RegexExpr ''f'' (Some \<lparr>re_source = ''a'', re_flags = ''i''\<rparr>)))"
  by code_simp

text \<open>
  On a key without a number, a comparison and its negation are both false.
\<close>

lemma both_comparisons_false:
  "negate example_env 1 (GreaterExpr ''w'' (JNumber (Finite 3))) = Inr (Some (SmallerEqualsExpr ''w'' (JNumber (Finite 3))))"
  "\<not> evaluate example_env example_context (GreaterExpr ''w'' (JNumber (Finite 3)))"
  "\<not> evaluate example_env example_context (SmallerEqualsExpr ''w'' (JNumber (Finite 3)))"
  by code_simp+

text \<open>
  \<open>cmp\<close> does not tell a number from a word, and \<open>implies\<close> takes the second conjunction
  for a consequence of the first.
\<close>

lemma implies_confuses_values:
  "implies example_env
     (AndExpr [DefinedExpr ''b'', EqualsExpr ''k'' (JNumber (Finite 5))] None)
     (AndExpr [DefinedExpr ''b'', EqualsExpr ''k'' (JString ''word'')] None)"
  by code_simp

text \<open>
  Disjunctions are said to come last in a sorted conjunction. The tests \<open>in\<close>, \<open>not in\<close> and
  the comparisons sort behind them, so such a conjunction keeps its disjunction, and its text, which has no
  parentheses, reads as another expression.
\<close>

lemma conjunction_not_distributed:
  "ContextKeyExpr_and example_env 5
     [Some (OrExpr [DefinedExpr ''a'', DefinedExpr ''b''] None), Some (InExpr ''x'' ''y'')] =
   Inr (Some (AndExpr [OrExpr [DefinedExpr ''a'', DefinedExpr ''b''] None, InExpr ''x'' ''y''] None))"
  "serialize example_env
     (AndExpr [OrExpr [DefinedExpr ''a'', DefinedExpr ''b''] None, InExpr ''x'' ''y''] None) =
   ''a || b && x in '' @ [CHR 0x27] @ ''y'' @ [CHR 0x27]"
  by code_simp+

text \<open>
  When the distribution gives one conjunction, it is not flattened into the conjunction around it.
\<close>

lemma conjunction_nested:
  "ContextKeyExpr_and example_env 8
     [Some (DefinedExpr ''a''), Some (DefinedExpr ''b''),
      Some (OrExpr [DefinedExpr ''x'', AndExpr [DefinedExpr ''b'', DefinedExpr ''x''] None] None)] =
   Inr (Some (AndExpr [DefinedExpr ''a'', AndExpr [DefinedExpr ''b'', DefinedExpr ''x''] None] None))"
  by code_simp

text \<open>
  For a constant the equality with the quoted word is replaced by true, and evaluates to false in a
  context that holds the constant.
\<close>

lemma constant_equality:
  "substituted example_env 1 (\<lambda>_. None) (EqualsExpr ''isMac'' (JString ''true'')) = Inr (Some TrueExpr)"
  "\<not> evaluate example_env example_context (EqualsExpr ''isMac'' (JString ''true''))"
  by code_simp+

end
