(* ===== verification/Context_Scanner.thy ===== *)
theory Context_Scanner
  imports Prelude
begin

text \<open>
  The scanner of context key expressions, \<open>src/vs/platform/contextkey/common/scanner.ts\<close>.

  A character is a code unit below 256. Of \<open>\p{L}\<close> the class \<open>is_letter\<close> holds those among
  them. Positions are natural numbers; the scanner only moves forward.
\<close>

datatype Token =
    LParenToken nat
  | RParenToken nat
  | NegToken nat
  | EqToken nat bool
  | NotEqToken nat bool
  | LtToken nat
  | LtEqToken nat
  | GtToken nat
  | GtEqToken nat
  | RegexOpToken nat
  | RegexStrToken nat string
  | TrueToken nat
  | FalseToken nat
  | InToken nat
  | NotToken nat
  | AndToken nat
  | OrToken nat
  | StrToken nat string
  | QuotedStrToken nat string
  | ErrorToken nat string
  | EOFToken nat

datatype TokenType =
    T_LParen | T_RParen | T_Neg | T_Eq | T_NotEq | T_Lt | T_LtEq | T_Gt | T_GtEq | T_RegexOp | T_RegexStr
  | T_True | T_False | T_In | T_Not | T_And | T_Or | T_Str | T_QuotedStr | T_Error | T_EOF

fun tk_type :: "Token \<Rightarrow> TokenType" where
  "tk_type (LParenToken _) = T_LParen"
| "tk_type (RParenToken _) = T_RParen"
| "tk_type (NegToken _) = T_Neg"
| "tk_type (EqToken _ _) = T_Eq"
| "tk_type (NotEqToken _ _) = T_NotEq"
| "tk_type (LtToken _) = T_Lt"
| "tk_type (LtEqToken _) = T_LtEq"
| "tk_type (GtToken _) = T_Gt"
| "tk_type (GtEqToken _) = T_GtEq"
| "tk_type (RegexOpToken _) = T_RegexOp"
| "tk_type (RegexStrToken _ _) = T_RegexStr"
| "tk_type (TrueToken _) = T_True"
| "tk_type (FalseToken _) = T_False"
| "tk_type (InToken _) = T_In"
| "tk_type (NotToken _) = T_Not"
| "tk_type (AndToken _) = T_And"
| "tk_type (OrToken _) = T_Or"
| "tk_type (StrToken _ _) = T_Str"
| "tk_type (QuotedStrToken _ _) = T_QuotedStr"
| "tk_type (ErrorToken _ _) = T_Error"
| "tk_type (EOFToken _) = T_EOF"

fun tk_offset :: "Token \<Rightarrow> nat" where
  "tk_offset (LParenToken i) = i"
| "tk_offset (RParenToken i) = i"
| "tk_offset (NegToken i) = i"
| "tk_offset (EqToken i _) = i"
| "tk_offset (NotEqToken i _) = i"
| "tk_offset (LtToken i) = i"
| "tk_offset (LtEqToken i) = i"
| "tk_offset (GtToken i) = i"
| "tk_offset (GtEqToken i) = i"
| "tk_offset (RegexOpToken i) = i"
| "tk_offset (RegexStrToken i _) = i"
| "tk_offset (TrueToken i) = i"
| "tk_offset (FalseToken i) = i"
| "tk_offset (InToken i) = i"
| "tk_offset (NotToken i) = i"
| "tk_offset (AndToken i) = i"
| "tk_offset (OrToken i) = i"
| "tk_offset (StrToken i _) = i"
| "tk_offset (QuotedStrToken i _) = i"
| "tk_offset (ErrorToken i _) = i"
| "tk_offset (EOFToken i) = i"

fun getLexeme :: "Token \<Rightarrow> string" where
  "getLexeme (LParenToken _) = ''(''"
| "getLexeme (RParenToken _) = '')''"
| "getLexeme (NegToken _) = ''!''"
| "getLexeme (EqToken _ isTripleEq) = (if isTripleEq then ''==='' else ''=='')"
| "getLexeme (NotEqToken _ isTripleEq) = (if isTripleEq then ''!=='' else ''!='')"
| "getLexeme (LtToken _) = ''<''"
| "getLexeme (LtEqToken _) = ''<=''"
| "getLexeme (GtToken _) = ''>''"
| "getLexeme (GtEqToken _) = ''>=''"
| "getLexeme (RegexOpToken _) = ''=~''"
| "getLexeme (RegexStrToken _ s) = s"
| "getLexeme (TrueToken _) = ''true''"
| "getLexeme (FalseToken _) = ''false''"
| "getLexeme (InToken _) = ''in''"
| "getLexeme (NotToken _) = ''not''"
| "getLexeme (AndToken _) = ''&&''"
| "getLexeme (OrToken _) = ''||''"
| "getLexeme (StrToken _ s) = s"
| "getLexeme (QuotedStrToken _ s) = s"
| "getLexeme (ErrorToken _ s) = s"
| "getLexeme (EOFToken _) = ''EOF''"

text \<open>The hints of a lexing error, before they are put into words.\<close>

datatype hint = DidYouMean "string list" | ForgotQuote | ForgotToEscapeSlash

record LexingError =
  le_offset :: nat
  le_lexeme :: string
  le_additionalInfo :: "hint option"

record Scanner =
  sc_input :: string
  sc_start :: nat
  sc_current :: nat
  sc_tokens :: "Token list"
  sc_errors :: "LexingError list"

definition Scanner_reset :: "string \<Rightarrow> Scanner" where
  "Scanner_reset v = \<lparr>sc_input = v, sc_start = 0, sc_current = 0, sc_tokens = [], sc_errors = []\<rparr>"

definition isAtEnd :: "Scanner \<Rightarrow> bool" where
  "isAtEnd this \<longleftrightarrow> sc_current this \<ge> length (sc_input this)"

text \<open>\<open>_peek\<close> gives the null character at the end.\<close>

definition Scanner_peek :: "Scanner \<Rightarrow> char" where
  "Scanner_peek this = (if isAtEnd this then CHR 0x00 else sc_input this ! sc_current this)"

definition Scanner_match :: "char \<Rightarrow> Scanner \<Rightarrow> bool \<times> Scanner" where
  "Scanner_match expected this =
     (if isAtEnd this then (False, this)
      else if sc_input this ! sc_current this \<noteq> expected then (False, this)
      else (True, this\<lparr>sc_current := sc_current this + 1\<rparr>))"

definition addToken :: "(nat \<Rightarrow> Token) \<Rightarrow> Scanner \<Rightarrow> Scanner" where
  "addToken tok this = this\<lparr>sc_tokens := sc_tokens this @ [tok (sc_start this)]\<rparr>"

definition sc_lexeme :: "Scanner \<Rightarrow> string" where
  "sc_lexeme this = take (sc_current this - sc_start this) (drop (sc_start this) (sc_input this))"

definition Scanner_error :: "hint option \<Rightarrow> Scanner \<Rightarrow> Scanner" where
  "Scanner_error additional this =
     (let offset = sc_start this; lexeme = sc_lexeme this
      in this\<lparr>sc_errors := sc_errors this @ [\<lparr>le_offset = offset, le_lexeme = lexeme, le_additionalInfo = additional\<rparr>],
              sc_tokens := sc_tokens this @ [ErrorToken offset lexeme]\<rparr>)"

definition hintDidYouMean :: "string list \<Rightarrow> hint option" where
  "hintDidYouMean meant = (if 1 \<le> length meant \<and> length meant \<le> 3 then Some (DidYouMean meant) else None)"

subsection \<open>Words\<close>

definition in_range :: "char \<Rightarrow> nat \<Rightarrow> nat \<Rightarrow> bool" where
  "in_range ch a b \<longleftrightarrow> a \<le> of_char ch \<and> of_char ch \<le> b"

definition is_letter :: "char \<Rightarrow> bool" where
  "is_letter ch \<longleftrightarrow> in_range ch 65 90 \<or> in_range ch 97 122 \<or> of_char ch \<in> set [170, 181, 186 :: nat]
     \<or> in_range ch 192 214 \<or> in_range ch 216 246 \<or> in_range ch 248 255"

text \<open>The characters of the class in \<open>stringRe\<close>.\<close>

definition is_word_char :: "char \<Rightarrow> bool" where
  "is_word_char ch \<longleftrightarrow> is_letter ch \<or> in_range ch 48 57
     \<or> ch \<in> set (''_<>-./:*?+[]^,#@;%$'' @ [CHR 0x5C, CHR 0x22])"

definition keyword :: "string \<Rightarrow> (nat \<Rightarrow> Token) option" where
  "keyword lexeme =
     (if lexeme = ''not'' then Some NotToken
      else if lexeme = ''in'' then Some InToken
      else if lexeme = ''false'' then Some FalseToken
      else if lexeme = ''true'' then Some TrueToken
      else None)"

definition Scanner_string :: "Scanner \<Rightarrow> Scanner" where
  "Scanner_string this =
     (let matched = takeWhile is_word_char (drop (sc_start this) (sc_input this))
      in if matched = [] then this
         else let s = this\<lparr>sc_current := sc_start this + length matched\<rparr>;
                  lexeme = sc_lexeme s
              in case keyword lexeme of
                   Some tok \<Rightarrow> addToken tok s
                 | None \<Rightarrow> s\<lparr>sc_tokens := sc_tokens s @ [StrToken (sc_start s) lexeme]\<rparr>)"

subsection \<open>Quoted strings\<close>

abbreviation single_quote :: char where
  "single_quote \<equiv> CHR 0x27"

function quoted_loop :: "Scanner \<Rightarrow> Scanner" where
  "quoted_loop this =
     (if Scanner_peek this \<noteq> single_quote \<and> \<not> isAtEnd this
      then quoted_loop (this\<lparr>sc_current := sc_current this + 1\<rparr>)
      else this)"
  by pat_completeness auto
termination
  by (relation "measure (\<lambda>s. length (sc_input s) - sc_current s)") (auto simp: isAtEnd_def)

declare quoted_loop.simps [simp del]

definition quotedString :: "Scanner \<Rightarrow> Scanner" where
  "quotedString this =
     (let s = quoted_loop this
      in if isAtEnd s then Scanner_error (Some ForgotQuote) s
         else let s = s\<lparr>sc_current := sc_current s + 1\<rparr>
              in s\<lparr>sc_tokens := sc_tokens s @
                   [QuotedStrToken (sc_start s + 1)
                      (take (sc_current s - 1 - (sc_start s + 1)) (drop (sc_start s + 1) (sc_input s)))]\<rparr>)"

subsection \<open>Regular expressions\<close>

text \<open>The loop that looks for the closing slash: \<open>Inl p\<close> when there is none.\<close>

function regex_loop :: "string \<Rightarrow> nat \<Rightarrow> bool \<Rightarrow> bool \<Rightarrow> nat + nat" where
  "regex_loop input p inEscape inCharacterClass =
     (if p \<ge> length input then Inl p
      else let ch = input ! p
        in if inEscape then regex_loop input (p + 1) False inCharacterClass
           else if ch = CHR ''/'' \<and> \<not> inCharacterClass then Inr (p + 1)
           else if ch = CHR ''['' then regex_loop input (p + 1) inEscape True
           else if ch = CHR 0x5C then regex_loop input (p + 1) True inCharacterClass
           else if ch = CHR '']'' then regex_loop input (p + 1) inEscape False
           else regex_loop input (p + 1) inEscape inCharacterClass)"
  by pat_completeness auto
termination
  by (relation "measure (\<lambda>(input, p, _, _). length input - p)") auto

declare regex_loop.simps [simp del]

definition is_regex_flag :: "char \<Rightarrow> bool" where
  "is_regex_flag ch \<longleftrightarrow> ch \<in> set ''igsmyu''"

definition Scanner_regex :: "Scanner \<Rightarrow> Scanner" where
  "Scanner_regex this =
     (case regex_loop (sc_input this) (sc_current this) False False of
        Inl p \<Rightarrow> Scanner_error (Some ForgotToEscapeSlash) (this\<lparr>sc_current := p\<rparr>)
      | Inr p \<Rightarrow>
          let s = this\<lparr>sc_current := scan_while is_regex_flag (sc_input this) p\<rparr>
          in s\<lparr>sc_tokens := sc_tokens s @ [RegexStrToken (sc_start s) (sc_lexeme s)]\<rparr>)"

subsection \<open>The loop\<close>

definition is_blank :: "char \<Rightarrow> bool" where
  "is_blank ch \<longleftrightarrow> (of_char ch :: nat) \<in> set [32, 13, 9, 10, 160]"

text \<open>The switch over the character that was read.\<close>

definition scan_char :: "char \<Rightarrow> Scanner \<Rightarrow> Scanner" where
  "scan_char ch s =
     (if ch = CHR ''('' then addToken LParenToken s
      else if ch = CHR '')'' then addToken RParenToken s
      else if ch = CHR ''!'' then
        (case Scanner_match (CHR ''='') s of
           (True, s) \<Rightarrow>
             (case Scanner_match (CHR ''='') s of
                (isTripleEq, s) \<Rightarrow> addToken (\<lambda>i. NotEqToken i isTripleEq) s)
         | (False, s) \<Rightarrow> addToken NegToken s)
      else if ch = single_quote then quotedString s
      else if ch = CHR ''/'' then Scanner_regex s
      else if ch = CHR ''='' then
        (case Scanner_match (CHR ''='') s of
           (True, s) \<Rightarrow>
             (case Scanner_match (CHR ''='') s of
                (isTripleEq, s) \<Rightarrow> addToken (\<lambda>i. EqToken i isTripleEq) s)
         | (False, s) \<Rightarrow>
             (case Scanner_match (CHR 0x7E) s of
                (True, s) \<Rightarrow> addToken RegexOpToken s
              | (False, s) \<Rightarrow> Scanner_error (hintDidYouMean [''=='', ''='' @ [CHR 0x7E]]) s))
      else if ch = CHR ''<'' then
        (case Scanner_match (CHR ''='') s of (b, s) \<Rightarrow> addToken (if b then LtEqToken else LtToken) s)
      else if ch = CHR ''>'' then
        (case Scanner_match (CHR ''='') s of (b, s) \<Rightarrow> addToken (if b then GtEqToken else GtToken) s)
      else if ch = CHR ''&'' then
        (case Scanner_match (CHR ''&'') s of
           (True, s) \<Rightarrow> addToken AndToken s
         | (False, s) \<Rightarrow> Scanner_error (hintDidYouMean [''&&'']) s)
      else if ch = CHR ''|'' then
        (case Scanner_match (CHR ''|'') s of
           (True, s) \<Rightarrow> addToken OrToken s
         | (False, s) \<Rightarrow> Scanner_error (hintDidYouMean [''||'']) s)
      else if is_blank ch then s
      else Scanner_string s)"

definition scan_token :: "Scanner \<Rightarrow> Scanner" where
  "scan_token this =
     (let s = this\<lparr>sc_start := sc_current this\<rparr>
      in scan_char (sc_input s ! sc_current s) (s\<lparr>sc_current := sc_current s + 1\<rparr>))"

lemma Scanner_match_fields:
  "sc_input (snd (Scanner_match c s)) = sc_input s"
  "sc_start (snd (Scanner_match c s)) = sc_start s"
  "sc_tokens (snd (Scanner_match c s)) = sc_tokens s"
  "sc_errors (snd (Scanner_match c s)) = sc_errors s"
  "sc_current s \<le> sc_current (snd (Scanner_match c s))"
  "sc_current s \<le> length (sc_input s) \<Longrightarrow> sc_current (snd (Scanner_match c s)) \<le> length (sc_input s)"
  by (auto simp: Scanner_match_def isAtEnd_def)

lemma quoted_loop_fields:
  "sc_input (quoted_loop s) = sc_input s \<and> sc_start (quoted_loop s) = sc_start s
    \<and> sc_tokens (quoted_loop s) = sc_tokens s \<and> sc_errors (quoted_loop s) = sc_errors s
    \<and> sc_current s \<le> sc_current (quoted_loop s)
    \<and> (sc_current s \<le> length (sc_input s) \<longrightarrow> sc_current (quoted_loop s) \<le> length (sc_input s))"
proof (induction s rule: quoted_loop.induct)
  case (1 s)
  then show ?case by (subst (1 2 3 4 5 6) quoted_loop.simps) (auto simp: isAtEnd_def)
qed

definition regex_bounds :: "string \<Rightarrow> nat \<Rightarrow> nat + nat \<Rightarrow> bool" where
  "regex_bounds input p r =
     (case r of Inl q \<Rightarrow> p \<le> q \<and> (p \<le> length input \<longrightarrow> q = length input) | Inr q \<Rightarrow> p < q \<and> q \<le> length input)"

lemma regex_bounds_Suc: "regex_bounds input (p + 1) r \<Longrightarrow> p < length input \<Longrightarrow> regex_bounds input p r"
  by (auto simp: regex_bounds_def split: sum.splits)

lemma regex_loop_bounds: "regex_bounds input p (regex_loop input p a b)"
proof (induction "length input - p" arbitrary: p a b rule: less_induct)
  case less
  show ?case
  proof (cases "p \<ge> length input")
    case True
    then show ?thesis by (simp add: regex_loop.simps [of input p] regex_bounds_def)
  next
    case False
    then have step: "regex_bounds input p (regex_loop input (Suc p) c d)" for c d
      using regex_bounds_Suc [of input p "regex_loop input (Suc p) c d"] less [of "Suc p" c d] by simp
    have found: "regex_bounds input p (Inr (Suc p))" using False by (simp add: regex_bounds_def)
    from False show ?thesis by (simp add: regex_loop.simps [of input p a b] Let_def step found)
  qed
qed

lemma scan_string_fields:
  "sc_input (Scanner_string s) = sc_input s"
  "sc_start s + 1 = sc_current s \<Longrightarrow> sc_current s \<le> sc_current (Scanner_string s)"
  "sc_current s \<le> length (sc_input s) \<Longrightarrow> sc_current (Scanner_string s) \<le> length (sc_input s)"
proof -
  let ?m = "takeWhile is_word_char (drop (sc_start s) (sc_input s))"
  have "length ?m \<le> length (sc_input s) - sc_start s"
    using length_takeWhile_le [of is_word_char "drop (sc_start s) (sc_input s)"] by simp
  moreover have "1 \<le> length ?m" if "?m \<noteq> []" using that by (cases ?m) auto
  moreover have "sc_start s \<le> length (sc_input s)" if "?m \<noteq> []" using that by (cases "sc_start s \<le> length (sc_input s)") auto
  ultimately show "sc_input (Scanner_string s) = sc_input s"
    "sc_start s + 1 = sc_current s \<Longrightarrow> sc_current s \<le> sc_current (Scanner_string s)"
    "sc_current s \<le> length (sc_input s) \<Longrightarrow> sc_current (Scanner_string s) \<le> length (sc_input s)"
    by (auto simp: Scanner_string_def Let_def addToken_def split: option.splits)
qed

lemma scan_quoted_fields:
  "sc_input (quotedString s) = sc_input s"
  "sc_current s \<le> sc_current (quotedString s)"
  "sc_current s \<le> length (sc_input s) \<Longrightarrow> sc_current (quotedString s) \<le> length (sc_input s)"
  using quoted_loop_fields [of s]
  by (auto simp: quotedString_def Let_def Scanner_error_def isAtEnd_def)

lemma scan_regex_fields:
  "sc_input (Scanner_regex s) = sc_input s"
  "sc_current s \<le> sc_current (Scanner_regex s)"
  "sc_current s \<le> length (sc_input s) \<Longrightarrow> sc_current (Scanner_regex s) \<le> length (sc_input s)"
proof -
  have "p \<le> scan_while f xs p" for f p and xs :: string by (simp add: scan_while_takeWhile)
  moreover have "scan_while f xs p \<le> length xs" if "p \<le> length xs" for f p and xs :: string
    using that length_takeWhile_le [of f "drop p xs"] by (simp add: scan_while_takeWhile)
  ultimately show "sc_input (Scanner_regex s) = sc_input s"
    "sc_current s \<le> sc_current (Scanner_regex s)"
    "sc_current s \<le> length (sc_input s) \<Longrightarrow> sc_current (Scanner_regex s) \<le> length (sc_input s)"
    using regex_loop_bounds [of "sc_input s" "sc_current s" False False]
    by (auto simp: Scanner_regex_def regex_bounds_def Scanner_error_def Let_def split: sum.splits
        intro: order_trans less_imp_le)
qed

text \<open>A part of the scanner that keeps the input and does not move back.\<close>

definition moves :: "Scanner \<Rightarrow> Scanner \<Rightarrow> bool" where
  "moves s t \<longleftrightarrow> sc_input t = sc_input s \<and> sc_current s \<le> sc_current t
     \<and> (sc_current s \<le> length (sc_input s) \<longrightarrow> sc_current t \<le> length (sc_input s))"

lemma moves_addToken: "moves s t \<Longrightarrow> moves s (addToken tok t)"
  by (simp add: moves_def addToken_def)

lemma moves_error: "moves s t \<Longrightarrow> moves s (Scanner_error h t)"
  by (simp add: moves_def Scanner_error_def Let_def)

lemma moves_match:
  assumes "Scanner_match ch t = (b, u)" and "moves s t"
  shows "moves s u"
proof -
  from assms(1) have "u = snd (Scanner_match ch t)" by simp
  then show ?thesis using assms(2) Scanner_match_fields [where c = ch and s = t] by (auto simp: moves_def)
qed

lemma moves_parts:
  "moves s s"
  "moves s (quotedString s)"
  "moves s (Scanner_regex s)"
  "sc_start s + 1 = sc_current s \<Longrightarrow> moves s (Scanner_string s)"
  using scan_quoted_fields [of s] scan_regex_fields [of s] scan_string_fields [of s]
  by (auto simp: moves_def)

lemma moves_if: "(b \<Longrightarrow> moves t x) \<Longrightarrow> (\<not> b \<Longrightarrow> moves t y) \<Longrightarrow> moves t (if b then x else y)"
  by simp

lemma moves_bool: "(b \<Longrightarrow> moves t x) \<Longrightarrow> (\<not> b \<Longrightarrow> moves t y) \<Longrightarrow> moves t (case b of True \<Rightarrow> x | False \<Rightarrow> y)"
  by (cases b) simp_all

lemma moves_pair: "(\<And>b u. p = (b, u) \<Longrightarrow> moves t (f b u)) \<Longrightarrow> moves t (case p of (b, u) \<Rightarrow> f b u)"
  by (cases p) simp

lemma scan_char_moves:
  assumes "sc_start t + 1 = sc_current t"
  shows "moves t (scan_char ch t)"
proof -
  note parts = moves_parts(1-3) [of t] moves_parts(4) [OF assms]
  have match: "moves t u" if "Scanner_match x t = (b, u)" for x b u
    using that by (rule moves_match) (rule parts)
  have match2: "moves t v" if "Scanner_match x t = (b, u)" "Scanner_match y u = (c, v)" for x y b c u v
    using that(2) match [OF that(1)] by (rule moves_match)
  show ?thesis
    unfolding scan_char_def
    by (intro moves_if moves_pair moves_bool moves_addToken moves_error parts;
      erule match match2; assumption?)
qed

lemma scan_token_progress:
  assumes "sc_current s < length (sc_input s)"
  shows "sc_input (scan_token s) = sc_input s" and "sc_current s < sc_current (scan_token s)"
    and "sc_current (scan_token s) \<le> length (sc_input s)"
  using scan_char_moves [of "s\<lparr>sc_start := sc_current s, sc_current := sc_current s + 1\<rparr>" "sc_input s ! sc_current s"] assms
  by (auto simp: moves_def scan_token_def)

function scan_loop :: "Scanner \<Rightarrow> Scanner" where
  "scan_loop this = (if isAtEnd this then this else scan_loop (scan_token this))"
  by pat_completeness auto
termination
proof (relation "measure (\<lambda>s. length (sc_input s) - sc_current s)")
  fix s assume "\<not> isAtEnd s"
  then show "(scan_token s, s) \<in> measure (\<lambda>s. length (sc_input s) - sc_current s)"
    using scan_token_progress [of s] by (simp add: isAtEnd_def)
qed simp

declare scan_loop.simps [simp del]

definition Scanner_scan :: "Scanner \<Rightarrow> Scanner" where
  "Scanner_scan this =
     (let s = scan_loop this in addToken EOFToken (s\<lparr>sc_start := sc_current s\<rparr>))"

subsection \<open>What is scanned\<close>

text \<open>
  The scanner only appends tokens, none of which marks the end, and its tokens stand in the order of the
  input.
\<close>

definition appends :: "Scanner \<Rightarrow> Scanner \<Rightarrow> bool" where
  "appends s t \<longleftrightarrow> (\<exists>ts. sc_tokens t = sc_tokens s @ ts \<and> (\<forall>x \<in> set ts. tk_type x \<noteq> T_EOF))"

lemma appends_refl: "appends s s"
  by (simp add: appends_def)

lemma appends_trans: "appends s t \<Longrightarrow> appends t u \<Longrightarrow> appends s u"
  by (force simp: appends_def)

lemma appends_if: "(b \<Longrightarrow> appends t x) \<Longrightarrow> (\<not> b \<Longrightarrow> appends t y) \<Longrightarrow> appends t (if b then x else y)"
  by simp

lemma appends_bool: "(b \<Longrightarrow> appends t x) \<Longrightarrow> (\<not> b \<Longrightarrow> appends t y) \<Longrightarrow> appends t (case b of True \<Rightarrow> x | False \<Rightarrow> y)"
  by (cases b) simp_all

lemma appends_pair: "(\<And>b u. p = (b, u) \<Longrightarrow> appends t (f b u)) \<Longrightarrow> appends t (case p of (b, u) \<Rightarrow> f b u)"
  by (cases p) simp

lemma appends_addToken: "appends s t \<Longrightarrow> tk_type (tok (sc_start t)) \<noteq> T_EOF \<Longrightarrow> appends s (addToken tok t)"
  by (force simp: appends_def addToken_def)

lemma appends_error: "appends s t \<Longrightarrow> appends s (Scanner_error h t)"
  by (force simp: appends_def Scanner_error_def Let_def)

lemma appends_match:
  assumes "Scanner_match ch t = (b, u)" and "appends s t"
  shows "appends s u"
proof -
  from assms(1) have "u = snd (Scanner_match ch t)" by simp
  then show ?thesis using assms(2) Scanner_match_fields(3) [where c = ch and s = t] by (simp add: appends_def)
qed

lemma keyword_type: "keyword lexeme = Some tok \<Longrightarrow> tk_type (tok i) \<noteq> T_EOF"
  by (auto simp: keyword_def split: if_splits)

lemma appends_parts:
  "appends s (quotedString s)"
  "appends s (Scanner_regex s)"
  "appends s (Scanner_string s)"
  using quoted_loop_fields [of s]
  by (auto simp: appends_def quotedString_def Scanner_regex_def Scanner_string_def Scanner_error_def
      addToken_def Let_def dest: keyword_type split: sum.splits option.splits)

lemma scan_char_appends: "appends t (scan_char ch t)"
proof -
  note parts = appends_refl [of t] appends_parts [of t]
  have match: "appends t u" if "Scanner_match x t = (b, u)" for x b u
    using that by (rule appends_match) (rule parts)
  have match2: "appends t v" if "Scanner_match x t = (b, u)" "Scanner_match y u = (c, v)" for x y b c u v
    using that(2) match [OF that(1)] by (rule appends_match)
  show ?thesis
    unfolding scan_char_def
    by (intro appends_if appends_pair appends_bool appends_addToken appends_error parts;
      (erule match match2)?; simp?)
qed

lemma scan_loop_appends: "appends s (scan_loop s) \<and> isAtEnd (scan_loop s)"
proof (induction s rule: scan_loop.induct)
  case (1 s)
  have "appends s (scan_token s)"
    using scan_char_appends [of "s\<lparr>sc_start := sc_current s, sc_current := sc_current s + 1\<rparr>"]
    by (simp add: scan_token_def appends_def)
  with 1 show ?case
    by (cases "isAtEnd s") (auto simp: scan_loop.simps [of s] appends_refl intro: appends_trans)
qed

lemma scan_tokens:
  obtains ts i where "sc_tokens (Scanner_scan (Scanner_reset input)) = ts @ [EOFToken i]"
    "\<forall>x \<in> set ts. tk_type x \<noteq> T_EOF"
  using scan_loop_appends [of "Scanner_reset input"]
  by (auto simp: Scanner_scan_def Let_def addToken_def appends_def Scanner_reset_def)

end
