(* ===== verification/Context_Lexing.thy ===== *)
theory Context_Lexing
  imports Context_Scanner
begin

text \<open>
  What the scanner reads: \<open>lexes w ts\<close> says that the text \<open>w\<close>, followed by a blank, a closing
  parenthesis or the end of the input, is read as the tokens \<open>ts\<close> without an error.
\<close>

fun strip :: "Token \<Rightarrow> Token" where
  "strip (LParenToken _) = LParenToken 0"
| "strip (RParenToken _) = RParenToken 0"
| "strip (NegToken _) = NegToken 0"
| "strip (EqToken _ b) = EqToken 0 b"
| "strip (NotEqToken _ b) = NotEqToken 0 b"
| "strip (LtToken _) = LtToken 0"
| "strip (LtEqToken _) = LtEqToken 0"
| "strip (GtToken _) = GtToken 0"
| "strip (GtEqToken _) = GtEqToken 0"
| "strip (RegexOpToken _) = RegexOpToken 0"
| "strip (RegexStrToken _ s) = RegexStrToken 0 s"
| "strip (TrueToken _) = TrueToken 0"
| "strip (FalseToken _) = FalseToken 0"
| "strip (InToken _) = InToken 0"
| "strip (NotToken _) = NotToken 0"
| "strip (AndToken _) = AndToken 0"
| "strip (OrToken _) = OrToken 0"
| "strip (StrToken _ s) = StrToken 0 s"
| "strip (QuotedStrToken _ s) = QuotedStrToken 0 s"
| "strip (ErrorToken _ s) = ErrorToken 0 s"
| "strip (EOFToken _) = EOFToken 0"

definition ahead :: "Scanner \<Rightarrow> string" where
  "ahead s = drop (sc_current s) (sc_input s)"

definition scans :: "Scanner \<Rightarrow> string \<Rightarrow> Token list \<Rightarrow> Scanner \<Rightarrow> bool" where
  "scans s w ts t \<longleftrightarrow> sc_input t = sc_input s \<and> sc_current t = sc_current s + length w
     \<and> map strip (sc_tokens t) = map strip (sc_tokens s) @ ts \<and> sc_errors t = sc_errors s
     \<and> scan_loop s = scan_loop t"

definition boundary :: "string \<Rightarrow> bool" where
  "boundary post \<longleftrightarrow> (case post of [] \<Rightarrow> True | ch # _ \<Rightarrow> ch = CHR '' '' \<or> ch = CHR '')'')"

definition lexes :: "string \<Rightarrow> Token list \<Rightarrow> bool" where
  "lexes w ts \<longleftrightarrow> (\<forall>s post. ahead s = w @ post \<longrightarrow> boundary post \<longrightarrow> (\<exists>t. scans s w ts t))"

lemma scans_ahead: "scans s w ts t \<Longrightarrow> ahead s = w @ post \<Longrightarrow> ahead t = post"
proof -
  assume s: "scans s w ts t" and a: "ahead s = w @ post"
  then have "ahead t = drop (length w + sc_current s) (sc_input s)" by (simp add: scans_def ahead_def add.commute)
  also have "\<dots> = drop (length w) (ahead s)" by (simp add: ahead_def)
  finally show ?thesis using a by simp
qed

lemma scans_trans: "scans s u us t \<Longrightarrow> scans t v vs r \<Longrightarrow> scans s (u @ v) (us @ vs) r"
  by (simp add: scans_def)

text \<open>One turn of the loop, after the character was read.\<close>

definition started :: "Scanner \<Rightarrow> Scanner" where
  "started s = s\<lparr>sc_start := sc_current s, sc_current := sc_current s + 1\<rparr>"

lemma started_fields [simp]:
  "sc_input (started s) = sc_input s" "sc_start (started s) = sc_current s"
  "sc_current (started s) = sc_current s + 1" "sc_tokens (started s) = sc_tokens s"
  "sc_errors (started s) = sc_errors s"
  by (simp_all add: started_def)

lemma scan_step:
  assumes "ahead s = ch # r"
  shows "scan_loop s = scan_loop (scan_char ch (started s))"
proof -
  from assms have "sc_current s < length (sc_input s)" unfolding ahead_def by (metis drop_eq_Nil list.discI not_le)
  moreover from this assms have "sc_input s ! sc_current s = ch" by (simp add: ahead_def Cons_nth_drop_Suc [symmetric])
  ultimately show ?thesis
    by (simp add: scan_loop.simps [of s] scan_token_def started_def isAtEnd_def)
qed

lemma ahead_nth:
  assumes "ahead s = ch # ch' # r"
  shows "sc_input s ! Suc (sc_current s) = ch'" and "Suc (sc_current s) < length (sc_input s)"
proof -
  from assms have "drop (Suc (sc_current s)) (sc_input s) = ch' # r"
    unfolding ahead_def by (metis drop_Suc list.sel(3) tl_drop)
  then show "sc_input s ! Suc (sc_current s) = ch'" "Suc (sc_current s) < length (sc_input s)"
    by (metis nth_via_drop, metis drop_eq_Nil list.discI not_le)
qed

lemma match_first:
  "ahead s = ch # ch' # r \<Longrightarrow> Scanner_match e (started s) =
     (if ch' = e then (True, (started s)\<lparr>sc_current := Suc (Suc (sc_current s))\<rparr>) else (False, started s))"
  using ahead_nth [of s ch ch' r] by (auto simp: Scanner_match_def isAtEnd_def)

lemma match_end:
  assumes "ahead s = [ch]"
  shows "Scanner_match e (started s) = (False, started s)"
proof -
  from assms have "length (sc_input s) = Suc (sc_current s)"
    unfolding ahead_def by (metis One_nat_def add.commute diff_is_0_eq' length_Cons length_drop le_add_diff_inverse list.size(3) nat_le_linear plus_1_eq_Suc nat.simps(3))
  then show ?thesis by (simp add: Scanner_match_def isAtEnd_def)
qed

lemma match_second:
  assumes "ahead s = ch # ch' # ch'' # r"
  shows "Scanner_match e ((started s)\<lparr>sc_current := Suc (Suc (sc_current s))\<rparr>) =
     (if ch'' = e then (True, (started s)\<lparr>sc_current := Suc (Suc (Suc (sc_current s)))\<rparr>)
      else (False, (started s)\<lparr>sc_current := Suc (Suc (sc_current s))\<rparr>))"
proof -
  from assms have "drop (sc_current s + 2) (sc_input s) = ch'' # r"
    unfolding ahead_def by (metis add_2_eq_Suc' drop_Suc list.sel(3) tl_drop)
  then have "sc_input s ! (sc_current s + 2) = ch''" "sc_current s + 2 < length (sc_input s)"
    by (metis nth_via_drop, metis drop_eq_Nil list.discI not_le)
  then show ?thesis by (auto simp: Scanner_match_def isAtEnd_def)
qed

lemma match_second_end:
  assumes "ahead s = [ch, ch']"
  shows "Scanner_match e ((started s)\<lparr>sc_current := Suc (Suc (sc_current s))\<rparr>) =
     (False, (started s)\<lparr>sc_current := Suc (Suc (sc_current s))\<rparr>)"
proof -
  from assms have "length (sc_input s) - sc_current s = 2"
    unfolding ahead_def by (metis length_drop length_Cons list.size(3) numeral_2_eq_2)
  then have "length (sc_input s) = Suc (Suc (sc_current s))" by arith
  then show ?thesis by (simp add: Scanner_match_def isAtEnd_def)
qed

lemma lexes_step:
  assumes "\<And>s post. ahead s = w @ post \<Longrightarrow> boundary post \<Longrightarrow>
    \<exists>ch r. ahead s = ch # r \<and> (let t = scan_char ch (started s) in sc_input t = sc_input s
      \<and> sc_current t = sc_current s + length w \<and> map strip (sc_tokens t) = map strip (sc_tokens s) @ ts
      \<and> sc_errors t = sc_errors s)"
  shows "lexes w ts"
  unfolding lexes_def
proof (intro allI impI)
  fix s post assume "ahead s = w @ post" "boundary post"
  from assms [OF this] obtain ch r where *: "ahead s = ch # r"
    "let t = scan_char ch (started s) in sc_input t = sc_input s
      \<and> sc_current t = sc_current s + length w \<and> map strip (sc_tokens t) = map strip (sc_tokens s) @ ts
      \<and> sc_errors t = sc_errors s" by blast
  from *(2) scan_step [OF *(1)] have "scans s w ts (scan_char ch (started s))" by (simp add: scans_def Let_def)
  then show "\<exists>t. scans s w ts t" by blast
qed

lemma scan_char_simps [simp]:
  "scan_char (CHR ''('') s = addToken LParenToken s"
  "scan_char (CHR '')'') s = addToken RParenToken s"
  "scan_char (CHR ''!'') s =
     (case Scanner_match (CHR ''='') s of
        (True, s) \<Rightarrow> (case Scanner_match (CHR ''='') s of (b, s) \<Rightarrow> addToken (\<lambda>i. NotEqToken i b) s)
      | (False, s) \<Rightarrow> addToken NegToken s)"
  "scan_char single_quote s = quotedString s"
  "scan_char (CHR ''/'') s = Scanner_regex s"
  "scan_char (CHR ''<'') s = (case Scanner_match (CHR ''='') s of (b, s) \<Rightarrow> addToken (if b then LtEqToken else LtToken) s)"
  "scan_char (CHR ''>'') s = (case Scanner_match (CHR ''='') s of (b, s) \<Rightarrow> addToken (if b then GtEqToken else GtToken) s)"
  "scan_char (CHR '' '') s = s"
  by (simp_all add: scan_char_def is_blank_def)

lemma scan_char_amp: "scan_char (CHR ''&'') s =
     (case Scanner_match (CHR ''&'') s of
        (True, s) \<Rightarrow> addToken AndToken s
      | (False, s) \<Rightarrow> Scanner_error (hintDidYouMean [''&&'']) s)"
  by (simp add: scan_char_def)

lemma scan_char_bar: "scan_char (CHR ''|'') s =
     (case Scanner_match (CHR ''|'') s of
        (True, s) \<Rightarrow> addToken OrToken s
      | (False, s) \<Rightarrow> Scanner_error (hintDidYouMean [''||'']) s)"
  by (simp add: scan_char_def)

lemma scan_char_eq: "scan_char (CHR ''='') s =
     (case Scanner_match (CHR ''='') s of
        (True, s) \<Rightarrow> (case Scanner_match (CHR ''='') s of (b, s) \<Rightarrow> addToken (\<lambda>i. EqToken i b) s)
      | (False, s) \<Rightarrow>
          (case Scanner_match (CHR 0x7E) s of
             (True, s) \<Rightarrow> addToken RegexOpToken s
           | (False, s) \<Rightarrow> Scanner_error (hintDidYouMean [''=='', ''='' @ [CHR 0x7E]]) s))"
  by (simp add: scan_char_def)

lemma boundary_cases:
  assumes "boundary post"
  obtains "post = []" | r where "post = CHR '' '' # r" | r where "post = CHR '')'' # r"
  using assms by (cases post) (auto simp: boundary_def)

subsection \<open>Operators\<close>

lemma lexes_operators:
  "lexes ''&&'' [AndToken 0]"
  "lexes ''||'' [OrToken 0]"
  "lexes ''=='' [EqToken 0 False]"
  "lexes ''!='' [NotEqToken 0 False]"
  "lexes ''<'' [LtToken 0]"
  "lexes ''<='' [LtEqToken 0]"
  "lexes ''>'' [GtToken 0]"
  "lexes ''>='' [GtEqToken 0]"
  "lexes (''='' @ [CHR 0x7E]) [RegexOpToken 0]"
  by (rule lexes_step; erule boundary_cases;
      simp add: match_first match_end match_second match_second_end scan_char_amp scan_char_bar scan_char_eq addToken_def Let_def)+

lemma lexes_space: "lexes u us \<Longrightarrow> lexes v vs \<Longrightarrow> lexes (u @ '' '' @ v) (us @ vs)"
  unfolding lexes_def
proof (intro allI impI)
  fix s post
  assume u: "\<forall>s post. ahead s = u @ post \<longrightarrow> boundary post \<longrightarrow> (\<exists>t. scans s u us t)"
    and v: "\<forall>s post. ahead s = v @ post \<longrightarrow> boundary post \<longrightarrow> (\<exists>t. scans s v vs t)"
    and s: "ahead s = (u @ '' '' @ v) @ post" and post: "boundary post"
  from u s obtain t where t: "scans s u us t" by (force simp: boundary_def)
  from scans_ahead [OF t, of "'' '' @ v @ post"] s have at: "ahead t = CHR '' '' # v @ post" by simp
  from scan_step [OF at] have blank: "scans t '' '' [] (started t)" by (simp add: scans_def)
  from scans_ahead [OF blank, of "v @ post"] at have "ahead (started t) = v @ post" by simp
  with v post obtain r where "scans (started t) v vs r" by blast
  with t blank have "scans s (u @ '' '' @ v) (us @ [] @ vs) r" by (blast intro: scans_trans)
  then show "\<exists>r. scans s (u @ '' '' @ v) (us @ vs) r" by auto
qed

text \<open>A prefix and a suffix that need no blank.\<close>

lemma lexes_prefix:
  assumes "\<And>s r. ahead s = ch # r \<Longrightarrow> P r \<Longrightarrow> \<exists>t. scans s [ch] [tok] t" and "lexes w ts"
    and "\<And>post. boundary post \<Longrightarrow> P (w @ post)"
  shows "lexes (ch # w) (tok # ts)"
  unfolding lexes_def
proof (intro allI impI)
  fix s post assume s: "ahead s = (ch # w) @ post" and post: "boundary post"
  with assms(1,3) obtain t where t: "scans s [ch] [tok] t" by force
  from scans_ahead [OF t, of "w @ post"] s have "ahead t = w @ post" by simp
  with assms(2) post obtain r where "scans t w ts r" by (auto simp: lexes_def)
  with scans_trans [OF t] show "\<exists>t. scans s (ch # w) (tok # ts) t" by force
qed

lemma lexes_neg:
  assumes "lexes (ch # w) ts" and "ch \<noteq> CHR ''=''"
  shows "lexes (CHR ''!'' # ch # w) (NegToken 0 # ts)"
proof (rule lexes_prefix [OF _ assms(1), where P = "\<lambda>r. \<exists>r'. r = ch # r'"])
  fix s r assume s: "ahead s = CHR ''!'' # r" and "\<exists>r'. r = ch # r'"
  then obtain r' where "ahead s = CHR ''!'' # ch # r'" by blast
  with scan_step [OF s] assms(2) have "scans s ''!'' [NegToken 0] (addToken NegToken (started s))"
    by (simp add: match_first scans_def addToken_def)
  then show "\<exists>t. scans s ''!'' [NegToken 0] t" by blast
qed simp

lemma lexes_lparen: "lexes w ts \<Longrightarrow> lexes (CHR ''('' # w) (LParenToken 0 # ts)"
proof (rule lexes_prefix [where P = "\<lambda>_. True"])
  fix s r assume "ahead s = CHR ''('' # r"
  from scan_step [OF this] have "scans s ''('' [LParenToken 0] (addToken LParenToken (started s))"
    by (simp add: scans_def addToken_def)
  then show "\<exists>t. scans s ''('' [LParenToken 0] t" by blast
qed simp_all

lemma lexes_rparen:
  assumes "lexes w ts"
  shows "lexes (w @ '')'') (ts @ [RParenToken 0])"
  unfolding lexes_def
proof (intro allI impI)
  fix s post assume s: "ahead s = (w @ '')'') @ post"
  with assms obtain t where t: "scans s w ts t" by (force simp: lexes_def boundary_def)
  from scans_ahead [OF t, of "'')'' @ post"] s have "ahead t = CHR '')'' # post" by simp
  from scan_step [OF this] have "scans t '')'' [RParenToken 0] (addToken RParenToken (started t))"
    by (simp add: scans_def addToken_def)
  with scans_trans [OF t] show "\<exists>t. scans s (w @ '')'') (ts @ [RParenToken 0]) t" by blast
qed

subsection \<open>Words\<close>

text \<open>A word as the scanner reads it: a slash and the signs of comparison at its start are tokens of their own.\<close>

definition word :: "string \<Rightarrow> bool" where
  "word w \<longleftrightarrow> w \<noteq> [] \<and> list_all is_word_char w \<and> hd w \<noteq> CHR ''/'' \<and> hd w \<noteq> CHR ''<'' \<and> hd w \<noteq> CHR ''>''"

definition word_token :: "string \<Rightarrow> Token" where
  "word_token w = (case keyword w of Some tok \<Rightarrow> tok 0 | None \<Rightarrow> StrToken 0 w)"

lemma special_chars:
  "\<not> is_word_char (CHR ''('')" "\<not> is_word_char (CHR '')'')" "\<not> is_word_char (CHR ''!'')"
  "\<not> is_word_char single_quote" "\<not> is_word_char (CHR ''='')" "\<not> is_word_char (CHR ''&'')"
  "\<not> is_word_char (CHR ''|'')" "\<not> is_word_char (CHR '' '')" "is_blank ch \<Longrightarrow> \<not> is_word_char ch"
  by (auto simp: is_word_char_def is_letter_def in_range_def is_blank_def)

lemma scan_char_word:
  assumes "is_word_char ch" and "ch \<noteq> CHR ''/''" and "ch \<noteq> CHR ''<''" and "ch \<noteq> CHR ''>''"
  shows "scan_char ch s = Scanner_string s"
proof -
  have "ch \<notin> set (''()!=&|'' @ [single_quote])" using assms(1) special_chars by auto
  moreover have "\<not> is_blank ch" using assms(1) special_chars(9) by blast
  ultimately show ?thesis using assms(2-4) by (simp add: scan_char_def)
qed

lemma keyword_strip: "keyword w = Some tok \<Longrightarrow> strip (tok i) = tok 0"
  by (auto simp: keyword_def split: if_splits)

lemma takeWhile_boundary: "list_all is_word_char w \<Longrightarrow> boundary post \<Longrightarrow> takeWhile is_word_char (w @ post) = w"
  by (erule boundary_cases) (simp_all add: list_all_iff special_chars)

lemma take_word: "ahead s = w @ post \<Longrightarrow> take (length w) (drop (sc_current s) (sc_input s)) = w"
  by (simp add: ahead_def)

lemma lexes_word:
  assumes "word w"
  shows "lexes w [word_token w]"
proof (rule lexes_step)
  fix s post assume s: "ahead s = w @ post" and post: "boundary post"
  from assms obtain ch v where w: "w = ch # v" "is_word_char ch" "ch \<noteq> CHR ''/''" "ch \<noteq> CHR ''<''" "ch \<noteq> CHR ''>''"
    by (cases w) (auto simp: word_def)
  have "takeWhile is_word_char (drop (sc_current s) (sc_input s)) = w"
    using takeWhile_boundary [OF _ post, of w] assms s by (simp add: word_def ahead_def)
  then have "Scanner_string (started s) =
     (let s' = (started s)\<lparr>sc_current := sc_current s + length w\<rparr>
      in case keyword w of Some tok \<Rightarrow> addToken tok s'
         | None \<Rightarrow> s'\<lparr>sc_tokens := sc_tokens s' @ [StrToken (sc_start s') w]\<rparr>)"
    using w(1) take_word [OF s] by (simp add: Scanner_string_def sc_lexeme_def Let_def split: option.split)
  then have "let t = scan_char ch (started s) in sc_input t = sc_input s
      \<and> sc_current t = sc_current s + length w \<and> map strip (sc_tokens t) = map strip (sc_tokens s) @ [word_token w]
      \<and> sc_errors t = sc_errors s"
    unfolding scan_char_word [OF w(2-5)]
    by (auto simp: word_token_def addToken_def keyword_strip split: option.splits)
  with s w(1) show "\<exists>ch r. ahead s = ch # r \<and> (let t = scan_char ch (started s) in sc_input t = sc_input s
      \<and> sc_current t = sc_current s + length w \<and> map strip (sc_tokens t) = map strip (sc_tokens s) @ [word_token w]
      \<and> sc_errors t = sc_errors s)" by auto
qed

subsection \<open>Quoted strings\<close>

lemma quoted_loop_reads:
  "drop (sc_current s) (sc_input s) = v @ single_quote # post \<Longrightarrow> single_quote \<notin> set v \<Longrightarrow>
    quoted_loop s = s\<lparr>sc_current := sc_current s + length v\<rparr>"
proof (induction v arbitrary: s)
  case Nil
  then have "sc_input s ! sc_current s = single_quote" by (metis append_Nil nth_via_drop)
  moreover from Nil have "sc_current s < length (sc_input s)" by (metis append_Nil drop_eq_Nil list.discI not_le)
  ultimately show ?case by (simp add: quoted_loop.simps [of s] Scanner_peek_def isAtEnd_def)
next
  case (Cons ch v)
  then have at: "sc_input s ! sc_current s = ch" by (metis append_Cons nth_via_drop)
  have "sc_current s < length (sc_input s)"
    using Cons.prems(1) by (metis append_Cons drop_eq_Nil list.discI not_le)
  moreover have "drop (Suc (sc_current s)) (sc_input s) = v @ single_quote # post"
    using Cons.prems(1) by (metis append_Cons drop_Suc list.sel(3) tl_drop)
  ultimately show ?case
    using at Cons.prems(2) not_sym Cons.IH [of "s\<lparr>sc_current := Suc (sc_current s)\<rparr>"]
    by (auto simp: quoted_loop.simps [of s] Scanner_peek_def isAtEnd_def)
qed

lemma lexes_quoted:
  assumes "single_quote \<notin> set v"
  shows "lexes (single_quote # v @ [single_quote]) [QuotedStrToken 0 v]"
proof (rule lexes_step)
  fix s post assume s: "ahead s = (single_quote # v @ [single_quote]) @ post"
  then have d: "drop (Suc (sc_current s)) (sc_input s) = v @ single_quote # post"
    unfolding ahead_def by (metis append_Cons append_assoc append_Nil drop_Suc list.sel(3) tl_drop)
  then have "quoted_loop (started s) = (started s)\<lparr>sc_current := Suc (sc_current s + length v)\<rparr>"
    using quoted_loop_reads [of "started s" v post] assms by simp
  moreover have "sc_current s + length v + 1 < length (sc_input s)"
    using arg_cong [OF d, of length] by simp
  ultimately have "quotedString (started s) =
     (started s)\<lparr>sc_current := Suc (Suc (sc_current s + length v)),
        sc_tokens := sc_tokens s @ [QuotedStrToken (Suc (sc_current s)) v]\<rparr>"
    using d by (simp add: quotedString_def Let_def isAtEnd_def)
  with s show "\<exists>ch r. ahead s = ch # r \<and> (let t = scan_char ch (started s) in sc_input t = sc_input s
      \<and> sc_current t = sc_current s + length (single_quote # v @ [single_quote])
      \<and> map strip (sc_tokens t) = map strip (sc_tokens s) @ [QuotedStrToken 0 v]
      \<and> sc_errors t = sc_errors s)" by simp
qed

subsection \<open>Regular expressions\<close>

text \<open>
  How the scanner steps through the source of a regular expression: \<open>None\<close> when it meets a slash
  that ends it.
\<close>

fun regex_state :: "string \<Rightarrow> bool \<Rightarrow> bool \<Rightarrow> (bool \<times> bool) option" where
  "regex_state [] inEscape inCharacterClass = Some (inEscape, inCharacterClass)"
| "regex_state (ch # s) inEscape inCharacterClass =
     (if inEscape then regex_state s False inCharacterClass
      else if ch = CHR ''/'' \<and> \<not> inCharacterClass then None
      else if ch = CHR ''['' then regex_state s inEscape True
      else if ch = CHR 0x5C then regex_state s True inCharacterClass
      else if ch = CHR '']'' then regex_state s inEscape False
      else regex_state s inEscape inCharacterClass)"

text \<open>A source in which every slash is escaped or in a class, all classes and escapes being complete.\<close>

definition closed_source :: "string \<Rightarrow> bool" where
  "closed_source s \<longleftrightarrow> regex_state s False False = Some (False, False)"

lemma regex_loop_state:
  "drop p input = src @ post \<Longrightarrow> regex_state src a b = Some (a', b') \<Longrightarrow>
    regex_loop input p a b = regex_loop input (p + length src) a' b'"
proof (induction src a b arbitrary: p rule: regex_state.induct)
  case (2 ch s inEscape inCharacterClass)
  from "2.prems"(1) have at: "input ! p = ch" and len: "p < length input"
    by (metis append_Cons nth_via_drop, metis append_Cons drop_eq_Nil list.discI not_le)
  have d: "drop (Suc p) input = s @ post" using "2.prems"(1) by (metis append_Cons drop_Suc list.sel(3) tl_drop)
  from at len 2 d show ?case
    by (subst regex_loop.simps) (auto simp: Let_def split: if_splits)
qed simp

definition regexp_text :: "string \<Rightarrow> string \<Rightarrow> string" where
  "regexp_text src flags = CHR ''/'' # src @ CHR ''/'' # flags"

lemma lexes_regex:
  assumes "closed_source src" and "list_all is_regex_flag flags"
  shows "lexes (regexp_text src flags) [RegexStrToken 0 (regexp_text src flags)]"
proof (rule lexes_step)
  fix s post assume s: "ahead s = regexp_text src flags @ post" and post: "boundary post"
  let ?in = "sc_input s" and ?p = "Suc (sc_current s)" and ?q = "Suc (sc_current s) + length src"
  from s have d: "drop ?p ?in = src @ CHR ''/'' # flags @ post"
    unfolding ahead_def regexp_text_def by (simp add: drop_Suc flip: tl_drop)
  then have e: "drop ?q ?in = CHR ''/'' # flags @ post" by (metis add.commute append_eq_conv_conj drop_drop)
  then have "?in ! ?q = CHR ''/''" "?q < length ?in"
    by (metis nth_via_drop, metis drop_eq_Nil list.discI not_le)
  then have "regex_loop ?in ?q False False = Inr (Suc ?q)" by (subst regex_loop.simps) simp
  with regex_loop_state [OF d assms(1) [unfolded closed_source_def]]
  have loop: "regex_loop ?in ?p False False = Inr (Suc ?q)" by simp
  have "drop (Suc ?q) ?in = flags @ post" using e by (simp add: drop_Suc flip: tl_drop)
  moreover have "takeWhile is_regex_flag (flags @ post) = flags"
    using post assms(2) by (rule_tac boundary_cases [OF post]) (simp_all add: list_all_iff is_regex_flag_def)
  ultimately have flags: "scan_while is_regex_flag ?in (Suc ?q) = Suc ?q + length flags"
    by (simp add: scan_while_takeWhile)
  have "take (length (regexp_text src flags)) (drop (sc_current s) ?in) = regexp_text src flags"
    using s by (simp add: ahead_def)
  then have "Scanner_regex (started s) =
     (started s)\<lparr>sc_current := Suc ?q + length flags,
        sc_tokens := sc_tokens s @ [RegexStrToken (sc_current s) (regexp_text src flags)]\<rparr>"
    using loop flags by (simp add: Scanner_regex_def sc_lexeme_def Let_def regexp_text_def)
  with s show "\<exists>ch r. ahead s = ch # r \<and> (let t = scan_char ch (started s) in sc_input t = sc_input s
      \<and> sc_current t = sc_current s + length (regexp_text src flags)
      \<and> map strip (sc_tokens t) = map strip (sc_tokens s) @ [RegexStrToken 0 (regexp_text src flags)]
      \<and> sc_errors t = sc_errors s)" by (simp add: regexp_text_def)
qed

subsection \<open>The whole input\<close>

lemma lexes_scan:
  assumes "lexes w ts"
  shows "map strip (sc_tokens (Scanner_scan (Scanner_reset w))) = ts @ [EOFToken 0]"
    and "sc_errors (Scanner_scan (Scanner_reset w)) = []"
proof -
  have "ahead (Scanner_reset w) = w @ []" by (simp add: ahead_def Scanner_reset_def)
  with assms obtain t where t: "scans (Scanner_reset w) w ts t" by (force simp: lexes_def boundary_def)
  then have "isAtEnd t" by (simp add: scans_def isAtEnd_def Scanner_reset_def)
  with t have "scan_loop (Scanner_reset w) = t" by (simp add: scans_def scan_loop.simps [of t])
  with t show "map strip (sc_tokens (Scanner_scan (Scanner_reset w))) = ts @ [EOFToken 0]"
    and "sc_errors (Scanner_scan (Scanner_reset w)) = []"
    by (simp_all add: Scanner_scan_def Let_def addToken_def scans_def Scanner_reset_def)
qed

end
