(* ===== verification/Context_Parser.thy ===== *)
theory Context_Parser
  imports Context_Scanner Context_Termination
begin

text \<open>
  The parser of context key expressions, \<open>Parser\<close>, \<open>ContextKeyExpr.deserialize\<close> and
  \<open>validateWhenClauses\<close> of \<open>src/vs/platform/contextkey/common/contextkey.ts\<close>.

  A method of the parser takes the object and returns the new object with a result: an expression, the
  exception \<open>Parser._parseError\<close>, or any other exception. The methods call each other, and call
  \<open>and\<close>, \<open>or\<close> and \<open>negate\<close>: they take a bound on the depth of the calls,
  and an answer \<open>Uncaught None\<close> is a call that did not end within it. What is proved at the end:
  for every input some bound suffices, and no exception but \<open>_parseError\<close>, which
  \<open>parse\<close> handles, is thrown.

  The constructor \<open>new RegExp\<close> of the language is an argument: it gives \<open>None\<close> when it
  throws.
\<close>

subsection \<open>The object\<close>

datatype parse_message =
    ErrorEmptyString
  | ErrorUnexpectedToken
  | ErrorUnexpectedEOF
  | ExpectedButGot string string

datatype parse_hint = HintEmptyString | HintUnexpectedToken | HintUnexpectedEOF

record ParsingError =
  pe_message :: parse_message
  pe_offset :: nat
  pe_lexeme :: string
  pe_additionalInfo :: "parse_hint option"

record Parser =
  pr_recovery :: bool
  pr_scanner :: Scanner
  pr_tokens :: "Token list"
  pr_current :: nat
  pr_errors :: "ParsingError list"

definition Parser_new :: "bool \<Rightarrow> Parser" where
  "Parser_new recovery =
     \<lparr>pr_recovery = recovery, pr_scanner = Scanner_reset [], pr_tokens = [], pr_current = 0, pr_errors = []\<rparr>"

datatype parse_exn = ParseError | Uncaught "js_error option"

type_synonym 'a parsing = "Parser \<Rightarrow> (parse_exn + 'a) \<times> Parser"

type_synonym regexp_new = "string \<Rightarrow> string option \<Rightarrow> RegExp option"

definition preturn :: "'a \<Rightarrow> 'a parsing" where
  "preturn x = (\<lambda>P. (Inr x, P))"

definition pbind :: "'a parsing \<Rightarrow> ('a \<Rightarrow> 'b parsing) \<Rightarrow> 'b parsing" where
  "pbind m f = (\<lambda>P. case m P of (Inl e, P') \<Rightarrow> (Inl e, P') | (Inr x, P') \<Rightarrow> f x P')"

definition plift :: "'a outcome \<Rightarrow> 'a parsing" where
  "plift r = (\<lambda>P. (case r of Inl e \<Rightarrow> Inl (Uncaught e) | Inr x \<Rightarrow> Inr x, P))"

subsection \<open>Tokens\<close>

text \<open>Reading a field of a token that is not there is a \<open>TypeError\<close>.\<close>

definition Parser_peek :: "Token parsing" where
  "Parser_peek = (\<lambda>P.
     (if pr_current P < length (pr_tokens P) then Inr (pr_tokens P ! pr_current P)
      else Inl (Uncaught (Some TypeError)), P))"

definition Parser_previous :: "Token parsing" where
  "Parser_previous = (\<lambda>P.
     (if 0 < pr_current P \<and> pr_current P \<le> length (pr_tokens P) then Inr (pr_tokens P ! (pr_current P - 1))
      else Inl (Uncaught (Some TypeError)), P))"

definition Parser_isAtEnd :: "bool parsing" where
  "Parser_isAtEnd = pbind Parser_peek (\<lambda>tok. preturn (tk_type tok = T_EOF))"

text \<open>The token that \<open>_advance\<close> returns is not used by its callers.\<close>

definition Parser_advance :: "unit parsing" where
  "Parser_advance =
     pbind Parser_isAtEnd (\<lambda>atEnd.
       if \<not> atEnd then (\<lambda>P. (Inr (), P\<lparr>pr_current := pr_current P + 1\<rparr>)) else preturn ())"

definition Parser_check :: "TokenType \<Rightarrow> bool parsing" where
  "Parser_check type = pbind Parser_peek (\<lambda>tok. preturn (tk_type tok = type))"

definition Parser_matchOne :: "TokenType \<Rightarrow> bool parsing" where
  "Parser_matchOne type =
     pbind (Parser_check type) (\<lambda>b.
       if b then pbind Parser_advance (\<lambda>_. preturn True) else preturn False)"

definition throw_parsing :: "parse_message \<Rightarrow> nat \<Rightarrow> string \<Rightarrow> parse_hint option \<Rightarrow> 'a parsing" where
  "throw_parsing message offset lexeme info = (\<lambda>P.
     (Inl ParseError, P\<lparr>pr_errors := pr_errors P @
        [\<lparr>pe_message = message, pe_offset = offset, pe_lexeme = lexeme, pe_additionalInfo = info\<rparr>]\<rparr>))"

definition errExpectedButGot :: "string \<Rightarrow> Token \<Rightarrow> 'a parsing" where
  "errExpectedButGot expected got =
     throw_parsing (ExpectedButGot expected (getLexeme got)) (tk_offset got) (getLexeme got) None"

definition Parser_consume :: "TokenType \<Rightarrow> string \<Rightarrow> unit parsing" where
  "Parser_consume type message =
     pbind (Parser_check type) (\<lambda>b.
       if b then Parser_advance else pbind Parser_peek (errExpectedButGot message))"

text \<open>\<open>_value\<close> gives the empty string, and leaves the token, when no value follows.\<close>

definition Parser_value :: "string parsing" where
  "Parser_value =
     pbind Parser_peek (\<lambda>token.
       case token of
         StrToken _ lexeme \<Rightarrow> pbind Parser_advance (\<lambda>_. preturn lexeme)
       | QuotedStrToken _ lexeme \<Rightarrow> pbind Parser_advance (\<lambda>_. preturn lexeme)
       | TrueToken _ \<Rightarrow> pbind Parser_advance (\<lambda>_. preturn ''true'')
       | FalseToken _ \<Rightarrow> pbind Parser_advance (\<lambda>_. preturn ''false'')
       | InToken _ \<Rightarrow> pbind Parser_advance (\<lambda>_. preturn ''in'')
       | _ \<Rightarrow> preturn [])"

subsection \<open>Regular expressions\<close>

text \<open>\<open>indexOf\<close> and \<open>lastIndexOf\<close> of a character.\<close>

definition index_of :: "char \<Rightarrow> string \<Rightarrow> int" where
  "index_of ch s = (if ch \<in> set s then int (length (takeWhile (\<lambda>x. x \<noteq> ch) s)) else -1)"

definition last_index_of :: "char \<Rightarrow> string \<Rightarrow> int" where
  "last_index_of ch s = (if ch \<in> set s then int (length s) - 1 - index_of ch (rev s) else -1)"

definition removeFlagsGY :: "string \<Rightarrow> string" where
  "removeFlagsGY flags = filter (\<lambda>ch. ch \<noteq> CHR ''g'' \<and> ch \<noteq> CHR ''y'') flags"

text \<open>A regular expression from its text \<open>/source/flags\<close>; the token is the one to be blamed.\<close>

definition regexp_of_lexeme :: "regexp_new \<Rightarrow> Token \<Rightarrow> string \<Rightarrow> RegExp parsing" where
  "regexp_of_lexeme rx expr regexLexeme =
     (let closingSlashIndex = last_index_of (CHR ''/'') regexLexeme;
          flags = (if closingSlashIndex = int (length regexLexeme) - 1 then None
                   else Some (removeFlagsGY (js_substring regexLexeme (closingSlashIndex + 1) (int (length regexLexeme)))))
      in case rx (js_substring regexLexeme 1 closingSlashIndex) flags of
           Some regexp \<Rightarrow> preturn regexp
         | None \<Rightarrow> errExpectedButGot ''REGEX'' expr)"

definition paren_step :: "char \<Rightarrow> int" where
  "paren_step ch = (if ch = CHR ''('' then 1 else if ch = CHR '')'' then -1 else 0)"

text \<open>
  The parentheses of a following token: the loop looks for \<open>)\<close> in the lexeme of the first token,
  \<open>expr\<close>, not in that of the following one.
\<close>

definition following_parens :: "string \<Rightarrow> string \<Rightarrow> int" where
  "following_parens expr_lexeme lexeme =
     sum_list (map (\<lambda>i. if lexeme ! i = CHR ''('' then 1
        else if i < length expr_lexeme \<and> expr_lexeme ! i = CHR '')'' then -1 else 0) [0..<length lexeme])"

text \<open>The tokens that are taken for the rest of a regular expression.\<close>

function recovery_loop :: "string \<Rightarrow> int \<Rightarrow> string list \<Rightarrow> string list parsing" where
  "recovery_loop expr_lexeme parenBalance acc P =
     (if pr_current P < length (pr_tokens P) then
        let followingToken = pr_tokens P ! pr_current P in
        if tk_type followingToken \<noteq> T_EOF \<and> tk_type followingToken \<noteq> T_And \<and> tk_type followingToken \<noteq> T_Or then
          let balance =
                (case followingToken of
                   LParenToken _ \<Rightarrow> parenBalance + 1
                 | RParenToken _ \<Rightarrow> parenBalance - 1
                 | RegexStrToken _ lexeme \<Rightarrow> parenBalance + following_parens expr_lexeme lexeme
                 | QuotedStrToken _ lexeme \<Rightarrow> parenBalance + following_parens expr_lexeme lexeme
                 | _ \<Rightarrow> parenBalance)
          in if balance < 0 then (Inr acc, P)
             else recovery_loop expr_lexeme balance (acc @ [getLexeme followingToken])
                    (P\<lparr>pr_current := pr_current P + 1\<rparr>)
        else (Inr acc, P)
      else (Inl (Uncaught (Some TypeError)), P))"
  by pat_completeness auto
termination
  by (relation "measure (\<lambda>(_, _, _, P). length (pr_tokens P) - pr_current P)") auto

declare recovery_loop.simps [simp del]

definition regex_strict :: "regexp_new \<Rightarrow> string \<Rightarrow> Token \<Rightarrow> ContextKeyExpression parsing" where
  "regex_strict rx key expr =
     pbind Parser_advance (\<lambda>_.
       case expr of
         RegexStrToken _ regexLexeme \<Rightarrow>
           pbind (regexp_of_lexeme rx expr regexLexeme) (\<lambda>regexp. preturn (RegexExpr key (Some regexp)))
       | _ \<Rightarrow> errExpectedButGot ''REGEX'' expr)"

definition regex_recovering :: "regexp_new \<Rightarrow> string \<Rightarrow> Token \<Rightarrow> ContextKeyExpression parsing" where
  "regex_recovering rx key expr =
     pbind Parser_advance (\<lambda>_.
     pbind (recovery_loop (getLexeme expr) (sum_list (map paren_step (getLexeme expr))) [getLexeme expr]) (\<lambda>lexemes.
     pbind (regexp_of_lexeme rx expr (concat lexemes)) (\<lambda>regexp.
       preturn (RegexExpr key (Some regexp)))))"

definition regex_quoted :: "regexp_new \<Rightarrow> string \<Rightarrow> Token \<Rightarrow> ContextKeyExpression parsing" where
  "regex_quoted rx key expr =
     pbind Parser_advance (\<lambda>_.
       let serializedValue = getLexeme expr;
           first = index_of (CHR ''/'') serializedValue;
           final = last_index_of (CHR ''/'') serializedValue
       in if \<not> list_all is_js_space serializedValue \<and> first \<noteq> final \<and> 0 \<le> first then
            let v = js_slice serializedValue (first + 1) final;
                caseIgnoreFlag = (if final + 1 < int (length serializedValue)
                    \<and> serializedValue ! nat (final + 1) = CHR ''i'' then ''i'' else [])
            in case rx v (Some caseIgnoreFlag) of
                 Some regex \<Rightarrow> preturn (RegexExpr key (Some regex))
               | None \<Rightarrow> errExpectedButGot ''REGEX'' expr
          else errExpectedButGot ''REGEX'' expr)"

text \<open>What follows \<open>KEY =~\<close>.\<close>

definition parse_regex :: "regexp_new \<Rightarrow> string \<Rightarrow> ContextKeyExpression parsing" where
  "parse_regex rx key =
     pbind Parser_peek (\<lambda>expr P.
       if \<not> pr_recovery P then regex_strict rx key expr P
       else if tk_type expr = T_RegexStr \<or> tk_type expr = T_Error then regex_recovering rx key expr P
       else if tk_type expr = T_QuotedStr then regex_quoted rx key expr P
       else pbind Parser_peek (errExpectedButGot ''REGEX'') P)"

subsection \<open>Tests of a key\<close>

text \<open>\<open>==\<close> and \<open>!=\<close>: a value that is not quoted may stand for a boolean.\<close>

definition parse_equality :: "(js_value \<Rightarrow> ContextKeyExpression) \<Rightarrow> ContextKeyExpression \<Rightarrow> ContextKeyExpression
    \<Rightarrow> ContextKeyExpression parsing" where
  "parse_equality compare whenTrue whenFalse =
     pbind Parser_advance (\<lambda>_.
     pbind Parser_value (\<lambda>right.
     pbind Parser_previous (\<lambda>previous.
       if tk_type previous = T_QuotedStr then preturn (compare (JString right))
       else if right = ''true'' then preturn whenTrue
       else if right = ''false'' then preturn whenFalse
       else preturn (compare (JString right)))))"

definition parse_comparison :: "(js_value \<Rightarrow> ContextKeyExpression) \<Rightarrow> ContextKeyExpression parsing" where
  "parse_comparison create =
     pbind Parser_advance (\<lambda>_. pbind Parser_value (\<lambda>right. preturn (create (JString right))))"

definition parse_operator :: "env \<Rightarrow> string \<Rightarrow> Token \<Rightarrow> ContextKeyExpression parsing" where
  "parse_operator E key maybeOp =
     (case tk_type maybeOp of
        T_Eq \<Rightarrow> parse_equality (Equals_create E key) (Defined_create E key) (Not_create E key)
      | T_NotEq \<Rightarrow> parse_equality (NotEquals_create E key) (Not_create E key) (Defined_create E key)
      | T_Lt \<Rightarrow> parse_comparison (Smaller_create key)
      | T_LtEq \<Rightarrow> parse_comparison (SmallerEquals_create key)
      | T_Gt \<Rightarrow> parse_comparison (Greater_create key)
      | T_GtEq \<Rightarrow> parse_comparison (GreaterEquals_create key)
      | T_In \<Rightarrow> pbind Parser_advance (\<lambda>_. pbind Parser_value (\<lambda>right. preturn (InExpr key right)))
      | _ \<Rightarrow> preturn (Defined_create E key))"

definition parse_key :: "env \<Rightarrow> regexp_new \<Rightarrow> string \<Rightarrow> ContextKeyExpression parsing" where
  "parse_key E rx key =
     pbind Parser_advance (\<lambda>_.
     pbind (Parser_matchOne T_RegexOp) (\<lambda>isRegex.
       if isRegex then parse_regex rx key
       else pbind (Parser_matchOne T_Not) (\<lambda>isNot.
         if isNot then
           pbind (Parser_consume T_In (single_quote # ''in'' @ single_quote # '' after '' @ single_quote # ''not'' @ single_quote # ''.''))
             (\<lambda>_. pbind Parser_value (\<lambda>right. preturn (NotInExpr key right)))
         else pbind Parser_peek (parse_operator E key))))"

subsection \<open>Expressions\<close>

definition expected_after_neg :: string where
  "expected_after_neg = ''KEY | true | false | '' @ single_quote # ''('' @ single_quote # '' expression '' @ single_quote # '')'' @ [single_quote]"

definition expected_primary :: string where
  "expected_primary = ''true | false | KEY '' @ [CHR 0x0A, CHR 0x09] @ ''| KEY '' @ single_quote # ''=~'' @ single_quote # '' REGEX ''
     @ [CHR 0x0A, CHR 0x09] @ ''| KEY ('' @ concat (map (\<lambda>op. single_quote # op @ single_quote # '' | '')
         [''=='', ''!='', ''<'', ''<='', ''>'', ''>='', ''in'']) @ single_quote # ''not'' @ single_quote # '' '' @ single_quote # ''in'' @ single_quote # '') value''"

definition closing_paren :: string where
  "closing_paren = ''closing parenthesis '' @ single_quote # '')'' @ [single_quote]"

text \<open>The loops \<open>p_or_loop\<close> and \<open>p_and_loop\<close> collect the operands.\<close>

fun p_or :: "env \<Rightarrow> regexp_new \<Rightarrow> nat \<Rightarrow> ContextKeyExpression option parsing"
  and p_or_loop :: "env \<Rightarrow> regexp_new \<Rightarrow> nat \<Rightarrow> ContextKeyExpression option list \<Rightarrow> ContextKeyExpression option list parsing"
  and p_and :: "env \<Rightarrow> regexp_new \<Rightarrow> nat \<Rightarrow> ContextKeyExpression option parsing"
  and p_and_loop :: "env \<Rightarrow> regexp_new \<Rightarrow> nat \<Rightarrow> ContextKeyExpression option list \<Rightarrow> ContextKeyExpression option list parsing"
  and p_term :: "env \<Rightarrow> regexp_new \<Rightarrow> nat \<Rightarrow> ContextKeyExpression option parsing"
  and p_primary :: "env \<Rightarrow> regexp_new \<Rightarrow> nat \<Rightarrow> ContextKeyExpression option parsing" where
  "p_or E rx 0 = plift (Inl None)"
| "p_or E rx (Suc n) =
     pbind (p_and E rx n) (\<lambda>e.
     pbind (p_or_loop E rx n [e]) (\<lambda>expr.
       if length expr = 1 then preturn (expr ! 0) else plift (ContextKeyExpr_or E n expr)))"
| "p_or_loop E rx 0 expr = plift (Inl None)"
| "p_or_loop E rx (Suc n) expr =
     pbind (Parser_matchOne T_Or) (\<lambda>b.
       if b then pbind (p_and E rx n) (\<lambda>right. p_or_loop E rx n (expr @ [right]))
       else preturn expr)"
| "p_and E rx 0 = plift (Inl None)"
| "p_and E rx (Suc n) =
     pbind (p_term E rx n) (\<lambda>e.
     pbind (p_and_loop E rx n [e]) (\<lambda>expr.
       if length expr = 1 then preturn (expr ! 0) else plift (ContextKeyExpr_and E n expr)))"
| "p_and_loop E rx 0 expr = plift (Inl None)"
| "p_and_loop E rx (Suc n) expr =
     pbind (Parser_matchOne T_And) (\<lambda>b.
       if b then pbind (p_term E rx n) (\<lambda>right. p_and_loop E rx n (expr @ [right]))
       else preturn expr)"
| "p_term E rx 0 = plift (Inl None)"
| "p_term E rx (Suc n) =
     pbind (Parser_matchOne T_Neg) (\<lambda>b.
       if b then
         pbind Parser_peek (\<lambda>peek.
           case peek of
             TrueToken _ \<Rightarrow> pbind Parser_advance (\<lambda>_. preturn (Some FalseExpr))
           | FalseToken _ \<Rightarrow> pbind Parser_advance (\<lambda>_. preturn (Some TrueExpr))
           | LParenToken _ \<Rightarrow>
               pbind Parser_advance (\<lambda>_.
               pbind (p_or E rx n) (\<lambda>expr.
               pbind (Parser_consume T_RParen closing_paren) (\<lambda>_.
                 case expr of None \<Rightarrow> preturn None | Some e \<Rightarrow> plift (negate E n e))))
           | StrToken _ lexeme \<Rightarrow> pbind Parser_advance (\<lambda>_. preturn (Some (Not_create E lexeme)))
           | _ \<Rightarrow> errExpectedButGot expected_after_neg peek)
       else p_primary E rx n)"
| "p_primary E rx 0 = plift (Inl None)"
| "p_primary E rx (Suc n) =
     pbind Parser_peek (\<lambda>peek.
       case peek of
         TrueToken _ \<Rightarrow> pbind Parser_advance (\<lambda>_. preturn (Some TrueExpr))
       | FalseToken _ \<Rightarrow> pbind Parser_advance (\<lambda>_. preturn (Some FalseExpr))
       | LParenToken _ \<Rightarrow>
           pbind Parser_advance (\<lambda>_.
           pbind (p_or E rx n) (\<lambda>expr.
           pbind (Parser_consume T_RParen closing_paren) (\<lambda>_. preturn expr)))
       | StrToken _ key \<Rightarrow> pbind (parse_key E rx key) (\<lambda>e. preturn (Some e))
       | EOFToken offset \<Rightarrow> throw_parsing ErrorUnexpectedEOF offset [] (Some HintUnexpectedEOF)
       | _ \<Rightarrow> pbind Parser_peek (errExpectedButGot expected_primary))"

text \<open>
  \<open>parse\<close>. An empty input adds an error to those of the previous input, and leaves the scanner as
  it is.
\<close>

definition parse_tokens :: "env \<Rightarrow> regexp_new \<Rightarrow> nat \<Rightarrow> ContextKeyExpression option parsing" where
  "parse_tokens E rx n =
     pbind (p_or E rx n) (\<lambda>expr.
     pbind Parser_isAtEnd (\<lambda>atEnd.
       if atEnd then preturn expr
       else pbind Parser_peek (\<lambda>peek.
         throw_parsing ErrorUnexpectedToken (tk_offset peek) (getLexeme peek)
           (if tk_type peek = T_Str then Some HintUnexpectedToken else None))))"

definition Parser_load :: "string \<Rightarrow> Parser \<Rightarrow> Parser" where
  "Parser_load input P =
     (let scanner = Scanner_scan (Scanner_reset input)
      in P\<lparr>pr_scanner := scanner, pr_tokens := sc_tokens scanner, pr_current := 0, pr_errors := []\<rparr>)"

definition parse :: "env \<Rightarrow> regexp_new \<Rightarrow> nat \<Rightarrow> string \<Rightarrow> Parser \<Rightarrow> ContextKeyExpression option outcome \<times> Parser" where
  "parse E rx n input P =
     (if input = [] then
        (Inr None, P\<lparr>pr_errors := pr_errors P @
           [\<lparr>pe_message = ErrorEmptyString, pe_offset = 0, pe_lexeme = [], pe_additionalInfo = Some HintEmptyString\<rparr>]\<rparr>)
      else
        case parse_tokens E rx n (Parser_load input P) of
          (Inr expr, P') \<Rightarrow> (Inr expr, P')
        | (Inl ParseError, P') \<Rightarrow> (Inr None, P')
        | (Inl (Uncaught e), P') \<Rightarrow> (Inl e, P'))"

definition deserialize :: "env \<Rightarrow> regexp_new \<Rightarrow> nat \<Rightarrow> string option \<Rightarrow> Parser \<Rightarrow> ContextKeyExpression option outcome \<times> Parser" where
  "deserialize E rx n serialized P =
     (case serialized of None \<Rightarrow> (Inr None, P) | Some s \<Rightarrow> parse E rx n s P)"

subsection \<open>Validation\<close>

text \<open>The errors of a clause with their extents; a message is what it is put together from.\<close>

datatype lint_message = LintLexing "hint option" | LintParsing parse_message "parse_hint option"

record lint =
  li_errorMessage :: lint_message
  li_offset :: nat
  li_length :: nat

definition lint_errors :: "Parser \<Rightarrow> lint list" where
  "lint_errors P =
     (if sc_errors (pr_scanner P) \<noteq> [] then
        map (\<lambda>se. \<lparr>li_errorMessage = LintLexing (le_additionalInfo se), li_offset = le_offset se,
                   li_length = length (le_lexeme se)\<rparr>) (sc_errors (pr_scanner P))
      else if pr_errors P \<noteq> [] then
        map (\<lambda>pe. \<lparr>li_errorMessage = LintParsing (pe_message pe) (pe_additionalInfo pe), li_offset = pe_offset pe,
                   li_length = length (pe_lexeme pe)\<rparr>) (pr_errors P)
      else [])"

fun validate_loop :: "env \<Rightarrow> regexp_new \<Rightarrow> nat \<Rightarrow> string list \<Rightarrow> Parser \<Rightarrow> lint list list outcome" where
  "validate_loop E rx n [] P = Inr []"
| "validate_loop E rx n (whenClause # rest) P =
     (case parse E rx n whenClause P of
        (Inl e, _) \<Rightarrow> Inl e
      | (Inr _, P') \<Rightarrow> bindE (validate_loop E rx n rest P') (\<lambda>errors. Inr (lint_errors P' # errors)))"

definition validateWhenClauses :: "env \<Rightarrow> regexp_new \<Rightarrow> nat \<Rightarrow> string list \<Rightarrow> lint list list outcome" where
  "validateWhenClauses E rx n whenClauses = validate_loop E rx n whenClauses (Parser_new False)"

subsection \<open>The parser returns\<close>

text \<open>
  The array of tokens ends with its only end marker, and the position stays inside the array.
  \<open>later P P'\<close>: the parser in the state \<open>P\<close> gets to \<open>P'\<close>, not moving back and
  without an error. \<open>unchanged\<close> holds after an error, too.
\<close>

definition parser_ok :: "Parser \<Rightarrow> bool" where
  "parser_ok P \<longleftrightarrow> (\<exists>ts i. pr_tokens P = ts @ [EOFToken i] \<and> (\<forall>x \<in> set ts. tk_type x \<noteq> T_EOF)
     \<and> pr_current P \<le> length ts)"

definition later :: "Parser \<Rightarrow> Parser \<Rightarrow> bool" where
  "later P P' \<longleftrightarrow> parser_ok P' \<and> pr_tokens P' = pr_tokens P \<and> pr_current P \<le> pr_current P'
     \<and> pr_recovery P' = pr_recovery P \<and> pr_scanner P' = pr_scanner P \<and> pr_errors P' = pr_errors P"

definition unchanged :: "Parser \<Rightarrow> Parser \<Rightarrow> bool" where
  "unchanged P P' \<longleftrightarrow> pr_recovery P' = pr_recovery P \<and> pr_scanner P' = pr_scanner P"

lemma later_refl: "parser_ok P \<Longrightarrow> later P P"
  by (simp add: later_def)

lemma later_trans: "later P P' \<Longrightarrow> later P' P'' \<Longrightarrow> later P P''"
  by (simp add: later_def)

lemma later_unchanged: "later P P' \<Longrightarrow> unchanged P' P'' \<Longrightarrow> unchanged P P''"
  by (simp add: later_def unchanged_def)

lemma later_ok: "later P P' \<Longrightarrow> parser_ok P'"
  by (simp add: later_def)

abbreviation token_at :: "Parser \<Rightarrow> Token" where
  "token_at P \<equiv> pr_tokens P ! pr_current P"

lemma ok_index: "parser_ok P \<Longrightarrow> pr_current P < length (pr_tokens P)"
  by (auto simp: parser_ok_def)

lemma ok_advance:
  assumes "parser_ok P" and "tk_type (token_at P) \<noteq> T_EOF"
  shows "later P (P\<lparr>pr_current := pr_current P + 1\<rparr>)"
proof -
  from assms(1) obtain ts i where ts: "pr_tokens P = ts @ [EOFToken i]" "\<forall>x \<in> set ts. tk_type x \<noteq> T_EOF"
    "pr_current P \<le> length ts" by (auto simp: parser_ok_def)
  with assms(2) have "pr_current P \<noteq> length ts" by auto
  with ts show ?thesis by (auto simp: later_def parser_ok_def)
qed

text \<open>
  \<open>runs P c Q f\<close>: from some bound on, \<open>f\<close> has the same result from the state \<open>P\<close>. It
  throws \<open>_parseError\<close> and has reported an error, or its value has the property \<open>Q\<close> and
  the parser has reached the position \<open>c\<close>.
\<close>

definition runs :: "Parser \<Rightarrow> nat \<Rightarrow> ('a \<Rightarrow> bool) \<Rightarrow> (nat \<Rightarrow> 'a parsing) \<Rightarrow> bool" where
  "runs P c Q f \<longleftrightarrow> (\<exists>N r P'. (\<forall>n \<ge> N. f n P = (r, P')) \<and>
     (case r of
        Inl e \<Rightarrow> e = ParseError \<and> pr_errors P' \<noteq> [] \<and> unchanged P P'
      | Inr x \<Rightarrow> later P P' \<and> Q x \<and> c \<le> pr_current P'))"

lemma runs_bind:
  assumes f: "runs P c Q f"
    and g: "\<And>x P'. later P P' \<Longrightarrow> c \<le> pr_current P' \<Longrightarrow> Q x \<Longrightarrow> runs P' d R (\<lambda>n. g n x)"
  shows "runs P d R (\<lambda>n. pbind (f n) (g n))"
proof -
  from f obtain N r P' where N: "\<forall>n \<ge> N. f n P = (r, P')"
    and r: "case r of Inl e \<Rightarrow> e = ParseError \<and> pr_errors P' \<noteq> [] \<and> unchanged P P'
      | Inr x \<Rightarrow> later P P' \<and> Q x \<and> c \<le> pr_current P'"
    unfolding runs_def by blast
  show ?thesis
  proof (cases r)
    case (Inl e)
    with N r show ?thesis
      by (auto simp: runs_def pbind_def intro!: exI [of _ N] exI [of _ "Inl e"] exI [of _ P'])
  next
    case (Inr x)
    with N r g [of P' x] have "runs P' d R (\<lambda>n. g n x)" by simp
    then obtain M s P'' where M: "\<forall>n \<ge> M. g n x P' = (s, P'')"
      and s: "case s of Inl e \<Rightarrow> e = ParseError \<and> pr_errors P'' \<noteq> [] \<and> unchanged P' P''
        | Inr x \<Rightarrow> later P' P'' \<and> R x \<and> d \<le> pr_current P''"
      unfolding runs_def by blast
    from s have "case s of Inl e \<Rightarrow> e = ParseError \<and> pr_errors P'' \<noteq> [] \<and> unchanged P P''
        | Inr x \<Rightarrow> later P P'' \<and> R x \<and> d \<le> pr_current P''"
      using r Inr by (auto split: sum.splits intro: later_trans later_unchanged)
    moreover have "\<forall>n \<ge> max N M. pbind (f n) (g n) P = (s, P'')" using N M Inr by (simp add: pbind_def)
    ultimately show ?thesis unfolding runs_def by blast
  qed
qed

lemma runs_later:
  assumes "later P P'" and "runs P' c Q f" and "\<And>n. g n P = f n P'"
  shows "runs P c Q g"
proof -
  from assms(2) obtain N r P'' where "\<forall>n \<ge> N. f n P' = (r, P'')"
    and r: "case r of Inl e \<Rightarrow> e = ParseError \<and> pr_errors P'' \<noteq> [] \<and> unchanged P' P''
      | Inr x \<Rightarrow> later P' P'' \<and> Q x \<and> c \<le> pr_current P''"
    unfolding runs_def by blast
  moreover from r assms(1) have "case r of Inl e \<Rightarrow> e = ParseError \<and> pr_errors P'' \<noteq> [] \<and> unchanged P P''
      | Inr x \<Rightarrow> later P P'' \<and> Q x \<and> c \<le> pr_current P''"
    by (auto split: sum.splits intro: later_trans later_unchanged)
  ultimately show ?thesis using assms(3) unfolding runs_def by force
qed

lemma runs_return: "parser_ok P \<Longrightarrow> Q x \<Longrightarrow> c \<le> pr_current P \<Longrightarrow> runs P c Q (\<lambda>n. preturn x)"
  unfolding runs_def preturn_def
  by (rule exI [of _ 0], rule exI [of _ "Inr x"], rule exI [of _ P]) (simp add: later_refl)

lemma runs_throw: "runs P c Q (\<lambda>n. throw_parsing m k l h)"
  unfolding runs_def by (intro exI [of _ 0] exI [of _ "Inl ParseError"]) (auto simp: throw_parsing_def unchanged_def)

lemma runs_expected: "runs P c Q (\<lambda>n. errExpectedButGot expected got)"
  by (simp add: errExpectedButGot_def runs_throw)

lemma runs_lift:
  assumes "\<exists>N r. Q r \<and> (\<forall>n \<ge> N. f n = Inr r)" and "parser_ok P" and "c \<le> pr_current P"
  shows "runs P c Q (\<lambda>n. plift (f n))"
proof -
  from assms(1) obtain N r where "Q r" "\<forall>n \<ge> N. f n = Inr r" by blast
  with assms(2,3) show ?thesis
    by (auto simp: runs_def plift_def intro!: exI [of _ N] exI [of _ "Inr r"] exI [of _ P] later_refl)
qed

lemma runs_Suc: "runs P c Q (\<lambda>n. f (Suc n)) \<Longrightarrow> runs P c Q f"
proof -
  assume "runs P c Q (\<lambda>n. f (Suc n))"
  then obtain N r P' where N: "\<forall>n \<ge> N. f (Suc n) P = (r, P')"
    and rest: "case r of Inl e \<Rightarrow> e = ParseError \<and> pr_errors P' \<noteq> [] \<and> unchanged P P'
      | Inr x \<Rightarrow> later P P' \<and> Q x \<and> c \<le> pr_current P'"
    unfolding runs_def by blast
  from N have "\<forall>n \<ge> Suc N. f n P = (r, P')" by (metis Suc_le_D Suc_le_mono)
  with rest show ?thesis unfolding runs_def by blast
qed

lemma runs_weaken:
  assumes "runs P c Q f" and "\<And>x. Q x \<Longrightarrow> R x" and "d \<le> c"
  shows "runs P d R f"
proof -
  from assms(1) obtain N r P' where "\<forall>n \<ge> N. f n P = (r, P')"
    and r: "case r of Inl e \<Rightarrow> e = ParseError \<and> pr_errors P' \<noteq> [] \<and> unchanged P P'
      | Inr x \<Rightarrow> later P P' \<and> Q x \<and> c \<le> pr_current P'"
    unfolding runs_def by blast
  moreover from r have "case r of Inl e \<Rightarrow> e = ParseError \<and> pr_errors P' \<noteq> [] \<and> unchanged P P'
      | Inr x \<Rightarrow> later P P' \<and> R x \<and> d \<le> pr_current P'"
    using assms(2,3) by (auto split: sum.splits)
  ultimately show ?thesis unfolding runs_def by blast
qed

subsubsection \<open>Tokens\<close>

lemma runs_peek:
  assumes "parser_ok P" and "runs P c Q (\<lambda>n. f n (token_at P))"
  shows "runs P c Q (\<lambda>n. pbind Parser_peek (f n))"
  by (rule runs_later [OF later_refl assms(2)]) (use assms(1) in \<open>auto simp: pbind_def Parser_peek_def ok_index\<close>)

lemma runs_advance:
  assumes "parser_ok P"
    and "\<And>P'. later P P' \<Longrightarrow> (tk_type (token_at P) \<noteq> T_EOF \<longrightarrow> pr_current P < pr_current P') \<Longrightarrow>
      runs P' c Q (\<lambda>n. f n ())"
  shows "runs P c Q (\<lambda>n. pbind Parser_advance (f n))"
proof (cases "tk_type (token_at P) = T_EOF")
  case True
  with assms show ?thesis
    by (intro runs_later [OF later_refl assms(2)] )
      (auto simp: pbind_def Parser_advance_def Parser_isAtEnd_def Parser_peek_def preturn_def ok_index later_refl)
next
  case False
  note P' = ok_advance [OF assms(1) False]
  from P' assms(2) [OF P'] show ?thesis
    by (rule runs_later)
      (use assms(1) False in \<open>auto simp: pbind_def Parser_advance_def Parser_isAtEnd_def Parser_peek_def preturn_def ok_index\<close>)
qed

lemma runs_check:
  assumes "parser_ok P"
    and "tk_type (token_at P) = type \<Longrightarrow> runs P c Q (\<lambda>n. f n True)"
    and "runs P c Q (\<lambda>n. f n False)"
  shows "runs P c Q (\<lambda>n. pbind (Parser_check type) (f n))"
proof -
  have "runs P c Q (\<lambda>n. f n (tk_type (token_at P) = type))"
    using assms(2,3) by (cases "tk_type (token_at P) = type") auto
  then show ?thesis
    by (rule runs_later [OF later_refl [OF assms(1)]])
      (use assms(1) in \<open>auto simp: pbind_def Parser_check_def Parser_peek_def preturn_def ok_index\<close>)
qed

lemma pbind_assoc: "pbind (pbind m f) g = pbind m (\<lambda>x. pbind (f x) g)"
  by (rule ext) (auto simp: pbind_def split: prod.splits sum.splits)

lemma pbind_return [simp]: "pbind (preturn x) f = f x"
  by (simp add: pbind_def preturn_def)

lemma pbind_if: "pbind (if b then m else m') f = (if b then pbind m f else pbind m' f)"
  by simp

lemma runs_match:
  assumes "parser_ok P" and "type \<noteq> T_EOF"
    and "\<And>P'. later P P' \<Longrightarrow> pr_current P < pr_current P' \<Longrightarrow> runs P' c Q (\<lambda>n. f n True)"
    and "runs P c Q (\<lambda>n. f n False)"
  shows "runs P c Q (\<lambda>n. pbind (Parser_matchOne type) (f n))"
  unfolding Parser_matchOne_def pbind_assoc
  by (rule runs_check [OF assms(1)]) (auto simp: pbind_assoc assms intro: runs_advance)

lemma runs_consume:
  assumes "parser_ok P" and "\<And>P'. later P P' \<Longrightarrow> runs P' c Q (\<lambda>n. f n ())"
  shows "runs P c Q (\<lambda>n. pbind (Parser_consume type message) (f n))"
  unfolding Parser_consume_def pbind_assoc
  by (rule runs_check [OF assms(1)])
    (auto simp: pbind_assoc assms(1) intro!: runs_advance runs_peek assms(2)
      runs_bind [OF runs_expected [where Q = "\<lambda>_. False" and c = 0]])

lemma runs_value:
  assumes "parser_ok P" and "\<And>P' s. later P P' \<Longrightarrow> runs P' c Q (\<lambda>n. f n s)"
  shows "runs P c Q (\<lambda>n. pbind Parser_value (f n))"
  unfolding Parser_value_def pbind_assoc
  by (rule runs_peek [OF assms(1)])
    (cases "token_at P"; simp add: pbind_assoc; (rule runs_advance)?; simp add: assms later_refl)

lemma runs_previous:
  assumes "parser_ok P" and "0 < pr_current P" and "\<And>tok. runs P c Q (\<lambda>n. f n tok)"
  shows "runs P c Q (\<lambda>n. pbind Parser_previous (f n))"
  by (rule runs_later [OF later_refl [OF assms(1)] assms(3) [of "pr_tokens P ! (pr_current P - 1)"]])
    (use assms(2) ok_index [OF assms(1)] in \<open>auto simp: pbind_def Parser_previous_def\<close>)

subsubsection \<open>Tests\<close>

lemma runs_regexp:
  assumes "parser_ok P" and "\<And>r. runs P c Q (\<lambda>n. f n r)"
  shows "runs P c Q (\<lambda>n. pbind (regexp_of_lexeme rx expr s) (f n))"
  unfolding regexp_of_lexeme_def Let_def
  by (auto split: option.splits simp: assms
      intro!: runs_bind [OF runs_expected [where Q = "\<lambda>_. False" and c = 0]])

lemma recovery_loop_later:
  assumes "parser_ok P"
  shows "\<exists>r P'. recovery_loop s b acc P = (Inr r, P') \<and> later P P'"
  using assms
proof (induction s b acc P rule: recovery_loop.induct)
  case (1 s b acc P)
  let ?t = "token_at P"
  let ?b = "case ?t of LParenToken _ \<Rightarrow> b + 1 | RParenToken _ \<Rightarrow> b - 1
     | RegexStrToken _ l \<Rightarrow> b + following_parens s l | QuotedStrToken _ l \<Rightarrow> b + following_parens s l | _ \<Rightarrow> b"
  note index = ok_index [OF "1.prems"]
  show ?case
  proof (cases "tk_type ?t \<noteq> T_EOF \<and> tk_type ?t \<noteq> T_And \<and> tk_type ?t \<noteq> T_Or \<and> \<not> ?b < 0")
    case True
    from True have later: "later P (P\<lparr>pr_current := pr_current P + 1\<rparr>)" by (intro ok_advance [OF "1.prems"]) simp
    from "1.IH" [OF index refl _ refl _ later_ok [OF later]] True
    have "\<exists>r P'. recovery_loop s ?b (acc @ [getLexeme ?t]) (P\<lparr>pr_current := pr_current P + 1\<rparr>) = (Inr r, P')
      \<and> later (P\<lparr>pr_current := pr_current P + 1\<rparr>) P'" by simp
    with True index show ?thesis
      by (auto simp: recovery_loop.simps [of s b acc P] Let_def intro: later_trans [OF later [unfolded Suc_eq_plus1 [symmetric]]])
  next
    case False
    with index show ?thesis
      by (auto simp: recovery_loop.simps [of s b acc P] Let_def later_refl [OF "1.prems"])
  qed
qed

lemma runs_recovery:
  assumes "parser_ok P" and "\<And>P' r. later P P' \<Longrightarrow> runs P' c Q (\<lambda>n. f n r)"
  shows "runs P c Q (\<lambda>n. pbind (recovery_loop s b acc) (f n))"
proof -
  from recovery_loop_later [OF assms(1)] obtain r P'
    where r: "recovery_loop s b acc P = (Inr r, P')" "later P P'" by blast
  from r(2) assms(2) [OF r(2)] show ?thesis by (rule runs_later) (simp add: pbind_def r(1))
qed

text \<open>The rest of the test of a key gives a single test, and moves past the position \<open>c\<close> it starts behind.\<close>

lemma later_past: "later P P' \<Longrightarrow> c \<le> pr_current P \<Longrightarrow> c \<le> pr_current P'"
  by (simp add: later_def)

lemmas runs_rules = runs_advance runs_match runs_consume runs_value runs_regexp runs_recovery runs_peek
  runs_expected runs_throw

lemma runs_parse_regex:
  assumes "parser_ok P" and "c \<le> pr_current P"
  shows "runs P c simple (\<lambda>n. parse_regex rx key)"
proof -
  note ok = assms(1) later_ok and past = assms(2) later_past [OF _ assms(2)]
  have strict: "runs P c simple (\<lambda>n. regex_strict rx key t)" for t
    unfolding regex_strict_def
    by (cases t; simp; intro runs_rules runs_return; (elim later_ok later_past)?; simp add: assms)
  have recovering: "runs P c simple (\<lambda>n. regex_recovering rx key t)" for t
    unfolding regex_recovering_def
    by (intro runs_rules runs_return; (elim later_ok later_past)?; simp?; metis assms later_ok later_past)
  have quoted: "runs P c simple (\<lambda>n. regex_quoted rx key t)" for t
    unfolding regex_quoted_def Let_def
    by (rule runs_advance [OF assms(1)])
      (auto split: option.splits intro!: runs_expected runs_return intro: later_ok later_past [OF _ assms(2)])
  show ?thesis
    unfolding parse_regex_def
  proof (rule runs_peek [OF assms(1)])
    let ?t = "token_at P"
    have other: "runs P c simple (\<lambda>n. pbind Parser_peek (errExpectedButGot ''REGEX''))"
      by (intro runs_peek runs_expected assms)
    let ?f = "if \<not> pr_recovery P then regex_strict rx key ?t
        else if tk_type ?t = T_RegexStr \<or> tk_type ?t = T_Error then regex_recovering rx key ?t
        else if tk_type ?t = T_QuotedStr then regex_quoted rx key ?t
        else pbind Parser_peek (errExpectedButGot ''REGEX'')"
    have "runs P c simple (\<lambda>n. ?f)" by (simp add: strict recovering quoted other)
    then show "runs P c simple (\<lambda>n P. if \<not> pr_recovery P then regex_strict rx key ?t P
        else if tk_type ?t = T_RegexStr \<or> tk_type ?t = T_Error then regex_recovering rx key ?t P
        else if tk_type ?t = T_QuotedStr then regex_quoted rx key ?t P
        else pbind Parser_peek (errExpectedButGot ''REGEX'') P)"
      by (rule runs_later [OF later_refl [OF assms(1)]]) simp
  qed
qed

lemma runs_equality:
  assumes "parser_ok P" and "c \<le> pr_current P" and "0 < c"
    and "\<And>v. simple (compare v)" and "simple a" and "simple b"
  shows "runs P c simple (\<lambda>n. parse_equality compare a b)"
  unfolding parse_equality_def
proof (intro runs_advance [OF assms(1)] runs_value)
  fix P' P'' and s
  assume *: "later P P'" "later P' P''"
  then have "parser_ok P''" "c \<le> pr_current P''"
    using assms(2) by (auto intro: later_ok later_past)
  then show "runs P'' c simple (\<lambda>n. pbind Parser_previous (\<lambda>previous.
       if tk_type previous = T_QuotedStr then preturn (compare (JString s))
       else if s = ''true'' then preturn a else if s = ''false'' then preturn b
       else preturn (compare (JString s))))"
    by (intro runs_previous) (use assms(3-6) in \<open>auto intro: runs_return\<close>)
qed (rule later_ok)

lemma runs_comparison:
  assumes "parser_ok P" and "c \<le> pr_current P" and "\<And>v. simple (create v)"
  shows "runs P c simple (\<lambda>n. parse_comparison create)"
  unfolding parse_comparison_def
  by (intro runs_advance [OF assms(1)] runs_value runs_return) (use assms in \<open>auto simp: later_def\<close>)

lemma runs_operator:
  assumes "parser_ok P" and "c \<le> pr_current P" and "0 < c"
  shows "runs P c simple (\<lambda>n. parse_operator E key t)"
proof -
  have "runs P c simple (\<lambda>n. pbind Parser_advance (\<lambda>_. pbind Parser_value (\<lambda>right. preturn (InExpr key right))))"
    by (intro runs_advance [OF assms(1)] runs_value runs_return) (use assms in \<open>auto simp: later_def\<close>)
  then show ?thesis
    unfolding parse_operator_def using assms
    by (cases "tk_type t") (simp_all add: runs_equality runs_comparison runs_return)
qed

lemma runs_key:
  assumes "parser_ok P" and "tk_type (token_at P) \<noteq> T_EOF"
  shows "runs P (Suc (pr_current P)) simple (\<lambda>n. parse_key E rx key)"
  unfolding parse_key_def
proof (rule runs_advance [OF assms(1)])
  fix P' assume "later P P'" and "tk_type (token_at P) \<noteq> T_EOF \<longrightarrow> pr_current P < pr_current P'"
  with assms(2) have P': "parser_ok P'" "Suc (pr_current P) \<le> pr_current P'" by (auto intro: later_ok)
  let ?c = "Suc (pr_current P)"
  have regex: "runs P'' ?c simple (\<lambda>n. parse_regex rx key)" if "later P' P''" for P''
    by (rule runs_parse_regex) (use that P' in \<open>auto simp: later_def\<close>)
  have notIn: "runs P'' ?c simple (\<lambda>n. pbind (Parser_consume T_In message)
      (\<lambda>_. pbind Parser_value (\<lambda>right. preturn (NotInExpr key right))))" if "later P' P''" for P'' message
    by (intro runs_consume runs_value runs_return) (use that P' in \<open>auto simp: later_def\<close>)
  have operator: "runs P' ?c simple (\<lambda>n. pbind Parser_peek (parse_operator E key))"
    by (intro runs_peek runs_operator P') simp
  show "runs P' ?c simple (\<lambda>n. pbind (Parser_matchOne T_RegexOp) (\<lambda>isRegex.
       if isRegex then parse_regex rx key
       else pbind (Parser_matchOne T_Not) (\<lambda>isNot.
         if isNot then
           pbind (Parser_consume T_In (single_quote # ''in'' @ single_quote # '' after '' @ single_quote # ''not'' @ single_quote # ''.''))
             (\<lambda>_. pbind Parser_value (\<lambda>right. preturn (NotInExpr key right)))
         else pbind Parser_peek (parse_operator E key))))"
    by (rule runs_match [OF P'(1)], simp, simp add: regex, simp, rule runs_match [OF P'(1)])
      (simp_all add: notIn operator)
qed

subsubsection \<open>Expressions\<close>

text \<open>What an expression evaluates to when it is parsed: a well-formed expression, never \<open>undefined\<close>.\<close>

definition parsed :: "ContextKeyExpression option \<Rightarrow> bool" where
  "parsed r \<longleftrightarrow> (\<exists>e. r = Some e \<and> well_formed e)"

lemma simple_well_formed: "simple e \<Longrightarrow> well_formed e"
  by (cases e) simp_all

lemma negate_lift:
  assumes "parsed r" and "parser_ok P" and "c \<le> pr_current P"
  shows "runs P c parsed (\<lambda>n. case r of None \<Rightarrow> preturn None | Some e \<Rightarrow> plift (negate E n e))"
proof -
  from assms(1) obtain e where e: "r = Some e" "well_formed e" by (auto simp: parsed_def)
  from negate_returns [OF e(2), of E]
  have "\<exists>N s. parsed s \<and> (\<forall>n \<ge> N. negate E n e = Inr s)" unfolding parsed_def by blast
  from runs_lift [OF this assms(2,3)] show ?thesis by (simp add: e(1))
qed

lemma members_parsed: "list_all parsed es \<Longrightarrow> list_all well_formed (members es) \<and> length (members es) = length es"
  by (induction es) (auto simp: parsed_def)

lemma and_or_lift:
  assumes "list_all parsed es" and "es \<noteq> []" and "parser_ok P" and "c \<le> pr_current P"
  shows "runs P c parsed (\<lambda>n. plift (ContextKeyExpr_and E n es))"
    and "runs P c parsed (\<lambda>n. plift (ContextKeyExpr_or E n es))"
proof -
  note m = members_parsed [OF assms(1)]
  with assms(2) have ne: "members es \<noteq> []" by auto
  from And_create_returns [OF m [THEN conjunct1], of E True] ne
  have "\<exists>N r. parsed r \<and> (\<forall>n \<ge> N. ContextKeyExpr_and E n es = Inr r)"
    unfolding parsed_def ContextKeyExpr_and_def by (elim exE conjE) (rule exI, rule exI, auto split: option.splits)
  from runs_lift [OF this assms(3,4)] show "runs P c parsed (\<lambda>n. plift (ContextKeyExpr_and E n es))" .
  from Or_create_returns [OF m [THEN conjunct1], of E True] ne
  have "\<exists>N r. parsed r \<and> (\<forall>n \<ge> N. ContextKeyExpr_or E n es = Inr r)"
    unfolding parsed_def ContextKeyExpr_or_def by (elim exE conjE) (rule exI, rule exI, auto split: option.splits)
  from runs_lift [OF this assms(3,4)] show "runs P c parsed (\<lambda>n. plift (ContextKeyExpr_or E n es))" .
qed

text \<open>The calls behind a position, that parse what stands in parentheses, are the induction hypothesis.\<close>

definition nested :: "env \<Rightarrow> regexp_new \<Rightarrow> Parser \<Rightarrow> bool" where
  "nested E rx P \<longleftrightarrow> (\<forall>P'. later P P' \<longrightarrow> pr_current P < pr_current P' \<longrightarrow> runs P' (pr_current P') parsed (p_or E rx))"

lemma nested_later: "nested E rx P \<Longrightarrow> later P P' \<Longrightarrow> nested E rx P'"
  unfolding nested_def by (auto intro: later_trans) (auto simp: later_def)

lemma runs_or_nested:
  assumes "nested E rx P" and "later P P'" and "pr_current P < pr_current P'"
    and "\<And>P'' r. later P' P'' \<Longrightarrow> parsed r \<Longrightarrow> runs P'' c Q (\<lambda>n. f n r)"
  shows "runs P' c Q (\<lambda>n. pbind (p_or E rx n) (f n))"
proof (rule runs_bind)
  show "runs P' (pr_current P') parsed (p_or E rx)" using assms(1-3) by (simp add: nested_def)
qed (rule assms(4))

lemma parsed_simple [simp]: "simple e \<Longrightarrow> parsed (Some e)"
  by (simp add: parsed_def simple_well_formed)

lemma runs_primary:
  assumes ok: "parser_ok P" and rec: "nested E rx P"
  shows "runs P (Suc (pr_current P)) parsed (p_primary E rx)"
proof (rule runs_Suc)
  let ?c = "Suc (pr_current P)"
  have const: "runs P ?c parsed (\<lambda>n. pbind Parser_advance (\<lambda>_. preturn (Some e)))"
    if "simple e" "tk_type (token_at P) \<noteq> T_EOF" for e
    using that by (intro runs_advance [OF ok] runs_return) (auto simp: later_def)
  have group: "runs P ?c parsed (\<lambda>n. pbind Parser_advance (\<lambda>_. pbind (p_or E rx n) (\<lambda>expr.
      pbind (Parser_consume T_RParen closing_paren) (\<lambda>_. preturn expr))))" if "tk_type (token_at P) \<noteq> T_EOF"
    using that by (intro runs_advance [OF ok] runs_or_nested [OF rec] runs_consume runs_return) (auto simp: later_def)
  have key: "runs P ?c parsed (\<lambda>n. pbind (parse_key E rx key) (\<lambda>e. preturn (Some e)))"
    if "tk_type (token_at P) \<noteq> T_EOF" for key
    by (rule runs_bind [OF runs_key [OF ok that]]) (auto intro!: runs_return intro: later_ok)
  have other: "runs P ?c parsed (\<lambda>n. pbind Parser_peek (errExpectedButGot message))" for message
    by (intro runs_peek runs_expected ok)
  show "runs P ?c parsed (\<lambda>n. p_primary E rx (Suc n))"
    unfolding p_primary.simps
    by (rule runs_peek [OF ok]) (cases "token_at P"; simp add: const group key other runs_throw ok)
qed

lemma runs_term:
  assumes ok: "parser_ok P" and rec: "nested E rx P"
  shows "runs P (Suc (pr_current P)) parsed (p_term E rx)"
proof (rule runs_Suc)
  let ?c = "Suc (pr_current P)"
  have neg: "runs P' ?c parsed (\<lambda>n. case token_at P' of
           TrueToken _ \<Rightarrow> pbind Parser_advance (\<lambda>_. preturn (Some FalseExpr))
         | FalseToken _ \<Rightarrow> pbind Parser_advance (\<lambda>_. preturn (Some TrueExpr))
         | LParenToken _ \<Rightarrow>
             pbind Parser_advance (\<lambda>_.
             pbind (p_or E rx n) (\<lambda>expr.
             pbind (Parser_consume T_RParen closing_paren) (\<lambda>_.
               case expr of None \<Rightarrow> preturn None | Some e \<Rightarrow> plift (negate E n e))))
         | StrToken _ lexeme \<Rightarrow> pbind Parser_advance (\<lambda>_. preturn (Some (Not_create E lexeme)))
         | _ \<Rightarrow> errExpectedButGot expected_after_neg (token_at P'))"
    if "later P P'" "?c \<le> pr_current P'" for P'
  proof -
    have ok': "parser_ok P'" using that(1) by (rule later_ok)
    have const: "runs P' ?c parsed (\<lambda>n. pbind Parser_advance (\<lambda>_. preturn (Some e)))" if "simple e" for e
      using that \<open>?c \<le> pr_current P'\<close> by (intro runs_advance [OF ok'] runs_return) (auto simp: later_def)
    have group: "runs P' ?c parsed (\<lambda>n. pbind Parser_advance (\<lambda>_. pbind (p_or E rx n) (\<lambda>expr.
        pbind (Parser_consume T_RParen closing_paren) (\<lambda>_.
          case expr of None \<Rightarrow> preturn None | Some e \<Rightarrow> plift (negate E n e)))))"
      using that by (intro runs_advance [OF ok'] runs_or_nested [OF rec] runs_consume negate_lift) (auto simp: later_def)
    show ?thesis by (cases "token_at P'") (simp_all add: const group runs_expected)
  qed
  show "runs P ?c parsed (\<lambda>n. p_term E rx (Suc n))"
    unfolding p_term.simps
    by (rule runs_match [OF ok]) (auto intro!: runs_peek neg runs_primary ok rec intro: later_ok)
qed

abbreviation operands :: "ContextKeyExpression option list \<Rightarrow> bool" where
  "operands es \<equiv> es \<noteq> [] \<and> list_all parsed es"

lemma runs_loop:
  assumes step: "\<And>P. parser_ok P \<Longrightarrow> nested E rx P \<Longrightarrow> runs P (Suc (pr_current P)) parsed f"
    and loop: "\<And>n es. g (Suc n) es = pbind (Parser_matchOne type) (\<lambda>b.
       if b then pbind (f n) (\<lambda>right. g n (es @ [right])) else preturn es)"
    and type: "type \<noteq> T_EOF"
  shows "parser_ok P \<Longrightarrow> nested E rx P \<Longrightarrow> operands es \<Longrightarrow> c \<le> pr_current P \<Longrightarrow>
    runs P c operands (\<lambda>n. g n es)"
proof (induction "length (pr_tokens P) - pr_current P" arbitrary: P es rule: less_induct)
  case less
  note ok = less.prems(1) and rec = less.prems(2)
  have "runs P' c operands (\<lambda>n. pbind (f n) (\<lambda>right. g n (es @ [right])))" if P': "later P P'" for P'
  proof (rule runs_bind [OF step [OF later_ok [OF P'] nested_later [OF rec P']]])
    fix r P'' assume *: "later P' P''" "Suc (pr_current P') \<le> pr_current P''" "parsed r"
    then have P'': "later P P''" "pr_current P < pr_current P''"
      using P' by (auto intro: later_trans) (auto simp: later_def)
    then have "length (pr_tokens P'') - pr_current P'' < length (pr_tokens P) - pr_current P"
      using ok_index [OF ok] ok_index [OF later_ok [OF P''(1)]] by (auto simp: later_def)
    then show "runs P'' c operands (\<lambda>n. g n (es @ [r]))"
      by (rule less.hyps) (use P'' * less.prems in \<open>auto intro: later_ok nested_later\<close>)
  qed
  with less.prems have "runs P c operands (\<lambda>n. g (Suc n) es)"
    unfolding loop by (intro runs_match [OF ok type]) (auto intro: runs_return)
  then show ?case by (rule runs_Suc)
qed

lemma runs_operands:
  assumes step: "\<And>P. parser_ok P \<Longrightarrow> nested E rx P \<Longrightarrow> runs P (Suc (pr_current P)) parsed f"
    and loop: "\<And>n es. g (Suc n) es = pbind (Parser_matchOne type) (\<lambda>b.
       if b then pbind (f n) (\<lambda>right. g n (es @ [right])) else preturn es)"
    and type: "type \<noteq> T_EOF"
    and combine: "\<And>P es c. list_all parsed es \<Longrightarrow> es \<noteq> [] \<Longrightarrow> parser_ok P \<Longrightarrow> c \<le> pr_current P \<Longrightarrow>
      runs P c parsed (\<lambda>n. plift (h n es))"
    and P: "parser_ok P" "nested E rx P"
  shows "runs P (Suc (pr_current P)) parsed (\<lambda>n. pbind (f n) (\<lambda>e. pbind (g n [e]) (\<lambda>expr.
      if length expr = 1 then preturn (expr ! 0) else plift (h n expr))))"
proof (rule runs_bind [OF step [OF P]])
  let ?c = "Suc (pr_current P)"
  fix e P' assume P': "later P P'" "?c \<le> pr_current P'" "parsed e"
  then have "runs P' ?c operands (\<lambda>n. g n [e])"
    by (intro runs_loop [where g = g, OF step loop type]) (auto intro: later_ok nested_later P)
  then show "runs P' ?c parsed (\<lambda>n. pbind (g n [e]) (\<lambda>expr.
      if length expr = 1 then preturn (expr ! 0) else plift (h n expr)))"
  proof (rule runs_bind)
    fix es P'' assume *: "later P' P''" "?c \<le> pr_current P''" "operands es"
    then have "parsed (es ! 0)" by (cases es) auto
    with * show "runs P'' ?c parsed (\<lambda>n. if length es = 1 then preturn (es ! 0) else plift (h n es))"
      by (cases "length es = 1") (auto intro: runs_return combine later_ok)
  qed
qed

lemma runs_and:
  assumes "parser_ok P" and "nested E rx P"
  shows "runs P (Suc (pr_current P)) parsed (p_and E rx)"
  by (rule runs_Suc, unfold p_and.simps,
      rule runs_operands [where g = "p_and_loop E rx", OF runs_term p_and_loop.simps(2) _ and_or_lift(1) assms]) simp_all

lemma runs_or:
  assumes "parser_ok P"
  shows "runs P (Suc (pr_current P)) parsed (p_or E rx)"
  using assms
proof (induction "length (pr_tokens P) - pr_current P" arbitrary: P rule: less_induct)
  case less
  have "nested E rx P"
    unfolding nested_def
  proof (intro allI impI)
    fix P' assume P': "later P P'" "pr_current P < pr_current P'"
    then have "length (pr_tokens P') - pr_current P' < length (pr_tokens P) - pr_current P"
      using ok_index [OF less.prems] by (auto simp: later_def)
    from less.hyps [OF this later_ok [OF P'(1)]] show "runs P' (pr_current P') parsed (p_or E rx)"
      by (rule runs_weaken) simp_all
  qed
  then show ?case
    by (rule_tac runs_Suc, unfold p_or.simps,
        rule_tac runs_operands [where g = "p_or_loop E rx", OF runs_and p_or_loop.simps(2) _ and_or_lift(2) less.prems]) simp_all
qed

lemma load_ok: "parser_ok (Parser_load input P)"
proof -
  obtain ts i where "sc_tokens (Scanner_scan (Scanner_reset input)) = ts @ [EOFToken i]"
    "\<forall>x \<in> set ts. tk_type x \<noteq> T_EOF" by (rule scan_tokens)
  then show ?thesis by (simp add: Parser_load_def parser_ok_def Let_def)
qed

lemma runs_parse_tokens:
  assumes "parser_ok P"
  shows "runs P 0 parsed (parse_tokens E rx)"
  unfolding parse_tokens_def
proof (rule runs_bind [OF runs_or [OF assms]])
  fix e P' assume P': "later P P'" "parsed e"
  then have ok: "parser_ok P'" by (auto intro: later_ok)
  have "runs P' 0 parsed (\<lambda>n. pbind Parser_peek (\<lambda>tok. if tk_type tok = T_EOF then preturn e
      else pbind Parser_peek (\<lambda>peek. throw_parsing ErrorUnexpectedToken (tk_offset peek) (getLexeme peek)
        (if tk_type peek = T_Str then Some HintUnexpectedToken else None))))"
    using P'(2) ok by (intro runs_peek [OF ok]) (auto intro!: runs_return runs_peek runs_throw)
  then show "runs P' 0 parsed (\<lambda>n. pbind Parser_isAtEnd (\<lambda>atEnd. if atEnd then preturn e
      else pbind Parser_peek (\<lambda>peek. throw_parsing ErrorUnexpectedToken (tk_offset peek) (getLexeme peek)
        (if tk_type peek = T_Str then Some HintUnexpectedToken else None))))"
    by (simp add: Parser_isAtEnd_def pbind_assoc)
qed

lemma parse_settles:
  assumes "input \<noteq> []"
  shows "\<exists>N r P'. (\<forall>n \<ge> N. parse E rx n input P = (Inr r, P')) \<and>
    (case r of None \<Rightarrow> pr_errors P' \<noteq> [] | Some e \<Rightarrow> well_formed e \<and> pr_errors P' = []) \<and>
    unchanged (Parser_load input P) P'"
proof -
  from runs_parse_tokens [OF load_ok, of input P E rx] obtain N r P' where
    N: "\<forall>n \<ge> N. parse_tokens E rx n (Parser_load input P) = (r, P')"
    and r: "case r of Inl e \<Rightarrow> e = ParseError \<and> pr_errors P' \<noteq> [] \<and> unchanged (Parser_load input P) P'
      | Inr x \<Rightarrow> later (Parser_load input P) P' \<and> parsed x \<and> 0 \<le> pr_current P'"
    unfolding runs_def by blast
  let ?r = "case r of Inl _ \<Rightarrow> None | Inr x \<Rightarrow> x"
  from N r assms have "\<forall>n \<ge> N. parse E rx n input P = (Inr ?r, P')"
    by (auto simp: parse_def split: sum.splits)
  moreover have "pr_errors (Parser_load input P) = []" by (simp add: Parser_load_def Let_def)
  with r have "case ?r of None \<Rightarrow> pr_errors P' \<noteq> [] | Some e \<Rightarrow> well_formed e \<and> pr_errors P' = []"
    by (auto simp: parsed_def later_def split: sum.splits)
  moreover from r have "unchanged (Parser_load input P) P'"
    by (auto simp: later_def unchanged_def split: sum.splits)
  ultimately show ?thesis by blast
qed

end
