(* ===== verification/Context_Roundtrip.thy ===== *)
theory Context_Roundtrip
  imports Context_Lexing Context_Parser Context_Implies
begin

text \<open>
  Parsing what \<open>serialize\<close> prints. An expression in disjunctive normal form, as the operations of the
  module build them, is printed without parentheses around its conjunctions; reading the text gives an
  expression of the same value.
\<close>

subsection \<open>What the parser reads\<close>

definition skip :: "nat \<Rightarrow> Parser \<Rightarrow> Parser" where
  "skip k P = P\<lparr>pr_current := pr_current P + k\<rparr>"

definition coming :: "Parser \<Rightarrow> Token list" where
  "coming P = map strip (drop (pr_current P) (pr_tokens P))"

lemma skip_simps [simp]:
  "skip 0 P = P" "skip k (skip l P) = skip (l + k) P" "pr_recovery (skip k P) = pr_recovery P"
  "coming (skip k P) = drop k (coming P)" "pr_tokens (skip k P) = pr_tokens P"
  "pr_errors (skip k P) = pr_errors P" "pr_scanner (skip k P) = pr_scanner P"
  by (simp_all add: skip_def coming_def drop_map add.commute add.left_commute)

text \<open>From some bound on, \<open>f\<close> answers \<open>x\<close> and reads \<open>k\<close> tokens.\<close>

definition gives :: "(nat \<Rightarrow> 'a parsing) \<Rightarrow> Parser \<Rightarrow> 'a \<Rightarrow> nat \<Rightarrow> bool" where
  "gives f P x k \<longleftrightarrow> (\<exists>N. \<forall>n \<ge> N. f n P = (Inr x, skip k P))"

lemma gives_bind:
  assumes "gives f P x k" and "gives (\<lambda>n. g n x) (skip k P) y l" and "m = k + l"
  shows "gives (\<lambda>n. pbind (f n) (g n)) P y m"
proof -
  from assms obtain N M where "\<forall>n \<ge> N. f n P = (Inr x, skip k P)" "\<forall>n \<ge> M. g n x (skip k P) = (Inr y, skip m P)"
    by (auto simp: gives_def)
  then have "\<forall>n \<ge> max N M. pbind (f n) (g n) P = (Inr y, skip m P)" by (simp add: pbind_def)
  then show ?thesis unfolding gives_def by blast
qed

lemma gives_return: "gives (\<lambda>n. preturn x) P x 0"
  by (simp add: gives_def preturn_def)

lemma gives_Suc: "gives (\<lambda>n. f (Suc n)) P x k \<Longrightarrow> gives f P x k"
  unfolding gives_def by (metis Suc_le_D Suc_le_mono)

lemma gives_lift: "\<forall>n \<ge> N. f n = Inr x \<Longrightarrow> gives (\<lambda>n. plift (f n)) P x 0"
  unfolding gives_def plift_def by (rule exI [of _ N]) simp

lemma coming_token:
  assumes "coming P = t # ts"
  obtains tok where "Parser_peek P = (Inr tok, P)" "strip tok = t" "tk_type tok = tk_type t"
proof -
  from assms have "pr_current P < length (pr_tokens P)"
    unfolding coming_def by (metis drop_eq_Nil list.discI list.simps(8) not_le)
  moreover from this assms have "strip (pr_tokens P ! pr_current P) = t"
    by (simp add: coming_def Cons_nth_drop_Suc [symmetric])
  moreover have "tk_type (strip x) = tk_type x" for x by (cases x) simp_all
  ultimately show ?thesis using that [of "pr_tokens P ! pr_current P"] by (auto simp: Parser_peek_def)
qed

lemma gives_peek:
  assumes "coming P = t # ts" and "\<And>tok. strip tok = t \<Longrightarrow> tk_type tok = tk_type t \<Longrightarrow> gives (\<lambda>n. f n tok) P x k"
  shows "gives (\<lambda>n. pbind Parser_peek (f n)) P x k"
proof -
  from coming_token [OF assms(1)] obtain tok
    where tok: "Parser_peek P = (Inr tok, P)" "strip tok = t" "tk_type tok = tk_type t" .
  with assms(2) [OF tok(2,3)] show ?thesis by (simp add: gives_def pbind_def)
qed

lemma gives_advance: "coming P = t # ts \<Longrightarrow> tk_type t \<noteq> T_EOF \<Longrightarrow> gives (\<lambda>n. Parser_advance) P () 1"
  by (erule coming_token)
    (simp add: gives_def Parser_advance_def Parser_isAtEnd_def pbind_def preturn_def skip_def)

lemma gives_check: "coming P = t # ts \<Longrightarrow> gives (\<lambda>n. Parser_check type) P (tk_type t = type) 0"
  by (erule coming_token) (simp add: gives_def Parser_check_def pbind_def preturn_def)

lemma gives_no_match:
  "coming P = t # ts \<Longrightarrow> tk_type t \<noteq> type \<Longrightarrow> gives (\<lambda>n. Parser_matchOne type) P False 0"
  by (erule coming_token) (simp add: gives_def Parser_matchOne_def Parser_check_def pbind_def preturn_def)

lemma gives_match:
  "coming P = t # ts \<Longrightarrow> tk_type t = type \<Longrightarrow> type \<noteq> T_EOF \<Longrightarrow> gives (\<lambda>n. Parser_matchOne type) P True 1"
  by (erule coming_token)
    (simp add: gives_def Parser_matchOne_def Parser_check_def Parser_advance_def Parser_isAtEnd_def pbind_def preturn_def skip_def)

lemma gives_consume:
  "coming P = t # ts \<Longrightarrow> tk_type t = type \<Longrightarrow> type \<noteq> T_EOF \<Longrightarrow> gives (\<lambda>n. Parser_consume type message) P () 1"
  by (erule coming_token)
    (simp add: gives_def Parser_consume_def Parser_check_def Parser_advance_def Parser_isAtEnd_def pbind_def preturn_def skip_def)

lemma strip_eq:
  "strip tok = StrToken 0 s \<longleftrightarrow> (\<exists>i. tok = StrToken i s)"
  "strip tok = QuotedStrToken 0 s \<longleftrightarrow> (\<exists>i. tok = QuotedStrToken i s)"
  "strip tok = RegexStrToken 0 s \<longleftrightarrow> (\<exists>i. tok = RegexStrToken i s)"
  "strip tok = TrueToken 0 \<longleftrightarrow> (\<exists>i. tok = TrueToken i)"
  "strip tok = FalseToken 0 \<longleftrightarrow> (\<exists>i. tok = FalseToken i)"
  "strip tok = LParenToken 0 \<longleftrightarrow> (\<exists>i. tok = LParenToken i)"
  by (cases tok; simp)+

lemma gives_value:
  assumes "coming P = t # ts" and "t = StrToken 0 v \<or> t = QuotedStrToken 0 v"
  shows "gives (\<lambda>n. Parser_value) P v 1"
  unfolding Parser_value_def
proof (rule gives_peek [OF assms(1)])
  fix tok assume "strip tok = t"
  with assms(2) have "(\<exists>i. tok = StrToken i v) \<or> (\<exists>i. tok = QuotedStrToken i v)" by (auto simp: strip_eq)
  moreover have "gives (\<lambda>n. pbind Parser_advance (\<lambda>_. preturn v)) P v 1"
    by (rule gives_bind [OF gives_advance [OF assms(1)] gives_return]) (use assms(2) in auto)
  ultimately show "gives (\<lambda>n. case tok of
         StrToken _ lexeme \<Rightarrow> pbind Parser_advance (\<lambda>_. preturn lexeme)
       | QuotedStrToken _ lexeme \<Rightarrow> pbind Parser_advance (\<lambda>_. preturn lexeme)
       | TrueToken _ \<Rightarrow> pbind Parser_advance (\<lambda>_. preturn ''true'')
       | FalseToken _ \<Rightarrow> pbind Parser_advance (\<lambda>_. preturn ''false'')
       | InToken _ \<Rightarrow> pbind Parser_advance (\<lambda>_. preturn ''in'')
       | _ \<Rightarrow> preturn []) P v 1" by auto
qed

lemma gives_previous:
  assumes "coming P = t # ts" and "\<And>tok. tk_type tok = tk_type t \<Longrightarrow> gives (\<lambda>n. f n tok) (skip 1 P) x k"
  shows "gives (\<lambda>n. pbind Parser_previous (f n)) (skip 1 P) x k"
proof -
  from coming_token [OF assms(1)] obtain tok where tok: "Parser_peek P = (Inr tok, P)" "tk_type tok = tk_type t" by blast
  then have "Parser_previous (skip 1 P) = (Inr tok, skip 1 P)"
    by (auto simp: Parser_peek_def Parser_previous_def skip_def split: if_splits)
  with assms(2) [OF tok(2)] show ?thesis by (simp add: gives_def pbind_def)
qed

lemma gives_quoted: "coming P = QuotedStrToken 0 v # ts \<Longrightarrow> gives (\<lambda>n. Parser_value) P v 1"
  by (erule gives_value) simp

lemma gives_word: "coming P = StrToken 0 v # ts \<Longrightarrow> gives (\<lambda>n. Parser_value) P v 1"
  by (erule gives_value) simp

text \<open>\<open>parses f F w x\<close>: before tokens with the property \<open>F\<close>, \<open>f\<close> reads \<open>w\<close> as \<open>x\<close>.\<close>

definition parses :: "(nat \<Rightarrow> 'a parsing) \<Rightarrow> (Token list \<Rightarrow> bool) \<Rightarrow> Token list \<Rightarrow> 'a \<Rightarrow> bool" where
  "parses f F w x \<longleftrightarrow> (\<forall>P post. \<not> pr_recovery P \<longrightarrow> coming P = w @ post \<longrightarrow> F post \<longrightarrow> gives f P x (length w))"

definition followed :: "TokenType list \<Rightarrow> Token list \<Rightarrow> bool" where
  "followed types post \<longleftrightarrow> (case post of [] \<Rightarrow> False | t # _ \<Rightarrow> tk_type t \<in> set types)"

lemma parsesI:
  "(\<And>P post. \<not> pr_recovery P \<Longrightarrow> coming P = w @ post \<Longrightarrow> F post \<Longrightarrow> gives f P x (length w)) \<Longrightarrow> parses f F w x"
  by (simp add: parses_def)

abbreviation after_term :: "Token list \<Rightarrow> bool" where
  "after_term \<equiv> followed [T_And, T_Or, T_RParen, T_EOF]"

abbreviation after_and :: "Token list \<Rightarrow> bool" where
  "after_and \<equiv> followed [T_Or, T_RParen, T_EOF]"

abbreviation after_or :: "Token list \<Rightarrow> bool" where
  "after_or \<equiv> followed [T_RParen, T_EOF]"

subsection \<open>Tests of a key\<close>

lemma parse_operator_type: "tk_type a = tk_type b \<Longrightarrow> parse_operator E key a = parse_operator E key b"
  by (simp add: parse_operator_def)

text \<open>A key and an operator that is neither \<open>=~\<close> nor \<open>not\<close>; without an operator it is the rest.\<close>

lemma gives_key:
  assumes key: "coming P = StrToken 0 key # t # ts" and t: "tk_type t \<noteq> T_RegexOp" "tk_type t \<noteq> T_Not"
    and operator: "gives (\<lambda>n. parse_operator E key t) (skip 1 P) x l"
  shows "gives (\<lambda>n. parse_key E rx key) P x (Suc l)"
proof -
  have at: "coming (skip 1 P) = t # ts" by (simp add: key)
  have "gives (\<lambda>n. pbind Parser_peek (parse_operator E key)) (skip 1 P) x l"
    by (rule gives_peek [OF at]) (use operator in \<open>simp cong: parse_operator_type\<close>)
  then have "gives (\<lambda>n. pbind (Parser_matchOne T_Not) (\<lambda>isNot. if isNot then m else pbind Parser_peek (parse_operator E key)))
      (skip 1 P) x l" for m
    by (intro gives_bind [OF gives_no_match [OF at t(2)]]) simp_all
  then have "gives (\<lambda>n. pbind (Parser_matchOne T_RegexOp) (\<lambda>isRegex. if isRegex then m' else
      pbind (Parser_matchOne T_Not) (\<lambda>isNot. if isNot then m else pbind Parser_peek (parse_operator E key))))
      (skip 1 P) x l" for m m'
    by (intro gives_bind [OF gives_no_match [OF at t(1)]]) simp_all
  then show ?thesis
    unfolding parse_key_def by (intro gives_bind [OF gives_advance [OF key]]) simp_all
qed

lemma gives_comparison:
  assumes "coming P = t # StrToken 0 v # ts" and "tk_type t \<noteq> T_EOF"
  shows "gives (\<lambda>n. parse_comparison create) P (create (JString v)) 2"
  unfolding parse_comparison_def
  by (rule gives_bind [OF gives_advance [OF assms]], rule gives_bind [OF gives_word gives_return])
    (simp_all add: assms(1))

lemma gives_in:
  assumes "coming P = t # QuotedStrToken 0 v # ts" and "tk_type t \<noteq> T_EOF"
  shows "gives (\<lambda>n. pbind Parser_advance (\<lambda>_. pbind Parser_value (\<lambda>right. preturn (InExpr key right)))) P (InExpr key v) 2"
  by (rule gives_bind [OF gives_advance [OF assms]], rule gives_bind [OF gives_quoted gives_return])
    (simp_all add: assms(1))

lemma gives_equality:
  assumes "coming P = t # QuotedStrToken 0 v # ts" and "tk_type t \<noteq> T_EOF"
  shows "gives (\<lambda>n. parse_equality compare a b) P (compare (JString v)) 2"
  unfolding parse_equality_def
proof (rule gives_bind [OF gives_advance [OF assms]])
  have at: "coming (skip 1 P) = QuotedStrToken 0 v # ts" by (simp add: assms(1))
  have previous: "gives (\<lambda>n. pbind Parser_previous (\<lambda>previous.
       if tk_type previous = T_QuotedStr then preturn (compare (JString v))
       else if v = ''true'' then preturn a else if v = ''false'' then preturn b
       else preturn (compare (JString v)))) (skip 1 (skip 1 P)) (compare (JString v)) 0"
    by (rule gives_previous [OF at]) (simp add: gives_return)
  show "gives (\<lambda>n. pbind Parser_value (\<lambda>right. pbind Parser_previous (\<lambda>previous.
       if tk_type previous = T_QuotedStr then preturn (compare (JString right))
       else if right = ''true'' then preturn a else if right = ''false'' then preturn b
       else preturn (compare (JString right))))) (skip 1 P) (compare (JString v)) 1"
    by (rule gives_bind [OF gives_quoted [OF at]], rule previous) simp
qed simp

lemma gives_notIn:
  assumes "coming P = StrToken 0 key # NotToken 0 # InToken 0 # QuotedStrToken 0 v # ts"
  shows "gives (\<lambda>n. parse_key E rx key) P (NotInExpr key v) 4"
proof -
  have at: "coming (skip 1 P) = NotToken 0 # InToken 0 # QuotedStrToken 0 v # ts"
    "coming (skip 2 P) = InToken 0 # QuotedStrToken 0 v # ts" "coming (skip 3 P) = QuotedStrToken 0 v # ts"
    by (simp_all add: assms numeral_2_eq_2 numeral_3_eq_3)
  have "gives (\<lambda>n. pbind (Parser_consume T_In message) (\<lambda>_. pbind Parser_value (\<lambda>right. preturn (NotInExpr key right))))
      (skip 2 P) (NotInExpr key v) 2" for message
    by (rule gives_bind [OF gives_consume [OF at(2)]], simp, simp, rule gives_bind [OF gives_quoted gives_return])
      (simp_all add: assms numeral_2_eq_2 numeral_3_eq_3)
  then have "gives (\<lambda>n. pbind (Parser_matchOne T_Not) (\<lambda>isNot. if isNot then
      pbind (Parser_consume T_In message) (\<lambda>_. pbind Parser_value (\<lambda>right. preturn (NotInExpr key right))) else m))
      (skip 1 P) (NotInExpr key v) 3" for message m
    by (intro gives_bind [OF gives_match [OF at(1)]]) (simp_all add: numeral_2_eq_2)
  then have "gives (\<lambda>n. pbind (Parser_matchOne T_RegexOp) (\<lambda>isRegex. if isRegex then m' else
      pbind (Parser_matchOne T_Not) (\<lambda>isNot. if isNot then
      pbind (Parser_consume T_In message) (\<lambda>_. pbind Parser_value (\<lambda>right. preturn (NotInExpr key right))) else m)))
      (skip 1 P) (NotInExpr key v) 3" for message m m'
    by (intro gives_bind [OF gives_no_match [OF at(1)]]) simp_all
  then show ?thesis
    unfolding parse_key_def by (intro gives_bind [OF gives_advance [OF assms]]) simp_all
qed

text \<open>A regular expression, as the parser without recovery takes it from its text.\<close>

definition regexp_ok :: "regexp_new \<Rightarrow> RegExp \<Rightarrow> bool" where
  "regexp_ok rx r \<longleftrightarrow> closed_source (re_source r) \<and> list_all is_regex_flag (re_flags r)
     \<and> CHR ''g'' \<notin> set (re_flags r) \<and> CHR ''y'' \<notin> set (re_flags r)
     \<and> rx (re_source r) (if re_flags r = [] then None else Some (re_flags r)) = Some r"

lemma regexp_of_text:
  assumes "regexp_ok rx r"
  shows "regexp_of_lexeme rx tok (regexp_text (re_source r) (re_flags r)) = preturn r"
proof -
  let ?src = "re_source r" and ?flags = "re_flags r" and ?text = "regexp_text (re_source r) (re_flags r)"
  have no_slash: "\<not> is_regex_flag (CHR ''/'')" by (simp add: is_regex_flag_def)
  from assms have ok: "list_all is_regex_flag ?flags" "CHR ''g'' \<notin> set ?flags" "CHR ''y'' \<notin> set ?flags"
    by (simp_all add: regexp_ok_def)
  from ok(1) no_slash have slash_flags: "CHR ''/'' \<notin> set ?flags" unfolding list_all_iff by blast
  have kept: "removeFlagsGY ?flags = ?flags"
    unfolding removeFlagsGY_def filter_id_conv using ok(2,3) by blast
  note flags = slash_flags kept
  have "rev ?text = rev ?flags @ CHR ''/'' # rev ?src @ ''/''" by (simp add: regexp_text_def)
  then have "takeWhile (\<lambda>x. x \<noteq> CHR ''/'') (rev ?text) = rev ?flags"
    using flags(1) by (simp only:) (subst takeWhile_append2, auto)
  then have slash: "last_index_of (CHR ''/'') ?text = 1 + int (length ?src)"
    by (simp add: last_index_of_def index_of_def regexp_text_def)
  have source: "js_substring ?text 1 (1 + int (length ?src)) = ?src"
    by (subst js_substring_sub) (simp_all add: regexp_text_def sub_def nat_add_distrib)
  have rest: "js_substring ?text (1 + int (length ?src) + 1) (int (length ?text)) = ?flags"
    by (subst js_substring_sub) (simp_all add: regexp_text_def sub_def nat_add_distrib)
  from assms show ?thesis
    unfolding regexp_of_lexeme_def Let_def slash source rest flags(2)
    by (auto simp: regexp_ok_def regexp_text_def)
qed

lemma gives_regex:
  assumes "coming P = StrToken 0 key # RegexOpToken 0 # RegexStrToken 0 (regexp_text (re_source r) (re_flags r)) # ts"
    and "regexp_ok rx r" and "\<not> pr_recovery P"
  shows "gives (\<lambda>n. parse_key E rx key) P (RegexExpr key (Some r)) 3"
proof -
  let ?text = "regexp_text (re_source r) (re_flags r)"
  have at: "coming (skip 1 P) = RegexOpToken 0 # RegexStrToken 0 ?text # ts" "coming (skip 2 P) = RegexStrToken 0 ?text # ts"
    by (simp_all add: assms(1) numeral_2_eq_2)
  have strict: "gives (\<lambda>n. regex_strict rx key tok) (skip 2 P) (RegexExpr key (Some r)) 1"
    if "strip tok = RegexStrToken 0 ?text" for tok
  proof -
    from that obtain i where tok: "tok = RegexStrToken i ?text" by (auto simp: strip_eq)
    show ?thesis
      unfolding regex_strict_def
      by (rule gives_bind [OF gives_advance [OF at(2)]]) (simp_all add: tok regexp_of_text [OF assms(2)] gives_return)
  qed
  have "gives (\<lambda>n. parse_regex rx key) (skip 2 P) (RegexExpr key (Some r)) 1"
    unfolding parse_regex_def
    by (rule gives_peek [OF at(2)]) (use strict assms(3) in \<open>simp add: gives_def\<close>)
  then have "gives (\<lambda>n. pbind (Parser_matchOne T_RegexOp) (\<lambda>isRegex. if isRegex then parse_regex rx key else m))
      (skip 1 P) (RegexExpr key (Some r)) 2" for m
    by (intro gives_bind [OF gives_match [OF at(1)]]) (simp_all add: numeral_2_eq_2)
  then show ?thesis
    unfolding parse_key_def by (intro gives_bind [OF gives_advance [OF assms(1)]]) simp_all
qed

subsection \<open>Texts and tokens of tests\<close>

definition name :: "string \<Rightarrow> bool" where
  "name w \<longleftrightarrow> word w \<and> keyword w = None"

definition quotable :: "js_value \<Rightarrow> bool" where
  "quotable v = (case v of JString s \<Rightarrow> single_quote \<notin> set s | _ \<Rightarrow> False)"

definition printable_number :: "env \<Rightarrow> js_value \<Rightarrow> bool" where
  "printable_number E v =
     (case v of
        JNumber n \<Rightarrow> n \<noteq> NaN \<and> name (num_str E n) \<and> parse_float (num_str E n) = n
      | _ \<Rightarrow> False)"

fun printable_test :: "env \<Rightarrow> regexp_new \<Rightarrow> ContextKeyExpression \<Rightarrow> bool" where
  "printable_test E rx FalseExpr = True"
| "printable_test E rx TrueExpr = True"
| "printable_test E rx (DefinedExpr key) = name key"
| "printable_test E rx (NotExpr key) = name key"
| "printable_test E rx (EqualsExpr key v) = (name key \<and> quotable v)"
| "printable_test E rx (NotEqualsExpr key v) = (name key \<and> quotable v)"
| "printable_test E rx (AndExpr _ _) = False"
| "printable_test E rx (RegexExpr key r) = (name key \<and> (case r of Some re \<Rightarrow> regexp_ok rx re | None \<Rightarrow> False))"
| "printable_test E rx (NotRegexExpr key r) = (name key \<and> (case r of Some re \<Rightarrow> regexp_ok rx re | None \<Rightarrow> False))"
| "printable_test E rx (OrExpr _ _) = False"
| "printable_test E rx (InExpr key valueKey) = (name key \<and> single_quote \<notin> set valueKey)"
| "printable_test E rx (NotInExpr key valueKey) = (name key \<and> single_quote \<notin> set valueKey)"
| "printable_test E rx (GreaterExpr key v) = (name key \<and> printable_number E v)"
| "printable_test E rx (GreaterEqualsExpr key v) = (name key \<and> printable_number E v)"
| "printable_test E rx (SmallerExpr key v) = (name key \<and> printable_number E v)"
| "printable_test E rx (SmallerEqualsExpr key v) = (name key \<and> printable_number E v)"

text \<open>The tokens of a test, and what the parser makes of them: keys that are constants are replaced.\<close>

fun test_tokens :: "env \<Rightarrow> ContextKeyExpression \<Rightarrow> Token list" where
  "test_tokens E FalseExpr = [FalseToken 0]"
| "test_tokens E TrueExpr = [TrueToken 0]"
| "test_tokens E (DefinedExpr key) = [StrToken 0 key]"
| "test_tokens E (NotExpr key) = [NegToken 0, StrToken 0 key]"
| "test_tokens E (EqualsExpr key v) = [StrToken 0 key, EqToken 0 False, QuotedStrToken 0 (to_string (num_str E) v)]"
| "test_tokens E (NotEqualsExpr key v) = [StrToken 0 key, NotEqToken 0 False, QuotedStrToken 0 (to_string (num_str E) v)]"
| "test_tokens E (RegexExpr key r) = [StrToken 0 key, RegexOpToken 0, RegexStrToken 0 (regex_text r)]"
| "test_tokens E (NotRegexExpr key r) =
     [NegToken 0, LParenToken 0, StrToken 0 key, RegexOpToken 0, RegexStrToken 0 (regex_text r), RParenToken 0]"
| "test_tokens E (InExpr key valueKey) = [StrToken 0 key, InToken 0, QuotedStrToken 0 valueKey]"
| "test_tokens E (NotInExpr key valueKey) = [StrToken 0 key, NotToken 0, InToken 0, QuotedStrToken 0 valueKey]"
| "test_tokens E (GreaterExpr key v) = [StrToken 0 key, GtToken 0, StrToken 0 (to_string (num_str E) v)]"
| "test_tokens E (GreaterEqualsExpr key v) = [StrToken 0 key, GtEqToken 0, StrToken 0 (to_string (num_str E) v)]"
| "test_tokens E (SmallerExpr key v) = [StrToken 0 key, LtToken 0, StrToken 0 (to_string (num_str E) v)]"
| "test_tokens E (SmallerEqualsExpr key v) = [StrToken 0 key, LtEqToken 0, StrToken 0 (to_string (num_str E) v)]"
| "test_tokens E _ = []"

fun reread :: "env \<Rightarrow> ContextKeyExpression \<Rightarrow> ContextKeyExpression" where
  "reread E (DefinedExpr key) = Defined_create E key"
| "reread E (NotExpr key) = Not_create E key"
| "reread E (EqualsExpr key v) = Equals_create E key v"
| "reread E (NotEqualsExpr key v) = NotEquals_create E key v"
| "reread E e = e"

lemma lexes_name: "name w \<Longrightarrow> lexes w [StrToken 0 w]"
  using lexes_word [of w] by (simp add: name_def word_token_def)

lemma lexes_keywords:
  "lexes ''true'' [TrueToken 0]" "lexes ''false'' [FalseToken 0]" "lexes ''in'' [InToken 0]" "lexes ''not'' [NotToken 0]"
proof -
  have "word ''true'' \<and> word ''false'' \<and> word ''in'' \<and> word ''not''" by code_simp
  then show "lexes ''true'' [TrueToken 0]" "lexes ''false'' [FalseToken 0]" "lexes ''in'' [InToken 0]" "lexes ''not'' [NotToken 0]"
    using lexes_word [of "''true''"] lexes_word [of "''false''"] lexes_word [of "''in''"] lexes_word [of "''not''"]
    by (simp_all add: word_token_def keyword_def)
qed

lemma lexes_spaces: "lexes u [t] \<Longrightarrow> lexes v vs \<Longrightarrow> lexes (u @ CHR '' '' # v) (t # vs)"
  using lexes_space [of u "[t]" v vs] by simp

lemma word_first: "name w \<Longrightarrow> \<exists>ch v. w = ch # v \<and> ch \<noteq> CHR ''=''"
  using special_chars(5) by (cases w) (auto simp: name_def word_def)

lemma lexes_not_name: "name w \<Longrightarrow> lexes (CHR ''!'' # w) [NegToken 0, StrToken 0 w]"
  using word_first [of w] lexes_name [of w] by (auto intro: lexes_neg)

lemma lexes_regex_text:
  "regexp_ok rx re \<Longrightarrow> lexes (regex_text (Some re)) [RegexStrToken 0 (regex_text (Some re))]"
  using lexes_regex [of "re_source re" "re_flags re"]
  by (simp add: regexp_ok_def regex_text_def regexp_text_def)

lemmas lexes_before_blank =
  lexes_operators(3-9) [THEN lexes_spaces, simplified] lexes_keywords(3,4) [THEN lexes_spaces, simplified]

lemma lexes_test: "printable_test E rx t \<Longrightarrow> lexes (serialize E t) (test_tokens E t)"
proof (cases t)
  case (NotRegexExpr key r)
  moreover assume "printable_test E rx t"
  ultimately obtain re where r: "r = Some re" "regexp_ok rx re" and "name key" by (auto split: option.splits)
  then have "lexes (key @ CHR '' '' # (''='' @ [CHR 0x7E]) @ CHR '' '' # regex_text r)
      [StrToken 0 key, RegexOpToken 0, RegexStrToken 0 (regex_text r)]"
    by (intro lexes_spaces lexes_name lexes_operators) (auto intro: lexes_regex_text)
  from lexes_neg [OF lexes_lparen [OF lexes_rparen [OF this]]] NotRegexExpr show ?thesis by simp
qed (auto simp: quotable_def printable_number_def split: option.splits js_value.splits
    intro!: lexes_spaces lexes_keywords lexes_name lexes_not_name lexes_before_blank lexes_quoted lexes_regex_text)

subsection \<open>Parsing the tokens\<close>

lemma tk_type_strip [simp]: "tk_type (strip t) = tk_type t"
  by (cases t) simp_all

lemma followed_Cons: "followed types post \<Longrightarrow> \<exists>t ts. post = t # ts \<and> tk_type t \<in> set types"
  by (cases post) (simp_all add: followed_def)

text \<open>The tests that start with their key.\<close>

fun keyed :: "ContextKeyExpression \<Rightarrow> bool" where
  "keyed FalseExpr = False"
| "keyed TrueExpr = False"
| "keyed (NotExpr _) = False"
| "keyed (NotRegexExpr _ _) = False"
| "keyed (AndExpr _ _) = False"
| "keyed (OrExpr _ _) = False"
| "keyed _ = True"

lemma number_created:
  "printable_number E v \<Longrightarrow> Greater_create k (JString (to_string (num_str E) v)) = GreaterExpr k v"
  "printable_number E v \<Longrightarrow> GreaterEquals_create k (JString (to_string (num_str E) v)) = GreaterEqualsExpr k v"
  "printable_number E v \<Longrightarrow> Smaller_create k (JString (to_string (num_str E) v)) = SmallerExpr k v"
  "printable_number E v \<Longrightarrow> SmallerEquals_create k (JString (to_string (num_str E) v)) = SmallerEqualsExpr k v"
  by (auto simp: printable_number_def Greater_create_def GreaterEquals_create_def Smaller_create_def
      SmallerEquals_create_def withFloatOrStr_def Let_def split: js_value.splits)

lemma gives_binary:
  assumes "coming P = StrToken 0 key # op # v # post" and "tk_type op \<notin> set [T_RegexOp, T_Not]"
    and "gives (\<lambda>n. parse_operator E key op) (skip 1 P) x 2"
  shows "\<exists>key ts. coming P = StrToken 0 key # ts \<and> gives (\<lambda>n. parse_key E rx key) P x (Suc (Suc (Suc 0)))"
  using gives_key [OF assms(1) _ _ assms(3), of rx] assms by (auto simp: numeral_2_eq_2)

lemma gives_compared:
  assumes "coming P = StrToken 0 key # op # StrToken 0 v # post" and "parse_operator E key op = parse_comparison create"
    and "tk_type op \<in> set [T_Lt, T_LtEq, T_Gt, T_GtEq]"
  shows "\<exists>key ts. coming P = StrToken 0 key # ts
    \<and> gives (\<lambda>n. parse_key E rx key) P (create (JString v)) (Suc (Suc (Suc 0)))"
proof (rule gives_binary [OF assms(1)])
  show "gives (\<lambda>n. parse_operator E key op) (skip 1 P) (create (JString v)) 2"
    unfolding assms(2) by (rule gives_comparison) (use assms in auto)
qed (use assms(3) in auto)

lemma gives_equated:
  assumes "coming P = StrToken 0 key # op # QuotedStrToken 0 v # post"
    and "parse_operator E key op = parse_equality compare a b" and "tk_type op \<in> set [T_Eq, T_NotEq]"
  shows "\<exists>key ts. coming P = StrToken 0 key # ts
    \<and> gives (\<lambda>n. parse_key E rx key) P (compare (JString v)) (Suc (Suc (Suc 0)))"
proof (rule gives_binary [OF assms(1)])
  show "gives (\<lambda>n. parse_operator E key op) (skip 1 P) (compare (JString v)) 2"
    unfolding assms(2) by (rule gives_equality) (use assms in auto)
qed (use assms(3) in auto)

lemma gives_keyed:
  assumes "keyed t" and "printable_test E rx t" and P: "coming P = test_tokens E t @ post" and "after_term post"
    and "\<not> pr_recovery P"
  shows "\<exists>key ts. coming P = StrToken 0 key # ts \<and> gives (\<lambda>n. parse_key E rx key) P (reread E t) (length (test_tokens E t))"
proof (cases t)
  case (DefinedExpr key)
  from followed_Cons [OF assms(4)] obtain p ps where post: "post = p # ps"
    "tk_type p \<in> set [T_And, T_Or, T_RParen, T_EOF]" by blast
  then have "gives (\<lambda>n. parse_operator E key p) (skip 1 P) (Defined_create E key) 0"
    by (auto simp: parse_operator_def gives_return)
  from gives_key [OF _ _ _ this, of ps rx] post P DefinedExpr show ?thesis by auto
next
  case (EqualsExpr key v)
  then obtain s where "v = JString s" using assms(2) by (auto simp: quotable_def split: js_value.splits)
  with EqualsExpr P show ?thesis
    using gives_equated [of P key "EqToken 0 False" s post E "Equals_create E key"]
    by (simp add: parse_operator_def)
next
  case (NotEqualsExpr key v)
  then obtain s where "v = JString s" using assms(2) by (auto simp: quotable_def split: js_value.splits)
  with NotEqualsExpr P show ?thesis
    using gives_equated [of P key "NotEqToken 0 False" s post E "NotEquals_create E key"]
    by (simp add: parse_operator_def)
next
  case (RegexExpr key r)
  then obtain re where re: "r = Some re" "regexp_ok rx re" using assms(2) by (auto split: option.splits)
  with gives_regex [OF _ re(2) assms(5), of key post E] P RegexExpr show ?thesis
    by (auto simp: regex_text_def regexp_text_def numeral_3_eq_3)
next
  case (InExpr key w)
  with P gives_in [of "skip 1 P" "InToken 0" w post key]
  have "gives (\<lambda>n. parse_operator E key (InToken 0)) (skip 1 P) (InExpr key w) 2"
    by (simp add: parse_operator_def)
  from gives_binary [OF _ _ this, of "QuotedStrToken 0 w" post rx] P InExpr show ?thesis by simp
next
  case (NotInExpr key w)
  with gives_notIn [of P key w post E rx] P show ?thesis by (auto simp: eval_nat_numeral)
next
  case (GreaterExpr key v)
  with P assms(2) show ?thesis
    using gives_compared [of P key "GtToken 0" "to_string (num_str E) v" post E "Greater_create key"]
    by (simp add: parse_operator_def number_created)
next
  case (GreaterEqualsExpr key v)
  with P assms(2) show ?thesis
    using gives_compared [of P key "GtEqToken 0" "to_string (num_str E) v" post E "GreaterEquals_create key"]
    by (simp add: parse_operator_def number_created)
next
  case (SmallerExpr key v)
  with P assms(2) show ?thesis
    using gives_compared [of P key "LtToken 0" "to_string (num_str E) v" post E "Smaller_create key"]
    by (simp add: parse_operator_def number_created)
next
  case (SmallerEqualsExpr key v)
  with P assms(2) show ?thesis
    using gives_compared [of P key "LtEqToken 0" "to_string (num_str E) v" post E "SmallerEquals_create key"]
    by (simp add: parse_operator_def number_created)
qed (use assms(1) in simp_all)

subsubsection \<open>Terms\<close>

lemma parses_keyed:
  assumes "keyed t" and "printable_test E rx t"
  shows "parses (p_term E rx) after_term (test_tokens E t) (Some (reread E t))"
proof (rule parsesI)
  fix P post assume P: "\<not> pr_recovery P" "coming P = test_tokens E t @ post" "after_term post"
  from gives_keyed [OF assms P(2,3,1)] obtain key ts where key: "coming P = StrToken 0 key # ts"
    "gives (\<lambda>n. parse_key E rx key) P (reread E t) (length (test_tokens E t))" by blast
  let ?k = "length (test_tokens E t)"
  have "gives (\<lambda>n. pbind (parse_key E rx key) (\<lambda>e. preturn (Some e))) P (Some (reread E t)) ?k"
    by (rule gives_bind [OF key(2) gives_return]) simp
  then have "gives (\<lambda>n. p_primary E rx (Suc n)) P (Some (reread E t)) ?k"
    unfolding p_primary.simps by (intro gives_peek [OF key(1)]) (auto simp: strip_eq)
  then have "gives (p_primary E rx) P (Some (reread E t)) ?k" by (rule gives_Suc)
  then have "gives (\<lambda>n. p_term E rx (Suc n)) P (Some (reread E t)) ?k"
    unfolding p_term.simps by (intro gives_bind [OF gives_no_match [OF key(1)]]) simp_all
  then show "gives (p_term E rx) P (Some (reread E t)) ?k" by (rule gives_Suc)
qed

lemma parses_constant:
  "parses (p_term E rx) after_term [TrueToken 0] (Some TrueExpr)"
  "parses (p_term E rx) after_term [FalseToken 0] (Some FalseExpr)"
proof -
  have "gives (p_term E rx) P (Some e) 1"
    if P: "coming P = t # post" and t: "t = TrueToken 0 \<and> e = TrueExpr \<or> t = FalseToken 0 \<and> e = FalseExpr" for P t post e
  proof -
    have "gives (\<lambda>n. pbind Parser_advance (\<lambda>_. preturn (Some e))) P (Some e) 1"
      by (rule gives_bind [OF gives_advance [OF P] gives_return]) (use t in auto)
    then have "gives (\<lambda>n. p_primary E rx (Suc n)) P (Some e) 1"
      unfolding p_primary.simps by (intro gives_peek [OF P]) (use t in \<open>auto simp: strip_eq\<close>)
    then have "gives (p_primary E rx) P (Some e) 1" by (rule gives_Suc)
    then have "gives (\<lambda>n. p_term E rx (Suc n)) P (Some e) 1"
      unfolding p_term.simps by (intro gives_bind [OF gives_no_match [OF P]]) (use t in auto)
    then show ?thesis by (rule gives_Suc)
  qed
  then show "parses (p_term E rx) after_term [TrueToken 0] (Some TrueExpr)"
    "parses (p_term E rx) after_term [FalseToken 0] (Some FalseExpr)"
    by (auto simp: parses_def)
qed

lemma parses_not:
  "parses (p_term E rx) after_term [NegToken 0, StrToken 0 key] (Some (Not_create E key))"
proof (rule parsesI)
  fix P post assume P: "coming P = [NegToken 0, StrToken 0 key] @ post"
  then have at: "coming P = NegToken 0 # StrToken 0 key # post" "coming (skip 1 P) = StrToken 0 key # post" by simp_all
  have "gives (\<lambda>n. pbind Parser_advance (\<lambda>_. preturn (Some (Not_create E key)))) (skip 1 P) (Some (Not_create E key)) 1"
    by (rule gives_bind [OF gives_advance [OF at(2)] gives_return]) simp_all
  then have "gives (\<lambda>n. p_term E rx (Suc n)) P (Some (Not_create E key)) 2"
    unfolding p_term.simps
    by (intro gives_bind [OF gives_match [OF at(1)]], simp, simp, simp only: if_True,
        intro gives_peek [OF at(2)]) (auto simp: strip_eq)
  then show "gives (p_term E rx) P (Some (Not_create E key)) (length [NegToken 0, StrToken 0 key])"
    by (simp add: gives_Suc numeral_2_eq_2)
qed

subsubsection \<open>Lists of operands\<close>

fun separated :: "Token \<Rightarrow> Token list list \<Rightarrow> Token list" where
  "separated sep [] = []"
| "separated sep (w # ws) = w @ concat (map ((#) sep) ws)"

lemma loop_gives:
  assumes loop: "\<And>n es. g (Suc n) es = pbind (Parser_matchOne type) (\<lambda>b.
       if b then pbind (f n) (\<lambda>right. g n (es @ [right])) else preturn es)"
    and sep: "tk_type sep = type" "type \<noteq> T_EOF" "\<And>ts. F (sep # ts)"
    and post: "followed types post" "type \<notin> set types" "F post"
  shows "list_all2 (parses f F) ws xs \<Longrightarrow> \<not> pr_recovery P \<Longrightarrow> coming P = concat (map ((#) sep) ws) @ post \<Longrightarrow>
    gives (\<lambda>n. g n acc) P (acc @ xs) (length (concat (map ((#) sep) ws)))"
proof (induction ws xs arbitrary: P acc rule: list_all2_induct)
  case Nil
  from followed_Cons [OF post(1)] obtain p ps where p: "post = p # ps" "tk_type p \<in> set types" by blast
  with post(2) Nil have "gives (\<lambda>n. g (Suc n) acc) P acc 0"
    unfolding loop by (intro gives_bind [OF gives_no_match [of P p ps]]) (auto intro: gives_return)
  then show ?case by (simp add: gives_Suc)
next
  case (Cons w ws x xs)
  let ?rest = "concat (map ((#) sep) ws)"
  have at: "coming P = sep # w @ ?rest @ post" using Cons.prems(2) by simp
  have F: "F (?rest @ post)" using sep(3) post(3) by (cases ws) simp_all
  from Cons.hyps(1) have w: "gives f (skip 1 P) x (length w)"
    unfolding parses_def using Cons.prems(1) F at by auto
  have "gives (\<lambda>n. g n (acc @ [x])) (skip (length w) (skip 1 P)) ((acc @ [x]) @ xs) (length ?rest)"
    by (rule Cons.IH) (use Cons.prems(1) at in simp_all)
  then have "gives (\<lambda>n. pbind (f n) (\<lambda>right. g n (acc @ [right]))) (skip 1 P) ((acc @ [x]) @ xs) (length w + length ?rest)"
    by (rule gives_bind [OF w]) simp
  then have "gives (\<lambda>n. g (Suc n) acc) P (acc @ x # xs) (Suc (length w + length ?rest))"
    unfolding loop by (intro gives_bind [OF gives_match [OF at]]) (simp_all add: sep)
  then show ?case by (simp add: gives_Suc)
qed

lemma parses_operands:
  assumes loop: "\<And>n es. g (Suc n) es = pbind (Parser_matchOne type) (\<lambda>b.
       if b then pbind (f n) (\<lambda>right. g n (es @ [right])) else preturn es)"
    and sep: "tk_type sep = type" "type \<noteq> T_EOF" "\<And>ts. F (sep # ts)"
    and types: "type \<notin> set types" "\<And>post. followed types post \<Longrightarrow> F post"
    and ws: "list_all2 (parses f F) ws xs" "ws \<noteq> []"
    and r: "if length xs = 1 then r = xs ! 0 else \<exists>N. \<forall>n \<ge> N. h n xs = Inr r"
  shows "parses (\<lambda>n. pbind (f n) (\<lambda>e. pbind (g n [e]) (\<lambda>expr.
      if length expr = 1 then preturn (expr ! 0) else plift (h n expr)))) (followed types) (separated sep ws) r"
proof (rule parsesI)
  fix P post assume P: "\<not> pr_recovery P" "coming P = separated sep ws @ post" "followed types post"
  from ws obtain w ws' x xs' where eq: "ws = w # ws'" "xs = x # xs'" and w: "parses f F w x"
    and ws': "list_all2 (parses f F) ws' xs'" by (cases ws; cases xs) auto
  let ?rest = "concat (map ((#) sep) ws')"
  have "F (?rest @ post)" using sep(3) types(2) [OF P(3)] by (cases ws') simp_all
  then have "gives f P x (length w)" using w P eq by (simp add: parses_def)
  moreover have "gives (\<lambda>n. g n [x]) (skip (length w) P) ([x] @ xs') (length ?rest)"
    by (rule loop_gives [OF loop sep P(3) types(1) types(2) [OF P(3)] ws']) (use P eq in simp_all)
  moreover have "gives (\<lambda>n. if length ([x] @ xs') = 1 then preturn (([x] @ xs') ! 0) else plift (h n ([x] @ xs'))) P' r 0" for P'
    using r unfolding eq by (auto intro: gives_return gives_lift split: if_splits)
  ultimately show "gives (\<lambda>n. pbind (f n) (\<lambda>e. pbind (g n [e]) (\<lambda>expr.
      if length expr = 1 then preturn (expr ! 0) else plift (h n expr)))) P r (length (separated sep ws))"
    by (elim gives_bind) (simp_all add: eq)
qed

lemma parses_Suc: "parses (\<lambda>n. f (Suc n)) F w x \<Longrightarrow> parses f F w x"
  by (auto simp: parses_def intro: gives_Suc)

lemma parses_and:
  assumes "list_all2 (parses (p_term E rx) after_term) ws xs" and "ws \<noteq> []"
    and "if length xs = 1 then r = xs ! 0 else \<exists>N. \<forall>n \<ge> N. ContextKeyExpr_and E n xs = Inr r"
  shows "parses (p_and E rx) after_and (separated (AndToken 0) ws) r"
  by (rule parses_Suc, unfold p_and.simps,
      rule parses_operands [where g = "p_and_loop E rx" and f = "p_term E rx" and h = "ContextKeyExpr_and E", OF p_and_loop.simps(2) _ _ _ _ _ assms])
    (auto simp: followed_def split: list.splits)

lemma parses_or:
  assumes "list_all2 (parses (p_and E rx) after_and) ws xs" and "ws \<noteq> []"
    and "if length xs = 1 then r = xs ! 0 else \<exists>N. \<forall>n \<ge> N. ContextKeyExpr_or E n xs = Inr r"
  shows "parses (p_or E rx) after_or (separated (OrToken 0) ws) r"
  by (rule parses_Suc, unfold p_or.simps,
      rule parses_operands [where g = "p_or_loop E rx" and f = "p_and E rx" and h = "ContextKeyExpr_or E", OF p_or_loop.simps(2) _ _ _ _ _ assms])
    (auto simp: followed_def split: list.splits)

lemma parses_one: "parses (p_term E rx) after_term w x \<Longrightarrow> parses (p_or E rx) after_or w x"
  using parses_or [OF _ _, of E rx "[w]" "[x]" x] parses_and [OF _ _, of E rx "[w]" "[x]" x] by simp

lemma parses_negated:
  assumes "parses (p_term E rx) after_term w (Some x)" and "\<exists>N. \<forall>n \<ge> N. negate E n x = Inr z"
  shows "parses (p_term E rx) after_term (NegToken 0 # LParenToken 0 # w @ [RParenToken 0]) z"
proof (rule parsesI)
  fix P post assume P: "\<not> pr_recovery P" "coming P = (NegToken 0 # LParenToken 0 # w @ [RParenToken 0]) @ post"
  let ?P = "skip 1 (skip 1 P)"
  have at: "coming P = NegToken 0 # LParenToken 0 # w @ RParenToken 0 # post"
    "coming (skip 1 P) = LParenToken 0 # w @ RParenToken 0 # post"
    "coming ?P = w @ RParenToken 0 # post" "coming (skip (length w) ?P) = RParenToken 0 # post"
    using P(2) by simp_all
  have "gives (p_or E rx) ?P (Some x) (length w)"
    using parses_one [OF assms(1)] P(1) at(3) by (auto simp: parses_def followed_def)
  moreover from assms(2) have "gives (\<lambda>n. plift (negate E n x)) P' z 0" for P' by (auto intro: gives_lift)
  then have "gives (\<lambda>n. pbind (Parser_consume T_RParen closing_paren) (\<lambda>_.
      case Some x of None \<Rightarrow> preturn None | Some e \<Rightarrow> plift (negate E n e))) (skip (length w) ?P) z 1"
    by (intro gives_bind [OF gives_consume [OF at(4)]]) simp_all
  ultimately have "gives (\<lambda>n. pbind (p_or E rx n) (\<lambda>expr. pbind (Parser_consume T_RParen closing_paren) (\<lambda>_.
      case expr of None \<Rightarrow> preturn None | Some e \<Rightarrow> plift (negate E n e)))) ?P z (length w + 1)"
    by (rule gives_bind) simp
  then have "gives (\<lambda>n. pbind Parser_advance (\<lambda>_. pbind (p_or E rx n) (\<lambda>expr. pbind (Parser_consume T_RParen closing_paren) (\<lambda>_.
      case expr of None \<Rightarrow> preturn None | Some e \<Rightarrow> plift (negate E n e))))) (skip 1 P) z (length w + 2)"
    by (intro gives_bind [OF gives_advance [OF at(2)]]) simp_all
  then have "gives (\<lambda>n. p_term E rx (Suc n)) P z (length w + 3)"
    unfolding p_term.simps
    by (intro gives_bind [OF gives_match [OF at(1)]], simp, simp, simp only: if_True,
        intro gives_peek [OF at(2)]) (auto simp: strip_eq)
  then show "gives (p_term E rx) P z (length (NegToken 0 # LParenToken 0 # w @ [RParenToken 0]))"
    by (simp add: gives_Suc eval_nat_numeral)
qed

lemma parses_test:
  assumes "printable_test E rx t"
  shows "parses (p_term E rx) after_term (test_tokens E t) (Some (reread E t))"
proof (cases t)
  case (NotRegexExpr key r)
  have "parses (p_term E rx) after_term (test_tokens E (RegexExpr key r)) (Some (RegexExpr key r))"
    using parses_keyed [of "RegexExpr key r" E rx] assms NotRegexExpr by simp
  moreover have "\<forall>n \<ge> 1. negate E n (RegexExpr key r) = Inr (Some (NotRegexExpr key r))"
    by (auto simp: Suc_le_eq gr0_conv_Suc)
  then have "\<exists>N. \<forall>n \<ge> N. negate E n (RegexExpr key r) = Inr (Some (NotRegexExpr key r))" by (rule exI)
  ultimately show ?thesis using parses_negated NotRegexExpr by force
qed (use assms parses_constant parses_not parses_keyed [of t] in auto)

subsection \<open>The value of what is read\<close>

lemma reread_value:
  assumes "printable_test E rx t" and "behaves E c R t"
  shows "simple (reread E t)" and "behaves E c R (reread E t)" and "evaluate E c (reread E t) = evaluate E c t"
  using assms
  by (cases t; auto simp: Defined_create_def Not_create_def Equals_create_def NotEquals_create_def quotable_def
      agrees_def plain_value_def split: option.splits js_value.splits)+

definition tests :: "ContextKeyExpression \<Rightarrow> ContextKeyExpression list" where
  "tests e = (case e of AndExpr es _ \<Rightarrow> es | _ \<Rightarrow> [e])"

definition printable_conjunction :: "env \<Rightarrow> regexp_new \<Rightarrow> ContextKeyExpression \<Rightarrow> bool" where
  "printable_conjunction E rx e \<longleftrightarrow> tests e \<noteq> [] \<and> list_all (printable_test E rx) (tests e)"

definition printable :: "env \<Rightarrow> regexp_new \<Rightarrow> ContextKeyExpression \<Rightarrow> bool" where
  "printable E rx e \<longleftrightarrow> getTerminals e \<noteq> [] \<and> list_all (printable_conjunction E rx) (getTerminals e)"

definition same_value :: "env \<Rightarrow> IContext \<Rightarrow> RegExp option set \<Rightarrow> ContextKeyExpression \<Rightarrow> ContextKeyExpression \<Rightarrow> bool" where
  "same_value E c R e x \<longleftrightarrow> well_formed x \<and> behaves E c R x \<and> evaluate E c x = evaluate E c e"

lemma same_values:
  "list_all2 (same_value E c R) es xs \<Longrightarrow> list_all well_formed xs \<and> list_all (behaves E c R) xs
    \<and> list_all (evaluate E c) xs = list_all (evaluate E c) es \<and> list_ex (evaluate E c) xs = list_ex (evaluate E c) es"
  by (induction rule: list_all2_induct) (auto simp: same_value_def)

text \<open>The operands combined: one is returned as it is, several by the given operation.\<close>

lemma combined_and:
  assumes "inj_on regexp_source R" and xs: "list_all2 (same_value E c R) es xs" "es \<noteq> []"
  shows "\<exists>x. well_formed x \<and> behaves E c R x \<and> evaluate E c x = list_all (evaluate E c) es \<and>
    (if length (map Some xs) = 1 then Some x = map Some xs ! 0
     else \<exists>N. \<forall>n \<ge> N. ContextKeyExpr_and E n (map Some xs) = Inr (Some x))"
proof (cases "length xs = 1")
  case True
  then obtain x where "xs = [x]" by (auto simp: length_Suc_conv)
  with same_values [OF xs(1)] show ?thesis by auto
next
  case False
  note same = same_values [OF xs(1)]
  from xs have "xs \<noteq> []" by auto
  with And_create_returns [of "map Some xs" E True] same obtain N x
    where x: "well_formed x" "\<And>n. N \<le> n \<Longrightarrow> And_create E n (map Some xs) None True = Inr (Some x)"
    by (auto split: option.splits)
  from And_create_sem [OF assms(1) _ _ x(2) [OF order_refl], of c] same
  have "conjunction_of E c R xs (Some x)" by (simp add: remembers_def)
  with x same False show ?thesis by (auto simp: conjunction_of_def ContextKeyExpr_and_def)
qed

lemma combined_or:
  assumes "inj_on regexp_source R" and xs: "list_all2 (same_value E c R) es xs" "es \<noteq> []"
  shows "\<exists>x. well_formed x \<and> behaves E c R x \<and> evaluate E c x = list_ex (evaluate E c) es \<and>
    (if length (map Some xs) = 1 then Some x = map Some xs ! 0
     else \<exists>N. \<forall>n \<ge> N. ContextKeyExpr_or E n (map Some xs) = Inr (Some x))"
proof (cases "length xs = 1")
  case True
  then obtain x where "xs = [x]" by (auto simp: length_Suc_conv)
  with same_values [OF xs(1)] show ?thesis by auto
next
  case False
  note same = same_values [OF xs(1)]
  from xs have "xs \<noteq> []" by auto
  with Or_create_returns [of "map Some xs" E True] same obtain N x
    where x: "well_formed x" "\<And>n. N \<le> n \<Longrightarrow> Or_create E n (map Some xs) None True = Inr (Some x)"
    by (auto split: option.splits)
  from Or_create_sem [OF assms(1) _ _ x(2) [OF order_refl], of c] same
  have "disjunction_of E c R xs (Some x)" by (simp add: remembers_def)
  with x same False show ?thesis by (auto simp: disjunction_of_def ContextKeyExpr_or_def)
qed

lemma list_choice:
  "(\<And>x. x \<in> set xs \<Longrightarrow> \<exists>y. P x y) \<Longrightarrow> \<exists>ys. list_all2 P xs ys"
proof (induction xs)
  case (Cons x xs)
  then obtain y ys where "P x y" "list_all2 P xs ys" by fastforce
  then have "list_all2 P (x # xs) (y # ys)" by simp
  then show ?case by blast
qed (rule exI [of _ "[]"], simp)

lemma test_same_value:
  "printable_test E rx t \<Longrightarrow> behaves E c R t \<Longrightarrow> same_value E c R t (reread E t)"
  using reread_value [of E rx t c R] by (simp add: same_value_def simple_well_formed)

definition conjunction_tokens :: "env \<Rightarrow> ContextKeyExpression \<Rightarrow> Token list" where
  "conjunction_tokens E e = separated (AndToken 0) (map (test_tokens E) (tests e))"

lemma tests_value:
  "behaves E c R e \<Longrightarrow> list_all (behaves E c R) (tests e)"
  "evaluate E c e = list_all (evaluate E c) (tests e)"
  by (cases e; simp add: tests_def)+

lemma terminals_value:
  "behaves E c R e \<Longrightarrow> list_all (behaves E c R) (getTerminals e)"
  "evaluate E c e = list_ex (evaluate E c) (getTerminals e)"
  by (cases e; simp add: getTerminals_def)+

lemma parses_conjunction:
  assumes "inj_on regexp_source R" and "printable_conjunction E rx e" and "behaves E c R e"
  shows "\<exists>x. same_value E c R e x \<and> parses (p_and E rx) after_and (conjunction_tokens E e) (Some x)"
proof -
  from assms(2) have ts: "tests e \<noteq> []" "list_all (printable_test E rx) (tests e)" by (simp_all add: printable_conjunction_def)
  note behaves = tests_value(1) [OF assms(3)]
  have "list_all2 (same_value E c R) (tests e) (map (reread E) (tests e))"
    using ts(2) behaves by (auto simp: list_all2_conv_all_nth list_all_length intro: test_same_value)
  from combined_and [OF assms(1) this ts(1)] obtain x
    where "well_formed x" "behaves E c R x" "evaluate E c x = list_all (evaluate E c) (tests e)"
      and r: "if length (map Some (map (reread E) (tests e))) = 1 then Some x = map Some (map (reread E) (tests e)) ! 0
        else \<exists>N. \<forall>n \<ge> N. ContextKeyExpr_and E n (map Some (map (reread E) (tests e))) = Inr (Some x)" by blast
  then have "same_value E c R e x" by (simp add: same_value_def tests_value(2) [of E c e])
  moreover have "list_all2 (parses (p_term E rx) after_term) (map (test_tokens E) (tests e)) (map Some (map (reread E) (tests e)))"
    using ts(2) by (simp add: list_all2_conv_all_nth list_all_length parses_test)
  from parses_and [OF this _ r] ts(1) have "parses (p_and E rx) after_and (conjunction_tokens E e) (Some x)"
    by (simp add: conjunction_tokens_def)
  ultimately show ?thesis by blast
qed

definition expression_tokens :: "env \<Rightarrow> ContextKeyExpression \<Rightarrow> Token list" where
  "expression_tokens E e = separated (OrToken 0) (map (conjunction_tokens E) (getTerminals e))"

lemma parses_expression:
  assumes "inj_on regexp_source R" and "printable E rx e" and "behaves E c R e"
  shows "\<exists>x. same_value E c R e x \<and> parses (p_or E rx) after_or (expression_tokens E e) (Some x)"
proof -
  let ?es = "getTerminals e"
  from assms(2) have es: "?es \<noteq> []" "list_all (printable_conjunction E rx) ?es" by (simp_all add: printable_def)
  note behaves = terminals_value(1) [OF assms(3)]
  have "\<exists>x. same_value E c R y x \<and> parses (p_and E rx) after_and (conjunction_tokens E y) (Some x)" if "y \<in> set ?es" for y
    using that es(2) behaves by (intro parses_conjunction [OF assms(1)]) (auto simp: list_all_iff)
  from list_choice [of ?es "\<lambda>y x. same_value E c R y x \<and> parses (p_and E rx) after_and (conjunction_tokens E y) (Some x)", OF this]
  obtain xs where xs: "list_all2 (\<lambda>y x. same_value E c R y x \<and> parses (p_and E rx) after_and (conjunction_tokens E y) (Some x)) ?es xs"
    by blast
  then have "list_all2 (same_value E c R) ?es xs" by (rule list_all2_mono) simp
  from combined_or [OF assms(1) this es(1)] obtain x
    where "well_formed x" "behaves E c R x" "evaluate E c x = list_ex (evaluate E c) ?es"
      and r: "if length (map Some xs) = 1 then Some x = map Some xs ! 0
        else \<exists>N. \<forall>n \<ge> N. ContextKeyExpr_or E n (map Some xs) = Inr (Some x)" by blast
  then have "same_value E c R e x" by (simp add: same_value_def terminals_value(2) [of E c e])
  moreover have "list_all2 (parses (p_and E rx) after_and) (map (conjunction_tokens E) ?es) (map Some xs)"
    using xs by (simp add: list_all2_conv_all_nth)
  from parses_or [OF this _ r] es(1) have "parses (p_or E rx) after_or (expression_tokens E e) (Some x)"
    by (simp add: expression_tokens_def)
  ultimately show ?thesis by blast
qed

subsection \<open>The text\<close>

lemma lexes_join:
  assumes "lexes sep_text [sep]"
  shows "list_all2 lexes us ws \<Longrightarrow> us \<noteq> [] \<Longrightarrow> lexes (str_join (CHR '' '' # sep_text @ '' '') us) (separated sep ws)"
proof (induction us ws rule: list_all2_induct)
  case (Cons u us w ws)
  show ?case
  proof (cases us)
    case Nil
    with Cons.hyps show ?thesis by simp
  next
    case (Cons v vs)
    with Cons.IH have IH: "lexes (str_join (CHR '' '' # sep_text @ '' '') us) (separated sep ws)" by simp
    from Cons \<open>list_all2 lexes us ws\<close> obtain z zs where ws: "ws = z # zs" by (cases ws) auto
    from lexes_space [OF \<open>lexes u w\<close> lexes_space [OF assms IH]] show ?thesis
      by (simp add: Cons ws)
  qed
qed simp

lemma serialize_tests:
  assumes "tests e \<noteq> []"
  shows "serialize E e = str_join '' && '' (map (serialize E) (tests e))"
  using assms by (cases e) (simp_all add: tests_def)

lemma serialize_terminals:
  assumes "getTerminals e \<noteq> []"
  shows "serialize E e = str_join '' || '' (map (serialize E) (getTerminals e))"
  using assms by (cases e) (simp_all add: getTerminals_def)

lemma lexes_conjunction:
  assumes "printable_conjunction E rx e"
  shows "lexes (serialize E e) (conjunction_tokens E e)"
proof -
  from assms have ts: "tests e \<noteq> []" "list_all (printable_test E rx) (tests e)" by (simp_all add: printable_conjunction_def)
  then have "list_all2 lexes (map (serialize E) (tests e)) (map (test_tokens E) (tests e))"
    by (auto simp: list_all2_conv_all_nth list_all_length intro: lexes_test)
  from lexes_join [OF lexes_operators(1) this] ts(1) show ?thesis
    by (simp add: conjunction_tokens_def serialize_tests)
qed

lemma lexes_expression:
  assumes "printable E rx e"
  shows "lexes (serialize E e) (expression_tokens E e)"
proof -
  from assms have ts: "getTerminals e \<noteq> []" "list_all (printable_conjunction E rx) (getTerminals e)" by (simp_all add: printable_def)
  then have "list_all2 lexes (map (serialize E) (getTerminals e)) (map (conjunction_tokens E) (getTerminals e))"
    by (auto simp: list_all2_conv_all_nth list_all_length intro: lexes_conjunction)
  from lexes_join [OF lexes_operators(2) this] ts(1) show ?thesis
    by (simp add: expression_tokens_def serialize_terminals)
qed

lemma serialize_not_empty:
  assumes "printable E rx e"
  shows "serialize E e \<noteq> []"
proof
  assume "serialize E e = []"
  with lexes_scan(1) [OF lexes_expression [OF assms]] have "expression_tokens E e = []"
    using arg_cong [of _ _ length] by (fastforce simp: Scanner_scan_def Scanner_reset_def scan_loop.simps isAtEnd_def addToken_def)
  moreover have "test_tokens E t \<noteq> []" if "printable_test E rx t" for t
    using that by (cases t) simp_all
  then have "conjunction_tokens E t \<noteq> []" if "printable_conjunction E rx t" for t
    using that by (cases "tests t") (auto simp: printable_conjunction_def conjunction_tokens_def)
  then have "expression_tokens E e \<noteq> []"
    using assms by (cases "getTerminals e") (auto simp: printable_def expression_tokens_def)
  ultimately show False by simp
qed

lemma parse_printed:
  assumes "inj_on regexp_source R" and "printable E rx e" and "behaves E c R e" and "\<not> pr_recovery P"
  shows "\<exists>N x P'. same_value E c R e x \<and> (\<forall>n \<ge> N. parse E rx n (serialize E e) P = (Inr (Some x), P')) \<and>
    pr_errors P' = [] \<and> sc_errors (pr_scanner P') = []"
proof -
  let ?P = "Parser_load (serialize E e) P"
  note scan = lexes_scan [OF lexes_expression [OF assms(2)]]
  from scan(1) have at: "coming ?P = expression_tokens E e @ [EOFToken 0]" by (simp add: coming_def Parser_load_def Let_def)
  have rec: "\<not> pr_recovery ?P" using assms(4) by (simp add: Parser_load_def Let_def)
  from parses_expression [OF assms(1-3)] obtain x where x: "same_value E c R e x"
    "parses (p_or E rx) after_or (expression_tokens E e) (Some x)" by blast
  let ?k = "length (expression_tokens E e)"
  from x(2) rec at have "gives (p_or E rx) ?P (Some x) ?k" by (simp add: parses_def followed_def)
  moreover have "gives (\<lambda>n. pbind Parser_isAtEnd (\<lambda>atEnd. if atEnd then preturn (Some x)
      else pbind Parser_peek (\<lambda>peek. throw_parsing ErrorUnexpectedToken (tk_offset peek) (getLexeme peek)
        (if tk_type peek = T_Str then Some HintUnexpectedToken else None)))) (skip ?k ?P) (Some x) 0"
    unfolding Parser_isAtEnd_def pbind_assoc
    by (rule gives_peek [of _ "EOFToken 0" "[]"]) (simp_all add: at gives_return)
  ultimately have "gives (parse_tokens E rx) ?P (Some x) ?k"
    unfolding parse_tokens_def by (rule gives_bind) simp
  then obtain N where "\<forall>n \<ge> N. parse_tokens E rx n ?P = (Inr (Some x), skip ?k ?P)" by (auto simp: gives_def)
  then have "\<forall>n \<ge> N. parse E rx n (serialize E e) P = (Inr (Some x), skip ?k ?P)"
    using serialize_not_empty [OF assms(2)] by (simp add: parse_def)
  moreover have "pr_errors (skip ?k ?P) = []" "sc_errors (pr_scanner (skip ?k ?P)) = []"
    using scan(2) by (simp_all add: Parser_load_def Let_def)
  ultimately show ?thesis using x(1) by blast
qed

end
