(* ===== verification/Context_Text.thy ===== *)
theory Context_Text
  imports Context_Roundtrip Context_Keys
begin

text \<open>
  The properties of the parser of context key expressions, and examples of what its error recovery and
  the validation of several clauses do.
\<close>

subsection \<open>Every input\<close>

text \<open>
  C31. \<open>parse\<close> returns for every input, whatever the parser was used for before, and throws nothing: it
  gives a well-formed expression and no parsing error, or nothing and a parsing error.
\<close>

theorem parse_correct:
  "\<exists>N r P'. (\<forall>n \<ge> N. parse E rx n input P = (Inr r, P')) \<and>
    (case r of None \<Rightarrow> pr_errors P' \<noteq> [] | Some e \<Rightarrow> well_formed e \<and> pr_errors P' = [])"
proof (cases "input = []")
  case True
  then show ?thesis
    by (intro exI [of _ 0] exI [of _ None] exI [of _ "snd (parse E rx 0 [] P)"]) (simp add: parse_def)
next
  case False
  from parse_settles [OF this, of E rx P] show ?thesis by blast
qed

text \<open>A constructor of regular expressions that knows the flags of the language.\<close>

definition example_regexp :: regexp_new where
  "example_regexp source flags =
     (case flags of
        None \<Rightarrow> Some \<lparr>re_source = source, re_flags = []\<rparr>
      | Some f \<Rightarrow> if list_all is_regex_flag f then Some \<lparr>re_source = source, re_flags = f\<rparr> else None)"

lemma parse_correct_witness:
  "\<exists>N r P'. (\<forall>n \<ge> N. parse example_env example_regexp n ''a && (b'' (Parser_new True) = (Inr r, P')) \<and>
    (case r of None \<Rightarrow> pr_errors P' \<noteq> [] | Some e \<Rightarrow> well_formed e \<and> pr_errors P' = [])"
  by (rule parse_correct)

subsection \<open>Parsing what is printed\<close>





subsection \<open>Validation\<close>

lemma parse_fresh: "input \<noteq> [] \<Longrightarrow> parse E rx n input P = parse E rx n input (Parser_new (pr_recovery P))"
proof -
  assume "input \<noteq> []"
  moreover have "Parser_load input P = Parser_load input (Parser_new (pr_recovery P))"
    by (cases P) (simp add: Parser_load_def Parser_new_def Let_def)
  ultimately show ?thesis by (simp add: parse_def)
qed

text \<open>A clause without an error, by itself.\<close>

definition clean :: "env \<Rightarrow> regexp_new \<Rightarrow> nat \<Rightarrow> string \<Rightarrow> bool" where
  "clean E rx N w \<longleftrightarrow> sc_errors (Scanner_scan (Scanner_reset w)) = [] \<and>
     (\<exists>e P'. \<forall>n \<ge> N. parse E rx n w (Parser_new False) = (Inr (Some e), P'))"

lemma parse_clause:
  assumes "w \<noteq> []" and "\<not> pr_recovery P"
  shows "\<exists>N r P'. (\<forall>n \<ge> N. parse E rx n w P = (Inr r, P')) \<and> \<not> pr_recovery P' \<and>
    (\<forall>M \<ge> N. (lint_errors P' = []) = clean E rx M w)"
proof -
  from parse_settles [OF assms(1), of E rx P] obtain N r P' where
    N: "\<forall>n \<ge> N. parse E rx n w P = (Inr r, P')"
    and r: "case r of None \<Rightarrow> pr_errors P' \<noteq> [] | Some e \<Rightarrow> well_formed e \<and> pr_errors P' = []"
    and same: "unchanged (Parser_load w P) P'" by blast
  have fresh: "parse E rx n w (Parser_new False) = parse E rx n w P" for n
    using parse_fresh [OF assms(1), of E rx n P] assms(2) by simp
  from same have P': "\<not> pr_recovery P'" "pr_scanner P' = Scanner_scan (Scanner_reset w)"
    using assms(2) by (simp_all add: unchanged_def Parser_load_def Let_def)
  have "(lint_errors P' = []) = clean E rx M w" if "N \<le> M" for M
  proof -
    have "\<forall>n \<ge> M. parse E rx n w P = (Inr r, P')" using N that by simp
    then have "(\<exists>e Q. \<forall>n \<ge> M. parse E rx n w (Parser_new False) = (Inr (Some e), Q)) = (r \<noteq> None)"
      unfolding fresh by (cases r) auto
    moreover have "(lint_errors P' = []) = (sc_errors (pr_scanner P') = [] \<and> pr_errors P' = [])"
      by (simp add: lint_errors_def)
    ultimately show ?thesis using r P'(2) by (cases r) (simp_all add: clean_def)
  qed
  with N P'(1) show ?thesis by blast
qed

lemma validate_loop_clauses:
  "[] \<notin> set ws \<Longrightarrow> \<not> pr_recovery P \<Longrightarrow>
    \<exists>N rs. (\<forall>n \<ge> N. validate_loop E rx n ws P = Inr rs) \<and>
      (\<forall>M \<ge> N. list_all2 (\<lambda>w errors. (errors = []) = clean E rx M w) ws rs)"
proof (induction ws arbitrary: P)
  case (Cons w ws)
  from parse_clause [of w P E rx] Cons.prems obtain N r P' where
    N: "\<forall>n \<ge> N. parse E rx n w P = (Inr r, P')" "\<not> pr_recovery P'"
      "\<forall>M \<ge> N. (lint_errors P' = []) = clean E rx M w" by auto
  from Cons.IH [OF _ N(2)] Cons.prems obtain K rs where
    K: "\<forall>n \<ge> K. validate_loop E rx n ws P' = Inr rs"
      "\<forall>M \<ge> K. list_all2 (\<lambda>w errors. (errors = []) = clean E rx M w) ws rs" by auto
  from N K have "\<forall>n \<ge> max N K. validate_loop E rx n (w # ws) P = Inr (lint_errors P' # rs)" by simp
  moreover from N K have "\<forall>M \<ge> max N K. list_all2 (\<lambda>w errors. (errors = []) = clean E rx M w) (w # ws) (lint_errors P' # rs)"
    by simp
  ultimately show ?case by blast
qed (intro exI [of _ 0] exI [of _ "[]"], simp)

text \<open>
  C33. \<open>validateWhenClauses\<close> returns for all clauses that are not empty, with one list of errors for
  each, though one parser is used for all of them: the list is empty when the clause by itself is scanned and
  parsed without an error.
\<close>

theorem validateWhenClauses_correct:
  assumes "[] \<notin> set whenClauses"
  shows "\<exists>N rs. (\<forall>n \<ge> N. validateWhenClauses E rx n whenClauses = Inr rs) \<and>
    list_all2 (\<lambda>w errors. (errors = []) = clean E rx N w) whenClauses rs"
proof -
  have "\<not> pr_recovery (Parser_new False)" by (simp add: Parser_new_def)
  from validate_loop_clauses [OF assms this, of E rx] show ?thesis
    unfolding validateWhenClauses_def by blast
qed

lemma validateWhenClauses_correct_witness:
  "\<exists>N rs. (\<forall>n \<ge> N. validateWhenClauses example_env example_regexp n [''a && b'', ''a b''] = Inr rs) \<and>
    list_all2 (\<lambda>w errors. (errors = []) = clean example_env example_regexp N w) [''a && b'', ''a b''] rs"
  by (rule validateWhenClauses_correct) simp

subsection \<open>Examples\<close>

text \<open>An empty clause is given the errors that the scanner found in the clause before.\<close>

lemma empty_clause_after_error:
  "validateWhenClauses example_env example_regexp 20 [''a = b'', []] =
     Inr [[\<lparr>li_errorMessage = LintLexing (Some (DidYouMean [''=='', ''=~''])), li_offset = 2, li_length = 1\<rparr>],
          [\<lparr>li_errorMessage = LintLexing (Some (DidYouMean [''=='', ''=~''])), li_offset = 2, li_length = 1\<rparr>]]"
  "validateWhenClauses example_env example_regexp 20 [''a == b'', []] =
     Inr [[], [\<lparr>li_errorMessage = LintParsing ErrorEmptyString (Some HintEmptyString), li_offset = 0, li_length = 0\<rparr>]]"
  by code_simp+

text \<open>
  The recovery does not see the closing parenthesis in the second part of the regular expression, and
  takes the one that closes the group for a part of it.
\<close>

lemma recovery_takes_parenthesis:
  "fst (parse example_env example_regexp 30 ''(a =~ /b//(c)/)'' (Parser_new True)) = Inr None"
  "following_parens ''/b/'' ''/(c)/'' = 1"
  by code_simp+

lemma recovery_joins:
  "fst (parse example_env example_regexp 30 ''a =~ /b//c/'' (Parser_new True)) =
     Inr (Some (RegexExpr ''a'' (Some \<lparr>re_source = ''b//c'', re_flags = []\<rparr>)))"
  by code_simp

end
