(* ===== verification/Keybinding_Resolver.thy ===== *)
theory Keybinding_Resolver
  imports Context_Normalize "HOL-Library.AList" "HOL-Library.Sublist"
begin

text \<open>
  The resolution of keybindings, \<open>src/vs/platform/keybinding/common/keybindingResolver.ts\<close>, and the
  items of \<open>resolvedKeybindingItem.ts\<close>.

  A \<open>Map\<close> is an association list in the order of insertion. Items are compared as objects: the field
  \<open>kb_id\<close> is the identity of the object. The log is left out. Substituting constants needs the bound
  on the depth of calls and what expressions remember as their negations, as in \<open>Context_Normalize\<close>.
\<close>

subsection \<open>Items\<close>

record ResolvedKeybindingItem =
  kb_id :: nat
  kb_chords :: "string list"
  kb_bubble :: bool
  kb_command :: "string option"
  kb_commandArgs :: js_value
  kb_when :: "ContextKeyExpression option"
  kb_isDefault :: bool
  kb_extensionId :: "string option"
  kb_isBuiltinExtension :: bool
  kb_systemWide :: bool

text \<open>A string or \<open>null\<close> as a condition.\<close>

definition str_truthy :: "string option \<Rightarrow> bool" where
  "str_truthy s \<longleftrightarrow> s \<noteq> None \<and> s \<noteq> Some []"

fun toEmptyArrayIfContainsNull :: "string option list \<Rightarrow> string list" where
  "toEmptyArrayIfContainsNull arr =
     (if list_all str_truthy arr then concat (map opt_list arr) else [])"

text \<open>
  The constructor. Of the resolved keybinding, which may be missing, the chords and the chords of single
  modifiers are given.
\<close>

definition ResolvedKeybindingItem_new :: "nat \<Rightarrow> (string option list \<times> string option list) option \<Rightarrow> string option
    \<Rightarrow> js_value \<Rightarrow> ContextKeyExpression option \<Rightarrow> bool \<Rightarrow> string option \<Rightarrow> bool \<Rightarrow> bool \<Rightarrow> ResolvedKeybindingItem" where
  "ResolvedKeybindingItem_new ident resolvedKeybinding command args condition isDefault extensionId isBuiltin systemWide =
     (let chords =
            (case resolvedKeybinding of
               None \<Rightarrow> []
             | Some (dispatch, single) \<Rightarrow>
                 let cs = toEmptyArrayIfContainsNull dispatch
                 in if cs = [] then toEmptyArrayIfContainsNull single else cs);
          bubble = (case command of Some (ch # _) \<Rightarrow> ch = CHR ''^'' | _ \<Rightarrow> False)
      in \<lparr>kb_id = ident, kb_chords = chords, kb_bubble = bubble,
          kb_command = (if bubble then map_option tl command else command), kb_commandArgs = args,
          kb_when = condition, kb_isDefault = isDefault, kb_extensionId = extensionId,
          kb_isBuiltinExtension = isBuiltin, kb_systemWide = systemWide\<rparr>)"

subsection \<open>Conditions\<close>

definition whenIsEntirelyIncluded :: "env \<Rightarrow> ContextKeyExpression option \<Rightarrow> ContextKeyExpression option \<Rightarrow> bool" where
  "whenIsEntirelyIncluded E a b =
     (if b = None \<or> b = Some TrueExpr then True
      else if a = None \<or> a = Some TrueExpr then False
      else implies E (the a) (the b))"

definition contextMatchesRules :: "env \<Rightarrow> IContext \<Rightarrow> ContextKeyExpression option \<Rightarrow> bool" where
  "contextMatchesRules E context rules = (case rules of None \<Rightarrow> True | Some e \<Rightarrow> evaluate E context e)"

type_synonym memory = "ContextKeyExpression \<Rightarrow> ContextKeyExpression option"

definition when_substituted :: "env \<Rightarrow> nat \<Rightarrow> memory \<Rightarrow> ContextKeyExpression option \<Rightarrow> ContextKeyExpression option outcome" where
  "when_substituted E n memo e = (case e of None \<Rightarrow> Inr None | Some x \<Rightarrow> substituted E n memo x)"

subsection \<open>Removals\<close>

fun chords_start :: "string list \<Rightarrow> string list \<Rightarrow> bool" where
  "chords_start [] chords = True"
| "chords_start (k # ks) [] = False"
| "chords_start (k # ks) (c # cs) = (k = c \<and> chords_start ks cs)"

definition isTargetedForRemoval :: "env \<Rightarrow> nat \<Rightarrow> memory \<Rightarrow> ResolvedKeybindingItem \<Rightarrow> string list option
    \<Rightarrow> ContextKeyExpression option \<Rightarrow> bool outcome" where
  "isTargetedForRemoval E n memo defaultKb keypress condition =
     (if (case keypress of Some ks \<Rightarrow> \<not> chords_start ks (kb_chords defaultKb) | None \<Rightarrow> False) then Inr False
      else if condition \<noteq> None \<and> condition \<noteq> Some TrueExpr then
        (if kb_when defaultKb = None then Inr False
         else
           bindE (when_substituted E n memo (kb_when defaultKb)) (\<lambda>defaultWhen.
           bindE (when_substituted E n memo condition) (\<lambda>removalWhen.
             Inr (whenIsEntirelyIncluded E defaultWhen removalWhen))))
      else Inr True)"

text \<open>The command that a rule \<open>-command\<close> removes.\<close>

definition removed_command :: "ResolvedKeybindingItem \<Rightarrow> string option" where
  "removed_command rule = (case kb_command rule of Some (ch # s) \<Rightarrow> if ch = CHR ''-'' then Some s else None | _ \<Rightarrow> None)"

text \<open>Push an element to the array that a map holds for a key.\<close>

definition map_push :: "'k \<Rightarrow> 'v \<Rightarrow> ('k \<times> 'v list) list \<Rightarrow> ('k \<times> 'v list) list" where
  "map_push k v m = (case map_of m k of None \<Rightarrow> AList.update k [v] m | Some vs \<Rightarrow> AList.update k (vs @ [v]) m)"

definition collect_removals :: "ResolvedKeybindingItem list \<Rightarrow> (string \<times> ResolvedKeybindingItem list) list" where
  "collect_removals rules =
     foldl (\<lambda>removals rule. case removed_command rule of Some command \<Rightarrow> map_push command rule removals | None \<Rightarrow> removals) [] rules"

text \<open>The loop over the removals of a command, up to the first that fits.\<close>

fun any_removal :: "env \<Rightarrow> nat \<Rightarrow> memory \<Rightarrow> ResolvedKeybindingItem \<Rightarrow> ResolvedKeybindingItem list \<Rightarrow> bool outcome" where
  "any_removal E n memo rule [] = Inr False"
| "any_removal E n memo rule (commandRemoval # rest) =
     bindE (isTargetedForRemoval E n memo rule (Some (kb_chords commandRemoval)) (kb_when commandRemoval)) (\<lambda>b.
       if b then Inr True else any_removal E n memo rule rest)"

definition removal_step :: "env \<Rightarrow> nat \<Rightarrow> memory \<Rightarrow> (string \<times> ResolvedKeybindingItem list) list
    \<Rightarrow> ResolvedKeybindingItem list \<Rightarrow> ResolvedKeybindingItem \<Rightarrow> ResolvedKeybindingItem list outcome" where
  "removal_step E n memo removals result rule =
     (if \<not> str_truthy (kb_command rule) then Inr (result @ [rule])
      else if removed_command rule \<noteq> None then Inr result
      else case map_of removals (the (kb_command rule)) of
        None \<Rightarrow> Inr (result @ [rule])
      | Some commandRemovals \<Rightarrow>
          if \<not> kb_isDefault rule then Inr (result @ [rule])
          else bindE (any_removal E n memo rule commandRemovals) (\<lambda>isRemoved.
                 Inr (if isRemoved then result else result @ [rule])))"

definition handleRemovals :: "env \<Rightarrow> nat \<Rightarrow> memory \<Rightarrow> ResolvedKeybindingItem list \<Rightarrow> ResolvedKeybindingItem list outcome" where
  "handleRemovals E n memo rules =
     (let removals = collect_removals rules
      in if removals = [] then Inr rules else foldE (removal_step E n memo removals) [] rules)"

subsection \<open>The resolver\<close>

record KeybindingResolver =
  kr_defaultKeybindings :: "ResolvedKeybindingItem list"
  kr_keybindings :: "ResolvedKeybindingItem list"
  kr_defaultBoundCommands :: "(string \<times> bool) list"
  kr_map :: "(string \<times> ResolvedKeybindingItem list) list"
  kr_lookupMap :: "(string \<times> ResolvedKeybindingItem list) list"

definition addToLookupMap :: "ResolvedKeybindingItem \<Rightarrow> KeybindingResolver \<Rightarrow> KeybindingResolver" where
  "addToLookupMap item this =
     (if \<not> str_truthy (kb_command item) then this
      else this\<lparr>kr_lookupMap := map_push (the (kb_command item)) item (kr_lookupMap this)\<rparr>)"

fun remove_first :: "ResolvedKeybindingItem \<Rightarrow> ResolvedKeybindingItem list \<Rightarrow> ResolvedKeybindingItem list" where
  "remove_first item [] = []"
| "remove_first item (x # xs) = (if kb_id x = kb_id item then xs else x # remove_first item xs)"

definition removeFromLookupMap :: "ResolvedKeybindingItem \<Rightarrow> KeybindingResolver \<Rightarrow> KeybindingResolver" where
  "removeFromLookupMap item this =
     (if \<not> str_truthy (kb_command item) then this
      else case map_of (kr_lookupMap this) (the (kb_command item)) of
        None \<Rightarrow> this
      | Some arr \<Rightarrow>
          this\<lparr>kr_lookupMap := AList.update (the (kb_command item)) (remove_first item arr) (kr_lookupMap this)\<rparr>)"

text \<open>The chords from index 1 on that two keybindings have in common are the same.\<close>

definition isShorterKbPrefix :: "ResolvedKeybindingItem \<Rightarrow> ResolvedKeybindingItem \<Rightarrow> bool" where
  "isShorterKbPrefix conflict item =
     list_all (\<lambda>(c, d). c = d) (zip (tl (kb_chords conflict)) (tl (kb_chords item)))"

text \<open>The body of the loop over the conflicts, which are visited from the last to the first.\<close>

definition conflict_step :: "env \<Rightarrow> ResolvedKeybindingItem \<Rightarrow> ResolvedKeybindingItem \<Rightarrow> KeybindingResolver \<Rightarrow> KeybindingResolver" where
  "conflict_step E item conflict this =
     (if kb_command conflict = kb_command item then this
      else if \<not> isShorterKbPrefix conflict item then this
      else if whenIsEntirelyIncluded E (kb_when conflict) (kb_when item) then removeFromLookupMap conflict this
      else this)"

definition addKeyPress :: "env \<Rightarrow> string \<Rightarrow> ResolvedKeybindingItem \<Rightarrow> KeybindingResolver \<Rightarrow> KeybindingResolver" where
  "addKeyPress E keypress item this =
     (case map_of (kr_map this) keypress of
        None \<Rightarrow> addToLookupMap item (this\<lparr>kr_map := AList.update keypress [item] (kr_map this)\<rparr>)
      | Some conflicts \<Rightarrow>
          let this = foldr (conflict_step E item) conflicts this
          in addToLookupMap item (this\<lparr>kr_map := AList.update keypress (conflicts @ [item]) (kr_map this)\<rparr>))"

definition add_step :: "env \<Rightarrow> nat \<Rightarrow> memory \<Rightarrow> KeybindingResolver \<Rightarrow> ResolvedKeybindingItem \<Rightarrow> KeybindingResolver outcome" where
  "add_step E n memo this k =
     (if kb_chords k = [] then Inr this
      else bindE (when_substituted E n memo (kb_when k)) (\<lambda>condition.
             if condition = Some FalseExpr then Inr this else Inr (addKeyPress E (kb_chords k ! 0) k this)))"

definition default_bound :: "ResolvedKeybindingItem list \<Rightarrow> (string \<times> bool) list" where
  "default_bound defaultKeybindings =
     foldl (\<lambda>m defaultKeybinding.
       if str_truthy (kb_command defaultKeybinding) \<and> removed_command defaultKeybinding = None
       then AList.update (the (kb_command defaultKeybinding)) True m else m) [] defaultKeybindings"

definition KeybindingResolver_new :: "env \<Rightarrow> nat \<Rightarrow> memory \<Rightarrow> ResolvedKeybindingItem list \<Rightarrow> ResolvedKeybindingItem list
    \<Rightarrow> KeybindingResolver outcome" where
  "KeybindingResolver_new E n memo defaultKeybindings overrides =
     bindE (handleRemovals E n memo (defaultKeybindings @ overrides)) (\<lambda>keybindings.
       foldE (add_step E n memo)
         \<lparr>kr_defaultKeybindings = defaultKeybindings, kr_keybindings = keybindings,
          kr_defaultBoundCommands = default_bound defaultKeybindings, kr_map = [], kr_lookupMap = []\<rparr>
         keybindings)"

subsection \<open>Lookup\<close>

definition lookupKeybindings :: "string \<Rightarrow> KeybindingResolver \<Rightarrow> ResolvedKeybindingItem list" where
  "lookupKeybindings commandId this =
     (case map_of (kr_lookupMap this) commandId of None \<Rightarrow> [] | Some items \<Rightarrow> rev items)"

text \<open>The last element with a property.\<close>

definition find_last :: "('a \<Rightarrow> bool) \<Rightarrow> 'a list \<Rightarrow> 'a option" where
  "find_last p xs = find p (rev xs)"

definition lookupPrimaryKeybinding :: "string \<Rightarrow> (ContextKeyExpression option \<Rightarrow> bool) \<Rightarrow> bool \<Rightarrow> KeybindingResolver
    \<Rightarrow> ResolvedKeybindingItem option" where
  "lookupPrimaryKeybinding commandId matches enforceContextCheck this =
     (case map_of (kr_lookupMap this) commandId of
        None \<Rightarrow> None
      | Some items \<Rightarrow>
          if items = [] then None
          else if length items = 1 \<and> \<not> enforceContextCheck then Some (items ! 0)
          else case find_last (\<lambda>item. matches (kb_when item)) items of
            Some item \<Rightarrow> Some item
          | None \<Rightarrow> if enforceContextCheck then None else Some (last items))"

datatype ResolutionResult =
    NoMatchingKb
  | MoreChordsNeeded
  | KbFound "string option" js_value bool

definition findCommand :: "env \<Rightarrow> IContext \<Rightarrow> ResolvedKeybindingItem list \<Rightarrow> ResolvedKeybindingItem option" where
  "findCommand E context matches = find_last (\<lambda>k. contextMatchesRules E context (kb_when k)) matches"

text \<open>A candidate has the pressed chords from index 1 on.\<close>

definition prefixMatches :: "string list \<Rightarrow> ResolvedKeybindingItem \<Rightarrow> bool" where
  "prefixMatches pressedChords candidate \<longleftrightarrow> length pressedChords \<le> length (kb_chords candidate) \<and>
     list_all (\<lambda>i. kb_chords candidate ! i = pressedChords ! i) [1..<length pressedChords]"

definition resolve :: "env \<Rightarrow> IContext \<Rightarrow> string list \<Rightarrow> string \<Rightarrow> KeybindingResolver \<Rightarrow> ResolutionResult" where
  "resolve E context currentChords keypress this =
     (let pressedChords = currentChords @ [keypress]
      in case map_of (kr_map this) (pressedChords ! 0) of
           None \<Rightarrow> NoMatchingKb
         | Some kbCandidates \<Rightarrow>
             let lookupMap = (if length pressedChords < 2 then kbCandidates
                              else filter (prefixMatches pressedChords) kbCandidates)
             in case findCommand E context lookupMap of
                  None \<Rightarrow> NoMatchingKb
                | Some result \<Rightarrow>
                    if length pressedChords < length (kb_chords result) then MoreChordsNeeded
                    else KbFound (kb_command result) (kb_commandArgs result) (kb_bubble result))"

end
