(* ===== verification/Context_Comparable.thy ===== *)
theory Context_Comparable
  imports Context_Keys
begin

text \<open>
  Substituting constants keeps an expression comparable: the class of well-formed, comparable expressions
  is closed under the normalising operations.
\<close>

interpretation comparable_class: closed_class E "\<lambda>e. wf_depth d e \<and> comparable e" for E d
proof
  fix x assume x: "wf_depth d x \<and> comparable x"
  show "1 \<le> weight x" using x by (auto dest: wf_weight)
  show "disjunction (\<lambda>e. wf_depth d e \<and> comparable e) x"
    using x wf_terminals [of d x] by (cases x) (auto simp: disjunction_def getTerminals_def list_all_iff)
  show "\<exists>z. settles (\<lambda>n. negate E n x) (Some z)" using x negate_wf_depth by blast
qed (auto simp: list_all_iff)

abbreviation fine :: "ContextKeyExpression \<Rightarrow> bool" where
  "fine e \<equiv> well_formed e \<and> comparable e"

lemma settles_same: "settles f x \<Longrightarrow> settles f y \<Longrightarrow> x = y"
  unfolding settles_def by (metis Inr_inject nat_le_linear)

lemma compound_fine:
  assumes "list_all fine ts" and "ts \<noteq> []" and "\<And>m. negated = Some m \<Longrightarrow> well_formed m"
  shows "\<exists>z. fine z \<and> settles (\<lambda>n. And_create E n (map Some ts) negated extra) (Some z)"
    and "\<exists>z. fine z \<and> settles (\<lambda>n. Or_create E n (map Some ts) negated extra) (Some z)"
proof -
  from assms(1) have wf: "list_all well_formed ts" by (simp add: list_all_iff)
  with wf_bounded_list [of ts] well_formed_wf obtain d where "list_all (wf_depth d) ts" by (auto simp: list_all_iff)
  with assms(1) have F: "list_all (\<lambda>e. wf_depth d e \<and> comparable e) (members (map Some ts))"
    by (simp add: list_all_iff)
  from comparable_class.And_create_settles [OF F] obtain r where
    r: "settles (\<lambda>n. And_create E n (map Some ts) negated extra) r"
      "case r of None \<Rightarrow> members (map Some ts) = [] | Some x \<Rightarrow> (wf_depth d x \<and> comparable x \<or>
        (\<exists>es. x = AndExpr es negated \<and> 2 \<le> length es \<and> list_all (\<lambda>e. wf_depth d e \<and> comparable e) es))
        \<and> weight x \<le> prod_weight (members (map Some ts))" by blast
  from compound_returns(1) [OF wf assms(2,3), of negated E extra] obtain z
    where z: "well_formed z" "settles (\<lambda>n. And_create E n (map Some ts) negated extra) (Some z)" by (auto simp: settles_def)
  with r(2) settles_same [OF r(1) z(2)] have "fine z" by (auto simp: list_all_iff)
  with z(2) show "\<exists>z. fine z \<and> settles (\<lambda>n. And_create E n (map Some ts) negated extra) (Some z)"
    by blast
  have "list_all (disjunction (\<lambda>e. wf_depth d e \<and> comparable e)) (members (map Some ts))"
    using F comparable_class.terminals_in by (auto simp: list_all_iff)
  from comparable_class.Or_create_settles [OF this] obtain r where
    r: "settles (\<lambda>n. Or_create E n (map Some ts) negated extra) r"
      "case r of None \<Rightarrow> members (map Some ts) = [] | Some x \<Rightarrow> (wf_depth d x \<and> comparable x \<or>
        (\<exists>es. x = OrExpr es negated \<and> 2 \<le> length es \<and> list_all (\<lambda>e. wf_depth d e \<and> comparable e) es))
        \<and> weight x \<le> sum_weight (members (map Some ts))" by blast
  from compound_returns(2) [OF wf assms(2,3), of negated E extra] obtain z
    where z: "well_formed z" "settles (\<lambda>n. Or_create E n (map Some ts) negated extra) (Some z)" by (auto simp: settles_def)
  with r(2) settles_same [OF r(1) z(2)] have "fine z" by (auto simp: list_all_iff)
  with z(2) show "\<exists>z. fine z \<and> settles (\<lambda>n. Or_create E n (map Some ts) negated extra) (Some z)"
    by blast
qed

text \<open>An answer of \<open>substituteConstants\<close> with a property: the same instance, or an object that has it.\<close>

abbreviation answer_has :: "(ContextKeyExpression \<Rightarrow> bool) \<Rightarrow> ContextKeyExpression option option \<Rightarrow> bool" where
  "answer_has P s \<equiv> (case s of None \<Rightarrow> True | Some None \<Rightarrow> False | Some (Some x) \<Rightarrow> P x)"

lemma replaced_has:
  assumes "list_all2 (\<lambda>_. answer_has P) es ss" and "list_all P es"
  shows "\<exists>ts. map2 (\<lambda>e s. case s of Some x \<Rightarrow> x | None \<Rightarrow> Some e) es ss = map Some ts \<and> list_all P ts \<and> length ts = length es"
  using assms
proof (induction rule: list_all2_induct)
  case (Cons e es s ss)
  then obtain ts where "map2 (\<lambda>e s. case s of Some x \<Rightarrow> x | None \<Rightarrow> Some e) es ss = map Some ts" "list_all P ts" "length ts = length es"
    by auto
  moreover from Cons obtain t where "(case s of Some x \<Rightarrow> x | None \<Rightarrow> Some e) = Some t" "P t"
    by (auto split: option.splits)
  ultimately show ?case by (intro exI [of _ "t # ts"]) simp
qed simp

lemma substitute_parts:
  assumes answers: "\<And>x. x \<in> set es \<Longrightarrow> \<exists>s. answer_has fine s \<and> settles (\<lambda>n. f n x) s"
    and es: "list_all fine es" "es \<noteq> []"
    and create: "\<And>ts. list_all fine ts \<Longrightarrow> ts \<noteq> [] \<Longrightarrow> \<exists>z. fine z \<and> settles (\<lambda>n. create n (map Some ts)) (Some z)"
  shows "\<exists>s. answer_has fine s \<and> settles (\<lambda>n. bindE (mapE (f n) es) (\<lambda>substituted.
    case eliminateConstantsInArray es substituted of
      None \<Rightarrow> Inr None | Some exprArr \<Rightarrow> bindE (create n exprArr) (\<lambda>r. Inr (Some r)))) s"
proof -
  have "\<exists>N s. answer_has fine s \<and> (\<forall>n \<ge> N. f n x = Inr s)" if "x \<in> set es" for x
    using answers [OF that] unfolding settles_def by blast
  from mapE_outcomes [of es "\<lambda>_. answer_has fine" f, OF this] obtain ss
    where ss: "list_all2 (\<lambda>_. answer_has fine) es ss" "settles (\<lambda>n. mapE (f n) es) ss"
    by (auto simp: settles_def)
  have len: "length ss = length es" using ss(1) by (simp add: list_all2_lengthD)
  from replaced_has [OF ss(1) es(1)] obtain ts
    where ts: "map2 (\<lambda>e s. case s of Some x \<Rightarrow> x | None \<Rightarrow> Some e) es ss = map Some ts"
      "list_all fine ts" "length ts = length es" by blast
  with es(2) have "ts \<noteq> []" by auto
  from create [OF ts(2) this] obtain z where z: "fine z" "settles (\<lambda>n. create n (map Some ts)) (Some z)" by blast
  show ?thesis
  proof (cases "list_all (\<lambda>s. s = None) ss")
    case True
    have "settles (\<lambda>n. bindE (mapE (f n) es) (\<lambda>substituted. case eliminateConstantsInArray es substituted of
        None \<Rightarrow> Inr None | Some exprArr \<Rightarrow> bindE (create n exprArr) (\<lambda>r. Inr (Some r)))) None"
      by (rule settles_bind [OF ss(2)]) (simp add: eliminateConstantsInArray_eq True len)
    then show ?thesis by (intro exI [of _ None]) simp
  next
    case False
    have "settles (\<lambda>n. bindE (create n (map Some ts)) (\<lambda>r. Inr (Some r))) (Some (Some z))"
      by (rule settles_bind [OF z(2)]) simp
    then have "settles (\<lambda>n. bindE (mapE (f n) es) (\<lambda>substituted. case eliminateConstantsInArray es substituted of
        None \<Rightarrow> Inr None | Some exprArr \<Rightarrow> bindE (create n exprArr) (\<lambda>r. Inr (Some r)))) (Some (Some z))"
      by (intro settles_bind [OF ss(2)]) (simp add: eliminateConstantsInArray_eq False len ts(1))
    with z(1) show ?thesis by (intro exI [of _ "Some (Some z)"]) simp
  qed
qed

lemma substituteConstants_fine:
  assumes memo: "\<And>x m. memo x = Some m \<Longrightarrow> well_formed m"
  shows "fine e \<Longrightarrow> \<exists>s. answer_has fine s \<and> settles (\<lambda>n. substituteConstants E n memo e) s"
proof (induction e)
  case (AndExpr es m)
  show ?case
    unfolding substituteConstants.simps [of E _ memo "AndExpr es m"] ContextKeyExpression.case
  proof (rule substitute_parts)
    show "\<exists>s. answer_has fine s \<and> settles (\<lambda>n. substituteConstants E n memo x) s" if "x \<in> set es" for x
      using AndExpr.IH(1) [OF that] AndExpr.prems that by (simp add: list_all_iff)
  qed (use AndExpr.prems memo compound_fine(1) in \<open>auto simp: list_all_iff\<close>)
next
  case (OrExpr es m)
  show ?case
    unfolding substituteConstants.simps [of E _ memo "OrExpr es m"] ContextKeyExpression.case
  proof (rule substitute_parts)
    show "\<exists>s. answer_has fine s \<and> settles (\<lambda>n. substituteConstants E n memo x) s" if "x \<in> set es" for x
      using OrExpr.IH(1) [OF that] OrExpr.prems that by (simp add: list_all_iff)
  qed (use OrExpr.prems memo compound_fine(2) in \<open>auto simp: list_all_iff\<close>)
qed (unfold substituteConstants.simps ContextKeyExpression.case, (rule exI, rule conjI [OF _ settles_const], simp split: option.split)+)

end
