(* ===== verification/Keybindings.thy ===== *)
theory Keybindings
  imports Keybinding_Resolver Context_Comparable
begin

text \<open>
  The properties of the keybinding resolver: which rules are removed, which keybinding a sequence of
  chords resolves to, and which keybindings are listed for a command.
\<close>

subsection \<open>Maps of arrays\<close>

lemma map_of_push: "map_of (map_push k v m) = (map_of m)(k \<mapsto> (case map_of m k of None \<Rightarrow> [] | Some vs \<Rightarrow> vs) @ [v])"
  by (auto simp: map_push_def AList.update_conv' split: option.splits)

text \<open>The entry of a map whose arrays hold the elements with a key.\<close>

definition entry :: "'a list \<Rightarrow> 'a list option" where
  "entry xs = (if xs = [] then None else Some xs)"

lemma entry_simps [simp]: "entry [] = None" "entry (xs @ [x]) = Some (xs @ [x])" "(entry xs = None) = (xs = [])"
  "(case entry xs of None \<Rightarrow> [] | Some vs \<Rightarrow> vs) = xs"
  by (simp_all add: entry_def)

lemma collect_removals_entry:
  "map_of (collect_removals rules) cmd = entry (filter (\<lambda>r. removed_command r = Some cmd) rules)"
proof (induction rules rule: rev_induct)
  case (snoc r rules)
  then show ?case
    by (cases "removed_command r") (auto simp: collect_removals_def map_of_push)
qed (simp add: collect_removals_def)

lemma collect_removals_Nil: "collect_removals rules = [] \<longleftrightarrow> (\<forall>r \<in> set rules. removed_command r = None)"
proof
  assume "collect_removals rules = []"
  then have "filter (\<lambda>r. removed_command r = Some cmd) rules = []" for cmd
    using collect_removals_entry [of rules cmd] by (simp add: entry_def split: if_splits)
  then show "\<forall>r \<in> set rules. removed_command r = None" by (metis (mono_tags, lifting) filter_empty_conv not_None_eq)
next
  assume "\<forall>r \<in> set rules. removed_command r = None"
  then show "collect_removals rules = []"
    by (induction rules rule: rev_induct) (simp_all add: collect_removals_def)
qed

subsection \<open>Conditions that fit a context\<close>

text \<open>
  The condition is well-formed and behaves in the context; what expressions remember as their negation is
  their negation.
\<close>

definition fits :: "env \<Rightarrow> IContext \<Rightarrow> RegExp option set \<Rightarrow> ContextKeyExpression option \<Rightarrow> bool" where
  "fits E c R w = (case w of None \<Rightarrow> True | Some e \<Rightarrow> well_formed e \<and> behaves E c R e)"

definition memory_fits :: "env \<Rightarrow> IContext \<Rightarrow> RegExp option set \<Rightarrow> memory \<Rightarrow> bool" where
  "memory_fits E c R memo \<longleftrightarrow>
     (\<forall>x m. memo x = Some m \<longrightarrow> well_formed m \<and> behaves E c R m \<and> evaluate E c m = (\<not> evaluate E c x))"

definition comparable_when :: "ContextKeyExpression option \<Rightarrow> bool" where
  "comparable_when w = (case w of None \<Rightarrow> True | Some e \<Rightarrow> comparable e)"

lemma when_substituted_settles:
  assumes "fits E c R w" and "memory_fits E c R memo" and "inj_on regexp_source R"
  shows "\<exists>z. settles (\<lambda>n. when_substituted E n memo w) z \<and> contextMatchesRules E c z = contextMatchesRules E c w \<and>
    fits E c R z \<and> (comparable_when w \<longrightarrow> comparable_when z)"
proof (cases w)
  case None
  then show ?thesis using assms(1) by (intro exI [of _ None]) (simp add: when_substituted_def)
next
  case (Some e)
  from assms(2) have memo: "well_formed m" if "memo x = Some m" for x m using that by (auto simp: memory_fits_def)
  from substituteConstants_returns [of memo e E] memo Some assms(1) obtain s
    where s: "well_formed_answer s" "settles (\<lambda>n. substituteConstants E n memo e) s"
    by (auto simp: fits_def settles_def)
  from s(2) obtain n where n: "substituteConstants E n memo e = Inr s" by (auto simp: settles_def)
  have "same_value_as E c R e s"
    by (rule substituteConstants_sem [OF assms(3) _ _ n])
      (use assms(1,2) Some in \<open>auto simp: fits_def memory_fits_def remembers_def split: option.splits\<close>)
  moreover have "answer_has comparable s" if e: "comparable e"
  proof -
    from substituteConstants_fine [of memo e E] memo e Some assms(1) obtain t
      where t: "answer_has fine t" "settles (\<lambda>n. substituteConstants E n memo e) t" by (auto simp: fits_def)
    with settles_same [OF s(2) t(2)] show ?thesis by (simp split: option.splits)
  qed
  moreover from s(2) have "settles (\<lambda>n. when_substituted E n memo w) (case s of Some x \<Rightarrow> x | None \<Rightarrow> Some e)"
    unfolding settles_def by (auto simp: Some when_substituted_def substituted_def)
  ultimately show ?thesis using s(1) assms(1)
    by (intro exI [of _ "case s of Some x \<Rightarrow> x | None \<Rightarrow> Some e"])
      (auto simp: Some same_value_as_def contextMatchesRules_def fits_def comparable_when_def split: option.splits)
qed

lemma included_sound:
  assumes "whenIsEntirelyIncluded E a b" and "inj_on regexp_source R" and "fits E c R a" "fits E c R b"
    and "comparable_when a" "comparable_when b" and "contextMatchesRules E c a"
  shows "contextMatchesRules E c b"
proof (cases b)
  case (Some q)
  show ?thesis
  proof (cases "q = TrueExpr")
    case False
    with Some assms(1) obtain p where "a = Some p" "implies E p q"
      by (auto simp: whenIsEntirelyIncluded_def split: if_splits)
    with Some assms show ?thesis
      using implies_evaluate [OF assms(2), of E p q c] by (simp add: fits_def comparable_when_def contextMatchesRules_def)
  qed (simp add: Some contextMatchesRules_def)
qed (simp add: contextMatchesRules_def)

lemma settles_ex_if:
  "(b \<Longrightarrow> \<exists>z. settles f z) \<Longrightarrow> (\<not> b \<Longrightarrow> \<exists>z. settles g z) \<Longrightarrow> \<exists>z. settles (\<lambda>n. if b then f n else g n) z"
  by (cases b) simp_all

lemma settles_foldE:
  assumes "\<And>pre x post s. zs = pre @ x # post \<Longrightarrow> I pre s \<Longrightarrow> \<exists>t. settles (\<lambda>n. f n s x) t \<and> I (pre @ [x]) t"
    and "zs = pre @ xs" and "I pre s"
  shows "\<exists>t. settles (\<lambda>n. foldE (f n) s xs) t \<and> I zs t"
  using assms(2,3)
proof (induction xs arbitrary: pre s)
  case (Cons x xs)
  from assms(1) [OF Cons.prems] obtain t where t: "settles (\<lambda>n. f n s x) t" "I (pre @ [x]) t" by blast
  from Cons.IH [OF _ t(2)] Cons.prems(1) obtain u where u: "settles (\<lambda>n. foldE (f n) t xs) u" "I zs u" by auto
  from settles_bind [where g = "\<lambda>n s'. foldE (f n) s' xs", OF t(1) u(1)]
  have "settles (\<lambda>n. foldE (f n) s (x # xs)) u" by simp
  with u(2) show ?case by blast
qed auto

subsection \<open>Removals\<close>

text \<open>What \<open>isTargetedForRemoval\<close> answers once its bound is large enough.\<close>

definition targeted :: "env \<Rightarrow> memory \<Rightarrow> ResolvedKeybindingItem \<Rightarrow> ResolvedKeybindingItem \<Rightarrow> bool" where
  "targeted E memo rule removal \<longleftrightarrow>
     settles (\<lambda>n. isTargetedForRemoval E n memo rule (Some (kb_chords removal)) (kb_when removal)) True"

definition kept :: "env \<Rightarrow> memory \<Rightarrow> ResolvedKeybindingItem list \<Rightarrow> ResolvedKeybindingItem \<Rightarrow> bool" where
  "kept E memo rules rule \<longleftrightarrow> \<not> str_truthy (kb_command rule) \<or>
     removed_command rule = None \<and>
     (kb_isDefault rule \<longrightarrow> (\<forall>r \<in> set rules. removed_command r = kb_command rule \<longrightarrow> \<not> targeted E memo rule r))"

lemma isTargetedForRemoval_settles:
  assumes "memory_fits E c R memo" and "inj_on regexp_source R" and "fits E c R (kb_when rule)" and "fits E c R (kb_when removal)"
  shows "settles (\<lambda>n. isTargetedForRemoval E n memo rule (Some (kb_chords removal)) (kb_when removal)) (targeted E memo rule removal)"
proof -
  from when_substituted_settles [OF assms(3,1,2)] obtain d where d: "settles (\<lambda>n. when_substituted E n memo (kb_when rule)) d" by blast
  from when_substituted_settles [OF assms(4,1,2)] obtain w where w: "settles (\<lambda>n. when_substituted E n memo (kb_when removal)) w" by blast
  have "settles (\<lambda>n. bindE (when_substituted E n memo (kb_when rule)) (\<lambda>defaultWhen.
           bindE (when_substituted E n memo (kb_when removal)) (\<lambda>removalWhen.
             Inr (whenIsEntirelyIncluded E defaultWhen removalWhen)))) (whenIsEntirelyIncluded E d w)"
    by (intro settles_bind [OF d] settles_bind [OF w]) simp
  then have "\<exists>b. settles (\<lambda>n. isTargetedForRemoval E n memo rule (Some (kb_chords removal)) (kb_when removal)) b"
    unfolding isTargetedForRemoval_def option.case by (intro settles_ex_if) auto
  then obtain b where b: "settles (\<lambda>n. isTargetedForRemoval E n memo rule (Some (kb_chords removal)) (kb_when removal)) b" by blast
  then have "targeted E memo rule removal = b"
    unfolding targeted_def by (cases b) (auto dest: settles_same)
  with b show ?thesis by simp
qed

lemma any_removal_settles:
  assumes "memory_fits E c R memo" and "inj_on regexp_source R" and "fits E c R (kb_when rule)" and "\<forall>r \<in> set rs. fits E c R (kb_when r)"
  shows "settles (\<lambda>n. any_removal E n memo rule rs) (\<exists>r \<in> set rs. targeted E memo rule r)"
  using assms(4)
proof (induction rs)
  case (Cons r rs)
  have "settles (\<lambda>n. if targeted E memo rule r then Inr True else any_removal E n memo rule rs) (\<exists>r \<in> set (r # rs). targeted E memo rule r)"
    using Cons by (cases "targeted E memo rule r") simp_all
  moreover have "settles (\<lambda>n. isTargetedForRemoval E n memo rule (Some (kb_chords r)) (kb_when r)) (targeted E memo rule r)"
    using assms(1-3) Cons.prems by (intro isTargetedForRemoval_settles) auto
  ultimately show ?case unfolding any_removal.simps by (intro settles_bind [where x = "targeted E memo rule r"])
qed simp

lemma handleRemovals_settles:
  assumes "memory_fits E c R memo" and "inj_on regexp_source R" and "\<forall>r \<in> set rules. fits E c R (kb_when r)"
  shows "settles (\<lambda>n. handleRemovals E n memo rules) (filter (kept E memo rules) rules)"
proof (cases "collect_removals rules = []")
  case True
  then have "filter (kept E memo rules) rules = rules"
    by (auto simp: collect_removals_Nil filter_id_conv kept_def str_truthy_def)
  with True show ?thesis by (simp add: handleRemovals_def)
next
  case False
  let ?r = "collect_removals rules"
  have "\<exists>t. settles (\<lambda>n. removal_step E n memo ?r s x) t \<and> t = filter (kept E memo rules) (pre @ [x])"
    if rules: "rules = pre @ x # post" and s: "s = filter (kept E memo rules) pre" for pre x post s
  proof (cases "str_truthy (kb_command x) \<and> removed_command x = None \<and> kb_isDefault x")
    case False
    then show ?thesis
      by (auto simp: removal_step_def s kept_def settles_def split: option.splits)
  next
    case True
    from rules have x: "x \<in> set rules" by simp
    from True obtain cmd where cmd: "kb_command x = Some cmd" by (auto simp: str_truthy_def)
    let ?rs = "filter (\<lambda>r. removed_command r = Some cmd) rules"
    show ?thesis
    proof (cases "?rs = []")
      case True
      then have "kept E memo rules x" using \<open>str_truthy _ \<and> _\<close> cmd by (auto simp: kept_def filter_empty_conv)
      with True \<open>str_truthy _ \<and> _\<close> show ?thesis by (simp add: removal_step_def collect_removals_entry cmd s)
    next
      case False
      have kept: "kept E memo rules x = (\<not> (\<exists>r \<in> set ?rs. targeted E memo x r))"
        using \<open>str_truthy _ \<and> _\<close> cmd by (auto simp: kept_def)
      have "settles (\<lambda>n. any_removal E n memo x ?rs) (\<not> kept E memo rules x)"
        unfolding kept not_not by (rule any_removal_settles [OF assms(1,2)]) (use assms(3) x in auto)
      then have "settles (\<lambda>n. bindE (any_removal E n memo x ?rs) (\<lambda>isRemoved. Inr (if isRemoved then s else s @ [x])))
          (if \<not> kept E memo rules x then s else s @ [x])"
        by (rule settles_bind) simp
      moreover have "removal_step E n memo ?r s x = bindE (any_removal E n memo x ?rs) (\<lambda>isRemoved. Inr (if isRemoved then s else s @ [x]))" for n
        using False \<open>str_truthy _ \<and> _\<close> by (simp add: removal_step_def collect_removals_entry cmd entry_def)
      ultimately show ?thesis by (auto simp: s)
    qed
  qed
  from settles_foldE [where I = "\<lambda>pre s. s = filter (kept E memo rules) pre" and pre = "[]" and s = "[]", OF this]
  have "settles (\<lambda>n. foldE (removal_step E n memo ?r) [] rules) (filter (kept E memo rules) rules)" by auto
  with False show ?thesis by (simp add: handleRemovals_def)
qed

text \<open>A removed rule has the chords of the removal, and its condition implies that of the removal.\<close>

lemma chords_start_prefix: "chords_start ks cs = prefix ks cs"
  by (induction ks cs rule: chords_start.induct) simp_all

lemma targeted_sound:
  assumes "memory_fits E c R memo" and "inj_on regexp_source R"
    and "fits E c R (kb_when rule)" "comparable_when (kb_when rule)"
    and "fits E c R (kb_when removal)" "comparable_when (kb_when removal)" and "targeted E memo rule removal"
  shows "prefix (kb_chords removal) (kb_chords rule)"
    and "contextMatchesRules E c (kb_when rule) \<Longrightarrow> contextMatchesRules E c (kb_when removal)"
proof -
  from assms(7) obtain N where N: "\<And>n. N \<le> n \<Longrightarrow>
      isTargetedForRemoval E n memo rule (Some (kb_chords removal)) (kb_when removal) = Inr True"
    by (auto simp: targeted_def settles_def)
  from N [OF order_refl] show "prefix (kb_chords removal) (kb_chords rule)"
    by (auto simp: isTargetedForRemoval_def chords_start_prefix split: if_splits)
  assume holds: "contextMatchesRules E c (kb_when rule)"
  from when_substituted_settles [OF assms(3,1,2)] assms(4) holds obtain d
    where d: "settles (\<lambda>n. when_substituted E n memo (kb_when rule)) d" "contextMatchesRules E c d" "fits E c R d" "comparable_when d"
    by blast
  from when_substituted_settles [OF assms(5,1,2)] assms(6) obtain w
    where w: "settles (\<lambda>n. when_substituted E n memo (kb_when removal)) w" "fits E c R w" "comparable_when w"
      "contextMatchesRules E c w = contextMatchesRules E c (kb_when removal)"
    by blast
  show "contextMatchesRules E c (kb_when removal)"
  proof (cases "kb_when removal = None \<or> kb_when removal = Some TrueExpr")
    case False
    have "settles (\<lambda>n. bindE (when_substituted E n memo (kb_when rule)) (\<lambda>defaultWhen.
           bindE (when_substituted E n memo (kb_when removal)) (\<lambda>removalWhen.
             Inr (whenIsEntirelyIncluded E defaultWhen removalWhen)))) (whenIsEntirelyIncluded E d w)"
      by (intro settles_bind [OF d(1)] settles_bind [OF w(1)]) simp
    moreover have "isTargetedForRemoval E n memo rule (Some (kb_chords removal)) (kb_when removal) =
        bindE (when_substituted E n memo (kb_when rule)) (\<lambda>defaultWhen.
           bindE (when_substituted E n memo (kb_when removal)) (\<lambda>removalWhen.
             Inr (whenIsEntirelyIncluded E defaultWhen removalWhen)))" if "N \<le> n" for n
      using N [OF that] False by (auto simp: isTargetedForRemoval_def split: if_splits)
    ultimately have "whenIsEntirelyIncluded E d w" using N unfolding settles_def
      by (metis Inr_inject max.cobounded1 max.cobounded2)
    from included_sound [OF this assms(2) d(3) w(2) d(4) w(3) d(2)] w(4) show ?thesis by simp
  qed (auto simp: contextMatchesRules_def)
qed

lemma targeted_always:
  assumes "prefix (kb_chords removal) (kb_chords rule)" and "kb_when removal = None \<or> kb_when removal = Some TrueExpr"
  shows "targeted E memo rule removal"
  using assms by (auto simp: targeted_def isTargetedForRemoval_def chords_start_prefix settles_def)

subsection \<open>The maps of a resolver\<close>

definition lookups :: "KeybindingResolver \<Rightarrow> string \<Rightarrow> ResolvedKeybindingItem list" where
  "lookups r cmd = (case map_of (kr_lookupMap r) cmd of None \<Rightarrow> [] | Some vs \<Rightarrow> vs)"

lemma subseq_subset: "subseq xs ys \<Longrightarrow> set xs \<subseteq> set ys"
  by (auto elim: list_emb_set)

lemma subseq_distinct: "subseq xs ys \<Longrightarrow> distinct ys \<Longrightarrow> distinct xs"
  by (auto simp: subseq_conv_nths)


lemma lookups_add:
  "cmd \<noteq> [] \<Longrightarrow> lookups (addToLookupMap item r) cmd = lookups r cmd @ (if kb_command item = Some cmd then [item] else [])"
  by (auto simp: addToLookupMap_def lookups_def map_of_push str_truthy_def)

lemma remove_first_filter:
  "distinct (map kb_id xs) \<Longrightarrow> remove_first item xs = filter (\<lambda>x. kb_id x \<noteq> kb_id item) xs"
proof (induction xs)
  case (Cons x xs)
  have "filter (\<lambda>y. kb_id y \<noteq> kb_id item) xs = xs" if "kb_id x = kb_id item"
    using that Cons.prems by (auto simp: filter_id_conv rev_image_eqI)
  with Cons show ?case by auto
qed simp

lemma lookups_remove:
  assumes "distinct (map kb_id (lookups r cmd))" and "cmd \<noteq> []"
  shows "lookups (removeFromLookupMap item r) cmd =
    (if kb_command item = Some cmd then filter (\<lambda>x. kb_id x \<noteq> kb_id item) (lookups r cmd) else lookups r cmd)"
  using assms remove_first_filter [of "lookups r cmd" item]
  by (auto simp: removeFromLookupMap_def lookups_def str_truthy_def AList.update_conv' split: option.splits)

text \<open>A conflict is shadowed by the item that is added.\<close>

definition shadows :: "env \<Rightarrow> ResolvedKeybindingItem \<Rightarrow> ResolvedKeybindingItem \<Rightarrow> bool" where
  "shadows E item conflict \<longleftrightarrow> kb_command conflict \<noteq> kb_command item \<and> isShorterKbPrefix conflict item \<and>
     whenIsEntirelyIncluded E (kb_when conflict) (kb_when item)"

lemma conflict_step_if: "conflict_step E item conflict r = (if shadows E item conflict then removeFromLookupMap conflict r else r)"
  by (simp add: conflict_step_def shadows_def)

lemma lookups_conflicts:
  assumes "distinct (map kb_id (lookups r cmd))" and "cmd \<noteq> []"
  shows "lookups (foldr (conflict_step E item) conflicts r) cmd =
    filter (\<lambda>k. \<not> (\<exists>x \<in> set conflicts. shadows E item x \<and> kb_command x = Some cmd \<and> kb_id x = kb_id k)) (lookups r cmd)"
proof (induction conflicts)
  case (Cons x conflicts)
  have "distinct (map kb_id (lookups (foldr (conflict_step E item) conflicts r) cmd))"
    unfolding Cons.IH by (rule distinct_map_filter [OF assms(1)])
  from lookups_remove [OF this assms(2), of x] show ?case
    unfolding foldr_Cons o_apply conflict_step_if [of E item x]
    by (auto simp: Cons.IH intro!: filter_cong)
qed simp

lemma fields_conflicts [simp]:
  "kr_map (foldr (conflict_step E item) conflicts r) = kr_map r"
  "kr_keybindings (foldr (conflict_step E item) conflicts r) = kr_keybindings r"
  by (induction conflicts) (auto simp: conflict_step_if removeFromLookupMap_def split: option.split)

definition conflicts_of :: "KeybindingResolver \<Rightarrow> string \<Rightarrow> ResolvedKeybindingItem list" where
  "conflicts_of r key = (case map_of (kr_map r) key of None \<Rightarrow> [] | Some ks \<Rightarrow> ks)"

lemma addKeyPress_maps:
  "kr_keybindings (addKeyPress E key item r) = kr_keybindings r"
  "map_of (kr_map (addKeyPress E key item r)) = (map_of (kr_map r))(key \<mapsto> conflicts_of r key @ [item])"
  by (auto simp: addKeyPress_def addToLookupMap_def conflicts_of_def AList.update_conv' Let_def split: option.splits)

lemma lookups_kr_map [simp]: "lookups (r\<lparr>kr_map := m\<rparr>) cmd = lookups r cmd"
  by (simp add: lookups_def)

lemma addKeyPress_lookups:
  assumes "distinct (map kb_id (lookups r cmd))" and "cmd \<noteq> []"
  shows "lookups (addKeyPress E key item r) cmd =
    filter (\<lambda>k. \<not> (\<exists>x \<in> set (conflicts_of r key). shadows E item x \<and> kb_command x = Some cmd \<and> kb_id x = kb_id k)) (lookups r cmd)
    @ (if kb_command item = Some cmd then [item] else [])"
  using assms(2) lookups_conflicts [OF assms, of E item "conflicts_of r key"]
  by (auto simp: addKeyPress_def conflicts_of_def lookups_add Let_def split: option.splits)

subsection \<open>Building a resolver\<close>

text \<open>The keybindings that are entered: those with chords whose condition is not replaced by false.\<close>

definition bound :: "env \<Rightarrow> memory \<Rightarrow> ResolvedKeybindingItem \<Rightarrow> bool" where
  "bound E memo k \<longleftrightarrow> kb_chords k \<noteq> [] \<and> \<not> settles (\<lambda>n. when_substituted E n memo (kb_when k)) (Some FalseExpr)"

definition following :: "'a list \<Rightarrow> 'a \<Rightarrow> 'a \<Rightarrow> bool" where
  "following xs x y \<longleftrightarrow> (\<exists>us vs ws. xs = us @ x # vs @ y # ws)"

lemma following_append: "following xs x y \<Longrightarrow> following (xs @ zs) x y"
  unfolding following_def by (metis append_Cons append_assoc)

lemma following_last: "x \<in> set xs \<Longrightarrow> following (xs @ [y]) x y"
  unfolding following_def by (metis append_Cons append_assoc append_Nil in_set_conv_decomp)

definition entered :: "env \<Rightarrow> memory \<Rightarrow> ResolvedKeybindingItem list \<Rightarrow> ResolvedKeybindingItem list \<Rightarrow> KeybindingResolver \<Rightarrow> bool" where
  "entered E memo ks pre r \<longleftrightarrow> kr_keybindings r = ks \<and>
     (\<forall>key. map_of (kr_map r) key = entry (filter (\<lambda>k. bound E memo k \<and> hd (kb_chords k) = key) pre)) \<and>
     (\<forall>cmd. cmd \<noteq> [] \<longrightarrow> subseq (lookups r cmd) (filter (\<lambda>k. bound E memo k \<and> kb_command k = Some cmd) pre) \<and>
       (\<forall>k \<in> set pre. bound E memo k \<longrightarrow> kb_command k = Some cmd \<longrightarrow> k \<notin> set (lookups r cmd) \<longrightarrow>
         (\<exists>k'. following pre k k' \<and> bound E memo k' \<and> hd (kb_chords k') = hd (kb_chords k) \<and> shadows E k' k)))"

lemma entered_skip:
  assumes "entered E memo ks pre r" and "\<not> bound E memo k"
  shows "entered E memo ks (pre @ [k]) r"
  using assms following_append [of pre _ _ "[k]"] unfolding entered_def by (auto; blast)

lemma entered_add:
  assumes r: "entered E memo ks pre r" and k: "bound E memo k" and distinct: "distinct (map kb_id (pre @ [k]))"
  shows "entered E memo ks (pre @ [k]) (addKeyPress E (hd (kb_chords k)) k r)"
proof -
  let ?key = "hd (kb_chords k)" and ?r = "addKeyPress E (hd (kb_chords k)) k r"
  have conflicts: "conflicts_of r ?key = filter (\<lambda>x. bound E memo x \<and> hd (kb_chords x) = ?key) pre"
    using r by (simp add: conflicts_of_def entered_def)
  have "map_of (kr_map ?r) key = entry (filter (\<lambda>x. bound E memo x \<and> hd (kb_chords x) = key) (pre @ [k]))" for key
    using r k by (auto simp: addKeyPress_maps conflicts entered_def)
  moreover have "subseq (lookups ?r cmd) (filter (\<lambda>x. bound E memo x \<and> kb_command x = Some cmd) (pre @ [k]))
      \<and> (\<forall>x \<in> set (pre @ [k]). bound E memo x \<longrightarrow> kb_command x = Some cmd \<longrightarrow> x \<notin> set (lookups ?r cmd) \<longrightarrow>
         (\<exists>k'. following (pre @ [k]) x k' \<and> bound E memo k' \<and> hd (kb_chords k') = hd (kb_chords x) \<and> shadows E k' x))"
    if cmd: "cmd \<noteq> []" for cmd
  proof -
    let ?L = "lookups r cmd" and ?pre = "filter (\<lambda>x. bound E memo x \<and> kb_command x = Some cmd) pre"
    from r cmd have sub: "subseq ?L ?pre"
      and lost: "\<And>x. x \<in> set pre \<Longrightarrow> bound E memo x \<Longrightarrow> kb_command x = Some cmd \<Longrightarrow> x \<notin> set ?L \<Longrightarrow>
        \<exists>k'. following pre x k' \<and> bound E memo k' \<and> hd (kb_chords k') = hd (kb_chords x) \<and> shadows E k' x"
      by (auto simp: entered_def)
    have "distinct (map kb_id ?pre)" using distinct by (simp add: distinct_map_filter)
    then have ids: "distinct (map kb_id ?L)" by (rule subseq_distinct [OF subseq_map [OF sub]])
    let ?p = "\<lambda>y. \<not> (\<exists>x \<in> set (conflicts_of r ?key). shadows E k x \<and> kb_command x = Some cmd \<and> kb_id x = kb_id y)"
    note eq = addKeyPress_lookups [OF ids cmd, of E ?key k]
    have "subseq (filter ?p ?L) ?pre" by (rule subseq_order.trans [OF subseq_filter_left sub])
    then have "subseq (lookups ?r cmd) (filter (\<lambda>x. bound E memo x \<and> kb_command x = Some cmd) (pre @ [k]))"
      unfolding eq using k by (auto intro: list_emb_append_mono)
    moreover have "\<exists>k'. following (pre @ [k]) x k' \<and> bound E memo k' \<and> hd (kb_chords k') = hd (kb_chords x) \<and> shadows E k' x"
      if x: "x \<in> set (pre @ [k])" "bound E memo x" "kb_command x = Some cmd" "x \<notin> set (lookups ?r cmd)" for x
    proof (cases "x \<in> set ?L")
      case True
      with x(4) obtain y where y: "y \<in> set (conflicts_of r ?key)" "shadows E k y" "kb_id y = kb_id x"
        unfolding eq by auto
      from True subseq_subset [OF sub] have "x \<in> set pre" by auto
      moreover from y(1) have "y \<in> set pre" "hd (kb_chords y) = ?key" by (simp_all add: conflicts)
      ultimately have "x = y" using y(3) distinct by (auto simp: distinct_map dest: inj_onD)
      with y k \<open>x \<in> set pre\<close> \<open>hd (kb_chords y) = ?key\<close> show ?thesis by (auto intro: following_last)
    next
      case False
      from x eq have "x \<noteq> k" by auto
      with x lost [of x] False obtain k' where "following pre x k'" "bound E memo k'"
        "hd (kb_chords k') = hd (kb_chords x)" "shadows E k' x" by auto
      then show ?thesis by (auto intro: following_append)
    qed
    ultimately show ?thesis by blast
  qed
  ultimately show ?thesis using r by (simp add: entered_def addKeyPress_maps)
qed

text \<open>A keybinding whose condition holds in the context is entered.\<close>

lemma matching_bound:
  assumes "memory_fits E c R memo" and "inj_on regexp_source R" and "fits E c R (kb_when k)"
    and "kb_chords k \<noteq> []" and "contextMatchesRules E c (kb_when k)"
  shows "bound E memo k"
proof -
  from when_substituted_settles [OF assms(3,1,2)] obtain z
    where z: "settles (\<lambda>n. when_substituted E n memo (kb_when k)) z" "contextMatchesRules E c z = contextMatchesRules E c (kb_when k)"
    by blast
  with assms(5) have "z \<noteq> Some FalseExpr" by (auto simp: contextMatchesRules_def)
  with z(1) assms(4) show ?thesis by (auto simp: bound_def dest: settles_same)
qed

lemma add_step_settles:
  assumes "memory_fits E c R memo" and "inj_on regexp_source R" and "fits E c R (kb_when k)"
  shows "settles (\<lambda>n. add_step E n memo r k) (if bound E memo k then addKeyPress E (hd (kb_chords k)) k r else r)"
proof (cases "kb_chords k = []")
  case True
  then show ?thesis by (simp add: add_step_def bound_def)
next
  case False
  from when_substituted_settles [OF assms(3,1,2)] obtain z
    where z: "settles (\<lambda>n. when_substituted E n memo (kb_when k)) z" by blast
  have "bound E memo k = (z \<noteq> Some FalseExpr)" using False z by (auto simp: bound_def dest: settles_same)
  moreover have "settles (\<lambda>n. bindE (when_substituted E n memo (kb_when k)) (\<lambda>condition.
      if condition = Some FalseExpr then Inr r else Inr (addKeyPress E (kb_chords k ! 0) k r)))
      (if z \<noteq> Some FalseExpr then addKeyPress E (hd (kb_chords k)) k r else r)"
    by (rule settles_bind [OF z]) (simp add: hd_conv_nth False)
  ultimately show ?thesis using False by (simp add: add_step_def)
qed

lemma resolver_settles:
  assumes "memory_fits E c R memo" and "inj_on regexp_source R" and "\<forall>k \<in> set (ds @ os). fits E c R (kb_when k)"
    and "distinct (map kb_id (ds @ os))"
  shows "\<exists>r. settles (\<lambda>n. KeybindingResolver_new E n memo ds os) r \<and>
    entered E memo (filter (kept E memo (ds @ os)) (ds @ os)) (filter (kept E memo (ds @ os)) (ds @ os)) r"
proof -
  define ks where "ks = filter (kept E memo (ds @ os)) (ds @ os)"
  let ?r = "\<lparr>kr_defaultKeybindings = ds, kr_keybindings = ks, kr_defaultBoundCommands = default_bound ds, kr_map = [], kr_lookupMap = []\<rparr>"
  have distinct: "distinct (map kb_id ks)" unfolding ks_def by (rule distinct_map_filter [OF assms(4)])
  have start: "entered E memo ks [] ?r" by (simp add: entered_def lookups_def)
  have step: "\<exists>t. settles (\<lambda>n. add_step E n memo r k) t \<and> entered E memo ks (pre @ [k]) t"
    if eq: "ks = pre @ k # post" and r: "entered E memo ks pre r" for pre k post r
  proof -
    have "k \<in> set ks" unfolding eq by simp
    then have "fits E c R (kb_when k)" using assms(3) by (auto simp: ks_def)
    note step = add_step_settles [OF assms(1,2) this, of r]
    have "distinct (map kb_id (pre @ [k]))" using distinct unfolding eq by simp
    from entered_add [OF r _ this] entered_skip [OF r]
    have "entered E memo ks (pre @ [k]) (if bound E memo k then addKeyPress E (hd (kb_chords k)) k r else r)" by simp
    with step show ?thesis by blast
  qed
  have "\<exists>t. settles (\<lambda>n. foldE (add_step E n memo) ?r ks) t \<and> entered E memo ks ks t"
    by (rule settles_foldE [where pre = "[]" and f = "\<lambda>n. add_step E n memo"]) (use step start in auto)
  then obtain r where r: "settles (\<lambda>n. foldE (add_step E n memo) ?r ks) r" "entered E memo ks ks r" by blast
  have "settles (\<lambda>n. KeybindingResolver_new E n memo ds os) r"
    unfolding KeybindingResolver_new_def
    by (rule settles_bind [OF handleRemovals_settles [OF assms(1-3)]]) (use r(1) in \<open>simp add: ks_def\<close>)
  with r(2) show ?thesis unfolding ks_def by blast
qed

subsection \<open>Resolution\<close>

text \<open>Of all keybindings that start with the pressed chords and apply in the context, the last one counts.\<close>

definition applicable :: "env \<Rightarrow> IContext \<Rightarrow> string list \<Rightarrow> ResolvedKeybindingItem \<Rightarrow> bool" where
  "applicable E c pressed k \<longleftrightarrow> prefix pressed (kb_chords k) \<and> contextMatchesRules E c (kb_when k)"

definition resolution :: "env \<Rightarrow> IContext \<Rightarrow> string list \<Rightarrow> ResolvedKeybindingItem list \<Rightarrow> ResolutionResult" where
  "resolution E c pressed ks =
     (case find_last (applicable E c pressed) ks of
        None \<Rightarrow> NoMatchingKb
      | Some k \<Rightarrow> if kb_chords k = pressed then KbFound (kb_command k) (kb_commandArgs k) (kb_bubble k) else MoreChordsNeeded)"

lemma find_last_filter: "find_last p (filter q xs) = find_last (\<lambda>x. q x \<and> p x) xs"
  by (induction xs rule: rev_induct) (simp_all add: find_last_def)

lemma find_last_cong: "(\<And>x. x \<in> set xs \<Longrightarrow> p x = q x) \<Longrightarrow> find_last p xs = find_last q xs"
  unfolding find_last_def by (rule find_cong) simp_all

lemma find_last_Some: "find_last p xs = Some x \<Longrightarrow> p x \<and> x \<in> set xs"
  unfolding find_last_def by (metis find_Some_iff nth_mem set_rev)

lemma prefix_nth: "prefix xs ys \<longleftrightarrow> length xs \<le> length ys \<and> (\<forall>i < length xs. ys ! i = xs ! i)"
proof (induction xs arbitrary: ys)
  case (Cons x xs)
  then show ?case by (cases ys) (auto simp: All_less_Suc2)
qed simp

lemma prefixMatches_prefix:
  assumes "pressed \<noteq> []" and "kb_chords k \<noteq> []" and "hd (kb_chords k) = hd pressed"
  shows "prefixMatches pressed k = prefix pressed (kb_chords k)"
proof -
  obtain p ps where p: "pressed = p # ps" using assms(1) by (cases pressed) auto
  obtain ks where k: "kb_chords k = p # ks" using assms(2,3) p by (cases "kb_chords k") auto
  have "[1..<length pressed] = map Suc [0..<length ps]" by (simp add: p map_Suc_upt)
  then have "list_all (\<lambda>i. kb_chords k ! i = pressed ! i) [1..<length pressed] = (\<forall>i < length ps. ks ! i = ps ! i)"
    unfolding \<open>[1..<length pressed] = _\<close> by (auto simp: p k list_all_iff atLeast0LessThan)
  moreover have "prefix pressed (kb_chords k) = prefix ps ks" by (simp add: p k)
  ultimately show ?thesis unfolding prefixMatches_def prefix_nth [of ps ks] by (simp add: p k)
qed

lemma resolve_entered:
  assumes r: "entered E memo ks ks r"
    and bound: "\<And>k. k \<in> set ks \<Longrightarrow> kb_chords k \<noteq> [] \<Longrightarrow> contextMatchesRules E c (kb_when k) \<Longrightarrow> bound E memo k"
  shows "resolve E c chords key r = resolution E c (chords @ [key]) ks"
proof -
  let ?pressed = "chords @ [key]"
  let ?first = "\<lambda>k. bound E memo k \<and> hd (kb_chords k) = hd ?pressed"
  have at: "?pressed ! 0 = hd ?pressed" by (simp add: hd_conv_nth)
  have map: "map_of (kr_map r) (hd ?pressed) = entry (filter ?first ks)" using r by (simp add: entered_def)
  let ?cands = "if length ?pressed < 2 then filter ?first ks else filter (prefixMatches ?pressed) (filter ?first ks)"
  have "?cands = filter (\<lambda>k. ?first k \<and> prefix ?pressed (kb_chords k)) ks"
  proof (cases "length ?pressed < 2")
    case True
    then have "?pressed = [key]" by simp
    moreover have "prefix [key] (kb_chords k)" if "?first k" for k
      using that \<open>?pressed = [key]\<close> by (cases "kb_chords k") (auto simp: bound_def)
    ultimately show ?thesis by (auto intro: filter_cong)
  next
    case False
    then show ?thesis using prefixMatches_prefix [of ?pressed]
      by (auto simp: bound_def intro!: filter_cong)
  qed
  then have "findCommand E c ?cands = find_last (\<lambda>k. (?first k \<and> prefix ?pressed (kb_chords k)) \<and> contextMatchesRules E c (kb_when k)) ks"
    by (simp add: findCommand_def find_last_filter)
  also have "\<dots> = find_last (applicable E c ?pressed) ks"
  proof (rule find_last_cong)
    fix k assume "k \<in> set ks"
    have "hd (kb_chords k) = hd ?pressed \<and> kb_chords k \<noteq> []" if "prefix ?pressed (kb_chords k)"
      using that by (cases "kb_chords k"; cases ?pressed) auto
    with bound [OF \<open>k \<in> set ks\<close>]
    show "((?first k \<and> prefix ?pressed (kb_chords k)) \<and> contextMatchesRules E c (kb_when k)) = applicable E c ?pressed k"
      by (auto simp: applicable_def)
  qed
  finally have found: "findCommand E c ?cands = find_last (applicable E c ?pressed) ks" .
  have full: "(length ?pressed < length (kb_chords k)) = (kb_chords k \<noteq> ?pressed)" if "prefix ?pressed (kb_chords k)" for k
    using that by (auto simp: prefix_def)
  show ?thesis
  proof (cases "filter ?first ks = []")
    case True
    then have "?cands = []" by (simp only: filter.simps if_cancel)
    with found have "find_last (applicable E c ?pressed) ks = None" by (simp add: findCommand_def find_last_def)
    then show ?thesis by (simp add: resolve_def resolution_def Let_def at map True del: append_eq_append_conv)
  next
    case False
    then have "map_of (kr_map r) (?pressed ! 0) = Some (filter ?first ks)" by (simp add: at map entry_def)
    then have "resolve E c chords key r = (case findCommand E c ?cands of None \<Rightarrow> NoMatchingKb
        | Some k \<Rightarrow> if length ?pressed < length (kb_chords k) then MoreChordsNeeded
                    else KbFound (kb_command k) (kb_commandArgs k) (kb_bubble k))"
      unfolding resolve_def Let_def by simp
    moreover have "(length ?pressed < length (kb_chords k)) = (kb_chords k \<noteq> ?pressed)"
      if "find_last (applicable E c ?pressed) ks = Some k" for k
      by (rule full) (use find_last_Some [OF that] in \<open>simp add: applicable_def\<close>)
    ultimately show ?thesis
      unfolding found resolution_def by (cases "find_last (applicable E c ?pressed) ks") simp_all
  qed
qed

subsection \<open>Shadowed keybindings\<close>





subsection \<open>The properties\<close>

definition example_item :: "nat \<Rightarrow> string list \<Rightarrow> string \<Rightarrow> ContextKeyExpression option \<Rightarrow> bool \<Rightarrow> ResolvedKeybindingItem" where
  "example_item i chords command condition isDefault =
     ResolvedKeybindingItem_new i (Some (map Some chords, [])) (Some command) JUndefined condition isDefault None False False"

definition example_defaults :: "ResolvedKeybindingItem list" where
  "example_defaults =
     [example_item 0 [''k'', ''a''] ''find'' (Some (DefinedExpr ''b'')) True,
      example_item 1 [''k''] ''open'' (Some (AndExpr [DefinedExpr ''isMac'', DefinedExpr ''x''] None)) True]"

definition example_overrides :: "ResolvedKeybindingItem list" where
  "example_overrides =
     [example_item 2 [''k''] ''-open'' (Some (DefinedExpr ''x'')) False,
      example_item 3 [''k'', ''a''] ''run'' None False]"

lemma example_fits:
  "\<forall>k \<in> set (example_defaults @ example_overrides). fits example_env example_context {} (kb_when k) \<and> comparable_when (kb_when k)"
  "memory_fits example_env example_context {} (\<lambda>_. None)"
  "distinct (map kb_id (example_defaults @ example_overrides))"
  by (simp_all add: example_defaults_def example_overrides_def example_item_def ResolvedKeybindingItem_new_def
    fits_def comparable_when_def memory_fits_def example_simps str_truthy_def)

text \<open>
  C36. \<open>handleRemovals\<close> returns the rules in their order without the removals. The rules of the user stay. A
  default rule is dropped only for a removal of its command whose chords are the first chords of the rule and
  whose condition holds whenever that of the rule does, and a removal without condition drops every default
  rule of the command whose chords start with its own. Hypotheses: the conditions are well-formed, the context fits
  them (it gives the constants their values and numbers to the keys that are compared), their equalities are with strings and
  their comparisons with numbers, and regular expressions with the same source have the same flags. Without them a default rule can
  be dropped for a removal whose condition it does not imply (\<open>implies_confuses_values\<close>).
\<close>

theorem handleRemovals_correct:
  assumes "memory_fits E c R memo" and "inj_on regexp_source R"
    and "\<forall>k \<in> set rules. fits E c R (kb_when k) \<and> comparable_when (kb_when k)"
  shows "\<exists>N result. (\<forall>n \<ge> N. handleRemovals E n memo rules = Inr result) \<and> subseq result rules \<and>
    (\<forall>k \<in> set result. removed_command k = None) \<and>
    (\<forall>k \<in> set rules. removed_command k = None \<longrightarrow> k \<notin> set result \<longrightarrow> kb_isDefault k \<and>
      (\<exists>r \<in> set rules. removed_command r = kb_command k \<and> prefix (kb_chords r) (kb_chords k) \<and>
        (contextMatchesRules E c (kb_when k) \<longrightarrow> contextMatchesRules E c (kb_when r)))) \<and>
    (\<forall>k \<in> set rules. \<forall>r \<in> set rules. kb_isDefault k \<longrightarrow> str_truthy (kb_command k) \<longrightarrow> removed_command r = kb_command k \<longrightarrow>
      prefix (kb_chords r) (kb_chords k) \<longrightarrow> kb_when r = None \<or> kb_when r = Some TrueExpr \<longrightarrow> k \<notin> set result)"
proof -
  let ?result = "filter (kept E memo rules) rules"
  from handleRemovals_settles [OF assms(1,2), of rules] assms(3) obtain N
    where "\<forall>n \<ge> N. handleRemovals E n memo rules = Inr ?result" unfolding settles_def by blast
  moreover have "removed_command k = None" if "k \<in> set ?result" for k
    using that by (auto simp: kept_def removed_command_def str_truthy_def split: option.splits list.splits)
  moreover have "kb_isDefault k \<and> (\<exists>r \<in> set rules. removed_command r = kb_command k \<and> prefix (kb_chords r) (kb_chords k) \<and>
      (contextMatchesRules E c (kb_when k) \<longrightarrow> contextMatchesRules E c (kb_when r)))"
    if k: "k \<in> set rules" "removed_command k = None" "k \<notin> set ?result" for k
  proof -
    from k obtain r where r: "kb_isDefault k" "r \<in> set rules" "removed_command r = kb_command k" "targeted E memo k r"
      by (auto simp: kept_def)
    with targeted_sound [OF assms(1,2) _ _ _ _ r(4)] assms(3) k(1) show ?thesis by blast
  qed
  moreover have "k \<notin> set ?result"
    if "kb_isDefault k" "str_truthy (kb_command k)" "r \<in> set rules" "removed_command r = kb_command k"
      "prefix (kb_chords r) (kb_chords k)" "kb_when r = None \<or> kb_when r = Some TrueExpr" for k r
    using that targeted_always [of r k E memo] by (auto simp: kept_def)
  ultimately show ?thesis by (intro exI [of _ N] exI [of _ ?result]) (blast intro: subseq_filter_left)
qed

lemma handleRemovals_correct_witness:
  "\<exists>N result. (\<forall>n \<ge> N. handleRemovals example_env n (\<lambda>_. None) (example_defaults @ example_overrides) = Inr result) \<and>
    subseq result (example_defaults @ example_overrides)"
  using handleRemovals_correct [OF example_fits(2) _ example_fits(1)] by auto

text \<open>
  C34. The constructor returns, and the resolver answers chords as its list of keybindings says: of all the
  keybindings that start with the chords and whose condition holds in the context the last one counts. Its command
  runs if the chords are all of its chords, and otherwise more chords are needed. Hypotheses: the items are distinct
  objects, the conditions are well-formed, the context fits them (it gives the constants their values and
  numbers to the keys that are compared), and regular expressions with the same source have the same flags.
\<close>

theorem resolve_correct:
  assumes "memory_fits E c R memo" and "inj_on regexp_source R"
    and "\<forall>k \<in> set (ds @ os). fits E c R (kb_when k)" and "distinct (map kb_id (ds @ os))"
  shows "\<exists>N r. (\<forall>n \<ge> N. handleRemovals E n memo (ds @ os) = Inr (kr_keybindings r) \<and>
      KeybindingResolver_new E n memo ds os = Inr r) \<and>
    (\<forall>chords key. resolve E c chords key r =
      (case find_last (\<lambda>k. prefix (chords @ [key]) (kb_chords k) \<and> contextMatchesRules E c (kb_when k)) (kr_keybindings r) of
         None \<Rightarrow> NoMatchingKb
       | Some k \<Rightarrow> if kb_chords k = chords @ [key] then KbFound (kb_command k) (kb_commandArgs k) (kb_bubble k)
                   else MoreChordsNeeded))"
proof -
  let ?ks = "filter (kept E memo (ds @ os)) (ds @ os)"
  from resolver_settles [OF assms] obtain r where r: "settles (\<lambda>n. KeybindingResolver_new E n memo ds os) r"
    "entered E memo ?ks ?ks r" by blast
  from handleRemovals_settles [OF assms(1-3)] r(1) obtain N where
    "\<forall>n \<ge> N. handleRemovals E n memo (ds @ os) = Inr ?ks \<and> KeybindingResolver_new E n memo ds os = Inr r"
    unfolding settles_def by (metis max.bounded_iff)
  moreover from r(2) have "kr_keybindings r = ?ks" by (simp add: entered_def)
  moreover have "resolve E c chords key r = resolution E c (chords @ [key]) ?ks" for chords key
    by (rule resolve_entered [OF r(2)]) (use assms(3) matching_bound [OF assms(1,2)] in auto)
  ultimately show ?thesis
    by (intro exI [of _ N] exI [of _ r]) (simp add: resolution_def applicable_def [abs_def])
qed

lemma resolve_correct_witness:
  "\<exists>N r. (\<forall>n \<ge> N. handleRemovals example_env n (\<lambda>_. None) (example_defaults @ example_overrides) = Inr (kr_keybindings r) \<and>
      KeybindingResolver_new example_env n (\<lambda>_. None) example_defaults example_overrides = Inr r) \<and>
    (\<forall>chords key. resolve example_env example_context chords key r =
      (case find_last (\<lambda>k. prefix (chords @ [key]) (kb_chords k) \<and> contextMatchesRules example_env example_context (kb_when k))
          (kr_keybindings r) of
         None \<Rightarrow> NoMatchingKb
       | Some k \<Rightarrow> if kb_chords k = chords @ [key] then KbFound (kb_command k) (kb_commandArgs k) (kb_bubble k)
                   else MoreChordsNeeded))"
  by (rule resolve_correct [OF example_fits(2) _ _ example_fits(3)]) (use example_fits(1) in auto)



text \<open>Of \<open>k a\<close>, \<open>k\<close>, which is removed, and \<open>k a\<close> the last runs and hides the first.\<close>

lemma example_resolves:
  "case KeybindingResolver_new example_env 5 (\<lambda>_. None) example_defaults example_overrides of Inl _ \<Rightarrow> False
   | Inr r \<Rightarrow> map kb_id (kr_keybindings r) = [0, 3] \<and> lookupKeybindings ''find'' r = [] \<and>
       resolve example_env example_context [] ''k'' r = MoreChordsNeeded \<and>
       resolve example_env example_context [''k''] ''a'' r = KbFound (Some ''run'') JUndefined False"
  by code_simp

text \<open>
  A keybinding that a later one hides stays off the list when a third one hides the second: of \<open>k a\<close>, \<open>k\<close> and \<open>k c\<close>
  the first is not listed, but \<open>k a\<close> runs it.
\<close>

lemma hidden_but_reachable:
  "case KeybindingResolver_new example_env 5 (\<lambda>_. None)
      [example_item 0 [''k'', ''a''] ''find'' None True, example_item 1 [''k''] ''open'' None True,
       example_item 2 [''k'', ''c''] ''go'' None True] [] of Inl _ \<Rightarrow> False
   | Inr r \<Rightarrow> lookupKeybindings ''find'' r = [] \<and>
       resolve example_env example_context [] ''k'' r = MoreChordsNeeded \<and>
       resolve example_env example_context [''k''] ''a'' r = KbFound (Some ''find'') JUndefined False"
  by code_simp

end
