(* ===== verification/Spec2Isabelle.thy ===== *)
theory Spec2Isabelle
  imports Arrays_Find Offset_Range Line_Range Position_Range Edit_Rebase Js_Lines Js_Compare
    Bracket_Length Constant_Prefix_Sum Sorted_Diff Array_Top Array_Ops Line_Alignment
    Mirror_Refinement Linked_List Map_Refinement Lru_Cache Task_Limiter Task_Throttler
    Context_Keys Context_Text Keybindings
begin

text \<open>
  \<^bold>\<open>A verified model of the text core of the editor\<close>

  The repository is a TypeScript code editor (a fork of VS Code). Its core is the model of text under
  \<open>src/vs/editor/common/\<close> and the data structures under \<open>src/vs/base/common/\<close> it is built
  on, and the language of conditions on context keys that commands and keybindings depend on; the user interface, the workbench, the platform services and the extensions are built around
  them. This development models that core, module by module, as HOL definitions translated from the
  source, and proves what makes each module correct.

  \<^bold>\<open>Parts and theories\<close>

  \<^item> \<open>Prelude\<close>: exceptions as values of a sum, JavaScript numbers, array segments, index loops.
  \<^item> \<open>Arrays_Find\<close>: \<open>base/common/arraysFind.ts\<close> and the comparators of
    \<open>base/common/arrays.ts\<close>. Binary searches over monotone predicates, extreme elements, and
    \<open>MonotonousArray\<close>, which caches the result of the last search.
  \<^item> \<open>Intervals\<close>, \<open>Offset_Range\<close>, \<open>Line_Range\<close>: \<open>editor/common/core/ranges/\<close>.
    The locale \<open>interval\<close> proves the algebra of half-open intervals once for \<open>OffsetRange\<close>
    and \<open>LineRange\<close>; \<open>OffsetRangeSet\<close> and \<open>LineRangeSet\<close> keep sorted arrays of
    disjoint ranges.
  \<^item> \<open>Position_Range\<close>: \<open>position.ts\<close>, \<open>range.ts\<close>, \<open>selection.ts\<close> of
    \<open>editor/common/core/\<close>. Positions are an instance of \<open>linorder\<close>.
  \<^item> \<open>Edit_Base\<close>, \<open>Edit_Compose\<close>, \<open>Edit_Classes\<close>, \<open>String_Edit\<close>,
    \<open>Edit_Rebase\<close>: \<open>editor/common/core/edits/\<close>. An edit is a list of replacements; the
    virtual methods of a replacement class are the record \<open>repl_ops\<close>, the contract of such a class
    is the locale \<open>replacement_class\<close>, interpreted on the classes of the source. Composition,
    normalization, inversion, rebasing and offset mapping.
  \<^item> \<open>Js_Strings\<close>, \<open>Js_Text\<close>, \<open>Js_Lines\<close>, \<open>Js_Compare\<close>:
    \<open>base/common/strings.ts\<close>. Strings are lists of 16-bit units
    (those of context keys, of 8-bit characters).
  \<^item> \<open>Text_Length\<close>, \<open>Bracket_Length\<close>: \<open>editor/common/core/text/textLength.ts\<close> and
    the packed lengths of the bracket pair tree
    (\<open>editor/common/model/bracketPairsTextModelPart/bracketPairsTree/length.ts\<close>).
  \<^item> \<open>Prefix_Sum_Spec\<close>, \<open>Prefix_Sum\<close>, \<open>Constant_Prefix_Sum\<close>:
    \<open>editor/common/model/prefixSumComputer.ts\<close> and \<open>base/common/uint.ts\<close>. The locale
    \<open>psum_machine\<close> is the contract of a prefix sum computer over sequences of operations; both
    classes of the source interpret it.
  \<^item> \<open>Mirror_Text_Model\<close>, \<open>Line_Documents\<close>, \<open>Mirror_Text\<close>, \<open>Mirror_Refinement\<close>:
    \<open>editor/common/model/mirrorTextModel.ts\<close> and the queries of \<open>MirrorModel\<close> in
    \<open>editor/common/services/textModelSync/textModelSync.impl.ts\<close>: the copy of a text that follows
    change events, on prefix sums of the lengths of the lines. It interprets
    \<open>object_refinement\<close> with a text as the specification.
  \<^item> \<open>Object_Refinement\<close>: the locale \<open>object_refinement\<close>, for a class whose operations are
    steps on its record: every run of operations from a new object answers like the runs of a plain
    specification object.
  \<^item> \<open>Sorted_Diff\<close>, \<open>Array_Select\<close>, \<open>Array_Top\<close>, \<open>Array_Ops\<close>:
    \<open>base/common/arrays.ts\<close>. \<open>sortedDiff\<close>, \<open>quickSelect\<close>, \<open>top\<close> and \<open>topAsync\<close>, the
    grouping functions, the small functions on arrays, \<open>ArrayQueue\<close> (an interpretation of
    \<open>object_refinement\<close>) and \<open>Permutation\<close>.
  \<^item> \<open>Linked_Chains\<close>, \<open>Linked_List\<close>, \<open>Linked_Map\<close>, \<open>Map_Refinement\<close>, \<open>Lru_Cache\<close>:
    \<open>base/common/linkedList.ts\<close> and the linked maps and caches of \<open>base/common/map.ts\<close>, on an
    explicit store of nodes that refer to each other. A chain of nodes stands for a list; each class is
    an interpretation of \<open>object_refinement\<close>.
  \<^item> \<open>Task_Runner\<close>, \<open>Task_Limiter\<close>, \<open>Task_Throttler\<close>: the classes of \<open>base/common/async.ts\<close> that
    decide when to start queued tasks, as step relations over the events of clients and promises. The
    locale \<open>task_runner\<close> states what they promise; \<open>Limiter\<close> and \<open>LimitedQueue\<close> interpret it.
    \<open>Throttler\<close>, whose reactions to a promise can be separated, has events for the jobs that run them.
  \<^item> \<open>Sequence_Diff\<close>, \<open>Dp_Diff\<close>, \<open>Diff_Shifting\<close>, \<open>Diff_Joining\<close>,
    \<open>Line_Alignment\<close>: \<open>editor/common/diff/defaultLinesDiffComputer/\<close>. What a list of sequence
    diffs means, the dynamic programming algorithm, the heuristics that move, join and drop diffs, and
    the alignment of lines in \<open>computeDiff\<close>. The locale \<open>diff_algorithm\<close> is what the stage relies
    on; the dynamic programming algorithm interprets it.

  \<^item> \<open>Js_Value\<close>, \<open>Context_Expr\<close>, \<open>Context_Normalize\<close>: the expressions over context keys of
    \<open>platform/contextkey/common/contextkey.ts\<close>, on the values of JavaScript with their comparisons
    and conversions. One datatype stands for the 16 classes; normalising, negating and substituting call
    each other. \<open>Context_Semantics\<close>: they keep what an expression evaluates to.
    \<open>Context_Termination\<close>: they return, by way of the locales \<open>negatable\<close>,
    \<open>pairable\<close> and \<open>closed_class\<close>, classes of expressions each with a negation in the
    class. \<open>Context_Implies\<close>, \<open>Context_Keys\<close>: \<open>implies\<close>, and the properties.
  \<^item> \<open>Context_Scanner\<close>, \<open>Context_Parser\<close>: \<open>platform/contextkey/common/scanner.ts\<close> and the
    parser of \<open>contextkey.ts\<close>, with its recovery from regular expressions that are not escaped.
    \<open>Context_Lexing\<close>, \<open>Context_Roundtrip\<close>, \<open>Context_Text\<close>: what is scanned and parsed of a
    printed expression, and the properties.
  \<^item> \<open>Keybinding_Resolver\<close>, \<open>Keybindings\<close>: \<open>platform/keybinding/common/keybindingResolver.ts\<close> and its
    items. Removals, the maps from chords to keybindings and from commands to keybindings, resolution
    of chords. \<open>Context_Comparable\<close>: substituting constants keeps conditions in the class for which
    \<open>implies\<close> is sound.

  The parts call each other downwards: edits map offset ranges, ranges are made of positions, lengths
  act on positions, line ranges convert to ranges, the sets and edits search with \<open>Arrays_Find\<close>.

  \<^bold>\<open>How state and operations correspond to the code\<close>

  A class is a \<open>record\<close> whose fields carry a prefix, a method \<open>m\<close> of class \<open>C\<close> is the
  definition \<open>C_m\<close> with the receiver as first argument, a static method the same without it, a
  constructor \<open>C_new\<close>. A method that changes its object returns the new record. A method that may
  throw returns \<open>js_error + 'a\<close>, and \<open>undefined\<close> or \<open>null\<close> results are \<open>None\<close>. A
  loop over an index is a function of its own named after its method, with a measure where it is not
  structural. The loops that need not end for every argument (\<open>binarySearch2\<close>,
  \<open>sortedDiff\<close>, \<open>quickSelect\<close>, \<open>topAsync\<close>, the loops along the links of nodes) are \<open>partial_function (option)\<close>, where \<open>None\<close> is a call
  that does not return, and that they return is part of their theorems. The operations
  on context keys that call each other (\<open>negate\<close>, \<open>And_create\<close>, \<open>Or_create\<close>) and the recursive
  methods of the parser take a bound on the depth of their calls; that for every well-formed expression and
  every input some bound suffices, with the same result from there on, is part of their theorems
  (\<open>settles\<close>, \<open>runs\<close>). Callbacks and comparators are function arguments. Functions of the source that are named like constants of HOL have a prefix
  \<open>js_\<close> or the class name.

  \<^bold>\<open>Numbers and bounds\<close>

  Line numbers, columns, offsets and lengths are \<open>int\<close>: the arithmetic of doubles on them is exact
  below \<open>2 ^ 53\<close>. Narrowing is written out where the code narrows: \<open>v | 0\<close> is \<open>js_or0\<close>,
  a \<open>Uint32Array\<close> is a list of 32-bit words. Theorems that depend on a bound name it:
  \<open>Position_is32\<close> for the comparators that truncate, \<open>packable\<close> for columns below \<open>2 ^ 26\<close>,
  \<open>psc_ok\<close> and \<open>ct_ok\<close> for sums below \<open>2 ^ 32\<close>, \<open>small\<close> for mirrored texts below \<open>2 ^ 31\<close> units.

  \<^bold>\<open>What the lemmas show\<close>

  For ranges and sets: the set of offsets, lines or positions each operation denotes, and that sets stay
  normalized. For edits: applying a composition is applying its parts, a rebased pair converges,
  normal forms are canonical, inverses undo. For searches: agreement with the linear search. For
  strings: splitting and iterating lose nothing, comparisons are the lexicographic order. For lengths:
  the monoid, its action on positions, and the refinement by packed numbers. For prefix sums, queues,
  linked lists, linked maps and caches: every run of operations answers like plain sums and plain lists,
  a mirror model like the text that the events give, and a cache holds the keys used last. For task queues: bounds on what runs in every reachable state,
  the order of the calls, and that no task waits for ever. For selection and grouping: the
  result is that of the sorted array, the calls return. For diffs: every stage returns a list of diffs
  between which the sequences agree, so that applying the diffs turns the first into the second. For context
  keys: the operations return well-formed expressions with the value they should have, \<open>implies\<close> is
  sound, parsing never throws, and reads what is printed. For keybindings: the last keybinding that fits
  decides, removals drop what they target and nothing else, and what is not listed is hidden by a later one.

  \<^bold>\<open>Not modelled\<close>

  Formatting for debugging (\<open>toString\<close>, \<open>toJSON\<close>), regular expressions beyond the line
  terminators, Unicode tables (graphemes, ambiguous characters, case mapping, which is an argument),
  timers and the other combinators of promises, the DOM, the services, the user interface, the command line written in Rust, the
  extensions, the build and the tests. Messages of exceptions are not modelled. In the diff computer,
  the algorithm of Myers (used from 1700 lines on), the refinement of diffs to characters and moved
  lines. Remaining modules of the core that a further extension would take on: the piece tree and the
  bracket pair tree.
\<close>

end
